(* ===== verification/OS_Prelude.thy ===== *)
theory OS_Prelude
  imports Main "HOL-Library.Word"
begin

text \<open>
  What every component of the kernel model shares: the names of the machine types, the
  result type of a kernel routine, the \<^term>\<open>rbind\<close> that composes two routines the way a
  statement sequence does, and generic lemmas on results, lists and machine words.

  A routine of the kernel either returns or does not. The ways it does not return are the
  constructors of \<open>kerror\<close>: \<open>Panic msg\<close> is a call of \<^verbatim>\<open>panic(msg)\<close>
  (\<^verbatim>\<open>libc/stdio/kprintf.c\<close>: print and loop for ever), \<open>Sleeps ch\<close> is a process that
  goes to sleep and needs another one to wake it, \<open>Fault why\<close> is an access outside the
  object it indexes (undefined behaviour of C), and \<open>Diverges\<close> is a loop with no exit.
\<close>

section \<open>Machine types\<close>

type_synonym byte = "8 word"
type_synonym u16 = "16 word"
type_synonym u32 = "32 word"
type_synonym u64 = "64 word"

section \<open>Results of kernel routines\<close>

datatype kerror = Panic string | Sleeps string | Fault string | Diverges

type_synonym 'a res = "kerror + 'a"

definition rbind :: "'a res \<Rightarrow> ('a \<Rightarrow> 'b res) \<Rightarrow> 'b res" where
  "rbind m f = (case m of Inl e \<Rightarrow> Inl e | Inr x \<Rightarrow> f x)"

definition returns :: "'a res \<Rightarrow> bool" where
  "returns m = (case m of Inl _ \<Rightarrow> False | Inr _ \<Rightarrow> True)"

text \<open>A call that may go to sleep in the middle: it returns a value, or stops waiting on a channel
  with the number of bytes it has already moved.\<close>

datatype 'a outcome = Ret int 'a | Block string nat 'a

lemma rbind_simps [simp]:
  "rbind (Inl e) f = Inl e"
  "rbind (Inr x) f = f x"
  by (simp_all add: rbind_def)

lemma returns_simps [simp]:
  "\<not> returns (Inl e)"
  "returns (Inr x)"
  by (simp_all add: returns_def)

lemma returns_iff: "returns m \<longleftrightarrow> (\<exists>x. m = Inr x)"
  by (cases m) auto

lemma rbind_eq_Inr: "rbind m f = Inr y \<longleftrightarrow> (\<exists>x. m = Inr x \<and> f x = Inr y)"
  by (cases m) auto

lemma rbind_InrE:
  assumes "rbind m f = Inr y"
  obtains x where "m = Inr x" and "f x = Inr y"
  using assms by (auto simp: rbind_eq_Inr)

lemma rbind_assoc: "rbind (rbind m f) g = rbind m (\<lambda>x. rbind (f x) g)"
  by (cases m) auto

lemma rbind_cong [fundef_cong]:
  "m = m' \<Longrightarrow> (\<And>x. m' = Inr x \<Longrightarrow> f x = g x) \<Longrightarrow> rbind m f = rbind m' g"
  by (cases m') auto

text \<open>An array access of C as a partial operation: outside the array it is a fault.\<close>

definition aget :: "'a list \<Rightarrow> nat \<Rightarrow> 'a res" where
  "aget xs i = (if i < length xs then Inr (xs ! i) else Inl (Fault ''index''))"

definition aset :: "'a list \<Rightarrow> nat \<Rightarrow> 'a \<Rightarrow> 'a list res" where
  "aset xs i v = (if i < length xs then Inr (xs[i := v]) else Inl (Fault ''index''))"

lemma aget_in [simp]: "i < length xs \<Longrightarrow> aget xs i = Inr (xs ! i)"
  by (simp add: aget_def)

lemma aset_in [simp]: "i < length xs \<Longrightarrow> aset xs i v = Inr (xs[i := v])"
  by (simp add: aset_def)

section \<open>What holds when a routine returns\<close>

text \<open>\<open>post Q m\<close>: if the routine returns, its result satisfies \<open>Q\<close>. The rules follow the structure of a routine, so
  that an invariant is pushed through it by resolution.\<close>

definition post :: "('a \<Rightarrow> bool) \<Rightarrow> 'a res \<Rightarrow> bool" where
  "post Q m \<longleftrightarrow> (\<forall>r. m = Inr r \<longrightarrow> Q r)"

named_theorems post_intros

lemma post_Inl [post_intros]: "post Q (Inl e)"
  by (simp add: post_def)

lemma post_Inr: "Q r \<Longrightarrow> post Q (Inr r)"
  by (simp add: post_def)

lemma postD: "post Q m \<Longrightarrow> m = Inr r \<Longrightarrow> Q r"
  by (simp add: post_def)

lemma post_bind: "post R m \<Longrightarrow> (\<And>x. R x \<Longrightarrow> post Q (f x)) \<Longrightarrow> post Q (rbind m f)"
  by (auto simp: post_def rbind_eq_Inr)

lemma post_mono: "post Q m \<Longrightarrow> (\<And>r. Q r \<Longrightarrow> R r) \<Longrightarrow> post R m"
  by (simp add: post_def)

lemma post_if [post_intros]: "(b \<Longrightarrow> post Q x) \<Longrightarrow> (\<not> b \<Longrightarrow> post Q y) \<Longrightarrow> post Q (if b then x else y)"
  by simp

lemma post_Let [post_intros]: "post Q (f x) \<Longrightarrow> post Q (Let x f)"
  by simp

lemma post_option [post_intros]:
  "(x = None \<Longrightarrow> post Q a) \<Longrightarrow> (\<And>y. x = Some y \<Longrightarrow> post Q (f y)) \<Longrightarrow> post Q (case x of None \<Rightarrow> a | Some y \<Rightarrow> f y)"
  by (cases x) auto

lemma post_prod [post_intros]: "(\<And>a b. x = (a, b) \<Longrightarrow> post Q (f a b)) \<Longrightarrow> post Q (case x of (a, b) \<Rightarrow> f a b)"
  by (cases x) auto

lemma post_nat [post_intros]:
  "(x = 0 \<Longrightarrow> post Q a) \<Longrightarrow> (\<And>n. x = Suc n \<Longrightarrow> post Q (f n)) \<Longrightarrow> post Q (case x of 0 \<Rightarrow> a | Suc n \<Rightarrow> f n)"
  by (cases x) auto

section \<open>Lists\<close>

lemma nth_list_update_cases: "xs[i := v] ! j = (if i = j \<and> j < length xs then v else xs ! j)"
  by (cases "i < length xs") (auto simp: nth_list_update list_update_beyond)

lemma take_update_ge [simp]: "n \<le> i \<Longrightarrow> take n (xs[i := v]) = take n xs"
  by (simp add: take_update_swap list_update_beyond)

lemma map_nth_upt: "map ((!) xs) [0..<length xs] = xs"
  by (rule map_nth)

section \<open>Machine words\<close>

lemma unat_less_2_32: "unat (a :: u32) < 4294967296"
proof -
  have "unat a < 2 ^ LENGTH(32)" by (rule unsigned_less)
  then show ?thesis by simp
qed

lemma uint_less_2_32: "uint (a :: u32) < 4294967296"
  using uint_lt2p [of a] by simp

lemma sint_u32: "sint (a :: u32) = (if uint a < 2147483648 then uint a else uint a - 4294967296)"
proof -
  have "sint a = (uint a + 2147483648) mod 4294967296 - 2147483648"
    by (simp add: sint_uint signed_take_bit_eq_take_bit_shift take_bit_eq_mod)
  moreover have "uint a < 4294967296" and "0 \<le> uint a"
    by (simp_all add: uint_less_2_32)
  moreover have "(uint a - 2147483648 + 4294967296) mod 4294967296 = uint a - 2147483648"
    if "2147483648 \<le> uint a"
    using that \<open>uint a < 4294967296\<close> by (simp only: mod_add_self2) simp
  ultimately show ?thesis by (auto simp: not_less add.commute)
qed

lemma unat_minus_one_u32: "unat (- 1 :: u32) = 4294967295"
  by (simp add: unsigned_minus_1_eq_mask mask_eq_exp_minus_1)

lemma word_diff_eq_iff: "((x :: 'a::len word) - b = i) = (x = b + i)"
  by (metis add.commute add_diff_cancel diff_add_cancel)

lemma unat_of_nat_u32: "k < 4294967296 \<Longrightarrow> unat (of_nat k :: u32) = k"
  by (simp add: unat_of_nat)

lemma unat_add_of_nat:
  assumes "unat a + k < 4294967296"
  shows "unat (a + of_nat k :: u32) = unat a + k"
proof -
  have "unat (of_nat k :: u32) = k" using assms by (intro unat_of_nat_u32) simp
  with assms show ?thesis by (simp add: unat_word_ariths)
qed

lemma unat_plus_u32: "unat a + unat b < 4294967296 \<Longrightarrow> unat (a + b :: u32) = unat a + unat b"
  by (simp add: unat_word_ariths)

lemma unat_minus_u32:
  "unat (a - b :: u32) = (if unat b \<le> unat a then unat a - unat b else unat a + 4294967296 - unat b)"
  by (simp add: unat_sub_if_size word_size)

lemma diff_of_nat_iff:
  fixes x d :: u32
  assumes "k < 4294967296"
  shows "(x = d + of_nat k) = (unat (x - d) = k)"
proof -
  have "(x = d + of_nat k) = (x - d = of_nat k)" by (simp add: word_diff_eq_iff)
  also have "\<dots> = (unat (x - d) = k)"
    using unat_of_nat_u32 [OF assms] by auto
  finally show ?thesis .
qed

lemma unat_sub_le: "(b :: 'a::len word) \<le> a \<Longrightarrow> unat (a - b) = unat a - unat b"
  by (rule unat_sub)

lemma unat_minus_one_less: "(a :: 'a::len word) \<noteq> 0 \<Longrightarrow> unat (a - 1) < unat a"
  by (metis unat_minus_one unat_gt_0 diff_less zero_less_one)

lemma unat_Suc_pred: "(a :: 'a::len word) \<noteq> 0 \<Longrightarrow> unat a = Suc (unat (a - 1))"
  by (simp add: unat_minus_one unat_gt_0)

lemma unat_Suc_less: "(i :: 'a::len word) < n \<Longrightarrow> unat (i + 1) = Suc (unat i)"
proof -
  assume "i < n"
  then have "1 + i \<noteq> 0" by unat_arith
  then show ?thesis by (simp add: unatSuc add.commute)
qed

lemma word_le_cases_Suc: "(i :: 'a::len word) < n \<Longrightarrow> (i \<le> y) = (y = i \<or> i + 1 \<le> y)"
  by (auto simp: word_le_nat_alt unat_Suc_less word_unat_eq_iff)

lemma unat_sub_Suc_less: "(i :: 'a::len word) < n \<Longrightarrow> unat (n - (i + 1)) < unat (n - i)"
proof -
  assume "i < n"
  then have "n - i \<noteq> 0" by simp
  then have "unat (n - i - 1) < unat (n - i)" by (rule unat_minus_one_less)
  then show ?thesis by (simp add: diff_diff_eq)
qed

section \<open>Byte stores to user memory\<close>

text \<open>A run of one-byte stores at increasing addresses, any of which may fail.\<close>

primrec store_run :: "(u32 \<Rightarrow> byte \<Rightarrow> 'u \<Rightarrow> 'u option) \<Rightarrow> u32 \<Rightarrow> byte list \<Rightarrow> 'u \<Rightarrow> 'u option" where
  "store_run wr a [] u = Some u"
| "store_run wr a (c # cs) u = (case wr a c u of None \<Rightarrow> None | Some u' \<Rightarrow> store_run wr (a + 1) cs u')"

text \<open>A store function that collects the bytes, and one that writes a flat user memory.\<close>

definition collect :: "u32 \<Rightarrow> byte \<Rightarrow> byte list \<Rightarrow> byte list option" where
  "collect a c u = Some (u @ [c])"

definition poke :: "u32 \<Rightarrow> byte \<Rightarrow> (u32 \<Rightarrow> byte) \<Rightarrow> (u32 \<Rightarrow> byte) option" where
  "poke a c u = Some (u(a := c))"

lemma store_run_collect: "store_run collect a cs u = Some (u @ cs)"
  by (induction cs arbitrary: a u) (simp_all add: collect_def)

lemma store_run_poke:
  "length cs < 2 ^ 32 \<Longrightarrow>
   store_run poke a cs u = Some (\<lambda>x. if unat (x - a) < length cs then cs ! unat (x - a) else u x)"
proof (induction cs arbitrary: a u)
  case (Cons c cs)
  have "unat (x - a) = Suc (unat (x - (a + 1)))" if "x \<noteq> a" for x
    using unat_Suc_pred [of "x - a"] that by (simp add: diff_diff_eq)
  moreover have "\<not> unat (a - (a + 1)) < length cs"
    using Cons.prems by (simp add: unat_minus_one_u32)
  ultimately have "(if unat (x - (a + 1)) < length cs then cs ! unat (x - (a + 1)) else (u(a := c)) x)
      = (if unat (x - a) < Suc (length cs) then (c # cs) ! unat (x - a) else u x)" for x
    by (cases "x = a") auto
  with Cons show ?case by (simp add: poke_def)
qed simp

end
