(* ===== verification/Machine_Mem.thy ===== *)
theory Machine_Mem
  imports OS_Prelude
begin

text \<open>
  The byte-addressed 32-bit memory that the pointer-manipulating parts of the kernel
  (\<^verbatim>\<open>libc/string\<close>, \<^verbatim>\<open>pmm.c\<close>, \<^verbatim>\<open>kalloc.c\<close>, \<^verbatim>\<open>paging.c\<close>) read and write.
  An aligned \<^verbatim>\<open>uint32_t\<close> access is four little-endian byte accesses, as on RISC-V.
  The locale \<open>word_memory\<close> is the interface the word-level clients rely on;
  the interpretation at the end discharges it for the byte-level definitions.
\<close>

unbundle bit_operations_syntax

type_synonym mem = "u32 \<Rightarrow> byte"

definition load32 :: "mem \<Rightarrow> u32 \<Rightarrow> u32" where
  "load32 m a =
     ucast (m a) OR push_bit 8 (ucast (m (a + 1)))
       OR push_bit 16 (ucast (m (a + 2))) OR push_bit 24 (ucast (m (a + 3)))"

definition store32 :: "mem \<Rightarrow> u32 \<Rightarrow> u32 \<Rightarrow> mem" where
  "store32 m a v =
     m(a := ucast v, a + 1 := ucast (drop_bit 8 v),
       a + 2 := ucast (drop_bit 16 v), a + 3 := ucast (drop_bit 24 v))"

definition aligned4 :: "u32 \<Rightarrow> bool" where
  "aligned4 a \<longleftrightarrow> unat a mod 4 = 0"

text \<open>The addresses of the \<open>n\<close> bytes that start at \<open>a\<close>, with the wrap-around of the address space.\<close>

definition in_range :: "u32 \<Rightarrow> u32 \<Rightarrow> nat \<Rightarrow> bool" where
  "in_range x a n \<longleftrightarrow> unat (x - a) < n"

subsection \<open>Bytes of a word\<close>

lemma le_word_cases:
  fixes v :: u32
  shows "ucast (ucast v :: byte) OR push_bit 8 (ucast (ucast (drop_bit 8 v) :: byte))
    OR push_bit 16 (ucast (ucast (drop_bit 16 v) :: byte))
    OR push_bit 24 (ucast (ucast (drop_bit 24 v) :: byte)) = v"
proof (rule bit_word_eqI)
  fix n
  show "bit (ucast (ucast v :: byte) OR push_bit 8 (ucast (ucast (drop_bit 8 v) :: byte))
    OR push_bit 16 (ucast (ucast (drop_bit 16 v) :: byte))
    OR push_bit 24 (ucast (ucast (drop_bit 24 v) :: byte)) :: u32) n = bit v n"
    if "n < LENGTH(32)"
    using that by (cases "24 \<le> n"; cases "16 \<le> n") (auto simp: bit_simps)
qed

lemma offset_distinct:
  "(a :: u32) + 1 \<noteq> a" "a + 2 \<noteq> a" "a + 3 \<noteq> a" "a + 2 \<noteq> a + 1" "a + 3 \<noteq> a + 1" "a + 3 \<noteq> a + 2"
  "a \<noteq> a + 1" "a \<noteq> a + 2" "a \<noteq> a + 3" "a + 1 \<noteq> a + 2" "a + 1 \<noteq> a + 3" "a + 2 \<noteq> a + 3"
  by simp_all

lemma load32_store32_same: "load32 (store32 m a v) a = v"
  using le_word_cases [of v] by (simp add: load32_def store32_def offset_distinct)

lemma load32_cong:
  assumes "m a = m' a" "m (a + 1) = m' (a + 1)" "m (a + 2) = m' (a + 2)" "m (a + 3) = m' (a + 3)"
  shows "load32 m a = load32 m' a"
  using assms by (simp add: load32_def)

lemma unat_aligned_add:
  assumes "aligned4 a" and "k < 4"
  shows "unat (a + of_nat k) = unat a + k"
proof -
  have "unat a < 4294967296" by (rule unat_less_2_32)
  with assms have "unat a + k < 4294967296"
    unfolding aligned4_def by presburger
  moreover have "unat (of_nat k :: u32) = k"
    using assms(2) by (simp add: unat_of_nat)
  ultimately show ?thesis by (simp add: unat_word_ariths)
qed

lemma aligned_offset_neq:
  assumes "aligned4 a" "aligned4 b" "a \<noteq> b" "j < 4" "k < 4"
  shows "a + of_nat j \<noteq> b + of_nat k"
proof
  assume "a + of_nat j = b + of_nat k"
  then have "unat a + j = unat b + k"
    using assms by (metis unat_aligned_add)
  moreover have "unat a mod 4 = 0" "unat b mod 4 = 0"
    using assms by (simp_all add: aligned4_def)
  ultimately have "unat a = unat b"
    using assms(4,5) by presburger
  with assms(3) show False by (simp add: word_unat_eq_iff)
qed

lemma load32_fun_upd_other:
  assumes "aligned4 a" "aligned4 b" "a \<noteq> b" "k < 4"
  shows "load32 (m(b + of_nat k := v)) a = load32 m a"
proof (rule load32_cong)
  show "(m(b + of_nat k := v)) a = m a"
    using aligned_offset_neq [OF assms(1-3), of 0 k] assms(4) by simp
  show "(m(b + of_nat k := v)) (a + 1) = m (a + 1)"
    using aligned_offset_neq [OF assms(1-3), of 1 k] assms(4) by simp
  show "(m(b + of_nat k := v)) (a + 2) = m (a + 2)"
    using aligned_offset_neq [OF assms(1-3), of 2 k] assms(4) by simp
  show "(m(b + of_nat k := v)) (a + 3) = m (a + 3)"
    using aligned_offset_neq [OF assms(1-3), of 3 k] assms(4) by simp
qed

lemma load32_store32_other:
  assumes "aligned4 a" "aligned4 b" "a \<noteq> b"
  shows "load32 (store32 m b v) a = load32 m a"
  using load32_fun_upd_other [OF assms, of 0] load32_fun_upd_other [OF assms, of 1]
    load32_fun_upd_other [OF assms, of 2] load32_fun_upd_other [OF assms, of 3]
  by (simp add: store32_def)

lemma store32_frame: "\<not> in_range x a 4 \<Longrightarrow> store32 m a v x = m x"
proof -
  assume *: "\<not> in_range x a 4"
  have "x \<noteq> a + of_nat k" if "k < 4" for k
  proof
    assume "x = a + of_nat k"
    then have "unat (x - a) = k" using that by (simp add: unat_of_nat)
    with * that show False by (simp add: in_range_def)
  qed
  from this [of 0] this [of 1] this [of 2] this [of 3]
  show ?thesis by (simp add: store32_def)
qed

section \<open>The interface of a word memory\<close>

locale word_memory =
  fixes ld :: "'m \<Rightarrow> u32 \<Rightarrow> u32" and st :: "'m \<Rightarrow> u32 \<Rightarrow> u32 \<Rightarrow> 'm" and ok :: "u32 \<Rightarrow> bool"
  assumes ld_st_same: "ld (st m a v) a = v"
    and ld_st_other: "ok a \<Longrightarrow> ok b \<Longrightarrow> a \<noteq> b \<Longrightarrow> ld (st m b v) a = ld m a"
begin

definition st_all :: "'m \<Rightarrow> (u32 \<times> u32) list \<Rightarrow> 'm" where
  "st_all m ps = foldl (\<lambda>m p. st m (fst p) (snd p)) m ps"

lemma ld_st: "ok a \<Longrightarrow> ok b \<Longrightarrow> ld (st m b v) a = (if a = b then v else ld m a)"
  by (simp add: ld_st_same ld_st_other)

lemma ld_st_all_notin:
  "ok a \<Longrightarrow> \<forall>p \<in> set ps. ok (fst p) \<Longrightarrow> a \<notin> fst ` set ps \<Longrightarrow> ld (st_all m ps) a = ld m a"
  by (induction ps arbitrary: m) (auto simp: st_all_def ld_st_other)

lemma ld_st_commute:
  "ok a \<Longrightarrow> ok b \<Longrightarrow> ok c \<Longrightarrow> a \<noteq> b \<Longrightarrow> ld (st (st m a v) b w) c = ld (st (st m b w) a v) c"
  by (simp add: ld_st)

end

interpretation m32: word_memory load32 store32 aligned4
  by unfold_locales (auto simp: load32_store32_same load32_store32_other)

end
