(* ===== verification/Libc_String.thy ===== *)
theory Libc_String
  imports Machine_Mem
begin

text \<open>
  The kernel's string routines (\<^verbatim>\<open>src/libc/string\<close>), on the byte memory. Each C loop is a
  recursive function with the loop's own variables; the loops whose exit test can be true for
  ever are \<^theory_text>\<open>partial_function (option)\<close>, so that \<open>None\<close> is the run that does not end.
  The properties say which bytes each routine reads and writes, and in particular where
  \<open>memcpy\<close> and \<open>memmove\<close> differ from the ISO C contract the rest of the kernel assumes.
\<close>

section \<open>memset, memcpy, memmove, memcmp\<close>

text \<open>\<^verbatim>\<open>for (unsigned int i=0; i<n; i++) buffer[i] = (unsigned char)c;\<close>\<close>

function memset_loop :: "u32 \<Rightarrow> byte \<Rightarrow> u32 \<Rightarrow> u32 \<Rightarrow> mem \<Rightarrow> mem" where
  "memset_loop buffer c n i m =
     (if i < n then memset_loop buffer c n (i + 1) (m(buffer + i := c)) else m)"
  by pat_completeness auto
termination
  by (relation "measure (\<lambda>(buffer, c, n, i, m). unat (n - i))") (auto intro: unat_sub_Suc_less)

declare memset_loop.simps [simp del]

definition memset :: "mem \<Rightarrow> u32 \<Rightarrow> u32 \<Rightarrow> u32 \<Rightarrow> mem" where
  "memset m str c n = memset_loop str (ucast c) n 0 m"

text \<open>
  \<^verbatim>\<open>for (int i=0; i<=(int)n; i++) dst[i] = src[i];\<close>: the counter is an \<^verbatim>\<open>int\<close> and the
  test is \<open>\<le>\<close>.
\<close>

function memcpy_loop :: "u32 \<Rightarrow> u32 \<Rightarrow> int \<Rightarrow> int \<Rightarrow> mem \<Rightarrow> mem" where
  "memcpy_loop dst src n i m =
     (if i \<le> n then memcpy_loop dst src n (i + 1) (m(dst + of_int i := m (src + of_int i))) else m)"
  by pat_completeness auto
termination
  by (relation "measure (\<lambda>(dst, src, n, i, m). nat (n + 1 - i))") auto

declare memcpy_loop.simps [simp del]

definition memcpy :: "mem \<Rightarrow> u32 \<Rightarrow> u32 \<Rightarrow> u32 \<Rightarrow> mem" where
  "memcpy m s1 s2 n = memcpy_loop s1 s2 (sint n) 0 m"

text \<open>\<^verbatim>\<open>for (i=0; i > n; i++) dest[i] = source[i];\<close>\<close>

function memmove_up :: "u32 \<Rightarrow> u32 \<Rightarrow> u32 \<Rightarrow> u32 \<Rightarrow> mem \<Rightarrow> mem" where
  "memmove_up dest source n i m =
     (if n < i then memmove_up dest source n (i + 1) (m(dest + i := m (source + i))) else m)"
  by pat_completeness auto
termination
proof (relation "measure (\<lambda>(dest, source, n, i, m). unat (- i))")
  fix dest source n i :: u32 and m :: mem
  assume "n < i"
  then have "- i \<noteq> 0" by auto
  then have "unat (- i - 1) < unat (- i)" by (rule unat_minus_one_less)
  then show "((dest, source, n, i + 1, m(dest + i := m (source + i))), dest, source, n, i, m)
      \<in> measure (\<lambda>(dest, source, n, i, m). unat (- i))"
    by simp
qed simp

declare memmove_up.simps [simp del]

text \<open>\<^verbatim>\<open>for (i = n - 1; i <= n; i--) dest[i] = source[i];\<close>: ends by wrap-around of \<open>i\<close>.\<close>

partial_function (option) memmove_down :: "u32 \<Rightarrow> u32 \<Rightarrow> u32 \<Rightarrow> u32 \<Rightarrow> mem \<Rightarrow> mem option" where
  "memmove_down dest source n i m =
     (if i \<le> n then memmove_down dest source n (i - 1) (m(dest + i := m (source + i))) else Some m)"

definition memmove :: "mem \<Rightarrow> u32 \<Rightarrow> u32 \<Rightarrow> u32 \<Rightarrow> mem option" where
  "memmove m dest source n =
     (if dest = source \<or> n = 0 then Some m
      else if dest < source \<and> sint (source - dest) < sint n
        then Some (memmove_up dest source n 0 m)
      else if source < dest \<and> sint (source - dest) < sint n
        then memmove_down dest source n (n - 1) m
      else Some (memcpy m dest source n))"

text \<open>\<^verbatim>\<open>memcmp\<close> compares as \<^verbatim>\<open>unsigned char\<close> and answers 1 when the first string is smaller.\<close>

function memcmp_loop :: "mem \<Rightarrow> u32 \<Rightarrow> u32 \<Rightarrow> u32 \<Rightarrow> u32 \<Rightarrow> int" where
  "memcmp_loop m a b n i =
     (if i < n then
        (if m (a + i) < m (b + i) then 1
         else if m (b + i) < m (a + i) then -1
         else memcmp_loop m a b n (i + 1))
      else 0)"
  by pat_completeness auto
termination
  by (relation "measure (\<lambda>(m, a, b, n, i). unat (n - i))") (auto intro: unat_sub_Suc_less)

declare memcmp_loop.simps [simp del]

definition memcmp :: "mem \<Rightarrow> u32 \<Rightarrow> u32 \<Rightarrow> u32 \<Rightarrow> int" where
  "memcmp m str1 str2 n = memcmp_loop m str1 str2 n 0"

section \<open>strlen, strncmp, strcpy, strcat\<close>

partial_function (option) strlen_loop :: "mem \<Rightarrow> u32 \<Rightarrow> u32 \<Rightarrow> u32 option" where
  "strlen_loop m str cnt = (if m (str + cnt) \<noteq> 0 then strlen_loop m str (cnt + 1) else Some cnt)"

definition strlen :: "mem \<Rightarrow> u32 \<Rightarrow> u32 option" where
  "strlen m str = strlen_loop m str 0"

text \<open>\<^verbatim>\<open>while (n && *a && (*a == *b)) { n--; a++; b++; }\<close>\<close>

function strncmp :: "mem \<Rightarrow> u32 \<Rightarrow> u32 \<Rightarrow> u32 \<Rightarrow> int" where
  "strncmp m a b n =
     (if n \<noteq> 0 \<and> m a \<noteq> 0 \<and> m a = m b then strncmp m (a + 1) (b + 1) (n - 1)
      else if n = 0 then 0
      else uint (m a) - uint (m b))"
  by pat_completeness auto
termination
  by (relation "measure (\<lambda>(m, a, b, n). unat n)") (auto intro: unat_minus_one_less)

declare strncmp.simps [simp del]

text \<open>\<^verbatim>\<open>while(--n > 0 && (*s++ = *t++) != 0) ;  *s = 0;\<close>\<close>

function strcpy_loop :: "u32 \<Rightarrow> u32 \<Rightarrow> u32 \<Rightarrow> mem \<Rightarrow> mem" where
  "strcpy_loop s t n m =
     (if n - 1 > 0 then
        (let m' = m(s := m t) in
         if m t \<noteq> 0 then strcpy_loop (s + 1) (t + 1) (n - 1) m' else m'(s + 1 := 0))
      else m(s := 0))"
  by pat_completeness auto
termination
proof (relation "measure (\<lambda>(s, t, n, m). unat (n - 1))")
  fix s t n :: u32 and m x :: mem
  assume "0 < n - 1" and "x = m(s := m t)"
  then have "n - 1 \<noteq> 0" by auto
  then have "unat (n - 1 - 1) < unat (n - 1)" by (rule unat_minus_one_less)
  then show "((s + 1, t + 1, n - 1, x), s, t, n, m) \<in> measure (\<lambda>(s, t, n, m). unat (n - 1))"
    by simp
qed simp

declare strcpy_loop.simps [simp del]

definition strcpy :: "mem \<Rightarrow> u32 \<Rightarrow> u32 \<Rightarrow> u32 \<Rightarrow> mem" where
  "strcpy m s t n = (if n \<le> 0 then m else strcpy_loop s t n m)"

partial_function (option) strcat_copy :: "u32 \<Rightarrow> u32 \<Rightarrow> u32 \<Rightarrow> u32 \<Rightarrow> mem \<Rightarrow> mem option" where
  "strcat_copy dest src i j m =
     (if m (src + j) \<noteq> 0 then strcat_copy dest src i (j + 1) (m(dest + (i + j) := m (src + j)))
      else Some (m(dest + (i + j) := 0)))"

definition strcat :: "mem \<Rightarrow> u32 \<Rightarrow> u32 \<Rightarrow> mem option" where
  "strcat m dest src =
     (case strlen_loop m dest 0 of None \<Rightarrow> None | Some i \<Rightarrow> strcat_copy dest src i 0 m)"

section \<open>What the routines do\<close>

text \<open>
  \<open>copied m d s k\<close> is the memory after the \<open>k\<close> bytes at \<open>s\<close> have been placed at \<open>d\<close>,
  all read before any is written: what ISO C's \<^verbatim>\<open>memmove(d, s, k)\<close> promises.
\<close>

definition copied :: "mem \<Rightarrow> u32 \<Rightarrow> u32 \<Rightarrow> nat \<Rightarrow> mem" where
  "copied m d s k = (\<lambda>x. if in_range x d k then m (s + (x - d)) else m x)"

text \<open>The C string at an address, cut after \<open>k\<close> bytes.\<close>

fun cstr :: "mem \<Rightarrow> u32 \<Rightarrow> nat \<Rightarrow> byte list" where
  "cstr m a 0 = []"
| "cstr m a (Suc k) = (if m a = 0 then [] else m a # cstr m (a + 1) k)"

lemma memset_loop_eq:
  "memset_loop b c n i m = (\<lambda>x. if i \<le> x - b \<and> x - b < n then c else m x)"
proof (induction b c n i m rule: memset_loop.induct)
  case (1 b c n i m)
  show ?case
  proof (cases "i < n")
    case True
    with True show ?thesis
      by (subst memset_loop.simps) (auto simp: "1.IH" fun_eq_iff word_le_cases_Suc [OF True] word_diff_eq_iff)
  next
    case False
    then have "\<not> (i \<le> y \<and> y < n)" for y by auto
    with False show ?thesis by (subst memset_loop.simps) (auto simp: fun_eq_iff)
  qed
qed

lemma memset_eq: "memset m str c n = (\<lambda>x. if in_range x str (unat n) then ucast c else m x)"
  by (simp add: memset_def memset_loop_eq in_range_def word_less_nat_alt)


lemma uint_of_int_bound: "0 \<le> i \<Longrightarrow> i < 4294967296 \<Longrightarrow> uint (of_int i :: u32) = i"
  by (simp add: uint_word_of_int)

lemma diff_of_int_iff:
  fixes x d :: u32
  assumes "0 \<le> i" and "i < 4294967296"
  shows "(x = d + of_int i) = (uint (x - d) = i)"
proof -
  have "(x = d + of_int i) = (x - d = of_int i)" by (simp add: word_diff_eq_iff)
  also have "\<dots> = (uint (x - d) = i)"
    using uint_of_int_bound [OF assms] by (metis word_of_int_uint)
  finally show ?thesis .
qed

text \<open>
  The forward loop copies as if it read everything first, when no byte is written before
  it is read.
\<close>

lemma memcpy_loop_eq:
  assumes "0 \<le> i" "n < 2147483648"
    and "\<And>j k. 0 \<le> j \<Longrightarrow> j < k \<Longrightarrow> k \<le> n \<Longrightarrow> d + of_int j \<noteq> s + of_int k"
  shows "memcpy_loop d s n i m =
    (\<lambda>x. if i \<le> uint (x - d) \<and> uint (x - d) \<le> n then m (s + (x - d)) else m x)"
  using assms
proof (induction d s n i m rule: memcpy_loop.induct)
  case (1 d s n i m)
  show ?case
  proof (cases "i \<le> n")
    case False
    then show ?thesis by (subst memcpy_loop.simps) (auto simp: fun_eq_iff)
  next
    case True
    let ?m = "m(d + of_int i := m (s + of_int i))"
    have IH: "memcpy_loop d s n (i + 1) ?m =
      (\<lambda>x. if i + 1 \<le> uint (x - d) \<and> uint (x - d) \<le> n then ?m (s + (x - d)) else ?m x)"
      by (rule "1.IH" [OF True]) (use "1.prems" in auto)
    have at_i: "(x = d + of_int i) = (uint (x - d) = i)" for x
      using "1.prems" True by (intro diff_of_int_iff) auto
    have read: "?m (s + (x - d)) = m (s + (x - d))"
      if "i + 1 \<le> uint (x - d)" "uint (x - d) \<le> n" for x
    proof -
      have "d + of_int i \<noteq> s + of_int (uint (x - d))"
        using "1.prems"(1) that by (intro "1.prems"(3)) auto
      then show ?thesis by simp
    qed
    have "memcpy_loop d s n i m = memcpy_loop d s n (i + 1) ?m"
      using True by (subst memcpy_loop.simps) simp
    then have eq: "memcpy_loop d s n i m =
      (\<lambda>x. if i + 1 \<le> uint (x - d) \<and> uint (x - d) \<le> n then ?m (s + (x - d)) else ?m x)"
      by (simp only: IH)
    show ?thesis
    proof
      fix x
      show "memcpy_loop d s n i m x =
          (if i \<le> uint (x - d) \<and> uint (x - d) \<le> n then m (s + (x - d)) else m x)"
        using True read [of x] at_i [of x]
        by (cases "uint (x - d) = i") (auto simp: eq)
    qed
  qed
qed

lemma memcpy_eq:
  assumes "uint n < 2147483648"
    and "\<And>j k. 0 \<le> j \<Longrightarrow> j < k \<Longrightarrow> k \<le> uint n \<Longrightarrow> d + of_int j \<noteq> s + of_int k"
  shows "memcpy m d s n = copied m d s (Suc (unat n))"
proof -
  have "memcpy m d s n =
      (\<lambda>x. if 0 \<le> uint (x - d) \<and> uint (x - d) \<le> uint n then m (s + (x - d)) else m x)"
    unfolding memcpy_def using assms by (simp add: sint_u32 memcpy_loop_eq)
  then show ?thesis
    by (simp add: copied_def in_range_def fun_eq_iff less_Suc_eq_le word_le_def [symmetric]
        word_le_nat_alt)
qed


subsection \<open>memmove\<close>

lemma memmove_up_zero: "memmove_up dest source n 0 m = m"
  by (subst memmove_up.simps) simp

lemma memmove_down_eq:
  assumes "k < unat n" "n \<noteq> - 1"
    and "\<And>i j. j < i \<Longrightarrow> i \<le> k \<Longrightarrow> d + of_nat i \<noteq> s + of_nat j"
  shows "memmove_down d s n (of_nat k) m = Some (copied m d s (Suc k))"
  using assms
proof (induction k arbitrary: m)
  case 0
  have "memmove_down d s n (- 1) m' = Some m'" for m'
    using "0.prems"(2) by (subst memmove_down.simps) (auto simp: antisym_conv [OF word_order.extremum])
  then have "memmove_down d s n 0 m = Some (m(d := m s))"
    by (subst memmove_down.simps) simp
  moreover have "m(d := m s) = copied m d s (Suc 0)"
    by (auto simp: copied_def in_range_def fun_eq_iff unat_0_iff)
  ultimately show ?case by simp
next
  case (Suc k)
  let ?i = "of_nat (Suc k) :: u32"
  let ?m = "m(d + ?i := m (s + ?i))"
  have bound: "Suc k < 4294967296"
    using Suc.prems(1) unat_less_2_32 [of n] by simp
  have "?i \<le> n"
    using Suc.prems(1) unat_of_nat_u32 [OF bound] by (simp add: word_le_nat_alt)
  then have "memmove_down d s n ?i m = memmove_down d s n (of_nat k) ?m"
    by (subst memmove_down.simps) simp
  also have "\<dots> = Some (copied ?m d s (Suc k))"
    by (rule Suc.IH) (use Suc.prems in auto)
  also have "copied ?m d s (Suc k) = copied m d s (Suc (Suc k))"
  proof
    fix x
    have x: "(x = d + ?i) = (unat (x - d) = Suc k)"
      by (rule diff_of_nat_iff [OF bound])
    have "s + (x - d) \<noteq> d + ?i" if "unat (x - d) < Suc k"
      using Suc.prems(3) [of "unat (x - d)" "Suc k"] that by auto
    with x show "copied ?m d s (Suc k) x = copied m d s (Suc (Suc k)) x"
      by (auto simp: copied_def in_range_def)
  qed
  finally show ?case .
qed


text \<open>
  The three ways a call with two different, non-wrapping regions can go. Where the destination
  lies above the source the copy is the one ISO C asks for; where it lies below and the regions
  overlap nothing is copied; where it lies below and they do not overlap one byte too many is.
\<close>

lemma memmove_from_below:
  assumes "source < dest" "0 < n" "unat n < 2147483648"
    and "unat dest - unat source < 2147483648" "unat dest + unat n \<le> 4294967296"
  shows "memmove m dest source n = Some (copied m dest source (unat n))"
proof -
  have U: "uint dest = int (unat dest)" "uint source = int (unat source)" "uint n = int (unat n)"
    by simp_all
  have n: "n - 1 = of_nat (unat n - 1)" "unat n - 1 < unat n" "n \<noteq> - 1"
  proof -
    have "n \<noteq> 0" using assms(2) by simp
    then have "unat (n - 1) = unat n - 1" by (rule unat_minus_one)
    then show "n - 1 = of_nat (unat n - 1)" by (simp only: of_nat_unat ucast_id flip: \<open>unat (n - 1) = _\<close>)
    show "unat n - 1 < unat n" using \<open>n \<noteq> 0\<close> by (simp add: unat_gt_0)
    show "n \<noteq> - 1"
    proof
      assume "n = - 1"
      then have "sint n = - 1" by simp
      moreover have "uint n < 2147483648" using assms(3) U(3) by linarith
      ultimately show False
        using sint_u32 [of n] uint_ge_0 [of n] by simp
    qed
  qed
  have "source - dest \<noteq> 0" using assms(1) by auto
  have "uint (source - dest) = uint source - uint dest + 4294967296"
    using assms(1) by (simp add: uint_sub_if' word_less_def)
  moreover have "unat source < unat dest" using assms(1) by (simp add: word_less_nat_alt)
  then have "uint dest - uint source < 2147483648" "uint source < uint dest" "uint n < 2147483648"
    using assms U by linarith+
  ultimately have neg: "sint (source - dest) < sint n"
    by (simp add: sint_u32) (use uint_ge_0 [of n] in linarith)
  have disj: "dest + of_nat i \<noteq> source + of_nat j" if "j < i" "i \<le> unat n - 1" for i j
  proof
    assume eq: "dest + of_nat i = source + of_nat j"
    have lt: "unat dest + i < 4294967296" "unat source + j < 4294967296"
      using that assms(1,2,5) by (simp_all add: word_less_nat_alt)
    have "unat dest + i = unat (dest + of_nat i)" using unat_add_of_nat [OF lt(1)] ..
    also have "\<dots> = unat source + j" unfolding eq by (rule unat_add_of_nat [OF lt(2)])
    finally have "unat dest + i = unat source + j" .
    moreover have "unat source < unat dest" using assms(1) by (simp only: word_less_nat_alt)
    ultimately show False using that(1) by linarith
  qed
  have "memmove_down dest source n (of_nat (unat n - 1)) m =
      Some (copied m dest source (Suc (unat n - 1)))"
    by (rule memmove_down_eq [OF n(2,3) disj])
  moreover have "Suc (unat n - 1) = unat n" using n(2) by simp
  ultimately have "memmove_down dest source n (n - 1) m = Some (copied m dest source (unat n))"
    by (simp only: n(1))
  with assms(1,2) neg show ?thesis
    by (auto simp: memmove_def)
qed

lemma memmove_overlap_above:
  assumes "dest < source" "0 < n" "unat n < 2147483648" "unat source - unat dest < unat n"
  shows "memmove m dest source n = Some m"
proof -
  have U: "uint dest = int (unat dest)" "uint source = int (unat source)" "uint n = int (unat n)"
    by simp_all
  have "uint (source - dest) = uint source - uint dest"
    using assms(1) by (simp add: uint_sub_if' word_less_def)
  moreover have "unat dest < unat source" using assms(1) by (simp add: word_less_nat_alt)
  then have "uint n < 2147483648" "uint source - uint dest < uint n"
    using assms U by linarith+
  ultimately have "sint (source - dest) < sint n"
    by (simp add: sint_u32)
  with assms(1,2) show ?thesis
    by (auto simp: memmove_def memmove_up_zero)
qed

lemma memmove_far_above:
  assumes "dest < source" "0 < n" "unat n \<le> unat source - unat dest"
    and "unat source - unat dest < 2147483648"
  shows "memmove m dest source n = Some (copied m dest source (Suc (unat n)))"
proof -
  have "unat dest < unat source" using assms(1) by (simp add: word_less_nat_alt)
  moreover have "uint dest = int (unat dest)" "uint source = int (unat source)" "uint n = int (unat n)"
    by simp_all
  ultimately have U: "uint n \<le> uint source - uint dest" "uint source - uint dest < 2147483648"
    using assms by linarith+
  have d: "uint (source - dest) = uint source - uint dest"
    using assms(1) by (simp add: uint_sub_if' word_less_def)
  with U have "\<not> sint (source - dest) < sint n"
    by (simp add: sint_u32)
  moreover have "memcpy m dest source n = copied m dest source (Suc (unat n))"
  proof (rule memcpy_eq)
    show "uint n < 2147483648" using U by simp
    fix j k :: int
    assume jk: "0 \<le> j" "j < k" "k \<le> uint n"
    show "dest + of_int j \<noteq> source + of_int k"
    proof
      assume "dest + of_int j = source + of_int k"
      then have "source - dest = of_int (j - k)" by (simp add: algebra_simps)
      from arg_cong [OF this, of uint] have "uint source - uint dest = (j - k) mod 4294967296"
        unfolding d uint_word_of_int by simp
      moreover have "(j - k + 4294967296) mod 4294967296 = j - k + 4294967296"
        using jk U by (intro mod_pos_pos_trivial) auto
      ultimately have "uint source - uint dest = j - k + 4294967296"
        by (simp only: mod_add_self2)
      with jk U show False by linarith
    qed
  qed
  ultimately show ?thesis
    using assms(1,2) by (auto simp: memmove_def)
qed


subsection \<open>The string routines\<close>

lemma cstr_length: "length (cstr m a k) \<le> k"
  by (induction k arbitrary: a) auto

lemma cstr_cong:
  "(\<And>i. i < k \<Longrightarrow> m (a + of_nat i) = m' (a + of_nat i)) \<Longrightarrow> cstr m a k = cstr m' a k"
proof (induction k arbitrary: a)
  case (Suc k)
  have "cstr m (a + 1) k = cstr m' (a + 1) k"
    by (rule Suc.IH) (use Suc.prems [of "Suc _"] in \<open>simp add: ac_simps\<close>)
  with Suc.prems [of 0] show ?case by simp
qed simp

lemma strlen_loop_eq:
  assumes "j \<le> n" "n < 4294967296" "m (s + of_nat n) = 0"
    and "\<And>i. j \<le> i \<Longrightarrow> i < n \<Longrightarrow> m (s + of_nat i) \<noteq> 0"
  shows "strlen_loop m s (of_nat j) = Some (of_nat n)"
  using assms(1,4)
proof (induction j rule: inc_induct)
  case base
  show ?case using assms(3) by (subst strlen_loop.simps) simp
next
  case (step j)
  have "strlen_loop m s (of_nat j) = strlen_loop m s (of_nat (Suc j))"
    using step.prems step.hyps by (subst strlen_loop.simps) (simp add: add.commute)
  then show ?case using step by simp
qed

lemma strncmp_zero_iff: "strncmp m a b n = 0 \<longleftrightarrow> cstr m a (unat n) = cstr m b (unat n)"
proof (induction m a b n rule: strncmp.induct)
  case (1 m a b n)
  show ?case
  proof (cases "n = 0")
    case True
    then show ?thesis by (subst strncmp.simps) simp
  next
    case False
    then have Suc: "unat n = Suc (unat (n - 1))"
      by (rule unat_Suc_pred)
    show ?thesis
    proof (cases "m a \<noteq> 0 \<and> m a = m b")
      case True
      with False show ?thesis
        using "1.IH" by (subst strncmp.simps) (simp add: Suc)
    next
      case ne: False
      have "strncmp m a b n = uint (m a) - uint (m b)"
        using ne False by (subst strncmp.simps) auto
      then have "strncmp m a b n = 0 \<longleftrightarrow> m a = m b"
        by (simp add: word_uint_eq_iff)
      with ne show ?thesis
        by (auto simp: Suc)
    qed
  qed
qed

lemma strcpy_loop_frame:
  "n \<noteq> 0 \<Longrightarrow> \<not> in_range x s (unat n) \<Longrightarrow> strcpy_loop s t n m x = m x"
proof (induction s t n m rule: strcpy_loop.induct)
  case (1 s t n m)
  have Suc: "unat n = Suc (unat (n - 1))"
    using "1.prems"(1) by (rule unat_Suc_pred)
  have out: "x \<noteq> s"
    using "1.prems" by (auto simp: in_range_def unat_gt_0)
  have next_out: "\<not> in_range x (s + 1) (unat (n - 1))"
  proof -
    have "x - s \<noteq> 0" using out by auto
    then have "unat (x - s - 1) = unat (x - s) - 1" by (rule unat_minus_one)
    moreover have "x - (s + 1) = x - s - 1" by simp
    ultimately have "unat (x - (s + 1)) = unat (x - s) - 1" by (simp only:)
    with "1.prems"(2) Suc show ?thesis by (simp only: in_range_def)
  qed
  show ?case
  proof (cases "n - 1 > 0")
    case False
    then show ?thesis using out by (subst strcpy_loop.simps) simp
  next
    case True
    then have "x \<noteq> s + 1"
      using next_out by (auto simp: in_range_def unat_gt_0)
    moreover have "strcpy_loop (s + 1) (t + 1) (n - 1) (m(s := m t)) x = m x" if "m t \<noteq> 0"
    proof -
      have "strcpy_loop (s + 1) (t + 1) (n - 1) (m(s := m t)) x = (m(s := m t)) x"
        by (rule "1.IH" [OF True refl that]) (use True next_out in auto)
      with out show ?thesis by simp
    qed
    ultimately show ?thesis
      using True out by (subst strcpy_loop.simps) (simp add: Let_def)
  qed
qed


lemma strcpy_loop_cstr:
  assumes "n \<noteq> 0"
    and "\<And>i j. i < unat n \<Longrightarrow> j < unat n \<Longrightarrow> s + of_nat i \<noteq> t + of_nat j"
  shows "cstr (strcpy_loop s t n m) s (unat n) = cstr m t (unat n - 1)"
  using assms
proof (induction s t n m rule: strcpy_loop.induct)
  case (1 s t n m)
  have Suc: "unat n = Suc (unat (n - 1))"
    using "1.prems"(1) by (rule unat_Suc_pred)
  show ?case
  proof (cases "n - 1 > 0")
    case False
    then have "n - 1 = 0" by (simp only: word_gt_0 not_not)
    then have "n = 1" by simp
    then show ?thesis by (subst strcpy_loop.simps) simp
  next
    case True
    define m' where "m' = m(s := m t)"
    have Suc': "unat (n - 1) = Suc (unat (n - 1 - 1))"
      using True by (intro unat_Suc_pred) auto
    show ?thesis
    proof (cases "m t = 0")
      case zero: True
      then have "strcpy_loop s t n m = m'(s + 1 := 0)"
        using True by (subst strcpy_loop.simps) (simp add: Let_def m'_def)
      then show ?thesis
        using zero by (simp add: Suc Suc' m'_def offset_distinct)
    next
      case nonzero: False
      have step: "strcpy_loop s t n m = strcpy_loop (s + 1) (t + 1) (n - 1) m'"
        using True nonzero by (subst strcpy_loop.simps) (simp add: Let_def m'_def)
      have disj: "s + 1 + of_nat i \<noteq> t + 1 + of_nat j"
        if "i < unat (n - 1)" "j < unat (n - 1)" for i j
        using "1.prems"(2) [of i j] that Suc by auto
      have IH: "cstr (strcpy_loop (s + 1) (t + 1) (n - 1) m') (s + 1) (unat (n - 1)) =
          cstr m' (t + 1) (unat (n - 1) - 1)"
      proof (rule "1.IH" [OF True m'_def nonzero])
        show "n - 1 \<noteq> 0" using True by auto
      qed (rule disj)
      have "\<not> in_range s (s + 1) (unat (n - 1))"
        using Suc unat_less_2_32 [of n] by (simp add: in_range_def unat_minus_one_u32)
      moreover have "n - 1 \<noteq> 0" using True by auto
      ultimately have first: "strcpy_loop (s + 1) (t + 1) (n - 1) m' s = m t"
        using strcpy_loop_frame [of "n - 1" s "s + 1" "t + 1" m'] by (simp add: m'_def)
      have "cstr m' (t + 1) (unat (n - 1) - 1) = cstr m (t + 1) (unat (n - 1) - 1)"
      proof (rule cstr_cong)
        fix i assume "i < unat (n - 1) - 1"
        then have "s + of_nat 0 \<noteq> t + of_nat (Suc i)"
          using Suc by (intro "1.prems"(2)) auto
        then show "m' (t + 1 + of_nat i) = m (t + 1 + of_nat i)"
          by (auto simp: m'_def ac_simps)
      qed
      with IH first nonzero show ?thesis
        by (simp add: step Suc Suc')
    qed
  qed
qed


lemma blocks_disjoint:
  assumes "unat s + n \<le> 4294967296" "unat t + n \<le> 4294967296"
    and "unat s + n \<le> unat t \<or> unat t + n \<le> unat s" and "i < n" "j < n"
  shows "(s :: u32) + of_nat i \<noteq> t + of_nat j"
proof
  assume "s + of_nat i = t + of_nat j"
  then have "unat (s + of_nat i) = unat (t + of_nat j)" by (rule arg_cong)
  moreover have "unat (s + of_nat i) = unat s + i" "unat (t + of_nat j) = unat t + j"
    using assms by (intro unat_add_of_nat; linarith)+
  ultimately show False using assms by linarith
qed

lemma memcmp_loop_zero_iff:
  "memcmp_loop m a b n i = 0 \<longleftrightarrow> (\<forall>k. i \<le> k \<and> k < n \<longrightarrow> m (a + k) = m (b + k))"
proof (induction m a b n i rule: memcmp_loop.induct)
  case (1 m a b n i)
  show ?case
  proof (cases "i < n")
    case False
    then show ?thesis by (subst memcmp_loop.simps) auto
  next
    case True
    show ?thesis
    proof (cases "m (a + i) = m (b + i)")
      case eq: True
      then have "memcmp_loop m a b n i = memcmp_loop m a b n (i + 1)"
        using True by (subst memcmp_loop.simps) simp
      with "1.IH" [OF True] eq show ?thesis
        by (auto simp: word_le_cases_Suc [OF True])
    next
      case False
      then have "memcmp_loop m a b n i \<noteq> 0"
        using True by (subst memcmp_loop.simps) (auto simp: not_less)
      with False True show ?thesis by auto
    qed
  qed
qed


section \<open>Properties\<close>

text \<open>
  For two different regions that do not wrap around the address space, the kernel's
  \<open>memmove\<close> always returns, and it copies exactly \<open>n\<close> bytes only when the destination lies
  above the source. When the destination lies below and the regions overlap it copies nothing
  (the loop test of line 14 is inverted); when it lies below without overlap it goes through
  \<open>memcpy\<close>, whose \<open>\<le>\<close> test (line 7) copies \<open>n + 1\<close> bytes.
\<close>

theorem memmove_behaviour:
  assumes "dest \<noteq> source" "0 < n" "unat n < 2147483648" "unat dest + unat n \<le> 4294967296"
    and "unat dest - unat source < 2147483648" "unat source - unat dest < 2147483648"
  shows "memmove m dest source n =
    Some (if source < dest then copied m dest source (unat n)
          else if unat source - unat dest < unat n then m
          else copied m dest source (Suc (unat n)))"
proof (cases "source < dest")
  case True
  with assms show ?thesis by (simp add: memmove_from_below)
next
  case False
  with assms(1) have "dest < source" by auto
  show ?thesis
  proof (cases "unat source - unat dest < unat n")
    case True
    with \<open>dest < source\<close> False assms show ?thesis
      using memmove_overlap_above [of dest source n m] by simp
  next
    case far: False
    then have "unat n \<le> unat source - unat dest" by simp
    with \<open>dest < source\<close> False far assms show ?thesis
      using memmove_far_above [of dest source n m] by simp
  qed
qed

theorem memmove_behaviour_witness:
  "memmove ucast 4096 8192 4 = Some (copied ucast 4096 8192 5) \<and>
   memmove ucast 8192 4096 4 = Some (copied ucast 8192 4096 4) \<and>
   memmove ucast 4096 4098 4 = Some ucast"
  using memmove_behaviour [of 4096 8192 4 ucast] memmove_behaviour [of 8192 4096 4 ucast]
    memmove_behaviour [of 4096 4098 4 ucast]
  by simp

text \<open>
  \<open>strncmp(a, b, n)\<close> is 0 exactly when the C strings at \<open>a\<close> and \<open>b\<close> agree on their
  first \<open>n\<close> characters, a terminating NUL included. Directory lookup rests on this.
\<close>

theorem strncmp_equal:
  "strncmp m a b n = 0 \<longleftrightarrow> cstr m a (unat n) = cstr m b (unat n)"
  by (rule strncmp_zero_iff)

text \<open>
  \<open>strcpy(s, t, n)\<close> with \<open>n > 0\<close> and disjoint buffers leaves at \<open>s\<close> the string at \<open>t\<close>
  cut to \<open>n - 1\<close> characters and NUL-terminated, and writes no byte outside the \<open>n\<close> bytes at
  \<open>s\<close>.
\<close>

theorem strcpy_truncates:
  assumes "n \<noteq> 0" "unat s + unat n \<le> 4294967296" "unat t + unat n \<le> 4294967296"
    and "unat s + unat n \<le> unat t \<or> unat t + unat n \<le> unat s"
  shows "cstr (strcpy m s t n) s (unat n) = cstr m t (unat n - 1) \<and>
    (\<forall>x. \<not> in_range x s (unat n) \<longrightarrow> strcpy m s t n x = m x)"
proof -
  have "\<not> n \<le> 0" using assms(1) by simp
  with assms show ?thesis
    by (auto simp: strcpy_def strcpy_loop_cstr blocks_disjoint strcpy_loop_frame)
qed

theorem strcpy_truncates_witness:
  "cstr (strcpy ((\<lambda>_. 0)(200 := 65, 201 := 66, 202 := 67)) 100 200 3) 100 3 = [65, 66]"
proof -
  let ?m = "(\<lambda>_. 0)(200 := 65, 201 := 66, 202 := 67) :: mem"
  have "cstr (strcpy ?m 100 200 3) 100 3 = cstr ?m 200 2"
    using strcpy_truncates [of 3 100 200 ?m] by simp
  also have "\<dots> = [65, 66]" by code_simp
  finally show ?thesis .
qed

text \<open>
  \<open>strlen\<close> returns, and returns the distance to the first NUL, whenever the string has
  one before the address space wraps.
\<close>

theorem strlen_first_nul:
  assumes "n < 4294967296" "m (s + of_nat n) = 0" "\<forall>i < n. m (s + of_nat i) \<noteq> 0"
  shows "strlen m s = Some (of_nat n)"
  using strlen_loop_eq [of 0 n m s] assms by (simp add: strlen_def)

theorem strlen_first_nul_witness: "strlen ((\<lambda>_. 0)(7 := 65, 8 := 66)) 7 = Some 2"
  using strlen_first_nul [of 2 "(\<lambda>_. 0)(7 := 65, 8 := 66)" 7]
  by (simp add: less_2_cases_iff)

end
