(* ===== verification/Pmm.thy ===== *)
theory Pmm
  imports Libc_String
begin

text \<open>
  The physical page allocators. \<^verbatim>\<open>pmm.c\<close> is the one the Makefile links: a bitmap at the first
  page boundary after the kernel image (\<^verbatim>\<open>mem_end\<close>, a linker symbol and so a parameter here),
  one \<^verbatim>\<open>uint32_t\<close> per eight pages since the bitmap pointer has type \<^verbatim>\<open>uint32_t *\<close>.
  \<^verbatim>\<open>kalloc.c\<close> is the free-list allocator kept beside it. Both are instances of the locale
  \<open>page_allocator\<close>; only the free-list one satisfies \<open>page_allocator_free\<close>.
  The spin lock around each body is taken and released on every path and is left out.
\<close>

unbundle bit_operations_syntax

abbreviation "PGESIZE \<equiv> 0x1000 :: u32"
abbreviation "PHYSTOP \<equiv> 0x88000000 :: u32"
abbreviation "MAXVA \<equiv> 0xffffffff :: u32"

definition PGROUNDUP :: "u32 \<Rightarrow> u32" where
  "PGROUNDUP sz = (sz + PGESIZE - 1) AND NOT (PGESIZE - 1)"

section \<open>The bitmap allocator, pmm.c\<close>

text \<open>\<^verbatim>\<open>start_addr[i / 8]\<close>, and the macros that test, set and clear bit \<^verbatim>\<open>i % 8\<close> of it.\<close>

definition bm_addr :: "u32 \<Rightarrow> u32 \<Rightarrow> u32" where
  "bm_addr mem_end i = PGROUNDUP mem_end + 4 * (i div 8)"

definition IS_SET :: "u32 \<Rightarrow> mem \<Rightarrow> u32 \<Rightarrow> bool" where
  "IS_SET mem_end m i \<longleftrightarrow> drop_bit (unat (i mod 8)) (load32 m (bm_addr mem_end i)) AND 1 \<noteq> 0"

definition SET_BIT :: "u32 \<Rightarrow> mem \<Rightarrow> u32 \<Rightarrow> mem" where
  "SET_BIT mem_end m i =
     store32 m (bm_addr mem_end i) (load32 m (bm_addr mem_end i) OR push_bit (unat (i mod 8)) 1)"

definition CLEAR_BITS :: "u32 \<Rightarrow> mem \<Rightarrow> u32 \<Rightarrow> mem" where
  "CLEAR_BITS mem_end m i =
     store32 m (bm_addr mem_end i)
       (load32 m (bm_addr mem_end i) AND NOT (push_bit (unat (i mod 8)) 1))"

definition pmm_init :: "u32 \<Rightarrow> mem \<Rightarrow> mem" where
  "pmm_init mem_end m =
     (let start_addr = PGROUNDUP mem_end;
          bitmap_size = (MAXVA - mem_end) div PGESIZE;
          bitmap_size = bitmap_size div 8
      in memset m start_addr 0 bitmap_size)"

definition num_pages :: "u32 \<Rightarrow> u32" where
  "num_pages mem_end = (PHYSTOP - PGROUNDUP mem_end) div PGESIZE"

definition alloc_start :: "u32 \<Rightarrow> u32" where
  "alloc_start mem_end = PGROUNDUP (mem_end + num_pages mem_end)"

text \<open>\<^verbatim>\<open>for (uint32_t i = 0; i < num_pages; i++)\<close>: the first clear bit, set, and its index.\<close>

function kalloc_loop :: "u32 \<Rightarrow> u32 \<Rightarrow> u32 \<Rightarrow> mem \<Rightarrow> (u32 \<times> mem) res" where
  "kalloc_loop mem_end n i m =
     (if i < n then
        (if \<not> IS_SET mem_end m i then Inr (i, SET_BIT mem_end m i)
         else kalloc_loop mem_end n (i + 1) m)
      else Inl (Panic ''no more memory, kalloc''))"
  by pat_completeness auto
termination
  by (relation "measure (\<lambda>(e, n, i, m). unat (n - i))") (auto intro: unat_sub_Suc_less)

declare kalloc_loop.simps [simp del]

definition kalloc :: "u32 \<Rightarrow> mem \<Rightarrow> (u32 \<times> mem) res" where
  "kalloc mem_end m =
     rbind (kalloc_loop mem_end (num_pages mem_end) 0 m)
       (\<lambda>(i, m'). Inr (alloc_start mem_end + i * PGESIZE, m'))"

text \<open>\<^verbatim>\<open>kfree\<close> computes its own base, from \<^verbatim>\<open>HEAP_SIZE\<close> and not from the number of pages.\<close>

definition kfree_base :: "u32 \<Rightarrow> u32" where
  "kfree_base mem_end = PGROUNDUP (mem_end + (MAXVA - mem_end) div PGESIZE)"

definition kfree :: "u32 \<Rightarrow> u32 \<Rightarrow> mem \<Rightarrow> mem" where
  "kfree mem_end ptr m = CLEAR_BITS mem_end m ((ptr - kfree_base mem_end) div PGESIZE)"

section \<open>The free-list allocator, kalloc.c\<close>

text \<open>\<^verbatim>\<open>kmem.freelist\<close> threads the free pages through their own first word (\<^verbatim>\<open>struct run\<close>).\<close>

record kmem =
  pages :: mem
  freelist :: u32

definition kfree_list :: "u32 \<Rightarrow> u32 \<Rightarrow> kmem \<Rightarrow> kmem res" where
  "kfree_list mem_end pa k =
     (if pa mod PGESIZE \<noteq> 0 \<or> pa < mem_end \<or> PHYSTOP \<le> pa then Inl (Panic ''kfree'')
      else Inr (k\<lparr>pages := store32 (memset (pages k) pa 1 PGESIZE) pa (freelist k),
                  freelist := pa\<rparr>))"

definition kalloc_list :: "kmem \<Rightarrow> u32 \<times> kmem" where
  "kalloc_list k =
     (let r = freelist k in
      if r \<noteq> 0 then (r, k\<lparr>freelist := load32 (pages k) r, pages := memset (pages k) r 5 PGESIZE\<rparr>)
      else (r, k))"

text \<open>\<^verbatim>\<open>for(; p + PGESIZE <= (char *)pa_end; p += PGESIZE) kfree(p);\<close>, with the number of
  pages as the recursion argument of the loop.\<close>

fun freerange_loop :: "u32 \<Rightarrow> nat \<Rightarrow> u32 \<Rightarrow> u32 \<Rightarrow> kmem \<Rightarrow> kmem res" where
  "freerange_loop mem_end 0 p pa_end k =
     (if p + PGESIZE \<le> pa_end then Inl Diverges else Inr k)"
| "freerange_loop mem_end (Suc fuel) p pa_end k =
     (if p + PGESIZE \<le> pa_end
      then rbind (kfree_list mem_end p k) (freerange_loop mem_end fuel (p + PGESIZE) pa_end)
      else Inr k)"

definition freerange :: "u32 \<Rightarrow> u32 \<Rightarrow> u32 \<Rightarrow> kmem \<Rightarrow> kmem res" where
  "freerange mem_end pa_start pa_end k =
     (let p = PGROUNDUP pa_start
      in freerange_loop mem_end (unat ((pa_end - p) div PGESIZE)) p pa_end k)"

definition pmm_init_list :: "u32 \<Rightarrow> kmem \<Rightarrow> kmem res" where
  "pmm_init_list mem_end k = freerange mem_end mem_end PHYSTOP k"

section \<open>Page arithmetic\<close>

lemma and_not_mask12: "(x :: u32) AND - 4096 = push_bit 12 (drop_bit 12 x)"
proof -
  have "(- 4096 :: u32) = NOT (mask 12)" by (simp add: mask_eq_exp_minus_1)
  then show ?thesis
    by (simp add: bit_eq_iff bit_simps) auto
qed

lemma unat_page_base: "unat (push_bit 12 (drop_bit 12 (x :: u32))) = 4096 * (unat x div 4096)"
proof -
  have "unat x div 4096 * 4096 < 4294967296"
    using unat_less_2_32 [of x] by (metis div_times_less_eq_dividend order.strict_trans1)
  then show ?thesis
    by (simp add: push_bit_eq_mult drop_bit_eq_div unat_word_ariths unat_div)
qed

lemma PGROUNDUP_alt: "PGROUNDUP a = push_bit 12 (drop_bit 12 (a + 4095))"
  by (simp add: PGROUNDUP_def and_not_mask12 add.commute)

lemma PGROUNDUP_mod: "unat (PGROUNDUP a) mod 4096 = 0"
  by (simp add: PGROUNDUP_alt unat_page_base)

lemma unat_PGROUNDUP:
  assumes "unat a + 4095 < 4294967296"
  shows "unat (PGROUNDUP a) = 4096 * ((unat a + 4095) div 4096)"
proof -
  have "unat (a + 4095) = unat a + 4095"
    using unat_add_of_nat [of a 4095] assms by simp
  then show ?thesis
    by (simp add: PGROUNDUP_alt unat_page_base)
qed

section \<open>The bitmap\<close>

lemma bm_bit: "IS_SET e m i \<longleftrightarrow> bit (load32 m (bm_addr e i)) (unat (i mod 8))"
  by (simp add: IS_SET_def bit_iff_odd_drop_bit and_one_eq odd_iff_mod_2_eq_one flip: even_iff_mod_2_eq_zero)

lemma unat_mod_8: "unat (i mod 8 :: u32) = unat i mod 8"
  by (simp add: unat_mod)

lemma unat_div_8: "unat (i div 8 :: u32) = unat i div 8"
  by (simp add: unat_div)

lemma bm_addr_aligned: "aligned4 (bm_addr e i)"
proof -
  have "unat (4 * (i div 8)) = 4 * (unat i div 8)"
    using unat_less_2_32 [of i] by (simp add: unat_word_ariths unat_div_8)
  moreover have "unat (PGROUNDUP e) mod 4 = 0"
    using mod_mod_cancel [of 4 4096 "unat (PGROUNDUP e)"] by (simp add: PGROUNDUP_mod)
  ultimately have "(unat (PGROUNDUP e) + unat (4 * (i div 8))) mod 4 = 0"
    by (simp add: mod_add_eq [of "unat (PGROUNDUP e)", symmetric])
  then have "(unat (PGROUNDUP e) + unat (4 * (i div 8))) mod 4294967296 mod 4 = 0"
    using mod_mod_cancel [of 4 4294967296 "unat (PGROUNDUP e) + unat (4 * (i div 8))"] by simp
  then show ?thesis by (simp add: aligned4_def bm_addr_def unat_word_ariths)
qed

lemma bm_addr_eq_iff: "bm_addr e i = bm_addr e j \<longleftrightarrow> unat i div 8 = unat j div 8"
proof -
  have k: "unat (4 * (k div 8)) = 4 * (unat k div 8)" for k :: u32
    using unat_less_2_32 [of k] by (simp add: unat_word_ariths unat_div_8)
  have "bm_addr e i = bm_addr e j \<longleftrightarrow> unat (4 * (i div 8)) = unat (4 * (j div 8))"
    unfolding bm_addr_def add_left_cancel by (rule word_unat_eq_iff)
  then show ?thesis by (simp add: k)
qed

lemma div_mod_eq_iff: "(a div 8 = b div 8 \<and> a mod 8 = b mod 8) \<longleftrightarrow> a = b" for a b :: nat
  by (metis div_mult_mod_eq)

lemma same_bit_iff:
  "bm_addr e i = bm_addr e j \<and> unat (i mod 8) = unat (j mod 8) \<longleftrightarrow> i = j"
  unfolding bm_addr_eq_iff unat_mod_8 div_mod_eq_iff by (rule word_unat_eq_iff [symmetric])

lemma unat_mod_8_less: "unat (i mod 8 :: u32) < 32"
  unfolding unat_mod_8 by (rule order.strict_trans [of _ 8]) simp_all

lemma IS_SET_SET_BIT: "IS_SET e (SET_BIT e m i) j \<longleftrightarrow> j = i \<or> IS_SET e m j"
proof (cases "bm_addr e j = bm_addr e i")
  case True
  then have "j = i \<longleftrightarrow> unat (j mod 8) = unat (i mod 8)"
    using same_bit_iff by blast
  with True show ?thesis
    using unat_mod_8_less [of j]
    by (auto simp: bm_bit SET_BIT_def load32_store32_same bit_or_iff bit_exp_iff)
next
  case False
  then have "j \<noteq> i" by auto
  with False show ?thesis
    by (simp add: bm_bit SET_BIT_def load32_store32_other bm_addr_aligned)
qed

lemma IS_SET_CLEAR_BITS: "IS_SET e (CLEAR_BITS e m i) j \<longleftrightarrow> j \<noteq> i \<and> IS_SET e m j"
proof (cases "bm_addr e j = bm_addr e i")
  case True
  then have "j = i \<longleftrightarrow> unat (j mod 8) = unat (i mod 8)"
    using same_bit_iff by blast
  with True show ?thesis
    using unat_mod_8_less [of j]
    by (auto simp: bm_bit CLEAR_BITS_def load32_store32_same bit_and_iff bit_not_iff bit_exp_iff
        dest: bit_imp_le_length)
next
  case False
  then have "j \<noteq> i" by auto
  with False show ?thesis
    by (simp add: bm_bit CLEAR_BITS_def load32_store32_other bm_addr_aligned)
qed


section \<open>What an allocator promises\<close>

text \<open>
  The interface a user of pages relies on: an allocation hands out a page that was available
  and takes it out of the available ones, and fails only when there is none left. The extended
  interface adds that freeing a page makes it available again.
\<close>

locale page_allocator =
  fixes alloc :: "'s \<Rightarrow> (u32 \<times> 's) option" and avail :: "'s \<Rightarrow> u32 set" and inv :: "'s \<Rightarrow> bool"
  assumes alloc_Some: "inv s \<Longrightarrow> alloc s = Some (p, s') \<Longrightarrow> p \<in> avail s \<and> avail s' = avail s - {p}"
    and alloc_inv: "inv s \<Longrightarrow> alloc s = Some (p, s') \<Longrightarrow> inv s'"
    and alloc_None: "inv s \<Longrightarrow> alloc s = None \<Longrightarrow> avail s = {}"
begin

primrec allocs :: "nat \<Rightarrow> 's \<Rightarrow> (u32 list \<times> 's) option" where
  "allocs 0 s = Some ([], s)"
| "allocs (Suc n) s =
     (case alloc s of None \<Rightarrow> None
      | Some (p, s') \<Rightarrow> (case allocs n s' of None \<Rightarrow> None | Some (ps, s'') \<Rightarrow> Some (p # ps, s'')))"

lemma allocs_fresh:
  "inv s \<Longrightarrow> allocs n s = Some (ps, s') \<Longrightarrow>
     distinct ps \<and> set ps \<subseteq> avail s \<and> avail s' = avail s - set ps \<and> inv s' \<and> length ps = n"
proof (induction n arbitrary: s ps)
  case (Suc n)
  then obtain p s1 qs where *: "alloc s = Some (p, s1)" "allocs n s1 = Some (qs, s')" "ps = p # qs"
    by (auto split: option.splits)
  with Suc.prems(1) have "p \<in> avail s" "avail s1 = avail s - {p}" "inv s1"
    using alloc_Some alloc_inv by blast+
  with Suc.IH [OF \<open>inv s1\<close> *(2)] *(3) show ?case by auto
qed simp

lemma allocs_total: "inv s \<Longrightarrow> finite (avail s) \<Longrightarrow> n \<le> card (avail s) \<Longrightarrow> \<exists>r. allocs n s = Some r"
proof (induction n arbitrary: s)
  case (Suc n)
  then have "avail s \<noteq> {}" by auto
  with Suc.prems(1) obtain p s1 where p: "alloc s = Some (p, s1)"
    using alloc_None by (cases "alloc s") auto
  with Suc.prems(1) have s1: "p \<in> avail s" "avail s1 = avail s - {p}" "inv s1"
    using alloc_Some alloc_inv by blast+
  then have "n \<le> card (avail s1)" using Suc.prems by simp
  with Suc.IH [of s1] s1 Suc.prems(2) obtain r where "allocs n s1 = Some r" by auto
  with p show ?case by (cases r) simp
qed simp

end

locale page_allocator_free = page_allocator alloc avail inv
  for alloc :: "'s \<Rightarrow> (u32 \<times> 's) option" and avail :: "'s \<Rightarrow> u32 set" and inv :: "'s \<Rightarrow> bool" +
  fixes free :: "u32 \<Rightarrow> 's \<Rightarrow> 's option" and owned :: "'s \<Rightarrow> u32 set"
  assumes free_avail: "inv s \<Longrightarrow> p \<in> owned s \<Longrightarrow>
      \<exists>s'. free p s = Some s' \<and> inv s' \<and> avail s' = insert p (avail s)"
    and alloc_owned: "inv s \<Longrightarrow> alloc s = Some (p, s') \<Longrightarrow> p \<in> owned s'"
begin

lemma free_alloc:
  assumes "inv s" "alloc s = Some (p, s')"
  shows "\<exists>s''. free p s' = Some s'' \<and> inv s'' \<and> avail s'' = avail s"
proof -
  have "inv s'" "p \<in> owned s'" using assms alloc_inv alloc_owned by blast+
  then obtain s'' where "free p s' = Some s''" "inv s''" "avail s'' = insert p (avail s')"
    using free_avail by blast
  moreover have "p \<in> avail s" "avail s' = avail s - {p}" using assms alloc_Some by blast+
  ultimately show ?thesis by auto
qed

end

section \<open>The bitmap allocator meets the interface\<close>

lemma kalloc_loop_Inr:
  "kalloc_loop e n i m = Inr (j, m') \<Longrightarrow>
     i \<le> j \<and> j < n \<and> \<not> IS_SET e m j \<and> m' = SET_BIT e m j \<and> (\<forall>k. i \<le> k \<and> k < j \<longrightarrow> IS_SET e m k)"
proof (induction e n i m rule: kalloc_loop.induct)
  case (1 e n i m)
  show ?case
  proof (cases "i < n \<and> IS_SET e m i")
    case True
    then have "kalloc_loop e n (i + 1) m = Inr (j, m')"
      using "1.prems" by (simp add: kalloc_loop.simps [of e n i m])
    with "1.IH" True have "i + 1 \<le> j \<and> j < n \<and> \<not> IS_SET e m j \<and> m' = SET_BIT e m j \<and>
        (\<forall>k. i + 1 \<le> k \<and> k < j \<longrightarrow> IS_SET e m k)" by blast
    with True show ?thesis by (auto simp: word_le_cases_Suc [of i n])
  next
    case False
    with "1.prems" show ?thesis
      by (auto simp: kalloc_loop.simps [of e n i m] split: if_splits)
  qed
qed

lemma kalloc_loop_Inl:
  "kalloc_loop e n i m = Inl err \<Longrightarrow>
     err = Panic ''no more memory, kalloc'' \<and> (\<forall>k. i \<le> k \<and> k < n \<longrightarrow> IS_SET e m k)"
proof (induction e n i m rule: kalloc_loop.induct)
  case (1 e n i m)
  show ?case
  proof (cases "i < n")
    case True
    with "1.prems" have "IS_SET e m i" "kalloc_loop e n (i + 1) m = Inl err"
      by (auto simp: kalloc_loop.simps [of e n i m] split: if_splits)
    with "1.IH" True show ?thesis by (auto simp: word_le_cases_Suc [of i n])
  next
    case False
    with "1.prems" show ?thesis by (auto simp: kalloc_loop.simps [of e n i m])
  qed
qed

definition page_addr :: "u32 \<Rightarrow> u32 \<Rightarrow> u32" where
  "page_addr mem_end i = alloc_start mem_end + i * PGESIZE"

definition free_pages :: "u32 \<Rightarrow> mem \<Rightarrow> u32 set" where
  "free_pages mem_end m = {page_addr mem_end i | i. i < num_pages mem_end \<and> \<not> IS_SET mem_end m i}"

definition kalloc_opt :: "u32 \<Rightarrow> mem \<Rightarrow> (u32 \<times> mem) option" where
  "kalloc_opt mem_end m = (case kalloc mem_end m of Inl _ \<Rightarrow> None | Inr r \<Rightarrow> Some r)"

lemma num_pages_bound: "unat (num_pages e) < 1048576"
  using unat_less_2_32 [of "PHYSTOP - PGROUNDUP e"] by (simp add: num_pages_def unat_div)

lemma page_addr_inj:
  assumes "i < num_pages e" "j < num_pages e" "page_addr e i = page_addr e j"
  shows "i = j"
proof -
  have k: "unat (k * PGESIZE) = unat k * 4096" if "k < num_pages e" for k
    using that num_pages_bound [of e] by (simp add: word_less_nat_alt unat_word_ariths)
  have "unat (i * PGESIZE) = unat (j * PGESIZE)"
    using assms(3) by (simp add: page_addr_def)
  with assms k show ?thesis by (simp add: word_unat_eq_iff)
qed

lemma kalloc_Inr:
  assumes "kalloc e m = Inr (p, m')"
  obtains i where "i < num_pages e" "\<not> IS_SET e m i" "\<forall>k < i. IS_SET e m k"
    "p = page_addr e i" "m' = SET_BIT e m i"
proof -
  from assms obtain i where "kalloc_loop e (num_pages e) 0 m = Inr (i, m')"
    and p: "p = page_addr e i"
    by (auto simp: kalloc_def page_addr_def rbind_eq_Inr)
  with kalloc_loop_Inr [of e "num_pages e" 0 m i m'] that show thesis by auto
qed

interpretation pmm: page_allocator "kalloc_opt e" "free_pages e" "\<lambda>_. True" for e :: u32
proof
  fix s p s'
  assume "kalloc_opt e s = Some (p, s')"
  then have "kalloc e s = Inr (p, s')" by (simp add: kalloc_opt_def split: sum.splits)
  then obtain i where i: "i < num_pages e" "\<not> IS_SET e s i" "p = page_addr e i" "s' = SET_BIT e s i"
    by (rule kalloc_Inr)
  then show "p \<in> free_pages e s \<and> free_pages e s' = free_pages e s - {p}"
    by (auto simp: free_pages_def IS_SET_SET_BIT dest: page_addr_inj)
next
  fix s
  assume "kalloc_opt e s = None"
  then obtain err where "kalloc_loop e (num_pages e) 0 s = Inl err"
    by (auto simp: kalloc_opt_def kalloc_def rbind_def split: sum.splits)
  from kalloc_loop_Inl [OF this] show "free_pages e s = {}"
    by (auto simp: free_pages_def)
qed simp


section \<open>The free-list allocator meets the extended interface\<close>

definition page_aligned :: "u32 \<Rightarrow> bool" where
  "page_aligned p \<longleftrightarrow> unat p mod 4096 = 0"

fun run_list :: "mem \<Rightarrow> u32 \<Rightarrow> u32 list \<Rightarrow> bool" where
  "run_list m p [] \<longleftrightarrow> p = 0"
| "run_list m p (x # xs) \<longleftrightarrow> p = x \<and> p \<noteq> 0 \<and> run_list m (load32 m p) xs"

definition heap_page :: "u32 \<Rightarrow> u32 \<Rightarrow> bool" where
  "heap_page mem_end p \<longleftrightarrow> page_aligned p \<and> p \<noteq> 0 \<and> mem_end \<le> p \<and> p < PHYSTOP"

definition kmem_inv :: "u32 \<Rightarrow> kmem \<Rightarrow> bool" where
  "kmem_inv mem_end k \<longleftrightarrow>
     (\<exists>xs. run_list (pages k) (freelist k) xs \<and> distinct xs \<and> (\<forall>p \<in> set xs. heap_page mem_end p))"

definition kmem_avail :: "kmem \<Rightarrow> u32 set" where
  "kmem_avail k = {p. \<exists>xs. run_list (pages k) (freelist k) xs \<and> p \<in> set xs}"

definition kalloc_list_opt :: "kmem \<Rightarrow> (u32 \<times> kmem) option" where
  "kalloc_list_opt k = (case kalloc_list k of (p, k') \<Rightarrow> if p = 0 then None else Some (p, k'))"

definition kfree_list_opt :: "u32 \<Rightarrow> u32 \<Rightarrow> kmem \<Rightarrow> kmem option" where
  "kfree_list_opt mem_end p k = (case kfree_list mem_end p k of Inl _ \<Rightarrow> None | Inr k' \<Rightarrow> Some k')"

lemma run_list_unique: "run_list m p xs \<Longrightarrow> run_list m p ys \<Longrightarrow> xs = ys"
proof (induction xs arbitrary: p ys)
  case Nil
  then show ?case by (cases ys) auto
next
  case (Cons x xs)
  then show ?case by (cases ys) auto
qed

lemma kmem_avail_eq: "run_list (pages k) (freelist k) xs \<Longrightarrow> kmem_avail k = set xs"
  by (auto simp: kmem_avail_def dest: run_list_unique)

lemma page_diff:
  assumes "page_aligned x" "page_aligned p" "x \<noteq> p"
  shows "4096 \<le> unat (x - p)" "unat (x - p) \<le> 4294963200"
proof -
  from assms obtain a b where ab: "unat x = 4096 * a" "unat p = 4096 * b"
    by (auto simp: page_aligned_def elim!: dvdE)
  then have "a < 1048576" "b < 1048576"
    using unat_less_2_32 [of x] unat_less_2_32 [of p] by simp_all
  moreover have "a \<noteq> b" using ab assms(3) by (auto simp: word_unat_eq_iff)
  moreover note unat_minus_u32 [of x p]
  ultimately show "4096 \<le> unat (x - p)" "unat (x - p) \<le> 4294963200"
    unfolding ab by auto
qed

lemma page_offset_out:
  assumes "page_aligned x" "page_aligned p" "x \<noteq> p" "k < 4096"
  shows "\<not> in_range (x + of_nat k) p 4096"
proof -
  have "x + of_nat k - p = (x - p) + of_nat k" by simp
  moreover have "unat ((x - p) + of_nat k) = unat (x - p) + k"
    using page_diff [OF assms(1-3)] assms(4) by (intro unat_add_of_nat) simp
  ultimately have "unat (x + of_nat k - p) = unat (x - p) + k" by (simp only:)
  with page_diff [OF assms(1-3)] show ?thesis by (simp only: in_range_def)
qed

lemma load32_other_page:
  assumes "\<And>y. \<not> in_range y p 4096 \<Longrightarrow> m' y = m y" "page_aligned x" "page_aligned p" "x \<noteq> p"
  shows "load32 m' x = load32 m x"
proof -
  have *: "m' (x + of_nat k) = m (x + of_nat k)" if "k < 4" for k
    using that by (intro assms(1) page_offset_out assms(2-4)) simp
  from * [of 0] * [of 1] * [of 2] * [of 3] show ?thesis
    by (intro load32_cong) simp_all
qed

lemma run_list_frame:
  assumes "\<And>y. \<not> in_range y p 4096 \<Longrightarrow> m' y = m y" "page_aligned p"
  shows "p \<notin> set xs \<Longrightarrow> \<forall>x \<in> set xs. page_aligned x \<Longrightarrow> run_list m' q xs = run_list m q xs"
proof (induction xs arbitrary: q)
  case (Cons x xs)
  then have "x \<noteq> p" "page_aligned x" by auto
  then have "load32 m' x = load32 m x"
    by (intro load32_other_page [where p = p]) (use assms in auto)
  with Cons show ?case by auto
qed simp

lemma memset_page_frame: "\<not> in_range y p 4096 \<Longrightarrow> memset m p c PGESIZE y = m y"
  by (simp add: memset_eq)

lemma in_range_mono: "in_range y p n \<Longrightarrow> n \<le> k \<Longrightarrow> in_range y p k"
  by (simp add: in_range_def)

lemma kalloc_list_step:
  assumes "run_list (pages k) (freelist k) xs" "distinct xs" "\<forall>p \<in> set xs. heap_page e p"
    and "kalloc_list k = (p, k')" "p \<noteq> 0"
  obtains ys where "xs = p # ys" "run_list (pages k') (freelist k') ys"
proof -
  from assms(4,5) have k': "p = freelist k"
    "k' = k\<lparr>freelist := load32 (pages k) p, pages := memset (pages k) p 5 PGESIZE\<rparr>"
    by (auto simp: kalloc_list_def Let_def split: if_splits)
  with assms(1,5) obtain ys where ys: "xs = p # ys" "run_list (pages k) (load32 (pages k) p) ys"
    by (cases xs) auto
  with assms(2,3) have "run_list (memset (pages k) p 5 PGESIZE) (load32 (pages k) p) ys"
    by (subst run_list_frame [where p = p, OF memset_page_frame]) (auto simp: heap_page_def)
  with ys k' that show thesis by simp
qed

lemma kfree_list_step:
  assumes "run_list (pages k) (freelist k) xs" "\<forall>p \<in> set xs. heap_page e p" "heap_page e p" "p \<notin> set xs"
  obtains k' where "kfree_list e p k = Inr k'" "run_list (pages k') (freelist k') (p # xs)"
proof -
  let ?m = "store32 (memset (pages k) p 1 PGESIZE) p (freelist k)"
  let ?k = "k\<lparr>pages := ?m, freelist := p\<rparr>"
  have "unat (p mod PGESIZE) = 0" using assms(3) by (simp add: heap_page_def page_aligned_def unat_mod)
  then have "p mod PGESIZE = 0" by (simp only: unat_0_iff)
  then have "kfree_list e p k = Inr ?k"
    using assms(3) by (simp add: kfree_list_def heap_page_def not_less not_le)
  moreover have "?m y = pages k y" if "\<not> in_range y p 4096" for y
    using that in_range_mono [of y p 4 4096] by (subst store32_frame) (auto simp: memset_page_frame)
  then have "run_list ?m (freelist k) xs"
    using assms by (subst run_list_frame [where p = p and m = "pages k"]) (auto simp: heap_page_def)
  then have "run_list (pages ?k) (freelist ?k) (p # xs)"
    using assms(3) by (simp add: load32_store32_same heap_page_def)
  ultimately show thesis by (rule that)
qed

interpretation kl: page_allocator_free kalloc_list_opt kmem_avail "kmem_inv e" "kfree_list_opt e"
    "\<lambda>k. {p. heap_page e p \<and> p \<notin> kmem_avail k}" for e :: u32
proof
  fix k p k'
  assume inv: "kmem_inv e k" and "kalloc_list_opt k = Some (p, k')"
  then have al: "kalloc_list k = (p, k')" "p \<noteq> 0"
    by (auto simp: kalloc_list_opt_def split: prod.splits if_splits)
  from inv obtain xs where xs: "run_list (pages k) (freelist k) xs" "distinct xs" "\<forall>p \<in> set xs. heap_page e p"
    by (auto simp: kmem_inv_def)
  obtain ys where ys: "xs = p # ys" "run_list (pages k') (freelist k') ys"
    by (rule kalloc_list_step [OF xs al])
  with xs show "p \<in> kmem_avail k \<and> kmem_avail k' = kmem_avail k - {p}"
    using kmem_avail_eq [OF xs(1)] kmem_avail_eq [OF ys(2)] by auto
  from xs ys show "kmem_inv e k'" by (auto simp: kmem_inv_def)
  show "p \<in> {p. heap_page e p \<and> p \<notin> kmem_avail k'}"
    using xs ys kmem_avail_eq [OF ys(2)] by auto
next
  fix k
  assume "kmem_inv e k" "kalloc_list_opt k = None"
  then have "freelist k = 0"
    by (auto simp: kalloc_list_opt_def kalloc_list_def Let_def split: if_splits)
  then have "run_list (pages k) (freelist k) []" by simp
  from kmem_avail_eq [OF this] show "kmem_avail k = {}" by simp
next
  fix k p
  assume inv: "kmem_inv e k" and p: "p \<in> {p. heap_page e p \<and> p \<notin> kmem_avail k}"
  from inv obtain xs where xs: "run_list (pages k) (freelist k) xs" "distinct xs" "\<forall>p \<in> set xs. heap_page e p"
    by (auto simp: kmem_inv_def)
  with p have "heap_page e p" "p \<notin> set xs" using kmem_avail_eq [OF xs(1)] by auto
  then obtain k' where k': "kfree_list e p k = Inr k'" "run_list (pages k') (freelist k') (p # xs)"
    using kfree_list_step [OF xs(1,3)] by blast
  moreover have "kmem_inv e k'"
    using k' xs \<open>heap_page e p\<close> \<open>p \<notin> set xs\<close> unfolding kmem_inv_def by fastforce
  ultimately show "\<exists>s'. kfree_list_opt e p k = Some s' \<and> kmem_inv e s' \<and>
      kmem_avail s' = insert p (kmem_avail k)"
    using kmem_avail_eq [OF xs(1)] kmem_avail_eq [OF k'(2)] by (auto simp: kfree_list_opt_def)
qed


section \<open>The layout of the managed memory\<close>

text \<open>
  The kernel is linked at \<^verbatim>\<open>0x80000000\<close> (\<^verbatim>\<open>kernel.ld\<close>); its image is assumed to end within
  64 MiB of that.
\<close>

definition mem_end_ok :: "u32 \<Rightarrow> bool" where
  "mem_end_ok e \<longleftrightarrow> 0x80000000 \<le> e \<and> e \<le> 0x84000000"

lemma mem_end_ok_unat: "mem_end_ok e \<Longrightarrow> 2147483648 \<le> unat e \<and> unat e \<le> 2214592512"
  by (simp add: mem_end_ok_def word_le_nat_alt)

lemma layout_start:
  assumes "mem_end_ok e"
  obtains s where "unat (PGROUNDUP e) = 4096 * s" "524288 \<le> s" "s \<le> 540672"
    "unat e \<le> 4096 * s" "4096 * s \<le> unat e + 4095" "unat (num_pages e) = 557056 - s"
proof -
  let ?s = "(unat e + 4095) div 4096"
  have e: "2147483648 \<le> unat e" "unat e \<le> 2214592512"
    using mem_end_ok_unat [OF assms] by simp_all
  have S: "unat (PGROUNDUP e) = 4096 * ?s" using e by (intro unat_PGROUNDUP) simp
  have s: "524288 \<le> ?s" "?s \<le> 540672" "unat e \<le> 4096 * ?s" "4096 * ?s \<le> unat e + 4095"
    using e by linarith+
  have "unat (PHYSTOP - PGROUNDUP e) = 2281701376 - 4096 * ?s"
    using s S by (subst unat_sub) (simp_all add: word_le_nat_alt)
  then have "unat (num_pages e) = (2281701376 - 4096 * ?s) div 4096"
    by (simp add: num_pages_def unat_div)
  also have "2281701376 - 4096 * ?s = 4096 * (557056 - ?s)" by simp
  finally have "unat (num_pages e) = 557056 - ?s" by simp
  with S s show thesis by (rule that)
qed

lemma layout_alloc_start:
  assumes "mem_end_ok e"
  obtains a where "unat (alloc_start e) = 4096 * a"
    "unat e + unat (num_pages e) \<le> 4096 * a" "4096 * a \<le> unat e + unat (num_pages e) + 4095"
proof -
  obtain s where s: "524288 \<le> s" "s \<le> 540672" "unat (num_pages e) = 557056 - s"
    by (rule layout_start [OF assms])
  have e: "2147483648 \<le> unat e" "unat e \<le> 2214592512"
    using mem_end_ok_unat [OF assms] by simp_all
  have sum: "unat (e + num_pages e) = unat e + unat (num_pages e)"
    using e s by (intro unat_plus_u32) linarith
  have "unat (alloc_start e) = 4096 * ((unat e + unat (num_pages e) + 4095) div 4096)"
    unfolding alloc_start_def sum [symmetric] using e s sum by (intro unat_PGROUNDUP) simp
  then show thesis by (rule that) linarith+
qed

lemma layout_kfree_base:
  assumes "mem_end_ok e"
  obtains b where "unat (kfree_base e) = 4096 * b"
    "unat e + 507903 \<le> 4096 * b" "4096 * b \<le> unat e + 524287 + 4095"
proof -
  let ?h = "(MAXVA - e) div PGESIZE"
  have e: "2147483648 \<le> unat e" "unat e \<le> 2214592512"
    using mem_end_ok_unat [OF assms] by simp_all
  have "unat (MAXVA - e) = 4294967295 - unat e"
    using e by (subst unat_sub) (simp_all add: word_le_nat_alt)
  then have h: "unat ?h = (4294967295 - unat e) div 4096" by (simp add: unat_div)
  then have "507903 \<le> unat ?h" "unat ?h \<le> 524287" using e by linarith+
  moreover have sum: "unat (e + ?h) = unat e + unat ?h"
    using e calculation by (intro unat_plus_u32) linarith
  moreover have "unat (kfree_base e) = 4096 * ((unat e + unat ?h + 4095) div 4096)"
    unfolding kfree_base_def sum [symmetric] using e calculation by (intro unat_PGROUNDUP) simp
  ultimately show thesis
    by (intro that [of "(unat e + unat ?h + 4095) div 4096"]) linarith+
qed

lemma alloc_start_neq_kfree_base:
  assumes "mem_end_ok e"
  shows "alloc_start e \<noteq> kfree_base e"
proof -
  obtain s where s: "524288 \<le> s" "unat (num_pages e) = 557056 - s"
    by (rule layout_start [OF assms])
  obtain a where a: "unat (alloc_start e) = 4096 * a"
      "4096 * a \<le> unat e + unat (num_pages e) + 4095"
    by (rule layout_alloc_start [OF assms])
  obtain b where b: "unat (kfree_base e) = 4096 * b" "unat e + 507903 \<le> 4096 * b"
    by (rule layout_kfree_base [OF assms])
  have "unat (alloc_start e) < unat (kfree_base e)" using s a b by linarith
  then show ?thesis by auto
qed

lemma unat_div_page_mult:
  assumes "4096 dvd unat x"
  shows "x div PGESIZE * PGESIZE = (x :: u32)"
proof -
  have "unat (x div PGESIZE * PGESIZE) = unat x div 4096 * 4096"
    using unat_less_2_32 [of x] assms by (simp add: unat_word_ariths unat_div)
  with assms show ?thesis by (simp add: word_unat_eq_iff)
qed

lemma dvd_2_32: "4096 dvd (4294967296 :: nat)"
  by (rule dvdI [of _ _ 1048576]) simp

lemma dvd_unat_page:
  assumes "page_aligned x" "page_aligned y"
  shows "4096 dvd unat (x - y)"
proof -
  have "4096 dvd unat x" "4096 dvd unat y" using assms by (auto simp: page_aligned_def)
  then have "4096 dvd unat x - unat y" "4096 dvd unat x + 4294967296 - unat y"
    using dvd_2_32 by (simp_all only: dvd_diff_nat dvd_add)
  then show ?thesis unfolding unat_minus_u32 by (cases "unat y \<le> unat x") (simp_all only: if_True if_False)
qed

lemma page_aligned_plus:
  assumes "page_aligned x" "page_aligned y"
  shows "page_aligned (x + y)"
proof -
  have "4096 dvd unat x + unat y" using assms by (auto simp: page_aligned_def)
  then have "4096 dvd (unat x + unat y) mod 4294967296" using dvd_2_32 by (rule dvd_mod)
  then show ?thesis by (simp only: page_aligned_def unat_word_ariths dvd_eq_mod_eq_0) simp
qed

lemma page_aligned_PGROUNDUP: "page_aligned (PGROUNDUP x)"
  by (simp add: page_aligned_def PGROUNDUP_mod)

lemma page_aligned_page_addr:
  assumes "i < num_pages e"
  shows "page_aligned (page_addr e i)"
proof -
  have "unat (i * PGESIZE) = unat i * 4096"
    using assms num_pages_bound [of e] by (simp add: word_less_nat_alt unat_word_ariths)
  then have "page_aligned (i * PGESIZE)" by (simp only: page_aligned_def) simp
  then show ?thesis
    unfolding page_addr_def alloc_start_def by (intro page_aligned_plus page_aligned_PGROUNDUP)
qed

text \<open>The bit \<^verbatim>\<open>kfree\<close> clears is never the bit of the page it is given.\<close>

lemma kfree_index_neq:
  assumes "mem_end_ok e" "i < num_pages e"
  shows "(page_addr e i - kfree_base e) div PGESIZE \<noteq> i"
proof
  assume eq: "(page_addr e i - kfree_base e) div PGESIZE = i"
  have "4096 dvd unat (page_addr e i - kfree_base e)"
    using assms(2) by (intro dvd_unat_page page_aligned_page_addr)
      (simp_all add: kfree_base_def page_aligned_PGROUNDUP)
  from unat_div_page_mult [OF this] have "i * PGESIZE = page_addr e i - kfree_base e"
    unfolding eq .
  then have "alloc_start e = kfree_base e" by (simp add: page_addr_def)
  with alloc_start_neq_kfree_base [OF assms(1)] show False by simp
qed


subsection \<open>The bitmap and the pages\<close>

lemma layout_bitmap:
  assumes "mem_end_ok e" "i < num_pages e"
  shows "unat (bm_addr e i) = unat (PGROUNDUP e) + 4 * (unat i div 8)"
    and "unat (PGROUNDUP e) + 4 * (unat i div 8) + 4 \<le> unat (alloc_start e)"
    and "unat (PGROUNDUP e) + 4096 \<le> unat (alloc_start e)"
proof -
  obtain s where s: "unat (PGROUNDUP e) = 4096 * s" "524288 \<le> s" "s \<le> 540672"
      "4096 * s \<le> unat e + 4095" "unat (num_pages e) = 557056 - s"
    by (rule layout_start [OF assms(1)])
  obtain a where a: "unat (alloc_start e) = 4096 * a" "unat e + unat (num_pages e) \<le> 4096 * a"
    by (rule layout_alloc_start [OF assms(1)])
  have i: "unat i < 557056 - s" using assms(2) s(5) by (simp add: word_less_nat_alt)
  have "unat (4 * (i div 8)) = 4 * (unat i div 8)"
    using unat_less_2_32 [of i] by (simp add: unat_word_ariths unat_div_8)
  moreover have "unat (PGROUNDUP e) + 4 * (unat i div 8) < 4294967296" using i s by linarith
  ultimately show "unat (bm_addr e i) = unat (PGROUNDUP e) + 4 * (unat i div 8)"
    unfolding bm_addr_def by (subst unat_plus_u32) simp_all
  show "unat (PGROUNDUP e) + 4 * (unat i div 8) + 4 \<le> unat (alloc_start e)"
    using i s a by linarith
  show "unat (PGROUNDUP e) + 4096 \<le> unat (alloc_start e)" using s a by linarith
qed

lemma layout_page:
  assumes "mem_end_ok e" "i < num_pages e"
  shows "unat (page_addr e i) = unat (alloc_start e) + 4096 * unat i"
    and "unat (alloc_start e) + 4096 * unat i + 4096 \<le> 4294967296"
proof -
  obtain s where s: "524288 \<le> s" "s \<le> 540672" "unat (num_pages e) = 557056 - s"
    by (rule layout_start [OF assms(1)])
  obtain a where a: "unat (alloc_start e) = 4096 * a"
      "4096 * a \<le> unat e + unat (num_pages e) + 4095"
    by (rule layout_alloc_start [OF assms(1)])
  have e: "unat e \<le> 2214592512" using mem_end_ok_unat [OF assms(1)] by simp
  have i: "unat i < 557056 - s" using assms(2) s(3) by (simp add: word_less_nat_alt)
  show le: "unat (alloc_start e) + 4096 * unat i + 4096 \<le> 4294967296" using i s a e by linarith
  have "unat (i * PGESIZE) = unat i * 4096"
    using assms num_pages_bound [of e] by (simp add: word_less_nat_alt unat_word_ariths)
  with le show "unat (page_addr e i) = unat (alloc_start e) + 4096 * unat i"
    unfolding page_addr_def by (subst unat_plus_u32) simp_all
qed

text \<open>Marking a page never touches the contents of any page.\<close>

lemma SET_BIT_page_frame:
  assumes "mem_end_ok e" "i < num_pages e" "j < num_pages e" "in_range y (page_addr e j) 4096"
  shows "SET_BIT e m i y = m y"
proof -
  have y: "unat (page_addr e j) \<le> unat y"
    using assms(4) layout_page [OF assms(1,3)] unfolding in_range_def unat_minus_u32
    by (auto split: if_splits)
  have "unat (bm_addr e i) + 4 \<le> unat y"
    using y layout_page [OF assms(1,3)] layout_bitmap [OF assms(1,2)] by linarith
  then have "\<not> in_range y (bm_addr e i) 4"
    unfolding in_range_def unat_minus_u32 by simp
  then show ?thesis by (simp add: SET_BIT_def store32_frame)
qed

lemma pmm_init_clear:
  assumes "mem_end_ok e" "i < num_pages e"
  shows "\<not> IS_SET e (pmm_init e m) i"
proof -
  let ?n = "(MAXVA - e) div PGESIZE div 8"
  obtain s where s: "unat (PGROUNDUP e) = 4096 * s" "524288 \<le> s" "s \<le> 540672" "unat (num_pages e) = 557056 - s"
    by (rule layout_start [OF assms(1)])
  have e: "2147483648 \<le> unat e" "unat e \<le> 2214592512"
    using mem_end_ok_unat [OF assms(1)] by simp_all
  have "unat (MAXVA - e) = 4294967295 - unat e"
    using e by (subst unat_sub) (simp_all add: word_le_nat_alt)
  then have "unat ?n = (4294967295 - unat e) div 4096 div 8" by (simp add: unat_div)
  then have n: "63487 \<le> unat ?n" using e by linarith
  have i: "unat i < 557056 - s" using assms(2) s(4) by (simp add: word_less_nat_alt)
  have zero: "pmm_init e m (bm_addr e i + of_nat k) = 0" if "k < 4" for k
  proof -
    have "unat (bm_addr e i + of_nat k) = unat (PGROUNDUP e) + 4 * (unat i div 8) + k"
      using layout_bitmap(1) [OF assms] i s that by (subst unat_add_of_nat) linarith+
    then have "in_range (bm_addr e i + of_nat k) (PGROUNDUP e) (unat ?n)"
      unfolding in_range_def unat_minus_u32 using i n s that by simp
    then show ?thesis by (simp add: pmm_init_def Let_def memset_eq)
  qed
  from zero [of 0] zero [of 1] zero [of 2] zero [of 3] show ?thesis
    by (simp add: bm_bit load32_def)
qed


lemma card_words_below: "card {i :: u32. i < n} = unat n" "finite {i :: u32. i < n}"
proof -
  have eq: "{i :: u32. i < n} = of_nat ` {..<unat n}"
  proof (intro set_eqI iffI)
    fix i :: u32 assume "i \<in> {i. i < n}"
    then have "unat i < unat n" "i = of_nat (unat i)" by (simp_all add: word_less_nat_alt)
    then show "i \<in> of_nat ` {..<unat n}" by blast
  next
    fix i :: u32 assume "i \<in> of_nat ` {..<unat n}"
    then obtain k where "k < unat n" "i = of_nat k" by auto
    then show "i \<in> {i. i < n}"
      using unat_less_2_32 [of n] by (simp add: word_less_nat_alt unat_of_nat_u32)
  qed
  have "inj_on (of_nat :: nat \<Rightarrow> u32) {..<unat n}"
    using unat_less_2_32 [of n] by (intro inj_on_inverseI [of _ unat]) (auto intro: unat_of_nat_u32)
  then show "card {i :: u32. i < n} = unat n" "finite {i :: u32. i < n}"
    unfolding eq by (simp_all add: card_image)
qed

lemma free_pages_init:
  assumes "mem_end_ok e"
  shows "free_pages e (pmm_init e m) = page_addr e ` {i. i < num_pages e}"
  using pmm_init_clear [OF assms] by (auto simp: free_pages_def)

lemma card_free_pages_init:
  assumes "mem_end_ok e"
  shows "card (free_pages e (pmm_init e m)) = unat (num_pages e)" "finite (free_pages e (pmm_init e m))"
  using card_words_below [of "num_pages e"] page_addr_inj [of _ e]
  by (auto simp: free_pages_init [OF assms] card_image inj_on_def)

section \<open>Properties\<close>

text \<open>
  (C22) From the freshly initialised bitmap, any number of \<open>kalloc\<close> calls up to
  \<open>num_pages\<close> succeeds, and the addresses returned are pairwise different pages of the managed
  range: no page is handed out twice.
\<close>

theorem kalloc_distinct_pages:
  assumes "mem_end_ok e" "n \<le> unat (num_pages e)"
  shows "\<exists>ps m'. pmm.allocs e n (pmm_init e m) = Some (ps, m') \<and> length ps = n \<and> distinct ps \<and>
    set ps \<subseteq> page_addr e ` {i. i < num_pages e}"
proof -
  obtain ps m' where ps: "pmm.allocs e n (pmm_init e m) = Some (ps, m')"
    using pmm.allocs_total [of e "pmm_init e m" n] card_free_pages_init [OF assms(1), of m] assms(2)
    by auto
  with pmm.allocs_fresh [OF _ ps] show ?thesis by (simp add: free_pages_init [OF assms(1)])
qed

theorem kalloc_distinct_pages_witness:
  "\<exists>ps m'. pmm.allocs 0x80020000 100 (pmm_init 0x80020000 (\<lambda>_. 7)) = Some (ps, m') \<and>
     length ps = 100 \<and> distinct ps \<and> set ps \<subseteq> page_addr 0x80020000 ` {i. i < num_pages 0x80020000}"
  by (rule kalloc_distinct_pages) (simp_all add: mem_end_ok_def num_pages_def PGROUNDUP_def)

text \<open>
  A successful \<open>kalloc\<close> returns the free page of lowest index, marks exactly that page as
  taken, and changes no byte of any page of the heap.
\<close>

theorem kalloc_lowest_free:
  assumes "mem_end_ok e" "kalloc e m = Inr (p, m')"
  shows "\<exists>i < num_pages e. p = page_addr e i \<and> \<not> IS_SET e m i \<and> (\<forall>k < i. IS_SET e m k) \<and>
    (\<forall>j. IS_SET e m' j \<longleftrightarrow> j = i \<or> IS_SET e m j) \<and>
    (\<forall>j < num_pages e. \<forall>y. in_range y (page_addr e j) 4096 \<longrightarrow> m' y = m y)"
  using assms(2)
proof (rule kalloc_Inr)
  fix i
  assume "i < num_pages e" "\<not> IS_SET e m i" "\<forall>k < i. IS_SET e m k" "p = page_addr e i"
    "m' = SET_BIT e m i"
  with assms(1) show ?thesis
    by (intro exI [of _ i]) (simp add: IS_SET_SET_BIT SET_BIT_page_frame)
qed

lemma kalloc_zero_memory:
  assumes "0 < num_pages e"
  shows "kalloc e (\<lambda>_. 0) = Inr (page_addr e 0, SET_BIT e (\<lambda>_. 0) 0)"
proof -
  have "\<not> IS_SET e (\<lambda>_. 0) 0" by (simp add: bm_bit load32_def)
  with assms show ?thesis
    by (simp add: kalloc_def kalloc_loop.simps [of e "num_pages e" 0] page_addr_def)
qed

lemma mem_end_example: "mem_end_ok 0x80020000" "0 < num_pages 0x80020000"
  by (simp_all add: mem_end_ok_def num_pages_def PGROUNDUP_def)

theorem kalloc_lowest_free_witness:
  "\<exists>i < num_pages 0x80020000. page_addr 0x80020000 0 = page_addr 0x80020000 i \<and>
     (\<forall>k < i. IS_SET 0x80020000 (\<lambda>_. 0) k)"
  using kalloc_lowest_free [OF mem_end_example(1) kalloc_zero_memory [OF mem_end_example(2)]] by auto

text \<open>
  \<open>kfree\<close> does not undo \<open>kalloc\<close>: the base address it subtracts (line 57, from
  \<^verbatim>\<open>HEAP_SIZE\<close>) is never the base \<open>kalloc\<close> added (line 37, from \<^verbatim>\<open>num_pages\<close>), so the bit it
  clears belongs to another page, and the page that was freed is still not available.
\<close>

theorem kfree_does_not_free:
  assumes "mem_end_ok e" "kalloc e m = Inr (p, m')"
  shows "p \<notin> free_pages e (kfree e p m')"
  using assms(2)
proof (rule kalloc_Inr)
  fix i
  assume i: "i < num_pages e" "p = page_addr e i" "m' = SET_BIT e m i"
  then have "IS_SET e (kfree e p m') i"
    using kfree_index_neq [OF assms(1) i(1)]
    by (auto simp: kfree_def IS_SET_CLEAR_BITS IS_SET_SET_BIT)
  with i show ?thesis by (auto simp: free_pages_def dest: page_addr_inj)
qed

theorem kfree_does_not_free_witness:
  "page_addr 0x80020000 0 \<notin> free_pages 0x80020000
     (kfree 0x80020000 (page_addr 0x80020000 0) (SET_BIT 0x80020000 (\<lambda>_. 0) 0))"
  by (rule kfree_does_not_free [OF mem_end_example(1) kalloc_zero_memory [OF mem_end_example(2)]])

text \<open>
  When only the last page of the bitmap is free, \<open>kalloc\<close> returns an address at or above
  \<^verbatim>\<open>PHYSTOP\<close>: the number of pages is computed from the start of the bitmap, but the pages
  start after it.
\<close>

theorem kalloc_beyond_phystop:
  assumes "mem_end_ok e" "\<forall>k < num_pages e - 1. IS_SET e m k" "\<not> IS_SET e m (num_pages e - 1)"
  shows "\<exists>p m'. kalloc e m = Inr (p, m') \<and> PHYSTOP \<le> p"
proof -
  obtain s where s: "unat (PGROUNDUP e) = 4096 * s" "524288 \<le> s" "s \<le> 540672"
      "unat (num_pages e) = 557056 - s"
    by (rule layout_start [OF assms(1)])
  then have pos: "num_pages e \<noteq> 0" by (auto simp: unat_0_iff [symmetric])
  have last: "unat (num_pages e - 1) = 557056 - s - 1"
    using pos s by (simp add: unat_minus_one)
  then have lt: "num_pages e - 1 < num_pages e" using s by (simp add: word_less_nat_alt)
  then have "page_addr e (num_pages e - 1) \<in> free_pages e m"
    using assms(3) by (auto simp: free_pages_def)
  then obtain p m' where p: "kalloc e m = Inr (p, m')"
    using pmm.alloc_None [of e m] by (cases "kalloc e m") (auto simp: kalloc_opt_def)
  then obtain i where i: "i < num_pages e" "\<not> IS_SET e m i" "p = page_addr e i"
    by (rule kalloc_Inr)
  have "\<not> i < num_pages e - 1" using i(2) assms(2) by auto
  then have "unat i = 557056 - s - 1"
    using i(1) last s by (simp add: word_less_nat_alt)
  then have "2281701376 \<le> unat (page_addr e i)"
    using layout_page(1) [OF assms(1) i(1)] layout_bitmap(3) [OF assms(1) i(1)] s by linarith
  then have "2281701376 \<le> unat p" unfolding i(3) .
  with p show ?thesis by (auto simp: word_le_nat_alt)
qed

lemma IS_SET_ones: "IS_SET e (\<lambda>_. 255) k"
proof -
  have "load32 (\<lambda>_. 255) a = - 1" for a by (simp add: load32_def)
  then show ?thesis using unat_mod_8_less [of k] by (simp add: bm_bit)
qed

theorem kalloc_beyond_phystop_witness:
  "\<exists>p m'. kalloc 0x80020000 (CLEAR_BITS 0x80020000 (\<lambda>_. 255) (num_pages 0x80020000 - 1)) =
     Inr (p, m') \<and> PHYSTOP \<le> p"
  by (rule kalloc_beyond_phystop) (auto simp: mem_end_example IS_SET_CLEAR_BITS IS_SET_ones)

text \<open>
  In the free-list allocator of \<^verbatim>\<open>kalloc.c\<close>, freeing the page that was just allocated
  succeeds and gives back exactly the pages that were available before, and the next
  allocation returns that page again.
\<close>

theorem free_list_roundtrip:
  assumes "kmem_inv e k" "kalloc_list k = (p, k')" "p \<noteq> 0"
  shows "\<exists>k''. kfree_list e p k' = Inr k'' \<and> kmem_inv e k'' \<and> kmem_avail k'' = kmem_avail k \<and>
    fst (kalloc_list k'') = p"
proof -
  have "kalloc_list_opt k = Some (p, k')" using assms(2,3) by (simp add: kalloc_list_opt_def)
  with kl.free_alloc [OF assms(1)] obtain k''
    where k'': "kfree_list_opt e p k' = Some k''" "kmem_inv e k''" "kmem_avail k'' = kmem_avail k"
    by blast
  then have "kfree_list e p k' = Inr k''" by (simp add: kfree_list_opt_def split: sum.splits)
  moreover from this assms(3) have "fst (kalloc_list k'') = p"
    by (auto simp: kfree_list_def kalloc_list_def Let_def split: if_splits)
  ultimately show ?thesis using k'' by blast
qed

lemma kmem_example_inv: "kmem_inv 0x80000000 \<lparr>pages = \<lambda>_. 0, freelist = 0x80001000\<rparr>"
  unfolding kmem_inv_def
  by (intro exI [of _ "[0x80001000]"]) (simp add: heap_page_def page_aligned_def load32_def)

theorem free_list_roundtrip_witness:
  "\<exists>k''. kfree_list 0x80000000 0x80001000
       (snd (kalloc_list \<lparr>pages = \<lambda>_. 0, freelist = 0x80001000\<rparr>)) = Inr k'' \<and>
     fst (kalloc_list k'') = 0x80001000"
  using free_list_roundtrip [OF kmem_example_inv, of "0x80001000"]
  by (fastforce simp: kalloc_list_def Let_def)

end
