(* ===== verification/Paging.thy ===== *)
theory Paging
  imports Pmm
begin

text \<open>
  \<^verbatim>\<open>kernel/paging.c\<close>: the two-level page tables of Sv32. A page table is a page of memory, named by
  its address; every entry is a word of that page. The kernel maps all of memory at its own
  address, so a physical address read from an entry is used as a pointer. The linker symbols
  (\<^verbatim>\<open>mem_end\<close>, \<^verbatim>\<open>text_end\<close>, \<^verbatim>\<open>uvec\<close>) are arguments. A routine that returns the null pointer or
  \<open>-1\<close> does so here, and memory is the state that is passed on.

  Loops that walk page by page count their rounds: \<^verbatim>\<open>map_pages\<close> and \<^verbatim>\<open>uvmunmap\<close> stop when they
  reach the last page, which is \<open>(last - first) / PGESIZE\<close> rounds away; \<^verbatim>\<open>uvmalloc\<close> and
  \<^verbatim>\<open>uvmcopy\<close> can wrap around the address space and are cut off after as many rounds as there
  are pages, when they have mapped every page and panic.
\<close>

abbreviation "PTE_V \<equiv> 1 :: u32"
abbreviation "PTE_R \<equiv> 2 :: u32"
abbreviation "PTE_W \<equiv> 4 :: u32"
abbreviation "PTE_X \<equiv> 8 :: u32"
abbreviation "PTE_U \<equiv> 16 :: u32"
abbreviation "VPNMASK \<equiv> 0x3ff :: u32"
abbreviation "USERVEC \<equiv> 0xfffff000 :: u32"
abbreviation "TRAPFRAME \<equiv> 0xffffe000 :: u32"
abbreviation "KERNEL_BASE \<equiv> 0x80000000 :: u32"
abbreviation "UART0 \<equiv> 0x10000000 :: u32"
abbreviation "VIRTIO0 \<equiv> 0x10001000 :: u32"
abbreviation "CLINT \<equiv> 0x02000000 :: u32"
abbreviation "PLIC \<equiv> 0x0C000000 :: u32"
abbreviation "PLICSIZE \<equiv> 0x400000 :: u32"

section \<open>Entries\<close>

definition PTE2PA :: "u32 \<Rightarrow> u32" where
  "PTE2PA pte = push_bit 12 (drop_bit 10 pte)"

definition PA2PTE :: "u32 \<Rightarrow> u32" where
  "PA2PTE pa = push_bit 10 (drop_bit 12 pa)"

definition PGROUNDDOWN :: "u32 \<Rightarrow> u32" where
  "PGROUNDDOWN a = a AND NOT (PGESIZE - 1)"

definition MAKE_SATP :: "u32 \<Rightarrow> u32" where
  "MAKE_SATP pagetable = push_bit 31 1 OR drop_bit 12 pagetable"

text \<open>\<^verbatim>\<open>&pagetable[(vir_addr >> (PGEOFFSET + 10 * i)) & VPNMASK]\<close> for level \<open>i\<close>.\<close>

definition pte_slot :: "u32 \<Rightarrow> u32 \<Rightarrow> nat \<Rightarrow> u32" where
  "pte_slot pagetable va i = pagetable + 4 * (drop_bit (12 + 10 * i) va AND VPNMASK)"

section \<open>Walking and mapping\<close>

definition walk :: "u32 \<Rightarrow> u32 \<Rightarrow> u32 \<Rightarrow> bool \<Rightarrow> mem \<Rightarrow> (u32 \<times> mem) res" where
  "walk mem_end pagetable vir_addr alloc m =
     (if MAXVA \<le> vir_addr then Inl (Panic ''vir_addr out of range'')
      else let pte = pte_slot pagetable vir_addr 1 in
        if load32 m pte AND PTE_V \<noteq> 0 then Inr (pte_slot (PTE2PA (load32 m pte)) vir_addr 0, m)
        else if \<not> alloc then Inr (0, m)
        else rbind (kalloc mem_end m) (\<lambda>(pagetable, m).
          if pagetable = 0 then Inr (0, m)
          else
            let m = memset m pagetable 0 PGESIZE;
                m = store32 m pte (PA2PTE pagetable OR PTE_V)
            in Inr (pte_slot pagetable vir_addr 0, m)))"

fun map_loop :: "u32 \<Rightarrow> u32 \<Rightarrow> u32 \<Rightarrow> u32 \<Rightarrow> nat \<Rightarrow> u32 \<Rightarrow> u32 \<Rightarrow> mem \<Rightarrow> (int \<times> mem) res" where
  "map_loop mem_end kpage perm lst 0 vir phy_addr m = Inl Diverges"
| "map_loop mem_end kpage perm lst (Suc fuel) vir phy_addr m =
     rbind (walk mem_end kpage vir True m) (\<lambda>(pte, m).
       if pte = 0 then Inr (- 1, m)
       else if load32 m pte AND PTE_V \<noteq> 0 then Inl (Panic ''map_pages, PTE_V and pte'')
       else
         let m = store32 m pte (PA2PTE phy_addr OR perm OR PTE_V)
         in if vir = lst then Inr (0, m)
            else map_loop mem_end kpage perm lst fuel (vir + PGESIZE) (phy_addr + PGESIZE) m)"

definition map_pages :: "u32 \<Rightarrow> u32 \<Rightarrow> u32 \<Rightarrow> u32 \<Rightarrow> u32 \<Rightarrow> u32 \<Rightarrow> mem \<Rightarrow> (int \<times> mem) res" where
  "map_pages mem_end kpage vir_addr phy_addr sz perm m =
     (if sz = 0 then Inl (Panic ''map_pages: size == 0!'')
      else
        let lst = PGROUNDDOWN (vir_addr + sz - 1);
            vir = PGROUNDDOWN vir_addr
        in map_loop mem_end kpage perm lst (Suc (unat ((lst - vir) div PGESIZE))) vir phy_addr m)"

definition kmap :: "u32 \<Rightarrow> u32 \<Rightarrow> u32 \<Rightarrow> u32 \<Rightarrow> u32 \<Rightarrow> u32 \<Rightarrow> mem \<Rightarrow> mem res" where
  "kmap mem_end kpagetable vir_addr phy_addr sz perm m =
     rbind (map_pages mem_end kpagetable vir_addr phy_addr sz perm m) (\<lambda>(r, m).
       if r \<noteq> 0 then Inl (Panic ''kmap failed'') else Inr m)"

definition kpage_init :: "u32 \<Rightarrow> u32 \<Rightarrow> u32 \<Rightarrow> mem \<Rightarrow> (u32 \<times> mem) res" where
  "kpage_init mem_end text_end uvec m =
     rbind (kalloc mem_end m) (\<lambda>(kpt, m).
       let m = memset m kpt 0 PGESIZE in
       rbind (kmap mem_end kpt UART0 UART0 PGESIZE (PTE_R OR PTE_W) m) (\<lambda>m.
       rbind (kmap mem_end kpt VIRTIO0 VIRTIO0 PGESIZE (PTE_R OR PTE_W) m) (\<lambda>m.
       rbind (kmap mem_end kpt CLINT CLINT 0x10000 (PTE_R OR PTE_W) m) (\<lambda>m.
       rbind (kmap mem_end kpt PLIC PLIC PLICSIZE (PTE_R OR PTE_W) m) (\<lambda>m.
       rbind (kmap mem_end kpt KERNEL_BASE KERNEL_BASE (text_end - KERNEL_BASE) (PTE_R OR PTE_X) m) (\<lambda>m.
       rbind (kmap mem_end kpt text_end text_end (PHYSTOP - text_end) (PTE_R OR PTE_W) m) (\<lambda>m.
       rbind (kmap mem_end kpt USERVEC uvec PGESIZE (PTE_R OR PTE_X) m) (\<lambda>m.
       Inr (kpt, m)))))))))"

definition fetch_pa_addr :: "u32 \<Rightarrow> u32 \<Rightarrow> u32 \<Rightarrow> mem \<Rightarrow> u32 res" where
  "fetch_pa_addr mem_end pagetable va m =
     (if MAXVA \<le> va then Inr 0
      else rbind (walk mem_end pagetable va False m) (\<lambda>(pte, m).
        if pte = 0 then Inr 0
        else if load32 m pte AND PTE_V = 0 then Inr 0
        else if load32 m pte AND PTE_U = 0 then Inr 0
        else Inr (PTE2PA (load32 m pte))))"

definition fetch_kpa :: "u32 \<Rightarrow> u32 \<Rightarrow> u32 \<Rightarrow> mem \<Rightarrow> u32 res" where
  "fetch_kpa mem_end kpagetable va m =
     (let off = va mod PGESIZE in
      rbind (walk mem_end kpagetable va False m) (\<lambda>(pte, m).
        if pte = 0 then Inl (Panic ''pte = 0, fetch_kpa'')
        else if load32 m pte AND PTE_V = 0 then Inl (Panic ''PTE_V == 0, fetch_kpa'')
        else Inr (PTE2PA (load32 m pte) + off)))"

section \<open>User memory\<close>

definition upaging_create :: "u32 \<Rightarrow> mem \<Rightarrow> (u32 \<times> mem) res" where
  "upaging_create mem_end m =
     rbind (kalloc mem_end m) (\<lambda>(pagetable, m).
       if pagetable = 0 then Inl (Panic ''out of memory'')
       else Inr (pagetable, memset m pagetable 0 PGESIZE))"

definition kmemmove :: "mem \<Rightarrow> u32 \<Rightarrow> u32 \<Rightarrow> u32 \<Rightarrow> mem res" where
  "kmemmove m dst src n = (case memmove m dst src n of None \<Rightarrow> Inl Diverges | Some m \<Rightarrow> Inr m)"

definition upaging_init :: "u32 \<Rightarrow> u32 \<Rightarrow> u32 \<Rightarrow> u32 \<Rightarrow> mem \<Rightarrow> mem res" where
  "upaging_init mem_end pagetable src sz m =
     (if PGESIZE \<le> sz then Inl (Panic ''size >= PGESIZE, upaging_init()'')
      else rbind (kalloc mem_end m) (\<lambda>(mm, m).
        rbind (map_pages mem_end pagetable 0 mm PGESIZE (PTE_W OR PTE_R OR PTE_X OR PTE_U) (memset m mm 0 PGESIZE))
          (\<lambda>(_, m). kmemmove m mm src sz)))"

fun unmap_loop :: "u32 \<Rightarrow> u32 \<Rightarrow> bool \<Rightarrow> u32 \<Rightarrow> nat \<Rightarrow> u32 \<Rightarrow> mem \<Rightarrow> mem res" where
  "unmap_loop mem_end pagetable free lst 0 a m = Inl Diverges"
| "unmap_loop mem_end pagetable free lst (Suc fuel) a m =
     rbind (walk mem_end pagetable a False m) (\<lambda>(pte, m).
       if pte = 0 then Inl (Panic ''uvmunmap: walk'')
       else if load32 m pte AND PTE_V = 0 then Inl (Panic ''uvmunmap: not mapped'')
       else if load32 m pte AND 0x3ff = PTE_V then Inl (Panic ''uvmunmap: not a leaf'')
       else
         let m = (if free then kfree mem_end (PTE2PA (load32 m pte)) m else m);
             m = store32 m pte 0
         in if a = lst then Inr m else unmap_loop mem_end pagetable free lst fuel (a + PGESIZE) m)"

definition uvmunmap :: "u32 \<Rightarrow> u32 \<Rightarrow> u32 \<Rightarrow> u32 \<Rightarrow> bool \<Rightarrow> mem \<Rightarrow> mem res" where
  "uvmunmap mem_end pagetable va npages free m =
     (if va mod PGESIZE \<noteq> 0 then Inl (Panic ''uvmunmap: not aligned'')
      else
        let a = PGROUNDDOWN va;
            lst = PGROUNDDOWN (va + npages - 1)
        in unmap_loop mem_end pagetable free lst (Suc (unat ((lst - a) div PGESIZE))) a m)"

definition uvmdealloc :: "u32 \<Rightarrow> u32 \<Rightarrow> u32 \<Rightarrow> u32 \<Rightarrow> mem \<Rightarrow> (u32 \<times> mem) res" where
  "uvmdealloc mem_end pagetable oldsize newsize m =
     (if oldsize \<le> newsize then Inr (oldsize, m)
      else
        let rounded_newsize = PGROUNDUP newsize;
            rounded_oldsize = PGROUNDUP oldsize
        in if rounded_newsize < rounded_oldsize then
             let npages = (rounded_oldsize - rounded_newsize) div PGESIZE
             in rbind (uvmunmap mem_end pagetable rounded_newsize npages True m) (\<lambda>m. Inr (newsize, m))
           else Inr (newsize, m))"

abbreviation "ADDRESS_SPACE_PAGES \<equiv> 1048576 :: nat"

fun uvmalloc_loop :: "u32 \<Rightarrow> u32 \<Rightarrow> u32 \<Rightarrow> u32 \<Rightarrow> nat \<Rightarrow> u32 \<Rightarrow> mem \<Rightarrow> (u32 \<times> mem) res" where
  "uvmalloc_loop mem_end pagetable oldsize newsize 0 a m =
     (if a < newsize then Inl Diverges else Inr (newsize, m))"
| "uvmalloc_loop mem_end pagetable oldsize newsize (Suc fuel) a m =
     (if a < newsize then
        rbind (kalloc mem_end m) (\<lambda>(mm, m).
          if mm = 0 then rbind (uvmdealloc mem_end pagetable a oldsize m) (\<lambda>(_, m). Inr (0, m))
          else
            rbind (map_pages mem_end pagetable a mm PGESIZE (PTE_W OR PTE_X OR PTE_R OR PTE_U) (memset m mm 0 PGESIZE))
              (\<lambda>(r, m).
                if r \<noteq> 0 then
                  rbind (uvmdealloc mem_end pagetable a oldsize (kfree mem_end mm m)) (\<lambda>(_, m). Inr (0, m))
                else uvmalloc_loop mem_end pagetable oldsize newsize fuel (a + PGESIZE) m))
      else Inr (newsize, m))"

definition uvmalloc :: "u32 \<Rightarrow> u32 \<Rightarrow> u32 \<Rightarrow> u32 \<Rightarrow> mem \<Rightarrow> (u32 \<times> mem) res" where
  "uvmalloc mem_end pagetable oldsize newsize m =
     (if newsize < oldsize then Inr (oldsize, m)
      else
        let oldsize = PGROUNDUP oldsize
        in uvmalloc_loop mem_end pagetable oldsize newsize (Suc ADDRESS_SPACE_PAGES) oldsize m)"

definition uvmclear :: "u32 \<Rightarrow> u32 \<Rightarrow> u32 \<Rightarrow> mem \<Rightarrow> mem res" where
  "uvmclear mem_end pagetable va m =
     rbind (walk mem_end pagetable va False m) (\<lambda>(pte, m).
       if pte = 0 then Inl (Panic ''uvmclear'')
       else Inr (store32 m pte (load32 m pte AND NOT PTE_U)))"

fun uvmcopy_loop :: "u32 \<Rightarrow> u32 \<Rightarrow> u32 \<Rightarrow> u32 \<Rightarrow> nat \<Rightarrow> u32 \<Rightarrow> mem \<Rightarrow> (int \<times> mem) res" where
  "uvmcopy_loop mem_end old new_addr sz 0 i m = (if i < sz then Inl Diverges else Inr (0, m))"
| "uvmcopy_loop mem_end old new_addr sz (Suc fuel) i m =
     (if i < sz then
        rbind (walk mem_end old i False m) (\<lambda>(pte, m).
          if pte = 0 then Inl (Panic ''uvmcopy: pte should exist'')
          else if load32 m pte AND PTE_V = 0 then Inl (Panic ''uvmcopy: page not present'')
          else
            let pa = PTE2PA (load32 m pte);
                flags = load32 m pte AND 0x3ff
            in rbind (kalloc mem_end m) (\<lambda>(mm, m).
                 if mm = 0 then rbind (uvmunmap mem_end new_addr 0 i True m) (\<lambda>m. Inr (- 1, m))
                 else
                   rbind (kmemmove m mm pa PGESIZE) (\<lambda>m.
                   rbind (map_pages mem_end new_addr i mm PGESIZE flags m) (\<lambda>(r, m).
                     if r \<noteq> 0 then
                       rbind (uvmunmap mem_end new_addr 0 i True (kfree mem_end mm m)) (\<lambda>m. Inr (- 1, m))
                     else uvmcopy_loop mem_end old new_addr sz fuel (i + PGESIZE) m))))
      else Inr (0, m))"

definition uvmcopy :: "u32 \<Rightarrow> u32 \<Rightarrow> u32 \<Rightarrow> u32 \<Rightarrow> mem \<Rightarrow> (int \<times> mem) res" where
  "uvmcopy mem_end old new_addr sz m = uvmcopy_loop mem_end old new_addr sz (Suc ADDRESS_SPACE_PAGES) 0 m"

text \<open>\<^verbatim>\<open>freewalk\<close> calls itself for every table below; the recursion is cut off at a depth that only a
  table that contains itself reaches.\<close>

fun freewalk :: "u32 \<Rightarrow> nat \<Rightarrow> u32 \<Rightarrow> mem \<Rightarrow> mem res" and
    freewalk_entries :: "u32 \<Rightarrow> nat \<Rightarrow> u32 \<Rightarrow> nat list \<Rightarrow> mem \<Rightarrow> mem res" where
  "freewalk mem_end 0 pagetable m = Inl Diverges"
| "freewalk mem_end (Suc depth) pagetable m =
     rbind (freewalk_entries mem_end depth pagetable [0..<512] m) (\<lambda>m. Inr (kfree mem_end pagetable m))"
| "freewalk_entries mem_end depth pagetable [] m = Inr m"
| "freewalk_entries mem_end depth pagetable (i # is) m =
     (let slot = pagetable + 4 * of_nat i; pte = load32 m slot in
      if pte AND PTE_V \<noteq> 0 \<and> pte AND (PTE_R OR PTE_W OR PTE_X) = 0 then
        rbind (freewalk mem_end depth (PTE2PA pte) m) (\<lambda>m.
          freewalk_entries mem_end depth pagetable is (store32 m slot 0))
      else if pte AND PTE_V \<noteq> 0 then Inl (Panic ''freewalk, leaf'')
      else freewalk_entries mem_end depth pagetable is m)"

definition uvmfree :: "u32 \<Rightarrow> u32 \<Rightarrow> u32 \<Rightarrow> mem \<Rightarrow> mem res" where
  "uvmfree mem_end pagetable sz m =
     rbind (if 0 < sz then uvmunmap mem_end pagetable 0 sz True m else Inr m)
       (freewalk mem_end ADDRESS_SPACE_PAGES pagetable)"

section \<open>Copying between kernel and user memory\<close>

lemma PGROUNDDOWN_alt: "PGROUNDDOWN a = push_bit 12 (drop_bit 12 a)"
  by (simp add: PGROUNDDOWN_def and_not_mask12)

lemma unat_PGROUNDDOWN: "unat (PGROUNDDOWN a) = 4096 * (unat a div 4096)"
  by (simp add: PGROUNDDOWN_alt unat_page_base)

lemma unat_page_offset: "unat (a - PGROUNDDOWN a) = unat a mod 4096"
proof -
  have "PGROUNDDOWN a \<le> a" by (simp add: word_le_nat_alt unat_PGROUNDDOWN)
  then show ?thesis by (simp add: unat_sub_le unat_PGROUNDDOWN minus_mult_div_eq_mod)
qed

text \<open>The number of bytes of the page of \<open>a\<close> from \<open>a\<close> on, at most \<open>len\<close>.\<close>

definition page_rest :: "u32 \<Rightarrow> u32 \<Rightarrow> u32" where
  "page_rest a len = (let n = PGESIZE - (a - PGROUNDDOWN a) in if n > len then len else n)"

lemma unat_page_rest: "unat (page_rest a len) = min (unat len) (4096 - unat a mod 4096)"
proof -
  have "unat (PGESIZE - (a - PGROUNDDOWN a)) = 4096 - unat a mod 4096"
    by (subst unat_minus_u32) (simp add: unat_page_offset)
  then show ?thesis by (simp add: page_rest_def Let_def word_less_nat_alt min_def)
qed

lemma page_rest_less: "0 < len \<Longrightarrow> unat (len - page_rest a len) < unat len"
proof -
  assume "0 < len"
  then have "0 < unat len" by (simp add: word_less_nat_alt)
  moreover have "page_rest a len \<le> len" by (simp add: word_le_nat_alt unat_page_rest)
  ultimately show ?thesis by (simp add: unat_sub_le unat_page_rest)
qed

function copyto :: "u32 \<Rightarrow> u32 \<Rightarrow> u32 \<Rightarrow> u32 \<Rightarrow> u32 \<Rightarrow> mem \<Rightarrow> (int \<times> mem) res" where
  "copyto mem_end pagetable dst srcaddr len m =
     (if 0 < len then
        let va = PGROUNDDOWN srcaddr in
        rbind (fetch_pa_addr mem_end pagetable va m) (\<lambda>pa.
          if pa = 0 then Inr (- 1, m)
          else
            let n = page_rest srcaddr len in
            rbind (kmemmove m dst (pa + (srcaddr - va)) n) (\<lambda>m.
              copyto mem_end pagetable (dst + n) (va + PGESIZE) (len - n) m))
      else Inr (0, m))"
  by pat_completeness auto
termination
  by (relation "measure (\<lambda>(e, pt, dst, src, len, m). unat len)") (auto intro: page_rest_less)

function copyout :: "u32 \<Rightarrow> u32 \<Rightarrow> u32 \<Rightarrow> u32 \<Rightarrow> u32 \<Rightarrow> mem \<Rightarrow> (int \<times> mem) res" where
  "copyout mem_end pagetable dstaddr src len m =
     (if 0 < len then
        let va = PGROUNDDOWN dstaddr in
        rbind (fetch_pa_addr mem_end pagetable va m) (\<lambda>pa.
          if pa = 0 then Inr (- 1, m)
          else
            let n = page_rest dstaddr len in
            rbind (kmemmove m (pa + (dstaddr - va)) src n) (\<lambda>m.
              copyout mem_end pagetable (va + PGESIZE) (src + n) (len - n) m))
      else Inr (0, m))"
  by pat_completeness auto
termination
  by (relation "measure (\<lambda>(e, pt, dst, src, len, m). unat len)") (auto intro: page_rest_less)

declare copyto.simps [simp del] copyout.simps [simp del]

text \<open>The inner loop of \<^verbatim>\<open>copyinstr\<close>: \<open>n\<close> bytes of one page, with the advanced \<^verbatim>\<open>dst\<close> and the
  decreased \<^verbatim>\<open>max\<close>.\<close>

fun copyinstr_page :: "nat \<Rightarrow> u32 \<Rightarrow> u32 \<Rightarrow> u32 \<Rightarrow> mem \<Rightarrow> bool \<times> u32 \<times> u32 \<times> mem" where
  "copyinstr_page 0 p dst mx m = (False, dst, mx, m)"
| "copyinstr_page (Suc n) p dst mx m =
     (if m p = 0 then (True, dst, mx, m(dst := 0))
      else copyinstr_page n (p + 1) (dst + 1) (mx - 1) (m(dst := m p)))"

lemma copyinstr_page_max:
  "copyinstr_page n p dst mx m = (False, dst', mx', m') \<Longrightarrow> dst' = dst + of_nat n \<and> mx' = mx - of_nat n"
proof (induction n arbitrary: p dst mx m)
  case (Suc n)
  then have "copyinstr_page n (p + 1) (dst + 1) (mx - 1) (m(dst := m p)) = (False, dst', mx', m')"
    by (auto split: if_splits)
  from Suc.IH [OF this] show ?case by simp
qed simp

lemma copyinstr_page_less:
  assumes "copyinstr_page (unat (page_rest srcva mx)) q dst mx m = (False, dst', mx', m')" "mx \<noteq> 0"
  shows "unat mx' < unat mx"
proof -
  from copyinstr_page_max [OF assms(1)] have "mx' = mx - page_rest srcva mx"
    by (simp only: of_nat_unat ucast_id)
  with assms(2) show ?thesis using page_rest_less [of mx srcva] by (simp add: word_gt_0)
qed

function copyinstr :: "u32 \<Rightarrow> u32 \<Rightarrow> u32 \<Rightarrow> u32 \<Rightarrow> u32 \<Rightarrow> mem \<Rightarrow> (int \<times> mem) res" where
  "copyinstr mem_end pagetable dst srcva mx m =
     (if 0 < mx then
        let va0 = PGROUNDDOWN srcva in
        rbind (fetch_pa_addr mem_end pagetable va0 m) (\<lambda>pa0.
          if pa0 = 0 then Inr (- 1, m)
          else
            (case copyinstr_page (unat (page_rest srcva mx)) (pa0 + (srcva - va0)) dst mx m of
               (got_null, dst, mx, m) \<Rightarrow>
                 if got_null then Inr (0, m)
                 else copyinstr mem_end pagetable dst (va0 + PGESIZE) mx m))
      else Inr (- 1, m))"
  by pat_completeness auto
termination
  by (relation "measure (\<lambda>(e, pt, dst, src, mx, m). unat mx)")
    (auto simp: word_gt_0 dest: copyinstr_page_less [OF sym])

declare copyinstr.simps [simp del]

section \<open>Slots of a page table\<close>

definition vpn :: "u32 \<Rightarrow> nat \<Rightarrow> u32" where
  "vpn va i = drop_bit (12 + 10 * i) va AND VPNMASK"

lemma pte_slot_alt: "pte_slot p va i = p + 4 * vpn va i"
  by (simp add: pte_slot_def vpn_def)

lemma vpn_less: "unat (vpn va i) < 1024"
proof -
  have "vpn va i = take_bit 10 (drop_bit (12 + 10 * i) va)"
    by (simp add: vpn_def take_bit_eq_mask mask_eq_exp_minus_1)
  then have "vpn va i = drop_bit (12 + 10 * i) va mod 1024" by (simp add: take_bit_eq_mod)
  then show ?thesis by (simp add: unat_mod)
qed

lemma same_page_iff:
  "PGROUNDDOWN v = PGROUNDDOWN w \<longleftrightarrow> vpn v 1 = vpn w 1 \<and> vpn v 0 = vpn w 0"
proof
  assume "vpn v 1 = vpn w 1 \<and> vpn v 0 = vpn w 0"
  then have h: "bit (vpn v 1) k = bit (vpn w 1) k" "bit (vpn v 0) k = bit (vpn w 0) k" for k by simp_all
  have m: "(0x3ff :: u32) = mask 10" by (simp add: mask_eq_exp_minus_1)
  have "bit v k = bit w k" if "12 \<le> k" "k < 32" for k
  proof (cases "22 \<le> k")
    case True
    then have "k - 22 < 10" using that by linarith
    then show ?thesis using h(1) [of "k - 22"] True by (simp add: vpn_def m bit_simps)
  next
    case False
    then have "k - 12 < 10" using that by linarith
    then show ?thesis using h(2) [of "k - 12"] that by (simp add: vpn_def m bit_simps)
  qed
  then show "PGROUNDDOWN v = PGROUNDDOWN w"
    by (intro bit_word_eqI) (auto simp: PGROUNDDOWN_alt bit_simps)
next
  assume "PGROUNDDOWN v = PGROUNDDOWN w"
  then have "drop_bit 12 (PGROUNDDOWN v) = drop_bit 12 (PGROUNDDOWN w)" by simp
  moreover have "drop_bit 12 (PGROUNDDOWN x) = drop_bit 12 x" for x
    by (rule bit_word_eqI) (auto simp: PGROUNDDOWN_alt bit_simps dest: bit_imp_le_length)
  ultimately have "drop_bit 12 v = drop_bit 12 w" by simp
  then have "drop_bit k (drop_bit 12 v) = drop_bit k (drop_bit 12 w)" for k by simp
  then have "drop_bit (12 + k) v = drop_bit (12 + k) w" for k by (simp add: add.commute)
  from this [of 10] this [of 0] show "vpn v 1 = vpn w 1 \<and> vpn v 0 = vpn w 0" by (simp add: vpn_def)
qed

lemma slot_aligned:
  assumes "page_aligned p" "unat k < 1024"
  shows "aligned4 (p + 4 * k)" "unat (p + 4 * k) = unat p + 4 * unat k"
proof -
  from assms(1) obtain q where q: "unat p = 4096 * q" by (auto simp: page_aligned_def)
  have k4: "unat (4 * k) = 4 * unat k" using assms(2) by (simp add: unat_word_ariths)
  have "q < 1048576" using q unat_less_2_32 [of p] by simp
  then show "unat (p + 4 * k) = unat p + 4 * unat k"
    using q k4 assms(2) by (intro unat_plus_u32 [of p "4 * k", unfolded k4]) simp
  then show "aligned4 (p + 4 * k)" by (simp add: aligned4_def q)
qed

lemma slot_eq_iff:
  assumes "page_aligned p" "page_aligned q" "unat j < 1024" "unat k < 1024"
  shows "p + 4 * j = q + 4 * k \<longleftrightarrow> p = q \<and> j = k"
proof
  assume "p + 4 * j = q + 4 * k"
  then have "unat p + 4 * unat j = unat q + 4 * unat k"
    using slot_aligned(2) assms by metis
  moreover from assms obtain a b where ab: "unat p = 4096 * a" "unat q = 4096 * b"
    by (auto simp: page_aligned_def elim!: dvdE)
  ultimately have eq: "4096 * a + 4 * unat j = 4096 * b + 4 * unat k" by simp
  have "a = b" by (cases a b rule: linorder_cases) (use eq assms(3,4) in linarith)+
  with eq ab have "unat p = unat q" "unat j = unat k" by simp_all
  then show "p = q \<and> j = k" by (simp add: word_unat_eq_iff)
qed simp

lemma load32_slot_frame:
  assumes "\<And>y. \<not> in_range y q 4096 \<Longrightarrow> m' y = m y" "page_aligned p" "page_aligned q" "p \<noteq> q" "unat k < 1024"
  shows "load32 m' (p + 4 * k) = load32 m (p + 4 * k)"
proof -
  have *: "m' (p + 4 * k + of_nat i) = m (p + 4 * k + of_nat i)" if "i < 4" for i
  proof -
    have eq: "p + 4 * k + of_nat i = p + of_nat (4 * unat k + i)" by simp
    have "\<not> in_range (p + of_nat (4 * unat k + i)) q 4096"
      using assms(5) that by (intro page_offset_out assms(2-4)) linarith
    then show ?thesis using assms(1) unfolding eq by blast
  qed
  from * [of 0] * [of 1] * [of 2] * [of 3] show ?thesis by (intro load32_cong) simp_all
qed

lemma slot_in_page:
  assumes "unat k < 1024" "i < 4"
  shows "in_range (p + 4 * k + of_nat i) p 4096"
proof -
  have "p + 4 * k + of_nat i - p = of_nat (4 * unat k + i)" by simp
  moreover have "unat (of_nat (4 * unat k + i) :: u32) = 4 * unat k + i"
    using assms by (intro unat_of_nat_u32) simp
  ultimately show ?thesis using assms by (simp only: in_range_def)
qed

lemma load32_memset_zero: "unat k < 1024 \<Longrightarrow> load32 (memset m p 0 PGESIZE) (p + 4 * k) = 0"
  using slot_in_page [of k 0 p] slot_in_page [of k 1 p] slot_in_page [of k 2 p] slot_in_page [of k 3 p]
  by (simp add: load32_def memset_eq)

lemma store32_slot_frame:
  assumes "unat k < 1024" "\<not> in_range y p 4096"
  shows "store32 m (p + 4 * k) v y = m y"
proof (rule store32_frame, rule notI)
  assume r: "in_range y (p + 4 * k) 4"
  then have "y = p + 4 * k + of_nat (unat (y - (p + 4 * k)))" by (simp only: of_nat_unat ucast_id) simp
  with slot_in_page [OF assms(1), of "unat (y - (p + 4 * k))" p] r assms(2) show False
    by (simp add: in_range_def)
qed

section \<open>The translation of a page table\<close>

text \<open>The valid leaf entry for a virtual address, when there is one. \<open>alloc_page\<close> says that the
  allocator has handed out the page, and \<open>pt_ok\<close> is the invariant of a page table: its own page
  and its second-level pages are handed out and all different.\<close>

definition leaf :: "u32 \<Rightarrow> u32 option" where
  "leaf pte = (if pte AND PTE_V \<noteq> 0 then Some pte else None)"

definition mapping :: "mem \<Rightarrow> u32 \<Rightarrow> u32 \<Rightarrow> u32 option" where
  "mapping m pt va =
     (case leaf (load32 m (pte_slot pt va 1)) of
        None \<Rightarrow> None
      | Some pde \<Rightarrow> leaf (load32 m (pte_slot (PTE2PA pde) va 0)))"

definition alloc_page :: "u32 \<Rightarrow> mem \<Rightarrow> u32 \<Rightarrow> bool" where
  "alloc_page e m p \<longleftrightarrow> (\<exists>i<num_pages e. p = page_addr e i \<and> IS_SET e m i)"

definition table_of :: "mem \<Rightarrow> u32 \<Rightarrow> u32 \<Rightarrow> u32 option" where
  "table_of m pt k = map_option PTE2PA (leaf (load32 m (pt + 4 * k)))"

definition pt_ok :: "u32 \<Rightarrow> mem \<Rightarrow> u32 \<Rightarrow> bool" where
  "pt_ok e m pt \<longleftrightarrow> mem_end_ok e \<and> alloc_page e m pt
     \<and> (\<forall>k q. unat k < 1024 \<longrightarrow> table_of m pt k = Some q \<longrightarrow> alloc_page e m q \<and> q \<noteq> pt)
     \<and> (\<forall>j k q. unat j < 1024 \<longrightarrow> unat k < 1024 \<longrightarrow> table_of m pt j = Some q \<longrightarrow> table_of m pt k = Some q \<longrightarrow> j = k)"

lemma mapping_alt:
  "mapping m pt va = (case table_of m pt (vpn va 1) of None \<Rightarrow> None | Some q \<Rightarrow> leaf (load32 m (q + 4 * vpn va 0)))"
  by (auto simp: mapping_def table_of_def pte_slot_alt split: option.splits)

lemma alloc_page_aligned: "mem_end_ok e \<Longrightarrow> alloc_page e m p \<Longrightarrow> page_aligned p \<and> p \<noteq> 0"
proof -
  assume a: "mem_end_ok e" "alloc_page e m p"
  then obtain i where i: "i < num_pages e" "p = page_addr e i" by (auto simp: alloc_page_def)
  have "0 < unat p" using layout_page(1) [OF a(1) i(1)] layout_bitmap(3) [OF a(1) i(1)] i(2) by simp
  then show ?thesis using page_aligned_page_addr a i by auto
qed

lemma IS_SET_page_frame:
  assumes "mem_end_ok e" "alloc_page e m0 p" "\<And>y. \<not> in_range y p 4096 \<Longrightarrow> m' y = m y" "i < num_pages e"
  shows "IS_SET e m' i = IS_SET e m i"
proof -
  from assms(2) obtain j where j: "j < num_pages e" "p = page_addr e j" by (auto simp: alloc_page_def)
  have "m' (bm_addr e i + of_nat k) = m (bm_addr e i + of_nat k)" if "k < 4" for k
  proof (rule assms(3), rule notI)
    assume r: "in_range (bm_addr e i + of_nat k) p 4096"
    have "unat (bm_addr e i + of_nat k) = unat (bm_addr e i) + k"
      by (rule unat_aligned_add [OF bm_addr_aligned that])
    moreover have "unat (bm_addr e i) + 4 \<le> unat p"
      using layout_bitmap [OF assms(1,4)] layout_page [OF assms(1) j(1)] unfolding j(2) by linarith
    moreover have "unat p + 4096 \<le> 4294967296" using layout_page [OF assms(1) j(1)] j(2) by simp
    ultimately show False using r that by (simp add: in_range_def unat_minus_u32)
  qed
  from this [of 0] this [of 1] this [of 2] this [of 3] have "load32 m' (bm_addr e i) = load32 m (bm_addr e i)"
    by (intro load32_cong) simp_all
  then show ?thesis by (simp add: IS_SET_def)
qed

lemma alloc_page_frame:
  assumes "mem_end_ok e" "alloc_page e m0 p" "\<And>y. \<not> in_range y p 4096 \<Longrightarrow> m' y = m y"
  shows "alloc_page e m' q = alloc_page e m q" "free_pages e m' = free_pages e m"
  using IS_SET_page_frame [OF assms] by (auto simp: alloc_page_def free_pages_def)

lemma load32_SET_BIT:
  assumes "mem_end_ok e" "i < num_pages e" "alloc_page e m0 p" "unat k < 1024"
  shows "load32 (SET_BIT e m i) (p + 4 * k) = load32 m (p + 4 * k)"
proof -
  from assms(3) obtain j where j: "j < num_pages e" "p = page_addr e j" by (auto simp: alloc_page_def)
  have "SET_BIT e m i (p + 4 * k + of_nat l) = m (p + 4 * k + of_nat l)" if "l < 4" for l
    using SET_BIT_page_frame [OF assms(1,2) j(1)] slot_in_page [OF assms(4) that, of p] j(2) by simp
  from this [of 0] this [of 1] this [of 2] this [of 3] show ?thesis by (intro load32_cong) simp_all
qed

lemma PTE2PA_PA2PTE:
  assumes "unat f < 1024"
  shows "PTE2PA (PA2PTE p OR f) = PGROUNDDOWN p"
proof -
  have "take_bit 10 f = f" using assms by (simp add: take_bit_eq_mod word_unat_eq_iff unat_mod)
  then have f: "bit f k \<Longrightarrow> k < 10" for k by (metis bit_take_bit_iff)
  show ?thesis
  proof (rule bit_word_eqI)
    fix n assume n: "n < LENGTH(32)"
    show "bit (PTE2PA (PA2PTE p OR f)) n = bit (PGROUNDDOWN p) n"
    proof (cases "12 \<le> n")
      case True
      then obtain k where k: "n = 12 + k" by (auto simp: le_iff_add)
      then show ?thesis using n f [of "10 + k"] by (auto simp: PTE2PA_def PA2PTE_def PGROUNDDOWN_alt bit_simps)
    next
      case False
      then show ?thesis by (auto simp: PTE2PA_def PGROUNDDOWN_alt bit_simps)
    qed
  qed
qed

lemma PGROUNDDOWN_aligned: "page_aligned p \<Longrightarrow> PGROUNDDOWN p = p"
  by (auto simp: word_unat_eq_iff unat_PGROUNDDOWN page_aligned_def)

lemma page_aligned_PGROUNDDOWN: "page_aligned (PGROUNDDOWN p)"
  by (simp add: page_aligned_def unat_PGROUNDDOWN)

lemma unat_OR_flags: "unat (f OR g) < 1024" if "unat f < 1024" "unat g < 1024" for f g :: u32
proof -
  have "take_bit 10 x = x \<longleftrightarrow> unat x < 1024" for x :: u32
    by (simp add: take_bit_eq_mod word_unat_eq_iff unat_mod) (metis mod_less mod_less_divisor zero_less_numeral)
  with that show ?thesis by (metis take_bit_or)
qed

lemma PTE_V_bits: "x AND PTE_V \<noteq> 0 \<longleftrightarrow> bit x 0"
  by (simp add: and_one_eq bit_0 odd_iff_mod_2_eq_one)

lemma leaf_valid [simp]: "leaf (x OR PTE_V) = Some (x OR PTE_V)" "leaf (x OR y OR PTE_V) = Some (x OR y OR PTE_V)"
  unfolding leaf_def PTE_V_bits by (simp_all add: bit_or_iff bit_1_iff)

lemma leaf_zero [simp]: "leaf 0 = None"
  by (simp add: leaf_def)

lemma pt_okD:
  assumes "pt_ok e m pt"
  shows "mem_end_ok e" "alloc_page e m pt"
    and "unat k < 1024 \<Longrightarrow> table_of m pt k = Some q \<Longrightarrow> alloc_page e m q \<and> q \<noteq> pt"
    and "unat j < 1024 \<Longrightarrow> unat k < 1024 \<Longrightarrow> table_of m pt j = Some q \<Longrightarrow> table_of m pt k = Some q \<Longrightarrow> j = k"
  using assms unfolding pt_ok_def by blast+

text \<open>Storing a leaf entry changes the translation of its own page only.\<close>

lemma store_leaf:
  assumes ok: "pt_ok e m pt" and q: "table_of m pt (vpn va 1) = Some q"
    and m'_def: "m' = store32 m (q + 4 * vpn va 0) v"
  shows "pt_ok e m' pt" "free_pages e m' = free_pages e m"
    "mapping m' pt w = (if PGROUNDDOWN w = PGROUNDDOWN va then leaf v else mapping m pt w)"
proof -
  note D = pt_okD [OF ok]
  have qa: "alloc_page e m q" "q \<noteq> pt" using D(3) [OF vpn_less q] by simp_all
  have al: "page_aligned q" "page_aligned pt" using alloc_page_aligned [OF D(1)] qa D(2) by blast+
  have fr: "\<And>y. \<not> in_range y q 4096 \<Longrightarrow> m' y = m y"
    unfolding m'_def by (rule store32_slot_frame [OF vpn_less])
  have tab: "table_of m' pt k = table_of m pt k" if "unat k < 1024" for k
    using load32_slot_frame [OF fr al(2,1) _ that] qa(2) by (simp add: table_of_def)
  note ap = alloc_page_frame [OF D(1) qa(1) fr]
  show "free_pages e m' = free_pages e m" by (rule ap(2))
  show "pt_ok e m' pt"
    unfolding pt_ok_def using D by (auto simp: ap(1) tab)
  show "mapping m' pt w = (if PGROUNDDOWN w = PGROUNDDOWN va then leaf v else mapping m pt w)"
  proof (cases "table_of m pt (vpn w 1)")
    case None
    then have "vpn w 1 \<noteq> vpn va 1" using q by auto
    then show ?thesis using None tab [OF vpn_less] by (simp add: mapping_alt same_page_iff)
  next
    case (Some p)
    have pa: "page_aligned p" using alloc_page_aligned [OF D(1)] D(3) [OF vpn_less Some] by blast
    have ld: "load32 m' (p + 4 * vpn w 0) = (if p = q \<and> vpn w 0 = vpn va 0 then v else load32 m (p + 4 * vpn w 0))"
      unfolding m'_def m32.ld_st [OF slot_aligned(1) [OF pa vpn_less] slot_aligned(1) [OF al(1) vpn_less]]
        slot_eq_iff [OF pa al(1) vpn_less vpn_less] ..
    have pq: "p = q \<longleftrightarrow> vpn w 1 = vpn va 1"
    proof
      assume "p = q"
      then show "vpn w 1 = vpn va 1" using D(4) [OF vpn_less vpn_less _ q] Some by blast
    next
      assume "vpn w 1 = vpn va 1"
      then show "p = q" using Some q by simp
    qed
    have "mapping m' pt w = leaf (load32 m' (p + 4 * vpn w 0))" "mapping m pt w = leaf (load32 m (p + 4 * vpn w 0))"
      using Some tab [OF vpn_less] by (simp_all add: mapping_alt)
    then show ?thesis unfolding ld pq same_page_iff by simp
  qed
qed

text \<open>\<^verbatim>\<open>walk\<close> with allocation finds or makes the second-level table and translates nothing anew.\<close>

definition walked :: "u32 \<Rightarrow> u32 \<Rightarrow> u32 \<Rightarrow> mem \<Rightarrow> u32 \<Rightarrow> mem \<Rightarrow> bool" where
  "walked e pt va m pte m' \<longleftrightarrow> (\<exists>q. table_of m' pt (vpn va 1) = Some q \<and> pte = q + 4 * vpn va 0 \<and> pte \<noteq> 0)
     \<and> pt_ok e m' pt \<and> mapping m' pt = mapping m pt \<and> leaf (load32 m' pte) = mapping m pt va
     \<and> free_pages e m' \<subseteq> free_pages e m \<and> card (free_pages e m) \<le> Suc (card (free_pages e m'))"

lemma finite_free_pages: "finite (free_pages e m)"
proof -
  have "free_pages e m \<subseteq> page_addr e ` {i. i < num_pages e}" by (auto simp: free_pages_def)
  then show ?thesis using card_words_below(2) finite_surj by blast
qed

lemma slot_nonzero: "mem_end_ok e \<Longrightarrow> alloc_page e m q \<Longrightarrow> unat k < 1024 \<Longrightarrow> q + 4 * k \<noteq> 0"
proof -
  assume a: "mem_end_ok e" "alloc_page e m q" "unat k < 1024"
  then have "page_aligned q" "0 < unat q" using alloc_page_aligned [OF a(1,2)] by (simp_all add: unat_gt_0)
  with slot_aligned(2) [of q k] a(3) show ?thesis by (auto simp: unat_eq_zero [symmetric])
qed

lemma walk_found:
  assumes "pt_ok e m pt" "va \<noteq> MAXVA" "table_of m pt (vpn va 1) = Some q"
  shows "walk e pt va al m = Inr (q + 4 * vpn va 0, m)" "walked e pt va m (q + 4 * vpn va 0) m"
proof -
  have "\<not> MAXVA \<le> va" using assms(2) unat_less_2_32 [of va] by (auto simp: word_le_nat_alt word_unat_eq_iff)
  moreover have "load32 m (pte_slot pt va 1) AND PTE_V \<noteq> 0" "q = PTE2PA (load32 m (pte_slot pt va 1))"
    using assms(3) by (auto simp: table_of_def leaf_def pte_slot_alt split: if_splits)
  ultimately show "walk e pt va al m = Inr (q + 4 * vpn va 0, m)"
    by (simp add: walk_def Let_def pte_slot_alt [of q] pte_slot_alt [of "PTE2PA _"])
  have "q + 4 * vpn va 0 \<noteq> 0"
    using pt_okD(1,3) [OF assms(1)] assms(3) vpn_less slot_nonzero by blast
  then show "walked e pt va m (q + 4 * vpn va 0) m"
    using assms by (simp add: walked_def mapping_alt)
qed

text \<open>A page just handed out and cleared: it was free before, nothing else of the allocated pages has
  changed, and all its words are zero.\<close>

definition zeroed :: "u32 \<Rightarrow> mem \<Rightarrow> u32 \<Rightarrow> mem \<Rightarrow> bool" where
  "zeroed e m q m' \<longleftrightarrow> alloc_page e m' q \<and> \<not> alloc_page e m q \<and> (\<forall>p. alloc_page e m p \<longrightarrow> alloc_page e m' p)
     \<and> free_pages e m' = free_pages e m - {q} \<and> q \<in> free_pages e m
     \<and> (\<forall>k. unat k < 1024 \<longrightarrow> load32 m' (q + 4 * k) = 0)
     \<and> (\<forall>p k. alloc_page e m p \<longrightarrow> unat k < 1024 \<longrightarrow> load32 m' (p + 4 * k) = load32 m (p + 4 * k))"

lemma zeroedD:
  assumes "zeroed e m q m'"
  shows "alloc_page e m' q" "\<not> alloc_page e m q" "alloc_page e m p \<Longrightarrow> alloc_page e m' p"
    "free_pages e m' = free_pages e m - {q}" "q \<in> free_pages e m" "unat k < 1024 \<Longrightarrow> load32 m' (q + 4 * k) = 0"
    "alloc_page e m p \<Longrightarrow> unat k < 1024 \<Longrightarrow> load32 m' (p + 4 * k) = load32 m (p + 4 * k)"
    "card (free_pages e m) = Suc (card (free_pages e m'))"
  using assms finite_free_pages [of e m] card_Suc_Diff1 [of "free_pages e m" q] unfolding zeroed_def by auto

lemma kalloc_zeroed:
  assumes e: "mem_end_ok e" and free: "free_pages e m \<noteq> {}"
  obtains q m1 where "kalloc e m = Inr (q, m1)" "zeroed e m q (memset m1 q 0 PGESIZE)"
proof -
  obtain q m1 where k: "kalloc e m = Inr (q, m1)"
  proof (cases "kalloc e m")
    case (Inl err)
    then have "kalloc_opt e m = None" by (simp add: kalloc_opt_def)
    then have "free_pages e m = {}" using pmm.alloc_None by blast
    with free show thesis by simp
  next
    case (Inr r)
    then show thesis using that by (cases r) simp
  qed
  then obtain i where i: "i < num_pages e" "\<not> IS_SET e m i" "q = page_addr e i" "m1 = SET_BIT e m i"
    by (rule kalloc_Inr)
  define m2 where "m2 = memset m1 q 0 PGESIZE"
  have aq: "alloc_page e m1 q" using i by (auto simp: alloc_page_def IS_SET_SET_BIT)
  have ptm1: "alloc_page e m1 p" if "alloc_page e m p" for p
    using that i by (auto simp: alloc_page_def IS_SET_SET_BIT)
  have fresh: "p \<noteq> q" if "alloc_page e m p" for p
    using that i page_addr_inj [OF _ i(1)] by (auto simp: alloc_page_def)
  have al: "page_aligned q" using alloc_page_aligned [OF e aq] by blast
  have free_q: "free_pages e m1 = free_pages e m - {q}" "q \<in> free_pages e m"
    using i page_addr_inj [OF i(1)] page_addr_inj [OF _ i(1)] by (auto simp: free_pages_def IS_SET_SET_BIT)
  have fr2: "\<And>y. \<not> in_range y q 4096 \<Longrightarrow> m2 y = m1 y" unfolding m2_def by (rule memset_page_frame)
  note ap2 = alloc_page_frame [OF e aq fr2]
  have old: "load32 m2 (p + 4 * k) = load32 m (p + 4 * k)" if "alloc_page e m p" "unat k < 1024" for p k
  proof -
    have "page_aligned p" using alloc_page_aligned [OF e that(1)] by simp
    then show ?thesis
      using load32_slot_frame [OF fr2 _ al fresh [OF that(1)] that(2)] load32_SET_BIT [OF e i(1) that, of m] i(4) by simp
  qed
  have "zeroed e m q m2"
    unfolding zeroed_def using aq ptm1 fresh free_q old by (auto simp: ap2 load32_memset_zero [of _ m1 q, folded m2_def])
  then show thesis using that [OF k] by (simp add: m2_def)
qed

text \<open>A fresh, zeroed second-level table in an empty slot of the first level keeps the page table well formed and
  translates nothing new.\<close>

lemma table_added:
  assumes ok: "pt_ok e m pt" and none: "table_of m pt v = None"
    and tab: "\<And>k. unat k < 1024 \<Longrightarrow> table_of m' pt k = (if k = v then Some q else table_of m pt k)"
    and al: "\<And>p. alloc_page e m p \<Longrightarrow> alloc_page e m' p" "\<And>p. alloc_page e m p \<Longrightarrow> p \<noteq> q" "alloc_page e m' q"
    and old: "\<And>p k. alloc_page e m p \<Longrightarrow> p \<noteq> pt \<Longrightarrow> unat k < 1024 \<Longrightarrow> load32 m' (p + 4 * k) = load32 m (p + 4 * k)"
    and new: "\<And>k. unat k < 1024 \<Longrightarrow> load32 m' (q + 4 * k) = 0"
  shows "pt_ok e m' pt" "mapping m' pt w = mapping m pt w"
proof -
  note D = pt_okD [OF ok]
  show "pt_ok e m' pt"
    unfolding pt_ok_def
  proof (intro conjI allI impI)
    show "mem_end_ok e" "alloc_page e m' pt" using D(1) al(1) [OF D(2)] by simp_all
    show "alloc_page e m' p" "p \<noteq> pt" if "unat k < 1024" "table_of m' pt k = Some p" for k p
      using that tab [OF that(1)] D(3) [OF that(1)] al(1,3) al(2) [OF D(2)] by (auto split: if_splits)
    show "j = k" if "unat j < 1024" "unat k < 1024" "table_of m' pt j = Some p" "table_of m' pt k = Some p" for j k p
    proof -
      have "table_of m pt l \<noteq> Some q" if "unat l < 1024" for l using D(3) [OF that] al(2) by blast
      then show ?thesis using that tab D(4) [OF that(1,2)] by (auto split: if_splits)
    qed
  qed
  show "mapping m' pt w = mapping m pt w"
  proof (cases "table_of m pt (vpn w 1)")
    case (Some p)
    then have "table_of m' pt (vpn w 1) = Some p" using none tab [OF vpn_less] by auto
    moreover have "load32 m' (p + 4 * vpn w 0) = load32 m (p + 4 * vpn w 0)"
      using old [OF _ _ vpn_less] D(3) [OF vpn_less Some] by blast
    ultimately show ?thesis using Some by (simp add: mapping_alt)
  next
    case None
    then show ?thesis using tab [OF vpn_less, of w 1] new [OF vpn_less] by (auto simp: mapping_alt)
  qed
qed

lemma walk_new:
  assumes ok: "pt_ok e m pt" and va: "va \<noteq> MAXVA" and none: "table_of m pt (vpn va 1) = None"
    and free: "free_pages e m \<noteq> {}"
  shows "\<exists>pte m'. walk e pt va True m = Inr (pte, m') \<and> walked e pt va m pte m'"
proof -
  note D = pt_okD [OF ok]
  obtain q m1 where k: "kalloc e m = Inr (q, m1)" and Z: "zeroed e m q (memset m1 q 0 PGESIZE)"
    by (rule kalloc_zeroed [OF D(1) free])
  define m2 where "m2 = memset m1 q 0 PGESIZE"
  note Z = zeroedD [OF Z, folded m2_def]
  have fresh: "p \<noteq> q" if "alloc_page e m p" for p using that Z(2) by auto
  have al: "page_aligned q" "q \<noteq> 0" "page_aligned pt"
    using alloc_page_aligned [OF D(1) Z(1)] alloc_page_aligned [OF D(1,2)] by blast+
  define s where "s = pt + 4 * vpn va 1"
  define pde where "pde = PA2PTE q OR PTE_V"
  define m3 where "m3 = store32 m2 s pde"
  have fr3: "\<And>y. \<not> in_range y pt 4096 \<Longrightarrow> m3 y = m2 y"
    unfolding m3_def s_def by (rule store32_slot_frame [OF vpn_less])
  note ap3 = alloc_page_frame [OF D(1) Z(3) [OF D(2)] fr3]
  have old3: "load32 m3 (p + 4 * k) = load32 m (p + 4 * k)" if "alloc_page e m p" "p \<noteq> pt" "unat k < 1024" for p k
  proof -
    have "page_aligned p" using alloc_page_aligned [OF D(1) that(1)] by simp
    then show ?thesis using load32_slot_frame [OF fr3 _ al(3) that(2,3)] Z(7) [OF that(1,3)] by simp
  qed
  have new3: "load32 m3 (q + 4 * k) = 0" if "unat k < 1024" for k
    using load32_slot_frame [OF fr3 al(1,3) _ that] fresh [OF D(2)] Z(6) [OF that] by simp
  have root: "load32 m3 (pt + 4 * k) = (if k = vpn va 1 then pde else load32 m (pt + 4 * k))" if "unat k < 1024" for k
    unfolding m3_def s_def m32.ld_st [OF slot_aligned(1) [OF al(3) that] slot_aligned(1) [OF al(3) vpn_less]]
      slot_eq_iff [OF al(3,3) that vpn_less] Z(7) [OF D(2) that] by simp
  have pq: "PTE2PA pde = q" unfolding pde_def using PTE2PA_PA2PTE [of PTE_V q] PGROUNDDOWN_aligned [OF al(1)] by simp
  have tab: "table_of m3 pt k = (if k = vpn va 1 then Some q else table_of m pt k)" if "unat k < 1024" for k
  proof (cases "k = vpn va 1")
    case True
    then show ?thesis using root [OF that] pq unfolding table_of_def pde_def by simp
  next
    case False
    then show ?thesis using root [OF that] unfolding table_of_def by simp
  qed
  have alp: "alloc_page e m3 p" if "alloc_page e m p" for p using Z(3) [OF that] by (simp add: ap3(1))
  have alq: "alloc_page e m3 q" using Z(1) by (simp add: ap3(1))
  note A = table_added [OF ok none tab alp fresh alq old3 new3]
  have fp: "free_pages e m3 = free_pages e m - {q}" by (simp add: ap3(2) Z(4))
  have walk: "walk e pt va True m = Inr (q + 4 * vpn va 0, m3)"
  proof -
    have "\<not> MAXVA \<le> va" using va unat_less_2_32 [of va] by (auto simp: word_le_nat_alt word_unat_eq_iff)
    moreover have "load32 m s AND PTE_V = 0"
      using none by (auto simp: table_of_def leaf_def s_def split: if_splits)
    ultimately show ?thesis
      using k al(2) by (simp add: walk_def Let_def pte_slot_alt m3_def m2_def s_def pde_def)
  qed
  have "walked e pt va m (q + 4 * vpn va 0) m3"
    unfolding walked_def
  proof (intro conjI)
    show "\<exists>p. table_of m3 pt (vpn va 1) = Some p \<and> q + 4 * vpn va 0 = p + 4 * vpn va 0 \<and> q + 4 * vpn va 0 \<noteq> 0"
      using tab [OF vpn_less] slot_nonzero [OF D(1) alq vpn_less] by simp
    show "leaf (load32 m3 (q + 4 * vpn va 0)) = mapping m pt va"
      using new3 [OF vpn_less] none by (simp add: mapping_alt)
    show "card (free_pages e m) \<le> Suc (card (free_pages e m3))"
      using Z(8) by (simp add: fp Z(4))
  qed (use A fp in \<open>auto simp: fun_eq_iff\<close>)
  with walk show ?thesis by blast
qed

lemma walk_total:
  assumes "pt_ok e m pt" "va \<noteq> MAXVA" "free_pages e m \<noteq> {}"
  shows "\<exists>pte m'. walk e pt va True m = Inr (pte, m') \<and> walked e pt va m pte m'"
  using assms walk_new walk_found by (cases "table_of m pt (vpn va 1)") blast+

lemma walkedD:
  assumes "walked e pt va m pte m'"
  shows "pte \<noteq> 0" "pt_ok e m' pt" "mapping m' pt = mapping m pt" "leaf (load32 m' pte) = mapping m pt va"
    "card (free_pages e m) \<le> Suc (card (free_pages e m'))"
    "\<exists>q. table_of m' pt (vpn va 1) = Some q \<and> pte = q + 4 * vpn va 0"
  using assms unfolding walked_def by blast+

text \<open>One round of \<^verbatim>\<open>map_pages\<close>: walk, test, store.\<close>

lemma map_round:
  assumes "pt_ok e m pt" "vir \<noteq> MAXVA" "free_pages e m \<noteq> {}" "mapping m pt vir = None"
  obtains m' where "pt_ok e m' pt" "card (free_pages e m) \<le> Suc (card (free_pages e m'))"
    "\<And>w. mapping m' pt w = (if PGROUNDDOWN w = PGROUNDDOWN vir then Some (PA2PTE pa OR perm OR PTE_V) else mapping m pt w)"
    "\<And>lst fuel. map_loop e pt perm lst (Suc fuel) vir pa m
       = (if vir = lst then Inr (0, m') else map_loop e pt perm lst fuel (vir + PGESIZE) (pa + PGESIZE) m')"
proof -
  obtain pte m1 where w: "walk e pt vir True m = Inr (pte, m1)" "walked e pt vir m pte m1"
    using walk_total assms(1-3) by blast
  note D = walkedD [OF w(2)]
  from D(6) obtain q where q: "table_of m1 pt (vpn vir 1) = Some q" "pte = q + 4 * vpn vir 0" by blast
  define m' where "m' = store32 m1 pte (PA2PTE pa OR perm OR PTE_V)"
  note S = store_leaf [OF D(2) q(1) m'_def [unfolded q(2)]]
  have "load32 m1 pte AND PTE_V = 0" using D(4) assms(4) by (simp add: leaf_def split: if_splits)
  then have "map_loop e pt perm lst (Suc fuel) vir pa m
     = (if vir = lst then Inr (0, m') else map_loop e pt perm lst fuel (vir + PGESIZE) (pa + PGESIZE) m')" for lst fuel
    using w(1) D(1) by (simp add: m'_def Let_def)
  moreover have "mapping m' pt w = (if PGROUNDDOWN w = PGROUNDDOWN vir then Some (PA2PTE pa OR perm OR PTE_V) else mapping m pt w)" for w
    using S(3) [of w] D(3) by simp
  ultimately show thesis using that S(1,2) D(5) by auto
qed

lemma page_arith:
  assumes "page_aligned v" "page_aligned w"
  shows "page_aligned (v + PGESIZE)" "PGROUNDDOWN v = v" "page_aligned (w - v)" "v \<noteq> MAXVA"
    "w \<noteq> v \<Longrightarrow> unat (w - (v + PGESIZE)) + 4096 = unat (w - v)"
proof -
  from assms obtain a b where ab: "unat v = 4096 * a" "unat w = 4096 * b" by (auto simp: page_aligned_def elim!: dvdE)
  show "page_aligned (v + PGESIZE)" using assms(1) page_aligned_plus [of v PGESIZE] by (simp add: page_aligned_def)
  show "PGROUNDDOWN v = v" by (simp add: word_unat_eq_iff unat_PGROUNDDOWN ab)
  show "page_aligned (w - v)"
    using ab by (simp add: page_aligned_def unat_minus_u32 mod_diff_eq)
  show "v \<noteq> MAXVA"
  proof
    assume "v = MAXVA"
    with assms(1) have "unat MAXVA mod 4096 = 0" by (simp only: page_aligned_def)
    then show False by simp
  qed
  show "unat (w - (v + PGESIZE)) + 4096 = unat (w - v)" if "w \<noteq> v"
  proof -
    have "PGESIZE \<le> w - v" using page_diff(1) [OF assms(2,1) that] by (simp add: word_le_nat_alt)
    then show ?thesis by (simp add: diff_diff_eq [symmetric] unat_sub_le word_le_nat_alt)
  qed
qed

lemma page_window:
  assumes "page_aligned x" "page_aligned l" "l \<noteq> 0"
  shows "x - PGESIZE \<le> l - PGESIZE \<longleftrightarrow> x \<noteq> 0 \<and> x \<le> l"
proof -
  have z: "page_aligned 0" by (simp add: page_aligned_def)
  have P: "PGESIZE \<le> y \<and> unat (y - PGESIZE) = unat y - 4096" if "page_aligned y" "y \<noteq> 0" for y
    using page_diff(1) [OF that(1) z that(2)] by (simp add: word_le_nat_alt unat_sub_le)
  show ?thesis
  proof (cases "x = 0")
    case True
    have "unat (l - PGESIZE) < unat (0 - PGESIZE)"
      using P [OF assms(2,3)] unat_less_2_32 [of l] by (simp add: unat_minus_u32 word_le_nat_alt)
    with True show ?thesis by (simp add: word_le_nat_alt)
  next
    case False
    with P [OF assms(1)] P [OF assms(2,3)] show ?thesis by (auto simp: word_le_nat_alt)
  qed
qed

lemma map_loop_spec:
  assumes "pt_ok e m pt" "page_aligned vir" "page_aligned lst" "unat (lst - vir) = 4096 * n"
    and "n < card (free_pages e m)" "\<And>w. PGROUNDDOWN w - vir \<le> lst - vir \<Longrightarrow> mapping m pt w = None"
  shows "\<exists>m'. map_loop e pt perm lst (Suc n) vir pa m = Inr (0, m') \<and> pt_ok e m' pt
    \<and> (\<forall>w. mapping m' pt w = (if PGROUNDDOWN w - vir \<le> lst - vir
          then Some (PA2PTE (pa + (PGROUNDDOWN w - vir)) OR perm OR PTE_V) else mapping m pt w))"
  using assms
proof (induction n arbitrary: m vir pa)
  case 0
  then have eq: "lst = vir" by (simp add: word_unat_eq_iff [symmetric] unat_eq_zero)
  have own: "PGROUNDDOWN vir = vir" "vir \<noteq> MAXVA" using page_arith [OF 0(2,2)] by simp_all
  have "free_pages e m \<noteq> {}" using 0(5) by auto
  moreover have "mapping m pt vir = None" using 0(6) [of vir] own by simp
  ultimately obtain m' where m': "pt_ok e m' pt"
    "\<And>w. mapping m' pt w = (if PGROUNDDOWN w = PGROUNDDOWN vir then Some (PA2PTE pa OR perm OR PTE_V) else mapping m pt w)"
    "\<And>lst fuel. map_loop e pt perm lst (Suc fuel) vir pa m
       = (if vir = lst then Inr (0, m') else map_loop e pt perm lst fuel (vir + PGESIZE) (pa + PGESIZE) m')"
    by (rule map_round [OF 0(1) own(2)]) blast
  show ?case
    by (intro exI [of _ m']) (auto simp: m'(1,2) m'(3) eq own(1) simp del: map_loop.simps)
next
  case (Suc n)
  have ne: "lst \<noteq> vir" using Suc.prems(4) by auto
  have own: "PGROUNDDOWN vir = vir" "vir \<noteq> MAXVA" using page_arith [OF Suc.prems(2,3)] by simp_all
  have next_al: "page_aligned (vir + PGESIZE)" using page_arith(1) [OF Suc.prems(2,3)] .
  have al: "page_aligned (lst - vir)" "lst - vir \<noteq> 0" using page_arith(3) [OF Suc.prems(2,3)] ne by simp_all
  have win: "PGROUNDDOWN w - (vir + PGESIZE) \<le> lst - (vir + PGESIZE)
      \<longleftrightarrow> PGROUNDDOWN w \<noteq> vir \<and> PGROUNDDOWN w - vir \<le> lst - vir" for w
  proof -
    have "page_aligned (PGROUNDDOWN w)" by (simp add: page_aligned_def unat_PGROUNDDOWN)
    then have "page_aligned (PGROUNDDOWN w - vir)" using page_arith(3) [OF Suc.prems(2)] by blast
    from page_window [OF this al] show ?thesis by (simp add: diff_diff_eq)
  qed
  have "free_pages e m \<noteq> {}" using Suc.prems(5) by auto
  moreover have "mapping m pt vir = None" using Suc.prems(6) [of vir] own by simp
  ultimately obtain m1 where m1: "pt_ok e m1 pt" "card (free_pages e m) \<le> Suc (card (free_pages e m1))"
    "\<And>w. mapping m1 pt w = (if PGROUNDDOWN w = PGROUNDDOWN vir then Some (PA2PTE pa OR perm OR PTE_V) else mapping m pt w)"
    "\<And>lst fuel. map_loop e pt perm lst (Suc fuel) vir pa m
       = (if vir = lst then Inr (0, m1) else map_loop e pt perm lst fuel (vir + PGESIZE) (pa + PGESIZE) m1)"
    by (rule map_round [OF Suc.prems(1) own(2)]) blast
  have left: "unat (lst - (vir + PGESIZE)) = 4096 * n"
    using page_arith(5) [OF Suc.prems(2,3) ne] Suc.prems(4) by simp
  have room: "n < card (free_pages e m1)" using m1(2) Suc.prems(5) by simp
  have unm: "mapping m1 pt w = None" if "PGROUNDDOWN w - (vir + PGESIZE) \<le> lst - (vir + PGESIZE)" for w
    using that Suc.prems(6) [of w] m1(3) [of w] by (simp add: win own(1))
  from Suc.IH [OF m1(1) next_al Suc.prems(3) left room unm, of "pa + PGESIZE"] obtain m' where
    m': "map_loop e pt perm lst (Suc n) (vir + PGESIZE) (pa + PGESIZE) m1 = Inr (0, m')" "pt_ok e m' pt"
    "\<And>w. mapping m' pt w = (if PGROUNDDOWN w - (vir + PGESIZE) \<le> lst - (vir + PGESIZE)
       then Some (PA2PTE (pa + PGESIZE + (PGROUNDDOWN w - (vir + PGESIZE))) OR perm OR PTE_V) else mapping m1 pt w)"
    by blast
  have "map_loop e pt perm lst (Suc (Suc n)) vir pa m = Inr (0, m')"
    using m1(4) [of lst "Suc n"] m'(1) ne by (simp del: map_loop.simps)
  moreover have "mapping m' pt w = (if PGROUNDDOWN w - vir \<le> lst - vir
      then Some (PA2PTE (pa + (PGROUNDDOWN w - vir)) OR perm OR PTE_V) else mapping m pt w)" for w
    unfolding m'(3) win m1(3) own(1) by (simp add: algebra_simps)
  ultimately show ?case using m'(2) by blast
qed

section \<open>Reading through a page table\<close>

lemma vpn_PGROUNDDOWN [simp]: "vpn (PGROUNDDOWN v) 1 = vpn v 1" "vpn (PGROUNDDOWN v) 0 = vpn v 0"
  using same_page_iff [of "PGROUNDDOWN v" v] PGROUNDDOWN_aligned [OF page_aligned_PGROUNDDOWN, of v] by auto

lemma mapping_PGROUNDDOWN [simp]: "mapping m pt (PGROUNDDOWN v) = mapping m pt v"
  by (simp only: mapping_alt vpn_PGROUNDDOWN)

text \<open>The physical address behind a user address.\<close>

definition user_frame :: "mem \<Rightarrow> u32 \<Rightarrow> u32 \<Rightarrow> u32 option" where
  "user_frame m pt va =
     (case mapping m pt va of
        Some pte \<Rightarrow> if pte AND PTE_U \<noteq> 0 then Some (PTE2PA pte) else None
      | None \<Rightarrow> None)"

definition uphys :: "mem \<Rightarrow> u32 \<Rightarrow> u32 \<Rightarrow> u32 option" where
  "uphys m pt va = map_option (\<lambda>p. p + (va - PGROUNDDOWN va)) (user_frame m pt va)"

lemma not_MAXVA_le: "v \<noteq> MAXVA \<longleftrightarrow> \<not> MAXVA \<le> v"
  using unat_less_2_32 [of v] by (auto simp: word_le_nat_alt word_unat_eq_iff)

lemma fetch_pa_addr_spec:
  assumes "pt_ok e m pt" "v \<noteq> MAXVA"
  shows "fetch_pa_addr e pt v m = Inr (case user_frame m pt v of Some p \<Rightarrow> p | None \<Rightarrow> 0)"
proof (cases "table_of m pt (vpn v 1)")
  case None
  then have "walk e pt v False m = Inr (0, m)"
    using assms(2) not_MAXVA_le [of v]
    by (auto simp: walk_def Let_def table_of_def leaf_def pte_slot_alt split: if_splits)
  then show ?thesis
    using None assms(2) not_MAXVA_le [of v] by (simp add: fetch_pa_addr_def user_frame_def mapping_alt)
next
  case (Some q)
  have "q + 4 * vpn v 0 \<noteq> 0" using walk_found(2) [OF assms Some] walkedD(1) by blast
  moreover have "mapping m pt v = leaf (load32 m (q + 4 * vpn v 0))" using Some by (simp add: mapping_alt)
  ultimately show ?thesis
    using walk_found(1) [OF assms Some, of False] assms(2) not_MAXVA_le [of v]
    by (simp add: fetch_pa_addr_def user_frame_def leaf_def)
qed

lemma same_page_offset:
  assumes "unat v mod 4096 + i < 4096"
  shows "PGROUNDDOWN (v + of_nat i) = PGROUNDDOWN v" "unat (v + of_nat i) = unat v + i"
proof -
  define q r where "q = unat v div 4096" and "r = unat v mod 4096"
  have qr: "unat v = 4096 * q + r" by (simp add: q_def r_def)
  have "q < 1048576" using unat_less_2_32 [of v] by (simp add: q_def)
  then have "unat v + i < 4294967296" using assms [folded r_def] qr by linarith
  then show s: "unat (v + of_nat i) = unat v + i" by (rule unat_add_of_nat)
  have "(4096 * q + (r + i)) div 4096 = q" using assms [folded r_def] by simp
  then have "(unat v + i) div 4096 = q" by (simp add: qr add.assoc)
  then show "PGROUNDDOWN (v + of_nat i) = PGROUNDDOWN v"
    by (simp add: word_unat_eq_iff unat_PGROUNDDOWN s q_def)
qed

lemma map_pages_spec:
  assumes "pt_ok e m pt" "sz \<noteq> 0" "unat perm < 1024"
    and "first = PGROUNDDOWN va" "lst = PGROUNDDOWN (va + sz - 1)"
    and "unat (lst - first) div 4096 < card (free_pages e m)"
    and "\<forall>w. PGROUNDDOWN w - first \<le> lst - first \<longrightarrow> mapping m pt w = None"
  shows "\<exists>m'. map_pages e pt va pa sz perm m = Inr (0, m') \<and> pt_ok e m' pt
    \<and> (\<forall>w. mapping m' pt w = (if PGROUNDDOWN w - first \<le> lst - first
          then Some (PA2PTE (pa + (PGROUNDDOWN w - first)) OR perm OR PTE_V) else mapping m pt w))
    \<and> (\<forall>w. PGROUNDDOWN w - first \<le> lst - first \<longrightarrow> w \<noteq> MAXVA \<longrightarrow> perm AND PTE_U \<noteq> 0 \<longrightarrow>
          fetch_pa_addr e pt w m' = Inr (PGROUNDDOWN (pa + (PGROUNDDOWN w - first))))"
proof -
  have al: "page_aligned first" "page_aligned lst" by (simp_all add: assms(4,5) page_aligned_PGROUNDDOWN)
  define n where "n = unat (lst - first) div 4096"
  have n: "unat (lst - first) = 4096 * n"
    using page_arith(3) [OF al] by (auto simp: n_def page_aligned_def)
  have un: "unat ((lst - first) div PGESIZE) = n" by (simp add: unat_div n)
  have "\<exists>m'. map_loop e pt perm lst (Suc n) first pa m = Inr (0, m') \<and> pt_ok e m' pt
    \<and> (\<forall>w. mapping m' pt w = (if PGROUNDDOWN w - first \<le> lst - first
          then Some (PA2PTE (pa + (PGROUNDDOWN w - first)) OR perm OR PTE_V) else mapping m pt w))"
    using assms(6,7) n_def by (intro map_loop_spec [OF assms(1) al n]) blast+
  then obtain m' where m': "map_loop e pt perm lst (Suc n) first pa m = Inr (0, m')" "pt_ok e m' pt"
    "\<And>w. mapping m' pt w = (if PGROUNDDOWN w - first \<le> lst - first
          then Some (PA2PTE (pa + (PGROUNDDOWN w - first)) OR perm OR PTE_V) else mapping m pt w)" by blast
  have f1: "unat (perm OR PTE_V) < 1024" using assms(3) by (intro unat_OR_flags) simp_all
  have "fetch_pa_addr e pt w m' = Inr (PGROUNDDOWN (pa + (PGROUNDDOWN w - first)))"
    if "PGROUNDDOWN w - first \<le> lst - first" "w \<noteq> MAXVA" "perm AND PTE_U \<noteq> 0" for w
  proof -
    define x where "x = pa + (PGROUNDDOWN w - first)"
    have "(PA2PTE x OR perm OR PTE_V) AND PTE_U \<noteq> 0"
      using that(3) by (simp add: bit_eq_iff bit_simps) blast
    then have "user_frame m' pt w = Some (PGROUNDDOWN x)"
      using m'(3) [of w] that(1) PTE2PA_PA2PTE [OF f1, of x] by (simp add: user_frame_def x_def or.assoc)
    then show ?thesis using fetch_pa_addr_spec [OF m'(2) that(2)] by (simp add: x_def)
  qed
  moreover have "map_pages e pt va pa sz perm m = Inr (0, m')"
    using m'(1) assms(2) by (simp add: map_pages_def Let_def assms(4,5) [symmetric] un del: map_loop.simps)
  ultimately show ?thesis using m'(2,3) by blast
qed

text \<open>One page at an aligned address, with what it costs.\<close>

lemma map_pages_one:
  assumes "pt_ok e m pt" "page_aligned va" "free_pages e m \<noteq> {}" "mapping m pt va = None"
  obtains m' where "map_pages e pt va pa PGESIZE perm m = Inr (0, m')" "pt_ok e m' pt"
    "card (free_pages e m) \<le> Suc (card (free_pages e m'))"
    "\<And>w. mapping m' pt w = (if PGROUNDDOWN w = va then Some (PA2PTE pa OR perm OR PTE_V) else mapping m pt w)"
proof -
  have own: "PGROUNDDOWN va = va" "va \<noteq> MAXVA" using page_arith [OF assms(2,2)] by simp_all
  have "unat (va + PGESIZE - 1) div 4096 = unat va div 4096"
  proof -
    obtain a where a: "unat va = 4096 * a" using assms(2) by (auto simp: page_aligned_def elim!: dvdE)
    then have "a < 1048576" using unat_less_2_32 [of va] by simp
    have "va + PGESIZE - 1 = va + of_nat 4095" by simp
    then have "unat (va + PGESIZE - 1) = unat va + 4095" using a \<open>a < 1048576\<close> by (simp only: unat_add_of_nat)
    then show ?thesis using a by simp
  qed
  then have "PGROUNDDOWN (va + PGESIZE - 1) = va" using own(1) by (simp only: word_unat_eq_iff unat_PGROUNDDOWN)
  moreover have "va + PGESIZE - 1 = 4095 + va" by simp
  ultimately have lst: "PGROUNDDOWN (4095 + va) = va" by simp
  obtain m' where m': "pt_ok e m' pt" "card (free_pages e m) \<le> Suc (card (free_pages e m'))"
    "\<And>w. mapping m' pt w = (if PGROUNDDOWN w = PGROUNDDOWN va then Some (PA2PTE pa OR perm OR PTE_V) else mapping m pt w)"
    "\<And>lst fuel. map_loop e pt perm lst (Suc fuel) va pa m
       = (if va = lst then Inr (0, m') else map_loop e pt perm lst fuel (va + PGESIZE) (pa + PGESIZE) m')"
    by (rule map_round [OF assms(1) own(2) assms(3,4)]) (rule that)
  show thesis
    by (rule that [OF _ m'(1,2)]) (simp_all add: map_pages_def Let_def lst own(1) m'(3,4) del: map_loop.simps)
qed

text \<open>A new page table is empty.\<close>

lemma upaging_create_spec:
  assumes "mem_end_ok e" "free_pages e m \<noteq> {}"
  obtains pt m' where "upaging_create e m = Inr (pt, m')" "pt \<noteq> 0" "pt_ok e m' pt" "\<And>w. mapping m' pt w = None"
    "card (free_pages e m) = Suc (card (free_pages e m'))"
proof -
  obtain q m1 where k: "kalloc e m = Inr (q, m1)" and z: "zeroed e m q (memset m1 q 0 PGESIZE)"
    by (rule kalloc_zeroed [OF assms])
  note Z = zeroedD [OF z]
  have q: "q \<noteq> 0" using alloc_page_aligned [OF assms(1) Z(1)] by simp
  have t: "table_of (memset m1 q 0 PGESIZE) q k = None" if "unat k < 1024" for k
    using Z(6) [OF that] by (simp add: table_of_def)
  show thesis
  proof (rule that)
    show "upaging_create e m = Inr (q, memset m1 q 0 PGESIZE)" using k q by (simp add: upaging_create_def)
    show "pt_ok e (memset m1 q 0 PGESIZE) q" using assms(1) Z(1) t by (auto simp: pt_ok_def)
    show "mapping (memset m1 q 0 PGESIZE) q w = None" for w using t [OF vpn_less] by (simp add: mapping_alt)
  qed (use q Z(8) in simp_all)
qed

section \<open>Properties\<close>

text \<open>(C8) \<^verbatim>\<open>map_pages\<close> installs exactly the mapping asked for. When the pages of the range are not mapped
  yet and the allocator has a free page for each of them, it returns 0, keeps the page table well
  formed, translates every page of the range to the corresponding physical page with the given
  permissions, and leaves the translation of every other address as it was. Afterwards
  \<^verbatim>\<open>fetch_pa_addr\<close> finds the physical page of a user mapping.\<close>

theorem map_pages_translates:
  assumes "pt_ok e m pt" "sz \<noteq> 0" "unat perm < 1024"
    and "first = PGROUNDDOWN va" "lst = PGROUNDDOWN (va + sz - 1)"
    and "unat (lst - first) div 4096 < card (free_pages e m)"
    and "\<forall>w. PGROUNDDOWN w - first \<le> lst - first \<longrightarrow> mapping m pt w = None"
  shows "\<exists>m'. map_pages e pt va pa sz perm m = Inr (0, m') \<and> pt_ok e m' pt
    \<and> (\<forall>w. mapping m' pt w = (if PGROUNDDOWN w - first \<le> lst - first
          then Some (PA2PTE (pa + (PGROUNDDOWN w - first)) OR perm OR PTE_V) else mapping m pt w))
    \<and> (\<forall>w. PGROUNDDOWN w - first \<le> lst - first \<longrightarrow> w \<noteq> MAXVA \<longrightarrow> perm AND PTE_U \<noteq> 0 \<longrightarrow>
          fetch_pa_addr e pt w m' = Inr (PGROUNDDOWN (pa + (PGROUNDDOWN w - first))))"
  using map_pages_spec [OF assms] .

text \<open>\<^verbatim>\<open>uvmunmap\<close> takes its page count for a number of bytes: asked to remove up to 4096 pages from a
  mapped page on, it removes the translation of the first page only and leaves all others, the
  rest of the pages asked for among them.\<close>

theorem uvmunmap_counts_bytes:
  assumes "pt_ok e m pt" "page_aligned va" "mapping m pt va = Some pte" "pte AND 0x3ff \<noteq> PTE_V"
    and "0 < unat n" "unat n \<le> 4096"
  shows "\<exists>m'. uvmunmap e pt va n False m = Inr m' \<and> pt_ok e m' pt
    \<and> (\<forall>w. mapping m' pt w = (if PGROUNDDOWN w = va then None else mapping m pt w))"
proof -
  have al: "PGROUNDDOWN va = va" "va \<noteq> MAXVA" using page_arith [OF assms(2,2)] by simp_all
  have md: "unat va mod 4096 = 0" using assms(2) by (simp add: page_aligned_def)
  have "va + n - 1 = va + of_nat (unat n - 1)" using assms(5) by (simp add: of_nat_diff)
  moreover have "PGROUNDDOWN (va + of_nat (unat n - 1)) = PGROUNDDOWN va"
    using md assms(5,6) by (intro same_page_offset) linarith
  ultimately have lst: "PGROUNDDOWN (va + n - 1) = va" by (simp only: al(1))
  from assms(3) obtain q where q: "table_of m pt (vpn va 1) = Some q" "leaf (load32 m (q + 4 * vpn va 0)) = Some pte"
    by (auto simp: mapping_alt split: option.splits)
  then have pte: "load32 m (q + 4 * vpn va 0) = pte" "pte AND PTE_V \<noteq> 0" by (auto simp: leaf_def split: if_splits)
  define m' where "m' = store32 m (q + 4 * vpn va 0) 0"
  note S = store_leaf [OF assms(1) q(1) m'_def]
  have nz: "q + 4 * vpn va 0 \<noteq> 0" using walk_found(2) [OF assms(1) al(2) q(1)] walkedD(1) by blast
  have "va mod PGESIZE = 0" using md by (simp add: word_unat_eq_iff unat_mod)
  then have "uvmunmap e pt va n False m = Inr m'"
    using walk_found(1) [OF assms(1) al(2) q(1), of False] nz pte assms(4)
    by (simp add: uvmunmap_def Let_def al(1) lst m'_def)
  then show ?thesis using S(1,3) al(1) by auto
qed

section \<open>Copying out\<close>

text \<open>What \<^verbatim>\<open>copyout\<close> and \<^verbatim>\<open>copyto\<close> rely on for a user range: every byte of it is mapped for the user at
  in an allocated page that is not a page of the page table, and different pages are in different
  places.\<close>

definition table_pages :: "mem \<Rightarrow> u32 \<Rightarrow> u32 set" where
  "table_pages m pt = insert pt {q. \<exists>k. unat k < 1024 \<and> table_of m pt k = Some q}"

definition user_range :: "u32 \<Rightarrow> mem \<Rightarrow> u32 \<Rightarrow> u32 \<Rightarrow> nat \<Rightarrow> bool" where
  "user_range e m pt va n \<longleftrightarrow> unat va + n < 4294967295
     \<and> (\<forall>i<n. \<exists>p. user_frame m pt (va + of_nat i) = Some p \<and> alloc_page e m p \<and> p \<notin> table_pages m pt)
     \<and> (\<forall>i<n. \<forall>j<n. user_frame m pt (va + of_nat i) = user_frame m pt (va + of_nat j)
          \<longrightarrow> PGROUNDDOWN (va + of_nat i) = PGROUNDDOWN (va + of_nat j))"

text \<open>Memory outside the pages of the page table does not matter to the translation.\<close>

lemma mapping_frame:
  assumes "pt_ok e m pt" "page_aligned p" "p \<notin> table_pages m pt" "\<And>y. \<not> in_range y p 4096 \<Longrightarrow> m' y = m y"
  shows "mapping m' pt = mapping m pt" "table_pages m' pt = table_pages m pt" "user_frame m' pt = user_frame m pt"
    "table_of m' pt k = table_of m pt k \<or> \<not> unat k < 1024"
proof -
  note D = pt_okD [OF assms(1)]
  have ld: "load32 m' (q + 4 * k) = load32 m (q + 4 * k)" if "q \<in> table_pages m pt" "unat k < 1024" for q k
  proof -
    have "alloc_page e m q" using that(1) D(2,3) by (auto simp: table_pages_def)
    then have "page_aligned q" using alloc_page_aligned D(1) by blast
    moreover have "q \<noteq> p" using that(1) assms(3) by blast
    ultimately show ?thesis by (intro load32_slot_frame [where q = p and m = m and m' = m'] assms(2,4) that(2))
  qed
  have tab: "table_of m' pt k = table_of m pt k" if "unat k < 1024" for k
    using ld [OF _ that, of pt] by (simp add: table_of_def table_pages_def)
  then show "table_of m' pt k = table_of m pt k \<or> \<not> unat k < 1024" by blast
  show tp: "table_pages m' pt = table_pages m pt" using tab by (auto simp: table_pages_def)
  show mp: "mapping m' pt = mapping m pt"
  proof
    fix w
    show "mapping m' pt w = mapping m pt w"
    proof (cases "table_of m pt (vpn w 1)")
      case (Some q)
      then have "q \<in> table_pages m pt" using vpn_less by (auto simp: table_pages_def)
      then show ?thesis using Some tab [OF vpn_less, of w 1] ld [OF _ vpn_less] by (simp add: mapping_alt)
    qed (use tab [OF vpn_less, of w 1] in \<open>simp add: mapping_alt\<close>)
  qed
  show "user_frame m' pt = user_frame m pt" using mp by (simp add: user_frame_def fun_eq_iff)
qed

lemma user_write:
  assumes "pt_ok e m pt" "alloc_page e m p" "p \<notin> table_pages m pt" "\<And>y. \<not> in_range y p 4096 \<Longrightarrow> m' y = m y"
  shows "pt_ok e m' pt" "mapping m' pt = mapping m pt" "user_frame m' pt = user_frame m pt"
    "user_range e m' pt va n = user_range e m pt va n"
proof -
  note D = pt_okD [OF assms(1)]
  have al: "page_aligned p" using alloc_page_aligned [OF D(1) assms(2)] by simp
  note fr = mapping_frame [where m' = m' and m = m, OF assms(1) al assms(3,4), simplified]
  note ap = alloc_page_frame(1) [OF D(1) assms(2,4)]
  have tab: "table_of m' pt k = table_of m pt k" if "unat k < 1024" for k using fr(4) that by blast
  show "pt_ok e m' pt" unfolding pt_ok_def using D by (auto simp: ap tab)
  show "mapping m' pt = mapping m pt" "user_frame m' pt = user_frame m pt" by (simp_all only: fr(1,3))
  show "user_range e m' pt va n = user_range e m pt va n"
    by (simp add: user_range_def fr(2,3) ap)
qed

lemma page_offset_inj:
  assumes "page_aligned p" "page_aligned q" "unat a < 4096" "unat b < 4096" "p + a = q + b"
  shows "p = q"
proof (rule ccontr)
  assume "p \<noteq> q"
  have "\<not> in_range (p + of_nat (unat a)) q 4096" by (rule page_offset_out [OF assms(1,2) \<open>p \<noteq> q\<close> assms(3)])
  moreover have "p + of_nat (unat a) = q + b" using assms(5) by simp
  ultimately show False using assms(4) by (simp add: in_range_def)
qed

lemma user_rangeD:
  assumes "user_range e m pt va n" "i < n"
  obtains p where "user_frame m pt (va + of_nat i) = Some p" "alloc_page e m p" "p \<notin> table_pages m pt"
  using assms unfolding user_range_def by blast

lemma user_range_drop:
  assumes "user_range e m pt va n" "k \<le> n"
  shows "user_range e m pt (va + of_nat k) (n - k)"
proof -
  have u: "unat (va + of_nat k) = unat va + k" using assms by (intro unat_add_of_nat) (simp add: user_range_def)
  have sh: "va + of_nat k + of_nat i = va + of_nat (k + i)" for i by simp
  have lt: "k + i < n" if "i < n - k" for i using that by simp
  show ?thesis
    unfolding user_range_def u sh
  proof (intro conjI allI impI)
    show "unat va + k + (n - k) < 4294967295" using assms by (simp add: user_range_def)
    show "\<exists>p. user_frame m pt (va + of_nat (k + i)) = Some p \<and> alloc_page e m p \<and> p \<notin> table_pages m pt"
      if "i < n - k" for i using assms(1) lt [OF that] unfolding user_range_def by blast
    show "PGROUNDDOWN (va + of_nat (k + i)) = PGROUNDDOWN (va + of_nat (k + j))"
      if "i < n - k" "j < n - k" "user_frame m pt (va + of_nat (k + i)) = user_frame m pt (va + of_nat (k + j))" for i j
      using assms(1) lt [OF that(1)] lt [OF that(2)] that(3) unfolding user_range_def by blast
  qed
qed

text \<open>One round of the copy loops works on the bytes up to the end of the page; the range that is left
  starts on the next page, when there is one.\<close>

lemma page_round:
  assumes "user_range e m pt va (unat len)" "0 < len"
  obtains p N where "N = unat (page_rest va len)" "0 < N" "N \<le> unat len" "N + unat va mod 4096 \<le> 4096"
    "user_frame m pt va = Some p" "alloc_page e m p" "p \<notin> table_pages m pt"
    "unat (len - page_rest va len) = unat len - N"
    "N < unat len \<Longrightarrow> PGROUNDDOWN va + PGESIZE = va + of_nat N"
    "\<And>i. i < N \<Longrightarrow> user_frame m pt (va + of_nat i) = Some p"
    "\<And>i. i < N \<Longrightarrow> PGROUNDDOWN (va + of_nat i) = PGROUNDDOWN va"
    "\<And>j. N \<le> j \<Longrightarrow> j < unat len \<Longrightarrow> user_frame m pt (va + of_nat j) \<noteq> Some p"
proof -
  define N where "N = unat (page_rest va len)"
  have pos: "0 < unat len" using assms(2) by (simp add: word_less_nat_alt)
  have N: "N = min (unat len) (4096 - unat va mod 4096)" by (simp add: N_def unat_page_rest)
  have N1: "0 < N" "N \<le> unat len" "N + unat va mod 4096 \<le> 4096"
    using pos unat_less_2_32 [of va] by (auto simp: N min_def)
  obtain p where p: "user_frame m pt va = Some p" "alloc_page e m p" "p \<notin> table_pages m pt"
    using user_rangeD [OF assms(1), of 0] pos by auto
  have sub: "unat (len - page_rest va len) = unat len - N"
    using N1(2) by (simp add: unat_sub_le word_le_nat_alt N_def)
  have pg: "PGROUNDDOWN (va + of_nat i) = PGROUNDDOWN va" if "i < N" for i
    using that N1(3) by (intro same_page_offset) linarith
  have fr: "user_frame m pt v = user_frame m pt w" if "PGROUNDDOWN v = PGROUNDDOWN w" for v w
    unfolding user_frame_def using mapping_PGROUNDDOWN [of m pt v] mapping_PGROUNDDOWN [of m pt w] that by simp
  have unx: "unat (va + of_nat j) = unat va + j" if "j < unat len" for j
    using that assms(1) by (intro unat_add_of_nat) (simp add: user_range_def)
  have nxt: "PGROUNDDOWN va + PGESIZE = va + of_nat N" if "N < unat len"
  proof -
    have "N = 4096 - unat va mod 4096" using that by (simp add: N min_def split: if_splits)
    moreover have "unat va = unat (PGROUNDDOWN va) + unat va mod 4096" by (simp add: unat_PGROUNDDOWN)
    ultimately have "unat (va + of_nat N) = unat (PGROUNDDOWN va) + 4096"
      using unx [OF that] N1(3) by linarith
    moreover have "unat (PGROUNDDOWN va + PGESIZE) = unat (PGROUNDDOWN va) + 4096"
      using unat_plus_u32 [of "PGROUNDDOWN va" PGESIZE] calculation unat_less_2_32 [of "va + of_nat N"] by simp
    ultimately show ?thesis by (simp add: word_unat_eq_iff)
  qed
  have other: "user_frame m pt (va + of_nat j) \<noteq> Some p" if "N \<le> j" "j < unat len" for j
  proof
    assume "user_frame m pt (va + of_nat j) = Some p"
    then have "user_frame m pt (va + of_nat j) = user_frame m pt (va + of_nat 0)" using p(1) by simp
    then have "PGROUNDDOWN (va + of_nat j) = PGROUNDDOWN (va + of_nat 0)"
      using assms(1) that pos unfolding user_range_def by blast
    then have "unat (va + of_nat j) div 4096 = unat va div 4096"
      by (simp add: word_unat_eq_iff unat_PGROUNDDOWN)
    then have same: "(unat va + j) div 4096 = unat va div 4096" using unx [OF that(2)] by simp
    have "N = 4096 - unat va mod 4096" using that by (simp add: N min_def split: if_splits)
    then have "4096 * (unat va div 4096) + 4096 \<le> unat va + j"
      using that(1) N1(3) mult_div_mod_eq [of 4096 "unat va"] by linarith
    then have "unat va div 4096 + 1 \<le> (unat va + j) div 4096"
      by (subst less_eq_div_iff_mult_less_eq) simp_all
    with same show False by simp
  qed
  show thesis
    by (rule that [OF N_def N1 p sub nxt _ pg other]) (use fr [OF pg] p(1) in simp_all)
qed

definition copy_below :: "mem \<Rightarrow> u32 \<Rightarrow> u32 \<Rightarrow> nat \<Rightarrow> u32 \<Rightarrow> bool" where
  "copy_below m pt va n buf \<longleftrightarrow> (\<forall>i<n. \<forall>p. user_frame m pt (va + of_nat i) = Some p \<longrightarrow>
     unat buf + n < unat p \<and> unat p + 4096 \<le> unat buf + 2147483648)"

lemma copy_below_drop:
  assumes "copy_below m pt va n buf" "k \<le> n" "unat (buf + of_nat k) = unat buf + k"
  shows "copy_below m pt (va + of_nat k) (n - k) (buf + of_nat k)"
  unfolding copy_below_def
proof (intro allI impI)
  fix i p assume i: "i < n - k" "user_frame m pt (va + of_nat k + of_nat i) = Some p"
  then have "k + i < n" "user_frame m pt (va + of_nat (k + i)) = Some p" by (simp_all add: add.assoc)
  with assms(1) have "unat buf + n < unat p \<and> unat p + 4096 \<le> unat buf + 2147483648"
    unfolding copy_below_def by blast
  then show "unat (buf + of_nat k) + (n - k) < unat p \<and> unat p + 4096 \<le> unat (buf + of_nat k) + 2147483648"
    using assms(2,3) by simp
qed

lemma unat_page_plus:
  assumes "page_aligned p" "unat a < 4096"
  shows "unat (p + a) = unat p + unat a" "unat p + 4096 \<le> 4294967296"
proof -
  obtain q where q: "unat p = 4096 * q" using assms(1) by (auto simp: page_aligned_def elim!: dvdE)
  then have "q < 1048576" using unat_less_2_32 [of p] by simp
  then show le: "unat p + 4096 \<le> 4294967296" using q by simp
  then show "unat (p + a) = unat p + unat a" using assms(2) by (intro unat_plus_u32) simp
qed

lemma uphys_offset:
  assumes "user_frame m pt (va + of_nat i) = Some p" "PGROUNDDOWN (va + of_nat i) = PGROUNDDOWN va"
  shows "uphys m pt (va + of_nat i) = Some (p + (va - PGROUNDDOWN va) + of_nat i)"
  using assms by (simp add: uphys_def)

lemma uphys_frame:
  assumes "uphys m pt v = Some x"
  obtains q where "user_frame m pt v = Some q" "x = q + (v - PGROUNDDOWN v)" "unat (v - PGROUNDDOWN v) < 4096"
  using assms by (auto simp: uphys_def unat_page_offset)

lemma in_range_iff:
  assumes "n \<le> 4294967296"
  shows "in_range x d n \<longleftrightarrow> (\<exists>i<n. x = d + of_nat i)"
proof
  assume "in_range x d n"
  then show "\<exists>i<n. x = d + of_nat i" by (intro exI [of _ "unat (x - d)"]) (simp add: in_range_def)
next
  assume "\<exists>i<n. x = d + of_nat i"
  then obtain i where i: "i < n" "x = d + of_nat i" by blast
  moreover have "unat (of_nat i :: u32) = i" using i(1) assms by (intro unat_of_nat_u32) simp
  ultimately show "in_range x d n" by (simp add: in_range_def)
qed

lemma in_range_page:
  assumes "in_range y (p + off) n" "unat off + n \<le> 4096"
  shows "in_range y p 4096"
proof -
  obtain i where i: "i < n" "y = p + off + of_nat i" using assms in_range_iff [of n y "p + off"] by auto
  then have "y - p = off + of_nat i" by simp
  moreover have "unat (off + of_nat i) = unat off + i" using i(1) assms(2) by (intro unat_add_of_nat) simp
  ultimately show ?thesis using i(1) assms(2) by (simp add: in_range_def)
qed

lemma uphys_same_page:
  assumes "mem_end_ok e" "user_range e m pt dst n" "i < n" "j < n"
    and "uphys m pt (dst + of_nat i) = Some x" "uphys m pt (dst + of_nat j) = Some x"
  shows "user_frame m pt (dst + of_nat i) = user_frame m pt (dst + of_nat j)"
proof -
  have "\<exists>q o'. user_frame m pt (dst + of_nat k) = Some q \<and> page_aligned q \<and> x = q + o' \<and> unat o' < 4096"
    if "k < n" "uphys m pt (dst + of_nat k) = Some x" for k
    using uphys_frame [OF that(2)] user_rangeD [OF assms(2) that(1)] alloc_page_aligned [OF assms(1)] by (metis option.inject)
  then show ?thesis using assms(3-6) page_offset_inj by metis
qed

text \<open>The memory after the first round of \<^verbatim>\<open>copyout\<close>: the bytes of the page are those of the buffer.\<close>

lemma out_chunk:
  assumes ok: "pt_ok e m pt" and ur: "user_range e m pt dst (unat len)"
    and below: "copy_below m pt dst (unat len) src" and pos: "0 < len"
  obtains m1 N where "N = unat (page_rest dst len)" "0 < N" "N \<le> unat len"
    "N < unat len \<Longrightarrow> PGROUNDDOWN dst + PGESIZE = dst + of_nat N"
    "unat (len - page_rest dst len) = unat len - N"
    "copyout e pt dst src len m
       = copyout e pt (PGROUNDDOWN dst + PGESIZE) (src + of_nat N) (len - page_rest dst len) m1"
    "pt_ok e m1 pt" "mapping m1 pt = mapping m pt" "user_frame m1 pt = user_frame m pt"
    "user_range e m1 pt dst (unat len)"
    "\<And>i x. i < N \<Longrightarrow> uphys m pt (dst + of_nat i) = Some x \<Longrightarrow> m1 x = m (src + of_nat i)"
    "\<And>x. (\<forall>i<N. uphys m pt (dst + of_nat i) \<noteq> Some x) \<Longrightarrow> m1 x = m x"
    "\<And>j. j < unat len \<Longrightarrow> m1 (src + of_nat j) = m (src + of_nat j)"
    "\<And>i j x. i < N \<Longrightarrow> uphys m pt (dst + of_nat i) = Some x \<Longrightarrow> N \<le> j \<Longrightarrow> j < unat len
       \<Longrightarrow> uphys m pt (dst + of_nat j) \<noteq> Some x"
proof -
  note D = pt_okD [OF ok]
  obtain p N where R: "N = unat (page_rest dst len)" "0 < N" "N \<le> unat len" "N + unat dst mod 4096 \<le> 4096"
    "user_frame m pt dst = Some p" "alloc_page e m p" "p \<notin> table_pages m pt"
    "unat (len - page_rest dst len) = unat len - N" "N < unat len \<Longrightarrow> PGROUNDDOWN dst + PGESIZE = dst + of_nat N"
    "\<And>i. i < N \<Longrightarrow> user_frame m pt (dst + of_nat i) = Some p"
    "\<And>i. i < N \<Longrightarrow> PGROUNDDOWN (dst + of_nat i) = PGROUNDDOWN dst"
    "\<And>j. N \<le> j \<Longrightarrow> j < unat len \<Longrightarrow> user_frame m pt (dst + of_nat j) \<noteq> Some p"
    by (rule page_round [OF ur pos]) (rule that)
  define off where "off = dst - PGROUNDDOWN dst"
  have uo: "unat off = unat dst mod 4096" by (simp add: off_def unat_page_offset)
  have al: "page_aligned p" "p \<noteq> 0" using alloc_page_aligned [OF D(1) R(6)] by simp_all
  define d where "d = p + off"
  have ud: "unat d = unat p + unat off" "unat p + 4096 \<le> 4294967296"
    unfolding d_def using unat_page_plus [OF al(1), of off] uo by simp_all
  have b: "unat src + unat len < unat p" "unat p + 4096 \<le> unat src + 2147483648"
    using below [unfolded copy_below_def, rule_format, of 0 p] R(2,3,5) by simp_all
  define m1 where "m1 = copied m d src N"
  have "memmove m d src (page_rest dst len) = Some (copied m d src (unat (page_rest dst len)))"
    by (rule memmove_from_below)
      (use b ud uo R(1-4) in \<open>simp_all add: word_less_nat_alt\<close>)
  then have mv: "kmemmove m (p + (dst - PGROUNDDOWN dst)) src (page_rest dst len) = Inr m1"
    by (simp add: kmemmove_def m1_def R(1) d_def off_def)
  have nN: "page_rest dst len = of_nat N" by (simp only: R(1) of_nat_unat ucast_id)
  have "unat dst + unat len < 4294967295" using ur by (simp add: user_range_def)
  then have "PGROUNDDOWN dst \<noteq> MAXVA" using page_arith(4) [OF page_aligned_PGROUNDDOWN page_aligned_PGROUNDDOWN] by blast
  moreover have "user_frame m pt (PGROUNDDOWN dst) = Some p"
    using R(5) by (simp only: user_frame_def mapping_PGROUNDDOWN)
  ultimately have fetch: "fetch_pa_addr e pt (PGROUNDDOWN dst) m = Inr p"
    using fetch_pa_addr_spec [OF ok] by simp
  have step: "copyout e pt dst src len m
       = copyout e pt (PGROUNDDOWN dst + PGESIZE) (src + of_nat N) (len - page_rest dst len) m1"
    by (subst copyout.simps) (use pos al(2) mv fetch nN in \<open>simp add: Let_def\<close>)
  have in_d: "in_range x d N \<longleftrightarrow> (\<exists>i<N. x = d + of_nat i)" for x using R(4) by (intro in_range_iff) simp
  have up: "uphys m pt (dst + of_nat i) = Some (d + of_nat i)" if "i < N" for i
    using uphys_offset [OF R(10) [OF that] R(11) [OF that]] by (simp add: d_def off_def)
  have fr: "m1 y = m y" if "\<not> in_range y p 4096" for y
    using that in_range_page [of y p off N] R(4) uo by (auto simp: m1_def copied_def d_def)
  note W = user_write [OF ok R(6,7) fr]
  show thesis
  proof (rule that [OF R(1-3,9,8) step])
    show "pt_ok e m1 pt" "mapping m1 pt = mapping m pt" "user_frame m1 pt = user_frame m pt"
      "user_range e m1 pt dst (unat len)" using W ur by simp_all
    show "m1 x = m (src + of_nat i)" if "i < N" "uphys m pt (dst + of_nat i) = Some x" for i x
      using that up in_d by (auto simp: m1_def copied_def)
    show "m1 x = m x" if "\<forall>i<N. uphys m pt (dst + of_nat i) \<noteq> Some x" for x
    proof -
      have "\<not> in_range x d N" using that up in_d by auto
      then show ?thesis by (simp add: m1_def copied_def)
    qed
    show "m1 (src + of_nat j) = m (src + of_nat j)" if "j < unat len" for j
    proof -
      have "unat (src + of_nat j) = unat src + j" using b(1) that ud(2) by (intro unat_add_of_nat) simp
      then have "\<not> in_range (src + of_nat j) d N"
        using that b ud R(4) uo by (simp add: in_range_def unat_minus_u32)
      then show ?thesis by (simp add: m1_def copied_def)
    qed
    show "uphys m pt (dst + of_nat j) \<noteq> Some x"
      if h: "i < N" "uphys m pt (dst + of_nat i) = Some x" "N \<le> j" "j < unat len" for i j x
      using uphys_same_page [OF D(1) ur _ h(4,2)] R(10) [OF h(1)] R(3) R(12) [OF h(3,4)] h(1) by (metis less_le_trans)
  qed
qed

text \<open>What is left after the first round satisfies the conditions again, and two copies to disjoint ranges are one copy.\<close>

lemma copy_rest:
  assumes ur: "user_range e m pt dst n" and below: "copy_below m pt dst n src"
    and m1: "user_frame m1 pt = user_frame m pt" "user_range e m1 pt dst n" and N: "N < n"
  shows "user_range e m1 pt (dst + of_nat N) (n - N)" "copy_below m1 pt (dst + of_nat N) (n - N) (src + of_nat N)"
proof -
  show "user_range e m1 pt (dst + of_nat N) (n - N)" using m1(2) N by (intro user_range_drop) simp_all
  obtain p where "user_frame m pt (dst + of_nat 0) = Some p" using user_rangeD [OF ur, of 0] N by auto
  then have "unat src + n < unat p" using below [unfolded copy_below_def, rule_format, of 0 p] N by simp
  then have "unat (src + of_nat N) = unat src + N" using unat_less_2_32 [of p] N by (intro unat_add_of_nat) simp
  then show "copy_below m1 pt (dst + of_nat N) (n - N) (src + of_nat N)"
    using below m1(1) N by (intro copy_below_drop) (simp_all add: copy_below_def)
qed

lemma copies_joined:
  fixes N n :: nat
  assumes "N \<le> n"
    and first: "\<And>i x. i < N \<Longrightarrow> at i = Some x \<Longrightarrow> m1 x = b i" "\<And>x. \<forall>i<N. at i \<noteq> Some x \<Longrightarrow> m1 x = m x"
    and apart: "\<And>i j x. i < N \<Longrightarrow> at i = Some x \<Longrightarrow> N \<le> j \<Longrightarrow> j < n \<Longrightarrow> at j \<noteq> Some x"
    and rest: "\<And>i x. i < n - N \<Longrightarrow> at (N + i) = Some x \<Longrightarrow> m' x = b (N + i)" "\<And>x. \<forall>i<n - N. at (N + i) \<noteq> Some x \<Longrightarrow> m' x = m1 x"
  shows "i < n \<Longrightarrow> at i = Some x \<Longrightarrow> m' x = b i" "\<forall>i<n. at i \<noteq> Some x \<Longrightarrow> m' x = m x"
proof -
  assume i: "i < n" "at i = Some x"
  show "m' x = b i"
  proof (cases "i < N")
    case True
    have "\<forall>j<n - N. at (N + j) \<noteq> Some x" by (intro allI impI apart [OF True i(2)]) simp_all
    then show ?thesis using rest(2) first(1) [OF True i(2)] by simp
  next
    case False
    then show ?thesis using rest(1) [of "i - N" x] i by simp
  qed
next
  assume x: "\<forall>i<n. at i \<noteq> Some x"
  then show "m' x = m x" using rest(2) [of x] first(2) [of x] assms(1) by simp
qed

text \<open>(C9) \<^verbatim>\<open>copyout\<close> delivers: for a mapped user range and a kernel buffer that lies below the user's
  physical pages (the buffers of the block cache do) it returns 0, the \<open>len\<close> bytes of the buffer
  are at the physical places of the user range, across page boundaries, every other byte of
  memory is unchanged and the page table translates as before.\<close>

theorem copyout_delivers:
  assumes "pt_ok e m pt" "user_range e m pt dst (unat len)" "copy_below m pt dst (unat len) src"
  shows "\<exists>m'. copyout e pt dst src len m = Inr (0, m') \<and> mapping m' pt = mapping m pt
    \<and> (\<forall>i<unat len. \<forall>x. uphys m pt (dst + of_nat i) = Some x \<longrightarrow> m' x = m (src + of_nat i))
    \<and> (\<forall>x. (\<forall>i<unat len. uphys m pt (dst + of_nat i) \<noteq> Some x) \<longrightarrow> m' x = m x)"
  using assms
proof (induction "unat len" arbitrary: m dst src len rule: less_induct)
  case less
  show ?case
  proof (cases "len = 0")
    case True
    then show ?thesis by (subst copyout.simps) simp
  next
    case False
    then have pos: "0 < len" by (simp add: word_gt_0)
    obtain m1 N where C: "N = unat (page_rest dst len)" "0 < N" "N \<le> unat len"
      "N < unat len \<Longrightarrow> PGROUNDDOWN dst + PGESIZE = dst + of_nat N"
      "unat (len - page_rest dst len) = unat len - N"
      "copyout e pt dst src len m
         = copyout e pt (PGROUNDDOWN dst + PGESIZE) (src + of_nat N) (len - page_rest dst len) m1"
      "pt_ok e m1 pt" "mapping m1 pt = mapping m pt" "user_frame m1 pt = user_frame m pt"
      "user_range e m1 pt dst (unat len)"
      "\<And>i x. i < N \<Longrightarrow> uphys m pt (dst + of_nat i) = Some x \<Longrightarrow> m1 x = m (src + of_nat i)"
      "\<And>x. (\<forall>i<N. uphys m pt (dst + of_nat i) \<noteq> Some x) \<Longrightarrow> m1 x = m x"
      "\<And>j. j < unat len \<Longrightarrow> m1 (src + of_nat j) = m (src + of_nat j)"
      "\<And>i j x. i < N \<Longrightarrow> uphys m pt (dst + of_nat i) = Some x \<Longrightarrow> N \<le> j \<Longrightarrow> j < unat len
         \<Longrightarrow> uphys m pt (dst + of_nat j) \<noteq> Some x"
      by (rule out_chunk [OF less.prems pos]) (rule that)
    let ?L = "len - page_rest dst len"
    have up1: "uphys m1 pt = uphys m pt" by (simp add: uphys_def fun_eq_iff C(9))
    have sh: "a + of_nat N + of_nat i = a + of_nat (N + i)" for a :: u32 and i by simp
    have "\<exists>m'. copyout e pt (PGROUNDDOWN dst + PGESIZE) (src + of_nat N) ?L m1 = Inr (0, m') \<and> mapping m' pt = mapping m1 pt
      \<and> (\<forall>i<unat ?L. \<forall>x. uphys m pt (dst + of_nat (N + i)) = Some x \<longrightarrow> m' x = m1 (src + of_nat (N + i)))
      \<and> (\<forall>x. (\<forall>i<unat ?L. uphys m pt (dst + of_nat (N + i)) \<noteq> Some x) \<longrightarrow> m' x = m1 x)"
    proof (cases "N < unat len")
      case True
      then show ?thesis
        using less.hyps [OF _ C(7) copy_rest [OF less.prems(2,3) C(9,10) True, folded C(5)]] C(2,3,5)
        unfolding C(4) [OF True] up1 sh by simp
    next
      case False
      then have "?L = 0" using C(3,5) by (simp add: unat_eq_zero [symmetric])
      then show ?thesis by (subst copyout.simps) simp
    qed
    then obtain m' where m': "copyout e pt dst src len m = Inr (0, m')" "mapping m' pt = mapping m pt"
      "\<And>i x. i < unat len - N \<Longrightarrow> uphys m pt (dst + of_nat (N + i)) = Some x \<Longrightarrow> m' x = m1 (src + of_nat (N + i))"
      "\<And>x. \<forall>i<unat len - N. uphys m pt (dst + of_nat (N + i)) \<noteq> Some x \<Longrightarrow> m' x = m1 x"
      unfolding C(5,6,8) by blast
    have "m' x = m (src + of_nat (N + i))" if "i < unat len - N" "uphys m pt (dst + of_nat (N + i)) = Some x" for i x
      using m'(3) [OF that] C(13) [of "N + i"] that(1) by simp
    note J = copies_joined [where at = "\<lambda>i. uphys m pt (dst + of_nat i)" and b = "\<lambda>i. m (src + of_nat i)",
        OF C(3,11,12,14) this m'(4)]
    show ?thesis using m'(1,2) J by (intro exI [of _ m'] conjI allI impI)
  qed
qed

subsection \<open>Witnesses\<close>

text \<open>A kernel that ends at \<open>0x80020000\<close> and has handed out three pages: a page table, one second-level
  table, and the page that user address 0 is mapped to.\<close>

definition mem_w :: mem where
  "mem_w = store32 (store32 (store32 (\<lambda>_. 0) 0x80020000 7) 0x80028000 (PA2PTE 0x80029000 OR PTE_V))
     0x80029000 (PA2PTE 0x8002a000 OR 0x16 OR PTE_V)"

lemma layout_w:
  "mem_end_ok 0x80020000" "num_pages 0x80020000 = 32736" "page_addr 0x80020000 i = 0x80028000 + i * PGESIZE"
  "bm_addr 0x80020000 i = 0x80020000 + 4 * (i div 8)"
  by (simp_all add: mem_end_ok_def num_pages_def PGROUNDUP_def page_addr_def alloc_start_def bm_addr_def)

lemma mem_w_slots:
  assumes "unat k < 1024"
  shows "load32 mem_w (0x80028000 + 4 * k) = (if k = 0 then PA2PTE 0x80029000 OR PTE_V else 0)"
    "load32 mem_w (0x80029000 + 4 * k) = (if k = 0 then PA2PTE 0x8002a000 OR 0x16 OR PTE_V else 0)"
    "load32 mem_w (0x80020000 + 4 * k) = (if k = 0 then 7 else 0)"
proof -
  have pa: "page_aligned 0x80020000" "page_aligned 0x80028000" "page_aligned 0x80029000" by (simp_all add: page_aligned_def)
  have ld: "load32 mem_w (p + 4 * k) =
    (if p = 0x80029000 \<and> k = 0 then PA2PTE 0x8002a000 OR 0x16 OR PTE_V
     else if p = 0x80028000 \<and> k = 0 then PA2PTE 0x80029000 OR PTE_V
     else if p = 0x80020000 \<and> k = 0 then 7 else 0)" if "page_aligned p" for p
    using slot_eq_iff [OF that pa(1) assms, of 0] slot_eq_iff [OF that pa(2) assms, of 0]
      slot_eq_iff [OF that pa(3) assms, of 0] slot_aligned(1) [OF that assms]
      slot_aligned(1) [OF pa(1), of 0] slot_aligned(1) [OF pa(2), of 0] slot_aligned(1) [OF pa(3), of 0]
    by (simp add: mem_w_def m32.ld_st) (simp add: load32_def)
  show "load32 mem_w (0x80028000 + 4 * k) = (if k = 0 then PA2PTE 0x80029000 OR PTE_V else 0)"
    "load32 mem_w (0x80029000 + 4 * k) = (if k = 0 then PA2PTE 0x8002a000 OR 0x16 OR PTE_V else 0)"
    "load32 mem_w (0x80020000 + 4 * k) = (if k = 0 then 7 else 0)"
    using ld [OF pa(2)] ld [OF pa(3)] ld [OF pa(1)] by simp_all
qed

lemma mem_w_bits: "unat i < 8 \<Longrightarrow> IS_SET 0x80020000 mem_w i \<longleftrightarrow> unat i < 3"
proof -
  assume i: "unat i < 8"
  then have "i div 8 = 0" by (simp add: word_unat_eq_iff unat_div)
  then have "bm_addr 0x80020000 i = 0x80020000 + 4 * 0" by (simp add: layout_w(4))
  then have "IS_SET 0x80020000 mem_w i \<longleftrightarrow> bit (7 :: u32) (unat i)"
    using i mem_w_slots(3) [of 0] by (simp add: bm_bit unat_mod)
  moreover have "(7 :: u32) = mask 3" by (simp add: mask_eq_exp_minus_1)
  ultimately show ?thesis using i by (simp add: bit_simps)
qed

lemma mem_w_alloc: "alloc_page 0x80020000 mem_w 0x80028000" "alloc_page 0x80020000 mem_w 0x80029000"
  "alloc_page 0x80020000 mem_w 0x8002a000"
proof -
  have "alloc_page 0x80020000 mem_w (0x80028000 + i * PGESIZE)" if "unat i < 3" for i
    unfolding alloc_page_def layout_w using that mem_w_bits [of i]
    by (intro exI [of _ i]) (simp add: word_less_nat_alt)
  from this [of 0] this [of 1] this [of 2]
  show "alloc_page 0x80020000 mem_w 0x80028000" "alloc_page 0x80020000 mem_w 0x80029000"
    "alloc_page 0x80020000 mem_w 0x8002a000" by simp_all
qed

lemma mem_w_tables: "unat k < 1024 \<Longrightarrow> table_of mem_w 0x80028000 k = (if k = 0 then Some 0x80029000 else None)"
  using PTE2PA_PA2PTE [of PTE_V "0x80029000"] PGROUNDDOWN_aligned [of "0x80029000"]
  by (auto simp: table_of_def mem_w_slots page_aligned_def)

lemma mem_w_ok: "pt_ok 0x80020000 mem_w 0x80028000"
  using layout_w(1) mem_w_alloc mem_w_tables by (auto simp: pt_ok_def split: if_splits)

lemma mem_w_mapping:
  "mapping mem_w 0x80028000 w = (if PGROUNDDOWN w = 0 then Some (PA2PTE 0x8002a000 OR 0x16 OR PTE_V) else None)"
proof -
  have z: "PGROUNDDOWN w = 0 \<longleftrightarrow> vpn w 1 = 0 \<and> vpn w 0 = 0"
    using same_page_iff [of w 0] by (simp add: PGROUNDDOWN_alt vpn_def)
  show ?thesis
    unfolding mapping_alt z using mem_w_tables [OF vpn_less, of w 1] mem_w_slots(2) [OF vpn_less, of w 0]
      leaf_valid(2) [of "PA2PTE 0x8002a000" "0x16"] by auto
qed

lemma mem_w_frame: "PGROUNDDOWN w = 0 \<Longrightarrow> user_frame mem_w 0x80028000 w = Some 0x8002a000"
  using PTE2PA_PA2PTE [of "0x17" "0x8002a000"] PGROUNDDOWN_aligned [of "0x8002a000"]
  by (simp add: user_frame_def mem_w_mapping page_aligned_def) (simp add: PA2PTE_def)

lemma mem_w_free: "0 < card (free_pages 0x80020000 mem_w)"
proof -
  have "page_addr 0x80020000 3 \<in> free_pages 0x80020000 mem_w"
    using mem_w_bits [of 3] by (auto simp: free_pages_def layout_w(2))
  then show ?thesis using finite_free_pages card_gt_0_iff by blast
qed

theorem map_pages_translates_witness:
  "\<exists>m'. map_pages 0x80020000 0x80028000 0x1000 0x8002b000 PGESIZE (PTE_R OR PTE_W OR PTE_U) mem_w = Inr (0, m')
    \<and> fetch_pa_addr 0x80020000 0x80028000 0x1234 m' = Inr 0x8002b000"
proof -
  have pg: "PGROUNDDOWN 0x1000 = 0x1000" "PGROUNDDOWN (0x1000 + PGESIZE - 1) = 0x1000" "PGROUNDDOWN 0x1234 = 0x1000"
    "PGROUNDDOWN 0x8002b000 = 0x8002b000"
    by (simp_all add: PGROUNDDOWN_def)
  have "\<forall>w. PGROUNDDOWN w - 0x1000 \<le> 0x1000 - 0x1000 \<longrightarrow> mapping mem_w 0x80028000 w = None"
    by (simp add: mem_w_mapping)
  moreover have "unat (0x1000 - 0x1000 :: u32) div 4096 < card (free_pages 0x80020000 mem_w)" using mem_w_free by simp
  ultimately show ?thesis
    using map_pages_translates [OF mem_w_ok _ _ pg(1) [symmetric] pg(2) [symmetric], of "PTE_R OR PTE_W OR PTE_U" "0x8002b000"] pg(3,4)
    by fastforce
qed

theorem copyout_delivers_witness:
  "\<exists>m'. copyout 0x80020000 0x80028000 0x10 0x80020000 4 mem_w = Inr (0, m') \<and> m' 0x8002a010 = 7"
proof -
  have pg: "PGROUNDDOWN (0x10 + of_nat i) = 0" "user_frame mem_w 0x80028000 (0x10 + of_nat i) = Some 0x8002a000" if "i < 4" for i
  proof -
    show "PGROUNDDOWN (0x10 + of_nat i) = 0" using same_page_offset(1) [of "0x10" i] that by (simp add: PGROUNDDOWN_def)
    then show "user_frame mem_w 0x80028000 (0x10 + of_nat i) = Some 0x8002a000" by (rule mem_w_frame)
  qed
  have "table_pages mem_w 0x80028000 = {0x80028000, 0x80029000}"
    using mem_w_tables by (auto simp: table_pages_def split: if_splits intro: exI [of _ 0])
  then have "user_range 0x80020000 mem_w 0x80028000 0x10 4"
    using pg mem_w_alloc(3) by (simp add: user_range_def)
  moreover have "copy_below mem_w 0x80028000 0x10 4 0x80020000" using pg(2) by (simp add: copy_below_def)
  moreover have "uphys mem_w 0x80028000 (0x10 + of_nat 0) = Some 0x8002a010"
    using pg [of 0] by (simp add: uphys_def)
  moreover have "mem_w 0x80020000 = 7" by (simp add: mem_w_def store32_def)
  ultimately show ?thesis
    using copyout_delivers [OF mem_w_ok, of "0x10" 4 "0x80020000"] by fastforce
qed

theorem uvmunmap_counts_bytes_witness:
  "\<exists>m'. uvmunmap 0x80020000 0x80028000 0 5 False mem_w = Inr m' \<and> mapping m' 0x80028000 0 = None"
proof -
  have pg: "PGROUNDDOWN 0 = 0" "page_aligned 0" by (simp_all add: PGROUNDDOWN_def page_aligned_def)
  have "mapping mem_w 0x80028000 0 = Some (PA2PTE 0x8002a000 OR 0x16 OR PTE_V)" by (simp add: mem_w_mapping pg)
  moreover have "(PA2PTE 0x8002a000 OR 0x16 OR PTE_V) AND 0x3ff \<noteq> PTE_V" by (simp add: PA2PTE_def)
  ultimately show ?thesis using uvmunmap_counts_bytes [OF mem_w_ok pg(2), of _ 5] pg(1) by fastforce
qed

end
