(* ===== verification/Locks.thy ===== *)
theory Locks
  imports OS_Prelude
begin

text \<open>
  \<^verbatim>\<open>kernel/locks.c\<close>: the interrupt nesting counter of a hart, spin locks and sleep locks.
  A \<^verbatim>\<open>struct cpu *\<close> is the number of the hart, a \<^verbatim>\<open>struct spinlock *\<close> a natural number,
  the null pointer \<^term>\<open>None\<close>. The field \<open>sie\<close> is the interrupt-enable bit of the hart's status
  register, which \<^verbatim>\<open>get_intr\<close>, \<^verbatim>\<open>enable_intr\<close> and \<^verbatim>\<open>disable_intr\<close> (\<^verbatim>\<open>regs.h\<close>) read and write.

  The first half are the routines as one hart runs them undisturbed; a \<^verbatim>\<open>while\<close> that spins on a
  lock that nobody else can release is \<^term>\<open>Diverges\<close>. The second half runs any number of harts
  at once: the step relation \<open>mstep\<close> cuts each routine at every access to the shared lock, and
  its invariant gives mutual exclusion.
\<close>

section \<open>State\<close>

record cpu =
  depth_lock_intr_disable :: int
  intr_prev_state :: bool
  sie :: bool

record spinlock =
  locked :: u32
  lname :: string
  lcpu :: "nat option"

record machine =
  cpus :: "nat \<Rightarrow> cpu"
  spin :: "nat \<Rightarrow> spinlock"

section \<open>Interrupt nesting\<close>

definition lock_intr_disable :: "cpu \<Rightarrow> cpu" where
  "lock_intr_disable c =
     (let intr_state = sie c;
          c = c\<lparr>sie := False\<rparr>;
          c = (if depth_lock_intr_disable c = 0 then c\<lparr>intr_prev_state := intr_state\<rparr> else c)
      in c\<lparr>depth_lock_intr_disable := depth_lock_intr_disable c + 1\<rparr>)"

definition lock_intr_enable :: "cpu \<Rightarrow> cpu res" where
  "lock_intr_enable c =
     (if sie c then Inl (Panic ''lock_intr_enable'')
      else let c = c\<lparr>depth_lock_intr_disable := depth_lock_intr_disable c - 1\<rparr> in
        if depth_lock_intr_disable c < 0 then Inl (Panic ''lock_intr_enablei, intr depth'')
        else if depth_lock_intr_disable c = 0 \<and> intr_prev_state c then Inr (c\<lparr>sie := True\<rparr>)
        else Inr c)"

definition set_cpu :: "nat \<Rightarrow> cpu \<Rightarrow> machine \<Rightarrow> machine" where
  "set_cpu h c m = m\<lparr>cpus := (cpus m)(h := c)\<rparr>"

definition set_spin :: "nat \<Rightarrow> spinlock \<Rightarrow> machine \<Rightarrow> machine" where
  "set_spin l k m = m\<lparr>spin := (spin m)(l := k)\<rparr>"

definition push_off :: "nat \<Rightarrow> machine \<Rightarrow> machine" where
  "push_off h m = set_cpu h (lock_intr_disable (cpus m h)) m"

definition pop_off :: "nat \<Rightarrow> machine \<Rightarrow> machine res" where
  "pop_off h m = rbind (lock_intr_enable (cpus m h)) (\<lambda>c. Inr (set_cpu h c m))"

section \<open>Spin locks\<close>

definition initlock :: "string \<Rightarrow> spinlock" where
  "initlock nm = \<lparr>locked = 0, lname = nm, lcpu = None\<rparr>"

definition is_holding :: "nat \<Rightarrow> nat \<Rightarrow> machine \<Rightarrow> (bool \<times> machine) res" where
  "is_holding h l m =
     (let m = push_off h m;
          r = (locked (spin m l) \<noteq> 0 \<and> lcpu (spin m l) = Some h)
      in rbind (pop_off h m) (\<lambda>m. Inr (r, m)))"

definition acquire_lock :: "nat \<Rightarrow> nat \<Rightarrow> machine \<Rightarrow> machine res" where
  "acquire_lock h l m =
     rbind (is_holding h l (push_off h m)) (\<lambda>(r, m).
       if r then Inl (Panic ''acquire_lock, is_holding'')
       else if locked (spin m l) \<noteq> 0 then Inl Diverges
       else Inr (set_spin l ((spin m l)\<lparr>locked := 1, lcpu := Some h\<rparr>) m))"

definition release_lock :: "nat \<Rightarrow> nat \<Rightarrow> machine \<Rightarrow> machine res" where
  "release_lock h l m =
     rbind (is_holding h l m) (\<lambda>(r, m).
       if \<not> r then Inl (Panic ''release_lock, not current holder'')
       else pop_off h (set_spin l ((spin m l)\<lparr>lcpu := None, locked := 0\<rparr>) m))"

section \<open>Sleep locks\<close>

text \<open>The spin lock inside a sleep lock is held only within these bodies. A process that finds
  the lock taken goes to sleep on it; the wake-up that a release performs acts on the process
  table and is \<^verbatim>\<open>wakeup\<close> there.\<close>

record sleeplock =
  slocked :: u32
  sl_name :: string
  sl_process_id :: int

definition initsleeplock :: "string \<Rightarrow> sleeplock" where
  "initsleeplock nm = \<lparr>slocked = 0, sl_name = nm, sl_process_id = 0\<rparr>"

definition acquire_sleeplock :: "int \<Rightarrow> sleeplock \<Rightarrow> sleeplock res" where
  "acquire_sleeplock pid k =
     (if slocked k \<noteq> 0 then Inl (Sleeps (sl_name k))
      else Inr (k\<lparr>slocked := 1, sl_process_id := pid\<rparr>))"

definition release_sleeplock :: "sleeplock \<Rightarrow> sleeplock" where
  "release_sleeplock k = k\<lparr>slocked := 0, sl_process_id := 0\<rparr>"

definition is_holding_sleeplock :: "int \<Rightarrow> sleeplock \<Rightarrow> bool" where
  "is_holding_sleeplock pid k \<longleftrightarrow> slocked k \<noteq> 0 \<and> sl_process_id k = pid"

lemma acquire_sleeplock_held:
  "acquire_sleeplock pid k = Inr k' \<Longrightarrow> is_holding_sleeplock pid k' \<and> \<not> is_holding_sleeplock q k"
  by (auto simp: acquire_sleeplock_def is_holding_sleeplock_def split: if_splits)

lemma release_sleeplock_free [simp]: "\<not> is_holding_sleeplock pid (release_sleeplock k)"
  by (simp add: release_sleeplock_def is_holding_sleeplock_def)

lemma release_acquire_sleeplock:
  "acquire_sleeplock pid k = Inr k' \<Longrightarrow> sl_process_id k = 0 \<Longrightarrow> release_sleeplock k' = k"
  by (auto simp: acquire_sleeplock_def release_sleeplock_def split: if_splits)

section \<open>Several harts\<close>

text \<open>Where a hart is inside the routines: before the first shared access, between the two reads
  of \<^verbatim>\<open>is_holding\<close> (with the value of the first), spinning, between the winning test-and-set and
  the store of \<^verbatim>\<open>lock->cpu\<close>, and the three stores of \<^verbatim>\<open>release_lock\<close>.\<close>

datatype pc =
    Run
  | AcqTest nat bool
  | Spin nat
  | Got nat
  | RelTest nat bool
  | Owned nat
  | Clearing nat
  | RelEnd
  | Panicked

type_synonym config = "machine \<times> (nat \<Rightarrow> pc)"

inductive mstep :: "config \<Rightarrow> config \<Rightarrow> bool" where
  acq_enter: "ps h = Run \<Longrightarrow>
    mstep (m, ps) (push_off h (push_off h m), ps(h := AcqTest l (locked (spin m l) \<noteq> 0)))"
| acq_test: "ps h = AcqTest l r \<Longrightarrow> pop_off h m = Inr m' \<Longrightarrow>
    mstep (m, ps) (m', ps(h := if r \<and> lcpu (spin m l) = Some h then Panicked else Spin l))"
| acq_spin: "ps h = Spin l \<Longrightarrow> locked (spin m l) \<noteq> 0 \<Longrightarrow>
    mstep (m, ps) (set_spin l ((spin m l)\<lparr>locked := 1\<rparr>) m, ps)"
| acq_won: "ps h = Spin l \<Longrightarrow> locked (spin m l) = 0 \<Longrightarrow>
    mstep (m, ps) (set_spin l ((spin m l)\<lparr>locked := 1\<rparr>) m, ps(h := Got l))"
| acq_own: "ps h = Got l \<Longrightarrow>
    mstep (m, ps) (set_spin l ((spin m l)\<lparr>lcpu := Some h\<rparr>) m, ps(h := Run))"
| rel_enter: "ps h = Run \<Longrightarrow>
    mstep (m, ps) (push_off h m, ps(h := RelTest l (locked (spin m l) \<noteq> 0)))"
| rel_test: "ps h = RelTest l r \<Longrightarrow> pop_off h m = Inr m' \<Longrightarrow>
    mstep (m, ps) (m', ps(h := if r \<and> lcpu (spin m l) = Some h then Owned l else Panicked))"
| rel_disown: "ps h = Owned l \<Longrightarrow>
    mstep (m, ps) (set_spin l ((spin m l)\<lparr>lcpu := None\<rparr>) m, ps(h := Clearing l))"
| rel_clear: "ps h = Clearing l \<Longrightarrow>
    mstep (m, ps) (set_spin l ((spin m l)\<lparr>locked := 0\<rparr>) m, ps(h := RelEnd))"
| rel_end: "ps h = RelEnd \<Longrightarrow> pop_off h m = Inr m' \<Longrightarrow>
    mstep (m, ps) (m', ps(h := Run))"
| intr_panic: "ps h \<in> {RelEnd, AcqTest l r, RelTest l r} \<Longrightarrow> pop_off h m = Inl e \<Longrightarrow>
    mstep (m, ps) (m, ps(h := Panicked))"
| intr_set: "ps h = Run \<Longrightarrow> depth_lock_intr_disable (cpus m h) = 0 \<Longrightarrow>
    mstep (m, ps) (set_cpu h ((cpus m h)\<lparr>sie := b\<rparr>) m, ps)"

inductive_cases mstepE: "mstep s s'"

definition boot :: "(nat \<Rightarrow> string) \<Rightarrow> (nat \<Rightarrow> bool) \<Rightarrow> config" where
  "boot nms on = (\<lparr>cpus = (\<lambda>h. \<lparr>depth_lock_intr_disable = 0, intr_prev_state = False, sie = on h\<rparr>),
     spin = (\<lambda>l. initlock (nms l))\<rparr>, \<lambda>h. Run)"

inductive reachable :: "config \<Rightarrow> bool" where
  reach_boot: "reachable (boot nms on)"
| reach_step: "reachable s \<Longrightarrow> mstep s s' \<Longrightarrow> reachable s'"

text \<open>A hart owns a lock from the test-and-set it wins to the store that clears \<^verbatim>\<open>locked\<close>.\<close>

definition owns :: "config \<Rightarrow> nat \<Rightarrow> nat \<Rightarrow> bool" where
  "owns s h l \<longleftrightarrow> lcpu (spin (fst s) l) = Some h \<or> snd s h = Got l \<or> snd s h = Clearing l"

text \<open>The levels of interrupt disabling that the routine in progress has added.\<close>

fun pending :: "pc \<Rightarrow> int" where
  "pending Run = 0"
| "pending (AcqTest l r) = 2"
| "pending (Spin l) = 1"
| "pending (Got l) = 1"
| "pending (RelTest l r) = 1"
| "pending (Owned l) = 0"
| "pending (Clearing l) = 1"
| "pending RelEnd = 1"
| "pending Panicked = 0"

text \<open>The invariant, in four parts: who holds a lock is recorded in it; a taken lock has its bit set
  and one owner; the nesting counter counts the locks a hart holds; interrupts are off while it
  is positive.\<close>

definition inv_pc :: "config \<Rightarrow> bool" where
  "inv_pc s \<longleftrightarrow> (\<forall>h l. (snd s h = Owned l \<longrightarrow> lcpu (spin (fst s) l) = Some h)
     \<and> (snd s h \<in> {Got l, Clearing l} \<longrightarrow> lcpu (spin (fst s) l) = None)
     \<and> (snd s h = RelTest l False \<longrightarrow> lcpu (spin (fst s) l) \<noteq> Some h))"

definition inv_own :: "config \<Rightarrow> bool" where
  "inv_own s \<longleftrightarrow> (\<forall>h l. owns s h l \<longrightarrow> locked (spin (fst s) l) \<noteq> 0)
     \<and> (\<forall>h h' l. owns s h l \<longrightarrow> owns s h' l \<longrightarrow> h = h')"

definition held :: "machine \<Rightarrow> nat \<Rightarrow> nat set" where
  "held m h = {l. lcpu (spin m l) = Some h}"

definition inv_depth :: "config \<Rightarrow> bool" where
  "inv_depth s \<longleftrightarrow> (\<forall>h. finite (held (fst s) h) \<and> (snd s h \<noteq> Panicked \<longrightarrow>
      depth_lock_intr_disable (cpus (fst s) h) = int (card (held (fst s) h)) + pending (snd s h)
      \<and> (0 < depth_lock_intr_disable (cpus (fst s) h) \<longrightarrow> \<not> sie (cpus (fst s) h))))"

section \<open>One hart\<close>

lemma lock_intr_disable_fields [simp]:
  "depth_lock_intr_disable (lock_intr_disable c) = depth_lock_intr_disable c + 1"
  "sie (lock_intr_disable c) = False"
  "intr_prev_state (lock_intr_disable c)
     = (if depth_lock_intr_disable c = 0 then sie c else intr_prev_state c)"
  by (simp_all add: lock_intr_disable_def Let_def)

lemma push_off_fields [simp]:
  "spin (push_off h m) = spin m"
  "cpus (push_off h m) = (cpus m)(h := lock_intr_disable (cpus m h))"
  by (simp_all add: push_off_def set_cpu_def)

lemma set_fields [simp]:
  "spin (set_cpu h c m) = spin m"
  "cpus (set_cpu h c m) = (cpus m)(h := c)"
  "cpus (set_spin l k m) = cpus m"
  "spin (set_spin l k m) = (spin m)(l := k)"
  by (simp_all add: set_cpu_def set_spin_def)

lemma lock_intr_enable_InrD:
  assumes "lock_intr_enable c = Inr c'"
  shows "depth_lock_intr_disable c' = depth_lock_intr_disable c - 1" "\<not> sie c"
    "intr_prev_state c' = intr_prev_state c"
    "sie c' = (depth_lock_intr_disable c = 1 \<and> intr_prev_state c)"
    "0 < depth_lock_intr_disable c"
  using assms by (auto simp: lock_intr_enable_def Let_def split: if_splits)

lemma pop_off_InrD:
  assumes "pop_off h m = Inr m'"
  shows "spin m' = spin m" "\<exists>c'. lock_intr_enable (cpus m h) = Inr c' \<and> cpus m' = (cpus m)(h := c')"
  using assms by (auto simp: pop_off_def rbind_eq_Inr)

lemma pop_off_returns:
  assumes "0 < depth_lock_intr_disable (cpus m h)" "\<not> sie (cpus m h)"
  shows "\<exists>m'. pop_off h m = Inr m'"
  using assms by (auto simp: pop_off_def lock_intr_enable_def Let_def)

text \<open>A matched pair of nesting calls is the identity on the counter and on the interrupt bit.\<close>

lemma pop_push:
  assumes "0 \<le> depth_lock_intr_disable c" "0 < depth_lock_intr_disable c \<longrightarrow> \<not> sie c"
  obtains c' where "lock_intr_enable (lock_intr_disable c) = Inr c'"
    "depth_lock_intr_disable c' = depth_lock_intr_disable c" "sie c' = sie c"
    "0 < depth_lock_intr_disable c \<longrightarrow> intr_prev_state c' = intr_prev_state c"
proof (cases "depth_lock_intr_disable c = 0")
  case True
  show thesis
  proof (cases "sie c")
    case on: True
    show thesis
      by (rule that [of "(lock_intr_disable c)\<lparr>depth_lock_intr_disable := 0, sie := True\<rparr>"])
        (use True on in \<open>simp_all add: lock_intr_enable_def\<close>)
  next
    case off: False
    show thesis
      by (rule that [of "(lock_intr_disable c)\<lparr>depth_lock_intr_disable := 0\<rparr>"])
        (use True off in \<open>simp_all add: lock_intr_enable_def\<close>)
  qed
next
  case False
  show thesis
    by (rule that [of "(lock_intr_disable c)\<lparr>depth_lock_intr_disable := depth_lock_intr_disable c\<rparr>"])
      (use False assms in \<open>simp_all add: lock_intr_enable_def\<close>)
qed

section \<open>Preservation of the invariant\<close>

lemma inv_pc_step: "mstep s s' \<Longrightarrow> inv_pc s \<Longrightarrow> inv_own s \<Longrightarrow> inv_pc s'"
  by (induction rule: mstep.induct)
    (simp_all add: inv_pc_def inv_own_def owns_def pop_off_InrD(1),
      (metis option.distinct(1) option.inject option.exhaust)+)

lemma inv_own_step: "mstep s s' \<Longrightarrow> inv_pc s \<Longrightarrow> inv_own s \<Longrightarrow> inv_own s'"
  by (induction rule: mstep.induct)
    (simp_all add: inv_pc_def inv_own_def owns_def pop_off_InrD(1),
      (metis option.distinct(1) option.inject)+)

lemma held_set_spin:
  "held (set_spin l k m) h = (if lcpu k = Some h then insert l (held m h) else held m h - {l})"
  by (auto simp: held_def)

lemma held_upd [simp]:
  "held (set_cpu h' c m) h = held m h"
  "held (push_off h' m) h = held m h"
  by (auto simp: held_def)

lemma held_pop: "pop_off h m = Inr m' \<Longrightarrow> held m' g = held m g"
  by (auto simp: held_def dest!: pop_off_InrD(1))

text \<open>The nesting invariant of one hart, and what each kind of step does to it.\<close>

definition depth_ok :: "config \<Rightarrow> nat \<Rightarrow> bool" where
  "depth_ok s h \<longleftrightarrow> finite (held (fst s) h) \<and> (snd s h \<noteq> Panicked \<longrightarrow>
      depth_lock_intr_disable (cpus (fst s) h) = int (card (held (fst s) h)) + pending (snd s h)
      \<and> (0 < depth_lock_intr_disable (cpus (fst s) h) \<longrightarrow> \<not> sie (cpus (fst s) h)))"

lemma inv_depth_alt: "inv_depth s \<longleftrightarrow> (\<forall>h. depth_ok s h)"
  by (simp add: inv_depth_def depth_ok_def)

lemma pending_nonneg: "0 \<le> pending p"
  by (cases p) auto

lemma depth_pop:
  assumes "pop_off h m = Inr m'" "depth_ok (m, ps) g" "ps h \<noteq> Panicked"
    "pending p = pending (ps h) - 1 \<or> p = Panicked"
  shows "depth_ok (m', ps(h := p)) g"
proof -
  from pop_off_InrD(2) [OF assms(1)] obtain c where
    c: "lock_intr_enable (cpus m h) = Inr c" "cpus m' = (cpus m)(h := c)" by blast
  show ?thesis
  proof (cases "g = h")
    case True
    with assms c lock_intr_enable_InrD [OF c(1)] show ?thesis
      by (auto simp: depth_ok_def held_pop [OF assms(1)])
  next
    case False
    with assms(2) c show ?thesis
      by (auto simp: depth_ok_def held_pop [OF assms(1)])
  qed
qed

lemma depth_push:
  assumes "depth_ok (m, ps) g" "ps h \<noteq> Panicked" "pending p = pending (ps h) + 1"
  shows "depth_ok (push_off h m, ps(h := p)) g"
  using assms by (auto simp: depth_ok_def)

lemma depth_spin:
  assumes "depth_ok (m, ps) g" "ps h \<noteq> Panicked" "ps h = q"
    "lcpu k = lcpu (spin m l)" "pending p = pending q"
  shows "depth_ok (set_spin l k m, ps(h := p)) g"
proof -
  have "held (set_spin l k m) g = held m g"
    using assms(4) by (auto simp: held_def)
  with assms show ?thesis by (auto simp: depth_ok_def)
qed

lemma depth_own:
  assumes "depth_ok (m, ps) g" "ps h = Got l" "lcpu (spin m l) = None" "lcpu k = Some h"
  shows "depth_ok (set_spin l k m, ps(h := Run)) g"
proof -
  have "l \<notin> held m h" and "l \<notin> held m g" using assms(3) by (auto simp: held_def)
  with assms show ?thesis by (auto simp: depth_ok_def held_set_spin)
qed

lemma depth_disown:
  assumes "depth_ok (m, ps) g" "ps h = Owned l" "lcpu (spin m l) = Some h" "lcpu k = None"
  shows "depth_ok (set_spin l k m, ps(h := Clearing l)) g"
proof (cases "g = h")
  case True
  have l: "l \<in> held m h" using assms(3) by (simp add: held_def)
  then have "finite (held m h) \<Longrightarrow> card (held m h) = Suc (card (held m h - {l}))"
    by (metis card.remove)
  with assms True show ?thesis by (auto simp: depth_ok_def held_set_spin)
next
  case False
  then have "l \<notin> held m g" using assms(3) by (simp add: held_def)
  with False assms show ?thesis by (auto simp: depth_ok_def held_set_spin)
qed

lemma depth_ok_step: "mstep s s' \<Longrightarrow> inv_pc s \<Longrightarrow> \<forall>g. depth_ok s g \<Longrightarrow> depth_ok s' g"
proof (induction rule: mstep.induct)
  case (acq_enter ps h m l)
  have "depth_ok (push_off h m, ps(h := Spin l)) g"
    using acq_enter by (intro depth_push) auto
  then have "depth_ok (push_off h (push_off h m), (ps(h := Spin l))(h := AcqTest l r)) g" for r
    by (rule depth_push) auto
  then show ?case by simp
next
  case (acq_test ps h l r m m')
  then show ?case by (intro depth_pop) auto
next
  case (acq_spin ps h l m)
  then have "depth_ok (set_spin l ((spin m l)\<lparr>locked := 1\<rparr>) m, ps(h := Spin l)) g"
    by (intro depth_spin [where q = "Spin l"]) (auto simp: held_def)
  with acq_spin show ?case by (simp add: fun_upd_idem)
next
  case (acq_won ps h l m)
  then show ?case by (intro depth_spin [where q = "Spin l"]) (auto simp: held_def)
next
  case (acq_own ps h l m)
  then show ?case by (intro depth_own) (auto simp: inv_pc_def)
next
  case (rel_enter ps h m l)
  then show ?case by (intro depth_push) auto
next
  case (rel_test ps h l r m m')
  then show ?case by (intro depth_pop) auto
next
  case (rel_disown ps h l m)
  then show ?case by (intro depth_disown) (auto simp: inv_pc_def)
next
  case (rel_clear ps h l m)
  then show ?case by (intro depth_spin [where q = "Clearing l"]) (auto simp: held_def)
next
  case (rel_end ps h m m')
  then show ?case by (intro depth_pop) auto
next
  case (intr_panic ps h l r m e)
  then have "finite (held m g)" for g by (simp add: depth_ok_def)
  with intr_panic show ?case by (auto simp: depth_ok_def held_def)
next
  case (intr_set ps h m b)
  then show ?case by (auto simp: depth_ok_def)
qed

lemma reachable_inv: "reachable s \<Longrightarrow> inv_pc s \<and> inv_own s \<and> inv_depth s"
proof (induction rule: reachable.induct)
  case (reach_boot nms on)
  show ?case
    by (auto simp: boot_def inv_pc_def inv_own_def inv_depth_def held_def owns_def initlock_def)
next
  case (reach_step s s')
  then show ?case by (auto simp: inv_depth_alt intro: inv_pc_step inv_own_step depth_ok_step)
qed

lemma reachable_star: "mstep\<^sup>*\<^sup>* s s' \<Longrightarrow> reachable s \<Longrightarrow> reachable s'"
  by (induction rule: rtranclp_induct) (auto intro: reach_step)

section \<open>The sequential routines are runs of the step relation\<close>

definition cpu_ok :: "cpu \<Rightarrow> bool" where
  "cpu_ok c \<longleftrightarrow> 0 \<le> depth_lock_intr_disable c \<and> (0 < depth_lock_intr_disable c \<longrightarrow> \<not> sie c)"

lemma is_holding_spec:
  assumes "cpu_ok (cpus m h)"
  obtains m' where "is_holding h l m = Inr (locked (spin m l) \<noteq> 0 \<and> lcpu (spin m l) = Some h, m')"
    "pop_off h (push_off h m) = Inr m'"
    "spin m' = spin m" "\<And>g. g \<noteq> h \<Longrightarrow> cpus m' g = cpus m g"
    "depth_lock_intr_disable (cpus m' h) = depth_lock_intr_disable (cpus m h)"
    "sie (cpus m' h) = sie (cpus m h)"
    "0 < depth_lock_intr_disable (cpus m h) \<Longrightarrow> intr_prev_state (cpus m' h) = intr_prev_state (cpus m h)"
proof -
  from pop_push [of "cpus m h"] assms obtain c' where
    c: "lock_intr_enable (lock_intr_disable (cpus m h)) = Inr c'"
      "depth_lock_intr_disable c' = depth_lock_intr_disable (cpus m h)" "sie c' = sie (cpus m h)"
      "0 < depth_lock_intr_disable (cpus m h) \<longrightarrow> intr_prev_state c' = intr_prev_state (cpus m h)"
    by (auto simp: cpu_ok_def)
  then show thesis
    by (intro that [of "set_cpu h c' (push_off h m)"]) (auto simp: is_holding_def Let_def pop_off_def)
qed

lemma cpu_ok_disabled [simp]: "cpu_ok c \<Longrightarrow> cpu_ok (lock_intr_disable c)"
  by (auto simp: cpu_ok_def)

lemma acquire_lock_spec:
  assumes "cpu_ok (cpus m h)" "acquire_lock h l m = Inr m'"
  shows "locked (spin m l) = 0" "spin m' = (spin m)(l := (spin m l)\<lparr>locked := 1, lcpu := Some h\<rparr>)"
    "depth_lock_intr_disable (cpus m' h) = depth_lock_intr_disable (cpus m h) + 1"
    "\<not> sie (cpus m' h)" "\<And>g. g \<noteq> h \<Longrightarrow> cpus m' g = cpus m g"
    "intr_prev_state (cpus m' h) = (if depth_lock_intr_disable (cpus m h) = 0 then sie (cpus m h)
       else intr_prev_state (cpus m h))"
proof -
  have "cpu_ok (cpus (push_off h m) h)" using assms(1) by simp
  then obtain m1 where m1: "is_holding h l (push_off h m)
      = Inr (locked (spin m l) \<noteq> 0 \<and> lcpu (spin m l) = Some h, m1)"
    "spin m1 = spin m" "\<And>g. g \<noteq> h \<Longrightarrow> cpus m1 g = cpus m g"
    "depth_lock_intr_disable (cpus m1 h) = depth_lock_intr_disable (cpus m h) + 1"
    "sie (cpus m1 h) = False"
    "intr_prev_state (cpus m1 h) = intr_prev_state (lock_intr_disable (cpus m h))"
    using assms(1) is_holding_spec [of "push_off h m" h l thesis] by (auto simp: cpu_ok_def)
  have m': "locked (spin m l) = 0"
    "m' = set_spin l ((spin m1 l)\<lparr>locked := 1, lcpu := Some h\<rparr>) m1"
    using assms(2) m1(1,2) by (auto simp: acquire_lock_def split: if_splits)
  then show "locked (spin m l) = 0"
    "spin m' = (spin m)(l := (spin m l)\<lparr>locked := 1, lcpu := Some h\<rparr>)"
    "depth_lock_intr_disable (cpus m' h) = depth_lock_intr_disable (cpus m h) + 1"
    "\<not> sie (cpus m' h)" "\<And>g. g \<noteq> h \<Longrightarrow> cpus m' g = cpus m g"
    "intr_prev_state (cpus m' h) = (if depth_lock_intr_disable (cpus m h) = 0 then sie (cpus m h)
       else intr_prev_state (cpus m h))"
    using m1 by simp_all
qed

lemma acquire_lock_run:
  assumes ok: "cpu_ok (cpus m h)" and acq: "acquire_lock h l m = Inr m'" and run: "ps h = Run"
  shows "mstep\<^sup>*\<^sup>* (m, ps) (m', ps)"
proof -
  have ok': "cpu_ok (cpus (push_off h m) h)" using ok by simp
  from is_holding_spec [OF ok', of l] obtain m1 where
    hold: "is_holding h l (push_off h m) = Inr (locked (spin m l) \<noteq> 0 \<and> lcpu (spin m l) = Some h, m1)"
    and pop: "pop_off h (push_off h (push_off h m)) = Inr m1" and sp: "spin m1 = spin m"
    by (metis push_off_fields(1))
  have l0: "locked (spin m l) = 0" by (rule acquire_lock_spec(1) [OF ok acq])
  have m': "m' = set_spin l ((spin m l)\<lparr>locked := 1, lcpu := Some h\<rparr>) m1"
    using acq hold sp by (auto simp: acquire_lock_def split: if_splits)
  let ?m2 = "set_spin l ((spin m1 l)\<lparr>locked := 1\<rparr>) m1"
  have "mstep\<^sup>*\<^sup>* (m, ps) (push_off h (push_off h m), ps(h := AcqTest l False))"
    using acq_enter [of ps h m l] run l0 by (intro r_into_rtranclp) simp
  also have "mstep (push_off h (push_off h m), ps(h := AcqTest l False)) (m1, ps(h := Spin l))"
    using acq_test [of "ps(h := AcqTest l False)" h l False, OF _ pop] by simp
  also have "mstep (m1, ps(h := Spin l)) (?m2, ps(h := Got l))"
    using acq_won [of "ps(h := Spin l)" h l m1] l0 sp by simp
  also have "mstep (?m2, ps(h := Got l)) (m', ps)"
    using acq_own [of "ps(h := Got l)" h l ?m2] run
    by (simp add: m' sp set_spin_def fun_upd_idem)
  finally show ?thesis .
qed

lemma release_lock_spec:
  assumes "cpu_ok (cpus m h)" "locked (spin m l) \<noteq> 0" "lcpu (spin m l) = Some h"
    "0 < depth_lock_intr_disable (cpus m h)"
  obtains m' where "release_lock h l m = Inr m'"
    "spin m' = (spin m)(l := (spin m l)\<lparr>locked := 0, lcpu := None\<rparr>)"
    "depth_lock_intr_disable (cpus m' h) = depth_lock_intr_disable (cpus m h) - 1"
    "sie (cpus m' h) = (depth_lock_intr_disable (cpus m h) = 1 \<and> intr_prev_state (cpus m h))"
    "\<And>g. g \<noteq> h \<Longrightarrow> cpus m' g = cpus m g"
proof -
  from is_holding_spec [OF assms(1), of l] obtain m1 where m1: "is_holding h l m
      = Inr (locked (spin m l) \<noteq> 0 \<and> lcpu (spin m l) = Some h, m1)"
    "spin m1 = spin m" "\<And>g. g \<noteq> h \<Longrightarrow> cpus m1 g = cpus m g"
    "depth_lock_intr_disable (cpus m1 h) = depth_lock_intr_disable (cpus m h)"
    "sie (cpus m1 h) = sie (cpus m h)" "intr_prev_state (cpus m1 h) = intr_prev_state (cpus m h)"
    using assms(4) by metis
  let ?m2 = "set_spin l ((spin m1 l)\<lparr>lcpu := None, locked := 0\<rparr>) m1"
  have "\<not> sie (cpus ?m2 h)" "0 < depth_lock_intr_disable (cpus ?m2 h)"
    using assms(1,4) m1 by (auto simp: cpu_ok_def)
  then obtain m3 where m3: "pop_off h ?m2 = Inr m3" using pop_off_returns by blast
  from pop_off_InrD [OF m3] obtain c where "spin m3 = spin ?m2"
    "lock_intr_enable (cpus ?m2 h) = Inr c" "cpus m3 = (cpus ?m2)(h := c)" by blast
  with lock_intr_enable_InrD [of "cpus ?m2 h" c] m1 m3 assms show thesis
    by (intro that [of m3]) (auto simp: release_lock_def)
qed

section \<open>Properties\<close>


text \<open>Interrupt discipline: the nesting counter of a hart is the number of locks it holds plus
  the levels of the routine it is in, and interrupts are off on the hart whenever it owns a lock
  or spins for one.\<close>

theorem interrupts_off_in_critical_section:
  assumes "reachable s" "snd s h \<noteq> Panicked"
  shows "depth_lock_intr_disable (cpus (fst s) h) = int (card (held (fst s) h)) + pending (snd s h)
    \<and> (owns s h l \<or> snd s h = Spin l \<longrightarrow> \<not> sie (cpus (fst s) h))"
proof -
  from reachable_inv [OF assms(1)] assms(2)
  have d: "finite (held (fst s) h)"
    "depth_lock_intr_disable (cpus (fst s) h) = int (card (held (fst s) h)) + pending (snd s h)"
    "0 < depth_lock_intr_disable (cpus (fst s) h) \<longrightarrow> \<not> sie (cpus (fst s) h)"
    by (auto simp: inv_depth_def)
  have "0 < depth_lock_intr_disable (cpus (fst s) h)" if "lcpu (spin (fst s) l) = Some h"
  proof -
    from that d(1) have "0 < card (held (fst s) h)" by (auto simp: card_gt_0_iff held_def)
    with d(2) pending_nonneg [of "snd s h"] show ?thesis by simp
  qed
  with d(2,3) show ?thesis by (auto simp: owns_def)
qed

text \<open>The lock routines panic only on misuse: a step that takes a hart into a panic is the
  test of \<^verbatim>\<open>acquire_lock\<close> on a lock the hart already holds, or the test of \<^verbatim>\<open>release_lock\<close> on a
  lock it does not hold. In particular the two panics of \<^verbatim>\<open>lock_intr_enable\<close> never fire and
  releasing a held lock never panics, whatever the other harts do.\<close>

theorem lock_panic_only_on_misuse:
  assumes "reachable s" "mstep s s'" "snd s h \<noteq> Panicked" "snd s' h = Panicked"
  shows "\<exists>l r. snd s h = AcqTest l r \<and> lcpu (spin (fst s) l) = Some h
    \<or> snd s h = RelTest l r \<and> lcpu (spin (fst s) l) \<noteq> Some h"
proof -
  have inv: "inv_pc s" "inv_depth s" using reachable_inv [OF assms(1)] by auto
  have pop: "\<exists>m'. pop_off g (fst s) = Inr m'" if "0 < pending (snd s g)" for g
  proof (rule pop_off_returns)
    have "snd s g \<noteq> Panicked" using that by auto
    with inv(2) that show "0 < depth_lock_intr_disable (cpus (fst s) g)"
      and "\<not> sie (cpus (fst s) g)" by (auto simp: inv_depth_def)
  qed
  from assms(2) show ?thesis
  proof cases
    case (rel_test ps g l r m m')
    then show ?thesis using assms(3,4) inv(1) by (cases r) (auto simp: inv_pc_def split: if_splits)
  next
    case (intr_panic ps g l r m e)
    then have "0 < pending (snd s g)" by auto
    with pop [of g] intr_panic show ?thesis by auto
  qed (use assms(3,4) in \<open>auto split: if_splits\<close>)
qed

text \<open>\<^verbatim>\<open>acquire_lock\<close> followed by \<^verbatim>\<open>release_lock\<close>: on a hart whose counter and interrupt
  bit are consistent the pair gives back the interrupt state and the nesting depth it found and
  leaves the lock free, and the acquisition is a run of the interleaved step relation.\<close>

theorem acquire_release_restores:
  assumes "cpu_ok (cpus m h)" "acquire_lock h l m = Inr m'"
  shows "\<exists>m''. release_lock h l m' = Inr m''
    \<and> sie (cpus m'' h) = sie (cpus m h)
    \<and> depth_lock_intr_disable (cpus m'' h) = depth_lock_intr_disable (cpus m h)
    \<and> spin m'' = (spin m)(l := (spin m l)\<lparr>locked := 0, lcpu := None\<rparr>)
    \<and> (\<forall>ps. ps h = Run \<longrightarrow> mstep\<^sup>*\<^sup>* (m, ps) (m', ps))"
proof -
  note a = acquire_lock_spec [OF assms]
  have "cpu_ok (cpus m' h)" using assms(1) a by (auto simp: cpu_ok_def)
  moreover have "0 < depth_lock_intr_disable (cpus m' h)" using assms(1) a by (auto simp: cpu_ok_def)
  ultimately obtain m'' where r: "release_lock h l m' = Inr m''"
    "spin m'' = (spin m')(l := (spin m' l)\<lparr>locked := 0, lcpu := None\<rparr>)"
    "depth_lock_intr_disable (cpus m'' h) = depth_lock_intr_disable (cpus m' h) - 1"
    "sie (cpus m'' h) = (depth_lock_intr_disable (cpus m' h) = 1 \<and> intr_prev_state (cpus m' h))"
    using a by (elim release_lock_spec [of m' h l]) auto
  moreover have "sie (cpus m'' h) = sie (cpus m h)" using a r assms(1) by (auto simp: cpu_ok_def)
  ultimately show ?thesis using a acquire_lock_run [OF assms] by auto
qed

subsection \<open>Witnesses\<close>

definition boot1 :: config where
  "boot1 = boot (\<lambda>l. ''lk'') (\<lambda>h. True)"

definition locked1 :: machine where
  "locked1 = (case acquire_lock 0 7 (fst boot1) of Inr m \<Rightarrow> m | Inl _ \<Rightarrow> fst boot1)"

lemma acquire_boot1: "acquire_lock 0 7 (fst boot1) = Inr locked1"
  by (simp add: locked1_def boot1_def boot_def acquire_lock_def is_holding_def pop_off_def
      push_off_def lock_intr_enable_def lock_intr_disable_def set_cpu_def initlock_def)

lemma cpu_ok_boot1: "cpu_ok (cpus (fst boot1) h)"
  by (simp add: boot1_def boot_def cpu_ok_def)

lemma reachable_locked1: "reachable (locked1, snd boot1)"
proof (rule reachable_star)
  show "mstep\<^sup>*\<^sup>* (fst boot1, snd boot1) (locked1, snd boot1)"
    by (rule acquire_lock_run [OF cpu_ok_boot1 acquire_boot1]) (simp add: boot1_def boot_def)
  show "reachable (fst boot1, snd boot1)" by (simp add: boot1_def reach_boot)
qed

lemma locked1_lock: "lcpu (spin locked1 7) = Some 0"
  using acquire_lock_spec(2) [OF cpu_ok_boot1 acquire_boot1] by simp


theorem interrupts_off_in_critical_section_witness:
  "\<not> sie (cpus locked1 0) \<and> depth_lock_intr_disable (cpus locked1 0) = int (card (held locked1 0))"
  using interrupts_off_in_critical_section [OF reachable_locked1, of 0 7] locked1_lock
  by (simp add: owns_def boot1_def boot_def)

theorem lock_panic_only_on_misuse_witness:
  "\<exists>s s'. reachable s \<and> mstep s s' \<and> snd s' 0 = Panicked \<and> lcpu (spin (fst s) 7) = Some 0"
proof -
  let ?m = "push_off 0 (push_off 0 locked1)" and ?ps = "(snd boot1)(0 := AcqTest 7 True)"
  have lk: "locked (spin locked1 7) \<noteq> 0"
    using acquire_lock_spec(2) [OF cpu_ok_boot1 acquire_boot1] by simp
  have 1: "mstep (locked1, snd boot1) (?m, ?ps)"
    using acq_enter [of "snd boot1" 0 locked1 7] lk by (simp add: boot1_def boot_def)
  have r: "reachable (?m, ?ps)" by (rule reach_step [OF reachable_locked1 1])
  have "cpu_ok (cpus (push_off 0 locked1) 0)"
    using acquire_lock_spec(3,4) [OF cpu_ok_boot1 acquire_boot1] cpu_ok_boot1 [of 0]
    by (simp add: cpu_ok_def)
  then obtain m' where "pop_off 0 ?m = Inr m'" by (rule is_holding_spec)
  then have 2: "mstep (?m, ?ps) (m', ?ps(0 := Panicked))"
    using acq_test [of ?ps 0 7 True ?m m'] locked1_lock by simp
  have "snd (?m, ?ps) 0 \<noteq> Panicked" and "snd (m', ?ps(0 := Panicked)) 0 = Panicked" by simp_all
  from lock_panic_only_on_misuse [OF r 2 this] have "lcpu (spin (fst (?m, ?ps)) 7) = Some 0" by simp
  with r 2 show ?thesis by (intro exI [of _ "(?m, ?ps)"] exI [of _ "(m', ?ps(0 := Panicked))"]) simp
qed

theorem acquire_release_restores_witness:
  "\<exists>m''. release_lock 0 7 locked1 = Inr m'' \<and> sie (cpus m'' 0)
    \<and> depth_lock_intr_disable (cpus m'' 0) = 0"
  using acquire_release_restores [OF cpu_ok_boot1 acquire_boot1] by (auto simp: boot1_def boot_def)

end
