(* ===== verification/Bufcache.thy ===== *)
theory Bufcache
  imports Locks
begin

text \<open>
  \<^verbatim>\<open>kernel/bufcache.c\<close>: the block cache. A \<^verbatim>\<open>struct buffer *\<close> is an index into \<open>bufs\<close>: 0 to 29 are
  \<^verbatim>\<open>buffer_cache.buffer[i]\<close> and 30 is \<^verbatim>\<open>buffer_cache.list_head\<close>, which follows the array in
  memory. The \<^verbatim>\<open>prev\<close>/\<^verbatim>\<open>next\<close> pointers are kept as they are; \<open>lru\<close> below says which list
  they spell. The disk is a function from block numbers to blocks: the driver's
  \<^verbatim>\<open>disk_read_write\<close> looks only at \<^verbatim>\<open>blockno\<close>, and a call returns when the transfer is done.
  The cache's spin lock is released on every path. A walk over the list gets as fuel the
  number of nodes; \<open>find_next_lru\<close> and \<open>find_prev_lru\<close> show that it is never used up.
\<close>

section \<open>State\<close>

abbreviation "NUMBUF \<equiv> 30 :: nat"
abbreviation "LIST_HEAD \<equiv> 30 :: nat"
abbreviation "BUFFER_SIZE \<equiv> 1024 :: nat"

record buffer =
  b_valid :: u32
  b_dev :: u32
  b_blockno :: u32
  b_lock :: sleeplock
  b_refcount :: u32
  b_prev :: nat
  b_next :: nat
  b_data :: "byte list"

record bcache =
  bufs :: "buffer list"
  disk :: "u32 \<Rightarrow> byte list"

definition upd_buf :: "nat \<Rightarrow> (buffer \<Rightarrow> buffer) \<Rightarrow> bcache \<Rightarrow> bcache" where
  "upd_buf i f bc = bc\<lparr>bufs := (bufs bc)[i := f (bufs bc ! i)]\<rparr>"

definition set_next :: "nat \<Rightarrow> nat \<Rightarrow> bcache \<Rightarrow> bcache" where
  "set_next i j = upd_buf i (\<lambda>b. b\<lparr>b_next := j\<rparr>)"

definition set_prev :: "nat \<Rightarrow> nat \<Rightarrow> bcache \<Rightarrow> bcache" where
  "set_prev i j = upd_buf i (\<lambda>b. b\<lparr>b_prev := j\<rparr>)"

definition nextof :: "bcache \<Rightarrow> nat \<Rightarrow> nat" where
  "nextof bc i = b_next (bufs bc ! i)"

definition prevof :: "bcache \<Rightarrow> nat \<Rightarrow> nat" where
  "prevof bc i = b_prev (bufs bc ! i)"

section \<open>Operations\<close>

text \<open>Linking a buffer in front of the list: the four stores that \<^verbatim>\<open>buffer_init\<close> and
  \<^verbatim>\<open>buffer_release\<close> share.\<close>

definition link_front :: "nat \<Rightarrow> bcache \<Rightarrow> bcache" where
  "link_front i bc =
     (let bc = set_next i (nextof bc LIST_HEAD) bc;
          bc = set_prev i LIST_HEAD bc;
          bc = set_prev (nextof bc LIST_HEAD) i bc
      in set_next LIST_HEAD i bc)"

definition buffer_init_step :: "bcache \<Rightarrow> nat \<Rightarrow> bcache" where
  "buffer_init_step bc i =
     link_front i (upd_buf i (\<lambda>b. b\<lparr>b_lock := initsleeplock ''buffer_lock''\<rparr>) bc)"

definition buffer_init :: "bcache \<Rightarrow> bcache" where
  "buffer_init bc =
     (let bc = set_prev LIST_HEAD LIST_HEAD bc;
          bc = set_next LIST_HEAD LIST_HEAD bc
      in foldl buffer_init_step bc [0..<NUMBUF])"

fun find_next :: "(buffer \<Rightarrow> bool) \<Rightarrow> nat \<Rightarrow> nat \<Rightarrow> bcache \<Rightarrow> nat option res" where
  "find_next P 0 i bc = Inl Diverges"
| "find_next P (Suc fuel) i bc =
     (if i = LIST_HEAD then Inr None
      else if P (bufs bc ! i) then Inr (Some i)
      else find_next P fuel (nextof bc i) bc)"

fun find_prev :: "(buffer \<Rightarrow> bool) \<Rightarrow> nat \<Rightarrow> nat \<Rightarrow> bcache \<Rightarrow> nat option res" where
  "find_prev P 0 i bc = Inl Diverges"
| "find_prev P (Suc fuel) i bc =
     (if i = LIST_HEAD then Inr None
      else if P (bufs bc ! i) then Inr (Some i)
      else find_prev P fuel (prevof bc i) bc)"

definition lock_buf :: "int \<Rightarrow> nat \<Rightarrow> bcache \<Rightarrow> (nat \<times> bcache) res" where
  "lock_buf pid i bc =
     rbind (acquire_sleeplock pid (b_lock (bufs bc ! i)))
       (\<lambda>k. Inr (i, upd_buf i (\<lambda>b. b\<lparr>b_lock := k\<rparr>) bc))"

definition buffer_get :: "int \<Rightarrow> u32 \<Rightarrow> u32 \<Rightarrow> bcache \<Rightarrow> (nat \<times> bcache) res" where
  "buffer_get pid dev blockno bc =
     rbind (find_next (\<lambda>b. b_dev b = dev \<and> b_blockno b = blockno) (Suc NUMBUF) (nextof bc LIST_HEAD) bc)
       (\<lambda>hit. case hit of
          Some i \<Rightarrow> lock_buf pid i (upd_buf i (\<lambda>b. b\<lparr>b_refcount := b_refcount b + 1\<rparr>) bc)
        | None \<Rightarrow>
            rbind (find_prev (\<lambda>b. b_refcount b = 0) (Suc NUMBUF) (prevof bc LIST_HEAD) bc)
              (\<lambda>victim. case victim of
                 Some i \<Rightarrow> lock_buf pid i (upd_buf i (\<lambda>b. b\<lparr>b_valid := 0, b_dev := dev,
                              b_blockno := blockno, b_refcount := 1\<rparr>) bc)
               | None \<Rightarrow> Inl (Panic ''buffer_get, no buffers'')))"

definition disk_read_write :: "nat \<Rightarrow> bool \<Rightarrow> bcache \<Rightarrow> bcache" where
  "disk_read_write i wr bc =
     (if wr then bc\<lparr>disk := (disk bc)(b_blockno (bufs bc ! i) := b_data (bufs bc ! i))\<rparr>
      else upd_buf i (\<lambda>b. b\<lparr>b_data := disk bc (b_blockno b)\<rparr>) bc)"

definition buffer_read :: "int \<Rightarrow> u32 \<Rightarrow> u32 \<Rightarrow> bcache \<Rightarrow> (nat \<times> bcache) res" where
  "buffer_read pid dev blockno bc =
     rbind (buffer_get pid dev blockno bc) (\<lambda>(i, bc).
       if b_valid (bufs bc ! i) = 0
       then Inr (i, upd_buf i (\<lambda>b. b\<lparr>b_valid := 1\<rparr>) (disk_read_write i False bc))
       else Inr (i, bc))"

definition buffer_write :: "int \<Rightarrow> nat \<Rightarrow> bcache \<Rightarrow> bcache res" where
  "buffer_write pid i bc =
     (if \<not> is_holding_sleeplock pid (b_lock (bufs bc ! i)) then Inl (Panic ''buffer_write'')
      else Inr (disk_read_write i True bc))"

definition unlink :: "nat \<Rightarrow> bcache \<Rightarrow> bcache" where
  "unlink i bc =
     (let bc = set_prev (nextof bc i) (prevof bc i) bc
      in set_next (prevof bc i) (nextof bc i) bc)"

definition buffer_release :: "int \<Rightarrow> nat \<Rightarrow> bcache \<Rightarrow> bcache res" where
  "buffer_release pid i bc =
     (if \<not> is_holding_sleeplock pid (b_lock (bufs bc ! i))
      then Inl (Panic ''buffer_release, not holding lock'')
      else let bc = upd_buf i (\<lambda>b. b\<lparr>b_lock := release_sleeplock (b_lock b)\<rparr>) bc;
               bc = upd_buf i (\<lambda>b. b\<lparr>b_refcount := b_refcount b - 1\<rparr>) bc
           in Inr (if b_refcount (bufs bc ! i) = 0 then link_front i (unlink i bc) else bc))"

definition inc_buf_refcount :: "nat \<Rightarrow> bcache \<Rightarrow> bcache" where
  "inc_buf_refcount i = upd_buf i (\<lambda>b. b\<lparr>b_refcount := b_refcount b + 1\<rparr>)"

definition dec_buf_refcount :: "nat \<Rightarrow> bcache \<Rightarrow> bcache" where
  "dec_buf_refcount i = upd_buf i (\<lambda>b. b\<lparr>b_refcount := b_refcount b - 1\<rparr>)"

section \<open>The linked list\<close>

text \<open>\<open>chain nx pv zs\<close>: the pointers lead from each node of \<open>zs\<close> to the following one and back.\<close>

fun chain :: "(nat \<Rightarrow> nat) \<Rightarrow> (nat \<Rightarrow> nat) \<Rightarrow> nat list \<Rightarrow> bool" where
  "chain nx pv (x # y # zs) \<longleftrightarrow> nx x = y \<and> pv y = x \<and> chain nx pv (y # zs)"
| "chain nx pv zs \<longleftrightarrow> True"

definition lru :: "bcache \<Rightarrow> nat list \<Rightarrow> bool" where
  "lru bc xs \<longleftrightarrow> length (bufs bc) = Suc NUMBUF \<and> distinct xs \<and> set xs = {0..<NUMBUF}
     \<and> chain (nextof bc) (prevof bc) (LIST_HEAD # xs @ [LIST_HEAD])"

lemma chain_append:
  "chain nx pv (xs @ y # zs) \<longleftrightarrow> chain nx pv (xs @ [y]) \<and> chain nx pv (y # zs)"
proof (induction xs)
  case (Cons x xs)
  then show ?case by (cases xs) auto
qed simp

lemma chain_Cons: "zs \<noteq> [] \<Longrightarrow> chain nx pv (x # zs) \<longleftrightarrow> nx x = hd zs \<and> pv (hd zs) = x \<and> chain nx pv zs"
  by (cases zs) auto

lemma chain_snoc: "zs \<noteq> [] \<Longrightarrow> chain nx pv (zs @ [x]) \<longleftrightarrow> nx (last zs) = x \<and> pv x = last zs \<and> chain nx pv zs"
  by (induction zs rule: induct_list012) auto

lemma chain_cong:
  assumes "\<And>x. x \<in> set (butlast zs) \<Longrightarrow> nx' x = nx x" "\<And>x. x \<in> set (tl zs) \<Longrightarrow> pv' x = pv x"
  shows "chain nx' pv' zs = chain nx pv zs"
  using assms by (induction zs rule: induct_list012) auto

lemma chain_rev: "chain nx pv zs \<Longrightarrow> chain pv nx (rev zs)"
proof (induction zs rule: induct_list012)
  case (3 x y zs)
  then show ?case by (simp add: chain_append [of _ _ "rev zs" y "[x]"])
qed auto

text \<open>Linking in front, and unlinking from anywhere, on the two pointer functions.\<close>

lemma chain_link_front:
  assumes "chain nx pv (h # xs @ [h])" "distinct (h # xs)" "i \<notin> set (h # xs)"
  shows "chain ((nx(i := nx h))(h := i)) ((pv(i := h))(nx h := i)) (h # i # xs @ [h])"
proof -
  have nh: "nx h = hd (xs @ [h])" using assms(1) by (simp add: chain_Cons)
  have i: "i \<noteq> h" "i \<notin> set (xs @ [h])" using assms(3) by auto
  then have "i \<noteq> nx h" using nh by (metis hd_in_set snoc_eq_iff_butlast)
  moreover have "chain ((nx(i := nx h))(h := i)) ((pv(i := h))(nx h := i)) (xs @ [h])
      = chain nx pv (xs @ [h])"
  proof (rule chain_cong)
    fix x assume "x \<in> set (butlast (xs @ [h]))"
    then show "((nx(i := nx h))(h := i)) x = nx x" using assms(2,3) by auto
  next
    fix x assume x: "x \<in> set (tl (xs @ [h]))"
    then have "x \<noteq> nx h" using nh assms(2) by (cases xs) auto
    moreover have "x \<noteq> i" using x i(2) list.set_sel(2) by (metis tl_Nil)
    ultimately show "((pv(i := h))(nx h := i)) x = pv x" by simp
  qed
  ultimately show ?thesis
    using assms(1) i nh by (simp add: chain_Cons)
qed

lemma chain_unlink:
  assumes "chain nx pv (h # us @ i # vs @ [h])" "distinct (h # us @ i # vs)"
  shows "chain (nx(pv i := nx i)) (pv(nx i := pv i)) (h # us @ vs @ [h])"
proof -
  let ?nx = "nx(pv i := nx i)" and ?pv = "pv(nx i := pv i)"
  have c: "chain nx pv ((h # us) @ [i])" "chain nx pv (i # vs @ [h])"
    using assms(1) chain_append [of nx pv "h # us" i "vs @ [h]"] by auto
  have p: "pv i = last (h # us)" "chain nx pv (h # us)" using c(1) chain_snoc [of "h # us"] by auto
  have n: "nx i = hd (vs @ [h])" "chain nx pv (vs @ [h])" using c(2) chain_Cons [of "vs @ [h]"] by auto
  have "chain ?nx ?pv (h # us) = chain nx pv (h # us)"
  proof (rule chain_cong)
    fix x assume "x \<in> set (butlast (h # us))"
    then have "x \<noteq> last (h # us)" using assms(2)
      by (metis append_butlast_last_id distinct_append list.discI not_distinct_conv_prefix
          distinct.simps(2) append_Cons)
    then show "?nx x = nx x" by (simp add: p(1))
  next
    fix x assume "x \<in> set (tl (h # us))"
    then have "x \<noteq> hd (vs @ [h])" using assms(2) by (cases vs) auto
    then show "?pv x = pv x" by (simp add: n(1))
  qed
  moreover have "chain ?nx ?pv (vs @ [h]) = chain nx pv (vs @ [h])"
  proof (rule chain_cong)
    fix x assume "x \<in> set (butlast (vs @ [h]))"
    then have "x \<in> set vs" by simp
    then have "x \<noteq> last (h # us)" using assms(2) by (metis Int_iff append_Cons distinct_append empty_iff
          last_in_set list.discI list.set_intros(2))
    then show "?nx x = nx x" by (simp add: p(1))
  next
    fix x assume "x \<in> set (tl (vs @ [h]))"
    then have "x \<noteq> hd (vs @ [h])" using assms(2) by (cases vs) auto
    then show "?pv x = pv x" by (simp add: n(1))
  qed
  moreover have "?nx (last (h # us)) = hd (vs @ [h])" "?pv (hd (vs @ [h])) = last (h # us)"
    using p n by simp_all
  moreover have "chain ?nx ?pv ((h # us) @ hd (vs @ [h]) # tl (vs @ [h])) =
    (chain ?nx ?pv ((h # us) @ [hd (vs @ [h])]) \<and> chain ?nx ?pv (hd (vs @ [h]) # tl (vs @ [h])))"
    by (rule chain_append)
  ultimately show ?thesis
    using p(2) n(2) chain_snoc [of "h # us" ?nx ?pv "hd (vs @ [h])"] by simp
qed

text \<open>The list operations on the cache.\<close>

lemma length_upd_buf [simp]: "length (bufs (upd_buf i f bc)) = length (bufs bc)"
  by (simp add: upd_buf_def)

lemma nth_upd_buf: "bufs (upd_buf i f bc) ! j
    = (if j = i \<and> i < length (bufs bc) then f (bufs bc ! i) else bufs bc ! j)"
  by (auto simp: upd_buf_def nth_list_update_cases)

lemma disk_upd_buf [simp]: "disk (upd_buf i f bc) = disk bc"
  by (simp add: upd_buf_def)

text \<open>A field that an update does not touch.\<close>

lemma nth_upd_field: "(\<And>b. g (f b) = g b) \<Longrightarrow> g (bufs (upd_buf i f bc) ! j) = g (bufs bc ! j)"
  by (simp add: nth_upd_buf)

lemma nextof_set [simp]:
  "i < length (bufs bc) \<Longrightarrow> nextof (set_next i v bc) = (nextof bc)(i := v)"
  "nextof (set_prev i v bc) = nextof bc"
  by (auto simp: nextof_def prevof_def set_next_def set_prev_def nth_upd_buf)

lemma prevof_set [simp]:
  "i < length (bufs bc) \<Longrightarrow> prevof (set_prev i v bc) = (prevof bc)(i := v)"
  "prevof (set_next i v bc) = prevof bc"
  by (auto simp: nextof_def prevof_def set_next_def set_prev_def nth_upd_buf)

lemma length_set [simp]:
  "length (bufs (set_next i v bc)) = length (bufs bc)"
  "length (bufs (set_prev i v bc)) = length (bufs bc)"
  by (simp_all add: set_next_def set_prev_def)

lemma length_link_ops [simp]:
  "length (bufs (link_front i bc)) = length (bufs bc)"
  "length (bufs (unlink i bc)) = length (bufs bc)"
  by (simp_all add: link_front_def unlink_def Let_def)

text \<open>Relinking changes nothing but the two pointers of a buffer.\<close>

definition core :: "buffer \<Rightarrow> buffer" where
  "core b = b\<lparr>b_next := 0, b_prev := 0\<rparr>"

definition same_but_links :: "bcache \<Rightarrow> bcache \<Rightarrow> bool" where
  "same_but_links bc bc' \<longleftrightarrow> length (bufs bc') = length (bufs bc) \<and> disk bc' = disk bc
     \<and> (\<forall>j. core (bufs bc' ! j) = core (bufs bc ! j))"

lemma same_but_links_trans: "same_but_links bc bc1 \<Longrightarrow> same_but_links bc1 bc2 \<Longrightarrow> same_but_links bc bc2"
  by (simp add: same_but_links_def)

lemma same_but_links_set: "same_but_links bc (set_next i v bc)" "same_but_links bc (set_prev i v bc)"
  by (simp_all add: same_but_links_def set_next_def set_prev_def nth_upd_buf core_def)

lemma same_but_links_ops: "same_but_links bc (link_front i bc)" "same_but_links bc (unlink i bc)"
  by (simp_all add: link_front_def unlink_def Let_def same_but_links_def set_next_def set_prev_def
      nth_upd_buf core_def)

lemma same_but_links_fields:
  assumes "same_but_links bc bc'"
  shows "b_valid (bufs bc' ! j) = b_valid (bufs bc ! j)" "b_dev (bufs bc' ! j) = b_dev (bufs bc ! j)"
    "b_blockno (bufs bc' ! j) = b_blockno (bufs bc ! j)" "b_lock (bufs bc' ! j) = b_lock (bufs bc ! j)"
    "b_refcount (bufs bc' ! j) = b_refcount (bufs bc ! j)" "b_data (bufs bc' ! j) = b_data (bufs bc ! j)"
    "length (bufs bc') = length (bufs bc)" "disk bc' = disk bc"
proof -
  have "core (bufs bc' ! j) = core (bufs bc ! j)" using assms by (simp add: same_but_links_def)
  from arg_cong [OF this, of b_valid] arg_cong [OF this, of b_dev] arg_cong [OF this, of b_blockno]
    arg_cong [OF this, of b_lock] arg_cong [OF this, of b_refcount] arg_cong [OF this, of b_data]
  show "b_valid (bufs bc' ! j) = b_valid (bufs bc ! j)" "b_dev (bufs bc' ! j) = b_dev (bufs bc ! j)"
    "b_blockno (bufs bc' ! j) = b_blockno (bufs bc ! j)" "b_lock (bufs bc' ! j) = b_lock (bufs bc ! j)"
    "b_refcount (bufs bc' ! j) = b_refcount (bufs bc ! j)" "b_data (bufs bc' ! j) = b_data (bufs bc ! j)"
    by (simp_all add: core_def)
qed (use assms in \<open>simp_all add: same_but_links_def\<close>)

lemma lru_range: "lru bc xs \<Longrightarrow> x \<in> set xs \<Longrightarrow> x < NUMBUF"
  by (simp add: lru_def)

lemma chain_next_range:
  "chain nx pv (h # xs @ [h]) \<Longrightarrow> nx h \<in> set (xs @ [h])"
  by (cases xs) auto

lemma link_front_chain:
  assumes "chain (nextof bc) (prevof bc) (LIST_HEAD # xs @ [LIST_HEAD])" "distinct (LIST_HEAD # xs)"
    "i \<notin> set (LIST_HEAD # xs)" "length (bufs bc) = Suc NUMBUF" "i < NUMBUF" "\<forall>x\<in>set xs. x < NUMBUF"
  shows "chain (nextof (link_front i bc)) (prevof (link_front i bc)) (LIST_HEAD # i # xs @ [LIST_HEAD])"
proof -
  have n: "nextof bc LIST_HEAD < Suc NUMBUF"
    using chain_next_range [OF assms(1)] assms(6) by auto
  have ih: "i \<noteq> LIST_HEAD" using assms(3) by simp
  let ?bc1 = "set_prev i LIST_HEAD (set_next i (nextof bc LIST_HEAD) bc)"
  have h: "nextof ?bc1 LIST_HEAD = nextof bc LIST_HEAD" using ih assms(4,5) by simp
  have "nextof (link_front i bc) = ((nextof bc)(i := nextof bc LIST_HEAD))(LIST_HEAD := i)"
    "prevof (link_front i bc) = ((prevof bc)(i := LIST_HEAD))(nextof bc LIST_HEAD := i)"
    using assms(4,5) n ih by (simp_all add: link_front_def Let_def h del: One_nat_def)
  with chain_link_front [OF assms(1-3)] show ?thesis by simp
qed

lemma unlink_chain:
  assumes "chain (nextof bc) (prevof bc) (LIST_HEAD # us @ i # vs @ [LIST_HEAD])"
    "distinct (LIST_HEAD # us @ i # vs)" "length (bufs bc) = Suc NUMBUF" "\<forall>x\<in>set (us @ i # vs). x < NUMBUF"
  shows "chain (nextof (unlink i bc)) (prevof (unlink i bc)) (LIST_HEAD # us @ vs @ [LIST_HEAD])"
proof -
  have c: "chain (nextof bc) (prevof bc) ((LIST_HEAD # us) @ [i])"
    "chain (nextof bc) (prevof bc) (i # vs @ [LIST_HEAD])"
    using assms(1) chain_append [of _ _ "LIST_HEAD # us" i "vs @ [LIST_HEAD]"] by auto
  have p: "prevof bc i \<in> set (LIST_HEAD # us)"
    using c(1) chain_snoc [of "LIST_HEAD # us" "nextof bc" "prevof bc" i] by (metis last_in_set list.discI)
  have n: "nextof bc i \<in> set (vs @ [LIST_HEAD])" using c(2) by (cases vs) auto
  have "prevof bc i = LIST_HEAD \<or> prevof bc i < NUMBUF" "nextof bc i = LIST_HEAD \<or> nextof bc i < NUMBUF"
    using p n assms(4) by auto
  then have lt: "prevof bc i < Suc NUMBUF" "nextof bc i < Suc NUMBUF" by linarith+
  have "i \<notin> set (vs @ [LIST_HEAD])" using assms(2) by auto
  with n have "nextof bc i \<noteq> i" by metis
  with lt assms(3) have "nextof (unlink i bc) = (nextof bc)(prevof bc i := nextof bc i)"
    "prevof (unlink i bc) = (prevof bc)(nextof bc i := prevof bc i)"
    by (simp_all add: unlink_def Let_def)
  with chain_unlink [OF assms(1,2)] show ?thesis by simp
qed

text \<open>Moving a buffer to the front keeps the order of the others.\<close>

lemma lru_move_front:
  assumes "lru bc xs" "i < NUMBUF"
  shows "lru (link_front i (unlink i bc)) (i # remove1 i xs)"
proof -
  have "i \<in> set xs" using assms by (simp add: lru_def)
  then obtain us vs where xs: "xs = us @ i # vs" "i \<notin> set us" by (meson split_list_first)
  have l: "length (bufs bc) = Suc NUMBUF" "distinct xs" "set xs = {0..<NUMBUF}"
    "chain (nextof bc) (prevof bc) (LIST_HEAD # us @ i # vs @ [LIST_HEAD])"
    using assms(1) xs(1) by (auto simp: lru_def)
  have d: "distinct (LIST_HEAD # us @ i # vs)" using l(2,3) xs(1) by auto
  have "chain (nextof (unlink i bc)) (prevof (unlink i bc)) (LIST_HEAD # (us @ vs) @ [LIST_HEAD])"
    using unlink_chain [OF l(4) d l(1)] l(3) xs(1) by (metis append_assoc atLeastLessThan_iff)
  then have "chain (nextof (link_front i (unlink i bc))) (prevof (link_front i (unlink i bc)))
      (LIST_HEAD # i # (us @ vs) @ [LIST_HEAD])"
    by (rule link_front_chain) (use d l xs assms(2) in auto)
  moreover have "remove1 i xs = us @ vs" using xs by (simp add: remove1_append)
  moreover have "set (i # us @ vs) = {0..<NUMBUF}" using l(3) xs(1) by auto
  ultimately show ?thesis using d l(1) by (auto simp: lru_def)
qed

text \<open>The walks find what a search of the list finds, in either direction.\<close>

lemma find_next_chain:
  assumes "chain (nextof bc) (prevof bc) (x # xs @ [LIST_HEAD])" "\<forall>y\<in>set xs. y \<noteq> LIST_HEAD"
    "length xs < fuel"
  shows "find_next P fuel (nextof bc x) bc = Inr (find (\<lambda>i. P (bufs bc ! i)) xs)"
  using assms
proof (induction xs arbitrary: x fuel)
  case Nil
  then show ?case by (cases fuel) auto
next
  case (Cons y ys)
  then obtain f where f: "fuel = Suc f" "length ys < f" by (cases fuel) auto
  with Cons show ?case by auto
qed

lemma find_prev_chain:
  assumes "chain (prevof bc) (nextof bc) (x # xs @ [LIST_HEAD])" "\<forall>y\<in>set xs. y \<noteq> LIST_HEAD"
    "length xs < fuel"
  shows "find_prev P fuel (prevof bc x) bc = Inr (find (\<lambda>i. P (bufs bc ! i)) xs)"
  using assms
proof (induction xs arbitrary: x fuel)
  case Nil
  then show ?case by (cases fuel) auto
next
  case (Cons y ys)
  then obtain f where f: "fuel = Suc f" "length ys < f" by (cases fuel) auto
  with Cons show ?case by auto
qed

lemma lru_length: "lru bc xs \<Longrightarrow> length xs = NUMBUF"
  by (metis lru_def card_atLeastLessThan diff_zero distinct_card)

lemma find_next_lru:
  assumes "lru bc xs"
  shows "find_next P (Suc NUMBUF) (nextof bc LIST_HEAD) bc = Inr (find (\<lambda>i. P (bufs bc ! i)) xs)"
  by (rule find_next_chain) (use assms lru_length [OF assms] in \<open>auto simp: lru_def\<close>)

lemma find_prev_lru:
  assumes "lru bc xs"
  shows "find_prev P (Suc NUMBUF) (prevof bc LIST_HEAD) bc = Inr (find (\<lambda>i. P (bufs bc ! i)) (rev xs))"
proof -
  have "chain (prevof bc) (nextof bc) (rev (LIST_HEAD # xs @ [LIST_HEAD]))"
    using assms by (intro chain_rev) (simp add: lru_def)
  then show ?thesis
    by (intro find_prev_chain) (use assms lru_length [OF assms] in \<open>auto simp: lru_def\<close>)
qed

text \<open>Updates that keep the pointers keep the list.\<close>

lemma lru_upd:
  assumes "lru bc xs" "\<And>b. b_next (f b) = b_next b" "\<And>b. b_prev (f b) = b_prev b"
  shows "lru (upd_buf i f bc) xs"
proof -
  have "nextof (upd_buf i f bc) = nextof bc" "prevof (upd_buf i f bc) = prevof bc"
    using assms(2,3) by (auto simp: nextof_def prevof_def nth_upd_buf)
  with assms(1) show ?thesis by (simp add: lru_def)
qed

lemma buffer_init_fold:
  assumes "k \<le> NUMBUF" "length (bufs bc) = Suc NUMBUF"
    "nextof bc LIST_HEAD = LIST_HEAD" "prevof bc LIST_HEAD = LIST_HEAD"
  shows "let bc' = foldl buffer_init_step bc [0..<k] in length (bufs bc') = Suc NUMBUF
    \<and> chain (nextof bc') (prevof bc') (LIST_HEAD # rev [0..<k] @ [LIST_HEAD])"
  using assms(1)
proof (induction k)
  case 0
  then show ?case using assms(2-4) by simp
next
  case (Suc k)
  let ?bc = "foldl buffer_init_step bc [0..<k]"
  let ?bc1 = "upd_buf k (\<lambda>b. b\<lparr>b_lock := initsleeplock ''buffer_lock''\<rparr>) ?bc"
  from Suc have IH: "length (bufs ?bc) = Suc NUMBUF"
    "chain (nextof ?bc) (prevof ?bc) (LIST_HEAD # rev [0..<k] @ [LIST_HEAD])" by (auto simp: Let_def)
  have "nextof ?bc1 = nextof ?bc" "prevof ?bc1 = prevof ?bc"
    by (auto simp: nextof_def prevof_def nth_upd_buf)
  with IH Suc.prems have "chain (nextof (link_front k ?bc1)) (prevof (link_front k ?bc1))
      (LIST_HEAD # k # rev [0..<k] @ [LIST_HEAD])"
    by (intro link_front_chain) auto
  with IH(1) show ?case by (simp add: Let_def buffer_init_step_def [of ?bc k])
qed

section \<open>The cache invariant\<close>

text \<open>The kernel has one disk, device \<open>ROOTDEV\<close>, and the driver ignores \<^verbatim>\<open>b->dev\<close>, so the
  statements are about that device; the device number 0 marks a buffer that was never used.
  \<open>cached bc blk i\<close>: buffer \<open>i\<close> has the identity of block \<open>blk\<close>. \<open>view\<close> is the contents
  that the cache and the disk together stand for: a valid buffer's data wins over the disk.\<close>

abbreviation "ROOTDEV \<equiv> 1 :: u32"

definition cached :: "bcache \<Rightarrow> u32 \<Rightarrow> nat \<Rightarrow> bool" where
  "cached bc blk i \<longleftrightarrow> i < NUMBUF \<and> b_dev (bufs bc ! i) = ROOTDEV \<and> b_blockno (bufs bc ! i) = blk"

definition view :: "bcache \<Rightarrow> u32 \<Rightarrow> byte list" where
  "view bc blk =
     (case find (\<lambda>i. b_dev (bufs bc ! i) = ROOTDEV \<and> b_blockno (bufs bc ! i) = blk) [0..<NUMBUF] of
        Some i \<Rightarrow> if b_valid (bufs bc ! i) \<noteq> 0 then b_data (bufs bc ! i) else disk bc blk
      | None \<Rightarrow> disk bc blk)"

definition no_dups :: "bcache \<Rightarrow> bool" where
  "no_dups bc \<longleftrightarrow> (\<forall>blk i j. cached bc blk i \<longrightarrow> cached bc blk j \<longrightarrow> i = j)"

definition clean :: "bcache \<Rightarrow> nat \<Rightarrow> bool" where
  "clean bc i \<longleftrightarrow> b_dev (bufs bc ! i) = ROOTDEV \<and> b_valid (bufs bc ! i) \<noteq> 0 \<longrightarrow>
     b_data (bufs bc ! i) = disk bc (b_blockno (bufs bc ! i))"

definition cache_ok :: "bcache \<Rightarrow> bool" where
  "cache_ok bc \<longleftrightarrow> (\<exists>xs. lru bc xs) \<and> no_dups bc \<and> (\<forall>i<NUMBUF. b_refcount (bufs bc ! i) = 0 \<longrightarrow>
     slocked (b_lock (bufs bc ! i)) = 0 \<and> clean bc i)"

lemma view_eqI:
  assumes "\<And>i. cached bc blk i \<Longrightarrow> (if b_valid (bufs bc ! i) \<noteq> 0 then b_data (bufs bc ! i) else disk bc blk) = v"
    and "(\<And>i. \<not> cached bc blk i) \<Longrightarrow> disk bc blk = v"
  shows "view bc blk = v"
proof (cases "find (\<lambda>i. b_dev (bufs bc ! i) = ROOTDEV \<and> b_blockno (bufs bc ! i) = blk) [0..<NUMBUF]")
  case None
  then have "\<And>i. \<not> cached bc blk i" by (auto simp: find_None_iff cached_def)
  with assms(2) None show ?thesis by (simp add: view_def)
next
  case (Some i)
  then have "cached bc blk i" by (auto simp: cached_def find_Some_iff)
  with assms(1) Some show ?thesis by (simp add: view_def)
qed

lemma view_cached:
  assumes "no_dups bc" "cached bc blk i"
  shows "view bc blk = (if b_valid (bufs bc ! i) \<noteq> 0 then b_data (bufs bc ! i) else disk bc blk)"
proof (rule view_eqI)
  fix j assume "cached bc blk j"
  with assms have "j = i" by (auto simp: no_dups_def)
  then show "(if b_valid (bufs bc ! j) \<noteq> 0 then b_data (bufs bc ! j) else disk bc blk)
    = (if b_valid (bufs bc ! i) \<noteq> 0 then b_data (bufs bc ! i) else disk bc blk)" by simp
qed (use assms(2) in blast)

lemma view_uncached: "(\<And>i. \<not> cached bc blk i) \<Longrightarrow> view bc blk = disk bc blk"
  by (rule view_eqI) auto

lemma find_lru_cached:
  assumes "lru bc xs"
  shows "(find (\<lambda>i. b_dev (bufs bc ! i) = ROOTDEV \<and> b_blockno (bufs bc ! i) = blk) xs = None)
      = (\<forall>i. \<not> cached bc blk i)"
    "find (\<lambda>i. b_dev (bufs bc ! i) = ROOTDEV \<and> b_blockno (bufs bc ! i) = blk) xs = Some i
      \<Longrightarrow> cached bc blk i"
proof -
  have s: "set xs = {0..<NUMBUF}" using assms by (simp add: lru_def)
  then show "(find (\<lambda>i. b_dev (bufs bc ! i) = ROOTDEV \<and> b_blockno (bufs bc ! i) = blk) xs = None)
      = (\<forall>i. \<not> cached bc blk i)" by (auto simp: find_None_iff cached_def)
  assume "find (\<lambda>i. b_dev (bufs bc ! i) = ROOTDEV \<and> b_blockno (bufs bc ! i) = blk) xs = Some i"
  then show "cached bc blk i"
    using s nth_mem [of _ xs] by (fastforce simp: find_Some_iff cached_def)
qed

text \<open>The free buffer that is recycled is the one released longest ago.\<close>

definition victim :: "bcache \<Rightarrow> nat list \<Rightarrow> nat option" where
  "victim bc xs = find (\<lambda>i. b_refcount (bufs bc ! i) = 0) (rev xs)"

lemma buffer_get_eq:
  assumes "lru bc xs"
  shows "buffer_get pid ROOTDEV blk bc =
    (case find (\<lambda>i. b_dev (bufs bc ! i) = ROOTDEV \<and> b_blockno (bufs bc ! i) = blk) xs of
       Some i \<Rightarrow> lock_buf pid i (upd_buf i (\<lambda>b. b\<lparr>b_refcount := b_refcount b + 1\<rparr>) bc)
     | None \<Rightarrow> (case victim bc xs of
         Some i \<Rightarrow> lock_buf pid i (upd_buf i (\<lambda>b. b\<lparr>b_valid := 0, b_dev := ROOTDEV, b_blockno := blk,
           b_refcount := 1\<rparr>) bc)
       | None \<Rightarrow> Inl (Panic ''buffer_get, no buffers'')))"
  using find_next_lru [OF assms] find_prev_lru [OF assms]
  by (simp add: buffer_get_def victim_def split: option.splits)

lemma upd_upd [simp]: "upd_buf i f (upd_buf i g bc) = upd_buf i (\<lambda>b. f (g b)) bc"
  by (cases "i < length (bufs bc)") (simp_all add: upd_buf_def list_update_beyond)

lemma upd_read: "disk_read_write i False bc = upd_buf i (\<lambda>b. b\<lparr>b_data := disk bc (b_blockno b)\<rparr>) bc"
  by (simp add: disk_read_write_def)

text \<open>The two ways a read can go, each as one update of one buffer.\<close>

definition hit_update :: "int \<Rightarrow> bcache \<Rightarrow> buffer \<Rightarrow> buffer" where
  "hit_update pid bc b = b\<lparr>b_refcount := b_refcount b + 1, b_lock := (b_lock b)\<lparr>slocked := 1, sl_process_id := pid\<rparr>,
     b_data := (if b_valid b = 0 then disk bc (b_blockno b) else b_data b),
     b_valid := (if b_valid b = 0 then 1 else b_valid b)\<rparr>"

definition miss_update :: "int \<Rightarrow> bcache \<Rightarrow> u32 \<Rightarrow> buffer \<Rightarrow> buffer" where
  "miss_update pid bc blk b = b\<lparr>b_dev := ROOTDEV, b_blockno := blk, b_refcount := 1,
     b_lock := (b_lock b)\<lparr>slocked := 1, sl_process_id := pid\<rparr>, b_data := disk bc blk, b_valid := 1\<rparr>"

lemma buffer_read_eq:
  assumes "lru bc xs" "i < NUMBUF" "slocked (b_lock (bufs bc ! i)) = 0"
  shows "find (\<lambda>i. b_dev (bufs bc ! i) = ROOTDEV \<and> b_blockno (bufs bc ! i) = blk) xs = Some i
      \<Longrightarrow> buffer_read pid ROOTDEV blk bc = Inr (i, upd_buf i (hit_update pid bc) bc)"
    "find (\<lambda>i. b_dev (bufs bc ! i) = ROOTDEV \<and> b_blockno (bufs bc ! i) = blk) xs = None
      \<Longrightarrow> victim bc xs = Some i
      \<Longrightarrow> buffer_read pid ROOTDEV blk bc = Inr (i, upd_buf i (miss_update pid bc blk) bc)"
proof -
  have len: "i < length (bufs bc)" using assms by (simp add: lru_def)
  show "buffer_read pid ROOTDEV blk bc = Inr (i, upd_buf i (hit_update pid bc) bc)"
    if "find (\<lambda>i. b_dev (bufs bc ! i) = ROOTDEV \<and> b_blockno (bufs bc ! i) = blk) xs = Some i"
    using that len assms(3)
    by (simp add: buffer_read_def buffer_get_eq [OF assms(1)] lock_buf_def acquire_sleeplock_def
        nth_upd_buf upd_read) (auto simp: upd_buf_def hit_update_def)
  show "buffer_read pid ROOTDEV blk bc = Inr (i, upd_buf i (miss_update pid bc blk) bc)"
    if "find (\<lambda>i. b_dev (bufs bc ! i) = ROOTDEV \<and> b_blockno (bufs bc ! i) = blk) xs = None"
      "victim bc xs = Some i"
    using that len assms(3)
    by (simp add: buffer_read_def buffer_get_eq [OF assms(1)] lock_buf_def acquire_sleeplock_def
        nth_upd_buf upd_read) (auto simp: upd_buf_def miss_update_def)
qed

text \<open>Installing a block in a buffer that had it, or in a clean buffer when nobody had it.\<close>

lemma install_view:
  assumes nd: "no_dups bc" and i: "i < NUMBUF" "i < length (bufs bc)"
    and old: "cached bc blk i \<or> (\<forall>j. \<not> cached bc blk j) \<and> clean bc i"
    and nb: "b_dev (f (bufs bc ! i)) = ROOTDEV" "b_blockno (f (bufs bc ! i)) = blk"
      "b_valid (f (bufs bc ! i)) \<noteq> 0" "b_data (f (bufs bc ! i)) = view bc blk"
  shows "no_dups (upd_buf i f bc)" "view (upd_buf i f bc) b = view bc b" "cached (upd_buf i f bc) blk i"
proof -
  let ?bc = "upd_buf i f bc"
  have c: "cached ?bc b j \<longleftrightarrow> (if j = i then b = blk else cached bc b j)" for b j
    using i nb(1,2) by (auto simp: cached_def nth_upd_buf)
  then show "cached ?bc blk i" by simp
  show nd': "no_dups ?bc"
    using nd old by (auto simp: no_dups_def c)
  show "view ?bc b = view bc b"
  proof (rule view_eqI)
    fix j assume j: "cached ?bc b j"
    show "(if b_valid (bufs ?bc ! j) \<noteq> 0 then b_data (bufs ?bc ! j) else disk ?bc b) = view bc b"
    proof (cases "j = i")
      case True
      with j c nb i show ?thesis by (simp add: nth_upd_buf)
    next
      case False
      with j c have "cached bc b j" by simp
      with False nd show ?thesis by (simp add: view_cached nth_upd_buf)
    qed
  next
    assume none: "\<And>j. \<not> cached ?bc b j"
    show "disk ?bc b = view bc b"
    proof (cases "cached bc b i")
      case True
      with none [of i] c [of b i] have "b \<noteq> blk" by simp
      with True old have "clean bc i" by (auto simp: cached_def)
      with True nd show ?thesis by (auto simp: view_cached clean_def cached_def)
    next
      case False
      have "\<not> cached bc b j" for j using none [of j] c [of b j] False by (cases "j = i") auto
      then show ?thesis by (simp add: view_uncached)
    qed
  qed
qed

text \<open>What \<^verbatim>\<open>buffer_read\<close> needs: the block is cached in an unlocked buffer, or some buffer is free.\<close>

definition readable :: "bcache \<Rightarrow> u32 \<Rightarrow> bool" where
  "readable bc blk \<longleftrightarrow> (\<forall>i. cached bc blk i \<longrightarrow> slocked (b_lock (bufs bc ! i)) = 0 \<and> b_refcount (bufs bc ! i) \<noteq> - 1)
     \<and> ((\<exists>i. cached bc blk i) \<or> (\<exists>i<NUMBUF. b_refcount (bufs bc ! i) = 0))"

lemma victim_Some:
  assumes "lru bc xs" "i < NUMBUF" "b_refcount (bufs bc ! i) = 0"
  obtains j where "victim bc xs = Some j" "j < NUMBUF" "b_refcount (bufs bc ! j) = 0"
proof -
  have s: "set (rev xs) = {0..<NUMBUF}" using assms(1) by (simp add: lru_def)
  have "victim bc xs \<noteq> None" using assms(2,3) s by (auto simp: victim_def find_None_iff)
  then obtain j where j: "victim bc xs = Some j" by auto
  then obtain k where "k < length (rev xs)" "b_refcount (bufs bc ! (rev xs ! k)) = 0" "j = rev xs ! k"
    by (auto simp: victim_def find_Some_iff)
  then have "j \<in> set (rev xs)" "b_refcount (bufs bc ! j) = 0"
    using nth_mem [of k "rev xs"] by auto
  with s j that show thesis by auto
qed

lemma cache_ok_upd:
  assumes "cache_ok bc" "no_dups (upd_buf i f bc)" "b_refcount (f (bufs bc ! i)) \<noteq> 0"
    "\<And>b. b_next (f b) = b_next b" "\<And>b. b_prev (f b) = b_prev b" "i < NUMBUF"
  shows "cache_ok (upd_buf i f bc)"
proof -
  obtain xs where xs: "lru bc xs" using assms(1) by (auto simp: cache_ok_def)
  then have "i < length (bufs bc)" using assms(6) by (simp add: lru_def)
  moreover have "lru (upd_buf i f bc) xs" by (rule lru_upd [OF xs assms(4,5)])
  ultimately show ?thesis using assms(1-3) by (auto simp: cache_ok_def nth_upd_buf clean_def)
qed

text \<open>What a successful read leaves behind.\<close>

definition reads_to :: "int \<Rightarrow> bcache \<Rightarrow> u32 \<Rightarrow> nat \<Rightarrow> bcache \<Rightarrow> bool" where
  "reads_to pid bc blk i bc' \<longleftrightarrow> cache_ok bc' \<and> i < NUMBUF \<and> cached bc' blk i
     \<and> b_data (bufs bc' ! i) = view bc blk \<and> b_valid (bufs bc' ! i) \<noteq> 0
     \<and> is_holding_sleeplock pid (b_lock (bufs bc' ! i)) \<and> view bc' = view bc \<and> disk bc' = disk bc
     \<and> b_refcount (bufs bc' ! i) = b_refcount (bufs bc ! i) + 1 \<and> b_refcount (bufs bc' ! i) \<noteq> 0
     \<and> (\<forall>j. j \<noteq> i \<longrightarrow> bufs bc' ! j = bufs bc ! j)
     \<and> (cached bc blk i \<or> (\<forall>j. \<not> cached bc blk j) \<and> b_refcount (bufs bc ! i) = 0)
     \<and> slocked (b_lock (bufs bc ! i)) = 0
     \<and> length (bufs bc') = length (bufs bc)"

lemma reads_toD:
  assumes "reads_to pid bc blk i bc'"
  shows "cache_ok bc'" "i < NUMBUF" "cached bc' blk i" "b_data (bufs bc' ! i) = view bc blk"
    "b_valid (bufs bc' ! i) \<noteq> 0" "is_holding_sleeplock pid (b_lock (bufs bc' ! i))" "view bc' = view bc"
    "disk bc' = disk bc" "b_refcount (bufs bc' ! i) = b_refcount (bufs bc ! i) + 1"
    "b_refcount (bufs bc' ! i) \<noteq> 0" "\<And>j. j \<noteq> i \<Longrightarrow> bufs bc' ! j = bufs bc ! j"
    "cached bc blk i \<or> (\<forall>j. \<not> cached bc blk j) \<and> b_refcount (bufs bc ! i) = 0"
    "slocked (b_lock (bufs bc ! i)) = 0" "length (bufs bc') = length (bufs bc)"
  using assms unfolding reads_to_def by blast+

lemma buffer_read_spec:
  assumes ok: "cache_ok bc" and rd: "readable bc blk"
  shows "\<exists>i bc'. buffer_read pid ROOTDEV blk bc = Inr (i, bc') \<and> reads_to pid bc blk i bc'"
proof -
  obtain xs where xs: "lru bc xs" and nd: "no_dups bc" using ok by (auto simp: cache_ok_def)
  have len: "length (bufs bc) = Suc NUMBUF" using xs by (simp add: lru_def)
  show ?thesis
  proof (cases "find (\<lambda>i. b_dev (bufs bc ! i) = ROOTDEV \<and> b_blockno (bufs bc ! i) = blk) xs")
    case (Some i)
    let ?f = "hit_update pid bc"
    have c: "cached bc blk i" by (rule find_lru_cached(2) [OF xs Some])
    then have i: "i < NUMBUF" "i < length (bufs bc)" "b_dev (bufs bc ! i) = ROOTDEV"
      "b_blockno (bufs bc ! i) = blk" using len by (auto simp: cached_def)
    have free: "slocked (b_lock (bufs bc ! i)) = 0" "b_refcount (bufs bc ! i) + 1 \<noteq> 0"
      using rd c by (auto simp: readable_def add_eq_0_iff2)
    note r = buffer_read_eq(1) [OF xs i(1) free(1) Some, of pid]
    have d: "b_data (?f (bufs bc ! i)) = view bc blk" "b_valid (?f (bufs bc ! i)) \<noteq> 0"
      using view_cached [OF nd c] i by (auto simp: hit_update_def)
    have iv: "no_dups (upd_buf i ?f bc)" "\<And>b. view (upd_buf i ?f bc) b = view bc b"
      "cached (upd_buf i ?f bc) blk i"
      using install_view [of bc i blk ?f, OF nd i(1,2)] c d i(3,4) by (simp_all add: hit_update_def)
    have "cache_ok (upd_buf i ?f bc)"
      by (rule cache_ok_upd [OF ok iv(1)]) (use free i in \<open>simp_all add: hit_update_def\<close>)
    then have "reads_to pid bc blk i (upd_buf i ?f bc)"
      using iv d i c free by (auto simp: reads_to_def nth_upd_buf is_holding_sleeplock_def hit_update_def)
    with r show ?thesis by blast
  next
    case None
    then have nc: "\<forall>j. \<not> cached bc blk j" using find_lru_cached(1) [OF xs] by simp
    with rd obtain k where "k < NUMBUF" "b_refcount (bufs bc ! k) = 0" by (auto simp: readable_def)
    with victim_Some [OF xs] obtain i where v: "victim bc xs = Some i" and i: "i < NUMBUF"
      "b_refcount (bufs bc ! i) = 0" by blast
    let ?f = "miss_update pid bc blk"
    have cl: "slocked (b_lock (bufs bc ! i)) = 0" "clean bc i" "i < length (bufs bc)"
      using ok i len by (auto simp: cache_ok_def)
    note r = buffer_read_eq(2) [OF xs i(1) cl(1) None v, of pid]
    have d: "b_data (?f (bufs bc ! i)) = view bc blk" "b_valid (?f (bufs bc ! i)) \<noteq> 0"
      using view_uncached [of bc blk] nc by (auto simp: miss_update_def)
    have iv: "no_dups (upd_buf i ?f bc)" "\<And>b. view (upd_buf i ?f bc) b = view bc b"
      "cached (upd_buf i ?f bc) blk i"
      using install_view [of bc i blk ?f, OF nd i(1) cl(3)] nc cl(2) d by (simp_all add: miss_update_def)
    have "cache_ok (upd_buf i ?f bc)"
      by (rule cache_ok_upd [OF ok iv(1)]) (use i in \<open>simp_all add: miss_update_def\<close>)
    then have "reads_to pid bc blk i (upd_buf i ?f bc)"
      using iv d i cl nc by (auto simp: reads_to_def nth_upd_buf is_holding_sleeplock_def miss_update_def)
    with r show ?thesis by blast
  qed
qed

text \<open>Two caches with the same identities, validity, data and disk show the same blocks.\<close>

definition same_blocks :: "bcache \<Rightarrow> bcache \<Rightarrow> bool" where
  "same_blocks bc bc' \<longleftrightarrow> disk bc' = disk bc \<and> (\<forall>j. b_dev (bufs bc' ! j) = b_dev (bufs bc ! j)
     \<and> b_blockno (bufs bc' ! j) = b_blockno (bufs bc ! j) \<and> b_valid (bufs bc' ! j) = b_valid (bufs bc ! j)
     \<and> b_data (bufs bc' ! j) = b_data (bufs bc ! j))"

lemma same_blocks_view:
  assumes "same_blocks bc bc'"
  shows "view bc' b = view bc b" "cached bc' b i = cached bc b i" "no_dups bc' = no_dups bc"
    "clean bc' i = clean bc i"
  using assms
  by (simp_all add: same_blocks_def view_def cached_def no_dups_def clean_def split: option.split)

lemma same_blocks_links: "same_but_links bc bc' \<Longrightarrow> same_blocks bc bc'"
  using same_but_links_fields [of bc bc'] by (simp add: same_blocks_def)

lemma same_blocks_trans: "same_blocks a b \<Longrightarrow> same_blocks b c \<Longrightarrow> same_blocks a c"
  by (simp add: same_blocks_def)

definition rel_update :: "buffer \<Rightarrow> buffer" where
  "rel_update b = b\<lparr>b_lock := release_sleeplock (b_lock b), b_refcount := b_refcount b - 1\<rparr>"

lemma buffer_release_eq:
  assumes "is_holding_sleeplock pid (b_lock (bufs bc ! i))" "i < length (bufs bc)"
  shows "buffer_release pid i bc = Inr (let bc1 = upd_buf i rel_update bc in
    if b_refcount (bufs bc ! i) = 1 then link_front i (unlink i bc1) else bc1)"
proof -
  have "(b_refcount (bufs bc ! i) - 1 = 0) = (b_refcount (bufs bc ! i) = 1)"
    by (simp add: word_diff_eq_iff)
  moreover have "(\<lambda>b. b\<lparr>b_lock := release_sleeplock (b_lock b), b_refcount := b_refcount b - 1\<rparr>) = rel_update"
    by (simp add: rel_update_def fun_eq_iff)
  ultimately show ?thesis
    using assms by (simp add: buffer_release_def Let_def nth_upd_buf)
qed

lemma buffer_release_lru:
  assumes "lru bc xs" "i < NUMBUF" "is_holding_sleeplock pid (b_lock (bufs bc ! i))"
  obtains bc' where "buffer_release pid i bc = Inr bc'"
    "lru bc' (if b_refcount (bufs bc ! i) = 1 then i # remove1 i xs else xs)"
    "same_but_links (upd_buf i rel_update bc) bc'"
proof -
  have len: "i < length (bufs bc)" using assms(1,2) by (simp add: lru_def)
  let ?bc1 = "upd_buf i rel_update bc"
  let ?bc' = "if b_refcount (bufs bc ! i) = 1 then link_front i (unlink i ?bc1) else ?bc1"
  have l1: "lru ?bc1 xs" by (rule lru_upd [OF assms(1)]) (simp_all add: rel_update_def)
  show thesis
  proof (rule that [of ?bc'])
    show "buffer_release pid i bc = Inr ?bc'"
      using buffer_release_eq [OF assms(3) len] by (simp add: Let_def)
    show "lru ?bc' (if b_refcount (bufs bc ! i) = 1 then i # remove1 i xs else xs)"
      using lru_move_front [OF l1 assms(2)] l1 by simp
    show "same_but_links ?bc1 ?bc'"
      using same_but_links_trans [OF same_but_links_ops(2) same_but_links_ops(1)]
      by (simp add: same_but_links_def)
  qed
qed

lemma buffer_release_spec:
  assumes ok: "cache_ok bc" and i: "i < NUMBUF" and hold: "is_holding_sleeplock pid (b_lock (bufs bc ! i))"
    and cl: "b_refcount (bufs bc ! i) = 1 \<Longrightarrow> clean bc i" and ref: "b_refcount (bufs bc ! i) \<noteq> 0"
  obtains bc' where "buffer_release pid i bc = Inr bc'" "cache_ok bc'" "same_blocks bc bc'"
    "length (bufs bc') = length (bufs bc)"
    "b_refcount (bufs bc' ! i) = b_refcount (bufs bc ! i) - 1" "slocked (b_lock (bufs bc' ! i)) = 0"
    "\<And>j. j \<noteq> i \<Longrightarrow> b_refcount (bufs bc' ! j) = b_refcount (bufs bc ! j)"
    "\<And>j. j \<noteq> i \<Longrightarrow> b_lock (bufs bc' ! j) = b_lock (bufs bc ! j)"
proof -
  obtain xs where xs: "lru bc xs" using ok by (auto simp: cache_ok_def)
  have len: "i < length (bufs bc)" using xs i by (simp add: lru_def)
  obtain bc' where bc': "buffer_release pid i bc = Inr bc'"
    "lru bc' (if b_refcount (bufs bc ! i) = 1 then i # remove1 i xs else xs)"
    "same_but_links (upd_buf i rel_update bc) bc'" by (rule buffer_release_lru [OF xs i hold])
  note f = same_but_links_fields [OF bc'(3)]
  have "same_blocks bc (upd_buf i rel_update bc)"
    by (simp add: same_blocks_def nth_upd_buf rel_update_def)
  then have sb: "same_blocks bc bc'" using same_blocks_links [OF bc'(3)] by (rule same_blocks_trans)
  have refs: "b_refcount (bufs bc' ! i) = b_refcount (bufs bc ! i) - 1"
    "slocked (b_lock (bufs bc' ! i)) = 0"
    "\<And>j. j \<noteq> i \<Longrightarrow> b_refcount (bufs bc' ! j) = b_refcount (bufs bc ! j)"
    "\<And>j. j \<noteq> i \<Longrightarrow> b_lock (bufs bc' ! j) = b_lock (bufs bc ! j)"
    using len by (simp_all add: f nth_upd_buf rel_update_def release_sleeplock_def)
  have "cache_ok bc'"
    unfolding cache_ok_def
  proof (intro conjI allI impI)
    show "\<exists>xs. lru bc' xs" using bc'(2) by blast
    show "no_dups bc'" using ok same_blocks_view(3) [OF sb] by (simp add: cache_ok_def)
    fix j assume j: "j < NUMBUF" "b_refcount (bufs bc' ! j) = 0"
    have "slocked (b_lock (bufs bc' ! j)) = 0 \<and> clean bc j"
    proof (cases "j = i")
      case True
      with j refs have "b_refcount (bufs bc ! i) = 1" by (simp add: word_diff_eq_iff)
      with True refs cl show ?thesis by simp
    next
      case False
      with j refs ok show ?thesis by (simp add: cache_ok_def)
    qed
    then show "slocked (b_lock (bufs bc' ! j)) = 0" "clean bc' j"
      by (simp_all add: same_blocks_view(4) [OF sb])
  qed
  then show thesis using that [OF bc'(1)] sb refs f(7) by simp
qed

lemma buffer_write_spec:
  assumes ok: "cache_ok bc" and c: "cached bc blk i" and v: "b_valid (bufs bc ! i) \<noteq> 0"
    and hold: "is_holding_sleeplock pid (b_lock (bufs bc ! i))"
  obtains bc' where "buffer_write pid i bc = Inr bc'" "cache_ok bc'" "bufs bc' = bufs bc"
    "disk bc' = (disk bc)(blk := view bc blk)" "\<And>b. view bc' b = view bc b" "clean bc' i"
proof -
  have nd: "no_dups bc" using ok by (simp add: cache_ok_def)
  let ?bc' = "bc\<lparr>disk := (disk bc)(blk := view bc blk)\<rparr>"
  have data: "b_data (bufs bc ! i) = view bc blk" "b_blockno (bufs bc ! i) = blk"
    using view_cached [OF nd c] v c by (auto simp: cached_def)
  then have "buffer_write pid i bc = Inr ?bc'"
    using hold by (simp add: buffer_write_def disk_read_write_def)
  moreover have c': "cached ?bc' b j = cached bc b j" for b j by (simp add: cached_def)
  moreover have view': "view ?bc' b = view bc b" for b
  proof (rule view_eqI)
    fix j assume "cached ?bc' b j"
    then have j: "cached bc b j" by (simp add: c')
    show "(if b_valid (bufs ?bc' ! j) \<noteq> 0 then b_data (bufs ?bc' ! j) else disk ?bc' b) = view bc b"
      using view_cached [OF nd j] by auto
  next
    assume "\<And>j. \<not> cached ?bc' b j"
    then have none: "\<And>j. \<not> cached bc b j" by (simp add: c')
    then have "b \<noteq> blk" using c by blast
    then show "disk ?bc' b = view bc b" using view_uncached [OF none] by simp
  qed
  moreover have "clean ?bc' j" if "clean bc j" "j < NUMBUF" for j
  proof (cases "j = i")
    case True
    then show ?thesis using data by (simp add: clean_def)
  next
    case False
    then have "\<not> cached bc blk j" using nd c by (auto simp: no_dups_def)
    with that show ?thesis by (auto simp: clean_def cached_def)
  qed
  moreover have "clean ?bc' i" using data by (simp add: clean_def)
  moreover have "lru ?bc' xs = lru bc xs" for xs
    by (simp add: lru_def nextof_def [abs_def] prevof_def [abs_def])
  ultimately show thesis
    by (intro that [of ?bc']) (use ok in \<open>auto simp: cache_ok_def no_dups_def c'\<close>)
qed

text \<open>A client that holds a buffer stores into its data.\<close>

lemma buffer_modify_spec:
  assumes ok: "cache_ok bc" and c: "cached bc blk i" and v: "b_valid (bufs bc ! i) \<noteq> 0"
    and ref: "b_refcount (bufs bc ! i) \<noteq> 0"
    and bc': "bc' = upd_buf i (\<lambda>b. b\<lparr>b_data := d\<rparr>) bc"
  shows "cache_ok bc'" "view bc' = (view bc)(blk := d)" "cached bc' = cached bc" "disk bc' = disk bc"
proof -
  have nd: "no_dups bc" and i: "i < length (bufs bc)" "i < NUMBUF"
    using ok c by (auto simp: cache_ok_def lru_def cached_def)
  show c': "cached bc' = cached bc" by (auto simp: fun_eq_iff cached_def bc' nth_upd_buf)
  then have nd': "no_dups bc'" using nd by (simp add: no_dups_def)
  show "cache_ok bc'" unfolding bc'
    by (rule cache_ok_upd [OF ok]) (use nd' ref i in \<open>simp_all add: bc'\<close>)
  show "disk bc' = disk bc" by (simp add: bc')
  show "view bc' = (view bc)(blk := d)"
  proof
    fix b
    show "view bc' b = ((view bc)(blk := d)) b"
    proof (rule view_eqI)
      fix j assume "cached bc' b j"
      then have j: "cached bc b j" by (simp add: c')
      show "(if b_valid (bufs bc' ! j) \<noteq> 0 then b_data (bufs bc' ! j) else disk bc' b) = ((view bc)(blk := d)) b"
      proof (cases "j = i")
        case True
        with j c have "b = blk" by (simp add: cached_def)
        with True v i show ?thesis by (simp add: bc' nth_upd_buf)
      next
        case False
        with j c nd have "b \<noteq> blk" by (auto simp: no_dups_def)
        with False view_cached [OF nd j] show ?thesis by (simp add: bc' nth_upd_buf)
      qed
    next
      assume "\<And>j. \<not> cached bc' b j"
      then have none: "\<And>j. \<not> cached bc b j" by (simp add: c')
      then have "b \<noteq> blk" using c by blast
      then show "disk bc' b = ((view bc)(blk := d)) b" using view_uncached [OF none] by (simp add: bc')
    qed
  qed
qed

text \<open>The cache as boot leaves it: the array is zero, so \<^verbatim>\<open>buffer_init\<close> establishes the invariant.\<close>

lemma buffer_init_step_fields:
  assumes "i < length (bufs bc)"
  shows "b_dev (bufs (buffer_init_step bc i) ! j) = b_dev (bufs bc ! j)"
    "b_refcount (bufs (buffer_init_step bc i) ! j) = b_refcount (bufs bc ! j)"
    "slocked (b_lock (bufs (buffer_init_step bc i) ! j)) = (if j = i then 0 else slocked (b_lock (bufs bc ! j)))"
  using same_but_links_fields(2,4,5) [OF same_but_links_ops(1) [of
      "upd_buf i (\<lambda>b. b\<lparr>b_lock := initsleeplock ''buffer_lock''\<rparr>) bc" i], of j] assms
  by (simp_all add: buffer_init_step_def nth_upd_buf initsleeplock_def)

lemma buffer_init_fields:
  assumes "k \<le> NUMBUF" "length (bufs bc) = Suc NUMBUF"
  shows "(let bc' = foldl buffer_init_step bc [0..<k] in length (bufs bc') = Suc NUMBUF
    \<and> (\<forall>j. b_dev (bufs bc' ! j) = b_dev (bufs bc ! j) \<and> b_refcount (bufs bc' ! j) = b_refcount (bufs bc ! j)
         \<and> (j < k \<longrightarrow> slocked (b_lock (bufs bc' ! j)) = 0)))"
  using assms(1)
proof (induction k)
  case (Suc k)
  let ?bc = "foldl buffer_init_step bc [0..<k]"
  from Suc have "length (bufs ?bc) = Suc NUMBUF" by (simp add: Let_def)
  moreover from this Suc.prems have "k < length (bufs ?bc)" by simp
  note buffer_init_step_fields [OF this]
  ultimately show ?case using Suc by (simp add: Let_def less_Suc_eq) (simp add: buffer_init_step_def)
qed (use assms in simp)

lemma buffer_init_lru:
  assumes "length (bufs bc) = Suc NUMBUF"
  shows "lru (buffer_init bc) (rev [0..<NUMBUF])"
proof -
  let ?bc = "set_next LIST_HEAD LIST_HEAD (set_prev LIST_HEAD LIST_HEAD bc)"
  have "length (bufs ?bc) = Suc NUMBUF" "nextof ?bc LIST_HEAD = LIST_HEAD" "prevof ?bc LIST_HEAD = LIST_HEAD"
    using assms by simp_all
  from buffer_init_fold [OF order.refl this] show ?thesis
    by (simp add: buffer_init_def Let_def lru_def atLeast_upt [symmetric] del: upt_Suc)
qed

lemma buffer_init_ok:
  assumes "length (bufs bc) = Suc NUMBUF"
    "\<forall>b\<in>set (bufs bc). b_dev b = 0 \<and> b_refcount b = 0"
  shows "cache_ok (buffer_init bc)"
proof -
  let ?bc = "set_next LIST_HEAD LIST_HEAD (set_prev LIST_HEAD LIST_HEAD bc)"
  have "length (bufs ?bc) = Suc NUMBUF" using assms(1) by simp
  from buffer_init_fields [OF order.refl this]
  have f: "b_dev (bufs (buffer_init bc) ! j) = b_dev (bufs ?bc ! j)"
    "j < NUMBUF \<Longrightarrow> slocked (b_lock (bufs (buffer_init bc) ! j)) = 0" for j
    by (auto simp: buffer_init_def Let_def)
  have "b_dev (bufs ?bc ! j) = 0" if "j < NUMBUF" for j
    using that assms by (auto simp: set_next_def set_prev_def nth_upd_buf)
  with f have z: "b_dev (bufs (buffer_init bc) ! j) = 0" if "j < NUMBUF" for j using that by simp
  then have "no_dups (buffer_init bc)" by (auto simp: no_dups_def cached_def)
  with z f(2) buffer_init_lru [OF assms(1)] show ?thesis
    by (auto simp: cache_ok_def clean_def)
qed

section \<open>Reading a block\<close>

text \<open>The contract a client relies on that only looks at blocks: \<open>fetch\<close> gives the block and
  changes nothing that can be seen.\<close>

locale block_reader =
  fixes ok :: "'s \<Rightarrow> bool"
    and show_block :: "'s \<Rightarrow> u32 \<Rightarrow> byte list"
    and room :: "'s \<Rightarrow> u32 \<Rightarrow> bool"
    and fetch :: "u32 \<Rightarrow> 's \<Rightarrow> (byte list \<times> 's) res"
  assumes fetch_ok: "ok s \<Longrightarrow> room s b \<Longrightarrow>
    \<exists>s'. fetch b s = Inr (show_block s b, s') \<and> ok s' \<and> show_block s' = show_block s \<and> (\<forall>c. room s c \<longrightarrow> room s' c)"
begin

primrec fetch_all :: "u32 list \<Rightarrow> 's \<Rightarrow> (byte list list \<times> 's) res" where
  "fetch_all [] s = Inr ([], s)"
| "fetch_all (b # bs) s = rbind (fetch b s) (\<lambda>(d, s). rbind (fetch_all bs s) (\<lambda>(ds, s). Inr (d # ds, s)))"

lemma fetch_all_ok:
  "ok s \<Longrightarrow> \<forall>b\<in>set bs. room s b \<Longrightarrow>
    \<exists>s'. fetch_all bs s = Inr (map (show_block s) bs, s') \<and> ok s' \<and> show_block s' = show_block s"
proof (induction bs arbitrary: s)
  case (Cons b bs)
  from fetch_ok [of s b] Cons.prems obtain s1 where s1: "fetch b s = Inr (show_block s b, s1)" "ok s1"
    "show_block s1 = show_block s" "\<forall>c. room s c \<longrightarrow> room s1 c" by auto
  with Cons.IH [of s1] Cons.prems show ?case by auto
qed simp

end

definition buffer_fetch :: "int \<Rightarrow> u32 \<Rightarrow> bcache \<Rightarrow> (byte list \<times> bcache) res" where
  "buffer_fetch pid blk bc =
     rbind (buffer_read pid ROOTDEV blk bc) (\<lambda>(i, bc).
       rbind (buffer_release pid i bc) (\<lambda>bc'. Inr (b_data (bufs bc ! i), bc')))"

text \<open>A buffer that was read and given back leaves the blocks that could be read as readable as before, whatever
  happened to its data in between.\<close>

lemma readable_kept:
  assumes r: "reads_to pid bc blk i bc1" and rd: "readable bc blk" "readable bc c"
    and cd: "\<And>b j. cached bc2 b j \<longleftrightarrow> cached bc1 b j" and free: "slocked (b_lock (bufs bc2 ! i)) = 0"
    and refs: "\<And>j. b_refcount (bufs bc2 ! j) = b_refcount (bufs bc ! j)"
    and lk: "\<And>j. j \<noteq> i \<Longrightarrow> b_lock (bufs bc2 ! j) = b_lock (bufs bc1 ! j)"
  shows "readable bc2 c"
  unfolding readable_def cd
proof (intro conjI allI impI)
  note 1 = reads_toD [OF r]
  have other: "cached bc c j" if "cached bc1 c j" "j \<noteq> i" for j using that 1(11) by (simp add: cached_def)
  fix j assume j: "cached bc1 c j"
  show "slocked (b_lock (bufs bc2 ! j)) = 0"
    using free lk [of j] 1(11) [of j] other [OF j] rd(2) by (cases "j = i") (simp_all add: readable_def)
  have "b_refcount (bufs bc ! i) \<noteq> - 1" using 1(2,12) rd(1) by (auto simp: readable_def)
  then show "b_refcount (bufs bc2 ! j) \<noteq> - 1"
    using refs other [OF j] rd(2) by (cases "j = i") (simp_all add: readable_def)
next
  note 1 = reads_toD [OF r]
  show "(\<exists>j. cached bc1 c j) \<or> (\<exists>j<NUMBUF. b_refcount (bufs bc2 ! j) = 0)"
  proof (cases "\<exists>j<NUMBUF. b_refcount (bufs bc ! j) = 0")
    case False
    with rd(2) obtain j where j: "cached bc c j" by (auto simp: readable_def)
    have "cached bc1 c j"
    proof (cases "j = i")
      case True
      with j False 1(2,12) have "c = blk" by (auto simp: cached_def)
      with True 1(3) show ?thesis by simp
    qed (use j 1(11) in \<open>simp add: cached_def\<close>)
    then show ?thesis by blast
  qed (simp add: refs)
qed

lemma buffer_fetch_spec:
  assumes ok: "cache_ok bc" and rd: "readable bc blk"
  shows "\<exists>bc'. buffer_fetch pid blk bc = Inr (view bc blk, bc') \<and> cache_ok bc' \<and> view bc' = view bc
    \<and> disk bc' = disk bc \<and> (\<forall>c. readable bc c \<longrightarrow> readable bc' c)
    \<and> (\<forall>j. b_refcount (bufs bc' ! j) = b_refcount (bufs bc ! j))"
proof -
  obtain i bc1 where r: "buffer_read pid ROOTDEV blk bc = Inr (i, bc1)" "reads_to pid bc blk i bc1"
    using buffer_read_spec [OF ok rd] by blast
  note 1 = reads_toD [OF r(2)]
  have nd: "no_dups bc" using ok by (simp add: cache_ok_def)
  have "clean bc1 i" if "b_refcount (bufs bc ! i) = 0"
  proof -
    have "clean bc i" using ok that 1(2) by (simp add: cache_ok_def)
    then have "view bc blk = disk bc blk"
      using 1(12) view_cached [OF nd, of blk i] view_uncached [of bc blk] by (auto simp: clean_def cached_def)
    then show ?thesis using 1(3,4,8) by (simp add: clean_def cached_def)
  qed
  moreover have "b_refcount (bufs bc1 ! i) = 1 \<longleftrightarrow> b_refcount (bufs bc ! i) = 0" by (simp add: 1(9))
  moreover note 1(10)
  ultimately obtain bc2 where 2: "buffer_release pid i bc1 = Inr bc2" "cache_ok bc2" "same_blocks bc1 bc2"
    "b_refcount (bufs bc2 ! i) = b_refcount (bufs bc1 ! i) - 1" "slocked (b_lock (bufs bc2 ! i)) = 0"
    "\<And>j. j \<noteq> i \<Longrightarrow> b_refcount (bufs bc2 ! j) = b_refcount (bufs bc1 ! j)"
    "\<And>j. j \<noteq> i \<Longrightarrow> b_lock (bufs bc2 ! j) = b_lock (bufs bc1 ! j)"
    using buffer_release_spec [OF 1(1,2,6)] by metis
  have refs: "b_refcount (bufs bc2 ! j) = b_refcount (bufs bc ! j)" for j
    using 1(9,11) 2(4,6) by (cases "j = i") simp_all
  have "readable bc2 c" if "readable bc c" for c
    using same_blocks_view(2) [OF 2(3)] 2(5,7) refs by (intro readable_kept [OF r(2) rd that]) auto
  moreover have "view bc2 = view bc" using same_blocks_view(1) [OF 2(3)] 1(7) by auto
  moreover have "disk bc2 = disk bc" using 2(3) 1(8) by (simp add: same_blocks_def)
  ultimately show ?thesis using r(1) 1(4) 2(1,2) refs by (simp add: buffer_fetch_def)
qed

interpretation bf: block_reader cache_ok view readable "buffer_fetch pid" for pid
proof unfold_locales
  fix s b assume "cache_ok s" "readable s b"
  from buffer_fetch_spec [OF this] show "\<exists>s'. buffer_fetch pid b s = Inr (view s b, s') \<and> cache_ok s'
    \<and> view s' = view s \<and> (\<forall>c. readable s c \<longrightarrow> readable s' c)" by blast
qed

lemma find_filter: "find P xs = (if filter P xs = [] then None else Some (hd (filter P xs)))"
  by (induction xs) auto

lemma victim_last: "victim bc xs = (let fs = filter (\<lambda>i. b_refcount (bufs bc ! i) = 0) xs in
  if fs = [] then None else Some (last fs))"
  by (simp add: victim_def find_filter rev_filter [symmetric] hd_rev Let_def)

section \<open>The cache at boot\<close>

definition zero_buf :: buffer where
  "zero_buf = \<lparr>b_valid = 0, b_dev = 0, b_blockno = 0,
     b_lock = \<lparr>slocked = 0, sl_name = [], sl_process_id = 0\<rparr>, b_refcount = 0, b_prev = 0, b_next = 0,
     b_data = replicate 1024 0\<rparr>"

definition zero_cache :: "(u32 \<Rightarrow> byte list) \<Rightarrow> bcache" where
  "zero_cache d = \<lparr>bufs = replicate 31 zero_buf, disk = d\<rparr>"

lemma fresh_cache:
  fixes d
  defines "c \<equiv> buffer_init (zero_cache d)"
  shows "j < 31 \<Longrightarrow> b_refcount (bufs c ! j) = 0" "j < 31 \<Longrightarrow> b_dev (bufs c ! j) = 0" "disk c = d"
    and "cache_ok c" "\<not> cached c b i" "readable c b" "view c b = d b"
proof -
  let ?bc = "set_next LIST_HEAD LIST_HEAD (set_prev LIST_HEAD LIST_HEAD (zero_cache d))"
  have len: "length (bufs ?bc) = Suc NUMBUF" by (simp add: zero_cache_def)
  from buffer_init_fields [OF order.refl this]
  have f: "b_dev (bufs c ! j) = b_dev (bufs ?bc ! j)" "b_refcount (bufs c ! j) = b_refcount (bufs ?bc ! j)" for j
    by (auto simp: c_def buffer_init_def Let_def)
  have "bufs (zero_cache d) ! j = zero_buf" if "j < 31" for j using that by (simp add: zero_cache_def)
  then have z: "b_refcount (bufs c ! j) = 0" "b_dev (bufs c ! j) = 0" if "j < 31" for j
    using that by (auto simp: f set_next_def set_prev_def nth_upd_buf zero_buf_def)
  then show "j < 31 \<Longrightarrow> b_refcount (bufs c ! j) = 0" "j < 31 \<Longrightarrow> b_dev (bufs c ! j) = 0" by blast+
  have "disk (foldl buffer_init_step b is) = disk b" for b "is"
    by (induction "is" arbitrary: b)
      (auto simp: buffer_init_step_def same_but_links_fields(8) [OF same_but_links_ops(1)])
  then show dk: "disk c = d" by (simp add: c_def buffer_init_def Let_def set_next_def set_prev_def zero_cache_def)
  show "cache_ok c" unfolding c_def by (rule buffer_init_ok) (simp_all add: zero_cache_def zero_buf_def)
  have un: "\<not> cached c b i" for b i using z(2) [of i] by (auto simp: cached_def)
  then show "\<not> cached c b i" by blast
  have "b_refcount (bufs c ! 0) = 0" by (rule z(1)) simp
  then show "readable c b" using un by (auto simp: readable_def intro: exI [of _ 0])
  show "view c b = d b" using view_uncached [OF un] dk by simp
qed

section \<open>Properties\<close>

text \<open>(C18) Coherence of the cache: with the invariant, \<^verbatim>\<open>buffer_read\<close> of a block that is cached and
  unlocked, or for which a buffer is free, returns a locked buffer whose data is what the cache
  and the disk together stand for, keeps the invariant (the list, at most one buffer per block,
  free buffers clean) and changes no block, also when it evicts another one.\<close>

theorem buffer_read_coherent:
  assumes "cache_ok bc" "readable bc blk"
  shows "\<exists>i bc'. buffer_read pid ROOTDEV blk bc = Inr (i, bc') \<and> cache_ok bc'
    \<and> b_data (bufs bc' ! i) = view bc blk \<and> view bc' = view bc
    \<and> is_holding_sleeplock pid (b_lock (bufs bc' ! i))"
  using buffer_read_spec [OF assms, of pid] reads_toD(1,4,6,7) by metis

text \<open>Replacement: when the block is not cached, \<^verbatim>\<open>buffer_get\<close> recycles the free buffer nearest
  the tail of the list, whatever the pointers look like as long as they spell a list, and panics
  exactly when no buffer is free; the walks always end.\<close>

theorem buffer_get_recycles_last_free:
  assumes "lru bc xs" "cache_ok bc" "\<forall>i. \<not> cached bc blk i"
  shows "let free = filter (\<lambda>i. b_refcount (bufs bc ! i) = 0) xs in
    if free = [] then buffer_get pid ROOTDEV blk bc = Inl (Panic ''buffer_get, no buffers'')
    else \<exists>bc'. buffer_get pid ROOTDEV blk bc = Inr (last free, bc') \<and> lru bc' xs
      \<and> cached bc' blk (last free) \<and> b_valid (bufs bc' ! last free) = 0"
proof -
  let ?free = "filter (\<lambda>i. b_refcount (bufs bc ! i) = 0) xs"
  have none: "find (\<lambda>i. b_dev (bufs bc ! i) = ROOTDEV \<and> b_blockno (bufs bc ! i) = blk) xs = None"
    using find_lru_cached(1) [OF assms(1)] assms(3) by simp
  note get = buffer_get_eq [OF assms(1), of pid blk, unfolded none, simplified, unfolded victim_last Let_def]
  show ?thesis
  proof (cases "?free = []")
    case True
    then show ?thesis by (simp add: get)
  next
    case False
    let ?i = "last ?free"
    let ?bc1 = "upd_buf ?i (\<lambda>b. b\<lparr>b_valid := 0, b_dev := ROOTDEV, b_blockno := blk, b_refcount := 1\<rparr>) bc"
    have "?i \<in> set ?free" using False by (rule last_in_set)
    then have i: "?i < NUMBUF" "b_refcount (bufs bc ! ?i) = 0"
      using lru_range [OF assms(1)] by auto
    moreover have "?i < length (bufs bc)" using i assms(1) by (simp add: lru_def)
    moreover have "slocked (b_lock (bufs bc ! ?i)) = 0" using assms(2) i by (simp add: cache_ok_def)
    moreover have l1: "lru ?bc1 xs" by (rule lru_upd [OF assms(1)]) simp_all
    moreover define k where "k = (b_lock (bufs bc ! ?i))\<lparr>slocked := 1, sl_process_id := pid\<rparr>"
    moreover define bc2 where "bc2 = upd_buf ?i (\<lambda>b. b\<lparr>b_lock := k\<rparr>) ?bc1"
    moreover have "lru bc2 xs" unfolding bc2_def by (rule lru_upd [OF l1]) simp_all
    ultimately have "lock_buf pid ?i ?bc1 = Inr (?i, bc2)" "lru bc2 xs" "cached bc2 blk ?i"
      "b_valid (bufs bc2 ! ?i) = 0"
      by (simp_all add: lock_buf_def acquire_sleeplock_def nth_upd_buf cached_def)
    with False show ?thesis by (auto simp: get Let_def)
  qed
qed

text \<open>\<^verbatim>\<open>buffer_release\<close> of the last reference moves the buffer to the head of the list and keeps
  the order of the others, so the list is ordered by last use; with more references the list is
  unchanged. No block changes.\<close>

theorem buffer_release_moves_to_front:
  assumes "lru bc xs" "i < NUMBUF" "is_holding_sleeplock pid (b_lock (bufs bc ! i))"
  shows "\<exists>bc'. buffer_release pid i bc = Inr bc'
    \<and> lru bc' (if b_refcount (bufs bc ! i) = 1 then i # remove1 i xs else xs)
    \<and> view bc' = view bc"
proof -
  obtain bc' where r: "buffer_release pid i bc = Inr bc'"
    "lru bc' (if b_refcount (bufs bc ! i) = 1 then i # remove1 i xs else xs)"
    "same_but_links (upd_buf i rel_update bc) bc'" by (rule buffer_release_lru [OF assms])
  have "same_blocks bc (upd_buf i rel_update bc)"
    by (simp add: same_blocks_def nth_upd_buf rel_update_def)
  from same_blocks_trans [OF this same_blocks_links [OF r(3)]] have "view bc' = view bc"
    by (auto simp: same_blocks_view(1))
  with r show ?thesis by blast
qed

text \<open>\<^verbatim>\<open>buffer_init\<close> on the zeroed array builds the list of all thirty buffers, the last one first,
  and establishes the cache invariant.\<close>

theorem buffer_init_establishes:
  assumes "length (bufs bc) = Suc NUMBUF" "\<forall>b\<in>set (bufs bc). b_dev b = 0 \<and> b_refcount b = 0"
  shows "lru (buffer_init bc) (rev [0..<NUMBUF]) \<and> cache_ok (buffer_init bc)"
  using buffer_init_lru [OF assms(1)] buffer_init_ok [OF assms] by simp

subsection \<open>Witnesses\<close>

definition cache0 :: bcache where
  "cache0 = buffer_init (zero_cache (\<lambda>b. replicate 1024 (ucast b)))"

lemma cache0_ok: "cache_ok cache0"
  by (simp add: cache0_def fresh_cache)

lemma cache0_lru: "lru cache0 (rev [0..<NUMBUF])"
  unfolding cache0_def by (rule buffer_init_lru) (simp add: zero_cache_def)

lemma cache0_fields:
  "j < 31 \<Longrightarrow> b_refcount (bufs cache0 ! j) = 0"
  "j < 31 \<Longrightarrow> b_dev (bufs cache0 ! j) = 0" "disk cache0 = (\<lambda>b. replicate 1024 (ucast b))"
  by (simp_all add: cache0_def fresh_cache)

lemma cache0_uncached: "\<not> cached cache0 b i" by (simp add: cache0_def fresh_cache)

lemma cache0_readable: "readable cache0 b" by (simp add: cache0_def fresh_cache)

theorem buffer_read_coherent_witness:
  "\<exists>i bc'. buffer_read 7 ROOTDEV 5 cache0 = Inr (i, bc') \<and> b_data (bufs bc' ! i) = replicate 1024 5"
  using buffer_read_coherent [OF cache0_ok cache0_readable, of 7 5]
    view_uncached [OF cache0_uncached, of 5] cache0_fields(3) by auto

lemma cache0_free: "filter (\<lambda>i. b_refcount (bufs cache0 ! i) = 0) (rev [0..<NUMBUF]) = rev [0..<NUMBUF]"
  using cache0_fields(1) by (intro filter_True) auto

theorem buffer_get_recycles_last_free_witness:
  "\<exists>bc'. buffer_get 7 ROOTDEV 5 cache0 = Inr (0, bc') \<and> cached bc' 5 0"
proof -
  have "last (rev [0..<NUMBUF]) = 0" "rev [0..<NUMBUF] \<noteq> []" by (simp_all add: last_rev)
  with buffer_get_recycles_last_free [OF cache0_lru cache0_ok, of 5 7] cache0_uncached show ?thesis
    unfolding cache0_free Let_def by (simp del: upt.simps rev_is_Nil_conv) blast
qed

theorem buffer_release_moves_to_front_witness:
  "\<exists>i bc' bc''. buffer_read 7 ROOTDEV 5 cache0 = Inr (i, bc') \<and> buffer_release 7 i bc' = Inr bc''
    \<and> view bc'' = view cache0"
proof -
  obtain i bc' where r: "buffer_read 7 ROOTDEV 5 cache0 = Inr (i, bc')" "reads_to 7 cache0 5 i bc'"
    using buffer_read_spec [OF cache0_ok cache0_readable] by blast
  note d = reads_toD [OF r(2)]
  obtain xs where xs: "lru bc' xs" using d(1) by (auto simp: cache_ok_def)
  from buffer_release_moves_to_front [OF xs d(2,6)] r d(7) show ?thesis by metis
qed

theorem buffer_init_establishes_witness:
  "cache_ok (buffer_init (zero_cache (\<lambda>b. [])))"
  using buffer_init_establishes [of "zero_cache (\<lambda>b. [])"] by (simp add: zero_cache_def zero_buf_def)

end
