(* ===== verification/Fs_Log.thy ===== *)
theory Fs_Log
  imports Bufcache
begin

text \<open>
  The lower half of \<^verbatim>\<open>kernel/filesys.c\<close>: superblock, write-ahead log and block allocation.
  The state \<open>fs\<close> is the block cache with its disk, the superblock, the log and the in-memory
  inode table (used by the theories above this one). \<open>pid\<close> is the process that runs.

  C integers keep their width: block numbers are \<^typ>\<open>u32\<close>, read signed where the code compares
  them as \<^verbatim>\<open>int\<close>. The copies between buffers go through the kernel's \<^verbatim>\<open>memmove\<close>, which moves
  one byte too many when the destination lies below the source (theory \<^verbatim>\<open>Libc_String\<close>): since
  \<^verbatim>\<open>data\<close> is the last member of \<^verbatim>\<open>struct buffer\<close>, that byte is the low byte of the next
  buffer's \<^verbatim>\<open>valid\<close>, and \<open>blk_move\<close> says so.
  \<^verbatim>\<open>wakeup\<close> calls act on the process table only and are left out here.
\<close>

unbundle bit_operations_syntax

section \<open>State\<close>

record superblock =
  sb_magic :: u32
  sb_size :: u32
  sb_num_block :: u32
  sb_num_log :: u32
  sb_log_start :: u32
  sb_num_inodes :: u32
  sb_inode_start :: u32
  sb_bitmap_start :: u32

record flog =
  log_start :: u32
  log_commit :: bool
  log_dev :: u32
  log_size :: u32
  num_syscalls :: int
  log_count :: int
  log_block :: "u32 list"

record inode =
  i_dev :: u32
  i_inode_num :: u32
  i_refcount :: u32
  i_lock :: sleeplock
  i_valid :: u32
  i_type :: u16
  i_major_dev_num :: u16
  i_minor_dev_num :: u16
  i_num_link :: u16
  i_size :: u32
  i_addresses :: "u32 list"

record fs =
  cache :: bcache
  sb :: superblock
  log :: flog
  inode_table :: "inode list"

abbreviation "LOGSIZE \<equiv> 30 :: nat"
abbreviation "MAXLOGOPS \<equiv> 10 :: int"
abbreviation "FSMAGIC \<equiv> 0x10203040 :: u32"
abbreviation "BITMAP_PER_BLOCK \<equiv> 8192 :: nat"

section \<open>Little-endian fields of a block\<close>

definition get16 :: "byte list \<Rightarrow> nat \<Rightarrow> u16" where
  "get16 d p = ucast (d ! p) OR push_bit 8 (ucast (d ! (p + 1)))"

definition put16 :: "nat \<Rightarrow> u16 \<Rightarrow> byte list \<Rightarrow> byte list" where
  "put16 p w d = d[p := ucast w, p + 1 := ucast (drop_bit 8 w)]"

definition get32 :: "byte list \<Rightarrow> nat \<Rightarrow> u32" where
  "get32 d p = ucast (d ! p) OR push_bit 8 (ucast (d ! (p + 1)))
     OR push_bit 16 (ucast (d ! (p + 2))) OR push_bit 24 (ucast (d ! (p + 3)))"

definition put32 :: "nat \<Rightarrow> u32 \<Rightarrow> byte list \<Rightarrow> byte list" where
  "put32 p w d = d[p := ucast w, p + 1 := ucast (drop_bit 8 w),
     p + 2 := ucast (drop_bit 16 w), p + 3 := ucast (drop_bit 24 w)]"

section \<open>Sequencing\<close>

text \<open>A \<^verbatim>\<open>for\<close> loop over a list of indices that the body does not change.\<close>

primrec mfold :: "('b \<Rightarrow> 's \<Rightarrow> 's res) \<Rightarrow> 'b list \<Rightarrow> 's \<Rightarrow> 's res" where
  "mfold f [] s = Inr s"
| "mfold f (x # xs) s = rbind (f x s) (mfold f xs)"

text \<open>The cache operations on the file system state.\<close>

definition bread :: "int \<Rightarrow> u32 \<Rightarrow> u32 \<Rightarrow> fs \<Rightarrow> (nat \<times> fs) res" where
  "bread pid dev blk s = rbind (buffer_read pid dev blk (cache s)) (\<lambda>(i, c). Inr (i, s\<lparr>cache := c\<rparr>))"

definition bwrite :: "int \<Rightarrow> nat \<Rightarrow> fs \<Rightarrow> fs res" where
  "bwrite pid i s = rbind (buffer_write pid i (cache s)) (\<lambda>c. Inr (s\<lparr>cache := c\<rparr>))"

definition brelse :: "int \<Rightarrow> nat \<Rightarrow> fs \<Rightarrow> fs res" where
  "brelse pid i s = rbind (buffer_release pid i (cache s)) (\<lambda>c. Inr (s\<lparr>cache := c\<rparr>))"

definition bdata :: "nat \<Rightarrow> fs \<Rightarrow> byte list" where
  "bdata i s = b_data (bufs (cache s) ! i)"

definition set_bdata :: "nat \<Rightarrow> byte list \<Rightarrow> fs \<Rightarrow> fs" where
  "set_bdata i d s = s\<lparr>cache := upd_buf i (\<lambda>b. b\<lparr>b_data := d\<rparr>) (cache s)\<rparr>"

definition set_valid_low :: "nat \<Rightarrow> byte \<Rightarrow> fs \<Rightarrow> fs" where
  "set_valid_low i v s =
     s\<lparr>cache := upd_buf i (\<lambda>b. b\<lparr>b_valid := (b_valid b AND NOT 0xff) OR ucast v\<rparr>) (cache s)\<rparr>"

text \<open>\<^verbatim>\<open>memmove(to->data, from->data, BUFFER_SIZE)\<close> for two buffers of the array.\<close>

definition blk_move :: "nat \<Rightarrow> nat \<Rightarrow> fs \<Rightarrow> fs" where
  "blk_move to from s =
     (if to = from then s
      else if from < to then set_bdata to (bdata from s) s
      else let spill = ucast (b_valid (bufs (cache s) ! Suc from))
           in set_valid_low (Suc to) spill (set_bdata to (bdata from s) s))"

section \<open>The log\<close>

definition upd_log :: "(flog \<Rightarrow> flog) \<Rightarrow> fs \<Rightarrow> fs" where
  "upd_log f s = s\<lparr>log := f (log s)\<rparr>"

text \<open>The header block: \<^verbatim>\<open>count\<close> at offset 0 and \<^verbatim>\<open>block[i]\<close> at offset \<open>4 + 4 i\<close>.\<close>

definition read_header :: "int \<Rightarrow> fs \<Rightarrow> fs res" where
  "read_header pid s =
     rbind (bread pid (log_dev (log s)) (log_start (log s)) s) (\<lambda>(buf, s).
       let d = bdata buf s;
           s = upd_log (\<lambda>l. l\<lparr>log_block :=
                 foldl (\<lambda>bs i. bs[i := get32 d (4 + 4 * i)]) (log_block l) [0..<nat (log_count l)]\<rparr>) s
       in brelse pid buf s)"

definition write_header :: "int \<Rightarrow> fs \<Rightarrow> fs res" where
  "write_header pid s =
     rbind (bread pid (log_dev (log s)) (log_start (log s)) s) (\<lambda>(buf, s).
       let d = put32 0 (of_int (log_count (log s))) (bdata buf s);
           d = foldl (\<lambda>d i. put32 (4 + 4 * i) (log_block (log s) ! i) d) d [0..<nat (log_count (log s))]
       in rbind (bwrite pid buf (set_bdata buf d s)) (brelse pid buf))"

definition write_log_step :: "int \<Rightarrow> nat \<Rightarrow> fs \<Rightarrow> fs res" where
  "write_log_step pid i s =
     rbind (bread pid (log_dev (log s)) (log_start (log s) + of_nat i + 1) s) (\<lambda>(to, s).
       rbind (bread pid (log_dev (log s)) (log_block (log s) ! i) s) (\<lambda>(from, s).
         rbind (bwrite pid to (blk_move to from s)) (\<lambda>s.
           rbind (brelse pid to s) (brelse pid from))))"

definition write_log :: "int \<Rightarrow> fs \<Rightarrow> fs res" where
  "write_log pid s = mfold (write_log_step pid) [0..<nat (log_count (log s))] s"

definition cpy_log_step :: "int \<Rightarrow> bool \<Rightarrow> nat \<Rightarrow> fs \<Rightarrow> fs res" where
  "cpy_log_step pid recover i s =
     rbind (bread pid (log_dev (log s)) (log_start (log s) + of_nat i + 1) s) (\<lambda>(logbuf, s).
       rbind (bread pid (log_dev (log s)) (log_block (log s) ! i) s) (\<lambda>(dest, s).
         rbind (bwrite pid dest (blk_move dest logbuf s)) (\<lambda>s.
           let s = (if recover then s else s\<lparr>cache := dec_buf_refcount dest (cache s)\<rparr>)
           in rbind (brelse pid logbuf s) (brelse pid dest))))"

definition cpy_log_to_home :: "int \<Rightarrow> bool \<Rightarrow> fs \<Rightarrow> fs res" where
  "cpy_log_to_home pid recover s =
     mfold (cpy_log_step pid recover) [0..<nat (log_count (log s))] s"

definition commit :: "int \<Rightarrow> fs \<Rightarrow> fs res" where
  "commit pid s =
     (if 0 < log_count (log s) then
        rbind (write_log pid s) (\<lambda>s.
          rbind (write_header pid s) (\<lambda>s.
            rbind (cpy_log_to_home pid False s) (\<lambda>s.
              write_header pid (upd_log (\<lambda>l. l\<lparr>log_count := 0\<rparr>) s))))
      else Inr s)"

definition recover_from_log :: "int \<Rightarrow> fs \<Rightarrow> fs res" where
  "recover_from_log pid s =
     rbind (read_header pid s) (\<lambda>s.
       rbind (cpy_log_to_home pid True s) (\<lambda>s.
         write_header pid (upd_log (\<lambda>l. l\<lparr>log_count := 0\<rparr>) s)))"

definition init_log :: "int \<Rightarrow> u32 \<Rightarrow> fs \<Rightarrow> fs res" where
  "init_log pid dev s =
     recover_from_log pid (upd_log (\<lambda>l. l\<lparr>log_start := sb_log_start (sb s),
       log_size := sb_size (sb s), log_dev := dev\<rparr>) s)"

definition begin_op :: "fs \<Rightarrow> fs res" where
  "begin_op s =
     (if log_commit (log s) then Inl (Sleeps ''log'')
      else if log_count (log s) + (num_syscalls (log s) + 1) * MAXLOGOPS > int LOGSIZE
        then Inl (Sleeps ''log'')
      else Inr (upd_log (\<lambda>l. l\<lparr>num_syscalls := num_syscalls l + 1\<rparr>) s))"

definition end_op :: "int \<Rightarrow> fs \<Rightarrow> fs res" where
  "end_op pid s =
     (let s = upd_log (\<lambda>l. l\<lparr>num_syscalls := num_syscalls l - 1\<rparr>) s in
      if log_commit (log s) then Inl (Panic ''end_op log is committing'')
      else if num_syscalls (log s) = 0 then
        rbind (commit pid (upd_log (\<lambda>l. l\<lparr>log_commit := True\<rparr>) s))
          (\<lambda>s. Inr (upd_log (\<lambda>l. l\<lparr>log_commit := False\<rparr>) s))
      else Inr s)"

text \<open>The index of the first entry equal to the block number, or the count when there is none.\<close>

definition log_slot :: "u32 \<Rightarrow> flog \<Rightarrow> nat" where
  "log_slot blk l = length (takeWhile (\<lambda>b. b \<noteq> blk) (take (nat (log_count l)) (log_block l)))"

definition log_write :: "nat \<Rightarrow> fs \<Rightarrow> fs res" where
  "log_write buf s =
     (let l = log s; blk = b_blockno (bufs (cache s) ! buf); i = log_slot blk l in
      if log_count l \<ge> int LOGSIZE \<or> log_count l \<ge> sint (log_size l) - 1
      then Inl (Panic ''transaction too big, log_write'')
      else if num_syscalls l < 1 then Inl (Panic ''log_write outside of transaction'')
      else
        let s = upd_log (\<lambda>l. l\<lparr>log_block := (log_block l)[i := blk]\<rparr>) s
        in if int i = log_count l
           then Inr (upd_log (\<lambda>l. l\<lparr>log_count := log_count l + 1\<rparr>)
                  (s\<lparr>cache := inc_buf_refcount buf (cache s)\<rparr>))
           else Inr s)"

section \<open>Superblock\<close>

definition read_superblock :: "int \<Rightarrow> u32 \<Rightarrow> fs \<Rightarrow> fs res" where
  "read_superblock pid dev s =
     rbind (bread pid dev 1 s) (\<lambda>(buf, s).
       let d = bdata buf s
       in brelse pid buf (s\<lparr>sb := \<lparr>sb_magic = get32 d 0, sb_size = get32 d 4, sb_num_block = get32 d 8,
            sb_num_log = get32 d 12, sb_log_start = get32 d 16, sb_num_inodes = get32 d 20,
            sb_inode_start = get32 d 24, sb_bitmap_start = get32 d 28\<rparr>\<rparr>))"

definition filesys_init :: "int \<Rightarrow> u32 \<Rightarrow> fs \<Rightarrow> fs res" where
  "filesys_init pid dev s =
     rbind (read_superblock pid dev s) (\<lambda>s.
       if sb_magic (sb s) \<noteq> FSMAGIC then Inl (Panic ''invalid filesys'')
       else init_log pid dev s)"

section \<open>Block allocation\<close>

definition buffer_zero :: "int \<Rightarrow> u32 \<Rightarrow> u32 \<Rightarrow> fs \<Rightarrow> fs res" where
  "buffer_zero pid dev blk s =
     rbind (bread pid dev blk s) (\<lambda>(buf, s).
       rbind (log_write buf (set_bdata buf (replicate BUFFER_SIZE 0) s)) (brelse pid buf))"

text \<open>The inner loop over the bits of one bitmap block: \<^verbatim>\<open>k = 1 << (i % 8)\<close> with the \<^verbatim>\<open>i\<close> of the
  outer loop.\<close>

function balloc_scan :: "byte list \<Rightarrow> nat \<Rightarrow> int \<Rightarrow> nat \<Rightarrow> nat option" where
  "balloc_scan d i sz j =
     (if j < BITMAP_PER_BLOCK \<and> int (i + j) < sz then
        (if d ! (j div 8) AND push_bit (i mod 8) 1 = 0 then Some j
         else balloc_scan d i sz (Suc j))
      else None)"
  by pat_completeness auto
termination
  by (relation "measure (\<lambda>(d, i, sz, j). BITMAP_PER_BLOCK - j)") auto

declare balloc_scan.simps [simp del]

function buffer_alloc_loop :: "int \<Rightarrow> u32 \<Rightarrow> nat \<Rightarrow> fs \<Rightarrow> (u32 \<times> fs) res" where
  "buffer_alloc_loop pid dev i s =
     (if int i < sint (sb_size (sb s)) \<and> i < 2 ^ 31 then
        rbind (bread pid dev (of_nat (i div BITMAP_PER_BLOCK) + sb_bitmap_start (sb s)) s) (\<lambda>(buf, s').
          let d = bdata buf s' in
          case balloc_scan d i (sint (sb_size (sb s))) 0 of
            Some j \<Rightarrow>
              rbind (log_write buf (set_bdata buf (d[j div 8 := d ! (j div 8) OR push_bit (i mod 8) 1]) s')) (\<lambda>s'.
                rbind (brelse pid buf s') (\<lambda>s'.
                  rbind (buffer_zero pid dev (of_nat (i + j)) s') (\<lambda>s'. Inr (of_nat (i + j), s'))))
          | None \<Rightarrow> rbind (brelse pid buf s') (buffer_alloc_loop pid dev (i + BITMAP_PER_BLOCK)))
      else Inl (Panic ''buffer_alloc: no blocks left''))"
  by pat_completeness auto
termination
  by (relation "measure (\<lambda>(pid, dev, i, s). 2 ^ 31 - i)") auto

declare buffer_alloc_loop.simps [simp del]

definition buffer_alloc :: "int \<Rightarrow> u32 \<Rightarrow> fs \<Rightarrow> (u32 \<times> fs) res" where
  "buffer_alloc pid dev s = buffer_alloc_loop pid dev 0 s"

definition buffer_free :: "int \<Rightarrow> u32 \<Rightarrow> u32 \<Rightarrow> fs \<Rightarrow> fs res" where
  "buffer_free pid dev b s =
     rbind (bread pid dev (b div of_nat BITMAP_PER_BLOCK + sb_bitmap_start (sb s)) s) (\<lambda>(buf, s).
       let d = bdata buf s;
           i = unat (b mod of_nat BITMAP_PER_BLOCK);
           j = push_bit (i mod 8) 1
       in if d ! (i div 8) AND j = 0 then Inl (Panic ''block alredy free'')
          else rbind (log_write buf (set_bdata buf (d[i div 8 := d ! (i div 8) AND NOT j]) s)) (brelse pid buf))"

section \<open>Fields of a block\<close>

lemma length_put [simp]:
  "length (put16 p v d) = length d" "length (put32 p w d) = length d"
  by (simp_all add: put16_def put32_def)

lemma word16_bytes:
  fixes w :: u16
  shows "ucast (ucast w :: byte) OR push_bit 8 (ucast (ucast (drop_bit 8 w) :: byte)) = w"
proof (rule bit_word_eqI)
  fix n
  show "bit (ucast (ucast w :: byte) OR push_bit 8 (ucast (ucast (drop_bit 8 w) :: byte)) :: u16) n = bit w n"
    if "n < LENGTH(16)"
    using that by (cases "8 \<le> n") (auto simp: bit_simps)
qed

lemma word32_bytes:
  fixes w :: u32
  shows "ucast (ucast w :: byte) OR push_bit 8 (ucast (ucast (drop_bit 8 w) :: byte))
    OR push_bit 16 (ucast (ucast (drop_bit 16 w) :: byte))
    OR push_bit 24 (ucast (ucast (drop_bit 24 w) :: byte)) = w"
proof (rule bit_word_eqI)
  fix n
  show "bit (ucast (ucast w :: byte) OR push_bit 8 (ucast (ucast (drop_bit 8 w) :: byte))
    OR push_bit 16 (ucast (ucast (drop_bit 16 w) :: byte))
    OR push_bit 24 (ucast (ucast (drop_bit 24 w) :: byte)) :: u32) n = bit w n"
    if "n < LENGTH(32)"
    using that by (cases "24 \<le> n"; cases "16 \<le> n"; cases "8 \<le> n") (auto simp: bit_simps)
qed

lemma get16_put16_same: "p + 2 \<le> length d \<Longrightarrow> get16 (put16 p w d) p = w"
  using word16_bytes [of w] by (simp add: get16_def put16_def)

lemma get32_put32_same: "p + 4 \<le> length d \<Longrightarrow> get32 (put32 p w d) p = w"
  using word32_bytes [of w] by (simp add: get32_def put32_def)

text \<open>Outside the bytes it stores to, a field store changes nothing.\<close>

lemma nth_put32: "k < p \<or> p + 4 \<le> k \<Longrightarrow> put32 p w d ! k = d ! k"
  by (auto simp: put32_def nth_list_update_cases)

lemma nth_put16: "k < p \<or> p + 2 \<le> k \<Longrightarrow> put16 p w d ! k = d ! k"
  by (auto simp: put16_def nth_list_update_cases)

lemma get32_cong: "(\<And>k. p \<le> k \<Longrightarrow> k < p + 4 \<Longrightarrow> d ! k = d' ! k) \<Longrightarrow> get32 d p = get32 d' p"
  by (simp add: get32_def)

lemma get16_cong: "(\<And>k. p \<le> k \<Longrightarrow> k < p + 2 \<Longrightarrow> d ! k = d' ! k) \<Longrightarrow> get16 d p = get16 d' p"
  by (simp add: get16_def)

lemma get32_put32_other: "q + 4 \<le> p \<or> p + 4 \<le> q \<Longrightarrow> get32 (put32 p w d) q = get32 d q"
  by (rule get32_cong) (auto simp: nth_put32)

lemma get16_put32_other: "q + 2 \<le> p \<or> p + 4 \<le> q \<Longrightarrow> get16 (put32 p w d) q = get16 d q"
  by (rule get16_cong) (auto simp: nth_put32)

lemma get32_put16_other: "q + 4 \<le> p \<or> p + 2 \<le> q \<Longrightarrow> get32 (put16 p w d) q = get32 d q"
  by (rule get32_cong) (auto simp: nth_put16)

lemma get16_put16_other: "q + 2 \<le> p \<or> p + 2 \<le> q \<Longrightarrow> get16 (put16 p w d) q = get16 d q"
  by (rule get16_cong) (auto simp: nth_put16)

lemmas field_simps_le = get16_put16_same get32_put32_same get32_put32_other get16_put32_other
  get32_put16_other get16_put16_other

text \<open>An array of words stored one after the other.\<close>

definition put_words :: "nat \<Rightarrow> (nat \<Rightarrow> u32) \<Rightarrow> nat \<Rightarrow> byte list \<Rightarrow> byte list" where
  "put_words p f n d = foldl (\<lambda>d k. put32 (p + 4 * k) (f k) d) d [0..<n]"

lemma put_words_Suc: "put_words p f (Suc n) d = put32 (p + 4 * n) (f n) (put_words p f n d)"
  by (simp add: put_words_def)

lemma length_put_words [simp]: "length (put_words p f n d) = length d"
  by (induction n) (simp_all add: put_words_Suc, simp add: put_words_def)

lemma nth_put_words: "k < p \<or> p + 4 * n \<le> k \<Longrightarrow> put_words p f n d ! k = d ! k"
  by (induction n) (simp add: put_words_def, auto simp: put_words_Suc nth_put32)

lemma get32_put_words:
  "k < n \<Longrightarrow> p + 4 * n \<le> length d \<Longrightarrow> get32 (put_words p f n d) (p + 4 * k) = f k"
proof (induction n)
  case (Suc n)
  then show ?case
    by (cases "k = n") (simp_all add: put_words_Suc get32_put32_same get32_put32_other)
qed simp

lemma get32_put_words_other:
  "q + 4 \<le> p \<or> p + 4 * n \<le> q \<Longrightarrow> get32 (put_words p f n d) q = get32 d q"
  by (rule get32_cong) (auto simp: nth_put_words)

lemma get16_put_words_other:
  "q + 2 \<le> p \<or> p + 4 * n \<le> q \<Longrightarrow> get16 (put_words p f n d) q = get16 d q"
  by (rule get16_cong) (auto simp: nth_put_words)

section \<open>Log invariants\<close>

text \<open>The entries in use are distinct and fit.\<close>

definition log_ok :: "flog \<Rightarrow> bool" where
  "log_ok l \<longleftrightarrow> length (log_block l) = LOGSIZE \<and> 0 \<le> log_count l \<and> log_count l \<le> int LOGSIZE
     \<and> distinct (take (nat (log_count l)) (log_block l))"

definition logged :: "flog \<Rightarrow> u32 list" where
  "logged l = take (nat (log_count l)) (log_block l)"

lemma log_slot_cases:
  assumes "log_ok l"
  shows "log_slot blk l \<le> nat (log_count l)"
    "blk \<in> set (logged l) \<Longrightarrow> log_slot blk l < nat (log_count l) \<and> log_block l ! log_slot blk l = blk"
    "blk \<notin> set (logged l) \<Longrightarrow> log_slot blk l = nat (log_count l)"
proof -
  have len: "length (logged l) = nat (log_count l)"
    using assms by (auto simp: logged_def log_ok_def min_def nat_le_iff)
  have slot: "log_slot blk l = length (takeWhile (\<lambda>b. b \<noteq> blk) (logged l))"
    by (simp add: log_slot_def logged_def)
  show "log_slot blk l \<le> nat (log_count l)" unfolding slot len [symmetric] by (rule length_takeWhile_le)
  show "blk \<notin> set (logged l) \<Longrightarrow> log_slot blk l = nat (log_count l)"
    unfolding slot len [symmetric] by (subst takeWhile_eq_all_conv [THEN iffD2]) auto
  assume m: "blk \<in> set (logged l)"
  then have "dropWhile (\<lambda>b. b \<noteq> blk) (logged l) \<noteq> []" by (auto simp: dropWhile_eq_Nil_conv)
  then have lt: "log_slot blk l < length (logged l)"
    using arg_cong [OF takeWhile_dropWhile_id [of "\<lambda>b. b \<noteq> blk" "logged l"], of length]
    unfolding slot length_append by (metis length_greater_0_conv less_add_same_cancel1)
  then have "logged l ! log_slot blk l = blk"
    unfolding slot using nth_length_takeWhile by blast
  with lt len show "log_slot blk l < nat (log_count l) \<and> log_block l ! log_slot blk l = blk"
    by (simp add: logged_def)
qed

text \<open>\<^verbatim>\<open>log_write\<close> as an update of the log alone.\<close>

definition log_add :: "u32 \<Rightarrow> flog \<Rightarrow> flog" where
  "log_add blk l = (if blk \<in> set (logged l) then l
     else l\<lparr>log_block := (log_block l)[nat (log_count l) := blk], log_count := log_count l + 1\<rparr>)"

definition log_room :: "flog \<Rightarrow> bool" where
  "log_room l \<longleftrightarrow> log_count l < int LOGSIZE \<and> log_count l < sint (log_size l) - 1 \<and> 1 \<le> num_syscalls l"

lemma log_write_eq:
  assumes "log_ok (log s)" "log_room (log s)"
  shows "log_write buf s = Inr (s\<lparr>log := log_add (b_blockno (bufs (cache s) ! buf)) (log s),
    cache := (if b_blockno (bufs (cache s) ! buf) \<in> set (logged (log s)) then cache s
              else inc_buf_refcount buf (cache s))\<rparr>)"
proof -
  let ?blk = "b_blockno (bufs (cache s) ! buf)" and ?l = "log s"
  note c = log_slot_cases [OF assms(1), of ?blk]
  have n: "int (nat (log_count ?l)) = log_count ?l" using assms(1) by (simp add: log_ok_def)
  show ?thesis
  proof (cases "?blk \<in> set (logged ?l)")
    case True
    from c(2) [OF True] have "(log_block ?l)[log_slot ?blk ?l := ?blk] = log_block ?l"
      "int (log_slot ?blk ?l) \<noteq> log_count ?l" using n by (metis list_update_id, linarith)
    with True assms show ?thesis
      by (simp add: log_write_def Let_def log_room_def upd_log_def log_add_def)
  next
    case False
    from c(3) [OF False] n False assms show ?thesis
      by (simp add: log_write_def Let_def log_room_def upd_log_def log_add_def)
  qed
qed

lemma log_add_ok:
  assumes "log_ok l" "log_count l < int LOGSIZE"
  shows "log_ok (log_add blk l)" "set (logged (log_add blk l)) = insert blk (set (logged l))"
    "log_count (log_add blk l) \<le> log_count l + 1"
proof -
  let ?n = "nat (log_count l)"
  have n: "?n < length (log_block l)" "nat (log_count l + 1) = Suc ?n"
    using assms by (auto simp: log_ok_def)
  have t: "take (Suc ?n) ((log_block l)[?n := blk]) = logged l @ [blk]"
    using n(1) by (simp add: take_Suc_conv_app_nth logged_def)
  show "log_ok (log_add blk l)"
    using assms n t by (auto simp: log_add_def log_ok_def logged_def)
  show "set (logged (log_add blk l)) = insert blk (set (logged l))"
    using n t by (auto simp: log_add_def logged_def)
  show "log_count (log_add blk l) \<le> log_count l + 1" by (simp add: log_add_def)
qed

text \<open>The cache operations leave the log alone.\<close>

lemma cache_ops_log:
  "bread pid dev blk s = Inr (i, s') \<Longrightarrow> log s' = log s"
  "bwrite pid i s = Inr s' \<Longrightarrow> log s' = log s"
  "brelse pid i s = Inr s' \<Longrightarrow> log s' = log s"
  "log (set_bdata i d s) = log s"
  "log (blk_move to from s) = log s"
  by (auto simp: bread_def bwrite_def brelse_def set_bdata_def blk_move_def set_valid_low_def Let_def
      rbind_eq_Inr)

lemma cpy_steps_log:
  "write_log_step pid i s = Inr s' \<Longrightarrow> log s' = log s"
  "cpy_log_step pid r i s = Inr s' \<Longrightarrow> log s' = log s"
  "write_header pid s = Inr s' \<Longrightarrow> log s' = log s"
  by (auto simp: write_log_step_def cpy_log_step_def write_header_def Let_def rbind_eq_Inr cache_ops_log(4,5)
      dest!: cache_ops_log(1-3) split: if_splits)

lemma mfold_log:
  assumes "\<And>x s s'. f x s = Inr s' \<Longrightarrow> log s' = log s" "mfold f xs s = Inr s'"
  shows "log s' = log s"
  using assms(2) by (induction xs arbitrary: s) (auto simp: rbind_eq_Inr dest!: assms(1))

lemma commit_log:
  assumes "commit pid s = Inr s'" "0 \<le> log_count (log s)"
  shows "log s' = (log s)\<lparr>log_count := 0\<rparr>"
proof (cases "0 < log_count (log s)")
  case True
  with assms(1) obtain s1 s2 s3 where "write_log pid s = Inr s1" "write_header pid s1 = Inr s2"
    "cpy_log_to_home pid False s2 = Inr s3"
    "write_header pid (upd_log (\<lambda>l. l\<lparr>log_count := 0\<rparr>) s3) = Inr s'"
    by (auto simp: commit_def rbind_eq_Inr)
  moreover from this have "log s1 = log s" "log s3 = log s2"
    unfolding write_log_def cpy_log_to_home_def
    by (auto elim!: mfold_log [rotated] dest: cpy_steps_log(1,2))
  ultimately show ?thesis by (auto dest!: cpy_steps_log(3) simp: upd_log_def)
next
  case False
  with assms have "s' = s" "log_count (log s) = 0" by (auto simp: commit_def)
  then show ?thesis by simp
qed

section \<open>Log space\<close>

text \<open>File system calls in flight: each is between \<^verbatim>\<open>begin_op\<close> and \<^verbatim>\<open>end_op\<close> and has logged the number
  of blocks the list says, at most \<open>MAXLOGOPS\<close> of them; calls of different processes interleave.\<close>

inductive opstep :: "fs \<times> nat list \<Rightarrow> fs \<times> nat list \<Rightarrow> bool" where
  op_begin: "begin_op s = Inr s' \<Longrightarrow> opstep (s, ws) (s', ws @ [0])"
| op_write: "i < length ws \<Longrightarrow> int (ws ! i) < MAXLOGOPS \<Longrightarrow> log_write buf s = Inr s' \<Longrightarrow>
    opstep (s, ws) (s', ws[i := Suc (ws ! i)])"
| op_end: "i < length ws \<Longrightarrow> end_op pid s = Inr s' \<Longrightarrow>
    opstep (s, ws) (s', take i ws @ drop (Suc i) ws)"

definition budget :: "nat list \<Rightarrow> int" where
  "budget ws = (\<Sum>w\<leftarrow>ws. MAXLOGOPS - int w)"

definition ops_ok :: "fs \<times> nat list \<Rightarrow> bool" where
  "ops_ok = (\<lambda>(s, ws). log_ok (log s) \<and> int LOGSIZE < sint (log_size (log s)) - 1
     \<and> num_syscalls (log s) = int (length ws) \<and> (\<forall>w\<in>set ws. int w \<le> MAXLOGOPS)
     \<and> log_count (log s) + budget ws \<le> int LOGSIZE)"

lemma budget_simps [simp]:
  "budget [] = 0" "budget (w # ws) = MAXLOGOPS - int w + budget ws"
  "budget (us @ ws) = budget us + budget ws"
  by (simp_all add: budget_def)

lemma budget_bounds:
  "\<forall>w\<in>set ws. int w \<le> MAXLOGOPS \<Longrightarrow> 0 \<le> budget ws \<and> budget ws \<le> MAXLOGOPS * int (length ws)"
  by (induction ws) auto

lemma budget_split: "i < length ws \<Longrightarrow>
    budget ws = budget (take i ws) + (MAXLOGOPS - int (ws ! i)) + budget (drop (Suc i) ws)"
  using arg_cong [OF id_take_nth_drop [of i ws], of budget] by simp

lemma budget_update: "i < length ws \<Longrightarrow> budget (ws[i := Suc (ws ! i)]) = budget ws - 1"
  using budget_split [of i ws] by (simp add: upd_conv_take_nth_drop)

lemma ops_ok_room:
  assumes "ops_ok (s, ws)" "i < length ws" "int (ws ! i) < MAXLOGOPS"
  shows "log_room (log s)"
proof -
  have le: "\<forall>w\<in>set (take i ws) \<union> set (drop (Suc i) ws). int w \<le> MAXLOGOPS"
    using assms(1) by (auto simp: ops_ok_def dest: in_set_takeD in_set_dropD)
  then have "0 \<le> budget (take i ws)" "0 \<le> budget (drop (Suc i) ws)"
    using budget_bounds by blast+
  with budget_split [OF assms(2)] assms show ?thesis
    by (auto simp: ops_ok_def log_room_def)
qed

lemma ops_ok_step: "opstep st st' \<Longrightarrow> ops_ok st \<Longrightarrow> ops_ok st'"
proof (induction rule: opstep.induct)
  case (op_begin s s' ws)
  then have "\<forall>w\<in>set ws. int w \<le> MAXLOGOPS" by (simp add: ops_ok_def)
  with budget_bounds [OF this] op_begin show ?case
    by (auto simp: ops_ok_def begin_op_def upd_log_def log_ok_def split: if_splits)
next
  case (op_write i ws buf s s')
  have room: "log_room (log s)" by (rule ops_ok_room [OF op_write.prems op_write.hyps(1,2)])
  have ok: "log_ok (log s)" "log_count (log s) < int LOGSIZE"
    using op_write.prems room by (auto simp: ops_ok_def log_room_def)
  have "log s' = log_add (b_blockno (bufs (cache s) ! buf)) (log s)"
    using op_write.hyps(3) log_write_eq [OF ok(1) room] by auto
  moreover have "num_syscalls (log_add b (log s)) = num_syscalls (log s)"
    "log_size (log_add b (log s)) = log_size (log s)" for b by (simp_all add: log_add_def)
  moreover have "\<forall>w\<in>set (ws[i := Suc (ws ! i)]). int w \<le> MAXLOGOPS"
    using op_write by (auto simp: ops_ok_def dest!: set_update_subset_insert [THEN subsetD])
  ultimately show ?case
    using op_write log_add_ok [OF ok, of "b_blockno (bufs (cache s) ! buf)"]
    by (auto simp: ops_ok_def budget_update)
next
  case (op_end i ws pid s s')
  have n: "num_syscalls (log s) = int (length ws)" "0 \<le> log_count (log s)"
    using op_end.prems by (auto simp: ops_ok_def log_ok_def)
  have bnd: "\<forall>w\<in>set (take i ws @ drop (Suc i) ws). int w \<le> MAXLOGOPS"
    using op_end.prems by (auto simp: ops_ok_def dest: in_set_takeD in_set_dropD)
  have "int (ws ! i) \<le> MAXLOGOPS" using op_end by (auto simp: ops_ok_def)
  then have le: "budget (take i ws @ drop (Suc i) ws) \<le> budget ws"
    using budget_split [OF op_end.hyps(1)] by simp
  have len: "int (length (take i ws @ drop (Suc i) ws)) = int (length ws) - 1"
    using op_end.hyps(1) by simp
  show ?case
  proof (cases "length ws = 1")
    case True
    with op_end.hyps n obtain s1 where
      "commit pid (upd_log (\<lambda>l. l\<lparr>log_commit := True\<rparr>) (upd_log (\<lambda>l. l\<lparr>num_syscalls := num_syscalls l - 1\<rparr>) s)) = Inr s1"
      "s' = upd_log (\<lambda>l. l\<lparr>log_commit := False\<rparr>) s1"
      by (auto simp: end_op_def Let_def upd_log_def rbind_eq_Inr split: if_splits)
    with commit_log [OF this(1)] n op_end True show ?thesis
      by (auto simp: ops_ok_def upd_log_def log_ok_def)
  next
    case False
    with op_end.hyps n have "s' = upd_log (\<lambda>l. l\<lparr>num_syscalls := num_syscalls l - 1\<rparr>) s"
      by (auto simp: end_op_def Let_def upd_log_def split: if_splits)
    with op_end.prems le bnd len show ?thesis by (auto simp: ops_ok_def upd_log_def log_ok_def)
  qed
qed

section \<open>Read, modify and write one block\<close>

definition buffer_rmw :: "int \<Rightarrow> u32 \<Rightarrow> (byte list \<Rightarrow> byte list) \<Rightarrow> bcache \<Rightarrow> bcache res" where
  "buffer_rmw pid blk f c =
     rbind (buffer_read pid ROOTDEV blk c) (\<lambda>(i, c).
       rbind (buffer_write pid i (upd_buf i (\<lambda>b. b\<lparr>b_data := f (b_data (bufs c ! i))\<rparr>) c))
         (buffer_release pid i))"

lemma buffer_rmw_spec:
  assumes ok: "cache_ok c" and rd: "readable c blk"
  shows "\<exists>c'. buffer_rmw pid blk f c = Inr c' \<and> cache_ok c'
    \<and> view c' = (view c)(blk := f (view c blk)) \<and> disk c' = (disk c)(blk := f (view c blk))
    \<and> (\<forall>b. readable c b \<longrightarrow> readable c' b)"
proof -
  obtain i c1 where r: "buffer_read pid ROOTDEV blk c = Inr (i, c1)" "reads_to pid c blk i c1"
    using buffer_read_spec [OF ok rd] by blast
  note d = reads_toD [OF r(2)]
  let ?d = "f (view c blk)"
  let ?c2 = "upd_buf i (\<lambda>b. b\<lparr>b_data := ?d\<rparr>) c1"
  have c2: "cache_ok ?c2" "view ?c2 = (view c1)(blk := ?d)" "cached ?c2 = cached c1" "disk ?c2 = disk c1"
    using buffer_modify_spec [OF d(1,3,5,10) refl] by auto
  have i: "i < length (bufs c1)" using d(1,2) by (auto simp: cache_ok_def lru_def)
  have b2: "b_valid (bufs ?c2 ! i) \<noteq> 0" "is_holding_sleeplock pid (b_lock (bufs ?c2 ! i))"
    "b_refcount (bufs ?c2 ! i) \<noteq> 0" using d i by (simp_all add: nth_upd_buf)
  obtain c3 where c3: "buffer_write pid i ?c2 = Inr c3" "cache_ok c3" "bufs c3 = bufs ?c2"
    "disk c3 = (disk ?c2)(blk := view ?c2 blk)" "\<And>b. view c3 b = view ?c2 b" "clean c3 i"
    using buffer_write_spec [OF c2(1) _ b2(1,2), of blk] c2(3) d(3) by metis
  obtain c4 where c4: "buffer_release pid i c3 = Inr c4" "cache_ok c4" "same_blocks c3 c4"
    "b_refcount (bufs c4 ! i) = b_refcount (bufs c3 ! i) - 1" "slocked (b_lock (bufs c4 ! i)) = 0"
    "\<And>j. j \<noteq> i \<Longrightarrow> b_refcount (bufs c4 ! j) = b_refcount (bufs c3 ! j)"
    "\<And>j. j \<noteq> i \<Longrightarrow> b_lock (bufs c4 ! j) = b_lock (bufs c3 ! j)"
    using buffer_release_spec [OF c3(2) d(2), of pid] b2 c3(3,6) by metis
  have "cached c4 b j \<longleftrightarrow> cached c1 b j" for b j
    using same_blocks_view(2) [OF c4(3)] c2(3) c3(3) by (simp add: cached_def fun_eq_iff)
  moreover have "b_refcount (bufs c4 ! j) = b_refcount (bufs c ! j)" for j
    using c4(4,6) c3(3) d(9,11) i by (cases "j = i") (simp_all add: nth_upd_buf)
  ultimately have "readable c4 b" if "readable c b" for b
    using c4(5,7) c3(3) i by (intro readable_kept [OF r(2) rd that]) (simp_all add: nth_upd_buf)
  moreover have "view c4 = (view c)(blk := ?d)"
    using same_blocks_view(1) [OF c4(3)] c3(5) c2(2) d(7) by auto
  moreover have "disk c4 = (disk c)(blk := ?d)"
    using c4(3) c3(4) c2(2,4) d(8) by (simp add: same_blocks_def)
  moreover have "buffer_rmw pid blk f c = Inr c4"
    using r(1) c3(1) c4(1) d(4) by (simp add: buffer_rmw_def)
  ultimately show ?thesis using c4(2) by blast
qed

text \<open>The header routines in these terms.\<close>

definition header_image :: "flog \<Rightarrow> byte list \<Rightarrow> byte list" where
  "header_image l d = put_words 4 ((!) (log_block l)) (nat (log_count l)) (put32 0 (of_int (log_count l)) d)"

lemma write_header_eq:
  assumes "log_dev (log s) = ROOTDEV"
  shows "write_header pid s = rbind (buffer_rmw pid (log_start (log s)) (header_image (log s)) (cache s))
    (\<lambda>c. Inr (s\<lparr>cache := c\<rparr>))"
  using assms
  by (cases "buffer_read pid ROOTDEV (log_start (log s)) (cache s)")
    (auto simp: write_header_def buffer_rmw_def bread_def bwrite_def brelse_def set_bdata_def bdata_def
      header_image_def put_words_def Let_def rbind_assoc split_beta)

lemma read_header_eq:
  assumes "log_dev (log s) = ROOTDEV"
  shows "read_header pid s = rbind (buffer_fetch pid (log_start (log s)) (cache s)) (\<lambda>(d, c).
    Inr (s\<lparr>log := (log s)\<lparr>log_block :=
      foldl (\<lambda>bs i. bs[i := get32 d (4 + 4 * i)]) (log_block (log s)) [0..<nat (log_count (log s))]\<rparr>,
      cache := c\<rparr>))"
  using assms
  by (cases "buffer_read pid ROOTDEV (log_start (log s)) (cache s)")
    (auto simp: read_header_def buffer_fetch_def bread_def brelse_def bdata_def upd_log_def Let_def
      rbind_assoc split_beta)

lemma header_image_fields:
  assumes "length d = BUFFER_SIZE" "log_ok l"
  shows "get32 (header_image l d) 0 = of_int (log_count l)"
    "k < nat (log_count l) \<Longrightarrow> get32 (header_image l d) (4 + 4 * k) = log_block l ! k"
proof -
  have n: "nat (log_count l) \<le> 30" using assms(2) by (simp add: log_ok_def nat_le_iff)
  show "get32 (header_image l d) 0 = of_int (log_count l)"
    using assms(1) by (simp add: header_image_def get32_put_words_other get32_put32_same)
  show "k < nat (log_count l) \<Longrightarrow> get32 (header_image l d) (4 + 4 * k) = log_block l ! k"
    using assms(1) n by (simp add: header_image_def get32_put_words)
qed

section \<open>Modify one block inside a transaction\<close>

text \<open>The file system's way to change a block: read it, change the buffer, \<^verbatim>\<open>log_write\<close>, release. A
  logged block stays in the cache because its buffer is pinned by a reference.\<close>

definition modify_logged :: "int \<Rightarrow> u32 \<Rightarrow> (byte list \<Rightarrow> byte list) \<Rightarrow> fs \<Rightarrow> fs res" where
  "modify_logged pid blk f s =
     rbind (bread pid ROOTDEV blk s) (\<lambda>(buf, s).
       rbind (log_write buf (set_bdata buf (f (bdata buf s)) s)) (brelse pid buf))"

definition pinned :: "fs \<Rightarrow> bool" where
  "pinned s \<longleftrightarrow> (\<forall>b\<in>set (logged (log s)). \<exists>i. cached (cache s) b i \<and> b_refcount (bufs (cache s) ! i) \<noteq> 0)"

text \<open>No buffer is locked and at most \<open>k\<close> references exist to each.\<close>

definition idle :: "nat \<Rightarrow> bcache \<Rightarrow> bool" where
  "idle k c \<longleftrightarrow> (\<forall>i<NUMBUF. slocked (b_lock (bufs c ! i)) = 0 \<and> unat (b_refcount (bufs c ! i)) \<le> k)"

definition nfree :: "bcache \<Rightarrow> nat" where
  "nfree c = card {i. i < NUMBUF \<and> b_refcount (bufs c ! i) = 0}"

lemma readable_idle:
  assumes "idle k c" "k < 65536" "0 < nfree c \<or> (\<exists>i. cached c blk i)"
  shows "readable c blk"
proof -
  have "b_refcount (bufs c ! i) \<noteq> - 1" if "i < NUMBUF" for i
    using assms(1,2) that unat_minus_one_u32 by (fastforce simp: idle_def)
  moreover have "\<exists>i<NUMBUF. b_refcount (bufs c ! i) = 0" if "0 < nfree c"
    using that by (auto simp: nfree_def card_gt_0_iff)
  ultimately show ?thesis using assms(1,3) by (auto simp: readable_def idle_def cached_def)
qed

lemma nfree_lose_one:
  assumes "\<And>j. j \<noteq> i \<Longrightarrow> j < NUMBUF \<Longrightarrow> b_refcount (bufs c ! j) = 0 \<Longrightarrow> b_refcount (bufs c' ! j) = 0"
  shows "nfree c \<le> Suc (nfree c')"
proof -
  have "{j. j < NUMBUF \<and> b_refcount (bufs c ! j) = 0}
      \<subseteq> insert i {j. j < NUMBUF \<and> b_refcount (bufs c' ! j) = 0}" using assms by auto
  then have "nfree c \<le> card (insert i {j. j < NUMBUF \<and> b_refcount (bufs c' ! j) = 0})"
    unfolding nfree_def by (rule card_mono [rotated]) simp
  also have "\<dots> \<le> Suc (nfree c')" unfolding nfree_def by (rule card_insert_le_m1) auto
  finally show ?thesis .
qed

definition modified_to :: "u32 \<Rightarrow> byte list \<Rightarrow> nat \<Rightarrow> fs \<Rightarrow> fs \<Rightarrow> bool" where
  "modified_to blk d k s s' \<longleftrightarrow> cache_ok (cache s') \<and> view (cache s') = (view (cache s))(blk := d)
     \<and> disk (cache s') = disk (cache s) \<and> log s' = log_add blk (log s) \<and> sb s' = sb s
     \<and> inode_table s' = inode_table s \<and> pinned s' \<and> idle (Suc k) (cache s')
     \<and> nfree (cache s) \<le> Suc (nfree (cache s'))"

lemma modified_toD:
  assumes "modified_to blk d k s s'"
  shows "cache_ok (cache s')" "view (cache s') = (view (cache s))(blk := d)"
    "disk (cache s') = disk (cache s)" "log s' = log_add blk (log s)" "sb s' = sb s"
    "inode_table s' = inode_table s" "pinned s'" "idle (Suc k) (cache s')"
    "nfree (cache s) \<le> Suc (nfree (cache s'))"
  using assms unfolding modified_to_def by blast+

text \<open>The first half, up to \<^verbatim>\<open>log_write\<close>: the buffer has the new contents, is still locked, and is referenced once
  more than before when its block is new in the log.\<close>

lemma log_write_modified:
  assumes r1: "reads_to pid (cache s) blk i c1" and ok: "cache_ok (cache s)" and id: "idle k (cache s)" "k < 65530"
    and l: "log_ok (log s)" "log_room (log s)" "pinned s"
  obtains c3 where "log_write i (set_bdata i d (s\<lparr>cache := c1\<rparr>)) = Inr (s\<lparr>log := log_add blk (log s), cache := c3\<rparr>)"
    "cache_ok c3" "view c3 = (view (cache s))(blk := d)" "cached c3 = cached c1" "disk c3 = disk (cache s)"
    "is_holding_sleeplock pid (b_lock (bufs c3 ! i))" "2 \<le> unat (b_refcount (bufs c3 ! i))"
    "unat (b_refcount (bufs c3 ! i)) \<le> Suc (Suc k)" "\<And>j. j \<noteq> i \<Longrightarrow> bufs c3 ! j = bufs (cache s) ! j"
proof -
  note d = reads_toD [OF r1]
  have i: "i < length (bufs c1)" using d(1,2) by (auto simp: cache_ok_def lru_def)
  define c2 where "c2 = upd_buf i (\<lambda>b. b\<lparr>b_data := d\<rparr>) c1"
  have c2: "cache_ok c2" "view c2 = (view c1)(blk := d)" "cached c2 = cached c1" "disk c2 = disk c1"
    using buffer_modify_spec [OF d(1,3,5,10) c2_def] by auto
  have bn: "b_blockno (bufs c2 ! i) = blk" using d(3) i by (simp add: c2_def nth_upd_buf cached_def)
  let ?in = "blk \<in> set (logged (log s))" and ?n = "unat (b_refcount (bufs (cache s) ! i))"
  define c3 where "c3 = (if ?in then c2 else inc_buf_refcount i c2)"
  have small: "?n \<le> k" using id(1) d(2) by (simp add: idle_def)
  have u1: "unat (b_refcount (bufs c1 ! i)) = Suc ?n"
    using unat_plus_u32 [of "b_refcount (bufs (cache s) ! i)" 1] small id(2) by (simp add: d(9))
  have "b_refcount (bufs c3 ! i) = b_refcount (bufs c1 ! i) + (if ?in then 0 else 1)"
    using i by (simp add: c3_def c2_def inc_buf_refcount_def nth_upd_buf)
  then have u3: "unat (b_refcount (bufs c3 ! i)) = (if ?in then 1 else 2) + ?n"
    using unat_plus_u32 [of "b_refcount (bufs c1 ! i)" 1] u1 small id(2) by simp
  have "?n \<noteq> 0" if inl: ?in
  proof -
    obtain j where j: "cached (cache s) blk j" "b_refcount (bufs (cache s) ! j) \<noteq> 0"
      using l(3) inl by (auto simp: pinned_def)
    with d(12) ok have "cached (cache s) blk i" by auto
    with j ok have "j = i" by (auto simp: cache_ok_def no_dups_def)
    with j show ?thesis by (simp add: unat_eq_zero)
  qed
  with u3 small have u: "2 \<le> unat (b_refcount (bufs c3 ! i))" "unat (b_refcount (bufs c3 ! i)) \<le> Suc (Suc k)"
    by (cases ?in; simp)+
  then have nz: "b_refcount (bufs c3 ! i) \<noteq> 0" by auto
  have sb3: "same_blocks c2 c3" by (simp add: c3_def same_blocks_def inc_buf_refcount_def nth_upd_buf)
  have "cache_ok c3"
  proof (cases ?in)
    case False
    have "no_dups c3" using c2(1) same_blocks_view(3) [OF sb3] by (simp add: cache_ok_def)
    with False nz d(2) i show ?thesis unfolding c3_def inc_buf_refcount_def
      by simp (rule cache_ok_upd [OF c2(1)], simp_all add: nth_upd_buf c2_def)
  qed (simp add: c3_def c2(1))
  moreover have "log_write i (set_bdata i d (s\<lparr>cache := c1\<rparr>)) = Inr (s\<lparr>log := log_add blk (log s), cache := c3\<rparr>)"
    using log_write_eq [of "s\<lparr>cache := c2\<rparr>" i] l(1,2) bn by (simp add: set_bdata_def c2_def [symmetric] c3_def)
  moreover have "view c3 = (view (cache s))(blk := d)" using same_blocks_view(1) [OF sb3] c2(2) d(7) by auto
  moreover have "cached c3 = cached c1" using same_blocks_view(2) [OF sb3] c2(3) by auto
  moreover have "disk c3 = disk (cache s)" using sb3 c2(4) d(8) by (simp add: same_blocks_def)
  moreover have "is_holding_sleeplock pid (b_lock (bufs c3 ! i))" "\<And>j. j \<noteq> i \<Longrightarrow> bufs c3 ! j = bufs (cache s) ! j"
    using d(6,11) i by (simp_all add: c3_def c2_def inc_buf_refcount_def nth_upd_buf)
  ultimately show thesis using that u by blast
qed

lemma pinned_log_add:
  assumes r1: "reads_to pid (cache s) blk i c1" and l: "log_ok (log s)" "log_room (log s)" "pinned s"
    and c: "cached c = cached c1" "b_refcount (bufs c ! i) \<noteq> 0"
      "\<And>j. j \<noteq> i \<Longrightarrow> b_refcount (bufs c ! j) = b_refcount (bufs (cache s) ! j)"
  shows "pinned (s\<lparr>log := log_add blk (log s), cache := c\<rparr>)"
proof -
  note d = reads_toD [OF r1]
  have "\<exists>j. cached c b j \<and> b_refcount (bufs c ! j) \<noteq> 0" if b: "b \<in> set (logged (log_add blk (log s)))" for b
  proof (cases "b = blk")
    case True
    with d(3) c(1,2) show ?thesis by auto
  next
    case False
    have "log_count (log s) < int LOGSIZE" using l(2) by (simp add: log_room_def)
    with b False have "b \<in> set (logged (log s))" using log_add_ok(2) [OF l(1)] by auto
    then obtain j where j: "cached (cache s) b j" "b_refcount (bufs (cache s) ! j) \<noteq> 0"
      using l(3) by (auto simp: pinned_def)
    have "j \<noteq> i" using j d(12) False by (auto simp: cached_def)
    with j d(11) c(1,3) show ?thesis by (auto simp: cached_def intro!: exI [of _ j])
  qed
  then show ?thesis by (simp add: pinned_def)
qed

lemma modify_logged_spec:
  assumes ok: "cache_ok (cache s)" and id: "idle k (cache s)" "k < 65530"
    and rd: "0 < nfree (cache s) \<or> (\<exists>i. cached (cache s) blk i)"
    and l: "log_ok (log s)" "log_room (log s)" "pinned s"
  shows "\<exists>s'. modify_logged pid blk f s = Inr s' \<and> modified_to blk (f (view (cache s) blk)) k s s'"
proof -
  have r: "readable (cache s) blk" by (rule readable_idle [OF id(1) _ rd]) (use id(2) in simp)
  obtain i c1 where r1: "buffer_read pid ROOTDEV blk (cache s) = Inr (i, c1)" "reads_to pid (cache s) blk i c1"
    using buffer_read_spec [OF ok r] by blast
  note d = reads_toD [OF r1(2)]
  let ?d = "f (view (cache s) blk)"
  obtain c3 where c3: "log_write i (set_bdata i ?d (s\<lparr>cache := c1\<rparr>)) = Inr (s\<lparr>log := log_add blk (log s), cache := c3\<rparr>)"
    "cache_ok c3" "view c3 = (view (cache s))(blk := ?d)" "cached c3 = cached c1" "disk c3 = disk (cache s)"
    "is_holding_sleeplock pid (b_lock (bufs c3 ! i))" "2 \<le> unat (b_refcount (bufs c3 ! i))"
    "unat (b_refcount (bufs c3 ! i)) \<le> Suc (Suc k)" "\<And>j. j \<noteq> i \<Longrightarrow> bufs c3 ! j = bufs (cache s) ! j"
    by (rule log_write_modified [OF r1(2) ok id l]) (rule that)
  have nz: "b_refcount (bufs c3 ! i) \<noteq> 0" "b_refcount (bufs c3 ! i) \<noteq> 1" using c3(7) by auto
  obtain c4 where c4: "buffer_release pid i c3 = Inr c4" "cache_ok c4" "same_blocks c3 c4"
    "b_refcount (bufs c4 ! i) = b_refcount (bufs c3 ! i) - 1" "slocked (b_lock (bufs c4 ! i)) = 0"
    "\<And>j. j \<noteq> i \<Longrightarrow> b_refcount (bufs c4 ! j) = b_refcount (bufs c3 ! j)"
    "\<And>j. j \<noteq> i \<Longrightarrow> b_lock (bufs c4 ! j) = b_lock (bufs c3 ! j)"
    using buffer_release_spec [OF c3(2) d(2) c3(6) _ nz(1)] nz(2) by metis
  have u4: "unat (b_refcount (bufs c4 ! i)) = unat (b_refcount (bufs c3 ! i)) - 1"
    using unat_minus_one [of "b_refcount (bufs c3 ! i)"] nz(1) c4(4) by simp
  have cached4: "cached c4 = cached c1" using same_blocks_view(2) [OF c4(3)] c3(4) by auto
  have "slocked (b_lock (bufs c4 ! j)) = 0 \<and> unat (b_refcount (bufs c4 ! j)) \<le> Suc k" if "j < NUMBUF" for j
    using c4(5-7) u4 c3(8,9) id(1) that by (cases "j = i") (auto simp: idle_def)
  then have "idle (Suc k) c4" by (simp add: idle_def)
  moreover have "b_refcount (bufs c4 ! i) \<noteq> 0" using u4 c3(7) by auto
  then have "pinned (s\<lparr>log := log_add blk (log s), cache := c4\<rparr>)"
    by (intro pinned_log_add [OF r1(2) l cached4]) (simp_all add: c4(6) c3(9))
  moreover have "nfree (cache s) \<le> Suc (nfree c4)" by (rule nfree_lose_one [of i]) (simp add: c4(6) c3(9))
  moreover have "disk c4 = disk (cache s)" using c4(3) c3(5) by (simp add: same_blocks_def)
  moreover have "view c4 = (view (cache s))(blk := ?d)" using same_blocks_view(1) [OF c4(3)] c3(3) by auto
  moreover have "modify_logged pid blk f s = Inr (s\<lparr>log := log_add blk (log s), cache := c4\<rparr>)"
    using r1(1) c3(1) c4(1) d(4) by (simp add: modify_logged_def bread_def brelse_def bdata_def)
  ultimately show ?thesis using c4(2) by (auto simp: modified_to_def)
qed

section \<open>The bitmap scan\<close>

lemma balloc_scan_Some:
  assumes "balloc_scan d i sz j = Some k"
  shows "j \<le> k" "k < BITMAP_PER_BLOCK" "int (i + k) < sz" "d ! (k div 8) AND push_bit (i mod 8) 1 = 0"
    "\<forall>m. j \<le> m \<and> m < k \<longrightarrow> d ! (m div 8) AND push_bit (i mod 8) 1 \<noteq> 0"
  using assms
proof (induction d i sz j rule: balloc_scan.induct)
  case (1 d i sz j)
  note unfold = balloc_scan.simps [of d i sz j]
  {
    case 1
    then show ?case using "1.IH"(1) by (auto simp: unfold split: if_splits)
  next
    case 2
    then show ?case using "1.IH"(2) by (auto simp: unfold split: if_splits)
  next
    case 3
    then show ?case using "1.IH"(3) by (auto simp: unfold split: if_splits)
  next
    case 4
    then show ?case using "1.IH"(4) by (auto simp: unfold split: if_splits)
  next
    case 5
    then show ?case using "1.IH"(5)
      by (auto simp: unfold split: if_splits) (metis Suc_leI le_neq_implies_less)
  }
qed

text \<open>The mask depends on the block of the bitmap only, so all eight bits of a byte give the same
  answer and the scan stops at the first of them.\<close>

lemma balloc_scan_multiple:
  assumes "balloc_scan d i sz 0 = Some k"
  shows "8 dvd k"
proof -
  let ?m = "8 * (k div 8)"
  have "d ! (?m div 8) AND push_bit (i mod 8) 1 = 0" using balloc_scan_Some(4) [OF assms] by simp
  then have "\<not> ?m < k" using balloc_scan_Some(5) [OF assms] by auto
  then have "k mod 8 = 0" using div_mult_mod_eq [of k 8] by linarith
  then show ?thesis by presburger
qed

lemma buffer_alloc_loop_result:
  "buffer_alloc_loop pid dev i s = Inr (b, s') \<Longrightarrow> 8 dvd i \<Longrightarrow> \<exists>n. b = of_nat n \<and> 8 dvd n \<and> n < 2 ^ 31"
proof (induction pid dev i s arbitrary: b s' rule: buffer_alloc_loop.induct)
  case (1 pid dev i s)
  note unfold = buffer_alloc_loop.simps [of pid dev i s]
  from "1.prems"(1) have guard: "int i < sint (sb_size (sb s)) \<and> i < 2 ^ 31"
    by (simp add: unfold split: if_splits)
  with "1.prems"(1) obtain buf s1 where rd: "bread pid dev (of_nat (i div BITMAP_PER_BLOCK) + sb_bitmap_start (sb s)) s = Inr (buf, s1)"
    by (auto simp: unfold rbind_eq_Inr)
  let ?scan = "balloc_scan (bdata buf s1) i (sint (sb_size (sb s))) 0"
  show ?case
  proof (cases ?scan)
    case None
    with "1.prems"(1) guard rd obtain s2 where "brelse pid buf s1 = Inr s2"
      "buffer_alloc_loop pid dev (i + BITMAP_PER_BLOCK) s2 = Inr (b, s')"
      by (auto simp: unfold Let_def rbind_eq_Inr)
    with "1.IH" [of "(buf, s1)" buf s1 "bdata buf s1" s2 b s'] guard rd None "1.prems"(2) show ?thesis
      by (auto simp: dvd_add)
  next
    case (Some j)
    with "1.prems"(1) guard rd have "b = of_nat (i + j)"
      by (auto simp: unfold Let_def rbind_eq_Inr)
    moreover have "8 dvd i + j" using balloc_scan_multiple [OF Some] "1.prems"(2) by (rule dvd_add [rotated])
    moreover have "int (i + j) < sint (sb_size (sb s))" by (rule balloc_scan_Some(3) [OF Some])
    then have "i + j < 2 ^ 31" using sint_lt [of "sb_size (sb s)"] by simp
    ultimately show ?thesis by blast
  qed
qed

section \<open>Allocation in a transaction\<close>

text \<open>A file system state in which a transaction of a few blocks can run.\<close>

definition fs_ready :: "nat \<Rightarrow> nat \<Rightarrow> fs \<Rightarrow> bool" where
  "fs_ready n k s \<longleftrightarrow> cache_ok (cache s) \<and> idle k (cache s) \<and> k + n < 65530 \<and> n \<le> nfree (cache s)
     \<and> log_ok (log s) \<and> log_count (log s) + int n \<le> int LOGSIZE
     \<and> int LOGSIZE < sint (log_size (log s)) \<and> 1 \<le> num_syscalls (log s) \<and> pinned s"

lemma fs_ready_modify:
  assumes "fs_ready (Suc n) k s"
  shows "\<exists>s'. modify_logged pid blk f s = Inr s' \<and> modified_to blk (f (view (cache s) blk)) k s s'
    \<and> fs_ready n (Suc k) s'"
proof -
  from assms have c: "cache_ok (cache s)" "idle k (cache s)" "k < 65530" "0 < nfree (cache s)"
    "log_ok (log s)" "pinned s" and room: "log_room (log s)"
    by (auto simp: fs_ready_def log_room_def)
  obtain s' where s': "modify_logged pid blk f s = Inr s'" "modified_to blk (f (view (cache s) blk)) k s s'"
    using modify_logged_spec [OF c(1-3) _ c(5) room c(6)] c(4) by blast
  note m = modified_toD [OF s'(2)]
  have lt: "log_count (log s) < int LOGSIZE" using room by (simp add: log_room_def)
  have "fs_ready n (Suc k) s'"
    unfolding fs_ready_def
    using assms m log_add_ok(1,3) [OF c(5) lt, of blk]
    by (auto simp: fs_ready_def log_add_def)
  with s' show ?thesis by blast
qed

lemma buffer_zero_eq: "buffer_zero pid ROOTDEV blk s = modify_logged pid blk (\<lambda>_. replicate BUFFER_SIZE 0) s"
  by (simp add: buffer_zero_def modify_logged_def)

definition bmap_block :: "u32 \<Rightarrow> fs \<Rightarrow> u32" where
  "bmap_block b s = b div of_nat BITMAP_PER_BLOCK + sb_bitmap_start (sb s)"

definition bmap_bit :: "fs \<Rightarrow> u32 \<Rightarrow> bool" where
  "bmap_bit s b = bit (view (cache s) (bmap_block b s) ! (unat b mod BITMAP_PER_BLOCK div 8)) (unat b mod 8)"

lemma and_push_bit_iff: "((x :: byte) AND push_bit n 1 = 0) = (\<not> bit x n)"
  by (simp add: bit_iff_and_push_bit_not_eq_0)

lemma unat_mod_bitmap: "unat ((b :: u32) mod 8192) = unat b mod 8192"
  by (simp add: unat_mod)

text \<open>With a buffer at hand, \<^verbatim>\<open>buffer_free\<close> panics or is a logged modification of the bitmap block.\<close>

lemma buffer_free_cases:
  assumes "cache_ok (cache s)" "readable (cache s) (bmap_block b s)"
  shows "\<not> bmap_bit s b \<Longrightarrow> buffer_free pid ROOTDEV b s = Inl (Panic ''block alredy free'')"
    "bmap_bit s b \<Longrightarrow> buffer_free pid ROOTDEV b s = modify_logged pid (bmap_block b s)
      (\<lambda>d. d[unat b mod BITMAP_PER_BLOCK div 8 := d ! (unat b mod BITMAP_PER_BLOCK div 8)
         AND NOT (push_bit (unat b mod 8) 1)]) s"
proof -
  obtain i c1 where r: "buffer_read pid ROOTDEV (bmap_block b s) (cache s) = Inr (i, c1)"
    "reads_to pid (cache s) (bmap_block b s) i c1" using buffer_read_spec [OF assms] by blast
  have d: "b_data (bufs c1 ! i) = view (cache s) (bmap_block b s)" by (rule reads_toD(4) [OF r(2)])
  have m: "unat b mod BITMAP_PER_BLOCK mod 8 = unat b mod 8" by (simp add: mod_mod_cancel)
  have rd: "bread pid ROOTDEV (b div of_nat BITMAP_PER_BLOCK + sb_bitmap_start (sb s)) s = Inr (i, s\<lparr>cache := c1\<rparr>)"
    using r(1) by (simp add: bread_def bmap_block_def)
  have tst: "(b_data (bufs c1 ! i) ! (unat b mod BITMAP_PER_BLOCK div 8) AND push_bit (unat b mod 8) 1 = 0)
      = (\<not> bmap_bit s b)"
    unfolding d and_push_bit_iff by (simp add: bmap_bit_def)
  show "\<not> bmap_bit s b \<Longrightarrow> buffer_free pid ROOTDEV b s = Inl (Panic ''block alredy free'')"
    using tst unfolding buffer_free_def rd rbind_simps
    by (simp add: bdata_def unat_mod_bitmap m Let_def del: push_bit_of_1)
  show "bmap_bit s b \<Longrightarrow> buffer_free pid ROOTDEV b s = modify_logged pid (bmap_block b s)
      (\<lambda>d. d[unat b mod BITMAP_PER_BLOCK div 8 := d ! (unat b mod BITMAP_PER_BLOCK div 8)
         AND NOT (push_bit (unat b mod 8) 1)]) s"
    using tst unfolding buffer_free_def modify_logged_def bmap_block_def rd rbind_simps
    by (simp add: bdata_def unat_mod_bitmap m Let_def del: push_bit_of_1)
qed

lemma unat_div_8192: "unat ((b :: u32) div of_nat BITMAP_PER_BLOCK) = unat b div 8192"
  by (simp add: unat_div)

lemma mod_8192_split: "(n :: nat) mod 8192 = 8 * (n mod 8192 div 8) + n mod 8"
proof -
  have "n mod 8192 mod 8 = n mod 8" by (simp add: mod_mod_cancel)
  then show ?thesis using mult_div_mod_eq [of 8 "n mod 8192"] by simp
qed

text \<open>Clearing one bit of the bitmap clears that bit and no other.\<close>

lemma bmap_bit_clear:
  assumes "view (cache s') = (view (cache s))(bmap_block b s := (view (cache s) (bmap_block b s))
      [unat b mod BITMAP_PER_BLOCK div 8 := view (cache s) (bmap_block b s) ! (unat b mod BITMAP_PER_BLOCK div 8)
         AND NOT (push_bit (unat b mod 8) 1)])"
    and "sb s' = sb s" "length (view (cache s) (bmap_block b s)) = BUFFER_SIZE"
  shows "bmap_bit s' b' = (bmap_bit s b' \<and> b' \<noteq> b)"
proof -
  let ?d = "view (cache s) (bmap_block b s)" and ?i = "\<lambda>b :: u32. unat b mod BITMAP_PER_BLOCK div 8"
  have blk: "bmap_block b' s' = bmap_block b' s" by (simp add: bmap_block_def assms(2))
  have lt: "?i b < BUFFER_SIZE" by simp
  have eq: "b' = b" if "bmap_block b' s = bmap_block b s" "?i b' = ?i b" "unat b' mod 8 = unat b mod 8"
  proof -
    have "b' div of_nat BITMAP_PER_BLOCK = b div of_nat BITMAP_PER_BLOCK" using that(1) by (simp add: bmap_block_def)
    then have q: "unat b' div 8192 = unat b div 8192" by (metis unat_div_8192)
    have "unat b' mod 8192 = unat b mod 8192"
      using that(2,3) by (metis mod_8192_split)
    with q show ?thesis by (metis div_mult_mod_eq word_unat_eq_iff)
  qed
  show ?thesis
  proof (cases "bmap_block b' s = bmap_block b s \<and> ?i b' = ?i b")
    case True
    then have "bmap_bit s' b' = (bit (?d ! ?i b AND NOT (push_bit (unat b mod 8) 1)) (unat b' mod 8))"
      using lt assms(3) by (simp add: bmap_bit_def blk assms(1))
    also have "\<dots> = (bit (?d ! ?i b) (unat b' mod 8) \<and> unat b' mod 8 \<noteq> unat b mod 8)"
      by (auto simp: bit_simps)
    also have "\<dots> = (bmap_bit s b' \<and> b' \<noteq> b)" using True eq by (auto simp: bmap_bit_def)
    finally show ?thesis .
  next
    case False
    then have "bmap_bit s' b' = bmap_bit s b'" by (auto simp: bmap_bit_def blk assms(1))
    with False show ?thesis by auto
  qed
qed

text \<open>Allocation from the first bitmap block, which covers the whole disk of \<^verbatim>\<open>FSSIZE\<close> blocks.\<close>

lemma buffer_alloc_spec:
  assumes rdy: "fs_ready 2 k s"
    and scan: "balloc_scan (view (cache s) (sb_bitmap_start (sb s))) 0 (sint (sb_size (sb s))) 0 = Some j"
  shows "\<exists>s'. buffer_alloc pid ROOTDEV s = Inr (of_nat j, s') \<and> fs_ready 0 (Suc (Suc k)) s'
    \<and> view (cache s') = ((view (cache s))(sb_bitmap_start (sb s) := (view (cache s) (sb_bitmap_start (sb s)))
        [j div 8 := view (cache s) (sb_bitmap_start (sb s)) ! (j div 8) OR push_bit 0 1]))
        (of_nat j := replicate BUFFER_SIZE 0)"
proof -
  let ?bb = "sb_bitmap_start (sb s)"
  let ?f = "\<lambda>d. d[j div 8 := d ! (j div 8) OR push_bit 0 1]"
  have "fs_ready (Suc (Suc 0)) k s" using rdy by (simp add: numeral_2_eq_2)
  from fs_ready_modify [OF this, of pid ?bb ?f] obtain s1 where
    s1: "modify_logged pid ?bb ?f s = Inr s1" "modified_to ?bb (?f (view (cache s) ?bb)) k s s1"
    "fs_ready (Suc 0) (Suc k) s1" by blast
  from fs_ready_modify [OF s1(3), of pid "of_nat j" "\<lambda>_. replicate BUFFER_SIZE 0"] obtain s2 where
    s2: "buffer_zero pid ROOTDEV (of_nat j) s1 = Inr s2"
    "modified_to (of_nat j) (replicate BUFFER_SIZE 0) (Suc k) s1 s2" "fs_ready 0 (Suc (Suc k)) s2"
    unfolding buffer_zero_eq by blast
  have "readable (cache s) ?bb"
    using rdy by (intro readable_idle [of k]) (auto simp: fs_ready_def)
  then obtain i c1 where r: "buffer_read pid ROOTDEV ?bb (cache s) = Inr (i, c1)" "reads_to pid (cache s) ?bb i c1"
    using buffer_read_spec rdy by (metis fs_ready_def)
  have d: "b_data (bufs c1 ! i) = view (cache s) ?bb" by (rule reads_toD(4) [OF r(2)])
  have rd: "bread pid ROOTDEV ?bb s = Inr (i, s\<lparr>cache := c1\<rparr>)" using r(1) by (simp add: bread_def)
  obtain s3 where s3: "log_write i (set_bdata i (?f (view (cache s) ?bb)) (s\<lparr>cache := c1\<rparr>)) = Inr s3"
    "brelse pid i s3 = Inr s1"
    using s1(1) by (auto simp: modify_logged_def rd bdata_def d rbind_eq_Inr)
  have "0 < sint (sb_size (sb s))" using balloc_scan_Some(3) [OF scan] by simp
  then have "buffer_alloc pid ROOTDEV s = Inr (of_nat j, s2)"
    using rd scan s3 s2(1)
    by (simp add: buffer_alloc_def buffer_alloc_loop.simps [of pid ROOTDEV 0 s] bdata_def d)
  then show ?thesis
    using modified_toD(2) [OF s1(2)] modified_toD(2) [OF s2(2)] s2(3) by auto
qed

section \<open>The log at boot\<close>

text \<open>With the count in memory 0, \<^verbatim>\<open>init_log\<close> reads the header block, copies nothing, and stores 0 in the header.\<close>

lemma init_log_spec:
  assumes "cache_ok (cache s)" "readable (cache s) (sb_log_start (sb s))" "log_count (log s) = 0"
  obtains c where "init_log pid ROOTDEV s = Inr (s\<lparr>log := (log s)\<lparr>log_start := sb_log_start (sb s), log_size := sb_size (sb s), log_dev := ROOTDEV\<rparr>, cache := c\<rparr>)"
    "cache_ok c" "\<And>b. readable (cache s) b \<Longrightarrow> readable c b"
    "view c = (view (cache s))(sb_log_start (sb s) := put32 0 0 (view (cache s) (sb_log_start (sb s))))"
    "disk c = (disk (cache s))(sb_log_start (sb s) := put32 0 0 (view (cache s) (sb_log_start (sb s))))"
proof -
  let ?st = "sb_log_start (sb s)"
  define l where "l = (log s)\<lparr>log_start := ?st, log_size := sb_size (sb s), log_dev := ROOTDEV\<rparr>"
  obtain c where c: "buffer_fetch pid ?st (cache s) = Inr (view (cache s) ?st, c)" "cache_ok c"
    "view c = view (cache s)" "disk c = disk (cache s)" "\<And>b. readable (cache s) b \<Longrightarrow> readable c b"
    using buffer_fetch_spec [OF assms(1,2), of pid] by metis
  let ?s1 = "s\<lparr>log := l, cache := c\<rparr>"
  have rh: "read_header pid (s\<lparr>log := l\<rparr>) = Inr ?s1"
    using c(1) assms(3) by (simp add: read_header_eq l_def)
  have cp: "cpy_log_to_home pid True ?s1 = Inr ?s1"
    using assms(3) by (simp add: cpy_log_to_home_def l_def)
  have l0: "upd_log (\<lambda>l. l\<lparr>log_count := 0\<rparr>) ?s1 = ?s1"
    using assms(3) by (simp add: upd_log_def l_def)
  obtain c' where c': "buffer_rmw pid ?st (header_image l) c = Inr c'" "cache_ok c'"
    "view c' = (view c)(?st := header_image l (view c ?st))" "disk c' = (disk c)(?st := header_image l (view c ?st))"
    "\<And>b. readable c b \<Longrightarrow> readable c' b"
    using buffer_rmw_spec [OF c(2) c(5) [OF assms(2)], of pid "header_image l"] by metis
  have wh: "write_header pid ?s1 = Inr (?s1\<lparr>cache := c'\<rparr>)"
    using write_header_eq [of ?s1 pid] c'(1) by (simp add: l_def)
  have "init_log pid ROOTDEV s = recover_from_log pid (s\<lparr>log := l\<rparr>)"
    by (simp add: init_log_def upd_log_def l_def)
  then have "init_log pid ROOTDEV s = Inr (s\<lparr>log := l, cache := c'\<rparr>)"
    by (simp only: recover_from_log_def rh rbind_simps cp l0 wh) simp
  moreover have "header_image l d = put32 0 0 d" for d using assms(3) by (simp add: header_image_def l_def put_words_def)
  ultimately show thesis using that c(3-5) c'(2-5) by (simp add: l_def)
qed

section \<open>Properties\<close>


text \<open>What \<^verbatim>\<open>write_header\<close> puts on disk: the count and the block numbers of the in-memory header
  are read back from the header block, every other disk block is unchanged, and no cached block
  but the header changes.\<close>

theorem write_header_roundtrip:
  assumes "cache_ok (cache s)" "readable (cache s) (log_start (log s))" "log_dev (log s) = ROOTDEV"
    and "log_ok (log s)" "length (view (cache s) (log_start (log s))) = BUFFER_SIZE"
  shows "\<exists>s'. write_header pid s = Inr s' \<and> log s' = log s
    \<and> get32 (disk (cache s') (log_start (log s))) 0 = of_int (log_count (log s))
    \<and> (\<forall>k<nat (log_count (log s)).
         get32 (disk (cache s') (log_start (log s))) (4 + 4 * k) = log_block (log s) ! k)
    \<and> (\<forall>b. b \<noteq> log_start (log s) \<longrightarrow> disk (cache s') b = disk (cache s) b
         \<and> view (cache s') b = view (cache s) b)"
  using buffer_rmw_spec [OF assms(1,2), of pid "header_image (log s)"] header_image_fields [OF assms(5,4)]
  by (auto simp: write_header_eq [OF assms(3)])

text \<open>Crash recovery replays nothing: \<^verbatim>\<open>read_header\<close> takes its loop bound from memory instead of
  the header block, so at boot, with a zero count in memory, \<^verbatim>\<open>init_log\<close> leaves every home block
  as it is on disk and overwrites the header with count 0, whatever committed transaction the
  header and the log blocks described.\<close>

theorem recovery_discards_committed_log:
  assumes "cache_ok (cache s)" "readable (cache s) (sb_log_start (sb s))"
    and "length (view (cache s) (sb_log_start (sb s))) = BUFFER_SIZE" "log_count (log s) = 0"
  shows "\<exists>s'. init_log pid ROOTDEV s = Inr s'
    \<and> get32 (disk (cache s') (sb_log_start (sb s))) 0 = 0
    \<and> (\<forall>b. b \<noteq> sb_log_start (sb s) \<longrightarrow> disk (cache s') b = disk (cache s) b)"
proof -
  obtain c where "init_log pid ROOTDEV s = Inr (s\<lparr>log := (log s)\<lparr>log_start := sb_log_start (sb s), log_size := sb_size (sb s), log_dev := ROOTDEV\<rparr>, cache := c\<rparr>)"
    "disk c = (disk (cache s))(sb_log_start (sb s) := put32 0 0 (view (cache s) (sb_log_start (sb s))))"
    by (rule init_log_spec [OF assms(1,2,4)])
  then show ?thesis using assms(3) by (simp add: get32_put32_same)
qed

text \<open>Block allocation uses one bit in eight: the mask of \<^verbatim>\<open>buffer_alloc\<close> is computed from the
  outer loop variable, which is a multiple of 8192, so every block number it ever returns is a
  multiple of 8, for every device, bitmap and cache state.\<close>

theorem buffer_alloc_only_multiples_of_8:
  assumes "buffer_alloc pid dev s = Inr (b, s')"
  shows "8 dvd unat b"
proof -
  from buffer_alloc_loop_result [OF assms [unfolded buffer_alloc_def]]
  obtain n where n: "b = of_nat n" "8 dvd n" "n < 2 ^ 31" by auto
  then have "unat b = n" by (simp add: unat_of_nat)
  with n(2) show ?thesis by simp
qed

text \<open>\<^verbatim>\<open>buffer_free\<close> in a transaction: freeing an allocated block clears its bit of the bitmap
  and no other bit of any bitmap block, changes no block but the bitmap block and nothing on
  disk yet; freeing a block whose bit is clear panics.\<close>

theorem buffer_free_clears_one_bit:
  assumes "fs_ready 1 k s" "length (view (cache s) (bmap_block b s)) = BUFFER_SIZE"
  shows "if bmap_bit s b
    then \<exists>s'. buffer_free pid ROOTDEV b s = Inr s' \<and> (\<forall>b'. bmap_bit s' b' = (bmap_bit s b' \<and> b' \<noteq> b))
      \<and> disk (cache s') = disk (cache s) \<and> bmap_block b s \<in> set (logged (log s'))
      \<and> (\<forall>blk. blk \<noteq> bmap_block b s \<longrightarrow> view (cache s') blk = view (cache s) blk)
    else buffer_free pid ROOTDEV b s = Inl (Panic ''block alredy free'')"
proof -
  have ok: "cache_ok (cache s)" "readable (cache s) (bmap_block b s)"
    using assms(1) by (auto simp: fs_ready_def intro!: readable_idle [of k])
  have lt: "log_ok (log s)" "log_count (log s) < int LOGSIZE" using assms(1) by (auto simp: fs_ready_def)
  show ?thesis
  proof (cases "bmap_bit s b")
    case True
    let ?f = "\<lambda>d :: byte list. d[unat b mod BITMAP_PER_BLOCK div 8 := d ! (unat b mod BITMAP_PER_BLOCK div 8)
         AND NOT (push_bit (unat b mod 8) 1)]"
    have rdy: "fs_ready (Suc 0) k s" using assms(1) by simp
    from fs_ready_modify [OF this, of pid "bmap_block b s" ?f]
    obtain s' where s': "modify_logged pid (bmap_block b s) ?f s = Inr s'"
      "modified_to (bmap_block b s) (?f (view (cache s) (bmap_block b s))) k s s'" by blast
    note d = modified_toD [OF s'(2)]
    have "bmap_bit s' b' = (bmap_bit s b' \<and> b' \<noteq> b)" for b'
      by (rule bmap_bit_clear [OF d(2) d(5) assms(2)])
    moreover have "bmap_block b s \<in> set (logged (log s'))"
      using log_add_ok(2) [OF lt] d(4) by simp
    moreover have "buffer_free pid ROOTDEV b s = Inr s'" using buffer_free_cases(2) [OF ok True] s'(1) by simp
    ultimately show ?thesis using True d(2,3) by (simp only: if_True) auto
  next
    case False
    then show ?thesis using buffer_free_cases(1) [OF ok] by simp
  qed
qed

text \<open>\<^verbatim>\<open>buffer_alloc\<close> on a disk that one bitmap block covers: it takes the first byte of the bitmap
  whose lowest bit is clear, sets that bit, and returns the block of that number, whose contents
  are zero afterwards; every block but these two keeps its contents.\<close>

theorem buffer_alloc_takes_first_clear:
  assumes "fs_ready 2 k s" "length (view (cache s) (sb_bitmap_start (sb s))) = BUFFER_SIZE"
    and "j < BUFFER_SIZE" "int (8 * j) < sint (sb_size (sb s))"
    and "\<not> bit (view (cache s) (sb_bitmap_start (sb s)) ! j) 0"
    and "\<forall>i<j. bit (view (cache s) (sb_bitmap_start (sb s)) ! i) 0"
  shows "\<exists>s'. buffer_alloc pid ROOTDEV s = Inr (of_nat (8 * j), s')
    \<and> view (cache s') (of_nat (8 * j)) = replicate BUFFER_SIZE 0
    \<and> (of_nat (8 * j) \<noteq> sb_bitmap_start (sb s) \<longrightarrow> bit (view (cache s') (sb_bitmap_start (sb s)) ! j) 0)
    \<and> (\<forall>b. b \<noteq> of_nat (8 * j) \<and> b \<noteq> sb_bitmap_start (sb s) \<longrightarrow> view (cache s') b = view (cache s) b)"
proof -
  let ?d = "view (cache s) (sb_bitmap_start (sb s))" and ?sz = "sint (sb_size (sb s))"
  have step: "balloc_scan ?d 0 ?sz m = Some (8 * j)" if "m \<le> 8 * j" for m
    using that
  proof (induction "8 * j - m" arbitrary: m)
    case 0
    then have "m = 8 * j" by simp
    with assms(3-5) show ?case
      by (simp add: balloc_scan.simps [of ?d 0 ?sz "8 * j"] and_push_bit_iff [where n = 0, simplified])
  next
    case (Suc n)
    then have "m div 8 < j" by (simp add: less_mult_imp_div_less)
    then have "bit (?d ! (m div 8)) 0" using assms(6) by blast
    with Suc assms(3,4) show ?case
      by (simp add: balloc_scan.simps [of ?d 0 ?sz m] and_push_bit_iff [where n = 0, simplified])
  qed
  from buffer_alloc_spec [OF assms(1) step [of 0]] obtain s' where
    "buffer_alloc pid ROOTDEV s = Inr (of_nat (8 * j), s')"
    "view (cache s') = ((view (cache s))(sb_bitmap_start (sb s) := ?d[8 * j div 8 := ?d ! (8 * j div 8) OR push_bit 0 1]))
        (of_nat (8 * j) := replicate BUFFER_SIZE 0)" by blast
  with assms(2,3) show ?thesis
    by (intro exI [of _ s'] conjI impI allI) (simp_all add: bit_or_iff)
qed

text \<open>Copying into the log can lose another cached block: when the source is the last buffer of
  the array and the destination lies below it, the extra byte that \<^verbatim>\<open>memmove\<close> copies is the
  \<^verbatim>\<open>valid\<close> of the list head, 0, and it clears \<^verbatim>\<open>valid\<close> of the buffer after the destination: a
  modified block cached there falls back to what is on disk.\<close>

theorem blk_move_drops_neighbour:
  assumes "cache_ok (cache s)" "cached (cache s) blk (Suc to)" "b_valid (bufs (cache s) ! Suc to) = 1"
    and "b_valid (bufs (cache s) ! LIST_HEAD) = 0"
  shows "view (cache s) blk = b_data (bufs (cache s) ! Suc to)
    \<and> (to < 29 \<longrightarrow> view (cache (blk_move to 29 s)) blk = disk (cache s) blk)"
proof (intro conjI impI)
  have nd: "no_dups (cache s)" and len: "length (bufs (cache s)) = Suc NUMBUF"
    using assms(1) by (auto simp: cache_ok_def lru_def)
  show "view (cache s) blk = b_data (bufs (cache s) ! Suc to)"
    using view_cached [OF nd assms(2)] assms(3) by simp
  assume to: "to < 29"
  let ?c = "cache (blk_move to 29 s)"
  have c: "?c = upd_buf (Suc to) (\<lambda>b. b\<lparr>b_valid := b_valid b AND NOT 0xff\<rparr>)
      (upd_buf to (\<lambda>b. b\<lparr>b_data := b_data (bufs (cache s) ! 29)\<rparr>) (cache s))"
    using to assms(4) by (simp add: blk_move_def set_valid_low_def set_bdata_def bdata_def)
  then have cc: "cached ?c b j = cached (cache s) b j" for b j
    by (auto simp: cached_def nth_upd_buf)
  then have "no_dups ?c" using nd by (simp add: no_dups_def)
  moreover have "cached ?c blk (Suc to)" using assms(2) cc by simp
  moreover have "b_valid (bufs ?c ! Suc to) = 0"
    using to len assms(3) by (simp add: c nth_upd_buf)
  ultimately show "view ?c blk = disk (cache s) blk" by (simp add: view_cached c)
qed

text \<open>The limit test of \<^verbatim>\<open>log_write\<close> uses the size of the file system instead of the size of the
  log: with the layout that \<^verbatim>\<open>makefs.c\<close> writes (30 log blocks, the inodes behind them) a
  transaction of 30 blocks is accepted, and the home of its last block in the log is the first
  inode block.\<close>

theorem log_write_accepts_block_past_log:
  assumes "log_ok (log s)" "log_size (log s) = sb_size (sb s)" "sint (sb_size (sb s)) = 1000"
    and "sb_num_log (sb s) = 30" "log_start (log s) = sb_log_start (sb s)"
    and "sb_inode_start (sb s) = sb_log_start (sb s) + sb_num_log (sb s)"
    and "log_count (log s) = 29" "num_syscalls (log s) = 3"
    and "b_blockno (bufs (cache s) ! buf) \<notin> set (logged (log s))"
  shows "\<exists>s'. log_write buf s = Inr s' \<and> log_count (log s') = 30
    \<and> log_block (log s') ! 29 = b_blockno (bufs (cache s) ! buf)
    \<and> log_start (log s') + of_nat 29 + 1 = sb_inode_start (sb s)"
proof -
  have "log_room (log s)" using assms by (simp add: log_room_def)
  from log_write_eq [OF assms(1) this, of buf] assms show ?thesis
    by (auto simp: log_add_def log_ok_def)
qed

subsection \<open>Witnesses\<close>

definition log0 :: flog where
  "log0 = \<lparr>log_start = 2, log_commit = False, log_dev = ROOTDEV, log_size = 1000, num_syscalls = 0,
     log_count = 0, log_block = replicate 30 0\<rparr>"

definition sb0 :: superblock where
  "sb0 = \<lparr>sb_magic = FSMAGIC, sb_size = 1000, sb_num_block = 954, sb_num_log = 30, sb_log_start = 2,
     sb_num_inodes = 200, sb_inode_start = 32, sb_bitmap_start = 45\<rparr>"

definition fs0 :: fs where
  "fs0 = \<lparr>cache = cache0, sb = sb0, log = log0, inode_table = []\<rparr>"

lemma log0_ok: "log_ok log0"
  by (simp add: log_ok_def log0_def)

lemma fs0_view: "length (view (cache fs0) b) = BUFFER_SIZE"
  using view_uncached [OF cache0_uncached, of b] cache0_fields(3) by (simp add: fs0_def)

lemma fs0_log: "log fs0 = log0" "sb fs0 = sb0" "cache fs0 = cache0"
  by (simp_all add: fs0_def)


theorem write_header_roundtrip_witness:
  "\<exists>s'. write_header 7 fs0 = Inr s' \<and> get32 (disk (cache s') 2) 0 = 0 \<and> disk (cache s') 9 = disk (cache fs0) 9"
  using write_header_roundtrip [of fs0 7] log0_ok fs0_view cache0_ok cache0_readable
  by (auto simp: fs0_log) (auto simp: log0_def)

theorem recovery_discards_committed_log_witness:
  "\<exists>s'. init_log 7 ROOTDEV fs0 = Inr s' \<and> get32 (disk (cache fs0) 2) 0 = 0x02020202
    \<and> get32 (disk (cache s') 2) 0 = 0 \<and> disk (cache s') 9 = disk (cache fs0) 9"
proof -
  have "get32 (disk (cache fs0) 2) 0 = 0x02020202"
    by (simp add: fs0_log cache0_fields(3) get32_def)
  with recovery_discards_committed_log [of fs0 7] fs0_view cache0_ok cache0_readable show ?thesis
    by (auto simp: fs0_log) (auto simp: sb0_def log0_def)
qed

definition fs_tx :: fs where
  "fs_tx = fs0\<lparr>sb := sb0\<lparr>sb_bitmap_start := 44\<rparr>, log := log0\<lparr>num_syscalls := 1\<rparr>\<rparr>"

lemma fs_tx_fields: "cache fs_tx = cache0" "sb_bitmap_start (sb fs_tx) = 44" "sb_size (sb fs_tx) = 1000"
  by (simp_all add: fs_tx_def fs0_def sb0_def)

lemma fs_tx_view: "view (cache fs_tx) b = replicate 1024 (ucast b)"
  using view_uncached [OF cache0_uncached] by (simp add: fs_tx_fields cache0_fields(3))

lemma cache0_idle: "idle 0 cache0" "nfree cache0 = 30"
proof -
  have "slocked (b_lock (bufs cache0 ! i)) = 0 \<and> b_refcount (bufs cache0 ! i) = 0" if "i < NUMBUF" for i
    using that cache0_ok cache0_fields(1) [of i] by (simp add: cache_ok_def)
  then show "idle 0 cache0" by (simp add: idle_def)
  have "{i. i < NUMBUF \<and> b_refcount (bufs cache0 ! i) = 0} = {0..<NUMBUF}"
    using cache0_fields(1) by auto
  then show "nfree cache0 = 30" by (simp add: nfree_def)
qed

lemma fs_tx_ready: "n \<le> 3 \<Longrightarrow> fs_ready n 0 fs_tx"
  using cache0_ok cache0_idle
  by (auto simp: fs_ready_def fs_tx_fields) (simp_all add: fs_tx_def log0_def log_ok_def pinned_def logged_def)

theorem buffer_free_clears_one_bit_witness:
  "\<exists>s'. buffer_free 7 ROOTDEV 5 fs_tx = Inr s' \<and> bmap_bit fs_tx 5 \<and> \<not> bmap_bit s' 5 \<and> bmap_bit s' 3"
proof -
  have v: "bmap_bit fs_tx 5" "bmap_bit fs_tx 3" "length (view (cache fs_tx) (bmap_block 5 fs_tx)) = BUFFER_SIZE"
    by (simp_all add: bmap_bit_def bmap_block_def fs_tx_fields(2) fs_tx_view bit_simps)
  from buffer_free_clears_one_bit [OF fs_tx_ready v(3), of 7] v show ?thesis by auto
qed

theorem buffer_alloc_takes_first_clear_witness:
  "\<exists>s'. buffer_alloc 7 ROOTDEV fs_tx = Inr (0, s') \<and> view (cache s') 0 = replicate 1024 0"
  using buffer_alloc_takes_first_clear [OF fs_tx_ready [of 2], of 0 7]
  by (simp add: fs_tx_fields(2,3) fs_tx_view bit_simps) blast

theorem buffer_alloc_only_multiples_of_8_witness:
  "\<exists>b s'. buffer_alloc 7 ROOTDEV fs_tx = Inr (b, s') \<and> 8 dvd unat b"
proof -
  have "balloc_scan (view (cache fs_tx) (sb_bitmap_start (sb fs_tx))) 0 (sint (sb_size (sb fs_tx))) 0 = Some 0"
    by (simp add: fs_tx_fields(2,3) fs_tx_view balloc_scan.simps [of _ 0 _ 0])
  from buffer_alloc_spec [OF fs_tx_ready this] obtain s' where
    "buffer_alloc 7 ROOTDEV fs_tx = Inr (of_nat 0, s')" by auto
  then show ?thesis using buffer_alloc_only_multiples_of_8 by blast
qed

text \<open>A cache with two buffers in use, 28 and 29, for the copy that clears \<^verbatim>\<open>valid\<close> of its neighbour.\<close>

definition fs1 :: fs where
  "fs1 = fs0\<lparr>cache := upd_buf 5 (\<lambda>b. b\<lparr>b_dev := ROOTDEV, b_blockno := 40, b_valid := 1, b_refcount := 2,
     b_data := replicate 1024 9\<rparr>) cache0\<rparr>"

lemma fs1_cached: "cached (cache fs1) b j \<longleftrightarrow> b = 40 \<and> j = 5"
proof -
  have "length (bufs cache0) = 31" using cache0_lru by (simp add: lru_def)
  then show ?thesis using cache0_uncached [of b j]
    by (auto simp: fs1_def cached_def nth_upd_buf)
qed

lemma fs1_ok: "cache_ok (cache fs1)"
proof -
  have "no_dups (cache fs1)" by (simp add: no_dups_def fs1_cached)
  then show ?thesis unfolding fs1_def
    by simp (rule cache_ok_upd [OF cache0_ok], simp_all)
qed

lemma cache0_valid: "b_valid (bufs cache0 ! LIST_HEAD) = 0"
proof -
  have v: "b_valid (bufs (foldl buffer_init_step b is) ! j) = b_valid (bufs b ! j)" for b "is" j
    by (induction "is" arbitrary: b)
      (auto simp: buffer_init_step_def same_but_links_fields(1) [OF same_but_links_ops(1)] nth_upd_buf)
  show ?thesis
    by (simp add: cache0_def buffer_init_def Let_def v set_next_def set_prev_def nth_upd_buf
        zero_cache_def zero_buf_def)
qed

theorem blk_move_drops_neighbour_witness:
  "view (cache fs1) 40 = replicate 1024 9 \<and> view (cache (blk_move 4 29 fs1)) 40 = replicate 1024 40"
proof -
  have len: "length (bufs cache0) = 31" using cache0_lru by (simp add: lru_def)
  have "b_valid (bufs (cache fs1) ! LIST_HEAD) = 0"
    using cache0_valid by (simp add: fs1_def nth_upd_buf)
  with blk_move_drops_neighbour [OF fs1_ok, of 40 4] fs1_cached show ?thesis
    by (simp add: fs1_def nth_upd_buf len cache0_fields(3))
qed

definition full_log :: flog where
  "full_log = log0\<lparr>log_count := 29, num_syscalls := 3, log_block := map of_nat [100..<130]\<rparr>"

theorem log_write_accepts_block_past_log_witness:
  "\<exists>s'. log_write 5 (fs1\<lparr>log := full_log\<rparr>) = Inr s' \<and> log_start (log s') + of_nat 29 + 1 = 32"
proof -
  have len: "length (bufs cache0) = 31" using cache0_lru by (simp add: lru_def)
  have l: "log_ok full_log" "(40 :: u32) \<notin> set (logged full_log)" by code_simp+
  with log_write_accepts_block_past_log [of "fs1\<lparr>log := full_log\<rparr>" 5] show ?thesis
    by (simp add: fs1_def fs0_def sb0_def nth_upd_buf len) (auto simp: full_log_def log0_def)
qed

end
