(* ===== verification/Fs_Inode.thy ===== *)
theory Fs_Inode
  imports Fs_Log
begin

text \<open>
  The inode layer of \<^verbatim>\<open>kernel/filesys.c\<close>. A \<^verbatim>\<open>struct inode *\<close> is an index into \<open>inode_table\<close>.
  A \<^verbatim>\<open>struct disk_inode\<close> takes 64 bytes of its block: \<^verbatim>\<open>type\<close>, \<^verbatim>\<open>major_dev_num\<close>,
  \<^verbatim>\<open>minor_dev_num\<close>, \<^verbatim>\<open>num_link\<close> (two bytes each), \<^verbatim>\<open>size\<close> at offset 8 and thirteen
  \<^verbatim>\<open>addresses\<close> from offset 12.

  \<^verbatim>\<open>inode_update\<close> copies the addresses with \<^verbatim>\<open>memmove\<close> from the inode table down into the
  buffer array (\<^verbatim>\<open>bufcache.o\<close> is linked before \<^verbatim>\<open>filesys.o\<close>), so one byte more than asked is
  moved: the low byte of the next table entry's \<^verbatim>\<open>dev\<close> lands in the low byte of the next disk
  inode's \<^verbatim>\<open>type\<close>, or, for the last inode of a block, of the next buffer's \<^verbatim>\<open>valid\<close>. For the
  last entry of the table the byte comes from the object that the linker puts after it: the
  argument \<open>past\<close>. Copies in the other direction are exact. User memory is reached through
  arguments that stand for \<^verbatim>\<open>either_copyout\<close> and \<^verbatim>\<open>either_copyin\<close>.
\<close>

unbundle bit_operations_syntax

abbreviation "NUMINODE \<equiv> 50 :: nat"
abbreviation "INODE_PER_BLOCK \<equiv> 16 :: nat"
abbreviation "NDIRECT \<equiv> 12 :: nat"
abbreviation "NINDIRECT \<equiv> 256 :: nat"
abbreviation "MAXFILE \<equiv> 268 :: nat"
abbreviation "ROOTING \<equiv> 1 :: u32"

section \<open>Access to inodes and disk inodes\<close>

definition upd_inode :: "nat \<Rightarrow> (inode \<Rightarrow> inode) \<Rightarrow> fs \<Rightarrow> fs" where
  "upd_inode ip f s = s\<lparr>inode_table := (inode_table s)[ip := f (inode_table s ! ip)]\<rparr>"

definition iblock :: "u32 \<Rightarrow> fs \<Rightarrow> u32" where
  "iblock inum s = inum div of_nat INODE_PER_BLOCK + sb_inode_start (sb s)"

definition dinode_off :: "u32 \<Rightarrow> nat" where
  "dinode_off inum = 64 * (unat inum mod INODE_PER_BLOCK)"

definition get_addresses :: "byte list \<Rightarrow> nat \<Rightarrow> u32 list" where
  "get_addresses d p = map (\<lambda>k. get32 d (p + 12 + 4 * k)) [0..<13]"

definition put_addresses :: "nat \<Rightarrow> u32 list \<Rightarrow> byte list \<Rightarrow> byte list" where
  "put_addresses p as d = foldl (\<lambda>d k. put32 (p + 12 + 4 * k) (as ! k) d) d [0..<13]"

definition put_dinode :: "nat \<Rightarrow> inode \<Rightarrow> byte list \<Rightarrow> byte list" where
  "put_dinode p ip d =
     (let d = put16 p (i_type ip) d;
          d = put16 (p + 2) (i_major_dev_num ip) d;
          d = put16 (p + 4) (i_minor_dev_num ip) d;
          d = put16 (p + 6) (i_num_link ip) d;
          d = put32 (p + 8) (i_size ip) d
      in put_addresses p (i_addresses ip) d)"

definition get_dinode :: "byte list \<Rightarrow> nat \<Rightarrow> inode \<Rightarrow> inode" where
  "get_dinode d p ip = ip\<lparr>i_type := get16 d p, i_major_dev_num := get16 d (p + 2),
     i_minor_dev_num := get16 d (p + 4), i_num_link := get16 d (p + 6), i_size := get32 d (p + 8),
     i_addresses := get_addresses d p\<rparr>"

section \<open>Table entries\<close>

definition inode_init :: "fs \<Rightarrow> fs" where
  "inode_init s = s\<lparr>inode_table := map (\<lambda>ip. ip\<lparr>i_lock := initsleeplock ''inode sleeplocks''\<rparr>) (inode_table s)\<rparr>"

text \<open>The scan of \<^verbatim>\<open>inode_get\<close>: the entry with this identity, or else the first empty one.\<close>

fun iget_scan :: "u32 \<Rightarrow> u32 \<Rightarrow> nat option \<Rightarrow> nat list \<Rightarrow> inode list \<Rightarrow> bool \<times> nat option" where
  "iget_scan dev inum slot [] tbl = (False, slot)"
| "iget_scan dev inum slot (i # is) tbl =
     (let ip = tbl ! i in
      if i_refcount ip > 0 \<and> i_dev ip = dev \<and> i_inode_num ip = inum then (True, Some i)
      else iget_scan dev inum (if slot = None \<and> i_refcount ip = 0 then Some i else slot) is tbl)"

definition inode_get :: "u32 \<Rightarrow> u32 \<Rightarrow> fs \<Rightarrow> (nat \<times> fs) res" where
  "inode_get dev inum s =
     (case iget_scan dev inum None [0..<NUMINODE] (inode_table s) of
        (True, Some i) \<Rightarrow> Inr (i, upd_inode i (\<lambda>ip. ip\<lparr>i_refcount := i_refcount ip + 1\<rparr>) s)
      | (False, Some i) \<Rightarrow> Inr (i, upd_inode i (\<lambda>ip. ip\<lparr>i_dev := dev, i_inode_num := inum,
            i_refcount := 1, i_valid := 0\<rparr>) s)
      | (_, None) \<Rightarrow> Inl (Panic ''no inodes inode_get()''))"

definition inode_dup :: "nat \<Rightarrow> fs \<Rightarrow> fs" where
  "inode_dup i = upd_inode i (\<lambda>ip. ip\<lparr>i_refcount := i_refcount ip + 1\<rparr>)"

definition inode_lock :: "int \<Rightarrow> nat \<Rightarrow> fs \<Rightarrow> fs res" where
  "inode_lock pid i s =
     (let ip = inode_table s ! i in
      if i_refcount ip < 1 then Inl (Panic ''up == 0 || inode->refcount < 1, inode_lock'')
      else rbind (acquire_sleeplock pid (i_lock ip)) (\<lambda>k.
        let s = upd_inode i (\<lambda>ip. ip\<lparr>i_lock := k\<rparr>) s in
        if i_valid ip = 0 then
          rbind (bread pid (i_dev ip) (iblock (i_inode_num ip) s) s) (\<lambda>(buf, s).
            let s = upd_inode i (get_dinode (bdata buf s) (dinode_off (i_inode_num ip))) s
            in rbind (brelse pid buf s) (\<lambda>s.
                 let s = upd_inode i (\<lambda>ip. ip\<lparr>i_valid := 1\<rparr>) s
                 in if i_type (inode_table s ! i) = 0 then Inl (Panic ''no type in inode_lock'')
                    else Inr s))
        else Inr s))"

definition inode_unlock :: "int \<Rightarrow> nat \<Rightarrow> fs \<Rightarrow> fs res" where
  "inode_unlock pid i s =
     (let ip = inode_table s ! i in
      if \<not> is_holding_sleeplock pid (i_lock ip) \<or> i_refcount ip < 1 then Inl (Panic ''inode_unlock'')
      else Inr (upd_inode i (\<lambda>ip. ip\<lparr>i_lock := release_sleeplock (i_lock ip)\<rparr>) s))"

section \<open>Disk inodes\<close>

function inode_alloc_loop :: "int \<Rightarrow> u32 \<Rightarrow> u16 \<Rightarrow> nat \<Rightarrow> fs \<Rightarrow> (nat \<times> fs) res" where
  "inode_alloc_loop pid dev ty inum s =
     (if int inum < sint (sb_num_inodes (sb s)) \<and> inum < 2 ^ 31 then
        rbind (bread pid dev (iblock (of_nat inum) s) s) (\<lambda>(buf, s').
          let d = bdata buf s'; p = dinode_off (of_nat inum) in
          if get16 d p = 0 then
            let d = put16 p ty (foldl (\<lambda>d k. d[p + k := 0]) d [0..<64])
            in rbind (log_write buf (set_bdata buf d s')) (\<lambda>s'.
                 rbind (brelse pid buf s') (inode_get dev (of_nat inum)))
          else rbind (brelse pid buf s') (inode_alloc_loop pid dev ty (Suc inum)))
      else Inl (Panic ''no inodes found''))"
  by pat_completeness auto
termination
  by (relation "measure (\<lambda>(pid, dev, ty, inum, s). 2 ^ 31 - inum)") auto

declare inode_alloc_loop.simps [simp del]

definition inode_alloc :: "int \<Rightarrow> u32 \<Rightarrow> u16 \<Rightarrow> fs \<Rightarrow> (nat \<times> fs) res" where
  "inode_alloc pid dev ty s = inode_alloc_loop pid dev ty 1 s"

definition inode_update :: "byte \<Rightarrow> int \<Rightarrow> nat \<Rightarrow> fs \<Rightarrow> fs res" where
  "inode_update past pid i s =
     (let ip = inode_table s ! i in
      rbind (bread pid (i_dev ip) (iblock (i_inode_num ip) s) s) (\<lambda>(buf, s).
        let p = dinode_off (i_inode_num ip);
            spill = (if Suc i < NUMINODE then ucast (i_dev (inode_table s ! Suc i)) else past);
            d = put_dinode p ip (bdata buf s);
            s = (if p + 64 < BUFFER_SIZE then set_bdata buf (d[p + 64 := spill]) s
                 else set_valid_low (Suc buf) spill (set_bdata buf d s))
        in rbind (log_write buf s) (brelse pid buf)))"

section \<open>Contents\<close>

definition free_address :: "int \<Rightarrow> nat \<Rightarrow> nat \<Rightarrow> fs \<Rightarrow> fs res" where
  "free_address pid i k s =
     (let ip = inode_table s ! i in
      if i_addresses ip ! k \<noteq> 0 then
        rbind (buffer_free pid (i_dev ip) (i_addresses ip ! k) s)
          (\<lambda>s. Inr (upd_inode i (\<lambda>ip. ip\<lparr>i_addresses := (i_addresses ip)[k := 0]\<rparr>) s))
      else Inr s)"

definition inode_truncate :: "byte \<Rightarrow> int \<Rightarrow> nat \<Rightarrow> fs \<Rightarrow> fs res" where
  "inode_truncate past pid i s =
     rbind (mfold (free_address pid i) [0..<NDIRECT] s) (\<lambda>s.
       let ip = inode_table s ! i; ind = i_addresses ip ! NDIRECT in
       rbind (if ind \<noteq> 0 then
                rbind (bread pid (i_dev ip) ind s) (\<lambda>(buf, s).
                  rbind (mfold (\<lambda>j s. let a = get32 (bdata buf s) (4 * j)
                                       in if a \<noteq> 0 then buffer_free pid (i_dev ip) a s else Inr s)
                           [0..<NDIRECT] s) (\<lambda>s.
                    rbind (brelse pid buf s) (\<lambda>s.
                      rbind (buffer_free pid (i_dev ip) ind s)
                        (\<lambda>s. Inr (upd_inode i (\<lambda>ip. ip\<lparr>i_addresses := (i_addresses ip)[NDIRECT := 0]\<rparr>) s)))))
              else Inr s) (\<lambda>s.
         inode_update past pid i (upd_inode i (\<lambda>ip. ip\<lparr>i_size := 0\<rparr>) s)))"

definition inode_put :: "byte \<Rightarrow> int \<Rightarrow> nat \<Rightarrow> fs \<Rightarrow> fs res" where
  "inode_put past pid i s =
     (let ip = inode_table s ! i in
      rbind (if i_refcount ip = 1 \<and> i_valid ip \<noteq> 0 \<and> i_num_link ip = 0 then
               rbind (acquire_sleeplock pid (i_lock ip)) (\<lambda>k.
                 rbind (inode_truncate past pid i (upd_inode i (\<lambda>ip. ip\<lparr>i_lock := k\<rparr>) s)) (\<lambda>s.
                   rbind (inode_update past pid i (upd_inode i (\<lambda>ip. ip\<lparr>i_type := 0\<rparr>) s)) (\<lambda>s.
                     Inr (upd_inode i (\<lambda>ip. ip\<lparr>i_valid := 0, i_lock := release_sleeplock (i_lock ip)\<rparr>) s))))
             else Inr s) (\<lambda>s.
        Inr (upd_inode i (\<lambda>ip. ip\<lparr>i_refcount := i_refcount ip - 1\<rparr>) s)))"

definition buffer_map :: "int \<Rightarrow> nat \<Rightarrow> u32 \<Rightarrow> fs \<Rightarrow> (u32 \<times> fs) res" where
  "buffer_map pid i bn s =
     (let ip = inode_table s ! i;
          alloc_into = (\<lambda>k s. rbind (buffer_alloc pid (i_dev ip) s) (\<lambda>(addr, s).
             Inr (addr, upd_inode i (\<lambda>ip. ip\<lparr>i_addresses := (i_addresses ip)[k := addr]\<rparr>) s)))
      in
      if bn < of_nat NDIRECT then
        (let addr = i_addresses ip ! unat bn
         in if addr = 0 then alloc_into (unat bn) s else Inr (addr, s))
      else if bn - of_nat NDIRECT < of_nat NINDIRECT then
        (let bn = unat (bn - of_nat NDIRECT); addr = i_addresses ip ! NDIRECT in
         rbind (if addr = 0 then alloc_into NDIRECT s else Inr (addr, s)) (\<lambda>(addr, s).
           rbind (bread pid (i_dev ip) addr s) (\<lambda>(buf, s).
             let a = get32 (bdata buf s) (4 * bn) in
             rbind (if a = 0 then
                      rbind (buffer_alloc pid (i_dev ip) s) (\<lambda>(a, s).
                        rbind (log_write buf (set_bdata buf (put32 (4 * bn) a (bdata buf s)) s))
                          (\<lambda>s. Inr (a, s)))
                    else Inr (a, s)) (\<lambda>(a, s).
               rbind (brelse pid buf s) (\<lambda>s. Inr (a, s))))))
      else Inl (Panic ''buffer_map: out of range''))"

text \<open>The chunk of one round of the copy loops: up to the end of the block or of the request.\<close>

definition chunk :: "u32 \<Rightarrow> u32 \<Rightarrow> u32" where
  "chunk rest off = (let r = of_nat BUFFER_SIZE - off mod of_nat BUFFER_SIZE in if rest < r then rest else r)"

text \<open>\<open>out dst bytes u\<close> is \<^verbatim>\<open>either_copyout\<close> on the destination memory \<open>u\<close>. Each round moves at
  least one byte, so \<open>n\<close> rounds are enough.\<close>

fun read_inode_loop ::
  "(u32 \<Rightarrow> byte list \<Rightarrow> 'u \<Rightarrow> 'u option) \<Rightarrow> int \<Rightarrow> nat \<Rightarrow> nat \<Rightarrow> u32 \<Rightarrow> u32 \<Rightarrow> u32 \<Rightarrow> u32
     \<Rightarrow> fs \<times> 'u \<Rightarrow> (fs \<times> 'u) res" where
  "read_inode_loop out pid ip fuel dst off n i (s, u) =
     (if i < n then
        (case fuel of 0 \<Rightarrow> Inl Diverges | Suc fuel \<Rightarrow>
         rbind (buffer_map pid ip (off div of_nat BUFFER_SIZE) s) (\<lambda>(addr, s).
           if addr = 0 then Inr (s, u)
           else
             rbind (buffer_map pid ip (off div of_nat BUFFER_SIZE) s) (\<lambda>(addr, s).
               rbind (bread pid (i_dev (inode_table s ! ip)) addr s) (\<lambda>(buf, s).
                 let j = chunk (n - i) off;
                     bytes = take (unat j) (drop (unat (off mod of_nat BUFFER_SIZE)) (bdata buf s))
                 in case out dst bytes u of
                      None \<Rightarrow> rbind (brelse pid buf s) (\<lambda>s. Inr (s, u))
                    | Some u \<Rightarrow> rbind (brelse pid buf s)
                        (\<lambda>s. read_inode_loop out pid ip fuel (dst + j) (off + j) n (i + j) (s, u))))))
      else Inr (s, u))"

declare read_inode_loop.simps [simp del]

definition read_inode ::
  "(u32 \<Rightarrow> byte list \<Rightarrow> 'u \<Rightarrow> 'u option) \<Rightarrow> int \<Rightarrow> nat \<Rightarrow> u32 \<Rightarrow> u32 \<Rightarrow> u32 \<Rightarrow> fs \<times> 'u
     \<Rightarrow> (int \<times> fs \<times> 'u) res" where
  "read_inode out pid ip dst off n = (\<lambda>(s, u).
     let isize = i_size (inode_table s ! ip) in
     if off > isize \<or> off + n < off then Inr (- 1, s, u)
     else let n = (if off + n > isize then isize - off else n)
          in rbind (read_inode_loop out pid ip (unat n) dst off n 0 (s, u)) (\<lambda>r. Inr (sint n, r)))"

text \<open>\<open>inp src n\<close> is what \<^verbatim>\<open>either_copyin\<close> of \<open>n\<close> bytes delivers and whether it succeeded. A failed
  copy may have delivered some bytes, which stay in the buffer although the block is not logged;
  a kernel source goes through \<^verbatim>\<open>memmove\<close> and may deliver \<open>n + 1\<close> bytes. \<open>store_at\<close> puts the
  bytes into the block, and a byte past its end into the next buffer's \<^verbatim>\<open>valid\<close>.\<close>

definition store_at :: "nat \<Rightarrow> nat \<Rightarrow> byte list \<Rightarrow> fs \<Rightarrow> fs" where
  "store_at buf p bytes s =
     (let d = bdata buf s;
          s = set_bdata buf (take p d @ take (BUFFER_SIZE - p) bytes @ drop (p + length bytes) d) s
      in if BUFFER_SIZE < p + length bytes then set_valid_low (Suc buf) (bytes ! (BUFFER_SIZE - p)) s
         else s)"

fun write_inode_loop ::
  "(u32 \<Rightarrow> u32 \<Rightarrow> byte list \<times> bool) \<Rightarrow> int \<Rightarrow> nat \<Rightarrow> nat \<Rightarrow> u32 \<Rightarrow> u32 \<Rightarrow> u32 \<Rightarrow> u32 \<Rightarrow> fs
     \<Rightarrow> (u32 \<times> u32 \<times> fs) res" where
  "write_inode_loop inp pid ip fuel src off n i s =
     (if i < n then
        (case fuel of 0 \<Rightarrow> Inl Diverges | Suc fuel \<Rightarrow>
         rbind (buffer_map pid ip (off div of_nat BUFFER_SIZE) s) (\<lambda>(addr, s).
           rbind (bread pid (i_dev (inode_table s ! ip)) addr s) (\<lambda>(buf, s).
             let j = chunk (n - i) off;
                 p = unat (off mod of_nat BUFFER_SIZE);
                 (bytes, ok) = inp src j;
                 s = store_at buf p bytes s
             in if \<not> ok then rbind (brelse pid buf s) (\<lambda>s. Inr (i, off, s))
                else rbind (log_write buf s) (\<lambda>s.
                       rbind (brelse pid buf s)
                         (write_inode_loop inp pid ip fuel (src + j) (off + j) n (i + j))))))
      else Inr (i, off, s))"

declare write_inode_loop.simps [simp del]

definition write_inode ::
  "byte \<Rightarrow> (u32 \<Rightarrow> u32 \<Rightarrow> byte list \<times> bool) \<Rightarrow> int \<Rightarrow> nat \<Rightarrow> u32 \<Rightarrow> u32 \<Rightarrow> u32 \<Rightarrow> fs \<Rightarrow> (int \<times> fs) res" where
  "write_inode past inp pid ip src off n s =
     (if off > i_size (inode_table s ! ip) \<or> off + n < off then Inr (- 1, s)
      else if off + n > of_nat (MAXFILE * BUFFER_SIZE) then Inr (- 1, s)
      else rbind (write_inode_loop inp pid ip (unat n) src off n 0 s) (\<lambda>(i, off, s).
        let s = (if off > i_size (inode_table s ! ip)
                 then upd_inode ip (\<lambda>p. p\<lparr>i_size := off\<rparr>) s else s)
        in rbind (inode_update past pid ip s) (\<lambda>s. Inr (sint i, s))))"

record stat =
  st_dev :: u32
  st_inode_num :: u32
  st_type :: u16
  st_num_link :: u16
  st_size :: u64

definition copy_stat_inode :: "inode \<Rightarrow> stat" where
  "copy_stat_inode ip = \<lparr>st_dev = i_dev ip, st_inode_num = i_inode_num ip, st_type = i_type ip,
     st_num_link = i_num_link ip, st_size = ucast (i_size ip)\<rparr>"

section \<open>Disk inode codec\<close>

lemma put_addresses_words: "put_addresses p as d = put_words (p + 12) ((!) as) 13 d"
  by (simp add: put_addresses_def put_words_def)

lemma length_put_dinode [simp]: "length (put_dinode p ip d) = length d"
  by (simp add: put_dinode_def Let_def put_addresses_words)

lemma nth_put_dinode: "k < p \<or> p + 64 \<le> k \<Longrightarrow> put_dinode p ip d ! k = d ! k"
  by (auto simp: put_dinode_def Let_def put_addresses_words nth_put_words nth_put32 nth_put16)

lemma get_dinode_put_dinode:
  assumes "p + 64 \<le> length d" "length (i_addresses ip) = 13"
  shows "get_dinode (put_dinode p ip d) p ip0 = ip0\<lparr>i_type := i_type ip, i_major_dev_num := i_major_dev_num ip,
    i_minor_dev_num := i_minor_dev_num ip, i_num_link := i_num_link ip, i_size := i_size ip,
    i_addresses := i_addresses ip\<rparr>"
proof -
  have "get_addresses (put_dinode p ip d) p = i_addresses ip"
    using assms by (auto simp: get_addresses_def put_dinode_def Let_def put_addresses_words
        get32_put_words intro!: nth_equalityI)
  then show ?thesis
    using assms(1)
    by (simp add: get_dinode_def) (simp add: put_dinode_def Let_def put_addresses_words
        get16_put_words_other get32_put_words_other field_simps_le)
qed

lemma get_dinode_cong:
  assumes "\<And>k. p \<le> k \<Longrightarrow> k < p + 64 \<Longrightarrow> d ! k = d' ! k"
  shows "get_dinode d p ip = get_dinode d' p ip"
proof -
  have "get32 d (p + 12 + 4 * k) = get32 d' (p + 12 + 4 * k)" if "k < 13" for k
    using that assms by (intro get32_cong) simp
  moreover have "get16 d p = get16 d' p" "get16 d (p + 2) = get16 d' (p + 2)"
    "get16 d (p + 4) = get16 d' (p + 4)" "get16 d (p + 6) = get16 d' (p + 6)"
    "get32 d (p + 8) = get32 d' (p + 8)"
    using assms by (auto intro!: get16_cong get32_cong)
  ultimately show ?thesis by (simp add: get_dinode_def get_addresses_def)
qed

section \<open>The inode table\<close>

definition holds_id :: "u32 \<Rightarrow> u32 \<Rightarrow> inode \<Rightarrow> bool" where
  "holds_id dev inum ip \<longleftrightarrow> i_refcount ip > 0 \<and> i_dev ip = dev \<and> i_inode_num ip = inum"

definition itable_ok :: "inode list \<Rightarrow> bool" where
  "itable_ok tbl \<longleftrightarrow> length tbl = NUMINODE \<and> (\<forall>i j dev inum. i < NUMINODE \<longrightarrow> j < NUMINODE \<longrightarrow>
     holds_id dev inum (tbl ! i) \<longrightarrow> holds_id dev inum (tbl ! j) \<longrightarrow> i = j)"

lemma iget_scan_spec:
  "iget_scan dev inum slot is tbl =
    (case find (\<lambda>i. holds_id dev inum (tbl ! i)) is of
       Some i \<Rightarrow> (True, Some i)
     | None \<Rightarrow> (False, case slot of Some k \<Rightarrow> Some k | None \<Rightarrow> find (\<lambda>i. i_refcount (tbl ! i) = 0) is))"
  by (induction "is" arbitrary: slot) (auto simp: holds_id_def Let_def split: option.splits)

lemma find_upt_SomeD: "find P [0..<n] = Some i \<Longrightarrow> i < n \<and> P i"
  by (auto simp: find_Some_iff)

lemma inode_get_cases:
  assumes "itable_ok (inode_table s)"
  obtains (hit) i where "i < NUMINODE" "holds_id dev inum (inode_table s ! i)"
      "inode_get dev inum s = Inr (i, upd_inode i (\<lambda>ip. ip\<lparr>i_refcount := i_refcount ip + 1\<rparr>) s)"
  | (fresh) i where "i < NUMINODE" "\<forall>j<NUMINODE. \<not> holds_id dev inum (inode_table s ! j)"
      "i_refcount (inode_table s ! i) = 0"
      "inode_get dev inum s = Inr (i, upd_inode i (\<lambda>ip. ip\<lparr>i_dev := dev, i_inode_num := inum,
            i_refcount := 1, i_valid := 0\<rparr>) s)"
  | (full) "\<forall>j<NUMINODE. \<not> holds_id dev inum (inode_table s ! j)"
      "\<forall>j<NUMINODE. i_refcount (inode_table s ! j) \<noteq> 0"
      "inode_get dev inum s = Inl (Panic ''no inodes inode_get()'')"
proof (cases "find (\<lambda>i. holds_id dev inum (inode_table s ! i)) [0..<NUMINODE]")
  case (Some i)
  then show thesis using find_upt_SomeD [OF Some]
    by (intro hit [of i]) (simp_all add: inode_get_def iget_scan_spec)
next
  case None
  then have none: "\<forall>j<NUMINODE. \<not> holds_id dev inum (inode_table s ! j)" by (auto simp: find_None_iff)
  show thesis
  proof (cases "find (\<lambda>i. i_refcount (inode_table s ! i) = 0) [0..<NUMINODE]")
    case (Some i)
    then show thesis using find_upt_SomeD [OF Some] none None
      by (intro fresh [of i]) (simp_all add: inode_get_def iget_scan_spec)
  next
    case n2: None
    then have "\<forall>j<NUMINODE. i_refcount (inode_table s ! j) \<noteq> 0" by (auto simp: find_None_iff)
    with none show thesis by (rule full) (simp add: inode_get_def iget_scan_spec None n2)
  qed
qed

lemma itable_ok_upd:
  assumes "itable_ok tbl" "i < NUMINODE" "holds_id dev inum (f (tbl ! i))"
    and "holds_id dev inum (tbl ! i) \<or> (\<forall>j<NUMINODE. \<not> holds_id dev inum (tbl ! j))"
  shows "itable_ok (tbl[i := f (tbl ! i)])"
proof -
  have len: "length tbl = NUMINODE" using assms(1) by (simp add: itable_ok_def)
  have id: "holds_id d n (f (tbl ! i)) \<Longrightarrow> d = dev \<and> n = inum" for d n
    using assms(3) by (auto simp: holds_id_def)
  have uniq: "holds_id d n (tbl ! i') \<Longrightarrow> holds_id d n (tbl ! j') \<Longrightarrow> i' < NUMINODE \<Longrightarrow> j' < NUMINODE \<Longrightarrow> i' = j'"
    for i' j' d n using assms(1) unfolding itable_ok_def by blast
  have nth: "tbl[i := f (tbl ! i)] ! j = (if j = i then f (tbl ! i) else tbl ! j)" if "j < NUMINODE" for j
    using that len by (simp add: nth_list_update)
  have other: "\<not> holds_id dev inum (tbl ! j)" if "j < NUMINODE" "j \<noteq> i" for j
    using assms(2,4) that uniq by blast
  show ?thesis
    unfolding itable_ok_def
  proof (intro conjI allI impI)
    fix i' j' d n
    assume a: "i' < NUMINODE" "j' < NUMINODE" "holds_id d n (tbl[i := f (tbl ! i)] ! i')"
      "holds_id d n (tbl[i := f (tbl ! i)] ! j')"
    show "i' = j'"
    proof (cases "i' = i \<or> j' = i")
      case True
      with a id have "d = dev" "n = inum" by (auto simp: nth)
      with True a other show ?thesis by (auto simp: nth split: if_splits)
    next
      case False
      with a uniq show ?thesis by (auto simp: nth)
    qed
  qed (simp add: len)
qed

section \<open>Reading a file\<close>

text \<open>Byte \<open>k\<close> of a file whose blocks are all mapped and direct.\<close>

definition block_addr :: "fs \<Rightarrow> nat \<Rightarrow> nat \<Rightarrow> u32" where
  "block_addr s ip f = (let as = i_addresses (inode_table s ! ip) in
     if f < NDIRECT then as ! f else get32 (view (cache s) (as ! NDIRECT)) (4 * (f - NDIRECT)))"

definition file_byte :: "fs \<Rightarrow> nat \<Rightarrow> nat \<Rightarrow> byte" where
  "file_byte s ip k = view (cache s) (block_addr s ip (k div BUFFER_SIZE)) ! (k mod BUFFER_SIZE)"

definition mapped :: "fs \<Rightarrow> nat \<Rightarrow> nat \<Rightarrow> bool" where
  "mapped s ip n \<longleftrightarrow> n \<le> MAXFILE * BUFFER_SIZE \<and> (\<forall>k<n. block_addr s ip (k div BUFFER_SIZE) \<noteq> 0 \<and>
     (NDIRECT \<le> k div BUFFER_SIZE \<longrightarrow> i_addresses (inode_table s ! ip) ! NDIRECT \<noteq> 0))"

lemma same_view:
  assumes "view (cache s') = view (cache s)" "i_addresses (inode_table s' ! ip) = i_addresses (inode_table s ! ip)"
  shows "block_addr s' ip = block_addr s ip" "file_byte s' ip = file_byte s ip" "mapped s' ip = mapped s ip"
proof -
  show b: "block_addr s' ip = block_addr s ip" using assms by (simp add: fun_eq_iff block_addr_def Let_def)
  show "file_byte s' ip = file_byte s ip" "mapped s' ip = mapped s ip"
    using assms by (simp_all add: fun_eq_iff file_byte_def mapped_def b)
qed

lemma chunk_bounds:
  assumes "0 < rest"
  shows "0 < chunk rest off" "chunk rest off \<le> rest"
    "unat (chunk rest off) = min (unat rest) (BUFFER_SIZE - unat off mod BUFFER_SIZE)"
proof -
  have m: "unat (off mod 1024) = unat off mod 1024" by (simp add: unat_mod)
  then have lt: "unat (off mod 1024) < 1024" by simp
  have r: "unat (1024 - off mod 1024) = 1024 - unat off mod 1024"
    using lt m by (simp add: unat_minus_u32)
  show u: "unat (chunk rest off) = min (unat rest) (BUFFER_SIZE - unat off mod BUFFER_SIZE)"
    using r by (simp add: chunk_def Let_def word_less_nat_alt min_def)
  have "0 < unat rest" using assms by (simp add: word_gt_0 unat_gt_0)
  then show "0 < chunk rest off" "chunk rest off \<le> rest"
    using u lt m by (simp_all add: word_less_nat_alt word_le_nat_alt)
qed

lemma div_mod_add_small:
  assumes "(x :: nat) mod n + m < n"
  shows "(x + m) div n = x div n" "(x + m) mod n = x mod n + m"
proof -
  have eq: "x + m = (x mod n + m) + n * (x div n)" using mult_div_mod_eq [of n x] by linarith
  have "(a + n * q) div n = q" "(a + n * q) mod n = a" if "a < n" for a q using that by simp_all
  from this [OF assms] eq show "(x + m) div n = x div n" "(x + m) mod n = x mod n + m" by metis+
qed

text \<open>On a block that the file has, \<^verbatim>\<open>buffer_map\<close> finds the address, in the inode or in the indirect block, and
  changes no block.\<close>

lemma buffer_map_mapped:
  assumes "cache_ok (cache s)" "\<forall>b. readable (cache s) b" "i_dev (inode_table s ! ip) = ROOTDEV" "unat bn < MAXFILE"
    and ind: "NDIRECT \<le> unat bn \<Longrightarrow> i_addresses (inode_table s ! ip) ! NDIRECT \<noteq> 0" and "block_addr s ip (unat bn) \<noteq> 0"
  obtains c where "buffer_map pid ip bn s = Inr (block_addr s ip (unat bn), s\<lparr>cache := c\<rparr>)" "cache_ok c" "view c = view (cache s)" "\<forall>b. readable c b"
proof (cases "unat bn < NDIRECT")
  case True
  then have "bn < of_nat NDIRECT" by (simp add: word_less_nat_alt)
  then have "buffer_map pid ip bn s = Inr (block_addr s ip (unat bn), s\<lparr>cache := cache s\<rparr>)"
    using True assms(6) by (simp add: buffer_map_def block_addr_def Let_def)
  then show thesis using that assms(1,2) by blast
next
  case False
  let ?a = "i_addresses (inode_table s ! ip) ! NDIRECT"
  have bn: "\<not> bn < of_nat NDIRECT" "unat (bn - of_nat NDIRECT) = unat bn - NDIRECT" "bn - of_nat NDIRECT < of_nat NINDIRECT"
    using False assms(4) unat_minus_u32 [of bn "of_nat NDIRECT"] by (simp_all add: word_less_nat_alt)
  obtain c where c: "buffer_fetch pid ?a (cache s) = Inr (view (cache s) ?a, c)" "cache_ok c" "view c = view (cache s)" "\<forall>b. readable c b"
    using buffer_fetch_spec [OF assms(1), of ?a pid] assms(2) by blast
  then obtain b c1 where r: "buffer_read pid ROOTDEV ?a (cache s) = Inr (b, c1)" "buffer_release pid b c1 = Inr c"
    "view (cache s) ?a = b_data (bufs c1 ! b)" by (auto simp: buffer_fetch_def rbind_eq_Inr)
  have "buffer_map pid ip bn s = Inr (block_addr s ip (unat bn), s\<lparr>cache := c\<rparr>)"
    using bn False ind assms(3,6) r
    by (simp add: buffer_map_def block_addr_def Let_def bread_def brelse_def bdata_def)
  then show thesis using that c by blast
qed

text \<open>One round of the loop on such a block is a fetch of the block.\<close>

lemma read_inode_round:
  assumes "i < n" "a \<noteq> 0" "i_dev (inode_table s ! ip) = ROOTDEV"
    and "buffer_map pid ip (off div of_nat BUFFER_SIZE) s = Inr (a, s\<lparr>cache := c1\<rparr>)"
    and "buffer_map pid ip (off div of_nat BUFFER_SIZE) (s\<lparr>cache := c1\<rparr>) = Inr (a, s\<lparr>cache := c2\<rparr>)"
    and "buffer_fetch pid a c2 = Inr (d, c)" "j = chunk (n - i) off"
    and "out dst (take (unat j) (drop (unat (off mod of_nat BUFFER_SIZE)) d)) u = Some u'"
  shows "read_inode_loop out pid ip (Suc fuel) dst off n i (s, u)
    = read_inode_loop out pid ip fuel (dst + j) (off + j) n (i + j) (s\<lparr>cache := c\<rparr>, u')"
proof -
  from assms(6) obtain b c3 where r: "buffer_read pid ROOTDEV a c2 = Inr (b, c3)"
    "buffer_release pid b c3 = Inr c" "d = b_data (bufs c3 ! b)"
    by (auto simp: buffer_fetch_def rbind_eq_Inr)
  show ?thesis
    unfolding read_inode_loop.simps [of out pid ip "Suc fuel" dst off n i s u]
    using assms(1-3,7,8) r by (simp add: assms(4,5) [simplified] bread_def brelse_def bdata_def Let_def)
qed

lemma mapped_mono: "mapped s ip n \<Longrightarrow> k \<le> n \<Longrightarrow> mapped s ip k"
  unfolding mapped_def using less_le_trans by (auto intro: order_trans)

lemma mapped_block:
  assumes "mapped s ip n" "k < n"
  shows "k div BUFFER_SIZE < MAXFILE" "block_addr s ip (k div BUFFER_SIZE) \<noteq> 0"
    "NDIRECT \<le> k div BUFFER_SIZE \<Longrightarrow> i_addresses (inode_table s ! ip) ! NDIRECT \<noteq> 0"
  using assms by (auto simp: mapped_def less_mult_imp_div_less)

lemma chunk_step:
  assumes "i < n" and j: "j = chunk (n - i) off"
  shows "0 < unat j" "unat j \<le> unat (n - i)" "unat (n - (i + j)) = unat (n - i) - unat j" "i + j \<le> n"
    and "unat j = min (unat (n - i)) (BUFFER_SIZE - unat off mod BUFFER_SIZE)"
proof -
  have rest: "0 < n - i" using assms(1) by (simp add: word_gt_0)
  note jb = chunk_bounds [OF rest, of off, folded j]
  show "0 < unat j" using jb(1) by (simp add: word_gt_0 unat_gt_0)
  show le: "unat j \<le> unat (n - i)" using jb(2) by (simp add: word_le_nat_alt)
  show "unat (n - (i + j)) = unat (n - i) - unat j"
    using jb(2) by (simp add: diff_diff_eq [symmetric] unat_sub_le)
  have sum: "unat i + unat (n - i) = unat n" using assms(1) by (simp add: unat_sub_le less_imp_le word_le_nat_alt word_less_nat_alt)
  then have "unat (i + j) = unat i + unat j" using le unat_less_2_32 [of n] by (intro unat_plus_u32) linarith
  with sum le show "i + j \<le> n" by (simp add: word_le_nat_alt)
  show "unat j = min (unat (n - i)) (BUFFER_SIZE - unat off mod BUFFER_SIZE)" by (rule jb(3))
qed

lemma read_inode_step:
  assumes "cache_ok (cache s)" "\<forall>b. readable (cache s) b" "\<forall>b. length (view (cache s) b) = BUFFER_SIZE"
    and "i_dev (inode_table s ! ip) = ROOTDEV" "i < n" "mapped s ip (unat off + unat (n - i))"
    and j: "j = chunk (n - i) off"
    and out: "out dst (map (\<lambda>k. file_byte s ip (unat off + k)) [0..<unat j]) u = Some u'"
  obtains c where "cache_ok c" "view c = view (cache s)" "\<forall>b. readable c b"
    "read_inode_loop out pid ip (Suc fuel) dst off n i (s, u)
      = read_inode_loop out pid ip fuel (dst + j) (off + j) n (i + j) (s\<lparr>cache := c\<rparr>, u')"
proof -
  let ?blk = "off div of_nat BUFFER_SIZE" and ?p = "unat off mod BUFFER_SIZE"
  note cs = chunk_step [OF assms(5) j]
  have ud: "unat ?blk = unat off div BUFFER_SIZE" "unat (off mod of_nat BUFFER_SIZE) = ?p"
    by (simp_all add: unat_div unat_mod)
  have "unat off < unat off + unat (n - i)" using cs(1,2) by linarith
  note mb = mapped_block [OF assms(6) this, folded ud(1)]
  define a where "a = block_addr s ip (unat ?blk)"
  obtain c1 where c1: "buffer_map pid ip ?blk s = Inr (a, s\<lparr>cache := c1\<rparr>)" "cache_ok c1" "view c1 = view (cache s)" "\<forall>b. readable c1 b"
    by (rule buffer_map_mapped [OF assms(1,2,4) mb(1) mb(3,2), folded a_def])
  have ba: "block_addr (s\<lparr>cache := c1\<rparr>) ip (unat ?blk) = a" using same_view(1) [of "s\<lparr>cache := c1\<rparr>" s ip] c1(3) by (simp add: a_def)
  obtain c2 where "buffer_map pid ip ?blk (s\<lparr>cache := c1\<rparr>) = Inr (a, s\<lparr>cache := c1\<rparr>\<lparr>cache := c2\<rparr>)"
    and c2: "cache_ok c2" "view c2 = view (cache (s\<lparr>cache := c1\<rparr>))" "\<forall>b. readable c2 b"
    by (rule buffer_map_mapped [where s = "s\<lparr>cache := c1\<rparr>" and ip = ip and bn = ?blk and pid = pid, unfolded ba])
      (use c1(2,4) assms(4) mb in \<open>simp_all add: a_def\<close>)
  then have bm2: "buffer_map pid ip ?blk (s\<lparr>cache := c1\<rparr>) = Inr (a, s\<lparr>cache := c2\<rparr>)" by simp
  obtain c where c: "buffer_fetch pid a c2 = Inr (view (cache s) a, c)" "cache_ok c" "view c = view (cache s)" "\<forall>b. readable c b"
    using buffer_fetch_spec [OF c2(1), of a pid] c2(2,3) c1(3) by auto
  have "take (unat j) (drop ?p (view (cache s) a)) = map (\<lambda>k. file_byte s ip (unat off + k)) [0..<unat j]"
  proof (rule nth_equalityI)
    show "length (take (unat j) (drop ?p (view (cache s) a))) = length (map (\<lambda>k. file_byte s ip (unat off + k)) [0..<unat j])"
      using cs(5) assms(3) by simp
    fix m assume "m < length (take (unat j) (drop ?p (view (cache s) a)))"
    then have m: "m < unat j" by simp
    then have "m < BUFFER_SIZE - ?p" using cs(5) by simp
    then have lt: "?p + m < BUFFER_SIZE" by linarith
    show "take (unat j) (drop ?p (view (cache s) a)) ! m = map (\<lambda>k. file_byte s ip (unat off + k)) [0..<unat j] ! m"
      using m assms(3) lt by (simp add: file_byte_def a_def unat_div div_mod_add_small [OF lt])
  qed
  then show thesis using c c1(1) bm2 mb(2) assms(4,5) out j ud(2)
    by (intro that [of c] read_inode_round [where a = a and d = "view (cache s) a" and ?c1.0 = c1 and ?c2.0 = c2]) (simp_all add: a_def)
qed

lemma joined_windows:
  fixes x dst j :: u32
  assumes "unat j \<le> r" "r \<le> 274432"
  shows "(if unat (x - (dst + j)) < r - unat j then g (unat j + unat (x - (dst + j)))
      else if unat (x - dst) < unat j then g (unat (x - dst)) else u)
    = (if unat (x - dst) < r then g (unat (x - dst)) else u)"
proof (cases "unat (x - dst) < unat j")
  case True
  have "unat (x - (dst + j)) = unat (x - dst) + 4294967296 - unat j"
    using True by (simp add: diff_diff_eq [symmetric] unat_minus_u32)
  then have "\<not> unat (x - (dst + j)) < r - unat j" using assms by linarith
  with True assms(1) show ?thesis by simp
next
  case False
  then have "unat (x - (dst + j)) = unat (x - dst) - unat j"
    by (simp add: diff_diff_eq [symmetric] unat_minus_u32)
  with False assms(1) show ?thesis by simp linarith
qed

lemma read_inode_loop_spec:
  assumes "cache_ok (cache s)" "\<forall>b. readable (cache s) b" "\<forall>b. length (view (cache s) b) = BUFFER_SIZE"
    and "i_dev (inode_table s ! ip) = ROOTDEV" "i \<le> n" "unat (n - i) \<le> fuel"
    and "mapped s ip (unat off + unat (n - i))"
  shows "\<exists>c. read_inode_loop (store_run poke) pid ip fuel dst off n i (s, u)
    = Inr (s\<lparr>cache := c\<rparr>, \<lambda>x. if unat (x - dst) < unat (n - i) then file_byte s ip (unat off + unat (x - dst)) else u x)
    \<and> cache_ok c \<and> view c = view (cache s) \<and> (\<forall>b. readable c b)"
  using assms
proof (induction fuel arbitrary: s i off dst u)
  case 0
  then have "n = i" using unat_eq_zero [of "n - i"] by simp
  then show ?case using 0 by (intro exI [of _ "cache s"]) (simp add: read_inode_loop.simps [of _ pid ip 0])
next
  case (Suc fuel)
  show ?case
  proof (cases "i < n")
    case False
    with Suc.prems(5) have "i = n" by simp
    with Suc.prems show ?thesis
      by (intro exI [of _ "cache s"]) (simp add: read_inode_loop.simps [of _ pid ip "Suc fuel"])
  next
    case True
    define j where "j = chunk (n - i) off"
    note cs = chunk_step [OF True j_def]
    let ?u1 = "\<lambda>x. if unat (x - dst) < unat j then file_byte s ip (unat off + unat (x - dst)) else u x"
    have st: "store_run poke dst (map (\<lambda>k. file_byte s ip (unat off + k)) [0..<unat j]) u = Some ?u1"
      using store_run_poke [of "map (\<lambda>k. file_byte s ip (unat off + k)) [0..<unat j]" dst u] unat_less_2_32 [of j]
      by (auto simp: fun_eq_iff)
    obtain c1 where c1: "cache_ok c1" "view c1 = view (cache s)" "\<forall>b. readable c1 b"
      "read_inode_loop (store_run poke) pid ip (Suc fuel) dst off n i (s, u)
        = read_inode_loop (store_run poke) pid ip fuel (dst + j) (off + j) n (i + j) (s\<lparr>cache := c1\<rparr>, ?u1)"
      by (rule read_inode_step [where pid = pid and fuel = fuel and out = "store_run poke", OF Suc.prems(1-4) True Suc.prems(7) j_def st])
    let ?s1 = "s\<lparr>cache := c1\<rparr>"
    have small: "unat off + unat (n - i) \<le> 274432" using Suc.prems(7) by (simp add: mapped_def)
    then have offj: "unat (off + j) = unat off + unat j" using cs(2) by (intro unat_plus_u32) linarith
    have "mapped ?s1 ip (unat (off + j) + unat (n - (i + j)))"
      using Suc.prems(7) cs(2) same_view(3) [of ?s1 s ip] c1(2) by (simp add: offj cs(3))
    moreover have "unat (n - (i + j)) \<le> fuel" using cs(1-3) Suc.prems(6) by linarith
    ultimately obtain c where c: "read_inode_loop (store_run poke) pid ip fuel (dst + j) (off + j) n (i + j) (?s1, ?u1)
      = Inr (s\<lparr>cache := c\<rparr>, \<lambda>x. if unat (x - (dst + j)) < unat (n - (i + j))
            then file_byte ?s1 ip (unat (off + j) + unat (x - (dst + j))) else ?u1 x)"
      "cache_ok c" "view c = view (cache s)" "\<forall>b. readable c b"
      using Suc.IH [of ?s1 "i + j" "off + j" "dst + j" ?u1] Suc.prems(3,4) c1(1-3) cs(4) by auto
    have fb: "file_byte ?s1 ip = file_byte s ip" using same_view(2) [of ?s1 s ip] c1(2) by simp
    have le: "unat (n - i) \<le> 274432" using small by simp
    show ?thesis
      using c(2-4) unfolding c1(4) c(1) cs(3) offj fb add.assoc
        joined_windows [OF cs(2) le, where g = "\<lambda>k. file_byte s ip (unat off + k)"]
      by (intro exI [of _ c]) simp
  qed
qed

section \<open>Writing an inode back\<close>

text \<open>The bytes \<^verbatim>\<open>inode_update\<close> stores, spill included, for an inode that is not the last of its block.\<close>

definition update_image :: "inode \<Rightarrow> byte \<Rightarrow> byte list \<Rightarrow> byte list" where
  "update_image ip spill d = (let p = dinode_off (i_inode_num ip) in (put_dinode p ip d)[p + 64 := spill])"

lemma dinode_off_lt: "unat inum mod INODE_PER_BLOCK \<noteq> 15 \<Longrightarrow> dinode_off inum + 64 < BUFFER_SIZE"
proof -
  assume ne: "unat inum mod INODE_PER_BLOCK \<noteq> 15"
  have "unat inum mod INODE_PER_BLOCK < 16" by simp
  with ne have "unat inum mod INODE_PER_BLOCK < 15" by linarith
  then show ?thesis by (simp add: dinode_off_def)
qed

lemma inode_update_eq:
  assumes "cache_ok (cache s)" "readable (cache s) (iblock (i_inode_num (inode_table s ! i)) s)"
    and "i_dev (inode_table s ! i) = ROOTDEV" "unat (i_inode_num (inode_table s ! i)) mod INODE_PER_BLOCK \<noteq> 15"
    and "Suc i < NUMINODE"
  shows "inode_update past pid i s = modify_logged pid (iblock (i_inode_num (inode_table s ! i)) s)
    (update_image (inode_table s ! i) (ucast (i_dev (inode_table s ! Suc i)))) s"
proof -
  let ?ip = "inode_table s ! i" and ?blk = "iblock (i_inode_num (inode_table s ! i)) s"
  have "dinode_off (i_inode_num ?ip) + 64 < BUFFER_SIZE"
    using assms(4) by (rule dinode_off_lt)
  moreover obtain b c1 where "buffer_read pid ROOTDEV ?blk (cache s) = Inr (b, c1)"
    using buffer_read_spec [OF assms(1,2)] by blast
  ultimately show ?thesis
    using assms(3,5)
    by (simp add: inode_update_def modify_logged_def bread_def bdata_def update_image_def Let_def)
qed

lemma read_inode_spec:
  assumes "cache_ok (cache s)" "\<forall>b. readable (cache s) b" "\<forall>b. length (view (cache s) b) = BUFFER_SIZE"
    and "i_dev (inode_table s ! ip) = ROOTDEV" "off \<le> i_size (inode_table s ! ip)"
    and "unat off + unat n < 2 ^ 32" "m = min (unat n) (unat (i_size (inode_table s ! ip)) - unat off)"
    and "mapped s ip (unat off + m)"
  shows "\<exists>c. read_inode (store_run poke) pid ip dst off n (s, u) = Inr (int m, s\<lparr>cache := c\<rparr>,
      \<lambda>x. if unat (x - dst) < m then file_byte s ip (unat off + unat (x - dst)) else u x)
    \<and> cache_ok c \<and> view c = view (cache s) \<and> (\<forall>b. readable c b)"
proof -
  let ?size = "i_size (inode_table s ! ip)"
  have sum: "unat (off + n) = unat off + unat n" using assms(6) by (intro unat_plus_u32) simp
  define n' where "n' = (if off + n > ?size then ?size - off else n)"
  have um: "unat n' = m"
    using assms(5,7) sum by (auto simp: n'_def word_less_nat_alt word_le_nat_alt unat_sub_le min_def)
  have "mapped s ip (unat off + unat (n' - 0))" using assms(8) by (simp add: um)
  from read_inode_loop_spec [OF assms(1-4), of 0 n' "unat n'" off pid dst u] this
  obtain c where c: "read_inode_loop (store_run poke) pid ip (unat n') dst off n' 0 (s, u)
    = Inr (s\<lparr>cache := c\<rparr>, \<lambda>x. if unat (x - dst) < m then file_byte s ip (unat off + unat (x - dst)) else u x)"
    "cache_ok c" "view c = view (cache s)" "\<forall>b. readable c b" by (auto simp: um)
  have "\<not> (off > ?size \<or> off + n < off)"
    using assms(5) sum by (simp add: word_less_nat_alt word_le_nat_alt not_less)
  moreover have "sint n' = int m"
  proof -
    have "uint n' = int m" by (simp add: um [symmetric])
    moreover have "m \<le> 274432" using assms(8) by (simp add: mapped_def)
    ultimately show ?thesis by (simp add: sint_u32)
  qed
  ultimately show ?thesis using c by (intro exI [of _ c]) (simp add: read_inode_def n'_def [symmetric])
qed

section \<open>Properties\<close>

text \<open>(C39) One table entry per inode: \<^verbatim>\<open>inode_get\<close> keeps the invariant that no two referenced entries
  have the same device and number, returns an entry with the identity asked for, the existing one
  when there is one (with one more reference), and touches no other entry.\<close>

theorem inode_get_unique:
  assumes "itable_ok (inode_table s)" "\<forall>j<NUMINODE. i_refcount (inode_table s ! j) \<noteq> - 1"
    and "inode_get dev inum s = Inr (i, s')"
  shows "itable_ok (inode_table s') \<and> holds_id dev inum (inode_table s' ! i)
    \<and> (\<forall>j<NUMINODE. j \<noteq> i \<longrightarrow> inode_table s' ! j = inode_table s ! j)
    \<and> (\<forall>j<NUMINODE. holds_id dev inum (inode_table s ! j) \<longrightarrow> j = i
          \<and> i_refcount (inode_table s' ! i) = i_refcount (inode_table s ! i) + 1)"
  using assms(1)
proof (cases rule: inode_get_cases [of s dev inum])
  case (hit k)
  have len: "length (inode_table s) = NUMINODE" using assms(1) by (simp add: itable_ok_def)
  have k: "k = i" "s' = upd_inode i (\<lambda>ip. ip\<lparr>i_refcount := i_refcount ip + 1\<rparr>) s"
    using hit(3) assms(3) by auto
  have "i_refcount (inode_table s ! i) + 1 \<noteq> 0" using assms(2) hit(1) k by (simp add: add_eq_0_iff2)
  then have id: "holds_id dev inum ((inode_table s ! i)\<lparr>i_refcount := i_refcount (inode_table s ! i) + 1\<rparr>)"
    using hit(2) k by (simp add: holds_id_def word_gt_0)
  have "itable_ok (inode_table s')"
    using itable_ok_upd [OF assms(1) hit(1), of dev inum "\<lambda>ip. ip\<lparr>i_refcount := i_refcount ip + 1\<rparr>"]
      id hit(2) k by (simp add: upd_inode_def)
  moreover have "j = i" if "j < NUMINODE" "holds_id dev inum (inode_table s ! j)" for j
    using assms(1) that hit(1,2) k(1) unfolding itable_ok_def by blast
  ultimately show ?thesis using id hit(1) k len by (auto simp: upd_inode_def)
next
  case (fresh k)
  have len: "length (inode_table s) = NUMINODE" using assms(1) by (simp add: itable_ok_def)
  let ?f = "\<lambda>ip. ip\<lparr>i_dev := dev, i_inode_num := inum, i_refcount := 1, i_valid := 0\<rparr>"
  have k: "k = i" "s' = upd_inode i ?f s" using fresh(4) assms(3) by auto
  have id: "holds_id dev inum (?f (inode_table s ! i))" by (simp add: holds_id_def)
  have "itable_ok (inode_table s')"
    using itable_ok_upd [OF assms(1) fresh(1), of dev inum ?f] id fresh(2) k by (simp add: upd_inode_def)
  then show ?thesis using id fresh(1,2) k len by (auto simp: upd_inode_def)
next
  case full
  then show ?thesis using assms(3) by simp
qed

text \<open>\<^verbatim>\<open>inode_update\<close> stores the in-memory inode in its 64 bytes of the inode block, from which
  decoding gives the same fields back, and leaves other blocks alone. It also overwrites the low
  byte of the type of the following disk inode with the device number of the next table entry;
  the disk inodes further away keep their fields.\<close>

theorem inode_update_stores_and_clobbers:
  assumes "fs_ready 1 k s" "ip = inode_table s ! i" "i_dev ip = ROOTDEV" "Suc i < NUMINODE"
    and "unat (i_inode_num ip) mod INODE_PER_BLOCK \<noteq> 15" "length (i_addresses ip) = 13"
    and "blk = iblock (i_inode_num ip) s" "p = dinode_off (i_inode_num ip)"
    and "length (view (cache s) blk) = BUFFER_SIZE"
  shows "\<exists>s'. inode_update past pid i s = Inr s'
    \<and> get_dinode (view (cache s') blk) p ip = ip
    \<and> ucast (get16 (view (cache s') blk) (p + 64)) = (ucast (i_dev (inode_table s ! Suc i)) :: byte)
    \<and> (\<forall>q. q + 64 \<le> p \<or> p + 65 \<le> q \<longrightarrow> get_dinode (view (cache s') blk) q ip = get_dinode (view (cache s) blk) q ip)
    \<and> (\<forall>b. b \<noteq> blk \<longrightarrow> view (cache s') b = view (cache s) b)"
proof -
  let ?sp = "ucast (i_dev (inode_table s ! Suc i)) :: byte" and ?d = "view (cache s) blk"
  have ok: "cache_ok (cache s)" "readable (cache s) blk"
    using assms(1) by (auto simp: fs_ready_def intro!: readable_idle [of k])
  have rdy: "fs_ready (Suc 0) k s" using assms(1) by simp
  from fs_ready_modify [OF rdy, of pid blk "update_image ip ?sp"] obtain s' where
    s': "modify_logged pid blk (update_image ip ?sp) s = Inr s'"
    "modified_to blk (update_image ip ?sp ?d) k s s'" by blast
  have upd: "inode_update past pid i s = Inr s'"
    using inode_update_eq [OF ok(1), of i past pid] ok(2) assms(2-5,7) s'(1) by simp
  have v: "view (cache s') = (view (cache s))(blk := update_image ip ?sp ?d)"
    by (rule modified_toD(2) [OF s'(2)])
  have p: "p + 64 < BUFFER_SIZE" using dinode_off_lt [OF assms(5)] assms(8) by simp
  have img: "update_image ip ?sp ?d = (put_dinode p ip ?d)[p + 64 := ?sp]"
    by (simp add: update_image_def assms(8) Let_def)
  have own: "get_dinode (update_image ip ?sp ?d) p ip = ip"
  proof -
    have "get_dinode (update_image ip ?sp ?d) p ip = get_dinode (put_dinode p ip ?d) p ip"
      by (rule get_dinode_cong) (simp add: img)
    also have "\<dots> = ip" using get_dinode_put_dinode [of p ?d ip ip] p assms(6,9) by simp
    finally show ?thesis .
  qed
  have spill: "ucast (get16 (update_image ip ?sp ?d) (p + 64)) = ?sp"
    using p assms(9) by (simp add: img get16_def) (auto intro!: bit_word_eqI simp: bit_simps)
  have far: "get_dinode (update_image ip ?sp ?d) q ip = get_dinode ?d q ip"
    if "q + 64 \<le> p \<or> p + 65 \<le> q" for q
    using that by (intro get_dinode_cong) (auto simp: img nth_list_update_cases nth_put_dinode)
  show ?thesis using upd v own spill far by (intro exI [of _ s']) simp
qed

text \<open>\<^verbatim>\<open>inode_lock\<close> on a referenced, unlocked entry that was not read yet.\<close>

lemma inode_lock_spec:
  assumes "cache_ok (cache s)" "readable (cache s) (iblock (i_inode_num ip) s)"
    and "ip = inode_table s ! i" "i < length (inode_table s)" "i_refcount ip \<noteq> 0"
    and "slocked (i_lock ip) = 0" "i_valid ip = 0" "i_dev ip = ROOTDEV"
    and "d = view (cache s) (iblock (i_inode_num ip) s)" "p = dinode_off (i_inode_num ip)"
    and k: "k = (i_lock ip)\<lparr>slocked := 1, sl_process_id := pid\<rparr>"
  obtains c where "cache_ok c" "view c = view (cache s)" "\<And>b. readable (cache s) b \<Longrightarrow> readable c b"
    "inode_lock pid i s = (if get16 d p = 0 then Inl (Panic ''no type in inode_lock'')
      else Inr (s\<lparr>inode_table := (inode_table s)[i := (get_dinode d p ip)\<lparr>i_lock := k, i_valid := 1\<rparr>], cache := c\<rparr>))"
proof -
  let ?blk = "iblock (i_inode_num ip) s"
  obtain c where c: "buffer_fetch pid ?blk (cache s) = Inr (d, c)" "cache_ok c" "view c = view (cache s)"
    "\<And>b. readable (cache s) b \<Longrightarrow> readable c b"
    using buffer_fetch_spec [OF assms(1,2), of pid] unfolding assms(9) [symmetric] by metis
  then obtain b c1 where r: "buffer_read pid ROOTDEV ?blk (cache s) = Inr (b, c1)"
    "buffer_release pid b c1 = Inr c" "d = b_data (bufs c1 ! b)"
    by (auto simp: buffer_fetch_def rbind_eq_Inr)
  define f where "f = (\<lambda>ip0 :: inode. (get_dinode d p (ip0\<lparr>i_lock := k\<rparr>))\<lparr>i_valid := 1\<rparr>)"
  have nz: "\<not> i_refcount ip < 1" using assms(5) by (simp add: word_less_nat_alt unat_eq_zero)
  have ty: "i_type (f ip) = get16 d p" by (simp add: f_def get_dinode_def)
  have fi: "f ip = (get_dinode d p ip)\<lparr>i_lock := k, i_valid := 1\<rparr>" by (simp add: f_def get_dinode_def)
  have ib: "iblock n (upd_inode i g s) = iblock n s" for n g by (simp add: iblock_def upd_inode_def)
  have "inode_lock pid i s = (if get16 d p = 0 then Inl (Panic ''no type in inode_lock'')
      else Inr (s\<lparr>inode_table := (inode_table s)[i := f ip], cache := c\<rparr>))"
    using assms(4,6,7,8) nz r ty
    by (simp add: inode_lock_def Let_def acquire_sleeplock_def ib bread_def brelse_def bdata_def
        assms(3) [symmetric] assms(10) [symmetric] k [symmetric])
      (simp add: upd_inode_def f_def assms(3) [symmetric])
  then show thesis using that [OF c(2-4)] unfolding fi by blast
qed

text \<open>It takes the sleep lock and fills the entry from its disk inode without changing any block, and panics
  exactly when the disk inode is free (type 0).\<close>

theorem inode_lock_loads_disk_inode:
  assumes "cache_ok (cache s)" "readable (cache s) (iblock (i_inode_num ip) s)"
    and "ip = inode_table s ! i" "i < length (inode_table s)" "i_refcount ip \<noteq> 0"
    and "slocked (i_lock ip) = 0" "i_valid ip = 0" "i_dev ip = ROOTDEV"
    and "d = view (cache s) (iblock (i_inode_num ip) s)" "p = dinode_off (i_inode_num ip)"
  shows "if get16 d p = 0 then inode_lock pid i s = Inl (Panic ''no type in inode_lock'')
    else \<exists>s' k. inode_lock pid i s = Inr s' \<and> view (cache s') = view (cache s)
      \<and> inode_table s' ! i = (get_dinode d p ip)\<lparr>i_lock := k, i_valid := 1\<rparr>
      \<and> is_holding_sleeplock pid k"
proof -
  let ?k = "(i_lock ip)\<lparr>slocked := 1, sl_process_id := pid\<rparr>"
  obtain c where "view c = view (cache s)" "inode_lock pid i s = (if get16 d p = 0 then Inl (Panic ''no type in inode_lock'')
      else Inr (s\<lparr>inode_table := (inode_table s)[i := (get_dinode d p ip)\<lparr>i_lock := ?k, i_valid := 1\<rparr>], cache := c\<rparr>))"
    by (rule inode_lock_spec [OF assms refl])
  moreover have "is_holding_sleeplock pid ?k" by (simp add: is_holding_sleeplock_def)
  ultimately show ?thesis using assms(4) by auto
qed

text \<open>(C24) \<^verbatim>\<open>read_inode\<close> delivers the file: for a request in a file whose blocks are allocated, direct and indirect ones, it
  returns the number of bytes up to the end of the file, puts exactly those bytes of the file at
  the destination in order and leaves all other memory alone, crossing block boundaries, and
  changes no block. Its loop always ends.\<close>

theorem read_inode_delivers_file:
  assumes "cache_ok (cache s)" "\<forall>b. readable (cache s) b" "\<forall>b. length (view (cache s) b) = BUFFER_SIZE"
    and "i_dev (inode_table s ! ip) = ROOTDEV" "off \<le> i_size (inode_table s ! ip)"
    and "unat off + unat n < 2 ^ 32" "m = min (unat n) (unat (i_size (inode_table s ! ip)) - unat off)"
    and "mapped s ip (unat off + m)"
  shows "\<exists>s'. read_inode (store_run poke) pid ip dst off n (s, u) = Inr (int m, s',
      \<lambda>x. if unat (x - dst) < m then file_byte s ip (unat off + unat (x - dst)) else u x)
    \<and> view (cache s') = view (cache s)"
  using read_inode_spec [OF assms, of pid dst u] by force

subsection \<open>Witnesses\<close>

definition inode0 :: inode where
  "inode0 = \<lparr>i_dev = 0, i_inode_num = 0, i_refcount = 0, i_lock = initsleeplock ''inode'', i_valid = 0,
     i_type = 0, i_major_dev_num = 0, i_minor_dev_num = 0, i_num_link = 0, i_size = 0,
     i_addresses = replicate 13 0\<rparr>"

definition inode1 :: inode where
  "inode1 = inode0\<lparr>i_dev := ROOTDEV, i_inode_num := 3, i_refcount := 1, i_valid := 1, i_type := 2,
     i_num_link := 1, i_size := 2000, i_addresses := [48, 56, 64] @ replicate 10 0\<rparr>"

definition inode2 :: inode where
  "inode2 = inode0\<lparr>i_dev := ROOTDEV, i_inode_num := 6, i_refcount := 1\<rparr>"

definition fs_i :: fs where
  "fs_i = fs_tx\<lparr>inode_table := inode1 # inode2 # replicate 48 inode0\<rparr>"

lemma fs_i_fields: "cache fs_i = cache0" "inode_table fs_i = inode1 # inode2 # replicate 48 inode0"
  "view (cache fs_i) b = replicate 1024 (ucast b)" "sb fs_i = sb fs_tx"
  using fs_tx_view fs_tx_fields by (simp_all add: fs_i_def)

lemma fs_i_ready: "n \<le> 3 \<Longrightarrow> fs_ready n 0 fs_i"
  using fs_tx_ready by (simp add: fs_ready_def fs_i_def pinned_def)

lemma fs_i_table: "itable_ok (inode_table fs_i)"
proof -
  have nth: "inode_table fs_i ! j = (if j = 0 then inode1 else if j = 1 then inode2 else inode0)"
    if "j < 50" for j using that by (auto simp: fs_i_fields(2) nth_Cons split: nat.splits)
  then show ?thesis
    by (auto simp: itable_ok_def holds_id_def fs_i_fields(2) inode0_def inode1_def inode2_def
        nth_Cons split: nat.splits if_splits)
qed

lemma fs_i_iblock: "iblock 3 fs_i = 32" "iblock 6 fs_i = 32" "dinode_off 3 = 192" "dinode_off 6 = 384"
  by (simp_all add: iblock_def fs_i_fields(4) fs_tx_def sb0_def dinode_off_def)

theorem inode_get_unique_witness:
  "\<exists>s'. inode_get ROOTDEV 3 fs_i = Inr (0, s') \<and> itable_ok (inode_table s')
    \<and> i_refcount (inode_table s' ! 0) = 2"
proof -
  have "\<forall>j<NUMINODE. i_refcount (inode_table fs_i ! j) \<noteq> - 1"
    by (auto simp: fs_i_fields(2) nth_Cons inode0_def inode1_def inode2_def split: nat.splits)
  moreover have "holds_id ROOTDEV 3 (inode_table fs_i ! 0)"
    by (simp add: holds_id_def fs_i_fields(2) inode1_def)
  moreover from this obtain s' where "inode_get ROOTDEV 3 fs_i = Inr (0, s')"
    by (simp add: inode_get_def iget_scan_spec upt_rec [of 0])
  moreover have "i_refcount (inode_table fs_i ! 0) = 1" by (simp add: fs_i_fields(2) inode1_def)
  ultimately have "itable_ok (inode_table s')" "i_refcount (inode_table s' ! 0) = 1 + 1"
    using inode_get_unique [OF fs_i_table, of ROOTDEV 3 0 s'] by fastforce+
  with \<open>inode_get ROOTDEV 3 fs_i = Inr (0, s')\<close> show ?thesis by simp
qed

theorem inode_update_stores_and_clobbers_witness:
  "\<exists>s'. inode_update 0 7 0 fs_i = Inr s' \<and> get_dinode (view (cache s') 32) 192 inode1 = inode1
    \<and> ucast (get16 (view (cache s') 32) 256) = (1 :: byte)"
  using inode_update_stores_and_clobbers [OF fs_i_ready, of inode1 0 32 192 0 7] fs_i_iblock
  by (auto simp: fs_i_fields(2,3)) (auto simp: inode1_def inode2_def)

lemma fs_i_inode2: "inode_table fs_i ! 1 = inode2" "1 < length (inode_table fs_i)" "i_refcount inode2 \<noteq> 0"
  "slocked (i_lock inode2) = 0" "i_valid inode2 = 0" "i_dev inode2 = ROOTDEV" "i_inode_num inode2 = 6"
  by (simp_all add: fs_i_fields(2) inode2_def inode0_def initsleeplock_def)

theorem inode_lock_loads_disk_inode_witness:
  "\<exists>s'. inode_lock 7 1 fs_i = Inr s' \<and> i_type (inode_table s' ! 1) = 0x2020"
proof -
  have rd: "readable (cache fs_i) (iblock (i_inode_num inode2) fs_i)" "cache_ok (cache fs_i)"
    using cache0_readable cache0_ok by (simp_all add: fs_i_fields(1))
  have d: "view (cache fs_i) (iblock (i_inode_num inode2) fs_i) = replicate BUFFER_SIZE 32"
    by (simp only: fs_i_inode2(7) fs_i_iblock(2) fs_i_fields(3)) simp
  have ty: "get16 (replicate BUFFER_SIZE 32) 384 = 0x2020" by (simp add: get16_def)
  from inode_lock_loads_disk_inode [OF rd(2,1) fs_i_inode2(1) [symmetric] fs_i_inode2(2-6) d [symmetric]
      fs_i_iblock(4) [symmetric, folded fs_i_inode2(7)], of 7]
  obtain s' k where "inode_lock 7 1 fs_i = Inr s'"
    "inode_table s' ! 1 = (get_dinode (replicate BUFFER_SIZE 32) 384 inode2)\<lparr>i_lock := k, i_valid := 1\<rparr>"
    by (auto simp: ty)
  then show ?thesis using ty by (intro exI [of _ s']) (simp add: get_dinode_def)
qed

lemma fs_i_mapped: "mapped fs_i 0 1028"
proof -
  have a: "i_addresses (inode_table fs_i ! 0) ! 0 \<noteq> 0" "i_addresses (inode_table fs_i ! 0) ! 1 \<noteq> 0"
    by (simp_all add: fs_i_fields(2) inode1_def)
  have "k div BUFFER_SIZE = 0 \<or> k div BUFFER_SIZE = 1" if "k < 1028" for k :: nat using that by auto
  then have "i_addresses (inode_table fs_i ! 0) ! (k div BUFFER_SIZE) \<noteq> 0" if "k < 1028" for k
    using a that by metis
  moreover have "k div BUFFER_SIZE < NDIRECT" if "k < 1028" for k :: nat using that by auto
  ultimately show ?thesis by (auto simp: mapped_def block_addr_def Let_def simp del: div_less)
qed

theorem read_inode_delivers_file_witness:
  "\<exists>s' m. read_inode (store_run poke) 7 0 0x100 1020 8 (fs_i, \<lambda>x. 0) = Inr (8, s', m)
    \<and> m 0x103 = 48 \<and> m 0x104 = 56"
proof -
  have sz: "i_size (inode_table fs_i ! 0) = 2000" "i_dev (inode_table fs_i ! 0) = ROOTDEV"
    by (simp_all add: fs_i_fields(2) inode1_def)
  have rd: "cache_ok (cache fs_i)" "\<forall>b. readable (cache fs_i) b" "\<forall>b. length (view (cache fs_i) b) = BUFFER_SIZE"
    using cache0_readable cache0_ok by (simp_all add: fs_i_fields(1)) (simp add: fs_i_fields(3) [unfolded fs_i_fields(1)])
  have le: "1020 \<le> i_size (inode_table fs_i ! 0)" by (simp add: sz)
  have mp: "unat (1020 :: u32) + unat (8 :: u32) < 2 ^ 32" "mapped fs_i 0 (unat (1020 :: u32) + 8)" using fs_i_mapped by simp_all
  have m8: "8 = min (unat (8 :: u32)) (unat (i_size (inode_table fs_i ! 0)) - unat (1020 :: u32))" by (simp add: sz)
  have fb: "file_byte fs_i 0 1023 = 48" "file_byte fs_i 0 1024 = 56"
    by (simp_all only: file_byte_def fs_i_fields(3)) (simp_all add: block_addr_def fs_i_fields(2) inode1_def)
  from read_inode_delivers_file [OF rd sz(2) le mp(1) m8 mp(2), of 7 "0x100" "\<lambda>x. 0"] obtain s' where
    "read_inode (store_run poke) 7 0 0x100 1020 8 (fs_i, \<lambda>x. 0) = Inr (int 8, s',
      \<lambda>x. if unat (x - 0x100) < 8 then file_byte fs_i 0 (unat (1020 :: u32) + unat (x - 0x100)) else 0)" by blast
  then show ?thesis using fb by (intro exI) (auto simp: fb)
qed

end
