(* ===== verification/Fs_Dir.thy ===== *)
theory Fs_Dir
  imports Fs_Inode Libc_String
begin

text \<open>
  Directories and path names, the upper part of \<^verbatim>\<open>kernel/filesys.c\<close>. A \<^verbatim>\<open>struct direntry\<close> is
  sixteen bytes: \<^verbatim>\<open>inode_num\<close> and a fourteen byte name that is NUL terminated only when it is
  shorter. A C string is the list of its bytes, the terminating NUL implicit at the end; a name
  buffer is the list of its fourteen bytes and the byte behind it, which \<^verbatim>\<open>memmove\<close> overwrites
  when it copies upwards (\<open>below\<close>: the buffer lies below the path). \<open>stk\<close> is the byte of the kernel stack that follows the
  local \<^verbatim>\<open>de\<close>, which \<^verbatim>\<open>memmove\<close> copies along.
\<close>

abbreviation "DIRSIZE \<equiv> 14 :: nat"
abbreviation "DIR_TYPE \<equiv> 1 :: u16"
abbreviation "SLASH \<equiv> 47 :: byte"

section \<open>Strings\<close>

definition byte0 :: "byte list \<Rightarrow> byte" where
  "byte0 xs = (case xs of [] \<Rightarrow> 0 | x # _ \<Rightarrow> x)"

fun strncmp_l :: "byte list \<Rightarrow> byte list \<Rightarrow> nat \<Rightarrow> int" where
  "strncmp_l a b 0 = 0"
| "strncmp_l a b (Suc n) =
     (if byte0 a \<noteq> 0 \<and> byte0 a = byte0 b then strncmp_l (tl a) (tl b) n
      else uint (byte0 a) - uint (byte0 b))"

text \<open>\<^verbatim>\<open>strcpy(s, t, n)\<close> of the kernel: at most \<open>n - 1\<close> characters and a NUL; after a copied NUL one
  more zero byte is stored. The bytes of \<open>s\<close> behind that keep their values.\<close>

fun strcpy_l :: "byte list \<Rightarrow> byte list \<Rightarrow> nat \<Rightarrow> byte list" where
  "strcpy_l s t 0 = s"
| "strcpy_l s t (Suc 0) = s[0 := 0]"
| "strcpy_l s t (Suc (Suc n)) =
     (case s of [] \<Rightarrow> []
      | x # xs \<Rightarrow> if byte0 t = 0 then 0 # xs[0 := 0] else byte0 t # strcpy_l xs (tl t) (Suc n))"

section \<open>Directory entries\<close>

text \<open>\<^verbatim>\<open>either_copyout\<close> into the local \<^verbatim>\<open>de\<close>, the destination counted from its start.\<close>

definition de_out :: "u32 \<Rightarrow> byte list \<Rightarrow> byte list \<Rightarrow> byte list option" where
  "de_out dst bytes de = Some (take (unat dst) de @ bytes @ drop (unat dst + length bytes) de)"

fun dir_lookup_loop ::
  "int \<Rightarrow> nat \<Rightarrow> byte list \<Rightarrow> nat \<Rightarrow> u32 \<Rightarrow> fs \<times> byte list \<Rightarrow> ((nat \<times> u32) option \<times> fs) res" where
  "dir_lookup_loop pid ip name fuel offset (s, de) =
     (if offset < i_size (inode_table s ! ip) then
        (case fuel of 0 \<Rightarrow> Inl Diverges | Suc fuel \<Rightarrow>
         rbind (read_inode de_out pid ip 0 offset 16 (s, de)) (\<lambda>(r, s, de).
           if r \<noteq> 16 then Inl (Panic ''dir_lookup read_inode'')
           else if get16 de 0 = 0 then dir_lookup_loop pid ip name fuel (offset + 16) (s, de)
           else if strncmp_l name (drop 2 de) DIRSIZE = 0 then
             rbind (inode_get (i_dev (inode_table s ! ip)) (ucast (get16 de 0)) s)
               (\<lambda>(i, s). Inr (Some (i, offset), s))
           else dir_lookup_loop pid ip name fuel (offset + 16) (s, de)))
      else Inr (None, s))"

declare dir_lookup_loop.simps [simp del]

definition dir_fuel :: "nat \<Rightarrow> fs \<Rightarrow> nat" where
  "dir_fuel ip s = Suc (unat (i_size (inode_table s ! ip)) div 16)"

definition dir_lookup :: "byte list \<Rightarrow> int \<Rightarrow> nat \<Rightarrow> byte list \<Rightarrow> fs \<Rightarrow> ((nat \<times> u32) option \<times> fs) res" where
  "dir_lookup de pid ip name s =
     (if i_type (inode_table s ! ip) \<noteq> DIR_TYPE then Inl (Panic ''dir lookup, not dir'')
      else dir_lookup_loop pid ip name (dir_fuel ip s) 0 (s, de))"

fun dir_free_slot ::
  "int \<Rightarrow> nat \<Rightarrow> nat \<Rightarrow> u32 \<Rightarrow> fs \<times> byte list \<Rightarrow> (u32 \<times> fs \<times> byte list) res" where
  "dir_free_slot pid ip fuel offset (s, de) =
     (if offset < i_size (inode_table s ! ip) then
        (case fuel of 0 \<Rightarrow> Inl Diverges | Suc fuel \<Rightarrow>
         rbind (read_inode de_out pid ip 0 offset 16 (s, de)) (\<lambda>(r, s, de).
           if r \<noteq> 16 then Inl (Panic ''dir_link, read_inode'')
           else if get16 de 0 = 0 then Inr (offset, s, de)
           else dir_free_slot pid ip fuel (offset + 16) (s, de)))
      else Inr (offset, s, de))"

declare dir_free_slot.simps [simp del]

definition make_direntry :: "byte list \<Rightarrow> u16 \<Rightarrow> byte list \<Rightarrow> byte list" where
  "make_direntry name inum de = put16 0 inum (take 2 de @ strcpy_l (drop 2 de) name DIRSIZE)"

definition dir_link :: "byte \<Rightarrow> byte \<Rightarrow> byte list \<Rightarrow> int \<Rightarrow> nat \<Rightarrow> byte list \<Rightarrow> u32 \<Rightarrow> fs \<Rightarrow> (int \<times> fs) res" where
  "dir_link past stk de0 pid ip name inum s =
     rbind (dir_lookup de0 pid ip name s) (\<lambda>(found, s).
       rbind (case found of Some (inod, _) \<Rightarrow> inode_put past pid inod s | None \<Rightarrow> Inr s) (\<lambda>s.
         rbind (dir_free_slot pid ip (dir_fuel ip s) 0 (s, de0)) (\<lambda>(offset, s, de).
           let de = make_direntry name (ucast inum) de;
               inp = (\<lambda>src j. (take (Suc (unat j)) (drop (unat src) (de @ [stk])), True))
           in rbind (write_inode past inp pid ip 0 offset 16 s) (\<lambda>(r, s).
                if r \<noteq> 16 then Inl (Panic ''dir_link, write_inode'') else Inr (0, s)))))"

section \<open>Path names\<close>

text \<open>\<^verbatim>\<open>skip_elem\<close>: the rest of the path behind the first element (\<^term>\<open>None\<close> for the null pointer)
  and the new contents of the name buffer.\<close>

definition skip_elem :: "bool \<Rightarrow> byte list \<Rightarrow> byte list \<Rightarrow> (byte list \<times> byte list) option" where
  "skip_elem below path name =
     (let path = dropWhile (\<lambda>c. c = SLASH) path in
      if path = [] then None
      else
        let s = path;
            path = dropWhile (\<lambda>c. c \<noteq> SLASH) path;
            len = length s - length path;
            name = (if DIRSIZE \<le> len
                    then take DIRSIZE s @ (if below then [byte0 (drop DIRSIZE s)] else drop DIRSIZE name)
                    else take len s @ [0] @ drop (Suc len) name)
        in Some (dropWhile (\<lambda>c. c = SLASH) path, name))"

lemma skip_elem_shorter:
  assumes "skip_elem below path name = Some (rest, name')"
  shows "length rest < length path"
proof -
  let ?p = "dropWhile (\<lambda>c. c = SLASH) path"
  from assms have ne: "?p \<noteq> []"
    and rest: "rest = dropWhile (\<lambda>c. c = SLASH) (dropWhile (\<lambda>c. c \<noteq> SLASH) ?p)"
    by (auto simp: skip_elem_def Let_def split: if_splits)
  from ne have "hd ?p \<noteq> SLASH" using hd_dropWhile by blast
  with ne have "dropWhile (\<lambda>c. c \<noteq> SLASH) ?p = dropWhile (\<lambda>c. c \<noteq> SLASH) (tl ?p)"
    by (cases ?p) auto
  then have "length rest \<le> length (tl ?p)"
    unfolding rest by (metis length_dropWhile_le le_trans)
  also have "\<dots> < length ?p" using ne by simp
  also have "\<dots> \<le> length path" by (rule length_dropWhile_le)
  finally show ?thesis .
qed

function name_fetch_loop ::
  "bool \<Rightarrow> byte \<Rightarrow> byte list \<Rightarrow> int \<Rightarrow> bool \<Rightarrow> byte list \<Rightarrow> byte list \<Rightarrow> nat \<Rightarrow> fs
     \<Rightarrow> (nat option \<times> byte list \<times> fs) res" where
  "name_fetch_loop below past de pid nameiparent path name ip s =
     (case skip_elem below path name of
        None \<Rightarrow>
          if nameiparent then rbind (inode_put past pid ip s) (\<lambda>s. Inr (None, name, s))
          else Inr (Some ip, name, s)
      | Some (rest, name') \<Rightarrow>
          rbind (inode_lock pid ip s) (\<lambda>s.
            if i_type (inode_table s ! ip) \<noteq> DIR_TYPE then
              rbind (inode_unlock pid ip s) (\<lambda>s.
                rbind (inode_put past pid ip s) (\<lambda>s. Inr (None, name', s)))
            else if nameiparent \<and> rest = [] then
              rbind (inode_unlock pid ip s) (\<lambda>s. Inr (Some ip, name', s))
            else
              rbind (dir_lookup de pid ip name' s) (\<lambda>(nxt, s).
                case nxt of
                  None \<Rightarrow> rbind (inode_unlock pid ip s) (\<lambda>s.
                            rbind (inode_put past pid ip s) (\<lambda>s. Inr (None, name', s)))
                | Some (n, _) \<Rightarrow> rbind (inode_unlock pid ip s) (\<lambda>s.
                            rbind (inode_put past pid ip s)
                              (name_fetch_loop below past de pid nameiparent rest name' n)))))"
  by pat_completeness auto
termination
  by (relation "measure (\<lambda>(below, past, de, pid, par, path, name, ip, s). length path)")
    (auto dest: skip_elem_shorter)

declare name_fetch_loop.simps [simp del]

definition name_fetch ::
  "bool \<Rightarrow> byte \<Rightarrow> byte list \<Rightarrow> int \<Rightarrow> nat \<Rightarrow> byte list \<Rightarrow> bool \<Rightarrow> byte list \<Rightarrow> fs
     \<Rightarrow> (nat option \<times> byte list \<times> fs) res" where
  "name_fetch below past de pid cwd path nameiparent name s =
     rbind (if byte0 path = SLASH then inode_get ROOTDEV ROOTING s else Inr (cwd, inode_dup cwd s))
       (\<lambda>(ip, s). name_fetch_loop below past de pid nameiparent path name ip s)"

definition name_inode ::
  "bool \<Rightarrow> byte \<Rightarrow> byte list \<Rightarrow> byte list \<Rightarrow> int \<Rightarrow> nat \<Rightarrow> byte list \<Rightarrow> fs \<Rightarrow> (nat option \<times> fs) res" where
  "name_inode below past de nm pid cwd path s =
     rbind (name_fetch below past de pid cwd path False nm s) (\<lambda>(ip, _, s). Inr (ip, s))"

definition nameiparent ::
  "bool \<Rightarrow> byte \<Rightarrow> byte list \<Rightarrow> int \<Rightarrow> nat \<Rightarrow> byte list \<Rightarrow> byte list \<Rightarrow> fs \<Rightarrow> (nat option \<times> byte list \<times> fs) res" where
  "nameiparent below past de pid cwd path name s = name_fetch below past de pid cwd path True name s"

section \<open>Names\<close>

text \<open>The string in an \<open>n\<close> byte buffer.\<close>

definition cname :: "nat \<Rightarrow> byte list \<Rightarrow> byte list" where
  "cname n xs = takeWhile (\<lambda>c. c \<noteq> 0) (take n xs)"

lemma cname_simps [simp]: "cname 0 xs = []"
  "cname (Suc n) xs = (if byte0 xs = 0 then [] else byte0 xs # cname n (tl xs))"
  by (cases xs; simp add: cname_def byte0_def)+

lemma strncmp_l_zero_iff: "strncmp_l a b n = 0 \<longleftrightarrow> cname n a = cname n b"
proof (induction a b n rule: strncmp_l.induct)
  case (2 a b n)
  have "uint (byte0 a) - uint (byte0 b) = 0 \<longleftrightarrow> byte0 a = byte0 b" by (simp add: word_uint_eq_iff)
  with 2 show ?case by auto
qed simp

text \<open>The list version of \<^verbatim>\<open>strncmp\<close> is the one on memory, applied to the bytes there.\<close>

lemma strncmp_l_refines:
  "strncmp m a b n = strncmp_l (map (\<lambda>i. m (a + of_nat i)) [0..<unat n]) (map (\<lambda>i. m (b + of_nat i)) [0..<unat n]) (unat n)"
proof (induction "unat n" arbitrary: a b n)
  case 0
  then have "n = 0" by (simp add: unat_eq_zero)
  then show ?case by (simp add: strncmp.simps [of m a b 0])
next
  case (Suc k)
  then have n0: "n \<noteq> 0" by auto
  with unat_Suc_pred [OF n0] Suc.hyps(2) have n: "n \<noteq> 0" "unat (n - 1) = k" "unat n = Suc k" by simp_all
  have sh: "map (\<lambda>i. m (x + of_nat i)) [0..<Suc k] = m x # map (\<lambda>i. m (x + 1 + of_nat i)) [0..<k]" for x :: u32
    by (simp add: upt_rec [of 0] map_Suc_upt [symmetric] comp_def add.assoc del: upt_Suc)
  from Suc.hyps(1) [of "n - 1" "a + 1" "b + 1"] n show ?case
    by (subst strncmp.simps) (simp add: sh byte0_def del: upt_Suc)
qed

lemma length_strcpy_l [simp]: "length (strcpy_l s t n) = length s"
  by (induction s t n rule: strcpy_l.induct) (auto split: list.splits)

lemma cname_strcpy_l:
  "0 < n \<Longrightarrow> n \<le> length s \<Longrightarrow> cname n (strcpy_l s t n) = cname (n - 1) t"
proof (induction s t n rule: strcpy_l.induct)
  case (2 s t)
  then show ?case by (cases s) (simp_all add: byte0_def)
next
  case (3 s t n)
  then obtain x xs where s: "s = x # xs" by (cases s) auto
  show ?case
  proof (cases "byte0 t = 0")
    case True
    then show ?thesis using s by (simp add: byte0_def)
  next
    case False
    then show ?thesis using "3.IH" [OF s False] "3.prems" s by (simp add: byte0_def)
  qed
qed simp

section \<open>Looking up a name\<close>

text \<open>The bytes of the \<open>k\<close>-th entry of a directory, when a name matches an entry, and the first
  matching entry among the first \<open>n\<close> from \<open>k\<close> on.\<close>

definition entry_at :: "fs \<Rightarrow> nat \<Rightarrow> nat \<Rightarrow> byte list" where
  "entry_at s ip k = map (file_byte s ip) [16 * k..<16 * k + 16]"

definition entry_matches :: "byte list \<Rightarrow> byte list \<Rightarrow> bool" where
  "entry_matches name de \<longleftrightarrow> get16 de 0 \<noteq> 0 \<and> cname DIRSIZE name = cname DIRSIZE (drop 2 de)"

fun first_match :: "byte list \<Rightarrow> byte list list \<Rightarrow> nat option" where
  "first_match name [] = None"
| "first_match name (e # es) = (if entry_matches name e then Some 0 else map_option Suc (first_match name es))"

lemma first_match_Some:
  "first_match name es = Some k \<Longrightarrow> k < length es \<and> entry_matches name (es ! k) \<and> (\<forall>j<k. \<not> entry_matches name (es ! j))"
  by (induction es arbitrary: k) (auto split: if_splits simp: less_Suc_eq_0_disj)

lemma first_match_None: "first_match name es = None \<longleftrightarrow> (\<forall>e\<in>set es. \<not> entry_matches name e)"
  by (induction es) auto

text \<open>A directory that can be searched without an error: its cache is in order and every block of
  it is allocated.\<close>

definition dir_ready :: "nat \<Rightarrow> fs \<Rightarrow> bool" where
  "dir_ready ip s \<longleftrightarrow> cache_ok (cache s) \<and> (\<forall>b. readable (cache s) b)
     \<and> (\<forall>b. length (view (cache s) b) = BUFFER_SIZE) \<and> i_dev (inode_table s ! ip) = ROOTDEV
     \<and> unat (i_size (inode_table s ! ip)) mod 16 = 0 \<and> mapped s ip (unat (i_size (inode_table s ! ip)))"

definition same_disk :: "fs \<Rightarrow> fs \<Rightarrow> bool" where
  "same_disk s s' \<longleftrightarrow> view (cache s') = view (cache s) \<and> inode_table s' = inode_table s \<and> sb s' = sb s"

lemma same_diskD: "same_disk s s' \<Longrightarrow> inode_table s' = inode_table s"
  "same_disk s s' \<Longrightarrow> entry_at s' ip k = entry_at s ip k"
  using same_view(2) [of s' s ip] by (simp_all add: same_disk_def entry_at_def)

lemma same_disk_refl [simp]: "same_disk s s" by (simp add: same_disk_def)

lemma same_disk_trans: "same_disk a b \<Longrightarrow> same_disk b c \<Longrightarrow> same_disk a c" by (simp add: same_disk_def)

lemma read_direntry:
  assumes "dir_ready ip s" "unat off = 16 * k" "unat off < unat (i_size (inode_table s ! ip))" "length de = 16"
  shows "\<exists>s'. read_inode de_out pid ip 0 off 16 (s, de) = Inr (16, s', entry_at s ip k)
    \<and> dir_ready ip s' \<and> same_disk s s'"
proof -
  let ?size = "i_size (inode_table s ! ip)"
  note rd = assms(1) [unfolded dir_ready_def]
  have room: "unat off + 16 \<le> unat ?size"
  proof -
    have "unat ?size mod 16 = 0" using rd by blast
    then obtain q where q: "unat ?size = 16 * q" by (auto simp: mod_eq_0_iff_dvd elim: dvdE)
    then show ?thesis using assms(2,3) by simp
  qed
  have "unat ?size \<le> 274432" using rd by (simp add: mapped_def)
  then have sum: "unat (off + 16) = unat off + 16" using room by (intro unat_plus_u32 [of off 16, simplified]) simp
  have in_blk: "unat off mod BUFFER_SIZE + 16 \<le> BUFFER_SIZE"
  proof -
    have "(16 * k) mod (16 * 64) = 16 * (k mod 64)" by (rule mult_mod_right [symmetric])
    moreover have "k mod 64 < 64" by simp
    ultimately show ?thesis by (simp add: assms(2))
  qed
  then have ch: "16 = chunk (16 - 0) off" using chunk_bounds(3) [of 16 off] by (intro word_unat_eq_iff [THEN iffD2]) simp
  have mp: "mapped s ip (unat off + unat ((16 :: u32) - 0))" using mapped_mono [of s ip "unat ?size"] rd room by simp
  have "map (\<lambda>i. file_byte s ip (unat off + i)) [0..<unat (16 :: u32)] = entry_at s ip k"
    by (rule nth_equalityI) (simp_all add: entry_at_def assms(2))
  then have out: "de_out 0 (map (\<lambda>i. file_byte s ip (unat off + i)) [0..<unat (16 :: u32)]) de = Some (entry_at s ip k)"
    using assms(4) by (simp add: de_out_def entry_at_def)
  obtain c where c: "cache_ok c" "view c = view (cache s)" "\<forall>b. readable c b"
    "read_inode_loop de_out pid ip (Suc 15) 0 off 16 0 (s, de)
      = read_inode_loop de_out pid ip 15 (0 + 16) (off + 16) 16 (0 + 16) (s\<lparr>cache := c\<rparr>, entry_at s ip k)"
    by (rule read_inode_step [where pid = pid and fuel = 15 and out = de_out and i = 0, OF _ _ _ _ _ mp ch out]) (use rd in auto)
  then have "read_inode_loop de_out pid ip 16 0 off 16 0 (s, de) = Inr (s\<lparr>cache := c\<rparr>, entry_at s ip k)"
    by (simp add: read_inode_loop.simps [of _ _ _ 15 16 _ 16 16])
  moreover have "\<not> (off > ?size \<or> off + 16 < off)" "\<not> off + 16 > ?size"
    using sum room by (simp_all add: word_less_nat_alt word_le_nat_alt not_less)
  ultimately have "read_inode de_out pid ip 0 off 16 (s, de) = Inr (16, s\<lparr>cache := c\<rparr>, entry_at s ip k)"
    by (simp add: read_inode_def Let_def)
  moreover have "mapped (s\<lparr>cache := c\<rparr>) ip = mapped s ip" by (rule same_view(3)) (simp_all add: c(2))
  ultimately show ?thesis using rd c(1-3) by (auto simp: dir_ready_def same_disk_def)
qed

lemma dir_lookup_loop_spec:
  assumes "dir_ready ip s" "unat off = 16 * k" "k \<le> n" "unat (i_size (inode_table s ! ip)) = 16 * n"
    and "n - k \<le> fuel" "length de = 16"
  shows "\<exists>s'. dir_ready ip s' \<and> same_disk s s' \<and> dir_lookup_loop pid ip name fuel off (s, de) =
    (case first_match name (map (entry_at s ip) [k..<n]) of
       None \<Rightarrow> Inr (None, s')
     | Some j \<Rightarrow> rbind (inode_get ROOTDEV (ucast (get16 (entry_at s ip (k + j)) 0)) s')
         (\<lambda>(i, s). Inr (Some (i, of_nat (16 * (k + j))), s)))"
  using assms
proof (induction "n - k" arbitrary: s off k fuel de)
  case 0
  then have "k = n" by simp
  with 0 have "\<not> off < i_size (inode_table s ! ip)" by (simp add: word_less_nat_alt)
  with \<open>k = n\<close> 0 show ?case by (intro exI [of _ s]) (simp add: dir_lookup_loop.simps [of pid ip name fuel])
next
  case (Suc m)
  from Suc.hyps(2) have kn: "k < n" by simp
  with Suc.prems(5) obtain fuel' where fuel: "fuel = Suc fuel'" by (cases fuel) auto
  have lt: "unat off < unat (i_size (inode_table s ! ip))" using kn Suc.prems(2,4) by simp
  from read_direntry [OF Suc.prems(1,2) lt Suc.prems(6)] obtain s1 where
    s1: "read_inode de_out pid ip 0 off 16 (s, de) = Inr (16, s1, entry_at s ip k)" "dir_ready ip s1" "same_disk s s1"
    by blast
  let ?e = "entry_at s ip k"
  have dev: "i_dev (inode_table s1 ! ip) = ROOTDEV" using s1(2) by (simp add: dir_ready_def)
  have step: "dir_lookup_loop pid ip name fuel off (s, de) =
    (if entry_matches name ?e then rbind (inode_get ROOTDEV (ucast (get16 ?e 0)) s1) (\<lambda>(i, s). Inr (Some (i, off), s))
     else dir_lookup_loop pid ip name fuel' (off + 16) (s1, ?e))"
    using lt s1(1) dev
    by (simp add: dir_lookup_loop.simps [of pid ip name fuel off] word_less_nat_alt entry_matches_def strncmp_l_zero_iff)
      (simp add: fuel strncmp_l_zero_iff)
  have ups: "map (entry_at s ip) [k..<n] = ?e # map (entry_at s ip) [Suc k..<n]" using kn by (simp add: upt_rec [of k])
  show ?case
  proof (cases "entry_matches name ?e")
    case True
    have "of_nat (16 * k) = off" by (simp only: Suc.prems(2) [symmetric] of_nat_unat ucast_id)
    then show ?thesis using True s1 step ups by (intro exI [of _ s1]) simp
  next
    case False
    have "unat (i_size (inode_table s ! ip)) \<le> 274432" using Suc.prems(1) by (simp add: dir_ready_def mapped_def)
    with lt have off: "unat (off + 16) = 16 * Suc k"
      using unat_plus_u32 [of off 16] Suc.prems(2) by simp
    have es: "entry_at s1 ip = entry_at s ip" using same_diskD(2) [OF s1(3)] by (rule ext)
    have prems: "m = n - Suc k" "Suc k \<le> n" "n - Suc k \<le> fuel'" "length ?e = 16"
      "unat (i_size (inode_table s1 ! ip)) = 16 * n"
      using kn Suc.hyps(2) Suc.prems(4,5) fuel by (simp_all add: same_diskD(1) [OF s1(3)] entry_at_def)
    from Suc.hyps(1) [OF prems(1) s1(2) off prems(2,5,3,4)]
    obtain s2 where s2: "dir_ready ip s2" "same_disk s1 s2"
      "dir_lookup_loop pid ip name fuel' (off + 16) (s1, ?e) =
       (case first_match name (map (entry_at s ip) [Suc k..<n]) of None \<Rightarrow> Inr (None, s2)
        | Some j \<Rightarrow> rbind (inode_get ROOTDEV (ucast (get16 (entry_at s ip (Suc k + j)) 0)) s2)
            (\<lambda>(i, s). Inr (Some (i, of_nat (16 * (Suc k + j))), s)))"
      unfolding es by blast
    show ?thesis
      using False s2 step same_disk_trans [OF s1(3) s2(2)]
      by (intro exI [of _ s2]) (auto simp: ups algebra_simps split: option.splits)
  qed
qed

lemma dir_lookup_spec:
  assumes "dir_ready ip s" "i_type (inode_table s ! ip) = DIR_TYPE" "length de = 16"
    and "es = map (entry_at s ip) [0..<unat (i_size (inode_table s ! ip)) div 16]"
  shows "\<exists>s'. dir_ready ip s' \<and> same_disk s s' \<and> dir_lookup de pid ip name s =
    (case first_match name es of
       None \<Rightarrow> Inr (None, s')
     | Some k \<Rightarrow> rbind (inode_get ROOTDEV (ucast (get16 (es ! k) 0)) s') (\<lambda>(i, s). Inr (Some (i, of_nat (16 * k)), s)))"
proof -
  let ?n = "unat (i_size (inode_table s ! ip)) div 16"
  have "unat (i_size (inode_table s ! ip)) mod 16 = 0" using assms(1) unfolding dir_ready_def by blast
  then have sz: "unat (i_size (inode_table s ! ip)) = 16 * ?n" by (simp add: mod_eq_0_iff_dvd)
  have "\<exists>s'. dir_ready ip s' \<and> same_disk s s' \<and> dir_lookup_loop pid ip name (dir_fuel ip s) 0 (s, de) =
    (case first_match name (map (entry_at s ip) [0..<?n]) of None \<Rightarrow> Inr (None, s')
     | Some j \<Rightarrow> rbind (inode_get ROOTDEV (ucast (get16 (entry_at s ip (0 + j)) 0)) s')
         (\<lambda>(i, s). Inr (Some (i, of_nat (16 * (0 + j))), s)))"
    by (rule dir_lookup_loop_spec [OF assms(1) _ _ sz _ assms(3)]) (simp_all add: dir_fuel_def)
  then obtain s' where s': "dir_ready ip s'" "same_disk s s'" "dir_lookup_loop pid ip name (dir_fuel ip s) 0 (s, de) =
    (case first_match name es of None \<Rightarrow> Inr (None, s')
     | Some j \<Rightarrow> rbind (inode_get ROOTDEV (ucast (get16 (entry_at s ip j) 0)) s')
         (\<lambda>(i, s). Inr (Some (i, of_nat (16 * j)), s)))"
    unfolding add_0 assms(4) [symmetric] by blast
  have "es ! k = entry_at s ip k" if "first_match name es = Some k" for k
    using first_match_Some [OF that] assms(4) by simp
  with s' show ?thesis using assms(2) by (intro exI [of _ s']) (auto simp: dir_lookup_def split: option.splits)
qed

section \<open>Properties\<close>

text \<open>(C37) \<^verbatim>\<open>dir_lookup\<close> is first match: on a readable directory its loop ends, changes no block and no
  inode, and the result is the inode of the first used entry whose name has the same first
  fourteen characters, with the offset of that entry; it returns null exactly when no used entry
  matches.\<close>

theorem dir_lookup_first_match:
  assumes "dir_ready ip s" "i_type (inode_table s ! ip) = DIR_TYPE" "length de = 16"
    and "es = map (entry_at s ip) [0..<unat (i_size (inode_table s ! ip)) div 16]"
  shows "\<exists>s'. same_disk s s' \<and> dir_lookup de pid ip name s =
    (case first_match name es of
       None \<Rightarrow> Inr (None, s')
     | Some k \<Rightarrow> rbind (inode_get ROOTDEV (ucast (get16 (es ! k) 0)) s') (\<lambda>(i, s). Inr (Some (i, of_nat (16 * k)), s)))"
  using dir_lookup_spec [OF assms, of pid name] by blast

text \<open>What \<^verbatim>\<open>dir_link\<close> writes is found again by \<^verbatim>\<open>dir_lookup\<close> only when the name has at most
  thirteen characters: the entry holds the inode number, but \<^verbatim>\<open>strcpy\<close> keeps thirteen characters
  and a NUL while the lookup compares fourteen.\<close>

theorem link_then_lookup_thirteen:
  assumes "length de = 16" "0 \<notin> set name" "inum \<noteq> 0"
  shows "get16 (make_direntry name inum de) 0 = inum
    \<and> (entry_matches name (make_direntry name inum de) \<longleftrightarrow> length name \<le> 13)"
proof -
  let ?e = "make_direntry name inum de"
  have g: "get16 ?e 0 = inum" using assms(1) by (simp add: make_direntry_def get16_put16_same)
  have "drop 2 ?e = strcpy_l (drop 2 de) name DIRSIZE"
    using assms(1) by (simp add: make_direntry_def put16_def drop_update_swap)
  then have "cname DIRSIZE (drop 2 ?e) = cname 13 name"
    using cname_strcpy_l [of DIRSIZE "drop 2 de" name] assms(1) by simp
  moreover have "cname k name = take k name" for k
    using assms(2) by (auto simp: cname_def takeWhile_eq_all_conv dest: in_set_takeD)
  moreover have "take 14 name = take 13 name \<longleftrightarrow> length name \<le> 13"
  proof
    assume "take 14 name = take 13 name"
    then have "length (take 14 name) = length (take 13 name)" by simp
    then show "length name \<le> 13" by simp
  qed simp
  ultimately show ?thesis using g assms(3) by (simp add: entry_matches_def)
qed

text \<open>The elements that \<^verbatim>\<open>name_fetch\<close> takes from a path, one \<^verbatim>\<open>skip_elem\<close> after the other, and a
  one-pass splitting of a path at its slashes.\<close>

function path_elems :: "bool \<Rightarrow> byte list \<Rightarrow> byte list \<Rightarrow> byte list list" where
  "path_elems below path name =
     (case skip_elem below path name of None \<Rightarrow> []
      | Some (rest, name') \<Rightarrow> cname DIRSIZE name' # path_elems below rest name')"
  by pat_completeness auto
termination
  by (relation "measure (\<lambda>(below, path, name). length path)") (auto dest: skip_elem_shorter)

declare path_elems.simps [simp del]

fun split_slash :: "byte list \<Rightarrow> byte list \<Rightarrow> byte list list" where
  "split_slash acc [] = (if acc = [] then [] else [rev acc])"
| "split_slash acc (c # cs) =
     (if c = SLASH then (if acc = [] then split_slash [] cs else rev acc # split_slash [] cs)
      else split_slash (c # acc) cs)"

lemma split_slash_dropWhile: "split_slash [] (dropWhile (\<lambda>c. c = SLASH) path) = split_slash [] path"
  by (induction path) auto

lemma split_slash_takeWhile:
  "acc \<noteq> [] \<or> path \<noteq> [] \<and> hd path \<noteq> SLASH \<Longrightarrow> split_slash acc path
    = (rev acc @ takeWhile (\<lambda>c. c \<noteq> SLASH) path) # split_slash [] (dropWhile (\<lambda>c. c \<noteq> SLASH) path)"
  by (induction path arbitrary: acc) auto

lemma cname_full: "0 \<notin> set s \<Longrightarrow> n \<le> length s \<Longrightarrow> cname n (take n s @ ys) = take n s"
  by (auto simp: cname_def takeWhile_eq_all_conv dest: in_set_takeD)

lemma cname_short: "0 \<notin> set s \<Longrightarrow> length s < n \<Longrightarrow> cname n (s @ 0 # ys) = s"
proof -
  assume a: "0 \<notin> set s" "length s < n"
  then have "take n (s @ 0 # ys) = s @ 0 # take (n - Suc (length s)) ys"
    by (simp add: take_Cons' )
  moreover have "takeWhile (\<lambda>c. c \<noteq> 0) (s @ 0 # zs) = s" for zs
    using a(1) by (subst takeWhile_append2) auto
  ultimately show ?thesis by (simp only: cname_def)
qed

text \<open>(C38) Path names are split at their slashes: taking one element after the other with
  \<^verbatim>\<open>skip_elem\<close>, as \<^verbatim>\<open>name_fetch\<close> does, gives the non-empty parts between slashes, in order and each
  cut to fourteen characters, whatever the name buffer held before; repeated, leading and trailing
  slashes do not matter.\<close>

theorem path_elems_split:
  assumes "0 \<notin> set path"
  shows "path_elems below path name = map (take DIRSIZE) (split_slash [] path)"
  using assms
proof (induction below path name rule: path_elems.induct)
  case (1 below path name)
  define p where "p = dropWhile (\<lambda>c. c = SLASH) path"
  show ?case
  proof (cases "p = []")
    case True
    then have "skip_elem below path name = None" by (simp add: skip_elem_def p_def)
    moreover have "split_slash [] path = []"
      using split_slash_dropWhile [of path] unfolding p_def [symmetric] True by simp
    ultimately show ?thesis by (simp add: path_elems.simps)
  next
    case False
    let ?s = "takeWhile (\<lambda>c. c \<noteq> SLASH) p" and ?q = "dropWhile (\<lambda>c. c \<noteq> SLASH) p"
    have hd: "hd p \<noteq> SLASH" using False hd_dropWhile unfolding p_def by blast
    have nz: "0 \<notin> set p" using "1.prems" by (auto simp: p_def dest: set_dropWhileD)
    have pq: "p = ?s @ ?q" by simp
    have len: "length p - length ?q = length ?s"
      using arg_cong [OF pq, of length] unfolding length_append by linarith
    have tk: "take k p = take k ?s" if "k \<le> length ?s" for k
      using that by (subst pq) (simp only: take_append, simp)
    obtain name' where sk: "skip_elem below path name = Some (dropWhile (\<lambda>c. c = SLASH) ?q, name')"
      and nm: "name' = (if DIRSIZE \<le> length ?s
        then take DIRSIZE p @ (if below then [byte0 (drop DIRSIZE p)] else drop DIRSIZE name)
        else ?s @ [0] @ drop (Suc (length ?s)) name)"
      using False len tk [of "length ?s"] by (simp add: skip_elem_def p_def [symmetric] Let_def)
    have "0 \<notin> set ?s" using nz by (auto dest: set_takeWhileD)
    then have cn: "cname DIRSIZE name' = take DIRSIZE ?s"
      unfolding nm using tk [of DIRSIZE] cname_full [of ?s DIRSIZE] cname_short [of ?s DIRSIZE] by simp
    have "0 \<notin> set (dropWhile (\<lambda>c. c = SLASH) ?q)" using nz by (auto dest: set_dropWhileD)
    from "1.IH" [OF sk refl this]
    have "path_elems below path name = take DIRSIZE ?s # map (take DIRSIZE) (split_slash [] ?q)"
      by (subst path_elems.simps) (simp only: sk cn split_slash_dropWhile option.case prod.case)
    also have "\<dots> = map (take DIRSIZE) (split_slash [] p)"
      by (subst split_slash_takeWhile [of "[]" p]) (simp_all add: False hd)
    also have "split_slash [] p = split_slash [] path" unfolding p_def by (rule split_slash_dropWhile)
    finally show ?thesis .
  qed
qed

subsection \<open>Witnesses\<close>

definition dir_inode :: inode where
  "dir_inode = inode1\<lparr>i_type := DIR_TYPE, i_size := 32\<rparr>"

definition fs_d :: fs where
  "fs_d = fs_tx\<lparr>inode_table := dir_inode # replicate 49 inode0\<rparr>"

lemma fs_d_fields: "inode_table fs_d ! 0 = dir_inode" "i_dev dir_inode = ROOTDEV" "i_size dir_inode = 32"
  "i_type dir_inode = DIR_TYPE" "cache fs_d = cache0" "view (cache fs_d) b = replicate 1024 (ucast b)"
  using fs_tx_view fs_tx_fields by (simp_all add: fs_d_def dir_inode_def inode1_def)

lemma fs_d_ready: "dir_ready 0 fs_d"
proof -
  have "block_addr fs_d 0 0 \<noteq> 0" by (simp add: block_addr_def fs_d_fields(1) dir_inode_def inode1_def)
  then have "mapped fs_d 0 32" by (simp add: mapped_def)
  moreover have "\<forall>b. length (view (cache fs_d) b) = BUFFER_SIZE" by (simp add: fs_d_fields(6))
  ultimately show ?thesis
    using cache0_ok cache0_readable unfolding dir_ready_def fs_d_fields(1,2,3,5) by auto
qed

lemma fs_d_entry: "k < 2 \<Longrightarrow> entry_at fs_d 0 k = replicate 16 48"
proof -
  assume "k < 2"
  then have "file_byte fs_d 0 j = 48" if "16 * k \<le> j" "j < 16 * k + 16" for j
    using that by (simp only: file_byte_def fs_d_fields(1,6)) (simp add: block_addr_def fs_d_fields(1) dir_inode_def inode1_def)
  then show ?thesis by (intro nth_equalityI) (simp_all add: entry_at_def)
qed

text \<open>Every byte of block 48 is 48, the character 0: the name of fourteen zeros is found in the first
  entry, another one not.\<close>

theorem dir_lookup_first_match_witness:
  "(\<exists>s'. dir_lookup (replicate 16 0) 7 0 [65] fs_d = Inr (None, s'))
   \<and> (\<exists>s'. same_disk fs_d s' \<and> dir_lookup (replicate 16 0) 7 0 (replicate 14 48) fs_d
        = rbind (inode_get ROOTDEV 0x3030 s') (\<lambda>(i, s). Inr (Some (i, 0), s)))"
proof -
  define es where "es = map (entry_at fs_d 0) [0..<unat (i_size (inode_table fs_d ! 0)) div 16]"
  have es: "es = [replicate 16 48, replicate 16 48]"
  proof -
    have "[0..<2 :: nat] = [0, 1]" by code_simp
    then show ?thesis by (simp add: es_def fs_d_fields fs_d_entry)
  qed
  have hit: "first_match (replicate 14 48) es = Some 0" "get16 (es ! 0) 0 = 0x3030"
    unfolding es by code_simp+
  have miss: "first_match [65] es = None" unfolding es by code_simp
  have ty: "i_type (inode_table fs_d ! 0) = DIR_TYPE" by (simp add: fs_d_fields)
  show ?thesis
    using dir_lookup_first_match [OF fs_d_ready ty _ es_def, of "replicate 16 0" 7 "[65]"]
      dir_lookup_first_match [OF fs_d_ready ty _ es_def, of "replicate 16 0" 7 "replicate 14 48"]
    by (auto simp: miss hit)
qed

theorem link_then_lookup_thirteen_witness:
  "entry_matches (replicate 13 97) (make_direntry (replicate 13 97) 5 (replicate 16 0))
   \<and> \<not> entry_matches (replicate 14 97) (make_direntry (replicate 14 97) 5 (replicate 16 0))"
  using link_then_lookup_thirteen [of "replicate 16 0" "replicate 13 97" 5]
    link_then_lookup_thirteen [of "replicate 16 0" "replicate 14 97" 5] by simp

theorem path_elems_split_witness:
  "path_elems True [47, 47, 97, 47, 98, 99, 47] [] = [[97], [98, 99]]"
  using path_elems_split [of "[47, 47, 97, 47, 98, 99, 47]" True "[]"] by simp

end
