(* ===== verification/Ring.thy ===== *)
theory Ring
  imports OS_Prelude
begin

text \<open>
  Byte rings. Three components of the kernel keep a byte array indexed by two counters that
  only grow and wrap at the width of their C type: the pipe (\<^verbatim>\<open>pipes.c\<close>, 512 bytes, 32-bit
  counters), the console line buffer (\<^verbatim>\<open>console.c\<close>, 128 bytes, 32-bit) and the UART transmit
  buffer (\<^verbatim>\<open>uart.c\<close>, 32 bytes, 64-bit). \<open>ring_contents\<close> reads such an array as the list of the
  bytes between the counters. The locale \<open>byte_queue\<close> is the contract of a bounded FIFO queue;
  the components interpret it on their own put and get statements.
\<close>

definition ring_contents :: "nat \<Rightarrow> byte list \<Rightarrow> 'a::len word \<Rightarrow> 'a word \<Rightarrow> byte list" where
  "ring_contents n buf r w = map (\<lambda>k. buf ! (unat (r + of_nat k) mod n)) [0..<unat (w - r)]"

lemma length_ring_contents [simp]: "length (ring_contents n buf r w) = unat (w - r)"
  by (simp add: ring_contents_def)

lemma ring_contents_Nil_iff: "ring_contents n buf r w = [] \<longleftrightarrow> r = w"
proof -
  have "ring_contents n buf r w = [] \<longleftrightarrow> unat (w - r) = 0"
    using length_ring_contents [of n buf r w] by (metis length_0_conv)
  then show ?thesis by (auto simp: unat_eq_zero)
qed

lemma unat_add_of_nat_mod:
  assumes "n dvd 2 ^ LENGTH('a)"
  shows "unat (r + of_nat k :: 'a::len word) mod n = (unat r + k) mod n"
proof -
  have "unat (r + of_nat k :: 'a word) = (unat r + k) mod 2 ^ LENGTH('a)"
    by (simp add: unat_word_ariths unat_of_nat mod_simps)
  with assms show ?thesis by (simp add: mod_mod_cancel)
qed

text \<open>A counter that lies in the window is at most the ring size ahead of the other.\<close>

lemma ring_full_iff:
  assumes "n < 2 ^ LENGTH('a)"
  shows "((w :: 'a::len word) = r + of_nat n) = (unat (w - r) = n)"
proof -
  have "(w = r + of_nat n) = (w - r = of_nat n)" by (simp add: word_diff_eq_iff)
  moreover have "unat (of_nat n :: 'a word) = n" using assms by (simp add: unat_of_nat)
  ultimately show ?thesis by (metis of_nat_unat ucast_id)
qed

lemma ring_succ:
  assumes "unat (w - r) < n" "n < 2 ^ LENGTH('a)"
  shows "unat ((w :: 'a::len word) + 1 - r) = Suc (unat (w - r))"
proof -
  have "w - r \<noteq> - 1"
  proof
    assume "w - r = - 1"
    then have "unat (w - r) = 2 ^ LENGTH('a) - 1"
      by (simp add: unsigned_minus_1_eq_mask mask_eq_exp_minus_1)
    with assms show False by simp
  qed
  then have "1 + (w - r) \<noteq> 0" by (metis add.inverse_unique)
  then have "unat (1 + (w - r)) = Suc (unat (w - r))" by (rule unatSuc)
  then show ?thesis by (simp add: algebra_simps)
qed

lemma add_mod_inj:
  assumes "k < k'" "k' < (n :: nat)"
  shows "(a + k) mod n \<noteq> (a + k') mod n"
proof
  assume "(a + k) mod n = (a + k') mod n"
  then have "n dvd (a + k') - (a + k)" using assms by (subst (asm) eq_commute) (simp add: mod_eq_dvd_iff_nat)
  then have "n dvd k' - k" by simp
  with assms show False by (auto dest: dvd_imp_le)
qed

lemma ring_put:
  assumes "length buf = n" "0 < n" "n dvd 2 ^ LENGTH('a)" "unat (w - r) < n" "n < 2 ^ LENGTH('a)"
  shows "ring_contents n (buf[unat w mod n := c]) r ((w :: 'a::len word) + 1) = ring_contents n buf r w @ [c]"
proof -
  let ?k = "unat (w - r)"
  have w: "unat w mod n = (unat r + ?k) mod n"
    using unat_add_of_nat_mod [OF assms(3), of r ?k] by simp
  have ne: "(unat r + ?k) mod n \<noteq> (unat r + k) mod n" if "k < ?k" for k
    using add_mod_inj [of k ?k n "unat r"] that assms(4) by simp
  have "map (\<lambda>k. buf[unat w mod n := c] ! (unat (r + of_nat k) mod n)) [0..<?k]
      = ring_contents n buf r w"
    by (auto simp: ring_contents_def unat_add_of_nat_mod [OF assms(3)] w nth_list_update_cases ne)
  moreover have "unat w mod n < length buf" using assms(1,2) by simp
  ultimately show ?thesis
    by (simp add: ring_contents_def ring_succ [OF assms(4,5)] unat_add_of_nat_mod [OF assms(3)]
        flip: w)
qed

lemma ring_get:
  assumes "r \<noteq> w" 
  shows "ring_contents n buf r w = buf ! (unat r mod n) # ring_contents n buf ((r :: 'a::len word) + 1) w"
proof -
  have k: "unat (w - r) = Suc (unat (w - (r + 1)))"
    using unat_Suc_pred [of "w - r"] assms by (simp add: diff_diff_eq)
  show ?thesis
    by (simp add: ring_contents_def k upt_conv_Cons map_Suc_upt [symmetric] algebra_simps
        del: upt_Suc flip: map_Suc_upt)
qed

lemma ring_shrink:
  "r \<noteq> w \<Longrightarrow> unat (w - (r + 1)) = unat (w - (r :: 'a::len word)) - 1"
  using unat_Suc_pred [of "w - r"] by (simp add: diff_diff_eq)

text \<open>Taking the last byte back, as the console does for an erased character.\<close>

lemma ring_unput:
  assumes "r \<noteq> w"
  shows "ring_contents n buf r ((w :: 'a::len word) - 1) = butlast (ring_contents n buf r w)"
    "last (ring_contents n buf r w) = buf ! (unat (w - 1) mod n)"
proof -
  let ?k = "unat (w - 1 - r)"
  have "w - r \<noteq> 0" using assms by simp
  then have k: "unat (w - r) = Suc ?k"
    using unat_Suc_pred [of "w - r"] by (simp add: algebra_simps)
  have "r + of_nat ?k = w - 1" by simp
  with k show "ring_contents n buf r (w - 1) = butlast (ring_contents n buf r w)"
    and "last (ring_contents n buf r w) = buf ! (unat (w - 1) mod n)"
    by (simp_all add: ring_contents_def butlast_append)
qed

lemma ring_append:
  assumes "unat (w - r) + unat (e - w) = unat (e - (r :: 'a::len word))"
  shows "ring_contents n buf r e = ring_contents n buf r w @ ring_contents n buf w e"
proof -
  let ?a = "unat (w - r)" and ?f = "\<lambda>k. buf ! (unat (r + of_nat k) mod n)"
  have "r + of_nat (k + ?a) = w + of_nat k" for k by simp
  then have "map ?f [?a..<?a + unat (e - w)] = ring_contents n buf w e"
    by (simp add: ring_contents_def map_add_upt [symmetric] add.commute del: map_add_upt)
  moreover have "[0..<unat (e - r)] = [0..<?a] @ [?a..<?a + unat (e - w)]"
    by (simp only: assms [symmetric] upt_add_eq_append [OF zero_le])
  ultimately show ?thesis by (simp add: ring_contents_def)
qed

section \<open>Bounded queues\<close>

locale byte_queue =
  fixes inv :: "'s \<Rightarrow> bool"
    and contents :: "'s \<Rightarrow> byte list"
    and capacity :: nat
    and full :: "'s \<Rightarrow> bool"
    and empty :: "'s \<Rightarrow> bool"
    and put :: "byte \<Rightarrow> 's \<Rightarrow> 's"
    and get :: "'s \<Rightarrow> byte \<times> 's"
  assumes full_iff: "inv s \<Longrightarrow> full s = (length (contents s) = capacity)"
    and within: "inv s \<Longrightarrow> length (contents s) \<le> capacity"
    and empty_iff: "inv s \<Longrightarrow> empty s = (contents s = [])"
    and put_inv: "inv s \<Longrightarrow> \<not> full s \<Longrightarrow> inv (put c s)"
    and put_contents: "inv s \<Longrightarrow> \<not> full s \<Longrightarrow> contents (put c s) = contents s @ [c]"
    and get_inv: "inv s \<Longrightarrow> \<not> empty s \<Longrightarrow> inv (snd (get s))"
    and get_contents: "inv s \<Longrightarrow> \<not> empty s \<Longrightarrow> contents s = fst (get s) # contents (snd (get s))"
begin

primrec put_all :: "byte list \<Rightarrow> 's \<Rightarrow> 's" where
  "put_all [] s = s"
| "put_all (c # cs) s = put_all cs (put c s)"

primrec get_n :: "nat \<Rightarrow> 's \<Rightarrow> byte list \<times> 's" where
  "get_n 0 s = ([], s)"
| "get_n (Suc n) s = (let (c, s') = get s; (cs, s'') = get_n n s' in (c # cs, s''))"

lemma not_full_iff: "inv s \<Longrightarrow> \<not> full s \<longleftrightarrow> length (contents s) < capacity"
  using full_iff [of s] within [of s] by linarith

lemma put_all_contents:
  assumes "inv s" "length (contents s) + length cs \<le> capacity"
  shows "inv (put_all cs s) \<and> contents (put_all cs s) = contents s @ cs"
  using assms
proof (induction cs arbitrary: s)
  case (Cons c cs)
  then have "\<not> full s" by (simp add: not_full_iff)
  with Cons show ?case by (simp add: put_inv put_contents)
qed simp

lemma get_n_contents:
  assumes "inv s" "n \<le> length (contents s)"
  shows "fst (get_n n s) = take n (contents s) \<and> contents (snd (get_n n s)) = drop n (contents s)
    \<and> inv (snd (get_n n s))"
  using assms
proof (induction n arbitrary: s)
  case (Suc n)
  then have ne: "\<not> empty s" by (auto simp: empty_iff)
  obtain c s' where gs: "get s = (c, s')" by (cases "get s")
  have g: "contents s = c # contents s'" "inv s'"
    using get_contents [OF Suc.prems(1) ne] get_inv [OF Suc.prems(1) ne] gs by auto
  with Suc.prems(2) have "n \<le> length (contents s')" by simp
  from Suc.IH [OF g(2) this] show ?case by (simp add: gs g(1) split_beta Let_def)
qed simp

text \<open>First in, first out: what is put into an empty queue comes back in the same order.\<close>

lemma fifo:
  assumes "inv s" "contents s = []" "length cs \<le> capacity"
  shows "fst (get_n (length cs) (put_all cs s)) = cs"
  using put_all_contents [of s cs] get_n_contents [of "put_all cs s" "length cs"] assms by simp

end

text \<open>A transfer through a queue by a producer and a consumer that interleave freely: what the
  consumer has is always a prefix of what the producer has sent, and what is missing is in
  the queue.\<close>

inductive transfer_step ::
  "('s \<Rightarrow> bool) \<Rightarrow> ('s \<Rightarrow> bool) \<Rightarrow> (byte \<Rightarrow> 's \<Rightarrow> 's) \<Rightarrow> ('s \<Rightarrow> byte \<times> 's)
     \<Rightarrow> byte list \<times> 's \<times> byte list \<Rightarrow> byte list \<times> 's \<times> byte list \<Rightarrow> bool"
  for full empty put get where
  send: "\<not> full q \<Longrightarrow> transfer_step full empty put get (c # todo, q, rcvd) (todo, put c q, rcvd)"
| receive: "\<not> empty q \<Longrightarrow> get q = (c, q') \<Longrightarrow>
    transfer_step full empty put get (todo, q, rcvd) (todo, q', rcvd @ [c])"

inductive_simps transfer_step_simps:
  "transfer_step fl em pt gt (todo, q, rcvd) (todo', q', rcvd')"

context byte_queue
begin

lemma transfer_invariant:
  assumes "(transfer_step full empty put get)\<^sup>*\<^sup>* (msg, q, []) (todo, q', rcvd)" "inv q" "contents q = []"
  shows "inv q' \<and> rcvd @ contents q' @ todo = msg"
  using assms(1)
proof (induction "(todo, q', rcvd)" arbitrary: todo q' rcvd rule: rtranclp_induct)
  case base
  then show ?case using assms(2,3) by simp
next
  case (step s)
  obtain todo1 q1 rcvd1 where s: "s = (todo1, q1, rcvd1)" by (cases s)
  from step.hyps(2) step.hyps(3) [OF s] show ?case
    unfolding s transfer_step_simps
    using put_inv [of q1] put_contents [of q1] get_inv [of q1] get_contents [of q1] by auto
qed

text \<open>The transfer never gets stuck before everything has arrived, and it ends.\<close>

lemma transfer_progress:
  assumes "(transfer_step full empty put get)\<^sup>*\<^sup>* (msg, q, []) (todo, q', rcvd)" "inv q" "contents q = []"
    and "rcvd \<noteq> msg" "0 < capacity"
  shows "\<exists>s. transfer_step full empty put get (todo, q', rcvd) s"
proof (cases "empty q'")
  case True
  note i = transfer_invariant [OF assms(1-3)]
  with True assms(4) have "todo \<noteq> []" by (auto simp: empty_iff)
  moreover have "\<not> full q'" using i True assms(5) by (simp add: full_iff empty_iff)
  ultimately show ?thesis by (metis list.exhaust transfer_step.send)
next
  case False
  then show ?thesis by (metis surj_pair transfer_step.receive)
qed

end

end
