(* ===== verification/Pipes.thy ===== *)
theory Pipes
  imports Ring
begin

text \<open>
  \<^verbatim>\<open>kernel/pipes.c\<close>: the two ends of a pipe. The data part of \<^verbatim>\<open>struct pipe\<close> is a byte ring;
  \<open>plock\<close> says whether the running process holds the pipe's spin lock, which has to be kept
  because \<^verbatim>\<open>pipewrite\<close> can release it in the middle of its loop; \<open>wakes\<close> is the list of the
  channels \<^verbatim>\<open>wakeup\<close> was called on. User memory is reached through \<^verbatim>\<open>copyto\<close> and
  \<^verbatim>\<open>copyout\<close> of one byte, which are arguments here: \<open>rd a\<close> is the byte at user address
  \<open>a\<close> or \<^term>\<open>None\<close> when the copy fails, \<open>wr a c u\<close> the user memory after a successful
  store. A call that goes to sleep stops in \<open>Block\<close> with what it needs to go on.
\<close>

abbreviation "PIPESIZE \<equiv> 512 :: nat"

record pipe =
  data :: "byte list"
  num_read :: u32
  num_write :: u32
  read_open :: bool
  write_open :: bool
  plock :: bool
  wakes :: "string list"

definition pipe_new :: "byte list \<Rightarrow> pipe" where
  "pipe_new page = \<lparr>data = page, num_read = 0, num_write = 0, read_open = True, write_open = True,
     plock = False, wakes = []\<rparr>"

definition pipe_full :: "pipe \<Rightarrow> bool" where
  "pipe_full p \<longleftrightarrow> num_write p = num_read p + of_nat PIPESIZE"

definition pipe_empty :: "pipe \<Rightarrow> bool" where
  "pipe_empty p \<longleftrightarrow> num_read p = num_write p"

text \<open>\<^verbatim>\<open>p->data[p->num_write++ % PIPESIZE] = ch\<close> and \<^verbatim>\<open>ch = p->data[p->num_read++ % PIPESIZE]\<close>.\<close>

definition pipe_put :: "byte \<Rightarrow> pipe \<Rightarrow> pipe" where
  "pipe_put ch p = p\<lparr>data := (data p)[unat (num_write p) mod PIPESIZE := ch],
     num_write := num_write p + 1\<rparr>"

definition pipe_get :: "pipe \<Rightarrow> byte \<times> pipe" where
  "pipe_get p = (data p ! (unat (num_read p) mod PIPESIZE), p\<lparr>num_read := num_read p + 1\<rparr>)"

definition pipe_wakeup :: "string \<Rightarrow> pipe \<Rightarrow> pipe" where
  "pipe_wakeup ch p = p\<lparr>wakes := wakes p @ [ch]\<rparr>"

definition pipe_unlock :: "pipe \<Rightarrow> pipe res" where
  "pipe_unlock p = (if plock p then Inr (p\<lparr>plock := False\<rparr>)
     else Inl (Panic ''release_lock, not current holder''))"

section \<open>Writing\<close>

definition pipewrite_end :: "nat \<Rightarrow> pipe \<Rightarrow> pipe outcome res" where
  "pipewrite_end i p =
     rbind (pipe_unlock (pipe_wakeup ''num_read'' p)) (\<lambda>p. Inr (Ret (int i) p))"

function pipewrite_loop ::
  "(u32 \<Rightarrow> byte option) \<Rightarrow> bool \<Rightarrow> int \<Rightarrow> u32 \<Rightarrow> nat \<Rightarrow> pipe \<Rightarrow> pipe outcome res" where
  "pipewrite_loop rd killed n addr i p =
     (if int i < n then
        rbind (if \<not> read_open p \<or> killed then pipe_unlock p else Inr p) (\<lambda>p.
          if pipe_full p then
            rbind (pipe_unlock (pipe_wakeup ''num_read'' p)) (\<lambda>p. Inr (Block ''num_write'' i p))
          else
            (case rd (addr + of_nat i) of
               None \<Rightarrow> pipewrite_end i p
             | Some ch \<Rightarrow> pipewrite_loop rd killed n addr (Suc i) (pipe_put ch p)))
      else pipewrite_end i p)"
  by pat_completeness auto
termination
  by (relation "measure (\<lambda>(rd, k, n, a, i, p). nat (n - int i))") auto

declare pipewrite_loop.simps [simp del]

definition pipewrite ::
  "(u32 \<Rightarrow> byte option) \<Rightarrow> bool \<Rightarrow> pipe \<Rightarrow> int \<Rightarrow> u32 \<Rightarrow> pipe outcome res" where
  "pipewrite rd killed p n addr = pipewrite_loop rd killed n addr 0 (p\<lparr>plock := True\<rparr>)"

text \<open>The writer that was put to sleep takes the lock again and goes on with the same \<^verbatim>\<open>i\<close>.\<close>

definition pipewrite_resume ::
  "(u32 \<Rightarrow> byte option) \<Rightarrow> bool \<Rightarrow> pipe \<Rightarrow> int \<Rightarrow> u32 \<Rightarrow> nat \<Rightarrow> pipe outcome res" where
  "pipewrite_resume rd killed p n addr i = pipewrite_loop rd killed n addr i (p\<lparr>plock := True\<rparr>)"

section \<open>Closing\<close>

text \<open>The flag of the result says that both ends are closed and the page went to \<^verbatim>\<open>kfree\<close>.\<close>

definition pipe_close :: "pipe \<Rightarrow> bool \<Rightarrow> bool \<times> pipe" where
  "pipe_close p writable =
     (let p = (if writable then pipe_wakeup ''num_read'' (p\<lparr>write_open := False\<rparr>)
               else pipe_wakeup ''num_write'' (p\<lparr>read_open := False\<rparr>))
      in (\<not> read_open p \<and> \<not> write_open p, p))"

section \<open>Reading\<close>

function piperead_loop ::
  "(u32 \<Rightarrow> byte \<Rightarrow> 'u \<Rightarrow> 'u option) \<Rightarrow> int \<Rightarrow> u32 \<Rightarrow> nat \<Rightarrow> pipe \<times> 'u \<Rightarrow> nat \<times> pipe \<times> 'u" where
  "piperead_loop wr n addr i (p, u) =
     (if int i < n then
        (if pipe_empty p then (i, p, u)
         else let (ch, p) = pipe_get p in
           (case wr (addr + of_nat i) ch u of
              None \<Rightarrow> (i, p, u)
            | Some u \<Rightarrow> piperead_loop wr n addr (Suc i) (p, u)))
      else (i, p, u))"
  by pat_completeness auto
termination
  by (relation "measure (\<lambda>(wr, n, a, i, pu). nat (n - int i))") auto

declare piperead_loop.simps [simp del]

definition piperead ::
  "(u32 \<Rightarrow> byte \<Rightarrow> 'u \<Rightarrow> 'u option) \<Rightarrow> bool \<Rightarrow> pipe \<Rightarrow> int \<Rightarrow> u32 \<Rightarrow> 'u \<Rightarrow> (pipe \<times> 'u) outcome" where
  "piperead wr killed p n addr u =
     (if pipe_empty p \<and> write_open p then
        (if killed then Ret (- 1) (p, u) else Block ''num_read'' 0 (p, u))
      else
        let (i, p, u) = piperead_loop wr n addr 0 (p, u)
        in Ret (int i) (pipe_wakeup ''num_write'' p, u))"

section \<open>The pipe is a bounded queue\<close>

definition pipe_inv :: "pipe \<Rightarrow> bool" where
  "pipe_inv p \<longleftrightarrow> length (data p) = PIPESIZE \<and> unat (num_write p - num_read p) \<le> PIPESIZE"

definition pipe_contents :: "pipe \<Rightarrow> byte list" where
  "pipe_contents p = ring_contents PIPESIZE (data p) (num_read p) (num_write p)"

lemma PIPESIZE_dvd: "PIPESIZE dvd 2 ^ LENGTH(32)"
  by simp

interpretation pq: byte_queue pipe_inv pipe_contents PIPESIZE pipe_full pipe_empty pipe_put pipe_get
proof
  fix s c
  assume inv: "pipe_inv s"
  show full: "pipe_full s = (length (pipe_contents s) = PIPESIZE)"
    using ring_full_iff [of PIPESIZE "num_write s" "num_read s"]
    by (simp add: pipe_full_def pipe_contents_def)
  show "length (pipe_contents s) \<le> PIPESIZE"
    using inv by (simp add: pipe_contents_def pipe_inv_def)
  show empty: "pipe_empty s = (pipe_contents s = [])"
    by (simp add: pipe_empty_def pipe_contents_def ring_contents_Nil_iff)
  {
    assume "\<not> pipe_full s"
    with inv full have lt: "unat (num_write s - num_read s) < PIPESIZE"
      by (simp add: pipe_inv_def pipe_contents_def)
    then have "unat (num_write s + 1 - num_read s) = Suc (unat (num_write s - num_read s))"
      by (rule ring_succ) simp
    with lt inv show "pipe_inv (pipe_put c s)" by (simp add: pipe_inv_def pipe_put_def)
    show "pipe_contents (pipe_put c s) = pipe_contents s @ [c]"
      using inv lt by (simp add: pipe_contents_def pipe_put_def pipe_inv_def ring_put)
  }
  {
    assume "\<not> pipe_empty s"
    then have ne: "num_read s \<noteq> num_write s" by (simp add: pipe_empty_def)
    then show "pipe_inv (snd (pipe_get s))"
      using inv by (auto simp: pipe_inv_def pipe_get_def ring_shrink)
    show "pipe_contents s = fst (pipe_get s) # pipe_contents (snd (pipe_get s))"
      using ring_get [OF ne] by (simp add: pipe_contents_def pipe_get_def)
  }
qed

lemmas pipe_field_defs = pipe_inv_def pipe_contents_def pipe_full_def pipe_empty_def

lemma pipe_lock_fields [simp]:
  "pipe_inv (p\<lparr>plock := b\<rparr>) = pipe_inv p"
  "pipe_contents (p\<lparr>plock := b\<rparr>) = pipe_contents p"
  "pipe_inv (pipe_wakeup ch p) = pipe_inv p"
  "pipe_contents (pipe_wakeup ch p) = pipe_contents p"
  "plock (pipe_wakeup ch p) = plock p"
  "read_open (pipe_wakeup ch p) = read_open p"
  "write_open (pipe_wakeup ch p) = write_open p"
  "plock (pipe_put c p) = plock p"
  "read_open (pipe_put c p) = read_open p"
  by (simp_all add: pipe_field_defs pipe_wakeup_def pipe_put_def)

lemma pipe_unlock_locked [simp]: "plock p \<Longrightarrow> pipe_unlock p = Inr (p\<lparr>plock := False\<rparr>)"
  by (simp add: pipe_unlock_def)

lemma pipe_unlock_unlocked [simp]:
  "\<not> plock p \<Longrightarrow> pipe_unlock p = Inl (Panic ''release_lock, not current holder'')"
  by (simp add: pipe_unlock_def)

lemma upt_extend: "i \<le> j \<Longrightarrow> f i # map f [Suc i..<Suc j] = map f [i..<Suc j]"
  by (simp add: upt_conv_Cons del: upt_Suc)

text \<open>The whole writing loop: it appends what fits, and sleeps exactly when the ring is full.\<close>

lemma pipewrite_loop_spec:
  assumes "pipe_inv p" "read_open p" "plock p" "int i \<le> n"
    and "\<And>k. i \<le> k \<Longrightarrow> int k < n \<Longrightarrow> rd (addr + of_nat k) = Some (f k)"
    and "free = PIPESIZE - length (pipe_contents p)"
  shows "\<exists>p'. pipe_inv p' \<and> read_open p' \<and> \<not> plock p' \<and>
    (if n \<le> int (i + free)
     then pipewrite_loop rd False n addr i p = Inr (Ret n p')
       \<and> pipe_contents p' = pipe_contents p @ map f [i..<nat n]
     else pipewrite_loop rd False n addr i p = Inr (Block ''num_write'' (i + free) p')
       \<and> pipe_contents p' = pipe_contents p @ map f [i..<i + free])"
  using assms
proof (induction "nat (n - int i)" arbitrary: i p free)
  case 0
  then show ?case
    by (intro exI [of _ "(pipe_wakeup ''num_read'' p)\<lparr>plock := False\<rparr>"])
      (simp add: pipewrite_loop.simps pipewrite_end_def)
next
  case (Suc d)
  note unfold = pipewrite_loop.simps [of rd False n addr i p]
  have lt: "int i < n" using Suc.hyps(2) by simp
  show ?case
  proof (cases "pipe_full p")
    case True
    then have "free = 0" using Suc.prems(1,6) by (simp add: pq.full_iff)
    with True lt Suc.prems show ?thesis
      by (intro exI [of _ "(pipe_wakeup ''num_read'' p)\<lparr>plock := False\<rparr>"]) (simp add: unfold)
  next
    case False
    let ?q = "pipe_put (f i) p"
    have free: "free = Suc (PIPESIZE - length (pipe_contents ?q))"
      using False Suc.prems(1,6) pq.not_full_iff [of p] by (simp add: pq.put_contents)
    have step: "pipewrite_loop rd False n addr i p = pipewrite_loop rd False n addr (Suc i) ?q"
      using lt False Suc.prems(2) Suc.prems(5) [of i] by (simp add: unfold)
    have "d = nat (n - int (Suc i))" using Suc.hyps(2) by simp
    moreover have "pipe_inv ?q" using False Suc.prems(1) by (rule pq.put_inv [rotated])
    moreover have "rd (addr + of_nat k) = Some (f k)" if "Suc i \<le> k" "int k < n" for k
      using that Suc.prems(5) [of k] by simp
    ultimately obtain p' where p': "pipe_inv p'" "read_open p'" "\<not> plock p'"
      "if n \<le> int (Suc i + (free - 1))
       then pipewrite_loop rd False n addr (Suc i) ?q = Inr (Ret n p')
         \<and> pipe_contents p' = pipe_contents ?q @ map f [Suc i..<nat n]
       else pipewrite_loop rd False n addr (Suc i) ?q = Inr (Block ''num_write'' (Suc i + (free - 1)) p')
         \<and> pipe_contents p' = pipe_contents ?q @ map f [Suc i..<Suc i + (free - 1)]"
      using Suc.hyps(1) [of "Suc i" ?q "free - 1"] Suc.prems(2,3) lt free by auto
    have "f i # map f [Suc i..<nat n] = map f [i..<nat n]"
      using lt by (simp add: upt_conv_Cons)
    moreover have "f i # map f [Suc i..<i + free] = map f [i..<i + free]"
      using free by (simp add: upt_conv_Cons del: upt_Suc)
    ultimately show ?thesis
      using p' free False Suc.prems(1) step by (intro exI [of _ p']) (auto simp: pq.put_contents split: if_splits)
  qed
qed

text \<open>The reading loop with any store function that keeps succeeding.\<close>

lemma piperead_loop_spec:
  assumes "pipe_inv p" "int i \<le> n"
    and "k = min (nat (n - int i)) (length (pipe_contents p))"
    and "store_run wr (addr + of_nat i) (take k (pipe_contents p)) u = Some u'"
  shows "\<exists>p'. piperead_loop wr n addr i (p, u) = (i + k, p', u') \<and> pipe_inv p'
    \<and> pipe_contents p' = drop k (pipe_contents p) \<and> read_open p' = read_open p
    \<and> write_open p' = write_open p"
  using assms
proof (induction k arbitrary: i p u)
  case 0
  then have "\<not> int i < n \<or> pipe_empty p" by (auto simp: pq.empty_iff min_def split: if_splits)
  with 0 show ?case by (auto simp: piperead_loop.simps [of wr n addr i])
next
  case (Suc k)
  then have lt: "int i < n" and ne: "\<not> pipe_empty p" by (auto simp: pq.empty_iff)
  obtain c q where g: "pipe_get p = (c, q)" by (cases "pipe_get p")
  have q: "pipe_inv q" "pipe_contents p = c # pipe_contents q" "read_open q = read_open p"
    "write_open q = write_open p"
    using pq.get_inv [OF Suc.prems(1) ne] pq.get_contents [OF Suc.prems(1) ne] g
    by (auto simp: pipe_get_def)
  from Suc.prems(4) obtain u1 where u1: "wr (addr + of_nat i) c u = Some u1"
    "store_run wr (addr + of_nat (Suc i)) (take k (pipe_contents q)) u1 = Some u'"
    by (auto simp: q(2) add.commute add.left_commute split: option.splits)
  have "k = min (nat (n - int (Suc i))) (length (pipe_contents q))"
    using Suc.prems(3) lt by (simp add: q(2))
  from Suc.IH [OF q(1) _ this u1(2)] lt show ?case
    by (auto simp: piperead_loop.simps [of wr n addr i p u] ne g u1(1) q)
qed

section \<open>Properties\<close>

text \<open>\<^verbatim>\<open>pipewrite\<close> to a pipe whose read end is open: with the ring invariant, and when the
  \<open>n\<close> source bytes are readable, the call appends all of them and returns \<open>n\<close> if they
  fit; otherwise it appends exactly as many as fit, keeping their order, and goes to sleep on
  \<^verbatim>\<open>num_write\<close> with the count so far. The counters may have wrapped around 32 bits.\<close>

theorem pipewrite_appends:
  assumes "pipe_inv p" "read_open p" "0 \<le> n"
    and "\<forall>k. int k < n \<longrightarrow> rd (addr + of_nat k) = Some (f k)"
    and "free = PIPESIZE - length (pipe_contents p)"
  shows "\<exists>p'. pipe_inv p' \<and> (if n \<le> int free
     then pipewrite rd False p n addr = Inr (Ret n p')
       \<and> pipe_contents p' = pipe_contents p @ map f [0..<nat n]
     else pipewrite rd False p n addr = Inr (Block ''num_write'' free p')
       \<and> pipe_contents p' = pipe_contents p @ map f [0..<free])"
  using pipewrite_loop_spec [of "p\<lparr>plock := True\<rparr>" 0 n rd addr f free] assms
  by (auto simp: pipewrite_def split: if_splits)

text \<open>\<^verbatim>\<open>piperead\<close> from a pipe that holds something, or whose write end is closed: it moves the
  first \<open>min n (bytes available)\<close> bytes to the user addresses \<^verbatim>\<open>addr\<close>, \<^verbatim>\<open>addr + 1\<close>, ..., leaves
  every other user byte alone, returns the count (0 at end of file) and keeps the rest queued.\<close>

theorem piperead_takes:
  assumes "pipe_inv p" "pipe_contents p \<noteq> [] \<or> \<not> write_open p" "0 \<le> n"
    and "k = min (nat n) (length (pipe_contents p))"
  shows "\<exists>p'. piperead poke killed p n addr u = Ret (int k) (p',
      \<lambda>x. if unat (x - addr) < k then pipe_contents p ! unat (x - addr) else u x)
    \<and> pipe_inv p' \<and> pipe_contents p' = drop k (pipe_contents p)"
proof -
  let ?u = "\<lambda>x. if unat (x - addr) < k then pipe_contents p ! unat (x - addr) else u x"
  have "length (pipe_contents p) \<le> 512" using pq.within [OF assms(1)] by simp
  then have "store_run poke (addr + of_nat 0) (take k (pipe_contents p)) u = Some ?u"
    using assms(4) by (subst store_run_poke) (auto intro!: ext)
  from piperead_loop_spec [OF assms(1) _ _ this, of n] assms(3,4) obtain p' where
    "piperead_loop poke n addr 0 (p, u) = (k, p', ?u)" "pipe_inv p'"
    "pipe_contents p' = drop k (pipe_contents p)" by auto
  moreover have "\<not> (pipe_empty p \<and> write_open p)" using assms(1,2) by (auto simp: pq.empty_iff)
  ultimately show ?thesis
    by (intro exI [of _ "pipe_wakeup ''num_write'' p'"]) (auto simp: piperead_def)
qed

text \<open>Writing to a pipe whose read end is closed, or from a killed process: the loop releases
  the lock but does not return, so the call never reports an error to its caller; for every
  pipe state and every user memory it panics in \<^verbatim>\<open>release_lock\<close>.\<close>

theorem pipewrite_closed_panics:
  assumes "\<not> read_open p \<or> killed" "0 < n"
  shows "pipewrite rd killed p n addr = Inl (Panic ''release_lock, not current holder'')"
  using assms
  by (auto simp: pipewrite_def pipewrite_loop.simps [of rd killed n addr]
      pipewrite_end_def split: option.splits)

text \<open>A writer sending \<open>n\<close> bytes and readers with requests of any size take turns on the pipe:
  a state is the number of bytes written, the pipe and what the readers have got.\<close>

inductive session ::
  "(u32 \<Rightarrow> byte option) \<Rightarrow> int \<Rightarrow> u32 \<Rightarrow> nat \<times> pipe \<times> byte list \<Rightarrow> nat \<times> pipe \<times> byte list \<Rightarrow> bool"
  for rd n addr where
  sess_block: "pipewrite_resume rd False p n addr i = Inr (Block ch j p') \<Longrightarrow>
    session rd n addr (i, p, u) (j, p', u)"
| sess_done: "pipewrite_resume rd False p n addr i = Inr (Ret r p') \<Longrightarrow>
    session rd n addr (i, p, u) (nat r, p', u)"
| sess_read: "piperead collect False p m a u = Ret r (p', u') \<Longrightarrow>
    session rd n addr (i, p, u) (i, p', u')"

inductive_simps session_simps: "session rd n addr (i, p, u) (i', p', u')"

definition session_inv :: "(nat \<Rightarrow> byte) \<Rightarrow> int \<Rightarrow> nat \<times> pipe \<times> byte list \<Rightarrow> bool" where
  "session_inv f n = (\<lambda>(i, p, u). pipe_inv p \<and> read_open p \<and> int i \<le> n
     \<and> u @ pipe_contents p = map f [0..<i])"

lemma map_upt_split: "i \<le> j \<Longrightarrow> map f [0..<i] @ map f [i..<j] = map f [0..<j]"
  by (metis map_append upt_add_eq_append le_add_diff_inverse zero_le)

lemma session_write_inv:
  assumes "session_inv f n (i, p, u)" "\<forall>k. int k < n \<longrightarrow> rd (addr + of_nat k) = Some (f k)"
  shows "\<exists>j p'. session_inv f n (j, p', u) \<and> (pipewrite_resume rd False p n addr i = Inr (Ret (int j) p')
      \<or> pipewrite_resume rd False p n addr i = Inr (Block ''num_write'' j p'))"
proof -
  define free where "free = PIPESIZE - length (pipe_contents p)"
  from assms(1) have inv: "pipe_inv p" "read_open p" "int i \<le> n" "u @ pipe_contents p = map f [0..<i]"
    by (auto simp: session_inv_def)
  from pipewrite_loop_spec [of "p\<lparr>plock := True\<rparr>" i n rd addr f free] inv assms(2)
  obtain p' where p': "pipe_inv p'" "read_open p'"
    "if n \<le> int (i + free)
     then pipewrite_loop rd False n addr i (p\<lparr>plock := True\<rparr>) = Inr (Ret n p')
       \<and> pipe_contents p' = pipe_contents p @ map f [i..<nat n]
     else pipewrite_loop rd False n addr i (p\<lparr>plock := True\<rparr>) = Inr (Block ''num_write'' (i + free) p')
       \<and> pipe_contents p' = pipe_contents p @ map f [i..<i + free]"
    by (auto simp: free_def)
  define j where "j = (if n \<le> int (i + free) then nat n else i + free)"
  have "i \<le> j" "int j \<le> n" "pipe_contents p' = pipe_contents p @ map f [i..<j]"
    using p'(3) inv(3) by (auto simp: j_def split: if_splits)
  then have "session_inv f n (j, p', u)"
    using p'(1,2) inv(4) by (simp add: session_inv_def append_assoc [symmetric] map_upt_split del: append_assoc)
  moreover have "n \<le> int (i + free) \<Longrightarrow> int j = n" using inv(3) by (simp add: j_def)
  ultimately show ?thesis
    using p'(3) by (intro exI [of _ j] exI [of _ p']) (auto simp: pipewrite_resume_def j_def split: if_splits)
qed

lemma session_read_inv:
  assumes "session_inv f n (i, p, u)" "piperead collect False p m a u = Ret r (p', u')"
  shows "session_inv f n (i, p', u')"
proof (cases "pipe_empty p \<and> write_open p \<or> m \<le> 0")
  case True
  then have "p' = pipe_wakeup ''num_write'' p" "u' = u"
    using assms(2) by (auto simp: piperead_def piperead_loop.simps [of collect m a 0] split: if_splits)
  with assms(1) show ?thesis by (simp add: session_inv_def)
next
  case False
  from assms(1) have inv: "pipe_inv p" by (simp add: session_inv_def)
  let ?k = "min (nat m) (length (pipe_contents p))"
  from piperead_loop_spec [OF inv _ _ store_run_collect, of 0 m ?k a u] False obtain q where
    "piperead_loop collect m a 0 (p, u) = (?k, q, u @ take ?k (pipe_contents p))" "pipe_inv q"
    "pipe_contents q = drop ?k (pipe_contents p)" "read_open q = read_open p" by auto
  moreover from this False assms(2) have "p' = pipe_wakeup ''num_write'' q"
    "u' = u @ take ?k (pipe_contents p)" by (auto simp: piperead_def split: if_splits)
  ultimately show ?thesis using assms(1) by (simp add: session_inv_def)
qed

lemma session_inv_step:
  assumes "session rd n addr s s'" "session_inv f n s" "\<forall>k. int k < n \<longrightarrow> rd (addr + of_nat k) = Some (f k)"
  shows "session_inv f n s'"
  using assms(1)
proof cases
  case (sess_block p i ch j p' u)
  with session_write_inv [of f n i p u rd addr] assms(2,3) show ?thesis by auto
next
  case (sess_done p i r p' u)
  with session_write_inv [of f n i p u rd addr] assms(2,3) show ?thesis by auto
next
  case (sess_read p m a u r p' u' i)
  with session_read_inv assms(2) show ?thesis by blast
qed


subsection \<open>Witnesses\<close>

text \<open>A pipe whose counters have wrapped: one byte queued, at index 511.\<close>

definition pipe1 :: pipe where
  "pipe1 = (pipe_new (replicate 512 7))\<lparr>num_read := 0xffffffff, num_write := 0\<rparr>"

lemma pipe1_inv: "pipe_inv pipe1"
  by (simp add: pipe1_def pipe_inv_def pipe_new_def)

lemma pipe1_contents: "pipe_contents pipe1 = [7]"
  by (simp add: pipe1_def pipe_contents_def pipe_new_def ring_contents_def unat_minus_one_u32)

theorem pipewrite_appends_witness:
  "\<exists>p'. pipewrite (\<lambda>a. Some (ucast a)) False pipe1 3 0x40 = Inr (Ret 3 p')
    \<and> pipe_contents p' = [7, 0x40, 0x41, 0x42]"
proof -
  have "map (\<lambda>k. ucast (0x40 + of_nat k :: u32)) [0..<nat 3] = [0x40, 0x41, 0x42 :: byte]"
    by (simp add: upt_rec numeral_3_eq_3)
  then show ?thesis
    using pipewrite_appends [of pipe1 3 "\<lambda>a. Some (ucast a)" "0x40"
        "\<lambda>k. ucast (0x40 + of_nat k :: u32)" 511] pipe1_inv pipe1_contents
    by (auto simp: pipe1_def pipe_new_def)
qed

theorem piperead_takes_witness:
  "\<exists>p'. piperead poke False pipe1 5 0x40 (\<lambda>x. 0) = Ret 1 (p', \<lambda>x. if unat (x - 0x40) < 1 then [7] ! unat (x - 0x40) else 0)
    \<and> pipe_contents p' = []"
  using piperead_takes [of pipe1 5 1 False "0x40" "\<lambda>x. 0", unfolded pipe1_contents] pipe1_inv by auto

theorem pipewrite_closed_panics_witness:
  "pipewrite (\<lambda>a. Some 1) False (pipe1\<lparr>read_open := False\<rparr>) 1 0 = Inl (Panic ''release_lock, not current holder'')"
  by (rule pipewrite_closed_panics) simp_all


end
