(* ===== verification/Console_Uart.thy ===== *)
theory Console_Uart
  imports Ring
begin

text \<open>
  The terminal: \<^verbatim>\<open>kernel/uart.c\<close> (transmit ring, synchronous output, interrupt handler) and
  \<^verbatim>\<open>kernel/console.c\<close> (line editing and the device routines behind file descriptors).

  The device is seen through its registers: \<open>thr\<close> is the list of the bytes stored to THR,
  \<open>rx\<close> the bytes waiting at RHR, \<open>lsr_tx\<close> what the next reads of the transmit-idle bit of
  LSR give. The list is finite and the bit reads as set after it, which says that the
  transmitter is busy only for a while; that is what ends the polling loop of
  \<^verbatim>\<open>uartputc_sync\<close>. \<open>uwakes\<close> lists the channels passed to \<^verbatim>\<open>wakeup\<close>. A \<^verbatim>\<open>char\<close> is
  unsigned on RISC-V, so it is a \<^typ>\<open>byte\<close>.
\<close>

section \<open>uart.c\<close>

abbreviation "UART_TX_BUF_SIZE \<equiv> 32 :: nat"

record uart =
  uart_tx_buf :: "byte list"
  uart_tx_w :: u64
  uart_tx_r :: u64
  panicked :: bool
  thr :: "byte list"
  lsr_tx :: "bool list"
  rx :: "byte list"
  uwakes :: "string list"

text \<open>The stores of \<^verbatim>\<open>uart_configure\<close>, as register offset and value.\<close>

definition uart_configure :: "(nat \<times> byte) list" where
  "uart_configure = [(1, 0x00), (3, 0x80), (0, 0x03), (1, 0x00), (3, 0x03), (2, 0x07), (1, 0x03)]"

definition lsr_tx_idle :: "uart \<Rightarrow> bool \<times> uart" where
  "lsr_tx_idle u = (case lsr_tx u of [] \<Rightarrow> (True, u) | b # bs \<Rightarrow> (b, u\<lparr>lsr_tx := bs\<rparr>))"

definition uart_full :: "uart \<Rightarrow> bool" where
  "uart_full u \<longleftrightarrow> uart_tx_w u = uart_tx_r u + of_nat UART_TX_BUF_SIZE"

definition uart_empty :: "uart \<Rightarrow> bool" where
  "uart_empty u \<longleftrightarrow> uart_tx_w u = uart_tx_r u"

definition uart_put :: "byte \<Rightarrow> uart \<Rightarrow> uart" where
  "uart_put c u = u\<lparr>uart_tx_buf := (uart_tx_buf u)[unat (uart_tx_w u) mod UART_TX_BUF_SIZE := c],
     uart_tx_w := uart_tx_w u + 1\<rparr>"

definition uart_get :: "uart \<Rightarrow> byte \<times> uart" where
  "uart_get u = (uart_tx_buf u ! (unat (uart_tx_r u) mod UART_TX_BUF_SIZE),
     u\<lparr>uart_tx_r := uart_tx_r u + 1\<rparr>)"

lemma lsr_tx_idle_fields:
  assumes "lsr_tx_idle u = (b, u')"
  shows "uart_tx_w u' = uart_tx_w u" "uart_tx_r u' = uart_tx_r u" "uart_tx_buf u' = uart_tx_buf u"
    "thr u' = thr u" "rx u' = rx u" "panicked u' = panicked u" "length (lsr_tx u') \<le> length (lsr_tx u)"
    "\<not> b \<Longrightarrow> length (lsr_tx u') < length (lsr_tx u)" "uwakes u' = uwakes u"
  using assms by (auto simp: lsr_tx_idle_def split: list.splits)

function uart_start :: "uart \<Rightarrow> uart" where
  "uart_start u =
     (if uart_empty u then u
      else let (idle, u) = lsr_tx_idle u in
        if \<not> idle then u
        else let (c, u) = uart_get u
          in uart_start (u\<lparr>uwakes := uwakes u @ [''uart_tx_r''], thr := thr u @ [c]\<rparr>))"
  by pat_completeness auto
termination
proof (relation "measure (\<lambda>u. unat (uart_tx_w u - uart_tx_r u))")
  fix u p idle u1 q c u2
  assume a: "\<not> uart_empty u" "p = lsr_tx_idle u" "(idle, u1) = p" "\<not> \<not> idle" "q = uart_get u1"
    "(c, u2) = q"
  then have "uart_tx_w u1 = uart_tx_w u" "uart_tx_r u1 = uart_tx_r u"
    using lsr_tx_idle_fields(1,2) [of u idle u1] by auto
  with a have "uart_tx_w u2 = uart_tx_w u" "uart_tx_r u2 = uart_tx_r u + 1"
    by (auto simp: uart_get_def)
  moreover have "unat (uart_tx_w u - uart_tx_r u - 1) < unat (uart_tx_w u - uart_tx_r u)"
    using a(1) by (intro unat_minus_one_less) (simp add: uart_empty_def)
  ultimately show "(u2\<lparr>uwakes := uwakes u2 @ [''uart_tx_r''], thr := thr u2 @ [c]\<rparr>, u)
      \<in> measure (\<lambda>u. unat (uart_tx_w u - uart_tx_r u))" by (simp add: diff_diff_eq)
qed simp

declare uart_start.simps [simp del]

definition uart_putc :: "byte \<Rightarrow> uart \<Rightarrow> uart res" where
  "uart_putc c u =
     (if panicked u then Inl Diverges
      else if uart_full u then Inl (Sleeps ''uart_tx_r'')
      else Inr (uart_start (uart_put c u)))"

function uart_wait_idle :: "uart \<Rightarrow> uart" where
  "uart_wait_idle u = (let (idle, u) = lsr_tx_idle u in if \<not> idle then uart_wait_idle u else u)"
  by pat_completeness auto
termination
  by (relation "measure (\<lambda>u. length (lsr_tx u))") (auto dest!: lsr_tx_idle_fields(8) [OF sym])

declare uart_wait_idle.simps [simp del]

definition uartputc_sync :: "byte \<Rightarrow> uart \<Rightarrow> uart res" where
  "uartputc_sync c u =
     (if panicked u then Inl Diverges
      else let u = uart_wait_idle u in Inr (u\<lparr>thr := thr u @ [c]\<rparr>))"

definition uart_getc :: "uart \<Rightarrow> int \<times> uart" where
  "uart_getc u = (case rx u of [] \<Rightarrow> (- 1, u) | c # cs \<Rightarrow> (uint c, u\<lparr>rx := cs\<rparr>))"

section \<open>console.c\<close>

abbreviation "INPUT_BUF \<equiv> 128 :: nat"
abbreviation "BACKSPACE \<equiv> 0x100 :: int"

record console =
  cbuf :: "byte list"
  cread :: u32
  cwrite :: u32
  cedit :: u32
  tty :: uart

definition console_putc :: "int \<Rightarrow> uart \<Rightarrow> uart res" where
  "console_putc c u =
     (if c = BACKSPACE then
        rbind (uartputc_sync 8 u) (\<lambda>u. rbind (uartputc_sync 32 u) (\<lambda>u. uartputc_sync 8 u))
      else uartputc_sync (of_int c) u)"

text \<open>\<open>rd k\<close> is the byte \<^verbatim>\<open>either_copyin\<close> gets from \<^verbatim>\<open>src + k\<close>, \<^term>\<open>None\<close> when it fails.\<close>

function console_write_loop :: "(nat \<Rightarrow> byte option) \<Rightarrow> int \<Rightarrow> nat \<Rightarrow> uart \<Rightarrow> (int \<times> uart) res" where
  "console_write_loop rd n i u =
     (if int i < n then
        (case rd i of
           None \<Rightarrow> Inr (int i, u)
         | Some c \<Rightarrow> rbind (console_putc (uint c) u) (console_write_loop rd n (Suc i)))
      else Inr (int i, u))"
  by pat_completeness auto
termination
  by (relation "measure (\<lambda>(rd, n, i, u). nat (n - int i))") auto

declare console_write_loop.simps [simp del]

definition console_write :: "(nat \<Rightarrow> byte option) \<Rightarrow> int \<Rightarrow> uart \<Rightarrow> (int \<times> uart) res" where
  "console_write rd n u = console_write_loop rd n 0 u"

text \<open>\<open>wr a c v\<close> stores one byte in the destination memory, as \<^verbatim>\<open>either_copyout\<close>.
  The loop runs with \<open>n\<close> bytes still to deliver out of \<open>target\<close>.\<close>

function console_read_loop ::
  "(u32 \<Rightarrow> byte \<Rightarrow> 'u \<Rightarrow> 'u option) \<Rightarrow> bool \<Rightarrow> int \<Rightarrow> int \<Rightarrow> u32 \<Rightarrow> console \<times> 'u
     \<Rightarrow> (console \<times> 'u) outcome" where
  "console_read_loop wr killed target n dst (con, v) =
     (if 0 < n then
        (if cread con = cwrite con then
           (if killed then Ret (- 1) (con, v) else Block ''console.read'' (nat (target - n)) (con, v))
         else
           let c = cbuf con ! (unat (cread con) mod INPUT_BUF);
               con = con\<lparr>cread := cread con + 1\<rparr>
           in if c = 4 then
                Ret (target - n) (if n < target then con\<lparr>cread := cread con - 1\<rparr> else con, v)
              else
                (case wr dst c v of
                   None \<Rightarrow> Ret (target - n) (con, v)
                 | Some v \<Rightarrow>
                     if c = 10 then Ret (target - (n - 1)) (con, v)
                     else console_read_loop wr killed target (n - 1) (dst + 1) (con, v)))
      else Ret (target - n) (con, v))"
  by pat_completeness auto
termination
  by (relation "measure (\<lambda>(wr, k, t, n, d, s). nat n)") auto

declare console_read_loop.simps [simp del]

definition console_read ::
  "(u32 \<Rightarrow> byte \<Rightarrow> 'u \<Rightarrow> 'u option) \<Rightarrow> bool \<Rightarrow> u32 \<Rightarrow> int \<Rightarrow> console \<Rightarrow> 'u \<Rightarrow> (console \<times> 'u) outcome" where
  "console_read wr killed dst n con v = console_read_loop wr killed n n dst (con, v)"

definition con_echo :: "int \<Rightarrow> console \<Rightarrow> console res" where
  "con_echo c con = rbind (console_putc c (tty con)) (\<lambda>u. Inr (con\<lparr>tty := u\<rparr>))"

function kill_line :: "console \<Rightarrow> console res" where
  "kill_line con =
     (if cedit con \<noteq> cwrite con \<and> cbuf con ! (unat (cedit con - 1) mod INPUT_BUF) \<noteq> 10
      then rbind (console_putc BACKSPACE (tty con))
             (\<lambda>u. kill_line (con\<lparr>cedit := cedit con - 1, tty := u\<rparr>))
      else Inr con)"
  by pat_completeness auto
termination
proof (relation "measure (\<lambda>con. unat (cedit con - cwrite con))")
  fix con :: console and u :: uart
  assume "cedit con \<noteq> cwrite con \<and> cbuf con ! (unat (cedit con - 1) mod INPUT_BUF) \<noteq> 10"
  then have "unat (cedit con - cwrite con - 1) < unat (cedit con - cwrite con)"
    by (intro unat_minus_one_less) simp
  then show "(con\<lparr>cedit := cedit con - 1, tty := u\<rparr>, con)
      \<in> measure (\<lambda>con. unat (cedit con - cwrite con))"
    by (simp add: algebra_simps)
qed simp

declare kill_line.simps [simp del]

text \<open>\<open>procdump\<close> is the routine of \<^verbatim>\<open>process.c\<close> that prints the process list.\<close>

definition console_intr :: "(uart \<Rightarrow> uart res) \<Rightarrow> int \<Rightarrow> console \<Rightarrow> console res" where
  "console_intr procdump c con =
     (if c = 0x10 then rbind (procdump (tty con)) (\<lambda>u. Inr (con\<lparr>tty := u\<rparr>))
      else if c = 0x15 then kill_line con
      else if c = 0x7f then
        (if cedit con \<noteq> cwrite con
         then con_echo BACKSPACE (con\<lparr>cedit := cedit con - 1\<rparr>)
         else Inr con)
      else if c \<noteq> 0 \<and> cedit con - cread con < of_nat INPUT_BUF then
        (let c = (if c = 13 then 10 else c) in
         rbind (con_echo c con) (\<lambda>con.
           let con = con\<lparr>cbuf := (cbuf con)[unat (cedit con) mod INPUT_BUF := of_int c],
                         cedit := cedit con + 1\<rparr>
           in if c = 10 \<or> c = 4 \<or> cedit con = cread con + of_nat INPUT_BUF
              then Inr (con\<lparr>cwrite := cedit con,
                           tty := (tty con)\<lparr>uwakes := uwakes (tty con) @ [''console.read'']\<rparr>\<rparr>)
              else Inr con))
      else Inr con)"

text \<open>\<^verbatim>\<open>uart_intr\<close>: drain the receiver into the console, then restart the transmitter.\<close>

fun uart_intr_loop :: "(uart \<Rightarrow> uart res) \<Rightarrow> nat \<Rightarrow> console \<Rightarrow> console res" where
  "uart_intr_loop procdump fuel con =
     (let (c, u) = uart_getc (tty con) in
      if c = - 1 then Inr (con\<lparr>tty := u\<rparr>)
      else case fuel of
        0 \<Rightarrow> Inl Diverges
      | Suc fuel \<Rightarrow> rbind (console_intr procdump c (con\<lparr>tty := u\<rparr>)) (uart_intr_loop procdump fuel))"

declare uart_intr_loop.simps [simp del]

definition uart_intr :: "(uart \<Rightarrow> uart res) \<Rightarrow> console \<Rightarrow> console res" where
  "uart_intr procdump con =
     rbind (uart_intr_loop procdump (length (rx (tty con))) con)
       (\<lambda>con. Inr (con\<lparr>tty := uart_start (tty con)\<rparr>))"

section \<open>The transmit buffer is a bounded queue\<close>

definition uart_inv :: "uart \<Rightarrow> bool" where
  "uart_inv u \<longleftrightarrow> length (uart_tx_buf u) = UART_TX_BUF_SIZE
     \<and> unat (uart_tx_w u - uart_tx_r u) \<le> UART_TX_BUF_SIZE"

definition uart_contents :: "uart \<Rightarrow> byte list" where
  "uart_contents u = ring_contents UART_TX_BUF_SIZE (uart_tx_buf u) (uart_tx_r u) (uart_tx_w u)"

interpretation uq: byte_queue uart_inv uart_contents UART_TX_BUF_SIZE uart_full uart_empty uart_put uart_get
proof
  fix s c
  assume inv: "uart_inv s"
  show full: "uart_full s = (length (uart_contents s) = UART_TX_BUF_SIZE)"
    using ring_full_iff [of UART_TX_BUF_SIZE "uart_tx_w s" "uart_tx_r s"]
    by (simp add: uart_full_def uart_contents_def)
  show "length (uart_contents s) \<le> UART_TX_BUF_SIZE"
    using inv by (simp add: uart_contents_def uart_inv_def)
  show empty: "uart_empty s = (uart_contents s = [])"
    by (auto simp: uart_empty_def uart_contents_def ring_contents_Nil_iff)
  {
    assume "\<not> uart_full s"
    with inv full have lt: "unat (uart_tx_w s - uart_tx_r s) < UART_TX_BUF_SIZE"
      by (simp add: uart_inv_def uart_contents_def)
    then have "unat (uart_tx_w s + 1 - uart_tx_r s) = Suc (unat (uart_tx_w s - uart_tx_r s))"
      by (rule ring_succ) simp
    with lt inv show "uart_inv (uart_put c s)" by (simp add: uart_inv_def uart_put_def)
    show "uart_contents (uart_put c s) = uart_contents s @ [c]"
      using inv lt by (simp add: uart_contents_def uart_put_def uart_inv_def ring_put)
  }
  {
    assume "\<not> uart_empty s"
    then have ne: "uart_tx_r s \<noteq> uart_tx_w s" by (simp add: uart_empty_def)
    then show "uart_inv (snd (uart_get s))"
      using inv by (auto simp: uart_inv_def uart_get_def ring_shrink)
    show "uart_contents s = fst (uart_get s) # uart_contents (snd (uart_get s))"
      using ring_get [OF ne] by (simp add: uart_contents_def uart_get_def)
  }
qed

text \<open>What the transmitter leaves alone.\<close>

definition same_tx :: "uart \<Rightarrow> uart \<Rightarrow> bool" where
  "same_tx u u' \<longleftrightarrow> uart_tx_buf u' = uart_tx_buf u \<and> uart_tx_w u' = uart_tx_w u
     \<and> uart_tx_r u' = uart_tx_r u \<and> panicked u' = panicked u \<and> rx u' = rx u"

lemma same_tx_refl [simp]: "same_tx u u"
  by (simp add: same_tx_def)

lemma same_tx_trans: "same_tx u v \<Longrightarrow> same_tx v w \<Longrightarrow> same_tx u w"
  by (simp add: same_tx_def)

lemma same_tx_lsr: "lsr_tx_idle u = (b, u') \<Longrightarrow> same_tx u u' \<and> thr u' = thr u"
  using lsr_tx_idle_fields [of u b u'] by (simp add: same_tx_def)

lemma same_tx_contents: "same_tx u u' \<Longrightarrow> uart_contents u' = uart_contents u \<and> uart_inv u' = uart_inv u"
  by (simp add: same_tx_def uart_contents_def uart_inv_def)

lemma uart_start_spec:
  "uart_inv u \<Longrightarrow> uart_inv (uart_start u) \<and> rx (uart_start u) = rx u
    \<and> panicked (uart_start u) = panicked u
    \<and> (\<exists>sent. uart_contents u = sent @ uart_contents (uart_start u)
        \<and> thr (uart_start u) = thr u @ sent)
    \<and> (uart_contents (uart_start u) = [] \<or> False \<in> set (lsr_tx u))"
proof (induction u rule: uart_start.induct)
  case (1 u)
  obtain idle u1 where l: "lsr_tx_idle u = (idle, u1)" by (cases "lsr_tx_idle u")
  obtain c u2 where g: "uart_get u1 = (c, u2)" by (cases "uart_get u1")
  let ?u3 = "u2\<lparr>uwakes := uwakes u2 @ [''uart_tx_r''], thr := thr u2 @ [c]\<rparr>"
  have s: "same_tx u u1" "thr u1 = thr u" using same_tx_lsr [OF l] by auto
  have lsr: "set (lsr_tx u1) \<subseteq> set (lsr_tx u)" "\<not> idle \<Longrightarrow> False \<in> set (lsr_tx u)"
    using l by (auto simp: lsr_tx_idle_def split: list.splits)
  show ?case
  proof (cases "uart_empty u \<or> \<not> idle")
    case True
    then show ?thesis
      using "1.prems" l lsr same_tx_contents [OF s(1)] s
      by (auto simp: uart_start.simps [of u] uq.empty_iff same_tx_def)
  next
    case False
    then have ne: "\<not> uart_empty u1" using s by (simp add: same_tx_def uart_empty_def)
    have i1: "uart_inv u1" using same_tx_contents [OF s(1)] "1.prems" by simp
    have u2: "uart_inv u2" "uart_contents u1 = c # uart_contents u2"
      using uq.get_inv [OF i1 ne] uq.get_contents [OF i1 ne] g by auto
    have f: "thr u2 = thr u" "rx u2 = rx u" "panicked u2 = panicked u" "lsr_tx u2 = lsr_tx u1"
      using g s by (auto simp: uart_get_def same_tx_def)
    have u3: "uart_inv ?u3" "uart_contents ?u3 = uart_contents u2"
      using u2 by (simp_all add: uart_inv_def uart_contents_def)
    have step: "uart_start u = uart_start ?u3"
      using False l g by (simp add: uart_start.simps [of u])
    have "uart_contents u = c # uart_contents ?u3"
      using u2(2) u3(2) same_tx_contents [OF s(1)] by simp
    with "1.IH" [of "(idle, u1)" idle u1 "(c, u2)" c u2] False l g u3(1) f lsr(1)
    show ?thesis unfolding step by (auto simp: subset_eq)
  qed
qed

lemma uart_wait_idle_spec: "same_tx u (uart_wait_idle u) \<and> thr (uart_wait_idle u) = thr u"
proof (induction u rule: uart_wait_idle.induct)
  case (1 u)
  obtain idle u1 where l: "lsr_tx_idle u = (idle, u1)" by (cases "lsr_tx_idle u")
  with 1 [of "(idle, u1)" idle u1] same_tx_lsr [OF l] show ?case
    by (auto simp: uart_wait_idle.simps [of u] intro: same_tx_trans)
qed

lemma uartputc_sync_spec:
  assumes "\<not> panicked u"
  obtains u' where "uartputc_sync c u = Inr u'" "same_tx u u'" "thr u' = thr u @ [c]"
  using assms uart_wait_idle_spec [of u]
  by (intro that [of "(uart_wait_idle u)\<lparr>thr := thr u @ [c]\<rparr>"]) (auto simp: uartputc_sync_def Let_def same_tx_def)

definition echo_of :: "int \<Rightarrow> byte list" where
  "echo_of c = (if c = BACKSPACE then [8, 32, 8] else [of_int c])"

lemma console_putc_spec:
  assumes "\<not> panicked u"
  obtains u' where "console_putc c u = Inr u'" "same_tx u u'" "thr u' = thr u @ echo_of c"
proof (cases "c = BACKSPACE")
  case True
  obtain u1 where 1: "uartputc_sync 8 u = Inr u1" "same_tx u u1" "thr u1 = thr u @ [8]"
    using uartputc_sync_spec [OF assms] .
  with assms have "\<not> panicked u1" by (simp add: same_tx_def)
  then obtain u2 where 2: "uartputc_sync 32 u1 = Inr u2" "same_tx u1 u2" "thr u2 = thr u1 @ [32]"
    using uartputc_sync_spec by blast
  with 1 assms have "\<not> panicked u2" by (simp add: same_tx_def)
  then obtain u3 where 3: "uartputc_sync 8 u2 = Inr u3" "same_tx u2 u3" "thr u3 = thr u2 @ [8]"
    using uartputc_sync_spec by blast
  show thesis
    by (rule that [of u3])
      (use True 1 2 3 in \<open>auto simp: console_putc_def echo_of_def intro: same_tx_trans\<close>)
next
  case False
  then show thesis using uartputc_sync_spec [OF assms, of "of_int c"] that
    by (auto simp: console_putc_def echo_of_def)
qed

section \<open>The line discipline\<close>

text \<open>What a line-buffered terminal promises, on two lists: the input that readers may have and the
  line being typed.\<close>

type_synonym tty_lines = "byte list \<times> byte list"

fun line_spec :: "byte \<Rightarrow> tty_lines \<Rightarrow> tty_lines" where
  "line_spec c (done, line) =
     (if c = 0x15 then (done, [])
      else if c = 0x7f then (done, butlast line)
      else if c \<noteq> 0 \<and> length done + length line < INPUT_BUF then
        (let c = (if c = 13 then 10 else c); line = line @ [c]
         in if c = 10 \<or> c = 4 \<or> length done + length line = INPUT_BUF then (done @ line, [])
            else (done, line))
      else (done, line))"

fun echo_spec :: "byte \<Rightarrow> tty_lines \<Rightarrow> byte list" where
  "echo_spec c (done, line) =
     (if c = 0x15 then concat (replicate (length line) [8, 32, 8])
      else if c = 0x7f then (if line = [] then [] else [8, 32, 8])
      else if c \<noteq> 0 \<and> length done + length line < INPUT_BUF then [if c = 13 then 10 else c]
      else [])"

definition con_lines :: "console \<Rightarrow> tty_lines" where
  "con_lines con = (ring_contents INPUT_BUF (cbuf con) (cread con) (cwrite con),
     ring_contents INPUT_BUF (cbuf con) (cwrite con) (cedit con))"

definition con_inv :: "console \<Rightarrow> bool" where
  "con_inv con \<longleftrightarrow> length (cbuf con) = INPUT_BUF
     \<and> unat (cwrite con - cread con) + unat (cedit con - cwrite con) \<le> INPUT_BUF
     \<and> 10 \<notin> set (snd (con_lines con)) \<and> \<not> panicked (tty con)"

lemma con_window: "con_inv con \<Longrightarrow>
  unat (cedit con - cread con) = unat (cwrite con - cread con) + unat (cedit con - cwrite con)"
  using unat_plus_u32 [of "cwrite con - cread con" "cedit con - cwrite con"]
  by (simp add: con_inv_def algebra_simps)

lemma con_lines_tty [simp]: "con_lines (con\<lparr>tty := u\<rparr>) = con_lines con"
  by (simp add: con_lines_def)

lemma con_inv_tty: "con_inv con \<Longrightarrow> \<not> panicked u \<Longrightarrow> con_inv (con\<lparr>tty := u\<rparr>)"
  by (simp add: con_inv_def)

lemma con_echo_spec:
  assumes "\<not> panicked (tty con)"
  obtains u where "con_echo c con = Inr (con\<lparr>tty := u\<rparr>)" "same_tx (tty con) u"
    "thr u = thr (tty con) @ echo_of c"
proof -
  obtain u where "console_putc c (tty con) = Inr u" "same_tx (tty con) u"
    "thr u = thr (tty con) @ echo_of c" by (rule console_putc_spec [OF assms])
  then show thesis by (intro that [of u]) (simp_all add: con_echo_def)
qed

text \<open>Erasing one character.\<close>

lemma con_erase:
  assumes "con_inv con" "cedit con \<noteq> cwrite con"
  shows "con_inv (con\<lparr>cedit := cedit con - 1\<rparr>)"
    "con_lines (con\<lparr>cedit := cedit con - 1\<rparr>) = (fst (con_lines con), butlast (snd (con_lines con)))"
    "unat (cedit con - cwrite con) = Suc (unat (cedit con - 1 - cwrite con))"
proof -
  have ne: "cwrite con \<noteq> cedit con" using assms(2) by simp
  show lines: "con_lines (con\<lparr>cedit := cedit con - 1\<rparr>)
      = (fst (con_lines con), butlast (snd (con_lines con)))"
    using ring_unput(1) [OF ne] by (simp add: con_lines_def)
  show k: "unat (cedit con - cwrite con) = Suc (unat (cedit con - 1 - cwrite con))"
    using unat_Suc_pred [of "cedit con - cwrite con"] assms(2) by (simp add: algebra_simps)
  have "10 \<notin> set (snd (con_lines (con\<lparr>cedit := cedit con - 1\<rparr>)))"
    using assms(1) unfolding lines con_inv_def by (auto dest: in_set_butlastD)
  then show "con_inv (con\<lparr>cedit := cedit con - 1\<rparr>)"
    using assms(1) k by (simp add: con_inv_def)
qed

lemma kill_line_spec:
  assumes "con_inv con" "k = length (snd (con_lines con))"
  shows "\<exists>con'. kill_line con = Inr con' \<and> con_inv con' \<and> con_lines con' = (fst (con_lines con), [])
    \<and> thr (tty con') = thr (tty con) @ concat (replicate k [8, 32, 8]) \<and> same_tx (tty con) (tty con')"
  using assms
proof (induction k arbitrary: con)
  case 0
  then have "cedit con = cwrite con" by (auto simp: con_lines_def unat_eq_zero)
  with 0 show ?case by (auto simp: kill_line.simps [of con] con_lines_def ring_contents_Nil_iff)
next
  case (Suc k)
  then have ne: "cedit con \<noteq> cwrite con" by (auto simp: con_lines_def)
  then have ne': "cwrite con \<noteq> cedit con" by simp
  let ?con1 = "con\<lparr>cedit := cedit con - 1\<rparr>"
  note e = con_erase [OF Suc.prems(1) ne]
  have "last (snd (con_lines con)) \<in> set (snd (con_lines con))"
    using Suc.prems(2) by (intro last_in_set) auto
  then have nl: "cbuf con ! (unat (cedit con - 1) mod INPUT_BUF) \<noteq> 10"
    using Suc.prems(1) ring_unput(2) [OF ne', of INPUT_BUF "cbuf con"]
    by (auto simp: con_inv_def con_lines_def)
  have np: "\<not> panicked (tty con)" using Suc.prems(1) by (simp add: con_inv_def)
  obtain u where u: "console_putc BACKSPACE (tty con) = Inr u" "same_tx (tty con) u"
    "thr u = thr (tty con) @ [8, 32, 8]"
    using console_putc_spec [OF np, of BACKSPACE] by (auto simp: echo_of_def)
  let ?con2 = "?con1\<lparr>tty := u\<rparr>"
  have "con_inv ?con2" using e(1) u(2) np by (intro con_inv_tty) (simp_all add: same_tx_def)
  moreover have "k = length (snd (con_lines ?con2))" using e(2) Suc.prems(2) by simp
  ultimately obtain con' where "kill_line ?con2 = Inr con'" "con_inv con'"
    "con_lines con' = (fst (con_lines ?con2), [])"
    "thr (tty con') = thr (tty ?con2) @ concat (replicate k [8, 32, 8])" "same_tx (tty ?con2) (tty con')"
    using Suc.IH by blast
  then show ?case using ne nl u e(2) by (auto simp: kill_line.simps [of con] intro: same_tx_trans)
qed

text \<open>Storing one character.\<close>

lemma con_store:
  assumes "con_inv con" "length (fst (con_lines con)) + length (snd (con_lines con)) < INPUT_BUF"
    and "con' = con\<lparr>cbuf := (cbuf con)[unat (cedit con) mod INPUT_BUF := b], cedit := cedit con + 1\<rparr>"
  shows "con_lines con' = (fst (con_lines con), snd (con_lines con) @ [b])"
    "unat (cedit con' - cread con') = Suc (length (fst (con_lines con)) + length (snd (con_lines con)))"
    "con_lines (con'\<lparr>cwrite := cedit con'\<rparr>) = (fst (con_lines con) @ snd (con_lines con) @ [b], [])"
proof -
  let ?buf = "(cbuf con)[unat (cedit con) mod INPUT_BUF := b]"
  let ?r = "cread con" and ?w = "cwrite con" and ?e = "cedit con"
  have len: "length (cbuf con) = INPUT_BUF" using assms(1) by (simp add: con_inv_def)
  have win: "unat (?e - ?r) = unat (?w - ?r) + unat (?e - ?w)" by (rule con_window [OF assms(1)])
  have lt: "unat (?w - ?r) + unat (?e - ?w) < INPUT_BUF" using assms(2) by (simp add: con_lines_def)
  have e: "unat (?e + 1 - ?w) = Suc (unat (?e - ?w))" "unat (?e + 1 - ?r) = Suc (unat (?e - ?r))"
    by (rule ring_succ [where n = INPUT_BUF]; use lt win in simp)+
  have all: "ring_contents INPUT_BUF ?buf ?r (?e + 1) = ring_contents INPUT_BUF (cbuf con) ?r ?e @ [b]"
    using len lt win by (intro ring_put) auto
  have line: "ring_contents INPUT_BUF ?buf ?w (?e + 1) = ring_contents INPUT_BUF (cbuf con) ?w ?e @ [b]"
    using len lt by (intro ring_put) auto
  have split: "ring_contents INPUT_BUF ?buf ?r (?e + 1)
      = ring_contents INPUT_BUF ?buf ?r ?w @ ring_contents INPUT_BUF ?buf ?w (?e + 1)"
    using e win by (intro ring_append) simp
  have old: "ring_contents INPUT_BUF (cbuf con) ?r ?e
      = ring_contents INPUT_BUF (cbuf con) ?r ?w @ ring_contents INPUT_BUF (cbuf con) ?w ?e"
    using win by (intro ring_append) simp
  have fin: "ring_contents INPUT_BUF ?buf ?r ?w = ring_contents INPUT_BUF (cbuf con) ?r ?w"
    using split all old line by simp
  show "con_lines con' = (fst (con_lines con), snd (con_lines con) @ [b])"
    using fin line by (simp add: con_lines_def assms(3))
  show "unat (cedit con' - cread con')
      = Suc (length (fst (con_lines con)) + length (snd (con_lines con)))"
    using e win by (simp add: con_lines_def assms(3))
  show "con_lines (con'\<lparr>cwrite := cedit con'\<rparr>) = (fst (con_lines con) @ snd (con_lines con) @ [b], [])"
    using all old by (simp add: con_lines_def assms(3) ring_contents_Nil_iff)
qed

lemma con_lengths: "con_inv con \<Longrightarrow>
  (cedit con - cread con < of_nat INPUT_BUF)
   = (length (fst (con_lines con)) + length (snd (con_lines con)) < INPUT_BUF)"
  by (simp add: con_lines_def word_less_nat_alt con_window)

definition con_store_char :: "int \<Rightarrow> console \<Rightarrow> console" where
  "con_store_char c con = con\<lparr>cbuf := (cbuf con)[unat (cedit con) mod INPUT_BUF := of_int c],
     cedit := cedit con + 1\<rparr>"

lemma con_commit_spec:
  assumes inv: "con_inv con" and lt: "length (fst (con_lines con)) + length (snd (con_lines con)) < INPUT_BUF"
    and b: "b = of_int c" and con1: "con1 = con_store_char c con"
    and con2: "con2 = (if c = 10 \<or> c = 4 \<or> cedit con1 = cread con1 + of_nat INPUT_BUF
      then con1\<lparr>cwrite := cedit con1\<rparr> else con1)"
    and c: "0 \<le> c" "c < 256"
  shows "con_inv con2 \<and> con_lines con2 =
    (if b = 10 \<or> b = 4 \<or> Suc (length (fst (con_lines con)) + length (snd (con_lines con))) = INPUT_BUF
     then (fst (con_lines con) @ snd (con_lines con) @ [b], [])
     else (fst (con_lines con), snd (con_lines con) @ [b]))"
proof -
  note st = con_store [OF inv lt con1 [unfolded con_store_char_def, folded b]]
  have full: "(cedit con1 = cread con1 + of_nat INPUT_BUF)
      = (Suc (length (fst (con_lines con)) + length (snd (con_lines con))) = INPUT_BUF)"
    using ring_full_iff [of INPUT_BUF "cedit con1" "cread con1"] st(2) by simp
  have "uint b = c" using b c by (simp add: uint_word_of_int)
  then have bc: "(c = 10) = (b = 10)" "(c = 4) = (b = 4)" by (auto simp: b)
  have lines: "con_lines con2 = (if b = 10 \<or> b = 4
      \<or> Suc (length (fst (con_lines con)) + length (snd (con_lines con))) = INPUT_BUF
     then (fst (con_lines con) @ snd (con_lines con) @ [b], [])
     else (fst (con_lines con), snd (con_lines con) @ [b]))"
    using st(1,3) unfolding con2 full bc by simp
  have "length (fst (con_lines con2)) + length (snd (con_lines con2)) \<le> INPUT_BUF"
    using lines lt by simp
  then have "unat (cwrite con2 - cread con2) + unat (cedit con2 - cwrite con2) \<le> INPUT_BUF"
    by (simp add: con_lines_def)
  moreover have "10 \<notin> set (snd (con_lines con2))"
    using lines inv by (auto simp: con_inv_def)
  moreover have "length (cbuf con2) = INPUT_BUF" "\<not> panicked (tty con2)"
    using inv by (auto simp: con2 con1 con_store_char_def con_inv_def)
  ultimately show ?thesis using lines by (simp add: con_inv_def)
qed

lemma console_intr_spec:
  assumes inv: "con_inv con" and c: "0 \<le> c" "c < 256" "c \<noteq> 0x10"
  shows "\<exists>con'. console_intr procdump c con = Inr con' \<and> con_inv con'
    \<and> con_lines con' = line_spec (of_int c) (con_lines con)
    \<and> thr (tty con') = thr (tty con) @ echo_spec (of_int c) (con_lines con)
    \<and> same_tx (tty con) (tty con')"
proof -
  obtain d l where dl: "con_lines con = (d, l)" by (cases "con_lines con")
  have np: "\<not> panicked (tty con)" using inv by (simp add: con_inv_def)
  have "uint (of_int c :: byte) = c" using c by (simp add: uint_word_of_int)
  then have bc: "((of_int c :: byte) = 0x15) = (c = 0x15)" "((of_int c :: byte) = 0x7f) = (c = 0x7f)"
    "((of_int c :: byte) = 0) = (c = 0)" "((of_int c :: byte) = 13) = (c = 13)" by auto
  consider "c = 0x15" | "c = 0x7f" "cedit con \<noteq> cwrite con" | "c = 0x7f" "cedit con = cwrite con"
    | "c \<notin> {0x10, 0x15, 0x7f, 0}" "length d + length l < INPUT_BUF"
    | "c \<notin> {0x10, 0x15, 0x7f}" "c = 0 \<or> \<not> length d + length l < INPUT_BUF" using c(3) by blast
  then show ?thesis
  proof cases
    case 1
    with kill_line_spec [OF inv refl] dl show ?thesis by (auto simp: console_intr_def)
  next
    case 2
    note e = con_erase [OF inv 2(2)]
    have "\<not> panicked (tty (con\<lparr>cedit := cedit con - 1\<rparr>))" using np by simp
    then obtain u where u: "con_echo BACKSPACE (con\<lparr>cedit := cedit con - 1\<rparr>)
        = Inr (con\<lparr>cedit := cedit con - 1, tty := u\<rparr>)" "same_tx (tty con) u"
      "thr u = thr (tty con) @ echo_of BACKSPACE" using con_echo_spec [of "con\<lparr>cedit := cedit con - 1\<rparr>" BACKSPACE] by auto
    have "con_inv (con\<lparr>cedit := cedit con - 1, tty := u\<rparr>)"
      using con_inv_tty [OF e(1), of u] u(2) np by (simp add: same_tx_def)
    moreover have "l \<noteq> []" using 2(2) dl by (auto simp: con_lines_def ring_contents_Nil_iff)
    ultimately show ?thesis using 2 u e(2) dl bc by (auto simp: console_intr_def echo_of_def)
  next
    case 3
    then have "l = []" using dl by (auto simp: con_lines_def ring_contents_Nil_iff)
    with 3 inv dl bc show ?thesis by (simp add: console_intr_def)
  next
    case 4
    define c' where "c' = (if c = 13 then 10 else c)"
    obtain u where u: "con_echo c' con = Inr (con\<lparr>tty := u\<rparr>)" "same_tx (tty con) u"
      "thr u = thr (tty con) @ echo_of c'" using con_echo_spec [OF np] .
    let ?con1 = "con_store_char c' (con\<lparr>tty := u\<rparr>)"
    define con2 where "con2 = (if c' = 10 \<or> c' = 4 \<or> cedit ?con1 = cread ?con1 + of_nat INPUT_BUF
      then ?con1\<lparr>cwrite := cedit ?con1\<rparr> else ?con1)"
    have inv1: "con_inv (con\<lparr>tty := u\<rparr>)" using con_inv_tty [OF inv] u(2) np by (simp add: same_tx_def)
    from con_commit_spec [OF inv1 _ refl refl con2_def] 4 c dl have spec:
      "con_inv con2" "con_lines con2 = (if (of_int c' :: byte) = 10 \<or> (of_int c' :: byte) = 4
         \<or> Suc (length d + length l) = INPUT_BUF then (d @ l @ [of_int c'], []) else (d, l @ [of_int c']))"
      by (auto simp: c'_def)
    define v where "v = (if c' = 10 \<or> c' = 4 \<or> cedit ?con1 = cread ?con1 + of_nat INPUT_BUF
      then (tty con2)\<lparr>uwakes := uwakes (tty con2) @ [''console.read'']\<rparr> else tty con2)"
    define con3 where "con3 = con2\<lparr>tty := v\<rparr>"
    have "console_intr procdump c con = Inr con3"
      using 4 dl u(1) con_lengths [OF inv]
      by (auto simp: console_intr_def c'_def [symmetric] con3_def v_def con2_def con_store_char_def Let_def)
    moreover have "\<not> panicked v" "thr v = thr u" "same_tx (tty con) v"
      using inv1 u(2) by (auto simp: v_def con2_def con_inv_def con_store_char_def same_tx_def)
    then have "con_inv con3" "con_lines con3 = con_lines con2" "thr (tty con3) = thr u"
      "same_tx (tty con) (tty con3)"
      using con_inv_tty [OF spec(1)] by (simp_all add: con3_def)
    moreover have "line_spec (of_int c) (d, l) = con_lines con2"
      using 4 bc spec(2) by (auto simp: c'_def Let_def)
    moreover have "echo_of c' = echo_spec (of_int c) (d, l)"
      using 4 bc c by (auto simp: c'_def echo_of_def)
    ultimately show ?thesis using u(3) dl by auto
  next
    case 5
    with inv dl bc con_lengths [OF inv] show ?thesis by (auto simp: console_intr_def)
  qed
qed

text \<open>Draining the receiver is the line discipline folded over the waiting bytes.\<close>

lemma uart_intr_loop_spec:
  assumes "con_inv con" "0x10 \<notin> set (rx (tty con))" "fuel = length (rx (tty con))"
  shows "\<exists>con'. uart_intr_loop procdump fuel con = Inr con' \<and> con_inv con' \<and> rx (tty con') = []
    \<and> con_lines con' = fold line_spec (rx (tty con)) (con_lines con)
    \<and> uart_inv (tty con') = uart_inv (tty con)"
  using assms
proof (induction fuel arbitrary: con)
  case 0
  then show ?case by (simp add: uart_intr_loop.simps [of procdump 0 con] uart_getc_def)
next
  case (Suc fuel)
  then obtain b bs where rx: "rx (tty con) = b # bs" by (cases "rx (tty con)") auto
  let ?con1 = "con\<lparr>tty := (tty con)\<lparr>rx := bs\<rparr>\<rparr>"
  have b: "uint b \<noteq> 0x10" using Suc.prems(2) rx by (auto simp: word_uint_eq_iff)
  have "con_inv ?con1" using Suc.prems(1) by (simp add: con_inv_def)
  moreover have rng: "0 \<le> uint b" "uint b < 256" using uint_lt2p [of b] by auto
  ultimately obtain con2 where con2: "console_intr procdump (uint b) ?con1 = Inr con2" "con_inv con2"
    "con_lines con2 = line_spec (of_int (uint b)) (con_lines ?con1)" "same_tx (tty ?con1) (tty con2)"
    using console_intr_spec [of ?con1 "uint b" procdump] b by blast
  have rx2: "rx (tty con2) = bs" "uart_inv (tty con2) = uart_inv (tty con)"
    using con2(4) by (auto simp: same_tx_def uart_inv_def)
  have "uint b \<noteq> - 1" using rng by linarith
  then have "uart_intr_loop procdump (Suc fuel) con = uart_intr_loop procdump fuel con2"
    using rx con2(1) by (simp add: uart_intr_loop.simps [of procdump "Suc fuel" con] uart_getc_def)
  with Suc.IH [OF con2(2)] Suc.prems(2,3) rx rx2 con2(3) show ?case by auto
qed

text \<open>Reading a line: the loop takes the bytes up to the newline.\<close>

lemma con_take:
  assumes "con_inv con" "fst (con_lines con) = c # cs"
  shows "cread con \<noteq> cwrite con" "cbuf con ! (unat (cread con) mod INPUT_BUF) = c"
    "con_lines (con\<lparr>cread := cread con + 1\<rparr>) = (cs, snd (con_lines con))"
    "con_inv (con\<lparr>cread := cread con + 1\<rparr>)"
proof -
  show ne: "cread con \<noteq> cwrite con"
    using assms(2) by (auto simp: con_lines_def ring_contents_def)
  from ring_get [OF ne, of INPUT_BUF "cbuf con"] assms(2)
  show "cbuf con ! (unat (cread con) mod INPUT_BUF) = c"
    and lines: "con_lines (con\<lparr>cread := cread con + 1\<rparr>) = (cs, snd (con_lines con))"
    by (simp_all add: con_lines_def)
  have "unat (cwrite con - (cread con + 1)) \<le> unat (cwrite con - cread con)"
    using ring_shrink [OF ne] by simp
  with assms(1) lines show "con_inv (con\<lparr>cread := cread con + 1\<rparr>)"
    by (simp add: con_inv_def)
qed

lemma console_read_loop_line:
  assumes "con_inv con" "fst (con_lines con) = xs @ 10 # rest" "10 \<notin> set xs" "4 \<notin> set xs"
    and "int (length xs) < n" "store_run wr dst (xs @ [10]) v = Some v'"
  shows "\<exists>con'. console_read_loop wr killed target n dst (con, v)
      = Ret (target - n + int (length xs) + 1) (con', v')
    \<and> con_inv con' \<and> con_lines con' = (rest, snd (con_lines con))"
  using assms
proof (induction xs arbitrary: con n dst v)
  case Nil
  note t = con_take [OF Nil.prems(1), of 10 rest]
  from Nil t show ?case
    by (auto simp: console_read_loop.simps [of wr killed target n dst con v] Let_def split: option.splits)
next
  case (Cons x xs)
  note t = con_take [OF Cons.prems(1), of x "xs @ 10 # rest"]
  from Cons.prems(6) obtain v1 where v1: "wr dst x v = Some v1"
    "store_run wr (dst + 1) (xs @ [10]) v1 = Some v'" by (auto split: option.splits)
  from Cons.IH [OF t(4) _ _ _ _ v1(2), of "n - 1"] Cons.prems t obtain con' where
    "console_read_loop wr killed target (n - 1) (dst + 1) (con\<lparr>cread := cread con + 1\<rparr>, v1)
      = Ret (target - n + int (length (x # xs)) + 1) (con', v')" "con_inv con'"
    "con_lines con' = (rest, snd (con_lines con))" by auto
  then show ?case using Cons.prems t v1(1)
    by (auto simp: console_read_loop.simps [of wr killed target n dst con v] Let_def)
qed

section \<open>Properties\<close>

text \<open>(C30) The console input path refines the line discipline: with the ring invariant, the handler
  run on any received character except the process-list key returns, keeps the invariant, turns
  the two lists (input available to readers, line being typed) into what \<open>line_spec\<close> says, with
  erase, kill, carriage return and end of file, and echoes exactly \<open>echo_spec\<close>.\<close>

theorem console_refines_line_discipline:
  assumes "con_inv con" "0 \<le> c" "c < 256" "c \<noteq> 0x10"
  shows "\<exists>con'. console_intr procdump c con = Inr con' \<and> con_inv con'
    \<and> con_lines con' = line_spec (of_int c) (con_lines con)
    \<and> thr (tty con') = thr (tty con) @ echo_spec (of_int c) (con_lines con)"
  using console_intr_spec [OF assms] by blast

text \<open>\<^verbatim>\<open>console_read\<close> with a whole line available: a reader that asks for at least the line gets
  the line with its newline at \<^verbatim>\<open>dst\<close>, the count of its bytes, and leaves later input and the
  line being typed untouched.\<close>

theorem console_read_line:
  assumes "con_inv con" "fst (con_lines con) = xs @ 10 # rest" "10 \<notin> set xs" "4 \<notin> set xs"
    and "int (length xs) < n"
  shows "\<exists>con'. console_read poke killed dst n con v = Ret (int (length xs) + 1)
      (con', \<lambda>x. if unat (x - dst) < length xs + 1 then (xs @ [10]) ! unat (x - dst) else v x)
    \<and> con_inv con' \<and> con_lines con' = (rest, snd (con_lines con))"
proof -
  have "length (fst (con_lines con)) \<le> INPUT_BUF"
    using assms(1) by (simp add: con_inv_def con_lines_def)
  then have "length (xs @ [10]) < 2 ^ 32" using assms(2) by simp
  from console_read_loop_line [OF assms store_run_poke [OF this, of dst v], of killed n] show ?thesis
    by (simp add: console_read_def)
qed

text \<open>The UART interrupt handler empties the receiver: every waiting byte goes through the line
  discipline in arrival order, then buffered output is restarted, and the loop ends.\<close>

theorem uart_intr_drains:
  assumes "con_inv con" "uart_inv (tty con)" "0x10 \<notin> set (rx (tty con))"
  shows "\<exists>con'. uart_intr procdump con = Inr con' \<and> con_inv con' \<and> rx (tty con') = []
    \<and> con_lines con' = fold line_spec (rx (tty con)) (con_lines con)"
proof -
  obtain con1 where "uart_intr_loop procdump (length (rx (tty con))) con = Inr con1" "con_inv con1"
    "rx (tty con1) = []" "con_lines con1 = fold line_spec (rx (tty con)) (con_lines con)"
    "uart_inv (tty con1)"
    using uart_intr_loop_spec [OF assms(1,3) refl] assms(2) by auto
  with uart_start_spec [of "tty con1"] show ?thesis
    by (auto simp: uart_intr_def con_inv_def)
qed

text \<open>Buffered output is a FIFO: \<^verbatim>\<open>uart_putc\<close> on a running system returns exactly when the
  32-byte ring has room, and then the bytes sent to the device by this call followed by the bytes
  still in the ring are the old ring contents followed by the new byte; the ring is left empty
  unless the device reported a busy transmitter.\<close>

theorem uart_putc_fifo:
  assumes "uart_inv u" "\<not> panicked u"
  shows "if length (uart_contents u) = UART_TX_BUF_SIZE then uart_putc c u = Inl (Sleeps ''uart_tx_r'')
    else \<exists>u' sent. uart_putc c u = Inr u' \<and> uart_inv u' \<and> thr u' = thr u @ sent
      \<and> sent @ uart_contents u' = uart_contents u @ [c]
      \<and> (uart_contents u' = [] \<or> False \<in> set (lsr_tx u))"
proof (cases "uart_full u")
  case True
  with assms show ?thesis by (simp add: uart_putc_def uq.full_iff)
next
  case False
  then have "uart_inv (uart_put c u)" and "uart_contents (uart_put c u) = uart_contents u @ [c]"
    using assms(1) by (simp_all add: uq.put_inv uq.put_contents)
  with uart_start_spec [of "uart_put c u"] False assms show ?thesis
    by (auto simp: uart_putc_def uq.full_iff uart_put_def)
qed

subsection \<open>Witnesses\<close>

definition uart1 :: uart where
  "uart1 = \<lparr>uart_tx_buf = replicate 32 0, uart_tx_w = 0, uart_tx_r = 0, panicked = False,
     thr = [], lsr_tx = [False, True], rx = [97, 13], uwakes = []\<rparr>"

text \<open>A console with the line \<open>hi\<close> committed and one character being typed; the counters
  are about to wrap.\<close>

definition con1 :: console where
  "con1 = \<lparr>cbuf = [10, 120] @ replicate 124 0 @ [104, 105], cread = 0xfffffffe, cwrite = 1,
     cedit = 2, tty = uart1\<rparr>"

lemma con1_lines: "con_lines con1 = ([104, 105, 10], [120])"
  by (simp add: con_lines_def con1_def ring_contents_def upt_rec [of 0] upt_rec [of "Suc 0"]
      upt_rec [of "Suc (Suc 0)"] nth_append)

lemma con1_thr: "thr (tty con1) = []"
  by (simp add: con1_def uart1_def)

lemma con1_inv: "con_inv con1"
  using con1_lines by (simp add: con_inv_def) (simp add: con1_def uart1_def)

lemma uart1_inv: "uart_inv uart1"
  by (simp add: uart_inv_def uart1_def)

theorem console_refines_line_discipline_witness:
  "\<exists>con'. console_intr Inr 0x7f con1 = Inr con' \<and> con_lines con' = ([104, 105, 10], [])
    \<and> thr (tty con') = [8, 32, 8]"
  using console_refines_line_discipline [OF con1_inv, of "0x7f" Inr]
  by (auto simp: con1_lines con1_thr)

theorem console_read_line_witness:
  "\<exists>con' m. console_read poke False 0x100 64 con1 (\<lambda>x. 0) = Ret 3 (con', m)
    \<and> con_lines con' = ([], [120]) \<and> m 0x101 = 105"
  using console_read_line [OF con1_inv, of "[104, 105]" "[]" 64 False "0x100" "\<lambda>x. 0"]
  by (auto simp: con1_lines)

theorem uart_intr_drains_witness:
  "\<exists>con'. uart_intr Inr con1 = Inr con' \<and> rx (tty con') = []
    \<and> con_lines con' = ([104, 105, 10, 120, 97, 10], [])"
  using uart_intr_drains [OF con1_inv, of Inr] uart1_inv
  by (simp add: con1_lines) (auto simp: con1_def uart1_def)

theorem uart_putc_fifo_witness:
  "\<exists>u' sent. uart_putc 5 uart1 = Inr u' \<and> thr u' = sent \<and> sent @ uart_contents u' = [5]"
proof -
  have "uart_contents uart1 = []" by (simp add: uart_contents_def uart1_def ring_contents_def)
  with uart_putc_fifo [OF uart1_inv, of 5] show ?thesis by (auto simp: uart1_def)
qed

end
