(* ===== verification/File.thy ===== *)
theory File
  imports Fs_Dir Pipes Console_Uart Pmm "HOL-Library.Multiset"
begin

text \<open>
  \<^verbatim>\<open>kernel/file.c\<close> and \<^verbatim>\<open>pipealloc\<close> of \<^verbatim>\<open>kernel/pipes.c\<close>: the table of open files and the operations
  on an open file, which go to a pipe, a device or an inode. A \<^verbatim>\<open>struct file *\<close> is an index of the
  table, a \<^verbatim>\<open>struct pipe *\<close> the address of its page, a \<^verbatim>\<open>struct inode *\<close> an index of the inode
  table. The only entry of \<^verbatim>\<open>devsw\<close> that is ever set is the console (\<^verbatim>\<open>console_init\<close>). The lock of
  the table is taken and released within each operation and left out.

  User memory is a state of any type, reached through \<open>uspace\<close>: \<open>u_out\<close> is \<^verbatim>\<open>copyout\<close> and
  \<open>u_in\<close> is \<^verbatim>\<open>copyto\<close>, with the bytes delivered and whether it succeeded. A call that goes to
  sleep in a pipe or at the console stops in \<open>Block\<close>.
\<close>

abbreviation "NUMFILE \<equiv> 100 :: nat"
abbreviation "NUMDEV \<equiv> 10 :: int"
abbreviation "CONSOLE \<equiv> 1 :: int"
abbreviation "MAXOPBLOCKS \<equiv> 10 :: int"

section \<open>State\<close>

datatype ftype = FD_NONE | FD_PIPE | FD_INODE | FD_DEVICE | FD_SOCKET

record kfile =
  f_type :: ftype
  f_ref :: int
  f_readable :: bool
  f_writable :: bool
  f_pipe :: u32
  f_inode :: nat
  f_offset :: u32
  f_major_dev_num :: int

record files =
  ftable :: "kfile list"
  fpipes :: "u32 \<Rightarrow> pipe"
  ffs :: fs
  fmem :: mem
  fcon :: console

record 'u uspace =
  u_out :: "u32 \<Rightarrow> byte list \<Rightarrow> 'u \<Rightarrow> 'u option"
  u_in :: "u32 \<Rightarrow> u32 \<Rightarrow> 'u \<Rightarrow> byte list \<times> bool"

definition upd_file :: "nat \<Rightarrow> (kfile \<Rightarrow> kfile) \<Rightarrow> files \<Rightarrow> files" where
  "upd_file f g s = s\<lparr>ftable := (ftable s)[f := g (ftable s ! f)]\<rparr>"

definition with_fs :: "(fs \<Rightarrow> fs res) \<Rightarrow> files \<Rightarrow> files res" where
  "with_fs op s = rbind (op (ffs s)) (\<lambda>x. Inr (s\<lparr>ffs := x\<rparr>))"

section \<open>The table\<close>

fun file_scan :: "nat \<Rightarrow> kfile list \<Rightarrow> nat option" where
  "file_scan i [] = None"
| "file_scan i (f # fs) = (if f_ref f = 0 then Some i else file_scan (Suc i) fs)"

definition file_alloc :: "files \<Rightarrow> nat option \<times> files" where
  "file_alloc s =
     (case file_scan 0 (ftable s) of
        None \<Rightarrow> (None, s)
      | Some f \<Rightarrow> (Some f, upd_file f (\<lambda>x. x\<lparr>f_ref := 1\<rparr>) s))"

definition file_inc :: "nat \<Rightarrow> files \<Rightarrow> (nat \<times> files) res" where
  "file_inc f s =
     (if f_ref (ftable s ! f) < 1 then Inl (Panic ''file_inc, file->ref < 1'')
      else Inr (f, upd_file f (\<lambda>x. x\<lparr>f_ref := f_ref x + 1\<rparr>) s))"

definition file_dup :: "nat \<Rightarrow> files \<Rightarrow> (nat \<times> files) res" where
  "file_dup f s =
     (if f_ref (ftable s ! f) < 1 then Inl (Panic ''filedup'')
      else Inr (f, upd_file f (\<lambda>x. x\<lparr>f_ref := f_ref x + 1\<rparr>) s))"

definition close_pipe :: "u32 \<Rightarrow> u32 \<Rightarrow> bool \<Rightarrow> files \<Rightarrow> files" where
  "close_pipe mem_end pi writable s =
     (let (freed, p) = pipe_close (fpipes s pi) writable;
          s = s\<lparr>fpipes := (fpipes s)(pi := p)\<rparr>
      in if freed then s\<lparr>fmem := kfree mem_end pi (fmem s)\<rparr> else s)"

definition file_close :: "u32 \<Rightarrow> byte \<Rightarrow> int \<Rightarrow> nat \<Rightarrow> files \<Rightarrow> files res" where
  "file_close mem_end past pid fi s =
     (let f = ftable s ! fi in
      if f_ref f < 1 then Inl (Panic ''file_close, file->ref < 1'')
      else if f_ref f - 1 > 0 then Inr (upd_file fi (\<lambda>x. x\<lparr>f_ref := f_ref x - 1\<rparr>) s)
      else
        let s = upd_file fi (\<lambda>x. x\<lparr>f_ref := 0, f_type := FD_NONE\<rparr>) s in
        if f_type f = FD_PIPE then Inr (close_pipe mem_end (f_pipe f) (f_writable f) s)
        else if f_type f = FD_INODE \<or> f_type f = FD_DEVICE then
          rbind (with_fs begin_op s) (\<lambda>s.
            rbind (with_fs (inode_put past pid (f_inode f)) s) (with_fs (end_op pid)))
        else Inr s)"

section \<open>Pipes as files\<close>

text \<open>\<^verbatim>\<open>pipealloc\<close>: the two files of a new pipe, \<^term>\<open>None\<close> for the result \<open>-1\<close>. The ring inside the fresh
  page starts behind the twelve bytes of its lock.\<close>

definition pipe_in_page :: "u32 \<Rightarrow> mem \<Rightarrow> pipe" where
  "pipe_in_page pi m = pipe_new (map (\<lambda>i. m (pi + of_nat (12 + i))) [0..<PIPESIZE])"

definition pipealloc_bad ::
  "u32 \<Rightarrow> byte \<Rightarrow> int \<Rightarrow> u32 \<Rightarrow> nat option \<Rightarrow> nat option \<Rightarrow> files \<Rightarrow> ((nat \<times> nat) option \<times> files) res" where
  "pipealloc_bad mem_end past pid pi f0 f1 s =
     (let s = (if pi \<noteq> 0 then s\<lparr>fmem := kfree mem_end pi (fmem s)\<rparr> else s) in
      rbind (case f0 of None \<Rightarrow> Inr s | Some f \<Rightarrow> file_close mem_end past pid f s) (\<lambda>s.
        rbind (case f1 of None \<Rightarrow> Inr s | Some f \<Rightarrow> file_close mem_end past pid f s) (\<lambda>s.
          Inr (None, s))))"

definition pipealloc :: "u32 \<Rightarrow> byte \<Rightarrow> int \<Rightarrow> files \<Rightarrow> ((nat \<times> nat) option \<times> files) res" where
  "pipealloc mem_end past pid s =
     (case file_alloc s of
        (None, s) \<Rightarrow> pipealloc_bad mem_end past pid 0 None None s
      | (Some f0, s) \<Rightarrow>
          (case file_alloc s of
             (None, s) \<Rightarrow> pipealloc_bad mem_end past pid 0 (Some f0) None s
           | (Some f1, s) \<Rightarrow>
               rbind (kalloc mem_end (fmem s)) (\<lambda>(pi, m).
                 let s = s\<lparr>fmem := m\<rparr> in
                 if pi = 0 then pipealloc_bad mem_end past pid 0 (Some f0) (Some f1) s
                 else
                   let s = s\<lparr>fpipes := (fpipes s)(pi := pipe_in_page pi m)\<rparr>;
                       s = upd_file f0 (\<lambda>x. x\<lparr>f_type := FD_PIPE, f_readable := True, f_writable := False, f_pipe := pi\<rparr>) s;
                       s = upd_file f1 (\<lambda>x. x\<lparr>f_type := FD_PIPE, f_readable := False, f_writable := True, f_pipe := pi\<rparr>) s
                   in Inr (Some (f0, f1), s))))"

section \<open>Operations on an open file\<close>

text \<open>The twenty-four bytes of a \<^verbatim>\<open>struct stat\<close>: two words, two halfwords, padding to a multiple of
  eight with the bytes \<open>pad\<close> of the stack, and the size.\<close>

definition le_bytes :: "nat \<Rightarrow> 'a::len word \<Rightarrow> byte list" where
  "le_bytes n w = map (\<lambda>i. ucast (drop_bit (8 * i) w)) [0..<n]"

definition stat_bytes :: "byte list \<Rightarrow> stat \<Rightarrow> byte list" where
  "stat_bytes pad st = le_bytes 4 (st_dev st) @ le_bytes 4 (st_inode_num st) @ le_bytes 2 (st_type st)
     @ le_bytes 2 (st_num_link st) @ pad @ le_bytes 8 (st_size st)"

definition file_stat ::
  "'u uspace \<Rightarrow> byte list \<Rightarrow> int \<Rightarrow> nat \<Rightarrow> u32 \<Rightarrow> files \<times> 'u \<Rightarrow> (int \<times> files \<times> 'u) res" where
  "file_stat us pad pid fi address = (\<lambda>(s, u).
     let f = ftable s ! fi in
     if f_type f = FD_INODE \<or> f_type f = FD_DEVICE then
       rbind (with_fs (inode_lock pid (f_inode f)) s) (\<lambda>s.
         let st = copy_stat_inode (inode_table (ffs s) ! f_inode f) in
         rbind (with_fs (inode_unlock pid (f_inode f)) s) (\<lambda>s.
           case u_out us address (stat_bytes pad st) u of
             None \<Rightarrow> Inr (- 1, s, u)
           | Some u \<Rightarrow> Inr (0, s, u)))
     else Inr (- 1, s, u))"

definition u_byte :: "'u uspace \<Rightarrow> 'u \<Rightarrow> u32 \<Rightarrow> byte option" where
  "u_byte us u a = (case u_in us a 1 u of (c # _, True) \<Rightarrow> Some c | _ \<Rightarrow> None)"

definition read_file ::
  "'u uspace \<Rightarrow> int \<Rightarrow> bool \<Rightarrow> nat \<Rightarrow> u32 \<Rightarrow> int \<Rightarrow> files \<times> 'u \<Rightarrow> (files \<times> 'u) outcome res" where
  "read_file us pid killed fi address n = (\<lambda>(s, u).
     let f = ftable s ! fi; wr = (\<lambda>a c. u_out us a [c]) in
     if \<not> f_readable f then Inr (Ret (- 1) (s, u))
     else if f_type f = FD_PIPE then
       (case piperead wr killed (fpipes s (f_pipe f)) (sint address) (of_int n) u of
          Ret r (p, u) \<Rightarrow> Inr (Ret r (s\<lparr>fpipes := (fpipes s)(f_pipe f := p)\<rparr>, u))
        | Block ch i (p, u) \<Rightarrow> Inr (Block ch i (s\<lparr>fpipes := (fpipes s)(f_pipe f := p)\<rparr>, u)))
     else if f_type f = FD_DEVICE then
       (if f_major_dev_num f < 0 \<or> f_major_dev_num f \<ge> NUMDEV \<or> f_major_dev_num f \<noteq> CONSOLE then Inr (Ret (- 1) (s, u))
        else
          (case console_read wr killed address n (fcon s) u of
             Ret r (c, u) \<Rightarrow> Inr (Ret r (s\<lparr>fcon := c\<rparr>, u))
           | Block ch i (c, u) \<Rightarrow> Inr (Block ch i (s\<lparr>fcon := c\<rparr>, u))))
     else if f_type f = FD_INODE then
       rbind (with_fs (inode_lock pid (f_inode f)) s) (\<lambda>s.
         rbind (read_inode (u_out us) pid (f_inode f) address (f_offset f) (of_int n) (ffs s, u)) (\<lambda>(a, x, u).
           let s = s\<lparr>ffs := x\<rparr>;
               s = (if a > 0 then upd_file fi (\<lambda>f. f\<lparr>f_offset := f_offset f + of_int a\<rparr>) s else s)
           in rbind (with_fs (inode_unlock pid (f_inode f)) s) (\<lambda>s. Inr (Ret a (s, u)))))
     else Inl (Panic ''file_read''))"

text \<open>The loop of \<^verbatim>\<open>write_file\<close> for an inode: at most \<^verbatim>\<open>max\<close> bytes per transaction.\<close>

definition write_max :: int where
  "write_max = ((MAXOPBLOCKS - 1 - 1 - 2) div 2) * int BUFFER_SIZE"

function write_file_loop ::
  "(u32 \<Rightarrow> u32 \<Rightarrow> byte list \<times> bool) \<Rightarrow> byte \<Rightarrow> int \<Rightarrow> nat \<Rightarrow> u32 \<Rightarrow> int \<Rightarrow> int \<Rightarrow> files \<Rightarrow> (int \<times> files) res" where
  "write_file_loop inp past pid fi address n i s =
     (if i < n then
        let n1 = (if n - i > write_max then write_max else n - i);
            ip = f_inode (ftable s ! fi) in
        rbind (with_fs begin_op s) (\<lambda>s.
        rbind (with_fs (inode_lock pid ip) s) (\<lambda>s.
        rbind (write_inode past inp pid ip (address + of_int i) (f_offset (ftable s ! fi)) (of_int n1) (ffs s)) (\<lambda>(r, x).
          let s = s\<lparr>ffs := x\<rparr>;
              s = (if r > 0 then upd_file fi (\<lambda>f. f\<lparr>f_offset := f_offset f + of_int r\<rparr>) s else s)
          in
        rbind (with_fs (inode_unlock pid ip) s) (\<lambda>s.
        rbind (with_fs (end_op pid) s) (\<lambda>s.
          if r \<noteq> n1 then Inr (i, s)
          else write_file_loop inp past pid fi address n (i + n1) s)))))
      else Inr (i, s))"
  by pat_completeness auto
termination
  by (relation "measure (\<lambda>(inp, past, pid, fi, a, n, i, s). nat (n - i))") (auto simp: write_max_def)

declare write_file_loop.simps [simp del]

definition write_file ::
  "'u uspace \<Rightarrow> byte \<Rightarrow> int \<Rightarrow> bool \<Rightarrow> nat \<Rightarrow> u32 \<Rightarrow> int \<Rightarrow> 'u \<Rightarrow> files \<Rightarrow> files outcome res" where
  "write_file us past pid killed fi address n u s =
     (let f = ftable s ! fi in
      if \<not> f_writable f then Inr (Ret (- 1) s)
      else if f_type f = FD_PIPE then
        rbind (pipewrite (u_byte us u) killed (fpipes s (f_pipe f)) (sint address) (of_int n)) (\<lambda>r.
          case r of
            Ret _ p \<Rightarrow> Inr (Ret 0 (s\<lparr>fpipes := (fpipes s)(f_pipe f := p)\<rparr>))
          | Block ch i p \<Rightarrow> Inr (Block ch i (s\<lparr>fpipes := (fpipes s)(f_pipe f := p)\<rparr>)))
      else if f_type f = FD_DEVICE then
        (if f_major_dev_num f < 0 \<or> f_major_dev_num f \<ge> NUMDEV \<or> f_major_dev_num f \<noteq> CONSOLE then Inr (Ret (- 1) s)
         else
           rbind (console_write (\<lambda>i. u_byte us u (address + of_nat i)) n (tty (fcon s))) (\<lambda>(r, t).
             Inr (Ret r (s\<lparr>fcon := (fcon s)\<lparr>tty := t\<rparr>\<rparr>))))
      else if f_type f = FD_INODE then
        rbind (write_file_loop (\<lambda>a k. u_in us a k u) past pid fi address n 0 s) (\<lambda>(i, s).
          Inr (Ret (if i = n then n else - 1) s))
      else Inl (Panic ''write file''))"

section \<open>Reference counts are handles\<close>

text \<open>The ways the kernel obtains and drops references to open files. The multiset holds the
  references that are in somebody's descriptor table; a holder may fill in the fields of its file.\<close>

inductive fstep :: "files \<times> nat multiset \<Rightarrow> files \<times> nat multiset \<Rightarrow> bool" where
  fs_alloc: "file_alloc s = (Some f, s') \<Longrightarrow> fstep (s, H) (s', add_mset f H)"
| fs_full: "file_alloc s = (None, s') \<Longrightarrow> fstep (s, H) (s', H)"
| fs_fill: "f \<in># H \<Longrightarrow> (\<And>x. f_ref (g x) = f_ref x) \<Longrightarrow> fstep (s, H) (upd_file f g s, H)"
| fs_dup: "f \<in># H \<Longrightarrow> file_dup f s = Inr (f', s') \<Longrightarrow> fstep (s, H) (s', add_mset f' H)"
| fs_inc: "f \<in># H \<Longrightarrow> file_inc f s = Inr (f', s') \<Longrightarrow> fstep (s, H) (s', add_mset f' H)"
| fs_close: "f \<in># H \<Longrightarrow> file_close mem_end past pid f s = Inr s' \<Longrightarrow> fstep (s, H) (s', H - {#f#})"
| fs_pipe: "pipealloc mem_end past pid s = Inr (Some (f0, f1), s') \<Longrightarrow> fstep (s, H) (s', H + {#f0, f1#})"
| fs_nopipe: "pipealloc mem_end past pid s = Inr (None, s') \<Longrightarrow> fstep (s, H) (s', H)"

inductive_cases fstepE: "fstep (s, H) t"

definition counted :: "kfile list \<Rightarrow> nat multiset \<Rightarrow> bool" where
  "counted t H \<longleftrightarrow> length t = NUMFILE \<and> set_mset H \<subseteq> {..<NUMFILE} \<and> (\<forall>f<NUMFILE. f_ref (t ! f) = int (count H f))"

lemma counted_upd:
  assumes "counted t H" "f < NUMFILE" "f_ref (g (t ! f)) = int (count H' f)"
    and "\<And>x. x \<noteq> f \<Longrightarrow> count H' x = count H x"
  shows "counted (t[f := g (t ! f)]) H'"
proof -
  have "set_mset H' \<subseteq> {..<NUMFILE}"
  proof
    fix x assume "x \<in># H'"
    then have "x = f \<or> x \<in># H" using assms(4) [of x] by (cases "x = f") (auto simp flip: count_greater_zero_iff)
    then show "x \<in> {..<NUMFILE}" using assms(1,2) by (auto simp: counted_def)
  qed
  then show ?thesis using assms by (auto simp: counted_def nth_list_update_cases)
qed

lemma file_scan_Some:
  "file_scan i t = Some f \<Longrightarrow> i \<le> f \<and> f < i + length t \<and> f_ref (t ! (f - i)) = 0 \<and> (\<forall>j<f - i. f_ref (t ! j) \<noteq> 0)"
proof (induction t arbitrary: i)
  case (Cons a t)
  show ?case
  proof (cases "f_ref a = 0")
    case True
    then show ?thesis using Cons.prems by auto
  next
    case False
    with Cons.IH [of "Suc i"] Cons.prems have "Suc i \<le> f" "f < Suc i + length t" "f_ref (t ! (f - Suc i)) = 0"
      "\<forall>j<f - Suc i. f_ref (t ! j) \<noteq> 0" by auto
    moreover from this have "f - i = Suc (f - Suc i)" by simp
    ultimately show ?thesis using False by (auto simp: less_Suc_eq_0_disj)
  qed
qed simp

lemma file_scan_None: "file_scan i t = None \<longleftrightarrow> (\<forall>x\<in>set t. f_ref x \<noteq> 0)"
  by (induction t arbitrary: i) auto

lemma file_alloc_counted:
  assumes "counted (ftable s) H"
  shows "(case file_alloc s of
      (Some f, s') \<Rightarrow> counted (ftable s') (add_mset f H) \<and> f \<notin># H \<and> f < NUMFILE \<and> fmem s' = fmem s
    | (None, s') \<Rightarrow> s' = s)"
proof (cases "file_scan 0 (ftable s)")
  case (Some f)
  from file_scan_Some [OF this] have f: "f < length (ftable s)" "f_ref (ftable s ! f) = 0" by auto
  with assms have lt: "f < NUMFILE" "count H f = 0" by (auto simp: counted_def)
  have "counted ((ftable s)[f := (\<lambda>x. x\<lparr>f_ref := 1\<rparr>) (ftable s ! f)]) (add_mset f H)"
    by (rule counted_upd [OF assms lt(1)]) (use lt in auto)
  then show ?thesis using Some lt by (simp add: file_alloc_def upd_file_def not_in_iff)
qed (simp add: file_alloc_def)

lemma ffs_upd_file [simp]: "ffs (upd_file f g s) = ffs s"
  by (simp add: upd_file_def)

lemma ftable_with_fs: "with_fs op s = Inr s' \<Longrightarrow> ftable s' = ftable s"
  by (auto simp: with_fs_def rbind_eq_Inr)

lemma ftable_close_pipe [simp]: "ftable (close_pipe e pi w s) = ftable s"
  by (simp add: close_pipe_def Let_def split: prod.split)

lemma file_close_counted:
  assumes "counted (ftable s) H" "f \<in># H" "file_close e past pid f s = Inr s'"
  shows "counted (ftable s') (H - {#f#})"
proof -
  have lt: "f < NUMFILE" "f_ref (ftable s ! f) = int (count H f)" "0 < count H f"
    using assms(1,2) by (auto simp: counted_def)
  show ?thesis
  proof (cases "f_ref (ftable s ! f) - 1 > 0")
    case True
    then have s': "s' = upd_file f (\<lambda>x. x\<lparr>f_ref := f_ref x - 1\<rparr>) s"
      using assms(3) lt by (auto simp: file_close_def Let_def split: if_splits)
    show ?thesis unfolding s' upd_file_def
      using counted_upd [OF assms(1) lt(1), of "\<lambda>x. x\<lparr>f_ref := f_ref x - 1\<rparr>" "H - {#f#}"] lt by simp
  next
    case False
    then have "ftable s' = (ftable s)[f := (\<lambda>x. x\<lparr>f_ref := 0, f_type := FD_NONE\<rparr>) (ftable s ! f)]"
      using assms(3) lt
      by (auto simp: file_close_def Let_def upd_file_def rbind_eq_Inr split: if_splits dest!: ftable_with_fs)
    moreover have "count H f = 1" using False lt by linarith
    ultimately show ?thesis
      using counted_upd [OF assms(1) lt(1), of "\<lambda>x. x\<lparr>f_ref := 0, f_type := FD_NONE\<rparr>" "H - {#f#}"] by simp
  qed
qed

lemma file_dup_counted:
  assumes "counted (ftable s) H" "f \<in># H"
  shows "\<exists>s'. file_dup f s = Inr (f, s') \<and> file_inc f s = Inr (f, s') \<and> counted (ftable s') (add_mset f H)"
proof -
  have lt: "f < NUMFILE" "f_ref (ftable s ! f) = int (count H f)" "0 < count H f"
    using assms by (auto simp: counted_def)
  have "counted ((ftable s)[f := (\<lambda>x. x\<lparr>f_ref := f_ref x + 1\<rparr>) (ftable s ! f)]) (add_mset f H)"
    by (rule counted_upd [OF assms(1) lt(1)]) (use lt in auto)
  then show ?thesis using lt by (simp add: file_dup_def file_inc_def upd_file_def)
qed

lemma fill_counted:
  assumes "counted (ftable s) H" "f \<in># H" "\<And>x. f_ref (g x) = f_ref x"
  shows "counted (ftable (upd_file f g s)) H"
  using counted_upd [OF assms(1), of f g H] assms by (auto simp: upd_file_def counted_def)

lemma pipealloc_bad_counted:
  assumes "counted (ftable s) (H + (case f0 of None \<Rightarrow> {#} | Some f \<Rightarrow> {#f#}) + (case f1 of None \<Rightarrow> {#} | Some f \<Rightarrow> {#f#}))"
    and "pipealloc_bad e past pid pi f0 f1 s = Inr (r, s')"
  shows "r = None \<and> counted (ftable s') H"
proof -
  let ?m = "\<lambda>f. case f of None \<Rightarrow> {#} | Some f \<Rightarrow> {#f#}"
  let ?s = "if pi \<noteq> 0 then s\<lparr>fmem := kfree e pi (fmem s)\<rparr> else s"
  from assms(2) obtain s1 where s1: "(case f0 of None \<Rightarrow> Inr ?s | Some f \<Rightarrow> file_close e past pid f ?s) = Inr s1"
    "(case f1 of None \<Rightarrow> Inr s1 | Some f \<Rightarrow> file_close e past pid f s1) = Inr s'" "r = None"
    by (auto simp: pipealloc_bad_def Let_def rbind_eq_Inr)
  have drop: "counted (ftable x') H'" if "counted (ftable x) (H' + ?m f)"
    "(case f of None \<Rightarrow> Inr x | Some f \<Rightarrow> file_close e past pid f x) = Inr x'" for x x' f H'
  proof (cases f)
    case (Some g)
    have "g \<in># H' + ?m f" using Some by simp
    from file_close_counted [OF that(1) this] that(2) Some show ?thesis by simp
  qed (use that in simp)
  have "counted (ftable ?s) ((H + ?m f1) + ?m f0)" using assms(1) by (simp add: ac_simps)
  from drop [OF this s1(1)] have "counted (ftable s1) (H + ?m f1)" .
  from drop [OF this s1(2)] s1(3) show ?thesis by simp
qed

lemma pipealloc_counted:
  assumes "counted (ftable s) H" "pipealloc e past pid s = Inr (r, s')"
  shows "counted (ftable s') (H + (case r of None \<Rightarrow> {#} | Some (f0, f1) \<Rightarrow> {#f0, f1#}))"
proof (cases "file_alloc s")
  case (Pair a s1)
  note A = file_alloc_counted [OF assms(1)]
  show ?thesis
  proof (cases a)
    case None
    then show ?thesis
      using Pair A assms pipealloc_bad_counted [of s H None None e past pid 0 r s']
      by (auto simp: pipealloc_def)
  next
    case f0: (Some f0)
    with Pair A have c1: "counted (ftable s1) (add_mset f0 H)" by simp
    obtain b s2 where B: "file_alloc s1 = (b, s2)" by fastforce
    note A2 = file_alloc_counted [OF c1]
    show ?thesis
    proof (cases b)
      case None
      then show ?thesis
        using Pair f0 B A2 c1 assms(2) pipealloc_bad_counted [of s1 H "Some f0" None e past pid 0 r s']
        by (auto simp: pipealloc_def)
    next
      case f1: (Some f1)
      with A2 B have c2: "counted (ftable s2) (add_mset f1 (add_mset f0 H))" by simp
      from assms(2) Pair f0 B f1 obtain pi m where k: "kalloc e (fmem s2) = Inr (pi, m)"
        by (auto simp: pipealloc_def rbind_eq_Inr)
      show ?thesis
      proof (cases "pi = 0")
        case True
        then show ?thesis
          using Pair f0 B f1 k c2 assms(2)
            pipealloc_bad_counted [of "s2\<lparr>fmem := m\<rparr>" H "Some f0" "Some f1" e past pid 0 r s']
          by (auto simp: pipealloc_def Let_def ac_simps)
      next
        case False
        let ?g = "\<lambda>r w x. x\<lparr>f_type := FD_PIPE, f_readable := r, f_writable := w, f_pipe := pi\<rparr>"
        let ?s3 = "s2\<lparr>fmem := m, fpipes := (fpipes s2)(pi := pipe_in_page pi m)\<rparr>"
        have "r = Some (f0, f1)" "s' = upd_file f1 (?g False True) (upd_file f0 (?g True False) ?s3)"
          using assms(2) Pair f0 B f1 k False by (auto simp: pipealloc_def Let_def)
        moreover have "counted (ftable (upd_file f1 (?g False True) (upd_file f0 (?g True False) ?s3))) (add_mset f1 (add_mset f0 H))"
          using c2 by (intro fill_counted) auto
        ultimately show ?thesis by (simp add: add_mset_commute)
      qed
    qed
  qed
qed

lemma fstep_counted:
  assumes "fstep (s, H) (s', H')" "counted (ftable s) H"
  shows "counted (ftable s') H'"
  using assms(1)
proof (cases rule: fstep.cases)
  case (fs_alloc f)
  then show ?thesis using file_alloc_counted [OF assms(2)] by simp
next
  case fs_full
  then show ?thesis using file_alloc_counted [OF assms(2)] assms(2) by simp
next
  case (fs_fill f g)
  then show ?thesis using fill_counted [OF assms(2)] by simp
next
  case (fs_dup f f')
  then show ?thesis using file_dup_counted [OF assms(2)] by force
next
  case (fs_inc f f')
  then show ?thesis using file_dup_counted [OF assms(2)] by force
next
  case (fs_close f e past pid)
  then show ?thesis using file_close_counted [OF assms(2)] by simp
next
  case (fs_pipe e past pid f0 f1)
  then show ?thesis using pipealloc_counted [OF assms(2)] by fastforce
next
  case (fs_nopipe e past pid)
  then show ?thesis using pipealloc_counted [OF assms(2)] by fastforce
qed

lemma fstep_star_counted:
  assumes "fstep\<^sup>*\<^sup>* (s, H) t" "counted (ftable s) H"
  shows "counted (ftable (fst t)) (snd t)"
  using assms by (induction t rule: rtranclp_induct) (auto dest: fstep_counted)

section \<open>Properties\<close>

text \<open>(C21) Open files are counted by their handles. From a table with no open file on, whatever sequence
  of allocations, duplications, closes and pipe creations is run, the reference count of every
  file is the number of handles to it; \<^verbatim>\<open>file_alloc\<close> hands out a file nobody has a handle to and
  fails only when every file of the table is open; and duplicating a handle never panics.\<close>

theorem file_refs_count_handles:
  assumes "length (ftable s0) = NUMFILE" "\<forall>x\<in>set (ftable s0). f_ref x = 0"
    and "fstep\<^sup>*\<^sup>* (s0, {#}) (s, H)"
  shows "(\<forall>f<NUMFILE. f_ref (ftable s ! f) = int (count H f))
    \<and> (case file_alloc s of (Some f, s') \<Rightarrow> f \<notin># H | (None, s') \<Rightarrow> s' = s \<and> (\<forall>f<NUMFILE. f \<in># H))
    \<and> (\<forall>f\<in>#H. \<exists>s'. file_dup f s = Inr (f, s'))"
proof -
  have "counted (ftable s0) {#}" using assms(1,2) by (simp add: counted_def)
  from fstep_star_counted [OF assms(3) this] have c: "counted (ftable s) H" by simp
  have "\<forall>f<NUMFILE. f \<in># H" if "fst (file_alloc s) = None"
  proof -
    from that have "file_scan 0 (ftable s) = None" by (auto simp: file_alloc_def split: option.splits)
    then have used: "\<forall>x\<in>set (ftable s). f_ref x \<noteq> 0" by (simp only: file_scan_None)
    have "f_ref (ftable s ! f) \<noteq> 0" if "f < NUMFILE" for f
      using c that used [rule_format, OF nth_mem, of f] by (simp add: counted_def)
    then have "count H f \<noteq> 0" if "f < NUMFILE" for f using c that by (simp add: counted_def)
    then show ?thesis by (simp flip: count_greater_zero_iff)
  qed
  then have "case file_alloc s of (Some f, s') \<Rightarrow> f \<notin># H | (None, s') \<Rightarrow> s' = s \<and> (\<forall>f<NUMFILE. f \<in># H)"
    using file_alloc_counted [OF c] by (auto split: prod.splits option.splits)
  moreover have "\<forall>f\<in>#H. \<exists>s'. file_dup f s = Inr (f, s')" using file_dup_counted [OF c] by blast
  ultimately show ?thesis using c by (simp add: counted_def)
qed

text \<open>Reading an open file through its descriptor delivers the next bytes of the file: for a loaded,
  unlocked inode whose first blocks are mapped, \<^verbatim>\<open>read_file\<close> takes and releases the inode lock,
  returns the number of bytes up to \<open>n\<close> or the end of the file, stores exactly those bytes of
  the file from the current offset on at the user's address, and moves the offset behind them.\<close>

theorem read_file_delivers:
  assumes "f = ftable s ! fi" "fi < length (ftable s)" "f_readable f" "f_type f = FD_INODE" "ip = f_inode f"
    and "ip < length (inode_table (ffs s))" "i_refcount (inode_table (ffs s) ! ip) \<noteq> 0"
    and "slocked (i_lock (inode_table (ffs s) ! ip)) = 0" "i_valid (inode_table (ffs s) ! ip) \<noteq> 0"
    and "cache_ok (cache (ffs s))" "\<forall>b. readable (cache (ffs s)) b" "\<forall>b. length (view (cache (ffs s)) b) = BUFFER_SIZE"
    and "i_dev (inode_table (ffs s) ! ip) = ROOTDEV" "f_offset f \<le> i_size (inode_table (ffs s) ! ip)"
    and "0 \<le> n" "n < 2147483648" "mapped (ffs s) ip (unat (f_offset f) + m)"
    and "m = min (nat n) (unat (i_size (inode_table (ffs s) ! ip)) - unat (f_offset f))"
  shows "\<exists>s'. read_file \<lparr>u_out = store_run poke, u_in = inp\<rparr> pid killed fi addr n (s, u) = Inr (Ret (int m) (s',
      \<lambda>x. if unat (x - addr) < m then file_byte (ffs s) ip (unat (f_offset f) + unat (x - addr)) else u x))
    \<and> f_offset (ftable s' ! fi) = f_offset f + of_nat m \<and> view (cache (ffs s')) = view (cache (ffs s))
    \<and> slocked (i_lock (inode_table (ffs s') ! ip)) = 0"
proof -
  let ?x = "ffs s" and ?I = "inode_table (ffs s) ! ip"
  define k where "k = (i_lock ?I)\<lparr>slocked := 1, sl_process_id := pid\<rparr>"
  define x1 where "x1 = upd_inode ip (\<lambda>p. p\<lparr>i_lock := k\<rparr>) ?x"
  have I1: "inode_table x1 ! ip = ?I\<lparr>i_lock := k\<rparr>" "cache x1 = cache ?x"
    using assms(6) by (simp_all add: x1_def upd_inode_def)
  have lock: "inode_lock pid ip ?x = Inr x1"
    using assms(7-9) by (simp add: inode_lock_def Let_def acquire_sleeplock_def x1_def k_def word_less_1)
  have un: "unat (of_int n :: u32) = nat n"
  proof -
    have "(of_int n :: u32) = of_nat (nat n)" using assms(15) by simp
    then show ?thesis using unat_of_nat_u32 [of "nat n"] assms(16) by simp
  qed
  have fb: "file_byte x1 ip = file_byte ?x ip" "mapped x1 ip = mapped ?x ip" by (rule same_view; simp add: I1)+
  obtain x2 where x2: "read_inode (store_run poke) pid ip addr (f_offset f) (of_int n) (x1, u) = Inr (int m, x2,
      \<lambda>x. if unat (x - addr) < m then file_byte ?x ip (unat (f_offset f) + unat (x - addr)) else u x)"
    "view (cache x2) = view (cache ?x)" "inode_table x2 = inode_table x1"
  proof -
    have h: "cache_ok (cache x1)" "\<forall>b. readable (cache x1) b" "\<forall>b. length (view (cache x1) b) = BUFFER_SIZE"
      "i_dev (inode_table x1 ! ip) = ROOTDEV" "f_offset f \<le> i_size (inode_table x1 ! ip)"
      using assms(10-14) by (simp_all add: I1)
    have mp: "mapped x1 ip (unat (f_offset f) + m)" using assms(17) by (simp add: fb(2))
    have "unat (f_offset f) \<le> 274432" using assms(17) by (simp add: mapped_def)
    then have nw: "unat (f_offset f) + unat (of_int n :: u32) < 2 ^ 32" using assms(16) by (simp add: un)
    have m: "m = min (unat (of_int n :: u32)) (unat (i_size (inode_table x1 ! ip)) - unat (f_offset f))"
      by (simp add: assms(18) un I1)
    obtain c where "read_inode (store_run poke) pid ip addr (f_offset f) (of_int n) (x1, u) = Inr (int m, x1\<lparr>cache := c\<rparr>,
        \<lambda>x. if unat (x - addr) < m then file_byte ?x ip (unat (f_offset f) + unat (x - addr)) else u x)" "view c = view (cache ?x)"
      using read_inode_spec [OF h nw m mp, of pid addr u] unfolding fb(1) I1(2) by blast
    then show thesis by (intro that [of "x1\<lparr>cache := c\<rparr>"]) simp_all
  qed
  define s2 where "s2 = s\<lparr>ffs := x2\<rparr>"
  define s3 where "s3 = (if int m > 0 then upd_file fi (\<lambda>f. f\<lparr>f_offset := f_offset f + of_int (int m)\<rparr>) s2 else s2)"
  have s3: "ffs s3 = x2" "f_offset (ftable s3 ! fi) = f_offset f + of_nat m"
    using assms(1,2) by (auto simp: s3_def s2_def upd_file_def)
  have I2: "inode_table x2 ! ip = ?I\<lparr>i_lock := k\<rparr>" using x2(3) I1(1) by simp
  define x3 where "x3 = upd_inode ip (\<lambda>p. p\<lparr>i_lock := release_sleeplock (i_lock p)\<rparr>) x2"
  have unlock: "inode_unlock pid ip x2 = Inr x3"
    using assms(7) by (simp add: inode_unlock_def Let_def I2 k_def is_holding_sleeplock_def x3_def word_less_1)
  have x3: "cache x3 = cache x2" "slocked (i_lock (inode_table x3 ! ip)) = 0"
    using assms(6) x2(3) by (simp_all add: x3_def upd_inode_def release_sleeplock_def x1_def)
  have "read_file \<lparr>u_out = store_run poke, u_in = inp\<rparr> pid killed fi addr n (s, u) = Inr (Ret (int m) (s3\<lparr>ffs := x3\<rparr>,
      \<lambda>x. if unat (x - addr) < m then file_byte ?x ip (unat (f_offset f) + unat (x - addr)) else u x))"
    using assms(3,4) lock x2(1) unlock
    by (simp add: read_file_def Let_def assms(1) [symmetric] assms(5) [symmetric] with_fs_def s2_def s3_def)
  then show ?thesis using s3 x3 x2(2) by (intro exI [of _ "s3\<lparr>ffs := x3\<rparr>"]) simp
qed

subsection \<open>Witnesses\<close>

definition file0 :: kfile where
  "file0 = \<lparr>f_type = FD_NONE, f_ref = 0, f_readable = False, f_writable = False, f_pipe = 0, f_inode = 0,
     f_offset = 0, f_major_dev_num = 0\<rparr>"

definition files0 :: files where
  "files0 = \<lparr>ftable = replicate NUMFILE file0, fpipes = (\<lambda>_. pipe1), ffs = fs_i, fmem = (\<lambda>_. 0), fcon = con1\<rparr>"

theorem file_refs_count_handles_witness:
  "\<exists>s. fstep\<^sup>*\<^sup>* (files0, {#}) (s, {#0, 0#}) \<and> f_ref (ftable s ! 0) = 2"
proof -
  let ?s1 = "upd_file 0 (\<lambda>x. x\<lparr>f_ref := 1\<rparr>) files0"
  let ?s2 = "upd_file 0 (\<lambda>x. x\<lparr>f_ref := f_ref x + 1\<rparr>) ?s1"
  have t0: "ftable files0 = file0 # replicate 99 file0"
    using replicate_Suc [of 99 file0] by (simp add: files0_def)
  have "file_alloc files0 = (Some 0, ?s1)" by (simp add: file_alloc_def t0 file0_def)
  then have "fstep (files0, {#}) (?s1, {#0#})" by (rule fs_alloc)
  moreover have "file_dup 0 ?s1 = Inr (0, ?s2)" by (simp add: file_dup_def) (simp add: upd_file_def t0)
  then have "fstep (?s1, {#0#}) (?s2, {#0, 0#})" by (intro fs_dup) simp_all
  ultimately have star: "fstep\<^sup>*\<^sup>* (files0, {#}) (?s2, {#0, 0#})"
    by (blast intro: converse_rtranclp_into_rtranclp)
  have "f_ref (ftable ?s2 ! 0) = 2"
    using file_refs_count_handles [OF _ _ star] by (simp add: files0_def file0_def)
  with star show ?thesis by blast
qed

definition files1 :: files where
  "files1 = files0\<lparr>ftable := (replicate NUMFILE file0)[3 := file0\<lparr>f_type := FD_INODE, f_ref := 1,
     f_readable := True, f_inode := 0, f_offset := 1020\<rparr>]\<rparr>"

theorem read_file_delivers_witness:
  "\<exists>s' m. read_file \<lparr>u_out = store_run poke, u_in = (\<lambda>a n u. ([], False))\<rparr> 7 False 3 0x100 8 (files1, \<lambda>x. 0)
     = Inr (Ret 8 (s', m)) \<and> m 0x104 = 56 \<and> f_offset (ftable s' ! 3) = 1028"
proof -
  define f where "f = file0\<lparr>f_type := FD_INODE, f_ref := 1, f_readable := True, f_inode := 0, f_offset := 1020\<rparr>"
  have F: "f = ftable files1 ! 3" "3 < length (ftable files1)" "f_readable f" "f_type f = FD_INODE" "0 = f_inode f"
    "f_offset f = 1020"
    by (simp_all add: f_def files1_def)
  have x: "ffs files1 = fs_i" by (simp add: files1_def files0_def)
  have I: "inode_table fs_i ! 0 = inode1" "0 < length (inode_table fs_i)" by (simp_all add: fs_i_fields(2))
  have P: "i_refcount inode1 \<noteq> 0" "slocked (i_lock inode1) = 0" "i_valid inode1 \<noteq> 0" "i_dev inode1 = ROOTDEV"
    "i_size inode1 = 2000"
    by (simp_all add: inode1_def inode0_def initsleeplock_def)
  have rd: "cache_ok (cache fs_i)" "\<forall>b. readable (cache fs_i) b" "\<forall>b. length (view (cache fs_i) b) = BUFFER_SIZE"
    using cache0_readable cache0_ok by (simp_all add: fs_i_fields(1)) (simp add: fs_i_fields(3) [unfolded fs_i_fields(1)])
  have mp: "mapped fs_i 0 (unat (f_offset f) + 8)" using fs_i_mapped by (simp add: F(6))
  have sz: "f_offset f \<le> i_size inode1" "8 = min (nat 8) (unat (i_size inode1) - unat (f_offset f))"
    by (simp_all add: F(6) P(5))
  have fb: "file_byte fs_i 0 1024 = 56"
    by (simp only: file_byte_def fs_i_fields(3)) (simp add: block_addr_def fs_i_fields(2) inode1_def)
  from read_file_delivers [where fi = 3 and s = files1 and ip = 0 and n = 8 and m = 8 and pid = 7 and killed = False
      and addr = "0x100" and u = "\<lambda>x. 0" and inp = "\<lambda>a n u. ([], False)", unfolded x I(1),
      OF F(1-5) I(2) P(1-3) rd P(4) sz(1) _ _ mp sz(2)]
  obtain s' where "read_file \<lparr>u_out = store_run poke, u_in = (\<lambda>a n u. ([], False))\<rparr> 7 False 3 0x100 8 (files1, \<lambda>x. 0)
     = Inr (Ret (int 8) (s', \<lambda>x. if unat (x - 0x100) < 8 then file_byte fs_i 0 (unat (f_offset f) + unat (x - 0x100)) else 0))"
    "f_offset (ftable s' ! 3) = f_offset f + of_nat 8" by auto
  then show ?thesis using fb by (auto simp: F(6))
qed

end
