(* ===== verification/Process.thy ===== *)
theory Process
  imports Paging File Locks
begin

text \<open>
  \<^verbatim>\<open>kernel/process.c\<close>: the process table, creation and end of processes, sleeping and waking, and
  the scheduler. A \<^verbatim>\<open>struct process *\<close> is an index of the table, the lock of process \<open>i\<close> is the
  spin lock \<open>i\<close> of the machine of theory \<open>Locks\<close>, and the two global locks follow them.
  Memory, open files and the file system are the state of theory \<open>File\<close>, so that \<^verbatim>\<open>fork\<close>,
  \<^verbatim>\<open>exit\<close> and \<^verbatim>\<open>wait\<close> run the page table, file and inode operations themselves. The first argument
  of an operation is the hart that runs it; linker symbols and the address of the table are
  fields of \<open>image\<close>.

  The context switch \<^verbatim>\<open>transfer\<close> is assembly. A routine that calls it is cut there: the part up
  to the switch (\<open>_enter\<close>) hands over the local \<^verbatim>\<open>intr_prev_state\<close> that its stack keeps, and the part
  behind it (\<open>_resume\<close>) gets it back, on whichever hart runs the process then.

  The lemmas are about what an operation may change. A hart that runs one stays within its
  \<open>frame\<close>: it leaves other harts, the locks they hold and the processes behind those locks alone.
\<close>

abbreviation "MAXPROC \<equiv> 64 :: nat"
abbreviation "NUMOFILES \<equiv> 16 :: nat"
abbreviation "PIDLOCK \<equiv> 64 :: nat"
abbreviation "WAITLOCK \<equiv> 65 :: nat"

section \<open>State\<close>

datatype proc_state = UNUSED | USED | SLEEPING | RUNNABLE | RUNNING | ZOMBIE

text \<open>The addresses processes sleep on: none, a process, a buffer, or another object of the kernel.\<close>

datatype chan = NoChan | ProcChan nat | BufChan nat | ObjChan string

record ctxt =
  c_ra :: u32
  c_sp :: u32
  c_saved :: "u32 list"

record process =
  p_state :: proc_state
  p_chan :: chan
  p_killed :: int
  p_exit_state :: int
  p_pid :: int
  p_parent :: "nat option"
  p_kernel_stack :: u32
  p_mem_size :: u32
  p_pagetable :: u32
  p_trapframe :: u32
  p_context :: ctxt
  p_openfile :: "nat option list"
  p_cwd :: "nat option"
  p_name :: "byte list"

record kernel =
  procs :: "process list"
  nextpid :: int
  initproc :: "nat option"
  mach :: machine
  cur :: "nat \<Rightarrow> nat option"
  first :: bool
  kfiles :: files

record image =
  im_mem_end :: u32
  im_uvec :: u32
  im_forkret :: u32
  im_ptable :: u32
  im_initcode :: u32
  im_past :: byte

definition upd_proc :: "nat \<Rightarrow> (process \<Rightarrow> process) \<Rightarrow> kernel \<Rightarrow> kernel" where
  "upd_proc i f k = k\<lparr>procs := (procs k)[i := f (procs k ! i)]\<rparr>"

definition acq :: "nat \<Rightarrow> nat \<Rightarrow> kernel \<Rightarrow> kernel res" where
  "acq h l k = rbind (acquire_lock h l (mach k)) (\<lambda>m. Inr (k\<lparr>mach := m\<rparr>))"

definition rel :: "nat \<Rightarrow> nat \<Rightarrow> kernel \<Rightarrow> kernel res" where
  "rel h l k = rbind (release_lock h l (mach k)) (\<lambda>m. Inr (k\<lparr>mach := m\<rparr>))"

text \<open>Operations of the other components on their part of the state.\<close>

definition on_files :: "(files \<Rightarrow> files res) \<Rightarrow> kernel \<Rightarrow> kernel res" where
  "on_files op k = rbind (op (kfiles k)) (\<lambda>s. Inr (k\<lparr>kfiles := s\<rparr>))"

definition on_fs :: "(fs \<Rightarrow> ('a \<times> fs) res) \<Rightarrow> kernel \<Rightarrow> ('a \<times> kernel) res" where
  "on_fs op k = rbind (op (ffs (kfiles k))) (\<lambda>(r, x). Inr (r, k\<lparr>kfiles := (kfiles k)\<lparr>ffs := x\<rparr>\<rparr>))"

definition pmem :: "kernel \<Rightarrow> mem" where
  "pmem k = fmem (kfiles k)"

definition set_mem :: "mem \<Rightarrow> kernel \<Rightarrow> kernel" where
  "set_mem m k = k\<lparr>kfiles := (kfiles k)\<lparr>fmem := m\<rparr>\<rparr>"

definition on_mem :: "(mem \<Rightarrow> ('a \<times> mem) res) \<Rightarrow> kernel \<Rightarrow> ('a \<times> kernel) res" where
  "on_mem op k = rbind (op (pmem k)) (\<lambda>(r, m). Inr (r, set_mem m k))"

definition do_mem :: "(mem \<Rightarrow> mem res) \<Rightarrow> kernel \<Rightarrow> kernel res" where
  "do_mem op k = rbind (op (pmem k)) (\<lambda>m. Inr (set_mem m k))"

section \<open>The current process\<close>

definition get_process_struct :: "nat \<Rightarrow> kernel \<Rightarrow> (nat option \<times> kernel) res" where
  "get_process_struct h k =
     rbind (pop_off h (push_off h (mach k))) (\<lambda>m. Inr (cur k h, k\<lparr>mach := m\<rparr>))"

text \<open>\<^verbatim>\<open>get_process_struct()->...\<close>: with no process the pointer is null.\<close>

definition myproc :: "nat \<Rightarrow> kernel \<Rightarrow> (nat \<times> kernel) res" where
  "myproc h k =
     rbind (get_process_struct h k) (\<lambda>(p, k).
       case p of None \<Rightarrow> Inl (Fault ''no process'') | Some i \<Rightarrow> Inr (i, k))"

section \<open>Sleeping, waking and the scheduler\<close>

fun wakeup_loop :: "nat \<Rightarrow> chan \<Rightarrow> nat list \<Rightarrow> kernel \<Rightarrow> kernel res" where
  "wakeup_loop h ch [] k = Inr k"
| "wakeup_loop h ch (i # is) k =
     rbind (get_process_struct h k) (\<lambda>(c, k).
       if c \<noteq> Some i then
         rbind (acq h i k) (\<lambda>k.
           let k = (if p_state (procs k ! i) = SLEEPING \<and> p_chan (procs k ! i) = ch
                    then upd_proc i (\<lambda>p. p\<lparr>p_state := RUNNABLE\<rparr>) k else k)
           in rbind (rel h i k) (wakeup_loop h ch is))
       else wakeup_loop h ch is k)"

definition wakeup :: "nat \<Rightarrow> chan \<Rightarrow> kernel \<Rightarrow> kernel res" where
  "wakeup h ch = wakeup_loop h ch [0..<MAXPROC]"

definition scheduler_enter :: "nat \<Rightarrow> kernel \<Rightarrow> (bool \<times> kernel) res" where
  "scheduler_enter h k =
     rbind (myproc h k) (\<lambda>(i, k).
     rbind (is_holding h i (mach k)) (\<lambda>(r, m).
       let k = k\<lparr>mach := m\<rparr>; c = cpus m h in
       if \<not> r then Inl (Panic ''scheduler, is_holding'')
       else if depth_lock_intr_disable c \<noteq> 1 then Inl (Panic ''scheduler, depth_lock_intr_disable'')
       else if p_state (procs k ! i) = RUNNING then Inl (Panic ''scheduler, running process'')
       else if sie c then Inl (Panic ''scheduler, interrupts'')
       else Inr (intr_prev_state c, k)))"

definition scheduler_resume :: "nat \<Rightarrow> bool \<Rightarrow> kernel \<Rightarrow> kernel" where
  "scheduler_resume h b k = k\<lparr>mach := set_cpu h ((cpus (mach k) h)\<lparr>intr_prev_state := b\<rparr>) (mach k)\<rparr>"

definition yield_enter :: "nat \<Rightarrow> kernel \<Rightarrow> (bool \<times> kernel) res" where
  "yield_enter h k =
     rbind (myproc h k) (\<lambda>(i, k).
     rbind (acq h i k) (\<lambda>k.
       scheduler_enter h (upd_proc i (\<lambda>p. p\<lparr>p_state := RUNNABLE\<rparr>) k)))"

definition yield_resume :: "nat \<Rightarrow> nat \<Rightarrow> bool \<Rightarrow> kernel \<Rightarrow> kernel res" where
  "yield_resume h i b k = rel h i (scheduler_resume h b k)"

definition sleep_enter :: "nat \<Rightarrow> chan \<Rightarrow> nat \<Rightarrow> kernel \<Rightarrow> (bool \<times> kernel) res" where
  "sleep_enter h ch lock k =
     rbind (myproc h k) (\<lambda>(i, k).
     rbind (acq h i k) (\<lambda>k.
     rbind (rel h lock k) (\<lambda>k.
       scheduler_enter h (upd_proc i (\<lambda>p. p\<lparr>p_chan := ch, p_state := SLEEPING\<rparr>) k))))"

definition sleep_wake :: "nat \<Rightarrow> nat \<Rightarrow> bool \<Rightarrow> kernel \<Rightarrow> kernel res" where
  "sleep_wake h i b k = rel h i (upd_proc i (\<lambda>p. p\<lparr>p_chan := NoChan\<rparr>) (scheduler_resume h b k))"

definition sleep_resume :: "nat \<Rightarrow> nat \<Rightarrow> bool \<Rightarrow> nat \<Rightarrow> kernel \<Rightarrow> kernel res" where
  "sleep_resume h i b lock k = rbind (sleep_wake h i b k) (acq h lock)"

text \<open>\<^verbatim>\<open>cpu_scheduler\<close>: the start of a round, the visit of one process, which either switches to it
  or leaves it, and what follows when the process switches back.\<close>

definition sched_start :: "nat \<Rightarrow> kernel \<Rightarrow> kernel" where
  "sched_start h k = k\<lparr>cur := (cur k)(h := None)\<rparr>"

definition sched_round :: "nat \<Rightarrow> kernel \<Rightarrow> kernel" where
  "sched_round h k = k\<lparr>mach := set_cpu h ((cpus (mach k) h)\<lparr>sie := True\<rparr>) (mach k)\<rparr>"

definition sched_visit :: "nat \<Rightarrow> nat \<Rightarrow> kernel \<Rightarrow> (bool \<times> kernel) res" where
  "sched_visit h i k =
     rbind (acq h i k) (\<lambda>k.
       if p_state (procs k ! i) = RUNNABLE then
         let k = upd_proc i (\<lambda>p. p\<lparr>p_state := RUNNING\<rparr>) k
         in Inr (True, k\<lparr>cur := (cur k)(h := Some i)\<rparr>)
       else rbind (rel h i k) (\<lambda>k. Inr (False, k)))"

definition sched_back :: "nat \<Rightarrow> nat \<Rightarrow> kernel \<Rightarrow> kernel res" where
  "sched_back h i k = rel h i (k\<lparr>cur := (cur k)(h := None)\<rparr>)"

fun kill_loop :: "nat \<Rightarrow> int \<Rightarrow> nat list \<Rightarrow> kernel \<Rightarrow> (int \<times> kernel) res" where
  "kill_loop h pid [] k = Inr (- 1, k)"
| "kill_loop h pid (i # is) k =
     rbind (acq h i k) (\<lambda>k.
       if p_pid (procs k ! i) = pid then
         let k = upd_proc i (\<lambda>p. p\<lparr>p_killed := 1\<rparr>) k;
             k = (if p_state (procs k ! i) = SLEEPING then upd_proc i (\<lambda>p. p\<lparr>p_state := RUNNABLE\<rparr>) k else k)
         in rbind (rel h i k) (\<lambda>k. Inr (0, k))
       else rbind (rel h i k) (kill_loop h pid is))"

definition kill :: "nat \<Rightarrow> int \<Rightarrow> kernel \<Rightarrow> (int \<times> kernel) res" where
  "kill h pid = kill_loop h pid [0..<MAXPROC]"

section \<open>Creating and freeing processes\<close>

fun process_init_loop :: "image \<Rightarrow> u32 \<Rightarrow> nat list \<Rightarrow> kernel \<Rightarrow> kernel res" where
  "process_init_loop im kpt [] k = Inr k"
| "process_init_loop im kpt (i # is) k =
     (let k = k\<lparr>mach := set_spin i (initlock ''proc'') (mach k)\<rparr> in
      rbind (on_mem (kalloc (im_mem_end im)) k) (\<lambda>(pa, k).
        if pa = 0 then Inl (Panic ''map_kstack, phy_addr = 0, error with kalloc'')
        else
          let va = USERVEC - of_nat (i + 1) * 2 * PGESIZE in
          rbind (do_mem (kmap (im_mem_end im) kpt va pa PGESIZE (PTE_R OR PTE_W)) k) (\<lambda>k.
            process_init_loop im kpt is (upd_proc i (\<lambda>p. p\<lparr>p_kernel_stack := va\<rparr>) k))))"

definition process_init :: "image \<Rightarrow> u32 \<Rightarrow> kernel \<Rightarrow> kernel res" where
  "process_init im kpt k =
     process_init_loop im kpt [0..<MAXPROC] (k\<lparr>mach := set_spin PIDLOCK (initlock ''pid_lock'') (mach k)\<rparr>)"

definition alloc_pid :: "nat \<Rightarrow> kernel \<Rightarrow> (int \<times> kernel) res" where
  "alloc_pid h k =
     rbind (acq h PIDLOCK k) (\<lambda>k.
       let pid = nextpid k; k = k\<lparr>nextpid := nextpid k + 1\<rparr>
       in rbind (rel h PIDLOCK k) (\<lambda>k. Inr (pid, k)))"

definition proc_pagetable :: "image \<Rightarrow> u32 \<Rightarrow> mem \<Rightarrow> (u32 \<times> mem) res" where
  "proc_pagetable im tf m =
     (let e = im_mem_end im in
      rbind (upaging_create e m) (\<lambda>(pt, m).
        if pt = 0 then Inr (0, m)
        else rbind (map_pages e pt USERVEC (im_uvec im) PGESIZE (PTE_R OR PTE_X) m) (\<lambda>(r, m).
          if r < 0 then rbind (uvmfree e pt 0 m) (\<lambda>m. Inr (0, m))
          else rbind (map_pages e pt TRAPFRAME tf PGESIZE (PTE_R OR PTE_W) m) (\<lambda>(r, m).
            if r < 0 then
              rbind (uvmunmap e pt USERVEC 1 False m) (\<lambda>m. rbind (uvmfree e pt 0 m) (\<lambda>m. Inr (0, m)))
            else Inr (pt, m)))))"

definition proc_freepagetable :: "image \<Rightarrow> u32 \<Rightarrow> u32 \<Rightarrow> mem \<Rightarrow> mem res" where
  "proc_freepagetable im pt sz m =
     (let e = im_mem_end im in
      rbind (uvmunmap e pt USERVEC 1 False m) (\<lambda>m.
      rbind (uvmunmap e pt TRAPFRAME 1 False m) (\<lambda>m.
        if 0 < sz then uvmfree e pt sz m else Inr m)))"

definition freeproc :: "image \<Rightarrow> nat \<Rightarrow> kernel \<Rightarrow> kernel res" where
  "freeproc im i k =
     (let p = procs k ! i;
          k = (if p_trapframe p \<noteq> 0 then set_mem (kfree (im_mem_end im) (p_trapframe p) (pmem k)) k else k);
          k = upd_proc i (\<lambda>p. p\<lparr>p_trapframe := 0\<rparr>) k in
      rbind (if p_pagetable p \<noteq> 0 then do_mem (proc_freepagetable im (p_pagetable p) (p_mem_size p)) k else Inr k) (\<lambda>k.
        Inr (upd_proc i (\<lambda>p. p\<lparr>p_state := UNUSED, p_chan := NoChan, p_killed := 0, p_exit_state := 0, p_pid := 0,
          p_parent := None, p_mem_size := 0, p_pagetable := 0, p_name := (p_name p)[0 := 0]\<rparr>) k)))"

text \<open>The scan of \<^verbatim>\<open>alloc_process\<close> for a free slot; it returns with the lock of the slot held.\<close>

fun alloc_scan :: "nat \<Rightarrow> nat list \<Rightarrow> kernel \<Rightarrow> (nat option \<times> kernel) res" where
  "alloc_scan h [] k = Inr (None, k)"
| "alloc_scan h (i # is) k =
     rbind (acq h i k) (\<lambda>k.
       if p_state (procs k ! i) = UNUSED then Inr (Some i, k)
       else rbind (rel h i k) (alloc_scan h is))"

definition alloc_process :: "image \<Rightarrow> nat \<Rightarrow> kernel \<Rightarrow> (nat option \<times> kernel) res" where
  "alloc_process im h k =
     rbind (alloc_scan h [0..<MAXPROC] k) (\<lambda>(r, k).
       case r of
         None \<Rightarrow> Inr (None, k)
       | Some i \<Rightarrow>
           rbind (alloc_pid h k) (\<lambda>(pid, k).
             let k = upd_proc i (\<lambda>p. p\<lparr>p_pid := pid\<rparr>) k in
             rbind (on_mem (kalloc (im_mem_end im)) k) (\<lambda>(tf, k).
               let k = upd_proc i (\<lambda>p. p\<lparr>p_trapframe := tf\<rparr>) k in
               if tf = 0 then rbind (rel h i k) (\<lambda>k. Inr (None, k))
               else rbind (on_mem (proc_pagetable im tf) k) (\<lambda>(pt, k).
                 let k = upd_proc i (\<lambda>p. p\<lparr>p_pagetable := pt\<rparr>) k in
                 if pt = 0 then rbind (freeproc im i k) (\<lambda>k. rbind (rel h i k) (\<lambda>k. Inr (None, k)))
                 else
                   let k = upd_proc i (\<lambda>p. p\<lparr>p_context := \<lparr>c_ra = im_forkret im,
                         c_sp = p_kernel_stack p + PGESIZE, c_saved = replicate 12 0\<rparr>\<rparr>) k
                   in Inr (Some i, k)))))"

definition initcode_size :: u32 where
  "initcode_size = 89"

definition init_user :: "image \<Rightarrow> nat \<Rightarrow> kernel \<Rightarrow> kernel res" where
  "init_user im h k =
     rbind (alloc_process im h k) (\<lambda>(r, k).
       case r of
         None \<Rightarrow> Inl (Fault ''no process'')
       | Some i \<Rightarrow>
           let k = k\<lparr>initproc := Some i\<rparr> in
           rbind (do_mem (upaging_init (im_mem_end im) (p_pagetable (procs k ! i)) (im_initcode im) initcode_size) k) (\<lambda>k.
             let k = upd_proc i (\<lambda>p. p\<lparr>p_mem_size := PGESIZE\<rparr>) k;
                 tf = p_trapframe (procs k ! i);
                 k = set_mem (store32 (store32 (pmem k) (tf + 12) 0) (tf + 4) PGESIZE) k;
                 k = upd_proc i (\<lambda>p. p\<lparr>p_name := strcpy_l (p_name p) (map of_char ''initcode'') 16\<rparr>) k
             in rbind (on_fs (name_inode False (im_past im) (replicate 16 0) (replicate 15 0) 0 0 [SLASH]) k) (\<lambda>(ip, k).
                  rel h i (upd_proc i (\<lambda>p. p\<lparr>p_cwd := ip, p_state := RUNNABLE\<rparr>) k))))"

definition growproc :: "image \<Rightarrow> nat \<Rightarrow> int \<Rightarrow> kernel \<Rightarrow> (int \<times> kernel) res" where
  "growproc im h n k =
     rbind (myproc h k) (\<lambda>(i, k).
       let sz = p_mem_size (procs k ! i); pt = p_pagetable (procs k ! i) in
       if n > 0 then
         rbind (on_mem (uvmalloc (im_mem_end im) pt sz (sz + of_int n)) k) (\<lambda>(sz, k).
           if sz = 0 then Inr (- 1, k)
           else Inr (0, upd_proc i (\<lambda>p. p\<lparr>p_mem_size := sz\<rparr>) k))
       else if n < 0 then
         rbind (on_mem (uvmdealloc (im_mem_end im) pt sz (sz + of_int n)) k) (\<lambda>(sz, k).
           Inr (0, upd_proc i (\<lambda>p. p\<lparr>p_mem_size := sz\<rparr>) k))
       else Inr (0, upd_proc i (\<lambda>p. p\<lparr>p_mem_size := sz\<rparr>) k))"

section \<open>fork\<close>

abbreviation "TRAPFRAME_SIZE \<equiv> 144 :: nat"

definition copy_trapframe :: "u32 \<Rightarrow> u32 \<Rightarrow> mem \<Rightarrow> mem" where
  "copy_trapframe dst src m = (\<lambda>x. if in_range x dst TRAPFRAME_SIZE then m (src + (x - dst)) else m x)"

fun fork_files :: "nat \<Rightarrow> nat \<Rightarrow> nat list \<Rightarrow> kernel \<Rightarrow> kernel res" where
  "fork_files p np [] k = Inr k"
| "fork_files p np (fd # fds) k =
     (case p_openfile (procs k ! p) ! fd of
        None \<Rightarrow> fork_files p np fds k
      | Some f \<Rightarrow>
          rbind (file_dup f (kfiles k)) (\<lambda>(f, s).
            fork_files p np fds (upd_proc np (\<lambda>x. x\<lparr>p_openfile := (p_openfile x)[fd := Some f]\<rparr>) (k\<lparr>kfiles := s\<rparr>))))"

text \<open>\<^verbatim>\<open>fork\<close> in the three parts between which it holds no lock: the child is made and copied, its
  parent is recorded, and it is made runnable.\<close>

definition fork_child :: "image \<Rightarrow> nat \<Rightarrow> nat \<Rightarrow> nat \<Rightarrow> kernel \<Rightarrow> kernel res" where
  "fork_child im h p np k =
     (let k = upd_proc np (\<lambda>x. x\<lparr>p_mem_size := p_mem_size (procs k ! p)\<rparr>) k;
          tf = p_trapframe (procs k ! np);
          k = set_mem (store32 (copy_trapframe tf (p_trapframe (procs k ! p)) (pmem k)) (tf + 56) 0) k in
      rbind (fork_files p np [0..<NUMOFILES] k) (\<lambda>k.
        case p_cwd (procs k ! p) of
          None \<Rightarrow> Inl (Fault ''no cwd'')
        | Some ip \<Rightarrow>
            let k = k\<lparr>kfiles := (kfiles k)\<lparr>ffs := inode_dup ip (ffs (kfiles k))\<rparr>\<rparr>;
                k = upd_proc np (\<lambda>x. x\<lparr>p_cwd := Some ip, p_name := strcpy_l (p_name x) (p_name (procs k ! p)) 16\<rparr>) k
            in rel h np k))"

definition fork_prepare :: "image \<Rightarrow> nat \<Rightarrow> nat \<Rightarrow> kernel \<Rightarrow> (nat option \<times> kernel) res" where
  "fork_prepare im h p k =
     rbind (alloc_process im h k) (\<lambda>(r, k).
       case r of
         None \<Rightarrow> Inr (None, k)
       | Some np \<Rightarrow>
           rbind (on_mem (uvmcopy (im_mem_end im) (p_pagetable (procs k ! p)) (p_pagetable (procs k ! np))
               (p_mem_size (procs k ! p))) k) (\<lambda>(r, k).
             if r < 0 then rbind (freeproc im np k) (\<lambda>k. rbind (rel h np k) (\<lambda>k. Inr (None, k)))
             else rbind (fork_child im h p np k) (\<lambda>k. Inr (Some np, k))))"

definition fork_parent :: "nat \<Rightarrow> nat \<Rightarrow> nat \<Rightarrow> kernel \<Rightarrow> kernel res" where
  "fork_parent h p np k =
     rbind (acq h WAITLOCK k) (\<lambda>k. rel h WAITLOCK (upd_proc np (\<lambda>x. x\<lparr>p_parent := Some p\<rparr>) k))"

definition fork_publish :: "nat \<Rightarrow> nat \<Rightarrow> kernel \<Rightarrow> kernel res" where
  "fork_publish h np k =
     rbind (acq h np k) (\<lambda>k. rel h np (upd_proc np (\<lambda>x. x\<lparr>p_state := RUNNABLE\<rparr>) k))"

definition fork :: "image \<Rightarrow> nat \<Rightarrow> kernel \<Rightarrow> (int \<times> kernel) res" where
  "fork im h k =
     rbind (myproc h k) (\<lambda>(p, k).
     rbind (fork_prepare im h p k) (\<lambda>(r, k).
       case r of
         None \<Rightarrow> Inr (- 1, k)
       | Some np \<Rightarrow>
           let pid = p_pid (procs k ! np) in
           rbind (fork_parent h p np k) (\<lambda>k.
           rbind (fork_publish h np k) (\<lambda>k. Inr (pid, k)))))"

text \<open>\<^verbatim>\<open>forkret\<close> up to the return to user mode, \<^verbatim>\<open>utrapret\<close>.\<close>

definition forkret :: "nat \<Rightarrow> nat \<Rightarrow> kernel \<Rightarrow> kernel res" where
  "forkret h i k =
     rbind (rel h i k) (\<lambda>k.
       if first k then
         rbind (on_fs (\<lambda>s. rbind (filesys_init (p_pid (procs k ! i)) ROOTDEV s) (\<lambda>s. Inr ((), s))) (k\<lparr>first := False\<rparr>))
           (\<lambda>(_, k). Inr k)
       else Inr k)"

section \<open>wait\<close>

text \<open>The scan of \<^verbatim>\<open>wait\<close> starts at the entry of the caller, since the local \<^verbatim>\<open>p\<close> hides the table, and
  visits sixty-four entries from there on. The status is copied from its field in the table, which
  lies at \<open>exit_slot\<close> with the process id behind it.\<close>

definition exit_slot :: "image \<Rightarrow> nat \<Rightarrow> u32" where
  "exit_slot im i = im_ptable im + of_nat (192 * i + 24)"

definition copy_status :: "image \<Rightarrow> nat \<Rightarrow> nat \<Rightarrow> u32 \<Rightarrow> kernel \<Rightarrow> (int \<times> kernel) res" where
  "copy_status im c i addrs k =
     (let p = procs k ! i; a = exit_slot im i;
          m = store32 (store32 (pmem k) a (of_int (p_exit_state p))) (a + 4) (of_int (p_pid p))
      in on_mem (copyout (im_mem_end im) (p_pagetable (procs k ! c)) addrs a 4) (set_mem m k))"

fun wait_scan :: "image \<Rightarrow> nat \<Rightarrow> nat \<Rightarrow> u32 \<Rightarrow> bool \<Rightarrow> nat list \<Rightarrow> kernel \<Rightarrow> ((int option \<times> bool) \<times> kernel) res" where
  "wait_scan im h c addrs kids [] k = Inr ((None, kids), k)"
| "wait_scan im h c addrs kids (i # is) k =
     (if length (procs k) \<le> i then Inl (Fault ''process table'')
      else if p_parent (procs k ! i) = Some c then
        rbind (acq h i k) (\<lambda>k.
          if p_state (procs k ! i) = ZOMBIE then
            let pid = p_pid (procs k ! i) in
            rbind (if addrs \<noteq> 0 then copy_status im c i addrs k else Inr (0, k)) (\<lambda>(r, k).
              if r < 0 then rbind (rel h i k) (\<lambda>k. rbind (rel h WAITLOCK k) (\<lambda>k. Inr ((Some (- 1), True), k)))
              else rbind (freeproc im i k) (\<lambda>k. rbind (rel h i k) (\<lambda>k. rbind (rel h WAITLOCK k) (\<lambda>k.
                Inr ((Some pid, True), k)))))
          else rbind (rel h i k) (wait_scan im h c addrs True is))
      else wait_scan im h c addrs kids is k)"

datatype wait_result = Waited int kernel | Waits bool kernel

definition wait_round :: "image \<Rightarrow> nat \<Rightarrow> nat \<Rightarrow> u32 \<Rightarrow> kernel \<Rightarrow> wait_result res" where
  "wait_round im h c addrs k =
     rbind (wait_scan im h c addrs False [c..<c + MAXPROC] k) (\<lambda>((r, kids), k).
       case r of
         Some v \<Rightarrow> Inr (Waited v k)
       | None \<Rightarrow>
           if \<not> kids \<or> p_killed (procs k ! c) \<noteq> 0 then rbind (rel h WAITLOCK k) (\<lambda>k. Inr (Waited (- 1) k))
           else rbind (sleep_enter h (ProcChan c) WAITLOCK k) (\<lambda>(b, k). Inr (Waits b k)))"

definition wait :: "image \<Rightarrow> nat \<Rightarrow> u32 \<Rightarrow> kernel \<Rightarrow> wait_result res" where
  "wait im h addrs k =
     rbind (myproc h k) (\<lambda>(c, k). rbind (acq h WAITLOCK k) (wait_round im h c addrs))"

definition wait_resume :: "image \<Rightarrow> nat \<Rightarrow> nat \<Rightarrow> bool \<Rightarrow> u32 \<Rightarrow> kernel \<Rightarrow> wait_result res" where
  "wait_resume im h c b addrs k = rbind (sleep_resume h c b WAITLOCK k) (wait_round im h c addrs)"

section \<open>exit\<close>

fun reparent_loop :: "nat \<Rightarrow> nat \<Rightarrow> nat list \<Rightarrow> kernel \<Rightarrow> kernel res" where
  "reparent_loop h pp [] k = Inr k"
| "reparent_loop h pp (i # is) k =
     (if p_parent (procs k ! i) = Some pp then
        let k = upd_proc i (\<lambda>p. p\<lparr>p_parent := initproc k\<rparr>) k in
        rbind (wakeup h (case initproc k of None \<Rightarrow> NoChan | Some j \<Rightarrow> ProcChan j) k) (reparent_loop h pp is)
      else reparent_loop h pp is k)"

definition reparent :: "nat \<Rightarrow> nat \<Rightarrow> kernel \<Rightarrow> kernel res" where
  "reparent h pp = reparent_loop h pp [0..<MAXPROC]"

fun exit_files :: "image \<Rightarrow> nat \<Rightarrow> nat list \<Rightarrow> kernel \<Rightarrow> kernel res" where
  "exit_files im i [] k = Inr k"
| "exit_files im i (fd # fds) k =
     (case p_openfile (procs k ! i) ! fd of
        None \<Rightarrow> exit_files im i fds k
      | Some f \<Rightarrow>
          rbind (on_files (file_close (im_mem_end im) (im_past im) (p_pid (procs k ! i)) f) k) (\<lambda>k.
            exit_files im i fds (upd_proc i (\<lambda>p. p\<lparr>p_openfile := (p_openfile p)[fd := None]\<rparr>) k)))"

definition exit_cwd :: "image \<Rightarrow> nat \<Rightarrow> kernel \<Rightarrow> kernel res" where
  "exit_cwd im i k =
     (let pid = p_pid (procs k ! i) in
      case p_cwd (procs k ! i) of
        None \<Rightarrow> Inl (Fault ''no cwd'')
      | Some ip \<Rightarrow>
          rbind (on_files (with_fs begin_op) k) (\<lambda>k.
          rbind (on_files (with_fs (inode_put (im_past im) pid ip)) k) (\<lambda>k.
          rbind (on_files (with_fs (end_op pid)) k) (\<lambda>k.
            Inr (upd_proc i (\<lambda>p. p\<lparr>p_cwd := None\<rparr>) k)))))"

text \<open>The end of \<^verbatim>\<open>exit\<close>, from taking \<^verbatim>\<open>wait_lock\<close> on. The argument of \<^verbatim>\<open>reparent\<close> is the table itself,
  which is the address of entry 0.\<close>

definition exit_switch :: "nat \<Rightarrow> nat \<Rightarrow> int \<Rightarrow> kernel \<Rightarrow> (bool \<times> kernel) res" where
  "exit_switch h i status k =
     rbind (acq h WAITLOCK k) (\<lambda>k.
     rbind (reparent h 0 k) (\<lambda>k.
     rbind (wakeup h (case p_parent (procs k ! i) of None \<Rightarrow> NoChan | Some j \<Rightarrow> ProcChan j) k) (\<lambda>k.
     rbind (acq h i k) (\<lambda>k.
       let k = upd_proc i (\<lambda>p. p\<lparr>p_exit_state := status, p_state := ZOMBIE\<rparr>) k
       in rbind (rel h WAITLOCK k) (scheduler_enter h)))))"

definition exit :: "image \<Rightarrow> nat \<Rightarrow> int \<Rightarrow> kernel \<Rightarrow> (bool \<times> kernel) res" where
  "exit im h status k =
     rbind (myproc h k) (\<lambda>(i, k).
       if initproc k = Some i then Inl (Panic ''init exiting'')
       else rbind (exit_files im i [0..<NUMOFILES] k) (\<lambda>k.
         rbind (exit_cwd im i k) (exit_switch h i status)))"

section \<open>Copying and listing\<close>

definition either_copyin :: "image \<Rightarrow> nat \<Rightarrow> u32 \<Rightarrow> bool \<Rightarrow> u32 \<Rightarrow> u32 \<Rightarrow> kernel \<Rightarrow> (int \<times> kernel) res" where
  "either_copyin im h dst user_src src len k =
     rbind (get_process_struct h k) (\<lambda>(c, k).
       if user_src then
         (case c of None \<Rightarrow> Inl (Fault ''no process'')
          | Some i \<Rightarrow> on_mem (copyto (im_mem_end im) (p_pagetable (procs k ! i)) dst src len) k)
       else rbind (do_mem (\<lambda>m. kmemmove m dst src len) k) (\<lambda>k. Inr (0, k)))"

definition either_copyout :: "image \<Rightarrow> nat \<Rightarrow> bool \<Rightarrow> u32 \<Rightarrow> u32 \<Rightarrow> u32 \<Rightarrow> kernel \<Rightarrow> (int \<times> kernel) res" where
  "either_copyout im h user_dst dst src len k =
     rbind (get_process_struct h k) (\<lambda>(c, k).
       if user_dst then
         (case c of None \<Rightarrow> Inl (Fault ''no process'')
          | Some i \<Rightarrow> on_mem (copyout (im_mem_end im) (p_pagetable (procs k ! i)) dst src len) k)
       else rbind (do_mem (\<lambda>m. kmemmove m dst src len) k) (\<lambda>k. Inr (0, k)))"

text \<open>The lines \<^verbatim>\<open>procdump\<close> prints: process id, the string for the state, the name. The table of strings
  has none for \<^term>\<open>USED\<close>, and it is indexed with the state of entry 0.\<close>

definition state_string :: "proc_state \<Rightarrow> string option" where
  "state_string st =
     (case st of UNUSED \<Rightarrow> Some ''unused'' | USED \<Rightarrow> None | SLEEPING \<Rightarrow> Some ''sleep ''
      | RUNNABLE \<Rightarrow> Some ''runble'' | RUNNING \<Rightarrow> Some ''running   '' | ZOMBIE \<Rightarrow> Some ''zombie'')"

definition procdump :: "kernel \<Rightarrow> (int \<times> string option \<times> byte list) list" where
  "procdump k =
     map (\<lambda>p. (p_pid p,
         if state_string (p_state p) \<noteq> None then state_string (p_state (procs k ! 0)) else Some ''???'', p_name p))
       (filter (\<lambda>p. p_state p \<noteq> UNUSED) (procs k))"

section \<open>What a hart may change\<close>

text \<open>A hart holds a lock when the lock is taken in its name. The frame of a hart \<open>h\<close>: whatever it
  does, it leaves the other harts, the locks they hold and the state of the processes whose lock
  they hold alone, and it takes no process outside \<open>X\<close> out of \<^term>\<open>RUNNING\<close>.\<close>

definition holds :: "kernel \<Rightarrow> nat \<Rightarrow> nat \<Rightarrow> bool" where
  "holds k h l \<longleftrightarrow> locked (spin (mach k) l) \<noteq> 0 \<and> lcpu (spin (mach k) l) = Some h"

abbreviation "hart k h \<equiv> cpus (mach k) h"
abbreviation "depth k h \<equiv> depth_lock_intr_disable (cpus (mach k) h)"
abbreviation "pst k i \<equiv> p_state (procs k ! i)"

definition frame :: "nat \<Rightarrow> nat set \<Rightarrow> kernel \<Rightarrow> kernel \<Rightarrow> bool" where
  "frame h X k k' \<longleftrightarrow> cpu_ok (hart k' h) \<and> cur k' = cur k \<and> length (procs k') = length (procs k)
     \<and> (\<forall>g l. g \<noteq> h \<longrightarrow> hart k' g = hart k g \<and> (holds k g l \<longrightarrow> holds k' g l))
     \<and> (\<forall>g i. g \<noteq> h \<longrightarrow> holds k g i \<longrightarrow> pst k' i = pst k i)
     \<and> (\<forall>i. i \<notin> X \<longrightarrow> pst k i = RUNNING \<longrightarrow> pst k' i = RUNNING)"

lemma frame_refl: "cpu_ok (hart k h) \<Longrightarrow> frame h X k k"
  by (simp add: frame_def)

lemma frame_trans: "frame h X k k' \<Longrightarrow> frame h X k' k'' \<Longrightarrow> frame h X k k''"
  by (simp add: frame_def)

lemma frame_mono: "frame h X k k' \<Longrightarrow> X \<subseteq> Y \<Longrightarrow> frame h Y k k'"
  by (auto simp: frame_def)

lemma frame_ok: "frame h X k k' \<Longrightarrow> cpu_ok (hart k' h)"
  by (simp add: frame_def)

lemma frame_cur: "frame h X k k' \<Longrightarrow> cur k' = cur k"
  by (simp add: frame_def)

lemma frame_length: "frame h X k k' \<Longrightarrow> length (procs k') = length (procs k)"
  by (simp add: frame_def)

text \<open>Steps that do not touch locks, harts or the state of a process.\<close>

definition quiet :: "kernel \<Rightarrow> kernel \<Rightarrow> bool" where
  "quiet k k' \<longleftrightarrow> mach k' = mach k \<and> cur k' = cur k \<and> length (procs k') = length (procs k) \<and> (\<forall>i. pst k' i = pst k i)"

lemma quiet_refl [simp]: "quiet k k"
  by (simp add: quiet_def)

lemma quiet_trans: "quiet k k' \<Longrightarrow> quiet k' k'' \<Longrightarrow> quiet k k''"
  by (simp add: quiet_def)

lemma quiet_frame: "quiet k k' \<Longrightarrow> cpu_ok (hart k h) \<Longrightarrow> frame h X k k'"
  by (simp add: quiet_def frame_def holds_def)

lemma quietD:
  assumes "quiet k k'"
  shows "mach k' = mach k" "cur k' = cur k" "length (procs k') = length (procs k)" "holds k' = holds k"
    "pst k' i = pst k i"
  using assms by (auto simp: quiet_def holds_def fun_eq_iff)

lemma upd_proc_fields [simp]:
  "mach (upd_proc i f k) = mach k" "cur (upd_proc i f k) = cur k" "length (procs (upd_proc i f k)) = length (procs k)"
  "nextpid (upd_proc i f k) = nextpid k" "kfiles (upd_proc i f k) = kfiles k" "initproc (upd_proc i f k) = initproc k"
  "first (upd_proc i f k) = first k" "holds (upd_proc i f k) = holds k" "pmem (upd_proc i f k) = pmem k"
  by (simp_all add: upd_proc_def holds_def pmem_def fun_eq_iff)

lemma nth_upd_proc: "procs (upd_proc i f k) ! j = (if i = j \<and> j < length (procs k) then f (procs k ! j) else procs k ! j)"
  by (simp add: upd_proc_def nth_list_update_cases)

lemma set_mem_fields [simp]:
  "mach (set_mem m k) = mach k" "cur (set_mem m k) = cur k" "procs (set_mem m k) = procs k" "pmem (set_mem m k) = m"
  "nextpid (set_mem m k) = nextpid k" "initproc (set_mem m k) = initproc k" "holds (set_mem m k) = holds k"
  by (simp_all add: set_mem_def pmem_def holds_def fun_eq_iff)

lemma quiet_upd: "(\<And>p. p_state (f p) = p_state p) \<Longrightarrow> quiet k (upd_proc i f k)"
  by (simp add: quiet_def nth_upd_proc)

lemma quiet_set_mem [simp]: "quiet k (set_mem m k)"
  by (simp add: quiet_def)

lemma quiet_ops:
  "on_mem op k = Inr (r, k') \<Longrightarrow> quiet k k'" "do_mem mop k = Inr k' \<Longrightarrow> quiet k k'"
  "on_files fop k = Inr k' \<Longrightarrow> quiet k k'" "on_fs sop k = Inr (x, k') \<Longrightarrow> quiet k k'"
  by (auto simp: on_mem_def do_mem_def on_files_def on_fs_def rbind_eq_Inr quiet_def)

text \<open>Locks and the current process.\<close>

lemma acq_frame:
  assumes "cpu_ok (hart k h)" "acq h l k = Inr k'"
  shows "frame h X k k'" "holds k' h l" "depth k' h = depth k h + 1" "\<not> sie (hart k' h)" "procs k' = procs k"
    "\<And>g. \<not> holds k g l" "holds k h m \<Longrightarrow> holds k' h m" "k' = k\<lparr>mach := mach k'\<rparr>"
proof -
  obtain m' where m': "acquire_lock h l (mach k) = Inr m'" "k' = k\<lparr>mach := m'\<rparr>"
    using assms(2) by (auto simp: acq_def rbind_eq_Inr)
  note D = acquire_lock_spec [OF assms(1) m'(1)]
  show "frame h X k k'" using assms(1) D by (auto simp: frame_def m' holds_def cpu_ok_def)
  show "holds k' h l" "depth k' h = depth k h + 1" "\<not> sie (hart k' h)" "procs k' = procs k"
    "\<And>g. \<not> holds k g l" "holds k h m \<Longrightarrow> holds k' h m" "k' = k\<lparr>mach := mach k'\<rparr>"
    using D by (auto simp: m' holds_def)
qed

lemma release_lock_InrD:
  assumes "cpu_ok (cpus m h)" "release_lock h l m = Inr m'"
  shows "locked (spin m l) \<noteq> 0" "lcpu (spin m l) = Some h" "0 < depth_lock_intr_disable (cpus m h)"
proof -
  obtain m1 where m1: "is_holding h l m = Inr (locked (spin m l) \<noteq> 0 \<and> lcpu (spin m l) = Some h, m1)"
    "depth_lock_intr_disable (cpus m1 h) = depth_lock_intr_disable (cpus m h)"
    by (rule is_holding_spec [OF assms(1), of l])
  have r: "(locked (spin m l) \<noteq> 0 \<and> lcpu (spin m l) = Some h) \<and>
      (\<exists>k. pop_off h (set_spin l k m1) = Inr m')"
    using assms(2) m1(1) by (auto simp: release_lock_def split: if_splits)
  then show "locked (spin m l) \<noteq> 0" "lcpu (spin m l) = Some h" by auto
  from r obtain k where "pop_off h (set_spin l k m1) = Inr m'" by blast
  from pop_off_InrD(2) [OF this] show "0 < depth_lock_intr_disable (cpus m h)"
    using lock_intr_enable_InrD(5) m1(2) by fastforce
qed

lemma rel_frame:
  assumes "cpu_ok (hart k h)" "rel h l k = Inr k'"
  shows "frame h X k k'" "holds k h l" "depth k' h = depth k h - 1" "procs k' = procs k"
    "m \<noteq> l \<Longrightarrow> holds k' g m = holds k g m" "\<not> holds k' g l" "k' = k\<lparr>mach := mach k'\<rparr>"
proof -
  obtain m' where m': "release_lock h l (mach k) = Inr m'" "k' = k\<lparr>mach := m'\<rparr>"
    using assms(2) by (auto simp: rel_def rbind_eq_Inr)
  note D = release_lock_InrD [OF assms(1) m'(1)]
  obtain m2 where m2: "release_lock h l (mach k) = Inr m2"
    "spin m2 = (spin (mach k))(l := (spin (mach k) l)\<lparr>locked := 0, lcpu := None\<rparr>)"
    "depth_lock_intr_disable (cpus m2 h) = depth k h - 1"
    "sie (cpus m2 h) = (depth k h = 1 \<and> intr_prev_state (hart k h))" "\<And>g. g \<noteq> h \<Longrightarrow> cpus m2 g = hart k g"
    by (rule release_lock_spec [OF assms(1) D]) (rule that)
  with m' have "m' = m2" by simp
  note E = m2(2-5) [folded this]
  show "frame h X k k'" "holds k h l" "depth k' h = depth k h - 1" "procs k' = procs k"
    "m \<noteq> l \<Longrightarrow> holds k' g m = holds k g m" "\<not> holds k' g l" "k' = k\<lparr>mach := mach k'\<rparr>"
    using E D assms(1) by (auto simp: frame_def m' holds_def cpu_ok_def)
qed

lemma rel_returns:
  assumes "cpu_ok (hart k h)" "holds k h l" "0 < depth k h"
  shows "\<exists>k'. rel h l k = Inr k'"
  using release_lock_spec [of "mach k" h l thesis] assms unfolding holds_def rel_def
  by (metis rbind_simps(2) release_lock_spec)

lemma get_process_struct_spec:
  assumes "cpu_ok (hart k h)"
  obtains k' where "get_process_struct h k = Inr (cur k h, k')" "frame h X k k'" "procs k' = procs k"
    "depth k' h = depth k h" "holds k' = holds k" "k' = k\<lparr>mach := mach k'\<rparr>"
proof -
  obtain m' where m': "pop_off h (push_off h (mach k)) = Inr m'"
    "spin m' = spin (mach k)" "\<And>g. g \<noteq> h \<Longrightarrow> cpus m' g = cpus (mach k) g"
    "depth_lock_intr_disable (cpus m' h) = depth k h" "sie (cpus m' h) = sie (hart k h)"
    by (rule is_holding_spec [OF assms, where l = 0]) (rule that)
  show thesis
    by (rule that [of "k\<lparr>mach := m'\<rparr>"])
      (use m' assms in \<open>auto simp: get_process_struct_def frame_def holds_def cpu_ok_def fun_eq_iff\<close>)
qed

lemma myproc_frame:
  assumes "cpu_ok (hart k h)" "myproc h k = Inr (i, k')"
  shows "cur k h = Some i" "frame h X k k'" "procs k' = procs k" "depth k' h = depth k h" "holds k' = holds k"
    "k' = k\<lparr>mach := mach k'\<rparr>"
proof -
  obtain k1 where k1: "get_process_struct h k = Inr (cur k h, k1)" "frame h X k k1" "procs k1 = procs k"
    "depth k1 h = depth k h" "holds k1 = holds k" "k1 = k\<lparr>mach := mach k1\<rparr>"
    by (rule get_process_struct_spec [OF assms(1)])
  then have "cur k h = Some i" "k' = k1" using assms(2) by (auto simp: myproc_def split: option.splits)
  then show "cur k h = Some i" "frame h X k k'" "procs k' = procs k" "depth k' h = depth k h" "holds k' = holds k"
    "k' = k\<lparr>mach := mach k'\<rparr>" using k1 by auto
qed

text \<open>Changing the state of a process under its lock.\<close>

lemma upd_frame:
  assumes "cpu_ok (hart k h)" "holds k h i" "pst k i \<noteq> RUNNING \<or> i \<in> X"
  shows "frame h X k (upd_proc i f k)"
  using assms by (auto simp: frame_def nth_upd_proc holds_def)

lemma acq_locked:
  assumes "cpu_ok (hart k h)" "acq h l k = Inr k'"
  shows "locked (spin (mach k) l) = 0" "m \<noteq> l \<Longrightarrow> spin (mach k') m = spin (mach k) m"
  using assms acquire_lock_spec(1,2) [OF assms(1)] by (fastforce simp: acq_def rbind_eq_Inr)+

lemma rel_locked:
  assumes "cpu_ok (hart k h)" "rel h l k = Inr k'"
  shows "locked (spin (mach k') l) = 0" "m \<noteq> l \<Longrightarrow> spin (mach k') m = spin (mach k) m"
proof -
  obtain m' where m': "release_lock h l (mach k) = Inr m'" "k' = k\<lparr>mach := m'\<rparr>"
    using assms(2) by (auto simp: rel_def rbind_eq_Inr)
  obtain m2 where "release_lock h l (mach k) = Inr m2"
    "spin m2 = (spin (mach k))(l := (spin (mach k) l)\<lparr>locked := 0, lcpu := None\<rparr>)"
    by (rule release_lock_spec [OF assms(1) release_lock_InrD [OF assms(1) m'(1)]])
  with m' show "locked (spin (mach k') l) = 0" "m \<noteq> l \<Longrightarrow> spin (mach k') m = spin (mach k) m" by auto
qed

lemma acq_returns:
  assumes "cpu_ok (hart k h)" "locked (spin (mach k) l) = 0"
  shows "\<exists>k'. acq h l k = Inr k'"
proof -
  have "cpu_ok (cpus (push_off h (mach k)) h)" using assms(1) by simp
  then obtain m1 where "is_holding h l (push_off h (mach k))
      = Inr (locked (spin (push_off h (mach k)) l) \<noteq> 0 \<and> lcpu (spin (push_off h (mach k)) l) = Some h, m1)"
    "spin m1 = spin (push_off h (mach k))"
    by (rule is_holding_spec [where l = l])
  then show ?thesis using assms(2) by (simp add: acq_def acquire_lock_def)
qed

text \<open>A critical section on the lock of one process that changes that process only: what it returns,
  and that it leaves every lock and the nesting of the hart as they were.\<close>

definition balanced :: "nat \<Rightarrow> kernel \<Rightarrow> kernel \<Rightarrow> bool" where
  "balanced h k k' \<longleftrightarrow> cpu_ok (hart k' h) \<and> depth k' h = depth k h \<and> holds k' = holds k
     \<and> (\<forall>l. locked (spin (mach k') l) = locked (spin (mach k) l)) \<and> (\<forall>g. g \<noteq> h \<longrightarrow> hart k' g = hart k g)
     \<and> cur k' = cur k \<and> nextpid k' = nextpid k \<and> initproc k' = initproc k \<and> first k' = first k \<and> kfiles k' = kfiles k"

lemma balanced_refl: "cpu_ok (hart k h) \<Longrightarrow> balanced h k k"
  by (simp add: balanced_def)

lemma balanced_trans: "balanced h k k' \<Longrightarrow> balanced h k' k'' \<Longrightarrow> balanced h k k''"
  by (simp add: balanced_def)

lemma section_balanced:
  assumes "cpu_ok (hart k h)" "acq h i k = Inr k1" "rel h i k2 = Inr k'" "k2 = k1\<lparr>procs := ps\<rparr>"
  shows "balanced h k k'" "procs k' = ps"
proof -
  note A = acq_frame [OF assms(1,2)] acq_locked [OF assms(1,2)]
  have c2: "cpu_ok (hart k2 h)" using frame_ok [OF A(1)] assms(4) by simp
  note R = rel_frame [OF c2 assms(3)] rel_locked [OF c2 assms(3)]
  have holds12: "holds k2 = holds k1" by (simp add: assms(4) holds_def fun_eq_iff)
  have "holds k' g l = holds k g l" for g l
  proof (cases "l = i")
    case True then show ?thesis using A(6) R(6) by simp
  next
    case False
    then show ?thesis using R(5) [OF False] A(10) [OF False] holds12 by (simp add: holds_def)
  qed
  moreover have "locked (spin (mach k') l) = locked (spin (mach k) l)" for l
    using A(9,10) R(8,9) assms(4) by (cases "l = i") simp_all
  moreover have "depth k' h = depth k h" using A(3) R(3) assms(4) by simp
  moreover have "cur k' = cur k" "nextpid k' = nextpid k" "initproc k' = initproc k" "first k' = first k" "kfiles k' = kfiles k"
    by (subst R(7), simp add: assms(4), subst A(8), simp)+
  moreover have "g \<noteq> h \<Longrightarrow> hart k' g = hart k g" for g
    using R(1) [of "{}"] A(1) [of "{}"] assms(4) by (simp add: frame_def)
  ultimately show "balanced h k k'" using frame_ok [OF R(1)] by (simp add: balanced_def fun_eq_iff)
  show "procs k' = ps" using R(4) assms(4) by simp
qed

lemma get_process_struct_balanced:
  assumes "cpu_ok (hart k h)"
  obtains k' where "get_process_struct h k = Inr (cur k h, k')" "balanced h k k'" "procs k' = procs k"
    "spin (mach k') = spin (mach k)"
proof -
  obtain m' where m': "pop_off h (push_off h (mach k)) = Inr m'"
    "spin m' = spin (mach k)" "\<And>g. g \<noteq> h \<Longrightarrow> cpus m' g = cpus (mach k) g"
    "depth_lock_intr_disable (cpus m' h) = depth k h" "sie (cpus m' h) = sie (hart k h)"
    by (rule is_holding_spec [OF assms, where l = 0]) (rule that)
  show thesis
    by (rule that [of "k\<lparr>mach := m'\<rparr>"])
      (use m' assms in \<open>auto simp: get_process_struct_def balanced_def holds_def cpu_ok_def fun_eq_iff\<close>)
qed

lemma balanced_frame:
  assumes "balanced h k k'" "length (procs k') = length (procs k)"
    and "\<And>i. pst k' i \<noteq> pst k i \<Longrightarrow> locked (spin (mach k) i) = 0 \<and> (i \<in> X \<or> pst k i \<noteq> RUNNING)"
  shows "frame h X k k'"
proof -
  have "pst k' i = RUNNING" if "i \<notin> X" "pst k i = RUNNING" for i using assms(3) [of i] that by fastforce
  moreover have "pst k' i = pst k i" if "holds k g i" for g i using assms(3) [of i] that by (auto simp: holds_def)
  ultimately show ?thesis using assms(1,2) by (simp add: balanced_def frame_def)
qed

section \<open>wakeup and kill\<close>

definition woken :: "nat \<Rightarrow> chan \<Rightarrow> nat set \<Rightarrow> kernel \<Rightarrow> nat \<Rightarrow> process" where
  "woken h ch I k j =
     (if j \<in> I \<and> cur k h \<noteq> Some j \<and> pst k j = SLEEPING \<and> p_chan (procs k ! j) = ch
      then (procs k ! j)\<lparr>p_state := RUNNABLE\<rparr> else procs k ! j)"

lemma wakeup_visit:
  assumes "cpu_ok (hart k h)" "acq h i k = Inr k1" "i < length (procs k)"
    and "k2 = (if p_state (procs k1 ! i) = SLEEPING \<and> p_chan (procs k1 ! i) = ch
      then upd_proc i (\<lambda>p. p\<lparr>p_state := RUNNABLE\<rparr>) k1 else k1)"
    and "rel h i k2 = Inr k3" "cur k h \<noteq> Some i"
  shows "balanced h k k3" "length (procs k3) = length (procs k)" "procs k3 ! j = woken h ch {i} k j"
proof -
  note A = acq_frame(5) [OF assms(1,2)]
  define ps where "ps = (if pst k i = SLEEPING \<and> p_chan (procs k ! i) = ch
      then (procs k)[i := (procs k ! i)\<lparr>p_state := RUNNABLE\<rparr>] else procs k)"
  have "k2 = k1\<lparr>procs := ps\<rparr>" using assms(4) A by (auto simp: upd_proc_def ps_def)
  note S = section_balanced [OF assms(1,2,5) this]
  show "balanced h k k3" by (rule S(1))
  show "length (procs k3) = length (procs k)" using S(2) by (simp add: ps_def)
  show "procs k3 ! j = woken h ch {i} k j"
    unfolding S(2) ps_def woken_def using assms(3,6) by (auto simp: nth_list_update_cases)
qed

lemma wakeup_loop_spec:
  assumes "cpu_ok (hart k h)" "wakeup_loop h ch is k = Inr k'" "set is \<subseteq> {..<length (procs k)}"
  shows "balanced h k k' \<and> length (procs k') = length (procs k) \<and> (\<forall>j. procs k' ! j = woken h ch (set is) k j)
    \<and> (\<forall>i\<in>set is. cur k h \<noteq> Some i \<longrightarrow> locked (spin (mach k) i) = 0)"
  using assms
proof (induction "is" arbitrary: k)
  case Nil
  then show ?case by (simp add: balanced_refl woken_def)
next
  case (Cons i "is")
  obtain k1 where k1: "get_process_struct h k = Inr (cur k h, k1)" "balanced h k k1" "procs k1 = procs k"
    "spin (mach k1) = spin (mach k)"
    by (rule get_process_struct_balanced [OF Cons.prems(1)])
  have c1: "cpu_ok (hart k1 h)" "cur k1 = cur k" using k1(2) by (auto simp: balanced_def)
  show ?case
  proof (cases "cur k h = Some i")
    case True
    then have "wakeup_loop h ch is k1 = Inr k'" using Cons.prems(2) k1(1) by simp
    from Cons.IH [OF c1(1) this] Cons.prems(3) k1(3)
    show ?thesis using k1 c1 True by (auto simp: woken_def intro: balanced_trans)
  next
    case False
    from Cons.prems(2) k1(1) False obtain k2 where k2: "acq h i k1 = Inr k2" by (auto simp: rbind_eq_Inr)
    define k3 where "k3 = (if p_state (procs k2 ! i) = SLEEPING \<and> p_chan (procs k2 ! i) = ch
      then upd_proc i (\<lambda>p. p\<lparr>p_state := RUNNABLE\<rparr>) k2 else k2)"
    from Cons.prems(2) k1(1) k2 False obtain k4 where k4: "rel h i k3 = Inr k4" "wakeup_loop h ch is k4 = Inr k'"
      by (auto simp: rbind_eq_Inr k3_def Let_def)
    have i: "i < length (procs k1)" using Cons.prems(3) k1(3) by simp
    note V = wakeup_visit [OF c1(1) k2 i k3_def k4(1) False [folded c1(2)]]
    have c4: "cpu_ok (hart k4 h)" "cur k4 = cur k" "\<And>l. locked (spin (mach k4) l) = locked (spin (mach k) l)"
      using V(1) k1(2) c1 by (auto simp: balanced_def)
    have IH: "balanced h k4 k' \<and> length (procs k') = length (procs k4) \<and> (\<forall>j. procs k' ! j = woken h ch (set is) k4 j)
    \<and> (\<forall>i\<in>set is. cur k4 h \<noteq> Some i \<longrightarrow> locked (spin (mach k4) i) = 0)"
      using Cons.IH [OF c4(1) k4(2)] Cons.prems(3) V(2) k1(3) by simp
    have "woken h ch (set is) k4 j = woken h ch (set (i # is)) k j" for j
      using V(3) [of j] by (auto simp: woken_def c4 c1 k1(3))
    moreover have "locked (spin (mach k) i) = 0" using acq_locked(1) [OF c1(1) k2] k1(4) by simp
    moreover have "balanced h k k'" using IH V(1) k1(2) balanced_trans by blast
    ultimately show ?thesis using IH V(2) k1(3) c4 by auto
  qed
qed

text \<open>Critical sections are entered and left without a hitch when the lock is free.\<close>

lemma section_returns:
  assumes "cpu_ok (hart k h)" "locked (spin (mach k) i) = 0"
  obtains k1 where "acq h i k = Inr k1" "procs k1 = procs k" "\<And>ps. \<exists>k'. rel h i (k1\<lparr>procs := ps\<rparr>) = Inr k'"
    "\<And>f. \<exists>k'. rel h i (upd_proc i f k1) = Inr k'" "\<exists>k'. rel h i k1 = Inr k'"
proof -
  obtain k1 where k1: "acq h i k = Inr k1" using acq_returns [OF assms] by blast
  note A = acq_frame [OF assms(1) k1]
  have ok: "cpu_ok (hart k1 h)" by (rule frame_ok [OF A(1)])
  have d: "0 < depth k1 h" using A(3) assms(1) by (simp add: cpu_ok_def)
  have r: "\<exists>k'. rel h i k2 = Inr k'" if "mach k2 = mach k1" for k2
    using rel_returns [of k2 h i] ok d A(2) that by (simp add: holds_def)
  show thesis by (rule that [OF k1 A(5)]) (simp_all add: r)
qed

lemma wakeup_loop_returns:
  assumes "cpu_ok (hart k h)" "\<And>i. i \<in> set is \<Longrightarrow> cur k h \<noteq> Some i \<Longrightarrow> locked (spin (mach k) i) = 0"
    "set is \<subseteq> {..<length (procs k)}"
  shows "\<exists>k'. wakeup_loop h ch is k = Inr k'"
  using assms
proof (induction "is" arbitrary: k)
  case (Cons i "is")
  obtain k1 where k1: "get_process_struct h k = Inr (cur k h, k1)" "balanced h k k1" "procs k1 = procs k"
    "spin (mach k1) = spin (mach k)"
    by (rule get_process_struct_balanced [OF Cons.prems(1)])
  have c1: "cpu_ok (hart k1 h)" "cur k1 = cur k" using k1(2) by (auto simp: balanced_def)
  show ?case
  proof (cases "cur k h = Some i")
    case True
    have "\<exists>k'. wakeup_loop h ch is k1 = Inr k'" using Cons.prems c1 k1 by (intro Cons.IH) auto
    then show ?thesis using k1(1) True by simp
  next
    case False
    have "locked (spin (mach k1) i) = 0" using Cons.prems(2) [of i] False k1(4) by simp
    then obtain k2 where k2: "acq h i k1 = Inr k2" "procs k2 = procs k1"
      "\<And>f. \<exists>k'. rel h i (upd_proc i f k2) = Inr k'" "\<exists>k'. rel h i k2 = Inr k'"
      by (rule section_returns [OF c1(1)]) (rule that)
    define k3 where "k3 = (if p_state (procs k2 ! i) = SLEEPING \<and> p_chan (procs k2 ! i) = ch
      then upd_proc i (\<lambda>p. p\<lparr>p_state := RUNNABLE\<rparr>) k2 else k2)"
    obtain k4 where k4: "rel h i k3 = Inr k4" using k2(3,4) unfolding k3_def by presburger
    have i: "i < length (procs k1)" using Cons.prems(3) k1(3) by simp
    note V = wakeup_visit [OF c1(1) k2(1) i k3_def k4 False [folded c1(2)]]
    have "\<exists>k'. wakeup_loop h ch is k4 = Inr k'"
      using V(1,2) k1 c1 Cons.prems by (intro Cons.IH) (auto simp: balanced_def)
    then show ?thesis using k1(1) k2(1) k4 False by (simp add: k3_def Let_def)
  qed
qed simp

definition killed_proc :: "process \<Rightarrow> process" where
  "killed_proc p = p\<lparr>p_killed := 1, p_state := (if p_state p = SLEEPING then RUNNABLE else p_state p)\<rparr>"

lemma killed_proc_state [simp]: "p_state (killed_proc p) = (if p_state p = SLEEPING then RUNNABLE else p_state p)"
  by (simp add: killed_proc_def)

lemma kill_loop_spec:
  assumes "cpu_ok (hart k h)" "kill_loop h pid is k = Inr (r, k')" "set is \<subseteq> {..<length (procs k)}"
  shows "balanced h k k' \<and>
    (case find (\<lambda>i. p_pid (procs k ! i) = pid) is of
       None \<Rightarrow> r = - 1 \<and> procs k' = procs k
     | Some i \<Rightarrow> r = 0 \<and> procs k' = (procs k)[i := killed_proc (procs k ! i)] \<and> locked (spin (mach k) i) = 0)"
  using assms
proof (induction "is" arbitrary: k)
  case Nil
  then show ?case by (simp add: balanced_refl)
next
  case (Cons i "is")
  obtain k1 where k1: "acq h i k = Inr k1" using Cons.prems(2) by (auto simp: rbind_eq_Inr)
  note A = acq_frame(5) [OF Cons.prems(1) k1] acq_locked(1) [OF Cons.prems(1) k1]
  have i: "i < length (procs k)" using Cons.prems(3) by simp
  show ?case
  proof (cases "p_pid (procs k ! i) = pid")
    case True
    let ?k2 = "k1\<lparr>procs := (procs k)[i := killed_proc (procs k ! i)]\<rparr>"
    have "(let k = upd_proc i (\<lambda>p. p\<lparr>p_killed := 1\<rparr>) k1
        in if p_state (procs k ! i) = SLEEPING then upd_proc i (\<lambda>p. p\<lparr>p_state := RUNNABLE\<rparr>) k else k) = ?k2"
      using i A by (auto simp: upd_proc_def killed_proc_def)
    then have r: "rel h i ?k2 = Inr k'" "r = 0"
      using Cons.prems(2) k1 True A by (auto simp: Let_def rbind_eq_Inr split: if_splits)
    show ?thesis using section_balanced [OF Cons.prems(1) k1 r(1) refl] r(2) True A by simp
  next
    case False
    obtain k2 where k2: "rel h i k1 = Inr k2" "kill_loop h pid is k2 = Inr (r, k')"
      using Cons.prems(2) k1 False A by (auto simp: rbind_eq_Inr)
    have "k1 = k1\<lparr>procs := procs k\<rparr>" using A(1) by simp
    note S = section_balanced [OF Cons.prems(1) k1 k2(1) this]
    have "cpu_ok (hart k2 h)" using S(1) by (simp add: balanced_def)
    from Cons.IH [OF this k2(2), unfolded S(2)] Cons.prems(3)
    have IH: "balanced h k2 k'" "case find (\<lambda>i. p_pid (procs k ! i) = pid) is of
       None \<Rightarrow> r = - 1 \<and> procs k' = procs k
     | Some i \<Rightarrow> r = 0 \<and> procs k' = (procs k)[i := killed_proc (procs k ! i)] \<and> locked (spin (mach k2) i) = 0" by auto
    moreover have "\<And>l. locked (spin (mach k2) l) = locked (spin (mach k) l)" using S(1) by (simp add: balanced_def)
    ultimately show ?thesis using False balanced_trans [OF S(1)] by (simp split: option.splits)
  qed
qed

section \<open>Creating and reaping under the lock of the slot\<close>

text \<open>A hart works on the slot \<open>i\<close>: it holds its lock, and has so far done nothing outside its frame.\<close>

definition slot :: "nat \<Rightarrow> nat \<Rightarrow> proc_state \<Rightarrow> kernel \<Rightarrow> kernel \<Rightarrow> bool" where
  "slot h i st k0 k \<longleftrightarrow> frame h {} k0 k \<and> holds k h i \<and> pst k i = st \<and> st \<noteq> RUNNING"

lemma slot_quiet: "slot h i st k0 k \<Longrightarrow> quiet k k' \<Longrightarrow> slot h i st k0 k'"
  by (auto simp: slot_def quietD(4,5) intro: frame_trans quiet_frame frame_ok)

lemma slot_upd: "slot h i st k0 k \<Longrightarrow> (\<And>p. p_state (f p) = p_state p) \<Longrightarrow> slot h i st k0 (upd_proc j f k)"
  by (rule slot_quiet [OF _ quiet_upd])

lemma slot_rel: "slot h i st k0 k \<Longrightarrow> rel h i k = Inr k' \<Longrightarrow> frame h {} k0 k'"
  unfolding slot_def using rel_frame(1) frame_trans frame_ok by blast

lemma slot_set:
  assumes "slot h i st k0 k" "i < length (procs k)" "\<And>p. p_state (f p) = st'" "st' \<noteq> RUNNING"
  shows "slot h i st' k0 (upd_proc i f k)"
proof -
  have "frame h {} k (upd_proc i f k)" using assms(1) by (intro upd_frame) (auto simp: slot_def intro: frame_ok)
  then show ?thesis using assms by (auto simp: slot_def nth_upd_proc intro: frame_trans)
qed

lemma alloc_scan_slot:
  assumes "alloc_scan h is k = Inr (r, k')" "frame h {} k0 k"
  shows "case r of None \<Rightarrow> frame h {} k0 k' | Some i \<Rightarrow> i \<in> set is \<and> slot h i UNUSED k0 k'"
  using assms
proof (induction "is" arbitrary: k)
  case (Cons i "is")
  have ok: "cpu_ok (hart k h)" using frame_ok Cons.prems(2) by blast
  obtain k1 where k1: "acq h i k = Inr k1" using Cons.prems(1) by (auto simp: rbind_eq_Inr)
  note A = acq_frame [OF ok k1]
  have f1: "frame h {} k0 k1" using frame_trans [OF Cons.prems(2) A(1)] .
  show ?case
  proof (cases "pst k i = UNUSED")
    case True
    then show ?thesis using Cons.prems(1) k1 A f1 by (auto simp: slot_def)
  next
    case False
    then obtain k2 where k2: "rel h i k1 = Inr k2" "alloc_scan h is k2 = Inr (r, k')"
      using Cons.prems(1) k1 A by (auto simp: rbind_eq_Inr)
    have "frame h {} k0 k2" using frame_trans [OF f1 rel_frame(1) [OF frame_ok [OF f1] k2(1)]] .
    from Cons.IH [OF k2(2) this] show ?thesis by (auto split: option.splits)
  qed
qed simp

lemma alloc_pid_slot:
  assumes "slot h i st k0 k" "i < MAXPROC" "alloc_pid h k = Inr (pid, k')"
  shows "slot h i st k0 k'" "pid = nextpid k" "nextpid k' = nextpid k + 1" "procs k' = procs k"
proof -
  have s: "frame h {} k0 k" "holds k h i" "pst k i = st" "st \<noteq> RUNNING" using assms(1) by (auto simp: slot_def)
  obtain k1 k2 where k: "acq h PIDLOCK k = Inr k1" "k2 = k1\<lparr>nextpid := nextpid k1 + 1\<rparr>" "rel h PIDLOCK k2 = Inr k'" "pid = nextpid k1"
    using assms(3) by (auto simp: alloc_pid_def Let_def rbind_eq_Inr)
  note A = acq_frame [OF frame_ok [OF s(1)] k(1)]
  have q: "frame h {} k1 k2" "holds k2 = holds k1" "procs k2 = procs k1"
    using frame_ok [OF A(1)] by (auto simp: k(2) frame_def holds_def fun_eq_iff)
  note R = rel_frame [OF frame_ok [OF q(1)] k(3)]
  have "frame h {} k0 k'" using frame_trans [OF frame_trans [OF s(1) A(1)] frame_trans [OF q(1) R(1)]] .
  moreover have "holds k' h i" using R(5) [of i h] A(7) [OF s(2)] q(2) assms(2) by simp
  ultimately show "slot h i st k0 k'" using s R(4) q(3) A(5) by (simp add: slot_def)
  show "pid = nextpid k" using k(4) by (subst (asm) A(8)) simp
  show "nextpid k' = nextpid k + 1" by (subst R(7), simp add: k(2), subst A(8), simp)
  show "procs k' = procs k" using R(4) q(3) A(5) by simp
qed

lemma freeproc_slot:
  assumes "slot h i st k0 k" "i < length (procs k)" "freeproc im i k = Inr k'"
  shows "slot h i UNUSED k0 k'"
proof -
  define k1 where "k1 = upd_proc i (\<lambda>p. p\<lparr>p_trapframe := 0\<rparr>)
    (if p_trapframe (procs k ! i) \<noteq> 0 then set_mem (kfree (im_mem_end im) (p_trapframe (procs k ! i)) (pmem k)) k else k)"
  have q1: "quiet k k1" unfolding k1_def by (rule quiet_trans [OF _ quiet_upd]) (auto simp: quiet_def)
  obtain k2 where k2: "(if p_pagetable (procs k ! i) \<noteq> 0 then do_mem (proc_freepagetable im (p_pagetable (procs k ! i))
      (p_mem_size (procs k ! i))) k1 else Inr k1) = Inr k2"
    and k': "k' = upd_proc i (\<lambda>p. p\<lparr>p_state := UNUSED, p_chan := NoChan, p_killed := 0, p_exit_state := 0, p_pid := 0,
          p_parent := None, p_mem_size := 0, p_pagetable := 0, p_name := (p_name p)[0 := 0]\<rparr>) k2"
    using assms(3) [unfolded freeproc_def Let_def, folded k1_def] by (elim rbind_InrE) simp
  have q2: "quiet k1 k2" using k2 by (auto split: if_splits dest: quiet_ops)
  have "slot h i st k0 k2" using slot_quiet [OF slot_quiet [OF assms(1) q1] q2] .
  then show ?thesis unfolding k' using assms(2) quietD(3) [OF q1] quietD(3) [OF q2] by (intro slot_set) auto
qed

lemma slot_length: "slot h i st k0 k \<Longrightarrow> length (procs k) = length (procs k0)"
  by (auto simp: slot_def dest: frame_length)

lemma alloc_process_slot:
  assumes "cpu_ok (hart k h)" "length (procs k) = MAXPROC" "alloc_process im h k = Inr (r, k')"
  shows "case r of None \<Rightarrow> frame h {} k k' | Some i \<Rightarrow> i < MAXPROC \<and> slot h i UNUSED k k'"
proof -
  from assms(3) obtain r1 k1 where scan: "alloc_scan h [0..<MAXPROC] k = Inr (r1, k1)"
    by (auto simp: alloc_process_def rbind_eq_Inr)
  note S = alloc_scan_slot [OF scan frame_refl [OF assms(1)]]
  show ?thesis
  proof (cases r1)
    case None
    then show ?thesis using S scan assms(3) by (simp add: alloc_process_def)
  next
    case (Some i)
    with S have i: "i < MAXPROC" and s1: "slot h i UNUSED k k1" by auto
    from assms(3) scan Some obtain pid k2 tf k3 where p: "alloc_pid h k1 = Inr (pid, k2)"
      and t: "on_mem (kalloc (im_mem_end im)) (upd_proc i (\<lambda>p. p\<lparr>p_pid := pid\<rparr>) k2) = Inr (tf, k3)"
      by (auto simp: alloc_process_def rbind_eq_Inr Let_def)
    define k4 where "k4 = upd_proc i (\<lambda>p. p\<lparr>p_trapframe := tf\<rparr>) k3"
    have s4: "slot h i UNUSED k k4" unfolding k4_def
      by (rule slot_upd [OF slot_quiet [OF slot_upd [OF alloc_pid_slot(1) [OF s1 i p]] quiet_ops(1) [OF t]]]) simp_all
    note rest = assms(3) [unfolded alloc_process_def scan rbind_simps Some prod.case option.case p Let_def t,
        folded k4_def]
    show ?thesis
    proof (cases "tf = 0")
      case True
      then obtain "rel h i k4 = Inr k'" "r = None" using rest by (auto simp: rbind_eq_Inr)
      then show ?thesis using slot_rel [OF s4] by simp
    next
      case False
      with rest obtain pt k5 where pt: "on_mem (proc_pagetable im tf) k4 = Inr (pt, k5)" by (auto simp: rbind_eq_Inr)
      define k6 where "k6 = upd_proc i (\<lambda>p. p\<lparr>p_pagetable := pt\<rparr>) k5"
      have s6: "slot h i UNUSED k k6" unfolding k6_def
        by (rule slot_upd [OF slot_quiet [OF s4 quiet_ops(1) [OF pt]]]) simp
      show ?thesis
      proof (cases "pt = 0")
        case True
        then obtain k7 where k7: "freeproc im i k6 = Inr k7" "rel h i k7 = Inr k'" "r = None"
          using rest False pt by (auto simp: rbind_eq_Inr k6_def)
        have "i < length (procs k6)" using slot_length [OF s6] assms(2) i by simp
        from slot_rel [OF freeproc_slot [OF s6 this k7(1)] k7(2)] k7(3) show ?thesis by simp
      next
        case False
        with rest \<open>tf \<noteq> 0\<close> pt have "r = Some i" "k' = upd_proc i (\<lambda>p. p\<lparr>p_context := \<lparr>c_ra = im_forkret im,
            c_sp = p_kernel_stack p + PGESIZE, c_saved = replicate 12 0\<rparr>\<rparr>) k6" by (auto simp: k6_def)
        then show ?thesis using slot_upd [OF s6] i by simp
      qed
    qed
  qed
qed

lemma fork_files_quiet: "fork_files p np fds k = Inr k' \<Longrightarrow> quiet k k'"
proof (induction fds arbitrary: k)
  case (Cons fd fds)
  show ?case
  proof (cases "p_openfile (procs k ! p) ! fd")
    case None
    then show ?thesis using Cons by simp
  next
    case (Some f)
    with Cons.prems obtain f' s where "file_dup f (kfiles k) = Inr (f', s)"
      and r: "fork_files p np fds (upd_proc np (\<lambda>x. x\<lparr>p_openfile := (p_openfile x)[fd := Some f']\<rparr>) (k\<lparr>kfiles := s\<rparr>)) = Inr k'"
      by (auto simp: rbind_eq_Inr)
    have "quiet k (k\<lparr>kfiles := s\<rparr>)" by (simp add: quiet_def)
    then show ?thesis by (rule quiet_trans [OF quiet_trans [OF _ quiet_upd] Cons.IH [OF r]]) simp
  qed
qed simp

lemma fork_child_frame:
  assumes "slot h np st k0 k" "fork_child im h p np k = Inr k'"
  shows "frame h {} k0 k'" "pst k' np = st"
proof -
  define k1 where "k1 = upd_proc np (\<lambda>x. x\<lparr>p_mem_size := p_mem_size (procs k ! p)\<rparr>) k"
  define k2 where "k2 = set_mem (store32 (copy_trapframe (p_trapframe (procs k1 ! np)) (p_trapframe (procs k1 ! p)) (pmem k1))
    (p_trapframe (procs k1 ! np) + 56) 0) k1"
  have s2: "slot h np st k0 k2" unfolding k2_def k1_def by (rule slot_quiet [OF slot_upd [OF assms(1)] quiet_set_mem]) simp
  from assms(2) [unfolded fork_child_def Let_def, folded k1_def, folded k2_def]
  obtain k3 ip where k3: "fork_files p np [0..<NUMOFILES] k2 = Inr k3" "p_cwd (procs k3 ! p) = Some ip"
    by (auto simp: rbind_eq_Inr split: option.splits)
  define k4 where "k4 = k3\<lparr>kfiles := (kfiles k3)\<lparr>ffs := inode_dup ip (ffs (kfiles k3))\<rparr>\<rparr>"
  have q: "quiet k2 k4" unfolding k4_def using fork_files_quiet [OF k3(1)] by (simp add: quiet_def)
  define k5 where "k5 = upd_proc np (\<lambda>x. x\<lparr>p_cwd := Some ip, p_name := strcpy_l (p_name x) (p_name (procs k4 ! p)) 16\<rparr>) k4"
  have s5: "slot h np st k0 k5" unfolding k5_def by (rule slot_upd [OF slot_quiet [OF s2 q]]) simp
  have r: "rel h np k5 = Inr k'"
    using assms(2) [unfolded fork_child_def Let_def, folded k1_def, folded k2_def] k3 by (simp add: k4_def k5_def)
  show "frame h {} k0 k'" by (rule slot_rel [OF s5 r])
  have "cpu_ok (hart k5 h)" using s5 frame_ok by (auto simp: slot_def)
  then show "pst k' np = st" using rel_frame(4) [OF _ r] s5 by (simp add: slot_def)
qed

lemma fork_prepare_frame:
  assumes "cpu_ok (hart k h)" "length (procs k) = MAXPROC" "fork_prepare im h p k = Inr (r, k')"
  shows "frame h {} k k'" "r = Some np \<Longrightarrow> np < MAXPROC \<and> pst k' np = UNUSED"
proof -
  from assms(3) obtain r1 k1 where a: "alloc_process im h k = Inr (r1, k1)"
    by (auto simp: fork_prepare_def rbind_eq_Inr)
  note S = alloc_process_slot [OF assms(1,2) a]
  have "frame h {} k k' \<and> (r = Some np \<longrightarrow> np < MAXPROC \<and> pst k' np = UNUSED)"
  proof (cases r1)
    case None
    then show ?thesis using a S assms(3) by (simp add: fork_prepare_def)
  next
    case (Some i)
    with S have s1: "slot h i UNUSED k k1" "i < MAXPROC" by auto
    from assms(3) a Some obtain v k2 where u: "on_mem (uvmcopy (im_mem_end im) (p_pagetable (procs k1 ! p))
        (p_pagetable (procs k1 ! i)) (p_mem_size (procs k1 ! p))) k1 = Inr (v, k2)"
      by (auto simp: fork_prepare_def rbind_eq_Inr)
    have s2: "slot h i UNUSED k k2" by (rule slot_quiet [OF s1(1) quiet_ops(1) [OF u]])
    show ?thesis
    proof (cases "v < 0")
      case True
      with assms(3) a Some u obtain k3 where k3: "freeproc im i k2 = Inr k3" "rel h i k3 = Inr k'" "r = None"
        by (auto simp: fork_prepare_def rbind_eq_Inr)
      have "i < length (procs k2)" using slot_length [OF s2] assms(2) s1(2) by simp
      from slot_rel [OF freeproc_slot [OF s2 this k3(1)] k3(2)] k3(3) show ?thesis by simp
    next
      case False
      with assms(3) a Some u have "fork_child im h p i k2 = Inr k'" "r = Some i"
        by (auto simp: fork_prepare_def rbind_eq_Inr)
      then show ?thesis using fork_child_frame [OF s2] s1(2) by auto
    qed
  qed
  then show "frame h {} k k'" "r = Some np \<Longrightarrow> np < MAXPROC \<and> pst k' np = UNUSED" by auto
qed

lemma fork_parent_frame:
  assumes "cpu_ok (hart k h)" "fork_parent h p np k = Inr k'"
  shows "frame h {} k k'"
proof -
  obtain k1 where k1: "acq h WAITLOCK k = Inr k1" "rel h WAITLOCK (upd_proc np (\<lambda>x. x\<lparr>p_parent := Some p\<rparr>) k1) = Inr k'"
    using assms(2) by (auto simp: fork_parent_def rbind_eq_Inr)
  note A = acq_frame(1) [OF assms(1) k1(1)]
  have "frame h {} k1 (upd_proc np (\<lambda>x. x\<lparr>p_parent := Some p\<rparr>) k1)"
    by (rule quiet_frame [OF quiet_upd frame_ok [OF A]]) simp
  from frame_trans [OF frame_trans [OF A this] rel_frame(1) [OF frame_ok [OF this] k1(2)]] show ?thesis .
qed

lemma fork_publish_frame:
  assumes "cpu_ok (hart k h)" "fork_publish h np k = Inr k'" "pst k np \<noteq> RUNNING"
  shows "frame h {} k k'"
proof -
  obtain k1 where k1: "acq h np k = Inr k1" "rel h np (upd_proc np (\<lambda>x. x\<lparr>p_state := RUNNABLE\<rparr>) k1) = Inr k'"
    using assms(2) by (auto simp: fork_publish_def rbind_eq_Inr)
  note A = acq_frame [OF assms(1) k1(1)]
  have "frame h {} k1 (upd_proc np (\<lambda>x. x\<lparr>p_state := RUNNABLE\<rparr>) k1)"
    using upd_frame [OF frame_ok [OF A(1)] A(2)] assms(3) A(5) by simp
  from frame_trans [OF frame_trans [OF A(1) this] rel_frame(1) [OF frame_ok [OF this] k1(2)]] show ?thesis .
qed

section \<open>Switching away\<close>

text \<open>Where a process leaves its hart: the checks of \<^verbatim>\<open>scheduler\<close> have passed.\<close>

definition leaving :: "nat \<Rightarrow> nat \<Rightarrow> kernel \<Rightarrow> bool" where
  "leaving h i k \<longleftrightarrow> cur k h = Some i \<and> holds k h i \<and> depth k h = 1 \<and> pst k i \<noteq> RUNNING \<and> \<not> sie (hart k h)"

lemma scheduler_enter_leaving:
  assumes "cpu_ok (hart k h)" "scheduler_enter h k = Inr (b, k')"
  shows "\<exists>i. leaving h i k'" "frame h X k k'" "procs k' = procs k" "cur k h = Some j \<Longrightarrow> holds k h j" "holds k' = holds k"
proof -
  obtain i k1 where k1: "myproc h k = Inr (i, k1)" using assms(2) by (auto simp: scheduler_enter_def rbind_eq_Inr)
  note M = myproc_frame [OF assms(1) k1]
  have ok1: "cpu_ok (hart k1 h)" by (rule frame_ok [OF M(2)])
  obtain m where m0: "is_holding h i (mach k1) = Inr (locked (spin (mach k1) i) \<noteq> 0 \<and> lcpu (spin (mach k1) i) = Some h, m)" "spin m = spin (mach k1)"
    "\<And>g. g \<noteq> h \<Longrightarrow> cpus m g = hart k1 g" "depth_lock_intr_disable (cpus m h) = depth k1 h" "sie (cpus m h) = sie (hart k1 h)"
    by (rule is_holding_spec [OF ok1, where l = i]) (rule that)
  note m = m0(1) [folded holds_def] m0(2-5)
  have k': "k' = k1\<lparr>mach := m\<rparr>" "holds k1 h i" "depth_lock_intr_disable (cpus m h) = 1" "pst k1 i \<noteq> RUNNING" "\<not> sie (cpus m h)"
    using assms(2) k1 m(1) by (auto simp: scheduler_enter_def Let_def split: if_splits)
  have f: "frame h X k1 k'" using m ok1 by (auto simp: frame_def k'(1) holds_def cpu_ok_def)
  show "frame h X k k'" by (rule frame_trans [OF M(2) f])
  show "procs k' = procs k" using k'(1) M(3) by simp
  have "leaving h i k'" using k' m(2) M(1) frame_cur [OF frame_trans [OF M(2) f]] by (simp add: leaving_def holds_def)
  then show "\<exists>i. leaving h i k'" by blast
  show "cur k h = Some j \<Longrightarrow> holds k h j" using M(1,5) k'(2) by simp
  show "holds k' = holds k" using M(5) m(2) by (simp add: k'(1) holds_def fun_eq_iff)
qed

lemma yield_enter_leaving:
  assumes "cpu_ok (hart k h)" "yield_enter h k = Inr (b, k')"
  shows "\<exists>i. cur k h = Some i \<and> leaving h i k' \<and> frame h {i} k k'"
proof -
  obtain i k1 k2 where k: "myproc h k = Inr (i, k1)" "acq h i k1 = Inr k2"
    "scheduler_enter h (upd_proc i (\<lambda>p. p\<lparr>p_state := RUNNABLE\<rparr>) k2) = Inr (b, k')"
    using assms(2) by (auto simp: yield_enter_def rbind_eq_Inr)
  note M = myproc_frame [OF assms(1) k(1)]
  note A = acq_frame [OF frame_ok [OF M(2)] k(2)]
  have u: "frame h {i} k2 (upd_proc i (\<lambda>p. p\<lparr>p_state := RUNNABLE\<rparr>) k2)"
    using upd_frame [OF frame_ok [OF A(1)] A(2)] by simp
  note S = scheduler_enter_leaving [OF frame_ok [OF u] k(3)]
  have f: "frame h {i} k k'" using frame_trans [OF frame_trans [OF M(2) A(1)] frame_trans [OF u S(2)]] .
  from S(1) obtain j where "leaving h j k'" by blast
  then show ?thesis using f M(1) frame_cur [OF f] by (auto simp: leaving_def)
qed

lemma sleep_enter_leaving:
  assumes "cpu_ok (hart k h)" "sleep_enter h ch lock k = Inr (b, k')"
  shows "\<exists>i. cur k h = Some i \<and> leaving h i k' \<and> frame h {i} k k'"
proof -
  obtain i k1 k2 k3 where k: "myproc h k = Inr (i, k1)" "acq h i k1 = Inr k2" "rel h lock k2 = Inr k3"
    "scheduler_enter h (upd_proc i (\<lambda>p. p\<lparr>p_chan := ch, p_state := SLEEPING\<rparr>) k3) = Inr (b, k')"
    using assms(2) by (auto simp: sleep_enter_def rbind_eq_Inr)
  note M = myproc_frame [OF assms(1) k(1)]
  note A = acq_frame [OF frame_ok [OF M(2)] k(2)]
  note R = rel_frame [OF frame_ok [OF A(1)] k(3)]
  let ?k4 = "upd_proc i (\<lambda>p. p\<lparr>p_chan := ch, p_state := SLEEPING\<rparr>) k3"
  have f3: "frame h {i} k k3" using frame_trans [OF frame_trans [OF M(2) A(1)] R(1)] .
  have cur3: "cur ?k4 h = Some i" using frame_cur [OF f3] M(1) by simp
  have ok4: "cpu_ok (hart ?k4 h)" using frame_ok [OF f3] by simp
  note S = scheduler_enter_leaving [OF ok4 k(4)]
  from S(1) obtain j where j: "leaving h j k'" by blast
  have "j = i" using j cur3 frame_cur [OF S(2)] by (simp add: leaving_def)
  have "holds k3 h i"
  proof (rule ccontr)
    assume "\<not> holds k3 h i"
    then have "lock = i" using R(5) A(2) by metis
    then have "\<not> holds ?k4 g i" for g using R(6) by simp
    then show False using S(4) [OF cur3] by blast
  qed
  then have "frame h {i} k3 ?k4" using upd_frame [OF frame_ok [OF f3]] by simp
  then have "frame h {i} k k'" using frame_trans [OF frame_trans [OF f3] S(2)] by blast
  then show ?thesis using j \<open>j = i\<close> M(1) by blast
qed

lemma copy_status_quiet: "copy_status im c i addrs k = Inr (r, k') \<Longrightarrow> quiet k k'"
  unfolding copy_status_def Let_def by (rule quiet_trans [OF quiet_set_mem quiet_ops(1)])

lemma wait_scan_frame:
  assumes "wait_scan im h c addrs kids is k = Inr (r, k')" "frame h {} k0 k"
  shows "frame h {} k0 k'"
  using assms
proof (induction "is" arbitrary: k kids)
  case (Cons i "is")
  have ok: "cpu_ok (hart k h)" using frame_ok Cons.prems(2) by blast
  have len: "i < length (procs k)" using Cons.prems(1) by (auto split: if_splits)
  show ?case
  proof (cases "p_parent (procs k ! i) = Some c")
    case False
    then show ?thesis using Cons len by auto
  next
    case True
    with Cons.prems(1) len obtain k1 where k1: "acq h i k = Inr k1" by (auto simp: rbind_eq_Inr)
    note A = acq_frame [OF ok k1]
    have f1: "frame h {} k0 k1" using frame_trans [OF Cons.prems(2) A(1)] .
    show ?thesis
    proof (cases "pst k1 i = ZOMBIE")
      case False
      with Cons.prems(1) len True k1 obtain k2 where k2: "rel h i k1 = Inr k2" "wait_scan im h c addrs True is k2 = Inr (r, k')"
        by (auto simp: rbind_eq_Inr)
      from Cons.IH [OF k2(2) frame_trans [OF f1 rel_frame(1) [OF frame_ok [OF f1] k2(1)]]] show ?thesis .
    next
      case zombie: True
      then have s1: "slot h i ZOMBIE k0 k1" using f1 A(2) by (simp add: slot_def)
      from Cons.prems(1) len True k1 zombie obtain v k2 where
        k2: "(if addrs \<noteq> 0 then copy_status im c i addrs k1 else Inr (0, k1)) = Inr (v, k2)"
        by (auto simp: rbind_eq_Inr Let_def)
      have s2: "slot h i ZOMBIE k0 k2" using k2 s1 slot_quiet copy_status_quiet by (auto split: if_splits)
      obtain k3 k4 st where k3: "slot h i st k0 k3" "rel h i k3 = Inr k4" "rel h WAITLOCK k4 = Inr k'"
      proof (cases "v < 0")
        case True
        with Cons.prems(1) len \<open>p_parent (procs k ! i) = Some c\<close> k1 zombie k2 obtain k4 where
          "rel h i k2 = Inr k4" "rel h WAITLOCK k4 = Inr k'" by (auto simp: rbind_eq_Inr Let_def)
        then show thesis by (rule that [OF s2])
      next
        case False
        with Cons.prems(1) len \<open>p_parent (procs k ! i) = Some c\<close> k1 zombie k2 obtain k3 k4 where
          "freeproc im i k2 = Inr k3" "rel h i k3 = Inr k4" "rel h WAITLOCK k4 = Inr k'"
          by (auto simp: rbind_eq_Inr Let_def)
        moreover have "i < length (procs k2)"
          using slot_length [OF s2] len frame_length [OF Cons.prems(2)] by simp
        ultimately show thesis using that freeproc_slot [OF s2] by blast
      qed
      have f4: "frame h {} k0 k4" by (rule slot_rel [OF k3(1,2)])
      from frame_trans [OF f4 rel_frame(1) [OF frame_ok [OF f4] k3(3)]] show ?thesis .
    qed
  qed
qed simp

lemma wait_frame:
  assumes "cpu_ok (hart k h)" "wait im h addrs k = Inr r"
  shows "case r of Waited v k' \<Rightarrow> frame h {} k k' | Waits b k' \<Rightarrow> \<exists>i. cur k h = Some i \<and> leaving h i k' \<and> frame h {i} k k'"
proof -
  from assms(2) obtain c k1 k2 where k: "myproc h k = Inr (c, k1)" "acq h WAITLOCK k1 = Inr k2"
    "wait_round im h c addrs k2 = Inr r" by (auto simp: wait_def rbind_eq_Inr)
  note M = myproc_frame [OF assms(1) k(1)]
  note A = acq_frame [OF frame_ok [OF M(2)] k(2)]
  from k(3) obtain v kids k3 where s: "wait_scan im h c addrs False [c..<c + MAXPROC] k2 = Inr ((v, kids), k3)"
    by (auto simp: wait_round_def rbind_eq_Inr)
  have f3: "frame h {} k k3" using wait_scan_frame [OF s frame_trans [OF M(2) A(1)]] .
  note rest = k(3) [unfolded wait_round_def s rbind_simps prod.case]
  consider "v \<noteq> None" | "v = None" "\<not> kids \<or> p_killed (procs k3 ! c) \<noteq> 0" | "v = None" "\<not> (\<not> kids \<or> p_killed (procs k3 ! c) \<noteq> 0)"
    by blast
  then show ?thesis
  proof cases
    case 1
    then show ?thesis using rest f3 by auto
  next
    case 2
    then obtain k4 where "rel h WAITLOCK k3 = Inr k4" "r = Waited (- 1) k4" using rest by (auto simp: rbind_eq_Inr)
    then show ?thesis using frame_trans [OF f3 rel_frame(1) [OF frame_ok [OF f3]]] by simp
  next
    case 3
    then obtain b k4 where k4: "sleep_enter h (ProcChan c) WAITLOCK k3 = Inr (b, k4)" "r = Waits b k4"
      using rest by (auto simp: rbind_eq_Inr)
    from sleep_enter_leaving [OF frame_ok [OF f3] k4(1)] obtain i where
      i: "cur k3 h = Some i" "leaving h i k4" "frame h {i} k3 k4" by blast
    have "frame h {i} k k4" by (rule frame_trans [OF frame_mono [OF f3] i(3)]) simp
    then show ?thesis using i k4(2) frame_cur [OF f3] by auto
  qed
qed

lemma wakeup_frame:
  assumes "cpu_ok (hart k h)" "length (procs k) = MAXPROC" "wakeup h ch k = Inr k'"
  shows "frame h {} k k'" "balanced h k k'" "length (procs k') = MAXPROC"
proof -
  have "set [0..<MAXPROC] \<subseteq> {..<length (procs k)}" using assms(2) by auto
  note W = wakeup_loop_spec [OF assms(1) assms(3) [unfolded wakeup_def] this]
  show "balanced h k k'" "length (procs k') = MAXPROC" using W assms(2) by auto
  show "frame h {} k k'"
  proof (rule balanced_frame)
    fix i assume n: "pst k' i \<noteq> pst k i"
    then have "woken h ch (set [0..<MAXPROC]) k i \<noteq> procs k ! i" using W by auto
    then have "i \<in> set [0..<MAXPROC]" "cur k h \<noteq> Some i" "pst k i = SLEEPING"
      by (auto simp: woken_def split: if_splits)
    then show "locked (spin (mach k) i) = 0 \<and> (i \<in> {} \<or> pst k i \<noteq> RUNNING)" using W by simp
  qed (use W in auto)
qed

lemma kill_frame:
  assumes "cpu_ok (hart k h)" "length (procs k) = MAXPROC" "kill h pid k = Inr (r, k')"
  shows "frame h {} k k'"
proof -
  have "set [0..<MAXPROC] \<subseteq> {..<length (procs k)}" using assms(2) by auto
  note K = kill_loop_spec [OF assms(1) assms(3) [unfolded kill_def] this]
  show ?thesis
  proof (rule balanced_frame)
    fix i assume n: "pst k' i \<noteq> pst k i"
    show "locked (spin (mach k) i) = 0 \<and> (i \<in> {} \<or> pst k i \<noteq> RUNNING)"
      using K n by (auto split: option.splits simp: nth_list_update_cases split: if_splits)
  qed (use K in \<open>auto split: option.splits\<close>)
qed

lemma reparent_loop_frame:
  assumes "reparent_loop h pp is k = Inr k'" "frame h {} k0 k" "length (procs k0) = MAXPROC"
  shows "frame h {} k0 k'"
  using assms
proof (induction "is" arbitrary: k)
  case (Cons i "is")
  show ?case
  proof (cases "p_parent (procs k ! i) = Some pp")
    case True
    let ?k1 = "upd_proc i (\<lambda>p. p\<lparr>p_parent := initproc k\<rparr>) k"
    obtain ch k2 where k2: "wakeup h ch ?k1 = Inr k2" "reparent_loop h pp is k2 = Inr k'"
      using Cons.prems(1) True by (auto simp: rbind_eq_Inr Let_def)
    have f1: "frame h {} k0 ?k1"
      by (rule frame_trans [OF Cons.prems(2) quiet_frame [OF quiet_upd frame_ok [OF Cons.prems(2)]]]) simp
    have "length (procs ?k1) = MAXPROC" using frame_length [OF f1] Cons.prems(3) by simp
    from wakeup_frame(1) [OF frame_ok [OF f1] this k2(1)]
    show ?thesis using Cons.IH [OF k2(2) frame_trans [OF f1]] Cons.prems(3) by blast
  next
    case False
    then show ?thesis using Cons by simp
  qed
qed simp

lemma exit_switch_leaving:
  assumes "cpu_ok (hart k h)" "length (procs k) = MAXPROC" "cur k h = Some i" "exit_switch h i status k = Inr (b, k')"
  shows "leaving h i k' \<and> frame h {i} k k'"
proof -
  obtain k1 k2 k3 k4 k5 ch where k: "acq h WAITLOCK k = Inr k1" "reparent_loop h 0 [0..<MAXPROC] k1 = Inr k2"
    "wakeup h ch k2 = Inr k3" "acq h i k3 = Inr k4"
    "rel h WAITLOCK (upd_proc i (\<lambda>p. p\<lparr>p_exit_state := status, p_state := ZOMBIE\<rparr>) k4) = Inr k5"
    "scheduler_enter h k5 = Inr (b, k')"
    using assms(4) by (auto simp: exit_switch_def reparent_def rbind_eq_Inr Let_def)
  note f1 = acq_frame(1) [OF assms(1) k(1), of "{}"]
  note f2 = reparent_loop_frame [OF k(2) f1 assms(2)]
  have len2: "length (procs k2) = MAXPROC" using frame_length [OF f2] assms(2) by simp
  note f3 = frame_trans [OF f2 wakeup_frame(1) [OF frame_ok [OF f2] len2 k(3)]]
  note A = acq_frame [OF frame_ok [OF f3] k(4)]
  let ?k4 = "upd_proc i (\<lambda>p. p\<lparr>p_exit_state := status, p_state := ZOMBIE\<rparr>) k4"
  have f4: "frame h {i} k ?k4"
    using frame_trans [OF frame_trans [OF frame_mono [OF f3] A(1)] upd_frame [OF frame_ok [OF A(1)] A(2)]] by simp
  note f5 = frame_trans [OF f4 rel_frame(1) [OF frame_ok [OF f4] k(5)]]
  note S = scheduler_enter_leaving [OF frame_ok [OF f5] k(6)]
  note f6 = frame_trans [OF f5 S(2)]
  from S(1) obtain j where "leaving h j k'" by blast
  then show ?thesis using f6 frame_cur [OF f6] assms(3) by (simp add: leaving_def)
qed

lemma exit_files_quiet: "exit_files im i fds k = Inr k' \<Longrightarrow> quiet k k'"
proof (induction fds arbitrary: k)
  case (Cons fd fds)
  show ?case
  proof (cases "p_openfile (procs k ! i) ! fd")
    case None
    then show ?thesis using Cons by simp
  next
    case (Some f)
    with Cons.prems obtain k1 where
      k1: "on_files (file_close (im_mem_end im) (im_past im) (p_pid (procs k ! i)) f) k = Inr k1"
      "exit_files im i fds (upd_proc i (\<lambda>p. p\<lparr>p_openfile := (p_openfile p)[fd := None]\<rparr>) k1) = Inr k'"
      by (auto simp: rbind_eq_Inr)
    show ?thesis by (rule quiet_trans [OF quiet_trans [OF quiet_ops(3) [OF k1(1)] quiet_upd] Cons.IH [OF k1(2)]]) simp
  qed
qed simp

lemma exit_cwd_quiet:
  assumes "exit_cwd im i k = Inr k'"
  shows "quiet k k'"
proof -
  from assms obtain ip k1 k2 k3 where k: "on_files (with_fs begin_op) k = Inr k1"
    "on_files (with_fs (inode_put (im_past im) (p_pid (procs k ! i)) ip)) k1 = Inr k2"
    "on_files (with_fs (end_op (p_pid (procs k ! i)))) k2 = Inr k3" "k' = upd_proc i (\<lambda>p. p\<lparr>p_cwd := None\<rparr>) k3"
    by (auto simp: exit_cwd_def Let_def rbind_eq_Inr split: option.splits)
  show ?thesis unfolding k(4)
    by (rule quiet_trans [OF quiet_trans [OF quiet_ops(3) [OF k(1)] quiet_ops(3) [OF k(2)]]
          quiet_trans [OF quiet_ops(3) [OF k(3)] quiet_upd]]) simp
qed

lemma exit_leaving:
  assumes "cpu_ok (hart k h)" "length (procs k) = MAXPROC" "exit im h status k = Inr (b, k')"
  shows "\<exists>i. cur k h = Some i \<and> leaving h i k' \<and> frame h {i} k k'"
proof -
  from assms(3) obtain i k1 k2 k3 where k: "myproc h k = Inr (i, k1)" "exit_files im i [0..<NUMOFILES] k1 = Inr k2"
    "exit_cwd im i k2 = Inr k3" "exit_switch h i status k3 = Inr (b, k')"
    by (auto simp: exit_def rbind_eq_Inr split: if_splits)
  note M = myproc_frame [OF assms(1) k(1)]
  have "quiet k1 k3" by (rule quiet_trans [OF exit_files_quiet [OF k(2)] exit_cwd_quiet [OF k(3)]])
  from frame_trans [OF M(2) quiet_frame [OF this frame_ok [OF M(2)]]] have f3: "frame h {i} k k3" .
  have "length (procs k3) = MAXPROC" "cur k3 h = Some i" using frame_length [OF f3] frame_cur [OF f3] assms(2) M(1) by auto
  from exit_switch_leaving [OF frame_ok [OF f3] this k(4)] show ?thesis using frame_trans [OF f3] M(1) by blast
qed

lemma growproc_frame:
  assumes "cpu_ok (hart k h)" "growproc im h n k = Inr (r, k')"
  shows "frame h {} k k'"
proof -
  from assms(2) obtain i k1 where m: "myproc h k = Inr (i, k1)" by (auto simp: growproc_def rbind_eq_Inr)
  note M = myproc_frame [OF assms(1) m]
  have u: "quiet j (upd_proc i (\<lambda>p. p\<lparr>p_mem_size := sz\<rparr>) j)" for j sz by (rule quiet_upd) simp
  have "quiet k1 k'"
    using assms(2) m by (auto simp: growproc_def Let_def rbind_eq_Inr split: if_splits dest!: quiet_ops(1) intro: quiet_trans u)
  from frame_trans [OF M(2) quiet_frame [OF this frame_ok [OF M(2)]]] show ?thesis .
qed

end
