(* ===== verification/Syscall_Args.thy ===== *)
theory Syscall_Args
  imports Process
begin

text \<open>
  The first half of \<^verbatim>\<open>kernel/syscall.c\<close>: how a system call gets its arguments. The registers of the calling process
  are the words of its trapframe page. A local array or structure of a system call lies on the kernel stack,
  which is memory too; where, is the argument \<open>loc\<close> of the environment, one address for each local object whose
  address is taken. What such an object contains before it is written comes from the environment as well.
\<close>

abbreviation "MAXPATH \<equiv> 128 :: u32"
abbreviation "MAXARG \<equiv> 32 :: nat"

record senv =
  e_im :: image
  e_loc :: "nat \<Rightarrow> u32"
  e_below :: bool
  e_de :: "byte list"
  e_name :: "byte list"
  e_stk :: byte
  e_pad :: "byte list"

section \<open>Registers\<close>

definition tf_word :: "nat \<Rightarrow> nat \<Rightarrow> kernel \<Rightarrow> u32" where
  "tf_word i off k = load32 (pmem k) (p_trapframe (procs k ! i) + of_nat off)"

definition set_tf :: "nat \<Rightarrow> nat \<Rightarrow> u32 \<Rightarrow> kernel \<Rightarrow> kernel" where
  "set_tf i off v k = set_mem (store32 (pmem k) (p_trapframe (procs k ! i) + of_nat off) v) k"

abbreviation "TF_PC \<equiv> 12 :: nat"
abbreviation "TF_SP \<equiv> 24 :: nat"
abbreviation "TF_A0 \<equiv> 56 :: nat"
abbreviation "TF_A1 \<equiv> 60 :: nat"
abbreviation "TF_A7 \<equiv> 84 :: nat"

definition argraw :: "nat \<Rightarrow> nat \<Rightarrow> kernel \<Rightarrow> (u32 \<times> kernel) res" where
  "argraw h n k =
     rbind (myproc h k) (\<lambda>(i, k).
       if n \<le> 5 then Inr (tf_word i (TF_A0 + 4 * n) k, k) else Inl (Panic ''argraw''))"

definition argint :: "nat \<Rightarrow> nat \<Rightarrow> kernel \<Rightarrow> (int \<times> kernel) res" where
  "argint h n k = rbind (argraw h n k) (\<lambda>(v, k). Inr (sint v, k))"

definition argaddr :: "nat \<Rightarrow> nat \<Rightarrow> kernel \<Rightarrow> (u32 \<times> kernel) res" where
  "argaddr h n k = argraw h n k"

text \<open>A pointer argument with \<open>len\<close> bytes behind it; \<^term>\<open>None\<close> for the result \<open>-1\<close>.\<close>

definition argptr :: "nat \<Rightarrow> nat \<Rightarrow> int \<Rightarrow> kernel \<Rightarrow> (u32 option \<times> kernel) res" where
  "argptr h n len k =
     rbind (myproc h k) (\<lambda>(i, k).
     rbind (argint h n k) (\<lambda>(a, k).
       let sz = p_mem_size (procs k ! i) in
       if len < 0 \<or> of_int a \<ge> sz \<or> of_int a + of_int len > sz then Inr (None, k)
       else Inr (Some (of_int a), k)))"

section \<open>User memory\<close>

text \<open>A word of user memory, copied to the local at \<open>ip\<close>.\<close>

definition fetchaddr :: "senv \<Rightarrow> nat \<Rightarrow> u32 \<Rightarrow> u32 \<Rightarrow> kernel \<Rightarrow> (int \<times> kernel) res" where
  "fetchaddr e h addr ip k =
     rbind (myproc h k) (\<lambda>(i, k).
       let sz = p_mem_size (procs k ! i) in
       if addr \<ge> sz \<or> addr + 4 > sz then Inr (- 1, k)
       else rbind (on_mem (copyto (im_mem_end (e_im e)) (p_pagetable (procs k ! i)) ip addr 4) k) (\<lambda>(r, k).
         Inr (if r \<noteq> 0 then - 1 else 0, k)))"

definition fetchstr :: "senv \<Rightarrow> nat \<Rightarrow> u32 \<Rightarrow> u32 \<Rightarrow> u32 \<Rightarrow> kernel \<Rightarrow> (int \<times> kernel) res" where
  "fetchstr e h addr buf mx k =
     rbind (myproc h k) (\<lambda>(i, k).
     rbind (on_mem (copyinstr (im_mem_end (e_im e)) (p_pagetable (procs k ! i)) buf addr mx) k) (\<lambda>(err, k).
       if err < 0 then Inr (err, k)
       else case strlen (pmem k) buf of None \<Rightarrow> Inl Diverges | Some n \<Rightarrow> Inr (sint n, k)))"

definition argstr :: "senv \<Rightarrow> nat \<Rightarrow> nat \<Rightarrow> u32 \<Rightarrow> u32 \<Rightarrow> kernel \<Rightarrow> (int \<times> kernel) res" where
  "argstr e h n buf mx k = rbind (argaddr h n k) (\<lambda>(addr, k). fetchstr e h addr buf mx k)"

text \<open>The string in a buffer of \<open>n\<close> bytes at \<open>a\<close>.\<close>

definition cstring :: "mem \<Rightarrow> u32 \<Rightarrow> nat \<Rightarrow> byte list" where
  "cstring m a n = takeWhile (\<lambda>c. c \<noteq> 0) (map (\<lambda>i. m (a + of_nat i)) [0..<n])"

definition put_bytes :: "u32 \<Rightarrow> byte list \<Rightarrow> mem \<Rightarrow> mem" where
  "put_bytes a bs m = (\<lambda>x. if in_range x a (length bs) then bs ! unat (x - a) else m x)"

text \<open>The memory of the process behind the page table \<open>pt\<close>, as the file operations reach it. What is copied to
  it comes from the kernel object at \<open>stage\<close>, and what is copied from it goes there.\<close>

definition user_space :: "u32 \<Rightarrow> u32 \<Rightarrow> u32 \<Rightarrow> mem uspace" where
  "user_space mem_end pt stage =
     \<lparr>u_out = (\<lambda>a bs m. case copyout mem_end pt a stage (of_nat (length bs)) (put_bytes stage bs m) of
                Inr (r, m) \<Rightarrow> if r = 0 then Some m else None
              | Inl _ \<Rightarrow> None),
      u_in = (\<lambda>a n m. case copyto mem_end pt stage a n m of
                Inr (r, m) \<Rightarrow> (map (\<lambda>i. m (stage + of_nat i)) [0..<unat n], r = 0)
              | Inl _ \<Rightarrow> ([], False))\<rparr>"

section \<open>The current process and its arguments\<close>

lemma myproc_Some:
  assumes "myproc h k = Inr (i, k')"
  shows "cur k h = Some i" "procs k' = procs k" "kfiles k' = kfiles k" "cur k' = cur k" "pmem k' = pmem k"
proof -
  obtain c k1 where g: "get_process_struct h k = Inr (c, k1)" and c: "(case c of None \<Rightarrow> Inl (Fault ''no process'') | Some i \<Rightarrow> Inr (i, k1)) = Inr (i, k')"
    using assms by (auto simp: myproc_def rbind_eq_Inr)
  obtain m where "c = cur k h" "k1 = k\<lparr>mach := m\<rparr>" using g by (auto simp: get_process_struct_def rbind_eq_Inr)
  moreover have "c = Some i" "k' = k1" using c by (auto split: option.splits)
  ultimately show "cur k h = Some i" "procs k' = procs k" "kfiles k' = kfiles k" "cur k' = cur k" "pmem k' = pmem k" by (simp_all add: pmem_def)
qed

lemma myproc_post: "post (\<lambda>(i, k'). cur k h = Some i \<and> (\<exists>m. k' = k\<lparr>mach := m\<rparr>)) (myproc h k)"
  by (auto simp: post_def myproc_def get_process_struct_def rbind_eq_Inr split: option.splits)

lemma myproc_eval:
  assumes "depth k h = 0" "cur k h = Some i"
  shows "myproc h k = Inr (i, k\<lparr>mach := set_cpu h ((cpus (mach k) h)\<lparr>intr_prev_state := sie (cpus (mach k) h)\<rparr>) (mach k)\<rparr>)"
  using assms by (cases "cpus (mach k) h") (simp add: myproc_def get_process_struct_def pop_off_def push_off_def lock_intr_enable_def lock_intr_disable_def
      Let_def set_cpu_def)

lemma tf_word_mach [simp]: "tf_word i n (k\<lparr>mach := m\<rparr>) = tf_word i n k"
  by (simp add: tf_word_def pmem_def)

text \<open>The words of a trapframe are independent.\<close>

lemma aligned_tf:
  assumes "aligned4 a" "n mod 4 = 0"
  shows "aligned4 (a + of_nat n)"
proof -
  have "unat (a + of_nat n) mod 4 = (unat a + n) mod 4"
    by (simp add: unat_word_ariths unat_of_nat mod_mod_cancel mod_add_right_eq)
  then show ?thesis using assms by (simp add: aligned4_def mod_add_eq [symmetric])
qed

lemma tf_offsets_differ:
  assumes "m \<noteq> n" "m < TRAPFRAME_SIZE" "n < TRAPFRAME_SIZE"
  shows "(a :: u32) + of_nat m \<noteq> a + of_nat n"
  using assms by (auto simp: word_of_nat_eq_iff take_bit_nat_eq_self)

lemma tf_word_set_tf:
  assumes "aligned4 (p_trapframe (procs k ! i))" "m mod 4 = 0" "n mod 4 = 0" "m < TRAPFRAME_SIZE" "n < TRAPFRAME_SIZE"
  shows "tf_word i m (set_tf i n w k) = (if m = n then w else tf_word i m k)"
  using m32.ld_st [OF aligned_tf [OF assms(1,2)] aligned_tf [OF assms(1,3)]] tf_offsets_differ [of m n "p_trapframe (procs k ! i)"] assms(4,5)
  by (simp add: tf_word_def set_tf_def)

lemma set_tf_fields [simp]:
  "procs (set_tf i n w k) = procs k" "cur (set_tf i n w k) = cur k" "mach (set_tf i n w k) = mach k"
  by (simp_all add: set_tf_def)

lemma argraw_Inr:
  assumes "argraw h n k = Inr (v, k')"
  obtains i where "cur k h = Some i" "n \<le> 5" "v = tf_word i (TF_A0 + 4 * n) k" "procs k' = procs k" "kfiles k' = kfiles k" "cur k' = cur k"
proof -
  obtain i k1 where m: "myproc h k = Inr (i, k1)" and r: "n \<le> 5" "v = tf_word i (TF_A0 + 4 * n) k1" "k' = k1"
    using assms by (auto simp: argraw_def rbind_eq_Inr split: if_splits)
  note M = myproc_Some [OF m]
  have "tf_word i (TF_A0 + 4 * n) k1 = tf_word i (TF_A0 + 4 * n) k" using M by (simp add: tf_word_def)
  then show thesis using that M r by simp
qed

section \<open>Invariants of the kernel that system calls keep\<close>

text \<open>
  Most of what a system call does changes locks, memory and the file system. The locale collects what an
  invariant needs for that to be harmless, and derives that every routine built from such steps keeps it.
\<close>

lemma post_pure: "(\<And>x. post Q (f x)) \<Longrightarrow> post Q (rbind m f)"
  by (auto simp: post_def rbind_eq_Inr)

lemma post_nested: "(\<And>a b. x = (a, b) \<Longrightarrow> post Q (f a b k)) \<Longrightarrow> post Q ((case x of (a, b) \<Rightarrow> f a b) k)"
  by (cases x) auto

locale kernel_frame =
  fixes P :: "kernel \<Rightarrow> bool"
  assumes P_mach: "P k \<Longrightarrow> P (k\<lparr>mach := x\<rparr>)"
    and P_mem: "P k \<Longrightarrow> P (set_mem m k)"
    and P_fs: "P k \<Longrightarrow> P (k\<lparr>kfiles := (kfiles k)\<lparr>ffs := y\<rparr>\<rparr>)"
begin

abbreviation keeps :: "('a \<times> kernel) res \<Rightarrow> bool" where
  "keeps \<equiv> post (\<lambda>(_, k). P k)"

lemma bind2: "keeps m \<Longrightarrow> (\<And>r k. P k \<Longrightarrow> post Q (g r k)) \<Longrightarrow> post Q (rbind m (\<lambda>(r, k). g r k))"
  by (auto simp: post_def rbind_eq_Inr)

lemma bind1: "post P m \<Longrightarrow> (\<And>k. P k \<Longrightarrow> post Q (f k)) \<Longrightarrow> post Q (rbind m f)"
  by (rule post_bind)

lemma ret2: "P k \<Longrightarrow> keeps (Inr (r, k))"
  by (simp add: post_Inr)

lemma ret1: "P k \<Longrightarrow> post P (Inr k)"
  by (simp add: post_Inr)

lemma on_mem_keeps: "P k \<Longrightarrow> keeps (on_mem op k)"
  by (auto simp: post_def on_mem_def rbind_eq_Inr P_mem)

lemma do_mem_keeps: "P k \<Longrightarrow> post P (do_mem op k)"
  by (auto simp: post_def do_mem_def rbind_eq_Inr P_mem)

lemma on_fs_keeps: "P k \<Longrightarrow> keeps (on_fs op k)"
  by (auto simp: post_def on_fs_def rbind_eq_Inr P_fs)

lemma acq_keeps: "P k \<Longrightarrow> post P (acq h l k)"
  by (auto simp: post_def acq_def rbind_eq_Inr P_mach)

lemma rel_keeps: "P k \<Longrightarrow> post P (rel h l k)"
  by (auto simp: post_def rel_def rbind_eq_Inr P_mach)

lemma get_process_struct_keeps: "P k \<Longrightarrow> keeps (get_process_struct h k)"
  by (auto simp: post_def get_process_struct_def rbind_eq_Inr P_mach)

lemmas keep_base = bind2 bind1 ret2 ret1 post_intros post_nested on_mem_keeps do_mem_keeps on_fs_keeps acq_keeps rel_keeps
  get_process_struct_keeps P_mem P_mach

lemma myproc_keeps: "P k \<Longrightarrow> keeps (myproc h k)"
  unfolding myproc_def by (rule keep_base | assumption)+

lemma argraw_keeps: "P k \<Longrightarrow> keeps (argraw h n k)"
  unfolding argraw_def by (rule keep_base myproc_keeps | assumption)+

lemma argint_keeps: "P k \<Longrightarrow> keeps (argint h n k)"
  unfolding argint_def by (rule keep_base argraw_keeps | assumption)+

lemma argaddr_keeps: "P k \<Longrightarrow> keeps (argaddr h n k)"
  unfolding argaddr_def by (rule argraw_keeps)

lemma fetchaddr_keeps: "P k \<Longrightarrow> keeps (fetchaddr e h addr ip k)"
  unfolding fetchaddr_def by (rule keep_base myproc_keeps | assumption)+

lemma fetchstr_keeps: "P k \<Longrightarrow> keeps (fetchstr e h addr buf mx k)"
  unfolding fetchstr_def by (rule keep_base myproc_keeps | assumption)+

lemma argstr_keeps: "P k \<Longrightarrow> keeps (argstr e h n buf mx k)"
  unfolding argstr_def by (rule keep_base argaddr_keeps fetchstr_keeps | assumption)+

lemmas keep_args = keep_base myproc_keeps argraw_keeps argint_keeps argaddr_keeps fetchaddr_keeps fetchstr_keeps argstr_keeps

end

end
