(* ===== verification/Scheduling.thy ===== *)
theory Scheduling
  imports Process
begin

text \<open>
  Processes and harts together: the operations of theory \<open>Process\<close> as the steps of a system in which
  any number of harts run, an invariant of all its reachable states, and the properties of the single
  operations: what they return and change, when they return at all, and what goes wrong in
  \<^verbatim>\<open>fork\<close>, \<^verbatim>\<open>wait\<close> and \<^verbatim>\<open>exit\<close>.
\<close>

section \<open>Harts, processes and the scheduler as a step relation\<close>

text \<open>What a hart is doing: looking for a process, having just switched to one, running one, or having
  just switched back to the scheduler. How a suspended process goes on: behind the \<^verbatim>\<open>scheduler()\<close> of
  \<^verbatim>\<open>yield_process\<close> or of \<^verbatim>\<open>sleep\<close>, or, when it has never run, in \<^verbatim>\<open>forkret\<close>.\<close>

datatype activity = Searching | Entering nat | Running nat | Leaving nat

datatype cont = FromFork | FromYield bool | FromSleep bool

type_synonym system = "kernel \<times> (nat \<Rightarrow> activity) \<times> (nat \<Rightarrow> cont)"

definition resume :: "nat \<Rightarrow> nat \<Rightarrow> cont \<Rightarrow> kernel \<Rightarrow> kernel res" where
  "resume h i c k =
     (case c of FromFork \<Rightarrow> forkret h i k | FromYield b \<Rightarrow> yield_resume h i b k | FromSleep b \<Rightarrow> sleep_wake h i b k)"

text \<open>One step of the system is a step of one hart: the stretches of code between two points where it
  holds no process lock, or between such a point and a context switch. The lock a sleeper takes again,
  and any other lock outside the process table, is taken and released in steps of its own.
  \<^verbatim>\<open>fork\<close> is three steps; the last one makes the child runnable, and its premise, that the slot has
  not been made runnable since, is what the code does not ensure.\<close>

inductive sys_step :: "system \<Rightarrow> system \<Rightarrow> bool" where
  round: "a h = Searching \<Longrightarrow> sys_step (k, a, c) (sched_round h k, a, c)"
| skip: "a h = Searching \<Longrightarrow> i < MAXPROC \<Longrightarrow> sched_visit h i k = Inr (False, k') \<Longrightarrow> sys_step (k, a, c) (k', a, c)"
| pick: "a h = Searching \<Longrightarrow> i < MAXPROC \<Longrightarrow> sched_visit h i k = Inr (True, k') \<Longrightarrow>
    sys_step (k, a, c) (k', a(h := Entering i), c)"
| start: "a h = Entering i \<Longrightarrow> resume h i (c i) k = Inr k' \<Longrightarrow> sys_step (k, a, c) (k', a(h := Running i), c)"
| switched: "a h = Leaving i \<Longrightarrow> sched_back h i k = Inr k' \<Longrightarrow> sys_step (k, a, c) (k', a(h := Searching), c)"
| yield: "a h = Running i \<Longrightarrow> yield_enter h k = Inr (b, k') \<Longrightarrow>
    sys_step (k, a, c) (k', a(h := Leaving i), c(i := FromYield b))"
| sleep: "a h = Running i \<Longrightarrow> sleep_enter h ch l k = Inr (b, k') \<Longrightarrow>
    sys_step (k, a, c) (k', a(h := Leaving i), c(i := FromSleep b))"
| finish: "a h = Running i \<Longrightarrow> exit im h status k = Inr (b, k') \<Longrightarrow> sys_step (k, a, c) (k', a(h := Leaving i), c)"
| wait_done: "a h = Running i \<Longrightarrow> wait im h addrs k = Inr (Waited v k') \<Longrightarrow> sys_step (k, a, c) (k', a, c)"
| wait_sleep: "a h = Running i \<Longrightarrow> wait im h addrs k = Inr (Waits b k') \<Longrightarrow>
    sys_step (k, a, c) (k', a(h := Leaving i), c(i := FromSleep b))"
| fork1: "a h = Running i \<Longrightarrow> fork_prepare im h i k = Inr (r, k') \<Longrightarrow> sys_step (k, a, c) (k', a, c)"
| fork2: "a h = Running i \<Longrightarrow> fork_parent h i np k = Inr k' \<Longrightarrow> sys_step (k, a, c) (k', a, c)"
| fork3: "a h = Running i \<Longrightarrow> pst k np = UNUSED \<Longrightarrow> fork_publish h np k = Inr k' \<Longrightarrow>
    sys_step (k, a, c) (k', a, c(np := FromFork))"
| wake: "a h \<in> {Searching, Running i} \<Longrightarrow> wakeup h ch k = Inr k' \<Longrightarrow> sys_step (k, a, c) (k', a, c)"
| killing: "a h = Running i \<Longrightarrow> kill h pid k = Inr (r, k') \<Longrightarrow> sys_step (k, a, c) (k', a, c)"
| grow: "a h = Running i \<Longrightarrow> growproc im h n k = Inr (r, k') \<Longrightarrow> sys_step (k, a, c) (k', a, c)"
| other_acq: "a h = Running i \<Longrightarrow> MAXPROC \<le> l \<Longrightarrow> acq h l k = Inr k' \<Longrightarrow> sys_step (k, a, c) (k', a, c)"
| other_rel: "a h = Running i \<Longrightarrow> MAXPROC \<le> l \<Longrightarrow> rel h l k = Inr k' \<Longrightarrow> sys_step (k, a, c) (k', a, c)"
| other_quiet: "a h = Running i \<Longrightarrow> quiet k k' \<Longrightarrow> sys_step (k, a, c) (k', a, c)"

inductive_cases sys_stepE: "sys_step s s'"

text \<open>The invariant: the scheduler of a hart has no process and no lock; a hart that runs a process
  has it as its current one and the process is \<^term>\<open>RUNNING\<close>; at either end of a context switch the
  hart holds the lock of the process and no other; no process is the current one of two harts.\<close>

definition act_ok :: "kernel \<Rightarrow> nat \<Rightarrow> activity \<Rightarrow> bool" where
  "act_ok k h act \<longleftrightarrow>
     (case act of
        Searching \<Rightarrow> cur k h = None \<and> depth k h = 0
      | Entering i \<Rightarrow> i < MAXPROC \<and> cur k h = Some i \<and> holds k h i \<and> depth k h = 1 \<and> pst k i = RUNNING
      | Running i \<Rightarrow> i < MAXPROC \<and> cur k h = Some i \<and> pst k i = RUNNING
      | Leaving i \<Rightarrow> i < MAXPROC \<and> leaving h i k)"

fun sys_inv :: "system \<Rightarrow> bool" where
  "sys_inv (k, a, c) \<longleftrightarrow> length (procs k) = MAXPROC \<and> (\<forall>h. cpu_ok (hart k h) \<and> act_ok k h (a h))
     \<and> (\<forall>g h i. cur k g = Some i \<longrightarrow> cur k h = Some i \<longrightarrow> g = h)"

lemma act_ok_simps [simp]:
  "act_ok k h Searching \<longleftrightarrow> cur k h = None \<and> depth k h = 0"
  "act_ok k h (Entering i) \<longleftrightarrow> i < MAXPROC \<and> cur k h = Some i \<and> holds k h i \<and> depth k h = 1 \<and> pst k i = RUNNING"
  "act_ok k h (Running i) \<longleftrightarrow> i < MAXPROC \<and> cur k h = Some i \<and> pst k i = RUNNING"
  "act_ok k h (Leaving i) \<longleftrightarrow> i < MAXPROC \<and> leaving h i k"
  by (simp_all add: act_ok_def)

lemma act_ok_other:
  assumes "frame h X k k'" "g \<noteq> h" "act_ok k g act" "\<And>j. j \<in> X \<Longrightarrow> cur k g \<noteq> Some j"
  shows "act_ok k' g act"
proof -
  have "\<forall>j. cur k g = Some j \<longrightarrow> j \<notin> X" using assms(4) by auto
  then show ?thesis using assms(1-3) by (cases act) (auto simp: frame_def leaving_def)
qed

lemma sys_inv_frame:
  assumes "sys_inv (k, a, c)" "frame h X k k'" "\<And>j. j \<in> X \<Longrightarrow> cur k h = Some j" "act_ok k' h act"
  shows "sys_inv (k', a(h := act), c')"
proof -
  have "act_ok k' g (a g)" if "g \<noteq> h" for g
  proof (rule act_ok_other [OF assms(2) that])
    show "act_ok k g (a g)" using assms(1) by simp
    show "cur k g \<noteq> Some j" if "j \<in> X" for j using assms(1) assms(3) [OF that] \<open>g \<noteq> h\<close> by auto
  qed
  moreover have "cpu_ok (hart k' g)" for g using assms(1,2) by (cases "g = h") (auto simp: frame_def)
  moreover have "length (procs k') = MAXPROC" "cur k' = cur k"
    using assms(1) frame_length [OF assms(2)] frame_cur [OF assms(2)] by auto
  ultimately show ?thesis using assms(1,4) by auto
qed

lemma sys_inv_run:
  assumes "sys_inv (k, a, c)" "frame h {} k k'" "a h = Running i"
  shows "sys_inv (k', a, c')"
proof -
  have "act_ok k h (Running i)" using assms(1,3) by (metis sys_inv.simps)
  then have "act_ok k' h (Running i)" using assms(2) by (auto simp: frame_def)
  from sys_inv_frame [OF assms(1,2) _ this, of c'] assms(3) show ?thesis by (simp add: fun_upd_idem)
qed

lemma sys_inv_leave:
  assumes "sys_inv (k, a, c)" "a h = Running i" "\<exists>j. cur k h = Some j \<and> leaving h j k' \<and> frame h {j} k k'"
  shows "sys_inv (k', a(h := Leaving i), c')"
proof -
  have "act_ok k h (Running i)" using assms(1,2) by (metis sys_inv.simps)
  with assms(3) have l: "leaving h i k'" "frame h {i} k k'" "cur k h = Some i" "i < MAXPROC" by auto
  show ?thesis using l by (intro sys_inv_frame [OF assms(1) l(2)]) auto
qed

lemma resume_frame:
  assumes "cpu_ok (hart k h)" "resume h i c k = Inr k'"
  shows "frame h {} k k'"
proof -
  have sr: "frame h {} k (scheduler_resume h b k)" for b
    using assms(1) by (auto simp: scheduler_resume_def frame_def holds_def cpu_ok_def)
  show ?thesis
  proof (cases c)
    case FromFork
    with assms(2) obtain k1 where k1: "rel h i k = Inr k1" by (auto simp: resume_def forkret_def rbind_eq_Inr)
    note R = rel_frame(1) [OF assms(1) k1]
    have "quiet k1 k'"
    proof (cases "first k1")
      case True
      with FromFork assms(2) k1 obtain op and x :: unit where o: "on_fs op (k1\<lparr>first := False\<rparr>) = Inr (x, k')"
        by (auto simp: resume_def forkret_def rbind_eq_Inr)
      have "quiet k1 (k1\<lparr>first := False\<rparr>)" by (simp add: quiet_def)
      then show ?thesis by (rule quiet_trans [OF _ quiet_ops(4) [OF o]])
    next
      case False
      then show ?thesis using FromFork assms(2) k1 by (simp add: resume_def forkret_def)
    qed
    then show ?thesis using frame_trans [OF R quiet_frame] frame_ok [OF R] by blast
  next
    case (FromYield b)
    then show ?thesis using frame_trans [OF sr rel_frame(1) [OF frame_ok [OF sr]]] assms(2)
      by (auto simp: resume_def yield_resume_def)
  next
    case (FromSleep b)
    have u: "frame h {} k (upd_proc i (\<lambda>p. p\<lparr>p_chan := NoChan\<rparr>) (scheduler_resume h b k))"
      by (rule frame_trans [OF sr quiet_frame [OF quiet_upd frame_ok [OF sr]]]) simp
    then show ?thesis using frame_trans [OF u rel_frame(1) [OF frame_ok [OF u]]] assms(2) FromSleep
      by (auto simp: resume_def sleep_wake_def)
  qed
qed

lemma sched_visit_inv:
  assumes "sys_inv (k, a, c)" "a h = Searching" "i < MAXPROC" "sched_visit h i k = Inr (r, k')"
  shows "sys_inv (k', if r then a(h := Entering i) else a, c)"
proof -
  have S: "act_ok k h Searching" and ok: "cpu_ok (hart k h)" and len: "length (procs k) = MAXPROC"
    using assms(1,2) by (auto dest: spec [of _ h])
  obtain k1 where k1: "acq h i k = Inr k1" using assms(4) by (auto simp: sched_visit_def rbind_eq_Inr)
  note A = acq_frame [OF ok k1]
  show ?thesis
  proof (cases "pst k1 i = RUNNABLE")
    case False
    then have r: "rel h i k1 = Inr k'" "\<not> r" using assms(4) k1 by (auto simp: sched_visit_def rbind_eq_Inr)
    note R = rel_frame [OF frame_ok [OF A(1)] r(1)]
    have f: "frame h {} k k'" by (rule frame_trans [OF A(1) R(1)])
    have "act_ok k' h Searching" using S A(3) R(3) frame_cur [OF f] by simp
    from sys_inv_frame [OF assms(1) f _ this, of c] assms(2) r(2) show ?thesis by (simp add: fun_upd_idem)
  next
    case True
    define k2 where "k2 = upd_proc i (\<lambda>p. p\<lparr>p_state := RUNNING\<rparr>) k1"
    have k': "k' = k2\<lparr>cur := (cur k2)(h := Some i)\<rparr>" "r"
      using True assms(4) k1 by (auto simp: sched_visit_def Let_def k2_def)
    have i1: "i < length (procs k1)" using A(5) len assms(3) by simp
    have others: "cur k g \<noteq> Some i" if "g \<noteq> h" for g
    proof
      assume "cur k g = Some i"
      moreover have "act_ok k g (a g)" using assms(1) by simp
      ultimately show False using A(5,6) True by (cases "a g") (auto simp: leaving_def)
    qed
    have f2: "frame h {} k k2" unfolding k2_def
      by (rule frame_trans [OF A(1) upd_frame [OF frame_ok [OF A(1)] A(2)]]) (simp add: True)
    have act2: "act_ok k2 g (a g)" if "g \<noteq> h" for g using act_ok_other [OF f2 that] assms(1) by simp
    have "act_ok k' g (a g)" if "g \<noteq> h" for g
      using act2 [OF that] that by (cases "a g") (auto simp: k'(1) leaving_def holds_def)
    moreover have "act_ok k' h (Entering i)"
      using S A(2,3) assms(3) i1 by (simp add: k' k2_def holds_def nth_upd_proc)
    moreover have "cpu_ok (hart k' g)" for g using assms(1) f2 by (cases "g = h") (auto simp: frame_def k'(1))
    moreover have "length (procs k') = MAXPROC" using frame_length [OF f2] len by (simp add: k'(1))
    moreover have "cur k' = (cur k)(h := Some i)" using frame_cur [OF f2] by (simp add: k'(1))
    ultimately show ?thesis using assms(1) others k'(2) by auto
  qed
qed

lemma sched_back_inv:
  assumes "sys_inv (k, a, c)" "a h = Leaving i" "sched_back h i k = Inr k'"
  shows "sys_inv (k', a(h := Searching), c)"
proof -
  have L: "act_ok k h (Leaving i)" and ok: "cpu_ok (hart k h)" and len: "length (procs k) = MAXPROC"
    using assms(1,2) by (auto dest: spec [of _ h])
  let ?k1 = "k\<lparr>cur := (cur k)(h := None)\<rparr>"
  have r: "rel h i ?k1 = Inr k'" using assms(3) by (simp add: sched_back_def)
  have ok1: "cpu_ok (hart ?k1 h)" using ok by simp
  note R = rel_frame [OF ok1 r]
  have "act_ok ?k1 g (a g)" if "g \<noteq> h" for g
  proof -
    have "act_ok k g (a g)" using assms(1) by simp
    then show ?thesis using that by (cases "a g") (auto simp: leaving_def holds_def)
  qed
  then have "act_ok k' g (a g)" if "g \<noteq> h" for g using act_ok_other [OF R(1) [of "{}"]] that by simp
  moreover have "act_ok k' h Searching" using L R(3) frame_cur [OF R(1)] by (simp add: leaving_def)
  moreover have "cpu_ok (hart k' g)" for g using assms(1) R(1) [of "{}"] by (cases "g = h") (auto simp: frame_def)
  moreover have "length (procs k') = MAXPROC" "cur k' = (cur k)(h := None)"
    using frame_length [OF R(1) [of "{}"]] len frame_cur [OF R(1) [of "{}"]] by auto
  ultimately show ?thesis using assms(1) by auto
qed

lemma sys_step_inv:
  assumes "sys_step s s'" "sys_inv s"
  shows "sys_inv s'"
  using assms
proof (induction rule: sys_step.induct)
  case (round a h k c)
  have "act_ok k h (a h)" using round.prems by simp
  moreover have "frame h {} k (sched_round h k)"
    using calculation round.hyps by (auto simp: sched_round_def frame_def holds_def cpu_ok_def)
  moreover have "cur (sched_round h k) = cur k" "depth (sched_round h k) h = depth k h" by (simp_all add: sched_round_def)
  ultimately have "sys_inv (sched_round h k, a(h := Searching), c)"
    using round.hyps by (intro sys_inv_frame [OF round.prems]) auto
  then show ?case using round.hyps by (simp add: fun_upd_idem)
next
  case (skip a h i k k' c)
  from sched_visit_inv [OF skip.prems skip.hyps] show ?case by simp
next
  case (pick a h i k k' c)
  from sched_visit_inv [OF pick.prems pick.hyps] show ?case by simp
next
  case (start a h i c k k')
  have e: "act_ok k h (Entering i)" "cpu_ok (hart k h)" using start by (auto dest: spec [of _ h])
  note f = resume_frame [OF e(2) start.hyps(2)]
  have "act_ok k' h (Running i)" using e(1) f by (auto simp: frame_def)
  then show ?case by (intro sys_inv_frame [OF start.prems f]) auto
next
  case (switched a h i k k' c)
  from sched_back_inv [OF switched.prems switched.hyps] show ?case .
next
  case (yield a h i k b k' c)
  then show ?case using yield_enter_leaving by (intro sys_inv_leave [OF yield.prems yield.hyps(1)]) auto
next
  case (sleep a h i ch l k b k' c)
  then show ?case using sleep_enter_leaving by (intro sys_inv_leave [OF sleep.prems sleep.hyps(1)]) auto
next
  case (finish a h i im status k b k' c)
  have ok: "cpu_ok (hart k h)" "length (procs k) = MAXPROC" using finish.prems by auto
  from exit_leaving [OF ok finish.hyps(2)] show ?case by (rule sys_inv_leave [OF finish.prems finish.hyps(1)])
next
  case (wait_done a h i im addrs k v k' c)
  have "cpu_ok (hart k h)" using wait_done.prems by simp
  from wait_frame [OF this wait_done.hyps(2)] show ?case using sys_inv_run [OF wait_done.prems _ wait_done.hyps(1)] by simp
next
  case (wait_sleep a h i im addrs k b k' c)
  have "cpu_ok (hart k h)" using wait_sleep.prems by simp
  from wait_frame [OF this wait_sleep.hyps(2)] show ?case
    by (intro sys_inv_leave [OF wait_sleep.prems wait_sleep.hyps(1)]) simp
next
  case (fork1 a h i im k r k' c)
  then show ?case using fork_prepare_frame(1) sys_inv_run by (metis sys_inv.simps)
next
  case (fork2 a h i np k k' c)
  then show ?case using fork_parent_frame sys_inv_run by (metis sys_inv.simps)
next
  case (fork3 a h i k np k' c)
  then have "frame h {} k k'" by (intro fork_publish_frame) auto
  then show ?case using sys_inv_run [OF fork3.prems] fork3.hyps(1) by blast
next
  case (wake a h i ch k k' c)
  have ok: "cpu_ok (hart k h)" "length (procs k) = MAXPROC" "act_ok k h (a h)" using wake.prems by auto
  note W = wakeup_frame [OF ok(1,2) wake.hyps(2)]
  have "act_ok k' h (a h)" using ok(3) wake.hyps(1) W by (auto simp: frame_def balanced_def)
  from sys_inv_frame [OF wake.prems W(1) _ this, of c] show ?case by simp
next
  case (killing a h i pid k r k' c)
  then show ?case using kill_frame sys_inv_run by (metis sys_inv.simps)
next
  case (grow a h i im n k r k' c)
  then show ?case using growproc_frame sys_inv_run by (metis sys_inv.simps)
next
  case (other_acq a h i l k k' c)
  then show ?case using acq_frame(1) sys_inv_run by (metis sys_inv.simps)
next
  case (other_rel a h i l k k' c)
  then show ?case using rel_frame(1) sys_inv_run by (metis sys_inv.simps)
next
  case (other_quiet a h i k k' c)
  then show ?case using quiet_frame sys_inv_run by (metis sys_inv.simps)
qed

lemma sys_steps_inv: "sys_step\<^sup>*\<^sup>* s s' \<Longrightarrow> sys_inv s \<Longrightarrow> sys_inv s'"
  by (induction rule: rtranclp_induct) (auto intro: sys_step_inv)

text \<open>The state the harts start from: no process runs, no hart holds a lock.\<close>

definition idle :: "kernel \<Rightarrow> bool" where
  "idle k \<longleftrightarrow> length (procs k) = MAXPROC \<and> (\<forall>h. cur k h = None \<and> depth k h = 0)"

lemma idle_inv: "idle k \<Longrightarrow> sys_inv (k, \<lambda>_. Searching, c)"
  by (auto simp: idle_def cpu_ok_def)

lemma alloc_scan_returns:
  assumes "cpu_ok (hart k h)" "\<And>i. i \<in> set is \<Longrightarrow> locked (spin (mach k) i) = 0"
  shows "\<exists>k'. alloc_scan h is k = Inr (find (\<lambda>i. pst k i = UNUSED) is, k')"
  using assms
proof (induction "is" arbitrary: k)
  case (Cons i "is")
  have "locked (spin (mach k) i) = 0" using Cons.prems(2) by simp
  then obtain k1 where k1: "acq h i k = Inr k1" "procs k1 = procs k" "\<exists>k'. rel h i k1 = Inr k'"
    by (rule section_returns [OF Cons.prems(1)]) (rule that)
  then obtain k2 where k2: "rel h i k1 = Inr k2" by blast
  show ?case
  proof (cases "pst k i = UNUSED")
    case True
    then show ?thesis using k1 by simp
  next
    case False
    have "k1 = k1\<lparr>procs := procs k\<rparr>" using k1(2) by simp
    note S = section_balanced [OF Cons.prems(1) k1(1) k2 this]
    have "\<exists>k'. alloc_scan h is k2 = Inr (find (\<lambda>i. pst k2 i = UNUSED) is, k')"
      using S(1) Cons.prems(2) by (intro Cons.IH) (auto simp: balanced_def)
    then show ?thesis using k1 k2 False S(2) by simp
  qed
qed simp

lemma wait_scan_runs_off:
  assumes "cpu_ok (hart k h)" "length (procs k) \<in> set is" "\<And>i. i \<in> set is \<Longrightarrow> i \<le> length (procs k)"
    "\<And>i. i \<in> set is \<Longrightarrow> i < length (procs k) \<Longrightarrow> p_parent (procs k ! i) = Some c \<Longrightarrow>
       locked (spin (mach k) i) = 0 \<and> pst k i \<noteq> ZOMBIE"
  shows "wait_scan im h c addrs kids is k = Inl (Fault ''process table'')"
  using assms
proof (induction "is" arbitrary: k kids)
  case (Cons i "is")
  show ?case
  proof (cases "length (procs k) \<le> i")
    case False
    then have i: "length (procs k) \<in> set is" using Cons.prems(2) by auto
    show ?thesis
    proof (cases "p_parent (procs k ! i) = Some c")
      case True
      have fr: "locked (spin (mach k) i) = 0" "pst k i \<noteq> ZOMBIE" using Cons.prems(4) [of i] True False by auto
      from fr(1) obtain k1 where k1: "acq h i k = Inr k1" "procs k1 = procs k" "\<exists>k'. rel h i k1 = Inr k'"
        by (rule section_returns [OF Cons.prems(1)]) (rule that)
      then obtain k2 where k2: "rel h i k1 = Inr k2" by blast
      have "k1 = k1\<lparr>procs := procs k\<rparr>" using k1(2) by simp
      note S = section_balanced [OF Cons.prems(1) k1(1) k2 this]
      have "wait_scan im h c addrs True is k2 = Inl (Fault ''process table'')"
        using S Cons.prems(3,4) i by (intro Cons.IH) (auto simp: balanced_def)
      then show ?thesis using True False fr k1 k2 by simp
    next
      case nochild: False
      have "wait_scan im h c addrs kids is k = Inl (Fault ''process table'')"
        using Cons.prems i by (intro Cons.IH) auto
      then show ?thesis using nochild False by simp
    qed
  qed simp
qed simp

text \<open>The parents, through the operations of \<^verbatim>\<open>exit\<close>.\<close>

lemma wakeup_parent:
  assumes "cpu_ok (hart k h)" "length (procs k) = MAXPROC" "wakeup h ch k = Inr k'"
  shows "p_parent (procs k' ! j) = p_parent (procs k ! j)"
proof -
  have "set [0..<MAXPROC] \<subseteq> {..<length (procs k)}" using assms(2) by auto
  from wakeup_loop_spec [OF assms(1) assms(3) [unfolded wakeup_def] this] show ?thesis by (simp add: woken_def)
qed

lemma reparent_loop_parent:
  assumes "reparent_loop h pp is k = Inr k'" "cpu_ok (hart k h)" "length (procs k) = MAXPROC"
    "p_parent (procs k ! j) \<noteq> Some pp"
  shows "p_parent (procs k' ! j) = p_parent (procs k ! j)"
  using assms
proof (induction "is" arbitrary: k)
  case (Cons i "is")
  show ?case
  proof (cases "p_parent (procs k ! i) = Some pp")
    case True
    let ?k1 = "upd_proc i (\<lambda>p. p\<lparr>p_parent := initproc k\<rparr>) k"
    obtain ch k2 where k2: "wakeup h ch ?k1 = Inr k2" "reparent_loop h pp is k2 = Inr k'"
      using Cons.prems(1) True by (auto simp: rbind_eq_Inr Let_def)
    have c1: "cpu_ok (hart ?k1 h)" "length (procs ?k1) = MAXPROC" using Cons.prems(2,3) by auto
    note W = wakeup_frame [OF c1 k2(1)] wakeup_parent [OF c1 k2(1), of j]
    have "j \<noteq> i" using True Cons.prems(4) by auto
    then have p: "p_parent (procs k2 ! j) = p_parent (procs k ! j)" using W(4) by (simp add: nth_upd_proc)
    then show ?thesis using Cons.IH [OF k2(2) frame_ok [OF W(1)] W(3)] Cons.prems(4) by simp
  next
    case False
    then show ?thesis using Cons by simp
  qed
qed simp

lemma wait_scan_append_fault:
  assumes "wait_scan im h c addrs kids is k = Inl e"
  shows "wait_scan im h c addrs kids (is @ js) k = Inl e"
  using assms
proof (induction "is" arbitrary: k kids)
  case (Cons i "is")
  have step: "rbind m (wait_scan im h c addrs True (is @ js)) = Inl e" if "rbind m (wait_scan im h c addrs True is) = Inl e" for m
    using that Cons.IH by (cases m) auto
  show ?case
  proof (cases "length (procs k) \<le> i \<or> p_parent (procs k ! i) \<noteq> Some c")
    case True
    then show ?thesis using Cons by (auto split: if_splits)
  next
    case False
    show ?thesis
    proof (cases "acq h i k")
      case (Inl err)
      then show ?thesis using Cons.prems False by simp
    next
      case (Inr k1)
      then show ?thesis using Cons.prems False step by (cases "pst k1 i = ZOMBIE") auto
    qed
  qed
qed simp

lemma sleep_enter_state:
  assumes "cpu_ok (hart k h)" "sleep_enter h ch l k = Inr (b, k')" "cur k h = Some i" "i < length (procs k)"
  shows "pst k' i = SLEEPING" "p_chan (procs k' ! i) = ch" "i \<noteq> l \<longrightarrow> \<not> holds k' h l"
proof -
  obtain j k1 k2 k3 where k: "myproc h k = Inr (j, k1)" "acq h j k1 = Inr k2" "rel h l k2 = Inr k3"
    "scheduler_enter h (upd_proc j (\<lambda>p. p\<lparr>p_chan := ch, p_state := SLEEPING\<rparr>) k3) = Inr (b, k')"
    using assms(2) by (auto simp: sleep_enter_def rbind_eq_Inr)
  note M = myproc_frame [OF assms(1) k(1)]
  note A = acq_frame [OF frame_ok [OF M(2)] k(2)]
  note R = rel_frame [OF frame_ok [OF A(1)] k(3)]
  let ?k4 = "upd_proc j (\<lambda>p. p\<lparr>p_chan := ch, p_state := SLEEPING\<rparr>) k3"
  have ok4: "cpu_ok (hart ?k4 h)" using frame_ok [OF R(1)] by simp
  note S = scheduler_enter_leaving(3) [OF ok4 k(4)] and S2 = scheduler_enter_leaving(5) [OF ok4 k(4)]
  show "pst k' i = SLEEPING" "p_chan (procs k' ! i) = ch"
    using S M(1,3) A(5) R(4) assms(3,4) by (simp_all add: nth_upd_proc)
  show "i \<noteq> l \<longrightarrow> \<not> holds k' h l" using R(6) [of h] S2 by simp
qed

section \<open>When the operations return\<close>

lemma kill_loop_returns:
  assumes "cpu_ok (hart k h)" "\<And>i. i \<in> set is \<Longrightarrow> locked (spin (mach k) i) = 0"
  shows "\<exists>r k'. kill_loop h pid is k = Inr (r, k')"
  using assms
proof (induction "is" arbitrary: k)
  case (Cons i "is")
  have "locked (spin (mach k) i) = 0" using Cons.prems(2) by simp
  then obtain k1 where k1: "acq h i k = Inr k1" "procs k1 = procs k" "\<And>ps. \<exists>k'. rel h i (k1\<lparr>procs := ps\<rparr>) = Inr k'"
    "\<exists>k'. rel h i k1 = Inr k'"
    by (rule section_returns [OF Cons.prems(1)]) (rule that)
  show ?case
  proof (cases "p_pid (procs k1 ! i) = pid")
    case True
    let ?k2 = "let k = upd_proc i (\<lambda>p. p\<lparr>p_killed := 1\<rparr>) k1
        in if pst k i = SLEEPING then upd_proc i (\<lambda>p. p\<lparr>p_state := RUNNABLE\<rparr>) k else k"
    have "\<exists>ps. ?k2 = k1\<lparr>procs := ps\<rparr>" by (auto simp: upd_proc_def Let_def)
    then obtain k' where "rel h i ?k2 = Inr k'" using k1(3) by metis
    then show ?thesis using k1(1) True by (auto simp: Let_def)
  next
    case False
    obtain k2 where k2: "rel h i k1 = Inr k2" using k1(4) by blast
    have "k1 = k1\<lparr>procs := procs k\<rparr>" using k1(2) by simp
    note S = section_balanced [OF Cons.prems(1) k1(1) k2 this]
    have "\<exists>r k'. kill_loop h pid is k2 = Inr (r, k')"
      using S(1) Cons.prems(2) by (intro Cons.IH) (auto simp: balanced_def)
    then show ?thesis using k1(1) k2 False by simp
  qed
qed simp

lemma myproc_returns:
  assumes "cpu_ok (hart k h)" "cur k h = Some i"
  obtains k' where "myproc h k = Inr (i, k')" "balanced h k k'" "procs k' = procs k" "spin (mach k') = spin (mach k)"
proof -
  obtain k' where "get_process_struct h k = Inr (cur k h, k')" "balanced h k k'" "procs k' = procs k"
    "spin (mach k') = spin (mach k)" by (rule get_process_struct_balanced [OF assms(1)])
  then show thesis using that assms(2) by (simp add: myproc_def)
qed

lemma scheduler_enter_returns:
  assumes "cpu_ok (hart k h)" "cur k h = Some i" "holds k h i" "depth k h = 1" "pst k i \<noteq> RUNNING"
  shows "\<exists>b k'. scheduler_enter h k = Inr (b, k')"
proof -
  obtain k1 where k1: "myproc h k = Inr (i, k1)" "balanced h k k1" "procs k1 = procs k"
    by (rule myproc_returns [OF assms(1,2)])
  have ok1: "cpu_ok (hart k1 h)" "depth k1 h = 1" "holds k1 h i" using k1(2) assms by (auto simp: balanced_def)
  obtain m where m0: "is_holding h i (mach k1) = Inr (locked (spin (mach k1) i) \<noteq> 0 \<and> lcpu (spin (mach k1) i) = Some h, m)"
    "depth_lock_intr_disable (cpus m h) = depth k1 h" "sie (cpus m h) = sie (hart k1 h)"
    by (rule is_holding_spec [OF ok1(1), where l = i]) (rule that)
  have "\<not> sie (cpus m h)" using ok1 m0(3) by (simp add: cpu_ok_def)
  then show ?thesis using k1 m0 [folded holds_def] ok1 assms(5) by (simp add: scheduler_enter_def Let_def)
qed

lemma sleep_enter_returns:
  assumes "cpu_ok (hart k h)" "cur k h = Some i" "i < length (procs k)" "locked (spin (mach k) i) = 0"
    and "holds k h l" "depth k h = 1"
  shows "\<exists>b k'. sleep_enter h ch l k = Inr (b, k')"
proof -
  obtain k1 where k1: "myproc h k = Inr (i, k1)" "balanced h k k1" "procs k1 = procs k" "spin (mach k1) = spin (mach k)"
    by (rule myproc_returns [OF assms(1,2)])
  have b1: "cpu_ok (hart k1 h)" "depth k1 h = 1" "holds k1 h l" "cur k1 h = Some i"
    using k1(2) assms by (auto simp: balanced_def)
  obtain k2 where k2: "acq h i k1 = Inr k2" using acq_returns [OF b1(1)] assms(4) k1(4) by auto
  note A = acq_frame [OF b1(1) k2]
  have li: "i \<noteq> l" using assms(4,5) by (auto simp: holds_def)
  obtain k3 where k3: "rel h l k2 = Inr k3"
    using rel_returns [OF frame_ok [OF A(1)] A(7) [OF b1(3)]] A(3) b1(2) by auto
  note R = rel_frame [OF frame_ok [OF A(1)] k3]
  let ?k4 = "upd_proc i (\<lambda>p. p\<lparr>p_chan := ch, p_state := SLEEPING\<rparr>) k3"
  have "\<exists>b k'. scheduler_enter h ?k4 = Inr (b, k')"
  proof (rule scheduler_enter_returns)
    show "cpu_ok (hart ?k4 h)" "cur ?k4 h = Some i" "holds ?k4 h i" "depth ?k4 h = 1"
      using frame_ok [OF R(1)] frame_cur [OF R(1)] frame_cur [OF A(1)] b1(2,4) R(5) [OF li] A(2,3) R(3) by simp_all
    show "pst ?k4 i \<noteq> RUNNING" using assms(3) R(4) A(5) k1(3) by (simp add: nth_upd_proc)
  qed
  then show ?thesis using k1(1) k2 k3 by (simp add: sleep_enter_def)
qed

lemma wakeup_returns:
  assumes "cpu_ok (hart k h)" "length (procs k) = MAXPROC" "\<And>j. j < MAXPROC \<Longrightarrow> locked (spin (mach k) j) = 0"
  obtains k' where "wakeup h ch k = Inr k'" "balanced h k k'" "length (procs k') = MAXPROC"
    "\<And>j. procs k' ! j = woken h ch {..<MAXPROC} k j"
proof -
  have s: "set [0..<MAXPROC] \<subseteq> {..<length (procs k)}" using assms(2) by auto
  obtain k' where k': "wakeup_loop h ch [0..<MAXPROC] k = Inr k'"
    using wakeup_loop_returns [OF assms(1) _ s] assms(3) by auto
  from wakeup_loop_spec [OF assms(1) k' s] show thesis
    using k' assms(2) by (intro that [of k']) (auto simp: wakeup_def lessThan_atLeast0)
qed

lemma balanced_upd: "cpu_ok (hart k h) \<Longrightarrow> balanced h k (upd_proc i f k)"
  by (simp add: balanced_def)

lemma reparent_loop_returns:
  assumes "cpu_ok (hart k h)" "length (procs k) = MAXPROC" "\<And>j. j < MAXPROC \<Longrightarrow> locked (spin (mach k) j) = 0"
  shows "\<exists>k'. reparent_loop h pp is k = Inr k' \<and> balanced h k k' \<and> length (procs k') = MAXPROC"
  using assms
proof (induction "is" arbitrary: k)
  case Nil
  then show ?case by (simp add: balanced_refl)
next
  case (Cons i "is")
  show ?case
  proof (cases "p_parent (procs k ! i) = Some pp")
    case True
    define k1 where "k1 = upd_proc i (\<lambda>p. p\<lparr>p_parent := initproc k\<rparr>) k"
    have c1: "cpu_ok (hart k1 h)" "length (procs k1) = MAXPROC" "\<And>j. j < MAXPROC \<Longrightarrow> locked (spin (mach k1) j) = 0"
      using Cons.prems by (auto simp: k1_def)
    let ?ch = "case initproc k1 of None \<Rightarrow> NoChan | Some j \<Rightarrow> ProcChan j"
    obtain k2 where k2: "wakeup h ?ch k1 = Inr k2" "balanced h k1 k2" "length (procs k2) = MAXPROC"
      by (rule wakeup_returns [OF c1]) (simp, rule that)
    have "\<exists>k'. reparent_loop h pp is k2 = Inr k' \<and> balanced h k2 k' \<and> length (procs k') = MAXPROC"
      using k2 c1 by (intro Cons.IH) (auto simp: balanced_def)
    moreover have "balanced h k k2" using balanced_trans [OF balanced_upd k2(2) [unfolded k1_def]] Cons.prems(1) by blast
    ultimately show ?thesis using True k2(1) balanced_trans by (auto simp: Let_def k1_def)
  next
    case False
    then show ?thesis using Cons by simp
  qed
qed

lemma exit_switch_returns:
  assumes "cpu_ok (hart k h)" "length (procs k) = MAXPROC" "cur k h = Some i" "i < MAXPROC" "depth k h = 0"
    and "\<And>l. l \<le> WAITLOCK \<Longrightarrow> locked (spin (mach k) l) = 0"
  shows "\<exists>b k'. exit_switch h i status k = Inr (b, k')"
proof -
  obtain k1 where k1: "acq h WAITLOCK k = Inr k1" using acq_returns [OF assms(1)] assms(6) by blast
  note A = acq_frame [OF assms(1) k1] acq_locked [OF assms(1) k1]
  have c1: "cpu_ok (hart k1 h)" "length (procs k1) = MAXPROC" "\<And>j. j < MAXPROC \<Longrightarrow> locked (spin (mach k1) j) = 0"
    using frame_ok [OF A(1)] A(5) assms(2,6) A(10) by auto
  from reparent_loop_returns [OF c1] obtain k2 where k2: "reparent h 0 k1 = Inr k2" "balanced h k1 k2" "length (procs k2) = MAXPROC"
    unfolding reparent_def by blast
  have c2: "cpu_ok (hart k2 h)" "\<And>j. j < MAXPROC \<Longrightarrow> locked (spin (mach k2) j) = 0" using k2(2) c1(3) by (auto simp: balanced_def)
  let ?ch = "case p_parent (procs k2 ! i) of None \<Rightarrow> NoChan | Some j \<Rightarrow> ProcChan j"
  obtain k3 where k3: "wakeup h ?ch k2 = Inr k3" "balanced h k2 k3" "length (procs k3) = MAXPROC"
    by (rule wakeup_returns [OF c2(1) k2(3) c2(2)]) (simp, rule that)
  have b: "balanced h k1 k3" by (rule balanced_trans [OF k2(2) k3(2)])
  have c3: "cpu_ok (hart k3 h)" "locked (spin (mach k3) i) = 0" "depth k3 h = 1" "cur k3 h = Some i" "holds k3 h WAITLOCK"
    using b c1(3) assms(3,4,5) A(2,3) frame_cur [OF A(1)] by (auto simp: balanced_def)
  obtain k4 where k4: "acq h i k3 = Inr k4" using acq_returns [OF c3(1,2)] by blast
  note A4 = acq_frame [OF c3(1) k4]
  let ?k4 = "upd_proc i (\<lambda>p. p\<lparr>p_exit_state := status, p_state := ZOMBIE\<rparr>) k4"
  have c4: "cpu_ok (hart ?k4 h)" "holds ?k4 h WAITLOCK" "0 < depth ?k4 h"
    using frame_ok [OF A4(1)] A4(3,7) c3 by auto
  obtain k5 where k5: "rel h WAITLOCK ?k4 = Inr k5" using rel_returns [OF c4] by blast
  note R = rel_frame [OF c4(1) k5]
  have "\<exists>b k'. scheduler_enter h k5 = Inr (b, k')"
  proof (rule scheduler_enter_returns)
    show "cpu_ok (hart k5 h)" by (rule frame_ok [OF R(1)])
    show "cur k5 h = Some i" using frame_cur [OF R(1)] frame_cur [OF A4(1)] c3(4) by simp
    show "holds k5 h i" using R(5) [of i h] A4(2) assms(4) by simp
    show "depth k5 h = 1" using R(3) A4(3) c3(3) by simp
    show "pst k5 i \<noteq> RUNNING" using R(4) A4(5) assms(4) k3(3) by (simp add: nth_upd_proc)
  qed
  then show ?thesis using k1 k2(1) k3(1) k4 k5 by (simp add: exit_switch_def Let_def)
qed

section \<open>Making a process\<close>

text \<open>With three free pages \<^verbatim>\<open>proc_pagetable\<close> builds a table that maps the trampoline and the trapframe and
  nothing else.\<close>

definition proc_map :: "image \<Rightarrow> u32 \<Rightarrow> u32 \<Rightarrow> u32 option" where
  "proc_map im tf w =
     (if PGROUNDDOWN w = TRAPFRAME then Some (PA2PTE tf OR (PTE_R OR PTE_W) OR PTE_V)
      else if PGROUNDDOWN w = USERVEC then Some (PA2PTE (im_uvec im) OR (PTE_R OR PTE_X) OR PTE_V) else None)"

lemma proc_pagetable_spec:
  assumes "mem_end_ok (im_mem_end im)" "3 \<le> card (free_pages (im_mem_end im) m)"
  obtains pt m' where "proc_pagetable im tf m = Inr (pt, m')" "pt \<noteq> 0" "pt_ok (im_mem_end im) m' pt"
    "mapping m' pt = proc_map im tf"
proof -
  let ?e = "im_mem_end im"
  have al: "page_aligned USERVEC" "page_aligned TRAPFRAME" by (simp_all add: page_aligned_def)
  have fr: "free_pages ?e x \<noteq> {}" if "0 < card (free_pages ?e x)" for x using that by auto
  obtain pt m1 where m1: "upaging_create ?e m = Inr (pt, m1)" "pt \<noteq> 0" "pt_ok ?e m1 pt" "\<And>w. mapping m1 pt w = None"
    "card (free_pages ?e m) = Suc (card (free_pages ?e m1))"
    by (rule upaging_create_spec [OF assms(1) fr [of m]]) (use assms(2) in linarith, rule that)
  obtain m2 where m2: "map_pages ?e pt USERVEC (im_uvec im) PGESIZE (PTE_R OR PTE_X) m1 = Inr (0, m2)" "pt_ok ?e m2 pt"
    "card (free_pages ?e m1) \<le> Suc (card (free_pages ?e m2))"
    "\<And>w. mapping m2 pt w = (if PGROUNDDOWN w = USERVEC then Some (PA2PTE (im_uvec im) OR (PTE_R OR PTE_X) OR PTE_V) else mapping m1 pt w)"
    by (rule map_pages_one [OF m1(3) al(1) fr [of m1] m1(4)]) (use assms(2) m1(5) in linarith, rule that)
  have none: "mapping m2 pt TRAPFRAME = None" using m2(4) m1(4) page_arith(2) [OF al(2,2)] by simp
  obtain m3 where m3: "map_pages ?e pt TRAPFRAME tf PGESIZE (PTE_R OR PTE_W) m2 = Inr (0, m3)" "pt_ok ?e m3 pt"
    "\<And>w. mapping m3 pt w = (if PGROUNDDOWN w = TRAPFRAME then Some (PA2PTE tf OR (PTE_R OR PTE_W) OR PTE_V) else mapping m2 pt w)"
    by (rule map_pages_one [OF m2(2) al(2) fr [of m2] none]) (use assms(2) m1(5) m2(3) in linarith, rule that)
  show thesis
  proof (rule that [OF _ m1(2) m3(2)])
    show "proc_pagetable im tf m = Inr (pt, m3)" using m1(1,2) m2(1) m3(1) by (simp add: proc_pagetable_def Let_def)
    show "mapping m3 pt = proc_map im tf" using m3(3) m2(4) m1(4) by (simp add: fun_eq_iff proc_map_def)
  qed
qed

text \<open>A process as \<^verbatim>\<open>alloc_process\<close> leaves it.\<close>

definition fresh_proc :: "image \<Rightarrow> int \<Rightarrow> u32 \<Rightarrow> u32 \<Rightarrow> process \<Rightarrow> process" where
  "fresh_proc im pid tf pt p = p\<lparr>p_pid := pid, p_trapframe := tf, p_pagetable := pt,
     p_context := \<lparr>c_ra = im_forkret im, c_sp = p_kernel_stack p + PGESIZE, c_saved = replicate 12 0\<rparr>\<rparr>"

lemma alloc_scan_hit:
  assumes "cpu_ok (hart k h)" "\<And>i. i \<in> set is \<Longrightarrow> locked (spin (mach k) i) = 0"
    "find (\<lambda>i. pst k i = UNUSED) is = Some np"
  obtains k1 where "alloc_scan h is k = Inr (Some np, k1)" "procs k1 = procs k" "holds k1 h np" "cpu_ok (hart k1 h)"
    "depth k1 h = depth k h + 1" "cur k1 = cur k" "kfiles k1 = kfiles k" "nextpid k1 = nextpid k"
    "\<And>l. l \<noteq> np \<Longrightarrow> locked (spin (mach k1) l) = locked (spin (mach k) l)"
  using assms
proof (induction "is" arbitrary: k thesis)
  case (Cons i "is")
  have fr: "locked (spin (mach k) i) = 0" using Cons.prems(3) by simp
  then obtain k1 where k1: "acq h i k = Inr k1" "procs k1 = procs k" "\<exists>k'. rel h i k1 = Inr k'"
    by (rule section_returns [OF Cons.prems(2)]) (rule that)
  note A = acq_frame [OF Cons.prems(2) k1(1)] acq_locked(2) [OF Cons.prems(2) k1(1)]
  show ?case
  proof (cases "pst k i = UNUSED")
    case True
    then have "np = i" "alloc_scan h (i # is) k = Inr (Some np, k1)" using Cons.prems(4) k1 by auto
    moreover have "kfiles k1 = kfiles k" "nextpid k1 = nextpid k" by (subst A(8), simp)+
    ultimately show ?thesis using A(2,3) A(9) frame_ok [OF A(1)] frame_cur [OF A(1)] k1(2) by (intro Cons.prems(1) [of k1]) auto
  next
    case False
    obtain k2 where k2: "rel h i k1 = Inr k2" using k1(3) by blast
    have "k1 = k1\<lparr>procs := procs k\<rparr>" using k1(2) by simp
    note S = section_balanced [OF Cons.prems(2) k1(1) k2 this]
    have B: "cpu_ok (hart k2 h)" "depth k2 h = depth k h" "cur k2 = cur k" "kfiles k2 = kfiles k" "nextpid k2 = nextpid k"
      "\<And>l. locked (spin (mach k2) l) = locked (spin (mach k) l)" using S(1) by (auto simp: balanced_def)
    obtain k3 where k3: "alloc_scan h is k2 = Inr (Some np, k3)" "procs k3 = procs k2" "holds k3 h np" "cpu_ok (hart k3 h)"
    "depth k3 h = depth k2 h + 1" "cur k3 = cur k2" "kfiles k3 = kfiles k2" "nextpid k3 = nextpid k2"
    "\<And>l. l \<noteq> np \<Longrightarrow> locked (spin (mach k3) l) = locked (spin (mach k2) l)"
      by (rule Cons.IH [OF _ B(1)]) (use Cons.prems(3,4) B S(2) False in auto)
    show ?thesis using k3 B S(2) k1 k2 False by (intro Cons.prems(1) [of k3]) auto
  qed
qed simp

lemma alloc_pid_returns:
  assumes "cpu_ok (hart k h)" "locked (spin (mach k) PIDLOCK) = 0"
  obtains k' where "alloc_pid h k = Inr (nextpid k, k')" "nextpid k' = nextpid k + 1" "balanced h (k\<lparr>nextpid := nextpid k + 1\<rparr>) k'"
    "procs k' = procs k"
proof -
  let ?n = "\<lambda>k. k\<lparr>nextpid := nextpid k + 1\<rparr>"
  obtain k1 where k1: "acq h PIDLOCK k = Inr k1" "procs k1 = procs k" using section_returns [OF assms] by metis
  note A = acq_frame [OF assms(1) k1(1)]
  have d: "0 < depth (?n k1) h" "cpu_ok (hart (?n k1) h)" "holds (?n k1) h PIDLOCK"
    using A(2,3) assms(1) frame_ok [OF A(1)] by (auto simp: cpu_ok_def holds_def)
  obtain k2 where k2: "rel h PIDLOCK (?n k1) = Inr k2" using rel_returns [OF d(2,3,1)] by blast
  have n1: "nextpid k1 = nextpid k" by (subst A(8)) simp
  have a': "acq h PIDLOCK (?n k) = Inr (?n k1)" using k1(1) n1 by (auto simp: acq_def rbind_eq_Inr)
  have p: "?n k1 = (?n k1)\<lparr>procs := procs k\<rparr>" using k1(2) by simp
  have c: "cpu_ok (hart (?n k) h)" using assms(1) by simp
  note S = section_balanced [OF c a' k2 p]
  show thesis
    by (rule that [of k2]) (use k1 k2 n1 S in \<open>auto simp: alloc_pid_def Let_def balanced_def\<close>)
qed

text \<open>What \<^verbatim>\<open>alloc_process\<close> leaves behind when it finds the slot \<open>np\<close>.\<close>

definition allocated :: "image \<Rightarrow> nat \<Rightarrow> nat \<Rightarrow> kernel \<Rightarrow> kernel \<Rightarrow> bool" where
  "allocated im h np k k' \<longleftrightarrow> (\<exists>tf pt. procs k' = (procs k)[np := fresh_proc im (nextpid k) tf pt (procs k ! np)]
       \<and> tf \<noteq> 0 \<and> pt \<noteq> 0 \<and> pt_ok (im_mem_end im) (pmem k') pt \<and> mapping (pmem k') pt = proc_map im tf)
     \<and> nextpid k' = nextpid k + 1 \<and> holds k' h np \<and> depth k' h = depth k h + 1 \<and> cpu_ok (hart k' h) \<and> cur k' = cur k
     \<and> (\<forall>l. l \<noteq> np \<longrightarrow> locked (spin (mach k') l) = locked (spin (mach k) l)) \<and> ffs (kfiles k') = ffs (kfiles k)"

lemma kalloc_returns:
  assumes "mem_end_ok e" "0 < card (free_pages e m)"
  obtains p m' where "kalloc e m = Inr (p, m')" "p \<noteq> 0" "card (free_pages e m) = Suc (card (free_pages e m'))"
proof -
  have "free_pages e m \<noteq> {}" using assms(2) by auto
  then obtain p m' where k: "kalloc e m = Inr (p, m')" and z: "zeroed e m p (memset m' p 0 PGESIZE)"
    by (rule kalloc_zeroed [OF assms(1)])
  have "free_pages e m' = free_pages e m - {p}" using pmm.alloc_Some [of e m p m'] k by (simp add: kalloc_opt_def)
  then show thesis using that [OF k] zeroedD(4,8) [OF z] alloc_page_aligned [OF assms(1) zeroedD(1) [OF z]] by simp
qed

lemma alloc_process_spec:
  assumes "cpu_ok (hart k h)" "length (procs k) = MAXPROC" "\<And>l. l \<le> PIDLOCK \<Longrightarrow> locked (spin (mach k) l) = 0"
    "find (\<lambda>i. pst k i = UNUSED) [0..<MAXPROC] = Some np"
    "mem_end_ok (im_mem_end im)" "4 \<le> card (free_pages (im_mem_end im) (pmem k))"
  shows "\<exists>k'. alloc_process im h k = Inr (Some np, k') \<and> allocated im h np k k'"
proof -
  have np: "np < MAXPROC" using assms(4) by (auto simp: find_Some_iff)
  obtain k1 where k1: "alloc_scan h [0..<MAXPROC] k = Inr (Some np, k1)" "procs k1 = procs k" "holds k1 h np" "cpu_ok (hart k1 h)"
    "depth k1 h = depth k h + 1" "cur k1 = cur k" "kfiles k1 = kfiles k" "nextpid k1 = nextpid k"
    "\<And>l. l \<noteq> np \<Longrightarrow> locked (spin (mach k1) l) = locked (spin (mach k) l)"
    by (rule alloc_scan_hit [OF assms(1) _ assms(4)]) (use assms(3) in simp, rule that)
  have pl: "locked (spin (mach k1) PIDLOCK) = 0" using k1(9) [of PIDLOCK] assms(3) np by simp
  obtain k2 where k2: "alloc_pid h k1 = Inr (nextpid k1, k2)" "nextpid k2 = nextpid k1 + 1"
    "balanced h (k1\<lparr>nextpid := nextpid k1 + 1\<rparr>) k2" "procs k2 = procs k1"
    by (rule alloc_pid_returns [OF k1(4) pl])
  have B: "cpu_ok (hart k2 h)" "depth k2 h = depth k1 h" "cur k2 = cur k1" "kfiles k2 = kfiles k1"
    "\<And>l. locked (spin (mach k2) l) = locked (spin (mach k1) l)" using k2(3) by (auto simp: balanced_def)
  have "holds k2 = holds (k1\<lparr>nextpid := nextpid k1 + 1\<rparr>)" using k2(3) by (simp add: balanced_def)
  also have "\<dots> = holds k1" by (simp add: holds_def fun_eq_iff)
  finally have hold: "holds k2 h np" using k1(3) by simp
  define k3 where "k3 = upd_proc np (\<lambda>p. p\<lparr>p_pid := nextpid k\<rparr>) k2"
  have m3: "pmem k3 = pmem k" using B(4) k1(7) by (simp add: k3_def pmem_def)
  obtain tf m where tf: "kalloc (im_mem_end im) (pmem k3) = Inr (tf, m)" "tf \<noteq> 0"
    "card (free_pages (im_mem_end im) (pmem k3)) = Suc (card (free_pages (im_mem_end im) m))"
    by (rule kalloc_returns [OF assms(5), of "pmem k3"]) (use assms(6) m3 in simp, rule that)
  define k4 where "k4 = upd_proc np (\<lambda>p. p\<lparr>p_trapframe := tf\<rparr>) (set_mem m k3)"
  have "3 \<le> card (free_pages (im_mem_end im) (pmem k4))" using tf(3) assms(6) m3 by (simp add: k4_def)
  then obtain pt m' where pt: "proc_pagetable im tf (pmem k4) = Inr (pt, m')" "pt \<noteq> 0" "pt_ok (im_mem_end im) m' pt"
    "mapping m' pt = proc_map im tf"
    by (rule proc_pagetable_spec [OF assms(5)])
  define k5 where "k5 = upd_proc np (\<lambda>p. p\<lparr>p_context := \<lparr>c_ra = im_forkret im,
      c_sp = p_kernel_stack p + PGESIZE, c_saved = replicate 12 0\<rparr>\<rparr>) (upd_proc np (\<lambda>p. p\<lparr>p_pagetable := pt\<rparr>) (set_mem m' k4))"
  have "alloc_process im h k = Inr (Some np, k5)"
    using k1(1,8) k2(1) tf(1,2) pt(1,2) by (simp add: alloc_process_def Let_def on_mem_def k3_def k4_def k5_def)
  moreover have "procs k5 = (procs k)[np := fresh_proc im (nextpid k) tf pt (procs k ! np)]"
    using np assms(2) k1(2) k2(4) by (simp add: k5_def k4_def k3_def upd_proc_def fresh_proc_def set_mem_def)
  moreover have "nextpid k5 = nextpid k + 1" "holds k5 h np" "depth k5 h = depth k h + 1" "cpu_ok (hart k5 h)" "cur k5 = cur k"
    "pmem k5 = m'" "ffs (kfiles k5) = ffs (kfiles k)"
    using k2(2) k1 hold B by (simp_all add: k5_def k4_def k3_def) (simp_all add: set_mem_def)
  moreover have "locked (spin (mach k5) l) = locked (spin (mach k) l)" if "l \<noteq> np" for l
    using k1(9) [OF that] B(5) by (simp add: k5_def k4_def k3_def)
  ultimately show ?thesis using tf(2) pt(2-4) unfolding allocated_def by blast
qed

section \<open>Properties\<close>


text \<open>(C20) \<^verbatim>\<open>wakeup\<close> makes exactly the processes that sleep on the channel runnable, except the caller's own,
  changes nothing else of any process, and gives back every lock it took. It returns whenever the locks
  of the other processes are free.\<close>

theorem wakeup_wakes_sleepers:
  assumes "cpu_ok (hart k h)" "length (procs k) = MAXPROC"
    and "\<forall>i<MAXPROC. cur k h \<noteq> Some i \<longrightarrow> locked (spin (mach k) i) = 0"
  shows "\<exists>k'. wakeup h ch k = Inr k' \<and> length (procs k') = MAXPROC \<and> depth k' h = depth k h \<and> holds k' = holds k
    \<and> (\<forall>j<MAXPROC. procs k' ! j =
        (if pst k j = SLEEPING \<and> p_chan (procs k ! j) = ch \<and> cur k h \<noteq> Some j
         then (procs k ! j)\<lparr>p_state := RUNNABLE\<rparr> else procs k ! j))"
proof -
  have s: "set [0..<MAXPROC] \<subseteq> {..<length (procs k)}" using assms(2) by auto
  obtain k' where k': "wakeup_loop h ch [0..<MAXPROC] k = Inr k'"
    using wakeup_loop_returns [OF assms(1) _ s] assms(3) by auto
  from wakeup_loop_spec [OF assms(1) k' s] show ?thesis
    using k' assms(2) by (intro exI [of _ k']) (auto simp: wakeup_def balanced_def woken_def)
qed

text \<open>\<^verbatim>\<open>kill\<close> returns when the locks of the processes are free: 0 exactly when some entry of the table
  has the process id, and then it marks the first such process, wakes it if it sleeps, and changes nothing else.\<close>

theorem kill_marks_first_match:
  assumes "cpu_ok (hart k h)" "length (procs k) = MAXPROC" "\<forall>i<MAXPROC. locked (spin (mach k) i) = 0"
  shows "\<exists>r k'. kill h pid k = Inr (r, k') \<and>
    (case find (\<lambda>i. p_pid (procs k ! i) = pid) [0..<MAXPROC] of
       None \<Rightarrow> r = - 1 \<and> procs k' = procs k
     | Some i \<Rightarrow> r = 0 \<and> procs k' = (procs k)[i := (procs k ! i)\<lparr>p_killed := 1,
           p_state := (if pst k i = SLEEPING then RUNNABLE else pst k i)\<rparr>])
     \<and> depth k' h = depth k h \<and> holds k' = holds k"
proof -
  have s: "set [0..<MAXPROC] \<subseteq> {..<length (procs k)}" using assms(2) by auto
  obtain r k' where k': "kill_loop h pid [0..<MAXPROC] k = Inr (r, k')"
    using kill_loop_returns [OF assms(1), of "[0..<MAXPROC]" pid] assms(3) by auto
  from kill_loop_spec [OF assms(1) k' s] show ?thesis
    by (intro exI [of _ r] exI [of _ k']) (auto simp: k' kill_def balanced_def killed_proc_def split: option.splits)
qed


text \<open>\<^verbatim>\<open>exit\<close>, which gets to its context switch when no lock is held, hands the children of entry 0 to
  \<^verbatim>\<open>init\<close>, not those of the process that exits: after the exit of any other process it is a \<^term>\<open>ZOMBIE\<close>
  and its children still name it as their parent.\<close>

theorem exit_keeps_orphans:
  assumes "cpu_ok (hart k h)" "length (procs k) = MAXPROC" "cur k h = Some i" "i < MAXPROC" "depth k h = 0"
    and "\<forall>l\<le>WAITLOCK. locked (spin (mach k) l) = 0" "i \<noteq> 0" "p_parent (procs k ! j) = Some i"
  shows "\<exists>b k'. exit_switch h i status k = Inr (b, k') \<and> pst k' i = ZOMBIE \<and> p_parent (procs k' ! j) = Some i"
proof -
  obtain b k' where ex: "exit_switch h i status k = Inr (b, k')"
    using exit_switch_returns [OF assms(1-5)] assms(6) by blast
  obtain k1 k2 k3 k4 k5 ch where k: "acq h WAITLOCK k = Inr k1" "reparent_loop h 0 [0..<MAXPROC] k1 = Inr k2"
    "wakeup h ch k2 = Inr k3" "acq h i k3 = Inr k4"
    "rel h WAITLOCK (upd_proc i (\<lambda>p. p\<lparr>p_exit_state := status, p_state := ZOMBIE\<rparr>) k4) = Inr k5"
    "scheduler_enter h k5 = Inr (b, k')"
    using ex by (auto simp: exit_switch_def reparent_def rbind_eq_Inr Let_def)
  note f1 = acq_frame [OF assms(1) k(1)]
  note f2 = reparent_loop_frame [OF k(2) f1(1) assms(2)]
  have len2: "length (procs k2) = MAXPROC" using frame_length [OF f2] assms(2) by simp
  have "p_parent (procs k2 ! j) = Some i"
    using reparent_loop_parent [OF k(2) frame_ok [OF f1(1)], of j] f1(5) assms(2,7,8) by simp
  then have par: "p_parent (procs k3 ! j) = Some i" using wakeup_parent [OF frame_ok [OF f2] len2 k(3)] by simp
  note f3 = wakeup_frame(1) [OF frame_ok [OF f2] len2 k(3)]
  note A = acq_frame [OF frame_ok [OF f3] k(4)]
  let ?k4 = "upd_proc i (\<lambda>p. p\<lparr>p_exit_state := status, p_state := ZOMBIE\<rparr>) k4"
  have ok4: "cpu_ok (hart ?k4 h)" using frame_ok [OF A(1)] by simp
  note R = rel_frame [OF ok4 k(5)]
  note S = scheduler_enter_leaving(3) [OF frame_ok [OF R(1)] k(6)]
  have "length (procs k3) = MAXPROC" using wakeup_frame(3) [OF frame_ok [OF f2] len2 k(3)] .
  then have "pst k' i = ZOMBIE" "p_parent (procs k' ! j) = Some i"
    using par S R(4) A(5) assms(4) by (simp_all add: nth_upd_proc)
  then show ?thesis using ex by blast
qed

text \<open>A process other than entry 0 that waits and has no exited child behind itself in the table does
  not wait: the scan starts at its own entry and leaves the table at the end.\<close>

theorem wait_leaves_table:
  assumes "cpu_ok (hart k h)" "length (procs k) = MAXPROC" "0 < c" "c < MAXPROC"
    and "\<forall>i. c \<le> i \<longrightarrow> i < MAXPROC \<longrightarrow> p_parent (procs k ! i) = Some c \<longrightarrow>
       locked (spin (mach k) i) = 0 \<and> pst k i \<noteq> ZOMBIE"
  shows "wait_round im h c addrs k = Inl (Fault ''process table'')"
proof -
  have split: "[c..<c + MAXPROC] = [c..<Suc MAXPROC] @ [Suc MAXPROC..<c + MAXPROC]"
    using assms(3,4) upt_add_eq_append [of c "Suc MAXPROC" "c - 1"] by (simp add: add.commute)
  have "wait_scan im h c addrs False [c..<Suc MAXPROC] k = Inl (Fault ''process table'')"
    using assms by (intro wait_scan_runs_off) auto
  from wait_scan_append_fault [OF this] show ?thesis by (simp add: wait_round_def split)
qed

text \<open>\<^verbatim>\<open>alloc_process\<close> does not mark the slot it returns. When \<^verbatim>\<open>fork\<close> has released the lock of the
  child and has not made it runnable yet, the slot is still free, and the next search of any hart, unless
  it finds a lower slot, hands out the same slot again.\<close>

theorem slot_handed_out_twice:
  assumes "cpu_ok (hart k h)" "length (procs k) = MAXPROC" "fork_prepare im h p k = Inr (Some np, k')"
    and "cpu_ok (hart k' g)" "\<forall>j<MAXPROC. locked (spin (mach k') j) = 0" "\<forall>j<np. pst k' j \<noteq> UNUSED"
  shows "\<exists>k''. alloc_scan g [0..<MAXPROC] k' = Inr (Some np, k'')"
proof -
  have np: "np < MAXPROC" "pst k' np = UNUSED" using fork_prepare_frame(2) [OF assms(1-3)] by auto
  have "find (\<lambda>i. pst k' i = UNUSED) [0..<MAXPROC] = Some np"
    using np assms(6) by (subst find_Some_iff) (auto intro: exI [of _ np])
  then show ?thesis using alloc_scan_returns [OF assms(4), of "[0..<MAXPROC]"] assms(5) by auto
qed

text \<open>(C25) With a free slot and four free pages, and no lock in the way, \<^verbatim>\<open>alloc_process\<close> returns the lowest free
  slot with its lock held: a fresh process id, a page for the trapframe, and a page table that maps the
  trampoline page and the trapframe with their permissions and no other address; the context returns to
  \<^verbatim>\<open>forkret\<close> on the top of the kernel stack. No other process changes.\<close>

theorem alloc_process_builds:
  assumes "cpu_ok (hart k h)" "length (procs k) = MAXPROC" "\<forall>l\<le>PIDLOCK. locked (spin (mach k) l) = 0"
    and "find (\<lambda>i. pst k i = UNUSED) [0..<MAXPROC] = Some np"
    and "mem_end_ok (im_mem_end im)" "4 \<le> card (free_pages (im_mem_end im) (pmem k))"
  shows "\<exists>k' tf pt. alloc_process im h k = Inr (Some np, k') \<and> holds k' h np \<and> nextpid k' = nextpid k + 1
    \<and> procs k' = (procs k)[np := fresh_proc im (nextpid k) tf pt (procs k ! np)] \<and> tf \<noteq> 0
    \<and> pt_ok (im_mem_end im) (pmem k') pt
    \<and> (\<forall>w. mapping (pmem k') pt w =
        (if PGROUNDDOWN w = TRAPFRAME then Some (PA2PTE tf OR (PTE_R OR PTE_W) OR PTE_V)
         else if PGROUNDDOWN w = USERVEC then Some (PA2PTE (im_uvec im) OR (PTE_R OR PTE_X) OR PTE_V) else None))"
  using alloc_process_spec [OF assms(1,2) _ assms(4-6)] assms(3) unfolding allocated_def fun_eq_iff proc_map_def by blast

section \<open>Witnesses\<close>

text \<open>A kernel with process 0 on hart 0, process 1 asleep on a channel and a child of process 2, process 2
  runnable, and memory as the allocator starts with it.\<close>

definition proc_w :: process where
  "proc_w = \<lparr>p_state = UNUSED, p_chan = NoChan, p_killed = 0, p_exit_state = 0, p_pid = 0, p_parent = None,
     p_kernel_stack = 0, p_mem_size = 0, p_pagetable = 0, p_trapframe = 0,
     p_context = \<lparr>c_ra = 0, c_sp = 0, c_saved = replicate 12 0\<rparr>, p_openfile = replicate NUMOFILES None, p_cwd = None,
     p_name = replicate 16 0\<rparr>"

definition procs_w :: "process list" where
  "procs_w = proc_w\<lparr>p_state := RUNNING, p_pid := 1, p_cwd := Some 0\<rparr>
     # proc_w\<lparr>p_state := SLEEPING, p_chan := ObjChan ''tty'', p_pid := 7, p_parent := Some 2\<rparr>
     # proc_w\<lparr>p_state := RUNNABLE, p_pid := 9, p_parent := Some 0\<rparr> # replicate 61 proc_w"

definition mach_w :: machine where
  "mach_w = \<lparr>cpus = (\<lambda>_. \<lparr>depth_lock_intr_disable = 0, intr_prev_state = False, sie = True\<rparr>), spin = (\<lambda>_. initlock ''lock'')\<rparr>"

definition image_w :: image where
  "image_w = \<lparr>im_mem_end = 0x80020000, im_uvec = 0x80001000, im_forkret = 0x80000100, im_ptable = 0x80010000,
     im_initcode = 0x80011000, im_past = 0\<rparr>"

definition kernel_w :: kernel where
  "kernel_w = \<lparr>procs = procs_w, nextpid = 10, initproc = Some 0, mach = mach_w, cur = (\<lambda>_. None)(0 := Some 0), first = False,
     kfiles = files0\<lparr>fmem := pmm_init 0x80020000 (\<lambda>_. 0)\<rparr>\<rparr>"

lemma kernel_w_fields [simp]:
  "procs kernel_w = procs_w" "length procs_w = MAXPROC" "mach kernel_w = mach_w" "locked (spin mach_w l) = 0"
  "cpu_ok (cpus mach_w h)" "depth_lock_intr_disable (cpus mach_w h) = 0" "cur kernel_w = (\<lambda>_. None)(0 := Some 0)"
  "pmem kernel_w = pmm_init 0x80020000 (\<lambda>_. 0)" "nextpid kernel_w = 10"
  "ffs (kfiles kernel_w) = fs_i"
  by (simp_all add: kernel_w_def procs_w_def mach_w_def initlock_def cpu_ok_def pmem_def files0_def)

lemma upt_64: "[0..<MAXPROC] = 0 # 1 # 2 # 3 # [4..<MAXPROC]"
  by (simp add: upt_conv_Cons)

theorem wakeup_wakes_sleepers_witness:
  "\<exists>k'. wakeup 0 (ObjChan ''tty'') kernel_w = Inr k' \<and> pst k' 1 = RUNNABLE \<and> pst k' 0 = RUNNING"
proof -
  from wakeup_wakes_sleepers [of kernel_w 0 "ObjChan ''tty''"] obtain k' where
    "wakeup 0 (ObjChan ''tty'') kernel_w = Inr k'"
    "\<forall>j<MAXPROC. procs k' ! j = (if pst kernel_w j = SLEEPING \<and> p_chan (procs kernel_w ! j) = ObjChan ''tty'' \<and> cur kernel_w 0 \<noteq> Some j
         then (procs kernel_w ! j)\<lparr>p_state := RUNNABLE\<rparr> else procs kernel_w ! j)"
    by auto
  then show ?thesis by (intro exI [of _ k']) (simp add: procs_w_def proc_w_def)
qed

theorem kill_marks_first_match_witness:
  "\<exists>k'. kill 0 7 kernel_w = Inr (0, k') \<and> p_killed (procs k' ! 1) = 1 \<and> pst k' 1 = RUNNABLE"
proof -
  have f: "find (\<lambda>i. p_pid (procs kernel_w ! i) = 7) [0..<MAXPROC] = Some 1"
    unfolding upt_64 by (simp add: procs_w_def proc_w_def)
  from kill_marks_first_match [of kernel_w 0 7, unfolded f] obtain r k' where "kill 0 7 kernel_w = Inr (r, k')" "r = 0"
    "procs k' = procs_w[1 := (procs_w ! 1)\<lparr>p_killed := 1, p_state := (if pst kernel_w 1 = SLEEPING then RUNNABLE else pst kernel_w 1)\<rparr>]"
    by auto
  then show ?thesis by (intro exI [of _ k']) (simp add: procs_w_def proc_w_def)
qed

theorem wait_leaves_table_witness:
  "wait_round image_w 0 2 0 kernel_w = Inl (Fault ''process table'')"
proof -
  have "p_parent (procs_w ! i) \<noteq> Some 2" if "2 \<le> i" "i < MAXPROC" for i
    using that nth_replicate [of "i - 3" 61 proc_w]
    by (cases "i = 2") (auto simp: procs_w_def proc_w_def nth_Cons split: nat.splits)
  then show ?thesis by (intro wait_leaves_table) auto
qed

theorem exit_keeps_orphans_witness:
  "\<exists>b k'. exit_switch 1 2 3 (kernel_w\<lparr>cur := (\<lambda>_. None)(1 := Some 2)\<rparr>) = Inr (b, k') \<and> pst k' 2 = ZOMBIE
     \<and> p_parent (procs k' ! 1) = Some 2"
  by (rule exit_keeps_orphans) (simp_all, simp add: procs_w_def)

lemma find_w: "find (\<lambda>i. pst kernel_w i = UNUSED) [0..<MAXPROC] = Some 3"
  unfolding upt_64 by (simp add: procs_w_def proc_w_def)

lemma free_w: "4 \<le> card (free_pages 0x80020000 (pmem kernel_w))"
  using card_free_pages_init(1) [OF mem_end_example(1), of "\<lambda>_. 0"] by (simp add: num_pages_def PGROUNDUP_def)

theorem alloc_process_builds_witness:
  "\<exists>k'. alloc_process image_w 0 kernel_w = Inr (Some 3, k') \<and> p_pid (procs k' ! 3) = 10
     \<and> mapping (pmem k') (p_pagetable (procs k' ! 3)) 0 = None"
proof -
  have "im_mem_end image_w = 0x80020000" by (simp add: image_w_def)
  with alloc_process_builds [of kernel_w 0 3 image_w, OF _ _ _ find_w] mem_end_example(1) free_w
  obtain k' tf pt where "alloc_process image_w 0 kernel_w = Inr (Some 3, k')"
    "procs k' = procs_w[3 := fresh_proc image_w 10 tf pt (procs_w ! 3)]"
    "\<forall>w. mapping (pmem k') pt w =
        (if PGROUNDDOWN w = TRAPFRAME then Some (PA2PTE tf OR (PTE_R OR PTE_W) OR PTE_V)
         else if PGROUNDDOWN w = USERVEC then Some (PA2PTE (im_uvec image_w) OR (PTE_R OR PTE_X) OR PTE_V) else None)"
    by auto
  then show ?thesis by (intro exI [of _ k']) (simp add: fresh_proc_def PGROUNDDOWN_def)
qed



lemma fork_files_none:
  assumes "\<And>fd. fd \<in> set fds \<Longrightarrow> p_openfile (procs k ! p) ! fd = None"
  shows "fork_files p np fds k = Inr k"
  using assms by (induction fds) auto

lemma fork_prepare_small:
  assumes "alloc_process im h k = Inr (Some np, k1)" "allocated im h np k k1" "length (procs k) = MAXPROC" "np < MAXPROC" "p \<noteq> np"
    "p_mem_size (procs k ! p) = 0" "p_openfile (procs k ! p) = replicate NUMOFILES None" "p_cwd (procs k ! p) = Some ip"
    "cpu_ok (hart k h)"
  obtains k' where "fork_prepare im h p k = Inr (Some np, k')" "\<And>j. pst k' j = pst k j"
    "\<And>l. locked (spin (mach k') l) = (if l = np then 0 else locked (spin (mach k) l))"
proof -
  obtain tf pt where pr: "procs k1 = (procs k)[np := fresh_proc im (nextpid k) tf pt (procs k ! np)]"
    and a: "holds k1 h np" "depth k1 h = depth k h + 1" "cpu_ok (hart k1 h)"
      "\<And>l. l \<noteq> np \<Longrightarrow> locked (spin (mach k1) l) = locked (spin (mach k) l)"
    using assms(2) by (auto simp: allocated_def)
  have pp: "procs k1 ! p = procs k ! p" using pr assms(5) by simp
  have "uvmcopy_loop (im_mem_end im) a b 0 n 0 m = Inr (0, m)" for a b m n by (cases n) simp_all
  then have "uvmcopy (im_mem_end im) a b 0 m = Inr (0, m)" for a b m by (simp add: uvmcopy_def)
  then have uv: "on_mem (uvmcopy (im_mem_end im) (p_pagetable (procs k1 ! p)) (p_pagetable (procs k1 ! np)) (p_mem_size (procs k1 ! p))) k1
    = Inr (0, set_mem (pmem k1) k1)" using assms(6) by (simp add: on_mem_def pp)
  define k2 where "k2 = set_mem (pmem k1) k1"
  define k3 where "k3 = set_mem (store32 (copy_trapframe (p_trapframe (procs (upd_proc np (\<lambda>x. x\<lparr>p_mem_size := p_mem_size (procs k2 ! p)\<rparr>) k2) ! np))
      (p_trapframe (procs (upd_proc np (\<lambda>x. x\<lparr>p_mem_size := p_mem_size (procs k2 ! p)\<rparr>) k2) ! p)) (pmem k2))
    (p_trapframe (procs (upd_proc np (\<lambda>x. x\<lparr>p_mem_size := p_mem_size (procs k2 ! p)\<rparr>) k2) ! np) + 56) 0)
    (upd_proc np (\<lambda>x. x\<lparr>p_mem_size := p_mem_size (procs k2 ! p)\<rparr>) k2)"
  have p3: "procs k3 ! p = procs k ! p" "mach k3 = mach k1" "pst k3 j = pst k1 j" for j
    using pp assms(5) by (auto simp: k3_def k2_def nth_upd_proc)
  have files: "fork_files p np [0..<NUMOFILES] k3 = Inr k3" using assms(7) p3(1) by (intro fork_files_none) simp
  define k4 where "k4 = k3\<lparr>kfiles := (kfiles k3)\<lparr>ffs := inode_dup ip (ffs (kfiles k3))\<rparr>\<rparr>"
  define k5 where "k5 = upd_proc np (\<lambda>x. x\<lparr>p_cwd := Some ip, p_name := strcpy_l (p_name x) (p_name (procs k4 ! p)) 16\<rparr>) k4"
  have m5: "mach k5 = mach k1" "pst k5 j = pst k1 j" for j using p3(2,3) by (auto simp: k5_def k4_def nth_upd_proc)
  have "cpu_ok (hart k5 h)" "holds k5 h np" "0 < depth k5 h" using a assms(9) m5(1) by (auto simp: holds_def cpu_ok_def)
  from rel_returns [OF this] obtain k' where k': "rel h np k5 = Inr k'" by blast
  note R = rel_frame(4) [OF \<open>cpu_ok (hart k5 h)\<close> k'] rel_locked [OF \<open>cpu_ok (hart k5 h)\<close> k']
  have child: "fork_child im h p np k2 = Inr k'"
    using files p3(1) assms(8) k' by (simp add: fork_child_def Let_def k3_def [symmetric] k4_def k5_def)
  show thesis
  proof (rule that)
    show "fork_prepare im h p k = Inr (Some np, k')" using assms(1) uv child by (simp add: fork_prepare_def k2_def)
    show "pst k' j = pst k j" for j using R(1) m5(2) pr by (simp add: nth_list_update_cases fresh_proc_def)
    show "locked (spin (mach k') l) = (if l = np then 0 else locked (spin (mach k) l))" for l
      using R(2,3) m5(1) a(4) by simp
  qed
qed

theorem slot_handed_out_twice_witness:
  "\<exists>k' k''. fork_prepare image_w 0 0 kernel_w = Inr (Some 3, k') \<and> alloc_scan 1 [0..<MAXPROC] k' = Inr (Some 3, k'')"
proof -
  have ok: "cpu_ok (hart kernel_w 0)" "length (procs kernel_w) = MAXPROC" by simp_all
  have e: "im_mem_end image_w = 0x80020000" by (simp add: image_w_def)
  obtain k1 where k1: "alloc_process image_w 0 kernel_w = Inr (Some 3, k1)" "allocated image_w 0 3 kernel_w k1"
    using alloc_process_spec [OF ok _ find_w, of image_w] mem_end_example(1) free_w e by auto
  obtain k' where k': "fork_prepare image_w 0 0 kernel_w = Inr (Some 3, k')" "\<And>j. pst k' j = pst kernel_w j"
    "\<And>l. locked (spin (mach k') l) = (if l = 3 then 0 else locked (spin (mach kernel_w) l))"
    by (rule fork_prepare_small [OF k1 ok(2), of 0 0]) (auto simp: procs_w_def proc_w_def)
  have "hart k' 1 = hart kernel_w 1" using fork_prepare_frame(1) [OF ok k'(1)] by (simp add: frame_def)
  then have "cpu_ok (hart k' 1)" by simp
  moreover have "\<forall>j<3. pst k' j \<noteq> UNUSED" using k'(2) by (auto simp: procs_w_def less_Suc_eq numeral_3_eq_3)
  ultimately show ?thesis using slot_handed_out_twice [OF ok k'(1), of 1] k'(1,3) by auto
qed

end
