(* ===== verification/Sysfile.thy ===== *)
theory Sysfile
  imports Syscall_Args Scheduling
begin

text \<open>
  \<^verbatim>\<open>kernel/sysfile.c\<close>: the system calls on files, and \<^verbatim>\<open>exec\<close>. They run the operations of the file system, of open files,
  of page tables and of processes on the state of the whole kernel. A descriptor indexes the sixteen entries
  of \<^verbatim>\<open>openfile\<close>; the bound that the code compares it with is \<^verbatim>\<open>NUMFILE\<close>, and an access behind the
  sixteenth entry is a fault of the model. A call that goes to sleep in a pipe or at the console ends in \<open>Block\<close>.
\<close>

abbreviation "T_DIR \<equiv> 1 :: u16"
abbreviation "T_FILE \<equiv> 2 :: u16"
abbreviation "T_DEVICE \<equiv> 3 :: u16"
abbreviation "ELF_MAGIC \<equiv> 0x464C457F :: u32"
abbreviation "ELF_PROG_LOAD \<equiv> 1 :: u32"

section \<open>Descriptors\<close>

definition argfd :: "nat \<Rightarrow> nat \<Rightarrow> kernel \<Rightarrow> ((nat \<times> nat) option \<times> kernel) res" where
  "argfd h n k =
     rbind (argint h n k) (\<lambda>(fd, k).
       if fd < 0 \<or> fd \<ge> int NUMFILE then Inr (None, k)
       else rbind (myproc h k) (\<lambda>(i, k).
         rbind (aget (p_openfile (procs k ! i)) (nat fd)) (\<lambda>f.
           case f of None \<Rightarrow> Inr (None, k) | Some f \<Rightarrow> Inr (Some (nat fd, f), k))))"

fun fd_scan :: "nat option list \<Rightarrow> nat list \<Rightarrow> nat option res" where
  "fd_scan fds [] = Inr None"
| "fd_scan fds (fd # rest) = rbind (aget fds fd) (\<lambda>f. if f = None then Inr (Some fd) else fd_scan fds rest)"

definition set_fd :: "nat \<Rightarrow> nat \<Rightarrow> nat option \<Rightarrow> kernel \<Rightarrow> kernel" where
  "set_fd i fd f = upd_proc i (\<lambda>p. p\<lparr>p_openfile := (p_openfile p)[fd := f]\<rparr>)"

definition fdalloc :: "nat \<Rightarrow> nat \<Rightarrow> kernel \<Rightarrow> (nat option \<times> kernel) res" where
  "fdalloc h f k =
     rbind (myproc h k) (\<lambda>(i, k).
     rbind (fd_scan (p_openfile (procs k ! i)) [0..<NUMFILE]) (\<lambda>r.
       case r of None \<Rightarrow> Inr (None, k) | Some fd \<Rightarrow> Inr (Some fd, set_fd i fd (Some f) k)))"

section \<open>File system operations on the kernel\<close>

definition do_fs :: "(fs \<Rightarrow> fs res) \<Rightarrow> kernel \<Rightarrow> kernel res" where
  "do_fs op = on_files (with_fs op)"

definition ktable :: "kernel \<Rightarrow> inode list" where
  "ktable k = inode_table (ffs (kfiles k))"

definition kpid :: "nat \<Rightarrow> kernel \<Rightarrow> int" where
  "kpid i k = p_pid (procs k ! i)"

text \<open>\<^verbatim>\<open>inode_unlock(ip); inode_put(ip);\<close>\<close>

definition iunlockput :: "senv \<Rightarrow> int \<Rightarrow> nat \<Rightarrow> fs \<Rightarrow> fs res" where
  "iunlockput e pid ip s = rbind (inode_unlock pid ip s) (inode_put (im_past (e_im e)) pid ip)"

text \<open>\<^verbatim>\<open>name_inode\<close> and \<^verbatim>\<open>nameiparent\<close> for the current process: a relative path needs its working directory.\<close>

definition cwd_of :: "nat \<Rightarrow> byte list \<Rightarrow> kernel \<Rightarrow> nat res" where
  "cwd_of i path k =
     (case p_cwd (procs k ! i) of Some c \<Rightarrow> Inr c | None \<Rightarrow> if byte0 path = SLASH then Inr 0 else Inl (Fault ''no cwd''))"

definition knamei :: "senv \<Rightarrow> nat \<Rightarrow> byte list \<Rightarrow> kernel \<Rightarrow> (nat option \<times> kernel) res" where
  "knamei e i path k =
     rbind (cwd_of i path k) (\<lambda>c.
       on_fs (name_inode (e_below e) (im_past (e_im e)) (e_de e) (e_name e) (kpid i k) c path) k)"

definition knameiparent :: "senv \<Rightarrow> nat \<Rightarrow> byte list \<Rightarrow> kernel \<Rightarrow> ((nat option \<times> byte list) \<times> kernel) res" where
  "knameiparent e i path k =
     rbind (cwd_of i path k) (\<lambda>c.
       on_fs (\<lambda>s. rbind (nameiparent (e_below e) (im_past (e_im e)) (e_de e) (kpid i k) c path (e_name e) s)
         (\<lambda>(dp, name, s). Inr ((dp, name), s))) k)"

section \<open>Reading and writing\<close>

definition with_user :: "(files \<times> mem \<Rightarrow> (files \<times> mem) outcome res) \<Rightarrow> kernel \<Rightarrow> kernel outcome res" where
  "with_user op k =
     rbind (op (kfiles k, pmem k)) (\<lambda>r.
       case r of
         Ret v (s, m) \<Rightarrow> Inr (Ret v (k\<lparr>kfiles := s\<lparr>fmem := m\<rparr>\<rparr>))
       | Block ch n (s, m) \<Rightarrow> Inr (Block ch n (k\<lparr>kfiles := s\<lparr>fmem := m\<rparr>\<rparr>)))"

definition space :: "senv \<Rightarrow> nat \<Rightarrow> kernel \<Rightarrow> mem uspace" where
  "space e i k = user_space (im_mem_end (e_im e)) (p_pagetable (procs k ! i)) (e_loc e 0)"

definition sys_read :: "senv \<Rightarrow> nat \<Rightarrow> kernel \<Rightarrow> kernel outcome res" where
  "sys_read e h k =
     rbind (argfd h 0 k) (\<lambda>(f, k).
       case f of None \<Rightarrow> Inr (Ret (- 1) k)
       | Some (_, f) \<Rightarrow>
           rbind (argint h 2 k) (\<lambda>(n, k).
           rbind (argaddr h 1 k) (\<lambda>(p, k).
           rbind (myproc h k) (\<lambda>(i, k).
             with_user (read_file (space e i k) (kpid i k) (p_killed (procs k ! i) \<noteq> 0) f p n) k))))"

definition sys_write :: "senv \<Rightarrow> nat \<Rightarrow> kernel \<Rightarrow> kernel outcome res" where
  "sys_write e h k =
     rbind (argfd h 0 k) (\<lambda>(f, k).
       case f of None \<Rightarrow> Inr (Ret (- 1) k)
       | Some (_, f) \<Rightarrow>
           rbind (argint h 2 k) (\<lambda>(n, k).
           rbind (argaddr h 1 k) (\<lambda>(p, k).
           rbind (myproc h k) (\<lambda>(i, k).
             with_user (\<lambda>(s, m).
               rbind (write_file (space e i k) (im_past (e_im e)) (kpid i k) (p_killed (procs k ! i) \<noteq> 0) f p n m s) (\<lambda>r.
                 case r of Ret v s \<Rightarrow> Inr (Ret v (s, m)) | Block ch j s \<Rightarrow> Inr (Block ch j (s, m)))) k))))"

definition sys_fstat :: "senv \<Rightarrow> nat \<Rightarrow> kernel \<Rightarrow> kernel outcome res" where
  "sys_fstat e h k =
     rbind (argfd h 0 k) (\<lambda>(f, k).
       case f of None \<Rightarrow> Inr (Ret (- 1) k)
       | Some (_, f) \<Rightarrow>
           rbind (argaddr h 1 k) (\<lambda>(st, k).
           rbind (myproc h k) (\<lambda>(i, k).
             with_user (\<lambda>x. rbind (file_stat (space e i k) (e_pad e) (kpid i k) f st x) (\<lambda>(r, x). Inr (Ret r x))) k)))"

section \<open>Closing and duplicating\<close>

definition kclose :: "senv \<Rightarrow> nat \<Rightarrow> nat \<Rightarrow> kernel \<Rightarrow> kernel res" where
  "kclose e i f k = on_files (file_close (im_mem_end (e_im e)) (im_past (e_im e)) (kpid i k) f) k"

definition sys_close :: "senv \<Rightarrow> nat \<Rightarrow> kernel \<Rightarrow> (int \<times> kernel) res" where
  "sys_close e h k =
     rbind (argfd h 0 k) (\<lambda>(r, k).
       case r of None \<Rightarrow> Inr (- 1, k)
       | Some (a, f) \<Rightarrow>
           rbind (myproc h k) (\<lambda>(i, k).
           rbind (kclose e i f (set_fd i a None k)) (\<lambda>k. Inr (0, k))))"

definition kdup :: "nat \<Rightarrow> kernel \<Rightarrow> kernel res" where
  "kdup f = on_files (\<lambda>s. rbind (file_dup f s) (\<lambda>(_, s). Inr s))"

definition sys_dup :: "senv \<Rightarrow> nat \<Rightarrow> kernel \<Rightarrow> (int \<times> kernel) res" where
  "sys_dup e h k =
     rbind (argfd h 0 k) (\<lambda>(r, k).
       case r of None \<Rightarrow> Inr (- 1, k)
       | Some (_, f) \<Rightarrow>
           rbind (fdalloc h f k) (\<lambda>(fd, k).
             case fd of None \<Rightarrow> Inr (- 1, k)
             | Some fd \<Rightarrow> rbind (kdup f k) (\<lambda>k. Inr (int fd, k))))"

text \<open>\<^verbatim>\<open>sys_pipe\<close>: the two descriptors are locals of the call, copied to the user from their place on the stack.\<close>

definition pipe_undo :: "senv \<Rightarrow> nat \<Rightarrow> nat \<Rightarrow> nat \<Rightarrow> kernel \<Rightarrow> (int \<times> kernel) res" where
  "pipe_undo e i f0 f1 k = rbind (kclose e i f0 k) (\<lambda>k. rbind (kclose e i f1 k) (\<lambda>k. Inr (- 1, k)))"

definition copy_word :: "senv \<Rightarrow> nat \<Rightarrow> u32 \<Rightarrow> u32 \<Rightarrow> u32 \<Rightarrow> kernel \<Rightarrow> (int \<times> kernel) res" where
  "copy_word e i dst a v k =
     on_mem (copyout (im_mem_end (e_im e)) (p_pagetable (procs k ! i)) dst a 4) (set_mem (store32 (pmem k) a v) k)"

definition sys_pipe :: "senv \<Rightarrow> nat \<Rightarrow> kernel \<Rightarrow> (int \<times> kernel) res" where
  "sys_pipe e h k =
     rbind (myproc h k) (\<lambda>(i, k).
     rbind (argaddr h 0 k) (\<lambda>(fdarray, k).
     rbind (pipealloc (im_mem_end (e_im e)) (im_past (e_im e)) (kpid i k) (kfiles k)) (\<lambda>(r, s).
       let k = k\<lparr>kfiles := s\<rparr> in
       case r of None \<Rightarrow> Inr (- 1, k)
       | Some (f0, f1) \<Rightarrow>
           rbind (fdalloc h f0 k) (\<lambda>(fd0, k).
             case fd0 of None \<Rightarrow> pipe_undo e i f0 f1 k
             | Some fd0 \<Rightarrow>
                 rbind (fdalloc h f1 k) (\<lambda>(fd1, k).
                   case fd1 of None \<Rightarrow> pipe_undo e i f0 f1 (set_fd i fd0 None k)
                   | Some fd1 \<Rightarrow>
                       rbind (copy_word e i fdarray (e_loc e 0) (of_nat fd0) k) (\<lambda>(c, k).
                         if c < 0 then pipe_undo e i f0 f1 (set_fd i fd1 None (set_fd i fd0 None k))
                         else rbind (copy_word e i (fdarray + 4) (e_loc e 1) (of_nat fd1) k) (\<lambda>(c, k).
                           if c < 0 then pipe_undo e i f0 f1 (set_fd i fd1 None (set_fd i fd0 None k))
                           else Inr (0, k))))))))"

section \<open>Directories\<close>

definition create_existing :: "senv \<Rightarrow> int \<Rightarrow> nat \<Rightarrow> nat \<Rightarrow> u16 \<Rightarrow> fs \<Rightarrow> (nat option \<times> fs) res" where
  "create_existing e pid dp ip ty s =
     rbind (iunlockput e pid dp s) (\<lambda>s.
     rbind (inode_lock pid ip s) (\<lambda>s.
       let t = i_type (inode_table s ! ip) in
       if ty = T_FILE \<and> (t = T_FILE \<or> t = T_DEVICE) then Inr (Some ip, s)
       else rbind (iunlockput e pid ip s) (\<lambda>s. Inr (None, s))))"

definition dlink :: "senv \<Rightarrow> int \<Rightarrow> nat \<Rightarrow> byte list \<Rightarrow> nat \<Rightarrow> fs \<Rightarrow> (int \<times> fs) res" where
  "dlink e pid dp name ip s = dir_link (im_past (e_im e)) (e_stk e) (e_de e) pid dp name (i_inode_num (inode_table s ! ip)) s"

definition create_dots :: "senv \<Rightarrow> int \<Rightarrow> nat \<Rightarrow> nat \<Rightarrow> fs \<Rightarrow> fs res" where
  "create_dots e pid dp ip s =
     rbind (inode_update (im_past (e_im e)) pid dp (upd_inode dp (\<lambda>x. x\<lparr>i_num_link := i_num_link x + 1\<rparr>) s)) (\<lambda>s.
     rbind (dlink e pid ip [46] ip s) (\<lambda>(r, s).
       if r < 0 then Inl (Panic ''create dots, create()'')
       else rbind (dlink e pid ip [46, 46] dp s) (\<lambda>(r, s).
         if r < 0 then Inl (Panic ''create dots, create()'') else Inr s)))"

definition create_new :: "senv \<Rightarrow> int \<Rightarrow> nat \<Rightarrow> byte list \<Rightarrow> u16 \<Rightarrow> u16 \<Rightarrow> u16 \<Rightarrow> fs \<Rightarrow> (nat option \<times> fs) res" where
  "create_new e pid dp name ty major minor s =
     rbind (inode_alloc pid (i_dev (inode_table s ! dp)) ty s) (\<lambda>(ip, s).
     rbind (inode_lock pid ip s) (\<lambda>s.
     rbind (inode_update (im_past (e_im e)) pid ip
       (upd_inode ip (\<lambda>x. x\<lparr>i_major_dev_num := major, i_minor_dev_num := minor, i_num_link := 1\<rparr>) s)) (\<lambda>s.
     rbind (if ty = T_DIR then create_dots e pid dp ip s else Inr s) (\<lambda>s.
     rbind (dlink e pid dp name ip s) (\<lambda>(r, s).
       if r < 0 then Inl (Panic ''create: dirlink'')
       else rbind (iunlockput e pid dp s) (\<lambda>s. Inr (Some ip, s)))))))"

definition create :: "senv \<Rightarrow> nat \<Rightarrow> byte list \<Rightarrow> u16 \<Rightarrow> u16 \<Rightarrow> u16 \<Rightarrow> kernel \<Rightarrow> (nat option \<times> kernel) res" where
  "create e i path ty major minor k =
     (let pid = kpid i k in
      rbind (knameiparent e i path k) (\<lambda>((dp, name), k).
        case dp of None \<Rightarrow> Inr (None, k)
        | Some dp \<Rightarrow>
            on_fs (\<lambda>s.
              rbind (inode_lock pid dp s) (\<lambda>s.
              rbind (dir_lookup (e_de e) pid dp name s) (\<lambda>(found, s).
                case found of
                  Some (ip, _) \<Rightarrow> create_existing e pid dp ip ty s
                | None \<Rightarrow> create_new e pid dp name ty major minor s))) k))"

definition begin_k :: "kernel \<Rightarrow> kernel res" where
  "begin_k = do_fs begin_op"

definition end_k :: "int \<Rightarrow> kernel \<Rightarrow> kernel res" where
  "end_k pid = do_fs (end_op pid)"

text \<open>\<^verbatim>\<open>end_op(); return -1;\<close>\<close>

definition fail_op :: "int \<Rightarrow> kernel \<Rightarrow> (int \<times> kernel) res" where
  "fail_op pid k = rbind (end_k pid k) (\<lambda>k. Inr (- 1, k))"

definition sys_chdir :: "senv \<Rightarrow> nat \<Rightarrow> kernel \<Rightarrow> (int \<times> kernel) res" where
  "sys_chdir e h k =
     rbind (myproc h k) (\<lambda>(i, k). let pid = kpid i k in
     rbind (begin_k k) (\<lambda>k.
     rbind (argstr e h 0 (e_loc e 0) MAXPATH k) (\<lambda>(n, k).
       if n < 0 then fail_op pid k
       else rbind (knamei e i (cstring (pmem k) (e_loc e 0) 128) k) (\<lambda>(ip, k).
         case ip of None \<Rightarrow> fail_op pid k
         | Some ip \<Rightarrow>
             rbind (do_fs (inode_lock pid ip) k) (\<lambda>k.
               if i_type (ktable k ! ip) \<noteq> T_DIR then rbind (do_fs (iunlockput e pid ip) k) (fail_op pid)
               else rbind (do_fs (inode_unlock pid ip) k) (\<lambda>k.
                 case p_cwd (procs k ! i) of None \<Rightarrow> Inl (Fault ''no cwd'')
                 | Some c \<Rightarrow>
                     rbind (do_fs (inode_put (im_past (e_im e)) pid c) k) (\<lambda>k.
                     rbind (end_k pid k) (\<lambda>k. Inr (0, upd_proc i (\<lambda>p. p\<lparr>p_cwd := Some ip\<rparr>) k)))))))))"

definition sys_mknod :: "senv \<Rightarrow> nat \<Rightarrow> kernel \<Rightarrow> (int \<times> kernel) res" where
  "sys_mknod e h k =
     rbind (begin_k k) (\<lambda>k.
     rbind (myproc h k) (\<lambda>(i, k). let pid = kpid i k in
     rbind (argstr e h 0 (e_loc e 0) MAXPATH k) (\<lambda>(n, k).
       if n < 0 then fail_op pid k
       else rbind (argint h 1 k) (\<lambda>(major, k). rbind (argint h 2 k) (\<lambda>(minor, k).
         rbind (create e i (cstring (pmem k) (e_loc e 0) 128) T_DEVICE (of_int major) (of_int minor) k) (\<lambda>(ip, k).
           case ip of None \<Rightarrow> fail_op pid k
           | Some ip \<Rightarrow> rbind (do_fs (iunlockput e pid ip) k) (\<lambda>k. rbind (end_k pid k) (\<lambda>k. Inr (0, k)))))))))"

definition sys_mkdir :: "senv \<Rightarrow> nat \<Rightarrow> kernel \<Rightarrow> (int \<times> kernel) res" where
  "sys_mkdir e h k =
     rbind (begin_k k) (\<lambda>k.
     rbind (myproc h k) (\<lambda>(i, k). let pid = kpid i k in
     rbind (argstr e h 0 (e_loc e 0) MAXPATH k) (\<lambda>(n, k).
       if n < 0 then fail_op pid k
       else rbind (create e i (cstring (pmem k) (e_loc e 0) 128) T_DIR 0 0 k) (\<lambda>(ip, k).
         case ip of None \<Rightarrow> fail_op pid k
         | Some ip \<Rightarrow> rbind (do_fs (iunlockput e pid ip) k) (\<lambda>k. rbind (end_k pid k) (\<lambda>k. Inr (0, k)))))))"

text \<open>\<^verbatim>\<open>isdirempty\<close> looks at the entries behind the first two.\<close>

fun dir_empty_loop :: "int \<Rightarrow> nat \<Rightarrow> nat \<Rightarrow> u32 \<Rightarrow> fs \<times> byte list \<Rightarrow> (bool \<times> fs) res" where
  "dir_empty_loop pid ip fuel offset (s, de) =
     (if sint offset < sint (i_size (inode_table s ! ip)) then
        (case fuel of 0 \<Rightarrow> Inl Diverges | Suc fuel \<Rightarrow>
         rbind (read_inode de_out pid ip 0 offset 16 (s, de)) (\<lambda>(r, s, de).
           if r \<noteq> 16 then Inl (Panic ''isdirempty, read_inode'')
           else if get16 de 0 \<noteq> 0 then Inr (False, s)
           else dir_empty_loop pid ip fuel (offset + 16) (s, de)))
      else Inr (True, s))"

declare dir_empty_loop.simps [simp del]

definition isdirempty :: "senv \<Rightarrow> int \<Rightarrow> nat \<Rightarrow> fs \<Rightarrow> (bool \<times> fs) res" where
  "isdirempty e pid ip s = dir_empty_loop pid ip (dir_fuel ip s) 32 (s, e_de e)"

definition clear_entry :: "senv \<Rightarrow> int \<Rightarrow> nat \<Rightarrow> u32 \<Rightarrow> fs \<Rightarrow> fs res" where
  "clear_entry e pid dp off s =
     (let inp = (\<lambda>src j. (take (Suc (unat j)) (drop (unat src) (replicate 16 0 @ [e_stk e])), True)) in
      rbind (write_inode (im_past (e_im e)) inp pid dp 0 off 16 s) (\<lambda>(r, s).
        if r \<noteq> 16 then Inl (Panic ''unlink: write_inode'') else Inr s))"

text \<open>The part of \<^verbatim>\<open>sys_unlink\<close> that the locked directory \<open>dp\<close> and the entry found in it are used in; \<^term>\<open>False\<close> for
  \<^verbatim>\<open>goto bad\<close>.\<close>

definition unlink_found :: "senv \<Rightarrow> int \<Rightarrow> nat \<Rightarrow> nat \<Rightarrow> u32 \<Rightarrow> fs \<Rightarrow> (bool \<times> fs) res" where
  "unlink_found e pid dp ip off s =
     (let past = im_past (e_im e) in
      rbind (inode_lock pid ip s) (\<lambda>s.
        if sint (i_num_link (inode_table s ! ip)) < 1 then Inl (Panic ''unlink: num_link < 1'')
        else rbind (if i_type (inode_table s ! ip) = T_DIR then isdirempty e pid ip s else Inr (True, s)) (\<lambda>(ok, s).
          if \<not> ok then rbind (iunlockput e pid ip s) (\<lambda>s. Inr (False, s))
          else rbind (clear_entry e pid dp off s) (\<lambda>s.
            rbind (if i_type (inode_table s ! ip) = T_DIR
                   then inode_update past pid dp (upd_inode dp (\<lambda>x. x\<lparr>i_num_link := i_num_link x - 1\<rparr>) s) else Inr s) (\<lambda>s.
            rbind (iunlockput e pid dp s) (\<lambda>s.
            rbind (inode_update past pid ip (upd_inode ip (\<lambda>x. x\<lparr>i_num_link := i_num_link x - 1\<rparr>) s)) (\<lambda>s.
            rbind (iunlockput e pid ip s) (\<lambda>s. Inr (True, s)))))))))"

definition unlink_in :: "senv \<Rightarrow> int \<Rightarrow> nat \<Rightarrow> byte list \<Rightarrow> fs \<Rightarrow> (bool \<times> fs) res" where
  "unlink_in e pid dp name s =
     rbind (inode_lock pid dp s) (\<lambda>s.
     rbind (if strncmp_l name [46] 14 = 0 \<or> strncmp_l name [46, 46] 14 = 0 then Inr (False, s)
            else rbind (dir_lookup (e_de e) pid dp name s) (\<lambda>(found, s).
              case found of None \<Rightarrow> Inr (False, s) | Some (ip, off) \<Rightarrow> unlink_found e pid dp ip off s)) (\<lambda>(ok, s).
       if ok then Inr (True, s) else rbind (iunlockput e pid dp s) (\<lambda>s. Inr (False, s))))"

definition sys_unlink :: "senv \<Rightarrow> nat \<Rightarrow> kernel \<Rightarrow> (int \<times> kernel) res" where
  "sys_unlink e h k =
     rbind (argstr e h 0 (e_loc e 0) MAXPATH k) (\<lambda>(n, k).
       if n < 0 then Inr (- 1, k)
       else rbind (begin_k k) (\<lambda>k.
         rbind (myproc h k) (\<lambda>(i, k). let pid = kpid i k in
         rbind (knameiparent e i (cstring (pmem k) (e_loc e 0) 128) k) (\<lambda>((dp, name), k).
           case dp of None \<Rightarrow> fail_op pid k
           | Some dp \<Rightarrow>
               rbind (on_fs (unlink_in e pid dp name) k) (\<lambda>(ok, k).
                 if ok then rbind (end_k pid k) (\<lambda>k. Inr (0, k)) else fail_op pid k)))))"

definition link_count :: "senv \<Rightarrow> int \<Rightarrow> nat \<Rightarrow> (u16 \<Rightarrow> u16) \<Rightarrow> fs \<Rightarrow> fs res" where
  "link_count e pid ip f s = inode_update (im_past (e_im e)) pid ip (upd_inode ip (\<lambda>x. x\<lparr>i_num_link := f (i_num_link x)\<rparr>) s)"

text \<open>The label \<^verbatim>\<open>bad\<close> of \<^verbatim>\<open>sys_link\<close>.\<close>

definition link_undo :: "senv \<Rightarrow> int \<Rightarrow> nat \<Rightarrow> kernel \<Rightarrow> (int \<times> kernel) res" where
  "link_undo e pid ip k =
     rbind (do_fs (\<lambda>s. rbind (inode_lock pid ip s) (\<lambda>s. rbind (link_count e pid ip (\<lambda>n. n - 1) s) (iunlockput e pid ip))) k) (fail_op pid)"

definition link_into :: "senv \<Rightarrow> int \<Rightarrow> nat \<Rightarrow> byte list \<Rightarrow> nat \<Rightarrow> fs \<Rightarrow> (bool \<times> fs) res" where
  "link_into e pid dp name ip s =
     rbind (inode_lock pid dp s) (\<lambda>s.
     rbind (if i_dev (inode_table s ! dp) \<noteq> i_dev (inode_table s ! ip) then Inr (- 1, s) else dlink e pid dp name ip s) (\<lambda>(r, s).
     rbind (iunlockput e pid dp s) (\<lambda>s. Inr (0 \<le> r, s))))"

definition sys_link :: "senv \<Rightarrow> nat \<Rightarrow> kernel \<Rightarrow> (int \<times> kernel) res" where
  "sys_link e h k =
     rbind (argstr e h 0 (e_loc e 0) MAXPATH k) (\<lambda>(n, k).
       if n < 0 then Inr (- 1, k)
       else rbind (argstr e h 1 (e_loc e 1) MAXPATH k) (\<lambda>(n, k).
         if n < 0 then Inr (- 1, k)
         else rbind (begin_k k) (\<lambda>k.
           rbind (myproc h k) (\<lambda>(i, k). let pid = kpid i k in
           rbind (knamei e i (cstring (pmem k) (e_loc e 0) 128) k) (\<lambda>(ip, k).
             case ip of None \<Rightarrow> fail_op pid k
             | Some ip \<Rightarrow>
                 rbind (do_fs (inode_lock pid ip) k) (\<lambda>k.
                   if i_type (ktable k ! ip) = T_DIR then rbind (do_fs (inode_unlock pid ip) k) (fail_op pid)
                   else
                     rbind (do_fs (\<lambda>s. rbind (link_count e pid ip (\<lambda>n. n + 1) s) (inode_unlock pid ip)) k) (\<lambda>k.
                     rbind (knameiparent e i (cstring (pmem k) (e_loc e 1) 128) k) (\<lambda>((dp, name), k).
                       case dp of None \<Rightarrow> link_undo e pid ip k
                       | Some dp \<Rightarrow>
                           rbind (on_fs (link_into e pid dp name ip) k) (\<lambda>(ok, k).
                             if \<not> ok then link_undo e pid ip k
                             else rbind (do_fs (inode_put (im_past (e_im e)) pid ip) k) (\<lambda>k.
                               rbind (end_k pid k) (\<lambda>k. Inr (0, k))))))))))))"

section \<open>open\<close>

text \<open>The inode that \<^verbatim>\<open>open\<close> opens, locked.\<close>

definition open_inode :: "senv \<Rightarrow> nat \<Rightarrow> byte list \<Rightarrow> u32 \<Rightarrow> kernel \<Rightarrow> (nat option \<times> kernel) res" where
  "open_inode e i path omode k =
     (let pid = kpid i k in
      if omode AND 0x200 \<noteq> 0 then create e i path T_FILE 0 0 k
      else rbind (knamei e i path k) (\<lambda>(ip, k).
        case ip of None \<Rightarrow> Inr (None, k)
        | Some ip \<Rightarrow>
            rbind (do_fs (inode_lock pid ip) k) (\<lambda>k.
              if i_type (ktable k ! ip) = T_DIR \<and> omode \<noteq> 0 then rbind (do_fs (iunlockput e pid ip) k) (\<lambda>k. Inr (None, k))
              else Inr (Some ip, k))))"

definition open_fill :: "nat \<Rightarrow> u32 \<Rightarrow> inode \<Rightarrow> kfile \<Rightarrow> kfile" where
  "open_fill ip omode x f =
     (let f = (if i_type x = T_DEVICE then f\<lparr>f_type := FD_DEVICE, f_major_dev_num := sint (i_major_dev_num x)\<rparr>
               else f\<lparr>f_type := FD_INODE, f_offset := 0\<rparr>)
      in f\<lparr>f_inode := ip, f_readable := omode AND 1 = 0, f_writable := omode AND 1 \<noteq> 0 \<or> omode AND 2 \<noteq> 0\<rparr>)"

definition open_file :: "senv \<Rightarrow> nat \<Rightarrow> nat \<Rightarrow> nat \<Rightarrow> u32 \<Rightarrow> kernel \<Rightarrow> (int \<times> kernel) res" where
  "open_file e h i ip omode k =
     (let pid = kpid i k;
          fail = (\<lambda>k. rbind (do_fs (iunlockput e pid ip) k) (fail_op pid)) in
      if i_type (ktable k ! ip) = T_DEVICE \<and>
           (sint (i_major_dev_num (ktable k ! ip)) < 0 \<or> sint (i_major_dev_num (ktable k ! ip)) \<ge> NUMDEV) then fail k
      else case file_alloc (kfiles k) of
        (None, s) \<Rightarrow> fail (k\<lparr>kfiles := s\<rparr>)
      | (Some f, s) \<Rightarrow>
          rbind (fdalloc h f (k\<lparr>kfiles := s\<rparr>)) (\<lambda>(fd, k).
            case fd of
              None \<Rightarrow> rbind (kclose e i f k) fail
            | Some fd \<Rightarrow>
                let x = ktable k ! ip;
                    k = k\<lparr>kfiles := upd_file f (open_fill ip omode x) (kfiles k)\<rparr> in
                rbind (if omode AND 0x400 \<noteq> 0 \<and> i_type x = T_FILE
                       then do_fs (inode_truncate (im_past (e_im e)) pid ip) k else Inr k) (\<lambda>k.
                rbind (do_fs (inode_unlock pid ip) k) (\<lambda>k.
                rbind (end_k pid k) (\<lambda>k. Inr (int fd, k))))))"

definition sys_open :: "senv \<Rightarrow> nat \<Rightarrow> kernel \<Rightarrow> (int \<times> kernel) res" where
  "sys_open e h k =
     rbind (argstr e h 0 (e_loc e 0) MAXPATH k) (\<lambda>(n, k).
       if n < 0 then Inr (- 1, k)
       else rbind (argaddr h 1 k) (\<lambda>(omode, k).
         rbind (begin_k k) (\<lambda>k.
         rbind (myproc h k) (\<lambda>(i, k).
         rbind (open_inode e i (cstring (pmem k) (e_loc e 0) 128) omode k) (\<lambda>(ip, k).
           case ip of None \<Rightarrow> fail_op (kpid i k) k | Some ip \<Rightarrow> open_file e h i ip omode k)))))"

section \<open>exec\<close>

text \<open>\<^verbatim>\<open>read_inode\<close> to a kernel address: the stacks and the pages of the heap lie above the buffer cache, where
  \<^verbatim>\<open>memmove\<close> copies the given number of bytes.\<close>

definition mem_out :: "u32 \<Rightarrow> byte list \<Rightarrow> mem \<Rightarrow> mem option" where
  "mem_out dst bytes m = Some (put_bytes dst bytes m)"

definition kread :: "int \<Rightarrow> nat \<Rightarrow> u32 \<Rightarrow> u32 \<Rightarrow> u32 \<Rightarrow> kernel \<Rightarrow> (int \<times> kernel) res" where
  "kread pid ip dst off n k =
     rbind (read_inode mem_out pid ip dst off n (ffs (kfiles k), pmem k)) (\<lambda>(r, s, m).
       Inr (r, k\<lparr>kfiles := (kfiles k)\<lparr>ffs := s, fmem := m\<rparr>\<rparr>))"

text \<open>A segment of at most \<open>0xfffff000\<close> bytes has fewer than \<open>2\<^sup>2\<^sup>0\<close> pages; for a longer one the counter of the
  loop wraps around.\<close>

fun loadseg_loop :: "senv \<Rightarrow> int \<Rightarrow> u32 \<Rightarrow> u32 \<Rightarrow> nat \<Rightarrow> u32 \<Rightarrow> u32 \<Rightarrow> nat \<Rightarrow> u32 \<Rightarrow> kernel \<Rightarrow> (int \<times> kernel) res" where
  "loadseg_loop e pid pt va ip offset sz fuel i k =
     (if i < sz then
        (case fuel of 0 \<Rightarrow> Inl Diverges | Suc fuel \<Rightarrow>
         rbind (fetch_pa_addr (im_mem_end (e_im e)) pt (va + i) (pmem k)) (\<lambda>pa.
           if pa = 0 then Inl (Panic ''loadseg: address should exist'')
           else
             let n = (if sz - i < PGESIZE then sz - i else PGESIZE) in
             rbind (kread pid ip pa (offset + i) n k) (\<lambda>(r, k).
               if r \<noteq> sint n then Inr (- 1, k)
               else loadseg_loop e pid pt va ip offset sz fuel (i + PGESIZE) k)))
      else Inr (0, k))"

declare loadseg_loop.simps [simp del]

definition loadseg :: "senv \<Rightarrow> int \<Rightarrow> u32 \<Rightarrow> u32 \<Rightarrow> nat \<Rightarrow> u32 \<Rightarrow> u32 \<Rightarrow> kernel \<Rightarrow> (int \<times> kernel) res" where
  "loadseg e pid pt va ip offset sz = loadseg_loop e pid pt va ip offset sz ADDRESS_SPACE_PAGES 0"

text \<open>The loop over the program headers: whether it ended without \<^verbatim>\<open>goto bad\<close>, and the value of \<^verbatim>\<open>sz\<close>. The header lies
  at \<open>e_loc e 3\<close>; its words are type, offset, virtual and physical address, file size and memory size.\<close>

fun load_headers :: "senv \<Rightarrow> int \<Rightarrow> nat \<Rightarrow> u32 \<Rightarrow> nat \<Rightarrow> u32 \<Rightarrow> u32 \<Rightarrow> kernel \<Rightarrow> ((bool \<times> u32) \<times> kernel) res" where
  "load_headers e pid ip pt 0 off sz k = Inr ((True, sz), k)"
| "load_headers e pid ip pt (Suc n) off sz k =
     rbind (kread pid ip (e_loc e 3) off 32 k) (\<lambda>(r, k).
       let ph = (\<lambda>j. load32 (pmem k) (e_loc e 3 + of_nat (4 * j)));
           vaddr = ph 2; filesz = ph 4; memsz = ph 5 in
       if r \<noteq> 32 then Inr ((False, sz), k)
       else if ph 0 \<noteq> ELF_PROG_LOAD then load_headers e pid ip pt n (off + 32) sz k
       else if memsz < filesz then Inr ((False, sz), k)
       else if vaddr + memsz < vaddr then Inr ((False, sz), k)
       else rbind (on_mem (uvmalloc (im_mem_end (e_im e)) pt sz (vaddr + memsz)) k) (\<lambda>(sz, k).
         if sz = 0 then Inr ((False, sz), k)
         else if vaddr mod PGESIZE \<noteq> 0 then Inr ((False, sz), k)
         else rbind (loadseg e pid pt vaddr ip (ph 1) filesz k) (\<lambda>(r, k).
           if r < 0 then Inr ((False, sz), k)
           else load_headers e pid ip pt n (off + 32) sz k)))"

text \<open>The label \<^verbatim>\<open>bad\<close>.\<close>

definition exec_bad :: "senv \<Rightarrow> int \<Rightarrow> u32 \<Rightarrow> u32 \<Rightarrow> nat option \<Rightarrow> kernel \<Rightarrow> (int \<times> kernel) res" where
  "exec_bad e pid pt sz ip k =
     rbind (if pt \<noteq> 0 then do_mem (proc_freepagetable (e_im e) pt sz) k else Inr k) (\<lambda>k.
       case ip of None \<Rightarrow> Inr (- 1, k)
       | Some ip \<Rightarrow> rbind (do_fs (iunlockput e pid ip) k) (fail_op pid))"

text \<open>The arguments are copied to the new stack from the top down and their addresses collected in \<^verbatim>\<open>ustack\<close>, which
  lies at \<open>e_loc e 4\<close>. The result is the number of arguments and the stack pointer, \<^term>\<open>None\<close> for \<^verbatim>\<open>goto bad\<close>. An
  argument is the address of a string of the kernel; the list has a null pointer behind the last one.\<close>

definition align16 :: "u32 \<Rightarrow> u32" where
  "align16 sp = sp - sp mod 16"

fun push_args :: "senv \<Rightarrow> u32 \<Rightarrow> u32 \<Rightarrow> u32 list \<Rightarrow> nat \<Rightarrow> u32 \<Rightarrow> kernel \<Rightarrow> ((nat \<times> u32) option \<times> kernel) res" where
  "push_args e pt stackbase [] argc sp k = Inl (Fault ''argv'')"
| "push_args e pt stackbase (a # argv) argc sp k =
     (if a = 0 then Inr (Some (argc, sp), k)
      else if argc \<ge> MAXARG then Inr (None, k)
      else case strlen (pmem k) a of
        None \<Rightarrow> Inl Diverges
      | Some n \<Rightarrow>
          let sp = align16 (sp - (n + 1)) in
          if sp < stackbase then Inr (None, k)
          else rbind (on_mem (copyout (im_mem_end (e_im e)) pt sp a (n + 1)) k) (\<lambda>(r, k).
            if r < 0 then Inr (None, k)
            else push_args e pt stackbase argv (Suc argc) sp
              (set_mem (store32 (pmem k) (e_loc e 4 + of_nat (4 * argc)) sp) k)))"

definition push_argv :: "senv \<Rightarrow> u32 \<Rightarrow> u32 \<Rightarrow> u32 list \<Rightarrow> u32 \<Rightarrow> kernel \<Rightarrow> ((nat \<times> u32) option \<times> kernel) res" where
  "push_argv e pt stackbase argv sp k =
     rbind (push_args e pt stackbase argv 0 sp k) (\<lambda>(r, k).
       case r of None \<Rightarrow> Inr (None, k)
       | Some (argc, sp) \<Rightarrow>
           let k = set_mem (store32 (pmem k) (e_loc e 4 + of_nat (4 * argc)) 0) k;
               sp = align16 (sp - of_nat (4 * (argc + 1))) in
           if sp < stackbase then Inr (None, k)
           else rbind (on_mem (copyout (im_mem_end (e_im e)) pt sp (e_loc e 4) (of_nat (4 * (argc + 1)))) k) (\<lambda>(r, k).
             Inr (if r < 0 then None else Some (argc, sp), k)))"

text \<open>\<^verbatim>\<open>for (last=s=path; *s; s++) if(*s == '/') last = s+1;\<close>\<close>

fun last_elem :: "byte list \<Rightarrow> byte list \<Rightarrow> byte list" where
  "last_elem lst [] = lst"
| "last_elem lst (c # s) = last_elem (if c = SLASH then s else lst) s"

definition exec_commit :: "senv \<Rightarrow> nat \<Rightarrow> byte list \<Rightarrow> u32 \<Rightarrow> u32 \<Rightarrow> u32 \<Rightarrow> u32 \<Rightarrow> kernel \<Rightarrow> kernel res" where
  "exec_commit e i path pt sz oldsz sp k =
     (let k = set_tf i TF_A1 sp k;
          oldpt = p_pagetable (procs k ! i);
          k = upd_proc i (\<lambda>p. p\<lparr>p_name := strcpy_l (p_name p) (last_elem path path) 16, p_pagetable := pt, p_mem_size := sz\<rparr>) k;
          k = set_tf i TF_PC (load32 (pmem k) (e_loc e 2 + 24)) k;
          k = set_tf i TF_SP sp k
      in do_mem (proc_freepagetable (e_im e) oldpt oldsz) k)"

text \<open>From the end of the transaction on.\<close>

definition exec_stack :: "senv \<Rightarrow> nat \<Rightarrow> byte list \<Rightarrow> u32 list \<Rightarrow> u32 \<Rightarrow> u32 \<Rightarrow> kernel \<Rightarrow> (int \<times> kernel) res" where
  "exec_stack e i path argv pt sz k =
     (let pid = kpid i k; oldsz = p_mem_size (procs k ! i);
          sz = (sz + PGESIZE - 1) AND NOT (PGESIZE - 1) in
      rbind (on_mem (uvmalloc (im_mem_end (e_im e)) pt sz (sz + 2 * PGESIZE)) k) (\<lambda>(sz1, k).
        if sz1 = 0 then exec_bad e pid pt sz None k
        else rbind (do_mem (uvmclear (im_mem_end (e_im e)) pt (sz1 - 2 * PGESIZE)) k) (\<lambda>k.
          rbind (push_argv e pt (sz1 - PGESIZE) argv sz1 k) (\<lambda>(r, k).
            case r of None \<Rightarrow> exec_bad e pid pt sz1 None k
            | Some (argc, sp) \<Rightarrow>
                rbind (exec_commit e i path pt sz1 oldsz sp k) (\<lambda>k. Inr (int argc, k))))))"

definition exec :: "senv \<Rightarrow> nat \<Rightarrow> byte list \<Rightarrow> u32 list \<Rightarrow> kernel \<Rightarrow> (int \<times> kernel) res" where
  "exec e h path argv k =
     rbind (myproc h k) (\<lambda>(i, k). let pid = kpid i k in
     rbind (begin_k k) (\<lambda>k.
     rbind (knamei e i path k) (\<lambda>(ip, k).
       case ip of None \<Rightarrow> fail_op pid k
       | Some ip \<Rightarrow>
           rbind (do_fs (inode_lock pid ip) k) (\<lambda>k.
           rbind (kread pid ip (e_loc e 2) 0 52 k) (\<lambda>(r, k).
             if r \<noteq> 52 then exec_bad e pid 0 0 (Some ip) k
             else if load32 (pmem k) (e_loc e 2) \<noteq> ELF_MAGIC then exec_bad e pid 0 0 (Some ip) k
             else rbind (on_mem (proc_pagetable (e_im e) (p_trapframe (procs k ! i))) k) (\<lambda>(pt, k).
               if pt = 0 then exec_bad e pid 0 0 (Some ip) k
               else rbind (load_headers e pid ip pt (unat (ucast (load32 (pmem k) (e_loc e 2 + 44)) :: u16))
                     (load32 (pmem k) (e_loc e 2 + 28)) 0 k) (\<lambda>((ok, sz), k).
                 if \<not> ok then exec_bad e pid pt sz (Some ip) k
                 else rbind (do_fs (iunlockput e pid ip) k) (\<lambda>k.
                   rbind (end_k pid k) (\<lambda>k.
                   rbind (myproc h k) (\<lambda>(i, k). exec_stack e i path argv pt sz k))))))))))"

text \<open>The arguments of \<^verbatim>\<open>sys_exec\<close>: a page of the kernel for each string. The rounds end at the thirty-third.\<close>

fun fetch_args :: "senv \<Rightarrow> nat \<Rightarrow> u32 \<Rightarrow> nat list \<Rightarrow> u32 list \<Rightarrow> kernel \<Rightarrow> ((bool \<times> u32 list) \<times> kernel) res" where
  "fetch_args e h uargv [] argv k = Inr ((False, argv), k)"
| "fetch_args e h uargv (i # is) argv k =
     rbind (fetchaddr e h (uargv + of_nat (4 * i)) (e_loc e 1) k) (\<lambda>(r, k).
       if r < 0 then Inr ((False, argv), k)
       else
         let uarg = load32 (pmem k) (e_loc e 1) in
         if uarg = 0 then Inr ((True, argv[i := 0]), k)
         else rbind (on_mem (kalloc (im_mem_end (e_im e))) k) (\<lambda>(page, k).
           if page = 0 then Inr ((False, argv[i := 0]), k)
           else rbind (fetchstr e h uarg page PGESIZE k) (\<lambda>(r, k).
             if r < 0 then Inr ((False, argv[i := page]), k)
             else fetch_args e h uargv is (argv[i := page]) k)))"

definition free_args :: "senv \<Rightarrow> u32 list \<Rightarrow> kernel \<Rightarrow> kernel" where
  "free_args e argv k = set_mem (fold (kfree (im_mem_end (e_im e))) (takeWhile (\<lambda>a. a \<noteq> 0) argv) (pmem k)) k"

definition sys_exec :: "senv \<Rightarrow> nat \<Rightarrow> kernel \<Rightarrow> (int \<times> kernel) res" where
  "sys_exec e h k =
     rbind (argstr e h 0 (e_loc e 0) MAXPATH k) (\<lambda>(n, k).
       if n < 0 then Inr (- 1, k)
       else rbind (argaddr h 1 k) (\<lambda>(uargv, k).
         rbind (fetch_args e h uargv [0..<MAXARG] (replicate MAXARG 0) k) (\<lambda>((ok, argv), k).
           if \<not> ok then Inr (- 1, free_args e argv k)
           else rbind (exec e h (cstring (pmem k) (e_loc e 0) 128) argv k) (\<lambda>(ret, k).
             Inr (ret, free_args e argv k)))))"

section \<open>Invariants\<close>

text \<open>The system calls that touch neither descriptors nor processes keep every invariant of \<^term>\<open>kernel_frame\<close>.\<close>

context kernel_frame
begin

lemma do_fs_keeps: "P k \<Longrightarrow> post P (do_fs op k)"
  by (auto simp: post_def do_fs_def on_files_def with_fs_def rbind_eq_Inr P_fs)

lemma begin_k_keeps: "P k \<Longrightarrow> post P (begin_k k)"
  unfolding begin_k_def by (rule do_fs_keeps)

lemma end_k_keeps: "P k \<Longrightarrow> post P (end_k pid k)"
  unfolding end_k_def by (rule do_fs_keeps)

lemmas keep_fs = keep_args do_fs_keeps begin_k_keeps end_k_keeps

lemma fail_op_keeps: "P k \<Longrightarrow> keeps (fail_op pid k)"
  unfolding fail_op_def by (rule keep_fs | assumption)+

lemma knamei_keeps: "P k \<Longrightarrow> keeps (knamei e i path k)"
  unfolding knamei_def by (rule post_pure on_fs_keeps | assumption)+

lemma knameiparent_keeps: "P k \<Longrightarrow> keeps (knameiparent e i path k)"
  unfolding knameiparent_def by (rule post_pure on_fs_keeps | assumption)+

lemma argfd_keeps: "P k \<Longrightarrow> keeps (argfd h n k)"
  unfolding argfd_def by ((rule keep_fs | assumption) | rule post_pure)+

lemmas keep_paths = keep_fs fail_op_keeps knamei_keeps knameiparent_keeps argfd_keeps

lemma create_keeps: "P k \<Longrightarrow> keeps (create e i path ty major minor k)"
  unfolding create_def by (rule keep_paths | assumption)+

lemma sys_mknod_keeps: "P k \<Longrightarrow> keeps (sys_mknod e h k)"
  unfolding sys_mknod_def by (rule keep_paths create_keeps | assumption)+

lemma sys_mkdir_keeps: "P k \<Longrightarrow> keeps (sys_mkdir e h k)"
  unfolding sys_mkdir_def by (rule keep_paths create_keeps | assumption)+

lemma sys_unlink_keeps: "P k \<Longrightarrow> keeps (sys_unlink e h k)"
  unfolding sys_unlink_def by (rule keep_paths | assumption)+

lemma link_undo_keeps: "P k \<Longrightarrow> keeps (link_undo e pid ip k)"
  unfolding link_undo_def by (rule keep_paths | assumption)+

lemma sys_link_keeps: "P k \<Longrightarrow> keeps (sys_link e h k)"
  unfolding sys_link_def by (rule keep_paths link_undo_keeps | assumption)+

lemma open_inode_keeps: "P k \<Longrightarrow> keeps (open_inode e i path omode k)"
  unfolding open_inode_def by (rule keep_paths create_keeps | assumption)+

text \<open>The parts of \<^verbatim>\<open>exec\<close> before it commits.\<close>

lemma kread_keeps: "P k \<Longrightarrow> keeps (kread pid ip dst off n k)"
proof -
  assume "P k"
  then have "P (set_mem m (k\<lparr>kfiles := (kfiles k)\<lparr>ffs := s\<rparr>\<rparr>))" for s m by (intro P_mem P_fs)
  then show ?thesis by (auto simp: post_def kread_def rbind_eq_Inr set_mem_def)
qed

lemma loadseg_loop_keeps: "P k \<Longrightarrow> keeps (loadseg_loop e pid pt va ip offset sz fuel i k)"
proof (induction fuel arbitrary: i k)
  case 0
  then show ?case by (subst loadseg_loop.simps) (auto simp: post_def)
next
  case (Suc fuel)
  show ?case
    by (subst loadseg_loop.simps, simp only: nat.case)
      ((rule keep_paths kread_keeps Suc.IH Suc.prems | assumption) | rule post_pure)+
qed

lemma loadseg_keeps: "P k \<Longrightarrow> keeps (loadseg e pid pt va ip offset sz k)"
  unfolding loadseg_def by (rule loadseg_loop_keeps)

lemma load_headers_keeps: "P k \<Longrightarrow> keeps (load_headers e pid ip pt n off sz k)"
proof (induction n arbitrary: off sz k)
  case 0
  then show ?case by (simp add: post_Inr)
next
  case (Suc n)
  show ?case
    unfolding load_headers.simps by (rule keep_paths kread_keeps loadseg_keeps Suc.IH Suc.prems | assumption)+
qed

lemma fail_op_minus: "P k \<Longrightarrow> post (\<lambda>(r, k'). r = - 1 \<and> P k') (fail_op pid k)"
  unfolding fail_op_def by (rule post_bind [OF end_k_keeps]) (auto intro: post_Inr)

lemma exec_bad_minus: "P k \<Longrightarrow> post (\<lambda>(r, k'). r = - 1 \<and> P k') (exec_bad e pid pt sz ip k)"
proof -
  have ret: "P k \<Longrightarrow> post (\<lambda>(r, k'). r = - 1 \<and> P k') (Inr (- 1, k))" for k by (simp add: post_Inr)
  show "P k \<Longrightarrow> post (\<lambda>(r, k'). r = - 1 \<and> P k') (exec_bad e pid pt sz ip k)"
    unfolding exec_bad_def
    by (rule ret bind1 ret1 post_if post_option do_mem_keeps do_fs_keeps fail_op_minus | assumption)+
qed

lemma exec_bad_keeps: "P k \<Longrightarrow> keeps (exec_bad e pid pt sz ip k)"
  unfolding exec_bad_def by (rule keep_paths | assumption)+

lemma push_args_keeps: "P k \<Longrightarrow> keeps (push_args e pt stackbase argv argc sp k)"
proof (induction argv arbitrary: argc sp k)
  case Nil
  then show ?case by (simp add: post_def)
next
  case (Cons a argv)
  show ?case unfolding push_args.simps by (rule keep_paths Cons.IH Cons.prems | assumption)+
qed

text \<open>The number of arguments on the stack is that of the pointers before the null pointer.\<close>

lemma push_args_count:
  assumes "P k" "argc \<le> MAXARG"
  shows "post (\<lambda>(r, k'). P k' \<and> (\<forall>n sp. r = Some (n, sp) \<longrightarrow> n = argc + length (takeWhile (\<lambda>a. a \<noteq> 0) argv) \<and> n \<le> MAXARG))
    (push_args e pt stackbase argv argc sp k)"
  using assms
proof (induction argv arbitrary: argc sp k)
  case (Cons a argv)
  let ?Q = "\<lambda>argv argc (r, k'). P k' \<and> (\<forall>n sp. r = Some (n, sp) \<longrightarrow> n = argc + length (takeWhile (\<lambda>a. a \<noteq> 0) argv) \<and> n \<le> MAXARG)"
  have step: "post (?Q (a # argv) argc) (rbind (on_mem op k1) (\<lambda>(r, k). if r < 0 then Inr (None, k) else push_args e pt stackbase argv (Suc argc) x (w k)))"
    if "P k1" "a \<noteq> 0" "argc < MAXARG" "\<And>k. P k \<Longrightarrow> P (w k)" for k1 op x and w :: "kernel \<Rightarrow> kernel"
  proof (rule bind2 [OF on_mem_keeps [OF that(1)]], rule post_if)
    fix r :: int and k2 assume "P k2"
    then show "post (?Q (a # argv) argc) (Inr (None, k2))" by (simp add: post_Inr)
    have "post (?Q argv (Suc argc)) (push_args e pt stackbase argv (Suc argc) x (w k2))"
      by (rule Cons.IH) (use that \<open>P k2\<close> in auto)
    then show "post (?Q (a # argv) argc) (push_args e pt stackbase argv (Suc argc) x (w k2))"
      by (rule post_mono) (use that(2) in auto)
  qed
  have w: "P k \<Longrightarrow> P (set_mem (store32 (pmem k) b c) k)" for k b c by (rule P_mem)
  show ?case
  proof (cases "a = 0 \<or> argc \<ge> MAXARG")
    case True
    then show ?thesis using Cons.prems by (auto intro: post_Inr)
  next
    case False
    then have a: "a \<noteq> 0" "argc < MAXARG" by auto
    have none: "P k \<Longrightarrow> post (?Q (a # argv) argc) (Inr (None, k))" for k by (simp add: post_Inr)
    have "post (?Q (a # argv) argc) (case strlen (pmem k) a of None \<Rightarrow> Inl Diverges
      | Some n \<Rightarrow> let sp = align16 (sp - (n + 1)) in
          if sp < stackbase then Inr (None, k)
          else rbind (on_mem (copyout (im_mem_end (e_im e)) pt sp a (n + 1)) k) (\<lambda>(r, k).
            if r < 0 then Inr (None, k)
            else push_args e pt stackbase argv (Suc argc) sp (set_mem (store32 (pmem k) (e_loc e 4 + of_nat (4 * argc)) sp) k)))"
      by (rule post_if post_option post_Let post_Inl step [OF _ a] none w Cons.prems(1) | assumption)+
    then show ?thesis using a by simp
  qed
qed (simp add: post_Inl)

lemma push_argv_count:
  assumes "P k"
  shows "post (\<lambda>(r, k'). P k' \<and> (\<forall>n sp. r = Some (n, sp) \<longrightarrow> n = length (takeWhile (\<lambda>a. a \<noteq> 0) argv) \<and> n \<le> MAXARG))
    (push_argv e pt stackbase argv sp k)"
  unfolding push_argv_def
proof (rule post_bind [OF push_args_count [OF assms le0]], clarify, rule post_option)
  let ?Q = "\<lambda>(r, k'). P k' \<and> (\<forall>n (sp :: u32). r = Some (n, sp) \<longrightarrow> n = length (takeWhile (\<lambda>a. a \<noteq> 0) argv) \<and> n \<le> MAXARG)"
  fix r :: "(nat \<times> u32) option" and k1
  assume *: "P k1" "\<forall>n sp. r = Some (n, sp) \<longrightarrow> n = 0 + length (takeWhile (\<lambda>a. a \<noteq> 0) argv) \<and> n \<le> MAXARG"
  show "post ?Q (Inr (None, k1))" using *(1) by (simp add: post_Inr)
  fix y assume r: "r = Some y"
  obtain argc sp1 where y: "y = (argc, sp1)" by fastforce
  have n: "argc = length (takeWhile (\<lambda>a. a \<noteq> 0) argv) \<and> argc \<le> MAXARG" using *(2) r y by simp
  have tail: "post ?Q (if b then Inr (None, k2) else rbind (on_mem op k2) (\<lambda>(r, k). Inr (if r < 0 then None else Some (argc, sp2), k)))"
    if "P k2" for b k2 op sp2
    by (rule post_if, simp add: post_Inr that, rule bind2 [OF on_mem_keeps [OF that]]) (use n in \<open>simp add: post_Inr\<close>)
  show "post ?Q (case y of (argc, sp) \<Rightarrow>
           let k = set_mem (store32 (pmem k1) (e_loc e 4 + of_nat (4 * argc)) 0) k1; sp = align16 (sp - of_nat (4 * (argc + 1))) in
           if sp < stackbase then Inr (None, k)
           else rbind (on_mem (copyout (im_mem_end (e_im e)) pt sp (e_loc e 4) (of_nat (4 * (argc + 1)))) k) (\<lambda>(r, k).
             Inr (if r < 0 then None else Some (argc, sp), k)))"
    unfolding y prod.case Let_def by (rule tail [OF P_mem [OF *(1)]])
qed

lemma push_argv_keeps: "P k \<Longrightarrow> keeps (push_argv e pt stackbase argv sp k)"
  unfolding push_argv_def by (rule keep_paths push_args_keeps | assumption)+

lemma fetch_args_keeps: "P k \<Longrightarrow> keeps (fetch_args e h uargv is argv k)"
proof (induction "is" arbitrary: argv k)
  case Nil
  then show ?case by (simp add: post_Inr)
next
  case (Cons i "is")
  show ?case unfolding fetch_args.simps by (rule keep_paths Cons.IH Cons.prems | assumption)+
qed

lemma free_args_keeps: "P k \<Longrightarrow> P (free_args e argv k)"
  unfolding free_args_def by (rule P_mem)

end

text \<open>What a step on locks, memory or the file system leaves alone.\<close>

interpretation pr: kernel_frame "\<lambda>k. procs k = ps \<and> cur k = c \<and> ftable (kfiles k) = t" for ps c t
  by unfold_locales (auto simp: set_mem_def)

section \<open>Descriptors of the current process\<close>

definition procs_kept :: "kernel \<Rightarrow> kernel \<Rightarrow> bool" where
  "procs_kept k k' \<longleftrightarrow> procs k' = procs k \<and> kfiles k' = kfiles k \<and> cur k' = cur k \<and> nextpid k' = nextpid k"

lemma procs_kept_mach [simp]: "procs_kept k (k\<lparr>mach := m\<rparr>)"
  by (simp add: procs_kept_def)

text \<open>\<^verbatim>\<open>argfd\<close> on a process with its sixteen descriptors: a number below 16 gives what the descriptor stands for,
  with no entry the result is -1, and so it is for a negative number and from 100 on. The test compares with \<^verbatim>\<open>NUMFILE\<close>
  instead of \<^verbatim>\<open>NUMOFILES\<close>: from 16 to 99 it reads behind the table.\<close>

theorem argfd_checks_hundred:
  assumes "depth k h = 0" "cur k h = Some i" "length (p_openfile (procs k ! i)) = NUMOFILES" "n \<le> 5"
    and "fd = sint (tf_word i (TF_A0 + 4 * n) k)"
  shows "\<exists>k'. procs_kept k k' \<and> argfd h n k =
    (if 0 \<le> fd \<and> fd < 16 then Inr (map_option (Pair (nat fd)) (p_openfile (procs k ! i) ! nat fd), k')
     else if 16 \<le> fd \<and> fd < 100 then Inl (Fault ''index'')
     else Inr (None, k'))"
proof -
  let ?b = "\<lambda>k. k\<lparr>mach := set_cpu h ((cpus (mach k) h)\<lparr>intr_prev_state := sie (cpus (mach k) h)\<rparr>) (mach k)\<rparr>"
  have d: "depth (?b k') h = depth k' h" for k' by (simp add: set_cpu_def)
  have arg: "argint h n k = Inr (fd, ?b k)" using assms by (simp add: argint_def argraw_def myproc_eval)
  show ?thesis
  proof (cases "0 \<le> fd \<and> fd < 100")
    case False
    then show ?thesis using arg by (intro exI [of _ "?b k"]) (auto simp: argfd_def)
  next
    case True
    have "argfd h n k = rbind (aget (p_openfile (procs k ! i)) (nat fd)) (\<lambda>f. Inr (map_option (Pair (nat fd)) f, ?b (?b k)))"
      using arg True assms(1,2) by (cases "aget (p_openfile (procs k ! i)) (nat fd)") (simp_all add: argfd_def myproc_eval d split: option.splits)
    then show ?thesis using True assms(3) by (intro exI [of _ "?b (?b k)"]) (auto simp: aget_def)
  qed
qed

lemma fd_scan_find:
  assumes "n \<le> length l" "length l < m"
  shows "fd_scan l [n..<m] = (case find (\<lambda>fd. l ! fd = None) [n..<length l] of None \<Rightarrow> Inl (Fault ''index'') | Some fd \<Rightarrow> Inr (Some fd))"
  using assms
proof (induction "m - n" arbitrary: n)
  case (Suc d)
  then have m: "[n..<m] = n # [Suc n..<m]" by (simp add: upt_conv_Cons)
  show ?case
  proof (cases "n = length l")
    case False
    with Suc have "n < length l" "d = m - Suc n" by auto
    then show ?thesis using Suc.hyps(1) [of "Suc n"] Suc.prems m by (simp add: upt_conv_Cons)
  qed (use m in \<open>simp add: aget_def\<close>)
qed simp

text \<open>\<^verbatim>\<open>fdalloc\<close> gives the lowest free descriptor to the file and changes nothing else. When all sixteen are taken it
  never returns -1, as its callers expect, but goes on behind the table.\<close>

theorem fdalloc_takes_lowest:
  assumes "depth k h = 0" "cur k h = Some i" "length (p_openfile (procs k ! i)) = NUMOFILES"
  shows "(\<forall>fd<NUMOFILES. p_openfile (procs k ! i) ! fd = None \<and> (\<forall>d<fd. p_openfile (procs k ! i) ! d \<noteq> None) \<longrightarrow>
       (\<exists>k'. procs_kept k k' \<and> fdalloc h f k = Inr (Some fd, set_fd i fd (Some f) k')))
    \<and> ((\<forall>fd<NUMOFILES. p_openfile (procs k ! i) ! fd \<noteq> None) \<longrightarrow> fdalloc h f k = Inl (Fault ''index''))"
proof (intro conjI allI impI; (elim conjE)?)
  let ?b = "\<lambda>k. k\<lparr>mach := set_cpu h ((cpus (mach k) h)\<lparr>intr_prev_state := sie (cpus (mach k) h)\<rparr>) (mach k)\<rparr>"
  let ?l = "p_openfile (procs k ! i)"
  have alloc: "fdalloc h f k = rbind (fd_scan ?l [0..<NUMFILE]) (\<lambda>r. case r of None \<Rightarrow> Inr (None, ?b k) | Some fd \<Rightarrow> Inr (Some fd, set_fd i fd (Some f) (?b k)))"
    using assms(1,2) by (simp add: fdalloc_def myproc_eval)
  have scan: "fd_scan ?l [0..<NUMFILE] = (case find (\<lambda>fd. ?l ! fd = None) [0..<NUMOFILES] of None \<Rightarrow> Inl (Fault ''index'') | Some fd \<Rightarrow> Inr (Some fd))"
    using fd_scan_find [of 0 ?l NUMFILE] assms(3) by simp
  { fix fd assume "fd < NUMOFILES" "?l ! fd = None" "\<forall>d<fd. ?l ! d \<noteq> None"
    then have "find (\<lambda>fd. ?l ! fd = None) [0..<NUMOFILES] = Some fd"
      unfolding find_Some_iff by (intro exI [of _ fd]) auto
    then show "\<exists>k'. procs_kept k k' \<and> fdalloc h f k = Inr (Some fd, set_fd i fd (Some f) k')"
      using alloc scan by (intro exI [of _ "?b k"]) simp }
  assume "\<forall>fd<NUMOFILES. ?l ! fd \<noteq> None"
  then have "find (\<lambda>fd. ?l ! fd = None) [0..<NUMOFILES] = None" by (auto simp: find_None_iff)
  then show "fdalloc h f k = Inl (Fault ''index'')" using alloc scan by simp
qed

section \<open>exec commits or leaves the process alone\<close>

definition exec_done :: "nat \<Rightarrow> byte list \<Rightarrow> u32 list \<Rightarrow> kernel \<Rightarrow> int \<Rightarrow> kernel \<Rightarrow> bool" where
  "exec_done i path argv k r k' \<longleftrightarrow> cur k' = cur k \<and> ftable (kfiles k') = ftable (kfiles k) \<and>
     (r = - 1 \<and> procs k' = procs k \<or>
      r = int (length (takeWhile (\<lambda>a. a \<noteq> 0) argv)) \<and> r \<le> int MAXARG \<and>
      (\<exists>pt sz. pt \<noteq> 0 \<and> procs k' = (procs k)[i := (procs k ! i)\<lparr>p_name := strcpy_l (p_name (procs k ! i)) (last_elem path path) 16,
         p_pagetable := pt, p_mem_size := sz\<rparr>]))"

lemma exec_commit_post:
  "post (\<lambda>k'. cur k' = cur k \<and> ftable (kfiles k') = ftable (kfiles k) \<and>
     procs k' = (procs k)[i := (procs k ! i)\<lparr>p_name := strcpy_l (p_name (procs k ! i)) (last_elem path path) 16, p_pagetable := pt, p_mem_size := sz\<rparr>])
   (exec_commit e i path pt sz oldsz sp k)"
  by (auto simp: post_def exec_commit_def Let_def do_mem_def rbind_eq_Inr set_tf_def upd_proc_def) (simp_all add: set_mem_def)

lemma exec_stack_post:
  assumes "pt \<noteq> 0"
  shows "post (\<lambda>(r, k'). exec_done i path argv k r k') (exec_stack e i path argv pt sz k)"
proof -
  let ?P = "\<lambda>k'. procs k' = procs k \<and> cur k' = cur k \<and> ftable (kfiles k') = ftable (kfiles k)"
  let ?Q = "\<lambda>(r, k'). exec_done i path argv k r k'"
  have bad: "post ?Q (exec_bad e pid pt s None k1)" if "?P k1" for pid s k1
    by (rule post_mono [OF pr.exec_bad_minus [OF that]]) (auto simp: exec_done_def)
  have commit: "post ?Q (rbind (exec_commit e i path pt s oldsz sp k1) (\<lambda>k. Inr (int argc, k)))"
    if "?P k1" "argc = length (takeWhile (\<lambda>a. a \<noteq> 0) argv) \<and> argc \<le> MAXARG" for k1 argc s oldsz sp
    by (rule post_bind [OF exec_commit_post]) (use that assms in \<open>auto intro!: post_Inr simp: exec_done_def\<close>)
  have argv: "post ?Q (rbind (push_argv e pt base argv s k1) (\<lambda>(r, k). case r of None \<Rightarrow> exec_bad e pid pt s None k
       | Some (argc, sp) \<Rightarrow> rbind (exec_commit e i path pt s oldsz sp k) (\<lambda>k. Inr (int argc, k))))" if "?P k1" for k1 s base pid oldsz
    by (rule post_bind [OF pr.push_argv_count [OF that]]) (auto split: option.splits intro!: bad commit)
  show ?thesis unfolding exec_stack_def Let_def
    by (rule argv bad pr.bind2 [OF pr.on_mem_keeps] pr.bind1 [OF pr.do_mem_keeps] post_if | assumption | simp)+
qed


definition env_w :: senv where
  "env_w = \<lparr>e_im = image_w, e_loc = (\<lambda>i. 0x80018000 + of_nat (512 * i)), e_below = False, e_de = replicate 16 0, e_name = replicate 15 0,
     e_stk = 0, e_pad = replicate 4 0\<rparr>"

definition kernel_x :: kernel where
  "kernel_x = kernel_w\<lparr>procs := procs_w[2 := (procs_w ! 2)\<lparr>p_state := RUNNING, p_cwd := Some 0\<rparr>], cur := (\<lambda>_. None)(0 := Some 2)\<rparr>"

text \<open>A path behind a file: the working directory of the process is not a directory.\<close>

lemma namei_not_dir:
  "\<exists>s. rbind (begin_op fs_i) (\<lambda>s. rbind (name_inode below past de nm pid 0 [120] s) (\<lambda>(ip, s). rbind (end_op pid s) (\<lambda>s. Inr (ip, s))))
     = Inr (None, s)"
proof -
  have "log fs_i = log0\<lparr>num_syscalls := 1\<rparr>" "inode_table fs_i ! 0 = inode1" "0 < length (inode_table fs_i)" by (simp_all add: fs_i_def fs_tx_def)
  moreover have "log_count log0 = 0" "\<not> log_commit log0" by (simp_all add: log0_def)
  moreover have "i_num_link inode1 \<noteq> 0" "i_valid inode1 = 1" "i_refcount inode1 = 1" "i_type inode1 = 2" "slocked (i_lock inode1) = 0" by (simp_all add: inode1_def inode0_def initsleeplock_def)
  ultimately show ?thesis
    by (simp add: name_inode_def name_fetch_def byte0_def name_fetch_loop.simps [of _ _ _ _ _ "[120]"] skip_elem_def inode_dup_def inode_lock_def inode_unlock_def
        begin_op_def inode_put_def end_op_def upd_log_def upd_inode_def Let_def acquire_sleeplock_def is_holding_sleeplock_def)
qed

lemma kernel_x_fields [simp]:
  "cur kernel_x 0 = Some 2" "depth kernel_x 0 = 0" "ffs (kfiles kernel_x) = fs_i" "p_cwd (procs kernel_x ! 2) = Some 0"
  "p_openfile (procs kernel_x ! 2) = replicate NUMOFILES None" "p_trapframe (procs kernel_x ! 2) = 0"
  by (simp_all add: kernel_x_def kernel_w_def procs_w_def proc_w_def mach_w_def files0_def)

theorem argfd_checks_hundred_witness:
  "argfd 0 0 (set_tf 2 TF_A0 20 kernel_x) = Inl (Fault ''index'') \<and> (\<exists>k'. argfd 0 0 (set_tf 2 TF_A0 5 kernel_x) = Inr (None, k'))"
proof -
  have "tf_word 2 (TF_A0 + 4 * 0) (set_tf 2 TF_A0 w kernel_x) = w" for w
    by (simp add: tf_word_set_tf aligned4_def)
  then show ?thesis using argfd_checks_hundred [of "set_tf 2 TF_A0 20 kernel_x" 0 2 0 20] argfd_checks_hundred [of "set_tf 2 TF_A0 5 kernel_x" 0 2 0 5]
    by auto
qed

theorem fdalloc_takes_lowest_witness:
  "(\<exists>k'. fdalloc 0 7 kernel_x = Inr (Some 0, k')) \<and> fdalloc 0 7 (upd_proc 2 (\<lambda>p. p\<lparr>p_openfile := replicate NUMOFILES (Some 3)\<rparr>) kernel_x) = Inl (Fault ''index'')"
proof -
  have l: "2 < length (procs kernel_x)" by (simp add: kernel_x_def)
  show ?thesis using fdalloc_takes_lowest [of kernel_x 0 2 7, THEN conjunct1, rule_format, of 0]
      fdalloc_takes_lowest [of "upd_proc 2 (\<lambda>p. p\<lparr>p_openfile := replicate NUMOFILES (Some 3)\<rparr>) kernel_x" 0 2 7]
    by (auto simp: nth_upd_proc l)
qed


end
