(* ===== verification/Descriptors.thy ===== *)
theory Descriptors
  imports Sysfile
begin

text \<open>
  The descriptor tables of the processes and the table of open files together: in every state that system
  calls lead to, the reference count of an open file is the number of descriptors that refer to it. A
  system call on its way may hold references that are in no table yet; they are the multiset \<open>X\<close>.
\<close>

section \<open>Counting descriptors\<close>

definition opt_mset :: "'a option \<Rightarrow> 'a multiset" where
  "opt_mset x = (case x of None \<Rightarrow> {#} | Some f \<Rightarrow> {#f#})"

definition fds :: "process \<Rightarrow> nat multiset" where
  "fds p = (\<Sum>x\<leftarrow>p_openfile p. opt_mset x)"

definition handles :: "kernel \<Rightarrow> nat multiset" where
  "handles k = (\<Sum>p\<leftarrow>procs k. fds p)"

definition refs_ok :: "nat multiset \<Rightarrow> nat set \<Rightarrow> kernel \<Rightarrow> bool" where
  "refs_ok X E k \<longleftrightarrow> counted (ftable (kfiles k)) (handles k + X)
     \<and> (\<forall>i<length (procs k). length (p_openfile (procs k ! i)) = NUMOFILES)
     \<and> (\<forall>i<length (procs k). i \<notin> E \<longrightarrow> pst k i = UNUSED \<or> pst k i = ZOMBIE \<longrightarrow> fds (procs k ! i) = {#})
     \<and> (\<forall>h i. cur k h = Some i \<longrightarrow> i < length (procs k)) \<and> length (procs k) = MAXPROC"

lemma opt_mset_simps [simp]: "opt_mset None = {#}" "opt_mset (Some f) = {#f#}"
  by (simp_all add: opt_mset_def)

lemma sum_list_upd:
  "i < length xs \<Longrightarrow> sum_list (map g (xs[i := x])) + g (xs ! i) = sum_list (map g xs) + (g x :: 'a multiset)"
proof (induction xs arbitrary: i)
  case (Cons a xs)
  then show ?case by (cases i) (auto simp: ac_simps)
qed simp

lemma handles_upd_proc:
  "i < length (procs k) \<Longrightarrow> handles (upd_proc i g k) + fds (procs k ! i) = handles k + fds (g (procs k ! i))"
  unfolding handles_def upd_proc_def by (simp add: sum_list_upd)

lemma fds_upd:
  "fd < length (p_openfile p) \<Longrightarrow> fds (p\<lparr>p_openfile := (p_openfile p)[fd := v]\<rparr>) + opt_mset (p_openfile p ! fd) = fds p + opt_mset v"
  unfolding fds_def by (simp add: sum_list_upd)

lemma fds_cong: "p_openfile p = p_openfile q \<Longrightarrow> fds p = fds q"
  by (simp add: fds_def)

lemma fds_empty: "fds p = {#} \<Longrightarrow> x \<in> set (p_openfile p) \<Longrightarrow> x = None"
proof -
  have "(\<Sum>x\<leftarrow>xs. opt_mset x) = {#} \<Longrightarrow> x \<in> set xs \<Longrightarrow> x = None" for xs :: "nat option list"
    by (induction xs) (auto simp: opt_mset_def split: option.splits)
  then show "fds p = {#} \<Longrightarrow> x \<in> set (p_openfile p) \<Longrightarrow> x = None" by (simp add: fds_def)
qed

lemma fds_none: "(\<And>x. x \<in> set (p_openfile p) \<Longrightarrow> x = None) \<Longrightarrow> fds p = {#}"
proof -
  have "(\<forall>x\<in>set xs. x = None) \<Longrightarrow> (\<Sum>x\<leftarrow>xs. opt_mset x) = {#}" for xs :: "nat option list"
    by (induction xs) auto
  then show "(\<And>x. x \<in> set (p_openfile p) \<Longrightarrow> x = None) \<Longrightarrow> fds p = {#}" by (simp add: fds_def)
qed

lemma handle_in: 
  assumes "i < length (procs k)" "fd < length (p_openfile (procs k ! i))" "p_openfile (procs k ! i) ! fd = Some f"
  shows "f \<in># handles k"
proof -
  have mem: "x \<in> set xs \<Longrightarrow> y \<in># g x \<Longrightarrow> y \<in># sum_list (map g xs)" for x xs y and g :: "'b \<Rightarrow> nat multiset"
    by (induction xs) auto
  have "f \<in># fds (procs k ! i)"
    unfolding fds_def by (rule mem [of "Some f"]) (use assms(2,3) nth_mem in \<open>force+\<close>)
  then show ?thesis unfolding handles_def by (rule mem [rotated]) (use assms(1) in simp)
qed

lemma counted_cong:
  assumes "counted t H" "length t' = length t" "\<And>f. f_ref (t' ! f) = f_ref (t ! f)"
  shows "counted t' H"
  using assms by (simp add: counted_def)

section \<open>Steps that leave the tables alone\<close>

lemma refs_ok_cong:
  assumes "refs_ok X E k" "procs k' = procs k" "cur k' = cur k" "ftable (kfiles k') = ftable (kfiles k)"
  shows "refs_ok X E k'"
  using assms by (auto simp: refs_ok_def handles_def)

lemma refs_ok_upd:
  assumes "refs_ok X E k" "\<And>p. p_openfile (g p) = p_openfile p"
    and "\<And>p. p_state (g p) = UNUSED \<or> p_state (g p) = ZOMBIE \<Longrightarrow> i \<in> E \<or> fds (procs k ! i) = {#} \<or> p_state (g p) = p_state p"
  shows "refs_ok X E (upd_proc i g k)"
proof -
  have f: "fds (g p) = fds p" for p using assms(2) by (rule fds_cong)
  then have n: "fds (procs (upd_proc i g k) ! j) = fds (procs k ! j)" for j by (simp add: nth_upd_proc)
  have h: "handles (upd_proc i g k) = handles k"
    using handles_upd_proc [of i k g] f by (cases "i < length (procs k)") (auto simp: upd_proc_def handles_def list_update_beyond)
  have l: "p_openfile (procs (upd_proc i g k) ! j) = p_openfile (procs k ! j)" for j
    using assms(2) by (simp add: nth_upd_proc)
  show ?thesis using assms(1) assms(3) [of "procs k ! i"] unfolding refs_ok_def h n l
    by (auto simp: nth_upd_proc split: if_splits)
qed

section \<open>Processes\<close>

context kernel_frame
begin

lemma scheduler_enter_keeps: "P k \<Longrightarrow> keeps (scheduler_enter h k)"
  unfolding scheduler_enter_def by ((rule keep_args | assumption) | rule post_pure)+

end

text \<open>Invariants that also survive a change of a process that leaves its descriptors alone and does not end it.\<close>

locale table_frame = kernel_frame +
  assumes P_live: "P k \<Longrightarrow> (\<And>p. p_openfile (g p) = p_openfile p) \<Longrightarrow>
      (\<And>p. p_state (g p) = p_state p \<or> p_state (g p) \<noteq> UNUSED \<and> p_state (g p) \<noteq> ZOMBIE) \<Longrightarrow> P (upd_proc i g k)"
    and P_pid: "P k \<Longrightarrow> P (k\<lparr>nextpid := n\<rparr>)"
begin

lemma P_upd:
  "P k \<Longrightarrow> P (upd_proc i (\<lambda>p. p\<lparr>p_killed := a\<rparr>) k)"
  "P k \<Longrightarrow> P (upd_proc i (\<lambda>p. p\<lparr>p_parent := b\<rparr>) k)"
  "P k \<Longrightarrow> P (upd_proc i (\<lambda>p. p\<lparr>p_cwd := b\<rparr>) k)"
  "P k \<Longrightarrow> P (upd_proc i (\<lambda>p. p\<lparr>p_pid := a\<rparr>) k)"
  "P k \<Longrightarrow> P (upd_proc i (\<lambda>p. p\<lparr>p_mem_size := c\<rparr>) k)"
  "P k \<Longrightarrow> P (upd_proc i (\<lambda>p. p\<lparr>p_trapframe := c\<rparr>) k)"
  "P k \<Longrightarrow> P (upd_proc i (\<lambda>p. p\<lparr>p_pagetable := c\<rparr>) k)"
  "P k \<Longrightarrow> P (upd_proc i (\<lambda>p. p\<lparr>p_context := t p\<rparr>) k)"
  "P k \<Longrightarrow> P (upd_proc i (\<lambda>p. p\<lparr>p_state := RUNNABLE\<rparr>) k)"
  "P k \<Longrightarrow> P (upd_proc i (\<lambda>p. p\<lparr>p_chan := ch, p_state := SLEEPING\<rparr>) k)"
  "P k \<Longrightarrow> P (upd_proc i (\<lambda>p. p\<lparr>p_name := s p, p_pagetable := c, p_mem_size := d\<rparr>) k)"
  "P k \<Longrightarrow> P (upd_proc i (\<lambda>p. p\<lparr>p_cwd := b, p_name := s p\<rparr>) k)"
  by (rule P_live; simp)+

lemma P_if: "(b \<Longrightarrow> P x) \<Longrightarrow> (\<not> b \<Longrightarrow> P y) \<Longrightarrow> P (if b then x else y)"
  by simp

lemmas keep_procs = keep_paths P_upd P_if

lemma wakeup_loop_keeps: "P k \<Longrightarrow> post P (wakeup_loop h ch is k)"
proof (induction "is" arbitrary: k)
  case Nil
  then show ?case by (simp add: post_Inr)
next
  case (Cons i "is")
  show ?case unfolding wakeup_loop.simps by (rule keep_procs Cons.IH Cons.prems | assumption)+
qed

lemma wakeup_keeps: "P k \<Longrightarrow> post P (wakeup h ch k)"
  unfolding wakeup_def by (rule wakeup_loop_keeps)

lemma kill_loop_keeps: "P k \<Longrightarrow> keeps (kill_loop h pid is k)"
proof (induction "is" arbitrary: k)
  case Nil
  then show ?case by (simp add: post_Inr)
next
  case (Cons i "is")
  show ?case unfolding kill_loop.simps by (rule keep_procs Cons.IH Cons.prems | assumption)+
qed

lemma kill_keeps: "P k \<Longrightarrow> keeps (kill h pid k)"
  unfolding kill_def by (rule kill_loop_keeps)

lemma sleep_enter_keeps: "P k \<Longrightarrow> keeps (sleep_enter h ch l k)"
  unfolding sleep_enter_def by (rule keep_procs scheduler_enter_keeps | assumption)+

lemma reparent_loop_keeps: "P k \<Longrightarrow> post P (reparent_loop h pp is k)"
proof (induction "is" arbitrary: k)
  case Nil
  then show ?case by (simp add: post_Inr)
next
  case (Cons i "is")
  show ?case unfolding reparent_loop.simps by (rule keep_procs wakeup_keeps Cons.IH Cons.prems | assumption)+
qed

lemma exit_cwd_keeps: "P k \<Longrightarrow> post P (exit_cwd im i k)"
  unfolding exit_cwd_def by (rule keep_procs do_fs_keeps [unfolded do_fs_def] | assumption)+

lemma growproc_keeps: "P k \<Longrightarrow> keeps (growproc im h n k)"
  unfolding growproc_def by (rule keep_procs | assumption)+

lemma alloc_pid_keeps: "P k \<Longrightarrow> keeps (alloc_pid h k)"
  unfolding alloc_pid_def by (rule keep_procs P_pid | assumption)+

lemma sys_chdir_keeps: "P k \<Longrightarrow> keeps (sys_chdir e h k)"
  unfolding sys_chdir_def by (rule keep_procs | assumption)+

lemma exec_commit_keeps: "P k \<Longrightarrow> post P (exec_commit e i path pt sz oldsz sp k)"
  unfolding exec_commit_def set_tf_def by (rule keep_procs | assumption)+

lemma exec_stack_keeps: "P k \<Longrightarrow> keeps (exec_stack e i path argv pt sz k)"
  unfolding exec_stack_def by (rule keep_procs exec_bad_keeps push_argv_keeps exec_commit_keeps | assumption)+

lemma exec_keeps: "P k \<Longrightarrow> keeps (exec e h path argv k)"
  unfolding exec_def
  by (rule keep_procs kread_keeps exec_bad_keeps load_headers_keeps exec_stack_keeps | assumption)+

lemma sys_exec_keeps: "P k \<Longrightarrow> keeps (sys_exec e h k)"
  unfolding sys_exec_def by (rule keep_procs fetch_args_keeps exec_keeps free_args_keeps | assumption)+

end

section \<open>The invariant\<close>

lemma refs_ok_frame: "kernel_frame (refs_ok X E)"
proof (unfold_locales)
  fix k x m y assume *: "refs_ok X E k"
  show "refs_ok X E (k\<lparr>mach := x\<rparr>)" by (rule refs_ok_cong [OF *]) simp_all
  show "refs_ok X E (set_mem m k)" by (rule refs_ok_cong [OF *]) (simp_all add: set_mem_def)
  show "refs_ok X E (k\<lparr>kfiles := (kfiles k)\<lparr>ffs := y\<rparr>\<rparr>)" by (rule refs_ok_cong [OF *]) simp_all
qed

interpretation rk: table_frame "refs_ok X E" for X E
proof (intro table_frame.intro refs_ok_frame table_frame_axioms.intro)
  fix k n i and g :: "process \<Rightarrow> process"
  assume *: "refs_ok X E k"
  show "refs_ok X E (k\<lparr>nextpid := n\<rparr>)" by (rule refs_ok_cong [OF *]) simp_all
  show "refs_ok X E (upd_proc i g k)" if "\<And>p. p_openfile (g p) = p_openfile p"
    "\<And>p. p_state (g p) = p_state p \<or> p_state (g p) \<noteq> UNUSED \<and> p_state (g p) \<noteq> ZOMBIE"
    by (rule refs_ok_upd [OF * that(1)]) (use that(2) in blast)
qed

text \<open>The same with a process that has no descriptor.\<close>

interpretation re: table_frame "\<lambda>k. refs_ok X E k \<and> fds (procs k ! i) = {#}" for X E i
proof unfold_locales
  fix k n j x m y and g :: "process \<Rightarrow> process"
  assume *: "refs_ok X E k \<and> fds (procs k ! i) = {#}"
  show "refs_ok X E (k\<lparr>mach := x\<rparr>) \<and> fds (procs (k\<lparr>mach := x\<rparr>) ! i) = {#}" using * rk.P_mach by simp
  show "refs_ok X E (set_mem m k) \<and> fds (procs (set_mem m k) ! i) = {#}" using * rk.P_mem by simp
  show "refs_ok X E (k\<lparr>kfiles := (kfiles k)\<lparr>ffs := y\<rparr>\<rparr>) \<and> fds (procs (k\<lparr>kfiles := (kfiles k)\<lparr>ffs := y\<rparr>\<rparr>) ! i) = {#}"
    using * rk.P_fs by simp
  show "refs_ok X E (k\<lparr>nextpid := n\<rparr>) \<and> fds (procs (k\<lparr>nextpid := n\<rparr>) ! i) = {#}" using * rk.P_pid by simp
  show "refs_ok X E (upd_proc j g k) \<and> fds (procs (upd_proc j g k) ! i) = {#}"
    if "\<And>p. p_openfile (g p) = p_openfile p"
      "\<And>p. p_state (g p) = p_state p \<or> p_state (g p) \<noteq> UNUSED \<and> p_state (g p) \<noteq> ZOMBIE"
    using * rk.P_live [OF _ that] fds_cong [OF that(1)] by (auto simp: nth_upd_proc)
qed

subsection \<open>Descriptors and references move\<close>

lemma refs_okD:
  assumes "refs_ok X E k"
  shows "counted (ftable (kfiles k)) (handles k + X)" "cur k h = Some i \<Longrightarrow> i < length (procs k)"
    "i < length (procs k) \<Longrightarrow> length (p_openfile (procs k ! i)) = NUMOFILES" "length (procs k) = MAXPROC"
  using assms by (auto simp: refs_ok_def)

lemma handles_set_fd:
  assumes "i < length (procs k)" "fd < length (p_openfile (procs k ! i))"
  shows "handles (set_fd i fd v k) + opt_mset (p_openfile (procs k ! i) ! fd) = handles k + opt_mset v"
proof -
  let ?p = "procs k ! i"
  let ?q = "?p\<lparr>p_openfile := (p_openfile ?p)[fd := v]\<rparr>"
  let ?h = "handles (set_fd i fd v k)" and ?o = "opt_mset (p_openfile ?p ! fd)"
  have "?h + fds ?p = handles k + fds ?q"
    using handles_upd_proc [OF assms(1)] unfolding set_fd_def by simp
  then have "(?h + ?o) + fds ?p = handles k + (fds ?q + ?o)" by (metis add.assoc add.commute)
  also have "\<dots> = (handles k + opt_mset v) + fds ?p" unfolding fds_upd [OF assms(2)] by (simp add: ac_simps)
  finally have "(?h + ?o) + fds ?p = (handles k + opt_mset v) + fds ?p" .
  then show ?thesis by simp
qed

lemma set_fd_fields [simp]:
  "kfiles (set_fd i fd v k) = kfiles k" "cur (set_fd i fd v k) = cur k" "length (procs (set_fd i fd v k)) = length (procs k)"
  "pst (set_fd i fd v k) j = pst k j" "kpid j (set_fd i fd v k) = kpid j k"
  by (simp_all add: set_fd_def kpid_def nth_upd_proc)

lemma openfile_set_fd:
  "p_openfile (procs (set_fd i fd v k) ! j) =
     (if i = j \<and> j < length (procs k) then (p_openfile (procs k ! j))[fd := v] else p_openfile (procs k ! j))"
  by (simp add: set_fd_def nth_upd_proc)

text \<open>Replacing an entry by \<open>v\<close>: the old reference becomes one in flight, the new one was in flight.\<close>

lemma refs_ok_set_fd:
  assumes "refs_ok (X + opt_mset v) E k" "i < length (procs k)" "fd < NUMOFILES"
    and "i \<in> E \<or> v = None \<or> pst k i \<noteq> UNUSED \<and> pst k i \<noteq> ZOMBIE"
  shows "refs_ok (X + opt_mset (p_openfile (procs k ! i) ! fd)) E (set_fd i fd v k)"
proof -
  have len: "fd < length (p_openfile (procs k ! i))" using refs_okD(3) [OF assms(1,2)] assms(3) by simp
  have H: "handles (set_fd i fd v k) + (X + opt_mset (p_openfile (procs k ! i) ! fd)) = handles k + (X + opt_mset v)"
    using handles_set_fd [OF assms(2) len, of v] by (metis add.assoc add.commute)
  have dead: "fds (procs (set_fd i fd v k) ! j) = {#}"
    if j: "j < length (procs k)" "j \<notin> E" "pst k j = UNUSED \<or> pst k j = ZOMBIE" for j
  proof -
    have z: "fds (procs k ! j) = {#}" using assms(1) j by (auto simp: refs_ok_def)
    have "set (p_openfile (procs (set_fd i fd v k) ! j)) \<subseteq> insert None (set (p_openfile (procs k ! j)))"
    proof (cases "i = j")
      case True
      then have "v = None" using assms(4) j by auto
      then show ?thesis by (simp add: openfile_set_fd set_update_subset_insert subset_insertI)
    qed (simp add: openfile_set_fd subset_insertI)
    then show ?thesis using fds_empty [OF z] by (intro fds_none) blast
  qed
  have "length (p_openfile (procs (set_fd i fd v k) ! j)) = length (p_openfile (procs k ! j))" for j
    by (simp add: openfile_set_fd)
  with assms(1) dead show ?thesis unfolding refs_ok_def set_fd_fields H by (intro conjI) auto
qed

lemma refs_ok_files:
  assumes "refs_ok X E k" "counted (ftable s) (handles k + Y)"
  shows "refs_ok Y E (k\<lparr>kfiles := s\<rparr>)"
  using assms by (auto simp: refs_ok_def handles_def)

lemma close_refs: "refs_ok (add_mset f X) E k \<Longrightarrow> post (refs_ok X E) (on_files (file_close me past pid f) k)"
proof -
  assume *: "refs_ok (add_mset f X) E k"
  show ?thesis unfolding on_files_def
  proof (rule post_bind)
    show "post (\<lambda>s. counted (ftable s) (handles k + X)) (file_close me past pid f (kfiles k))"
      using file_close_counted [OF refs_okD(1) [OF *], of f] by (auto simp: post_def)
  qed (auto intro!: post_Inr refs_ok_files [OF *])
qed

lemma kclose_refs: "refs_ok (add_mset f X) E k \<Longrightarrow> post (refs_ok X E) (kclose e i f k)"
  unfolding kclose_def by (rule close_refs)

lemma kdup_refs: "refs_ok X E k \<Longrightarrow> f \<in># handles k \<Longrightarrow> post (refs_ok (add_mset f X) E) (kdup f k)"
  using file_dup_counted [of "kfiles k" "handles k + X" f]
  by (auto simp: post_def kdup_def on_files_def rbind_eq_Inr dest: refs_okD(1) intro!: refs_ok_files)

lemma file_alloc_refs:
  assumes "refs_ok X E k" "file_alloc (kfiles k) = (r, s)"
  shows "refs_ok (X + opt_mset r) E (k\<lparr>kfiles := s\<rparr>)" "ffs s = ffs (kfiles k)"
proof -
  show "refs_ok (X + opt_mset r) E (k\<lparr>kfiles := s\<rparr>)"
    using file_alloc_counted [OF refs_okD(1) [OF assms(1)]] refs_okD(1) [OF assms(1)] assms(2)
    by (cases r) (auto intro: refs_ok_files [OF assms(1)] simp: assms(1))
  show "ffs s = ffs (kfiles k)" using assms(2) by (auto simp: file_alloc_def split: option.splits)
qed

text \<open>The current process, its descriptors, and a new descriptor for a reference in flight.\<close>

lemma argfd_post:
  "post (\<lambda>(r, k'). (\<exists>m. k' = k\<lparr>mach := m\<rparr>) \<and>
     (case r of None \<Rightarrow> True
      | Some (fd, f) \<Rightarrow> \<exists>i. cur k h = Some i \<and> fd < length (p_openfile (procs k ! i)) \<and> p_openfile (procs k ! i) ! fd = Some f))
   (argfd h n k)"
  by (auto simp: post_def argfd_def argint_def argraw_def rbind_eq_Inr aget_def split: if_splits option.splits
      dest!: postD [OF myproc_post], (rule exI, rule refl)?)

lemma fd_scan_Some: "fd_scan l xs = Inr (Some fd) \<Longrightarrow> fd \<in> set xs \<and> fd < length l \<and> l ! fd = None"
  by (induction xs) (auto simp: rbind_eq_Inr aget_def split: if_splits)

definition live :: "nat \<Rightarrow> kernel \<Rightarrow> bool" where
  "live h k \<longleftrightarrow> (\<forall>i. cur k h = Some i \<longrightarrow> pst k i \<noteq> UNUSED \<and> pst k i \<noteq> ZOMBIE)"

text \<open>The scan for a free descriptor goes on behind the table, so it never comes to its end.\<close>

lemma fd_scan_not_None:
  assumes "n \<le> length l" "length l < m"
  shows "fd_scan l [n..<m] \<noteq> Inr None"
  using assms
proof (induction "m - n" arbitrary: n)
  case (Suc d)
  then have "[n..<m] = n # [Suc n..<m]" by (simp add: upt_conv_Cons)
  then show ?case using Suc by (cases "n < length l") (auto simp: aget_def)
qed simp

lemma fdalloc_refs:
  assumes "refs_ok (add_mset f X) E k" "live h k" "fdalloc h f k = Inr (r, k')"
  obtains i fd m where "cur k h = Some i" "r = Some fd" "k' = set_fd i fd (Some f) (k\<lparr>mach := m\<rparr>)" "fd < NUMOFILES"
    "p_openfile (procs k ! i) ! fd = None" "refs_ok X E k'" "live h k'" "i < length (procs k)" "fd < length (p_openfile (procs k ! i))"
proof -
  obtain i k1 y where k1: "myproc h k = Inr (i, k1)" and y1: "fd_scan (p_openfile (procs k1 ! i)) [0..<NUMFILE] = Inr y"
    and k': "(case y of None \<Rightarrow> Inr (None, k1) | Some fd \<Rightarrow> Inr (Some fd, set_fd i fd (Some f) k1)) = (Inr (r, k') :: (nat option \<times> kernel) res)"
    using assms(3) unfolding fdalloc_def by (auto simp: rbind_eq_Inr)
  obtain m where i: "cur k h = Some i" and m: "k1 = k\<lparr>mach := m\<rparr>" using postD [OF myproc_post k1] by auto
  have y: "fd_scan (p_openfile (procs k ! i)) [0..<NUMFILE] = Inr y" using y1 m by simp
  have il: "i < length (procs k)" "length (p_openfile (procs k ! i)) = NUMOFILES" "pst k i \<noteq> UNUSED \<and> pst k i \<noteq> ZOMBIE"
    using refs_okD(2,3) [OF assms(1)] i assms(2) by (auto simp: live_def)
  then obtain fd where fd: "y = Some fd" using y fd_scan_not_None [of 0 "p_openfile (procs k ! i)" NUMFILE] by (cases y) auto
  note F = fd_scan_Some [OF y [unfolded fd]]
  have "refs_ok (X + opt_mset (Some f)) E (k\<lparr>mach := m\<rparr>)" using rk.P_mach [OF assms(1)] by simp
  from refs_ok_set_fd [OF this, of i fd] have "refs_ok X E (set_fd i fd (Some f) (k\<lparr>mach := m\<rparr>))" using il F by simp
  moreover have "live h (set_fd i fd (Some f) (k\<lparr>mach := m\<rparr>))" using assms(2) by (simp add: live_def)
  ultimately show thesis using that [of i fd m] i fd F il k' m by auto
qed

subsection \<open>close, dup, pipe and open\<close>

lemma sys_close_refs:
  assumes "refs_ok X E k"
  shows "post (\<lambda>(_, k'). refs_ok X E k') (sys_close e h k)"
  unfolding sys_close_def
proof (rule post_bind [OF argfd_post], clarify)
  fix r m
  let ?k = "k\<lparr>mach := m\<rparr>"
  have r0: "refs_ok X E ?k" using rk.P_mach [OF assms] .
  assume c: "case r of None \<Rightarrow> True
      | Some (fd, f) \<Rightarrow> \<exists>i. cur k h = Some i \<and> fd < length (p_openfile (procs k ! i)) \<and> p_openfile (procs k ! i) ! fd = Some f"
  show "post (\<lambda>(_, k'). refs_ok X E k') (case r of None \<Rightarrow> Inr (- 1, ?k)
     | Some (a, f) \<Rightarrow> rbind (myproc h ?k) (\<lambda>(i, k). rbind (kclose e i f (set_fd i a None k)) (\<lambda>k. Inr (0, k))))"
  proof (cases r)
    case (Some x)
    obtain a f where x: "x = (a, f)" by fastforce
    obtain i where i: "cur k h = Some i" "a < length (p_openfile (procs k ! i))" "p_openfile (procs k ! i) ! a = Some f"
      using c Some x by auto
    have "post (refs_ok X E) (kclose e j f (set_fd i a None (k\<lparr>mach := m'\<rparr>)))" for j m'
    proof (rule kclose_refs)
      have "refs_ok (X + opt_mset None) E (k\<lparr>mach := m'\<rparr>)" using rk.P_mach [OF assms] by simp
      from refs_ok_set_fd [OF this, of i a] i refs_okD(2,3) [OF assms]
      show "refs_ok (add_mset f X) E (set_fd i a None (k\<lparr>mach := m'\<rparr>))" by simp
    qed
    then have "post (\<lambda>(_, k'). refs_ok X E k') (rbind (kclose e i f (set_fd i a None (k\<lparr>mach := m'\<rparr>))) (\<lambda>k. Inr (0, k)))" for m'
      by (rule post_bind) (simp add: post_Inr)
    then show ?thesis using Some x i by (auto intro!: post_bind [OF myproc_post])
  qed (use r0 in \<open>simp add: post_Inr\<close>)
qed

lemma kdup_set_fd: "kdup f (set_fd i fd v k) = rbind (kdup f k) (\<lambda>k. Inr (set_fd i fd v k))"
  by (cases "file_dup f (kfiles k)") (auto simp: kdup_def on_files_def set_fd_def upd_proc_def)

lemma kdup_fields: "kdup f k = Inr k' \<Longrightarrow> procs k' = procs k \<and> cur k' = cur k"
  by (auto simp: kdup_def on_files_def rbind_eq_Inr)

lemma sys_dup_refs:
  assumes "refs_ok X E k" "live h k"
  shows "post (\<lambda>(_, k'). refs_ok X E k') (sys_dup e h k)"
  unfolding sys_dup_def
proof (rule post_bind [OF argfd_post], clarify)
  fix r m
  let ?k = "k\<lparr>mach := m\<rparr>"
  assume c: "case r of None \<Rightarrow> True
      | Some (fd, f) \<Rightarrow> \<exists>i. cur k h = Some i \<and> fd < length (p_openfile (procs k ! i)) \<and> p_openfile (procs k ! i) ! fd = Some f"
  have "refs_ok X E k'" if r: "r = Some (a, f)" "fdalloc h f ?k = Inr (x, k1)"
    "(case x of None \<Rightarrow> Inr (- 1, k1) | Some fd \<Rightarrow> rbind (kdup f k1) (\<lambda>k. Inr (int fd, k))) = Inr (v, k')" for a f x k1 v k'
  proof -
    obtain i where i: "cur k h = Some i" "a < length (p_openfile (procs k ! i))" "p_openfile (procs k ! i) ! a = Some f"
      using c r(1) by auto
    obtain j m1 y where m1: "cur k h = Some j" "fd_scan (p_openfile (procs k ! j)) [0..<NUMFILE] = Inr y"
      "(x = None \<and> k1 = k\<lparr>mach := m1\<rparr>) \<or> (\<exists>fd. x = Some fd \<and> y = Some fd \<and> k1 = set_fd j fd (Some f) (k\<lparr>mach := m1\<rparr>))"
      using r(2) by (auto simp: fdalloc_def rbind_eq_Inr split: option.splits dest!: postD [OF myproc_post])
    let ?k1 = "k\<lparr>mach := m1\<rparr>"
    have r1: "refs_ok X E ?k1" using rk.P_mach [OF assms(1)] .
    show ?thesis
    proof (cases x)
      case (Some fd)
      have k1: "k1 = set_fd i fd (Some f) ?k1" "y = Some fd" using m1 Some i(1) by auto
      then obtain k2 where k2: "kdup f ?k1 = Inr k2" "k' = set_fd i fd (Some f) k2"
        using r(3) Some by (auto simp: kdup_set_fd rbind_eq_Inr)
      have "f \<in># handles ?k1" by (rule handle_in [of i _ a]) (use i refs_okD(2) [OF assms(1)] in auto)
      then have r2: "refs_ok (X + opt_mset (Some f)) E k2" using postD [OF kdup_refs [OF r1] k2(1)] by simp
      have p2: "procs k2 = procs k" "cur k2 = cur k" using kdup_fields [OF k2(1)] by auto
      have fd: "fd < length (p_openfile (procs k ! i))" "p_openfile (procs k ! i) ! fd = None"
        using fd_scan_Some m1(1,2) k1(2) i(1) by auto
      then show ?thesis using refs_ok_set_fd [OF r2, of i fd] refs_okD(2,3) [OF assms(1)] i(1) assms(2) p2 k2(2)
        by (auto simp: live_def)
    qed (use m1 r r1 in auto)
  qed
  then show "post (\<lambda>(_, k'). refs_ok X E k') (case r of None \<Rightarrow> Inr (- 1, ?k)
     | Some (_, f) \<Rightarrow> rbind (fdalloc h f ?k) (\<lambda>(fd, k). case fd of None \<Rightarrow> Inr (- 1, k) | Some fd \<Rightarrow> rbind (kdup f k) (\<lambda>k. Inr (int fd, k))))"
    using rk.P_mach [OF assms(1)] by (auto simp: post_def rbind_eq_Inr split: option.splits)
qed

lemma pipe_undo_refs:
  assumes "refs_ok (add_mset f0 (add_mset f1 X)) E k"
  shows "post (\<lambda>(_, k'). refs_ok X E k') (pipe_undo e i f0 f1 k)"
  unfolding pipe_undo_def by (rule post_bind [OF kclose_refs [OF assms]], rule post_bind, erule kclose_refs) (simp add: post_Inr)

lemma refs_ok_clear:
  assumes "refs_ok X E k" "i < length (procs k)" "fd < NUMOFILES" "p_openfile (procs k ! i) ! fd = Some f"
  shows "refs_ok (add_mset f X) E (set_fd i fd None k)"
  using refs_ok_set_fd [of X None E k i fd] assms by simp

lemma copy_word_keeps:
  assumes "copy_word e i dst a v k = Inr (c, k')"
  shows "procs k' = procs k" "cur k' = cur k" "ftable (kfiles k') = ftable (kfiles k)"
  using assms by (auto simp: copy_word_def on_mem_def rbind_eq_Inr set_mem_def)

lemma pipealloc_refs:
  assumes "refs_ok X E k" "pipealloc me past pid (kfiles k) = Inr (r, s)"
  shows "refs_ok (X + (case r of None \<Rightarrow> {#} | Some (f0, f1) \<Rightarrow> {#f0, f1#})) E (k\<lparr>kfiles := s\<rparr>)"
  using refs_ok_files [OF assms(1)] pipealloc_counted [OF refs_okD(1) [OF assms(1)] assms(2)] by (simp add: ac_simps)

lemma pipe_copy_refs:
  assumes "refs_ok X E k" "i < length (procs k)" "fd0 < NUMOFILES" "fd1 < NUMOFILES" "fd0 \<noteq> fd1"
    and "p_openfile (procs k ! i) ! fd0 = Some f0" "p_openfile (procs k ! i) ! fd1 = Some f1"
  shows "post (\<lambda>(_, k'). refs_ok X E k')
    (rbind (copy_word e i d0 a0 v0 k) (\<lambda>(c, k).
       if c < 0 then pipe_undo e i f0 f1 (set_fd i fd1 None (set_fd i fd0 None k))
       else rbind (copy_word e i d1 a1 v1 k) (\<lambda>(c, k).
         if c < 0 then pipe_undo e i f0 f1 (set_fd i fd1 None (set_fd i fd0 None k)) else Inr (0, k))))"
proof -
  have undo: "post (\<lambda>(_, k'). refs_ok X E k') (pipe_undo e i f0 f1 (set_fd i fd1 None (set_fd i fd0 None k1)))"
    if "procs k1 = procs k" "refs_ok X E k1" for k1
  proof (rule pipe_undo_refs)
    have "refs_ok (add_mset f0 X) E (set_fd i fd0 None k1)" using refs_ok_clear that assms by simp
    from refs_ok_clear [OF this, of i fd1 f1] that assms
    show "refs_ok (add_mset f0 (add_mset f1 X)) E (set_fd i fd1 None (set_fd i fd0 None k1))"
      by (simp add: openfile_set_fd add_mset_commute)
  qed
  have copy: "post (\<lambda>(c, b). procs b = procs k \<and> refs_ok X E b) (copy_word e i d a v k1)"
    if "procs k1 = procs k" "refs_ok X E k1" for d a v k1
    using copy_word_keeps that(1) refs_ok_cong [OF that(2)] by (auto simp: post_def)
  show ?thesis
    by (rule post_bind [OF copy [OF refl assms(1)]])
      (auto intro!: post_if undo post_Inr post_bind [OF copy])
qed

lemma sys_pipe_refs:
  assumes "refs_ok X E k" "live h k"
  shows "post (\<lambda>(_, k'). refs_ok X E k') (sys_pipe e h k)"
proof -
  have "refs_ok X E k'" if r: "sys_pipe e h k = Inr (v, k')" for v k'
  proof -
    from r obtain i m1 fdarray k2 p s where i: "cur k h = Some i" and a: "argaddr h 0 (k\<lparr>mach := m1\<rparr>) = Inr (fdarray, k2)"
      and pa: "pipealloc (im_mem_end (e_im e)) (im_past (e_im e)) (kpid i k2) (kfiles k2) = Inr (p, s)"
      and rest: "(case p of None \<Rightarrow> Inr (- 1, k2\<lparr>kfiles := s\<rparr>) | Some (f0, f1) \<Rightarrow>
           rbind (fdalloc h f0 (k2\<lparr>kfiles := s\<rparr>)) (\<lambda>(fd0, k).
             case fd0 of None \<Rightarrow> pipe_undo e i f0 f1 k
             | Some fd0 \<Rightarrow>
                 rbind (fdalloc h f1 k) (\<lambda>(fd1, k).
                   case fd1 of None \<Rightarrow> pipe_undo e i f0 f1 (set_fd i fd0 None k)
                   | Some fd1 \<Rightarrow>
                       rbind (copy_word e i fdarray (e_loc e 0) (of_nat fd0) k) (\<lambda>(c, k).
                         if c < 0 then pipe_undo e i f0 f1 (set_fd i fd1 None (set_fd i fd0 None k))
                         else rbind (copy_word e i (fdarray + 4) (e_loc e 1) (of_nat fd1) k) (\<lambda>(c, k).
                           if c < 0 then pipe_undo e i f0 f1 (set_fd i fd1 None (set_fd i fd0 None k))
                           else Inr (0, k)))))) = Inr (v, k')"
      by (auto simp: sys_pipe_def rbind_eq_Inr Let_def dest!: postD [OF myproc_post])
    have "refs_ok X E k2" using postD [OF rk.argaddr_keeps a] rk.P_mach [OF assms(1)] by simp
    note R = pipealloc_refs [OF this pa]
    have l2: "live h (k2\<lparr>kfiles := s\<rparr>)" "cur k2 = cur k"
      using postD [OF pr.argaddr_keeps a] assms(2) by (auto simp: live_def)
    show ?thesis
    proof (cases p)
      case (Some q)
      obtain f0 f1 where q: "q = (f0, f1)" by fastforce
      have R2: "refs_ok (add_mset f0 (add_mset f1 X)) E (k2\<lparr>kfiles := s\<rparr>)" using R Some q by (simp add: ac_simps)
      from rest Some q obtain x0 k3 where x0: "fdalloc h f0 (k2\<lparr>kfiles := s\<rparr>) = Inr (x0, k3)" by (auto simp: rbind_eq_Inr)
      obtain i0 fd0 m3 where f0: "cur (k2\<lparr>kfiles := s\<rparr>) h = Some i0" "x0 = Some fd0" "k3 = set_fd i0 fd0 (Some f0) (k2\<lparr>kfiles := s\<rparr>\<lparr>mach := m3\<rparr>)"
        "fd0 < NUMOFILES" "refs_ok (add_mset f1 X) E k3" "live h k3" "i0 < length (procs (k2\<lparr>kfiles := s\<rparr>))"
        "fd0 < length (p_openfile (procs (k2\<lparr>kfiles := s\<rparr>) ! i0))"
        by (rule fdalloc_refs [OF R2 l2(1) x0])
      have i0: "i0 = i" using f0(1) i l2(2) by simp
      from rest Some q x0 f0(2) obtain x1 k4 where x1: "fdalloc h f1 k3 = Inr (x1, k4)" by (auto simp: rbind_eq_Inr)
      obtain i1 fd1 m4 where f1: "cur k3 h = Some i1" "x1 = Some fd1" "k4 = set_fd i1 fd1 (Some f1) (k3\<lparr>mach := m4\<rparr>)"
        "fd1 < NUMOFILES" "p_openfile (procs k3 ! i1) ! fd1 = None" "refs_ok X E k4" "i1 < length (procs k3)"
        "fd1 < length (p_openfile (procs k3 ! i1))"
        by (rule fdalloc_refs [OF f0(5,6) x1])
      have i1: "i1 = i" using f1(1) f0(1,3) i0 by simp
      have in4: "i < length (procs k4)" "p_openfile (procs k4 ! i) ! fd1 = Some f1" "fd0 \<noteq> fd1" "p_openfile (procs k4 ! i) ! fd0 = Some f0"
        using f0 f1 i0 i1 by (auto simp: openfile_set_fd nth_list_update_cases)
      from rest Some q x0 f0(2) x1 f1(2) show ?thesis
        using postD [OF pipe_copy_refs [OF f1(6) in4(1) f0(4) f1(4) in4(3,4,2)]] by auto
    qed (use rest R in simp)
  qed
  then show ?thesis by (auto simp: post_def)
qed

interpretation rl: kernel_frame "\<lambda>k. refs_ok X E k \<and> live h k" for X E h
  by unfold_locales (auto simp: live_def rk.P_mach rk.P_mem rk.P_fs)

lemma open_fill_ref [simp]: "f_ref (open_fill ip omode x f) = f_ref f"
  by (simp add: open_fill_def Let_def)

lemma upd_file_refs:
  assumes "refs_ok X E k" "f \<in># handles k" "\<And>x. f_ref (g x) = f_ref x"
  shows "refs_ok X E (k\<lparr>kfiles := upd_file f g (kfiles k)\<rparr>)"
  using refs_ok_files [OF assms(1)] fill_counted [OF refs_okD(1) [OF assms(1)], of f g] assms(2,3) by simp

lemma open_file_refs:
  assumes "refs_ok X E k" "live h k"
  shows "post (\<lambda>(_, k'). refs_ok X E k') (open_file e h i ip omode k)"
proof -
  let ?Q = "\<lambda>(_ :: int, k'). refs_ok X E k'"
  let ?fail = "\<lambda>j k. rbind (do_fs (iunlockput e (kpid i j) ip) k) (fail_op (kpid i j))"
  have fail: "post ?Q (?fail j k1)" if "refs_ok X E k1" for j k1
    by (rule rk.bind1 [OF rk.do_fs_keeps [OF that]]) (rule rk.fail_op_keeps)
  show ?thesis
  proof (cases "file_alloc (kfiles k)")
    case (Pair a s)
    note A = file_alloc_refs(1) [OF assms(1) Pair]
    show ?thesis
    proof (cases a)
      case None
      then show ?thesis using fail [OF assms(1)] fail [of "k\<lparr>kfiles := s\<rparr>"] A Pair by (simp add: open_file_def Let_def)
    next
      case (Some f)
      let ?k = "k\<lparr>kfiles := s\<rparr>"
      have R: "refs_ok (add_mset f X) E ?k" "live h ?k" using A Some assms(2) by (simp_all add: live_def)
      have fd: "post (\<lambda>(r, k1). \<exists>fd. r = Some fd \<and> refs_ok X E k1 \<and> f \<in># handles k1) (fdalloc h f ?k)"
      proof -
        have "\<exists>fd. r = Some fd \<and> refs_ok X E k1 \<and> f \<in># handles k1" if r: "fdalloc h f ?k = Inr (r, k1)" for r k1
        proof -
          obtain j fd m where j: "r = Some fd" "k1 = set_fd j fd (Some f) (?k\<lparr>mach := m\<rparr>)" "refs_ok X E k1" "j < length (procs ?k)"
            "fd < length (p_openfile (procs ?k ! j))" by (rule fdalloc_refs [OF R r])
          have "f \<in># handles k1" by (rule handle_in [of j _ fd]) (use j in \<open>auto simp: openfile_set_fd\<close>)
          then show ?thesis using j by simp
        qed
        then show ?thesis by (auto simp: post_def)
      qed
      have rest: "post ?Q
          (rbind (if b then do_fs op k1 else Inr k1) (\<lambda>k. rbind (do_fs op1 k) (\<lambda>k. rbind (end_k pid k) (\<lambda>k. Inr (v, k)))))"
        if "refs_ok X E k1" for b op op1 k1 pid v
        by (rule rk.keep_fs that | assumption)+
      show ?thesis unfolding open_file_def Let_def Pair Some prod.case option.case
        by (rule post_if, rule fail [OF assms(1)], rule post_bind [OF fd], clarify, simp only: prod.case option.case,
            rule rest, rule upd_file_refs) simp_all
    qed
  qed
qed

lemma sys_open_refs:
  assumes "refs_ok X E k" "live h k"
  shows "post (\<lambda>(_, k'). refs_ok X E k') (sys_open e h k)"
proof -
  let ?P = "\<lambda>k. refs_ok X E k \<and> live h k" and ?Q = "\<lambda>(_ :: int, k'). refs_ok X E k'"
  have k: "?P k" using assms by simp
  have ret: "?P k \<Longrightarrow> post ?Q (Inr (v, k))" for v k by (simp add: post_Inr)
  have fail: "?P k \<Longrightarrow> post ?Q (fail_op pid k)" for pid k using rk.fail_op_keeps by blast
  have opn: "?P k \<Longrightarrow> post ?Q (open_file e h i ip omode k)" for i ip omode k using open_file_refs by blast
  show ?thesis unfolding sys_open_def
    by (rule rl.bind2 [OF rl.argstr_keeps] rl.bind2 [OF rl.argaddr_keeps] rl.bind1 [OF rl.begin_k_keeps]
        rl.bind2 [OF rl.myproc_keeps] rl.bind2 [OF rl.open_inode_keeps] post_if post_option ret fail opn k | assumption)+
qed

section \<open>Reading and writing\<close>

definition same_refs :: "files \<Rightarrow> files \<Rightarrow> bool" where
  "same_refs s s' \<longleftrightarrow> length (ftable s') = length (ftable s) \<and> (\<forall>f. f_ref (ftable s' ! f) = f_ref (ftable s ! f))"

lemma same_refs_refl [simp]: "same_refs s s"
  by (simp add: same_refs_def)

lemma same_refs_trans: "same_refs s s' \<Longrightarrow> same_refs s' s'' \<Longrightarrow> same_refs s s''"
  by (simp add: same_refs_def)

lemma same_refs_table: "ftable s' = ftable s \<Longrightarrow> same_refs s s'"
  by (simp add: same_refs_def)

lemma same_refs_upd: "(\<And>x. f_ref (g x) = f_ref x) \<Longrightarrow> same_refs s (upd_file f g s)"
  by (simp add: same_refs_def upd_file_def nth_list_update_cases)

fun out_state :: "'a outcome \<Rightarrow> 'a" where
  "out_state (Ret v x) = x"
| "out_state (Block ch n x) = x"

lemma with_fs_refs: "post (same_refs s) (with_fs op s)"
  by (auto simp: post_def dest: ftable_with_fs intro: same_refs_table)

lemma fs_bind: "same_refs t s \<Longrightarrow> (\<And>s'. same_refs t s' \<Longrightarrow> post Q (f s')) \<Longrightarrow> post Q (rbind (with_fs op s) f)"
  by (rule post_bind [OF with_fs_refs]) (auto dest: same_refs_trans)

lemma same_refs_offset:
  "same_refs t s \<Longrightarrow> same_refs t (if b then upd_file fi (\<lambda>f. f\<lparr>f_offset := w f\<rparr>) (s\<lparr>ffs := x\<rparr>) else s\<lparr>ffs := x\<rparr>)"
  using same_refs_upd [of "\<lambda>f. f\<lparr>f_offset := w f\<rparr>" "s\<lparr>ffs := x\<rparr>" fi] by (auto simp: same_refs_def)

lemma post_outcome:
  "(\<And>v x. r = Ret v x \<Longrightarrow> post Q (f v x)) \<Longrightarrow> (\<And>c n x. r = Block c n x \<Longrightarrow> post Q (g c n x))
    \<Longrightarrow> post Q (case r of Ret v x \<Rightarrow> f v x | Block c n x \<Rightarrow> g c n x)"
  by (cases r) auto

lemma same_refs_other: "same_refs t s \<Longrightarrow> same_refs t (s\<lparr>fpipes := p\<rparr>)" "same_refs t s \<Longrightarrow> same_refs t (s\<lparr>fcon := c\<rparr>)"
  by (simp_all add: same_refs_def)

lemma post_out:
  "same_refs t s \<Longrightarrow> post (\<lambda>r. same_refs t (fst (out_state r))) (Inr (Ret v (s, u)))"
  "same_refs t s \<Longrightarrow> post (\<lambda>r. same_refs t (fst (out_state r))) (Inr (Block c n (s, u)))"
  "same_refs t s \<Longrightarrow> post (\<lambda>r. same_refs t (out_state r)) (Inr (Ret v s))"
  "same_refs t s \<Longrightarrow> post (\<lambda>r. same_refs t (out_state r)) (Inr (Block c n s))"
  "same_refs t s \<Longrightarrow> post (\<lambda>(_, s'). same_refs t s') (Inr (x, s))"
  by (simp_all add: post_Inr)

lemmas file_rules = post_if post_prod post_nested post_outcome post_Inl post_out same_refs_other same_refs_offset

lemma read_file_refs: "post (\<lambda>r. same_refs s (fst (out_state r))) (read_file us pid killed fi a n (s, u))"
  unfolding read_file_def prod.case Let_def
  by ((rule file_rules fs_bind [where t = s] same_refs_refl | assumption) | rule post_pure)+

lemma write_file_loop_refs: "same_refs t s \<Longrightarrow> post (\<lambda>(_, s'). same_refs t s') (write_file_loop inp past pid fi a n i s)"
proof (induction "nat (n - i)" arbitrary: i s rule: less_induct)
  case less
  have "i < n \<Longrightarrow> nat (n - (i + (if write_max < n - i then write_max else n - i))) < nat (n - i)"
    by (auto simp: write_max_def)
  note IH = less.hyps [OF this]
  show ?case
    unfolding write_file_loop.simps [of inp past pid fi a n i s] Let_def
    by ((rule file_rules fs_bind [where t = t] less.prems IH | assumption) | rule post_pure)+
qed

lemma write_file_refs: "post (\<lambda>r. same_refs s (out_state r)) (write_file us past pid killed fi a n u s)"
  unfolding write_file_def Let_def
  by ((rule file_rules post_bind [OF write_file_loop_refs] same_refs_refl | assumption) | rule post_pure | (clarify, rule file_rules))+

lemma file_stat_refs: "post (\<lambda>(_, s', _). same_refs s s') (file_stat us pad pid fi a (s, u))"
  unfolding file_stat_def Let_def prod.case
  by (rule file_rules post_intros fs_bind [where t = s] same_refs_refl | assumption | simp add: post_Inr)+

text \<open>The calls.\<close>

lemma refs_ok_same:
  assumes "refs_ok X E k" "same_refs (kfiles k) s"
  shows "refs_ok X E (k\<lparr>kfiles := s\<lparr>fmem := m\<rparr>\<rparr>)"
  using refs_ok_files [OF assms(1)] counted_cong [OF refs_okD(1) [OF assms(1)]] assms(2) by (simp add: same_refs_def)

lemma with_user_refs:
  assumes "refs_ok X E k" "post (\<lambda>r. same_refs (kfiles k) (fst (out_state r))) (op (kfiles k, pmem k))"
  shows "post (\<lambda>r. refs_ok X E (out_state r)) (with_user op k)"
  unfolding with_user_def
  by (rule post_bind [OF assms(2)]) (auto intro!: post_Inr refs_ok_same [OF assms(1)] split: outcome.splits)

lemma sys_read_refs: "refs_ok X E k \<Longrightarrow> post (\<lambda>r. refs_ok X E (out_state r)) (sys_read e h k)"
  unfolding sys_read_def
  by (rule rk.bind2 [OF rk.argfd_keeps] rk.bind2 [OF rk.argint_keeps] rk.bind2 [OF rk.argaddr_keeps] rk.bind2 [OF rk.myproc_keeps]
      post_option post_prod with_user_refs read_file_refs | assumption | simp add: post_Inr)+

lemma sys_write_refs: "refs_ok X E k \<Longrightarrow> post (\<lambda>r. refs_ok X E (out_state r)) (sys_write e h k)"
proof -
  have w: "post (\<lambda>r. same_refs s (fst (out_state r)))
      (rbind (write_file us past pid killed fi a n m s) (\<lambda>r. case r of Ret v s \<Rightarrow> Inr (Ret v (s, m)) | Block ch j s \<Rightarrow> Inr (Block ch j (s, m))))"
    for us past pid killed fi a n and m :: mem and s
    by (rule post_bind [OF write_file_refs]) (auto intro: post_Inr split: outcome.splits)
  show "refs_ok X E k \<Longrightarrow> post (\<lambda>r. refs_ok X E (out_state r)) (sys_write e h k)"
    unfolding sys_write_def
    by ((simp only: prod.case, rule w) | rule rk.bind2 [OF rk.argfd_keeps] rk.bind2 [OF rk.argint_keeps]
        rk.bind2 [OF rk.argaddr_keeps] rk.bind2 [OF rk.myproc_keeps] post_option post_prod with_user_refs
      | assumption | simp add: post_Inr)+
qed

lemma sys_fstat_refs: "refs_ok X E k \<Longrightarrow> post (\<lambda>r. refs_ok X E (out_state r)) (sys_fstat e h k)"
proof -
  have w: "post (\<lambda>r. same_refs s (fst (out_state r))) (rbind (file_stat us pad pid fi a (s, u)) (\<lambda>(r, x). Inr (Ret r x)))"
    for us :: "'u uspace" and pad pid fi a u s
    by (rule post_bind [OF file_stat_refs]) (auto intro: post_Inr)
  show "refs_ok X E k \<Longrightarrow> post (\<lambda>r. refs_ok X E (out_state r)) (sys_fstat e h k)"
    unfolding sys_fstat_def
    by (rule rk.bind2 [OF rk.argfd_keeps] rk.bind2 [OF rk.argaddr_keeps] rk.bind2 [OF rk.myproc_keeps]
        post_option post_prod with_user_refs w | assumption | simp add: post_Inr)+
qed

section \<open>fork, wait and exit\<close>

text \<open>A process without descriptors can be freed.\<close>

lemma refs_ok_dead:
  assumes "refs_ok X E k" "fds (procs k ! i) = {#}" "\<And>p. p_openfile (g p) = p_openfile p"
  shows "refs_ok X E (upd_proc i g k)"
  by (rule refs_ok_upd [OF assms(1,3)]) (simp add: assms(2))

lemma freeproc_refs:
  assumes "refs_ok X E k" "fds (procs k ! i) = {#}"
  shows "post (\<lambda>k'. refs_ok X E k' \<and> fds (procs k' ! i) = {#}) (freeproc im i k)"
proof -
  let ?P = "\<lambda>k. refs_ok X E k \<and> fds (procs k ! i) = {#}"
  let ?g = "\<lambda>p. p\<lparr>p_state := UNUSED, p_chan := NoChan, p_killed := 0, p_exit_state := 0, p_pid := 0,
          p_parent := None, p_mem_size := 0, p_pagetable := 0, p_name := (p_name p)[0 := 0]\<rparr>"
  have k: "?P k" using assms by simp
  have free: "post ?P (Inr (upd_proc i ?g k))" if "?P k" for k
    using that refs_ok_dead [of X E k i ?g] fds_cong [of "?g (procs k ! i)" "procs k ! i"] by (auto simp: nth_upd_proc intro: post_Inr)
  show ?thesis unfolding freeproc_def Let_def
    by (rule re.bind1 free post_if re.do_mem_keeps re.ret1 re.P_if re.P_upd re.P_mem k | assumption)+
qed

lemma alloc_scan_post:
  "post (\<lambda>(r, k'). (\<exists>m. k' = k\<lparr>mach := m\<rparr>) \<and> (\<forall>i. r = Some i \<longrightarrow> i \<in> set is \<and> pst k i = UNUSED)) (alloc_scan h is k)"
proof (induction "is" arbitrary: k)
  case Nil
  show ?case by (auto intro!: post_Inr exI [of _ "mach k"])
next
  case (Cons i "is")
  have lock: "post (\<lambda>k'. \<exists>m. k' = k\<lparr>mach := m\<rparr>) (acq h i k)" "post (\<lambda>k'. \<exists>m. k' = k\<lparr>mach := m\<rparr>) (rel h i k)" for k
    by (auto simp: post_def acq_def rel_def rbind_eq_Inr)
  show ?case unfolding alloc_scan.simps
  proof (rule post_bind [OF lock(1)], clarify, rule post_if)
    fix m
    show "post (\<lambda>(r, k'). (\<exists>m. k' = k\<lparr>mach := m\<rparr>) \<and> (\<forall>j. r = Some j \<longrightarrow> j \<in> set (i # is) \<and> pst k j = UNUSED))
        (rbind (rel h i (k\<lparr>mach := m\<rparr>)) (alloc_scan h is))"
      by (rule post_bind [OF lock(2)], clarify, rule post_mono [OF Cons.IH]) auto
  qed (auto intro!: post_Inr)
qed

lemma refs_ok_exempt: "refs_ok X E k \<Longrightarrow> E \<subseteq> F \<Longrightarrow> refs_ok X F k"
  by (auto simp: refs_ok_def)

lemma refs_ok_alive: "refs_ok X {i} k \<Longrightarrow> pst k i \<noteq> UNUSED \<and> pst k i \<noteq> ZOMBIE \<Longrightarrow> refs_ok X {} k"
  by (auto simp: refs_ok_def)

lemma alloc_process_refs:
  assumes "refs_ok X {} k"
  shows "post (\<lambda>(r, k'). refs_ok X {} k' \<and> (\<forall>i. r = Some i \<longrightarrow> i < MAXPROC \<and> fds (procs k' ! i) = {#} \<and> pst k i = UNUSED))
    (alloc_process im h k)"
  unfolding alloc_process_def
proof (rule post_bind [OF alloc_scan_post], clarify, rule post_option)
  fix r m
  assume "\<forall>i. r = Some i \<longrightarrow> i \<in> set [0..<MAXPROC] \<and> pst k i = UNUSED"
  note free = this
  let ?Q = "\<lambda>(r, k'). refs_ok X {} k' \<and> (\<forall>i. r = Some i \<longrightarrow> i < MAXPROC \<and> fds (procs k' ! i) = {#} \<and> pst k i = UNUSED)"
  have k: "refs_ok X {} (k\<lparr>mach := m\<rparr>)" using assms rk.P_mach by simp
  show "post ?Q (Inr (None, k\<lparr>mach := m\<rparr>))" using k by (simp add: post_Inr)
  fix i assume r: "r = Some i"
  let ?P = "\<lambda>k. refs_ok X {} k \<and> fds (procs k ! i) = {#}"
  have i: "i < MAXPROC" "pst k i = UNUSED" using free r by auto
  then have kP: "?P (k\<lparr>mach := m\<rparr>)" using k refs_okD(4) [OF assms] by (auto simp: refs_ok_def)
  have ret: "post ?Q (Inr (None, k'))" "post ?Q (Inr (Some i, k'))" if "?P k'" for k'
    using that i by (auto intro: post_Inr)
  have fr: "post ?P (freeproc im i k')" if "?P k'" for k'
    using freeproc_refs that by blast
  show "post ?Q (rbind (alloc_pid h (k\<lparr>mach := m\<rparr>)) (\<lambda>(pid, k).
             let k = upd_proc i (\<lambda>p. p\<lparr>p_pid := pid\<rparr>) k in
             rbind (on_mem (kalloc (im_mem_end im)) k) (\<lambda>(tf, k).
               let k = upd_proc i (\<lambda>p. p\<lparr>p_trapframe := tf\<rparr>) k in
               if tf = 0 then rbind (rel h i k) (\<lambda>k. Inr (None, k))
               else rbind (on_mem (proc_pagetable im tf) k) (\<lambda>(pt, k).
                 let k = upd_proc i (\<lambda>p. p\<lparr>p_pagetable := pt\<rparr>) k in
                 if pt = 0 then rbind (freeproc im i k) (\<lambda>k. rbind (rel h i k) (\<lambda>k. Inr (None, k)))
                 else
                   let k = upd_proc i (\<lambda>p. p\<lparr>p_context := \<lparr>c_ra = im_forkret im,
                         c_sp = p_kernel_stack p + PGESIZE, c_saved = replicate 12 0\<rparr>\<rparr>) k
                   in Inr (Some i, k)))))"
    by (rule re.bind2 re.bind1 ret fr post_if post_Let re.alloc_pid_keeps re.on_mem_keeps re.rel_keeps re.P_upd kP | assumption)+
qed

lemma fork_files_refs:
  assumes "refs_ok X {np} k" "p < MAXPROC" "np < MAXPROC" "p \<noteq> np" "distinct l"
    and "\<And>fd. fd \<in> set l \<Longrightarrow> fd < NUMOFILES \<and> p_openfile (procs k ! np) ! fd = None"
  shows "post (refs_ok X {np}) (fork_files p np l k)"
  using assms
proof (induction l arbitrary: k)
  case (Cons fd l)
  show ?case
  proof (cases "p_openfile (procs k ! p) ! fd")
    case None
    then show ?thesis using Cons by simp
  next
    case (Some f)
    note R = Cons.prems(1)
    have len: "length (procs k) = MAXPROC" "fd < NUMOFILES" "length (p_openfile (procs k ! p)) = NUMOFILES"
      using refs_okD(3,4) [OF R] Cons.prems by auto
    have f: "f \<in># handles k" by (rule handle_in [of p _ fd]) (use len Cons.prems Some in auto)
    have "post (refs_ok X {np}) (fork_files p np l (set_fd np fd (Some f) (k\<lparr>kfiles := s\<rparr>)))" if s: "file_dup f (kfiles k) = Inr (f', s)" for f' s
    proof (rule Cons.IH)
      have c: "counted (ftable (kfiles k)) (handles k + X)" using refs_okD(1) [OF R] .
      have "counted (ftable s) (handles k + (X + opt_mset (Some f)))"
        using file_dup_counted [OF c, of f] f s by auto
      from refs_ok_set_fd [OF refs_ok_files [OF R this], of np fd] len Cons.prems
      show "refs_ok X {np} (set_fd np fd (Some f) (k\<lparr>kfiles := s\<rparr>))" by simp
      show "fd' < NUMOFILES \<and> p_openfile (procs (set_fd np fd (Some f) (k\<lparr>kfiles := s\<rparr>)) ! np) ! fd' = None" if "fd' \<in> set l" for fd'
        using Cons.prems(5,6) that by (auto simp: openfile_set_fd nth_list_update_cases)
    qed (use Cons.prems in auto)
    then show ?thesis using Some
      by (auto simp: post_def rbind_eq_Inr set_fd_def file_dup_def split: if_splits)
  qed
qed (simp add: post_Inr)

lemma fork_child_refs:
  assumes "refs_ok X {np} k" "fds (procs k ! np) = {#}" "p < MAXPROC" "np < MAXPROC" "p \<noteq> np"
  shows "post (refs_ok X {np}) (fork_child im h p np k)"
proof -
  let ?P = "\<lambda>k. refs_ok X {np} k \<and> fds (procs k ! np) = {#}"
  let ?k = "upd_proc np (\<lambda>x. x\<lparr>p_mem_size := p_mem_size (procs k ! p)\<rparr>) k"
  have k: "?P k" using assms by simp
  have files: "post (refs_ok X {np}) (fork_files p np [0..<NUMOFILES] k1)" if "?P k1" for k1
  proof (rule fork_files_refs)
    have len: "length (p_openfile (procs k1 ! np)) = NUMOFILES" using that refs_okD(3,4) assms(4) by auto
    show "fd < NUMOFILES \<and> p_openfile (procs k1 ! np) ! fd = None" if fd: "fd \<in> set [0..<NUMOFILES]" for fd
    proof -
      have "fd < length (p_openfile (procs k1 ! np))" using fd len by simp
      then have "p_openfile (procs k1 ! np) ! fd \<in> set (p_openfile (procs k1 ! np))" by (rule nth_mem)
      then show ?thesis using fds_empty \<open>?P k1\<close> fd by auto
    qed
  qed (use that assms in auto)
  have dup: "refs_ok X {np} (k1\<lparr>kfiles := (kfiles k1)\<lparr>ffs := y\<rparr>\<rparr>)" if "refs_ok X {np} k1" for y k1
    using rk.P_fs [OF that] .
  show ?thesis unfolding fork_child_def Let_def
    by (rule rk.bind1 [OF files] post_option post_Inl rk.rel_keeps rk.P_upd dup re.P_mem re.P_upd k | assumption)+
qed

lemma fork_refs:
  assumes "refs_ok X {} k" "live h k"
  shows "post (\<lambda>(_, k'). refs_ok X {} k') (fork im h k)"
  unfolding fork_def
proof (rule post_bind [OF myproc_post], clarify)
  fix p m assume p: "cur k h = Some p"
  let ?k = "k\<lparr>mach := m\<rparr>"
  have pl: "p < MAXPROC" "pst k p \<noteq> UNUSED" using p assms refs_okD(2,4) [OF assms(1)] by (auto simp: live_def)
  have prep: "post (\<lambda>(r, k'). case r of None \<Rightarrow> refs_ok X {} k' | Some np \<Rightarrow> refs_ok X {np} k' \<and> np < MAXPROC) (fork_prepare im h p ?k)"
    unfolding fork_prepare_def
  proof (rule post_bind [OF alloc_process_refs [OF rk.P_mach [OF assms(1)]]], clarify, rule post_option)
    fix r k1
    let ?Q = "\<lambda>(r, k'). case r of None \<Rightarrow> refs_ok X {} k' | Some np \<Rightarrow> refs_ok X {np} k' \<and> np < MAXPROC"
    assume a: "refs_ok X {} k1" "\<forall>i. r = Some i \<longrightarrow> i < MAXPROC \<and> fds (procs k1 ! i) = {#} \<and> pst ?k i = UNUSED"
    show "post ?Q (Inr (None, k1))" using a by (simp add: post_Inr)
    fix np assume r: "r = Some np"
    let ?P = "\<lambda>k. refs_ok X {} k \<and> fds (procs k ! np) = {#}"
    have np: "np < MAXPROC" "p \<noteq> np" "?P k1" using a r pl by auto
    have ret: "?P k' \<Longrightarrow> post ?Q (Inr (None, k'))" for k' by (simp add: post_Inr)
    have fr: "?P k' \<Longrightarrow> post ?P (freeproc im np k')" for k' using freeproc_refs by blast
    have ch: "post ?Q (rbind (fork_child im h p np k') (\<lambda>k. Inr (Some np, k)))" if "?P k'" for k'
      by (rule post_bind [OF fork_child_refs]) (use that np pl refs_ok_exempt in \<open>auto intro: post_Inr\<close>)
    show "post ?Q (rbind (on_mem (uvmcopy (im_mem_end im) (p_pagetable (procs k1 ! p)) (p_pagetable (procs k1 ! np))
               (p_mem_size (procs k1 ! p))) k1) (\<lambda>(r, k).
             if r < 0 then rbind (freeproc im np k) (\<lambda>k. rbind (rel h np k) (\<lambda>k. Inr (None, k)))
             else rbind (fork_child im h p np k) (\<lambda>k. Inr (Some np, k))))"
      by (rule ch ret re.bind2 [OF re.on_mem_keeps] re.bind1 [OF fr] re.bind1 [OF re.rel_keeps] post_if np(3) | assumption)+
  qed
  show "post (\<lambda>(_, k'). refs_ok X {} k') (rbind (fork_prepare im h p ?k) (\<lambda>(r, k).
       case r of None \<Rightarrow> Inr (- 1, k)
       | Some np \<Rightarrow> let pid = p_pid (procs k ! np) in rbind (fork_parent h p np k) (\<lambda>k. rbind (fork_publish h np k) (\<lambda>k. Inr (pid, k)))))"
  proof (rule post_bind [OF prep], clarify, rule post_option)
    fix r k1
    assume a: "case r of None \<Rightarrow> refs_ok X {} k1 | Some np \<Rightarrow> refs_ok X {np} k1 \<and> np < MAXPROC"
    show "post (\<lambda>(_, k'). refs_ok X {} k') (Inr (- 1, k1))" if "r = None" using a that by (simp add: post_Inr)
    fix np assume r: "r = Some np"
    then have k1: "refs_ok X {np} k1" "np < MAXPROC" using a by auto
    have pub: "post (refs_ok X {}) (fork_publish h np k2)" if "refs_ok X {np} k2" for k2
      unfolding fork_publish_def
    proof (rule rk.bind1 [OF rk.acq_keeps [OF that]], rule rk.rel_keeps)
      fix k3 assume k3: "refs_ok X {np} k3"
      show "refs_ok X {} (upd_proc np (\<lambda>x. x\<lparr>p_state := RUNNABLE\<rparr>) k3)"
        by (rule refs_ok_alive [OF rk.P_upd(9) [OF k3]]) (use refs_okD(4) [OF k3] k1(2) in \<open>simp add: nth_upd_proc\<close>)
    qed
    show "post (\<lambda>(_, k'). refs_ok X {} k') (let pid = p_pid (procs k1 ! np) in rbind (fork_parent h p np k1) (\<lambda>k. rbind (fork_publish h np k) (\<lambda>k. Inr (pid, k))))"
      unfolding fork_parent_def
      by (rule post_Let rk.bind1 [OF pub] rk.bind1 rk.ret2 rk.acq_keeps rk.rel_keeps rk.P_upd k1(1) | assumption)+
  qed
qed

text \<open>\<^verbatim>\<open>wait\<close> frees zombies only, and those have no descriptor.\<close>

lemma copy_status_refs: "refs_ok X E k \<Longrightarrow> post (\<lambda>(_, k'). refs_ok X E k') (copy_status im c i addrs k)"
  unfolding copy_status_def Let_def by (intro rk.on_mem_keeps rk.P_mem)

lemma wait_scan_refs:
  "refs_ok X {} k \<Longrightarrow> post (\<lambda>(_, k'). refs_ok X {} k') (wait_scan im h c addrs kids is k)"
proof (induction "is" arbitrary: kids k)
  case Nil
  then show ?case by (simp add: post_Inr)
next
  case (Cons i "is")
  have zombie: "post (\<lambda>(_, k'). refs_ok X {} k' \<and> fds (procs k' ! i) = {#}) (if addrs \<noteq> 0 then copy_status im c i addrs k1 else Inr (0, k1))"
    if "refs_ok X {} k1" "pst k1 i = ZOMBIE" "i < length (procs k1)" for k1
  proof -
    have "refs_ok X {} k1 \<and> fds (procs k1 ! i) = {#}" using that by (auto simp: refs_ok_def)
    then show ?thesis unfolding copy_status_def Let_def
      by (intro post_if re.on_mem_keeps re.P_mem) (simp_all add: post_Inr)
  qed
  have body: "post (\<lambda>(_, k'). refs_ok X {} k') (rbind (if addrs \<noteq> 0 then copy_status im c i addrs k1 else Inr (0, k1)) (\<lambda>(r, k).
              if r < 0 then rbind (rel h i k) (\<lambda>k. rbind (rel h WAITLOCK k) (\<lambda>k. Inr ((Some (- 1), True), k)))
              else rbind (freeproc im i k) (\<lambda>k. rbind (rel h i k) (\<lambda>k. rbind (rel h WAITLOCK k) (\<lambda>k. Inr ((Some pid, True), k))))))"
    if "refs_ok X {} k1" "pst k1 i = ZOMBIE" "i < length (procs k1)" for k1 pid
  proof (rule post_bind [OF zombie [OF that]], clarify, rule post_if)
    fix v k2 assume k2: "refs_ok X {} k2" "fds (procs k2 ! i) = {#}"
    show "post (\<lambda>(_, k'). refs_ok X {} k') (rbind (rel h i k2) (\<lambda>k. rbind (rel h WAITLOCK k) (\<lambda>k. Inr ((Some (- 1), True), k))))"
      by (rule rk.keep_base k2(1) | assumption)+
    have fr: "post (refs_ok X {}) (freeproc im i k2)" by (rule post_mono [OF freeproc_refs [OF k2]]) simp
    show "post (\<lambda>(_, k'). refs_ok X {} k')
       (rbind (freeproc im i k2) (\<lambda>k. rbind (rel h i k) (\<lambda>k. rbind (rel h WAITLOCK k) (\<lambda>k. Inr ((Some pid, True), k)))))"
      by (rule rk.keep_base fr | assumption)+
  qed
  have lock: "post (\<lambda>k'. refs_ok X {} k' \<and> procs k' = procs k) (acq h i k)"
    using Cons.prems rk.P_mach by (auto simp: post_def acq_def rbind_eq_Inr)
  show ?case unfolding wait_scan.simps Let_def
  proof (intro post_if post_Inl Cons.IH Cons.prems post_bind [OF lock])
    fix k1 assume i: "\<not> length (procs k) \<le> i" and k1: "refs_ok X {} k1 \<and> procs k1 = procs k"
    show "post (\<lambda>(_, k'). refs_ok X {} k') (rbind (if addrs \<noteq> 0 then copy_status im c i addrs k1 else Inr (0, k1)) (\<lambda>(r, k).
              if r < 0 then rbind (rel h i k) (\<lambda>k. rbind (rel h WAITLOCK k) (\<lambda>k. Inr ((Some (- 1), True), k)))
              else rbind (freeproc im i k) (\<lambda>k. rbind (rel h i k) (\<lambda>k. rbind (rel h WAITLOCK k) (\<lambda>k. Inr ((Some (p_pid (procs k1 ! i)), True), k))))))"
      if "pst k1 i = ZOMBIE" by (rule body) (use that i k1 in auto)
    show "post (\<lambda>(_, k'). refs_ok X {} k') (rbind (rel h i k1) (wait_scan im h c addrs True is))"
      by (rule rk.bind1 [OF rk.rel_keeps]) (use k1 Cons.IH in auto)
  qed
qed

fun wait_state :: "wait_result \<Rightarrow> kernel" where
  "wait_state (Waited v k) = k"
| "wait_state (Waits b k) = k"

lemma wait_refs: "refs_ok X {} k \<Longrightarrow> post (\<lambda>r. refs_ok X {} (wait_state r)) (wait im h addrs k)"
proof -
  have ret: "refs_ok X {} k \<Longrightarrow> post (\<lambda>r. refs_ok X {} (wait_state r)) (Inr (Waited v k))"
    "refs_ok X {} k \<Longrightarrow> post (\<lambda>r. refs_ok X {} (wait_state r)) (Inr (Waits b k))" for k v b
    by (simp_all add: post_Inr)
  show "refs_ok X {} k \<Longrightarrow> post (\<lambda>r. refs_ok X {} (wait_state r)) (wait im h addrs k)"
    unfolding wait_def wait_round_def
    by (rule ret rk.bind2 rk.bind1 rk.myproc_keeps rk.acq_keeps wait_scan_refs rk.rel_keeps rk.sleep_enter_keeps
        post_prod post_nested post_option post_if | assumption)+
qed

text \<open>\<^verbatim>\<open>exit\<close> closes every descriptor before the process becomes a zombie.\<close>

lemma exit_close_commute:
  "rbind (on_files (file_close me past (p_pid (procs k ! i)) f) k) (\<lambda>k. Inr (set_fd i fd None k))
     = on_files (file_close me past (p_pid (procs k ! i)) f) (set_fd i fd None k)"
  by (cases "file_close me past (p_pid (procs k ! i)) f (kfiles k)") (auto simp: on_files_def set_fd_def upd_proc_def)

lemma exit_files_refs:
  assumes "refs_ok X E k" "i < MAXPROC" "\<And>fd. fd \<in> set l \<Longrightarrow> fd < NUMOFILES"
  shows "post (\<lambda>k'. refs_ok X E k' \<and> (\<forall>fd. fd \<in> set l \<or> p_openfile (procs k ! i) ! fd = None \<longrightarrow> p_openfile (procs k' ! i) ! fd = None))
    (exit_files im i l k)"
  using assms
proof (induction l arbitrary: k)
  case (Cons fd l)
  have len: "length (procs k) = MAXPROC" "length (p_openfile (procs k ! i)) = NUMOFILES" using refs_okD(3,4) [OF Cons.prems(1)] Cons.prems(2) by auto
  show ?case
  proof (cases "p_openfile (procs k ! i) ! fd")
    case None
    then show ?thesis using post_mono [OF Cons.IH [OF Cons.prems(1,2)]] Cons.prems(3) by fastforce
  next
    case (Some f)
    let ?c = "on_files (file_close (im_mem_end im) (im_past im) (p_pid (procs k ! i)) f)"
    let ?k = "set_fd i fd None k"
    have "refs_ok (add_mset f X) E ?k" using refs_ok_clear [OF Cons.prems(1)] Some Cons.prems(2,3) len by simp
    from close_refs [OF this]
    have c: "post (\<lambda>k'. refs_ok X E k' \<and> procs k' = procs ?k) (?c ?k)"
      by (auto simp: post_def on_files_def rbind_eq_Inr)
    have "post (\<lambda>k'. refs_ok X E k' \<and> (\<forall>x. x \<in> set (fd # l) \<or> p_openfile (procs k ! i) ! x = None \<longrightarrow> p_openfile (procs k' ! i) ! x = None))
        (rbind (?c ?k) (exit_files im i l))"
    proof (rule post_bind [OF c], clarify, rule post_mono [OF Cons.IH])
      fix k1 assume k1: "refs_ok X E k1" "procs k1 = procs ?k"
      then show "refs_ok X E k1" by simp
      have "p_openfile (procs k1 ! i) = (p_openfile (procs k ! i))[fd := None]" using k1(2) len Cons.prems(2) by (simp add: openfile_set_fd)
      then have *: "p_openfile (procs k1 ! i) ! x = None" if "x = fd \<or> p_openfile (procs k ! i) ! x = None" for x
        using that len Cons.prems(3) by (auto simp: nth_list_update_cases)
      fix k2 assume "refs_ok X E k2 \<and> (\<forall>x. x \<in> set l \<or> p_openfile (procs k1 ! i) ! x = None \<longrightarrow> p_openfile (procs k2 ! i) ! x = None)"
      then show "refs_ok X E k2 \<and> (\<forall>x. x \<in> set (fd # l) \<or> p_openfile (procs k ! i) ! x = None \<longrightarrow> p_openfile (procs k2 ! i) ! x = None)"
        using * by auto
    qed (use Cons.prems in auto)
    moreover have "rbind (?c ?k) (exit_files im i l) = rbind (?c k) (\<lambda>k. exit_files im i l (set_fd i fd None k))"
      unfolding exit_close_commute [symmetric] rbind_assoc by simp
    ultimately show ?thesis using Some by (simp add: set_fd_def)
  qed
qed (simp add: post_Inr)

lemma exit_switch_refs:
  assumes "refs_ok X {} k" "fds (procs k ! i) = {#}"
  shows "post (\<lambda>(_, k'). refs_ok X {} k') (exit_switch h i status k)"
proof -
  let ?P = "\<lambda>k. refs_ok X {} k \<and> fds (procs k ! i) = {#}"
  let ?g = "\<lambda>p. p\<lparr>p_exit_state := status, p_state := ZOMBIE\<rparr>"
  have k: "?P k" using assms by simp
  have z: "refs_ok X {} (upd_proc i ?g k')" if "?P k'" for k' using refs_ok_dead [of X "{}" k' i ?g] that by simp
  have fin: "post (\<lambda>(_, k'). refs_ok X {} k') (let k = upd_proc i ?g k' in rbind (rel h WAITLOCK k) (scheduler_enter h))" if "?P k'" for k'
    by (rule post_Let rk.bind1 rk.rel_keeps rk.scheduler_enter_keeps z that | assumption)+
  show ?thesis unfolding exit_switch_def reparent_def
    by (rule fin re.bind1 re.acq_keeps re.reparent_loop_keeps re.wakeup_keeps k | assumption)+
qed

lemma exit_refs:
  assumes "refs_ok X {} k"
  shows "post (\<lambda>(_, k'). refs_ok X {} k') (exit im h status k)"
  unfolding exit_def
proof (rule post_bind [OF myproc_post], clarify, rule post_if)
  fix i m assume i: "cur k h = Some i"
  let ?k = "k\<lparr>mach := m\<rparr>"
  have r: "refs_ok X {} ?k" using rk.P_mach [OF assms] .
  have il: "i < MAXPROC" using refs_okD(2,4) [OF assms] i by auto
  have files: "post (\<lambda>k'. refs_ok X {} k' \<and> fds (procs k' ! i) = {#}) (exit_files im i [0..<NUMOFILES] ?k)"
  proof (rule post_mono [OF exit_files_refs [OF r il]])
    fix k' assume *: "refs_ok X {} k' \<and> (\<forall>fd. fd \<in> set [0..<NUMOFILES] \<or> p_openfile (procs ?k ! i) ! fd = None \<longrightarrow> p_openfile (procs k' ! i) ! fd = None)"
    then have "length (p_openfile (procs k' ! i)) = NUMOFILES" using refs_okD(3,4) il by auto
    then have "fds (procs k' ! i) = {#}" using * by (intro fds_none) (auto simp: in_set_conv_nth)
    then show "refs_ok X {} k' \<and> fds (procs k' ! i) = {#}" using * by simp
  qed simp
  show "post (\<lambda>(_, k'). refs_ok X {} k')
     (rbind (exit_files im i [0..<NUMOFILES] ?k) (\<lambda>k. rbind (exit_cwd im i k) (exit_switch h i status)))"
    by (rule re.bind1 [OF files] re.bind1 [OF re.exit_cwd_keeps] | assumption | (elim conjE, rule exit_switch_refs))+
qed (rule post_Inl)

end
