(* ===== verification/Syscall.thy ===== *)
theory Syscall
  imports Descriptors
begin

text \<open>
  \<^verbatim>\<open>kernel/sysproc.c\<close>, the system calls on processes and time, and the dispatch of \<^verbatim>\<open>kernel/syscall.c\<close>. The state is
  the kernel with the tick counter of \<^verbatim>\<open>trap.c\<close> beside it. A call returns a value, or it goes to sleep, or it does
  not come back because the process ends.
\<close>

abbreviation "TICKSLOCK \<equiv> 66 :: nat"
abbreviation "TICKS \<equiv> ObjChan ''ticks''"

record ksys =
  sk :: kernel
  ticks :: u32

datatype called = Returned int ksys | Suspended ksys | Ended ksys

definition on_sk :: "(kernel \<Rightarrow> ('a \<times> kernel) res) \<Rightarrow> ('a \<Rightarrow> ksys \<Rightarrow> 'b res) \<Rightarrow> ksys \<Rightarrow> 'b res" where
  "on_sk op f s = rbind (op (sk s)) (\<lambda>(r, k). f r (s\<lparr>sk := k\<rparr>))"

definition plain :: "(kernel \<Rightarrow> (int \<times> kernel) res) \<Rightarrow> ksys \<Rightarrow> called res" where
  "plain op = on_sk op (\<lambda>v s. Inr (Returned v s))"

definition sleeping :: "(kernel \<Rightarrow> kernel outcome res) \<Rightarrow> ksys \<Rightarrow> called res" where
  "sleeping op s =
     rbind (op (sk s)) (\<lambda>r. case r of Ret v k \<Rightarrow> Inr (Returned v (s\<lparr>sk := k\<rparr>)) | Block _ _ k \<Rightarrow> Inr (Suspended (s\<lparr>sk := k\<rparr>)))"

section \<open>Processes\<close>

definition sys_exit :: "senv \<Rightarrow> nat \<Rightarrow> ksys \<Rightarrow> called res" where
  "sys_exit e h = on_sk (argint h 0) (\<lambda>n. on_sk (exit (e_im e) h n) (\<lambda>_ s. Inr (Ended s)))"

definition sys_getpid :: "nat \<Rightarrow> kernel \<Rightarrow> (int \<times> kernel) res" where
  "sys_getpid h k = rbind (myproc h k) (\<lambda>(i, k). Inr (kpid i k, k))"

definition sys_fork :: "senv \<Rightarrow> nat \<Rightarrow> kernel \<Rightarrow> (int \<times> kernel) res" where
  "sys_fork e h = fork (e_im e) h"

definition sys_wait :: "senv \<Rightarrow> nat \<Rightarrow> ksys \<Rightarrow> called res" where
  "sys_wait e h = on_sk (argaddr h 0) (\<lambda>a s.
     rbind (wait (e_im e) h a (sk s)) (\<lambda>r.
       case r of Waited v k \<Rightarrow> Inr (Returned v (s\<lparr>sk := k\<rparr>)) | Waits _ k \<Rightarrow> Inr (Suspended (s\<lparr>sk := k\<rparr>))))"

definition sys_sbrk :: "senv \<Rightarrow> nat \<Rightarrow> kernel \<Rightarrow> (int \<times> kernel) res" where
  "sys_sbrk e h k =
     rbind (argint h 0 k) (\<lambda>(n, k).
     rbind (myproc h k) (\<lambda>(i, k).
       let addr = sint (p_mem_size (procs k ! i)) in
       rbind (growproc (e_im e) h n k) (\<lambda>(r, k). Inr (if r < 0 then - 1 else addr, k))))"

definition sys_kill :: "nat \<Rightarrow> kernel \<Rightarrow> (int \<times> kernel) res" where
  "sys_kill h k = rbind (argint h 0 k) (\<lambda>(pid, k). kill h pid k)"

section \<open>Time\<close>

text \<open>The test of the loop of \<^verbatim>\<open>sys_sleep\<close> and what follows it; with the lock held. The process goes to sleep in it, and
  comes back through \<^term>\<open>sleep_again\<close>.\<close>

definition sleep_round :: "nat \<Rightarrow> int \<Rightarrow> u32 \<Rightarrow> ksys \<Rightarrow> called res" where
  "sleep_round h n ticks0 s =
     (let done = (\<lambda>v k. rbind (rel h TICKSLOCK k) (\<lambda>k. Inr (Returned v (s\<lparr>sk := k\<rparr>)))) in
      if sint (ticks s - ticks0) < n then
        rbind (myproc h (sk s)) (\<lambda>(i, k).
          if p_killed (procs k ! i) \<noteq> 0 then done (- 1) k
          else rbind (sleep_enter h TICKS TICKSLOCK k) (\<lambda>(_, k). Inr (Suspended (s\<lparr>sk := k\<rparr>))))
      else done 0 (sk s))"

definition sys_sleep :: "nat \<Rightarrow> ksys \<Rightarrow> called res" where
  "sys_sleep h = on_sk (argint h 0) (\<lambda>n s.
     rbind (acq h TICKSLOCK (sk s)) (\<lambda>k. sleep_round h n (ticks s) (s\<lparr>sk := k\<rparr>)))"

definition sleep_again :: "nat \<Rightarrow> nat \<Rightarrow> bool \<Rightarrow> int \<Rightarrow> u32 \<Rightarrow> ksys \<Rightarrow> called res" where
  "sleep_again h i b n ticks0 s =
     rbind (sleep_resume h i b TICKSLOCK (sk s)) (\<lambda>k. sleep_round h n ticks0 (s\<lparr>sk := k\<rparr>))"

definition sys_uptime :: "nat \<Rightarrow> ksys \<Rightarrow> called res" where
  "sys_uptime h s =
     rbind (acq h TICKSLOCK (sk s)) (\<lambda>k.
     rbind (rel h TICKSLOCK k) (\<lambda>k. Inr (Returned (sint (ticks s)) (s\<lparr>sk := k\<rparr>))))"

section \<open>Dispatch\<close>

definition syscall :: "senv \<Rightarrow> nat \<Rightarrow> (ksys \<Rightarrow> called res) option list" where
  "syscall e h =
     [None,
      Some (plain (sys_fork e h)), Some (sys_exit e h), Some (sys_wait e h), Some (plain (sys_pipe e h)),
      Some (sleeping (sys_read e h)), Some (plain (sys_kill h)), Some (plain (sys_exec e h)), Some (sleeping (sys_fstat e h)),
      Some (plain (sys_chdir e h)), Some (plain (sys_dup e h)), Some (plain (sys_getpid h)), Some (plain (sys_sbrk e h)),
      Some (sys_sleep h), Some (sys_uptime h), Some (plain (sys_open e h)), Some (sleeping (sys_write e h)),
      Some (plain (sys_mknod e h)), Some (plain (sys_unlink e h)), Some (plain (sys_link e h)), Some (plain (sys_mkdir e h)),
      Some (plain (sys_close e h))]"

text \<open>The call of number \<open>num\<close>, if there is one.\<close>

definition handler :: "senv \<Rightarrow> nat \<Rightarrow> int \<Rightarrow> (ksys \<Rightarrow> called res) option" where
  "handler e h num = (if 0 < num \<and> num < int (length (syscall e h)) then syscall e h ! nat num else None)"

definition set_a0 :: "nat \<Rightarrow> int \<Rightarrow> ksys \<Rightarrow> ksys" where
  "set_a0 i v s = s\<lparr>sk := set_tf i TF_A0 (of_int v) (sk s)\<rparr>"

fun store_result :: "nat \<Rightarrow> called \<Rightarrow> called" where
  "store_result i (Returned v s) = Returned v (set_a0 i v s)"
| "store_result i (Suspended s) = Suspended s"
| "store_result i (Ended s) = Ended s"

definition handle_syscall :: "senv \<Rightarrow> nat \<Rightarrow> ksys \<Rightarrow> called res" where
  "handle_syscall e h = on_sk (myproc h) (\<lambda>i s.
     case handler e h (sint (tf_word i TF_A7 (sk s))) of
       None \<Rightarrow> Inr (Returned (- 1) (set_a0 i (- 1) s))
     | Some f \<Rightarrow> rbind (f s) (\<lambda>r. Inr (store_result i r)))"

section \<open>Every system call keeps the reference counts\<close>

fun called_state :: "called \<Rightarrow> ksys" where
  "called_state (Returned v s) = s"
| "called_state (Suspended s) = s"
| "called_state (Ended s) = s"

definition sys_ok :: "ksys \<Rightarrow> bool" where
  "sys_ok s \<longleftrightarrow> refs_ok {#} {} (sk s)"

text \<open>A call is sound when it keeps the invariant for a caller that is neither free nor a zombie.\<close>

definition sound :: "nat \<Rightarrow> (ksys \<Rightarrow> called res) \<Rightarrow> bool" where
  "sound h f \<longleftrightarrow> (\<forall>s. sys_ok s \<longrightarrow> live h (sk s) \<longrightarrow> post (\<lambda>r. sys_ok (called_state r)) (f s))"

lemma sound_plain:
  assumes "\<And>k. refs_ok {#} {} k \<Longrightarrow> live h k \<Longrightarrow> post (\<lambda>(_, k'). refs_ok {#} {} k') (op k)"
  shows "sound h (plain op)"
  unfolding sound_def plain_def on_sk_def
proof (intro allI impI)
  fix s assume "sys_ok s" "live h (sk s)"
  from assms [OF this(1) [unfolded sys_ok_def] this(2)]
  show "post (\<lambda>r. sys_ok (called_state r)) (rbind (op (sk s)) (\<lambda>(r, k). Inr (Returned r (s\<lparr>sk := k\<rparr>))))"
    by (rule post_bind) (auto intro: post_Inr simp: sys_ok_def)
qed

lemma sound_sleeping:
  assumes "\<And>k. refs_ok {#} {} k \<Longrightarrow> post (\<lambda>r. refs_ok {#} {} (out_state r)) (op k)"
  shows "sound h (sleeping op)"
  unfolding sound_def sleeping_def
proof (intro allI impI)
  fix s assume "sys_ok s"
  from assms [OF this [unfolded sys_ok_def]]
  show "post (\<lambda>r. sys_ok (called_state r)) (rbind (op (sk s)) (\<lambda>r. case r of Ret v k \<Rightarrow> Inr (Returned v (s\<lparr>sk := k\<rparr>)) | Block _ _ k \<Rightarrow> Inr (Suspended (s\<lparr>sk := k\<rparr>))))"
    by (rule post_bind) (auto intro: post_Inr simp: sys_ok_def split: outcome.splits)
qed

lemma sys_procs_refs:
  assumes "refs_ok X E k"
  shows "rk.keeps X E (sys_getpid h k)" "rk.keeps X E (sys_sbrk e h k)" "rk.keeps X E (sys_kill h k)"
  unfolding sys_getpid_def sys_sbrk_def sys_kill_def
  by (rule rk.keep_args rk.growproc_keeps rk.kill_keeps assms | assumption)+

lemma on_sk_ok:
  assumes "sys_ok s" "rk.keeps {#} {} (op (sk s))" "\<And>r k. refs_ok {#} {} k \<Longrightarrow> post Q (f r (s\<lparr>sk := k\<rparr>))"
  shows "post Q (on_sk op f s)"
  unfolding on_sk_def using assms(2) by (rule post_bind) (auto intro: assms(3))

lemma sound_exit: "sound h (sys_exit e h)"
  unfolding sound_def sys_exit_def
proof (intro allI impI, rule on_sk_ok)
  fix s n k assume "sys_ok s" "refs_ok {#} {} k"
  then show "post (\<lambda>r. sys_ok (called_state r)) (on_sk (exit (e_im e) h n) (\<lambda>_ s. Inr (Ended s)) (s\<lparr>sk := k\<rparr>))"
    by (intro on_sk_ok) (auto intro: exit_refs post_Inr simp: sys_ok_def)
qed (auto intro: rk.argint_keeps simp: sys_ok_def)

lemma sound_wait: "sound h (sys_wait e h)"
  unfolding sound_def sys_wait_def
proof (intro allI impI, rule on_sk_ok)
  fix s a k assume "sys_ok s" "refs_ok {#} {} k"
  then have "post (\<lambda>r. refs_ok {#} {} (wait_state r)) (wait (e_im e) h a (sk (s\<lparr>sk := k\<rparr>)))" by (simp add: wait_refs)
  then show "post (\<lambda>r. sys_ok (called_state r)) (rbind (wait (e_im e) h a (sk (s\<lparr>sk := k\<rparr>))) (\<lambda>r.
       case r of Waited v ka \<Rightarrow> Inr (Returned v (s\<lparr>sk := k\<rparr>\<lparr>sk := ka\<rparr>)) | Waits _ ka \<Rightarrow> Inr (Suspended (s\<lparr>sk := k\<rparr>\<lparr>sk := ka\<rparr>))))"
    by (rule post_bind) (auto intro: post_Inr simp: sys_ok_def split: wait_result.splits)
qed (auto intro: rk.argaddr_keeps simp: sys_ok_def)

lemma sleep_round_ok:
  assumes "sys_ok s"
  shows "post (\<lambda>r. sys_ok (called_state r)) (sleep_round h n t s)"
proof -
  have k: "refs_ok {#} {} (sk s)" using assms by (simp add: sys_ok_def)
  have ret: "refs_ok {#} {} k \<Longrightarrow> post (\<lambda>r. sys_ok (called_state r)) (Inr (Returned v (s\<lparr>sk := k\<rparr>)))"
    "refs_ok {#} {} k \<Longrightarrow> post (\<lambda>r. sys_ok (called_state r)) (Inr (Suspended (s\<lparr>sk := k\<rparr>)))" for v k
    by (simp_all add: post_Inr sys_ok_def)
  show ?thesis unfolding sleep_round_def
    by (rule ret post_if post_Let rk.bind2 rk.bind1 rk.myproc_keeps rk.rel_keeps rk.sleep_enter_keeps k | assumption)+
qed

lemma sound_sleep: "sound h (sys_sleep h)"
  unfolding sound_def sys_sleep_def
proof (intro allI impI, rule on_sk_ok)
  fix s n k assume "refs_ok {#} {} k"
  then show "post (\<lambda>r. sys_ok (called_state r)) (rbind (acq h TICKSLOCK (sk (s\<lparr>sk := k\<rparr>))) (\<lambda>ka. sleep_round h n (ticks (s\<lparr>sk := k\<rparr>)) (s\<lparr>sk := k\<rparr>\<lparr>sk := ka\<rparr>)))"
    by (intro rk.bind1 [OF rk.acq_keeps] sleep_round_ok) (simp_all add: sys_ok_def)
qed (auto intro: rk.argint_keeps simp: sys_ok_def)

lemma sound_uptime: "sound h (sys_uptime h)"
  unfolding sound_def sys_uptime_def
  by (auto intro!: rk.bind1 [OF rk.acq_keeps] rk.bind1 [OF rk.rel_keeps] post_Inr simp: sys_ok_def)

lemmas sound_calls = sound_exit sound_wait sound_sleep sound_uptime
  sound_plain [OF fork_refs] sound_plain [OF sys_pipe_refs] sound_plain [OF rk.sys_exec_keeps] sound_plain [OF rk.sys_chdir_keeps]
  sound_plain [OF sys_dup_refs] sound_plain [OF sys_open_refs] sound_plain [OF rk.sys_mknod_keeps] sound_plain [OF rk.sys_unlink_keeps]
  sound_plain [OF rk.sys_link_keeps] sound_plain [OF rk.sys_mkdir_keeps] sound_plain [OF sys_close_refs]
  sound_plain [OF sys_procs_refs(1)] sound_plain [OF sys_procs_refs(2)] sound_plain [OF sys_procs_refs(3)]
  sound_sleeping [OF sys_read_refs] sound_sleeping [OF sys_write_refs] sound_sleeping [OF sys_fstat_refs]

lemma syscall_sound: "Some f \<in> set (syscall e h) \<Longrightarrow> sound h f"
  unfolding syscall_def sys_fork_def by (auto intro: sound_calls)

lemma handler_sound: "handler e h n = Some f \<Longrightarrow> sound h f"
proof -
  assume "handler e h n = Some f"
  then have "nat n < length (syscall e h)" "syscall e h ! nat n = Some f" by (auto simp: handler_def split: if_splits)
  then have "Some f \<in> set (syscall e h)" by (metis nth_mem)
  then show ?thesis by (rule syscall_sound)
qed

lemma set_a0_ok: "sys_ok s \<Longrightarrow> sys_ok (set_a0 i v s)"
  by (simp add: sys_ok_def set_a0_def set_tf_def rk.P_mem)

lemma store_result_ok: "sys_ok (called_state r) \<Longrightarrow> sys_ok (called_state (store_result i r))"
  by (cases r) (simp_all add: set_a0_ok)


lemma handle_syscall_ok:
  assumes "sys_ok s" "live h (sk s)" "handle_syscall e h s = Inr r"
  shows "sys_ok (called_state r)"
proof -
  obtain i k where my: "myproc h (sk s) = Inr (i, k)" using assms(3) by (auto simp: handle_syscall_def on_sk_def rbind_eq_Inr)
  let ?s = "s\<lparr>sk := k\<rparr>"
  have "refs_ok {#} {} (sk s) \<and> live h (sk s)" using assms(1,2) by (simp add: sys_ok_def)
  from postD [OF rl.myproc_keeps [OF this] my] have ok: "sys_ok ?s" "live h (sk ?s)" by (simp_all add: sys_ok_def)
  have run: "sys_ok (called_state x)" if "handler e h n = Some f" "f ?s = Inr x" for n f x
    using handler_sound [OF that(1)] ok that(2) by (auto simp: sound_def dest: postD)
  show ?thesis using assms(3) my ok(1) run
    by (auto simp: handle_syscall_def on_sk_def rbind_eq_Inr set_a0_ok split: option.splits intro: store_result_ok)
qed

section \<open>Numbers without a call\<close>

lemma handler_None: "handler e h num = None \<longleftrightarrow> num \<le> 0 \<or> 22 \<le> num"
proof -
  have "syscall e h ! nat num \<noteq> None" if "0 < num" "num < 22"
  proof -
    have "nat num \<in> set [1..<22]" using that by auto
    moreover have "\<forall>n\<in>set [1..<22]. syscall e h ! n \<noteq> None" by (simp add: syscall_def upt_conv_Cons)
    ultimately show ?thesis by blast
  qed
  moreover have "length (syscall e h) = 22" by (simp add: syscall_def)
  ultimately show ?thesis by (auto simp: handler_def)
qed

text \<open>A system call with a number the table has no entry for returns -1 in the register \<^verbatim>\<open>a0\<close> and changes
  nothing else of the kernel.\<close>

theorem unknown_call_fails:
  assumes "depth (sk s) h = 0" "cur (sk s) h = Some i" "num = sint (tf_word i TF_A7 (sk s))" "num \<le> 0 \<or> 22 \<le> num"
  shows "\<exists>s'. handle_syscall e h s = Inr (Returned (- 1) s') \<and> ticks s' = ticks s \<and> procs (sk s') = procs (sk s) \<and> cur (sk s') = cur (sk s)
    \<and> kfiles (sk s') = (kfiles (sk s))\<lparr>fmem := store32 (pmem (sk s)) (p_trapframe (procs (sk s) ! i) + of_nat TF_A0) (- 1)\<rparr>"
proof -
  have "handler e h num = None" using assms(4) by (simp add: handler_None)
  then show ?thesis using assms(1-3)
    by (simp add: handle_syscall_def on_sk_def myproc_eval set_a0_def) (simp add: set_tf_def set_mem_def pmem_def)
qed

theorem unknown_call_fails_witness:
  "\<exists>s'. handle_syscall env_w 0 \<lparr>sk = set_tf 2 TF_A7 22 kernel_x, ticks = 5\<rparr> = Inr (Returned (- 1) s') \<and> ticks s' = 5 \<and> procs (sk s') = procs kernel_x"
proof -
  have "tf_word 2 TF_A7 (set_tf 2 TF_A7 22 kernel_x) = 22" by (simp add: tf_word_set_tf aligned4_def)
  then show ?thesis using unknown_call_fails [of "\<lparr>sk = set_tf 2 TF_A7 22 kernel_x, ticks = 5\<rparr>" 0 2 22 env_w] by auto
qed

end
