(* ===== verification/Disk.thy ===== *)
theory Disk
  imports Bufcache
begin

text \<open>
  \<^verbatim>\<open>kernel/disk.c\<close>: the virtio block driver. The state is \<^verbatim>\<open>struct disk\<close> with the three areas of its
  pages (descriptors, \<^verbatim>\<open>avail\<close>, \<^verbatim>\<open>used\<close>), the \<^verbatim>\<open>disk\<close> field of the buffers, the wake-ups it has given
  and its writes to the registers of the device. An address that a descriptor carries is the object
  at it: the request header on the caller's stack, the data of a buffer, the status byte of a request.
  The arrays of \<^verbatim>\<open>struct disk\<close> are functions of the index, which is below \<^verbatim>\<open>NUM\<close> at every access or else a
  panic or a fault.

  All of \<^verbatim>\<open>disk_read_write\<close> and \<^verbatim>\<open>virtio_disk_intr\<close> runs under \<^verbatim>\<open>vdisk_lock\<close>, except while a caller
  sleeps. \<^verbatim>\<open>disk_read_write\<close> is therefore cut at its two \<^verbatim>\<open>sleep\<close> calls; the pieces, the interrupt
  handler and the device interleave in the step relation \<open>dstep\<close>. The device is the one of the
  virtio specification: it takes chains from the available ring in order, serves those it has taken in any
  order, and reports each of them in the used ring with a status byte.
\<close>

section \<open>State\<close>

abbreviation (input) "NUM \<equiv> 8 :: nat"
abbreviation (input) "VRING_DESC_F_NEXT \<equiv> 1 :: u16"
abbreviation (input) "VRING_DESC_F_WRITE \<equiv> 2 :: u16"
abbreviation (input) "VIRTIO_BLK_T_IN \<equiv> 0 :: u32"
abbreviation (input) "VIRTIO_BLK_T_OUT \<equiv> 1 :: u32"

record outhdr =
  oh_type :: u32
  oh_reserved :: u32
  oh_sector :: u64

datatype dma = DNull | DHdr outhdr | DData nat | DStatus nat

record vring_desc =
  vd_addr :: dma
  vd_len :: u32
  vd_flags :: u16
  vd_next :: u16

record used_elem =
  ue_id :: u32
  ue_len :: u32

record vinfo =
  in_b :: "nat option"
  in_status :: byte

datatype dchan = OnFree | OnBuf nat

record dsk =
  vdesc :: "nat \<Rightarrow> vring_desc"
  vavail :: "nat \<Rightarrow> u16"
  vused_id :: u16
  velems :: "nat \<Rightarrow> used_elem"
  vfree :: "nat \<Rightarrow> bool"
  used_idx :: u16
  vinfos :: "nat \<Rightarrow> vinfo"
  bdisk :: "nat \<Rightarrow> int"
  dbufs :: "buffer list"
  sectors :: "u64 \<Rightarrow> byte list"
  wakes :: "dchan list"
  mmio :: "(u32 \<times> u32) list"

section \<open>Initialisation\<close>

definition reg_write :: "u32 \<Rightarrow> u32 \<Rightarrow> dsk \<Rightarrow> dsk" where
  "reg_write r v d = d\<lparr>mmio := mmio d @ [(r, v)]\<rparr>"

text \<open>The feature bits that the driver turns off, in the order of the statements.\<close>

definition negotiate :: "u32 \<Rightarrow> u32" where
  "negotiate features = fold (\<lambda>k f. and f (not (push_bit k 1))) [5, 7, 11, 12, 27, 29, 28] features"

definition zero_desc :: vring_desc where
  "zero_desc = \<lparr>vd_addr = DNull, vd_len = 0, vd_flags = 0, vd_next = 0\<rparr>"

definition disk_init :: "(u32 \<Rightarrow> u32) \<Rightarrow> u32 \<Rightarrow> dsk \<Rightarrow> dsk res" where
  "disk_init reg pages d =
     (if reg 0x000 \<noteq> 0x74726976 \<or> reg 0x004 \<noteq> 1 \<or> reg 0x008 \<noteq> 2 \<or> reg 0x00c \<noteq> 0x554d4551
      then Inl (Panic ''could not find virtio disk'')
      else
        let d = reg_write 0x070 1 d;
            d = reg_write 0x070 3 d;
            d = reg_write 0x020 (negotiate (reg 0x010)) d;
            d = reg_write 0x070 11 d;
            d = reg_write 0x070 15 d;
            d = reg_write 0x028 4096 d;
            d = reg_write 0x030 0 d
        in if reg 0x034 = 0 then Inl (Panic ''virtio disk has no queue 0'')
           else if reg 0x034 < of_nat NUM then Inl (Panic ''virtio disk max queue too short'')
           else
             let d = reg_write 0x038 (of_nat NUM) d;
                 d = d\<lparr>vdesc := (\<lambda>_. zero_desc), vavail := (\<lambda>_. 0),
                       vused_id := 0, velems := (\<lambda>_. \<lparr>ue_id = 0, ue_len = 0\<rparr>)\<rparr>;
                 d = reg_write 0x040 (drop_bit 12 pages) d
             in Inr (d\<lparr>vfree := (\<lambda>i. i < NUM)\<rparr>))"

section \<open>Descriptors\<close>

definition alloc_desc :: "dsk \<Rightarrow> nat option \<times> dsk" where
  "alloc_desc d =
     (case find (vfree d) [0..<NUM] of
        Some i \<Rightarrow> (Some i, d\<lparr>vfree := (vfree d)(i := False)\<rparr>)
      | None \<Rightarrow> (None, d))"

definition wake :: "dchan \<Rightarrow> dsk \<Rightarrow> dsk" where
  "wake ch d = d\<lparr>wakes := wakes d @ [ch]\<rparr>"

definition free_desc :: "nat \<Rightarrow> dsk \<Rightarrow> dsk res" where
  "free_desc i d =
     (if i \<ge> NUM then Inl (Panic ''virtio_disk_intr 1'')
      else if vfree d i then Inl (Panic ''virtio_disk_intr 2'')
      else Inr (wake OnFree (d\<lparr>vdesc := (vdesc d)(i := (vdesc d i)\<lparr>vd_addr := DNull\<rparr>),
                               vfree := (vfree d)(i := True)\<rparr>)))"

text \<open>Every round of \<^verbatim>\<open>free_chain\<close> frees a descriptor that was not free, so that a chain that runs in a circle ends in
  the second panic of \<^verbatim>\<open>free_desc\<close>.\<close>

lemma free_desc_fewer:
  assumes "free_desc i d = Inr d'"
  shows "card {k. k < NUM \<and> \<not> vfree d' k} < card {k. k < NUM \<and> \<not> vfree d k}"
proof -
  have h: "i < NUM" "\<not> vfree d i" "vfree d' = (vfree d)(i := True)"
    using assms by (auto simp: free_desc_def wake_def split: if_splits)
  have "{k. k < NUM \<and> \<not> vfree d' k} \<subset> {k. k < NUM \<and> \<not> vfree d k}" using h by auto
  then show ?thesis by (intro psubset_card_mono) auto
qed

function free_chain :: "nat \<Rightarrow> dsk \<Rightarrow> dsk res" where
  "free_chain i d =
     rbind (free_desc i d) (\<lambda>d.
       if and (vd_flags (vdesc d i)) VRING_DESC_F_NEXT \<noteq> 0 then free_chain (unat (vd_next (vdesc d i))) d
       else Inr d)"
  by pat_completeness auto
termination
  by (relation "measure (\<lambda>(i, d). card {k. k < NUM \<and> \<not> vfree d k})") (auto intro: free_desc_fewer)

declare free_chain.simps [simp del]

fun free_descs :: "nat list \<Rightarrow> dsk \<Rightarrow> dsk res" where
  "free_descs [] d = Inr d"
| "free_descs (i # is) d = rbind (free_desc i d) (free_descs is)"

fun alloc3_loop :: "nat \<Rightarrow> nat list \<Rightarrow> dsk \<Rightarrow> (nat list option \<times> dsk) res" where
  "alloc3_loop 0 idx d = Inr (Some idx, d)"
| "alloc3_loop (Suc n) idx d =
     (case alloc_desc d of
        (None, d) \<Rightarrow> rbind (free_descs idx d) (\<lambda>d. Inr (None, d))
      | (Some i, d) \<Rightarrow> alloc3_loop n (idx @ [i]) d)"

definition alloc3_desc :: "dsk \<Rightarrow> (nat list option \<times> dsk) res" where
  "alloc3_desc d = alloc3_loop 3 [] d"

section \<open>Requests\<close>

definition sector_of :: "u32 \<Rightarrow> u64" where
  "sector_of blockno = scast (blockno * 2)"

definition request_hdr :: "u32 \<Rightarrow> bool \<Rightarrow> outhdr" where
  "request_hdr blockno wr =
     \<lparr>oh_type = (if wr then VIRTIO_BLK_T_OUT else VIRTIO_BLK_T_IN), oh_reserved = 0, oh_sector = sector_of blockno\<rparr>"

text \<open>From the three descriptors to the notification of the device.\<close>

definition disk_submit :: "nat \<Rightarrow> bool \<Rightarrow> nat \<Rightarrow> nat \<Rightarrow> nat \<Rightarrow> dsk \<Rightarrow> dsk" where
  "disk_submit b wr i0 i1 i2 d =
     (let d = d\<lparr>vdesc := (vdesc d)(i0 := \<lparr>vd_addr = DHdr (request_hdr (b_blockno (dbufs d ! b)) wr), vd_len = 16,
                 vd_flags = VRING_DESC_F_NEXT, vd_next = of_nat i1\<rparr>)\<rparr>;
          d = d\<lparr>vdesc := (vdesc d)(i1 := \<lparr>vd_addr = DData b, vd_len = 1024,
                 vd_flags = or (if wr then 0 else VRING_DESC_F_WRITE) VRING_DESC_F_NEXT, vd_next = of_nat i2\<rparr>)\<rparr>;
          d = d\<lparr>vinfos := (vinfos d)(i0 := (vinfos d i0)\<lparr>in_status := 0\<rparr>)\<rparr>;
          d = d\<lparr>vdesc := (vdesc d)(i2 := \<lparr>vd_addr = DStatus i0, vd_len = 1, vd_flags = VRING_DESC_F_WRITE, vd_next = 0\<rparr>)\<rparr>;
          d = d\<lparr>bdisk := (bdisk d)(b := 1)\<rparr>;
          d = d\<lparr>vinfos := (vinfos d)(i0 := (vinfos d i0)\<lparr>in_b := Some b\<rparr>)\<rparr>;
          d = d\<lparr>vavail := (vavail d)(2 + unat (vavail d 1) mod NUM := of_nat i0)\<rparr>;
          d = d\<lparr>vavail := (vavail d)(1 := vavail d 1 + 1)\<rparr>
      in reg_write 0x050 0 d)"

text \<open>The wait loop: the caller goes back to sleep, or the request is finished and the call returns.\<close>

datatype rw = Asleep dchan | Done

definition disk_wait :: "nat \<Rightarrow> nat \<Rightarrow> dsk \<Rightarrow> (rw \<times> dsk) res" where
  "disk_wait b i0 d =
     (if bdisk d b = 1 then Inr (Asleep (OnBuf b), d)
      else rbind (free_chain i0 (d\<lparr>vinfos := (vinfos d)(i0 := (vinfos d i0)\<lparr>in_b := None\<rparr>)\<rparr>)) (\<lambda>d. Inr (Done, d)))"

text \<open>A round of the allocation loop, up to the next sleep. The second component is the head of the chain.\<close>

definition disk_round :: "nat \<Rightarrow> bool \<Rightarrow> dsk \<Rightarrow> (rw \<times> nat \<times> dsk) res" where
  "disk_round b wr d =
     rbind (alloc3_desc d) (\<lambda>(idx, d).
       case idx of
         Some [i0, i1, i2] \<Rightarrow> rbind (disk_wait b i0 (disk_submit b wr i0 i1 i2 d)) (\<lambda>(r, d). Inr (r, i0, d))
       | _ \<Rightarrow> Inr (Asleep OnFree, 0, d))"

section \<open>Completion\<close>

function virtio_disk_intr :: "dsk \<Rightarrow> dsk res" where
  "virtio_disk_intr d =
     (if unat (used_idx d) mod NUM = unat (vused_id d) mod NUM then Inr d
      else
        let id = unat (ue_id (velems d (unat (used_idx d)))) in
        if id \<ge> NUM then Inl (Fault ''disk.info'')
        else if in_status (vinfos d id) \<noteq> 0 then Inl (Panic ''virtio_disk_intr status'')
        else case in_b (vinfos d id) of
          None \<Rightarrow> Inl (Fault ''null'')
        | Some b \<Rightarrow> virtio_disk_intr
            ((wake (OnBuf b) (d\<lparr>bdisk := (bdisk d)(b := 0)\<rparr>))\<lparr>used_idx := (used_idx d + 1) mod of_nat NUM\<rparr>))"
  by pat_completeness auto

lemma unat_mod_NUM: "unat (w + 1 :: u16) mod NUM = (unat w + 1) mod NUM"
proof -
  have "unat (w + 1) = (unat w + 1) mod 2 ^ 16" by (simp add: unat_word_ariths)
  then show ?thesis by (simp add: mod_mod_cancel)
qed

lemma unat_idx_step: "unat ((w + 1) mod 8 :: u16) = (unat w + 1) mod NUM"
  using unat_mod_NUM [of w] by (simp add: unat_mod)

lemma ring_distance: "a mod (8::nat) \<noteq> c mod 8 \<Longrightarrow> (c + 8 - Suc a mod 8) mod 8 < (c + 8 - a mod 8) mod 8"
proof -
  assume ne: "a mod 8 \<noteq> c mod 8"
  have tab: "\<forall>x\<in>set [0..<8]. \<forall>y\<in>set [0..<8]. x \<noteq> y \<longrightarrow> (y + 8 - Suc x mod 8) mod 8 < (y + 8 - x) mod (8::nat)" by code_simp
  have m: "(c + 8 - k) mod 8 = (c mod 8 + 8 - k) mod 8" if "k < 8" for k
  proof -
    have "c + 8 - k = c + (8 - k)" "c mod 8 + 8 - k = c mod 8 + (8 - k)" using that by simp_all
    then show ?thesis by (simp add: mod_add_left_eq)
  qed
  have "Suc a mod 8 = Suc (a mod 8) mod 8" by (simp add: mod_Suc_eq)
  then show ?thesis using bspec [OF bspec [OF tab, of "a mod 8"], of "c mod 8"] ne m [of "Suc a mod 8"] m [of "a mod 8"] by simp
qed

termination virtio_disk_intr
proof (relation "measure (\<lambda>d. (unat (vused_id d) + 8 - unat (used_idx d) mod 8) mod 8)", simp)
  fix d :: dsk and id b
  assume "unat (used_idx d) mod NUM \<noteq> unat (vused_id d) mod NUM"
  then show "((wake (OnBuf b) (d\<lparr>bdisk := (bdisk d)(b := 0)\<rparr>))\<lparr>used_idx := (used_idx d + 1) mod of_nat NUM\<rparr>, d)
      \<in> measure (\<lambda>d. (unat (vused_id d) + 8 - unat (used_idx d) mod 8) mod 8)"
    using ring_distance [of "unat (used_idx d)" "unat (vused_id d)"] by (simp add: unat_idx_step wake_def)
qed

declare virtio_disk_intr.simps [simp del]

section \<open>Callers, interrupt handler and device\<close>

text \<open>What a caller is doing with a buffer. The sleep lock of the buffer keeps every other process out of it
  until the call returns. The head of its chain is a local variable of the call.\<close>

datatype phase = Idle | WaitFree bool | WaitBuf bool nat

record dsys =
  drv :: dsk
  dev_avail :: u16
  dev_taken :: "nat list"
  phase :: "nat \<Rightarrow> phase"
  served :: "nat set"

fun phase_of :: "bool \<Rightarrow> nat \<Rightarrow> dchan \<Rightarrow> phase" where
  "phase_of wr i0 OnFree = WaitFree wr"
| "phase_of wr i0 (OnBuf b) = WaitBuf wr i0"

text \<open>The device: it follows a chain to the header, the data and the status byte, moves the data, and reports.\<close>

definition dev_chain :: "nat \<Rightarrow> dsk \<Rightarrow> (outhdr \<times> nat \<times> nat) option" where
  "dev_chain q d =
     (let d0 = vdesc d q; d1 = vdesc d (unat (vd_next d0)); d2 = vdesc d (unat (vd_next d1)) in
      case (vd_addr d0, vd_addr d1, vd_addr d2) of
        (DHdr h, DData b, DStatus i) \<Rightarrow> Some (h, b, i)
      | _ \<Rightarrow> None)"

definition dev_io :: "outhdr \<Rightarrow> nat \<Rightarrow> dsk \<Rightarrow> dsk" where
  "dev_io h b d =
     (let s = oh_sector h in
      if oh_type h = VIRTIO_BLK_T_OUT
      then d\<lparr>sectors := (sectors d)(s := take 512 (b_data (dbufs d ! b)), s + 1 := drop 512 (b_data (dbufs d ! b)))\<rparr>
      else d\<lparr>dbufs := (dbufs d)[b := (dbufs d ! b)\<lparr>b_data := sectors d s @ sectors d (s + 1)\<rparr>]\<rparr>)"

definition dev_report :: "nat \<Rightarrow> nat \<Rightarrow> byte \<Rightarrow> u32 \<Rightarrow> dsk \<Rightarrow> dsk" where
  "dev_report q i st len d =
     d\<lparr>vinfos := (vinfos d)(i := (vinfos d i)\<lparr>in_status := st\<rparr>),
       velems := (velems d)(unat (vused_id d) mod NUM := \<lparr>ue_id = of_nat q, ue_len = len\<rparr>),
       vused_id := vused_id d + 1\<rparr>"

datatype ev = Tau | Start nat bool | Transfer nat bool | Return nat bool | Client nat

definition wf_buffer :: "buffer \<Rightarrow> bool" where
  "wf_buffer x \<longleftrightarrow> b_blockno x < 2 ^ 30"

inductive dstep :: "dsys \<Rightarrow> ev \<Rightarrow> dsys \<Rightarrow> bool" where
  d_start: "\<lbrakk>phase s b = Idle; b < NUMBUF; disk_round b wr (drv s) = Inr (Asleep ch, i0, d)\<rbrakk>
     \<Longrightarrow> dstep s (Start b wr) (s\<lparr>drv := d, phase := (phase s)(b := phase_of wr i0 ch), served := served s - {b}\<rparr>)"
| d_retry: "\<lbrakk>phase s b = WaitFree wr; disk_round b wr (drv s) = Inr (Asleep ch, i0, d)\<rbrakk>
     \<Longrightarrow> dstep s Tau (s\<lparr>drv := d, phase := (phase s)(b := phase_of wr i0 ch)\<rparr>)"
| d_again: "\<lbrakk>phase s b = WaitBuf wr i0; disk_wait b i0 (drv s) = Inr (Asleep ch, d)\<rbrakk> \<Longrightarrow> dstep s Tau (s\<lparr>drv := d\<rparr>)"
| d_return: "\<lbrakk>phase s b = WaitBuf wr i0; disk_wait b i0 (drv s) = Inr (Done, d)\<rbrakk>
     \<Longrightarrow> dstep s (Return b wr) (s\<lparr>drv := d, phase := (phase s)(b := Idle)\<rparr>)"
| d_intr: "virtio_disk_intr (drv s) = Inr d \<Longrightarrow> dstep s Tau (s\<lparr>drv := d\<rparr>)"
| d_take: "dev_avail s \<noteq> vavail (drv s) 1
     \<Longrightarrow> dstep s Tau (s\<lparr>dev_taken := dev_taken s @ [unat (vavail (drv s) (2 + unat (dev_avail s) mod NUM))], dev_avail := dev_avail s + 1\<rparr>)"
| d_serve: "\<lbrakk>q \<in> set (dev_taken s); dev_chain q (drv s) = Some (h, b, i)\<rbrakk>
     \<Longrightarrow> dstep s (Transfer b (oh_type h = VIRTIO_BLK_T_OUT))
           (s\<lparr>drv := dev_report q i 0 len (dev_io h b (drv s)), dev_taken := remove1 q (dev_taken s), served := insert b (served s)\<rparr>)"
| d_error: "\<lbrakk>q \<in> set (dev_taken s); dev_chain q (drv s) = Some (h, b, i); st \<noteq> 0\<rbrakk>
     \<Longrightarrow> dstep s Tau (s\<lparr>drv := dev_report q i st len (drv s), dev_taken := remove1 q (dev_taken s)\<rparr>)"
| d_client: "\<lbrakk>phase s b = Idle; b < NUMBUF; wf_buffer x\<rbrakk>
     \<Longrightarrow> dstep s (Client b) (s\<lparr>drv := (drv s)\<lparr>dbufs := (dbufs (drv s))[b := x]\<rparr>\<rparr>)"

text \<open>The driver as \<^verbatim>\<open>disk_init\<close> leaves it, with all buffers idle.\<close>

definition dboot :: "dsys \<Rightarrow> bool" where
  "dboot s \<longleftrightarrow> (\<exists>reg pages d0. used_idx d0 = 0 \<and> disk_init reg pages d0 = Inr (drv s))
     \<and> length (dbufs (drv s)) = Suc NUMBUF \<and> (\<forall>x\<in>set (dbufs (drv s)). wf_buffer x)
     \<and> dev_avail s = 0 \<and> dev_taken s = [] \<and> (\<forall>b. phase s b = Idle) \<and> served s = {}"

inductive dtrace :: "dsys \<Rightarrow> ev list \<Rightarrow> dsys \<Rightarrow> bool" where
  dt_nil: "dboot s \<Longrightarrow> dtrace s [] s"
| dt_step: "dtrace s0 es s \<Longrightarrow> dstep s e s' \<Longrightarrow> dtrace s0 (es @ [e]) s'"

section \<open>The descriptors of the requests\<close>

definition next1 :: "dsk \<Rightarrow> nat \<Rightarrow> nat" where "next1 d i = unat (vd_next (vdesc d i))"
definition next2 :: "dsk \<Rightarrow> nat \<Rightarrow> nat" where "next2 d i = next1 d (next1 d i)"
definition members :: "dsk \<Rightarrow> nat \<Rightarrow> nat set" where "members d i = {i, next1 d i, next2 d i}"

text \<open>A formatted chain, as the device and \<^verbatim>\<open>free_chain\<close> rely on it.\<close>

definition chain_links :: "dsk \<Rightarrow> nat \<Rightarrow> bool" where
  "chain_links d i \<longleftrightarrow> distinct [i, next1 d i, next2 d i] \<and> members d i \<subseteq> {k. k < NUM \<and> \<not> vfree d k}
     \<and> and (vd_flags (vdesc d i)) VRING_DESC_F_NEXT \<noteq> 0 \<and> and (vd_flags (vdesc d (next1 d i))) VRING_DESC_F_NEXT \<noteq> 0
     \<and> and (vd_flags (vdesc d (next2 d i))) VRING_DESC_F_NEXT = 0"

definition chain_ok :: "dsk \<Rightarrow> nat \<Rightarrow> bool \<Rightarrow> nat \<Rightarrow> bool" where
  "chain_ok d b wr i \<longleftrightarrow> chain_links d i
     \<and> vd_addr (vdesc d i) = DHdr (request_hdr (b_blockno (dbufs d ! b)) wr)
     \<and> vd_addr (vdesc d (next1 d i)) = DData b \<and> vd_addr (vdesc d (next2 d i)) = DStatus i
     \<and> in_b (vinfos d i) = Some b"

lemma chain_ok_cong:
  assumes "chain_ok d b wr i" "\<And>k. k \<in> members d i \<Longrightarrow> vdesc d' k = vdesc d k \<and> vfree d' k = vfree d k"
    "in_b (vinfos d' i) = in_b (vinfos d i)" "b_blockno (dbufs d' ! b) = b_blockno (dbufs d ! b)"
  shows "chain_ok d' b wr i" "members d' i = members d i"
proof -
  have m: "vdesc d' i = vdesc d i" "vdesc d' (next1 d i) = vdesc d (next1 d i)" "vdesc d' (next2 d i) = vdesc d (next2 d i)"
    using assms(2) by (auto simp: members_def)
  then have n: "next1 d' i = next1 d i" "next2 d' i = next2 d i" by (simp_all add: next1_def next2_def)
  show e: "members d' i = members d i" by (simp add: members_def n)
  have "members d' i \<subseteq> {k. k < NUM \<and> \<not> vfree d' k}"
    using assms(1,2) e by (auto simp: chain_ok_def chain_links_def)
  then show "chain_ok d' b wr i" using assms(1,3,4) m n by (simp add: chain_ok_def chain_links_def)
qed

lemma dev_chain_ok: "chain_ok d b wr i \<Longrightarrow> dev_chain i d = Some (request_hdr (b_blockno (dbufs d ! b)) wr, b, i)"
  by (simp add: chain_ok_def dev_chain_def next1_def next2_def Let_def)

lemma alloc_desc_Some:
  assumes "alloc_desc d = (Some i, d')"
  shows "i < NUM" "vfree d i" "d' = d\<lparr>vfree := (vfree d)(i := False)\<rparr>"
proof -
  have f: "find (vfree d) [0..<NUM] = Some i" "d' = d\<lparr>vfree := (vfree d)(i := False)\<rparr>"
    using assms by (auto simp: alloc_desc_def split: option.splits)
  then show "i < NUM" "vfree d i" "d' = d\<lparr>vfree := (vfree d)(i := False)\<rparr>"
    using find_Some_iff [of "vfree d" "[0..<NUM]" i] by (auto simp del: upt_Suc)
qed

lemma alloc_desc_None: "alloc_desc d = (None, d') \<Longrightarrow> d' = d \<and> (\<forall>k < NUM. \<not> vfree d k)"
  using find_None_iff [of "vfree d" "[0..<NUM]"] by (auto simp: alloc_desc_def split: option.splits simp del: upt_Suc)

text \<open>\<^verbatim>\<open>alloc3_desc\<close> takes three descriptors, or fewer than three are free and it gives back those it took. Giving back
  clears the address of a free descriptor and wakes the waiting callers.\<close>

lemma alloc3_desc_cases:
  obtains (ok) i0 i1 i2 where
    "alloc3_desc d = Inr (Some [i0, i1, i2], d\<lparr>vfree := (vfree d)(i0 := False, i1 := False, i2 := False)\<rparr>)"
    "distinct [i0, i1, i2]" "\<And>k. k \<in> {i0, i1, i2} \<Longrightarrow> k < NUM \<and> vfree d k"
  | (full) f w where "alloc3_desc d = Inr (None, d\<lparr>vdesc := f, wakes := w\<rparr>)"
    "\<And>k. \<not> vfree d k \<Longrightarrow> f k = vdesc d k" "card {k. k < NUM \<and> vfree d k} < 3"
proof -
  have a3: "alloc3_desc d = alloc3_loop (Suc (Suc (Suc 0))) [] d" by (simp add: alloc3_desc_def eval_nat_numeral)
  obtain r0 d0 where a0: "alloc_desc d = (r0, d0)" by (cases "alloc_desc d")
  show thesis
  proof (cases r0)
    case None
    then have e: "d0 = d" "{k. k < NUM \<and> vfree d k} = {}" using alloc_desc_None a0 by auto
    have "card {k. k < NUM \<and> vfree d k} < 3" unfolding e(2) by simp
    then show thesis using full [of "wakes d" "vdesc d"] a3 a0 None e(1) by simp
  next
    case (Some i0)
    note s0 = alloc_desc_Some [OF a0 [unfolded Some]]
    obtain r1 d1 where a1: "alloc_desc d0 = (r1, d1)" by (cases "alloc_desc d0")
    show thesis
    proof (cases r1)
      case None
      then have "d1 = d0" "\<forall>k < NUM. \<not> vfree d0 k" using alloc_desc_None a1 by auto
      then have "{k. k < NUM \<and> vfree d k} \<subseteq> {i0}" using s0 by (auto split: if_splits)
      then have "card {k. k < NUM \<and> vfree d k} \<le> card {i0}" by (rule card_mono [rotated]) simp
      moreover have "(vfree d)(i0 := True) = vfree d" using s0(2) by (simp add: fun_eq_iff)
      ultimately show thesis using a3 a0 a1 Some None \<open>d1 = d0\<close> s0
        by (intro full [of "wakes d @ [OnFree]" "(vdesc d)(i0 := (vdesc d i0)\<lparr>vd_addr := DNull\<rparr>)"])
          (auto simp: free_desc_def wake_def)
    next
      case [simp]: (Some i1)
      note s1 = alloc_desc_Some [OF a1 [unfolded Some]]
      have ne: "i1 \<noteq> i0" "vfree d i1" using s1(2) s0(3) by (auto split: if_splits)
      obtain r2 d2 where a2: "alloc_desc d1 = (r2, d2)" by (cases "alloc_desc d1")
      show thesis
      proof (cases r2)
        case None
        then have "d2 = d1" "\<forall>k < NUM. \<not> vfree d1 k" using alloc_desc_None a2 by auto
        then have "{k. k < NUM \<and> vfree d k} \<subseteq> {i0, i1}" using s0 s1 by (auto split: if_splits)
        then have "card {k. k < NUM \<and> vfree d k} \<le> card {i0, i1}" by (rule card_mono [rotated]) simp
        then have c: "card {k. k < NUM \<and> vfree d k} < 3" using ne(1) by simp
        have e: "(vfree d)(i0 := False, i1 := False, i0 := True, i1 := True) = vfree d" using s0(2) ne(2) by (simp add: fun_eq_iff)
        show thesis using a3 a0 a1 a2 \<open>r0 = Some i0\<close> None \<open>d2 = d1\<close> s0 s1 ne c e
          by (intro full [of "wakes d @ [OnFree, OnFree]" "(vdesc d)(i0 := (vdesc d i0)\<lparr>vd_addr := DNull\<rparr>, i1 := (vdesc d i1)\<lparr>vd_addr := DNull\<rparr>)"])
            (auto simp: free_desc_def wake_def)
      next
        case (Some i2)
        note s2 = alloc_desc_Some [OF a2 [unfolded Some]]
        have "i2 \<noteq> i0" "i2 \<noteq> i1" "vfree d i2" using s2(2) s1(3) s0(3) by (auto split: if_splits)
        then show thesis using ok [of i0 i1 i2] a3 a0 a1 a2 \<open>r0 = Some i0\<close> Some s0 s1 s2 ne by auto
      qed
    qed
  qed
qed

lemma free_chain_ok:
  assumes "chain_links d i"
  obtains f w where "free_chain i d = Inr (d\<lparr>vdesc := f, vfree := \<lambda>k. vfree d k \<or> k \<in> members d i, wakes := w\<rparr>)"
    "\<And>k. k \<notin> members d i \<Longrightarrow> f k = vdesc d k"
proof -
  let ?j = "next1 d i" and ?k = "next2 d i"
  have c: "distinct [i, ?j, ?k]" "i < NUM" "?j < NUM" "?k < NUM" "\<not> vfree d i" "\<not> vfree d ?j" "\<not> vfree d ?k"
    "and (vd_flags (vdesc d i)) VRING_DESC_F_NEXT \<noteq> 0" "and (vd_flags (vdesc d ?j)) VRING_DESC_F_NEXT \<noteq> 0"
    "and (vd_flags (vdesc d ?k)) VRING_DESC_F_NEXT = 0"
    using assms by (auto simp: chain_links_def members_def)
  have n: "unat (vd_next (vdesc d i)) = ?j" "unat (vd_next (vdesc d ?j)) = ?k" by (simp_all add: next1_def next2_def)
  let ?f = "(vdesc d)(i := (vdesc d i)\<lparr>vd_addr := DNull\<rparr>, ?j := (vdesc d ?j)\<lparr>vd_addr := DNull\<rparr>, ?k := (vdesc d ?k)\<lparr>vd_addr := DNull\<rparr>)"
  have v: "(vfree d)(i := True, ?j := True, ?k := True) = (\<lambda>k. vfree d k \<or> k \<in> members d i)" by (auto simp: members_def fun_eq_iff)
  have "free_chain i d = Inr (d\<lparr>vdesc := ?f, vfree := \<lambda>k. vfree d k \<or> k \<in> members d i, wakes := wakes d @ [OnFree, OnFree, OnFree]\<rparr>)"
    using c n v by (simp add: free_chain.simps [of i] free_chain.simps [of "?j"] free_chain.simps [of "?k"] free_desc_def wake_def)
  then show thesis by (rule that) (auto simp: members_def)
qed

section \<open>The invariant\<close>

text \<open>Requests: the chain of each is formatted, the chains of different requests are disjoint, and every descriptor
  that is not free belongs to a request.\<close>

definition reqs_ok :: "dsk \<Rightarrow> (nat \<Rightarrow> phase) \<Rightarrow> bool" where
  "reqs_ok d ph \<longleftrightarrow>
     (\<forall>b wr i. ph b = WaitBuf wr i \<longrightarrow> chain_ok d b wr i \<and> bdisk d b \<in> {0, 1})
   \<and> (\<forall>b. ph b \<noteq> Idle \<longrightarrow> b < NUMBUF)
   \<and> (\<forall>b wr i b' wr' i'. ph b = WaitBuf wr i \<longrightarrow> ph b' = WaitBuf wr' i' \<longrightarrow> b \<noteq> b' \<longrightarrow> members d i \<inter> members d i' = {})
   \<and> (\<forall>k < NUM. \<not> vfree d k \<longrightarrow> (\<exists>b wr i. ph b = WaitBuf wr i \<and> k \<in> members d i))
   \<and> length (dbufs d) = Suc NUMBUF \<and> (\<forall>x\<in>set (dbufs d). wf_buffer x)"

text \<open>Rings: the heads of the requests in flight are, without repetition, those in the available ring, those the device
  has taken and those in the used ring.\<close>

definition heads :: "dsk \<Rightarrow> (nat \<Rightarrow> phase) \<Rightarrow> nat set" where
  "heads d ph = {i. \<exists>b wr. ph b = WaitBuf wr i \<and> bdisk d b = 1}"

definition rings_ok :: "nat list \<Rightarrow> nat list \<Rightarrow> nat list \<Rightarrow> dsk \<Rightarrow> (nat \<Rightarrow> phase) \<Rightarrow> u16 \<Rightarrow> bool" where
  "rings_ok A T U d ph da \<longleftrightarrow>
     distinct (A @ T @ U) \<and> set (A @ T @ U) = heads d ph
   \<and> vavail d 1 = da + of_nat (length A)
   \<and> (\<forall>j < length A. vavail d (2 + (unat da + j) mod NUM) = of_nat (A ! j))
   \<and> unat (used_idx d) < NUM \<and> unat (vused_id d) mod NUM = (unat (used_idx d) + length U) mod NUM
   \<and> (\<forall>j < length U. ue_id (velems d ((unat (used_idx d) + j) mod NUM)) = of_nat (U ! j))"

text \<open>Service: the data has moved exactly for the requests reported without an error.\<close>

definition served_ok :: "nat list \<Rightarrow> nat list \<Rightarrow> nat list \<Rightarrow> dsk \<Rightarrow> (nat \<Rightarrow> phase) \<Rightarrow> nat set \<Rightarrow> bool" where
  "served_ok A T U d ph sv \<longleftrightarrow>
     (\<forall>b wr i. ph b = WaitBuf wr i \<longrightarrow>
        (i \<in> set (A @ T) \<longrightarrow> b \<notin> sv) \<and> (i \<in> set U \<longrightarrow> (in_status (vinfos d i) = 0 \<longleftrightarrow> b \<in> sv)) \<and> (bdisk d b = 0 \<longrightarrow> b \<in> sv))
   \<and> (\<forall>b wr. ph b = WaitFree wr \<longrightarrow> b \<notin> sv)"

definition dinv :: "nat list \<Rightarrow> nat list \<Rightarrow> dsys \<Rightarrow> bool" where
  "dinv A U s \<longleftrightarrow> reqs_ok (drv s) (phase s) \<and> rings_ok A (dev_taken s) U (drv s) (phase s) (dev_avail s)
     \<and> served_ok A (dev_taken s) U (drv s) (phase s) (served s)"

lemma reqs_okD:
  assumes "reqs_ok d ph" "ph b = WaitBuf wr i"
  shows "chain_ok d b wr i" "bdisk d b = 0 \<or> bdisk d b = 1" "b < NUMBUF" "members d i \<subseteq> {k. k < NUM \<and> \<not> vfree d k}" "i \<in> members d i"
proof -
  show c: "chain_ok d b wr i" and "bdisk d b = 0 \<or> bdisk d b = 1" using assms unfolding reqs_ok_def by blast+
  have "ph b \<noteq> Idle" using assms(2) by simp
  then show "b < NUMBUF" using assms(1) unfolding reqs_ok_def by blast
  show "members d i \<subseteq> {k. k < NUM \<and> \<not> vfree d k}" "i \<in> members d i" using c by (auto simp: chain_ok_def chain_links_def members_def)
qed

lemma reqs_disjoint:
  assumes "reqs_ok d ph" "ph b = WaitBuf wr i" "ph b' = WaitBuf wr' i'" "k \<in> members d i" "k \<in> members d i'"
  shows "b = b'" "i = i'"
proof -
  show b: "b = b'" using assms unfolding reqs_ok_def by blast
  then show "i = i'" using assms(2,3) by simp
qed

lemma reqs_cover: "reqs_ok d ph \<Longrightarrow> k < NUM \<Longrightarrow> \<not> vfree d k \<Longrightarrow> \<exists>b wr i. ph b = WaitBuf wr i \<and> k \<in> members d i"
  unfolding reqs_ok_def by blast

text \<open>The invariant of the requests looks only at the descriptors that are not free.\<close>

lemma reqs_frame:
  assumes "reqs_ok d ph" "vfree d' = vfree d" "\<And>k. \<not> vfree d k \<Longrightarrow> vdesc d' k = vdesc d k"
    "\<And>i. in_b (vinfos d' i) = in_b (vinfos d i)"
    "\<And>b wr i. ph b = WaitBuf wr i \<Longrightarrow> b_blockno (dbufs d' ! b) = b_blockno (dbufs d ! b) \<and> bdisk d' b \<in> {0, 1}"
    "length (dbufs d') = length (dbufs d)" "\<forall>x\<in>set (dbufs d'). wf_buffer x"
  shows "reqs_ok d' ph" "\<And>b wr i. ph b = WaitBuf wr i \<Longrightarrow> members d' i = members d i"
proof -
  have c: "chain_ok d' b wr i" "members d' i = members d i" if p: "ph b = WaitBuf wr i" for b wr i
    using chain_ok_cong [OF reqs_okD(1) [OF assms(1) p], of d'] reqs_okD(4) [OF assms(1) p] assms(2-5) p by auto
  then show "\<And>b wr i. ph b = WaitBuf wr i \<Longrightarrow> members d' i = members d i" by blast
  have "\<exists>b wr i. ph b = WaitBuf wr i \<and> k \<in> members d' i" if k: "k < NUM" "\<not> vfree d' k" for k
  proof -
    obtain b wr i where "ph b = WaitBuf wr i" "k \<in> members d i"
      using reqs_cover [OF assms(1) k(1)] k(2) assms(2) by auto
    then show ?thesis using c(2) by metis
  qed
  moreover have "members d' i \<inter> members d' i' = {}" if "ph b = WaitBuf wr i" "ph b' = WaitBuf wr' i'" "b \<noteq> b'" for b wr i b' wr' i'
    using reqs_disjoint(1) [OF assms(1) that(1,2)] that(3) c(2) [OF that(1)] c(2) [OF that(2)] by blast
  moreover have "\<forall>b. ph b \<noteq> Idle \<longrightarrow> b < NUMBUF" "length (dbufs d) = Suc NUMBUF" using assms(1) unfolding reqs_ok_def by blast+
  ultimately show "reqs_ok d' ph" using c(1) assms(5,6,7) unfolding reqs_ok_def by simp
qed

text \<open>Never are more than seven heads in the rings.\<close>

lemma heads_few:
  assumes "reqs_ok d ph" "rings_ok A T U d ph da"
  shows "length (A @ T @ U) < NUM" "\<And>i. i \<in> set (A @ T @ U) \<Longrightarrow> i < NUM"
proof -
  have h: "distinct (A @ T @ U)" "set (A @ T @ U) = heads d ph" using assms(2) by (simp_all add: rings_ok_def)
  have own: "\<exists>b wr. ph b = WaitBuf wr i" if "i \<in> set (A @ T @ U)" for i using that unfolding h(2) heads_def by blast
  show lt: "\<And>i. i \<in> set (A @ T @ U) \<Longrightarrow> i < NUM"
    using own reqs_okD(4,5) [OF assms(1)] by blast
  show "length (A @ T @ U) < NUM"
  proof (cases "set (A @ T @ U) = {}")
    case False
    then obtain i where i: "i \<in> set (A @ T @ U)" unfolding ex_in_conv [symmetric] by (elim exE)
    then obtain b wr where p: "ph b = WaitBuf wr i" using own by blast
    let ?j = "next1 d i"
    have j: "?j \<in> members d i" "?j \<noteq> i" "?j < NUM"
      using reqs_okD(1) [OF assms(1) p] by (auto simp: chain_ok_def chain_links_def members_def)
    have "?j \<notin> set (A @ T @ U)"
    proof
      assume "?j \<in> set (A @ T @ U)"
      then obtain b' wr' where p': "ph b' = WaitBuf wr' ?j" using own by blast
      then show False using reqs_disjoint(2) [OF assms(1) p p' j(1) reqs_okD(5) [OF assms(1) p']] j(2) by simp
    qed
    then have "set (A @ T @ U) \<subset> {0..<NUM}" using lt j(3) by (auto simp: psubset_eq)
    then have "card (set (A @ T @ U)) < card {0..<NUM}" by (intro psubset_card_mono) auto
    then show ?thesis using distinct_card [OF h(1)] by simp
  qed simp
qed

lemma ring_slots_differ: "j < k \<Longrightarrow> k < 8 \<Longrightarrow> (a + j) mod 8 \<noteq> (a + k) mod (8::nat)"
proof
  assume h: "j < k" "k < 8" "(a + j) mod 8 = (a + k) mod 8"
  then have "8 dvd (a + k) - (a + j)" by (metis mod_eq_dvd_iff_nat add_le_mono1 add.commute less_imp_le)
  then have "8 dvd k - j" by simp
  then show False using h(1,2) by (auto dest!: dvd_imp_le)
qed

section \<open>The steps keep the invariant\<close>

text \<open>A new request.\<close>

lemma disk_submit_fields:
  fixes d :: dsk and b :: nat and wr :: bool
  assumes "distinct [i0, i1, i2]"
  defines "d' \<equiv> disk_submit b wr i0 i1 i2 d"
  shows "vdesc d' i0 = \<lparr>vd_addr = DHdr (request_hdr (b_blockno (dbufs d ! b)) wr), vd_len = 16, vd_flags = VRING_DESC_F_NEXT, vd_next = of_nat i1\<rparr>"
    "vdesc d' i1 = \<lparr>vd_addr = DData b, vd_len = 1024, vd_flags = or (if wr then 0 else VRING_DESC_F_WRITE) VRING_DESC_F_NEXT, vd_next = of_nat i2\<rparr>"
    "vdesc d' i2 = \<lparr>vd_addr = DStatus i0, vd_len = 1, vd_flags = VRING_DESC_F_WRITE, vd_next = 0\<rparr>"
    "k \<notin> {i0, i1, i2} \<Longrightarrow> vdesc d' k = vdesc d k"
    "vfree d' = vfree d" "vinfos d' = (vinfos d)(i0 := \<lparr>in_b = Some b, in_status = 0\<rparr>)" "bdisk d' = (bdisk d)(b := 1)"
    "dbufs d' = dbufs d" "sectors d' = sectors d" "used_idx d' = used_idx d" "vused_id d' = vused_id d" "velems d' = velems d"
    "vavail d' = (vavail d)(2 + unat (vavail d 1) mod NUM := of_nat i0, 1 := vavail d 1 + 1)"
  using assms(1) unfolding d'_def disk_submit_def reg_write_def by (auto simp: Let_def fun_eq_iff)

lemma small_u16: "i < NUM \<Longrightarrow> unat (of_nat i :: u16) = i"
  by (simp add: unat_of_nat)

lemma submit_reqs:
  fixes wr :: bool
  assumes inv: "reqs_ok d ph" and b: "b < NUMBUF" "\<And>wr i. ph b \<noteq> WaitBuf wr i"
    and dist: "distinct [i0, i1, i2]" and fr: "\<And>k. k \<in> {i0, i1, i2} \<Longrightarrow> k < NUM \<and> vfree d k"
  defines "d1 \<equiv> d\<lparr>vfree := (vfree d)(i0 := False, i1 := False, i2 := False)\<rparr>"
  defines "d' \<equiv> disk_submit b wr i0 i1 i2 d1" and "ph' \<equiv> ph(b := WaitBuf wr i0)"
  shows "reqs_ok d' ph'" "members d' i0 = {i0, i1, i2}"
proof -
  note F = disk_submit_fields [OF dist, where b = b and wr = wr and d = d1, folded d'_def]
  have lt: "i0 < NUM" "i1 < NUM" "i2 < NUM" using fr by auto
  have fd: "vfree d1 k = (vfree d k \<and> k \<notin> {i0, i1, i2})" for k by (auto simp: d1_def)
  have n: "next1 d' i0 = i1" "next2 d' i0 = i2"
    using F(1,2) small_u16 [OF lt(2)] small_u16 [OF lt(3)] by (simp_all add: next1_def next2_def)
  show m0: "members d' i0 = {i0, i1, i2}" by (simp add: members_def n)
  have c0: "chain_ok d' b wr i0"
    unfolding chain_ok_def chain_links_def n m0 using dist lt by (auto simp: F fd)
  have old: "chain_ok d' b' wr' i' \<and> members d' i' = members d i' \<and> members d i' \<inter> {i0, i1, i2} = {}" if p: "ph b' = WaitBuf wr' i'" for b' wr' i'
  proof -
    have nf: "members d i' \<subseteq> {k. k < NUM \<and> \<not> vfree d k}" "i' \<in> members d i'" using reqs_okD(4,5) [OF inv p] .
    have dj: "members d i' \<inter> {i0, i1, i2} = {}" using nf(1) fr by blast
    have "vdesc d' k = vdesc d k \<and> vfree d' k = vfree d k" if "k \<in> members d i'" for k
      using that dj F(4) [of k] fd [of k] nf(1) by (auto simp: F(5) d1_def)
    moreover have "in_b (vinfos d' i') = in_b (vinfos d i')" using dj nf(2) by (auto simp: F(6) d1_def)
    moreover have "b_blockno (dbufs d' ! b') = b_blockno (dbufs d ! b')" by (simp add: F(8) d1_def)
    ultimately show ?thesis using chain_ok_cong [OF reqs_okD(1) [OF inv p], of d'] dj by blast
  qed
  have "(ph' b' = WaitBuf wr' i') = (if b' = b then wr' = wr \<and> i' = i0 else ph b' = WaitBuf wr' i')" for b' wr' i'
    by (auto simp: ph'_def)
  note P = this
  have "chain_ok d' b' wr' i' \<and> bdisk d' b' \<in> {0, 1}" if "ph' b' = WaitBuf wr' i'" for b' wr' i'
    using that c0 old [of b' wr' i'] reqs_okD(2) [OF inv, of b' wr' i'] unfolding P by (auto simp: F(7) d1_def split: if_splits)
  moreover have "\<forall>b'. ph' b' \<noteq> Idle \<longrightarrow> b' < NUMBUF" using inv b(1) by (auto simp: reqs_ok_def ph'_def)
  moreover have "members d' i \<inter> members d' i' = {}" if "ph' b1 = WaitBuf wr1 i" "ph' b2 = WaitBuf wr2 i'" "b1 \<noteq> b2" for b1 wr1 i b2 wr2 i'
  proof (cases "b1 = b \<or> b2 = b")
    case True
    then show ?thesis using that old [of b1 wr1 i] old [of b2 wr2 i'] m0 unfolding P by (auto split: if_splits)
  next
    case False
    then have "ph b1 = WaitBuf wr1 i" "ph b2 = WaitBuf wr2 i'" using that unfolding P by simp_all
    then show ?thesis using reqs_disjoint(1) [OF inv, of b1 wr1 i b2 wr2 i'] old that(3) by blast
  qed
  moreover have "\<exists>b' wr' i'. ph' b' = WaitBuf wr' i' \<and> k \<in> members d' i'" if k: "k < NUM" "\<not> vfree d' k" for k
  proof (cases "k \<in> {i0, i1, i2}")
    case True
    then show ?thesis using m0 P by auto
  next
    case False
    then have "\<not> vfree d k" using k(2) fd by (auto simp: F(5))
    then obtain b' wr' i' where o: "ph b' = WaitBuf wr' i'" "k \<in> members d i'" using reqs_cover [OF inv k(1)] by blast
    then have "b' \<noteq> b" using b(2) by auto
    then have "ph' b' = WaitBuf wr' i'" "k \<in> members d' i'" using o old [OF o(1)] by (simp_all add: ph'_def)
    then show ?thesis by blast
  qed
  moreover have "length (dbufs d') = Suc NUMBUF" "\<forall>x\<in>set (dbufs d'). wf_buffer x" using inv by (simp_all add: F(8) d1_def reqs_ok_def)
  ultimately show "reqs_ok d' ph'" unfolding reqs_ok_def by blast
qed

lemma avail_index: "vavail d 1 = da + of_nat n \<Longrightarrow> unat (vavail d 1) mod NUM = (unat da + n) mod NUM"
  by (simp add: unat_word_ariths unat_of_nat mod_mod_cancel mod_add_right_eq)

lemma submit_rings:
  fixes wr :: bool
  assumes inv: "reqs_ok d ph" "rings_ok A T U d ph da" and b: "\<And>wr i. ph b \<noteq> WaitBuf wr i"
    and dist: "distinct [i0, i1, i2]" and fr: "\<And>k. k \<in> {i0, i1, i2} \<Longrightarrow> k < NUM \<and> vfree d k"
  defines "d1 \<equiv> d\<lparr>vfree := (vfree d)(i0 := False, i1 := False, i2 := False)\<rparr>"
  defines "d' \<equiv> disk_submit b wr i0 i1 i2 d1" and "ph' \<equiv> ph(b := WaitBuf wr i0)"
  shows "rings_ok (A @ [i0]) T U d' ph' da" "i0 \<notin> set (A @ T @ U)"
proof -
  note F = disk_submit_fields [OF dist, where b = b and wr = wr and d = d1, folded d'_def]
  have r: "distinct (A @ T @ U)" "set (A @ T @ U) = heads d ph" "vavail d 1 = da + of_nat (length A)"
    "\<forall>j < length A. vavail d (2 + (unat da + j) mod NUM) = of_nat (A ! j)"
    and u: "unat (used_idx d) < NUM" "unat (vused_id d) mod NUM = (unat (used_idx d) + length U) mod NUM"
    "\<forall>j < length U. ue_id (velems d ((unat (used_idx d) + j) mod NUM)) = of_nat (U ! j)"
    using inv(2) unfolding rings_ok_def by blast+
  show new: "i0 \<notin> set (A @ T @ U)"
  proof
    assume "i0 \<in> set (A @ T @ U)"
    then obtain b' wr' where p: "ph b' = WaitBuf wr' i0" unfolding r(2) heads_def by blast
    show False using reqs_okD(4,5) [OF inv(1) p] fr by blast
  qed
  have "heads d' ph' = insert i0 (heads d ph)" (is "?l = ?r")
  proof
    show "?l \<subseteq> ?r" by (auto simp: heads_def F(7) ph'_def d1_def)
    have "ph' b' = WaitBuf wr' i \<and> bdisk d' b' = 1" if "ph b' = WaitBuf wr' i" "bdisk d b' = 1" for b' wr' i
      using that b by (auto simp: F(7) ph'_def d1_def)
    moreover have "ph' b = WaitBuf wr i0" "bdisk d' b = 1" by (simp_all add: ph'_def F(7))
    ultimately show "?r \<subseteq> ?l" unfolding heads_def by blast
  qed
  then have s: "set ((A @ [i0]) @ T @ U) = heads d' ph'" using r(2) by simp
  have few: "length A < NUM" using heads_few(1) [OF inv] by simp
  have ix: "unat (vavail d 1) mod NUM = (unat da + length A) mod NUM" using avail_index [OF r(3)] .
  have "vavail d' (2 + (unat da + j) mod NUM) = of_nat ((A @ [i0]) ! j)" if "j < length (A @ [i0])" for j
  proof (cases "j = length A")
    case True
    then show ?thesis using ix by (simp add: F(13) d1_def)
  next
    case False
    then have j: "j < length A" using that by simp
    have "(unat da + j) mod NUM \<noteq> (unat da + length A) mod NUM" by (rule ring_slots_differ [OF j few])
    then show ?thesis using r(4) j ix by (simp add: F(13) d1_def nth_append)
  qed
  moreover have "vavail d' 1 = da + of_nat (length (A @ [i0]))" using r(3) by (simp add: F(13) d1_def)
  ultimately show "rings_ok (A @ [i0]) T U d' ph' da"
    using r(1) new s u unfolding rings_ok_def by (simp add: F(10,11,12) d1_def)
qed

lemma submit_served:
  fixes wr :: bool
  assumes inv: "reqs_ok d ph" "rings_ok A T U d ph da" "served_ok A T U d ph sv" and b: "\<And>wr i. ph b \<noteq> WaitBuf wr i" "b \<notin> sv"
    and dist: "distinct [i0, i1, i2]" and fr: "\<And>k. k \<in> {i0, i1, i2} \<Longrightarrow> k < NUM \<and> vfree d k"
  shows "served_ok (A @ [i0]) T U (disk_submit b wr i0 i1 i2 (d\<lparr>vfree := (vfree d)(i0 := False, i1 := False, i2 := False)\<rparr>)) (ph(b := WaitBuf wr i0)) sv"
proof -
  let ?d1 = "d\<lparr>vfree := (vfree d)(i0 := False, i1 := False, i2 := False)\<rparr>"
  note F = disk_submit_fields [OF dist, where b = b and wr = wr and d = ?d1]
  have new: "i0 \<notin> set (A @ T @ U)" using submit_rings(2) [OF inv(1,2) b(1) dist fr] by simp
  have ne: "i \<noteq> i0" if p: "ph b' = WaitBuf wr' i" for b' wr' i
    using reqs_okD(4,5) [OF inv(1) p] fr by blast
  show ?thesis unfolding served_ok_def
  proof (intro conjI allI impI)
    fix b' wr' assume "(ph(b := WaitBuf wr i0)) b' = WaitFree wr'"
    then show "b' \<notin> sv" using inv(3) by (auto simp: served_ok_def split: if_splits)
  next
    fix b' wr' i assume p: "(ph(b := WaitBuf wr i0)) b' = WaitBuf wr' i"
    { assume "i \<in> set ((A @ [i0]) @ T)"
      then show "b' \<notin> sv" using p b(2) inv(3) ne [of b' wr' i] by (auto simp: served_ok_def split: if_splits) }
    { assume "bdisk (disk_submit b wr i0 i1 i2 ?d1) b' = 0"
      then show "b' \<in> sv" using p inv(3) by (auto simp: served_ok_def F(7) split: if_splits) }
    assume "i \<in> set U"
    then show "(in_status (vinfos (disk_submit b wr i0 i1 i2 ?d1) i) = 0) = (b' \<in> sv)"
      using p inv(3) ne [of b' wr' i] new by (auto simp: served_ok_def F(6) split: if_splits)
  qed
qed

lemma alloc_full_keeps:
  assumes "dinv A U s" "\<And>k. \<not> vfree (drv s) k \<Longrightarrow> f k = vdesc (drv s) k"
  shows "dinv A U (s\<lparr>drv := (drv s)\<lparr>vdesc := f, wakes := w\<rparr>\<rparr>)"
proof -
  have i: "reqs_ok (drv s) (phase s)" using assms(1) by (simp add: dinv_def)
  have "reqs_ok ((drv s)\<lparr>vdesc := f, wakes := w\<rparr>) (phase s)"
    by (rule reqs_frame(1) [OF i]) (use assms(2) reqs_okD(2) [OF i] i in \<open>auto simp: reqs_ok_def\<close>)
  then show ?thesis using assms(1) by (simp add: dinv_def rings_ok_def served_ok_def heads_def)
qed

text \<open>A round of the allocation loop never returns from the call: it ends asleep, with the request submitted or, when
  fewer than three descriptors are free, without.\<close>

lemma disk_round_cases:
  obtains (submitted) i0 i1 i2 where "distinct [i0, i1, i2]" "\<And>k. k \<in> {i0, i1, i2} \<Longrightarrow> k < NUM \<and> vfree d k"
    "disk_round b wr d = Inr (Asleep (OnBuf b), i0, disk_submit b wr i0 i1 i2 (d\<lparr>vfree := (vfree d)(i0 := False, i1 := False, i2 := False)\<rparr>))"
  | (full) f w where "disk_round b wr d = Inr (Asleep OnFree, 0, d\<lparr>vdesc := f, wakes := w\<rparr>)" "\<And>k. \<not> vfree d k \<Longrightarrow> f k = vdesc d k"
    "card {k. k < NUM \<and> vfree d k} < 3"
proof (cases rule: alloc3_desc_cases [of d])
  case (ok i0 i1 i2)
  then show thesis
    using submitted [of i0 i1 i2] disk_submit_fields(7) [OF ok(2), where b = b and wr = wr] by (simp add: disk_round_def disk_wait_def)
next
  case (full f w)
  then show thesis using that(2) [of w f] by (simp add: disk_round_def)
qed

lemma waiting_upd:
  "(\<And>wr i. ph b \<noteq> WaitBuf wr i) \<Longrightarrow> (\<And>wr i. q \<noteq> WaitBuf wr i) \<Longrightarrow> ((ph(b := q)) b' = WaitBuf wr' i') = (ph b' = WaitBuf wr' i')"
  by auto

lemma dinv_round:
  assumes inv: "dinv A U s" and b: "b < NUMBUF" "\<And>wr i. phase s b \<noteq> WaitBuf wr i" "b \<notin> sv" "sv = served s - {b}"
    and r: "disk_round b wr (drv s) = Inr (Asleep ch, i0, d)"
  shows "\<exists>A'. dinv A' U (s\<lparr>drv := d, phase := (phase s)(b := phase_of wr i0 ch), served := sv\<rparr>)"
proof (cases rule: disk_round_cases [of "drv s" b wr])
  case (submitted j0 j1 j2)
  have i: "reqs_ok (drv s) (phase s)" "rings_ok A (dev_taken s) U (drv s) (phase s) (dev_avail s)" using inv by (simp_all add: dinv_def)
  have sv: "served_ok A (dev_taken s) U (drv s) (phase s) sv"
    using inv b(2) unfolding dinv_def served_ok_def b(4) by (metis Diff_iff empty_iff insert_iff)
  have e: "ch = OnBuf b" "i0 = j0" "d = disk_submit b wr j0 j1 j2 ((drv s)\<lparr>vfree := (vfree (drv s))(j0 := False, j1 := False, j2 := False)\<rparr>)"
    using r submitted(3) by auto
  have "dinv (A @ [j0]) U (s\<lparr>drv := d, phase := (phase s)(b := WaitBuf wr j0), served := sv\<rparr>)"
    using submit_reqs(1) [OF i(1) b(1,2) submitted(1,2)] submit_rings(1) [OF i b(2) submitted(1,2)]
      submit_served [OF i sv b(2,3) submitted(1,2)] by (simp add: dinv_def e(3))
  then show ?thesis using e(1,2) by auto
next
  case (full f w)
  have e: "ch = OnFree" "d = (drv s)\<lparr>vdesc := f, wakes := w\<rparr>" using r full(1) by simp_all
  let ?s = "s\<lparr>phase := (phase s)(b := WaitFree wr), served := sv\<rparr>"
  have "dinv A U ?s"
  proof -
    have "reqs_ok (drv s) ((phase s)(b := WaitFree wr))" using inv b(1,2) unfolding dinv_def reqs_ok_def by (simp add: fun_upd_apply) (metis b(2))
    moreover have "heads (drv s) ((phase s)(b := WaitFree wr)) = heads (drv s) (phase s)"
      using waiting_upd [of "phase s" b "WaitFree wr"] b(2) by (simp add: heads_def)
    moreover have "served_ok A (dev_taken s) U (drv s) ((phase s)(b := WaitFree wr)) sv"
      using inv b unfolding dinv_def served_ok_def by (auto simp: fun_upd_apply)
    ultimately show ?thesis using inv by (simp add: dinv_def rings_ok_def)
  qed
  from alloc_full_keeps [OF this, of f w] show ?thesis using full(2) e by (intro exI [of _ A]) (simp add: dinv_def)
qed

text \<open>A call that returns.\<close>

lemma disk_wait_cases:
  assumes inv: "reqs_ok d ph" and p: "ph b = WaitBuf wr i"
  obtains (again) "bdisk d b = 1" "disk_wait b i d = Inr (Asleep (OnBuf b), d)"
  | (fin) f w where "bdisk d b = 0"
    "disk_wait b i d = Inr (Done, d\<lparr>vdesc := f, vfree := \<lambda>k. vfree d k \<or> k \<in> members d i, wakes := w, vinfos := (vinfos d)(i := (vinfos d i)\<lparr>in_b := None\<rparr>)\<rparr>)"
    "\<And>k. k \<notin> members d i \<Longrightarrow> f k = vdesc d k"
proof (cases "bdisk d b = 1")
  case True
  then show thesis using again by (simp add: disk_wait_def)
next
  case False
  let ?d = "d\<lparr>vinfos := (vinfos d)(i := (vinfos d i)\<lparr>in_b := None\<rparr>)\<rparr>"
  have c: "chain_links ?d i" using reqs_okD(1) [OF inv p] by (simp add: chain_ok_def chain_links_def members_def next1_def next2_def)
  have m: "members ?d i = members d i" by (simp add: members_def next1_def next2_def)
  obtain f w where "free_chain i ?d = Inr (?d\<lparr>vdesc := f, vfree := \<lambda>k. vfree ?d k \<or> k \<in> members ?d i, wakes := w\<rparr>)"
    "\<And>k. k \<notin> members ?d i \<Longrightarrow> f k = vdesc ?d k"
    by (rule free_chain_ok [OF c], erule that, blast)
  then show thesis using fin [of w f] False reqs_okD(2) [OF inv p] m by (simp add: disk_wait_def)
qed

lemma finish_reqs:
  fixes w :: "dchan list"
  assumes inv: "reqs_ok d ph" and p: "ph b = WaitBuf wr i" and f: "\<And>k. k \<notin> members d i \<Longrightarrow> f k = vdesc d k"
  defines "d' \<equiv> d\<lparr>vdesc := f, vfree := \<lambda>k. vfree d k \<or> k \<in> members d i, wakes := w, vinfos := (vinfos d)(i := (vinfos d i)\<lparr>in_b := None\<rparr>)\<rparr>"
  shows "reqs_ok d' (ph(b := Idle))"
proof -
  let ?ph = "ph(b := Idle)"
  have q: "ph b' = WaitBuf wr' i' \<and> b' \<noteq> b" if "?ph b' = WaitBuf wr' i'" for b' wr' i' using that by (auto split: if_splits)
  have c: "chain_ok d' b' wr' i' \<and> members d' i' = members d i'" if "?ph b' = WaitBuf wr' i'" for b' wr' i'
  proof -
    have o: "ph b' = WaitBuf wr' i'" "b' \<noteq> b" using q [OF that] by simp_all
    have dj: "members d i' \<inter> members d i = {}" using reqs_disjoint(1) [OF inv o(1) p] o(2) by blast
    then have "i' \<noteq> i" using reqs_okD(5) [OF inv o(1)] reqs_okD(5) [OF inv p] by blast
    then show ?thesis using chain_ok_cong [OF reqs_okD(1) [OF inv o(1)], of d'] dj f by (auto simp: d'_def)
  qed
  have "\<exists>b' wr' i'. ?ph b' = WaitBuf wr' i' \<and> k \<in> members d' i'" if k: "k < NUM" "\<not> vfree d' k" for k
  proof -
    have "\<not> vfree d k" "k \<notin> members d i" using k(2) by (simp_all add: d'_def)
    then obtain b' wr' i' where o: "ph b' = WaitBuf wr' i'" "k \<in> members d i'" using reqs_cover [OF inv k(1)] by blast
    then have "?ph b' = WaitBuf wr' i'" using p \<open>k \<notin> members d i\<close> by auto
    then show ?thesis using c [of b' wr' i'] o(2) by blast
  qed
  moreover have "chain_ok d' b' wr' i' \<and> bdisk d' b' \<in> {0, 1}" if "?ph b' = WaitBuf wr' i'" for b' wr' i'
    using c [OF that] q [OF that] reqs_okD(2) [OF inv, of b'] by (auto simp: d'_def)
  moreover have "members d' i1 \<inter> members d' i2 = {}" if "?ph b1 = WaitBuf wr1 i1" "?ph b2 = WaitBuf wr2 i2" "b1 \<noteq> b2" for b1 wr1 i1 b2 wr2 i2
  proof -
    have "ph b1 = WaitBuf wr1 i1" "ph b2 = WaitBuf wr2 i2" using q that by blast+
    then show ?thesis using reqs_disjoint(1) [OF inv] c [OF that(1)] c [OF that(2)] that(3) by blast
  qed
  moreover have "\<forall>b'. ?ph b' \<noteq> Idle \<longrightarrow> b' < NUMBUF" "length (dbufs d') = Suc NUMBUF" "\<forall>x\<in>set (dbufs d'). wf_buffer x"
    using inv by (auto simp: reqs_ok_def d'_def)
  ultimately show ?thesis unfolding reqs_ok_def by blast
qed

lemma dinv_return:
  assumes inv: "dinv A U s" and p: "phase s b = WaitBuf wr i" and r: "disk_wait b i (drv s) = Inr (Done, d)"
  shows "dinv A U (s\<lparr>drv := d, phase := (phase s)(b := Idle)\<rparr>)" "b \<in> served s"
proof -
  let ?d = "drv s" and ?ph = "(phase s)(b := Idle)"
  have i: "reqs_ok ?d (phase s)" using inv by (simp add: dinv_def)
  obtain f w where b0: "bdisk ?d b = 0" and f: "\<And>k. k \<notin> members ?d i \<Longrightarrow> f k = vdesc ?d k"
    and d: "d = ?d\<lparr>vdesc := f, vfree := \<lambda>k. vfree ?d k \<or> k \<in> members ?d i, wakes := w, vinfos := (vinfos ?d)(i := (vinfos ?d i)\<lparr>in_b := None\<rparr>)\<rparr>"
    using i p
  proof (cases rule: disk_wait_cases)
    case again
    then show ?thesis using r by simp
  next
    case (fin f w)
    show ?thesis by (rule that [OF fin(1) fin(3)]) (use r fin(2) in auto)
  qed
  show "b \<in> served s" using inv p b0 by (auto simp: dinv_def served_ok_def)
  have "(?ph b' = WaitBuf wr' i' \<and> bdisk d b' = 1) = (phase s b' = WaitBuf wr' i' \<and> bdisk ?d b' = 1)" for b' wr' i'
    using b0 by (auto simp: d)
  then have h: "heads d ?ph = heads ?d (phase s)" by (simp add: heads_def)
  have st: "in_status (vinfos d k) = in_status (vinfos ?d k)" for k by (simp add: d)
  have "served_ok A (dev_taken s) U d ?ph (served s)"
    using inv unfolding dinv_def served_ok_def st by (auto simp: d)
  then show "dinv A U (s\<lparr>drv := d, phase := ?ph\<rparr>)"
    using finish_reqs [OF i p f, of w] inv h by (simp add: dinv_def rings_ok_def d)
qed

text \<open>The interrupt handler, one entry of the used ring at a time.\<close>

definition intr_one :: "nat \<Rightarrow> dsk \<Rightarrow> dsk" where
  "intr_one b d = (wake (OnBuf b) (d\<lparr>bdisk := (bdisk d)(b := 0)\<rparr>))\<lparr>used_idx := (used_idx d + 1) mod of_nat NUM\<rparr>"

lemma intr_one_fields:
  "vdesc (intr_one b d) = vdesc d" "vfree (intr_one b d) = vfree d" "vinfos (intr_one b d) = vinfos d" "dbufs (intr_one b d) = dbufs d"
  "sectors (intr_one b d) = sectors d" "vavail (intr_one b d) = vavail d" "velems (intr_one b d) = velems d" "vused_id (intr_one b d) = vused_id d"
  "bdisk (intr_one b d) = (bdisk d)(b := 0)" "unat (used_idx (intr_one b d)) = (unat (used_idx d) + 1) mod NUM"
  by (simp_all add: intr_one_def wake_def unat_idx_step)

lemma used_owner:
  assumes "dinv A (u # U) s"
  obtains b wr where "phase s b = WaitBuf wr u" "bdisk (drv s) b = 1" "u < NUM" "in_b (vinfos (drv s) u) = Some b"
proof -
  have i: "reqs_ok (drv s) (phase s)" "rings_ok A (dev_taken s) (u # U) (drv s) (phase s) (dev_avail s)" using assms by (simp_all add: dinv_def)
  have "u \<in> heads (drv s) (phase s)" using i(2) by (auto simp: rings_ok_def)
  then obtain b wr where o: "phase s b = WaitBuf wr u" "bdisk (drv s) b = 1" unfolding heads_def by blast
  have "u < NUM" using heads_few(2) [OF i, of u] by simp
  moreover have "in_b (vinfos (drv s) u) = Some b" using reqs_okD(1) [OF i(1) o(1)] by (simp add: chain_ok_def)
  ultimately show thesis using that o by blast
qed

lemma intr_unfold:
  assumes inv: "dinv A (u # U) s" and b: "in_b (vinfos (drv s) u) = Some b"
  shows "virtio_disk_intr (drv s) = (if in_status (vinfos (drv s) u) \<noteq> 0 then Inl (Panic ''virtio_disk_intr status'') else virtio_disk_intr (intr_one b (drv s)))"
proof -
  have r: "rings_ok A (dev_taken s) (u # U) (drv s) (phase s) (dev_avail s)" "reqs_ok (drv s) (phase s)" using inv by (simp_all add: dinv_def)
  have few: "length (u # U) < NUM" "u < NUM" using heads_few [OF r(2,1)] by auto
  have lt: "unat (used_idx (drv s)) < NUM" and e: "ue_id (velems (drv s) (unat (used_idx (drv s)))) = of_nat u"
    and m: "unat (vused_id (drv s)) mod NUM = (unat (used_idx (drv s)) + length (u # U)) mod NUM"
    using r(1) by (auto simp: rings_ok_def)
  have "(unat (used_idx (drv s)) + 0) mod NUM \<noteq> (unat (used_idx (drv s)) + length (u # U)) mod NUM"
    by (rule ring_slots_differ) (use few(1) in auto)
  then have ne: "unat (used_idx (drv s)) mod NUM \<noteq> unat (vused_id (drv s)) mod NUM" using m by simp
  have id: "unat (ue_id (velems (drv s) (unat (used_idx (drv s))))) = u" using few(2) by (simp add: e unat_of_nat)
  have "(unat (used_idx (drv s)) mod NUM = unat (vused_id (drv s)) mod NUM) = False" "(NUM \<le> u) = False" using ne few(2) by simp_all
  then show ?thesis
    unfolding virtio_disk_intr.simps [of "drv s"] Let_def id intr_one_def b by (simp only: if_False option.case)
qed

lemma intr_one_inv:
  assumes inv: "dinv A (u # U) s" and o: "phase s b = WaitBuf wr u" and st: "in_status (vinfos (drv s) u) = 0"
  shows "dinv A U (s\<lparr>drv := intr_one b (drv s)\<rparr>)"
proof -
  let ?d = "drv s" and ?d' = "intr_one b (drv s)" and ?x = "unat (used_idx (drv s))"
  have i: "reqs_ok ?d (phase s)" and r: "rings_ok A (dev_taken s) (u # U) ?d (phase s) (dev_avail s)"
    and v: "served_ok A (dev_taken s) (u # U) ?d (phase s) (served s)" using inv by (simp_all add: dinv_def)
  have sv: "b \<in> served s" using v o st by (auto simp: served_ok_def)
  have reqs: "reqs_ok ?d' (phase s)"
    by (rule reqs_frame(1) [OF i]) (use reqs_okD(2) [OF i] i in \<open>auto simp: reqs_ok_def intr_one_fields\<close>)
  have uniq: "b' = b" if "phase s b' = WaitBuf wr' u" for b' wr'
    using reqs_disjoint(1) [OF i that o] reqs_okD(5) [OF i that] reqs_okD(5) [OF i o] by blast
  have bd: "bdisk ?d' b' = (if b' = b then 0 else bdisk ?d b')" for b' by (simp add: intr_one_fields)
  have h: "heads ?d' (phase s) = heads ?d (phase s) - {u}"
  proof (intro set_eqI iffI)
    fix x assume "x \<in> heads ?d' (phase s)"
    then obtain b' wr' where x: "phase s b' = WaitBuf wr' x" "bdisk ?d' b' = 1" unfolding heads_def by blast
    then have "b' \<noteq> b" unfolding bd by (intro notI) simp
    then show "x \<in> heads ?d (phase s) - {u}" using x uniq [of b' wr'] unfolding bd heads_def by auto
  next
    fix x assume "x \<in> heads ?d (phase s) - {u}"
    then obtain b' wr' where x: "phase s b' = WaitBuf wr' x" "bdisk ?d b' = 1" "x \<noteq> u" unfolding heads_def by blast
    then have "b' \<noteq> b" using o by auto
    then show "x \<in> heads ?d' (phase s)" using x unfolding bd heads_def by auto
  qed
  have dist: "distinct (A @ dev_taken s @ u # U)" "set (A @ dev_taken s @ u # U) = heads ?d (phase s)" using r by (simp_all add: rings_ok_def)
  then have "distinct (A @ dev_taken s @ U)" "set (A @ dev_taken s @ U) = heads ?d' (phase s)" unfolding h by auto
  moreover have "unat (vused_id ?d') mod NUM = (unat (used_idx ?d') + length U) mod NUM"
    using r by (simp add: rings_ok_def intr_one_fields mod_add_left_eq)
  moreover have "ue_id (velems ?d' ((unat (used_idx ?d') + j) mod NUM)) = of_nat (U ! j)" if "j < length U" for j
  proof -
    have "ue_id (velems ?d ((?x + Suc j) mod NUM)) = of_nat ((u # U) ! Suc j)" using r that unfolding rings_ok_def by (metis Suc_less_eq length_Cons)
    then show ?thesis by (simp add: intr_one_fields mod_add_left_eq)
  qed
  ultimately have "rings_ok A (dev_taken s) U ?d' (phase s) (dev_avail s)"
    using r by (simp add: rings_ok_def intr_one_fields)
  moreover have "served_ok A (dev_taken s) U ?d' (phase s) (served s)"
    using v sv unfolding served_ok_def by (auto simp: intr_one_fields)
  ultimately show ?thesis using reqs by (simp add: dinv_def)
qed

lemma dinv_intr:
  assumes "dinv A U s"
  shows "(\<exists>d. virtio_disk_intr (drv s) = Inr d \<and> dinv A [] (s\<lparr>drv := d\<rparr>) \<and> dbufs d = dbufs (drv s) \<and> sectors d = sectors (drv s))
    \<or> virtio_disk_intr (drv s) = Inl (Panic ''virtio_disk_intr status'') \<and> (\<exists>u\<in>set U. in_status (vinfos (drv s) u) \<noteq> 0)"
  using assms
proof (induction U arbitrary: s)
  case Nil
  then have "virtio_disk_intr (drv s) = Inr (drv s)" by (subst virtio_disk_intr.simps) (simp add: dinv_def rings_ok_def)
  then show ?case using Nil by auto
next
  case (Cons u U)
  obtain b wr where b: "phase s b = WaitBuf wr u" "in_b (vinfos (drv s) u) = Some b" using used_owner [OF Cons.prems] by metis
  show ?case
  proof (cases "in_status (vinfos (drv s) u) = 0")
    case True
    let ?s = "s\<lparr>drv := intr_one b (drv s)\<rparr>"
    have "dinv A U ?s" using intr_one_inv [OF Cons.prems b(1) True] .
    from Cons.IH [OF this] show ?thesis using intr_unfold [OF Cons.prems b(2)] True by (auto simp: intr_one_fields)
  next
    case False
    then show ?thesis using intr_unfold [OF Cons.prems b(2)] by auto
  qed
qed

text \<open>The device.\<close>

lemma dinv_take:
  assumes inv: "dinv A U s" and ne: "dev_avail s \<noteq> vavail (drv s) 1"
  shows "\<exists>A'. dinv A' U (s\<lparr>dev_taken := dev_taken s @ [unat (vavail (drv s) (2 + unat (dev_avail s) mod NUM))], dev_avail := dev_avail s + 1\<rparr>)"
proof -
  let ?d = "drv s" and ?da = "dev_avail s"
  have i: "reqs_ok ?d (phase s)" and r: "rings_ok A (dev_taken s) U ?d (phase s) ?da"
    and v: "served_ok A (dev_taken s) U ?d (phase s) (served s)" using inv by (simp_all add: dinv_def)
  have av: "vavail ?d 1 = ?da + of_nat (length A)" "\<forall>j < length A. vavail ?d (2 + (unat ?da + j) mod NUM) = of_nat (A ! j)"
    using r by (simp_all add: rings_ok_def)
  then obtain a B where A: "A = a # B" using ne by (cases A) auto
  have "a < NUM" using heads_few(2) [OF i r, of a] A by simp
  moreover have "vavail ?d (2 + unat ?da mod NUM) = of_nat a" using av(2) A by auto
  ultimately have e: "unat (vavail ?d (2 + unat ?da mod NUM)) = a" by (simp add: small_u16)
  have "vavail ?d (2 + (unat (?da + 1) + j) mod NUM) = of_nat (B ! j)" if "j < length B" for j
  proof -
    have "(unat (?da + 1) + j) mod NUM = (unat ?da + Suc j) mod NUM"
      using unat_mod_NUM [of ?da] by (metis add.assoc add.commute mod_add_left_eq plus_1_eq_Suc)
    then show ?thesis using av(2) [rule_format, of "Suc j"] A that by simp
  qed
  then have "rings_ok B (dev_taken s @ [a]) U ?d (phase s) (?da + 1)"
    using r A by (auto simp: rings_ok_def)
  moreover have "served_ok B (dev_taken s @ [a]) U ?d (phase s) (served s)" using v A by (auto simp: served_ok_def)
  ultimately have "dinv B U (s\<lparr>dev_taken := dev_taken s @ [a], dev_avail := ?da + 1\<rparr>)" using i by (simp add: dinv_def)
  then show ?thesis using e by auto
qed

lemma taken_owner:
  assumes "dinv A U s" "q \<in> set (dev_taken s)"
  obtains b wr where "phase s b = WaitBuf wr q" "bdisk (drv s) b = 1" "chain_ok (drv s) b wr q"
    "dev_chain q (drv s) = Some (request_hdr (b_blockno (dbufs (drv s) ! b)) wr, b, q)" "b \<notin> served s"
proof -
  have i: "reqs_ok (drv s) (phase s)" using assms(1) by (simp add: dinv_def)
  have "q \<in> heads (drv s) (phase s)" using assms by (auto simp: dinv_def rings_ok_def)
  then obtain b wr where o: "phase s b = WaitBuf wr q" "bdisk (drv s) b = 1" unfolding heads_def by blast
  have c: "chain_ok (drv s) b wr q" using reqs_okD(1) [OF i o(1)] .
  have "b \<notin> served s" using assms o by (auto simp: dinv_def served_ok_def)
  then show thesis using that o c dev_chain_ok [OF c] by blast
qed

lemma dinv_report:
  assumes inv: "dinv A U s" and q: "q \<in> set (dev_taken s)" and p: "phase s b = WaitBuf wr q"
    and io: "vdesc d = vdesc (drv s)" "vfree d = vfree (drv s)" "vinfos d = vinfos (drv s)" "bdisk d = bdisk (drv s)" "vavail d = vavail (drv s)"
      "velems d = velems (drv s)" "vused_id d = vused_id (drv s)" "used_idx d = used_idx (drv s)"
      "\<And>k. b_blockno (dbufs d ! k) = b_blockno (dbufs (drv s) ! k)" "length (dbufs d) = length (dbufs (drv s))" "\<forall>x\<in>set (dbufs d). wf_buffer x"
    and sv: "sv = (if st = 0 then insert b (served s) else served s)"
  shows "dinv A (U @ [q]) (s\<lparr>drv := dev_report q q st len d, dev_taken := remove1 q (dev_taken s), served := sv\<rparr>)"
proof -
  let ?d = "drv s" and ?d' = "dev_report q q st len d" and ?T = "remove1 q (dev_taken s)" and ?x = "unat (used_idx (drv s))"
  have i: "reqs_ok ?d (phase s)" and r: "rings_ok A (dev_taken s) U ?d (phase s) (dev_avail s)"
    and v: "served_ok A (dev_taken s) U ?d (phase s) (served s)" using inv by (simp_all add: dinv_def)
  have f: "vdesc ?d' = vdesc ?d" "vfree ?d' = vfree ?d" "bdisk ?d' = bdisk ?d" "vavail ?d' = vavail ?d" "used_idx ?d' = used_idx ?d"
    "vinfos ?d' = (vinfos ?d)(q := (vinfos ?d q)\<lparr>in_status := st\<rparr>)" "dbufs ?d' = dbufs d" "vused_id ?d' = vused_id ?d + 1"
    "velems ?d' = (velems ?d)(unat (vused_id ?d) mod NUM := \<lparr>ue_id = of_nat q, ue_len = len\<rparr>)"
    by (simp_all add: dev_report_def io)
  have reqs: "reqs_ok ?d' (phase s)"
    by (rule reqs_frame(1) [OF i]) (use reqs_okD(2) [OF i] io(9-11) in \<open>auto simp: f\<close>)
  have dist: "distinct (A @ dev_taken s @ U)" "set (A @ dev_taken s @ U) = heads ?d (phase s)"
    and m: "unat (vused_id ?d) mod NUM = (?x + length U) mod NUM"
    and el: "\<And>j. j < length U \<Longrightarrow> ue_id (velems ?d ((?x + j) mod NUM)) = of_nat (U ! j)"
    using r by (simp_all add: rings_ok_def)
  have few: "length U < NUM" using heads_few(1) [OF i r] by simp
  have "ue_id (velems ?d' ((?x + j) mod NUM)) = of_nat ((U @ [q]) ! j)" if "j < length (U @ [q])" for j
  proof (cases "j = length U")
    case True
    then show ?thesis by (simp add: f m)
  next
    case False
    then have j: "j < length U" using that by simp
    have "(?x + j) mod NUM \<noteq> (?x + length U) mod NUM" by (rule ring_slots_differ [OF j few])
    then show ?thesis using el [OF j] j by (simp add: f m nth_append)
  qed
  moreover have "unat (vused_id ?d') mod NUM = (?x + length (U @ [q])) mod NUM"
    using unat_mod_NUM [of "vused_id ?d"] m by (simp add: f) (metis mod_Suc_eq)
  moreover have "heads ?d' (phase s) = heads ?d (phase s)" by (simp add: heads_def f)
  moreover have "distinct (A @ ?T @ U @ [q])" "set (A @ ?T @ U @ [q]) = set (A @ dev_taken s @ U)"
    using dist(1) q by (auto simp: set_remove1_eq)
  ultimately have "rings_ok A ?T (U @ [q]) ?d' (phase s) (dev_avail s)"
    using r dist(2) by (simp add: rings_ok_def f)
  moreover have "served_ok A ?T (U @ [q]) ?d' (phase s) sv"
  proof -
    have uniq: "b' = b" if "phase s b' = WaitBuf wr' q" for b' wr'
      using reqs_disjoint(1) [OF i that p] reqs_okD(5) [OF i that] reqs_okD(5) [OF i p] by blast
    have nq: "q \<notin> set A" "q \<notin> set ?T" "q \<notin> set U" and sub: "set ?T \<subseteq> set (dev_taken s)"
      using dist(1) q by (auto simp: set_remove1_eq)
    have b0: "b \<notin> served s" "bdisk ?d b \<noteq> 0" 
    proof -
      obtain b' wr' where o: "phase s b' = WaitBuf wr' q" "bdisk ?d b' = 1" "b' \<notin> served s" using taken_owner [OF inv q] by blast
      then show "b \<notin> served s" "bdisk ?d b \<noteq> 0" using uniq [OF o(1)] by simp_all
    qed
    show ?thesis unfolding served_ok_def
    proof (intro conjI allI impI)
      fix b' wr' assume "phase s b' = WaitFree wr'"
      then show "b' \<notin> sv" using v p sv by (auto simp: served_ok_def split: if_splits)
    next
      fix b' wr' i' assume w: "phase s b' = WaitBuf wr' i'"
      have vv: "(i' \<in> set (A @ dev_taken s) \<longrightarrow> b' \<notin> served s)" "(i' \<in> set U \<longrightarrow> (in_status (vinfos ?d i') = 0) = (b' \<in> served s))"
        "(bdisk ?d b' = 0 \<longrightarrow> b' \<in> served s)" using v w unfolding served_ok_def by blast+
      have bq: "b' = b \<longleftrightarrow> i' = q" by (metis w p uniq phase.inject(2))
      { assume "i' \<in> set (A @ ?T)"
        then show "b' \<notin> sv" using vv(1) bq nq sub sv by (auto split: if_splits) }
      { assume "bdisk ?d' b' = 0"
        then show "b' \<in> sv" using vv(3) sv by (simp add: f) }
      assume "i' \<in> set (U @ [q])"
      then show "(in_status (vinfos ?d' i') = 0) = (b' \<in> sv)"
        using vv(2) bq nq sv b0(1) by (cases "i' = q") (auto simp: f split: if_splits)
    qed
  qed
  ultimately show ?thesis using reqs by (simp add: dinv_def)
qed

lemma dinv_client:
  assumes "dinv A U s" "phase s b = Idle" "wf_buffer x"
  shows "dinv A U (s\<lparr>drv := (drv s)\<lparr>dbufs := (dbufs (drv s))[b := x]\<rparr>\<rparr>)"
proof -
  have i: "reqs_ok (drv s) (phase s)" using assms(1) by (simp add: dinv_def)
  have wf: "\<forall>x\<in>set (dbufs (drv s)). wf_buffer x" using i by (simp add: reqs_ok_def)
  have "reqs_ok ((drv s)\<lparr>dbufs := (dbufs (drv s))[b := x]\<rparr>) (phase s)"
  proof (rule reqs_frame(1) [OF i], goal_cases)
    case (4 b' wr i)
    then have "b' \<noteq> b" using assms(2) by auto
    then show ?case using reqs_okD(2) [OF \<open>reqs_ok (drv s) (phase s)\<close> 4] by auto
  next
    case 6
    show ?case using wf assms(3) set_update_subset_insert [of "dbufs (drv s)" b x] by auto
  qed simp_all
  then show ?thesis using assms(1) by (simp add: dinv_def rings_ok_def served_ok_def heads_def)
qed

lemma disk_init_Inr:
  "disk_init reg pages d0 = Inr d \<Longrightarrow> used_idx d = used_idx d0 \<and> vused_id d = 0 \<and> vavail d = (\<lambda>_. 0) \<and> vfree d = (\<lambda>k. k < NUM)"
  by (auto simp: disk_init_def reg_write_def Let_def split: if_splits)

lemma dinv_boot:
  assumes "dboot s"
  shows "dinv [] [] s"
proof -
  obtain reg pages d0 where d: "used_idx d0 = 0" "disk_init reg pages d0 = Inr (drv s)" using assms by (auto simp: dboot_def)
  have f: "used_idx (drv s) = 0" "vused_id (drv s) = 0" "vavail (drv s) = (\<lambda>_. 0)" "\<And>k. k < NUM \<Longrightarrow> vfree (drv s) k"
    using disk_init_Inr [OF d(2)] d(1) by simp_all
  show ?thesis using assms f by (simp add: dboot_def dinv_def reqs_ok_def rings_ok_def served_ok_def heads_def)
qed

lemma dev_io_fields:
  "vdesc (dev_io h b d) = vdesc d" "vfree (dev_io h b d) = vfree d" "vinfos (dev_io h b d) = vinfos d" "bdisk (dev_io h b d) = bdisk d"
  "vavail (dev_io h b d) = vavail d" "velems (dev_io h b d) = velems d" "vused_id (dev_io h b d) = vused_id d" "used_idx (dev_io h b d) = used_idx d"
  "b_blockno (dbufs (dev_io h b d) ! k) = b_blockno (dbufs d ! k)" "length (dbufs (dev_io h b d)) = length (dbufs d)"
  by (simp_all add: dev_io_def Let_def nth_list_update) (cases "b < length (dbufs d)"; simp add: nth_list_update list_update_beyond)

lemma dev_io_wf: "\<forall>x\<in>set (dbufs d). wf_buffer x \<Longrightarrow> b < length (dbufs d) \<Longrightarrow> \<forall>x\<in>set (dbufs (dev_io h b d)). wf_buffer x"
proof
  fix x assume h: "\<forall>x\<in>set (dbufs d). wf_buffer x" "b < length (dbufs d)" "x \<in> set (dbufs (dev_io h b d))"
  then obtain k where "k < length (dbufs d)" "x = dbufs (dev_io h b d) ! k" using dev_io_fields(10) by (metis in_set_conv_nth)
  then show "wf_buffer x" using h(1) dev_io_fields(9) [of h b d k] by (simp add: wf_buffer_def)
qed

lemma dinv_step:
  assumes "dstep s e s'" "dinv A U s"
  shows "\<exists>A' U'. dinv A' U' s'"
  using assms
proof (induction rule: dstep.induct)
  case (d_start s b wr ch i0 d)
  then show ?case using dinv_round [of A U s b "served s - {b}" wr ch i0 d] by auto
next
  case (d_retry s b wr ch i0 d)
  have b: "b < NUMBUF" "b \<notin> served s" using d_retry by (auto simp: dinv_def reqs_ok_def served_ok_def)
  then have "\<exists>A'. dinv A' U (s\<lparr>drv := d, phase := (phase s)(b := phase_of wr i0 ch), served := served s\<rparr>)"
    using dinv_round [of A U s b "served s" wr ch i0 d] d_retry by auto
  then show ?case by (auto simp: dinv_def)
next
  case (d_again s b wr i0 ch d)
  then have "reqs_ok (drv s) (phase s)" by (simp add: dinv_def)
  then have "d = drv s" using d_again(1,2) by (cases rule: disk_wait_cases [of "drv s" "phase s" b wr i0]) auto
  then show ?case using d_again(3) by auto
next
  case (d_return s b wr i0 d)
  then show ?case using dinv_return(1) by blast
next
  case (d_intr s d)
  then show ?case using dinv_intr [of A U s] by auto
next
  case (d_take s)
  then show ?case using dinv_take by blast
next
  case (d_serve q s h b i len)
  obtain b' wr where o: "phase s b' = WaitBuf wr q" "dev_chain q (drv s) = Some (request_hdr (b_blockno (dbufs (drv s) ! b')) wr, b', q)"
    using taken_owner [OF d_serve(3,1)] by metis
  then have e: "b = b'" "i = q" using d_serve(2) by auto
  have r: "reqs_ok (drv s) (phase s)" using d_serve(3) by (simp add: dinv_def)
  have "b' < length (dbufs (drv s))" "\<forall>x\<in>set (dbufs (drv s)). wf_buffer x" using reqs_okD(3) [OF r o(1)] r by (simp_all add: reqs_ok_def)
  then have "dinv A (U @ [q]) (s\<lparr>drv := dev_report q q 0 len (dev_io h b' (drv s)), dev_taken := remove1 q (dev_taken s), served := insert b' (served s)\<rparr>)"
    by (intro dinv_report [OF d_serve(3,1) o(1) dev_io_fields dev_io_wf]) simp_all
  then show ?case using e by blast
next
  case (d_error q s h b i st len)
  obtain b' wr where o: "phase s b' = WaitBuf wr q" "dev_chain q (drv s) = Some (request_hdr (b_blockno (dbufs (drv s) ! b')) wr, b', q)"
    using taken_owner [OF d_error(4,1)] by metis
  then have e: "b = b'" "i = q" using d_error(2) by auto
  have "dinv A (U @ [q]) (s\<lparr>drv := dev_report q q st len (drv s), dev_taken := remove1 q (dev_taken s), served := served s\<rparr>)"
    by (rule dinv_report [OF d_error(4,1) o(1)]) (use d_error(3,4) in \<open>auto simp: dinv_def reqs_ok_def\<close>)
  then have "dinv A (U @ [q]) (s\<lparr>drv := dev_report q q st len (drv s), dev_taken := remove1 q (dev_taken s)\<rparr>)" by (simp add: dinv_def)
  then show ?case using e by blast
next
  case (d_client s b x)
  then show ?case using dinv_client by blast
qed

lemma dinv_trace: "dtrace s0 es s \<Longrightarrow> \<exists>A U. dinv A U s"
proof (induction rule: dtrace.induct)
  case (dt_nil s)
  then show ?case using dinv_boot by blast
next
  case (dt_step s0 es s e s')
  then show ?case using dinv_step by blast
qed

section \<open>What the block cache sees\<close>

text \<open>The cache and the disk as \<^verbatim>\<open>bufcache.c\<close> sees them: a block is the two sectors that its number stands for. The
  multiplication of the block number by two must not overflow.\<close>

definition abs_cache :: "dsk \<Rightarrow> bcache" where
  "abs_cache d = \<lparr>bufs = dbufs d, disk = \<lambda>n. if n < 2 ^ 30 then sectors d (sector_of n) @ sectors d (sector_of n + 1) else []\<rparr>"

lemma sector_of_uint: "n < 2 ^ 30 \<Longrightarrow> uint (sector_of n) = 2 * uint n"
proof -
  assume h: "n < 2 ^ 30"
  then have n: "uint n < 2 ^ 30" by (simp add: word_less_def)
  have m: "uint (n * 2) = 2 * uint n" using n by (simp add: uint_word_ariths)
  have "sint (n * 2) = uint (n * 2)"
    using n m signed_take_bit_int_eq_self [of 31 "2 * uint n"] uint_nonnegative [of n] by (simp add: sint_uint)
  moreover have k: "uint (word_of_int k :: u64) = k mod 2 ^ 64" for k by (simp add: uint_word_of_int)
  have "uint (sector_of n) = sint (n * 2) mod 2 ^ 64" by (simp only: sector_of_def scast_eq k)
  ultimately have "uint (sector_of n) = (2 * uint n) mod 2 ^ 64" by (simp only: m)
  then show ?thesis using n uint_nonnegative [of n] by simp
qed

lemma sectors_differ:
  assumes "m < 2 ^ 30" "n < 2 ^ 30"
  shows "sector_of m \<noteq> sector_of n + 1" "sector_of m + 1 = sector_of n + 1 \<longleftrightarrow> m = n" "sector_of m = sector_of n \<longleftrightarrow> m = n" "sector_of m + 1 \<noteq> sector_of n"
proof -
  note u = sector_of_uint [OF assms(1)] sector_of_uint [OF assms(2)]
  have b: "uint m < 2 ^ 30" "uint n < 2 ^ 30" using assms by (simp_all add: word_less_def)
  have p: "uint (sector_of m + 1) = 2 * uint m + 1" "uint (sector_of n + 1) = 2 * uint n + 1"
    using u b by (simp_all add: uint_word_ariths)
  show "sector_of m \<noteq> sector_of n + 1" using u(1) p(2) by (metis dvd_triv_left even_plus_one_iff)
  show "sector_of m + 1 \<noteq> sector_of n" using u(2) p(1) by (metis dvd_triv_left even_plus_one_iff)
  show e: "sector_of m = sector_of n \<longleftrightarrow> m = n" using u by (metis mult_left_cancel word_uint_eqI zero_neq_numeral)
  show "sector_of m + 1 = sector_of n + 1 \<longleftrightarrow> m = n" using e by simp
qed

lemma dev_io_transfer:
  assumes "b_blockno (dbufs d ! b) < 2 ^ 30" "b < length (dbufs d)"
  shows "abs_cache (dev_io (request_hdr (b_blockno (dbufs d ! b)) wr) b d) = disk_read_write b wr (abs_cache d)"
proof -
  let ?m = "b_blockno (dbufs d ! b)"
  show ?thesis
  proof (cases wr)
    case [simp]: True
    let ?d = "dev_io (request_hdr ?m True) b d"
    have s: "sectors ?d = (sectors d)(sector_of ?m := take 512 (b_data (dbufs d ! b)), sector_of ?m + 1 := drop 512 (b_data (dbufs d ! b)))" "dbufs ?d = dbufs d"
      by (simp_all add: dev_io_def request_hdr_def Let_def)
    have "disk (abs_cache ?d) n = disk (disk_read_write b wr (abs_cache d)) n" for n
      using sectors_differ [of n ?m] assms(1) by (auto simp: abs_cache_def disk_read_write_def s)
    then have "disk (abs_cache ?d) = disk (disk_read_write b wr (abs_cache d))" by (rule ext)
    moreover have "bufs (abs_cache ?d) = bufs (disk_read_write b wr (abs_cache d))" by (simp add: abs_cache_def disk_read_write_def s)
    ultimately show ?thesis by simp
  next
    case False
    then show ?thesis using assms by (simp add: abs_cache_def disk_read_write_def dev_io_def request_hdr_def Let_def upd_buf_def cong: if_cong)
  qed
qed

text \<open>What a step does to the cache and the disk.\<close>

fun atomic_effect :: "ev \<Rightarrow> bcache \<Rightarrow> bcache \<Rightarrow> bool" where
  "atomic_effect (Transfer b wr) c c' \<longleftrightarrow> c' = disk_read_write b wr c"
| "atomic_effect (Client b) c c' \<longleftrightarrow> disk c' = disk c \<and> (\<exists>x. bufs c' = (bufs c)[b := x])"
| "atomic_effect e c c' \<longleftrightarrow> c' = c"

lemma abs_cong: "dbufs d' = dbufs d \<Longrightarrow> sectors d' = sectors d \<Longrightarrow> abs_cache d' = abs_cache d"
  by (simp add: abs_cache_def cong: if_cong)

lemma disk_round_abs: "disk_round b wr d = Inr (r, i0, d') \<Longrightarrow> abs_cache d' = abs_cache d"
proof (cases rule: disk_round_cases [of d b wr])
  case (submitted j0 j1 j2)
  assume "disk_round b wr d = Inr (r, i0, d')"
  then show ?thesis using submitted(3) disk_submit_fields(8,9) [OF submitted(1), where b = b and wr = wr] by (intro abs_cong) auto
next
  case (full f w)
  assume "disk_round b wr d = Inr (r, i0, d')"
  then show ?thesis using full(1) by (intro abs_cong) auto
qed

lemma disk_wait_abs:
  assumes "reqs_ok d ph" "ph b = WaitBuf wr i" "disk_wait b i d = Inr (r, d')"
  shows "abs_cache d' = abs_cache d"
  using assms(1,2) by (cases rule: disk_wait_cases) (use assms(3) in \<open>auto intro: abs_cong\<close>)

lemma step_effect:
  assumes "dstep s e s'" "dinv A U s"
  shows "atomic_effect e (abs_cache (drv s)) (abs_cache (drv s'))"
  using assms
proof (induction rule: dstep.induct)
  case (d_again s b wr i0 ch d)
  then have r: "reqs_ok (drv s) (phase s)" by (simp add: dinv_def)
  show ?case using disk_wait_abs [OF r d_again(1,2)] by simp
next
  case (d_return s b wr i0 d)
  then have r: "reqs_ok (drv s) (phase s)" by (simp add: dinv_def)
  show ?case using disk_wait_abs [OF r d_return(1,2)] by simp
next
  case (d_intr s d)
  then show ?case using dinv_intr [of A U s] by (auto intro: abs_cong)
next
  case (d_serve q s h b i len)
  obtain b' wr where o: "phase s b' = WaitBuf wr q" "dev_chain q (drv s) = Some (request_hdr (b_blockno (dbufs (drv s) ! b')) wr, b', q)"
    using taken_owner [OF d_serve(3,1)] by metis
  then have e: "b = b'" "i = q" "h = request_hdr (b_blockno (dbufs (drv s) ! b')) wr" using d_serve(2) by auto
  have r: "reqs_ok (drv s) (phase s)" using d_serve(3) by (simp add: dinv_def)
  have l: "b' < length (dbufs (drv s))" using reqs_okD(3) [OF r o(1)] r by (simp add: reqs_ok_def)
  then have w: "b_blockno (dbufs (drv s) ! b') < 2 ^ 30" using r nth_mem [OF l] by (simp add: reqs_ok_def wf_buffer_def)
  have "oh_type h = VIRTIO_BLK_T_OUT \<longleftrightarrow> wr" by (simp add: e request_hdr_def)
  moreover have "abs_cache (dev_report q i 0 len (dev_io h b (drv s))) = abs_cache (dev_io h b (drv s))"
    by (rule abs_cong) (simp_all add: dev_report_def)
  ultimately show ?case using dev_io_transfer [OF w l, of wr] e by simp
next
  case (d_error q s h b i st len)
  then show ?case by (simp add: abs_cache_def dev_report_def cong: if_cong)
next
  case (d_client s b x)
  then show ?case by (auto simp: abs_cache_def cong: if_cong)
qed (simp_all add: disk_round_abs)

text \<open>How often a request was started, served and finished.\<close>

definition waits :: "dsys \<Rightarrow> nat \<Rightarrow> bool \<Rightarrow> bool" where
  "waits s b wr \<longleftrightarrow> phase s b = WaitFree wr \<or> (\<exists>i. phase s b = WaitBuf wr i)"

definition balanced_counts :: "ev list \<Rightarrow> dsys \<Rightarrow> bool" where
  "balanced_counts es s \<longleftrightarrow> (\<forall>b wr.
     count_list es (Start b wr) = count_list es (Return b wr) + (if waits s b wr then 1 else 0)
   \<and> count_list es (Transfer b wr) = count_list es (Return b wr) + (if waits s b wr \<and> b \<in> served s then 1 else 0))"

lemma count_snoc: "count_list (es @ [e]) x = count_list es x + (if e = x then 1 else 0)"
  by simp

lemma waits_phase_of: "waits (s\<lparr>phase := (phase s)(b := phase_of wr i ch)\<rparr>) b' wr' = (if b' = b then wr' = wr else waits s b' wr')"
  by (cases ch) (auto simp: waits_def)

lemma counts_same:
  assumes "balanced_counts es s" "\<And>b wr. waits s' b wr = waits s b wr" "\<And>b. b \<in> served s' \<longleftrightarrow> b \<in> served s"
  shows "balanced_counts (es @ [Tau]) s'" "balanced_counts (es @ [Client c]) s'"
  using assms by (simp_all add: balanced_counts_def)

lemma step_counts:
  assumes "dstep s e s'" "dinv A U s" "balanced_counts es s"
  shows "balanced_counts (es @ [e]) s'"
  using assms
proof (induction rule: dstep.induct)
  case (d_start s b wr ch i0 d)
  let ?s = "s\<lparr>drv := d, phase := (phase s)(b := phase_of wr i0 ch), served := served s - {b}\<rparr>"
  have w: "waits ?s b' wr' = (if b' = b then wr' = wr else waits s b' wr')" for b' wr'
    using waits_phase_of [of s b wr i0 ch b' wr'] by (simp add: waits_def)
  have n: "\<not> waits s b wr'" for wr' using d_start(1) by (simp add: waits_def)
  show ?case unfolding balanced_counts_def
  proof (intro allI)
    fix b' wr'
    show "count_list (es @ [Start b wr]) (Start b' wr') = count_list (es @ [Start b wr]) (Return b' wr') + (if waits ?s b' wr' then 1 else 0)
      \<and> count_list (es @ [Start b wr]) (Transfer b' wr') = count_list (es @ [Start b wr]) (Return b' wr') + (if waits ?s b' wr' \<and> b' \<in> served ?s then 1 else 0)"
      using d_start(5) n [of wr'] unfolding balanced_counts_def w by (cases "b' = b") auto
  qed
next
  case (d_retry s b wr ch i0 d)
  have "waits (s\<lparr>drv := d, phase := (phase s)(b := phase_of wr i0 ch)\<rparr>) b' wr' = waits s b' wr'" for b' wr'
    using waits_phase_of [of s b wr i0 ch b' wr'] d_retry(1) by (auto simp: waits_def)
  then show ?case using d_retry(4) by (intro counts_same(1)) auto
next
  case (d_again s b wr i0 ch d)
  then show ?case by (intro counts_same(1)) (auto simp: waits_def)
next
  case (d_return s b wr i0 d)
  let ?s = "s\<lparr>drv := d, phase := (phase s)(b := Idle)\<rparr>"
  have sv: "b \<in> served s" using dinv_return(2) [OF d_return(3,1,2)] .
  have w: "waits ?s b' wr' = (b' \<noteq> b \<and> waits s b' wr')" "waits s b wr' = (wr' = wr)" for b' wr' using d_return(1) by (auto simp: waits_def)
  show ?case unfolding balanced_counts_def
  proof (intro allI)
    fix b' wr'
    show "count_list (es @ [Return b wr]) (Start b' wr') = count_list (es @ [Return b wr]) (Return b' wr') + (if waits ?s b' wr' then 1 else 0)
      \<and> count_list (es @ [Return b wr]) (Transfer b' wr') = count_list (es @ [Return b wr]) (Return b' wr') + (if waits ?s b' wr' \<and> b' \<in> served ?s then 1 else 0)"
      using d_return(4) sv w(2) [of wr'] unfolding balanced_counts_def w(1) by (cases "b' = b") auto
  qed
next
  case (d_intr s d)
  then show ?case by (intro counts_same(1)) (auto simp: waits_def)
next
  case (d_take s)
  then show ?case by (intro counts_same(1)) (auto simp: waits_def)
next
  case (d_serve q s h b i len)
  let ?s = "s\<lparr>drv := dev_report q i 0 len (dev_io h b (drv s)), dev_taken := remove1 q (dev_taken s), served := insert b (served s)\<rparr>"
  obtain b' wr where o: "phase s b' = WaitBuf wr q" "dev_chain q (drv s) = Some (request_hdr (b_blockno (dbufs (drv s) ! b')) wr, b', q)" "b' \<notin> served s"
    using taken_owner [OF d_serve(3,1)] by metis
  then have e: "b = b'" "(oh_type h = VIRTIO_BLK_T_OUT) = wr" using d_serve(2) by (auto simp: request_hdr_def)
  have w: "waits ?s b1 wr1 = waits s b1 wr1" "waits s b wr1 = (wr1 = wr)" for b1 wr1 using o(1) e(1) by (auto simp: waits_def)
  show ?case unfolding balanced_counts_def e(2)
  proof (intro allI)
    fix b1 wr1
    show "count_list (es @ [Transfer b wr]) (Start b1 wr1) = count_list (es @ [Transfer b wr]) (Return b1 wr1) + (if waits ?s b1 wr1 then 1 else 0)
      \<and> count_list (es @ [Transfer b wr]) (Transfer b1 wr1) = count_list (es @ [Transfer b wr]) (Return b1 wr1) + (if waits ?s b1 wr1 \<and> b1 \<in> served ?s then 1 else 0)"
      using d_serve(4) o(3) e(1) w(2) [of wr1] unfolding balanced_counts_def w(1) by (cases "b1 = b") auto
  qed
next
  case (d_error q s h b i st len)
  then show ?case by (intro counts_same(1)) (auto simp: waits_def)
next
  case (d_client s b x)
  then show ?case by (intro counts_same(2)) (auto simp: waits_def)
qed

lemma trace_counts: "dtrace s0 es s \<Longrightarrow> balanced_counts es s"
proof (induction rule: dtrace.induct)
  case (dt_nil s)
  then show ?case by (simp add: balanced_counts_def dboot_def waits_def)
next
  case (dt_step s0 es s e s')
  then show ?case using dinv_trace step_counts by blast
qed

text \<open>How many requests are in flight.\<close>

definition in_flight :: "dsys \<Rightarrow> nat set" where
  "in_flight s = {b. \<exists>wr i. phase s b = WaitBuf wr i}"

lemma in_flight_card:
  assumes "dinv A U s"
  shows "finite (in_flight s)" "card {k. k < NUM \<and> \<not> vfree (drv s) k} = 3 * card (in_flight s)"
proof -
  let ?d = "drv s"
  have r: "reqs_ok ?d (phase s)" using assms by (simp add: dinv_def)
  have "in_flight s \<subseteq> {..<NUMBUF}" using reqs_okD(3) [OF r] by (auto simp: in_flight_def)
  then show fin: "finite (in_flight s)" by (rule finite_subset) simp
  define M where "M b = (case phase s b of WaitBuf wr i \<Rightarrow> members ?d i | _ \<Rightarrow> {})" for b
  have M: "M b = members ?d i" if "phase s b = WaitBuf wr i" for b wr i using that by (simp add: M_def)
  have c3: "card (M b) = 3" if b: "b \<in> in_flight s" for b
  proof -
    obtain wr i where p: "phase s b = WaitBuf wr i" using b by (auto simp: in_flight_def)
    have "distinct [i, next1 ?d i, next2 ?d i]" using reqs_okD(1) [OF r p] by (simp add: chain_ok_def chain_links_def)
    then show ?thesis using M [OF p] by (simp add: members_def)
  qed
  have "{k. k < NUM \<and> \<not> vfree ?d k} = (\<Union>b\<in>in_flight s. M b)"
  proof (intro set_eqI iffI)
    fix k assume "k \<in> {k. k < NUM \<and> \<not> vfree ?d k}"
    then obtain b wr i where "phase s b = WaitBuf wr i" "k \<in> members ?d i" using reqs_cover [OF r] by blast
    then have "b \<in> in_flight s" "k \<in> M b" using M by (auto simp: in_flight_def)
    then show "k \<in> (\<Union>b\<in>in_flight s. M b)" by blast
  next
    fix k assume "k \<in> (\<Union>b\<in>in_flight s. M b)"
    then obtain b wr i where "phase s b = WaitBuf wr i" "k \<in> members ?d i" using M by (auto simp: in_flight_def)
    then show "k \<in> {k. k < NUM \<and> \<not> vfree ?d k}" using reqs_okD(4) [OF r] by blast
  qed
  moreover have "card (\<Union>b\<in>in_flight s. M b) = (\<Sum>b\<in>in_flight s. card (M b))"
  proof (rule card_UN_disjoint [OF fin])
    show "\<forall>b\<in>in_flight s. finite (M b)" using c3 by (metis card.infinite zero_neq_numeral)
    show "\<forall>b\<in>in_flight s. \<forall>b'\<in>in_flight s. b \<noteq> b' \<longrightarrow> M b \<inter> M b' = {}"
      using reqs_disjoint(1) [OF r] M by (fastforce simp: in_flight_def)
  qed
  ultimately show "card {k. k < NUM \<and> \<not> vfree ?d k} = 3 * card (in_flight s)" using c3 by simp
qed

section \<open>Theorems\<close>

text \<open>A run for the witnesses: a driver after \<^verbatim>\<open>disk_init\<close>, a write request for buffer 0, which the device takes and serves.\<close>

definition disk0 :: dsk where
  "disk0 = \<lparr>vdesc = \<lambda>_. zero_desc, vavail = \<lambda>_. 0, vused_id = 0, velems = \<lambda>_. \<lparr>ue_id = 0, ue_len = 0\<rparr>, vfree = \<lambda>_. False, used_idx = 0,
     vinfos = \<lambda>_. \<lparr>in_b = None, in_status = 0\<rparr>, bdisk = \<lambda>_. 0,
     dbufs = replicate 31 \<lparr>b_valid = 0, b_dev = 0, b_blockno = 0, b_lock = initsleeplock [], b_refcount = 0, b_prev = 0, b_next = 0, b_data = [7]\<rparr>,
     sectors = \<lambda>_. [], wakes = [], mmio = []\<rparr>"

definition virtio_regs :: "u32 \<Rightarrow> u32" where
  "virtio_regs r = (if r = 0 then 0x74726976 else if r = 4 then 1 else if r = 8 then 2 else if r = 12 then 0x554d4551 else if r = 0x34 then 8 else 0)"

definition boot_disk :: dsk where "boot_disk = (case disk_init virtio_regs 0 disk0 of Inr d \<Rightarrow> d | Inl _ \<Rightarrow> disk0)"

definition boot_sys :: dsys where
  "boot_sys = \<lparr>drv = boot_disk, dev_avail = 0, dev_taken = [], phase = \<lambda>_. Idle, served = {}\<rparr>"

definition started_disk :: dsk where
  "started_disk = disk_submit 0 True 0 1 2 (boot_disk\<lparr>vfree := (vfree boot_disk)(0 := False, 1 := False, 2 := False)\<rparr>)"

definition started_sys :: dsys where
  "started_sys = boot_sys\<lparr>drv := started_disk, phase := (phase boot_sys)(0 := WaitBuf True 0), served := {}\<rparr>"

definition taken_sys :: dsys where
  "taken_sys = started_sys\<lparr>dev_taken := [0], dev_avail := 1\<rparr>"

lemma boot_disk_init: "disk_init virtio_regs 0 disk0 = Inr boot_disk"
  by (simp add: boot_disk_def disk_init_def virtio_regs_def Let_def)

lemma boot_disk_fields: "vfree boot_disk = (\<lambda>i. i < 8)" "vavail boot_disk = (\<lambda>_. 0)" "dbufs boot_disk = dbufs disk0"
  by (simp_all add: boot_disk_def disk_init_def virtio_regs_def Let_def reg_write_def)

lemma boot_sys_boots: "dboot boot_sys"
proof -
  have "used_idx disk0 = 0" by (simp add: disk0_def)
  then have "\<exists>reg pages d0. used_idx d0 = 0 \<and> disk_init reg pages d0 = Inr boot_disk" using boot_disk_init by blast
  then show ?thesis by (simp add: dboot_def boot_sys_def boot_disk_fields disk0_def wf_buffer_def)
qed

lemma boot_starts: "dstep boot_sys (Start 0 True) started_sys"
proof -
  have a: "alloc_desc (boot_disk\<lparr>vfree := f\<rparr>) = (Some i, boot_disk\<lparr>vfree := f(i := False)\<rparr>)" if "find f [0..<8] = Some i" for f i
    using that by (simp add: alloc_desc_def)
  have e: "boot_disk = boot_disk\<lparr>vfree := \<lambda>i. i < 8\<rparr>" using boot_disk_fields(1) by (metis dsk.surjective dsk.update_convs(5) dsk.select_convs(5))
  have u: "[0..<8] = [0, 1, 2, 3, 4, 5, 6, 7 :: nat]" by (simp add: upt_conv_Cons)
  have "alloc_desc boot_disk = (Some 0, boot_disk\<lparr>vfree := (\<lambda>i. i < 8)(0 := False)\<rparr>)"
    "alloc_desc (boot_disk\<lparr>vfree := (\<lambda>i. i < 8)(0 := False)\<rparr>) = (Some 1, boot_disk\<lparr>vfree := (\<lambda>i. i < 8)(0 := False, 1 := False)\<rparr>)"
    "alloc_desc (boot_disk\<lparr>vfree := (\<lambda>i. i < 8)(0 := False, 1 := False)\<rparr>) = (Some 2, boot_disk\<lparr>vfree := (\<lambda>i. i < 8)(0 := False, 1 := False, 2 := False)\<rparr>)"
    using a [of "\<lambda>i. i < 8" 0] e by (simp_all add: a u)
  then have "alloc3_desc boot_disk = Inr (Some [0, 1, 2], boot_disk\<lparr>vfree := (\<lambda>i. i < 8)(0 := False, 1 := False, 2 := False)\<rparr>)"
    by (simp add: alloc3_desc_def numeral_3_eq_3)
  then have "disk_round 0 True boot_disk = Inr (Asleep (OnBuf 0), 0, started_disk)"
    using disk_submit_fields(7) [of 0 1 2, where b = 0 and wr = True]
    by (simp add: disk_round_def disk_wait_def started_disk_def boot_disk_fields(1))
  then have "dstep boot_sys (Start 0 True) (boot_sys\<lparr>drv := started_disk, phase := (phase boot_sys)(0 := phase_of True 0 (OnBuf 0)), served := served boot_sys - {0}\<rparr>)"
    by (intro d_start) (simp_all add: boot_sys_def)
  then show ?thesis by (simp add: started_sys_def boot_sys_def)
qed

lemma started_taken: "dstep started_sys Tau taken_sys"
proof -
  note F = disk_submit_fields [of 0 1 2, where b = 0 and wr = True and d = "boot_disk\<lparr>vfree := (vfree boot_disk)(0 := False, 1 := False, 2 := False)\<rparr>", folded started_disk_def]
  have v: "vavail started_disk 1 = 1" "vavail started_disk 2 = 0" by (simp_all add: F(13) boot_disk_fields(2))
  then show ?thesis using d_take [of started_sys] by (simp add: started_sys_def boot_sys_def taken_sys_def)
qed

lemma taken_trace: "dtrace boot_sys [Start 0 True, Tau] taken_sys"
  using dt_step [OF dt_step [OF dt_nil [OF boot_sys_boots] boot_starts] started_taken] by simp

lemma taken_serves:
  "dstep taken_sys (Transfer 0 True) (taken_sys\<lparr>drv := dev_report 0 0 0 0 (dev_io (request_hdr 0 True) 0 started_disk), dev_taken := [], served := {0}\<rparr>)"
proof -
  note F = disk_submit_fields [of 0 1 2, where b = 0 and wr = True and d = "boot_disk\<lparr>vfree := (vfree boot_disk)(0 := False, 1 := False, 2 := False)\<rparr>", folded started_disk_def]
  have "b_blockno (dbufs boot_disk ! 0) = 0" by (simp add: boot_disk_fields(3) disk0_def)
  then have "dev_chain 0 started_disk = Some (request_hdr 0 True, 0, 0)" by (simp add: dev_chain_def Let_def F(1,3) F(2) [simplified])
  then show ?thesis using d_serve [of 0 taken_sys "request_hdr 0 True" 0 0 0]
    by (simp add: taken_sys_def started_sys_def boot_sys_def request_hdr_def)
qed

text \<open>(C10) The driver refines the atomic transfer that the block cache is built on: in every interleaving of callers, interrupts and
  device the cache and the disk change at one kind of step only, the device's service of a request, and that is
  exactly the effect of \<^verbatim>\<open>disk_read_write\<close> on the buffer of the request in the direction that was asked for. Everything else
  leaves them alone, apart from the owner of an idle buffer.\<close>

theorem disk_refines_atomic_transfer:
  assumes "dtrace s0 es s" "dstep s e s'"
  shows "atomic_effect e (abs_cache (drv s)) (abs_cache (drv s'))"
  using dinv_trace [OF assms(1)] step_effect [OF assms(2)] by blast

theorem disk_refines_atomic_transfer_witness:
  "abs_cache (dev_report 0 0 0 0 (dev_io (request_hdr 0 True) 0 started_disk)) = disk_read_write 0 True (abs_cache started_disk)"
  using disk_refines_atomic_transfer [OF taken_trace taken_serves] by (simp add: taken_sys_def started_sys_def)

text \<open>(C11) Every call of \<^verbatim>\<open>disk_read_write\<close> is served exactly once before it returns: in every run, for each buffer and direction, at
  most as many calls have returned as transfers were made, at most as many transfers were made as calls have
  started, and at most one call has not returned.\<close>

theorem disk_calls_served_once:
  assumes "dtrace s0 es s"
  shows "count_list es (Return b wr) \<le> count_list es (Transfer b wr) \<and> count_list es (Transfer b wr) \<le> count_list es (Start b wr)
    \<and> count_list es (Start b wr) \<le> count_list es (Return b wr) + 1"
proof -
  have "count_list es (Start b wr) = count_list es (Return b wr) + (if waits s b wr then 1 else 0)"
    "count_list es (Transfer b wr) = count_list es (Return b wr) + (if waits s b wr \<and> b \<in> served s then 1 else 0)"
    using trace_counts [OF assms] by (simp_all add: balanced_counts_def)
  then show ?thesis by auto
qed

theorem disk_calls_served_once_witness: "count_list [Start 0 True, Tau, Transfer 0 True] (Transfer 0 True) \<le> Suc 0"
  using disk_calls_served_once [OF dt_step [OF taken_trace taken_serves], of 0 True] by simp

text \<open>(C12) The driver never gets stuck: a round of \<^verbatim>\<open>disk_read_write\<close> and the continuation of a sleeping call never panic, and the
  interrupt handler panics only when the device has reported an error for a request.\<close>

theorem disk_driver_never_stuck:
  assumes "dtrace s0 es s"
  shows "(\<exists>ch i0 d. disk_round b wr (drv s) = Inr (Asleep ch, i0, d))
    \<and> (phase s b = WaitBuf wr i \<longrightarrow> (\<exists>r d. disk_wait b i (drv s) = Inr (r, d)))
    \<and> (virtio_disk_intr (drv s) = Inl e \<longrightarrow> e = Panic ''virtio_disk_intr status'' \<and> (\<exists>k. in_status (vinfos (drv s) k) \<noteq> 0))"
proof -
  obtain A U where inv: "dinv A U s" using dinv_trace [OF assms] by blast
  have r: "reqs_ok (drv s) (phase s)" using inv by (simp add: dinv_def)
  have "\<exists>ch i0 d. disk_round b wr (drv s) = Inr (Asleep ch, i0, d)" by (cases rule: disk_round_cases [of "drv s" b wr]) auto
  moreover have "\<exists>r d. disk_wait b i (drv s) = Inr (r, d)" if "phase s b = WaitBuf wr i"
    using r that by (cases rule: disk_wait_cases) auto
  ultimately show ?thesis using dinv_intr [OF inv] by auto
qed

theorem disk_driver_never_stuck_witness: "\<exists>r d. disk_wait 0 0 started_disk = Inr (r, d)"
  using disk_driver_never_stuck [OF taken_trace, of 0 True 0 "Panic []"] by (simp add: taken_sys_def started_sys_def)

text \<open>(C13) With its eight descriptors the driver has at most two requests in flight, a descriptor is in use only while its request is, and a
  caller has to wait for descriptors exactly when two requests are in flight.\<close>

theorem two_requests_in_flight:
  assumes "dtrace s0 es s"
  shows "card (in_flight s) \<le> 2 \<and> card {k. k < NUM \<and> \<not> vfree (drv s) k} = 3 * card (in_flight s)
    \<and> ((\<exists>i0 d. disk_round b wr (drv s) = Inr (Asleep OnFree, i0, d)) \<longleftrightarrow> card (in_flight s) = 2)"
proof -
  let ?free = "{k. k < NUM \<and> vfree (drv s) k}" and ?used = "{k. k < NUM \<and> \<not> vfree (drv s) k}"
  obtain A U where inv: "dinv A U s" using dinv_trace [OF assms] by blast
  have c: "card ?used = 3 * card (in_flight s)" using in_flight_card(2) [OF inv] .
  have "card (?free \<union> ?used) = card ?free + card ?used" by (rule card_Un_disjoint) auto
  moreover have "?free \<union> ?used = {..<NUM}" by auto
  ultimately have s: "card ?free + 3 * card (in_flight s) = 8" using c by simp
  have "(\<exists>i0 d. disk_round b wr (drv s) = Inr (Asleep OnFree, i0, d)) \<longleftrightarrow> card ?free < 3"
  proof (cases rule: disk_round_cases [of "drv s" b wr])
    case (submitted i0 i1 i2)
    have "{i0, i1, i2} \<subseteq> ?free" using submitted(2) by auto
    then have "card {i0, i1, i2} \<le> card ?free" by (intro card_mono) auto
    then show ?thesis using submitted(1,3) by auto
  next
    case (full f w)
    then show ?thesis by auto
  qed
  then show ?thesis using s c by auto
qed

theorem two_requests_in_flight_witness: "card {k. k < NUM \<and> \<not> vfree started_disk k} = 3 * card {0 :: nat}"
proof -
  have "in_flight taken_sys = {0}" by (auto simp: in_flight_def taken_sys_def started_sys_def boot_sys_def split: if_splits)
  then show ?thesis using two_requests_in_flight [OF taken_trace, of 1 True] by (simp add: taken_sys_def started_sys_def)
qed

end
