(* ===== verification/Trap.thy ===== *)
theory Trap
  imports Syscall Scheduling Disk
begin

text \<open>
  \<^verbatim>\<open>kernel/trap.c\<close> and \<^verbatim>\<open>kernel/plic.c\<close>: what the kernel does when a hart traps. The state is the whole system, the disk
  driver of theory \<^verbatim>\<open>Disk\<close>, the interrupt controller and the control registers of every hart. The interrupt-enable bit of
  \<^verbatim>\<open>sstatus\<close> is the field \<open>sie\<close> of the hart, so that the locks see it; the other bits are in \<open>r_sstatus\<close>. The addresses of
  the assembly routines are arguments.
\<close>

abbreviation "SSTATUS_SPP \<equiv> 0x100 :: u32"
abbreviation "SSTATUS_SIE \<equiv> 2 :: u32"
abbreviation "SSTATUS_SPIE \<equiv> 0x20 :: u32"
abbreviation "SOFTWARE_INTR \<equiv> 0x80000001 :: u32"
abbreviation "UART_INTR \<equiv> 10 :: u32"
abbreviation "VIRTIO_DISK \<equiv> 1 :: u32"
abbreviation "TF_KERNEL_SATP \<equiv> 0 :: nat"
abbreviation "TF_KERNEL_SP \<equiv> 4 :: nat"
abbreviation "TF_KERNEL_TRAP \<equiv> 8 :: nat"
abbreviation "TF_HARTID \<equiv> 16 :: nat"

section \<open>State\<close>

record csr =
  r_scause :: u32
  r_sepc :: u32
  r_stval :: u32
  r_sstatus :: u32
  r_stvec :: u32
  r_sip :: u32
  r_sie :: u32
  r_satp :: u32

record traps =
  t_sys :: ksys
  t_disk :: dsk
  t_reg :: "nat \<Rightarrow> csr"
  t_claim :: "nat \<Rightarrow> u32"
  t_plic :: "(u32 \<times> u32) list"

record vectors =
  v_env :: senv
  v_uvec :: u32
  v_utrapvec :: u32
  v_utrapreturn :: u32
  v_utrap :: u32
  v_ktrapvec :: u32

definition upd_reg :: "nat \<Rightarrow> (csr \<Rightarrow> csr) \<Rightarrow> traps \<Rightarrow> traps" where
  "upd_reg h f t = t\<lparr>t_reg := (t_reg t)(h := f (t_reg t h))\<rparr>"

definition upd_k :: "(kernel \<Rightarrow> kernel) \<Rightarrow> traps \<Rightarrow> traps" where
  "upd_k f t = t\<lparr>t_sys := (t_sys t)\<lparr>sk := f (sk (t_sys t))\<rparr>\<rparr>"

definition kern :: "traps \<Rightarrow> kernel" where
  "kern t = sk (t_sys t)"

definition run_k :: "(kernel \<Rightarrow> ('a \<times> kernel) res) \<Rightarrow> ('a \<Rightarrow> traps \<Rightarrow> 'b res) \<Rightarrow> traps \<Rightarrow> 'b res" where
  "run_k op f t = rbind (op (kern t)) (\<lambda>(r, k). f r (upd_k (\<lambda>_. k) t))"

definition run1_k :: "(kernel \<Rightarrow> kernel res) \<Rightarrow> traps \<Rightarrow> traps res" where
  "run1_k op t = rbind (op (kern t)) (\<lambda>k. Inr (upd_k (\<lambda>_. k) t))"

section \<open>Registers\<close>

definition set_sie :: "nat \<Rightarrow> bool \<Rightarrow> traps \<Rightarrow> traps" where
  "set_sie h b = upd_k (\<lambda>k. k\<lparr>mach := set_cpu h ((cpus (mach k) h)\<lparr>sie := b\<rparr>) (mach k)\<rparr>)"

definition get_intr :: "nat \<Rightarrow> traps \<Rightarrow> bool" where
  "get_intr h t = sie (hart (kern t) h)"

definition get_sstatus :: "nat \<Rightarrow> traps \<Rightarrow> u32" where
  "get_sstatus h t = (r_sstatus (t_reg t h) AND NOT SSTATUS_SIE) OR (if get_intr h t then SSTATUS_SIE else 0)"

definition write_sstatus :: "nat \<Rightarrow> u32 \<Rightarrow> traps \<Rightarrow> traps" where
  "write_sstatus h v t = set_sie h (v AND SSTATUS_SIE \<noteq> 0) (upd_reg h (\<lambda>r. r\<lparr>r_sstatus := v\<rparr>) t)"

definition enable_intr :: "nat \<Rightarrow> traps \<Rightarrow> traps" where
  "enable_intr h t = (let t = upd_reg h (\<lambda>r. r\<lparr>r_sie := r_sie r OR 0x222\<rparr>) t in write_sstatus h (get_sstatus h t OR SSTATUS_SIE) t)"

definition disable_intr :: "nat \<Rightarrow> traps \<Rightarrow> traps" where
  "disable_intr h t = write_sstatus h (get_sstatus h t AND NOT SSTATUS_SIE) t"

section \<open>The interrupt controller\<close>

definition PLIC_SCLAIM :: "nat \<Rightarrow> u32" where
  "PLIC_SCLAIM h = PLIC + 0x201004 + of_nat h * 0x2000"

definition PLIC_SPRIORITY :: "nat \<Rightarrow> u32" where
  "PLIC_SPRIORITY h = PLIC + 0x201000 + of_nat h * 0x2000"

definition PLIC_SENABLE :: "nat \<Rightarrow> u32" where
  "PLIC_SENABLE h = PLIC + 0x2080 + of_nat h * 0x100"

definition plic_store :: "u32 \<Rightarrow> u32 \<Rightarrow> traps \<Rightarrow> traps" where
  "plic_store a v t = t\<lparr>t_plic := t_plic t @ [(a, v)]\<rparr>"

definition plic_init :: "traps \<Rightarrow> traps" where
  "plic_init t = plic_store (PLIC + 1 * 4) 1 (plic_store (PLIC + 10 * 4) 1 t)"

definition plic_init_hart :: "nat \<Rightarrow> traps \<Rightarrow> traps" where
  "plic_init_hart h t = plic_store (PLIC_SPRIORITY h) 0 (plic_store (PLIC_SENABLE h) (push_bit 10 1 OR push_bit 1 1) t)"

text \<open>Reading the claim register gives the number of a pending interrupt, zero when there is none.\<close>

definition plic_read :: "nat \<Rightarrow> traps \<Rightarrow> u32" where
  "plic_read h t = t_claim t h"

definition plic_finished :: "nat \<Rightarrow> u32 \<Rightarrow> traps \<Rightarrow> traps" where
  "plic_finished h i = plic_store (PLIC_SCLAIM h) i"

section \<open>Interrupts\<close>

definition timer_interrupt :: "nat \<Rightarrow> ksys \<Rightarrow> ksys res" where
  "timer_interrupt h s =
     rbind (acq h TICKSLOCK (sk s)) (\<lambda>k.
       let s = s\<lparr>ticks := ticks s + 1\<rparr> in
       rbind (wakeup h TICKS k) (\<lambda>k. rbind (rel h TICKSLOCK k) (\<lambda>k. Inr (s\<lparr>sk := k\<rparr>))))"

text \<open>A driver records the channels it wakes; the processes that sleep on them are woken in the same order.\<close>

fun wake_all :: "nat \<Rightarrow> chan list \<Rightarrow> kernel \<Rightarrow> kernel res" where
  "wake_all h [] k = Inr k"
| "wake_all h (ch # chs) k = rbind (wakeup h ch k) (wake_all h chs)"

fun disk_chan :: "dchan \<Rightarrow> chan" where
  "disk_chan OnFree = ObjChan ''disk.free''"
| "disk_chan (OnBuf b) = BufChan b"

text \<open>What \<^verbatim>\<open>procdump\<close> prints from inside \<^verbatim>\<open>uart_intr\<close> goes through the argument \<open>pd\<close>.\<close>

definition uart_device_intr :: "(uart \<Rightarrow> uart res) \<Rightarrow> nat \<Rightarrow> kernel \<Rightarrow> kernel res" where
  "uart_device_intr pd h k =
     (let c = fcon (kfiles k) in
      rbind (uart_intr pd (c\<lparr>tty := (tty c)\<lparr>uwakes := []\<rparr>\<rparr>)) (\<lambda>c.
        wake_all h (map ObjChan (uwakes (tty c))) (k\<lparr>kfiles := (kfiles k)\<lparr>fcon := c\<rparr>\<rparr>)))"

definition disk_device_intr :: "nat \<Rightarrow> traps \<Rightarrow> traps res" where
  "disk_device_intr h t =
     rbind (virtio_disk_intr ((t_disk t)\<lparr>wakes := []\<rparr>)) (\<lambda>d.
       run1_k (wake_all h (map disk_chan (wakes d))) (t\<lparr>t_disk := d\<rparr>))"

definition handle_device_intr :: "(uart \<Rightarrow> uart res) \<Rightarrow> nat \<Rightarrow> traps \<Rightarrow> (int \<times> traps) res" where
  "handle_device_intr pd h t =
     (let scause = r_scause (t_reg t h) in
      if scause AND 0x80000000 \<noteq> 0 \<and> scause AND 0xff = 9 then
        let intr_id = plic_read h t in
        rbind (if intr_id = UART_INTR then run1_k (uart_device_intr pd h) t
               else if intr_id = VIRTIO_DISK then disk_device_intr h t
               else Inr t) (\<lambda>t. Inr (0, plic_finished h intr_id t))
      else if scause = SOFTWARE_INTR then
        rbind (if h = 0 then rbind (timer_interrupt h (t_sys t)) (\<lambda>s. Inr (t\<lparr>t_sys := s\<rparr>)) else Inr t) (\<lambda>t.
          Inr (1, upd_reg h (\<lambda>r. r\<lparr>r_sip := r_sip r AND NOT 2\<rparr>) t))
      else Inr (2, t))"

section \<open>Traps from user mode\<close>

text \<open>Back to user mode: the address that is jumped to and its two arguments, the trapframe and \<^verbatim>\<open>satp\<close>.\<close>

datatype trapped = ToUser u32 u32 u32 traps | Switched traps | Dead traps

definition utrapret :: "vectors \<Rightarrow> nat \<Rightarrow> traps \<Rightarrow> trapped res" where
  "utrapret v h = run_k (myproc h) (\<lambda>i t.
     let t = disable_intr h t;
         t = upd_reg h (\<lambda>r. r\<lparr>r_stvec := USERVEC + (v_utrapvec v - v_uvec v)\<rparr>) t;
         t = upd_k (set_tf i TF_KERNEL_SATP (r_satp (t_reg t h))) t;
         t = upd_k (set_tf i TF_KERNEL_SP (p_kernel_stack (procs (kern t) ! i) + PGESIZE)) t;
         t = upd_k (set_tf i TF_KERNEL_TRAP (v_utrap v)) t;
         t = upd_k (set_tf i TF_HARTID (of_nat h)) t;
         t = write_sstatus h ((get_sstatus h t AND NOT SSTATUS_SPP) OR SSTATUS_SPIE) t;
         t = upd_reg h (\<lambda>r. r\<lparr>r_sepc := tf_word i TF_PC (kern t)\<rparr>) t
     in Inr (ToUser (USERVEC + (v_utrapreturn v - v_uvec v)) TRAPFRAME (MAKE_SATP (p_pagetable (procs (kern t) ! i))) t))"

text \<open>\<^verbatim>\<open>exit(-1)\<close>.\<close>

definition trap_exit :: "vectors \<Rightarrow> nat \<Rightarrow> traps \<Rightarrow> trapped res" where
  "trap_exit v h = run_k (exit (e_im (v_env v)) h (- 1)) (\<lambda>_ t. Inr (Dead t))"

text \<open>The end of \<^verbatim>\<open>utrap\<close>, from the test of \<^verbatim>\<open>killed\<close> on; a process that slept in its system call gets here later. After a
  timer interrupt the process gives up the hart, and \<^verbatim>\<open>utrapret\<close> follows when it runs again.\<close>

definition utrap_end :: "vectors \<Rightarrow> nat \<Rightarrow> nat \<Rightarrow> int \<Rightarrow> traps \<Rightarrow> trapped res" where
  "utrap_end v h i intr_result t =
     (if p_killed (procs (kern t) ! i) \<noteq> 0 then trap_exit v h t
      else if intr_result = 1 then run_k (yield_enter h) (\<lambda>_ t. Inr (Switched t)) t
      else utrapret v h t)"

definition utrap_resume :: "vectors \<Rightarrow> nat \<Rightarrow> nat \<Rightarrow> bool \<Rightarrow> traps \<Rightarrow> trapped res" where
  "utrap_resume v h i b t = rbind (run1_k (yield_resume h i b) t) (utrapret v h)"

definition utrap_syscall :: "vectors \<Rightarrow> nat \<Rightarrow> nat \<Rightarrow> traps \<Rightarrow> trapped res" where
  "utrap_syscall v h i t =
     (if p_killed (procs (kern t) ! i) \<noteq> 0 then trap_exit v h t
      else
        let t = upd_k (\<lambda>k. set_tf i TF_PC (tf_word i TF_PC k + 4) k) t; t = enable_intr h t in
        rbind (handle_syscall (v_env v) h (t_sys t)) (\<lambda>r.
          case r of
            Returned _ s \<Rightarrow> utrap_end v h i 2 (t\<lparr>t_sys := s\<rparr>)
          | Suspended s \<Rightarrow> Inr (Switched (t\<lparr>t_sys := s\<rparr>))
          | Ended s \<Rightarrow> Inr (Dead (t\<lparr>t_sys := s\<rparr>))))"

definition utrap :: "vectors \<Rightarrow> (uart \<Rightarrow> uart res) \<Rightarrow> nat \<Rightarrow> traps \<Rightarrow> trapped res" where
  "utrap v pd h t =
     (if get_sstatus h t AND SSTATUS_SPP \<noteq> 0 then Inl (Panic ''trap not from user mdoe'')
      else
        run_k (myproc h) (\<lambda>i t.
          let t = upd_k (set_tf i TF_PC (r_sepc (t_reg t h))) t in
          if r_scause (t_reg t h) = 8 then utrap_syscall v h i t
          else rbind (handle_device_intr pd h t) (\<lambda>(r, t).
            utrap_end v h i r (if r \<noteq> 2 then t else upd_k (upd_proc i (\<lambda>p. p\<lparr>p_killed := 1\<rparr>)) t)))
        (upd_reg h (\<lambda>r. r\<lparr>r_stvec := v_ktrapvec v\<rparr>) t))"

section \<open>Traps from the kernel\<close>

text \<open>\<^verbatim>\<open>Inr (True, t)\<close>: the process of the hart gave it up and \<^verbatim>\<open>ktrap_end\<close> follows when it runs again.\<close>

definition ktrap_end :: "nat \<Rightarrow> u32 \<Rightarrow> u32 \<Rightarrow> traps \<Rightarrow> traps" where
  "ktrap_end h sepc sstatus t = write_sstatus h sstatus (upd_reg h (\<lambda>r. r\<lparr>r_sepc := sepc\<rparr>) t)"

definition ktrap :: "(uart \<Rightarrow> uart res) \<Rightarrow> nat \<Rightarrow> traps \<Rightarrow> (bool \<times> traps) res" where
  "ktrap pd h t =
     (let sepc = r_sepc (t_reg t h); sstatus = get_sstatus h t in
      if sstatus AND SSTATUS_SPP = 0 then Inl (Panic ''trap not in supervisor mode'')
      else if get_intr h t then Inl (Panic ''trap not in supervisor mode'')
      else rbind (handle_device_intr pd h t) (\<lambda>(r, t).
        if r = 2 then Inl (Panic ''kernel interrupt, ktrap'')
        else if r = 1 then
          run_k (get_process_struct h) (\<lambda>c t.
            case c of None \<Rightarrow> Inr (False, ktrap_end h sepc sstatus t)
            | Some i \<Rightarrow> run_k (get_process_struct h) (\<lambda>_ t.
                if pst (kern t) i = RUNNING then run_k (yield_enter h) (\<lambda>_ t. Inr (True, t)) t
                else Inr (False, ktrap_end h sepc sstatus t)) t) t
        else Inr (False, ktrap_end h sepc sstatus t)))"

definition ktrap_resume :: "nat \<Rightarrow> nat \<Rightarrow> bool \<Rightarrow> u32 \<Rightarrow> u32 \<Rightarrow> traps \<Rightarrow> traps res" where
  "ktrap_resume h i b sepc sstatus t = rbind (run1_k (yield_resume h i b) t) (\<lambda>t. Inr (ktrap_end h sepc sstatus t))"

definition init_trapvec :: "traps \<Rightarrow> traps" where
  "init_trapvec = upd_k (\<lambda>k. k\<lparr>mach := set_spin TICKSLOCK (initlock ''timer lock'') (mach k)\<rparr>)"

definition init_ktrapvec :: "vectors \<Rightarrow> nat \<Rightarrow> traps \<Rightarrow> traps" where
  "init_ktrapvec v h = upd_reg h (\<lambda>r. r\<lparr>r_stvec := v_ktrapvec v\<rparr>)"

section \<open>Traps keep the reference counts\<close>

definition trap_ok :: "traps \<Rightarrow> bool" where
  "trap_ok t \<longleftrightarrow> sys_ok (t_sys t)"

fun trapped_state :: "trapped \<Rightarrow> traps" where
  "trapped_state (ToUser a b c t) = t"
| "trapped_state (Switched t) = t"
| "trapped_state (Dead t) = t"

lemma trap_ok_kern: "trap_ok t \<longleftrightarrow> refs_ok {#} {} (kern t)"
  by (simp add: trap_ok_def sys_ok_def kern_def)

lemma trap_ok_sys: "sys_ok s \<Longrightarrow> trap_ok (t\<lparr>t_sys := s\<rparr>)"
  by (simp add: trap_ok_def)

lemma kern_simps [simp]:
  "kern (upd_k f t) = f (kern t)" "kern (upd_reg h g t) = kern t" "kern (plic_store a v t) = kern t" "kern (t\<lparr>t_disk := d\<rparr>) = kern t"
  "t_reg (upd_k f t) = t_reg t" "t_reg (upd_reg h g t) = (t_reg t)(h := g (t_reg t h))" "t_sys (upd_reg h g t) = t_sys t"
  by (simp_all add: kern_def upd_k_def upd_reg_def plic_store_def)

lemma kern_set_sie: "kern (set_sie h b t) = (kern t)\<lparr>mach := set_cpu h ((cpus (mach (kern t)) h)\<lparr>sie := b\<rparr>) (mach (kern t))\<rparr>"
  by (simp add: set_sie_def)

lemma trap_ok_steps:
  "trap_ok t \<Longrightarrow> trap_ok (upd_reg h g t)" "trap_ok t \<Longrightarrow> trap_ok (set_sie h b t)"
  "trap_ok t \<Longrightarrow> trap_ok (upd_k (set_tf i off w) t)" "trap_ok t \<Longrightarrow> trap_ok (write_sstatus h w t)"
  "trap_ok t \<Longrightarrow> trap_ok (enable_intr h t)" "trap_ok t \<Longrightarrow> trap_ok (disable_intr h t)" "trap_ok t \<Longrightarrow> trap_ok (plic_store a w t)"
  "trap_ok t \<Longrightarrow> trap_ok (t\<lparr>t_disk := d\<rparr>)"
  by (simp_all add: trap_ok_kern write_sstatus_def enable_intr_def disable_intr_def kern_set_sie set_tf_def Let_def rk.P_mach rk.P_mem)

lemma run_k_ok:
  "trap_ok t \<Longrightarrow> (\<And>k. refs_ok {#} {} k \<Longrightarrow> rk.keeps {#} {} (op k)) \<Longrightarrow> (\<And>r t. trap_ok t \<Longrightarrow> post Q (f r t)) \<Longrightarrow> post Q (run_k op f t)"
  unfolding run_k_def trap_ok_kern by (rule rk.bind2) auto

lemma run1_k_ok: "trap_ok t \<Longrightarrow> (\<And>k. refs_ok {#} {} k \<Longrightarrow> post (refs_ok {#} {}) (op k)) \<Longrightarrow> post trap_ok (run1_k op t)"
  unfolding run1_k_def trap_ok_kern by (rule rk.bind1) (auto intro: post_Inr)

lemma yield_enter_refs: "refs_ok X E k \<Longrightarrow> rk.keeps X E (yield_enter h k)"
  unfolding yield_enter_def by (rule rk.keep_procs rk.scheduler_enter_keeps | assumption)+

lemma wake_all_refs: "refs_ok X E k \<Longrightarrow> post (refs_ok X E) (wake_all h chs k)"
proof (induction chs arbitrary: k)
  case (Cons ch chs)
  show ?case unfolding wake_all.simps by (rule rk.bind1 [OF rk.wakeup_keeps [OF Cons.prems]]) (rule Cons.IH)
qed (simp add: post_Inr)

lemma uart_device_refs: "refs_ok X E k \<Longrightarrow> post (refs_ok X E) (uart_device_intr pd h k)"
  unfolding uart_device_intr_def Let_def by (rule post_pure, rule wake_all_refs, erule refs_ok_cong) simp_all

lemma timer_interrupt_ok: "sys_ok s \<Longrightarrow> post sys_ok (timer_interrupt h s)"
  unfolding timer_interrupt_def sys_ok_def
  by (rule rk.bind1 rk.acq_keeps rk.wakeup_keeps rk.rel_keeps post_Let | assumption | simp add: post_Inr)+

lemma handle_device_ok:
  assumes "trap_ok t"
  shows "post (\<lambda>(_, t'). trap_ok t') (handle_device_intr pd h t)"
proof -
  have disk: "post trap_ok (disk_device_intr h t)" unfolding disk_device_intr_def
    by (rule post_pure, rule run1_k_ok) (use assms in \<open>auto intro: trap_ok_steps wake_all_refs\<close>)
  have uart: "post trap_ok (run1_k (uart_device_intr pd h) t)" by (rule run1_k_ok [OF assms uart_device_refs])
  have ext: "post trap_ok (if i = UART_INTR then run1_k (uart_device_intr pd h) t else if i = VIRTIO_DISK then disk_device_intr h t else Inr t)" for i
    using assms disk uart by (auto intro: post_Inr)
  have timer: "post trap_ok (if h = 0 then rbind (timer_interrupt h (t_sys t)) (\<lambda>s. Inr (t\<lparr>t_sys := s\<rparr>)) else Inr t)"
    using assms by (auto intro!: post_Inr post_bind [OF timer_interrupt_ok] simp: trap_ok_def)
  have "post (\<lambda>(_, t'). trap_ok t') (rbind m (\<lambda>t. Inr (v, g t)))" if "post trap_ok m" "\<And>t. trap_ok t \<Longrightarrow> trap_ok (g t)"
    for m v and g :: "traps \<Rightarrow> traps" by (rule post_bind [OF that(1)]) (simp add: post_Inr that(2))
  note seq = this
  show ?thesis unfolding handle_device_intr_def Let_def plic_finished_def
    by (intro post_if seq ext timer trap_ok_steps) (simp_all add: post_Inr assms)
qed

lemma utrapret_ok: "trap_ok t \<Longrightarrow> post (\<lambda>r. trap_ok (trapped_state r)) (utrapret v h t)"
  unfolding utrapret_def Let_def
  by (rule run_k_ok rk.myproc_keeps | assumption | (rule post_Inr, simp only: trapped_state.simps, intro trap_ok_steps))+

lemma trap_exit_ok: "trap_ok t \<Longrightarrow> post (\<lambda>r. trap_ok (trapped_state r)) (trap_exit v h t)"
  unfolding trap_exit_def by (rule run_k_ok exit_refs | assumption | simp add: post_Inr)+

lemma utrap_end_ok: "trap_ok t \<Longrightarrow> post (\<lambda>r. trap_ok (trapped_state r)) (utrap_end v h i n t)"
  unfolding utrap_end_def
  by (rule post_if run_k_ok trap_exit_ok utrapret_ok yield_enter_refs | assumption | simp add: post_Inr)+

lemma live_cong: "procs k' = procs k \<Longrightarrow> cur k' = cur k \<Longrightarrow> live h k' = live h k"
  by (simp add: live_def)

lemma utrap_syscall_ok:
  assumes "trap_ok t" "live h (kern t)"
  shows "post (\<lambda>r. trap_ok (trapped_state r)) (utrap_syscall v h i t)"
proof -
  let ?t = "upd_k (\<lambda>k. set_tf i TF_PC (tf_word i TF_PC k + 4) k) t"
  have u: "trap_ok ?t" using assms(1) by (simp add: trap_ok_kern set_tf_def rk.P_mem)
  have "trap_ok (enable_intr h ?t)" using u by (rule trap_ok_steps)
  moreover have "live h (kern (enable_intr h ?t))"
    using assms(2) by (subst live_cong [of _ "kern t"])
      (simp_all add: enable_intr_def write_sstatus_def kern_set_sie Let_def set_tf_def)
  ultimately have "sys_ok (t_sys (enable_intr h ?t))" "live h (sk (t_sys (enable_intr h ?t)))" by (simp_all add: trap_ok_def kern_def)
  then have "post (\<lambda>r. sys_ok (called_state r)) (handle_syscall (v_env v) h (t_sys (enable_intr h ?t)))"
    using handle_syscall_ok by (auto simp: post_def)
  note call = this
  show ?thesis unfolding utrap_syscall_def Let_def
    by (rule post_if [OF trap_exit_ok [OF assms(1)]], rule post_bind [OF call])
      (auto split: called.splits intro!: utrap_end_ok post_Inr trap_ok_sys)
qed

lemma utrap_ok:
  assumes "trap_ok t" "live h (kern t)"
  shows "post (\<lambda>r. trap_ok (trapped_state r)) (utrap v pd h t)"
proof -
  have "post (\<lambda>r. trap_ok (trapped_state r))
      (let t = upd_k (set_tf i TF_PC (r_sepc (t_reg t h))) t in
          if r_scause (t_reg t h) = 8 then utrap_syscall v h i t
          else rbind (handle_device_intr pd h t) (\<lambda>(r, t).
            utrap_end v h i r (if r \<noteq> 2 then t else upd_k (upd_proc i (\<lambda>p. p\<lparr>p_killed := 1\<rparr>)) t)))"
    if t: "trap_ok t" "live h (kern t)" for i t
  proof -
    let ?t = "upd_k (set_tf i TF_PC (r_sepc (t_reg t h))) t"
    have u: "trap_ok ?t" using t(1) by (rule trap_ok_steps)
    have l: "live h (kern ?t)" using t(2) by (simp add: live_def set_tf_def)
    have "trap_ok t' \<Longrightarrow> trap_ok (if b then t' else upd_k (upd_proc i (\<lambda>p. p\<lparr>p_killed := 1\<rparr>)) t')" for b t'
      by (simp add: trap_ok_kern rk.P_upd)
    then show ?thesis unfolding Let_def
      by (intro post_if utrap_syscall_ok [OF u l] post_bind [OF handle_device_ok [OF u]]) (auto intro: utrap_end_ok)
  qed
  note body = this
  let ?t = "upd_reg h (\<lambda>r. r\<lparr>r_stvec := v_ktrapvec v\<rparr>) t"
  have "post (\<lambda>(_, k). refs_ok {#} {} k \<and> live h k) (myproc h (kern ?t))"
    by (rule rl.myproc_keeps) (use assms in \<open>simp add: trap_ok_kern\<close>)
  note my = this
  show ?thesis unfolding utrap_def run_k_def
    by (rule post_if, rule post_Inl, rule rl.bind2 [OF my], rule body) (simp_all add: trap_ok_kern)
qed

lemma ktrap_end_ok: "trap_ok t \<Longrightarrow> trap_ok (ktrap_end h a b t)"
  unfolding ktrap_end_def by (intro trap_ok_steps)

lemma ktrap_ok:
  assumes "trap_ok t"
  shows "post (\<lambda>(_, t'). trap_ok t') (ktrap pd h t)"
proof -
  have dev: "post Q (rbind (handle_device_intr pd h t) (\<lambda>(r, t). g r t))" if "\<And>r t. trap_ok t \<Longrightarrow> post Q (g r t)" for Q and g :: "int \<Rightarrow> traps \<Rightarrow> (bool \<times> traps) res"
    by (rule post_bind [OF handle_device_ok [OF assms]]) (auto intro: that)
  have ret: "trap_ok t \<Longrightarrow> post (\<lambda>(_, t'). trap_ok t') (Inr (b, t))" for b :: bool and t by (simp add: post_Inr)
  show ?thesis unfolding ktrap_def Let_def
    by (rule post_if post_Inl post_option dev run_k_ok ret rk.get_process_struct_keeps yield_enter_refs ktrap_end_ok | assumption)+
qed

section \<open>What a trap does\<close>

interpretation ln: table_frame "\<lambda>k. length (procs k) = n" for n
  by unfold_locales auto

interpretation zo: kernel_frame "\<lambda>k. pst k i = ZOMBIE \<and> p_exit_state (procs k ! i) = status" for i status
  by unfold_locales (auto simp: set_mem_def)

lemma exit_switch_zombie:
  assumes "length (procs k) = n" "i < n"
  shows "post (\<lambda>(_, k'). pst k' i = ZOMBIE \<and> p_exit_state (procs k' ! i) = status) (exit_switch h i status k)"
proof -
  let ?g = "\<lambda>p. p\<lparr>p_exit_state := status, p_state := ZOMBIE\<rparr>"
  let ?Z = "\<lambda>k. pst k i = ZOMBIE \<and> p_exit_state (procs k ! i) = status"
  have "?Z (upd_proc i ?g k')" if "length (procs k') = n" for k' using that assms(2) by (simp add: nth_upd_proc)
  note z = this
  have fin: "post (\<lambda>(_, k'). ?Z k') (let k = upd_proc i ?g k' in rbind (rel h WAITLOCK k) (scheduler_enter h))"
    if "length (procs k') = n" for k'
    by (rule post_Let zo.bind1 zo.rel_keeps zo.scheduler_enter_keeps z that | assumption)+
  show ?thesis unfolding exit_switch_def reparent_def
    by (rule fin ln.bind1 ln.acq_keeps ln.reparent_loop_keeps ln.wakeup_keeps assms(1) | assumption)+
qed

lemma exit_files_length: "post (\<lambda>k'. length (procs k') = length (procs k)) (exit_files im i l k)"
proof -
  have "exit_files im i l k = Inr k' \<Longrightarrow> length (procs k') = length (procs k)" for k'
    using exit_files_quiet [of im i l k k'] by (auto dest: quietD(3))
  then show ?thesis by (simp add: post_def)
qed

lemma exit_zombie:
  assumes "cur k h = Some i" "i < length (procs k)"
  shows "post (\<lambda>(_, k'). pst k' i = ZOMBIE \<and> p_exit_state (procs k' ! i) = status) (exit im h status k)"
  unfolding exit_def
proof (rule post_bind [OF myproc_post], clarify, rule post_if, rule post_Inl)
  fix j m assume "cur k h = Some j"
  then have j: "j = i" using assms(1) by simp
  let ?k = "k\<lparr>mach := m\<rparr>" and ?n = "length (procs k)"
  have files: "post (\<lambda>k'. length (procs k') = ?n) (exit_files im i [0..<NUMOFILES] ?k)"
    using exit_files_length [of ?k] by simp
  show "post (\<lambda>(_, k'). pst k' i = ZOMBIE \<and> p_exit_state (procs k' ! i) = status)
     (rbind (exit_files im j [0..<NUMOFILES] ?k) (\<lambda>k. rbind (exit_cwd im j k) (exit_switch h j status)))"
    unfolding j by (rule ln.bind1 [OF files] ln.bind1 [OF ln.exit_cwd_keeps] exit_switch_zombie assms(2) | assumption)+
qed

text \<open>The causes of a trap from user mode that the kernel deals with: system calls, device and timer interrupts.\<close>

definition handled :: "u32 \<Rightarrow> bool" where
  "handled c \<longleftrightarrow> c = 8 \<or> c AND 0x80000000 \<noteq> 0 \<and> c AND 0xff = 9 \<or> c = SOFTWARE_INTR"

text \<open>(C15) A trap from user mode whose cause the kernel has no use for (an exception other than a system call), or
  a system call of a process that has been killed, ends the process: when \<^verbatim>\<open>utrap\<close> gives the hart away, the process is a
  zombie with exit state -1, and it does not go back to user mode.\<close>

theorem exception_ends_process:
  assumes "cur (kern t) h = Some i" "i < length (procs (kern t))" "utrap v pd h t = Inr r"
    and "\<not> handled (r_scause (t_reg t h)) \<or> r_scause (t_reg t h) = 8 \<and> p_killed (procs (kern t) ! i) \<noteq> 0"
  shows "\<exists>t'. r = Dead t' \<and> pst (kern t') i = ZOMBIE \<and> p_exit_state (procs (kern t') ! i) = - 1"
proof -
  have dead: "\<exists>t'. r = Dead t' \<and> pst (kern t') i = ZOMBIE \<and> p_exit_state (procs (kern t') ! i) = - 1"
    if "cur (kern t1) h = Some i" "i < length (procs (kern t1))" "trap_exit v h t1 = Inr r" for t1
    using that(3) postD [OF exit_zombie [OF that(1,2)]] by (auto simp: trap_exit_def run_k_def rbind_eq_Inr)
  obtain m where m: "(let t = upd_k (set_tf i TF_PC (r_sepc (t_reg t h))) (upd_k (\<lambda>_. (kern t)\<lparr>mach := m\<rparr>) (upd_reg h (\<lambda>r. r\<lparr>r_stvec := v_ktrapvec v\<rparr>) t)) in
          if r_scause (t_reg t h) = 8 then utrap_syscall v h i t
          else rbind (handle_device_intr pd h t) (\<lambda>(r, t).
            utrap_end v h i r (if r \<noteq> 2 then t else upd_k (upd_proc i (\<lambda>p. p\<lparr>p_killed := 1\<rparr>)) t))) = Inr r"
    using assms(1,3) unfolding utrap_def run_k_def
    by (auto simp: rbind_eq_Inr split: if_splits dest!: postD [OF myproc_post])
  let ?t = "upd_k (set_tf i TF_PC (r_sepc (t_reg t h))) (upd_k (\<lambda>_. (kern t)\<lparr>mach := m\<rparr>) (upd_reg h (\<lambda>r. r\<lparr>r_stvec := v_ktrapvec v\<rparr>) t))"
  have k: "procs (kern ?t) = procs (kern t)" "cur (kern ?t) = cur (kern t)" "r_scause (t_reg ?t h) = r_scause (t_reg t h)"
    by (simp_all add: set_tf_def)
  show ?thesis
  proof (cases "r_scause (t_reg t h) = 8")
    case True
    then have "trap_exit v h ?t = Inr r" using m assms(4) k by (simp add: handled_def utrap_syscall_def Let_def)
    from dead [OF _ _ this] show ?thesis using assms(1,2) k by simp
  next
    case False
    then have c: "\<not> handled (r_scause (t_reg t h))" using assms(4) by blast
    let ?t2 = "upd_k (upd_proc i (\<lambda>p. p\<lparr>p_killed := 1\<rparr>)) ?t"
    have "handle_device_intr pd h ?t = Inr (2, ?t)" using c k(3) unfolding handle_device_intr_def Let_def handled_def by auto
    moreover have "p_killed (procs (kern ?t2) ! i) \<noteq> 0" using assms(2) k(1) by (simp add: nth_upd_proc)
    ultimately have "trap_exit v h ?t2 = Inr r" using m False k(3) by (simp add: Let_def utrap_end_def)
    from dead [OF _ _ this] show ?thesis using assms(1,2) k by simp
  qed
qed

lemma word_split_bit1: "((x :: u32) AND NOT 2) OR (if x AND 2 \<noteq> 0 then 2 else 0) = x"
proof -
  have "(if x AND 2 \<noteq> 0 then 2 else 0) = x AND 2"
    using and_exp_eq_0_iff_not_bit [of x 1] by (intro bit_word_eqI) (auto simp: bit_simps bit_2_iff)
  moreover have "(x AND NOT 2) OR (x AND 2) = x" by (intro bit_word_eqI) (auto simp: bit_simps)
  ultimately show ?thesis by simp
qed

lemma kern_write_sstatus:
  "kern (write_sstatus h x t) = (kern t)\<lparr>mach := set_cpu h ((cpus (mach (kern t)) h)\<lparr>sie := x AND SSTATUS_SIE \<noteq> 0\<rparr>) (mach (kern t))\<rparr>"
  by (simp add: write_sstatus_def kern_set_sie)

lemma get_intr_write: "get_intr h (write_sstatus h x t) = (x AND SSTATUS_SIE \<noteq> 0)"
  by (simp add: get_intr_def kern_write_sstatus set_cpu_def)

lemma get_write_sstatus: "get_sstatus h (write_sstatus h x t) = x"
proof -
  have "r_sstatus (t_reg (write_sstatus h x t) h) = x" by (simp add: write_sstatus_def set_sie_def)
  then show ?thesis unfolding get_sstatus_def get_intr_write by (simp only: word_split_bit1)
qed

lemma get_sstatus_upd:
  "get_sstatus h (upd_k (set_tf i n w) t) = get_sstatus h t"
  "get_sstatus h (upd_reg h (\<lambda>r. r\<lparr>r_stvec := a\<rparr>) t) = get_sstatus h t" "get_sstatus h (upd_reg h (\<lambda>r. r\<lparr>r_sepc := a\<rparr>) t) = get_sstatus h t"
  by (simp_all add: get_sstatus_def get_intr_def)

text \<open>The status register on the way to user mode.\<close>

lemma user_status:
  fixes y :: u32
  defines "x \<equiv> ((y AND NOT SSTATUS_SIE) AND NOT SSTATUS_SPP) OR SSTATUS_SPIE"
  shows "x AND SSTATUS_SPP = 0" "x AND SSTATUS_SPIE \<noteq> 0" "x AND SSTATUS_SIE = 0"
  using and_exp_eq_0_iff_not_bit [of x 8] and_exp_eq_0_iff_not_bit [of x 5] and_exp_eq_0_iff_not_bit [of x 1]
  by (simp_all add: x_def bit_simps)

lemma reg_write_sstatus: "t_reg (write_sstatus h x t) = (t_reg t)(h := (t_reg t h)\<lparr>r_sstatus := x\<rparr>)"
  by (simp add: write_sstatus_def set_sie_def)

text \<open>(C14) \<^verbatim>\<open>utrapret\<close> always leaves the kernel, through the trampoline with the page table of the process: interrupts
  are off until the return, which goes to user mode with interrupts on and to the saved program counter; the next trap
  enters at \<^verbatim>\<open>utrapvec\<close>; and of the trapframe exactly the four words are changed that the trap vector reads, every
  saved register keeps its value.\<close>

theorem utrapret_enters_user:
  assumes "cpu_ok (hart (kern t) h)" "cur (kern t) h = Some i" "aligned4 (p_trapframe (procs (kern t) ! i))"
  shows "\<exists>t'. utrapret v h t = Inr (ToUser (USERVEC + (v_utrapreturn v - v_uvec v)) TRAPFRAME (MAKE_SATP (p_pagetable (procs (kern t) ! i))) t')
    \<and> \<not> get_intr h t' \<and> get_sstatus h t' AND SSTATUS_SPP = 0 \<and> get_sstatus h t' AND SSTATUS_SPIE \<noteq> 0
    \<and> r_sepc (t_reg t' h) = tf_word i TF_PC (kern t) \<and> r_stvec (t_reg t' h) = USERVEC + (v_utrapvec v - v_uvec v)
    \<and> (\<forall>off<TRAPFRAME_SIZE. off mod 4 = 0 \<longrightarrow> tf_word i off (kern t') =
        (if off = TF_KERNEL_SATP then r_satp (t_reg t h)
         else if off = TF_KERNEL_SP then p_kernel_stack (procs (kern t) ! i) + PGESIZE
         else if off = TF_KERNEL_TRAP then v_utrap v
         else if off = TF_HARTID then of_nat h
         else tf_word i off (kern t)))"
proof -
  obtain k1 where k1: "myproc h (kern t) = Inr (i, k1)" "procs k1 = procs (kern t)" by (rule myproc_returns [OF assms(1,2)])
  have "k1 = (kern t)\<lparr>mach := mach k1\<rparr>" using myproc_frame(6) [OF assms(1) k1(1)] .
  then have mem: "pmem k1 = pmem (kern t)" by (metis kernel.ext_inject kernel.surjective kernel.update_convs(4) pmem_def)
  note tf = tf_word_set_tf assms(3) k1(2)
  have w: "tf_word i m (k\<lparr>mach := x\<rparr>) = tf_word i m k" for m k x by (simp add: tf_word_def pmem_def)
  have w1: "tf_word i m k1 = tf_word i m (kern t)" for m using mem k1(2) by (simp add: tf_word_def)
  let ?t1 = "upd_k (\<lambda>_. k1) t"
  let ?y = "get_sstatus h ?t1"
  let ?t2 = "upd_reg h (\<lambda>r. r\<lparr>r_stvec := USERVEC + (v_utrapvec v - v_uvec v)\<rparr>) (disable_intr h ?t1)"
  let ?t3 = "upd_k (set_tf i TF_KERNEL_SATP (r_satp (t_reg t h))) ?t2"
  let ?t4 = "upd_k (set_tf i TF_KERNEL_SP (p_kernel_stack (procs k1 ! i) + PGESIZE)) ?t3"
  let ?t5 = "upd_k (set_tf i TF_HARTID (of_nat h)) (upd_k (set_tf i TF_KERNEL_TRAP (v_utrap v)) ?t4)"
  let ?x = "((?y AND NOT SSTATUS_SIE) AND NOT SSTATUS_SPP) OR SSTATUS_SPIE"
  let ?t6 = "write_sstatus h ?x ?t5"
  let ?t7 = "upd_reg h (\<lambda>r. r\<lparr>r_sepc := tf_word i TF_PC (kern ?t6)\<rparr>) ?t6"
  have k2: "procs (kern ?t2) = procs (kern t)" "tf_word i m (kern ?t2) = tf_word i m (kern t)" for m
    by (simp_all add: disable_intr_def kern_write_sstatus k1(2) w w1)
  have k4: "procs (kern ?t4) = procs (kern t)" "procs (kern ?t3) = procs (kern t)" by (simp_all add: k2(1) del: kern_simps(2))
  have f: "tf_word i off (kern ?t6) = (if off = TF_KERNEL_SATP then r_satp (t_reg t h)
         else if off = TF_KERNEL_SP then p_kernel_stack (procs (kern t) ! i) + PGESIZE
         else if off = TF_KERNEL_TRAP then v_utrap v else if off = TF_HARTID then of_nat h else tf_word i off (kern t))"
    if "off mod 4 = 0" "off < TRAPFRAME_SIZE" for off
    using that assms(3) k2 k1(2) unfolding kern_write_sstatus w
    by (simp add: tf_word_set_tf del: kern_simps(2))
  have run: "utrapret v h t = Inr (ToUser (USERVEC + (v_utrapreturn v - v_uvec v)) TRAPFRAME (MAKE_SATP (p_pagetable (procs (kern t) ! i))) ?t7)"
  proof -
    have "get_sstatus h ?t5 = ?y AND NOT SSTATUS_SIE"
      unfolding get_sstatus_upd disable_intr_def get_write_sstatus ..
    moreover have "procs (kern ?t7) = procs (kern t)" using k2(1) by (simp add: kern_write_sstatus)
    moreover have "r_satp (t_reg ?t2 h) = r_satp (t_reg t h)" by (simp add: disable_intr_def reg_write_sstatus)
    moreover have "procs (kern ?t3) = procs k1" using k4(2) k1(2) by simp
    ultimately show ?thesis unfolding utrapret_def run_k_def k1(1) Let_def by (simp only: rbind_simps prod.case)
  qed
  have s7: "get_sstatus h ?t7 = ?x" by (simp add: get_sstatus_upd get_write_sstatus)
  have "get_intr h ?t7 = get_intr h ?t6" by (simp add: get_intr_def)
  then have i7: "\<not> get_intr h ?t7" using user_status(3) [of ?y] by (simp only: get_intr_write)
  have r7: "r_sepc (t_reg ?t7 h) = tf_word i TF_PC (kern t)" "r_stvec (t_reg ?t7 h) = USERVEC + (v_utrapvec v - v_uvec v)"
    using f [of TF_PC] by (simp_all add: reg_write_sstatus)
  have w7: "tf_word i off (kern ?t7) = tf_word i off (kern ?t6)" for off by simp
  show ?thesis
    by (rule exI [of _ ?t7], intro conjI allI impI run i7 r7) (use f in \<open>simp_all only: s7 user_status w7 not_False_eq_True\<close>)
qed

lemma sint_of_small:
  assumes "j < 2147483648"
  shows "sint (of_nat j :: u32) = int j"
proof -
  have "uint (of_nat j :: u32) = int j" using assms by (simp add: uint_nat unat_of_nat_u32)
  then show ?thesis using assms by (simp add: sint_u32)
qed


text \<open>(C2) Every trap, from user mode with any of the system calls in it or from the kernel, leaves the reference counts of
  open files exact: if before it the count of each file is the number of descriptors for it in the process table, then
  also after it, however it ends (back to the user, asleep, descheduled or with the process dead).\<close>

theorem traps_keep_reference_counts:
  assumes "trap_ok t" "live h (kern t)"
  shows "(\<forall>r. utrap v pd h t = Inr r \<longrightarrow> trap_ok (trapped_state r)) \<and> (\<forall>b t'. ktrap pd h t = Inr (b, t') \<longrightarrow> trap_ok t')"
  using postD [OF utrap_ok [OF assms]] postD [OF ktrap_ok [OF assms(1)]] by fastforce

section \<open>Witnesses\<close>

text \<open>A process with descriptor 0 open for file 3 that traps with the number of \<^verbatim>\<open>dup\<close> in its trapframe.\<close>

definition vec_w :: vectors where
  "vec_w = \<lparr>v_env = env_w, v_uvec = 0x80001000, v_utrapvec = 0x80001000, v_utrapreturn = 0x80001100, v_utrap = 0x80002000, v_ktrapvec = 0x80003000\<rparr>"

definition kernel_d :: kernel where
  "kernel_d = kernel_w\<lparr>procs := procs_w[0 := (procs_w ! 0)\<lparr>p_trapframe := 0x80019000, p_openfile := (replicate NUMOFILES None)[0 := Some 3]\<rparr>],
     mach := mach_w\<lparr>cpus := (\<lambda>_. \<lparr>depth_lock_intr_disable = 0, intr_prev_state = False, sie = False\<rparr>)\<rparr>,
     kfiles := files1\<lparr>fmem := store32 (\<lambda>_. 0) (0x80019000 + 84) 10\<rparr>\<rparr>"

definition reg_w :: csr where
  "reg_w = \<lparr>r_scause = 8, r_sepc = 0x100, r_stval = 0, r_sstatus = 0, r_stvec = 0, r_sip = 0, r_sie = 0, r_satp = 0x80080000\<rparr>"

definition traps_w :: traps where
  "traps_w = \<lparr>t_sys = \<lparr>sk = kernel_d, ticks = 0\<rparr>, t_disk = disk0, t_reg = (\<lambda>_. reg_w), t_claim = (\<lambda>_. 0), t_plic = []\<rparr>"

lemma handler_dup: "handler e h 10 = Some (plain (sys_dup e h))"
  by (simp add: handler_def syscall_def)

lemma dup_first:
  assumes "depth k h = 0" "cur k h = Some i" "p_openfile (procs k ! i) = (replicate NUMOFILES None)[0 := Some f]" "tf_word i TF_A0 k = 0"
    and "1 \<le> f_ref (ftable (kfiles k) ! f)"
  shows "\<exists>m. sys_dup e h k = Inr (1, set_fd i 1 (Some f) (k\<lparr>mach := m, kfiles := upd_file f (\<lambda>x. x\<lparr>f_ref := f_ref x + 1\<rparr>) (kfiles k)\<rparr>))
    \<and> depth_lock_intr_disable (cpus m h) = 0"
proof -
  let ?b = "\<lambda>k. k\<lparr>mach := set_cpu h ((cpus (mach k) h)\<lparr>intr_prev_state := sie (cpus (mach k) h)\<rparr>) (mach k)\<rparr>"
  have d: "depth (?b k') h = depth k' h" for k' by (simp add: set_cpu_def)
  have "argfd h 0 k = Inr (Some (0, f), ?b (?b k))"
    using assms by (simp add: argfd_def argint_def argraw_def myproc_eval d)
  moreover have "fd_scan (p_openfile (procs k ! i)) [0..<NUMFILE] = Inr (Some 1)"
    using assms(3) by (simp add: upt_conv_Cons)
  then have "fdalloc h f (?b (?b k)) = Inr (Some 1, set_fd i 1 (Some f) (?b (?b (?b k))))"
    using assms by (simp add: fdalloc_def myproc_eval d)
  moreover have "kdup f (set_fd i 1 (Some f) (?b (?b (?b k)))) = Inr (set_fd i 1 (Some f) ((?b (?b (?b k)))\<lparr>kfiles := upd_file f (\<lambda>x. x\<lparr>f_ref := f_ref x + 1\<rparr>) (kfiles k)\<rparr>))"
    using assms(5) unfolding kdup_set_fd by (simp add: kdup_def on_files_def file_dup_def)
  ultimately have "sys_dup e h k = Inr (1, set_fd i 1 (Some f) ((?b (?b (?b k)))\<lparr>kfiles := upd_file f (\<lambda>x. x\<lparr>f_ref := f_ref x + 1\<rparr>) (kfiles k)\<rparr>))"
    by (simp add: sys_dup_def)
  then show ?thesis using assms(1) by (intro exI [of _ "mach (?b (?b (?b k)))"]) (simp add: set_cpu_def)
qed

lemma kernel_d_fields:
  "depth kernel_d 0 = 0" "cur kernel_d = (\<lambda>_. None)(0 := Some 0)" "length (procs kernel_d) = MAXPROC"
  "p_trapframe (procs kernel_d ! 0) = 0x80019000" "p_killed (procs kernel_d ! 0) = 0" "pst kernel_d 0 = RUNNING"
  "p_openfile (procs kernel_d ! 0) = (replicate NUMOFILES None)[0 := Some 3]" "ftable (kfiles kernel_d) = ftable files1"
  by (simp_all add: kernel_d_def mach_w_def procs_w_def proc_w_def)

lemma kernel_d_words: "tf_word 0 TF_A7 kernel_d = 10" "tf_word 0 TF_A0 kernel_d = 0"
proof -
  have "pmem kernel_d = store32 (\<lambda>_. 0) (0x80019000 + 84) 10" by (simp add: kernel_d_def pmem_def)
  then show "tf_word 0 TF_A7 kernel_d = 10" "tf_word 0 TF_A0 kernel_d = 0"
    using load32_store32_same [of "\<lambda>_. 0" "0x80019000 + 84" 10]
    by (simp_all add: tf_word_def kernel_d_fields) (simp add: load32_def store32_def)
qed

lemma utrapret_returns:
  assumes "depth (kern t) h = 0" "cur (kern t) h = Some i"
  shows "\<exists>a b c t'. utrapret v h t = Inr (ToUser a b c t') \<and> procs (kern t') = procs (kern t) \<and> ftable (kfiles (kern t')) = ftable (kfiles (kern t))"
  using assms by (simp add: utrapret_def run_k_def myproc_eval Let_def disable_intr_def kern_write_sstatus set_tf_def)
    (simp add: set_mem_def)

lemma utrap_w:
  "\<exists>a b c t'. utrap vec_w Inr 0 traps_w = Inr (ToUser a b c t') \<and> p_openfile (procs (kern t') ! 0) ! 1 = Some 3
     \<and> f_ref (ftable (kfiles (kern t')) ! 3) = 2"
proof -
  let ?b = "\<lambda>k. k\<lparr>mach := set_cpu 0 ((cpus (mach k) 0)\<lparr>intr_prev_state := sie (cpus (mach k) 0)\<rparr>) (mach k)\<rparr>"
  let ?t0 = "upd_reg 0 (\<lambda>r. r\<lparr>r_stvec := v_ktrapvec vec_w\<rparr>) traps_w"
  let ?t1 = "upd_k (set_tf 0 TF_PC 0x100) (upd_k (\<lambda>_. ?b kernel_d) ?t0)"
  let ?t2 = "enable_intr 0 (upd_k (\<lambda>k. set_tf 0 TF_PC (tf_word 0 TF_PC k + 4) k) ?t1)"
  define K where "K = kern ?t2"
  have k0: "kern ?t0 = kernel_d" by (simp add: traps_w_def kern_def upd_reg_def)
  have Kf: "depth K 0 = 0" "cur K 0 = Some 0" "procs K = procs kernel_d" "ftable (kfiles K) = ftable files1"
    using kernel_d_fields by (simp_all add: K_def enable_intr_def Let_def kern_write_sstatus set_cpu_def set_tf_def) (simp add: set_mem_def)
  have al: "aligned4 (p_trapframe (procs kernel_d ! 0))" by (simp add: kernel_d_fields aligned4_def)
  have Kw: "tf_word 0 TF_A7 K = 10" "tf_word 0 TF_A0 K = 0"
    using al kernel_d_words by (simp_all add: K_def enable_intr_def Let_def kern_write_sstatus tf_word_set_tf)
  obtain m where m: "sys_dup env_w 0 (?b K) = Inr (1, set_fd 0 1 (Some 3) ((?b K)\<lparr>mach := m, kfiles := upd_file 3 (\<lambda>x. x\<lparr>f_ref := f_ref x + 1\<rparr>) (kfiles K)\<rparr>))"
    "depth_lock_intr_disable (cpus m 0) = 0"
    using dup_first [of "?b K" 0 0 3 env_w] Kf Kw kernel_d_fields by (auto simp: set_cpu_def files1_def)
  let ?k = "set_fd 0 1 (Some 3) ((?b K)\<lparr>mach := m, kfiles := upd_file 3 (\<lambda>x. x\<lparr>f_ref := f_ref x + 1\<rparr>) (kfiles K)\<rparr>)"
  define S where "S = t_sys ?t2"
  have SK: "sk S = K" by (simp add: K_def S_def kern_def)
  let ?s = "set_a0 0 1 (S\<lparr>sk := ?k\<rparr>)"
  have "v_env vec_w = env_w" by (simp add: vec_w_def)
  then have call: "handle_syscall (v_env vec_w) 0 S = Inr (Returned 1 ?s)"
    using Kf Kw m by (simp add: handle_syscall_def on_sk_def plain_def SK myproc_eval handler_dup)
  let ?t3 = "?t2\<lparr>t_sys := ?s\<rparr>"
  have "kern ?t3 = set_tf 0 TF_A0 1 ?k" by (simp add: kern_def set_a0_def)
  moreover have "p_openfile (procs ?k ! 0) ! 1 = Some 3" "p_killed (procs ?k ! 0) = 0"
    using Kf(3) kernel_d_fields by (simp_all add: openfile_set_fd) (simp add: set_fd_def nth_upd_proc)
  moreover have "f_ref (ftable (kfiles ?k) ! 3) = 2" using Kf(4) by (simp add: upd_file_def files1_def)
  moreover have "depth ?k 0 = 0" "cur ?k 0 = Some 0" using m(2) Kf(2) by (simp_all add: set_fd_def)
  ultimately have k3: "depth (kern ?t3) 0 = 0" "cur (kern ?t3) 0 = Some 0" "p_killed (procs (kern ?t3) ! 0) = 0"
    "p_openfile (procs (kern ?t3) ! 0) ! 1 = Some 3" "f_ref (ftable (kfiles (kern ?t3)) ! 3) = 2"
    by (simp_all add: set_tf_def) (simp add: set_mem_def)
  have my: "myproc 0 kernel_d = Inr (0, ?b kernel_d)" using kernel_d_fields by (simp add: myproc_eval)
  have st: "get_sstatus 0 traps_w AND SSTATUS_SPP = 0" "r_scause (t_reg ?t1 0) = 8" "r_sepc (t_reg (upd_k (\<lambda>_. ?b kernel_d) ?t0) 0) = 0x100"
    by (simp_all add: get_sstatus_def traps_w_def reg_w_def)
  have "p_killed (procs (kern ?t1) ! 0) = 0" using kernel_d_fields by simp
  note killed = this [THEN eq_reflection]
  have "utrap vec_w Inr 0 traps_w = utrap_syscall vec_w 0 0 ?t1"
    unfolding utrap_def run_k_def k0 my Let_def rbind_simps prod.case st(3) by (simp only: st if_True if_False simp_thms)
  also have "\<dots> = utrap_end vec_w 0 0 2 ?t3"
    unfolding utrap_syscall_def Let_def S_def [symmetric] killed by (simp only: call rbind_simps called.case simp_thms if_False)
  finally show ?thesis using utrapret_returns [OF k3(1,2), of vec_w] k3(3-5) by (auto simp: utrap_end_def)
qed

lemma kernel_d_proc: "j < MAXPROC \<Longrightarrow> p_openfile (procs kernel_d ! j) = (if j = 0 then (replicate NUMOFILES None)[0 := Some 3] else replicate NUMOFILES None)"
  by (auto simp: kernel_d_def procs_w_def proc_w_def nth_list_update_cases nth_Cons split: nat.splits)

lemma sum_list_none: "(\<And>x. x \<in> set xs \<Longrightarrow> g x = {#}) \<Longrightarrow> sum_list (map g xs) = ({#} :: 'a multiset)"
  by (induction xs) auto

lemma trap_ok_w: "trap_ok traps_w" "live 0 (kern traps_w)"
proof -
  have k: "kern traps_w = kernel_d" by (simp add: traps_w_def kern_def)
  have f0: "fds (procs kernel_d ! j) = {#}" if "j < MAXPROC" "j \<noteq> 0" for j
    using kernel_d_proc [OF that(1)] that(2) by (intro fds_none) (auto simp: in_set_conv_nth)
  have "fds (procs kernel_d ! 0) = {#3#}" using kernel_d_proc [of 0] by (simp add: fds_def sum_list_replicate replicate_app_Cons_same numeral_eq_Suc)
  moreover have "procs kernel_d = procs kernel_d ! 0 # tl (procs kernel_d)" using kernel_d_fields(3) by (cases "procs kernel_d") auto
  moreover have "sum_list (map fds (tl (procs kernel_d))) = {#}"
    by (rule sum_list_none) (auto simp: in_set_conv_nth nth_tl kernel_d_fields(3) f0)
  ultimately have h: "handles kernel_d = {#3#}" unfolding handles_def by (metis add.right_neutral list.simps(9) sum_list.Cons)
  have c: "counted (ftable files1) {#3#}"
    by (auto simp: counted_def files1_def file0_def nth_list_update_cases)
  show "trap_ok traps_w" unfolding trap_ok_kern k refs_ok_def h
    using c kernel_d_fields kernel_d_proc f0 by (auto split: if_splits, (metis proc_state.distinct gr0I)+)
  show "live 0 (kern traps_w)" unfolding k live_def using kernel_d_fields by simp
qed

theorem traps_keep_reference_counts_witness:
  "\<exists>a b c t'. utrap vec_w Inr 0 traps_w = Inr (ToUser a b c t') \<and> f_ref (ftable (kfiles (kern t')) ! 3) = 2 \<and> trap_ok t'"
proof -
  obtain a b c t' where t': "utrap vec_w Inr 0 traps_w = Inr (ToUser a b c t')" "f_ref (ftable (kfiles (kern t')) ! 3) = 2"
    using utrap_w by blast
  have "trap_ok (trapped_state (ToUser a b c t'))"
    using traps_keep_reference_counts [OF trap_ok_w, of vec_w Inr] t'(1) by blast
  then show ?thesis using t' by auto
qed

theorem utrapret_enters_user_witness:
  "\<exists>t'. utrapret vec_w 0 traps_w = Inr (ToUser 0xfffff100 TRAPFRAME (MAKE_SATP 0) t') \<and> \<not> get_intr 0 t'
     \<and> tf_word 0 TF_A7 (kern t') = 10 \<and> tf_word 0 TF_KERNEL_TRAP (kern t') = 0x80002000"
proof -
  have k: "kern traps_w = kernel_d" by (simp add: traps_w_def kern_def)
  have "p_pagetable (procs kernel_d ! 0) = 0" "cpu_ok (hart kernel_d 0)" "aligned4 (p_trapframe (procs kernel_d ! 0))"
    by (simp_all add: kernel_d_def procs_w_def proc_w_def cpu_ok_def aligned4_def)
  then obtain t' where "utrapret vec_w 0 traps_w = Inr (ToUser (USERVEC + (v_utrapreturn vec_w - v_uvec vec_w)) TRAPFRAME (MAKE_SATP 0) t')"
    "\<not> get_intr 0 t'"
    "\<forall>off<TRAPFRAME_SIZE. off mod 4 = 0 \<longrightarrow> tf_word 0 off (kern t') =
        (if off = TF_KERNEL_SATP then r_satp (t_reg traps_w 0)
         else if off = TF_KERNEL_SP then p_kernel_stack (procs kernel_d ! 0) + PGESIZE
         else if off = TF_KERNEL_TRAP then v_utrap vec_w
         else if off = TF_HARTID then of_nat 0
         else tf_word 0 off kernel_d)"
    using utrapret_enters_user [of traps_w 0 0 vec_w, unfolded k] kernel_d_fields(2) by auto
  then show ?thesis using kernel_d_words by (intro exI [of _ t']) (simp add: vec_w_def)
qed

definition sleep_w :: ksys where
  "sleep_w = \<lparr>sk = kernel_d\<lparr>mach := \<lparr>cpus = (\<lambda>_. \<lparr>depth_lock_intr_disable = 1, intr_prev_state = True, sie = False\<rparr>),
     spin = (\<lambda>_. initlock ''lock'')(TICKSLOCK := \<lparr>locked = 1, lname = ''timer lock'', lcpu = Some 0\<rparr>)\<rparr>\<rparr>, ticks = 1\<rparr>"


text \<open>A process that executes an illegal instruction.\<close>

definition traps_x :: traps where
  "traps_x = traps_w\<lparr>t_sys := \<lparr>sk = kernel_x, ticks = 0\<rparr>, t_reg := (\<lambda>_. reg_w\<lparr>r_scause := 2\<rparr>)\<rparr>"

lemma exit_files_none: "(\<And>fd. fd \<in> set l \<Longrightarrow> p_openfile (procs k ! i) ! fd = None) \<Longrightarrow> exit_files im i l k = Inr k"
  by (induction l) auto

lemma exit_cwd_w:
  assumes "ffs (kfiles k) = fs_i" "p_cwd (procs k ! i) = Some 0"
  shows "\<exists>k'. exit_cwd im i k = Inr k' \<and> mach k' = mach k \<and> cur k' = cur k \<and> length (procs k') = length (procs k)"
proof -
  have "log fs_i = log0\<lparr>num_syscalls := 1\<rparr>" "inode_table fs_i ! 0 = inode1" by (simp_all add: fs_i_def fs_tx_def)
  moreover have "log_count log0 = 0" "\<not> log_commit log0" by (simp_all add: log0_def)
  moreover have "i_num_link inode1 \<noteq> 0" by (simp add: inode1_def)
  ultimately show ?thesis using assms
    by (simp add: exit_cwd_def on_files_def with_fs_def begin_op_def inode_put_def end_op_def upd_log_def upd_inode_def Let_def)
qed

lemma exit_returns_w:
  assumes "cpu_ok (hart k h)" "depth k h = 0" "cur k h = Some i" "initproc k \<noteq> Some i" "length (procs k) = MAXPROC" "i < MAXPROC"
    and "p_openfile (procs k ! i) = replicate NUMOFILES None" "p_cwd (procs k ! i) = Some 0" "ffs (kfiles k) = fs_i"
    and "\<And>l. locked (spin (mach k) l) = 0"
  shows "\<exists>r. exit im h status k = Inr r"
proof -
  let ?k = "k\<lparr>mach := set_cpu h ((cpus (mach k) h)\<lparr>intr_prev_state := sie (cpus (mach k) h)\<rparr>) (mach k)\<rparr>"
  have e: "exit_files im i [0..<NUMOFILES] ?k = Inr ?k" by (rule exit_files_none) (simp add: assms(7))
  obtain k2 where k2: "exit_cwd im i ?k = Inr k2" "mach k2 = mach ?k" "cur k2 = cur ?k" "length (procs k2) = length (procs ?k)"
    using exit_cwd_w [of ?k i im] assms(8,9) by auto
  have "\<exists>b k'. exit_switch h i status k2 = Inr (b, k')"
    by (rule exit_switch_returns) (use k2 assms in \<open>simp_all add: set_cpu_def cpu_ok_def\<close>)
  then show ?thesis using e k2(1) assms(4) by (auto simp: exit_def myproc_eval [OF assms(2,3)])
qed

theorem exception_ends_process_witness:
  "\<exists>t'. utrap vec_w Inr 0 traps_x = Inr (Dead t') \<and> pst (kern t') 2 = ZOMBIE \<and> p_exit_state (procs (kern t') ! 2) = - 1"
proof -
  have kx: "kern traps_x = kernel_x" "cpu_ok (hart kernel_x 0)" "depth kernel_x 0 = 0" "cur kernel_x 0 = Some 2" "length (procs kernel_x) = MAXPROC"
    "initproc kernel_x = Some 0" "ffs (kfiles kernel_x) = fs_i" "p_cwd (procs kernel_x ! 2) = Some 0"
    "p_openfile (procs kernel_x ! 2) = replicate NUMOFILES None" "locked (spin (mach kernel_x) l) = 0" for l
    by (simp_all add: traps_x_def kern_def kernel_x_def, simp_all add: kernel_w_def procs_w_def proc_w_def)
  let ?b = "\<lambda>k. k\<lparr>mach := set_cpu 0 ((cpus (mach k) 0)\<lparr>intr_prev_state := sie (cpus (mach k) 0)\<rparr>) (mach k)\<rparr>"
  let ?t0 = "upd_reg 0 (\<lambda>r. r\<lparr>r_stvec := v_ktrapvec vec_w\<rparr>) traps_x"
  let ?t1 = "upd_k (set_tf 2 TF_PC 0x100) (upd_k (\<lambda>_. ?b kernel_x) ?t0)"
  let ?t2 = "upd_k (upd_proc 2 (\<lambda>p. p\<lparr>p_killed := 1\<rparr>)) ?t1"
  have my: "myproc 0 (kern ?t0) = Inr (2, ?b kernel_x)" using kx by (simp add: myproc_eval)
  have st: "get_sstatus 0 traps_x AND SSTATUS_SPP = 0" "r_scause (t_reg ?t1 0) = 2" "r_sepc (t_reg (upd_k (\<lambda>_. ?b kernel_x) ?t0) 0) = 0x100"
    by (simp_all add: get_sstatus_def traps_x_def reg_w_def)
  have dev: "handle_device_intr Inr 0 ?t1 = Inr (2, ?t1)" by (simp add: handle_device_intr_def traps_x_def)
  have "p_killed (procs (kern ?t2) ! 2) \<noteq> 0" using kx(5) by (simp add: nth_upd_proc)
  then have "utrap vec_w Inr 0 traps_x = trap_exit vec_w 0 ?t2"
    unfolding utrap_def run_k_def my Let_def rbind_simps prod.case st(3) using st(2) by (simp add: st(1) dev utrap_end_def)
  moreover have "\<exists>r. exit (e_im (v_env vec_w)) 0 (- 1) (kern ?t2) = Inr r"
    by (rule exit_returns_w [of _ _ 2]) (use kx in \<open>simp_all add: nth_upd_proc set_cpu_def cpu_ok_def\<close>, simp_all add: set_tf_def set_mem_def)
  ultimately have "\<exists>r. utrap vec_w Inr 0 traps_x = Inr r" by (auto simp: trap_exit_def run_k_def)
  then obtain r where r: "utrap vec_w Inr 0 traps_x = Inr r" by blast
  have "\<not> handled (r_scause (t_reg traps_x 0))" by (simp add: handled_def traps_x_def)
  with exception_ends_process [of traps_x 0 2 vec_w Inr r] kx r show ?thesis by auto
qed

end
