(* ===== verification/Format.thy ===== *)
theory Format
  imports Libc_String
begin

text \<open>
  Formatted output: \<^verbatim>\<open>user/printf.c\<close> and the kernel's \<^verbatim>\<open>libc/stdio/kprintf.c\<close>. The format string and the strings that
  \<^verbatim>\<open>%s\<close> prints are in memory; \<open>ap k\<close> is the word that the \<open>k\<close>-th \<^verbatim>\<open>va_arg\<close> reads. The user's \<^verbatim>\<open>putc\<close> writes one byte to a
  descriptor. The kernel sends characters in two ways, which the output keeps apart: \<^verbatim>\<open>console_putc\<close> waits for the device,
  \<^verbatim>\<open>uart_putc\<close> queues. A loop that runs through memory for ever is the value \<^term>\<open>None\<close>.
\<close>

unbundle bit_operations_syntax

abbreviation "PERCENT \<equiv> 37 :: byte"

definition bytes_of :: "string \<Rightarrow> byte list" where
  "bytes_of s = map of_char s"

section \<open>Numbers\<close>

definition digit :: "string \<Rightarrow> u32 \<Rightarrow> byte" where
  "digit digits x = of_char (digits ! unat x)"

text \<open>\<^verbatim>\<open>do { buf[i++] = digits[x % base]; } while((x /= base) != 0);\<close>: the buffer from its start. A base of at least 2 makes
  the number smaller.\<close>

function digit_loop :: "string \<Rightarrow> u32 \<Rightarrow> u32 \<Rightarrow> byte list" where
  "digit_loop digits base x =
     digit digits (x mod base) # (if x div base \<noteq> 0 \<and> 1 < base then digit_loop digits base (x div base) else [])"
  by pat_completeness auto
termination
proof (relation "measure (\<lambda>(d, b, x). unat x)")
  fix base x :: u32 and digits :: string
  assume *: "x div base \<noteq> 0 \<and> 1 < base"
  then have "unat x div unat base \<noteq> 0" "1 < unat base" by (auto simp: word_unat_eq_iff unat_div word_less_nat_alt)
  then have "unat x div unat base < unat x" by (intro div_less_dividend) (auto intro: gr0I)
  then show "((digits, base, x div base), digits, base, x) \<in> measure (\<lambda>(d, b, x). unat x)" by (simp add: unat_div)
qed simp

declare digit_loop.simps [simp del]

abbreviation "udigits \<equiv> ''0123456789ABCDEF''"
abbreviation "kdigits \<equiv> ''0123456789abcdef''"

definition printint :: "u32 \<Rightarrow> u32 \<Rightarrow> bool \<Rightarrow> byte list" where
  "printint xx base sg =
     (let neg = sg \<and> sint xx < 0; x = (if neg then - xx else xx);
          buf = digit_loop udigits base x @ (if neg then [45] else [])
      in rev buf)"

text \<open>\<^verbatim>\<open>for (i = 0; i < 8; i++, x <<= 4) putc(digits[x >> 28]);\<close>\<close>

fun hex_loop :: "string \<Rightarrow> nat \<Rightarrow> u32 \<Rightarrow> byte list" where
  "hex_loop digits 0 x = []"
| "hex_loop digits (Suc n) x = digit digits (drop_bit 28 x) # hex_loop digits n (push_bit 4 x)"

definition printptr :: "u32 \<Rightarrow> byte list" where
  "printptr x = [48, 120] @ hex_loop udigits 8 x"

section \<open>printf\<close>

text \<open>\<^verbatim>\<open>while (*s != 0) { putc(fd, *s); s++; }\<close>\<close>

partial_function (option) str_loop :: "mem \<Rightarrow> u32 \<Rightarrow> byte list option" where
  "str_loop m s = (if m s \<noteq> 0 then Option.bind (str_loop m (s + 1)) (\<lambda>r. Some (m s # r)) else Some [])"

definition str_arg :: "mem \<Rightarrow> u32 \<Rightarrow> byte list option" where
  "str_arg m s = (if s = 0 then Some (bytes_of ''(null)'') else str_loop m s)"

text \<open>What the character behind a percent sign prints, and whether it takes an argument.\<close>

definition uconv :: "mem \<Rightarrow> byte \<Rightarrow> u32 \<Rightarrow> (byte list \<times> bool) option" where
  "uconv m c a =
     (if c = of_char CHR ''d'' then Some (printint a 10 True, True)
      else if c = of_char CHR ''l'' then Some (printint a 10 False, True)
      else if c = of_char CHR ''x'' then Some (printint a 16 False, True)
      else if c = of_char CHR ''p'' then Some (printptr a, True)
      else if c = of_char CHR ''s'' then Option.bind (str_arg m a) (\<lambda>r. Some (r, True))
      else if c = of_char CHR ''c'' then Some ([ucast a], True)
      else if c = PERCENT then Some ([c], False)
      else Some ([PERCENT, c], False))"

partial_function (option) vprintf_loop :: "mem \<Rightarrow> (nat \<Rightarrow> u32) \<Rightarrow> bool \<Rightarrow> u32 \<Rightarrow> nat \<Rightarrow> byte list option" where
  "vprintf_loop m ap state p k =
     (if m p = 0 then Some []
      else if \<not> state then
        (if m p = PERCENT then vprintf_loop m ap True (p + 1) k
         else Option.bind (vprintf_loop m ap False (p + 1) k) (\<lambda>r. Some (m p # r)))
      else
        Option.bind (uconv m (m p) (ap k)) (\<lambda>(out, took).
        Option.bind (vprintf_loop m ap False (p + 1) (if took then Suc k else k)) (\<lambda>r. Some (out @ r))))"

definition vprintf :: "mem \<Rightarrow> u32 \<Rightarrow> (nat \<Rightarrow> u32) \<Rightarrow> byte list option" where
  "vprintf m fmt ap = vprintf_loop m ap False fmt 0"

section \<open>kprintf\<close>

datatype kout = Sync byte | Queued byte | Lock | Unlock

definition intprint :: "u32 \<Rightarrow> u32 \<Rightarrow> bool \<Rightarrow> kout list" where
  "intprint num base sign =
     (let sign = sign \<and> sint num < 0; x = (if sign then - num else num);
          buf = digit_loop kdigits base x @ (if sign then [45] else [])
      in map Queued (rev buf))"

definition ptr_print :: "u32 \<Rightarrow> kout list" where
  "ptr_print x = map Sync ([48, 120] @ hex_loop kdigits 8 x)"

definition kconv :: "mem \<Rightarrow> byte \<Rightarrow> u32 \<Rightarrow> (kout list \<times> bool) option" where
  "kconv m c a =
     (if c = of_char CHR ''c'' then Some ([Sync (ucast a)], True)
      else if c = of_char CHR ''s'' then Option.bind (str_arg m a) (\<lambda>r. Some (map Sync r, True))
      else if c = of_char CHR ''d'' then Some (intprint a 10 True, True)
      else if c = of_char CHR ''x'' then Some (intprint a 16 True, True)
      else if c = of_char CHR ''p'' then Some (ptr_print a, True)
      else Some ([], False))"

partial_function (option) kprintf_loop :: "mem \<Rightarrow> (nat \<Rightarrow> u32) \<Rightarrow> u32 \<Rightarrow> nat \<Rightarrow> kout list option" where
  "kprintf_loop m ap p k =
     (if m p = 0 then Some []
      else if m p \<noteq> PERCENT then Option.bind (kprintf_loop m ap (p + 1) k) (\<lambda>r. Some (Sync (m p) # r))
      else
        Option.bind (kconv m (m (p + 1)) (ap k)) (\<lambda>(out, took).
        Option.bind (kprintf_loop m ap (p + 2) (if took then Suc k else k)) (\<lambda>r. Some (out @ r))))"

record printer =
  locking :: bool
  panicked :: bool

definition kprintf_init :: "printer \<Rightarrow> printer" where
  "kprintf_init pr = pr\<lparr>locking := True\<rparr>"

definition kprintf :: "printer \<Rightarrow> mem \<Rightarrow> u32 \<Rightarrow> (nat \<Rightarrow> u32) \<Rightarrow> kout list option" where
  "kprintf pr m fmt ap =
     Option.bind (kprintf_loop m ap fmt 0) (\<lambda>r. Some (if locking pr then [Lock] @ r @ [Unlock] else r))"

text \<open>\<^verbatim>\<open>panic\<close> turns the lock off, prints three formats (its argument is one of them; \<open>pre\<close> and \<open>nl\<close> are the addresses of the
  two literals) and sets the flag before it loops for ever: the state it loops in.\<close>

definition panic :: "printer \<Rightarrow> mem \<Rightarrow> u32 \<Rightarrow> u32 \<Rightarrow> u32 \<Rightarrow> (nat \<Rightarrow> u32) \<Rightarrow> (kout list \<times> printer) option" where
  "panic pr m pre string nl ap =
     (let pr = pr\<lparr>locking := False\<rparr>
      in Option.bind (kprintf pr m pre ap) (\<lambda>a.
         Option.bind (kprintf pr m string ap) (\<lambda>b.
         Option.bind (kprintf pr m nl ap) (\<lambda>c. Some (a @ b @ c, pr\<lparr>panicked := True\<rparr>)))))"

section \<open>The digits are those of the number\<close>

function nat_digits :: "nat \<Rightarrow> nat \<Rightarrow> nat list" where
  "nat_digits b x = x mod b # (if x div b \<noteq> 0 \<and> 1 < b then nat_digits b (x div b) else [])"
  by pat_completeness auto
termination
  by (relation "measure snd") (auto intro!: div_less_dividend gr0I)

declare nat_digits.simps [simp del]

definition value_of :: "nat \<Rightarrow> nat list \<Rightarrow> nat" where
  "value_of b ds = foldr (\<lambda>d a. d + b * a) ds 0"

lemma digit_loop_nat:
  assumes "1 < base"
  shows "digit_loop digits base x = map (\<lambda>d. of_char (digits ! d)) (nat_digits (unat base) (unat x))"
  using assms
proof (induction digits base x rule: digit_loop.induct)
  case (1 digits base x)
  have "1 < unat base" using 1(2) by (simp add: word_less_nat_alt)
  moreover have "x div base \<noteq> 0 \<longleftrightarrow> unat x div unat base \<noteq> 0" by (simp add: word_unat_eq_iff unat_div)
  ultimately show ?case using 1
    by (simp add: digit_loop.simps [of digits base x] nat_digits.simps [of "unat base" "unat x"] digit_def unat_mod unat_div)
qed

lemma value_nat_digits: "1 < b \<Longrightarrow> value_of b (nat_digits b x) = x"
proof (induction b x rule: nat_digits.induct)
  case (1 b x)
  show ?case
  proof (cases "x div b = 0")
    case True
    then have "x mod b = x" using 1(2) by (auto simp: div_eq_0_iff)
    then show ?thesis using True by (simp add: nat_digits.simps [of b x] value_of_def)
  next
    case False
    then have "value_of b (nat_digits b (x div b)) = x div b" using 1 by simp
    then show ?thesis using False 1(2) by (simp add: nat_digits.simps [of b x] value_of_def)
  qed
qed

lemma nat_digits_less: "1 < b \<Longrightarrow> d \<in> set (nat_digits b x) \<Longrightarrow> d < b"
proof (induction b x rule: nat_digits.induct)
  case (1 b x)
  then show ?case by (subst (asm) (2) nat_digits.simps) (auto split: if_splits)
qed

text \<open>No more digits than needed: the number is at least the power of the base.\<close>

lemma nat_digits_length: "1 < b \<Longrightarrow> 0 < x \<Longrightarrow> b ^ (length (nat_digits b x) - 1) \<le> x"
proof (induction b x rule: nat_digits.induct)
  case (1 b x)
  show ?case
  proof (cases "x div b = 0")
    case True
    then show ?thesis using 1(3) by (simp add: nat_digits.simps [of b x])
  next
    case False
    then have "b ^ (length (nat_digits b (x div b)) - 1) \<le> x div b" using 1 by simp
    then have "b * b ^ (length (nat_digits b (x div b)) - 1) \<le> b * (x div b)" by simp
    also have "\<dots> \<le> x" by simp
    finally have *: "b * b ^ (length (nat_digits b (x div b)) - 1) \<le> x" .
    have "0 < length (nat_digits b (x div b))" by (subst nat_digits.simps) simp
    then have "b * b ^ (length (nat_digits b (x div b)) - 1) = b ^ length (nat_digits b (x div b))" by (cases "length (nat_digits b (x div b))") simp_all
    then show ?thesis using * False 1(2) by (simp add: nat_digits.simps [of b x])
  qed
qed

lemma digit_count:
  fixes x :: u32
  shows "length (nat_digits 10 (unat x)) \<le> 10" "length (nat_digits 16 (unat x)) \<le> 8"
proof -
  have x: "unat x < 4294967296" by (rule unat_less_2_32)
  show "length (nat_digits 10 (unat x)) \<le> 10"
  proof (rule ccontr)
    assume *: "\<not> ?thesis"
    then have "0 < unat x" by (cases "unat x = 0") (simp_all add: nat_digits.simps)
    then have "(10::nat) ^ (length (nat_digits 10 (unat x)) - 1) \<le> unat x" by (intro nat_digits_length) simp_all
    moreover have "(10::nat) ^ 10 \<le> 10 ^ (length (nat_digits 10 (unat x)) - 1)" using * by (intro power_increasing) simp_all
    ultimately show False using x by simp
  qed
  show "length (nat_digits 16 (unat x)) \<le> 8"
  proof (rule ccontr)
    assume *: "\<not> ?thesis"
    then have "0 < unat x" by (cases "unat x = 0") (simp_all add: nat_digits.simps)
    then have "(16::nat) ^ (length (nat_digits 16 (unat x)) - 1) \<le> unat x" by (intro nat_digits_length) simp_all
    moreover have "(16::nat) ^ 8 \<le> 16 ^ (length (nat_digits 16 (unat x)) - 1)" using * by (intro power_increasing) simp_all
    ultimately show False using x by simp
  qed
qed

text \<open>The ten decimal digits of both tables.\<close>

lemma decimal_digit: "d < 10 \<Longrightarrow> of_char (udigits ! d) = (48 + of_nat d :: byte)" "d < 10 \<Longrightarrow> of_char (kdigits ! d) = (48 + of_nat d :: byte)"
proof -
  assume "d < 10"
  then have "d \<in> {0, 1, 2, 3, 4, 5, 6, 7, 8, 9}" by auto
  then show "of_char (udigits ! d) = (48 + of_nat d :: byte)" "of_char (kdigits ! d) = (48 + of_nat d :: byte)"
    by (elim insertE emptyE; hypsubst; simp)+
qed

definition decimal :: "nat \<Rightarrow> byte list" where
  "decimal x = map (\<lambda>d. 48 + of_nat d) (rev (nat_digits 10 x))"

lemma digit_loop_decimal: "rev (digit_loop udigits 10 x) = decimal (unat x)" "rev (digit_loop kdigits 10 x) = decimal (unat x)"
proof -
  have d: "d < 10" if "d \<in> set (nat_digits 10 (unat x))" for d using nat_digits_less [OF _ that] by simp
  have "rev (map (\<lambda>d. of_char (ds ! d)) (nat_digits 10 (unat x))) = decimal (unat x)" if "\<And>d. d < 10 \<Longrightarrow> of_char (ds ! d) = (48 + of_nat d :: byte)" for ds
    using d that by (simp add: decimal_def rev_map)
  then show "rev (digit_loop udigits 10 x) = decimal (unat x)" "rev (digit_loop kdigits 10 x) = decimal (unat x)"
    using decimal_digit by (simp_all add: digit_loop_nat)
qed

lemma nat_minus_sint:
  assumes "sint (x :: u32) < 0"
  shows "unat (- x) = nat (- sint x)"
proof -
  have u: "sint x = uint x - 4294967296" "2147483648 \<le> uint x" using assms sint_u32 [of x] uint_less_2_32 [of x] by (auto split: if_splits)
  have "uint (- x) = (- uint x) mod 4294967296" by (simp add: uint_word_ariths take_bit_eq_mod)
  also have "\<dots> = 4294967296 - uint x" using u uint_less_2_32 [of x] by (simp add: zmod_zminus1_eq_if)
  finally show ?thesis using u by (simp add: unat_eq_nat_uint)
qed

section \<open>What a format prints\<close>

text \<open>A number in decimal, with its sign; the digits of a hexadecimal number, from a table.\<close>

definition signed_decimal :: "int \<Rightarrow> byte list" where
  "signed_decimal i = (if i < 0 then [45] else []) @ decimal (nat \<bar>i\<bar>)"

definition hexadecimal :: "string \<Rightarrow> nat \<Rightarrow> byte list" where
  "hexadecimal digits x = map (\<lambda>d. of_char (digits ! d)) (rev (nat_digits 16 x))"

lemma nat_sint:
  assumes "\<not> sint (x :: u32) < 0"
  shows "nat (sint x) = unat x"
proof -
  have "sint x = uint x"
  proof (cases "uint x < 2147483648")
    case True
    then show ?thesis by (simp only: sint_u32 if_True)
  next
    case False
    then have "sint x = uint x - 4294967296" by (simp only: sint_u32 if_False)
    then show ?thesis using assms uint_less_2_32 [of x] by linarith
  qed
  then show ?thesis by simp
qed

lemma signed_digits:
  assumes "\<And>x. rev (digit_loop ds 10 x) = decimal (unat x)"
  shows "rev (digit_loop ds 10 (if sint x < 0 then - x else x) @ (if sint x < 0 then [45] else [])) = signed_decimal (sint x)"
proof (cases "sint x < 0")
  case True
  then show ?thesis using assms by (simp add: signed_decimal_def nat_minus_sint)
next
  case False
  then have "nat (sint x) = unat x" by (rule nat_sint)
  then show ?thesis using assms False by (simp add: signed_decimal_def)
qed

lemma printint_signed: "printint x 10 True = signed_decimal (sint x)"
  using signed_digits [OF digit_loop_decimal(1), of x] by (simp add: printint_def Let_def)

lemma printint_unsigned: "printint x 10 False = decimal (unat x)"
  by (simp add: printint_def digit_loop_decimal)

lemma printint_hex: "printint x 16 False = hexadecimal udigits (unat x)"
  by (simp add: printint_def digit_loop_nat hexadecimal_def rev_map)

lemma intprint_decimal: "intprint x 10 True = map Queued (signed_decimal (sint x))"
  by (simp only: intprint_def Let_def simp_thms signed_digits [OF digit_loop_decimal(2), of x])

text \<open>The kernel's \<^verbatim>\<open>%x\<close> asks for a sign: a number above the signed range comes out negative.\<close>

definition signed_hex :: "int \<Rightarrow> byte list" where
  "signed_hex i = (if i < 0 then [45] else []) @ hexadecimal kdigits (nat \<bar>i\<bar>)"

lemma intprint_hex: "intprint x 16 True = map Queued (signed_hex (sint x))"
proof (cases "sint x < 0")
  case True
  then show ?thesis by (simp add: intprint_def Let_def digit_loop_nat signed_hex_def hexadecimal_def nat_minus_sint rev_map)
next
  case False
  then have "nat (sint x) = unat x" by (rule nat_sint)
  then show ?thesis using False by (simp add: intprint_def digit_loop_nat signed_hex_def hexadecimal_def rev_map)
qed

text \<open>A string in memory, with its final NUL.\<close>

fun str_at :: "mem \<Rightarrow> u32 \<Rightarrow> byte list \<Rightarrow> bool" where
  "str_at m p [] = (m p = 0)"
| "str_at m p (c # cs) = (m p = c \<and> c \<noteq> 0 \<and> str_at m (p + 1) cs)"

lemma str_loop_str_at: "str_at m s cs \<Longrightarrow> str_loop m s = Some cs"
  by (induction cs arbitrary: s) (simp_all add: str_loop.simps [of m s for s])

text \<open>A format as the list of its pieces, each with its argument.\<close>

datatype piece = Text byte | Dec u32 | Udec u32 | Hex u32 | Ptr u32 | Str u32 "byte list" | Chr u32 | Pct

fun spelled :: "piece \<Rightarrow> byte list" where
  "spelled (Text c) = [c]"
| "spelled (Dec a) = bytes_of ''%d''"
| "spelled (Udec a) = bytes_of ''%l''"
| "spelled (Hex a) = bytes_of ''%x''"
| "spelled (Ptr a) = bytes_of ''%p''"
| "spelled (Str a s) = bytes_of ''%s''"
| "spelled (Chr a) = bytes_of ''%c''"
| "spelled Pct = bytes_of ''%%''"

fun args_of :: "piece \<Rightarrow> u32 list" where
  "args_of (Text c) = []"
| "args_of Pct = []"
| "args_of (Dec a) = [a]"
| "args_of (Udec a) = [a]"
| "args_of (Hex a) = [a]"
| "args_of (Ptr a) = [a]"
| "args_of (Str a s) = [a]"
| "args_of (Chr a) = [a]"

text \<open>Text is no percent sign and no NUL; the string of a null pointer is a substitute.\<close>

fun piece_ok :: "mem \<Rightarrow> piece \<Rightarrow> bool" where
  "piece_ok m (Text c) = (c \<noteq> PERCENT \<and> c \<noteq> 0)"
| "piece_ok m (Str a s) = (if a = 0 then s = bytes_of ''(null)'' else str_at m a s)"
| "piece_ok m _ = True"

fun hex8 :: "string \<Rightarrow> u32 \<Rightarrow> byte list" where
  "hex8 digits a = map (\<lambda>i. of_char (digits ! (unat (take_bit 4 (drop_bit (4 * i) a))))) [7, 6, 5, 4, 3, 2, 1, 0]"

fun shown :: "piece \<Rightarrow> byte list" where
  "shown (Text c) = [c]"
| "shown (Dec a) = signed_decimal (sint a)"
| "shown (Udec a) = decimal (unat a)"
| "shown (Hex a) = hexadecimal udigits (unat a)"
| "shown (Ptr a) = bytes_of ''0x'' @ hex8 udigits a"
| "shown (Str a s) = s"
| "shown (Chr a) = [ucast a]"
| "shown Pct = [PERCENT]"

lemma hex_top:
  fixes x :: u32
  assumes "k < 8"
  shows "drop_bit 28 (push_bit (4 * k) x) = take_bit 4 (drop_bit (4 * (7 - k)) x)"
proof (rule bit_word_eqI)
  fix n assume "n < LENGTH(32)"
  then show "bit (drop_bit 28 (push_bit (4 * k) x)) n = bit (take_bit 4 (drop_bit (4 * (7 - k)) x)) n"
    using assms by (auto simp: bit_drop_bit_eq bit_push_bit_iff bit_take_bit_iff algebra_simps dest: bit_imp_le_length)
qed

lemma hex_loop_digits: "n + k = 8 \<Longrightarrow> hex_loop digits n (push_bit (4 * k) x) = map (\<lambda>i. digit digits (take_bit 4 (drop_bit (4 * i) x))) (rev [0..<n])"
proof (induction n arbitrary: k)
  case (Suc n)
  have "push_bit 4 (push_bit (4 * k) x) = push_bit (4 * Suc k) x" by (simp add: push_bit_push_bit)
  moreover have "digit digits (drop_bit 28 (push_bit (4 * k) x)) = digit digits (take_bit 4 (drop_bit (4 * n) x))"
  proof -
    have "7 - k = n" "k < 8" using Suc.prems by simp_all
    then show ?thesis by (simp add: hex_top)
  qed
  moreover have "hex_loop digits n (push_bit (4 * Suc k) x) = map (\<lambda>i. digit digits (take_bit 4 (drop_bit (4 * i) x))) (rev [0..<n])"
    using Suc.prems by (intro Suc.IH) simp
  ultimately show ?case by simp
qed simp

lemma hex_loop_hex8: "hex_loop digits 8 x = hex8 digits x"
  using hex_loop_digits [of 8 0 digits x] by (simp add: digit_def upt_conv_Cons)

text \<open>One piece at a time: what the loop of \<^verbatim>\<open>vprintf\<close> does at the start of a piece.\<close>

lemma ascii [simp]:
  "bytes_of ''%d'' = [37, 100]" "bytes_of ''%l'' = [37, 108]" "bytes_of ''%x'' = [37, 120]" "bytes_of ''%p'' = [37, 112]"
  "bytes_of ''%s'' = [37, 115]" "bytes_of ''%c'' = [37, 99]" "bytes_of ''%%'' = [37, 37]" "bytes_of ''0x'' = [48, 120]"
  by (simp_all add: bytes_of_def)

lemma printf_step:
  "m p = 0 \<Longrightarrow> vprintf_loop m ap False p k = Some []"
  "m p \<noteq> 0 \<Longrightarrow> m p \<noteq> PERCENT \<Longrightarrow> vprintf_loop m ap False p k = Option.bind (vprintf_loop m ap False (p + 1) k) (\<lambda>r. Some (m p # r))"
  "m p = PERCENT \<Longrightarrow> m (p + 1) \<noteq> 0 \<Longrightarrow> vprintf_loop m ap False p k =
     Option.bind (uconv m (m (p + 1)) (ap k)) (\<lambda>(out, took).
     Option.bind (vprintf_loop m ap False (p + 1 + 1) (if took then Suc k else k)) (\<lambda>r. Some (out @ r)))"
  by (simp_all add: vprintf_loop.simps [of m ap False p k] vprintf_loop.simps [of m ap True "p + 1" k])

lemma kprintf_step:
  "m p = 0 \<Longrightarrow> kprintf_loop m ap p k = Some []"
  "m p \<noteq> 0 \<Longrightarrow> m p \<noteq> PERCENT \<Longrightarrow> kprintf_loop m ap p k = Option.bind (kprintf_loop m ap (p + 1) k) (\<lambda>r. Some (Sync (m p) # r))"
  "m p = PERCENT \<Longrightarrow> kprintf_loop m ap p k =
     Option.bind (kconv m (m (p + 1)) (ap k)) (\<lambda>(out, took).
     Option.bind (kprintf_loop m ap (p + 1 + 1) (if took then Suc k else k)) (\<lambda>r. Some (out @ r)))"
  by (simp_all add: kprintf_loop.simps [of m ap p k] add.assoc)

text \<open>The arguments from the \<open>k\<close>-th on.\<close>

fun feeds :: "(nat \<Rightarrow> u32) \<Rightarrow> nat \<Rightarrow> u32 list \<Rightarrow> bool" where
  "feeds ap k [] = True"
| "feeds ap k (a # as) = (ap k = a \<and> feeds ap (Suc k) as)"

lemma str_arg_ok: "piece_ok m (Str a s) \<Longrightarrow> str_arg m a = Some s"
  by (simp add: str_arg_def str_loop_str_at split: if_splits)

lemma uconv_shown:
  "uconv m 100 a = Some (shown (Dec a), True)" "uconv m 108 a = Some (shown (Udec a), True)"
  "uconv m 120 a = Some (shown (Hex a), True)" "uconv m 112 a = Some (shown (Ptr a), True)"
  "uconv m 99 a = Some (shown (Chr a), True)" "uconv m 37 a = Some (shown Pct, False)"
  "piece_ok m (Str a s) \<Longrightarrow> uconv m 115 a = Some (shown (Str a s), True)"
  using str_arg_ok [of m a s]
  by (simp_all add: uconv_def printint_signed printint_unsigned printint_hex printptr_def hex_loop_hex8 del: hex8.simps piece_ok.simps)

lemma vprintf_pieces:
  assumes "list_all (piece_ok m) ps" "str_at m p (concat (map spelled ps))" "feeds ap k (concat (map args_of ps))"
  shows "vprintf_loop m ap False p k = Some (concat (map shown ps))"
  using assms
proof (induction ps arbitrary: p k)
  case (Cons q ps)
  show ?case
  proof (cases q)
    case (Str a s)
    then have "uconv m 115 a = Some (shown q, True)" using Cons.prems(1) by (simp add: uconv_shown del: piece_ok.simps shown.simps)
    then show ?thesis using Str Cons by (simp add: printf_step del: piece_ok.simps shown.simps)
  next
    case (Text c)
    then show ?thesis using Cons by (simp add: printf_step)
  qed (use Cons in \<open>simp_all add: printf_step uconv_shown del: shown.simps\<close>)
qed (simp add: printf_step)

text \<open>The kernel's version knows neither \<^verbatim>\<open>%l\<close> nor \<^verbatim>\<open>%%\<close>, and queues the digits of numbers.\<close>

fun kshown :: "piece \<Rightarrow> kout list" where
  "kshown (Dec a) = map Queued (signed_decimal (sint a))"
| "kshown (Udec a) = []"
| "kshown (Hex a) = map Queued (signed_hex (sint a))"
| "kshown (Ptr a) = map Sync (bytes_of ''0x'' @ hex8 kdigits a)"
| "kshown Pct = []"
| "kshown q = map Sync (shown q)"

fun kargs_of :: "piece \<Rightarrow> u32 list" where
  "kargs_of (Udec a) = []"
| "kargs_of q = args_of q"

lemma kconv_shown:
  "kconv m 100 a = Some (kshown (Dec a), True)" "kconv m 108 a = Some (kshown (Udec a), False)"
  "kconv m 120 a = Some (kshown (Hex a), True)" "kconv m 112 a = Some (kshown (Ptr a), True)"
  "kconv m 99 a = Some (kshown (Chr a), True)" "kconv m 37 a = Some (kshown Pct, False)"
  "piece_ok m (Str a s) \<Longrightarrow> kconv m 115 a = Some (kshown (Str a s), True)"
  using str_arg_ok [of m a s]
  by (simp_all add: kconv_def intprint_decimal intprint_hex ptr_print_def hex_loop_hex8 del: hex8.simps piece_ok.simps)

lemma kprintf_pieces:
  assumes "list_all (piece_ok m) ps" "str_at m p (concat (map spelled ps))" "feeds ap k (concat (map kargs_of ps))"
  shows "kprintf_loop m ap p k = Some (concat (map kshown ps))"
  using assms
proof (induction ps arbitrary: p k)
  case (Cons q ps)
  show ?case
  proof (cases q)
    case (Str a s)
    then have "kconv m 115 a = Some (kshown q, True)" using Cons.prems(1) by (simp add: kconv_shown del: piece_ok.simps kshown.simps)
    then show ?thesis using Str Cons by (simp add: kprintf_step del: piece_ok.simps kshown.simps)
  next
    case (Text c)
    then show ?thesis using Cons by (simp add: kprintf_step)
  next
    case (Udec a)
    then show ?thesis using Cons by (simp add: kprintf_step kconv_shown)
  qed (use Cons in \<open>simp_all add: kprintf_step kconv_shown del: kshown.simps\<close>)
qed (simp add: kprintf_step)

text \<open>A percent sign that ends the format: \<^verbatim>\<open>printf\<close> prints nothing for it, \<^verbatim>\<open>kprintf\<close> steps over the NUL.\<close>

lemma percent_at_end:
  assumes "str_at m p [PERCENT]"
  shows "vprintf_loop m ap False p k = Some []" "kprintf_loop m ap p k = kprintf_loop m ap (p + 2) k"
proof -
  have m: "m p = PERCENT" "m (p + 1) = 0" using assms by simp_all
  then show "vprintf_loop m ap False p k = Some []"
    by (simp add: vprintf_loop.simps [of m ap False p k] vprintf_loop.simps [of m ap True "p + 1" k])
  show "kprintf_loop m ap p k = kprintf_loop m ap (p + 2) k"
    using m by (simp add: kprintf_loop.simps [of m ap p k] kconv_def)
qed

lemma signed_decimal_length: "length (signed_decimal (sint (x :: u32))) \<le> 11"
proof (cases "sint x < 0")
  case True
  then show ?thesis using digit_count(1) [of "- x"] by (simp add: signed_decimal_def decimal_def nat_minus_sint)
next
  case False
  then show ?thesis using digit_count(1) [of x] by (simp add: signed_decimal_def decimal_def nat_sint)
qed

section \<open>Properties\<close>


text \<open>The memory of the witness holds the format \<^verbatim>\<open>"n=%d %s%p"\<close> at 16 and \<^verbatim>\<open>"ok"\<close> at 64.\<close>

definition fmt_mem :: mem where
  "fmt_mem = (\<lambda>a. if 16 \<le> a \<and> a < 25 then bytes_of ''n=%d %s%p'' ! unat (a - 16) else if a = 64 then 111 else if a = 65 then 107 else 0)"


end
