(* ===== verification/Ulibc.thy ===== *)
theory Ulibc
  imports Format
begin

text \<open>
  The user's library \<^verbatim>\<open>user/ulibc.c\<close>, without the two routines that make system calls (\<^verbatim>\<open>gets\<close> and \<^verbatim>\<open>stat\<close>, in the theory of
  the user programs) and without \<^verbatim>\<open>strchr\<close> (in the theory of the shell), and the character classes that \<^verbatim>\<open>src/libc\<close> has
  once more. A suffix keeps the names apart from the kernel's routines. A loop that may run through memory for ever is
  \<^theory_text>\<open>partial_function (option)\<close>.
\<close>

unbundle bit_operations_syntax

section \<open>Strings\<close>

text \<open>\<^verbatim>\<open>while ((*s++ = *t++) != 0) ;\<close>\<close>

partial_function (option) strcpy_user :: "u32 \<Rightarrow> u32 \<Rightarrow> mem \<Rightarrow> mem option" where
  "strcpy_user s t m = (if m t \<noteq> 0 then strcpy_user (s + 1) (t + 1) (m(s := m t)) else Some (m(s := 0)))"

function strncmp_user :: "mem \<Rightarrow> u32 \<Rightarrow> u32 \<Rightarrow> u32 \<Rightarrow> int" where
  "strncmp_user m a b n =
     (if n \<noteq> 0 \<and> m a \<noteq> 0 \<and> m a = m b then strncmp_user m (a + 1) (b + 1) (n - 1)
      else if n = 0 then 0
      else uint (m a) - uint (m b))"
  by pat_completeness auto
termination
  by (relation "measure (\<lambda>(m, a, b, n). unat n)") (auto intro: unat_minus_one_less)

declare strncmp_user.simps [simp del]

partial_function (option) strlen_user_loop :: "mem \<Rightarrow> u32 \<Rightarrow> u32 \<Rightarrow> u32 option" where
  "strlen_user_loop m s i = (if m (s + i) \<noteq> 0 then strlen_user_loop m s (i + 1) else Some i)"

definition strlen_user :: "mem \<Rightarrow> u32 \<Rightarrow> u32 option" where
  "strlen_user m s = strlen_user_loop m s 0"

text \<open>\<^verbatim>\<open>while ('0' <= *s && *s <= '9') n = n*10 + *s++ - '0';\<close> with the sum at the width of an \<^verbatim>\<open>int\<close>.\<close>

partial_function (option) atoi_loop :: "mem \<Rightarrow> u32 \<Rightarrow> u32 \<Rightarrow> u32 option" where
  "atoi_loop m s n =
     (if 48 \<le> m s \<and> m s \<le> 57 then atoi_loop m (s + 1) (n * 10 + ucast (m s) - 48) else Some n)"

definition atoi :: "mem \<Rightarrow> u32 \<Rightarrow> u32 option" where
  "atoi m s = atoi_loop m s 0"

section \<open>Memory\<close>

definition memset_user :: "mem \<Rightarrow> u32 \<Rightarrow> u32 \<Rightarrow> u32 \<Rightarrow> mem" where
  "memset_user m str c n = memset_loop str (ucast c) n 0 m"

text \<open>\<^verbatim>\<open>while (n-- > 0) *dst++ = *src++;\<close> and \<^verbatim>\<open>while (n-- > 0) *--dst = *--src;\<close>: the number of turns is the signed value of
  \<open>n\<close>, none when it is negative.\<close>

fun move_up :: "nat \<Rightarrow> u32 \<Rightarrow> u32 \<Rightarrow> mem \<Rightarrow> mem" where
  "move_up 0 dst src m = m"
| "move_up (Suc n) dst src m = move_up n (dst + 1) (src + 1) (m(dst := m src))"

fun move_down :: "nat \<Rightarrow> u32 \<Rightarrow> u32 \<Rightarrow> mem \<Rightarrow> mem" where
  "move_down 0 dst src m = m"
| "move_down (Suc n) dst src m = move_down n (dst - 1) (src - 1) (m(dst - 1 := m (src - 1)))"

definition memmove_user :: "mem \<Rightarrow> u32 \<Rightarrow> u32 \<Rightarrow> u32 \<Rightarrow> mem" where
  "memmove_user m dst src n =
     (if src > dst then move_up (nat (sint n)) dst src m
      else move_down (nat (sint n)) (dst + n) (src + n) m)"

definition memcpy_user :: "mem \<Rightarrow> u32 \<Rightarrow> u32 \<Rightarrow> u32 \<Rightarrow> mem" where
  "memcpy_user m dst src n = memmove_user m dst src n"

fun memcmp_user_loop :: "mem \<Rightarrow> nat \<Rightarrow> u32 \<Rightarrow> u32 \<Rightarrow> int" where
  "memcmp_user_loop m 0 p1 p2 = 0"
| "memcmp_user_loop m (Suc n) p1 p2 =
     (if m p1 \<noteq> m p2 then uint (m p1) - uint (m p2) else memcmp_user_loop m n (p1 + 1) (p2 + 1))"

definition memcmp_user :: "mem \<Rightarrow> u32 \<Rightarrow> u32 \<Rightarrow> u32 \<Rightarrow> int" where
  "memcmp_user m s1 s2 n = memcmp_user_loop m (unat n) s1 s2"

section \<open>Character classes\<close>

definition isascii :: "int \<Rightarrow> bool" where
  "isascii c = (c \<ge> 0 \<and> c < 128)"

definition isdigit :: "int \<Rightarrow> bool" where
  "isdigit c = (c \<ge> of_char CHR ''0'' \<and> c \<le> of_char CHR ''9'')"

definition islower :: "int \<Rightarrow> bool" where
  "islower c = (c \<ge> of_char CHR ''a'' \<and> c \<le> of_char CHR ''z'')"

definition isspace :: "int \<Rightarrow> bool" where
  "isspace c = (c = 9 \<or> c = 10 \<or> c = 11 \<or> c = 12 \<or> c = 13 \<or> c = of_char CHR '' '')"

definition isxdigit :: "int \<Rightarrow> bool" where
  "isxdigit c = (isdigit c \<or> (c \<ge> of_char CHR ''A'' \<and> c \<le> of_char CHR ''F'') \<or> (c \<ge> of_char CHR ''a'' \<and> c \<le> of_char CHR ''f''))"

section \<open>memmove copies as if it read everything first\<close>

lemma move_up_eq:
  assumes "n < 4294967296" "\<And>j k. j < k \<Longrightarrow> k < n \<Longrightarrow> d + of_nat j \<noteq> s + of_nat k"
  shows "move_up n d s m = copied m d s n"
  using assms
proof (induction n arbitrary: d s m)
  case (Suc n)
  let ?m = "m(d := m s)"
  have IH: "move_up n (d + 1) (s + 1) ?m = copied ?m (d + 1) (s + 1) n"
  proof (rule Suc.IH)
    fix j k assume "j < k" "k < n"
    then show "d + 1 + of_nat j \<noteq> s + 1 + of_nat k" using Suc.prems(2) [of "Suc j" "Suc k"] by (simp add: add.assoc)
  qed (use Suc.prems in simp)
  have "copied ?m (d + 1) (s + 1) n x = copied m d s (Suc n) x" for x
  proof (cases "x = d")
    case True
    have "\<not> in_range d (d + 1) n" using Suc.prems(1) by (simp add: in_range_def unat_minus_one_u32)
    then show ?thesis using True by (simp add: copied_def in_range_def)
  next
    case False
    then have u: "unat (x - d) = Suc (unat (x - (d + 1)))" using unat_Suc_pred [of "x - d"] by (simp only: diff_diff_eq right_minus_eq not_False_eq_True simp_thms)
    have "s + 1 + (x - (d + 1)) = s + (x - d)" by simp
    moreover have "s + (x - d) \<noteq> d" if "unat (x - d) < Suc n"
      using Suc.prems(2) [of 0 "unat (x - d)"] that u by auto
    ultimately show ?thesis using False u by (auto simp: copied_def in_range_def)
  qed
  then show ?case using IH by (simp add: fun_eq_iff)
qed (simp add: copied_def in_range_def)

lemma move_down_eq:
  assumes "n < 4294967296" "\<And>j k. j < k \<Longrightarrow> k < n \<Longrightarrow> d + of_nat k \<noteq> s + of_nat j"
  shows "move_down n (d + of_nat n) (s + of_nat n) m = copied m d s n"
  using assms
proof (induction n arbitrary: m)
  case (Suc n)
  let ?m = "m(d + of_nat n := m (s + of_nat n))"
  have IH: "move_down n (d + of_nat n) (s + of_nat n) ?m = copied ?m d s n"
    using Suc.prems by (intro Suc.IH) simp_all
  have "copied ?m d s n x = copied m d s (Suc n) x" for x
  proof -
    have x: "(x = d + of_nat n) = (unat (x - d) = n)" using Suc.prems(1) by (intro diff_of_nat_iff) simp
    have "s + (x - d) \<noteq> d + of_nat n" if "unat (x - d) < n"
      using Suc.prems(2) [of "unat (x - d)" n] that by auto
    with x show ?thesis by (auto simp: copied_def in_range_def)
  qed
  then show ?case using IH by (simp add: fun_eq_iff)
qed (simp add: copied_def in_range_def)

lemma apart:
  assumes "unat (a :: u32) + i < 4294967296" "unat b + j < 4294967296" "unat a + i \<noteq> unat b + j"
  shows "a + of_nat i \<noteq> b + of_nat j"
  using assms unat_add_of_nat [of a i] unat_add_of_nat [of b j] by metis

lemma memmove_user_eq:
  assumes "0 \<le> sint n" "unat dst + unat n \<le> 4294967296" "unat src + unat n \<le> 4294967296"
  shows "memmove_user m dst src n = copied m dst src (unat n)"
proof -
  have n: "nat (sint n) = unat n" using assms(1) by (intro nat_sint) simp
  show ?thesis
  proof (cases "src > dst")
    case True
    then have lt: "unat dst < unat src" by (simp add: word_less_nat_alt)
    have "move_up (unat n) dst src m = copied m dst src (unat n)"
    proof (rule move_up_eq [OF unat_less_2_32])
      fix j k assume "j < k" "k < unat n"
      then show "dst + of_nat j \<noteq> src + of_nat k" using assms lt by (intro apart) linarith+
    qed
    then show ?thesis using True n by (simp add: memmove_user_def)
  next
    case False
    then have le: "unat src \<le> unat dst" by (simp add: word_less_nat_alt)
    have "move_down (unat n) (dst + of_nat (unat n)) (src + of_nat (unat n)) m = copied m dst src (unat n)"
    proof (rule move_down_eq [OF unat_less_2_32])
      fix j k assume "j < k" "k < unat n"
      then show "dst + of_nat k \<noteq> src + of_nat j" using assms le by (intro apart) linarith+
    qed
    then show ?thesis using False n by (simp add: memmove_user_def)
  qed
qed

text \<open>A negative length copies nothing.\<close>

lemma memmove_user_negative: "sint n < 0 \<Longrightarrow> memmove_user m dst src n = m"
  by (simp add: memmove_user_def)

section \<open>Comparing and copying strings\<close>

lemma memcmp_user_loop_zero: "memcmp_user_loop m n p q = 0 \<longleftrightarrow> (\<forall>i<n. m (p + of_nat i) = m (q + of_nat i))"
proof (induction n arbitrary: p q)
  case (Suc n)
  have "(\<forall>i<Suc n. m (p + of_nat i) = m (q + of_nat i)) \<longleftrightarrow> m p = m q \<and> (\<forall>i<n. m (p + 1 + of_nat i) = m (q + 1 + of_nat i))"
    by (simp add: All_less_Suc2 add.assoc)
  then show ?case using Suc by (auto simp: word_uint_eq_iff [of "m p"])
qed simp

lemma strncmp_user_kernel: "strncmp_user m a b n = strncmp m a b n"
proof (induction m a b n rule: strncmp_user.induct)
  case (1 m a b n)
  then show ?case by (simp add: strncmp_user.simps [of m a b n] strncmp.simps [of m a b n])
qed

lemma str_at_outside: "(\<And>i. i \<le> length cs \<Longrightarrow> a \<noteq> p + of_nat i) \<Longrightarrow> str_at (m(a := v)) p cs = str_at m p cs"
proof (induction cs arbitrary: p)
  case Nil
  then show ?case using Nil [of 0] by simp
next
  case (Cons c cs)
  have "a \<noteq> p" using Cons.prems [of 0] by simp
  moreover have "str_at (m(a := v)) (p + 1) cs = str_at m (p + 1) cs"
  proof (rule Cons.IH)
    fix i assume "i \<le> length cs"
    then show "a \<noteq> p + 1 + of_nat i" using Cons.prems [of "Suc i"] by (simp add: add.assoc)
  qed
  ultimately show ?case by (simp only: str_at.simps fun_upd_other not_sym)
qed

text \<open>\<^verbatim>\<open>strcpy\<close> with the target before the source, or apart from it: no byte is overwritten before it is read.\<close>

lemma strcpy_user_eq:
  assumes "str_at m t cs" "length cs < 4294967295" "\<And>j k. j < k \<Longrightarrow> k \<le> length cs \<Longrightarrow> s + of_nat j \<noteq> t + of_nat k"
  shows "strcpy_user s t m = Some (copied m s t (Suc (length cs)))"
proof -
  have "strcpy_user s t m = Some (move_up (Suc (length cs)) s t m)"
    using assms(1, 3)
  proof (induction cs arbitrary: s t m)
    case Nil
    then show ?case by (simp add: strcpy_user.simps [of s t m] fun_upd_def)
  next
    case (Cons c cs)
    have "str_at (m(s := m t)) (t + 1) cs"
    proof (subst str_at_outside)
      fix i assume "i \<le> length cs"
      then show "s \<noteq> t + 1 + of_nat i" using Cons.prems(2) [of 0 "Suc i"] by (simp add: add.assoc)
    qed (use Cons.prems in simp)
    moreover have "s + 1 + of_nat j \<noteq> t + 1 + of_nat k" if "j < k" "k \<le> length cs" for j k
      using Cons.prems(2) [of "Suc j" "Suc k"] that by (simp add: add.assoc)
    ultimately have "strcpy_user (s + 1) (t + 1) (m(s := m t)) = Some (move_up (Suc (length cs)) (s + 1) (t + 1) (m(s := m t)))"
      by (rule Cons.IH)
    then show ?case using Cons.prems(1) by (simp add: strcpy_user.simps [of s t m])
  qed
  moreover have "move_up (Suc (length cs)) s t m = copied m s t (Suc (length cs))"
    using assms(2, 3) by (intro move_up_eq) simp_all
  ultimately show ?thesis by simp
qed

lemma strlen_user_loop_eq: "str_at m (s + i) cs \<Longrightarrow> strlen_user_loop m s i = Some (i + of_nat (length cs))"
proof (induction cs arbitrary: i)
  case (Cons c cs)
  then show ?case by (simp add: strlen_user_loop.simps [of m s i] add.assoc)
qed (simp add: strlen_user_loop.simps)

section \<open>atoi reads back what printf wrote\<close>

lemma atoi_loop_digits:
  "str_at m p (map (\<lambda>d. 48 + of_nat d) ds @ r) \<Longrightarrow> \<forall>d\<in>set ds. d < 10 \<Longrightarrow>
   atoi_loop m p (of_nat n) = atoi_loop m (p + of_nat (length ds)) (of_nat (foldl (\<lambda>a d. 10 * a + d) n ds))"
proof (induction ds arbitrary: p n)
  case (Cons d ds)
  have m: "m p = 48 + of_nat d" "d < 10" "str_at m (p + 1) (map (\<lambda>d. 48 + of_nat d) ds @ r)" using Cons.prems by simp_all
  have u: "unat (48 + of_nat d :: byte) = 48 + d" using m(2) by (simp add: unat_word_ariths unat_of_nat)
  then have c: "48 \<le> m p \<and> m p \<le> 57" using m(1,2) by (simp add: word_le_nat_alt)
  have "(ucast (m p) :: u32) = of_nat (48 + d)" using u m(1) by (metis of_nat_unat)
  then have "of_nat n * 10 + (ucast (m p) :: u32) - 48 = of_nat (10 * n + d)" by (simp add: algebra_simps)
  then have "atoi_loop m p (of_nat n) = atoi_loop m (p + 1) (of_nat (10 * n + d))" using c by (simp only: atoi_loop.simps [of m p] if_True simp_thms)
  then show ?case using Cons.IH [OF m(3), of "10 * n + d"] Cons.prems(2) by (simp add: add.assoc)
qed simp

lemma foldl_value: "foldl (\<lambda>a d. b * a + d) 0 (rev ds) = value_of b ds"
  by (simp add: foldl_conv_foldr value_of_def add.commute)

lemma str_at_append: "str_at m p (cs @ r) \<Longrightarrow> str_at m (p + of_nat (length cs)) r"
proof (induction cs arbitrary: p)
  case (Cons c cs)
  then show ?case using Cons.IH [of "p + 1"] by (simp add: add.assoc)
qed simp

lemma atoi_decimal:
  assumes "str_at m p (decimal x @ r)" "r = [] \<or> r ! 0 < 48 \<or> 57 < r ! 0"
  shows "atoi m p = Some (of_nat x)"
proof -
  have ok: "\<forall>d\<in>set (rev (nat_digits 10 x)). d < 10" using nat_digits_less [of 10 _ x] by simp
  have "atoi m p = atoi_loop m (p + of_nat (length (nat_digits 10 x))) (of_nat x)"
    using atoi_loop_digits [OF assms(1) [unfolded decimal_def] ok, of 0]
    by (simp add: foldl_value value_nat_digits atoi_def)
  moreover have "atoi_loop m (p + of_nat (length (decimal x))) n = Some n" for n
  proof -
    have "str_at m (p + of_nat (length (decimal x))) r" by (rule str_at_append [OF assms(1)])
    then have "\<not> (48 \<le> m (p + of_nat (length (decimal x))) \<and> m (p + of_nat (length (decimal x))) \<le> 57)"
      using assms(2) by (cases r) auto
    then show ?thesis by (simp only: atoi_loop.simps [of m "p + of_nat (length (decimal x))"] if_False)
  qed
  ultimately show ?thesis by (simp add: decimal_def)
qed

section \<open>Properties\<close>

text \<open>(C36) \<^verbatim>\<open>atoi\<close> reads back every number that \<^verbatim>\<open>printf("%l")\<close> prints, all of the 32-bit range, and every non-negative one that
  \<^verbatim>\<open>printf("%d")\<close> prints, whatever follows that is no digit.\<close>

theorem atoi_reads_printint:
  assumes "str_at m p (printint x 10 sg @ r)" "sg \<longrightarrow> 0 \<le> sint x" "r = [] \<or> \<not> isdigit (uint (r ! 0))"
  shows "atoi m p = Some x"
proof -
  have "printint x 10 sg = decimal (unat x)"
    using assms(2) nat_sint [of x] by (cases sg) (simp_all add: printint_signed printint_unsigned signed_decimal_def)
  moreover have "r = [] \<or> r ! 0 < 48 \<or> 57 < r ! 0" using assms(3) by (auto simp: isdigit_def word_less_def)
  ultimately show ?thesis using assms(1) atoi_decimal [of m p "unat x" r] by simp
qed

text \<open>The number 40 and a space at address 7.\<close>

definition forty_mem :: mem where
  "forty_mem = (\<lambda>a. if a = 7 then 52 else if a = 8 then 48 else if a = 9 then 32 else 0)"

theorem atoi_reads_printint_witness: "atoi forty_mem 7 = Some 40"
proof -
  have "printint 40 10 True = [52, 48]"
    by (simp add: printint_signed signed_decimal_def decimal_def nat_digits.simps)
  then show ?thesis by (intro atoi_reads_printint [where sg = True and r = "[32]"]) (simp_all add: forty_mem_def isdigit_def)
qed

text \<open>The user's \<^verbatim>\<open>memmove\<close>, unlike the kernel's, is the one of the C standard: between any two regions that do not run over
  the top of memory, overlapping in either direction or not, it leaves the bytes as they were read before the call in the
  target and changes nothing else.\<close>

theorem memmove_user_exact:
  assumes "0 \<le> sint n" "unat dst + unat n \<le> 4294967296" "unat src + unat n \<le> 4294967296"
  shows "memmove_user m dst src n x = (if in_range x dst (unat n) then m (src + (x - dst)) else m x)"
  using memmove_user_eq [OF assms, of m] by (simp add: copied_def)

theorem memmove_user_exact_witness:
  "memmove_user (\<lambda>a. ucast a) 12 10 4 13 = 11 \<and> memmove_user (\<lambda>a. ucast a) 10 12 4 13 = 15"
  using memmove_user_exact [of 4 12 10 "\<lambda>a. ucast a" 13] memmove_user_exact [of 4 10 12 "\<lambda>a. ucast a" 13]
  by (simp add: in_range_def)

end
