(* ===== verification/Shell.thy ===== *)
theory Shell
  imports OS_Prelude "HOL-Library.Sublist"
begin

text \<open>
  \<^verbatim>\<open>user/sh.c\<close>: the command parser of the shell, with \<^verbatim>\<open>strchr\<close> of \<^verbatim>\<open>user/ulibc.c\<close>. The line is the
  string up to its terminating NUL; a pointer \<^verbatim>\<open>*ps\<close> into it is the rest of the line from there on,
  and a pointer stored in a command is the number of characters from it to the end \<^verbatim>\<open>es\<close>. Reading at
  \<^verbatim>\<open>es\<close> gives NUL. \<^verbatim>\<open>panic\<close> prints its message and exits.

  The loops have the length of the rest as their measure. The recursion through parentheses counts its
  depth, and \<^verbatim>\<open>parsecmd\<close> gives it four levels for each character of the line; the first theorem says that
  they are never used up.
\<close>

abbreviation "NUL \<equiv> CHR 0x00"
abbreviation "MAXARGS \<equiv> 10 :: nat"
abbreviation "O_RDONLY \<equiv> 0 :: int"
abbreviation "O_WRONLY \<equiv> 1 :: int"
abbreviation "O_CREATE \<equiv> 0x200 :: int"
abbreviation "O_TRUNC \<equiv> 0x400 :: int"

section \<open>Commands\<close>

text \<open>A counted string is a pair of pointers in the commands that the parser builds. The commands are
  parametric in it, so that the same type serves for commands with the strings themselves.\<close>

datatype 'a cmd =
    EXEC "'a list"
  | REDIR "'a cmd" 'a int int
  | PIPE "'a cmd" "'a cmd"
  | LIST "'a cmd" "'a cmd"
  | BACK "'a cmd"

type_synonym counted = "nat \<times> nat"

section \<open>Tokens\<close>

fun strchr :: "string \<Rightarrow> char \<Rightarrow> string option" where
  "strchr [] s = None"
| "strchr (c # cs) s = (if c = s then Some (c # cs) else strchr cs s)"

definition whitespace :: string where
  "whitespace = [CHR '' '', CHR 0x09, CHR 0x0D, CHR 0x0A, CHR 0x0B]"

definition symbols :: string where
  "symbols = ''<|>&;()''"

definition deref :: "string \<Rightarrow> char" where
  "deref s = (case s of [] \<Rightarrow> NUL | c # _ \<Rightarrow> c)"

definition skip_ws :: "string \<Rightarrow> string" where
  "skip_ws = dropWhile (\<lambda>c. strchr whitespace c \<noteq> None)"

definition word_char :: "char \<Rightarrow> bool" where
  "word_char c \<longleftrightarrow> strchr whitespace c = None \<and> strchr symbols c = None"

text \<open>The \<^verbatim>\<open>switch\<close> of \<^verbatim>\<open>gettoken\<close>: the kind of the token and what follows it.\<close>

definition scan_token :: "string \<Rightarrow> char \<times> string" where
  "scan_token s =
     (if deref s = NUL then (NUL, s)
      else if deref s \<in> set ''|();&<'' then (deref s, tl s)
      else if deref s = CHR ''>'' then
        (if deref (tl s) = CHR ''>'' then (CHR ''+'', tl (tl s)) else (CHR ''>'', tl s))
      else (CHR ''a'', dropWhile word_char s))"

definition gettoken :: "string \<Rightarrow> (char \<times> nat \<times> nat) \<times> string" where
  "gettoken s =
     (let s = skip_ws s;
          q = length s;
          (ret, s) = scan_token s
      in ((ret, q, length s), skip_ws s))"

definition peek :: "string \<Rightarrow> string \<Rightarrow> bool \<times> string" where
  "peek toks s = (let s = skip_ws s in (deref s \<noteq> NUL \<and> strchr toks (deref s) \<noteq> None, s))"

lemma strchr_iff [simp]: "strchr cs c = None \<longleftrightarrow> c \<notin> set cs"
  by (induction cs) auto

lemma skip_ws_suffix: "suffix (skip_ws s) s"
  by (simp add: skip_ws_def suffix_dropWhile)

lemma skip_ws_idem [simp]: "skip_ws (skip_ws s) = skip_ws s"
  by (simp add: skip_ws_def)

lemma length_skip_ws: "length (skip_ws s) \<le> length s"
  by (simp add: skip_ws_suffix suffix_length_le)

lemma deref_simps [simp]: "deref [] = NUL" "deref (c # s) = c"
  by (simp_all add: deref_def)

lemma skip_ws_head: "skip_ws s = c # u \<Longrightarrow> c \<notin> set whitespace"
  using hd_dropWhile [of "\<lambda>c. strchr whitespace c \<noteq> None" s] by (auto simp: skip_ws_def)

lemma symbols_alt: "set symbols = insert (CHR ''>'') (set ''|();&<'')"
  by (auto simp: symbols_def)

lemma scan_token_suffix:
  assumes "scan_token r = (ret, u)" "r = skip_ws s"
  shows "suffix u r" "ret \<noteq> NUL \<Longrightarrow> length u < length r"
proof -
  have *: "suffix u r \<and> (ret \<noteq> NUL \<longrightarrow> length u < length r)"
  proof (cases r)
    case Nil
    then show ?thesis using assms(1) by (simp add: scan_token_def)
  next
    case (Cons c v)
    consider "c = NUL" | "c \<noteq> NUL" "c \<in> set ''|();&<''" | "c \<noteq> NUL" "c \<notin> set ''|();&<''" "c = CHR ''>''"
      | "c \<noteq> NUL" "c \<notin> set ''|();&<''" "c \<noteq> CHR ''>''" by blast
    then show ?thesis
    proof cases
      case 1
      then have "(NUL, r) = (ret, u)" using assms(1) Cons unfolding scan_token_def by auto
      then show ?thesis by auto
    next
      case 2
      then have "u = v" using assms(1) Cons unfolding scan_token_def deref_simps by (simp del: set_simps)
      then show ?thesis using Cons by (simp add: suffix_ConsI)
    next
      case 3
      then have "u = v \<or> u = tl v" using assms(1) Cons unfolding scan_token_def by (auto split: if_splits)
      moreover have "suffix (tl v) v" by (cases v) (simp_all add: suffix_ConsI)
      ultimately show ?thesis using Cons suffix_ConsI [of u v c] suffix_length_le [of u v] by auto
    next
      case 4
      then have "u = dropWhile word_char r" using assms(1) Cons unfolding scan_token_def deref_simps by (simp del: set_simps)
      moreover have "word_char c" using 4 skip_ws_head [of s c v] assms(2) Cons by (simp add: word_char_def symbols_alt del: set_simps)
      ultimately have "u = dropWhile word_char v" using Cons by simp
      moreover from this have "suffix u v" by (simp add: suffix_dropWhile)
      ultimately show ?thesis using Cons suffix_length_le [of u v] by (auto intro: suffix_ConsI)
    qed
  qed
  then show "suffix u r" "ret \<noteq> NUL \<Longrightarrow> length u < length r" by auto
qed

lemma gettoken_suffix:
  assumes "gettoken s = ((ret, q, eq), s')"
  shows "suffix s' s" "ret \<noteq> NUL \<Longrightarrow> length s' < length s"
proof -
  obtain u where u: "scan_token (skip_ws s) = (ret, u)" "s' = skip_ws u"
    using assms by (auto simp: gettoken_def Let_def split: prod.splits)
  note S = scan_token_suffix [OF u(1) refl]
  show "suffix s' s" using S(1) u(2) skip_ws_suffix suffix_order.trans by metis
  show "ret \<noteq> NUL \<Longrightarrow> length s' < length s"
    using S(2) u(2) length_skip_ws [of u] length_skip_ws [of s] by simp
qed

lemma peek_suffix: "peek toks s = (p, s') \<Longrightarrow> suffix s' s \<and> s' = skip_ws s"
  by (auto simp: peek_def Let_def skip_ws_suffix)

lemma peek_token:
  assumes "peek toks s = (True, s')" "gettoken s' = (t, s'')"
  shows "length s'' < length s"
proof -
  obtain ret q e where t: "t = (ret, q, e)" by (cases t) auto
  have s': "s' = skip_ws s" "deref s' \<noteq> NUL" using assms(1) by (auto simp: peek_def Let_def)
  have "fst (scan_token s') \<noteq> NUL"
    using s'(2) unfolding scan_token_def by (simp split: if_splits)
  then have "ret \<noteq> NUL" using assms(2) t s'(1) by (auto simp: gettoken_def Let_def split: prod.splits)
  then show ?thesis using gettoken_suffix(2) [OF assms(2) [unfolded t]] length_skip_ws [of s] s'(1) by simp
qed

lemma gettoken_le: "length (snd (gettoken s)) \<le> length s"
proof -
  obtain ret q e s' where "gettoken s = ((ret, q, e), s')" by (metis prod.collapse)
  then show ?thesis using gettoken_suffix(1) suffix_length_le by fastforce
qed

lemma gettoken_strict: "fst (fst (gettoken s)) \<noteq> NUL \<Longrightarrow> length (snd (gettoken s)) < length s"
  using gettoken_suffix(2) [of s] by (metis prod.collapse)

lemma peek_gettoken_less: "fst (peek toks s) \<Longrightarrow> length (snd (gettoken (snd (peek toks s)))) < length s"
  using peek_token [of toks s] by (metis prod.collapse)

lemma suffix_steps: "suffix (snd (peek toks s)) s" "suffix (snd (gettoken s)) s"
proof -
  show "suffix (snd (peek toks s)) s" using peek_suffix by (metis prod.collapse)
  obtain ret q e s' where "gettoken s = ((ret, q, e), s')" by (metis prod.collapse)
  then show "suffix (snd (gettoken s)) s" using gettoken_suffix(1) by simp
qed

section \<open>The parser\<close>

function back_loop :: "counted cmd \<Rightarrow> string \<Rightarrow> counted cmd \<times> string" where
  "back_loop cmd s =
     (let p = peek ''&'' s in
      if fst p then back_loop (BACK cmd) (snd (gettoken (snd p))) else (cmd, snd p))"
  by pat_completeness auto
termination
  by (relation "measure (\<lambda>(c, s). length s)") (auto intro: peek_gettoken_less)

definition redir :: "char \<Rightarrow> 'a cmd \<Rightarrow> 'a \<Rightarrow> 'a cmd" where
  "redir tok cmd file =
     (if tok = CHR ''<'' then REDIR cmd file O_RDONLY 0
      else if tok = CHR ''>'' then REDIR cmd file (O_WRONLY + O_CREATE + O_TRUNC) 1
      else if tok = CHR ''+'' then REDIR cmd file (O_WRONLY + O_CREATE) 1
      else cmd)"

function parseredirs :: "counted cmd \<Rightarrow> string \<Rightarrow> (counted cmd \<times> string) res" where
  "parseredirs cmd s =
     (let p = peek ''<>'' s in
      if fst p then
        (let t = gettoken (snd p);
             u = gettoken (snd t)
         in if fst (fst u) \<noteq> CHR ''a'' then Inl (Panic ''missing file for redirection'')
            else parseredirs (redir (fst (fst t)) cmd (snd (fst u))) (snd u))
      else Inr (cmd, snd p))"
  by pat_completeness auto
termination
  by (relation "measure (\<lambda>(c, s). length s)") (auto intro: le_less_trans [OF gettoken_le peek_gettoken_less])

declare back_loop.simps [simp del] parseredirs.simps [simp del]

lemma back_loop_suffix: "suffix (snd (back_loop cmd s)) s"
proof (induction cmd s rule: back_loop.induct)
  case (1 cmd s)
  then show ?case
    using suffix_steps(1) [of "''&''" s] suffix_steps(2) [of "snd (peek ''&'' s)"]
    by (subst back_loop.simps) (auto simp: Let_def intro: suffix_order.trans)
qed

lemma parseredirs_suffix: "parseredirs cmd s = Inr (cmd', s') \<Longrightarrow> suffix s' s"
proof (induction cmd s rule: parseredirs.induct)
  case (1 cmd s)
  let ?p = "snd (peek ''<>'' s)"
  have "suffix ?p s" "suffix (snd (gettoken ?p)) ?p" "suffix (snd (gettoken (snd (gettoken ?p)))) (snd (gettoken ?p))"
    by (rule suffix_steps)+
  then have *: "suffix (snd (gettoken (snd (gettoken ?p)))) s" "suffix ?p s" by (blast intro: suffix_order.trans)+
  show ?case
  proof (cases "fst (peek ''<>'' s)")
    case True
    let ?t = "gettoken ?p" and ?u = "gettoken (snd (gettoken ?p))"
    have u: "fst (fst ?u) = CHR ''a''"
      "parseredirs (redir (fst (fst ?t)) cmd (snd (fst ?u))) (snd ?u) = Inr (cmd', s')"
      using 1(2) [unfolded parseredirs.simps [of cmd s] Let_def] True by (auto split: if_splits)
    have "suffix s' (snd ?u)" using 1(1) [OF refl True refl refl] u by simp
    then show ?thesis using *(1) by (rule suffix_order.trans)
  next
    case False
    then have "s' = ?p" using 1(2) [unfolded parseredirs.simps [of cmd s] Let_def] by auto
    then show ?thesis using *(2) by simp
  qed
qed

text \<open>The \<^verbatim>\<open>struct execcmd\<close> lies inside the redirections around it; storing an argument reaches it there.\<close>

fun add_arg :: "'a \<Rightarrow> 'a cmd \<Rightarrow> 'a cmd" where
  "add_arg a (EXEC as) = EXEC (as @ [a])"
| "add_arg a (REDIR c f m d) = REDIR (add_arg a c) f m d"
| "add_arg a c = c"

function args_loop :: "nat \<Rightarrow> counted cmd \<Rightarrow> string \<Rightarrow> (counted cmd \<times> string) res" where
  "args_loop argc ret s =
     (let p = peek ''|)&;'' s in
      if fst p then Inr (ret, snd p)
      else
        (let t = gettoken (snd p) in
         if fst (fst t) = NUL then Inr (ret, snd t)
         else if fst (fst t) \<noteq> CHR ''a'' then Inl (Panic ''parseexec, syntax'')
         else if argc + 1 \<ge> MAXARGS then Inl (Panic ''too many args, parseexec'')
         else rbind (parseredirs (add_arg (snd (fst t)) ret) (snd t)) (\<lambda>r. args_loop (argc + 1) (fst r) (snd r))))"
  by pat_completeness auto
termination
proof (relation "measure (\<lambda>(n, c, s). length s)", simp)
  fix argc ret s p t r
  assume h: "p = peek ''|)&;'' s" "\<not> fst p" "t = gettoken (snd p)" "fst (fst t) \<noteq> NUL"
    and r: "parseredirs (add_arg (snd (fst t)) ret) (snd t) = Inr r"
  have "length (snd r) \<le> length (snd t)" using r parseredirs_suffix suffix_length_le by (metis prod.collapse)
  moreover have "length (snd t) < length (snd p)" using h(3,4) gettoken_strict by simp
  moreover have "length (snd p) \<le> length s" using h(1) suffix_steps(1) suffix_length_le by blast
  ultimately show "((argc + 1, fst r, snd r), argc, ret, s) \<in> measure (\<lambda>(n, c, s). length s)" by (simp add: split_beta)
qed

declare args_loop.simps [simp del]

fun parseline :: "nat \<Rightarrow> string \<Rightarrow> (counted cmd \<times> string) res"
  and parsepipe :: "nat \<Rightarrow> string \<Rightarrow> (counted cmd \<times> string) res"
  and parseexec :: "nat \<Rightarrow> string \<Rightarrow> (counted cmd \<times> string) res"
  and parseblock :: "nat \<Rightarrow> string \<Rightarrow> (counted cmd \<times> string) res" where
  "parseline 0 s = Inl Diverges"
| "parseline (Suc n) s =
     rbind (parsepipe n s) (\<lambda>(cmd, s).
       let (cmd, s) = back_loop cmd s; p = peek '';'' s in
       if fst p then rbind (parseline n (snd (gettoken (snd p)))) (\<lambda>(r, s). Inr (LIST cmd r, s))
       else Inr (cmd, snd p))"
| "parsepipe 0 s = Inl Diverges"
| "parsepipe (Suc n) s =
     rbind (parseexec n s) (\<lambda>(cmd, s).
       let p = peek ''|'' s in
       if fst p then rbind (parsepipe n (snd (gettoken (snd p)))) (\<lambda>(r, s). Inr (PIPE cmd r, s))
       else Inr (cmd, snd p))"
| "parseexec 0 s = Inl Diverges"
| "parseexec (Suc n) s =
     (let p = peek ''('' s in
      if fst p then parseblock n (snd p)
      else rbind (parseredirs (EXEC []) (snd p)) (\<lambda>(ret, s). args_loop 0 ret s))"
| "parseblock 0 s = Inl Diverges"
| "parseblock (Suc n) s =
     (let p = peek ''('' s in
      if \<not> fst p then Inl (Panic ''parseblock'')
      else rbind (parseline n (snd (gettoken (snd p)))) (\<lambda>(cmd, s).
        let p = peek '')'' s in
        if \<not> fst p then Inl (Panic ''syntax - missing )'')
        else parseredirs cmd (snd (gettoken (snd p)))))"

text \<open>\<^verbatim>\<open>nulterminate\<close> stores a NUL at the end of every counted string of the buffer, which is the line and its
  terminating NUL.\<close>

definition put_nul :: "nat \<Rightarrow> nat \<Rightarrow> string \<Rightarrow> string" where
  "put_nul n e buf = buf[n - e := NUL]"

fun nulterminate :: "nat \<Rightarrow> counted cmd \<Rightarrow> string \<Rightarrow> string" where
  "nulterminate n (EXEC as) buf = fold (\<lambda>(q, e). put_nul n e) as buf"
| "nulterminate n (REDIR c (q, e) m d) buf = put_nul n e (nulterminate n c buf)"
| "nulterminate n (PIPE l r) buf = nulterminate n r (nulterminate n l buf)"
| "nulterminate n (LIST l r) buf = nulterminate n r (nulterminate n l buf)"
| "nulterminate n (BACK c) buf = nulterminate n c buf"

definition parsecmd :: "string \<Rightarrow> (counted cmd \<times> string) res" where
  "parsecmd buf =
     (let s = takeWhile (\<lambda>c. c \<noteq> NUL) buf in
      rbind (parseline (4 * length s + 4) s) (\<lambda>(cmd, t).
        if snd (peek [] t) \<noteq> [] then Inl (Panic ''syntax'')
        else Inr (cmd, nulterminate (length s) cmd buf)))"

section \<open>The parser stays on the line and returns\<close>

definition messages :: "string list" where
  "messages = [''missing file for redirection'', ''parseexec, syntax'', ''too many args, parseexec'',
     ''parseblock'', ''syntax - missing )'', ''syntax'']"

definition answers :: "'a res \<Rightarrow> bool" where
  "answers r \<longleftrightarrow> (\<forall>e. r = Inl e \<longrightarrow> e \<in> Panic ` set messages)"

lemma answers_Inr [simp]: "answers (Inr x)"
  by (simp add: answers_def)

lemma answers_Inl [simp]: "answers (Inl (Panic m)) \<longleftrightarrow> m \<in> set messages"
  by (auto simp: answers_def)

lemma messages_in [simp]:
  "''missing file for redirection'' \<in> set messages" "''parseexec, syntax'' \<in> set messages"
  "''too many args, parseexec'' \<in> set messages" "''parseblock'' \<in> set messages"
  "''syntax - missing )'' \<in> set messages" "''syntax'' \<in> set messages"
  by (simp_all add: messages_def)

lemma parseredirs_outcome: "answers (parseredirs cmd s)"
proof (induction cmd s rule: parseredirs.induct)
  case (1 cmd s)
  show ?case
    using 1 by (subst parseredirs.simps) (auto simp: Let_def)
qed

lemma args_loop_outcome: "answers (args_loop argc ret s)"
proof (induction argc ret s rule: args_loop.induct)
  case (1 argc ret s)
  let ?t = "gettoken (snd (peek ''|)&;'' s))"
  show ?case
  proof (cases "parseredirs (add_arg (snd (fst ?t)) ret) (snd ?t)")
    case (Inl e)
    then show ?thesis
      using parseredirs_outcome [of "add_arg (snd (fst ?t)) ret" "snd ?t"] by (subst args_loop.simps) (auto simp: Let_def)
  next
    case (Inr r)
    then show ?thesis using 1 [OF refl _ refl] by (subst args_loop.simps) (auto simp: Let_def)
  qed
qed

text \<open>A counted string of the line \<open>ln\<close>: a word that ends at the end of the line or at a character
  that belongs to no word.\<close>

definition tok :: "string \<Rightarrow> counted \<Rightarrow> string" where
  "tok ln t = take (fst t - snd t) (drop (length ln - fst t) ln)"

definition tok_ok :: "string \<Rightarrow> counted \<Rightarrow> bool" where
  "tok_ok ln t \<longleftrightarrow> snd t < fst t \<and> fst t \<le> length ln \<and> list_all word_char (tok ln t)
     \<and> (snd t = 0 \<or> \<not> word_char (ln ! (length ln - snd t)))"

lemma suffix_drop: "suffix s ln \<Longrightarrow> drop (length ln - length s) ln = s"
  by (auto simp: suffix_def)

lemma word_tok_ok:
  assumes "suffix r ln" "word_char (deref r)" "r \<noteq> []"
  shows "tok_ok ln (length r, length (dropWhile word_char r))" "tok ln (length r, length (dropWhile word_char r)) = takeWhile word_char r"
proof -
  let ?d = "dropWhile word_char r"
  have len: "length r = length (takeWhile word_char r) + length ?d" by (metis length_append takeWhile_dropWhile_id)
  have "tok ln (length r, length ?d) = take (length (takeWhile word_char r)) r"
    using len suffix_drop [OF assms(1)] by (simp add: tok_def)
  also have "\<dots> = takeWhile word_char r" by (metis takeWhile_eq_take)
  finally show t: "tok ln (length r, length ?d) = takeWhile word_char r" .
  have "length ?d < length r" using assms(2,3) by (cases r) (simp_all add: length_dropWhile_le less_Suc_eq_le)
  moreover have "length r \<le> length ln" using suffix_length_le [OF assms(1)] .
  moreover have "list_all word_char (takeWhile word_char r)" by (auto simp: list_all_iff dest: set_takeWhileD)
  moreover have "\<not> word_char (ln ! (length ln - length ?d))" if "?d \<noteq> []"
  proof -
    have "suffix ?d ln" using assms(1) suffix_dropWhile suffix_order.trans by blast
    then have "ln ! (length ln - length ?d) = hd ?d"
      using that suffix_drop [of ?d ln] hd_drop_conv_nth [of "length ln - length ?d" ln] suffix_length_le [of ?d ln]
      by (metis diff_less length_greater_0_conv length_0_conv drop_eq_Nil leD not_le_imp_less)
    then show ?thesis using hd_dropWhile [OF that] by simp
  qed
  ultimately show "tok_ok ln (length r, length ?d)" by (auto simp: tok_ok_def t)
qed

lemma gettoken_word:
  assumes "fst (fst (gettoken s)) = CHR ''a''" "suffix s ln"
  shows "tok_ok ln (snd (fst (gettoken s)))"
proof -
  define r where "r = skip_ws s"
  have a: "fst (scan_token r) = CHR ''a''" "snd (fst (gettoken s)) = (length r, length (snd (scan_token r)))"
    using assms(1) by (auto simp: gettoken_def Let_def r_def split: prod.splits)
  have c: "deref r \<noteq> NUL" "deref r \<notin> set ''|();&<''" "deref r \<noteq> CHR ''>''" "snd (scan_token r) = dropWhile word_char r"
    using a(1) unfolding scan_token_def by (auto split: if_splits)
  then have ne: "r \<noteq> []" by auto
  have "word_char (deref r)"
    using c ne skip_ws_head [of s] unfolding r_def [symmetric] by (cases r) (auto simp: word_char_def symbols_def)
  moreover have "suffix r ln" using assms(2) skip_ws_suffix suffix_order.trans unfolding r_def by blast
  ultimately show ?thesis using word_tok_ok(1) ne a(2) c(4) by simp
qed

text \<open>What the parser returns: the rest is a suffix, and every counted string of the command is a word of
  the line.\<close>

definition parsed :: "string \<Rightarrow> string \<Rightarrow> (counted cmd \<times> string) res \<Rightarrow> bool" where
  "parsed ln s r \<longleftrightarrow> (\<forall>c s'. r = Inr (c, s') \<longrightarrow> suffix s' s \<and> (\<forall>t\<in>set_cmd c. tok_ok ln t))"

lemma set_redir: "set_cmd (redir t c f) \<subseteq> insert f (set_cmd c)"
  by (auto simp: redir_def)

lemma set_add_arg: "set_cmd (add_arg a c) \<subseteq> insert a (set_cmd c)"
  by (induction a c rule: add_arg.induct) auto

lemma parseredirs_parsed:
  assumes "suffix s ln" "\<forall>t\<in>set_cmd cmd. tok_ok ln t"
  shows "parsed ln s (parseredirs cmd s)"
  using assms
proof (induction cmd s rule: parseredirs.induct)
  case (1 cmd s)
  let ?p = "peek ''<>'' s"
  let ?t = "gettoken (snd ?p)" and ?u = "gettoken (snd (gettoken (snd ?p)))"
  have sf: "suffix (snd ?p) s" "suffix (snd ?t) s" "suffix (snd ?u) s"
    using suffix_steps(1) [of "''<>''" s] suffix_steps(2) [of "snd ?p"] suffix_steps(2) [of "snd ?t"]
    by (blast intro: suffix_order.trans)+
  show ?case
  proof (cases "fst ?p \<and> fst (fst ?u) = CHR ''a''")
    case True
    have "tok_ok ln (snd (fst ?u))"
      using True sf(2) 1(2) by (intro gettoken_word) (auto intro: suffix_order.trans)
    then have "\<forall>t\<in>set_cmd (redir (fst (fst ?t)) cmd (snd (fst ?u))). tok_ok ln t"
      using 1(3) set_redir by fastforce
    moreover have "suffix (snd ?u) ln" using sf(3) 1(2) by (rule suffix_order.trans)
    ultimately have "parsed ln (snd ?u) (parseredirs (redir (fst (fst ?t)) cmd (snd (fst ?u))) (snd ?u))"
      using 1(1) [OF refl _ refl refl] True by blast
    moreover have "parseredirs cmd s = parseredirs (redir (fst (fst ?t)) cmd (snd (fst ?u))) (snd ?u)"
      using True by (subst parseredirs.simps) (simp add: Let_def)
    ultimately show ?thesis using sf(3) unfolding parsed_def by (auto intro: suffix_order.trans)
  next
    case False
    then have "parseredirs cmd s = Inr (cmd, snd ?p) \<or> (\<exists>e. parseredirs cmd s = Inl e)"
      by (subst parseredirs.simps, subst (2) parseredirs.simps) (auto simp: Let_def)
    then show ?thesis using sf(1) 1(3) by (auto simp: parsed_def)
  qed
qed

lemma parsed_rbind:
  assumes "parsed ln s r" "\<And>c s'. suffix s' s \<Longrightarrow> \<forall>t\<in>set_cmd c. tok_ok ln t \<Longrightarrow> parsed ln s' (f (c, s'))"
  shows "parsed ln s (rbind r f)"
proof (cases r)
  case (Inr p)
  obtain c s' where p: "p = (c, s')" by (cases p)
  have s': "suffix s' s" "\<forall>t\<in>set_cmd c. tok_ok ln t" using assms(1) Inr p by (auto simp: parsed_def)
  show ?thesis using assms(2) [OF s'] s'(1) Inr p by (auto simp: parsed_def intro: suffix_order.trans)
qed (simp add: parsed_def)

lemma parsed_mono: "parsed ln s' r \<Longrightarrow> suffix s' s \<Longrightarrow> parsed ln s r"
  by (auto simp: parsed_def intro: suffix_order.trans)

lemma parsed_Inl [simp]: "parsed ln s (Inl e)"
  by (simp add: parsed_def)

lemma parsed_Inr [simp]: "parsed ln s (Inr (c, s')) \<longleftrightarrow> suffix s' s \<and> (\<forall>t\<in>set_cmd c. tok_ok ln t)"
  by (simp add: parsed_def)

lemma args_loop_parsed:
  assumes "suffix s ln" "\<forall>t\<in>set_cmd ret. tok_ok ln t"
  shows "parsed ln s (args_loop argc ret s)"
  using assms
proof (induction argc ret s rule: args_loop.induct)
  case (1 argc ret s)
  let ?p = "peek ''|)&;'' s"
  let ?t = "gettoken (snd ?p)"
  have sf: "suffix (snd ?p) s" "suffix (snd ?t) s"
    using suffix_steps(1) [of "''|)&;''" s] suffix_steps(2) [of "snd ?p"] by (blast intro: suffix_order.trans)+
  then have sl: "suffix (snd ?p) ln" "suffix (snd ?t) ln" using 1(2) by (blast intro: suffix_order.trans)+
  show ?case
  proof (cases "fst ?p \<or> fst (fst ?t) = NUL \<or> fst (fst ?t) \<noteq> CHR ''a'' \<or> argc + 1 \<ge> MAXARGS")
    case True
    then show ?thesis using sf 1(3) by (subst args_loop.simps) (auto simp: Let_def)
  next
    case False
    then have "\<not> fst ?p" "fst (fst ?t) = CHR ''a''" "\<not> argc + 1 \<ge> MAXARGS" by simp_all
    note F = this
    have "\<forall>t\<in>set_cmd (add_arg (snd (fst ?t)) ret). tok_ok ln t"
      using gettoken_word [OF F(2) sl(1)] 1(3) set_add_arg [of "snd (fst ?t)" ret] by blast
    note R = parseredirs_parsed [OF sl(2) this]
    have "args_loop argc ret s
        = rbind (parseredirs (add_arg (snd (fst ?t)) ret) (snd ?t)) (\<lambda>r. args_loop (argc + 1) (fst r) (snd r))"
      using F by (subst args_loop.simps) (simp add: Let_def)
    moreover have "parsed ln (snd ?t) (rbind (parseredirs (add_arg (snd (fst ?t)) ret) (snd ?t)) (\<lambda>r. args_loop (argc + 1) (fst r) (snd r)))"
    proof (cases "parseredirs (add_arg (snd (fst ?t)) ret) (snd ?t)")
      case (Inr r)
      then have r: "suffix (snd r) (snd ?t)" "\<forall>t\<in>set_cmd (fst r). tok_ok ln t"
        using R by (cases r; simp)+
      have "parsed ln (snd r) (args_loop (argc + 1) (fst r) (snd r))"
        using 1(1) [OF refl _ refl _ _ _ Inr] F r sl(2) by (auto intro: suffix_order.trans)
      then show ?thesis using Inr r(1) by (simp add: parsed_mono)
    qed simp
    ultimately show ?thesis using sf(2) by (simp add: parsed_mono)
  qed
qed

lemma back_loop_set: "set_cmd (fst (back_loop cmd s)) = set_cmd cmd"
proof (induction cmd s rule: back_loop.induct)
  case (1 cmd s)
  then show ?case by (subst back_loop.simps) (auto simp: Let_def)
qed

lemma after_token: "suffix (snd (gettoken (snd (peek toks s)))) s"
  using suffix_steps(1) [of toks s] suffix_steps(2) [of "snd (peek toks s)"] by (rule suffix_order.trans [rotated])

lemma parser_parsed:
  "suffix s ln \<Longrightarrow> parsed ln s (parseline n s)"
  "suffix s ln \<Longrightarrow> parsed ln s (parsepipe n s)"
  "suffix s ln \<Longrightarrow> parsed ln s (parseexec n s)"
  "suffix s ln \<Longrightarrow> parsed ln s (parseblock n s)"
proof (induction n arbitrary: s)
  case (Suc n)
  { case 1
    show ?case unfolding parseline.simps
    proof (rule parsed_rbind [OF Suc(2) [OF 1]])
      fix c s' assume c: "suffix s' s" "\<forall>t\<in>set_cmd c. tok_ok ln t"
      obtain c2 s2 where b: "back_loop c s' = (c2, s2)" by (cases "back_loop c s'")
      have s2: "suffix s2 s'" "set_cmd c2 = set_cmd c" using back_loop_suffix [of c s'] back_loop_set [of c s'] b by simp_all
      let ?u = "snd (gettoken (snd (peek '';'' s2)))"
      have u: "suffix ?u s'" "suffix ?u ln" "suffix (snd (peek '';'' s2)) s'"
        using after_token [of "'';''" s2] suffix_steps(1) [of "'';''" s2] s2(1) c(1) 1 by (blast intro: suffix_order.trans)+
      have "parsed ln ?u (rbind (parseline n ?u) (\<lambda>(r, s). Inr (LIST c2 r, s)))"
        by (rule parsed_rbind [OF Suc(1) [OF u(2)]]) (use c(2) s2(2) in auto)
      then show "parsed ln s' (case (c, s') of (cmd, s) \<Rightarrow>
          let (cmd, s) = back_loop cmd s; p = peek '';'' s in
          if fst p then rbind (parseline n (snd (gettoken (snd p)))) (\<lambda>(r, s). Inr (LIST cmd r, s)) else Inr (cmd, snd p))"
        using b u(1,3) s2(2) c(2) by (auto simp: Let_def intro: parsed_mono)
    qed
  next
    case 2
    show ?case unfolding parsepipe.simps
    proof (rule parsed_rbind [OF Suc(3) [OF 2]])
      fix c s' assume c: "suffix s' s" "\<forall>t\<in>set_cmd c. tok_ok ln t"
      let ?u = "snd (gettoken (snd (peek ''|'' s')))"
      have u: "suffix ?u s'" "suffix ?u ln" "suffix (snd (peek ''|'' s')) s'"
        using after_token [of "''|''" s'] suffix_steps(1) [of "''|''" s'] c(1) 2 by (blast intro: suffix_order.trans)+
      have "parsed ln ?u (rbind (parsepipe n ?u) (\<lambda>(r, s). Inr (PIPE c r, s)))"
        by (rule parsed_rbind [OF Suc(2) [OF u(2)]]) (use c(2) in auto)
      then show "parsed ln s' (case (c, s') of (cmd, s) \<Rightarrow>
          let p = peek ''|'' s in
          if fst p then rbind (parsepipe n (snd (gettoken (snd p)))) (\<lambda>(r, s). Inr (PIPE cmd r, s)) else Inr (cmd, snd p))"
        using u(1,3) c(2) by (auto simp: Let_def intro: parsed_mono)
    qed
  next
    case 3
    let ?p = "snd (peek ''('' s)"
    have p: "suffix ?p s" "suffix ?p ln" using suffix_steps(1) [of "''(''" s] 3 by (blast intro: suffix_order.trans)+
    have "parsed ln ?p (rbind (parseredirs (EXEC []) ?p) (\<lambda>(ret, s). args_loop 0 ret s))"
      by (rule parsed_rbind [OF parseredirs_parsed [OF p(2)]]) (auto intro!: args_loop_parsed intro: suffix_order.trans p(2))
    then show ?case using Suc(4) [OF p(2)] p(1) by (auto simp: Let_def intro: parsed_mono)
  next
    case 4
    let ?u = "snd (gettoken (snd (peek ''('' s)))"
    have u: "suffix ?u s" "suffix ?u ln" using after_token [of "''(''" s] 4 by (blast intro: suffix_order.trans)+
    have "parsed ln ?u (rbind (parseline n ?u) (\<lambda>(cmd, s).
        let p = peek '')'' s in
        if \<not> fst p then Inl (Panic ''syntax - missing )'') else parseredirs cmd (snd (gettoken (snd p)))))"
    proof (rule parsed_rbind [OF Suc(1) [OF u(2)]])
      fix c s' assume c: "suffix s' ?u" "\<forall>t\<in>set_cmd c. tok_ok ln t"
      let ?v = "snd (gettoken (snd (peek '')'' s')))"
      have v: "suffix ?v s'" "suffix ?v ln" using after_token [of "'')''" s'] c(1) u(2) by (blast intro: suffix_order.trans)+
      show "parsed ln s' (case (c, s') of (cmd, s) \<Rightarrow>
          let p = peek '')'' s in
          if \<not> fst p then Inl (Panic ''syntax - missing )'') else parseredirs cmd (snd (gettoken (snd p))))"
        using parseredirs_parsed [OF v(2) c(2)] v(1) by (auto simp: Let_def intro: parsed_mono)
    qed
    then show ?case using u(1) by (auto simp: Let_def intro: parsed_mono)
  }
qed simp_all

lemma rbind_outcome:
  "answers r \<Longrightarrow> (\<And>c s. r = Inr (c, s) \<Longrightarrow> answers (f (c, s))) \<Longrightarrow> answers (rbind r f)"
  by (cases r) (auto simp: answers_def)

lemma parser_rest:
  "parseline n s = Inr (c, s') \<Longrightarrow> length s' \<le> length s"
  "parsepipe n s = Inr (c, s') \<Longrightarrow> length s' \<le> length s"
  "parseexec n s = Inr (c, s') \<Longrightarrow> length s' \<le> length s"
  using parser_parsed [of s s n] by (simp_all add: suffix_length_le)

lemma back_loop_le: "back_loop c s = (c', s') \<Longrightarrow> length s' \<le> length s"
  using back_loop_suffix [of c s] suffix_length_le by fastforce

text \<open>Each call of the parser that recurses has consumed a character since the same call before it, so
  that a depth of four times the length of the rest is enough.\<close>

lemma parser_outcome:
  "4 * length s + 4 \<le> n \<Longrightarrow> answers (parseline n s)"
  "4 * length s + 3 \<le> n \<Longrightarrow> answers (parsepipe n s)"
  "4 * length s + 2 \<le> n \<Longrightarrow> answers (parseexec n s)"
  "4 * length s + 1 \<le> n \<Longrightarrow> answers (parseblock n s)"
proof (induction n arbitrary: s)
  case (Suc n)
  { case 1
    show ?case unfolding parseline.simps
    proof (rule rbind_outcome)
      show "answers (parsepipe n s)" using Suc(2) 1 by simp
      fix c s' assume c: "parsepipe n s = Inr (c, s')"
      obtain c2 s2 where b: "back_loop c s' = (c2, s2)" by (cases "back_loop c s'")
      have l: "length s2 \<le> length s" using back_loop_le [OF b] parser_rest(2) [OF c] by simp
      have "answers (rbind (parseline n (snd (gettoken (snd (peek '';'' s2))))) (\<lambda>(r, s). Inr (LIST c2 r, s)))" if "fst (peek '';'' s2)"
        by (rule rbind_outcome [OF Suc(1)]) (use peek_gettoken_less [OF that] l 1 in auto)
      then show "answers (case (c, s') of (cmd, s) \<Rightarrow>
          let (cmd, s) = back_loop cmd s; p = peek '';'' s in
          if fst p then rbind (parseline n (snd (gettoken (snd p)))) (\<lambda>(r, s). Inr (LIST cmd r, s)) else Inr (cmd, snd p))"
        using b by (auto simp: Let_def)
    qed
  next
    case 2
    show ?case unfolding parsepipe.simps
    proof (rule rbind_outcome)
      show "answers (parseexec n s)" using Suc(3) 2 by simp
      fix c s' assume c: "parseexec n s = Inr (c, s')"
      have "answers (rbind (parsepipe n (snd (gettoken (snd (peek ''|'' s'))))) (\<lambda>(r, s). Inr (PIPE c r, s)))" if "fst (peek ''|'' s')"
        by (rule rbind_outcome [OF Suc(2)]) (use peek_gettoken_less [OF that] parser_rest(3) [OF c] 2 in auto)
      then show "answers (case (c, s') of (cmd, s) \<Rightarrow>
          let p = peek ''|'' s in
          if fst p then rbind (parsepipe n (snd (gettoken (snd p)))) (\<lambda>(r, s). Inr (PIPE cmd r, s)) else Inr (cmd, snd p))"
        by (auto simp: Let_def)
    qed
  next
    case 3
    have "length (snd (peek ''('' s)) \<le> length s" using suffix_length_le [OF suffix_steps(1)] .
    then have "answers (parseblock n (snd (peek ''('' s)))" using Suc(4) 3 by simp
    moreover have "answers (rbind (parseredirs (EXEC []) (snd (peek ''('' s))) (\<lambda>(ret, s). args_loop 0 ret s))"
      by (rule rbind_outcome [OF parseredirs_outcome]) (simp add: args_loop_outcome)
    ultimately show ?case by (simp add: Let_def)
  next
    case 4
    have "answers (rbind (parseline n (snd (gettoken (snd (peek ''('' s))))) (\<lambda>(cmd, s).
        let p = peek '')'' s in
        if \<not> fst p then Inl (Panic ''syntax - missing )'') else parseredirs cmd (snd (gettoken (snd p)))))"
      if "fst (peek ''('' s)"
      by (rule rbind_outcome [OF Suc(1)]) (use peek_gettoken_less [OF that] 4 parseredirs_outcome in \<open>auto simp: Let_def\<close>)
    then show ?case by (auto simp: Let_def)
  }
qed simp_all

lemma parsecmd_outcome: "answers (parsecmd buf)"
  unfolding parsecmd_def Let_def by (rule rbind_outcome [OF parser_outcome(1)]) auto

section \<open>The strings that the parser leaves\<close>

lemma length_nulterminate [simp]: "length (nulterminate n c buf) = length buf"
proof (induction n c buf rule: nulterminate.induct)
  case (1 n as buf)
  have "length (fold (\<lambda>(q, e). put_nul n e) as buf) = length buf"
    by (induction as arbitrary: buf) (auto simp: put_nul_def)
  then show ?case by simp
qed (simp_all add: put_nul_def)

lemma fold_put_nul:
  "i < length buf \<Longrightarrow> fold (\<lambda>(q, e). put_nul n e) as buf ! i = (if i \<in> (\<lambda>t. n - snd t) ` set as then NUL else buf ! i)"
  by (induction as arbitrary: buf) (auto simp: put_nul_def nth_list_update image_iff split: prod.splits)

lemma nth_nulterminate:
  "i < length buf \<Longrightarrow> nulterminate n c buf ! i = (if i \<in> (\<lambda>t. n - snd t) ` set_cmd c then NUL else buf ! i)"
proof (induction n c buf rule: nulterminate.induct)
  case (2 n c q e m d buf)
  then show ?case by (cases "i = n - e") (simp_all add: put_nul_def nth_list_update)
qed (simp_all add: fold_put_nul image_Un)

lemma nth_tok:
  assumes "tok_ok ln t" "i < fst t - snd t"
  shows "ln ! (length ln - fst t + i) = tok ln t ! i" "word_char (ln ! (length ln - fst t + i))"
proof -
  have l: "fst t \<le> length ln" "list_all word_char (tok ln t)" using assms(1) by (simp_all add: tok_ok_def)
  show e: "ln ! (length ln - fst t + i) = tok ln t ! i" using assms(2) l(1) by (simp add: tok_def)
  have "i < length (tok ln t)" using assms(2) l(1) by (simp add: tok_def)
  then show "word_char (ln ! (length ln - fst t + i))" using l(2) e by (simp add: list_all_length)
qed

lemma takeWhile_nth_eq:
  assumes "n < length xs" "\<And>i. i < n \<Longrightarrow> P (xs ! i)" "\<not> P (xs ! n)"
  shows "takeWhile P xs = take n xs"
  using assms(1-3) by (simp add: takeWhile_eq_take_P_nth)

lemma nulterminate_strings:
  assumes buf: "ln = takeWhile (\<lambda>c. c \<noteq> NUL) buf" "length ln < length buf"
    and ok: "\<forall>t\<in>set_cmd c. tok_ok ln t" and t: "t \<in> set_cmd c"
  shows "takeWhile (\<lambda>c. c \<noteq> NUL) (drop (length ln - fst t) (nulterminate (length ln) c buf)) = tok ln t"
proof -
  let ?b = "drop (length ln - fst t) (nulterminate (length ln) c buf)"
  let ?k = "fst t - snd t"
  have o: "snd t < fst t" "fst t \<le> length ln" using ok t by (auto simp: tok_ok_def)
  have ln: "ln ! i = buf ! i" "ln ! i \<noteq> NUL" if "i < length ln" for i
  proof -
    show "ln ! i = buf ! i" using takeWhile_nth [of i "\<lambda>c. c \<noteq> NUL" buf] that buf(1) by simp
    have "ln ! i \<in> set ln" using that by simp
    then show "ln ! i \<noteq> NUL" using set_takeWhileD [of "ln ! i" "\<lambda>c. c \<noteq> NUL" buf] buf(1) by simp
  qed
  have same: "?b ! i = tok ln t ! i" "tok ln t ! i \<noteq> NUL" if i: "i < ?k" for i
  proof -
    let ?j = "length ln - fst t + i"
    have j: "?j < length ln" "?j < length buf" using i o buf(2) by auto
    have w: "word_char (ln ! ?j)" "ln ! ?j = tok ln t ! i" using nth_tok [of ln t i] ok t i by simp_all
    have "?j \<noteq> length ln - snd u" if "u \<in> set_cmd c" for u
    proof
      assume e: "?j = length ln - snd u"
      then have "snd u \<noteq> 0" using j(1) by auto
      then show False using ok that w(1) e by (auto simp: tok_ok_def)
    qed
    then have "nulterminate (length ln) c buf ! ?j = buf ! ?j" using j(2) by (auto simp: nth_nulterminate)
    then show "?b ! i = tok ln t ! i" "tok ln t ! i \<noteq> NUL" using ln [OF j(1)] w(2) j(2) by (simp_all add: add.commute)
  qed
  have len: "?k < length ?b" using o buf(2) by auto
  have "length ln - fst t + ?k = length ln - snd t" using o by simp
  then have "?b ! ?k = NUL" using o buf(2) t by (simp add: nth_nulterminate)
  then have "takeWhile (\<lambda>c. c \<noteq> NUL) ?b = take ?k ?b" using len same by (intro takeWhile_nth_eq) auto
  also have "\<dots> = tok ln t"
  proof (rule nth_equalityI)
    show "length (take ?k ?b) = length (tok ln t)" using len o by (simp add: tok_def)
    show "take ?k ?b ! i = tok ln t ! i" if "i < length (take ?k ?b)" for i using that len same(1) [of i] by simp
  qed
  finally show ?thesis .
qed

section \<open>The grammar\<close>

text \<open>What the parser is written for: command lines as trees, how a line is spelled, with a blank after each
  token, and the command that it stands for, here with the strings themselves in the place of the
  counted strings. A pipeline binds tighter than \<^verbatim>\<open>&\<close>, and that tighter than \<^verbatim>\<open>;\<close>.\<close>

datatype redirection = Redirection char string

datatype item = Arg string | Redirect redirection

datatype sline = Last spipe nat | Seq spipe nat sline
  and spipe = Single sexec | Piped sexec spipe
  and sexec = Simple "item list" | Group sline "redirection list"

fun show_redirection :: "redirection \<Rightarrow> string" where
  "show_redirection (Redirection op f) = (if op = CHR ''+'' then ''>>'' else [op]) @ '' '' @ f @ '' ''"

fun show_item :: "item \<Rightarrow> string" where
  "show_item (Arg w) = w @ '' ''"
| "show_item (Redirect rd) = show_redirection rd"

primrec show_line :: "sline \<Rightarrow> string" and show_pipe :: "spipe \<Rightarrow> string" and show_exec :: "sexec \<Rightarrow> string" where
  "show_line (Last p k) = show_pipe p @ concat (replicate k ''& '')"
| "show_line (Seq p k l) = show_pipe p @ concat (replicate k ''& '') @ ''; '' @ show_line l"
| "show_pipe (Single e) = show_exec e"
| "show_pipe (Piped e p) = show_exec e @ ''| '' @ show_pipe p"
| "show_exec (Simple is) = concat (map show_item is)"
| "show_exec (Group l rs) = ''( '' @ show_line l @ '') '' @ concat (map show_redirection rs)"

fun add_redirection :: "redirection \<Rightarrow> string cmd \<Rightarrow> string cmd" where
  "add_redirection (Redirection op f) c = redir op c f"

fun add_item :: "item \<Rightarrow> string cmd \<Rightarrow> string cmd" where
  "add_item (Arg w) c = add_arg w c"
| "add_item (Redirect rd) c = add_redirection rd c"

primrec line_cmd :: "sline \<Rightarrow> string cmd" and pipe_cmd :: "spipe \<Rightarrow> string cmd" and exec_cmd :: "sexec \<Rightarrow> string cmd" where
  "line_cmd (Last p k) = (BACK ^^ k) (pipe_cmd p)"
| "line_cmd (Seq p k l) = LIST ((BACK ^^ k) (pipe_cmd p)) (line_cmd l)"
| "pipe_cmd (Single e) = exec_cmd e"
| "pipe_cmd (Piped e p) = PIPE (exec_cmd e) (pipe_cmd p)"
| "exec_cmd (Simple is) = fold add_item is (EXEC [])"
| "exec_cmd (Group l rs) = fold add_redirection rs (line_cmd l)"

definition wf_word :: "string \<Rightarrow> bool" where
  "wf_word w \<longleftrightarrow> w \<noteq> [] \<and> list_all (\<lambda>c. word_char c \<and> c \<noteq> NUL) w"

fun wf_redirection :: "redirection \<Rightarrow> bool" where
  "wf_redirection (Redirection op f) \<longleftrightarrow> op \<in> set ''<>+'' \<and> wf_word f"

fun wf_item :: "item \<Rightarrow> bool" where
  "wf_item (Arg w) \<longleftrightarrow> wf_word w"
| "wf_item (Redirect rd) \<longleftrightarrow> wf_redirection rd"

fun arg_count :: "item list \<Rightarrow> nat" where
  "arg_count [] = 0"
| "arg_count (Arg w # is) = Suc (arg_count is)"
| "arg_count (Redirect rd # is) = arg_count is"

primrec wf_line :: "sline \<Rightarrow> bool" and wf_pipe :: "spipe \<Rightarrow> bool" and wf_exec :: "sexec \<Rightarrow> bool" where
  "wf_line (Last p k) \<longleftrightarrow> wf_pipe p"
| "wf_line (Seq p k l) \<longleftrightarrow> wf_pipe p \<and> wf_line l"
| "wf_pipe (Single e) \<longleftrightarrow> wf_exec e"
| "wf_pipe (Piped e p) \<longleftrightarrow> wf_exec e \<and> wf_pipe p"
| "wf_exec (Simple is) \<longleftrightarrow> list_all wf_item is \<and> arg_count is < MAXARGS"
| "wf_exec (Group l rs) \<longleftrightarrow> wf_line l \<and> list_all wf_redirection rs"

text \<open>How the scanner reads what is spelled.\<close>

definition at_token :: "string \<Rightarrow> bool" where
  "at_token s \<longleftrightarrow> s = [] \<or> deref s \<noteq> NUL \<and> deref s \<notin> set whitespace"

lemma at_token_skip [simp]: "at_token s \<Longrightarrow> skip_ws s = s"
  by (cases s) (auto simp: at_token_def skip_ws_def)

lemma skip_blank [simp]: "skip_ws (CHR '' '' # s) = skip_ws s"
  by (simp add: skip_ws_def whitespace_def)

lemma peek_at: "at_token s \<Longrightarrow> peek toks s = (s \<noteq> [] \<and> deref s \<in> set toks, s)"
  by (auto simp: peek_def Let_def at_token_def)

lemma blank_not_word: "\<not> word_char (CHR '' '')"
  by (simp add: word_char_def whitespace_def)

lemma symbol_not_word: "c \<in> set symbols \<Longrightarrow> \<not> word_char c"
  by (simp add: word_char_def)

lemma gettoken_wf_word:
  assumes "wf_word w" "at_token u"
  shows "gettoken (w @ CHR '' '' # u) = ((CHR ''a'', length w + Suc (length u), Suc (length u)), u)"
proof -
  obtain c v where w: "w = c # v" using assms(1) by (cases w) (auto simp: wf_word_def)
  have c: "word_char c" "c \<noteq> NUL" "list_all word_char v" using assms(1) w by (auto simp: wf_word_def list_all_iff)
  then have n: "c \<notin> set whitespace" "c \<notin> set ''|();&<''" "c \<noteq> CHR ''>''"
    using symbols_alt by (auto simp: word_char_def simp del: set_simps)
  have d: "dropWhile word_char (w @ CHR '' '' # u) = CHR '' '' # u"
    using c blank_not_word w by (simp add: list_all_iff)
  have "skip_ws (w @ CHR '' '' # u) = w @ CHR '' '' # u" using n(1) c(2) w by (intro at_token_skip) (simp add: at_token_def)
  moreover have "scan_token (w @ CHR '' '' # u) = (CHR ''a'', CHR '' '' # u)"
    using n(2,3) c(2) d w unfolding scan_token_def by (simp del: set_simps)
  ultimately show ?thesis using assms(2) by (simp add: gettoken_def)
qed

lemma gettoken_symbol:
  assumes "c \<in> set ''|();&<>''" "at_token u"
  shows "\<exists>p. gettoken (c # CHR '' '' # u) = ((c, p), u)"
proof -
  have "c \<noteq> NUL" "c \<notin> set whitespace" using assms(1) by (auto simp: whitespace_def)
  then have "skip_ws (c # CHR '' '' # u) = c # CHR '' '' # u" by (intro at_token_skip) (simp add: at_token_def)
  moreover have "scan_token (c # CHR '' '' # u) = (c, CHR '' '' # u)" using assms(1) by (auto simp: scan_token_def)
  ultimately show ?thesis using assms(2) by (simp add: gettoken_def)
qed

lemma gettoken_append:
  assumes "at_token u"
  shows "\<exists>p. gettoken (''>>'' @ CHR '' '' # u) = ((CHR ''+'', p), u)"
proof -
  have "skip_ws (''>>'' @ CHR '' '' # u) = ''>>'' @ CHR '' '' # u"
    by (intro at_token_skip) (simp add: at_token_def whitespace_def)
  then show ?thesis using assms by (simp add: gettoken_def scan_token_def)
qed

lemma tok_at: "suffix (w @ u) ln \<Longrightarrow> tok ln (length w + length u, length u) = w"
  using suffix_drop [of "w @ u" ln] by (simp add: tok_def)

definition follows :: "string \<Rightarrow> string \<Rightarrow> bool" where
  "follows fs r \<longleftrightarrow> r = [] \<or> deref r \<in> set fs"

lemma symbols_at: "c \<in> set ''|();&<>'' \<Longrightarrow> c \<noteq> NUL \<and> c \<notin> set whitespace \<and> c \<in> set symbols"
  by (auto simp: whitespace_def symbols_def)

lemma at_symbol: "c \<in> set ''|();&<>'' \<Longrightarrow> at_token (c # s)"
  using symbols_at by (simp add: at_token_def del: set_simps)

lemma follows_at: "follows ''|)&;'' r \<Longrightarrow> at_token r"
  by (cases r) (auto simp: follows_def at_token_def [of "[]"] intro!: at_symbol)

lemma wf_word_head: "wf_word w \<Longrightarrow> deref (w @ s) \<noteq> NUL \<and> word_char (deref (w @ s)) \<and> w @ s \<noteq> []"
  by (cases w) (auto simp: wf_word_def)

lemma at_word: "wf_word w \<Longrightarrow> at_token (w @ s)"
  using wf_word_head [of w s] by (simp add: at_token_def word_char_def)

lemma peek_word: "wf_word w \<Longrightarrow> set toks \<subseteq> set symbols \<Longrightarrow> peek toks (w @ s) = (False, w @ s)"
  using wf_word_head [of w s] symbol_not_word by (auto simp: peek_at [OF at_word])

lemma redirection_head:
  "wf_redirection rd \<Longrightarrow> \<exists>c u. show_redirection rd @ s = c # u \<and> c \<in> set ''<>''"
  by (cases rd) auto

lemma at_redirection: "wf_redirection rd \<Longrightarrow> at_token (show_redirection rd @ s)"
  using redirection_head [of rd s] by (auto intro!: at_symbol)

lemma at_item: "wf_item i \<Longrightarrow> at_token (show_item i @ s)"
  by (cases i) (simp_all add: at_redirection at_word)

lemma at_redirections: "list_all wf_redirection rs \<Longrightarrow> at_token r \<Longrightarrow> at_token (concat (map show_redirection rs) @ r)"
  by (cases rs) (simp_all add: at_redirection)

lemma at_items: "list_all wf_item is \<Longrightarrow> at_token r \<Longrightarrow> at_token (concat (map show_item is) @ r)"
  by (cases "is") (simp_all add: at_item)

lemma at_backs: "at_token r \<Longrightarrow> at_token (concat (replicate k ''& '') @ r)"
  by (cases k) (simp_all add: at_symbol)

lemma at_shown:
  "wf_line l \<Longrightarrow> at_token r \<Longrightarrow> at_token (show_line l @ r)"
  "wf_pipe p \<Longrightarrow> at_token r \<Longrightarrow> at_token (show_pipe p @ r)"
  "wf_exec e \<Longrightarrow> at_token r \<Longrightarrow> at_token (show_exec e @ r)"
  by (induction l and p and e arbitrary: r and r and r) (simp_all add: at_symbol at_items at_backs)

text \<open>Reading back a redirection, and then the items of a simple command.\<close>

lemma map_redir: "map_cmd f (redir op c t) = redir op (map_cmd f c) (f t)"
  by (simp add: redir_def)

lemma map_add_arg: "map_cmd f (add_arg a c) = add_arg (f a) (map_cmd f c)"
  by (induction a c rule: add_arg.induct) simp_all

lemma parseredirs_stop:
  "at_token s \<Longrightarrow> deref s \<notin> set ''<>'' \<Longrightarrow> parseredirs c s = Inr (c, s)"
  by (subst parseredirs.simps) (simp add: Let_def peek_at)

lemma parseredirs_one:
  assumes "wf_redirection (Redirection op f)" "at_token s" "suffix (show_redirection (Redirection op f) @ s) ln"
  obtains t where "parseredirs c (show_redirection (Redirection op f) @ s) = parseredirs (redir op c t) s" "tok ln t = f"
proof -
  let ?q = "show_redirection (Redirection op f) @ s" and ?u = "f @ CHR '' '' # s"
  let ?t = "(length f + Suc (length s), Suc (length s))"
  have w: "wf_word f" "op \<in> set ''<>+''" using assms(1) by simp_all
  have "\<exists>p. gettoken ?q = ((op, p), ?u)"
    using gettoken_symbol [of op ?u] gettoken_append [of ?u] at_word [OF w(1)] w(2) by auto
  then obtain p where g: "gettoken ?q = ((op, p), ?u)" by blast
  have g2: "gettoken ?u = ((CHR ''a'', ?t), s)" using gettoken_wf_word [OF w(1) assms(2)] .
  have "peek ''<>'' ?q = (True, ?q)"
    using redirection_head [OF assms(1), of s] at_redirection [OF assms(1), of s] by (auto simp: peek_at)
  then have "parseredirs c ?q = parseredirs (redir op c ?t) s"
    using g g2 by (subst parseredirs.simps) (simp add: Let_def)
  moreover have "suffix ?u ln" using assms(3) suffix_appendD [of "(if op = CHR ''+'' then ''>>'' else [op]) @ '' ''" ?u ln] by simp
  then have "tok ln ?t = f" using tok_at [of f "CHR '' '' # s" ln] by simp
  ultimately show thesis by (rule that)
qed

lemma parseredirs_all:
  assumes "list_all wf_redirection rs" "at_token r" "deref r \<notin> set ''<>''" "suffix (concat (map show_redirection rs) @ r) ln"
  shows "\<exists>c'. parseredirs c (concat (map show_redirection rs) @ r) = Inr (c', r) \<and> map_cmd (tok ln) c' = fold add_redirection rs (map_cmd (tok ln) c)"
  using assms
proof (induction rs arbitrary: c)
  case (Cons rd rs)
  obtain op f where rd: "rd = Redirection op f" by (cases rd)
  let ?s = "concat (map show_redirection rs) @ r"
  have "suffix (show_redirection (Redirection op f) @ ?s) ln" "suffix ?s ln"
    using Cons.prems(4) rd suffix_appendD [of "show_redirection rd" ?s ln] by simp_all
  then obtain t where t: "parseredirs c (show_redirection (Redirection op f) @ ?s) = parseredirs (redir op c t) ?s" "tok ln t = f"
    using parseredirs_one [of op f ?s ln c] at_redirections [of rs r] Cons.prems(1,2) rd by auto
  show ?case using Cons.IH [of "redir op c t"] Cons.prems t rd \<open>suffix ?s ln\<close> by (auto simp: map_redir)
qed (simp add: parseredirs_stop)

lemma items_parse:
  assumes "list_all wf_item is" "argc + arg_count is < MAXARGS" "follows ''|)&;'' r" "suffix (concat (map show_item is) @ r) ln"
  shows "\<exists>c'. rbind (parseredirs c (concat (map show_item is) @ r)) (\<lambda>(c, s). args_loop argc c s) = Inr (c', r)
    \<and> map_cmd (tok ln) c' = fold add_item is (map_cmd (tok ln) c)"
  using assms
proof (induction "is" arbitrary: c argc)
  case Nil
  note at = follows_at [OF Nil.prems(3)]
  have d: "deref r \<notin> set ''<>''" using Nil.prems(3) by (auto simp: follows_def)
  have "args_loop argc c r = Inr (c, r)"
  proof (cases r)
    case [simp]: Nil
    have "gettoken [] = ((NUL, 0, 0), [])" by (simp add: gettoken_def scan_token_def skip_ws_def)
    then show ?thesis by (subst args_loop.simps) (simp add: Let_def peek_def skip_ws_def)
  next
    case (Cons a s)
    then show ?thesis using Nil.prems(3) at by (subst args_loop.simps) (auto simp: Let_def peek_at follows_def)
  qed
  then show ?case using parseredirs_stop [OF at d, of c] by simp
next
  case (Cons i "is")
  let ?s = "concat (map show_item is) @ r"
  have s: "at_token ?s" "suffix ?s ln"
    using at_items [of "is" r] follows_at [OF Cons.prems(3)] Cons.prems(1,4) suffix_appendD [of "show_item i" ?s ln] by auto
  show ?case
  proof (cases i)
    case (Arg w)
    let ?u = "w @ CHR '' '' # ?s" and ?t = "(length w + Suc (length ?s), Suc (length ?s))"
    have w: "wf_word w" using Cons.prems(1) Arg by simp
    have p: "peek ''<>'' ?u = (False, ?u)" "peek ''|)&;'' ?u = (False, ?u)"
      by (rule peek_word [OF w], simp add: symbols_def)+
    have "parseredirs c ?u = Inr (c, ?u)" using p(1) by (subst parseredirs.simps) (simp add: Let_def)
    moreover have "args_loop argc c ?u = rbind (parseredirs (add_arg ?t c) ?s) (\<lambda>(c, s). args_loop (argc + 1) c s)"
      using p(2) gettoken_wf_word [OF w s(1)] Cons.prems(2) Arg by (subst args_loop.simps) (simp add: Let_def split_beta')
    moreover have "tok ln ?t = w" using tok_at [of w "CHR '' '' # ?s" ln] Cons.prems(4) Arg by simp
    ultimately show ?thesis
      using Cons.IH [of "argc + 1" "add_arg ?t c"] Cons.prems Arg s(2) by (auto simp: map_add_arg)
  next
    case (Redirect rd)
    obtain op f where rd: "rd = Redirection op f" by (cases rd)
    have "suffix (show_redirection (Redirection op f) @ ?s) ln" using Cons.prems(4) Redirect rd by simp
    then obtain t where t: "parseredirs c (show_redirection (Redirection op f) @ ?s) = parseredirs (redir op c t) ?s" "tok ln t = f"
      using parseredirs_one [of op f ?s ln c] Cons.prems(1) Redirect rd s(1) by auto
    show ?thesis using Cons.IH [of argc "redir op c t"] Cons.prems Redirect rd s(2) t by (auto simp: map_redir)
  qed
qed

lemma symbol_step:
  assumes "c \<in> set ''|();&''" "at_token s"
  shows "peek [c] (c # CHR '' '' # s) = (True, c # CHR '' '' # s)" "snd (gettoken (c # CHR '' '' # s)) = s"
proof -
  have c: "c \<in> set ''|();&<>''" using assms(1) by auto
  show "peek [c] (c # CHR '' '' # s) = (True, c # CHR '' '' # s)" by (simp add: peek_at at_symbol [OF c])
  show "snd (gettoken (c # CHR '' '' # s)) = s" using gettoken_symbol [OF c assms(2)] by auto
qed

lemma no_symbol: "at_token s \<Longrightarrow> deref s \<noteq> c \<or> s = [] \<Longrightarrow> peek [c] s = (False, s)"
  by (auto simp: peek_at)

lemma back_loop_shown:
  "at_token r \<Longrightarrow> deref r \<noteq> CHR ''&'' \<Longrightarrow> back_loop c (concat (replicate k ''& '') @ r) = ((BACK ^^ k) c, r)"
proof (induction k arbitrary: c)
  case 0
  then show ?case by (subst back_loop.simps) (simp add: Let_def no_symbol)
next
  case (Suc k)
  then show ?case
    using symbol_step [of "CHR ''&''" "concat (replicate k ''& '') @ r"] at_backs [of r k]
    by (subst back_loop.simps) (simp add: Let_def funpow_swap1)
qed

lemma map_backs: "map_cmd f ((BACK ^^ k) c) = (BACK ^^ k) (map_cmd f c)"
  by (induction k) simp_all

lemma exec_not_group: "list_all wf_item is \<Longrightarrow> follows ''|)&;'' r \<Longrightarrow> peek ''('' (concat (map show_item is) @ r) = (False, concat (map show_item is) @ r)"
proof (cases "is")
  case Nil
  then show "follows ''|)&;'' r \<Longrightarrow> ?thesis" using follows_at [of r] by (intro no_symbol) (auto simp: follows_def)
next
  case (Cons i js)
  assume h: "list_all wf_item is"
  let ?s = "concat (map show_item js) @ r"
  show ?thesis
  proof (cases i)
    case (Arg w)
    then show ?thesis using peek_word [of w "''(''" "CHR '' '' # ?s"] h Cons by (simp add: symbols_def)
  next
    case (Redirect rd)
    then have "wf_redirection rd" using h Cons by simp
    then show ?thesis using redirection_head [of rd ?s] at_redirection [of rd ?s] Cons Redirect by (intro no_symbol) auto
  qed
qed

lemma follows_mono: "follows fs r \<Longrightarrow> set fs \<subseteq> set gs \<Longrightarrow> follows gs r"
  by (auto simp: follows_def)

lemma shown_parse:
  "wf_line l \<Longrightarrow> follows '')'' r \<Longrightarrow> suffix (show_line l @ r) ln \<Longrightarrow> 4 * length (show_line l @ r) + 4 \<le> n
     \<Longrightarrow> \<exists>c. parseline n (show_line l @ r) = Inr (c, r) \<and> map_cmd (tok ln) c = line_cmd l"
  "wf_pipe p \<Longrightarrow> follows '')&;'' r \<Longrightarrow> suffix (show_pipe p @ r) ln \<Longrightarrow> 4 * length (show_pipe p @ r) + 3 \<le> n
     \<Longrightarrow> \<exists>c. parsepipe n (show_pipe p @ r) = Inr (c, r) \<and> map_cmd (tok ln) c = pipe_cmd p"
  "wf_exec e \<Longrightarrow> follows ''|)&;'' r \<Longrightarrow> suffix (show_exec e @ r) ln \<Longrightarrow> 4 * length (show_exec e @ r) + 2 \<le> n
     \<Longrightarrow> \<exists>c. parseexec n (show_exec e @ r) = Inr (c, r) \<and> map_cmd (tok ln) c = exec_cmd e"
proof (induction l and p and e arbitrary: r n and r n and r n)
  case (Last p k)
  let ?b = "concat (replicate k ''& '') @ r"
  obtain m where n: "n = Suc m" using Last.prems(4) by (cases n) auto
  have r: "at_token r" "deref r \<noteq> CHR ''&''" "peek '';'' r = (False, r)"
    using Last.prems(2) follows_at [of r] by (auto simp: follows_def intro!: no_symbol)
  have "follows '')&;'' ?b" using Last.prems(2) by (cases k) (auto simp: follows_def)
  then obtain c where "parsepipe m (show_pipe p @ ?b) = Inr (c, ?b)" "map_cmd (tok ln) c = pipe_cmd p"
    using Last.IH [of ?b m] Last.prems n by auto
  then show ?case using back_loop_shown [OF r(1,2), of c k] r(3) n by (auto simp: Let_def map_backs)
next
  case (Seq p k l)
  let ?l = "show_line l @ r"
  let ?b = "concat (replicate k ''& '') @ ''; '' @ ?l"
  obtain m where n: "n = Suc m" using Seq.prems(4) by (cases n) auto
  have at: "at_token ?l" using at_shown(1) Seq.prems(1,2) follows_at [of r] by (auto simp: follows_def)
  have "follows '')&;'' ?b" by (cases k) (auto simp: follows_def)
  then obtain c where c: "parsepipe m (show_pipe p @ ?b) = Inr (c, ?b)" "map_cmd (tok ln) c = pipe_cmd p"
    using Seq.IH(1) [of ?b m] Seq.prems n by auto
  have "suffix ?l ln" using Seq.prems(3) suffix_appendD [of "show_pipe p @ concat (replicate k ''& '') @ ''; ''" ?l ln] by simp
  then obtain d where d: "parseline m ?l = Inr (d, r)" "map_cmd (tok ln) d = line_cmd l"
    using Seq.IH(2) [of r m] Seq.prems n by auto
  have "back_loop c ?b = ((BACK ^^ k) c, ''; '' @ ?l)" using back_loop_shown [of "''; '' @ ?l" c k] at_symbol [of "CHR '';''"] by simp
  then show ?case using c d n symbol_step [of "CHR '';''", OF _ at] by (auto simp: Let_def map_backs)
next
  case (Single e)
  obtain m where n: "n = Suc m" using Single.prems(4) by (cases n) auto
  have "follows ''|)&;'' r" "peek ''|'' r = (False, r)"
    using Single.prems(2) follows_at [of r] by (auto simp: follows_def intro!: no_symbol)
  then show ?case using Single.IH [of r m] Single.prems n by (auto simp: Let_def)
next
  case (Piped e p)
  let ?p = "show_pipe p @ r"
  obtain m where n: "n = Suc m" using Piped.prems(4) by (cases n) auto
  have at: "at_token ?p" using at_shown(2) Piped.prems(1,2) follows_at [of r] by (auto simp: follows_def)
  obtain c where c: "parseexec m (show_exec e @ ''| '' @ ?p) = Inr (c, ''| '' @ ?p)" "map_cmd (tok ln) c = exec_cmd e"
    using Piped.IH(1) [of "''| '' @ ?p" m] Piped.prems n by (auto simp: follows_def)
  have "suffix ?p ln" using Piped.prems(3) suffix_appendD [of "show_exec e @ ''| ''" ?p ln] by simp
  then obtain d where d: "parsepipe m ?p = Inr (d, r)" "map_cmd (tok ln) d = pipe_cmd p"
    using Piped.IH(2) [of r m] Piped.prems n by auto
  then show ?case using c n symbol_step [of "CHR ''|''", OF _ at] by (auto simp: Let_def)
next
  case (Simple "is")
  obtain m where n: "n = Suc m" using Simple.prems(4) by (cases n) auto
  have w: "list_all wf_item is" "0 + arg_count is < MAXARGS" "suffix (concat (map show_item is) @ r) ln" using Simple.prems by simp_all
  show ?case
    using items_parse [OF w(1,2) Simple.prems(2) w(3), of "EXEC []"] exec_not_group [OF w(1) Simple.prems(2)] n
    by (simp add: Let_def)
next
  case (Group l rs)
  let ?q = "concat (map show_redirection rs) @ r"
  let ?s = "show_line l @ '') '' @ ?q"
  obtain m where n: "n = Suc (Suc m)" using Group.prems(4) by (cases n; cases "n - 1") auto
  have w: "wf_line l" "list_all wf_redirection rs" using Group.prems(1) by simp_all
  have at: "at_token r" "at_token ?q" "at_token ?s"
    using follows_at [OF Group.prems(2)] at_redirections [OF w(2)] at_shown(1) [OF w(1)] at_symbol [of "CHR '')''"] by auto
  have "suffix ?s ln" "suffix ?q ln"
    using Group.prems(3) suffix_appendD [of "''( ''" ?s ln] suffix_appendD [of "''( '' @ show_line l @ '') ''" ?q ln] by simp_all
  note sf = this
  obtain c where c: "parseline m ?s = Inr (c, '') '' @ ?q)" "map_cmd (tok ln) c = line_cmd l"
    using Group.IH [of "'') '' @ ?q" m] w(1) sf(1) Group.prems(4) n by (auto simp: follows_def)
  have "deref r \<notin> set ''<>''" using Group.prems(2) by (auto simp: follows_def)
  then obtain d where "parseredirs c ?q = Inr (d, r)" "map_cmd (tok ln) d = fold add_redirection rs (line_cmd l)"
    using parseredirs_all [OF w(2) at(1) _ sf(2), of c] c(2) by auto
  then show ?case using c(1) n symbol_step [of "CHR ''(''", OF _ at(3)] symbol_step [of "CHR '')''", OF _ at(2)] by (auto simp: Let_def)
qed

section \<open>The parser as a whole\<close>

text \<open>A string of the buffer: what the pointer \<open>t\<close> of a command reads there, up to the next NUL.\<close>

definition string_at :: "string \<Rightarrow> nat \<Rightarrow> counted \<Rightarrow> string" where
  "string_at buf n t = takeWhile (\<lambda>c. c \<noteq> NUL) (drop (n - fst t) buf)"

lemma parsecmd_result:
  assumes "parsecmd buf = Inr (c, buf')" "NUL \<in> set buf"
  defines "ln \<equiv> takeWhile (\<lambda>c. c \<noteq> NUL) buf"
  shows "\<forall>t\<in>set_cmd c. tok_ok ln t" "\<forall>t\<in>set_cmd c. string_at buf' (length ln) t = tok ln t" "length buf' = length buf"
proof -
  obtain s where s: "parseline (4 * length ln + 4) ln = Inr (c, s)" "buf' = nulterminate (length ln) c buf"
    using assms(1) by (auto simp: parsecmd_def ln_def Let_def rbind_eq_Inr split: if_splits)
  show ok: "\<forall>t\<in>set_cmd c. tok_ok ln t" using parser_parsed(1) [of ln ln "4 * length ln + 4"] s(1) by simp
  have "length ln < length buf"
    using assms(2) length_takeWhile_le [of "\<lambda>c. c \<noteq> NUL" buf] takeWhile_eq_all_conv [of "\<lambda>c. c \<noteq> NUL" buf] takeWhile_eq_take [of "\<lambda>c. c \<noteq> NUL" buf]
    unfolding ln_def by (metis le_neq_implies_less take_all_iff)
  then show "\<forall>t\<in>set_cmd c. string_at buf' (length ln) t = tok ln t"
    using nulterminate_strings [OF meta_eq_to_obj_eq [OF ln_def] _ ok] s(2) by (simp add: string_at_def)
  show "length buf' = length buf" using s(2) by simp
qed

lemma shown_no_nul:
  "wf_line l \<Longrightarrow> NUL \<notin> set (show_line l)"
  "wf_pipe p \<Longrightarrow> NUL \<notin> set (show_pipe p)"
  "wf_exec e \<Longrightarrow> NUL \<notin> set (show_exec e)"
proof (induction l and p and e)
  have w: "wf_word u \<Longrightarrow> NUL \<notin> set u" for u by (auto simp: wf_word_def list_all_iff)
  have r: "wf_redirection rd \<Longrightarrow> NUL \<notin> set (show_redirection rd)" for rd by (cases rd) (auto dest: w)
  have i: "wf_item i \<Longrightarrow> NUL \<notin> set (show_item i)" for i by (cases i) (auto dest: w r)
  { case (Simple "is")
    then show ?case using i by (auto simp: list_all_iff)
  next
    case (Group l rs)
    then show ?case using r by (auto simp: list_all_iff)
  }
qed (auto split: if_splits)

text \<open>(C32) The parser always returns, with a command or with one of its messages: no line, however its
  parentheses nest, makes it recurse without end.\<close>

theorem parsecmd_returns:
  "(\<exists>c buf'. parsecmd buf = Inr (c, buf')) \<or> (\<exists>m. m \<in> set messages \<and> parsecmd buf = Inl (Panic m))"
  using parsecmd_outcome [of buf] by (cases "parsecmd buf") (auto simp: answers_def)

text \<open>When the parser accepts a line, the strings of the command are words of it: each is not empty, has
  neither blanks nor the symbols of the shell in it, and read in the buffer after \<^verbatim>\<open>nulterminate\<close>, it is
  the text that was there in the line, although the parser has since overwritten the character after
  each of the strings.\<close>

theorem parsecmd_strings:
  assumes "parsecmd buf = Inr (c, buf')" "NUL \<in> set buf" "t \<in> set_cmd c"
  defines "ln \<equiv> takeWhile (\<lambda>c. c \<noteq> NUL) buf"
  shows "string_at buf' (length ln) t = take (fst t - snd t) (drop (length ln - fst t) ln)
    \<and> string_at buf' (length ln) t \<noteq> [] \<and> list_all word_char (string_at buf' (length ln) t)"
proof -
  note R = parsecmd_result [OF assms(1,2), folded ln_def]
  have t: "tok_ok ln t" "string_at buf' (length ln) t = tok ln t" using R assms(3) by auto
  have "length (tok ln t) = fst t - snd t" using t(1) by (simp add: tok_ok_def tok_def)
  then have "tok ln t \<noteq> []" using t(1) by (auto simp: tok_ok_def)
  then show ?thesis using t by (simp add: tok_def tok_ok_def)
qed

theorem parsecmd_strings_witness:
  "parsecmd (''cat a>b'' @ [NUL]) = Inr (REDIR (EXEC [(7, 4), (3, 2)]) (1, 0) 0x601 1, ''cat'' @ [NUL] @ ''a'' @ [NUL] @ ''b'' @ [NUL])
   \<and> string_at (''cat'' @ [NUL] @ ''a'' @ [NUL] @ ''b'' @ [NUL]) 7 (3, 2) = ''a''"
proof -
  have p: "parsecmd (''cat a>b'' @ [NUL]) = Inr (REDIR (EXEC [(7, 4), (3, 2)]) (1, 0) 0x601 1, ''cat'' @ [NUL] @ ''a'' @ [NUL] @ ''b'' @ [NUL])"
    by code_simp
  show ?thesis using p parsecmd_strings [OF p, of "(3, 2)"] by (simp add: eval_nat_numeral)
qed

text \<open>(C31) The parser reads back every command line of the grammar: from the spelling of a line it builds the
  command the line stands for, with the words themselves in the buffer, for every nesting of groups,
  pipelines, lists and background commands, and with the redirections innermost first as they stand
  on the line. A simple command may have nine arguments.\<close>

theorem parsecmd_reads_back:
  assumes "wf_line l"
  shows "\<exists>c buf'. parsecmd (show_line l @ [NUL]) = Inr (c, buf') \<and> map_cmd (string_at buf' (length (show_line l))) c = line_cmd l"
proof -
  let ?s = "show_line l"
  have tw: "takeWhile (\<lambda>c. c \<noteq> NUL) (?s @ [NUL]) = ?s" using shown_no_nul(1) [OF assms] by (subst takeWhile_append2) auto
  obtain c where c: "parseline (4 * length ?s + 4) ?s = Inr (c, [])" "map_cmd (tok ?s) c = line_cmd l"
    using shown_parse(1) [OF assms, of "[]" ?s "4 * length ?s + 4"] by (auto simp: follows_def)
  have "snd (peek [] []) = []" by (simp add: peek_def skip_ws_def)
  then have "parsecmd (?s @ [NUL]) = Inr (c, nulterminate (length ?s) c (?s @ [NUL]))"
    using c(1) tw by (simp add: parsecmd_def Let_def)
  moreover from parsecmd_result(2) [OF this] have "map_cmd (string_at (nulterminate (length ?s) c (?s @ [NUL])) (length ?s)) c = map_cmd (tok ?s) c"
    using tw by (intro cmd.map_cong) auto
  ultimately show ?thesis using c(2) by auto
qed

theorem parsecmd_reads_back_witness:
  "wf_line (Seq (Piped (Simple [Arg ''ls'']) (Single (Simple [Arg ''wc'', Redirect (Redirection (CHR ''>'') ''f'')]))) 1 (Last (Single (Simple [])) 0))
   \<and> (\<exists>c buf'. parsecmd (''ls | wc > f & ; '' @ [NUL]) = Inr (c, buf')
       \<and> map_cmd (string_at buf' 16) c = LIST (BACK (PIPE (EXEC [''ls'']) (REDIR (EXEC [''wc'']) ''f'' 0x601 1))) (EXEC []))"
proof -
  let ?l = "Seq (Piped (Simple [Arg ''ls'']) (Single (Simple [Arg ''wc'', Redirect (Redirection (CHR ''>'') ''f'')]))) 1 (Last (Single (Simple [])) 0)"
  have w: "wf_line ?l" by code_simp
  show ?thesis using w parsecmd_reads_back [OF w] by (simp add: redir_def eval_nat_numeral)
qed

end
