(* ===== verification/User_Prog.thy ===== *)
theory User_Prog
  imports Ulibc Shell
begin

text \<open>
  The user programs \<^verbatim>\<open>cat\<close>, \<^verbatim>\<open>wc\<close>, \<^verbatim>\<open>echo\<close>, \<^verbatim>\<open>rm\<close>, \<^verbatim>\<open>mkdir\<close>, \<^verbatim>\<open>ln\<close>, \<^verbatim>\<open>kill\<close>, \<^verbatim>\<open>ls\<close> and \<^verbatim>\<open>init\<close>, and \<^verbatim>\<open>gets\<close> and \<^verbatim>\<open>stat\<close> of
  \<^verbatim>\<open>user/ulibc.c\<close>. A program is a function of the answers that the kernel gives to its system calls: it maps the list of the
  answers to the calls it has made by then and to whether it has ended. A call that is not answered (yet, or never, as a
  successful \<^verbatim>\<open>exec\<close>) is the last one. So a program that never ends is a total function too, and each process of a
  \<^verbatim>\<open>fork\<close> is the same program with its own answer.
\<close>

section \<open>System calls\<close>

datatype call =
    Read int nat | Write int "byte list" | Open string int | Close int | Dup int | Pipe
  | Fork | Exec string "string list" | Wait | Exit int | Kill u32
  | Mknod string int int | Unlink string | Link string string | Mkdir string | Chdir string | Fstat int

text \<open>What a call returns, and what it stores for the process: the bytes of \<^verbatim>\<open>read\<close>, the ends of \<^verbatim>\<open>pipe\<close>, the fields of
  \<^verbatim>\<open>fstat\<close>.\<close>

record ans =
  ret :: int
  data :: "byte list"
  ends :: "int \<times> int"
  st_type :: int
  st_inode :: u32
  st_size :: "64 word"

datatype fate = Waiting | Exited int

type_synonym prog = "ans list \<Rightarrow> call list \<times> fate"

definition sys :: "call \<Rightarrow> (ans \<Rightarrow> prog) \<Rightarrow> prog" where
  "sys c k as = (case as of [] \<Rightarrow> ([c], Waiting) | a # as \<Rightarrow> (let (t, f) = k a as in (c # t, f)))"

definition exit_with :: "int \<Rightarrow> prog" where
  "exit_with n as = ([Exit n], Exited n)"

lemma sys_simps [simp]:
  "sys c k [] = ([c], Waiting)"
  "sys c k (a # as) = (c # fst (k a as), snd (k a as))"
  by (simp_all add: sys_def split: prod.split)

lemma sys_cong [fundef_cong]:
  assumes "c = c'" "as = as'" "\<And>a r. as' = a # r \<Longrightarrow> k a r = k' a r"
  shows "sys c k as = sys c' k' as'"
  using assms by (cases as') simp_all

section \<open>The library routines that make calls\<close>

text \<open>\<^verbatim>\<open>putc\<close> writes one byte and looks at no result.\<close>

fun puts :: "int \<Rightarrow> byte list \<Rightarrow> prog \<Rightarrow> prog" where
  "puts fd [] k as = k as"
| "puts fd (b # bs) k as = sys (Write fd [b]) (\<lambda>_. puts fd bs k) as"

lemma puts_cong [fundef_cong]:
  assumes "fd = fd'" "bs = bs'" "as = as'" "\<And>r. length r + length bs' \<le> length as' \<Longrightarrow> k r = k' r"
  shows "puts fd bs k as = puts fd' bs' k' as'"
  unfolding assms(1-3) using assms(4)
proof (induction bs' arbitrary: as')
  case (Cons b bs')
  then show ?case by (cases as') simp_all
qed simp

lemma puts_acks: "length acks = length bs \<Longrightarrow> puts fd bs k (acks @ as) = (map (\<lambda>b. Write fd [b]) bs @ fst (k as), snd (k as))"
proof (induction bs arbitrary: acks)
  case (Cons b bs)
  then show ?case by (cases acks) simp_all
qed simp

text \<open>A format literal is a list of pieces; the address of a string plays no part in what is shown.\<close>

abbreviation lit :: "string \<Rightarrow> piece list" where
  "lit s \<equiv> map Text (bytes_of s)"

abbreviation str :: "string \<Rightarrow> piece list" where
  "str s \<equiv> [Str 1 (bytes_of s)]"

abbreviation NL :: "piece list" where
  "NL \<equiv> [Text 10]"

definition fprintf :: "int \<Rightarrow> piece list \<Rightarrow> prog \<Rightarrow> prog" where
  "fprintf fd ps k as = puts fd (concat (map shown ps)) k as"

definition printf :: "piece list \<Rightarrow> prog \<Rightarrow> prog" where
  "printf ps k as = puts 1 (concat (map shown ps)) k as"

lemma fprintf_cong [fundef_cong]:
  assumes "fd = fd'" "ps = ps'" "as = as'" "\<And>r. length r + length (concat (map shown ps')) \<le> length as' \<Longrightarrow> k r = k' r"
  shows "fprintf fd ps k as = fprintf fd' ps' k' as'"
  unfolding fprintf_def assms(1-3) using assms(4) by (rule puts_cong [OF refl refl refl])

lemma printf_cong [fundef_cong]:
  assumes "ps = ps'" "as = as'" "\<And>r. length r + length (concat (map shown ps')) \<le> length as' \<Longrightarrow> k r = k' r"
  shows "printf ps k as = printf ps' k' as'"
  unfolding printf_def assms(1,2) using assms(3) by (rule puts_cong [OF refl refl refl])

text \<open>\<^verbatim>\<open>for (i=0; i+1 < max; )\<close>: \<open>n\<close> is the room that is left, \<open>got\<close> the buffer so far.\<close>

fun gets_loop :: "nat \<Rightarrow> byte list \<Rightarrow> (byte list \<Rightarrow> prog) \<Rightarrow> prog" where
  "gets_loop 0 got k as = k got as"
| "gets_loop (Suc n) got k as =
     sys (Read 0 1) (\<lambda>a as.
       if ret a < 1 then k got as
       else let c = data a ! 0 in
         if c = 10 \<or> c = 13 then k (got @ [c]) as else gets_loop n (got @ [c]) k as) as"

definition gets :: "nat \<Rightarrow> (byte list \<Rightarrow> prog) \<Rightarrow> prog" where
  "gets mx k as = gets_loop (mx - 1) [] (\<lambda>got. k (got @ [0])) as"

lemma gets_loop_cong:
  assumes "\<And>b r. length r \<le> length as \<Longrightarrow> k b r = k' b r"
  shows "gets_loop n got k as = gets_loop n got k' as"
  using assms
proof (induction n arbitrary: got as)
  case (Suc n)
  then show ?case by (cases as) (simp_all add: Let_def)
qed simp

lemma gets_cong [fundef_cong]:
  assumes "mx = mx'" "as = as'" "\<And>b r. length r \<le> length as' \<Longrightarrow> k b r = k' b r"
  shows "gets mx k as = gets mx' k' as'"
  unfolding gets_def assms(1,2) using assms(3) by (intro gets_loop_cong) simp

definition stat_file :: "string \<Rightarrow> (ans \<Rightarrow> prog) \<Rightarrow> prog" where
  "stat_file n k as =
     sys (Open n O_RDONLY) (\<lambda>a as.
       if ret a < 0 then k (a\<lparr>ret := - 1\<rparr>) as
       else sys (Fstat (ret a)) (\<lambda>r as. sys (Close (ret a)) (\<lambda>_. k r) as) as) as"

lemma stat_file_cong [fundef_cong]:
  assumes "n = n'" "as = as'" "\<And>a r. length r < length as' \<Longrightarrow> k a r = k' a r"
  shows "stat_file n k as = stat_file n' k' as'"
  unfolding stat_file_def assms(1,2) using assms(3) by (intro sys_cong if_cong refl) (auto intro!: sys_cong)

section \<open>cat\<close>

text \<open>The buffer keeps its bytes from call to call; \<^verbatim>\<open>read\<close> overwrites it from its start.\<close>

definition fill :: "ans \<Rightarrow> byte list \<Rightarrow> byte list" where
  "fill a buf = data a @ drop (length (data a)) buf"

function cat :: "int \<Rightarrow> byte list \<Rightarrow> (byte list \<Rightarrow> prog) \<Rightarrow> prog" where
  "cat fd buf k as =
     sys (Read fd 256) (\<lambda>a as.
       let n = ret a; buf = fill a buf in
       if n > 0 then
         sys (Write 1 (take (nat n) buf)) (\<lambda>w as.
           if ret w \<noteq> n then fprintf 2 (lit ''cat: write error'' @ NL) (exit_with 1) as
           else cat fd buf k as) as
       else if n < 0 then fprintf 2 (lit ''cat: read error'' @ NL) (exit_with 1) as
       else k buf as) as"
  by pat_completeness auto
termination
  by (relation "measure (\<lambda>(fd, buf, k, as). length as)") auto

declare cat.simps [simp del]

fun cat_files :: "string list \<Rightarrow> byte list \<Rightarrow> prog" where
  "cat_files [] buf as = exit_with 0 as"
| "cat_files (f # fs) buf as =
     sys (Open f 0) (\<lambda>a as.
       if ret a < 0 then fprintf 2 (lit ''cat: cannot open '' @ str f @ NL) (exit_with 1) as
       else cat (ret a) buf (\<lambda>buf as. sys (Close (ret a)) (\<lambda>_. cat_files fs buf) as) as) as"

text \<open>\<open>args\<close> are the arguments behind the name of the program.\<close>

definition cat_main :: "string list \<Rightarrow> prog" where
  "cat_main args as =
     (if args = [] then cat 0 (replicate 256 0) (\<lambda>_. exit_with 1) as
      else cat_files args (replicate 256 0) as)"

section \<open>wc\<close>

definition wc_blank :: "byte \<Rightarrow> bool" where
  "wc_blank b \<longleftrightarrow> strchr [CHR '' '', CHR 0x0D, CHR 0x09, CHR 0x0A, CHR 0x0B] (char_of (unat b)) \<noteq> None"

text \<open>The counters of lines, words and characters, and whether the last byte was in a word.\<close>

type_synonym counters = "u32 \<times> u32 \<times> u32 \<times> bool"

definition wc_byte :: "byte \<Rightarrow> counters \<Rightarrow> counters" where
  "wc_byte b = (\<lambda>(l, w, c, inword).
     let c = c + 1; l = (if b = 10 then l + 1 else l) in
     if wc_blank b then (l, w, c, False)
     else if \<not> inword then (l, w + 1, c, True)
     else (l, w, c, inword))"

function wc :: "int \<Rightarrow> string \<Rightarrow> counters \<Rightarrow> byte list \<Rightarrow> (byte list \<Rightarrow> prog) \<Rightarrow> prog" where
  "wc fd name n buf k as =
     sys (Read fd 512) (\<lambda>a as.
       let buf = fill a buf in
       if ret a > 0 then wc fd name (fold wc_byte (take (nat (ret a)) buf) n) buf k as
       else if ret a < 0 then printf (lit ''wc: read error'' @ NL) (exit_with 1) as
       else (case n of (l, w, c, _) \<Rightarrow>
         printf ([Dec l, Text 32, Dec w, Text 32, Dec c, Text 32] @ str name @ NL) (k buf) as)) as"
  by pat_completeness auto
termination
  by (relation "measure (\<lambda>(fd, name, n, buf, k, as). length as)") auto

declare wc.simps [simp del]

fun wc_files :: "string list \<Rightarrow> byte list \<Rightarrow> prog" where
  "wc_files [] buf as = exit_with 0 as"
| "wc_files (f # fs) buf as =
     sys (Open f 0) (\<lambda>a as.
       if ret a < 0 then printf (lit ''wc: cannot open '' @ str f @ NL) (exit_with 1) as
       else wc (ret a) f (0, 0, 0, False) buf (\<lambda>buf as. sys (Close (ret a)) (\<lambda>_. wc_files fs buf) as) as) as"

definition wc_main :: "string list \<Rightarrow> prog" where
  "wc_main args as =
     (if args = [] then wc 0 [] (0, 0, 0, False) (replicate 512 0) (\<lambda>_. exit_with 0) as
      else wc_files args (replicate 512 0) as)"

section \<open>echo, rm, mkdir, ln, kill\<close>

fun echo_main :: "string list \<Rightarrow> prog" where
  "echo_main [] as = exit_with 0 as"
| "echo_main (s # ss) as =
     sys (Write 1 (bytes_of s)) (\<lambda>_ as. sys (Write 1 [if ss \<noteq> [] then 32 else 10]) (\<lambda>_. echo_main ss) as) as"

fun rm_files :: "string list \<Rightarrow> prog" where
  "rm_files [] as = exit_with 0 as"
| "rm_files (f # fs) as =
     sys (Unlink f) (\<lambda>a as.
       if ret a < 0 then fprintf 2 (lit ''rm: '' @ str f @ lit '' failed to delete'' @ NL) (exit_with 0) as
       else rm_files fs as) as"

definition rm_main :: "string list \<Rightarrow> prog" where
  "rm_main args as = (if args = [] then fprintf 2 (lit ''Usage: rm files...'' @ NL) (exit_with 1) as else rm_files args as)"

fun mkdir_files :: "string list \<Rightarrow> prog" where
  "mkdir_files [] as = exit_with 0 as"
| "mkdir_files (f # fs) as =
     sys (Mkdir f) (\<lambda>a as.
       if ret a < 0 then fprintf 2 (lit ''mkdir: '' @ str f @ lit '' failed to create'' @ NL) (exit_with 0) as
       else mkdir_files fs as) as"

definition mkdir_main :: "string list \<Rightarrow> prog" where
  "mkdir_main args as = (if args = [] then fprintf 2 (lit ''Usage: mkdir files...'' @ NL) (exit_with 1) as else mkdir_files args as)"

definition ln_main :: "string list \<Rightarrow> prog" where
  "ln_main args as =
     (case args of
        [old, new] \<Rightarrow>
          sys (Link old new) (\<lambda>a as.
            if ret a < 0 then fprintf 2 (lit ''link '' @ str old @ lit '' '' @ str new @ lit '': failed'' @ NL) (exit_with 0) as
            else exit_with 0 as) as
      | _ \<Rightarrow> fprintf 2 (lit ''Usage: ln old new'' @ NL) (exit_with 1) as)"

text \<open>\<^verbatim>\<open>atoi\<close> on the bytes of a string.\<close>

definition atoi_bytes :: "byte list \<Rightarrow> u32" where
  "atoi_bytes s = foldl (\<lambda>n b. n * 10 + ucast b - 48) 0 (takeWhile (\<lambda>b. 48 \<le> b \<and> b \<le> 57) s)"

fun kill_pids :: "string list \<Rightarrow> prog" where
  "kill_pids [] as = exit_with 0 as"
| "kill_pids (p # ps) as = sys (Kill (atoi_bytes (bytes_of p))) (\<lambda>_. kill_pids ps) as"

definition kill_main :: "string list \<Rightarrow> prog" where
  "kill_main args as = (if args = [] then fprintf 2 (lit ''usage: kill pid...'' @ NL) (exit_with 1) as else kill_pids args as)"

section \<open>ls\<close>

text \<open>The part of a path behind its last slash, padded with blanks to the length of a directory name.\<close>

definition fmtname :: "string \<Rightarrow> string" where
  "fmtname path =
     (let p = rev (takeWhile (\<lambda>c. c \<noteq> CHR ''/'') (rev path)) in
      if length p \<ge> 14 then p else p @ replicate (14 - length p) (CHR '' ''))"

text \<open>A directory entry is two bytes of the inode number and fourteen of the name.\<close>

definition entry_inode :: "byte list \<Rightarrow> nat" where
  "entry_inode d = unat (d ! 0) + 256 * unat (d ! 1)"

definition entry_name :: "byte list \<Rightarrow> string" where
  "entry_name d = map (\<lambda>b. char_of (unat b)) (takeWhile (\<lambda>b. b \<noteq> 0) (take 14 (drop 2 d)))"

function ls_entries :: "int \<Rightarrow> string \<Rightarrow> prog \<Rightarrow> prog" where
  "ls_entries fd path k as =
     sys (Read fd 16) (\<lambda>a as.
       if ret a \<noteq> 16 then k as
       else if entry_inode (data a) = 0 then ls_entries fd path k as
       else let buf = path @ ''/'' @ entry_name (data a) in
         stat_file buf (\<lambda>st as.
           if ret st < 0 then printf (lit ''ls: cannot stat '' @ str buf @ NL) (ls_entries fd path k) as
           else printf (str (fmtname buf) @ [Text 32, Dec (of_int (st_type st)), Text 32, Dec (st_inode st), Text 32, Dec (ucast (st_size st))] @ NL)
             (ls_entries fd path k) as) as) as"
  by pat_completeness auto
termination
  by (relation "measure (\<lambda>(fd, path, k, as). length as)") auto

declare ls_entries.simps [simp del]

definition ls :: "string \<Rightarrow> prog \<Rightarrow> prog" where
  "ls path k as =
     sys (Open path 0) (\<lambda>a as.
       if ret a < 0 then fprintf 2 (lit ''ls: cannot open '' @ str path @ NL) k as
       else sys (Fstat (ret a)) (\<lambda>st as.
         let close = (\<lambda>as. sys (Close (ret a)) (\<lambda>_. k) as) in
         if ret st < 0 then fprintf 2 (lit ''ls: cannot stat '' @ str path @ NL) close as
         else if st_type st = 2 then
           printf (str (fmtname path) @ [Text 32, Dec (of_int (st_type st)), Text 32, Dec (st_inode st), Text 32, Udec (ucast (st_size st))] @ NL) close as
         else if st_type st = 1 then
           (if length path + 1 + 14 + 1 > 512 then printf (lit ''ls: path too long'' @ NL) close as
            else ls_entries (ret a) path close as)
         else close as) as) as"

fun ls_files :: "string list \<Rightarrow> prog" where
  "ls_files [] as = exit_with 0 as"
| "ls_files (f # fs) as = ls f (ls_files fs) as"

definition ls_main :: "string list \<Rightarrow> prog" where
  "ls_main args as = (if args = [] then ls ''.'' (exit_with 0) as else ls_files args as)"

section \<open>init\<close>

function init_wait :: "int \<Rightarrow> prog \<Rightarrow> prog" where
  "init_wait pid k as =
     sys Wait (\<lambda>a as.
       if ret a = pid then k as
       else if ret a < 0 then printf (lit ''init: wait returned an error'' @ NL) (exit_with 1) as
       else init_wait pid k as) as"
  by pat_completeness auto
termination
  by (relation "measure (\<lambda>(pid, k, as). length as)") auto

declare init_wait.simps [simp del]

lemma init_wait_cong [fundef_cong]:
  assumes "pid = pid'" "as = as'" "\<And>r. length r < length as' \<Longrightarrow> k r = k' r"
  shows "init_wait pid k as = init_wait pid' k' as'"
  unfolding assms(1,2) using assms(3)
proof (induction as')
  case (Cons a as')
  then show ?case by (simp add: init_wait.simps [of pid' _ "a # as'"])
qed (simp add: init_wait.simps [of pid' _ "[]"])

function init_loop :: prog where
  "init_loop as =
     printf (lit ''init: starting sh'' @ NL) (\<lambda>as.
       sys Fork (\<lambda>a as.
         if ret a < 0 then printf (lit ''init: fork failed'' @ NL) (exit_with 1) as
         else if ret a = 0 then
           sys (Exec ''sh'' [''sh'']) (\<lambda>_. printf (lit ''init: exec sh failed'' @ NL) (exit_with 1)) as
         else init_wait (ret a) init_loop as) as) as"
  by pat_completeness auto
termination
  by (relation "measure length") auto

declare init_loop.simps [simp del]

abbreviation "CONSOLE \<equiv> 1 :: int"
abbreviation "O_RDWR \<equiv> 2 :: int"

definition init_fds :: prog where
  "init_fds as = sys (Dup 0) (\<lambda>_ as. sys (Dup 0) (\<lambda>_. init_loop) as) as"

definition init_main :: prog where
  "init_main as =
     sys (Open ''console'' O_RDWR) (\<lambda>a as.
       if ret a < 0 then
         sys (Mknod ''console'' CONSOLE 1) (\<lambda>_ as. sys (Open ''console'' O_RDWR) (\<lambda>_. init_fds) as) as
       else init_fds as) as"

section \<open>What the filters do with a file\<close>

text \<open>The answers to the calls on a file whose bytes come in some chunks.\<close>

definition answer :: "int \<Rightarrow> ans" where
  "answer n = \<lparr>ret = n, data = [], ends = (0, 0), st_type = 0, st_inode = 0, st_size = 0\<rparr>"

definition chunk_ans :: "byte list \<Rightarrow> ans" where
  "chunk_ans bs = (answer (int (length bs)))\<lparr>data := bs\<rparr>"

lemma answer_simps [simp]: "ret (answer n) = n" "ret (chunk_ans bs) = int (length bs)" "data (chunk_ans bs) = bs"
  by (simp_all add: answer_def chunk_ans_def)

lemma take_fill [simp]: "take (length bs) (fill (chunk_ans bs) buf) = bs"
  by (simp add: fill_def)

fun written :: "int \<Rightarrow> call list \<Rightarrow> byte list" where
  "written fd [] = []"
| "written fd (Write d bs # cs) = (if d = fd then bs else []) @ written fd cs"
| "written fd (c # cs) = written fd cs"

lemma written_append [simp]: "written fd (cs @ ds) = written fd cs @ written fd ds"
  by (induction fd cs rule: written.induct) simp_all

lemma written_bytes [simp]: "written fd (map (\<lambda>b. Write fd [b]) bs) = bs"
  by (induction bs) simp_all

lemma written_reads [simp]: "written fd (replicate n (Read d k)) = []"
  by (induction n) simp_all

definition cat_answers :: "byte list list \<Rightarrow> ans list" where
  "cat_answers cs = concat (map (\<lambda>c. [chunk_ans c, answer (int (length c))]) cs) @ [chunk_ans []]"

definition cat_calls :: "int \<Rightarrow> byte list list \<Rightarrow> call list" where
  "cat_calls fd cs = concat (map (\<lambda>c. [Read fd 256, Write 1 c]) cs) @ [Read fd 256]"

lemma written_cat_calls [simp]: "written 1 (cat_calls fd cs) = concat cs"
proof -
  have "written 1 (concat (map (\<lambda>c. [Read fd 256, Write 1 c]) cs)) = concat cs" by (induction cs) simp_all
  then show ?thesis by (simp add: cat_calls_def)
qed

lemma cat_chunks:
  "[] \<notin> set cs \<Longrightarrow> \<exists>buf'. cat fd buf k (cat_answers cs @ as) = (cat_calls fd cs @ fst (k buf' as), snd (k buf' as))"
proof (induction cs arbitrary: buf)
  case Nil
  show ?case by (rule exI [of _ "fill (chunk_ans []) buf"]) (simp add: cat.simps [of fd buf] cat_answers_def cat_calls_def)
next
  case (Cons c cs)
  then obtain buf' where "cat fd (fill (chunk_ans c) buf) k (cat_answers cs @ as) = (cat_calls fd cs @ fst (k buf' as), snd (k buf' as))"
    using Cons.IH [of "fill (chunk_ans c) buf"] by auto
  moreover have "c \<noteq> []" using Cons.prems by auto
  ultimately show ?case
    by (intro exI [of _ buf']) (simp add: cat.simps [of fd buf] cat_answers_def cat_calls_def)
qed

text \<open>The reference of \<^verbatim>\<open>wc\<close>: the words of a text.\<close>

function words :: "byte list \<Rightarrow> byte list list" where
  "words [] = []"
| "words (b # bs) =
     (if wc_blank b then words bs
      else (b # takeWhile (\<lambda>c. \<not> wc_blank c) bs) # words (dropWhile (\<lambda>c. \<not> wc_blank c) bs))"
  by pat_completeness auto
termination
  by (relation "measure length") (auto simp: less_Suc_eq_le length_dropWhile_le)

lemma words_drop: "words (dropWhile (\<lambda>c. \<not> wc_blank c) bs) = (case bs of [] \<Rightarrow> [] | b # bs \<Rightarrow> if wc_blank b then words bs else words (dropWhile (\<lambda>c. \<not> wc_blank c) bs))"
  by (cases bs) simp_all

lemma wc_bytes:
  "fold wc_byte bs (l, w, c, inword) =
     (l + of_nat (count_list bs 10), w + of_nat (length (words (if inword then dropWhile (\<lambda>c. \<not> wc_blank c) bs else bs))),
      c + of_nat (length bs), if bs = [] then inword else \<not> wc_blank (last bs))"
proof (induction bs arbitrary: l w c inword)
  case (Cons b bs)
  then show ?case by (cases "wc_blank b"; cases inword) (simp_all add: wc_byte_def Let_def)
qed simp

lemma wc_chunks:
  "[] \<notin> set cs \<Longrightarrow> \<exists>buf'. wc fd name n buf k (map chunk_ans cs @ chunk_ans [] # as) =
     (let p = (case fold wc_byte (concat cs) n of (l, w, c, _) \<Rightarrow>
         printf ([Dec l, Text 32, Dec w, Text 32, Dec c, Text 32] @ str name @ NL) (k buf') as)
      in (replicate (Suc (length cs)) (Read fd 512) @ fst p, snd p))"
proof (induction cs arbitrary: buf n)
  case Nil
  show ?case by (rule exI [of _ "fill (chunk_ans []) buf"]) (simp add: wc.simps [of fd name n buf] Let_def split: prod.split)
next
  case (Cons c cs)
  have ns: "[] \<notin> set cs" using Cons.prems by simp
  obtain buf' where "wc fd name (fold wc_byte c n) (fill (chunk_ans c) buf) k (map chunk_ans cs @ chunk_ans [] # as) =
     (let p = (case fold wc_byte (concat cs) (fold wc_byte c n) of (l, w, c, _) \<Rightarrow>
         printf ([Dec l, Text 32, Dec w, Text 32, Dec c, Text 32] @ str name @ NL) (k buf') as)
      in (replicate (Suc (length cs)) (Read fd 512) @ fst p, snd p))"
    using Cons.IH [OF ns, where n = "fold wc_byte c n" and buf = "fill (chunk_ans c) buf"] by blast
  moreover have "c \<noteq> []" using Cons.prems by auto
  ultimately show ?case by (intro exI [of _ buf']) (simp add: wc.simps [of fd name n buf] Let_def del: replicate_Suc, simp add: Let_def)
qed

definition wc_line :: "string \<Rightarrow> byte list \<Rightarrow> byte list" where
  "wc_line name s = decimal (count_list s 10) @ [32] @ decimal (length (words s)) @ [32] @ decimal (length s) @ [32] @ bytes_of name @ [10]"

lemma shown_count: "n < 2147483648 \<Longrightarrow> shown (Dec (of_nat n)) = decimal n"
proof -
  assume n: "n < 2147483648"
  then have "unat (of_nat n :: u32) = n" by (intro unat_of_nat_u32) simp
  then have "uint (of_nat n :: u32) = int n" by (metis uint_nat)
  then have "sint (of_nat n :: u32) = int n" using n by (simp add: sint_u32)
  then show ?thesis by (simp add: signed_decimal_def)
qed

lemma length_words: "length (words s) \<le> length s"
proof (induction s rule: words.induct)
  case (2 b bs)
  then show ?case using length_dropWhile_le [of "\<lambda>c. \<not> wc_blank c" bs] by (auto intro: le_trans)
qed simp

lemma wc_file:
  assumes "[] \<notin> set cs" "length (concat cs) < 2147483648" "length acks = length (wc_line name (concat cs))"
  shows "\<exists>buf'. wc fd name (0, 0, 0, False) buf k (map chunk_ans cs @ chunk_ans [] # acks @ as) =
    (replicate (Suc (length cs)) (Read fd 512) @ map (\<lambda>b. Write 1 [b]) (wc_line name (concat cs)) @ fst (k buf' as), snd (k buf' as))"
proof -
  let ?s = "concat cs"
  have b: "shown (Dec (of_nat (count_list ?s 10))) = decimal (count_list ?s 10)"
    "shown (Dec (of_nat (length (words ?s)))) = decimal (length (words ?s))" "shown (Dec (of_nat (length ?s))) = decimal (length ?s)"
    using assms(2) count_le_length [of ?s 10] length_words [of ?s] by (auto intro!: shown_count simp del: shown.simps)
  have "fold wc_byte ?s (0, 0, 0, False) = (of_nat (count_list ?s 10), of_nat (length (words ?s)), of_nat (length ?s), if ?s = [] then False else \<not> wc_blank (last ?s))"
    by (simp add: wc_bytes)
  moreover have "concat (map shown ([Dec (of_nat (count_list ?s 10)), Text 32, Dec (of_nat (length (words ?s))), Text 32, Dec (of_nat (length ?s)), Text 32] @ str name @ NL)) = wc_line name ?s"
    using b by (simp add: wc_line_def del: shown.simps(2))
  ultimately show ?thesis using wc_chunks [OF assms(1), of fd name "(0, 0, 0, False)" buf k "acks @ as"] puts_acks [OF assms(3), of 1]
    by (simp add: printf_def Let_def del: replicate_Suc shown.simps)
qed

section \<open>Properties\<close>

definition cat_session :: "(string \<times> int \<times> byte list list) list \<Rightarrow> ans list" where
  "cat_session files = concat (map (\<lambda>(f, fd, cs). answer fd # cat_answers cs @ [answer 0]) files)"

lemma cat_files_session:
  "(\<forall>(f, fd, cs)\<in>set files. 0 \<le> fd \<and> [] \<notin> set cs) \<Longrightarrow>
   cat_files (map fst files) buf (cat_session files) =
     (concat (map (\<lambda>(f, fd, cs). Open f 0 # cat_calls fd cs @ [Close fd]) files) @ [Exit 0], Exited 0)"
proof (induction files arbitrary: buf)
  case (Cons x files)
  obtain f fd cs where x: "x = (f, fd, cs)" by (cases x)
  have *: "0 \<le> fd" "[] \<notin> set cs" using Cons.prems x by auto
  obtain buf' where "cat fd buf (\<lambda>buf as. sys (Close fd) (\<lambda>_. cat_files (map fst files) buf) as) (cat_answers cs @ answer 0 # cat_session files) =
     (cat_calls fd cs @ Close fd # fst (cat_files (map fst files) buf' (cat_session files)), snd (cat_files (map fst files) buf' (cat_session files)))"
    using cat_chunks [OF *(2), of fd buf "\<lambda>buf as. sys (Close fd) (\<lambda>_. cat_files (map fst files) buf) as" "answer 0 # cat_session files"] by auto
  then show ?case using Cons.IH [of buf'] Cons.prems *(1) x by (simp add: cat_session_def)
qed (simp add: cat_session_def exit_with_def)



definition wc_session :: "(string \<times> int \<times> byte list list \<times> ans list) list \<Rightarrow> ans list" where
  "wc_session files = concat (map (\<lambda>(f, fd, cs, acks). answer fd # map chunk_ans cs @ chunk_ans [] # acks @ [answer 0]) files)"

lemma wc_files_session:
  "(\<forall>(f, fd, cs, acks)\<in>set files. 0 \<le> fd \<and> [] \<notin> set cs \<and> length (concat cs) < 2147483648 \<and> length acks = length (wc_line f (concat cs))) \<Longrightarrow>
   wc_files (map fst files) buf (wc_session files) =
     (concat (map (\<lambda>(f, fd, cs, acks). Open f 0 # replicate (Suc (length cs)) (Read fd 512) @ map (\<lambda>b. Write 1 [b]) (wc_line f (concat cs)) @ [Close fd]) files) @ [Exit 0], Exited 0)"
proof (induction files arbitrary: buf)
  case (Cons x files)
  obtain f fd cs acks where x: "x = (f, fd, cs, acks)" by (cases x)
  have *: "0 \<le> fd" "[] \<notin> set cs" "length (concat cs) < 2147483648" "length acks = length (wc_line f (concat cs))" using Cons.prems x by auto
  let ?k = "\<lambda>buf as. sys (Close fd) (\<lambda>_. wc_files (map fst files) buf) as"
  obtain buf' where "wc fd f (0, 0, 0, False) buf ?k (map chunk_ans cs @ chunk_ans [] # acks @ answer 0 # wc_session files) =
     (replicate (Suc (length cs)) (Read fd 512) @ map (\<lambda>b. Write 1 [b]) (wc_line f (concat cs)) @ Close fd # fst (wc_files (map fst files) buf' (wc_session files)),
      snd (wc_files (map fst files) buf' (wc_session files)))"
    using wc_file [OF *(2,3,4), of fd buf ?k "answer 0 # wc_session files"] by auto
  then show ?case using Cons.IH [of buf'] Cons.prems *(1) x by (simp add: wc_session_def del: replicate_Suc)
qed (simp add: wc_session_def exit_with_def)



section \<open>The other programs\<close>

lemma atoi_loop_bytes: "str_at m p s \<Longrightarrow> atoi_loop m p n = Some (foldl (\<lambda>n b. n * 10 + ucast b - 48) n (takeWhile (\<lambda>b. 48 \<le> b \<and> b \<le> 57) s))"
proof (induction s arbitrary: p n)
  case (Cons b s)
  then show ?case by (simp add: atoi_loop.simps [of m p])
qed (simp add: atoi_loop.simps)

text \<open>\<^verbatim>\<open>kill\<close> passes on what \<^verbatim>\<open>atoi\<close> of the library reads.\<close>

lemma atoi_bytes_atoi: "str_at m p s \<Longrightarrow> atoi m p = Some (atoi_bytes s)"
  by (simp add: atoi_def atoi_bytes_def atoi_loop_bytes)

lemma echo_writes:
  "length as = 2 * length args \<Longrightarrow> \<exists>calls. echo_main args as = (calls, Exited 0) \<and>
     written 1 calls = concat (map (\<lambda>i. bytes_of (args ! i) @ [if Suc i < length args then 32 else 10]) [0..<length args])"
proof (induction args arbitrary: as)
  case (Cons s ss)
  then obtain a b r where as: "as = a # b # r" "length r = 2 * length ss" by (auto simp: length_Suc_conv)
  from Cons.IH [OF as(2)] obtain calls where c: "echo_main ss r = (calls, Exited 0)"
    "written 1 calls = concat (map (\<lambda>i. bytes_of (ss ! i) @ [if Suc i < length ss then 32 else 10]) [0..<length ss])" by auto
  have "[0..<length (s # ss)] = 0 # map Suc [0..<length ss]" by (simp add: upt_conv_Cons map_Suc_upt del: upt_Suc)
  then show ?case using c as by (simp add: o_def del: upt_Suc)
qed (simp add: exit_with_def)

lemma init_wait_orphans:
  "\<forall>n\<in>set ns. 0 \<le> n \<and> n \<noteq> pid \<Longrightarrow>
   init_wait pid k (map answer (ns @ [pid]) @ as) = (replicate (Suc (length ns)) Wait @ fst (k as), snd (k as))"
proof (induction ns)
  case Nil
  then show ?case by (simp add: init_wait.simps [of pid k "answer pid # as"])
next
  case (Cons n ns)
  then show ?case by (simp add: init_wait.simps [of pid k "answer n # _"])
qed

text \<open>A life of the shell: the acknowledged bytes of the message, its process id, the orphans that end before it does.\<close>

type_synonym life = "ans list \<times> int \<times> int list"

definition starting :: "byte list" where
  "starting = bytes_of ''init: starting sh'' @ [10]"

fun life_ok :: "life \<Rightarrow> bool" where
  "life_ok (acks, pid, ns) = (length acks = length starting \<and> pid > 0 \<and> list_all (\<lambda>n. 0 \<le> n \<and> n \<noteq> pid) ns)"

fun life_answers :: "life \<Rightarrow> ans list" where
  "life_answers (acks, pid, ns) = acks @ answer pid # map answer (ns @ [pid])"

fun life_calls :: "life \<Rightarrow> call list" where
  "life_calls (acks, pid, ns) = map (\<lambda>b. Write 1 [b]) starting @ Fork # replicate (Suc (length ns)) Wait"

lemma init_life:
  assumes "life_ok x"
  shows "init_loop (life_answers x @ as) = (life_calls x @ fst (init_loop as), snd (init_loop as))"
proof -
  obtain acks pid ns where x: "x = (acks, pid, ns)" by (cases x)
  have ok: "length acks = length starting" "pid > 0" "\<forall>n\<in>set ns. 0 \<le> n \<and> n \<noteq> pid" using assms x by (simp_all add: list_all_iff)
  have s: "concat (map shown (lit ''init: starting sh'' @ NL)) = starting" by (simp add: starting_def bytes_of_def)
  show ?thesis unfolding x life_answers.simps append_assoc append_Cons
    unfolding init_loop.simps [of "acks @ answer pid # map answer (ns @ [pid]) @ as"] printf_def s puts_acks [OF ok(1)]
    using ok(2) init_wait_orphans [OF ok(3), of init_loop as] by simp
qed



end
