(* ===== verification/Shell_Run.thy ===== *)
theory Shell_Run
  imports User_Prog
begin

text \<open>
  The part of \<^verbatim>\<open>user/sh.c\<close> that makes system calls: \<^verbatim>\<open>main\<close>, \<^verbatim>\<open>getcmd\<close>, \<^verbatim>\<open>fork1\<close>, \<^verbatim>\<open>panic\<close> and \<^verbatim>\<open>runcmd\<close>. The commands are those of
  the parser, with the strings in place of the pointers into the line. \<^verbatim>\<open>runcmd\<close> ends in \<^verbatim>\<open>exit\<close> on every branch, so what
  the source writes behind \<^verbatim>\<open>if (fork1() == 0) runcmd(...)\<close> is the other branch.
\<close>

section \<open>Running a command\<close>

definition sh_panic :: "string \<Rightarrow> prog" where
  "sh_panic s as = fprintf 2 (str s @ NL) (exit_with 1) as"

definition fork1 :: "(int \<Rightarrow> prog) \<Rightarrow> prog" where
  "fork1 k as = sys Fork (\<lambda>a as. if ret a = - 1 then sh_panic ''fork1, shell'' as else k (ret a) as) as"

lemma fork1_cong [fundef_cong]:
  assumes "as = as'" "\<And>p r. length r < length as' \<Longrightarrow> k p r = k' p r"
  shows "fork1 k as = fork1 k' as'"
  unfolding fork1_def assms(1) using assms(2) by (intro sys_cong if_cong refl) auto

fun runcmd :: "string cmd \<Rightarrow> prog" where
  "runcmd (EXEC argv) as =
     (if argv = [] then exit_with 1 as
      else sys (Exec (argv ! 0) argv) (\<lambda>_. fprintf 2 (lit ''exec '' @ str (argv ! 0) @ lit '' failed'' @ NL) (exit_with 0)) as)"
| "runcmd (REDIR c file mode fd) as =
     sys (Close fd) (\<lambda>_ as.
     sys (Open file mode) (\<lambda>a as.
       if ret a < 0 then fprintf 2 (lit ''open '' @ str file @ lit '' failed'' @ NL) (exit_with 1) as
       else runcmd c as) as) as"
| "runcmd (LIST l r) as =
     fork1 (\<lambda>pid as. if pid = 0 then runcmd l as else sys Wait (\<lambda>_. runcmd r) as) as"
| "runcmd (PIPE l r) as =
     sys Pipe (\<lambda>a as.
       if ret a < 0 then sh_panic ''pipe, runcmd'' as
       else let (p0, p1) = ends a in
         fork1 (\<lambda>pid as.
           if pid = 0 then
             sys (Close 1) (\<lambda>_ as. sys (Dup p1) (\<lambda>_ as. sys (Close p0) (\<lambda>_ as. sys (Close p1) (\<lambda>_. runcmd l) as) as) as) as
           else fork1 (\<lambda>pid as.
             if pid = 0 then
               sys (Close 0) (\<lambda>_ as. sys (Dup p0) (\<lambda>_ as. sys (Close p0) (\<lambda>_ as. sys (Close p1) (\<lambda>_. runcmd r) as) as) as) as
             else
               sys (Close p0) (\<lambda>_ as. sys (Close p1) (\<lambda>_ as. sys Wait (\<lambda>_ as. sys Wait (\<lambda>_. exit_with 0) as) as) as) as) as) as) as"
| "runcmd (BACK c) as = fork1 (\<lambda>pid as. if pid = 0 then runcmd c as else exit_with 0 as) as"

section \<open>Reading and running lines\<close>

text \<open>\<^verbatim>\<open>memset\<close> has zeroed the whole buffer before \<^verbatim>\<open>gets\<close> fills it from the start.\<close>

definition getcmd :: "nat \<Rightarrow> (int \<Rightarrow> byte list \<Rightarrow> prog) \<Rightarrow> prog" where
  "getcmd nbuf k as =
     fprintf 2 (lit ''$ '') (gets nbuf (\<lambda>b as.
       let buf = b @ replicate (nbuf - length b) 0 in
       k (if buf ! 0 = 0 then - 1 else 0) buf as)) as"

lemma getcmd_cong [fundef_cong]:
  assumes "nbuf = nbuf'" "as = as'" "\<And>x b r. length r < length as' \<Longrightarrow> k x b r = k' x b r"
  shows "getcmd nbuf k as = getcmd nbuf' k' as'"
  unfolding getcmd_def assms(1,2)
  by (intro fprintf_cong gets_cong refl) (simp add: bytes_of_def assms(3))

definition text_of :: "byte list \<Rightarrow> string" where
  "text_of b = map (\<lambda>b. char_of (unat b)) b"

text \<open>The rest of the line that \<^verbatim>\<open>parsecmd\<close> shows before it panics.\<close>

definition leftovers :: "string \<Rightarrow> string" where
  "leftovers buf =
     (let s = takeWhile (\<lambda>c. c \<noteq> NUL) buf in
      case parseline (4 * length s + 4) s of Inl _ \<Rightarrow> [] | Inr (_, t) \<Rightarrow> snd (peek [] t))"

text \<open>\<^verbatim>\<open>runcmd(parsecmd(buf))\<close>\<close>

definition run_line :: "string \<Rightarrow> prog" where
  "run_line buf as =
     (case parsecmd buf of
        Inr (c, buf') \<Rightarrow> runcmd (map_cmd (string_at buf' (length (takeWhile (\<lambda>c. c \<noteq> NUL) buf))) c) as
      | Inl (Panic msg) \<Rightarrow>
          if leftovers buf \<noteq> [] then fprintf 2 (lit ''leftovers: '' @ str (leftovers buf) @ NL) (sh_panic msg) as
          else sh_panic msg as
      | Inl _ \<Rightarrow> exit_with 1 as)"

function sh_loop :: prog where
  "sh_loop as =
     getcmd 100 (\<lambda>r buf as.
       if r < 0 then exit_with 0 as
       else if buf ! 0 = of_char CHR ''c'' \<and> buf ! 1 = of_char CHR ''d'' \<and> buf ! 2 = of_char CHR '' '' then
         let dir = drop 3 (butlast (takeWhile (\<lambda>c. c \<noteq> NUL) (text_of buf))) in
         sys (Chdir dir) (\<lambda>a as.
           if ret a < 0 then fprintf 2 (lit ''cannot cd '' @ str dir @ NL) sh_loop as else sh_loop as) as
       else fork1 (\<lambda>pid as. if pid = 0 then run_line (text_of buf) as else sys Wait (\<lambda>_. sh_loop) as) as) as"
  by pat_completeness auto
termination
  by (relation "measure length") auto

declare sh_loop.simps [simp del]

function sh_open :: "prog \<Rightarrow> prog" where
  "sh_open k as =
     sys (Open ''console'' O_RDWR) (\<lambda>a as.
       if ret a \<ge> 0 then (if ret a \<ge> 3 then sys (Close (ret a)) (\<lambda>_. k) as else sh_open k as) else k as) as"
  by pat_completeness auto
termination
  by (relation "measure (\<lambda>(k, as). length as)") auto

declare sh_open.simps [simp del]

definition sh_main :: prog where
  "sh_main as = sh_open sh_loop as"

section \<open>The descriptors that the programs of a command get\<close>

text \<open>What a descriptor stands for: what the shell had, a file that the shell opened, an end of a pipe. Pipes are numbered
  within the process that runs the command and its ancestors.\<close>

datatype obj = Inherited nat | File string int | Reading nat | Writing nat

type_synonym fdtable = "obj option list"

fun lowest :: "fdtable \<Rightarrow> nat option" where
  "lowest [] = None"
| "lowest (None # t) = Some 0"
| "lowest (Some x # t) = map_option Suc (lowest t)"

definition open_in :: "fdtable \<Rightarrow> int \<Rightarrow> bool" where
  "open_in t fd \<longleftrightarrow> 0 \<le> fd \<and> nat fd < length t \<and> t ! nat fd \<noteq> None"

text \<open>The answers that the kernel may give, with the table and the number of pipes: \<^verbatim>\<open>close\<close> and \<^verbatim>\<open>dup\<close> as they are, the
  lowest free descriptor for what is opened, and the freedom to refuse \<^verbatim>\<open>open\<close> and \<^verbatim>\<open>pipe\<close>.\<close>

fun served_call :: "call \<Rightarrow> ans \<Rightarrow> fdtable \<times> nat \<Rightarrow> (fdtable \<times> nat) option" where
  "served_call (Close fd) a (t, n) =
     (if open_in t fd then (if ret a = 0 then Some (t[nat fd := None], n) else None)
      else if ret a = - 1 then Some (t, n) else None)"
| "served_call (Dup fd) a (t, n) =
     (if open_in t fd then
        (case lowest t of Some l \<Rightarrow> if ret a = int l then Some (t[l := t ! nat fd], n) else None | None \<Rightarrow> None)
      else if ret a = - 1 then Some (t, n) else None)"
| "served_call (Open f md) a (t, n) =
     (if ret a < 0 then Some (t, n)
      else case lowest t of Some l \<Rightarrow> if ret a = int l then Some (t[l := Some (File f md)], n) else None | None \<Rightarrow> None)"
| "served_call Pipe a (t, n) =
     (if ret a < 0 then Some (t, n)
      else case lowest t of None \<Rightarrow> None | Some l \<Rightarrow>
        let t = t[l := Some (Reading n)] in
        case lowest t of None \<Rightarrow> None | Some w \<Rightarrow>
          if ends a = (int l, int w) then Some (t[w := Some (Writing n)], Suc n) else None)"
| "served_call c a st = Some st"

fun served :: "call list \<Rightarrow> ans list \<Rightarrow> fdtable \<times> nat \<Rightarrow> (fdtable \<times> nat) option" where
  "served (c # cs) (a # as) st = Option.bind (served_call c a st) (served cs as)"
| "served _ _ st = Some st"

text \<open>A process that runs the program gets to execute a file: the answers so far are those of the kernel, and \<^verbatim>\<open>exec\<close> is the
  call it waits in.\<close>

definition executes :: "prog \<Rightarrow> fdtable \<times> nat \<Rightarrow> string \<Rightarrow> string list \<Rightarrow> fdtable \<Rightarrow> bool" where
  "executes p st path argv t \<longleftrightarrow>
     (\<exists>as cs n. length as = length cs \<and> p as = (cs @ [Exec path argv], Waiting) \<and> served cs as st = Some (t, n))"

text \<open>The specification: the programs of a command, each with its table.\<close>

fun stages :: "fdtable \<Rightarrow> nat \<Rightarrow> string cmd \<Rightarrow> (string list \<times> fdtable) list" where
  "stages t n (EXEC argv) = (if argv = [] then [] else [(argv, t)])"
| "stages t n (REDIR c f md fd) = stages (t[nat fd := Some (File f md)]) n c"
| "stages t n (PIPE l r) = stages (t[1 := Some (Writing n)]) (Suc n) l @ stages (t[0 := Some (Reading n)]) (Suc n) r"
| "stages t n (LIST l r) = stages t n l @ stages t n r"
| "stages t n (BACK c) = stages t n c"

fun standard :: "fdtable \<Rightarrow> bool" where
  "standard (Some i # Some j # Some e # r) = (r = replicate 13 None)"
| "standard _ = False"

text \<open>The redirections of the parser are those of the standard input and output.\<close>

fun redirects_01 :: "'a cmd \<Rightarrow> bool" where
  "redirects_01 (EXEC argv) = True"
| "redirects_01 (REDIR c f md fd) = ((fd = 0 \<or> fd = 1) \<and> redirects_01 c)"
| "redirects_01 (PIPE l r) = (redirects_01 l \<and> redirects_01 r)"
| "redirects_01 (LIST l r) = (redirects_01 l \<and> redirects_01 r)"
| "redirects_01 (BACK c) = redirects_01 c"

lemma executes_exit [simp]: "\<not> executes (exit_with n) st path argv t"
  by (auto simp: executes_def exit_with_def)

lemma executes_sys:
  "executes (sys c k) st path argv t \<longleftrightarrow>
     (c = Exec path argv \<and> t = fst st) \<or> (\<exists>a st'. served_call c a st = Some st' \<and> executes (k a) st' path argv t)"
proof
  assume "executes (sys c k) st path argv t"
  then obtain as cs n where *: "length as = length cs" "sys c k as = (cs @ [Exec path argv], Waiting)" "served cs as st = Some (t, n)"
    by (auto simp: executes_def)
  show "(c = Exec path argv \<and> t = fst st) \<or> (\<exists>a st'. served_call c a st = Some st' \<and> executes (k a) st' path argv t)"
  proof (cases as)
    case Nil
    then show ?thesis using * by auto
  next
    case (Cons a r)
    then obtain c' cs' where cs: "cs = c' # cs'" using *(1) by (cases cs) simp_all
    have c: "c = c'" and k: "k a r = (cs' @ [Exec path argv], Waiting)" using *(2) Cons cs by (auto intro: prod_eqI)
    obtain st' where st: "served_call c' a st = Some st'" "served cs' r st' = Some (t, n)"
      using *(3) Cons cs by (auto simp: bind_eq_Some_conv)
    have "length r = length cs'" using *(1) Cons cs by simp
    then have "executes (k a) st' path argv t" using k st(2) unfolding executes_def by blast
    then show ?thesis using c st(1) by blast
  qed
next
  assume "(c = Exec path argv \<and> t = fst st) \<or> (\<exists>a st'. served_call c a st = Some st' \<and> executes (k a) st' path argv t)"
  then show "executes (sys c k) st path argv t"
  proof (elim disjE exE conjE)
    assume "c = Exec path argv" "t = fst st"
    then have "length [] = length ([] :: call list)" "sys c k [] = ([] @ [Exec path argv], Waiting)" "served [] [] st = Some (t, snd st)" by simp_all
    then show ?thesis unfolding executes_def by blast
  next
    fix a st' assume s: "served_call c a st = Some st'" and "executes (k a) st' path argv t"
    then obtain as cs n where "length as = length cs" "k a as = (cs @ [Exec path argv], Waiting)" "served cs as st' = Some (t, n)"
      by (auto simp: executes_def)
    then have "length (a # as) = length (c # cs)" "sys c k (a # as) = ((c # cs) @ [Exec path argv], Waiting)" "served (c # cs) (a # as) st = Some (t, n)"
      using s by simp_all
    then show ?thesis unfolding executes_def by blast
  qed
qed

lemma executes_puts: "executes (puts fd bs k) st path argv t = executes k st path argv t"
proof (induction bs)
  case Nil
  have "puts fd [] k = k" by (rule ext) simp
  then show ?case by simp
next
  case (Cons b bs)
  have "puts fd (b # bs) k = sys (Write fd [b]) (\<lambda>_. puts fd bs k)" by (rule ext) simp
  then show ?case using Cons by (cases st) (simp add: executes_sys)
qed

lemma executes_fprintf [simp]: "executes (fprintf fd ps k) st path argv t = executes k st path argv t"
proof -
  have "fprintf fd ps k = puts fd (concat (map shown ps)) k" by (rule ext) (simp add: fprintf_def)
  then show ?thesis by (simp add: executes_puts)
qed

lemma executes_panic [simp]: "\<not> executes (sh_panic s) st path argv t"
proof -
  have "sh_panic s = fprintf 2 (str s @ NL) (exit_with 1)" by (rule ext) (simp add: sh_panic_def)
  then show ?thesis by simp
qed

lemma executes_fork1: "executes (fork1 k) st path argv t \<longleftrightarrow> (\<exists>pid. pid \<noteq> - 1 \<and> executes (k pid) st path argv t)"
proof -
  have f: "fork1 k = sys Fork (\<lambda>a. if ret a = - 1 then sh_panic ''fork1, shell'' else k (ret a))"
    unfolding fork1_def by (intro ext sys_cong refl) simp
  have "executes (fork1 k) st path argv t \<longleftrightarrow> (\<exists>a. ret (a :: ans) \<noteq> - 1 \<and> executes (k (ret a)) st path argv t)"
    unfolding f by (cases st) (auto simp: executes_sys split: if_splits)
  moreover have "(\<exists>a. ret (a :: ans) \<noteq> - 1 \<and> P (ret a)) \<longleftrightarrow> (\<exists>x. x \<noteq> - 1 \<and> P x)" for P
    by (metis ans.select_convs(1))
  ultimately show ?thesis by simp
qed

text \<open>Each of the two processes of a fork is a run.\<close>

lemma executes_branch:
  "executes (fork1 (\<lambda>pid. if pid = 0 then c else p)) st path argv t \<longleftrightarrow> executes c st path argv t \<or> executes p st path argv t"
proof
  assume "executes c st path argv t \<or> executes p st path argv t"
  then show "executes (fork1 (\<lambda>pid. if pid = 0 then c else p)) st path argv t"
  proof
    assume "executes c st path argv t"
    then show ?thesis unfolding executes_fork1 by (intro exI [of _ 0]) simp
  next
    assume "executes p st path argv t"
    then show ?thesis unfolding executes_fork1 by (intro exI [of _ 1]) simp
  qed
qed (auto simp: executes_fork1 split: if_splits)

lemma standard_list: "standard t \<longleftrightarrow> (\<exists>a b c. t = [Some a, Some b, Some c, None, None, None, None, None, None, None, None, None, None, None, None, None])"
  by (cases t rule: standard.cases) (auto simp: eval_nat_numeral)

text \<open>The calls of the shell, with answers from the table.\<close>

lemma some_ans: "\<exists>a. ret (a :: ans) = i" "\<exists>a. 0 \<le> ret (a :: ans) \<and> ends a = e"
  by (metis ans.select_convs(1), metis ans.select_convs(1,3) order_refl)

lemma executes_close:
  "open_in tb fd \<Longrightarrow> executes (sys (Close fd) (\<lambda>_. p)) (tb, n) path argv t = executes p (tb[nat fd := None], n) path argv t"
  using some_ans(1) [of 0] by (auto simp: executes_sys split: if_splits)

lemma executes_dup:
  "open_in tb fd \<Longrightarrow> lowest tb = Some l \<Longrightarrow>
   executes (sys (Dup fd) (\<lambda>_. p)) (tb, n) path argv t = executes p (tb[l := tb ! nat fd], n) path argv t"
  using some_ans(1) [of "int l"] by (auto simp: executes_sys split: if_splits)

lemma executes_open:
  assumes "lowest tb = Some l"
  shows "executes (sys (Open f md) (\<lambda>a. if ret a < 0 then q else p)) (tb, n) path argv t \<longleftrightarrow>
    executes q (tb, n) path argv t \<or> executes p (tb[l := Some (File f md)], n) path argv t"
proof
  assume "executes q (tb, n) path argv t \<or> executes p (tb[l := Some (File f md)], n) path argv t"
  then show "executes (sys (Open f md) (\<lambda>a. if ret a < 0 then q else p)) (tb, n) path argv t"
  proof
    assume *: "executes q (tb, n) path argv t"
    obtain a where "ret (a :: ans) = - 1" using some_ans(1) by blast
    then show ?thesis using * by (auto simp: executes_sys intro!: exI [of _ a])
  next
    assume *: "executes p (tb[l := Some (File f md)], n) path argv t"
    obtain a where "ret (a :: ans) = int l" using some_ans(1) by blast
    then show ?thesis using * assms by (auto simp: executes_sys intro!: exI [of _ a])
  qed
qed (use assms in \<open>auto simp: executes_sys split: if_splits\<close>)

lemma executes_pipe:
  assumes "lowest tb = Some l" "lowest (tb[l := Some (Reading n)]) = Some w"
  shows "executes (sys Pipe (\<lambda>a. if ret a < 0 then sh_panic s else p (ends a))) (tb, n) path argv t \<longleftrightarrow>
    executes (p (int l, int w)) (tb[l := Some (Reading n), w := Some (Writing n)], Suc n) path argv t"
proof
  assume *: "executes (p (int l, int w)) (tb[l := Some (Reading n), w := Some (Writing n)], Suc n) path argv t"
  obtain a where "0 \<le> ret (a :: ans)" "ends a = (int l, int w)" using some_ans(2) by blast
  then show "executes (sys Pipe (\<lambda>a. if ret a < 0 then sh_panic s else p (ends a))) (tb, n) path argv t"
    using * assms by (auto simp: executes_sys intro!: exI [of _ a])
qed (use assms in \<open>auto simp: executes_sys split: if_splits\<close>)

lemma executes_wait: "executes (sys Wait (\<lambda>_. p)) st path argv t = executes p st path argv t"
  by (cases st) (simp add: executes_sys)

lemma runcmd_eta:
  "runcmd (EXEC argv) = (if argv = [] then exit_with 1
     else sys (Exec (argv ! 0) argv) (\<lambda>_. fprintf 2 (lit ''exec '' @ str (argv ! 0) @ lit '' failed'' @ NL) (exit_with 0)))"
  "runcmd (REDIR c f md fd) = sys (Close fd) (\<lambda>_. sys (Open f md) (\<lambda>a.
     if ret a < 0 then fprintf 2 (lit ''open '' @ str f @ lit '' failed'' @ NL) (exit_with 1) else runcmd c))"
  "runcmd (LIST l r) = fork1 (\<lambda>pid. if pid = 0 then runcmd l else sys Wait (\<lambda>_. runcmd r))"
  "runcmd (PIPE l r) = sys Pipe (\<lambda>a. if ret a < 0 then sh_panic ''pipe, runcmd'' else (\<lambda>(p0, p1).
     fork1 (\<lambda>pid.
       if pid = 0 then sys (Close 1) (\<lambda>_. sys (Dup p1) (\<lambda>_. sys (Close p0) (\<lambda>_. sys (Close p1) (\<lambda>_. runcmd l))))
       else fork1 (\<lambda>pid.
         if pid = 0 then sys (Close 0) (\<lambda>_. sys (Dup p0) (\<lambda>_. sys (Close p0) (\<lambda>_. sys (Close p1) (\<lambda>_. runcmd r))))
         else sys (Close p0) (\<lambda>_. sys (Close p1) (\<lambda>_. sys Wait (\<lambda>_. sys Wait (\<lambda>_. exit_with 0))))))) (ends a))"
  "runcmd (BACK c) = fork1 (\<lambda>pid. if pid = 0 then runcmd c else exit_with 0)"
  by (auto intro!: ext sys_cong fork1_cong simp: fork1_def Let_def split: prod.splits if_splits)

text \<open>The table of a process of the shell has the three standard descriptors, and only they are ever replaced.\<close>

lemma standard_upd:
  assumes "standard t" "i = 0 \<or> i = 1"
  shows "standard (t[i := Some x])" "open_in t (int i)" "lowest (t[i := None]) = Some i"
  using assms by (auto simp: standard_list open_in_def)

lemma pipe_plumbing:
  fixes n :: nat
  assumes "standard t"
  defines "u \<equiv> t[3 := Some (Reading n), 4 := Some (Writing n)]"
  shows "lowest t = Some 3" "lowest (t[3 := Some (Reading n)]) = Some 4"
    and "open_in u 1" "lowest (u[1 := None]) = Some 1" "open_in (u[1 := None]) 4" "open_in (u[1 := Some (Writing n)]) 3"
      "open_in (u[1 := Some (Writing n), 3 := None]) 4" "u[1 := Some (Writing n), 3 := None, 4 := None] = t[1 := Some (Writing n)]"
      "u[1 := None] ! 4 = Some (Writing n)"
    and "open_in u 0" "lowest (u[0 := None]) = Some 0" "open_in (u[0 := None]) 3" "open_in (u[0 := Some (Reading n)]) 3"
      "open_in (u[0 := Some (Reading n), 3 := None]) 4" "u[0 := Some (Reading n), 3 := None, 4 := None] = t[0 := Some (Reading n)]"
      "u[0 := None] ! 3 = Some (Reading n)"
  using assms(1) unfolding u_def by (auto simp: standard_list open_in_def)

lemma executes_pipeline:
  assumes "standard t"
  shows "executes (runcmd (PIPE l r)) (t, n) path argv u \<longleftrightarrow>
    executes (runcmd l) (t[1 := Some (Writing n)], Suc n) path argv u \<or> executes (runcmd r) (t[0 := Some (Reading n)], Suc n) path argv u"
proof -
  note P = pipe_plumbing(1) [OF assms] pipe_plumbing(2-16) [OF assms, where n = n]
  let ?u = "t[3 := Some (Reading n), 4 := Some (Writing n)]"
  let ?l = "sys (Close 1) (\<lambda>_. sys (Dup 4) (\<lambda>_. sys (Close 3) (\<lambda>_. sys (Close 4) (\<lambda>_. runcmd l))))"
  let ?r = "sys (Close 0) (\<lambda>_. sys (Dup 3) (\<lambda>_. sys (Close 3) (\<lambda>_. sys (Close 4) (\<lambda>_. runcmd r))))"
  let ?p = "sys (Close 3) (\<lambda>_. sys (Close 4) (\<lambda>_. sys Wait (\<lambda>_. sys Wait (\<lambda>_. exit_with 0))))"
  have l: "executes ?l (?u, Suc n) path argv u = executes (runcmd l) (t[1 := Some (Writing n)], Suc n) path argv u"
    using P(3-9) by (simp add: executes_close executes_dup)
  have r: "executes ?r (?u, Suc n) path argv u = executes (runcmd r) (t[0 := Some (Reading n)], Suc n) path argv u"
    using P(10-16) by (simp add: executes_close executes_dup)
  have "\<not> executes ?p st path argv u" for st by (auto simp: executes_sys)
  then show ?thesis unfolding runcmd_eta(4) executes_pipe [OF P(1,2)] by (simp add: executes_branch l r)
qed

lemma executes_runcmd:
  "redirects_01 c \<Longrightarrow> standard t \<Longrightarrow> executes (runcmd c) (t, n) path argv u \<longleftrightarrow> (argv, u) \<in> set (stages t n c) \<and> path = argv ! 0"
proof (induction c arbitrary: t n)
  case (EXEC x)
  then show ?case by (auto simp: runcmd_eta(1) executes_sys)
next
  case (REDIR c f md fd)
  have fd: "fd = int (nat fd)" "nat fd = 0 \<or> nat fd = 1" using REDIR.prems by auto
  note U = standard_upd [OF REDIR.prems(2) fd(2)]
  have o: "open_in t fd" using U(2) fd(1) by simp
  show ?case using REDIR.IH [OF _ U(1), of "File f md" n] REDIR.prems U
    unfolding runcmd_eta(2) executes_close [OF o] executes_open [OF U(3)] by simp
next
  case (PIPE l r)
  then show ?case unfolding executes_pipeline [OF PIPE.prems(2)] using standard_upd(1) [OF PIPE.prems(2)] by auto
next
  case (LIST l r)
  then show ?case unfolding runcmd_eta(3) executes_branch executes_wait by auto
next
  case (BACK c)
  then show ?case unfolding runcmd_eta(5) executes_branch by simp
qed

section \<open>From the line to the programs\<close>

lemma redirects_add: "redirects_01 c \<Longrightarrow> redirects_01 (add_redirection rd c)"
  by (cases rd) (simp add: redir_def)

lemma redirects_arg: "redirects_01 c \<Longrightarrow> redirects_01 (add_arg w c)"
  by (induction w c rule: add_arg.induct) simp_all

lemma redirects_item: "redirects_01 c \<Longrightarrow> redirects_01 (add_item i c)"
  by (cases i) (simp_all add: redirects_add redirects_arg)

lemma redirects_fold: "(\<And>x c. redirects_01 c \<Longrightarrow> redirects_01 (f x c)) \<Longrightarrow> redirects_01 c \<Longrightarrow> redirects_01 (fold f xs c)"
  by (induction xs arbitrary: c) simp_all

lemma redirects_back: "redirects_01 ((BACK ^^ k) c) = redirects_01 c"
  by (induction k) simp_all

lemma redirects_line:
  "redirects_01 (line_cmd l)" "redirects_01 (pipe_cmd p)" "redirects_01 (exec_cmd e)"
  by (induction l and p and e) (simp_all add: redirects_back redirects_fold redirects_item redirects_add)

lemma run_line_eta:
  "parsecmd buf = Inr (c, buf') \<Longrightarrow> run_line buf = runcmd (map_cmd (string_at buf' (length (takeWhile (\<lambda>c. c \<noteq> NUL) buf))) c)"
  by (rule ext) (simp add: run_line_def)

section \<open>Properties\<close>



end
