(* ===== verification/Shell_Line.thy ===== *)
theory Shell_Line
  imports Shell_Run
begin

text \<open>
  From the keys to the programs: the line that the shell reads with its system calls, the parser of \<^verbatim>\<open>parsecmd\<close> and \<^verbatim>\<open>runcmd\<close>
  together. The parser does not tell one blank from another, so that the newline at the end of a typed line does what
  the last blank of a spelled command line does.
\<close>

section \<open>Any blank will do\<close>

definition blank :: "char \<Rightarrow> char" where
  "blank c = (if c \<in> set whitespace then CHR '' '' else c)"

abbreviation blanked :: "string \<Rightarrow> string" where
  "blanked \<equiv> map blank"

fun blanked_rest :: "('a \<times> string) res \<Rightarrow> ('a \<times> string) res" where
  "blanked_rest (Inl e) = Inl e"
| "blanked_rest (Inr (c, s)) = Inr (c, blanked s)"

lemma blanked_rest_Inr [simp]: "blanked_rest (Inr p) = Inr (fst p, blanked (snd p))"
  by (cases p) simp

lemma blank_ws [simp]: "blank c \<in> set whitespace \<longleftrightarrow> c \<in> set whitespace"
  by (auto simp: blank_def whitespace_def)

lemma blank_fixed [simp]: "c \<notin> set whitespace \<Longrightarrow> blank c = c"
  by (simp add: blank_def)

lemma blank_eq_iff: "x \<notin> set whitespace \<Longrightarrow> blank c = x \<longleftrightarrow> c = x"
  by (auto simp: blank_def whitespace_def)

lemma blank_mem: "set xs \<inter> set whitespace = {} \<Longrightarrow> blank c \<in> set xs \<longleftrightarrow> c \<in> set xs"
  using blank_eq_iff by (auto simp: blank_def whitespace_def)

lemma deref_blanked [simp]: "deref (blanked s) = blank (deref s)"
  by (cases s) (simp_all add: whitespace_def)

lemma skip_ws_blanked: "skip_ws (blanked s) = blanked (skip_ws s)"
  by (simp add: skip_ws_def dropWhile_map o_def)

lemma word_char_blank: "word_char (blank c) = word_char c"
  by (auto simp: word_char_def blank_def whitespace_def symbols_def)

lemma scan_token_blanked: "scan_token (blanked s) = map_prod id blanked (scan_token s)"
proof -
  have nul: "blank c = NUL \<longleftrightarrow> c = NUL" and gt: "blank c = CHR ''>'' \<longleftrightarrow> c = CHR ''>''" for c
    by (rule blank_eq_iff, simp add: whitespace_def)+
  have sym: "blank c \<in> set ''|();&<'' \<longleftrightarrow> c \<in> set ''|();&<''" for c
    by (rule blank_mem) (auto simp: whitespace_def)
  have same: "c \<in> set ''|();&<'' \<Longrightarrow> blank c = c" for c by (auto simp: blank_def whitespace_def)
  show ?thesis unfolding scan_token_def deref_blanked nul sym gt
    by (simp add: same dropWhile_map o_def word_char_blank map_tl [symmetric] gt del: set_simps)
qed

lemma gettoken_blanked: "gettoken (blanked s) = map_prod id blanked (gettoken s)"
  by (simp add: gettoken_def skip_ws_blanked scan_token_blanked split_beta Let_def)

lemma deref_skip_ws: "deref (skip_ws s) \<notin> set whitespace"
  using skip_ws_head [of s] by (cases "skip_ws s") (simp_all add: whitespace_def)

lemma peek_blanked: "peek toks (blanked s) = map_prod id blanked (peek toks s)"
  using deref_skip_ws [of s] by (simp add: peek_def skip_ws_blanked Let_def)

lemma back_loop_blanked: "back_loop c (blanked s) = map_prod id blanked (back_loop c s)"
proof (induction c s rule: back_loop.induct)
  case (1 c s)
  then show ?case by (simp add: back_loop.simps [of c s] back_loop.simps [of c "blanked s"] Let_def peek_blanked gettoken_blanked)
qed

lemma parseredirs_blanked: "parseredirs c (blanked s) = blanked_rest (parseredirs c s)"
proof (induction c s rule: parseredirs.induct)
  case (1 c s)
  then show ?case
    by (simp add: parseredirs.simps [of c s] parseredirs.simps [of c "blanked s"] Let_def peek_blanked gettoken_blanked)
qed

lemma rbind_blanked:
  "(\<And>c s. m = Inr (c, s) \<Longrightarrow> g (c, blanked s) = blanked_rest (f (c, s))) \<Longrightarrow> rbind (blanked_rest m) g = blanked_rest (rbind m f)"
  by (cases m) auto

lemma args_loop_blanked: "args_loop n c (blanked s) = blanked_rest (args_loop n c s)"
proof (induction n c s rule: args_loop.induct)
  case (1 n c s)
  let ?p = "peek ''|)&;'' s"
  let ?t = "gettoken (snd ?p)"
  have "rbind (blanked_rest (parseredirs (add_arg (snd (fst ?t)) c) (snd ?t))) (\<lambda>r. args_loop (n + 1) (fst r) (snd r)) =
      blanked_rest (rbind (parseredirs (add_arg (snd (fst ?t)) c) (snd ?t)) (\<lambda>r. args_loop (n + 1) (fst r) (snd r)))"
    if "\<not> fst ?p" "fst (fst ?t) \<noteq> NUL" "\<not> fst (fst ?t) \<noteq> CHR ''a''" "\<not> n + 1 \<ge> MAXARGS"
    using 1 [OF refl that(1) refl that(2-4)] by (intro rbind_blanked) auto
  then show ?case
    by (simp add: args_loop.simps [of n c s] args_loop.simps [of n c "blanked s"] Let_def peek_blanked gettoken_blanked parseredirs_blanked)
qed

lemma parser_blanked:
  "parseline n (blanked s) = blanked_rest (parseline n s)"
  "parsepipe n (blanked s) = blanked_rest (parsepipe n s)"
  "parseexec n (blanked s) = blanked_rest (parseexec n s)"
  "parseblock n (blanked s) = blanked_rest (parseblock n s)"
proof (induction n arbitrary: s)
  case (Suc n)
  { case 1
    show ?case unfolding parseline.simps Suc(2)
      by (intro rbind_blanked)
        (auto simp: back_loop_blanked peek_blanked gettoken_blanked Suc(1) Let_def split_beta intro!: rbind_blanked)
  next
    case 2
    show ?case unfolding parsepipe.simps Suc(3)
      by (intro rbind_blanked) (auto simp: peek_blanked gettoken_blanked Suc(2) Let_def intro!: rbind_blanked)
  next
    case 3
    show ?case unfolding parseexec.simps
      by (auto simp: peek_blanked Suc(4) parseredirs_blanked args_loop_blanked Let_def intro!: rbind_blanked)
  next
    case 4
    show ?case unfolding parseblock.simps
      by (auto simp: peek_blanked gettoken_blanked Suc(1) parseredirs_blanked Let_def intro!: rbind_blanked)
  }
qed simp_all

section \<open>A line with a newline at its end\<close>

lemma word_no_blank: "list_all word_char w \<Longrightarrow> blanked w = w"
  by (induction w) (auto simp: word_char_def)

lemma tok_blanked: "tok (blanked ln) t = blanked (tok ln t)"
  by (simp add: tok_def take_map drop_map)

lemma parse_typed:
  assumes "wf_line l" "show_line l = s @ '' ''" "0 < k"
  defines "buf \<equiv> s @ [CHR 0x0A] @ replicate k NUL"
  shows "\<exists>c buf'. parsecmd buf = Inr (c, buf') \<and> map_cmd (string_at buf' (length (takeWhile (\<lambda>c. c \<noteq> NUL) buf))) c = line_cmd l"
proof -
  let ?s = "show_line l"
  let ?ln = "s @ [CHR 0x0A]"
  let ?n = "4 * length ?s + 4"
  have "NUL \<notin> set s" using shown_no_nul(1) [OF assms(1)] assms(2) by simp
  then have ln: "takeWhile (\<lambda>c. c \<noteq> NUL) buf = ?ln" unfolding buf_def append_assoc [symmetric] using assms(3)
    by (subst takeWhile_append2) (auto simp: takeWhile_eq_Nil_iff)
  have same: "blanked ?ln = blanked ?s" "length ?ln = length ?s" using assms(2) by (simp_all add: blank_def whitespace_def)
  obtain c where c: "parseline ?n ?s = Inr (c, [])" "map_cmd (tok ?s) c = line_cmd l"
    using shown_parse(1) [OF assms(1), of "[]" ?s ?n] by (auto simp: follows_def)
  have "blanked_rest (parseline ?n ?ln) = blanked_rest (Inr (c, []))"
    using c(1) same(1) parser_blanked(1) by metis
  then have p: "parseline ?n ?ln = Inr (c, [])" by (cases "parseline ?n ?ln" rule: blanked_rest.cases) auto
  have nil: "snd (peek [] []) = []" by (simp add: peek_def skip_ws_def)
  have pc: "parsecmd buf = Inr (c, nulterminate (length ?ln) c buf)"
    using p nil same(2) by (simp add: parsecmd_def ln Let_def del: length_append)
  have nul: "NUL \<in> set buf" using assms(3) by (simp add: buf_def)
  note R = parsecmd_result [OF pc nul, unfolded ln]
  have "string_at (nulterminate (length ?ln) c buf) (length ?ln) t = tok ?s t" if t: "t \<in> set_cmd c" for t
  proof -
    have w: "list_all word_char (tok ?ln t)" "list_all word_char (tok ?s t)"
      using R(1) t parser_parsed(1) [of ?s ?s ?n] c(1) by (auto simp: tok_ok_def)
    have "tok ?ln t = blanked (tok ?ln t)" using word_no_blank [OF w(1)] by simp
    also have "\<dots> = blanked (tok ?s t)" using same(1) by (simp only: tok_blanked [symmetric])
    also have "\<dots> = tok ?s t" by (rule word_no_blank [OF w(2)])
    finally show ?thesis using R(2) t by simp
  qed
  then have "map_cmd (string_at (nulterminate (length ?ln) c buf) (length ?ln)) c = line_cmd l"
    unfolding c(2) [symmetric] by (intro cmd.map_cong) auto
  then show ?thesis using pc ln by auto
qed

text \<open>A spelled line has no blanks but spaces.\<close>

lemma shown_chars:
  "wf_line l \<Longrightarrow> x \<in> set whitespace \<Longrightarrow> x \<noteq> CHR '' '' \<Longrightarrow> x \<notin> set (show_line l)"
  "wf_pipe p \<Longrightarrow> x \<in> set whitespace \<Longrightarrow> x \<noteq> CHR '' '' \<Longrightarrow> x \<notin> set (show_pipe p)"
  "wf_exec e \<Longrightarrow> x \<in> set whitespace \<Longrightarrow> x \<noteq> CHR '' '' \<Longrightarrow> x \<notin> set (show_exec e)"
proof (induction l and p and e)
  assume x: "x \<in> set whitespace" "x \<noteq> CHR '' ''"
  have w: "wf_word u \<Longrightarrow> x \<notin> set u" for u using x by (auto simp: wf_word_def list_all_iff word_char_def)
  have r: "wf_redirection rd \<Longrightarrow> x \<notin> set (show_redirection rd)" for rd
    using x by (cases rd) (auto simp: whitespace_def dest: w)
  have i: "wf_item i \<Longrightarrow> x \<notin> set (show_item i)" for i using x by (cases i) (auto dest: w r)
  { case (Simple "is")
    then show ?case using i by (auto simp: list_all_iff)
  next
    case (Group l rs)
    then show ?case using r x by (auto simp: list_all_iff whitespace_def)
  }
qed (auto simp: whitespace_def split: if_splits)

section \<open>Reading the line\<close>

definition key :: "char \<Rightarrow> ans" where
  "key c = \<lparr>ret = 1, data = [of_char c], ends = (0, 0), st_type = 0, st_inode = 0, st_size = 0\<rparr>"

lemma unat_of_char: "unat (of_char c :: byte) = of_char c"
proof -
  have "(of_char c :: byte) = of_nat (of_char c)" by (rule of_nat_of_char [symmetric])
  moreover have "of_char c mod 256 = (of_char c :: nat)" using of_char_of [of "of_char c :: nat"] by simp
  ultimately show ?thesis by (simp add: unat_of_nat)
qed

lemma byte_of_char_eq: "(of_char c :: byte) = of_char d \<longleftrightarrow> c = d"
  by (metis of_char_eq_iff unat_of_char)

lemma byte_nth: "i < length s \<Longrightarrow> bytes_of s ! i = of_char c \<longleftrightarrow> s ! i = c"
  by (simp add: bytes_of_def byte_of_char_eq)

lemma text_of_bytes [simp]: "text_of (bytes_of s) = s"
  by (simp add: text_of_def bytes_of_def o_def unat_of_char)

lemma gets_loop_line:
  "CHR 0x0A \<notin> set s \<Longrightarrow> CHR 0x0D \<notin> set s \<Longrightarrow> length s < n \<Longrightarrow>
   gets_loop n got k (map key (s @ [CHR 0x0A]) @ as) =
     (replicate (Suc (length s)) (Read 0 1) @ fst (k (got @ bytes_of (s @ [CHR 0x0A])) as), snd (k (got @ bytes_of (s @ [CHR 0x0A])) as))"
proof (induction s arbitrary: n got)
  case Nil
  then show ?case by (cases n) (simp_all add: key_def bytes_of_def)
next
  case (Cons c s)
  obtain m where n: "n = Suc m" using Cons.prems(3) by (cases n) auto
  have "of_char c \<noteq> (10 :: byte)" "of_char c \<noteq> (13 :: byte)" 
    using Cons.prems(1,2) byte_of_char_eq [of c "CHR 0x0A"] byte_of_char_eq [of c "CHR 0x0D"] by auto
  then show ?case using Cons.IH [of m "got @ [of_char c]"] Cons.prems n by (simp add: key_def bytes_of_def)
qed

lemma getcmd_line:
  assumes "CHR 0x0A \<notin> set s" "CHR 0x0D \<notin> set s" "length s < 99" "NUL \<notin> set s" "length acks = 2"
  defines "buf \<equiv> bytes_of (s @ [CHR 0x0A] @ replicate (99 - length s) NUL)"
  shows "getcmd 100 k (acks @ map key (s @ [CHR 0x0A]) @ as) =
    ([Write 2 [36], Write 2 [32]] @ replicate (Suc (length s)) (Read 0 1) @ fst (k 0 buf as), snd (k 0 buf as))"
proof -
  have b: "bytes_of (s @ [CHR 0x0A]) @ [0] @ replicate (100 - length (bytes_of (s @ [CHR 0x0A]) @ [0])) 0 = buf"
  proof -
    have "replicate (99 - length s) (0 :: byte) = 0 # replicate (98 - length s) 0"
      using assms(3) by (cases "99 - length s") (simp_all add: Suc_diff_le)
    then show ?thesis by (simp add: buf_def bytes_of_def)
  qed
  have "buf ! 0 \<noteq> 0"
  proof -
    have "of_char (hd (s @ [CHR 0x0A])) \<noteq> (0 :: byte)"
      using assms(4) byte_of_char_eq [of "hd (s @ [CHR 0x0A])" NUL] by (cases s) auto
    then show ?thesis by (cases s) (simp_all add: buf_def bytes_of_def)
  qed
  then show ?thesis
    using assms(3,5) gets_loop_line [OF assms(1,2), of 99 "[]"] puts_acks [of acks "[36, 32]"] b
    by (simp add: getcmd_def fprintf_def gets_def Let_def bytes_of_def)
qed

section \<open>Properties\<close>

text \<open>(C16) The shell runs what is typed. For every command line of the grammar, spelled as it is typed with a newline in the place of
  its last blank, shorter than the buffer and other than \<^verbatim>\<open>cd\<close>: the shell prompts, reads the line key by key up to the
  newline and forks. The child does what \<^verbatim>\<open>runcmd\<close> does with the command that the line stands for; the parent waits
  once and prompts again.\<close>

theorem typed_line_runs:
  assumes "wf_line l" "show_line l = s @ '' ''" "length s < 99" "take 3 (show_line l) \<noteq> ''cd ''" "length acks = 2"
  defines "typed \<equiv> acks @ map key (s @ [CHR 0x0A])"
    and "calls \<equiv> [Write 2 (bytes_of ''$''), Write 2 (bytes_of '' '')] @ replicate (length s + 1) (Read 0 1) @ [Fork]"
  shows "(ret a = 0 \<longrightarrow> sh_loop (typed @ a # as) = (calls @ fst (runcmd (line_cmd l) as), snd (runcmd (line_cmd l) as)))
    \<and> (ret a > 0 \<longrightarrow> sh_loop (typed @ a # w # as) = (calls @ [Wait] @ fst (sh_loop as), snd (sh_loop as)))"
proof -
  let ?t = "s @ [CHR 0x0A] @ replicate (99 - length s) NUL"
  have s: "CHR 0x0A \<notin> set s" "CHR 0x0D \<notin> set s" "NUL \<notin> set s"
    using shown_chars(1) [OF assms(1)] shown_no_nul(1) [OF assms(1)] assms(2) by (auto simp: whitespace_def)
  note G = getcmd_line [OF s(1,2) assms(3) s(3) assms(5)]
  obtain c buf' where c: "parsecmd ?t = Inr (c, buf')" "map_cmd (string_at buf' (length (takeWhile (\<lambda>c. c \<noteq> NUL) ?t))) c = line_cmd l"
    using parse_typed [OF assms(1,2), of "99 - length s"] assms(3) by auto
  have run: "run_line (text_of (bytes_of ?t)) = runcmd (line_cmd l)" using run_line_eta [OF c(1)] c(2) by simp
  have len: "0 < length ?t" "1 < length ?t" "2 < length ?t" using assms(3) by simp_all
  have cd: "\<not> (bytes_of ?t ! 0 = of_char CHR ''c'' \<and> bytes_of ?t ! 1 = of_char CHR ''d'' \<and> bytes_of ?t ! 2 = of_char CHR '' '')"
  proof
    assume "bytes_of ?t ! 0 = of_char CHR ''c'' \<and> bytes_of ?t ! 1 = of_char CHR ''d'' \<and> bytes_of ?t ! 2 = of_char CHR '' ''"
    then have t: "?t ! 0 = CHR ''c''" "?t ! 1 = CHR ''d''" "?t ! 2 = CHR '' ''"
      using byte_nth [OF len(1)] byte_nth [OF len(2)] byte_nth [OF len(3)] by blast+
    have "3 \<le> length s"
    proof (rule ccontr)
      assume "\<not> 3 \<le> length s"
      then have "?t ! 2 = CHR 0x0A \<or> ?t ! 2 = NUL" using assms(3) by (cases "2 - length s") (auto simp: nth_append nth_Cons')
      then show False using t(3) by auto
    qed
    then obtain x y z r where "s = x # y # z # r" by (auto simp: eval_nat_numeral Suc_le_length_iff)
    then show False using t assms(2,4) by simp
  qed
  define buf where "buf = bytes_of ?t"
  have step: "sh_loop (typed @ r) = (let p = fork1 (\<lambda>pid as. if pid = 0 then runcmd (line_cmd l) as else sys Wait (\<lambda>_. sh_loop) as) r in
      ([Write 2 [36], Write 2 [32]] @ replicate (Suc (length s)) (Read 0 1) @ fst p, snd p))" for r
    unfolding typed_def append_assoc sh_loop.simps [of "acks @ map key (s @ [CHR 0x0A]) @ r"] G
    unfolding buf_def [symmetric] run [folded buf_def] if_not_P [OF cd [folded buf_def]] by (simp add: Let_def)
  show ?thesis unfolding step by (auto simp: fork1_def calls_def bytes_of_def Let_def)
qed

text \<open>The line \<^verbatim>\<open>ls | wc\<close>.\<close>

theorem typed_line_runs_witness:
  "snd (sh_loop ([key NUL, key NUL] @ map key (''ls | wc'' @ [CHR 0x0A]) @ [(key NUL)\<lparr>ret := 0\<rparr>])) = Waiting
   \<and> last (fst (sh_loop ([key NUL, key NUL] @ map key (''ls | wc'' @ [CHR 0x0A]) @ [(key NUL)\<lparr>ret := 0\<rparr>]))) = Pipe"
proof -
  let ?l = "Last (Piped (Simple [Arg ''ls'']) (Single (Simple [Arg ''wc'']))) 0"
  have w: "wf_line ?l" by (simp add: wf_word_def word_char_def whitespace_def symbols_def)
  have s: "show_line ?l = ''ls | wc'' @ '' ''" by simp
  have c: "line_cmd ?l = PIPE (EXEC [''ls'']) (EXEC [''wc''])" by simp
  show ?thesis using typed_line_runs [OF w s, of "[key NUL, key NUL]" "(key NUL)\<lparr>ret := 0\<rparr>" "[]" "key NUL"] unfolding c by simp
qed

end
