(* ===== verification/Mkfs.thy ===== *)
theory Mkfs
  imports Fs_Dir
begin

text \<open>
  The builder of the disk image, \<^verbatim>\<open>makefs.c\<close>, a program of the host. The image file is the list of its blocks:
  a write behind the end extends it, as \<^verbatim>\<open>lseek\<close> and \<^verbatim>\<open>write\<close> do, and a read there makes the program die. The
  structures are those of \<^verbatim>\<open>kernel/filesys.h\<close> with the layout they have on a little-endian host with 32-bit \<open>int\<close>.
  What the host's \<^verbatim>\<open>open\<close> and \<^verbatim>\<open>read\<close> deliver for a file is an argument: nothing when it cannot be opened, and otherwise
  the pieces that successive calls of \<^verbatim>\<open>read\<close> return.
\<close>

unbundle bit_operations_syntax

abbreviation "T_DIR \<equiv> 1 :: u16"
abbreviation "T_FILE \<equiv> 2 :: u16"
abbreviation "NINODES \<equiv> 200 :: nat"
abbreviation "FSSIZE \<equiv> 1000 :: nat"
abbreviation "nbitmap \<equiv> FSSIZE div (BUFFER_SIZE * 8) + 1"
abbreviation "ninodeblocks \<equiv> NINODES div INODE_PER_BLOCK + 1"
abbreviation "nmeta \<equiv> 2 + LOGSIZE + ninodeblocks + nbitmap"

record disk_inode =
  d_type :: u16
  d_major :: u16
  d_minor :: u16
  d_num_link :: u16
  d_size :: u32
  d_addresses :: "u32 list"

record mkfs =
  img :: "byte list list"
  freeinode :: u32
  freeblock :: u32
  msb :: superblock

definition zeroes :: "byte list" where
  "zeroes = replicate BUFFER_SIZE 0"

definition xint :: "u32 \<Rightarrow> u32" where
  "xint x = ucast (ucast x :: byte) OR push_bit 8 (ucast (ucast (drop_bit 8 x) :: byte))
     OR push_bit 16 (ucast (ucast (drop_bit 16 x) :: byte)) OR push_bit 24 (ucast (ucast (drop_bit 24 x) :: byte))"

definition xshort :: "u16 \<Rightarrow> u16" where
  "xshort x = ucast (ucast x :: byte) OR push_bit 8 (ucast (ucast (drop_bit 8 x) :: byte))"

section \<open>Blocks and inodes of the image\<close>

text \<open>The position is \<^verbatim>\<open>sec * BLOCK_SIZE\<close>, an unsigned product.\<close>

definition sector :: "u32 \<Rightarrow> nat" where
  "sector sec = unat (sec * of_nat BUFFER_SIZE) div BUFFER_SIZE"

definition wsect :: "u32 \<Rightarrow> byte list \<Rightarrow> mkfs \<Rightarrow> mkfs" where
  "wsect sec buf m = m\<lparr>img := (img m @ replicate (Suc (sector sec) - length (img m)) zeroes)[sector sec := buf]\<rparr>"

definition rsect :: "u32 \<Rightarrow> mkfs \<Rightarrow> byte list res" where
  "rsect sec m = (if sector sec < length (img m) then Inr (img m ! sector sec) else Inl (Panic ''read, makefs, rsect''))"

definition dinode_get :: "byte list \<Rightarrow> nat \<Rightarrow> disk_inode" where
  "dinode_get d p = \<lparr>d_type = get16 d p, d_major = get16 d (p + 2), d_minor = get16 d (p + 4), d_num_link = get16 d (p + 6),
     d_size = get32 d (p + 8), d_addresses = map (\<lambda>k. get32 d (p + 12 + 4 * k)) [0..<13]\<rparr>"

definition dinode_put :: "nat \<Rightarrow> disk_inode \<Rightarrow> byte list \<Rightarrow> byte list" where
  "dinode_put p din d = put_words (p + 12) (\<lambda>k. d_addresses din ! k) 13
     (put32 (p + 8) (d_size din) (put16 (p + 6) (d_num_link din) (put16 (p + 4) (d_minor din) (put16 (p + 2) (d_major din)
       (put16 p (d_type din) d)))))"

definition inode_block :: "u32 \<Rightarrow> mkfs \<Rightarrow> u32" where
  "inode_block inum m = inum div of_nat INODE_PER_BLOCK + sb_inode_start (msb m)"

definition winode :: "u32 \<Rightarrow> disk_inode \<Rightarrow> mkfs \<Rightarrow> mkfs res" where
  "winode inum ip m =
     (let bn = inode_block inum m in
      rbind (rsect bn m) (\<lambda>buf. Inr (wsect bn (dinode_put (dinode_off inum) ip buf) m)))"

definition rinode :: "u32 \<Rightarrow> mkfs \<Rightarrow> disk_inode res" where
  "rinode inum m = rbind (rsect (inode_block inum m) m) (\<lambda>buf. Inr (dinode_get buf (dinode_off inum)))"

definition ialloc :: "u16 \<Rightarrow> mkfs \<Rightarrow> (u32 \<times> mkfs) res" where
  "ialloc type m =
     (let inum = freeinode m; m = m\<lparr>freeinode := freeinode m + 1\<rparr>;
          din = \<lparr>d_type = xshort type, d_major = 0, d_minor = 0, d_num_link = xshort 1, d_size = xint 0, d_addresses = replicate 13 0\<rparr>
      in rbind (winode inum din m) (\<lambda>m. Inr (inum, m)))"

section \<open>Appending to a file\<close>

text \<open>The block of the image for block \<open>fbn\<close> of the file, allocated when there is none.\<close>

definition new_block :: "mkfs \<Rightarrow> u32 \<times> mkfs" where
  "new_block m = (xint (freeblock m), m\<lparr>freeblock := freeblock m + 1\<rparr>)"

definition direct_block :: "disk_inode \<Rightarrow> nat \<Rightarrow> mkfs \<Rightarrow> disk_inode \<times> mkfs" where
  "direct_block din k m =
     (if xint (d_addresses din ! k) = 0
      then (let (b, m) = new_block m in (din\<lparr>d_addresses := (d_addresses din)[k := b]\<rparr>, m))
      else (din, m))"

definition file_block :: "disk_inode \<Rightarrow> nat \<Rightarrow> mkfs \<Rightarrow> (u32 \<times> disk_inode \<times> mkfs) res" where
  "file_block din fbn m =
     (if fbn < NDIRECT then
        (let (din, m) = direct_block din fbn m in Inr (xint (d_addresses din ! fbn), din, m))
      else
        (let (din, m) = direct_block din NDIRECT m; ib = xint (d_addresses din ! NDIRECT) in
         rbind (rsect ib m) (\<lambda>indirect.
           if get32 indirect (4 * (fbn - NDIRECT)) = 0 then
             (let (b, m) = new_block m; indirect = put32 (4 * (fbn - NDIRECT)) b indirect
              in Inr (xint (get32 indirect (4 * (fbn - NDIRECT))), din, wsect ib indirect m))
           else Inr (xint (get32 indirect (4 * (fbn - NDIRECT))), din, m))))"

definition patch :: "nat \<Rightarrow> byte list \<Rightarrow> byte list \<Rightarrow> byte list" where
  "patch p bs d = take p d @ bs @ drop (p + length bs) d"

text \<open>What is left of the block that the offset lies in, and the place in it.\<close>

definition room :: "u32 \<Rightarrow> nat" where
  "room off = unat ((off div of_nat BUFFER_SIZE + 1) * of_nat BUFFER_SIZE - off)"

definition place :: "u32 \<Rightarrow> nat" where
  "place off = unat (off - off div of_nat BUFFER_SIZE * of_nat BUFFER_SIZE)"

lemma place_mod: "place off = unat off mod BUFFER_SIZE"
proof -
  have "off div of_nat BUFFER_SIZE * of_nat BUFFER_SIZE + off mod of_nat BUFFER_SIZE = off" by (rule div_mult_mod_eq)
  then have "off - off div of_nat BUFFER_SIZE * of_nat BUFFER_SIZE = off mod of_nat BUFFER_SIZE" by (simp add: algebra_simps)
  then show ?thesis by (simp add: place_def unat_mod)
qed

lemma room_eq:
  assumes "unat off div BUFFER_SIZE < MAXFILE"
  shows "room off = BUFFER_SIZE - unat off mod BUFFER_SIZE"
proof -
  have d: "unat off = unat off div BUFFER_SIZE * BUFFER_SIZE + unat off mod BUFFER_SIZE" by simp
  have "unat off < 2 ^ 32 - BUFFER_SIZE" using assms d by simp
  moreover have "(off div of_nat BUFFER_SIZE + 1) * of_nat BUFFER_SIZE - off = (of_nat (BUFFER_SIZE - unat off mod BUFFER_SIZE) :: u32)"
  proof -
    have "off mod of_nat BUFFER_SIZE = (of_nat (unat off mod BUFFER_SIZE) :: u32)" by (simp add: word_unat_eq_iff unat_mod unat_of_nat)
    moreover have "off div of_nat BUFFER_SIZE * of_nat BUFFER_SIZE + off mod of_nat BUFFER_SIZE = off" by (rule div_mult_mod_eq)
    ultimately show ?thesis by (simp add: algebra_simps of_nat_diff)
  qed
  ultimately show ?thesis unfolding room_def by (simp only:) (rule unat_of_nat_u32, simp)
qed

function iappend_loop :: "disk_inode \<Rightarrow> u32 \<Rightarrow> byte list \<Rightarrow> mkfs \<Rightarrow> (disk_inode \<times> u32 \<times> mkfs) res" where
  "iappend_loop din off p m =
     (if p = [] then Inr (din, off, m)
      else
        let fbn = unat off div BUFFER_SIZE in
        if fbn < MAXFILE then
          rbind (file_block din fbn m) (\<lambda>(x, din, m).
            let n1 = min (length p) (room off) in
            rbind (rsect x m) (\<lambda>buf.
              iappend_loop din (off + of_nat n1) (drop n1 p) (wsect x (patch (place off) (take n1 p) buf) m)))
        else Inl (Panic ''assert fbn < MAXFILE''))"
  by pat_completeness auto
termination
  by (relation "measure (\<lambda>(din, off, p, m). length p)") (simp_all add: room_eq)

declare iappend_loop.simps [simp del]

definition iappend :: "u32 \<Rightarrow> byte list \<Rightarrow> mkfs \<Rightarrow> mkfs res" where
  "iappend inum xp m =
     rbind (rinode inum m) (\<lambda>din.
     rbind (iappend_loop din (xint (d_size din)) xp m) (\<lambda>(din, off, m).
       winode inum (din\<lparr>d_size := xint off\<rparr>) m))"

section \<open>The bitmap and the whole image\<close>

definition balloc :: "u32 \<Rightarrow> mkfs \<Rightarrow> mkfs res" where
  "balloc used m =
     (if unat used < BUFFER_SIZE * 8 then
        Inr (wsect (sb_bitmap_start (msb m))
          (foldl (\<lambda>buf i. buf[i div 8 := buf ! (i div 8) OR push_bit (i mod 8) 1]) zeroes [0..<unat used]) m)
      else Inl (Panic ''assert used < BLOCK_SIZE*8''))"

definition mk_superblock :: superblock where
  "mk_superblock = \<lparr>sb_magic = FSMAGIC, sb_size = xint (of_nat FSSIZE), sb_num_block = xint (of_nat (FSSIZE - nmeta)), sb_num_log = xint (of_nat LOGSIZE),
     sb_log_start = xint 2, sb_num_inodes = xint (of_nat NINODES), sb_inode_start = xint (of_nat (2 + LOGSIZE)),
     sb_bitmap_start = xint (of_nat (2 + LOGSIZE + ninodeblocks))\<rparr>"

definition superblock_bytes :: "superblock \<Rightarrow> byte list \<Rightarrow> byte list" where
  "superblock_bytes s = put_words 0 (\<lambda>k. [sb_magic s, sb_size s, sb_num_block s, sb_num_log s, sb_log_start s, sb_num_inodes s,
     sb_inode_start s, sb_bitmap_start s] ! k) 8"

definition direntry :: "u16 \<Rightarrow> byte list \<Rightarrow> byte list" where
  "direntry inum name = put16 0 inum [0, 0] @ take DIRSIZE (name @ replicate DIRSIZE 0)"

definition shortname :: "byte list \<Rightarrow> byte list res" where
  "shortname arg =
     (let name = (if take 9 arg = [115, 114, 99, 47, 117, 115, 101, 114, 47] then drop 9 arg else arg) in
      if SLASH \<in> set name then Inl (Panic ''assert index(shortname)'')
      else Inr (case name of c # cs \<Rightarrow> if c = 95 then cs else name | [] \<Rightarrow> name))"

definition add_file :: "(byte list \<Rightarrow> byte list list option) \<Rightarrow> u32 \<Rightarrow> byte list \<Rightarrow> mkfs \<Rightarrow> mkfs res" where
  "add_file rd rootino arg m =
     rbind (shortname arg) (\<lambda>name.
       case rd arg of
         None \<Rightarrow> Inl (Panic ''die'')
       | Some chunks \<Rightarrow>
           rbind (ialloc T_FILE m) (\<lambda>(inum, m).
           rbind (iappend rootino (direntry (xshort (ucast inum)) name) m)
             (mfold (iappend inum) chunks)))"

text \<open>\<open>fix_root\<close> rounds the size of the root directory up to whole blocks.\<close>

definition fix_root :: "u32 \<Rightarrow> mkfs \<Rightarrow> mkfs res" where
  "fix_root rootino m =
     rbind (rinode rootino m) (\<lambda>din.
       let off = xint (d_size din); off = (off div of_nat BUFFER_SIZE + 1) * of_nat BUFFER_SIZE
       in winode rootino (din\<lparr>d_size := xint off\<rparr>) m)"

definition mk_start :: mkfs where
  "mk_start = wsect 1 (superblock_bytes mk_superblock zeroes)
     (foldl (\<lambda>m i. wsect (of_nat i) zeroes m) \<lparr>img = [], freeinode = 1, freeblock = of_nat nmeta, msb = mk_superblock\<rparr> [0..<FSSIZE])"

definition makefs :: "(byte list \<Rightarrow> byte list list option) \<Rightarrow> byte list list \<Rightarrow> mkfs res" where
  "makefs rd files =
     rbind (ialloc T_DIR mk_start) (\<lambda>(rootino, m).
       if rootino \<noteq> 1 then Inl (Panic ''assert rootino == ROOTINO'')
       else
         rbind (iappend rootino (direntry (xshort (ucast rootino)) [46]) m) (\<lambda>m.
         rbind (iappend rootino (direntry (xshort (ucast rootino)) [46, 46]) m) (\<lambda>m.
         rbind (mfold (add_file rd rootino) files m) (\<lambda>m.
         rbind (fix_root rootino m) (\<lambda>m. balloc (freeblock m) m)))))"

section \<open>Blocks of the image\<close>

lemma xint_id [simp]: "xint x = x"
  unfolding xint_def by (rule word32_bytes)

lemma xshort_id [simp]: "xshort x = x"
  unfolding xshort_def by (rule word16_bytes)

lemma length_zeroes [simp]: "length zeroes = BUFFER_SIZE"
  by (simp add: zeroes_def)

lemma sector_of_nat [simp]:
  assumes "b < 1000"
  shows "sector (of_nat b) = b"
proof -
  have "(of_nat b * of_nat BUFFER_SIZE :: u32) = of_nat (b * BUFFER_SIZE)" by simp
  moreover have "unat (of_nat (b * BUFFER_SIZE) :: u32) = b * BUFFER_SIZE" using assms by (intro unat_of_nat_u32) simp
  ultimately show ?thesis unfolding sector_def by (simp only:)
qed

lemma rsect_of_nat [simp]: "b < 1000 \<Longrightarrow> length (img m) = FSSIZE \<Longrightarrow> rsect (of_nat b) m = Inr (img m ! b)"
  by (simp add: rsect_def)

lemma wsect_of_nat [simp]: "b < 1000 \<Longrightarrow> length (img m) = FSSIZE \<Longrightarrow> wsect (of_nat b) buf m = m\<lparr>img := (img m)[b := buf]\<rparr>"
  by (simp add: wsect_def)

lemma of_nat_zero_iff: "b < 1000 \<Longrightarrow> (of_nat b :: u32) = 0 \<longleftrightarrow> b = 0"
  by (auto simp: word_of_nat_eq_0_iff dest: dvd_imp_le)

lemma of_nat_next: "(of_nat n + 1 :: u32) = of_nat (Suc n)"
  by simp

lemma dinode_get_put:
  assumes "p + 64 \<le> length d" "length (d_addresses din) = 13"
  shows "dinode_get (dinode_put p din d) p = din"
proof -
  have "map (\<lambda>k. get32 (dinode_put p din d) (p + 12 + 4 * k)) [0..<13] = d_addresses din"
    using assms by (intro nth_equalityI) (simp_all add: dinode_put_def get32_put_words)
  then show ?thesis using assms unfolding dinode_get_def
    by (cases din) (simp add: dinode_put_def get32_put_words_other get16_put_words_other field_simps_le)
qed

lemma nth_dinode_put: "k < p \<or> p + 64 \<le> k \<Longrightarrow> dinode_put p din d ! k = d ! k"
  by (auto simp: dinode_put_def nth_put_words nth_put32 nth_put16)

lemma length_dinode_put [simp]: "length (dinode_put p din d) = length d"
  by (simp add: dinode_put_def)

lemma dinode_get_cong:
  assumes "\<And>k. p \<le> k \<Longrightarrow> k < p + 64 \<Longrightarrow> d ! k = d' ! k"
  shows "dinode_get d p = dinode_get d' p"
proof -
  have "get16 d (p + i) = get16 d' (p + i)" if "i \<le> 62" for i by (rule get16_cong) (use that in \<open>auto intro: assms\<close>)
  note this [of 0] this [of 2] this [of 4] this [of 6]
  moreover have "get32 d (p + i) = get32 d' (p + i)" if "i \<le> 60" for i by (rule get32_cong) (use that in \<open>auto intro: assms\<close>)
  note this [of 8] this [of "12 + 4 * k" for k]
  ultimately show ?thesis unfolding dinode_get_def by (auto simp: ac_simps)
qed

lemma dinode_get_put_other: "q + 64 \<le> p \<or> p + 64 \<le> q \<Longrightarrow> dinode_get (dinode_put p din d) q = dinode_get d q"
  by (rule dinode_get_cong) (auto simp: nth_dinode_put)

lemma length_patch [simp]: "p + length bs \<le> length d \<Longrightarrow> length (patch p bs d) = length d"
  by (simp add: patch_def)

lemma nth_patch: "p + length bs \<le> length d \<Longrightarrow> k < length d \<Longrightarrow> patch p bs d ! k = (if p \<le> k \<and> k < p + length bs then bs ! (k - p) else d ! k)"
  by (auto simp: patch_def nth_append)

section \<open>How a file lies in the image\<close>

text \<open>The data blocks \<open>bs\<close> of a file and its indirect block \<open>ib\<close>, as its thirteen addresses record them.\<close>

definition recorded :: "byte list list \<Rightarrow> u32 list \<Rightarrow> nat list \<Rightarrow> nat option \<Rightarrow> bool" where
  "recorded im as bs ib \<longleftrightarrow> length as = 13 \<and> length bs \<le> MAXFILE \<and>
     (\<forall>f<NDIRECT. as ! f = (if f < length bs then of_nat (bs ! f) else 0)) \<and>
     (case ib of None \<Rightarrow> length bs \<le> NDIRECT \<and> as ! NDIRECT = 0
      | Some b \<Rightarrow> NDIRECT < length bs \<and> as ! NDIRECT = of_nat b \<and>
          (\<forall>f<NINDIRECT. get32 (im ! b) (4 * f) = (if NDIRECT + f < length bs then of_nat (bs ! (NDIRECT + f)) else 0)))"

definition used :: "nat list \<Rightarrow> nat option \<Rightarrow> nat set" where
  "used bs ib = set bs \<union> set_option ib"

definition stored :: "byte list list \<Rightarrow> nat list \<Rightarrow> byte list \<Rightarrow> bool" where
  "stored im bs c \<longleftrightarrow> length c \<le> BUFFER_SIZE * length bs \<and>
     (\<forall>k<BUFFER_SIZE * length bs. im ! (bs ! (k div BUFFER_SIZE)) ! (k mod BUFFER_SIZE) = (if k < length c then c ! k else 0))"

definition blocks :: "nat \<Rightarrow> nat" where
  "blocks n = (n + BUFFER_SIZE - 1) div BUFFER_SIZE"

definition need :: "nat \<Rightarrow> nat" where
  "need n = blocks n + (if NDIRECT < blocks n then 1 else 0)"

definition layout :: "byte list list \<Rightarrow> nat \<Rightarrow> u32 list \<Rightarrow> nat list \<Rightarrow> nat option \<Rightarrow> byte list \<Rightarrow> bool" where
  "layout im fb as bs ib c \<longleftrightarrow> recorded im as bs ib \<and> stored im bs c \<and>
     distinct bs \<and> set bs \<inter> set_option ib = {} \<and> used bs ib \<subseteq> {nmeta..<fb}"

definition im_ok :: "byte list list \<Rightarrow> nat \<Rightarrow> bool" where
  "im_ok im fb \<longleftrightarrow> length im = FSSIZE \<and> (\<forall>b<FSSIZE. length (im ! b) = BUFFER_SIZE) \<and> (\<forall>b<FSSIZE. fb \<le> b \<longrightarrow> im ! b = zeroes)
     \<and> nmeta \<le> fb \<and> fb \<le> FSSIZE"

section \<open>The block for an offset\<close>

lemma blocks_simps:
  "blocks 0 = 0" "n mod BUFFER_SIZE = 0 \<Longrightarrow> blocks n = n div BUFFER_SIZE" "n mod BUFFER_SIZE \<noteq> 0 \<Longrightarrow> blocks n = Suc (n div BUFFER_SIZE)"
proof -
  show "blocks 0 = 0" by (simp add: blocks_def)
  have n: "n = BUFFER_SIZE * (n div BUFFER_SIZE) + n mod BUFFER_SIZE" by simp
  show "blocks n = n div BUFFER_SIZE" if "n mod BUFFER_SIZE = 0"
  proof -
    have "n + BUFFER_SIZE - 1 = BUFFER_SIZE - 1 + BUFFER_SIZE * (n div BUFFER_SIZE)" using n that by simp
    then show ?thesis unfolding blocks_def by (simp only: div_mult_self2)
  qed
  show "blocks n = Suc (n div BUFFER_SIZE)" if "n mod BUFFER_SIZE \<noteq> 0"
  proof -
    have "n + BUFFER_SIZE - 1 = n mod BUFFER_SIZE - 1 + BUFFER_SIZE * Suc (n div BUFFER_SIZE)" using n that by simp
    moreover have "(n mod BUFFER_SIZE - 1) div BUFFER_SIZE = 0" by (simp add: less_imp_diff_less)
    ultimately show ?thesis unfolding blocks_def by (simp only: div_mult_self2)
  qed
qed

lemma im_ok_length: "im_ok im fb \<Longrightarrow> b < FSSIZE \<Longrightarrow> length (im ! b) = BUFFER_SIZE" "im_ok im fb \<Longrightarrow> length im = FSSIZE"
  by (simp_all add: im_ok_def)

lemma recorded_same:
  assumes "recorded im as bs ib" "\<And>b. ib = Some b \<Longrightarrow> im' ! b = im ! b"
  shows "recorded im' as bs ib"
  using assms by (cases ib) (auto simp: recorded_def)

text \<open>A block that the file has.\<close>

lemma file_block_old:
  assumes "recorded (img m) (d_addresses din) bs ib" "f < length bs" "\<forall>b\<in>used bs ib. 0 < b \<and> b < FSSIZE" "length (img m) = FSSIZE"
  shows "file_block din f m = Inr (of_nat (bs ! f), din, m)"
proof -
  have nz: "(of_nat (bs ! f) :: u32) \<noteq> 0" "0 < bs ! f" using assms(2,3) of_nat_zero_iff [of "bs ! f"] by (auto simp: used_def)
  show ?thesis
  proof (cases "f < NDIRECT")
    case True
    then show ?thesis using assms(1,2) nz by (simp add: file_block_def direct_block_def recorded_def)
  next
    case False
    then obtain b where b: "ib = Some b" using assms(1,2) by (cases ib) (auto simp: recorded_def)
    then have "(of_nat b :: u32) \<noteq> 0" "b < FSSIZE" using assms(3) of_nat_zero_iff [of b] by (auto simp: used_def)
    moreover have "f - NDIRECT < NINDIRECT" "NDIRECT + (f - NDIRECT) = f" using False assms(1,2) by (auto simp: recorded_def)
    ultimately show ?thesis using False assms(1,2,4) b nz
      by (simp add: file_block_def direct_block_def recorded_def)
  qed
qed

text \<open>The next block, among the direct ones, as the first of the indirect ones, and as a further one.\<close>

lemma file_block_direct:
  assumes "recorded (img m) (d_addresses din) bs ib" "length bs < NDIRECT"
  shows "file_block din (length bs) m = Inr (freeblock m, din\<lparr>d_addresses := (d_addresses din)[length bs := freeblock m]\<rparr>, m\<lparr>freeblock := freeblock m + 1\<rparr>)"
  using assms by (simp add: file_block_def direct_block_def new_block_def recorded_def)

lemma recorded_direct:
  assumes "recorded im as bs ib" "length bs < NDIRECT"
  shows "recorded im (as[length bs := of_nat b]) (bs @ [b]) ib"
  using assms by (cases ib) (auto simp: recorded_def nth_append nth_list_update)

lemma get32_zeroes: "p + 4 \<le> BUFFER_SIZE \<Longrightarrow> get32 zeroes p = 0"
  by (simp add: get32_def zeroes_def)

lemma file_block_first_indirect:
  assumes "recorded (img m) (d_addresses din) bs ib" "length bs = NDIRECT" "freeblock m = of_nat fb" "fb + 2 \<le> FSSIZE" "im_ok (img m) fb"
  shows "file_block din NDIRECT m = Inr (of_nat (fb + 1), din\<lparr>d_addresses := (d_addresses din)[NDIRECT := of_nat fb]\<rparr>,
    m\<lparr>freeblock := of_nat (fb + 2), img := (img m)[fb := put32 0 (of_nat (fb + 1)) zeroes]\<rparr>)"
proof -
  have "d_addresses din ! NDIRECT = 0" "length (d_addresses din) = 13" using assms(1,2) by (auto simp: recorded_def split: option.splits)
  moreover have "img m ! fb = zeroes" "length (img m) = FSSIZE" using assms(4,5) by (simp_all add: im_ok_def)
  moreover have "get32 (put32 0 (of_nat (fb + 1)) zeroes) 0 = of_nat (fb + 1)" by (rule get32_put32_same) simp
  ultimately show ?thesis using assms(3,4) of_nat_next [of fb] of_nat_next [of "Suc fb"] by (simp add: file_block_def direct_block_def new_block_def get32_zeroes of_nat_next del: of_nat_Suc)
qed

lemma recorded_first_indirect:
  assumes "recorded im as bs ib" "length bs = NDIRECT" "fb < length im"
  shows "recorded (im[fb := put32 0 (of_nat b) zeroes]) (as[NDIRECT := of_nat fb]) (bs @ [b]) (Some fb)"
proof -
  have "get32 (put32 0 (of_nat b) zeroes) (4 * f) = (if f = 0 then of_nat b else 0)" if "f < NINDIRECT" for f
    using that by (cases "f = 0") (simp_all add: get32_put32_same get32_put32_other get32_zeroes)
  then show ?thesis using assms by (cases ib) (auto simp: recorded_def nth_append)
qed

lemma file_block_indirect:
  assumes "recorded (img m) (d_addresses din) bs (Some b)" "length bs < MAXFILE" "freeblock m = of_nat fb" "fb < FSSIZE" "im_ok (img m) fb" "0 < b" "b < FSSIZE"
  shows "file_block din (length bs) m = Inr (of_nat fb, din,
    m\<lparr>freeblock := of_nat (fb + 1), img := (img m)[b := put32 (4 * (length bs - NDIRECT)) (of_nat fb) (img m ! b)]\<rparr>)"
proof -
  have r: "NDIRECT < length bs" "d_addresses din ! NDIRECT = of_nat b" "get32 (img m ! b) (4 * (length bs - NDIRECT)) = 0"
    using assms(1,2) by (auto simp: recorded_def)
  have l: "length (img m) = FSSIZE" "length (img m ! b) = BUFFER_SIZE" using assms(5,7) by (simp_all add: im_ok_def)
  have "get32 (put32 (4 * (length bs - NDIRECT)) (of_nat fb) (img m ! b)) (4 * (length bs - NDIRECT)) = of_nat fb"
    using l(2) assms(2) r(1) by (intro get32_put32_same) simp
  moreover have "(of_nat b :: u32) \<noteq> 0" using assms(6,7) of_nat_zero_iff by simp
  ultimately show ?thesis using r l assms(3,7) by (simp add: file_block_def direct_block_def new_block_def of_nat_next del: of_nat_Suc)
qed

lemma recorded_indirect:
  assumes "recorded im as bs (Some b)" "length bs < MAXFILE" "b < length im" "length (im ! b) = BUFFER_SIZE"
  shows "recorded (im[b := put32 (4 * (length bs - NDIRECT)) (of_nat x) (im ! b)]) as (bs @ [x]) (Some b)"
proof -
  let ?g = "length bs - NDIRECT"
  have "get32 (put32 (4 * ?g) (of_nat x) (im ! b)) (4 * f) = (if f = ?g then of_nat x else get32 (im ! b) (4 * f))" if "f < NINDIRECT" for f
    using that assms(2,4) by (cases "f = ?g") (auto simp: get32_put32_same intro!: get32_put32_other)
  then show ?thesis using assms(1-3) by (auto simp: recorded_def nth_append)
qed

text \<open>All cases together: what \<^verbatim>\<open>iappend\<close> has after it found or made the block for the end of the file.\<close>

lemma blocks_Suc: "blocks (Suc n) = Suc (n div BUFFER_SIZE)"
  by (simp add: blocks_def)

lemma blocks_cases: "blocks n = n div BUFFER_SIZE \<and> n mod BUFFER_SIZE = 0 \<or> blocks n = Suc (n div BUFFER_SIZE)"
  using blocks_simps(2,3) by blast

lemma stored_more:
  assumes "stored im bs c" "im' ! x = zeroes" "\<And>b. b \<in> set bs \<Longrightarrow> im' ! b = im ! b"
  shows "stored im' (bs @ [x]) c"
  unfolding stored_def
proof (intro conjI allI impI)
  show "length c \<le> BUFFER_SIZE * length (bs @ [x])" using assms(1) by (simp add: stored_def)
  fix k assume k: "k < BUFFER_SIZE * length (bs @ [x])"
  show "im' ! ((bs @ [x]) ! (k div BUFFER_SIZE)) ! (k mod BUFFER_SIZE) = (if k < length c then c ! k else 0)"
  proof (cases "k < BUFFER_SIZE * length bs")
    case True
    then have "k div BUFFER_SIZE < length bs" by (simp add: less_mult_imp_div_less mult.commute)
    then show ?thesis using True assms(1,3) by (simp add: stored_def nth_append)
  next
    case False
    then have "k div BUFFER_SIZE = length bs" using k by (intro div_nat_eqI) simp_all
    then show ?thesis using False assms(1,2) by (simp add: stored_def zeroes_def)
  qed
qed

definition appended :: "disk_inode \<Rightarrow> mkfs \<Rightarrow> nat list \<Rightarrow> nat option \<Rightarrow> byte list \<Rightarrow> nat \<Rightarrow> nat
    \<Rightarrow> disk_inode \<Rightarrow> mkfs \<Rightarrow> nat list \<Rightarrow> nat option \<Rightarrow> byte list \<Rightarrow> nat \<Rightarrow> bool" where
  "appended din m bs ib c fb n din' m' bs' ib' c' fb' \<longleftrightarrow>
     (\<exists>as. din' = din\<lparr>d_addresses := as\<rparr>) \<and> freeblock m' = of_nat fb' \<and> freeinode m' = freeinode m \<and> msb m' = msb m \<and>
     layout (img m') fb' (d_addresses din') bs' ib' c' \<and> im_ok (img m') fb' \<and> length bs' = blocks n \<and>
     used bs' ib' = used bs ib \<union> {fb..<fb'} \<and> fb' = fb + (need n - need (length c)) \<and>
     (\<forall>b. b \<notin> used bs' ib' \<longrightarrow> img m' ! b = img m ! b)"

lemma file_block_step:
  assumes "layout (img m) fb (d_addresses din) bs ib c" "im_ok (img m) fb" "freeblock m = of_nat fb" "length bs = blocks (length c)"
    and "length c div BUFFER_SIZE < MAXFILE" "fb + (need (Suc (length c)) - need (length c)) \<le> FSSIZE"
  shows "\<exists>x din' m' bs' ib' fb'. file_block din (length c div BUFFER_SIZE) m = Inr (of_nat x, din', m') \<and>
    bs' ! (length c div BUFFER_SIZE) = x \<and> appended din m bs ib c fb (Suc (length c)) din' m' bs' ib' c fb'"
proof -
  let ?f = "length c div BUFFER_SIZE"
  note L = assms(1) [unfolded layout_def]
  have sane: "length (img m) = FSSIZE" "\<And>b. b < FSSIZE \<Longrightarrow> length (img m ! b) = BUFFER_SIZE" "\<And>b. fb \<le> b \<Longrightarrow> b < FSSIZE \<Longrightarrow> img m ! b = zeroes"
    "nmeta \<le> fb" "fb \<le> FSSIZE"
    using assms(2) by (simp_all add: im_ok_def)
  have u: "\<forall>b\<in>used bs ib. nmeta \<le> b \<and> b < fb" using L by auto
  then have new: "fb \<notin> set bs" "fb \<notin> set_option ib" by (auto simp: used_def)
  have less: "x < Suc fb" "x < Suc (Suc fb)" if "x \<in> set bs" for x using that u by (auto simp: used_def less_Suc_eq)
  consider (old) "?f < length bs" | (direct) "length bs = ?f" "?f < NDIRECT" | (first) "length bs = ?f" "?f = NDIRECT" | (more) b where "length bs = ?f" "NDIRECT < ?f" "ib = Some b"
    using blocks_cases [of "length c"] assms(4) L by (cases ib) (auto simp: recorded_def, linarith)
  then show ?thesis
  proof cases
    case old
    have n: "need (Suc (length c)) = need (length c)" "length bs = Suc ?f" using old assms(4) blocks_cases [of "length c"] by (auto simp: need_def blocks_Suc)
    have "file_block din ?f m = Inr (of_nat (bs ! ?f), din, m)"
      by (rule file_block_old) (use L u old sane in force)+
    moreover have "appended din m bs ib c fb (Suc (length c)) din m bs ib c fb"
      using assms(1-3) n unfolding appended_def by (cases din; cases m) (auto simp: blocks_Suc)
    ultimately show ?thesis by blast
  next
    case direct
    have n: "need (Suc (length c)) - need (length c) = 1" using direct assms(4) by (simp add: need_def blocks_Suc)
    let ?m = "m\<lparr>freeblock := of_nat (Suc fb), img := img m\<rparr>"
    have "m\<lparr>freeblock := freeblock m + 1\<rparr> = ?m" by (cases m) (use assms(3) of_nat_next [of fb] in simp)
    then have "file_block din ?f m = Inr (of_nat fb, din\<lparr>d_addresses := (d_addresses din)[?f := of_nat fb]\<rparr>, ?m)"
      using file_block_direct [of m din bs ib] L direct assms(3) by simp
    moreover have "appended din m bs ib c fb (Suc (length c)) (din\<lparr>d_addresses := (d_addresses din)[?f := of_nat fb]\<rparr>) ?m (bs @ [fb]) ib c (Suc fb)"
      using recorded_direct [of "img m" "d_addresses din" bs ib fb] L direct n u new sane assms(6)
        stored_more [of "img m" bs c "img m" fb]
      unfolding appended_def layout_def im_ok_def
      by (intro conjI exI) (auto simp: blocks_Suc used_def less)
    ultimately show ?thesis using direct(1) by (intro exI conjI, simp only:) (auto simp: nth_append)
  next
    case first
    have n: "need (Suc (length c)) - need (length c) = 2" using first assms(4) by (simp add: need_def blocks_Suc)
    let ?im = "(img m)[fb := put32 0 (of_nat (fb + 1)) zeroes]"
    have ib: "ib = None" using L first by (cases ib) (auto simp: recorded_def)
    have fb: "fb + 2 \<le> FSSIZE" using assms(6) n by simp
    have st: "stored ?im (bs @ [fb + 1]) c" by (rule stored_more [of "img m"]) (use L new sane fb in \<open>auto simp: nth_list_update\<close>)
    have "file_block din NDIRECT m = Inr (of_nat (fb + 1), din\<lparr>d_addresses := (d_addresses din)[NDIRECT := of_nat fb]\<rparr>, m\<lparr>freeblock := of_nat (fb + 2), img := ?im\<rparr>)"
      by (rule file_block_first_indirect [OF _ _ assms(3) fb assms(2), of din bs ib]) (use L first in auto)
    moreover have "appended din m bs ib c fb (Suc (length c)) (din\<lparr>d_addresses := (d_addresses din)[NDIRECT := of_nat fb]\<rparr>) (m\<lparr>freeblock := of_nat (fb + 2), img := ?im\<rparr>)
        (bs @ [fb + 1]) (Some fb) c (fb + 2)"
      using recorded_first_indirect [of "img m" "d_addresses din" bs ib fb "fb + 1"] L first n u sane fb ib new st
      unfolding appended_def layout_def im_ok_def
      by (intro conjI exI) (auto simp: blocks_Suc used_def nth_list_update less)
    ultimately show ?thesis using first by (intro exI conjI, simp only:) (auto simp: nth_append)
  next
    case more
    have n: "need (Suc (length c)) - need (length c) = 1" using more assms(4) by (simp add: need_def blocks_Suc)
    let ?im = "(img m)[b := put32 (4 * (length bs - NDIRECT)) (of_nat fb) (img m ! b)]"
    have b: "nmeta \<le> b" "b < fb" "b \<notin> set bs" using u more(3) L by (auto simp: used_def)
    have fb: "fb + 1 \<le> FSSIZE" using assms(6) n by simp
    have st: "stored ?im (bs @ [fb]) c" by (rule stored_more [of "img m"]) (use L b sane fb in \<open>auto simp: nth_list_update\<close>)
    have "file_block din (length bs) m = Inr (of_nat fb, din, m\<lparr>freeblock := of_nat (fb + 1), img := ?im\<rparr>)"
      by (rule file_block_indirect [OF _ _ assms(3) _ assms(2)]) (use L more assms(5) b fb sane in auto)
    moreover have "appended din m bs ib c fb (Suc (length c)) din (m\<lparr>freeblock := of_nat (fb + 1), img := ?im\<rparr>) (bs @ [fb]) ib c (fb + 1)"
      using recorded_indirect [of "img m" "d_addresses din" bs b fb] L more n u sane fb b assms(5) new st
      unfolding appended_def layout_def im_ok_def
      by (intro conjI exI [of _ "d_addresses din"]) (auto simp: blocks_Suc used_def nth_list_update less)
    ultimately show ?thesis using more(1) by (intro exI conjI, simp only:) (auto simp: nth_append)
  qed
qed

section \<open>Appending\<close>

text \<open>Writing behind the end of the file in its last block.\<close>

lemma write_end:
  assumes "layout im fb as bs ib c" "im_ok im fb" "length bs = Suc (length c div BUFFER_SIZE)" "length p \<le> BUFFER_SIZE - length c mod BUFFER_SIZE"
    and "x = bs ! (length c div BUFFER_SIZE)"
  shows "layout (im[x := patch (length c mod BUFFER_SIZE) p (im ! x)]) fb as bs ib (c @ p)"
    and "im_ok (im[x := patch (length c mod BUFFER_SIZE) p (im ! x)]) fb"
proof -
  let ?f = "length c div BUFFER_SIZE" and ?o = "length c mod BUFFER_SIZE"
  let ?im = "im[x := patch ?o p (im ! x)]"
  note L = assms(1) [unfolded layout_def]
  have x: "x \<in> set bs" using assms(3,5) by simp
  then have x: "x \<in> set bs" "x \<notin> set_option ib" "x < fb" using L by (auto simp: used_def)
  then have xl: "x < length im" "length (im ! x) = BUFFER_SIZE" using assms(2) by (auto simp: im_ok_def)
  have fit: "?o + length p \<le> BUFFER_SIZE" using assms(4) by (simp add: less_imp_le)
  have c: "length c = BUFFER_SIZE * ?f + ?o" by simp
  have "stored ?im bs (c @ p)"
    unfolding stored_def
  proof (intro conjI allI impI)
    show "length (c @ p) \<le> BUFFER_SIZE * length bs" using fit assms(3) c by (simp only: length_append mult_Suc_right)
    fix k assume k: "k < BUFFER_SIZE * length bs"
    then have kb: "k div BUFFER_SIZE < length bs" by (simp add: less_mult_imp_div_less mult.commute)
    have old: "im ! (bs ! (k div BUFFER_SIZE)) ! (k mod BUFFER_SIZE) = (if k < length c then c ! k else 0)" using k L by (simp add: stored_def)
    show "?im ! (bs ! (k div BUFFER_SIZE)) ! (k mod BUFFER_SIZE) = (if k < length (c @ p) then (c @ p) ! k else 0)"
    proof (cases "k div BUFFER_SIZE = ?f")
      case True
      then have kk: "k = BUFFER_SIZE * ?f + k mod BUFFER_SIZE" using mult_div_mod_eq [of BUFFER_SIZE k] by simp
      then have "k - length c = k mod BUFFER_SIZE - ?o" "k < length c \<longleftrightarrow> k mod BUFFER_SIZE < ?o"
        "k < length c + length p \<longleftrightarrow> k mod BUFFER_SIZE < ?o + length p" using c by linarith+
      then show ?thesis using True old xl fit assms(5) by (auto simp: nth_patch nth_append)
    next
      case False
      then have "k div BUFFER_SIZE < ?f" using kb assms(3) by simp
      then have "k < length c" using div_less_iff_less_mult [of BUFFER_SIZE k ?f] c by simp
      moreover have "bs ! (k div BUFFER_SIZE) \<noteq> x" using False kb assms(3,5) L by (simp add: nth_eq_iff_index_eq)
      ultimately show ?thesis using old by (simp add: nth_append)
    qed
  qed
  moreover have "recorded ?im as bs ib" by (rule recorded_same [of im]) (use L x in auto)
  ultimately show "layout ?im fb as bs ib (c @ p)" using L by (simp add: layout_def)
  have "length (patch ?o p (im ! x)) = BUFFER_SIZE" using fit xl by simp
  then show "im_ok ?im fb" using assms(2) x xl by (auto simp: im_ok_def nth_list_update)
qed

lemma need_mono: "m \<le> n \<Longrightarrow> need m \<le> need n"
proof -
  assume "m \<le> n"
  then have "blocks m \<le> blocks n" unfolding blocks_def by (intro div_le_mono) simp
  then show ?thesis by (auto simp: need_def)
qed

lemma blocks_same_block:
  assumes "0 < j" "n mod BUFFER_SIZE + j \<le> BUFFER_SIZE"
  shows "blocks (n + j) = Suc (n div BUFFER_SIZE)"
proof -
  have "n + j + BUFFER_SIZE - 1 = (n mod BUFFER_SIZE + j - 1) + BUFFER_SIZE * Suc (n div BUFFER_SIZE)"
    using assms(1) mult_div_mod_eq [of BUFFER_SIZE n] by simp
  moreover have "(n mod BUFFER_SIZE + j - 1) div BUFFER_SIZE = 0" using assms by simp
  ultimately show ?thesis unfolding blocks_def by (simp only: div_mult_self2)
qed

lemma appended_trans:
  assumes "appended din m bs ib c fb n1 din1 m1 bs1 ib1 c fb1"
    and "appended din1 (m1\<lparr>img := (img m1)[x := y]\<rparr>) bs1 ib1 c1 fb1 n2 din' m' bs' ib' c' fb'"
    and "x \<in> used bs1 ib1" "need n1 = need (length c1)" "need (length c) \<le> need n1" "need n1 \<le> need n2"
  shows "appended din m bs ib c fb n2 din' m' bs' ib' c' fb'"
proof -
  note A = assms(1) [unfolded appended_def] and B = assms(2) [unfolded appended_def]
  have "\<exists>as. din' = din\<lparr>d_addresses := as\<rparr>" using A B by auto
  moreover have fb: "fb' = fb + (need n2 - need (length c))" "fb \<le> fb1" "fb1 \<le> fb'" using A B assms(4-6) by auto
  moreover have "used bs' ib' = used bs ib \<union> {fb..<fb'}" using A B fb(2,3) by (auto simp: Un_assoc ivl_disj_un)
  moreover have "img m' ! b = img m ! b" if "b \<notin> used bs' ib'" for b
  proof -
    have "b \<notin> used bs1 ib1" "b \<noteq> x" using that B assms(3) by auto
    then show ?thesis using that A B by simp
  qed
  moreover have "freeinode m' = freeinode m" "msb m' = msb m" using A B by auto
  moreover have "freeblock m' = of_nat fb'" "layout (img m') fb' (d_addresses din') bs' ib' c'" "im_ok (img m') fb'" "length bs' = blocks n2"
    using B by blast+
  ultimately show ?thesis unfolding appended_def by blast
qed

lemma iappend_loop_appends:
  assumes "layout (img m) fb (d_addresses din) bs ib c" "im_ok (img m) fb" "freeblock m = of_nat fb" "length bs = blocks (length c)"
    and "length (c @ p) \<le> MAXFILE * BUFFER_SIZE" "fb + (need (length (c @ p)) - need (length c)) \<le> FSSIZE"
  shows "\<exists>din' m' bs' ib' fb'. iappend_loop din (of_nat (length c)) p m = Inr (din', of_nat (length (c @ p)), m') \<and>
    appended din m bs ib c fb (length (c @ p)) din' m' bs' ib' (c @ p) fb'"
  using assms
proof (induction "length p" arbitrary: p c din m bs ib fb rule: less_induct)
  case less
  show ?case
  proof (cases "p = []")
    case True
    then show ?thesis using less.prems
      by (intro exI [of _ din] exI [of _ m] exI [of _ bs] exI [of _ ib] exI [of _ fb])
        (auto simp: iappend_loop.simps [of din _ "[]"] appended_def intro!: exI [of _ "d_addresses din"])
  next
    case False
    let ?f = "length c div BUFFER_SIZE" and ?o = "length c mod BUFFER_SIZE"
    let ?n = "min (length p) (BUFFER_SIZE - ?o)"
    have n: "0 < ?n" "?n \<le> length p" "?o + ?n \<le> BUFFER_SIZE" using False by (auto simp: less_imp_le)
    have len: "length c < MAXFILE * BUFFER_SIZE" using False less.prems(5) by (cases p) auto
    then have f: "?f < MAXFILE" by (simp add: less_mult_imp_div_less)
    have off: "unat (of_nat (length c) :: u32) = length c" using len by (intro unat_of_nat_u32) simp
    have nd: "need (length c + ?n) = need (Suc (length c))" using blocks_same_block [OF n(1,3)] by (simp add: need_def blocks_Suc)
    have mono: "need (length c) \<le> need (length c + ?n)" "need (length c + ?n) \<le> need (length (c @ p))" using n by (auto intro!: need_mono)
    have room1: "fb + (need (Suc (length c)) - need (length c)) \<le> FSSIZE" using less.prems(6) mono nd by linarith
    obtain x din1 m1 bs1 ib1 fb1 where x: "file_block din ?f m = Inr (of_nat x, din1, m1)" "bs1 ! ?f = x"
      and a: "appended din m bs ib c fb (Suc (length c)) din1 m1 bs1 ib1 c fb1"
      using file_block_step [OF less.prems(1-4) f room1] by blast
    note A = a [unfolded appended_def]
    have bs1: "length bs1 = Suc ?f" using A by (simp add: blocks_Suc)
    have xb: "x \<in> used bs1 ib1" using bs1 x(2) by (auto simp: used_def)
    then have xb: "x \<in> used bs1 ib1" "x < FSSIZE" "length (img m1) = FSSIZE" using A by (auto simp: layout_def im_ok_def)
    let ?m2 = "m1\<lparr>img := (img m1)[x := patch ?o (take ?n p) (img m1 ! x)]\<rparr>"
    have W: "layout (img ?m2) fb1 (d_addresses din1) bs1 ib1 (c @ take ?n p)" "im_ok (img ?m2) fb1"
      using write_end [of "img m1" fb1 "d_addresses din1" bs1 ib1 c "take ?n p" x] A bs1 x(2) by auto
    have l2: "length (c @ take ?n p) = length c + ?n" by simp
    have step: "iappend_loop din (of_nat (length c)) p m = iappend_loop din1 (of_nat (length (c @ take ?n p))) (drop ?n p) ?m2"
      using False f x(1) xb off by (subst iappend_loop.simps) (simp add: room_eq place_mod Let_def)
    have "\<exists>din' m' bs' ib' fb'. iappend_loop din1 (of_nat (length (c @ take ?n p))) (drop ?n p) ?m2
        = Inr (din', of_nat (length ((c @ take ?n p) @ drop ?n p)), m') \<and>
      appended din1 ?m2 bs1 ib1 (c @ take ?n p) fb1 (length ((c @ take ?n p) @ drop ?n p)) din' m' bs' ib' ((c @ take ?n p) @ drop ?n p) fb'"
    proof (rule less.hyps [OF _ W])
      show "length (drop ?n p) < length p" using n False by simp
      show "freeblock ?m2 = of_nat fb1" using A by simp
      show "length bs1 = blocks (length (c @ take ?n p))" using bs1 blocks_same_block [OF n(1,3)] by (simp only: l2)
      show "length ((c @ take ?n p) @ drop ?n p) \<le> MAXFILE * BUFFER_SIZE" using less.prems(5) by simp
      show "fb1 + (need (length ((c @ take ?n p) @ drop ?n p)) - need (length (c @ take ?n p))) \<le> FSSIZE"
        using A less.prems(6) mono nd by (simp add: l2 del: length_append)
    qed
    then obtain din' m' bs' ib' fb' where r: "iappend_loop din1 (of_nat (length (c @ take ?n p))) (drop ?n p) ?m2 = Inr (din', of_nat (length (c @ p)), m')"
      and b: "appended din1 ?m2 bs1 ib1 (c @ take ?n p) fb1 (length (c @ p)) din' m' bs' ib' (c @ p) fb'" by auto
    have "appended din m bs ib c fb (length (c @ p)) din' m' bs' ib' (c @ p) fb'"
      by (rule appended_trans [OF a b xb(1)]) (use n mono nd l2 in simp_all)
    then show ?thesis using step r by auto
  qed
qed

section \<open>The image as a list of files\<close>

text \<open>
  What the operations mean: an image holds a list of files, each with a type and its contents. The files lie in
  disjoint blocks, and the blocks in use are those between the first data block and \<^term>\<open>freeblock\<close>.
\<close>

record afile =
  a_type :: u16
  a_blocks :: "nat list"
  a_ind :: "nat option"
  a_data :: "byte list"

definition dinode_at :: "byte list list \<Rightarrow> nat \<Rightarrow> disk_inode" where
  "dinode_at im j = dinode_get (im ! (2 + LOGSIZE + j div INODE_PER_BLOCK)) (64 * (j mod INODE_PER_BLOCK))"

definition file_at :: "byte list list \<Rightarrow> nat \<Rightarrow> nat \<Rightarrow> afile \<Rightarrow> bool" where
  "file_at im fb j x \<longleftrightarrow> (let d = dinode_at im j in
     d_type d = a_type x \<and> d_num_link d = 1 \<and> d_size d = of_nat (length (a_data x)) \<and>
     layout im fb (d_addresses d) (a_blocks x) (a_ind x) (a_data x) \<and> length (a_blocks x) = blocks (length (a_data x)))"

definition taken :: "afile list \<Rightarrow> nat" where
  "taken F = nmeta + sum_list (map (\<lambda>x. need (length (a_data x))) F)"

definition img_inv :: "mkfs \<Rightarrow> afile list \<Rightarrow> bool" where
  "img_inv m F \<longleftrightarrow> im_ok (img m) (taken F) \<and> freeblock m = of_nat (taken F) \<and> freeinode m = of_nat (Suc (length F)) \<and>
     msb m = mk_superblock \<and> length F \<le> 207 \<and> img m ! 1 = superblock_bytes mk_superblock zeroes \<and>
     (\<forall>j<length F. file_at (img m) (taken F) (Suc j) (F ! j)) \<and>
     (\<forall>i<length F. \<forall>j<length F. i \<noteq> j \<longrightarrow> used (a_blocks (F ! i)) (a_ind (F ! i)) \<inter> used (a_blocks (F ! j)) (a_ind (F ! j)) = {})"

lemma inode_place:
  assumes "j < 208" "msb m = mk_superblock"
  shows "inode_block (of_nat j) m = of_nat (2 + LOGSIZE + j div INODE_PER_BLOCK)" "dinode_off (of_nat j) = 64 * (j mod INODE_PER_BLOCK)"
proof -
  have u: "unat (of_nat j :: u32) = j" using assms(1) by (intro unat_of_nat_u32) simp
  have "(of_nat j :: u32) div of_nat INODE_PER_BLOCK = of_nat (j div INODE_PER_BLOCK)"
    using assms(1) by (simp add: word_unat_eq_iff unat_div u unat_of_nat)
  then show "inode_block (of_nat j) m = of_nat (2 + LOGSIZE + j div INODE_PER_BLOCK)"
    using assms(2) by (simp add: inode_block_def mk_superblock_def)
  show "dinode_off (of_nat j) = 64 * (j mod INODE_PER_BLOCK)" by (simp add: dinode_off_def u)
qed

lemma inode_block_range: "j < 208 \<Longrightarrow> 2 + LOGSIZE + j div INODE_PER_BLOCK < nmeta - 1"
  by simp

lemma rinode_at:
  assumes "j < 208" "msb m = mk_superblock" "length (img m) = FSSIZE"
  shows "rinode (of_nat j) m = Inr (dinode_at (img m) j)"
proof -
  have b: "2 + LOGSIZE + j div INODE_PER_BLOCK < FSSIZE" using assms(1) by simp
  show ?thesis unfolding rinode_def dinode_at_def inode_place [OF assms(1,2)] rsect_of_nat [OF b assms(3)] by (simp only: rbind_simps)
qed

definition set_dinode :: "nat \<Rightarrow> disk_inode \<Rightarrow> byte list list \<Rightarrow> byte list list" where
  "set_dinode j din im = (let b = 2 + LOGSIZE + j div INODE_PER_BLOCK in im[b := dinode_put (64 * (j mod INODE_PER_BLOCK)) din (im ! b)])"

lemma winode_at:
  assumes "j < 208" "msb m = mk_superblock" "length (img m) = FSSIZE"
  shows "winode (of_nat j) din m = Inr (m\<lparr>img := set_dinode j din (img m)\<rparr>)"
proof -
  have b: "2 + LOGSIZE + j div INODE_PER_BLOCK < FSSIZE" using assms(1) by simp
  show ?thesis unfolding winode_def set_dinode_def Let_def inode_place [OF assms(1,2)] rsect_of_nat [OF b assms(3)] wsect_of_nat [OF b assms(3)]
    by (simp only: rbind_simps wsect_of_nat [OF b assms(3)])
qed

lemma set_dinode_other: "b \<noteq> 2 + LOGSIZE + j div INODE_PER_BLOCK \<Longrightarrow> set_dinode j din im ! b = im ! b"
  by (simp add: set_dinode_def Let_def)

lemma im_ok_set_dinode:
  assumes "im_ok im fb" "j < 208"
  shows "im_ok (set_dinode j din im) fb"
  using assms inode_block_range [OF assms(2)] by (auto simp: im_ok_def set_dinode_def Let_def nth_list_update)

lemma dinode_at_set_dinode:
  assumes "im_ok im fb" "i < 208" "j < 208" "length (d_addresses din) = 13"
  shows "dinode_at (set_dinode j din im) i = (if i = j then din else dinode_at im i)"
proof -
  let ?b = "2 + LOGSIZE + j div INODE_PER_BLOCK"
  have b: "?b < length im" "length (im ! ?b) = BUFFER_SIZE" using assms(1) inode_block_range [OF assms(3)] by (auto simp: im_ok_def)
  show ?thesis
  proof (cases "i = j")
    case True
    have "64 * (j mod INODE_PER_BLOCK) + 64 \<le> length (im ! ?b)" unfolding b(2) using mod_less_divisor [of INODE_PER_BLOCK j] by linarith
    then show ?thesis using True b assms(4) by (simp add: dinode_at_def set_dinode_def Let_def dinode_get_put)
  next
    case False
    show ?thesis
    proof (cases "i div INODE_PER_BLOCK = j div INODE_PER_BLOCK")
      case True
      then have "i mod INODE_PER_BLOCK \<noteq> j mod INODE_PER_BLOCK" using False by (metis div_mult_mod_eq)
      then have "64 * (i mod INODE_PER_BLOCK) + 64 \<le> 64 * (j mod INODE_PER_BLOCK) \<or> 64 * (j mod INODE_PER_BLOCK) + 64 \<le> 64 * (i mod INODE_PER_BLOCK)" by linarith
      then show ?thesis using True False b by (simp add: dinode_at_def set_dinode_def Let_def dinode_get_put_other)
    next
      case other: False
      then show ?thesis using False by (simp add: dinode_at_def set_dinode_other)
    qed
  qed
qed

text \<open>A layout depends on the blocks that it uses only.\<close>

lemma layout_same:
  assumes "layout im fb as bs ib c" "\<And>b. b \<in> used bs ib \<Longrightarrow> im' ! b = im ! b" "fb \<le> fb'"
  shows "layout im' fb' as bs ib c"
proof -
  note L = assms(1) [unfolded layout_def]
  have "recorded im' as bs ib" by (rule recorded_same [of im]) (use L assms(2) in \<open>auto simp: used_def\<close>)
  moreover have "stored im' bs c"
    unfolding stored_def
  proof (intro conjI allI impI)
    show "length c \<le> BUFFER_SIZE * length bs" using L by (simp add: stored_def)
    fix k assume k: "k < BUFFER_SIZE * length bs"
    then have "bs ! (k div BUFFER_SIZE) \<in> used bs ib" by (auto simp: used_def less_mult_imp_div_less mult.commute)
    then show "im' ! (bs ! (k div BUFFER_SIZE)) ! (k mod BUFFER_SIZE) = (if k < length c then c ! k else 0)"
      using assms(2) L k by (simp add: stored_def)
  qed
  ultimately show ?thesis using L assms(3) by (auto simp: layout_def)
qed

section \<open>Allocating and appending keep the list\<close>

lemma sum_list_update_le:
  fixes xs :: "nat list"
  assumes "j < length xs" "xs ! j \<le> v"
  shows "sum_list (xs[j := v]) = sum_list xs + (v - xs ! j)"
  using assms by (induction xs arbitrary: j) (auto split: nat.split)

lemma taken_update:
  assumes "j < length F" "length (a_data (F ! j)) \<le> length (a_data x)"
  shows "taken (F[j := x]) = taken F + (need (length (a_data x)) - need (length (a_data (F ! j))))"
  using sum_list_update_le [of j "map (\<lambda>x. need (length (a_data x))) F" "need (length (a_data x))"] assms(1) need_mono [OF assms(2)]
  by (simp add: taken_def map_update)

lemma file_at_mono:
  assumes "file_at im fb j x" "fb \<le> fb'" "\<And>b. b \<in> used (a_blocks x) (a_ind x) \<Longrightarrow> im' ! b = im ! b" "dinode_at im' j = dinode_at im j"
  shows "file_at im' fb' j x"
  using assms layout_same [of im fb "d_addresses (dinode_at im j)" "a_blocks x" "a_ind x" "a_data x" im' fb'] by (simp add: file_at_def Let_def)

lemma dinode_at_cong: "(\<And>b. 2 + LOGSIZE \<le> b \<Longrightarrow> b < nmeta - 1 \<Longrightarrow> im' ! b = im ! b) \<Longrightarrow> j < 208 \<Longrightarrow> dinode_at im' j = dinode_at im j"
  using inode_block_range [of j] by (simp add: dinode_at_def)

lemma file_atD:
  assumes "file_at im fb j x"
  shows "layout im fb (d_addresses (dinode_at im j)) (a_blocks x) (a_ind x) (a_data x)" "length (a_blocks x) = blocks (length (a_data x))"
    "d_size (dinode_at im j) = of_nat (length (a_data x))" "used (a_blocks x) (a_ind x) \<subseteq> {nmeta..<fb}"
  using assms by (auto simp: file_at_def Let_def layout_def)

lemma iappend_img_inv:
  assumes "img_inv m F" "j < length F" "length (a_data (F ! j) @ p) \<le> MAXFILE * BUFFER_SIZE" "taken (F[j := (F ! j)\<lparr>a_data := a_data (F ! j) @ p\<rparr>]) \<le> FSSIZE"
  shows "\<exists>m' bs ib. iappend (of_nat (Suc j)) p m = Inr m' \<and> img_inv m' (F[j := (F ! j)\<lparr>a_data := a_data (F ! j) @ p, a_blocks := bs, a_ind := ib\<rparr>])"
proof -
  let ?x = "F ! j" and ?fb = "taken F"
  let ?c = "a_data ?x" and ?d = "dinode_at (img m) (Suc j)"
  note I = assms(1) [unfolded img_inv_def]
  have at: "file_at (img m) ?fb (Suc j) ?x" using I assms(2) by blast
  note A = file_atD [OF at]
  have t: "taken (F[j := y]) = ?fb + (need (length (?c @ p)) - need (length ?c))" if "a_data y = ?c @ p" for y
    using taken_update [OF assms(2), of y] that by simp
  have room: "?fb + (need (length (?c @ p)) - need (length ?c)) \<le> FSSIZE" using assms(4) t [of "?x\<lparr>a_data := ?c @ p\<rparr>"] by simp
  have l: "length (img m) = FSSIZE" "Suc j < 208" using I assms(2) by (auto simp: im_ok_def)
  obtain din m1 bs ib fb where r: "iappend_loop ?d (of_nat (length ?c)) p m = Inr (din, of_nat (length (?c @ p)), m1)"
    and a: "appended ?d m (a_blocks ?x) (a_ind ?x) ?c ?fb (length (?c @ p)) din m1 bs ib (?c @ p) fb"
    using iappend_loop_appends [OF A(1) _ _ A(2) assms(3) room] I by blast
  note B = a [unfolded appended_def]
  let ?din = "din\<lparr>d_size := of_nat (length (?c @ p))\<rparr>"
  let ?m = "m1\<lparr>img := set_dinode (Suc j) ?din (img m1)\<rparr>"
  let ?y = "?x\<lparr>a_data := ?c @ p, a_blocks := bs, a_ind := ib\<rparr>"
  have fb: "fb = taken (F[j := ?y])" "?fb \<le> fb" using B t [of ?y] by auto
  have "iappend (of_nat (Suc j)) p m = winode (of_nat (Suc j)) ?din m1"
    using rinode_at [OF l(2) _ l(1)] I r A(3) by (simp add: iappend_def del: of_nat_Suc)
  also have "\<dots> = Inr ?m" using winode_at [OF l(2), of m1 ?din] B I by (simp add: im_ok_def del: of_nat_Suc)
  finally have run: "iappend (of_nat (Suc j)) p m = Inr ?m" .
  have la: "length (d_addresses ?din) = 13" using B by (simp add: layout_def recorded_def)
  have frame: "img ?m ! b = img m1 ! b" if "nmeta - 1 \<le> b \<or> b < 2 + LOGSIZE" for b
    using that inode_block_range [OF l(2)] set_dinode_other [of b "Suc j" ?din "img m1"] by auto
  have u: "used bs ib = used (a_blocks ?x) (a_ind ?x) \<union> {?fb..<fb}" using B by blast
  have frame1: "img m1 ! b = img m ! b" if "b \<notin> used bs ib" for b using B that by blast
  have lo: "nmeta \<le> b" if "b \<in> used bs ib" for b using that B by (auto simp: layout_def)
  have dj: "dinode_at (img ?m) (Suc i) = (if i = j then ?din else dinode_at (img m) (Suc i))" if "i < length F" for i
  proof -
    have "dinode_at (img m1) (Suc i) = dinode_at (img m) (Suc i)"
    proof (rule dinode_at_cong)
      show "img m1 ! b = img m ! b" if "b < nmeta - 1" for b using frame1 [of b] lo [of b] that by linarith
      show "Suc i < 208" using that I by linarith
    qed
    then show ?thesis using dinode_at_set_dinode [of "img m1" fb "Suc i" "Suc j" ?din] B la l(2) that I by auto
  qed
  have "file_at (img ?m) fb (Suc i) (F[j := ?y] ! i)" if i: "i < length F" for i
  proof (cases "i = j")
    case True
    obtain as where as: "din = ?d\<lparr>d_addresses := as\<rparr>" using B by blast
    have "layout (img ?m) fb (d_addresses din) bs ib (?c @ p)"
    proof (rule layout_same [of "img m1" fb])
      show "img ?m ! b = img m1 ! b" if "b \<in> used bs ib" for b using frame [of b] lo [OF that] by linarith
    qed (use B in \<open>blast, simp\<close>)
    then show ?thesis using True i dj [OF i] at B as by (simp add: file_at_def Let_def)
  next
    case False
    have disj: "used (a_blocks (F ! i)) (a_ind (F ! i)) \<inter> used (a_blocks ?x) (a_ind ?x) = {}" using I i assms(2) False by blast
    have ati: "file_at (img m) ?fb (Suc i) (F ! i)" using I i by blast
    have "file_at (img ?m) fb (Suc i) (F ! i)"
    proof (rule file_at_mono [OF ati fb(2)])
      fix b assume b: "b \<in> used (a_blocks (F ! i)) (a_ind (F ! i))"
      then have "b < ?fb" "nmeta \<le> b" using file_atD(4) [OF ati] by auto
      moreover from this have "b \<notin> used bs ib" using b disj u by auto
      ultimately show "img ?m ! b = img m ! b" using frame [of b] frame1 [of b] by simp
    qed (use dj [OF i] False in simp)
    then show ?thesis using False by simp
  qed
  moreover have "used (a_blocks (F[j := ?y] ! i)) (a_ind (F[j := ?y] ! i)) \<inter> used (a_blocks (F[j := ?y] ! k)) (a_ind (F[j := ?y] ! k)) = {}"
    if "i < length F" "k < length F" "i \<noteq> k" for i k
  proof -
    have d: "used (a_blocks (F ! i)) (a_ind (F ! i)) \<inter> used (a_blocks (F ! k)) (a_ind (F ! k)) = {}" using I that by blast
    have below: "used (a_blocks (F ! i)) (a_ind (F ! i)) \<inter> {?fb..<fb} = {}" if "i < length F" for i
      using I that file_atD(4) [of "img m" ?fb "Suc i" "F ! i"] by fastforce
    have "used (a_blocks (F[j := ?y] ! i)) (a_ind (F[j := ?y] ! i)) = used (a_blocks (F ! i)) (a_ind (F ! i)) \<union> (if i = j then {?fb..<fb} else {})"
      if "i < length F" for i using u that by simp
    then show ?thesis using d below [OF that(1)] below [OF that(2)] that by (simp add: Int_Un_distrib Int_Un_distrib2 Int_commute)
  qed
  moreover have "img ?m ! 1 = superblock_bytes mk_superblock zeroes" using frame [of 1] frame1 [of 1] lo [of 1] I by auto
  moreover have "im_ok (img m1) fb" "freeblock m1 = of_nat fb" using B by blast+
  then have "im_ok (img ?m) fb" "freeblock ?m = of_nat fb" using im_ok_set_dinode l(2) by simp_all
  moreover have "freeinode ?m = of_nat (Suc (length F))" "msb ?m = mk_superblock" "length F \<le> 207"
    using B I by (simp_all del: of_nat_Suc)
  ultimately have "img_inv ?m (F[j := ?y])" unfolding img_inv_def fb(1) [symmetric] length_list_update by blast
  then show ?thesis using run by blast
qed

lemma ialloc_img_inv:
  assumes "img_inv m F" "length F < 207"
  shows "\<exists>m'. ialloc ty m = Inr (of_nat (Suc (length F)), m') \<and> img_inv m' (F @ [\<lparr>a_type = ty, a_blocks = [], a_ind = None, a_data = []\<rparr>])"
proof -
  note I = assms(1) [unfolded img_inv_def]
  let ?x = "\<lparr>a_type = ty, a_blocks = [], a_ind = None, a_data = []\<rparr>" and ?j = "Suc (length F)"
  let ?din = "\<lparr>d_type = ty, d_major = 0, d_minor = 0, d_num_link = 1, d_size = 0, d_addresses = replicate 13 0\<rparr>"
  let ?m = "m\<lparr>freeinode := of_nat (Suc ?j), img := set_dinode ?j ?din (img m)\<rparr>"
  have im: "im_ok (img m) (taken F)" "?j < 208" using I assms(2) by simp_all
  have "ialloc ty m = Inr (of_nat ?j, ?m)"
    using winode_at [OF im(2), of "m\<lparr>freeinode := of_nat (Suc ?j)\<rparr>" ?din] I of_nat_next [of ?j]
    by (simp add: ialloc_def Let_def im_ok_def del: of_nat_Suc)
  moreover have t: "taken (F @ [?x]) = taken F" by (simp add: taken_def need_def blocks_simps)
  moreover have "file_at (img ?m) (taken F) (Suc i) ((F @ [?x]) ! i)" if "i < Suc (length F)" for i
  proof (cases "i = length F")
    case True
    have "layout im fb (replicate 13 0) [] None []" for im fb by (simp add: layout_def recorded_def stored_def used_def)
    then show ?thesis using True dinode_at_set_dinode [OF im(1) im(2) im(2), of ?din] by (simp add: file_at_def Let_def blocks_simps)
  next
    case False
    then have i: "i < length F" using that by simp
    have old: "file_at (img m) (taken F) (Suc i) (F ! i)" using I i by blast
    have "file_at (img ?m) (taken F) (Suc i) (F ! i)"
    proof (rule file_at_mono [OF old])
      show "img ?m ! b = img m ! b" if "b \<in> used (a_blocks (F ! i)) (a_ind (F ! i))" for b
        using file_atD(4) [OF old] that inode_block_range [OF im(2)] set_dinode_other [of b ?j] by fastforce
    qed (use dinode_at_set_dinode [OF im(1) _ im(2), of "Suc i" ?din] i im(2) in simp_all)
    then show ?thesis using i by (simp add: nth_append)
  qed
  moreover have "used (a_blocks ((F @ [?x]) ! i)) (a_ind ((F @ [?x]) ! i)) \<inter> used (a_blocks ((F @ [?x]) ! j)) (a_ind ((F @ [?x]) ! j)) = {}"
    if "i < Suc (length F)" "j < Suc (length F)" "i \<noteq> j" for i j
  proof -
    have "used (a_blocks ?x) (a_ind ?x) = {}" by (simp add: used_def)
    then show ?thesis using that I by (auto simp: nth_append less_Suc_eq)
  qed
  moreover have "img ?m ! 1 = img m ! 1" using set_dinode_other [of 1 ?j] by simp
  moreover have "im_ok (img ?m) (taken F)" using im_ok_set_dinode [OF im] by simp
  moreover have "freeblock ?m = of_nat (taken F)" "msb ?m = mk_superblock" "freeinode ?m = of_nat (Suc (length (F @ [?x])))" "length (F @ [?x]) \<le> 207"
    "img m ! 1 = superblock_bytes mk_superblock zeroes"
    using I assms(2) by (simp_all del: of_nat_Suc)
  ultimately have "img_inv ?m (F @ [?x])" unfolding img_inv_def t by (intro conjI allI impI) (simp_all del: of_nat_Suc)
  with \<open>ialloc ty m = Inr (of_nat ?j, ?m)\<close> show ?thesis by blast
qed

lemma start_blocks:
  assumes "n \<le> FSSIZE" "img m = []"
  shows "foldl (\<lambda>m i. wsect (of_nat i) zeroes m) m [0..<n] = m\<lparr>img := replicate n zeroes\<rparr>"
  using assms(1)
proof (induction n)
  case (Suc n)
  then show ?case by (simp add: wsect_def list_update_append replicate_append_same)
qed (use assms(2) in simp)

lemma start_img_inv: "img_inv mk_start []"
proof -
  have one: "(1 :: u32) = of_nat 1" by simp
  have e: "mk_start = \<lparr>img = (replicate FSSIZE zeroes)[1 := superblock_bytes mk_superblock zeroes], freeinode = 1, freeblock = of_nat nmeta, msb = mk_superblock\<rparr>"
    unfolding mk_start_def by (subst start_blocks) (simp, simp, subst one, subst wsect_of_nat, simp_all)
  have "length (superblock_bytes mk_superblock zeroes) = BUFFER_SIZE" by (simp add: superblock_bytes_def)
  then show ?thesis unfolding e by (auto simp: img_inv_def im_ok_def taken_def nth_list_update)
qed

text \<open>The same with the contents only.\<close>

definition holds_files :: "mkfs \<Rightarrow> (u16 \<times> byte list) list \<Rightarrow> bool" where
  "holds_files m fs \<longleftrightarrow> (\<exists>F. img_inv m F \<and> map (\<lambda>x. (a_type x, a_data x)) F = fs)"

definition fits :: "(u16 \<times> byte list) list \<Rightarrow> bool" where
  "fits fs \<longleftrightarrow> length fs \<le> 207 \<and> nmeta + sum_list (map (\<lambda>x. need (length (snd x))) fs) \<le> FSSIZE \<and>
     (\<forall>x\<in>set fs. length (snd x) \<le> MAXFILE * BUFFER_SIZE)"

lemma fits_le:
  assumes "fits fs'" "length fs \<le> length fs'" "\<And>i. i < length fs \<Longrightarrow> length (snd (fs ! i)) \<le> length (snd (fs' ! i))"
  shows "fits fs"
proof -
  have "sum_list (map (\<lambda>x. need (length (snd x))) fs) = (\<Sum>i<length fs. need (length (snd (fs ! i))))"
    by (simp add: sum_list_sum_nth atLeast0LessThan)
  also have "\<dots> \<le> (\<Sum>i<length fs. need (length (snd (fs' ! i))))" by (intro sum_mono need_mono) (simp add: assms(3))
  also have "\<dots> \<le> (\<Sum>i<length fs'. need (length (snd (fs' ! i))))" by (intro sum_mono2) (use assms(2) in auto)
  also have "\<dots> = sum_list (map (\<lambda>x. need (length (snd x))) fs')" by (simp add: sum_list_sum_nth atLeast0LessThan)
  finally have "sum_list (map (\<lambda>x. need (length (snd x))) fs) \<le> sum_list (map (\<lambda>x. need (length (snd x))) fs')" .
  moreover have "length (snd x) \<le> MAXFILE * BUFFER_SIZE" if "x \<in> set fs" for x
    using that assms unfolding fits_def in_set_conv_nth by (meson le_trans nth_mem order.strict_trans2)
  ultimately show ?thesis using assms(1,2) by (auto simp: fits_def)
qed

lemma iappend_holds:
  assumes "holds_files m fs" "j < length fs" "fits (fs[j := (fst (fs ! j), snd (fs ! j) @ p)])"
  shows "\<exists>m'. iappend (of_nat (Suc j)) p m = Inr m' \<and> holds_files m' (fs[j := (fst (fs ! j), snd (fs ! j) @ p)])"
proof -
  obtain F where F: "img_inv m F" "map (\<lambda>x. (a_type x, a_data x)) F = fs" using assms(1) by (auto simp: holds_files_def)
  have j: "j < length F" "fst (fs ! j) = a_type (F ! j)" "snd (fs ! j) = a_data (F ! j)" using F(2) assms(2) by auto
  let ?y = "\<lambda>bs ib. (F ! j)\<lparr>a_data := a_data (F ! j) @ p, a_blocks := bs, a_ind := ib\<rparr>"
  have m: "map (\<lambda>x. (a_type x, a_data x)) (F[j := y]) = fs[j := (a_type y, a_data y)]" for y using F(2) by (simp add: map_update)
  have t: "taken G = nmeta + sum_list (map (\<lambda>x. need (length (snd x))) (map (\<lambda>x. (a_type x, a_data x)) G))" for G
    by (simp add: taken_def o_def)
  have "taken (F[j := (F ! j)\<lparr>a_data := a_data (F ! j) @ p\<rparr>]) \<le> FSSIZE" unfolding t m using assms(3) j by (simp add: fits_def)
  moreover have "length (a_data (F ! j) @ p) \<le> MAXFILE * BUFFER_SIZE"
    using assms(2,3) j set_update_memI [OF assms(2), of "(fst (fs ! j), snd (fs ! j) @ p)"] by (fastforce simp: fits_def)
  ultimately obtain m' bs ib where "iappend (of_nat (Suc j)) p m = Inr m'" "img_inv m' (F[j := ?y bs ib])"
    using iappend_img_inv [OF F(1) j(1)] by blast
  moreover have "map (\<lambda>x. (a_type x, a_data x)) (F[j := ?y bs ib]) = fs[j := (fst (fs ! j), snd (fs ! j) @ p)]" unfolding m using j by simp
  ultimately show ?thesis unfolding holds_files_def by blast
qed

lemma ialloc_holds:
  assumes "holds_files m fs" "length fs < 207"
  shows "\<exists>m'. ialloc ty m = Inr (of_nat (Suc (length fs)), m') \<and> holds_files m' (fs @ [(ty, [])])"
proof -
  obtain F where F: "img_inv m F" "map (\<lambda>x. (a_type x, a_data x)) F = fs" using assms(1) by (auto simp: holds_files_def)
  then have l: "length F = length fs" by auto
  obtain m' where "ialloc ty m = Inr (of_nat (Suc (length fs)), m')" "img_inv m' (F @ [\<lparr>a_type = ty, a_blocks = [], a_ind = None, a_data = []\<rparr>])"
    using ialloc_img_inv [OF F(1)] assms(2) l by metis
  moreover have "map (\<lambda>x. (a_type x, a_data x)) (F @ [\<lparr>a_type = ty, a_blocks = [], a_ind = None, a_data = []\<rparr>]) = fs @ [(ty, [])]" using F(2) by simp
  ultimately show ?thesis unfolding holds_files_def by blast
qed

lemma append_chunks:
  assumes "holds_files m fs" "j < length fs" "fits (fs[j := (fst (fs ! j), snd (fs ! j) @ concat cs)])"
  shows "\<exists>m'. mfold (iappend (of_nat (Suc j))) cs m = Inr m' \<and> holds_files m' (fs[j := (fst (fs ! j), snd (fs ! j) @ concat cs)])"
  using assms
proof (induction cs arbitrary: m fs)
  case (Cons p cs)
  let ?fs = "fs[j := (fst (fs ! j), snd (fs ! j) @ p)]"
  have "fits ?fs" by (rule fits_le [OF Cons.prems(3)]) (use Cons.prems(2) in \<open>auto simp: nth_list_update\<close>)
  then obtain m1 where m1: "iappend (of_nat (Suc j)) p m = Inr m1" "holds_files m1 ?fs"
    using iappend_holds Cons.prems by blast
  have "\<exists>m'. mfold (iappend (of_nat (Suc j))) cs m1 = Inr m' \<and> holds_files m' (?fs[j := (fst (?fs ! j), snd (?fs ! j) @ concat cs)])"
    by (rule Cons.IH [OF m1(2)]) (use Cons.prems in simp_all)
  then show ?case using m1(1) Cons.prems(2) by (simp del: of_nat_Suc)
qed simp

section \<open>The finished image\<close>

definition base_name :: "byte list \<Rightarrow> byte list" where
  "base_name arg = (case shortname arg of Inr name \<Rightarrow> name | Inl _ \<Rightarrow> [])"

definition proper :: "(byte list \<Rightarrow> byte list list option) \<Rightarrow> byte list \<Rightarrow> bool" where
  "proper rd arg \<longleftrightarrow> (\<exists>name. shortname arg = Inr name) \<and> rd arg \<noteq> None"

definition file_data :: "(byte list \<Rightarrow> byte list list option) \<Rightarrow> byte list \<Rightarrow> byte list" where
  "file_data rd arg = concat (the (rd arg))"

definition root_dir :: "byte list list \<Rightarrow> byte list" where
  "root_dir args = direntry 1 [46] @ direntry 1 [46, 46] @ concat (map (\<lambda>i. direntry (of_nat (i + 2)) (base_name (args ! i))) [0..<length args])"

definition image_files :: "(byte list \<Rightarrow> byte list list option) \<Rightarrow> byte list list \<Rightarrow> (u16 \<times> byte list) list" where
  "image_files rd args = (T_DIR, root_dir args) # map (\<lambda>a. (T_FILE, file_data rd a)) args"

lemma root_dir_snoc: "root_dir (args @ [a]) = root_dir args @ direntry (of_nat (length args + 2)) (base_name a)"
proof -
  have "map (\<lambda>i. direntry (of_nat (i + 2)) (base_name ((args @ [a]) ! i))) [0..<length args] = map (\<lambda>i. direntry (of_nat (i + 2)) (base_name (args ! i))) [0..<length args]"
    by (rule map_cong) (simp_all add: nth_append)
  note eq = this
  have u: "[0..<length (args @ [a])] = [0..<length args] @ [length args]" by simp
  show ?thesis unfolding root_dir_def u map_append eq concat_append by simp
qed

lemma image_files_snoc:
  "image_files rd (args @ [a]) = (image_files rd args)[0 := (T_DIR, root_dir args @ direntry (of_nat (length args + 2)) (base_name a))] @ [(T_FILE, file_data rd a)]"
  by (simp add: image_files_def root_dir_snoc)

lemma fits_prefix: "fits (image_files rd (args @ [a])) \<Longrightarrow> fits (image_files rd args)"
  by (erule fits_le) (auto simp: image_files_def root_dir_snoc nth_append nth_Cons split: nat.split)

lemma ucast_small: "n < 2 ^ 32 \<Longrightarrow> (ucast (of_nat n :: u32) :: u16) = of_nat n"
proof -
  assume "n < 2 ^ 32"
  then have "unat (of_nat n :: u32) = n" by (intro unat_of_nat_u32) simp
  moreover have "(of_nat (unat (of_nat n :: u32)) :: u16) = ucast (of_nat n :: u32)" by (rule of_nat_unat)
  ultimately show ?thesis by (simp only:)
qed

lemma add_file_holds:
  assumes "holds_files m (image_files rd args)" "proper rd a" "fits (image_files rd (args @ [a]))"
  shows "\<exists>m'. add_file rd 1 a m = Inr m' \<and> holds_files m' (image_files rd (args @ [a]))"
proof -
  let ?fs = "image_files rd args" and ?e = "direntry (of_nat (length args + 2)) (base_name a)"
  have l: "length args < 206" using assms(3) by (simp add: fits_def image_files_def)
  obtain name chunks where a: "shortname a = Inr name" "rd a = Some chunks" using assms(2) by (auto simp: proper_def)
  then have b: "base_name a = name" "file_data rd a = concat chunks" by (simp_all add: base_name_def file_data_def)
  obtain m1 where m1: "ialloc T_FILE m = Inr (of_nat (length args + 2), m1)" "holds_files m1 (?fs @ [(T_FILE, [])])"
    using ialloc_holds [OF assms(1), of T_FILE] l by (auto simp: image_files_def)
  let ?g = "(T_DIR, root_dir args @ ?e) # map (\<lambda>a. (T_FILE, file_data rd a)) args @ [(T_FILE, [])]"
  have "fits ?g" by (rule fits_le [OF assms(3)]) (auto simp: image_files_def root_dir_snoc nth_append nth_Cons split: nat.split)
  then have "\<exists>m2. iappend (of_nat (Suc 0)) ?e m1 = Inr m2 \<and> holds_files m2 ?g"
    using iappend_holds [OF m1(2), of 0 ?e] by (simp add: image_files_def)
  then obtain m2 where m2: "iappend 1 ?e m1 = Inr m2" "holds_files m2 ?g" by auto
  have j: "?g ! Suc (length args) = (T_FILE, [])" "Suc (length args) < length ?g" by (simp_all add: nth_append)
  have upd: "?g[Suc (length args) := (fst (?g ! Suc (length args)), snd (?g ! Suc (length args)) @ concat chunks)] = image_files rd (args @ [a])"
    unfolding j(1) by (simp add: image_files_def root_dir_snoc list_update_append b)
  have "\<exists>m3. mfold (iappend (of_nat (Suc (Suc (length args))))) chunks m2 = Inr m3 \<and> holds_files m3 (image_files rd (args @ [a]))"
    using append_chunks [OF m2(2) j(2), of chunks] assms(3) unfolding upd by blast
  moreover have "(ucast (of_nat (length args + 2) :: u32) :: u16) = of_nat (length args + 2)" using l by (intro ucast_small) simp
  ultimately show ?thesis using a m1(1) m2(1) b by (simp add: add_file_def)
qed

lemma add_files_hold:
  assumes "holds_files m (image_files rd [])" "\<forall>a\<in>set args. proper rd a" "fits (image_files rd args)"
  shows "\<exists>m'. mfold (add_file rd 1) args m = Inr m' \<and> holds_files m' (image_files rd args)"
  using assms(2,3)
proof (induction args rule: rev_induct)
  case (snoc a args)
  then obtain m1 where m1: "mfold (add_file rd 1) args m = Inr m1" "holds_files m1 (image_files rd args)"
    using fits_prefix by fastforce
  have "mfold f (xs @ [x]) s = rbind (mfold f xs s) (f x)" for f :: "byte list \<Rightarrow> mkfs \<Rightarrow> mkfs res" and xs x s
    by (induction xs arbitrary: s) (auto simp: rbind_def split: sum.splits)
  then show ?case using m1 add_file_holds [OF m1(2)] snoc.prems by simp
qed (use assms(1) in simp)

text \<open>The image as the kernel reads it: \<^term>\<open>get_dinode\<close> decodes an inode, and the blocks of a file are found as by
  \<^term>\<open>buffer_map\<close>.\<close>

definition img_inode :: "byte list list \<Rightarrow> nat \<Rightarrow> inode" where
  "img_inode im i = get_dinode (im ! (2 + LOGSIZE + i div INODE_PER_BLOCK)) (64 * (i mod INODE_PER_BLOCK)) inode0"

definition img_block :: "byte list list \<Rightarrow> inode \<Rightarrow> nat \<Rightarrow> nat" where
  "img_block im ip f = unat (if f < NDIRECT then i_addresses ip ! f else get32 (im ! unat (i_addresses ip ! NDIRECT)) (4 * (f - NDIRECT)))"

definition img_byte :: "byte list list \<Rightarrow> inode \<Rightarrow> nat \<Rightarrow> byte" where
  "img_byte im ip k = im ! img_block im ip (k div BUFFER_SIZE) ! (k mod BUFFER_SIZE)"

lemma img_inode_fields:
  "i_type (img_inode im i) = d_type (dinode_at im i)" "i_num_link (img_inode im i) = d_num_link (dinode_at im i)"
  "i_size (img_inode im i) = d_size (dinode_at im i)" "i_addresses (img_inode im i) = d_addresses (dinode_at im i)"
  by (simp_all add: img_inode_def get_dinode_def dinode_at_def dinode_get_def get_addresses_def)

lemma img_block_layout:
  assumes "layout im fb (i_addresses ip) bs ib c" "f < length bs" "fb \<le> FSSIZE"
  shows "img_block im ip f = bs ! f"
proof -
  note L = assms(1) [unfolded layout_def]
  have "bs ! f \<in> used bs ib" using assms(2) by (simp add: used_def)
  then have "bs ! f < FSSIZE" using L assms(3) by auto
  then have u: "unat (of_nat (bs ! f) :: u32) = bs ! f" by (intro unat_of_nat_u32) simp
  show ?thesis
  proof (cases "f < NDIRECT")
    case True
    then show ?thesis using L assms(2) u by (simp add: img_block_def recorded_def)
  next
    case False
    then obtain b where b: "ib = Some b" using L assms(2) by (cases ib) (auto simp: recorded_def)
    then have "b < FSSIZE" using L assms(3) by (auto simp: used_def)
    then have "unat (of_nat b :: u32) = b" by (intro unat_of_nat_u32) simp
    moreover have "f - NDIRECT < NINDIRECT" "NDIRECT + (f - NDIRECT) = f" using False assms(2) L by (auto simp: recorded_def)
    ultimately show ?thesis using False assms(2) L b u by (simp add: img_block_def recorded_def)
  qed
qed

lemma img_byte_layout:
  assumes "layout im fb (i_addresses ip) bs ib c" "fb \<le> FSSIZE" "k < length c"
  shows "img_byte im ip k = c ! k"
proof -
  have s: "stored im bs c" using assms(1) by (simp add: layout_def)
  then have "k < BUFFER_SIZE * length bs" using assms(3) by (simp add: stored_def)
  moreover from this have "k div BUFFER_SIZE < length bs" by (simp add: less_mult_imp_div_less mult.commute)
  ultimately show ?thesis using s assms(3) img_block_layout [OF assms(1) _ assms(2)] by (simp add: img_byte_def stored_def)
qed

lemma bitmap_bits:
  assumes "n \<le> BUFFER_SIZE * 8"
  shows "length (foldl (\<lambda>buf i. buf[i div 8 := buf ! (i div 8) OR push_bit (i mod 8) 1]) zeroes [0..<n]) = BUFFER_SIZE
    \<and> (\<forall>b<BUFFER_SIZE * 8. bit (foldl (\<lambda>buf i. buf[i div 8 := buf ! (i div 8) OR push_bit (i mod 8) 1]) zeroes [0..<n] ! (b div 8)) (b mod 8) \<longleftrightarrow> b < n)"
  using assms
proof (induction n)
  case 0
  have "zeroes ! (b div 8) = 0" if "b < BUFFER_SIZE * 8" for b using that by (simp add: zeroes_def)
  then show ?case by simp
next
  case (Suc n)
  let ?d = "foldl (\<lambda>buf i. buf[i div 8 := buf ! (i div 8) OR push_bit (i mod 8) 1]) zeroes [0..<n]"
  from Suc have IH: "length ?d = BUFFER_SIZE" "\<And>b. b < BUFFER_SIZE * 8 \<Longrightarrow> bit (?d ! (b div 8)) (b mod 8) \<longleftrightarrow> b < n" by auto
  have "bit (?d[n div 8 := ?d ! (n div 8) OR push_bit (n mod 8) 1] ! (b div 8)) (b mod 8) \<longleftrightarrow> b < Suc n" if b: "b < BUFFER_SIZE * 8" for b
  proof (cases "b div 8 = n div 8")
    case True
    have "n div 8 < BUFFER_SIZE" using Suc.prems by simp
    moreover have "b mod 8 = n mod 8 \<longleftrightarrow> b = n" using True by (metis div_mult_mod_eq)
    moreover have "bit (push_bit (n mod 8) 1 :: byte) (b mod 8) \<longleftrightarrow> b mod 8 = n mod 8" by (simp add: bit_simps)
    moreover have "bit (?d ! (n div 8)) (b mod 8) \<longleftrightarrow> b < n" using IH(2) [OF b] True by simp
    ultimately show ?thesis using True IH(1) by (auto simp: bit_or_iff less_Suc_eq)
  next
    case False
    then have "b \<noteq> n" by auto
    then show ?thesis using False IH(2) [OF b] by (simp add: less_Suc_eq)
  qed
  then show ?case using IH(1) by simp
qed

lemma superblock_words: "k < 8 \<Longrightarrow> get32 (superblock_bytes s zeroes) (4 * k) =
    [sb_magic s, sb_size s, sb_num_block s, sb_num_log s, sb_log_start s, sb_num_inodes s, sb_inode_start s, sb_bitmap_start s] ! k"
  using get32_put_words [of k 8 0 zeroes] by (simp add: superblock_bytes_def)

lemma superblock_list: "map (\<lambda>k. get32 (superblock_bytes s zeroes) (4 * k)) [0..<8] =
    [sb_magic s, sb_size s, sb_num_block s, sb_num_log s, sb_log_start s, sb_num_inodes s, sb_inode_start s, sb_bitmap_start s]"
  by (rule nth_equalityI) (simp_all add: superblock_words)

text \<open>The last two steps, on the image of all the files.\<close>

lemma finish_image:
  assumes "img_inv m F" "F \<noteq> []"
  shows "\<exists>m'. rbind (fix_root 1 m) (\<lambda>m. balloc (freeblock m) m) = Inr m' \<and> length (img m') = FSSIZE \<and>
    (\<forall>b<FSSIZE. length (img m' ! b) = BUFFER_SIZE) \<and> img m' ! 1 = superblock_bytes mk_superblock zeroes \<and>
    (\<forall>i<length F. let ip = img_inode (img m') (Suc i); x = F ! i in
       i_type ip = a_type x \<and> i_num_link ip = 1 \<and>
       i_size ip = of_nat (if i = 0 then (length (a_data x) div BUFFER_SIZE + 1) * BUFFER_SIZE else length (a_data x)) \<and>
       layout (img m') (taken F) (i_addresses ip) (a_blocks x) (a_ind x) (a_data x) \<and> length (a_blocks x) = blocks (length (a_data x))) \<and>
    (\<forall>b<BUFFER_SIZE * 8. bit (img m' ! (nmeta - 1) ! (b div 8)) (b mod 8) \<longleftrightarrow> b < taken F)"
proof -
  note I = assms(1) [unfolded img_inv_def]
  let ?d = "dinode_at (img m) 1" and ?n = "length (a_data (F ! 0))"
  let ?s = "(of_nat ?n div of_nat BUFFER_SIZE + 1) * of_nat BUFFER_SIZE :: u32"
  have im: "im_ok (img m) (taken F)" "length (img m) = FSSIZE" using I by (simp_all add: im_ok_def)
  have at0: "file_at (img m) (taken F) 1 (F ! 0)" using I assms(2) by (metis One_nat_def length_greater_0_conv)
  note A0 = file_atD [OF at0]
  have la: "length (d_addresses ?d) = 13" using A0(1) by (simp add: layout_def recorded_def)
  have n: "?n \<le> BUFFER_SIZE * MAXFILE" using A0(1) by (auto simp: layout_def recorded_def stored_def)
  then have un: "unat (of_nat ?n :: u32) = ?n" by (intro unat_of_nat_u32) simp
  have "(of_nat ?n :: u32) div of_nat BUFFER_SIZE = of_nat (?n div BUFFER_SIZE)"
    using n by (simp add: word_unat_eq_iff unat_div un unat_of_nat)
  then have size: "?s = of_nat ((?n div BUFFER_SIZE + 1) * BUFFER_SIZE)" by simp
  let ?im1 = "set_dinode 1 (?d\<lparr>d_size := ?s\<rparr>) (img m)"
  let ?bm = "foldl (\<lambda>buf i. buf[i div 8 := buf ! (i div 8) OR push_bit (i mod 8) 1]) zeroes [0..<taken F]"
  let ?m = "m\<lparr>img := ?im1[nmeta - 1 := ?bm]\<rparr>"
  have one: "(1 :: u32) = of_nat 1" by simp
  have fix1: "fix_root 1 m = Inr (m\<lparr>img := ?im1\<rparr>)"
    using rinode_at [of 1 m] winode_at [of 1 m "?d\<lparr>d_size := ?s\<rparr>"] I im(2) A0(3) unfolding fix_root_def one Let_def by simp
  have t: "taken F \<le> FSSIZE" "unat (freeblock m) = taken F" using I im(1) by (auto simp: im_ok_def intro: unat_of_nat_u32)
  have l1: "length ?im1 = FSSIZE" by (simp add: set_dinode_def Let_def im)
  have "sb_bitmap_start (msb m) = of_nat (nmeta - 1)" using I by (simp add: mk_superblock_def)
  then have run: "rbind (fix_root 1 m) (\<lambda>m. balloc (freeblock m) m) = Inr ?m"
    using t l1 wsect_of_nat [of "nmeta - 1" "m\<lparr>img := ?im1\<rparr>" ?bm] by (simp add: fix1 balloc_def)
  have bm: "length ?bm = BUFFER_SIZE" "\<forall>b<BUFFER_SIZE * 8. bit (?bm ! (b div 8)) (b mod 8) \<longleftrightarrow> b < taken F"
    using bitmap_bits [of "taken F"] t(1) by simp_all
  have "im_ok ?im1 (taken F)" using im_ok_set_dinode [OF im(1)] by simp
  then have lens: "\<forall>b<FSSIZE. length (img ?m ! b) = BUFFER_SIZE" using bm(1) l1 by (simp add: im_ok_def nth_list_update)
  have frame: "img ?m ! b = img m ! b" if "nmeta \<le> b \<or> b = 1" for b using that set_dinode_other [of b 1 "?d\<lparr>d_size := ?s\<rparr>" "img m"] by auto
  have dj: "dinode_at (img ?m) (Suc i) = (if i = 0 then ?d\<lparr>d_size := ?s\<rparr> else dinode_at (img m) (Suc i))" if "i < length F" for i
  proof -
    have i: "Suc i < 208" using that I by linarith
    have "dinode_at (img ?m) (Suc i) = dinode_at ?im1 (Suc i)" using inode_block_range [OF i] by (simp add: dinode_at_def)
    then show ?thesis using dinode_at_set_dinode [OF im(1) i, of 1 "?d\<lparr>d_size := ?s\<rparr>"] la by auto
  qed
  have each: "let ip = img_inode (img ?m) (Suc i); x = F ! i in
       i_type ip = a_type x \<and> i_num_link ip = 1 \<and>
       i_size ip = of_nat (if i = 0 then (length (a_data x) div BUFFER_SIZE + 1) * BUFFER_SIZE else length (a_data x)) \<and>
       layout (img ?m) (taken F) (i_addresses ip) (a_blocks x) (a_ind x) (a_data x) \<and> length (a_blocks x) = blocks (length (a_data x))"
    if i: "i < length F" for i
  proof -
    have at: "file_at (img m) (taken F) (Suc i) (F ! i)" using I i by blast
    have "layout (img ?m) (taken F) (d_addresses (dinode_at (img m) (Suc i))) (a_blocks (F ! i)) (a_ind (F ! i)) (a_data (F ! i))"
    proof (rule layout_same [OF file_atD(1) [OF at]])
      show "img ?m ! b = img m ! b" if "b \<in> used (a_blocks (F ! i)) (a_ind (F ! i))" for b using frame [of b] file_atD(4) [OF at] that by fastforce
    qed simp
    then show ?thesis using at dj [OF i] size unfolding Let_def img_inode_fields by (auto simp: file_at_def Let_def)
  qed
  have "length (img ?m) = FSSIZE" "img ?m ! 1 = superblock_bytes mk_superblock zeroes" using l1 frame [of 1] I by simp_all
  moreover have "\<forall>b<BUFFER_SIZE * 8. bit (img ?m ! (nmeta - 1) ! (b div 8)) (b mod 8) \<longleftrightarrow> b < taken F" using bm(2) l1 by simp
  ultimately show ?thesis using run each lens by blast
qed

text \<open>What the kernel finds on an image of the files \<open>fs\<close>, the first of which is the root directory.\<close>

definition image_ok :: "byte list list \<Rightarrow> (u16 \<times> byte list) list \<Rightarrow> bool" where
  "image_ok im fs \<longleftrightarrow> length im = FSSIZE \<and> (\<forall>b<FSSIZE. length (im ! b) = BUFFER_SIZE) \<and>
    map (\<lambda>k. get32 (im ! 1) (4 * k)) [0..<8] = [FSMAGIC, 1000, 954, 30, 2, 200, 32, 45] \<and>
    (\<forall>i<length fs. let ip = img_inode im (i + 1); c = snd (fs ! i) in
       i_type ip = fst (fs ! i) \<and> i_num_link ip = 1 \<and>
       i_size ip = of_nat (if i = 0 then (length c div BUFFER_SIZE + 1) * BUFFER_SIZE else length c) \<and>
       length c \<le> MAXFILE * BUFFER_SIZE \<and>
       (\<forall>k<length c. img_byte im ip k = c ! k \<and> (NDIRECT \<le> k div BUFFER_SIZE \<longrightarrow> unat (i_addresses ip ! NDIRECT) \<in> {nmeta..<FSSIZE}) \<and>
          (let b = img_block im ip (k div BUFFER_SIZE) in b \<in> {nmeta..<FSSIZE} \<and> bit (im ! 45 ! (b div 8)) (b mod 8))))"

text \<open>The root directory before the first file.\<close>

lemma root_holds:
  assumes "fits (image_files rd args)"
  obtains m1 m2 m3 where "ialloc T_DIR mk_start = Inr (1, m1)" "iappend 1 (direntry 1 [46]) m1 = Inr m2"
    "iappend 1 (direntry 1 [46, 46]) m2 = Inr m3" "holds_files m3 (image_files rd [])"
proof -
  have small: "fits fs" if "length fs = 1" "length (snd (fs ! 0)) \<le> length (root_dir args)" for fs
    by (rule fits_le [OF assms]) (use that in \<open>auto simp: image_files_def less_Suc_eq_0_disj\<close>)
  have "holds_files mk_start []" using start_img_inv by (auto simp: holds_files_def)
  from ialloc_holds [OF this, of T_DIR] obtain m1 where m1: "ialloc T_DIR mk_start = Inr (1, m1)" "holds_files m1 [(T_DIR, [])]" by auto
  have "\<exists>m2. iappend (of_nat (Suc 0)) (direntry 1 [46]) m1 = Inr m2 \<and> holds_files m2 [(T_DIR, direntry 1 [46])]"
    using iappend_holds [OF m1(2), of 0 "direntry 1 [46]"] small by (simp add: root_dir_def)
  then obtain m2 where m2: "iappend 1 (direntry 1 [46]) m1 = Inr m2" "holds_files m2 [(T_DIR, direntry 1 [46])]" by auto
  have "\<exists>m3. iappend (of_nat (Suc 0)) (direntry 1 [46, 46]) m2 = Inr m3 \<and> holds_files m3 (image_files rd [])"
    using iappend_holds [OF m2(2), of 0 "direntry 1 [46, 46]"] small by (simp add: root_dir_def image_files_def)
  then obtain m3 where "iappend 1 (direntry 1 [46, 46]) m2 = Inr m3" "holds_files m3 (image_files rd [])" by auto
  then show thesis using that m1(1) m2(1) by blast
qed

lemma layout_marked:
  assumes L: "layout im n (i_addresses ip) bs ib c" and n: "n \<le> FSSIZE"
    and bits: "\<And>b. b < BUFFER_SIZE * 8 \<Longrightarrow> bit (im ! (nmeta - 1) ! (b div 8)) (b mod 8) \<longleftrightarrow> b < n"
    and k: "k < length c" "b = img_block im ip (k div BUFFER_SIZE)"
  shows "b \<in> {nmeta..<FSSIZE}" "bit (im ! 45 ! (b div 8)) (b mod 8)"
    "NDIRECT \<le> k div BUFFER_SIZE \<Longrightarrow> unat (i_addresses ip ! NDIRECT) \<in> {nmeta..<FSSIZE}"
proof -
  have "k < BUFFER_SIZE * length bs" using L k(1) by (simp add: layout_def stored_def)
  then have f: "k div BUFFER_SIZE < length bs" by (simp add: less_mult_imp_div_less mult.commute)
  then have "b \<in> used bs ib" using img_block_layout [OF L f n] k(2) by (simp add: used_def)
  then have b: "nmeta \<le> b" "b < n" using L by (auto simp: layout_def)
  show "b \<in> {nmeta..<FSSIZE}" using b n by simp
  show "bit (im ! 45 ! (b div 8)) (b mod 8)" using bits [of b] b(2) n by simp
  assume "NDIRECT \<le> k div BUFFER_SIZE"
  with f obtain x where x: "ib = Some x" "i_addresses ip ! NDIRECT = of_nat x"
    using L by (cases ib) (auto simp: layout_def recorded_def)
  then have "x \<in> {nmeta..<n}" using L by (auto simp: layout_def used_def)
  then show "unat (i_addresses ip ! NDIRECT) \<in> {nmeta..<FSSIZE}" using n unat_of_nat_u32 [of x] by (simp add: x(2))
qed

lemma makefs_image:
  assumes "fits (image_files rd args)" "\<forall>a\<in>set args. proper rd a"
  obtains m where "makefs rd args = Inr m" "image_ok (img m) (image_files rd args)"
proof -
  let ?fs = "image_files rd args"
  obtain m1 m2 m3 where m3: "ialloc T_DIR mk_start = Inr (1, m1)" "iappend 1 (direntry 1 [46]) m1 = Inr m2"
    "iappend 1 (direntry 1 [46, 46]) m2 = Inr m3" "holds_files m3 (image_files rd [])" by (rule root_holds [OF assms(1)])
  obtain m4 where m4: "mfold (add_file rd 1) args m3 = Inr m4" "holds_files m4 ?fs" using add_files_hold [OF m3(4) assms(2,1)] by blast
  then obtain F where F: "img_inv m4 F" "map (\<lambda>x. (a_type x, a_data x)) F = ?fs" by (auto simp: holds_files_def)
  then have lF: "length F = length ?fs" "F \<noteq> []" by (auto simp: image_files_def dest: arg_cong [of _ _ length])
  have Fi: "fst (?fs ! i) = a_type (F ! i)" "snd (?fs ! i) = a_data (F ! i)" if "i < length F" for i using that by (simp_all flip: F(2))
  have t: "taken F \<le> FSSIZE" using F(1) by (simp add: img_inv_def im_ok_def)
  obtain m where m: "rbind (fix_root 1 m4) (\<lambda>m. balloc (freeblock m) m) = Inr m" "length (img m) = FSSIZE" "img m ! 1 = superblock_bytes mk_superblock zeroes"
    and lens: "\<forall>b<FSSIZE. length (img m ! b) = BUFFER_SIZE"
    and each: "\<And>i. i < length F \<Longrightarrow> let ip = img_inode (img m) (Suc i); x = F ! i in
       i_type ip = a_type x \<and> i_num_link ip = 1 \<and>
       i_size ip = of_nat (if i = 0 then (length (a_data x) div BUFFER_SIZE + 1) * BUFFER_SIZE else length (a_data x)) \<and>
       layout (img m) (taken F) (i_addresses ip) (a_blocks x) (a_ind x) (a_data x) \<and> length (a_blocks x) = blocks (length (a_data x))"
    and bits: "\<And>b. b < BUFFER_SIZE * 8 \<Longrightarrow> bit (img m ! (nmeta - 1) ! (b div 8)) (b mod 8) \<longleftrightarrow> b < taken F"
    using finish_image [OF F(1) lF(2)] by blast
  have run: "makefs rd args = Inr m" using m3(1-3) m4(1) m(1) by (simp add: makefs_def)
  have words: "map (\<lambda>k. get32 (img m ! 1) (4 * k)) [0..<8] = [FSMAGIC, 1000, 954, 30, 2, 200, 32, 45]"
    unfolding m(3) superblock_list by (simp add: mk_superblock_def)
  have "let ip = img_inode (img m) (i + 1); c = snd (?fs ! i) in
       i_type ip = fst (?fs ! i) \<and> i_num_link ip = 1 \<and>
       i_size ip = of_nat (if i = 0 then (length c div BUFFER_SIZE + 1) * BUFFER_SIZE else length c) \<and>
       length c \<le> MAXFILE * BUFFER_SIZE \<and>
       (\<forall>k<length c. img_byte (img m) ip k = c ! k \<and>
          (NDIRECT \<le> k div BUFFER_SIZE \<longrightarrow> unat (i_addresses ip ! NDIRECT) \<in> {nmeta..<FSSIZE}) \<and>
          (let b = img_block (img m) ip (k div BUFFER_SIZE) in b \<in> {nmeta..<FSSIZE} \<and> bit (img m ! 45 ! (b div 8)) (b mod 8)))"
    if "i < length ?fs" for i
  proof -
    have i: "i < length F" using that lF(1) by simp
    note E = each [OF i, unfolded Let_def]
    then have L: "layout (img m) (taken F) (i_addresses (img_inode (img m) (Suc i))) (a_blocks (F ! i)) (a_ind (F ! i)) (a_data (F ! i))" by blast
    have "length (a_data (F ! i)) \<le> MAXFILE * BUFFER_SIZE" using assms(1) that by (auto simp: fits_def simp flip: Fi(2) [OF i])
    with E show ?thesis using img_byte_layout [OF L t] layout_marked [OF L t bits _ refl] unfolding Let_def Fi [OF i] by simp
  qed
  then have "image_ok (img m) ?fs" using m(2) lens words unfolding image_ok_def by blast
  then show thesis using that run by blast
qed

text \<open>(C7) When the files fit on the disk, \<^verbatim>\<open>makefs\<close> succeeds and the image is what the kernel expects: the superblock
  describes the layout, inode 1 is the root directory with an entry for every file, inode \<open>i + 2\<close> is the \<open>i\<close>-th file with
  its size, one link and exactly its bytes behind the direct and indirect addresses, and every block that a file uses
  lies behind the metadata and is marked in the bitmap.\<close>

theorem makefs_builds_image:
  assumes "fits (image_files rd args)" "\<forall>a\<in>set args. proper rd a"
  shows "\<exists>m. makefs rd args = Inr m \<and> length (img m) = FSSIZE \<and>
    map (\<lambda>k. get32 (img m ! 1) (4 * k)) [0..<8] = [FSMAGIC, 1000, 954, 30, 2, 200, 32, 45] \<and>
    (\<forall>i<length args + 1. let ip = img_inode (img m) (i + 1); c = snd (image_files rd args ! i) in
       i_type ip = fst (image_files rd args ! i) \<and> i_num_link ip = 1 \<and>
       i_size ip = of_nat (if i = 0 then (length c div BUFFER_SIZE + 1) * BUFFER_SIZE else length c) \<and>
       (\<forall>k<length c. img_byte (img m) ip k = c ! k \<and>
          (let b = img_block (img m) ip (k div BUFFER_SIZE) in nmeta \<le> b \<and> bit (img m ! 45 ! (b div 8)) (b mod 8))))"
proof -
  obtain m where m: "makefs rd args = Inr m" "image_ok (img m) (image_files rd args)" by (rule makefs_image [OF assms])
  have "length (image_files rd args) = length args + 1" by (simp add: image_files_def)
  with m show ?thesis unfolding image_ok_def Let_def by (intro exI [of _ m]) auto
qed

definition host_w :: "byte list \<Rightarrow> byte list list option" where
  "host_w arg = (if arg = [95, 97] then Some [[72, 105], [33]] else None)"

lemma host_w_image:
  "image_files host_w [[95, 97]] = [(T_DIR, direntry 1 [46] @ direntry 1 [46, 46] @ direntry 2 [97]), (T_FILE, [72, 105, 33])]"
  "length (direntry 1 [46]) = 16" "length (direntry 1 [46, 46]) = 16" "length (direntry 2 [97]) = 16"
  by (simp_all add: image_files_def root_dir_def file_data_def host_w_def base_name_def shortname_def) (simp_all add: direntry_def)

lemma host_w_fits: "fits (image_files host_w [[95, 97]])" "\<forall>a\<in>set [[95, 97]]. proper host_w a"
  by (simp add: fits_def need_def blocks_def host_w_image) (simp add: proper_def host_w_def shortname_def)

theorem makefs_builds_image_witness:
  "\<exists>m. makefs host_w [[95, 97]] = Inr m \<and> i_size (img_inode (img m) 2) = 3 \<and> img_byte (img m) (img_inode (img m) 2) 2 = 33
     \<and> img_byte (img m) (img_inode (img m) 1) 34 = 97"
proof -
  note e = host_w_image(1) and l = host_w_image(2-4)
  obtain m where m: "makefs host_w [[95, 97]] = Inr m"
    "\<forall>i<length [[95, 97 :: byte]] + 1. let ip = img_inode (img m) (i + 1); c = snd (image_files host_w [[95, 97]] ! i) in
       i_type ip = fst (image_files host_w [[95, 97]] ! i) \<and> i_num_link ip = 1 \<and>
       i_size ip = of_nat (if i = 0 then (length c div BUFFER_SIZE + 1) * BUFFER_SIZE else length c) \<and>
       (\<forall>k<length c. img_byte (img m) ip k = c ! k \<and>
          (let b = img_block (img m) ip (k div BUFFER_SIZE) in nmeta \<le> b \<and> bit (img m ! 45 ! (b div 8)) (b mod 8)))"
    using makefs_builds_image [OF host_w_fits] by blast
  from m(2) [rule_format, of 1] m(2) [rule_format, of 0] have "i_size (img_inode (img m) 2) = 3" "img_byte (img m) (img_inode (img m) 2) 2 = 33"
    "img_byte (img m) (img_inode (img m) 1) 34 = (direntry 1 [46] @ direntry 1 [46, 46] @ direntry 2 [97]) ! 34"
    by (simp_all add: e l Let_def numeral_2_eq_2)
  moreover have "(direntry 1 [46] @ direntry 1 [46, 46] @ direntry 2 [97]) ! 34 = 97" by (simp add: nth_append l) (simp add: direntry_def nth_append)
  ultimately show ?thesis using m(1) by auto
qed

end
