(* ===== verification/Mount.thy ===== *)
theory Mount
  imports Mkfs
begin

text \<open>
  From the image builder to the kernel: what \<^verbatim>\<open>filesys_init\<close>, \<^verbatim>\<open>name_inode\<close>, \<^verbatim>\<open>inode_lock\<close> and \<^verbatim>\<open>read_inode\<close> of
  \<^verbatim>\<open>kernel/filesys.c\<close> find on a disk that \<^verbatim>\<open>makefs.c\<close> has written. The state at boot is that of \<^verbatim>\<open>enter\<close> before the
  first process: zeroed memory behind \<^verbatim>\<open>buffer_init\<close> and \<^verbatim>\<open>inode_init\<close>.
\<close>

unbundle bit_operations_syntax

section \<open>Mounting\<close>

definition boot_fs :: "(u32 \<Rightarrow> byte list) \<Rightarrow> fs" where
  "boot_fs d = inode_init \<lparr>cache = buffer_init (zero_cache d),
     sb = \<lparr>sb_magic = 0, sb_size = 0, sb_num_block = 0, sb_num_log = 0, sb_log_start = 0, sb_num_inodes = 0,
       sb_inode_start = 0, sb_bitmap_start = 0\<rparr>,
     log = \<lparr>log_start = 0, log_commit = False, log_dev = 0, log_size = 0, num_syscalls = 0, log_count = 0,
       log_block = replicate LOGSIZE 0\<rparr>,
     inode_table = replicate NUMINODE inode0\<rparr>"

text \<open>A state in which every block can be read, as \<open>v\<close>, and the inodes start at the block that \<^verbatim>\<open>makefs\<close> gives them.\<close>

definition serves :: "(u32 \<Rightarrow> byte list) \<Rightarrow> fs \<Rightarrow> bool" where
  "serves v s \<longleftrightarrow> cache_ok (cache s) \<and> (\<forall>b. readable (cache s) b) \<and> view (cache s) = v \<and> sb_inode_start (sb s) = 32"

definition holds_image :: "byte list list \<Rightarrow> (u32 \<Rightarrow> byte list) \<Rightarrow> bool" where
  "holds_image im v \<longleftrightarrow> (\<forall>b. length (v b) = BUFFER_SIZE) \<and> (\<forall>b<FSSIZE. b \<noteq> 2 \<longrightarrow> v (of_nat b) = im ! b)"

lemma mount_serves:
  assumes "image_ok im fs" "\<forall>b. length (d b) = BUFFER_SIZE" "\<forall>b<FSSIZE. d (of_nat b) = im ! b"
  obtains s v where "filesys_init pid ROOTDEV (boot_fs d) = Inr s" "serves v s" "holds_image im v"
    "inode_table s = inode_table (boot_fs d)"
proof -
  let ?s = "boot_fs d"
  have c0: "cache ?s = buffer_init (zero_cache d)" "log_count (log ?s) = 0" by (simp_all add: boot_fs_def inode_init_def)
  have ok: "cache_ok (cache ?s)" "\<And>b. readable (cache ?s) b" "view (cache ?s) = d" by (simp_all add: c0 fresh_cache fun_eq_iff)
  have one: "d 1 = im ! 1" using assms(3) [rule_format, of 1] by simp
  have "map (\<lambda>k. get32 (d 1) (4 * k)) [0..<8] = [FSMAGIC, 1000, 954, 30, 2, 200, 32, 45]"
    using assms(1) by (simp add: image_ok_def one)
  then have w: "get32 (d 1) 0 = FSMAGIC" "get32 (d 1) 16 = 2" "get32 (d 1) 24 = 32"
    by (auto dest: arg_cong [of _ _ "\<lambda>xs. xs ! 0"] arg_cong [of _ _ "\<lambda>xs. xs ! 4"] arg_cong [of _ _ "\<lambda>xs. xs ! 6"])
  obtain c where c: "buffer_fetch pid 1 (cache ?s) = Inr (d 1, c)" "cache_ok c" "view c = d" "\<And>b. readable c b"
    using buffer_fetch_spec [OF ok(1,2), of pid 1] ok(2,3) by metis
  then obtain b c1 where r: "buffer_read pid ROOTDEV 1 (cache ?s) = Inr (b, c1)" "buffer_release pid b c1 = Inr c" "d 1 = b_data (bufs c1 ! b)"
    by (auto simp: buffer_fetch_def rbind_eq_Inr)
  define s1 where "s1 = ?s\<lparr>sb := \<lparr>sb_magic = get32 (d 1) 0, sb_size = get32 (d 1) 4, sb_num_block = get32 (d 1) 8,
            sb_num_log = get32 (d 1) 12, sb_log_start = get32 (d 1) 16, sb_num_inodes = get32 (d 1) 20,
            sb_inode_start = get32 (d 1) 24, sb_bitmap_start = get32 (d 1) 28\<rparr>, cache := c\<rparr>"
  have rs: "read_superblock pid ROOTDEV ?s = Inr s1"
    using r by (simp add: read_superblock_def bread_def brelse_def bdata_def s1_def Let_def)
  have s1: "cache s1 = c" "log_count (log s1) = 0" "sb_log_start (sb s1) = 2" "sb_magic (sb s1) = FSMAGIC" "sb_inode_start (sb s1) = 32"
    "inode_table s1 = inode_table ?s"
    using w c0(2) by (simp_all add: s1_def)
  obtain c' where c': "init_log pid ROOTDEV s1 = Inr (s1\<lparr>log := (log s1)\<lparr>log_start := 2, log_size := sb_size (sb s1), log_dev := ROOTDEV\<rparr>, cache := c'\<rparr>)"
    "cache_ok c'" "\<And>b. readable c b \<Longrightarrow> readable c' b" "view c' = d(2 := put32 0 0 (d 2))"
    by (rule init_log_spec [where s = s1 and pid = pid, unfolded s1(1,3) c(3)]) (use c s1 in auto)
  have "b = 2" if "(of_nat b :: u32) = 2" "b < FSSIZE" for b
    using that unat_of_nat_u32 [of b] by (auto dest: arg_cong [of _ _ unat])
  then have "holds_image im (d(2 := put32 0 0 (d 2)))" using assms(2,3) by (auto simp: holds_image_def)
  moreover define s2 where "s2 = s1\<lparr>log := (log s1)\<lparr>log_start := 2, log_size := sb_size (sb s1), log_dev := ROOTDEV\<rparr>, cache := c'\<rparr>"
  then have "serves (d(2 := put32 0 0 (d 2))) s2" "inode_table s2 = inode_table ?s"
    using c'(2-4) c(4) s1(5,6) by (simp_all add: serves_def)
  moreover have "filesys_init pid ROOTDEV ?s = Inr s2" using rs s1(4) c'(1) by (simp add: filesys_init_def s2_def)
  ultimately show thesis using that by blast
qed

section \<open>The inodes and files of an image\<close>

lemma holds_image_block:
  assumes "holds_image im v" "unat a \<in> {nmeta..<FSSIZE}"
  shows "v a = im ! unat a"
proof -
  have "v (of_nat (unat a)) = im ! unat a" using assms by (auto simp: holds_image_def)
  then show ?thesis by simp
qed

lemma image_file:
  assumes "image_ok im fs" "holds_image im v" "view (cache s) = v" "i < length fs" "c = snd (fs ! i)"
    and as: "i_addresses (inode_table s ! n) = i_addresses (img_inode im (i + 1))"
  shows "mapped s n (length c)" "k < length c \<Longrightarrow> file_byte s n k = c ! k"
proof -
  let ?ip = "img_inode im (i + 1)"
  note I = assms(1) [unfolded image_ok_def Let_def, THEN conjunct2, THEN conjunct2, THEN conjunct2, rule_format, OF assms(4), folded assms(5)]
  have ind: "unat (i_addresses ?ip ! NDIRECT) \<in> {nmeta..<FSSIZE}" if "k < length c" "NDIRECT \<le> k div BUFFER_SIZE" for k
    using I that by blast
  have blk: "unat (block_addr s n (k div BUFFER_SIZE)) = img_block im ?ip (k div BUFFER_SIZE)" if "k < length c" for k
  proof (cases "k div BUFFER_SIZE < NDIRECT")
    case False
    then have "v (i_addresses ?ip ! NDIRECT) = im ! unat (i_addresses ?ip ! NDIRECT)"
      using ind [OF that] by (intro holds_image_block [OF assms(2)]) simp
    then show ?thesis using False by (simp add: block_addr_def img_block_def as assms(3) Let_def)
  qed (simp add: block_addr_def img_block_def as Let_def)
  have rng: "unat (block_addr s n (k div BUFFER_SIZE)) \<in> {nmeta..<FSSIZE}" if "k < length c" for k
    using I that blk [OF that] by auto
  have nz: "a \<noteq> 0" if "unat a \<in> {nmeta..<FSSIZE}" for a :: u32 using that by auto
  show "mapped s n (length c)"
    unfolding mapped_def as using I nz [OF rng] nz [OF ind] by blast
  assume k: "k < length c"
  have "file_byte s n k = im ! img_block im ?ip (k div BUFFER_SIZE) ! (k mod BUFFER_SIZE)"
    using holds_image_block [OF assms(2) rng [OF k]] by (simp add: file_byte_def assms(3) blk [OF k])
  also have "\<dots> = c ! k" using I k by (simp add: img_byte_def)
  finally show "file_byte s n k = c ! k" .
qed

text \<open>A table entry that \<^verbatim>\<open>inode_lock\<close> has filled from inode \<open>j\<close> of the image.\<close>

definition loaded :: "int \<Rightarrow> byte list list \<Rightarrow> nat \<Rightarrow> inode \<Rightarrow> bool" where
  "loaded pid im j ip \<longleftrightarrow> i_type ip = i_type (img_inode im j) \<and> i_num_link ip = i_num_link (img_inode im j) \<and>
     i_size ip = i_size (img_inode im j) \<and> i_addresses ip = i_addresses (img_inode im j) \<and> i_dev ip = ROOTDEV \<and>
     i_inode_num ip = of_nat j \<and> i_refcount ip = 1 \<and> i_valid ip = 1 \<and> is_holding_sleeplock pid (i_lock ip)"

lemma image_inode_place:
  assumes "j < 208" "sb_inode_start (sb s) = 32"
  shows "iblock (of_nat j) s = of_nat (32 + j div INODE_PER_BLOCK)" "dinode_off (of_nat j) = 64 * (j mod INODE_PER_BLOCK)"
proof -
  have u: "unat (of_nat j :: u32) = j" using assms(1) by (intro unat_of_nat_u32) simp
  have "(of_nat j :: u32) div of_nat INODE_PER_BLOCK = of_nat (j div INODE_PER_BLOCK)"
    using assms(1) by (simp add: word_unat_eq_iff unat_div u unat_of_nat)
  then show "iblock (of_nat j) s = of_nat (32 + j div INODE_PER_BLOCK)" by (simp add: iblock_def assms(2))
  show "dinode_off (of_nat j) = 64 * (j mod INODE_PER_BLOCK)" by (simp add: dinode_off_def u)
qed

lemma lock_image_inode:
  assumes "serves v s" "holds_image im v" "j < 208" "i_type (img_inode im j) \<noteq> 0"
    and ip: "ip = inode_table s ! i" "i < length (inode_table s)" "i_refcount ip = 1" "slocked (i_lock ip) = 0" "i_valid ip = 0"
      "i_dev ip = ROOTDEV" "i_inode_num ip = of_nat j"
  obtains s' ip' where "inode_lock pid i s = Inr s'" "serves v s'" "inode_table s' = (inode_table s)[i := ip']" "loaded pid im j ip'"
proof -
  let ?b = "iblock (i_inode_num ip) s" and ?p = "dinode_off (i_inode_num ip)"
  note sv = assms(1) [unfolded serves_def]
  have pl: "?b = of_nat (32 + j div INODE_PER_BLOCK)" "?p = 64 * (j mod INODE_PER_BLOCK)"
    using image_inode_place [OF assms(3), of s] sv by (simp_all add: ip(7))
  have "j div INODE_PER_BLOCK < 13" using assms(3) by (simp add: less_mult_imp_div_less)
  then have d: "view (cache s) ?b = im ! (32 + j div INODE_PER_BLOCK)"
    using assms(2) [unfolded holds_image_def, THEN conjunct2, rule_format, of "32 + j div INODE_PER_BLOCK"] sv unfolding pl(1) by simp
  let ?k = "(i_lock ip)\<lparr>slocked := 1, sl_process_id := pid\<rparr>" and ?d = "view (cache s) ?b"
  have ty: "get16 ?d ?p \<noteq> 0" using assms(4) by (simp add: img_inode_def get_dinode_def d pl(2))
  obtain c where c: "cache_ok c" "view c = view (cache s)" "\<And>b. readable (cache s) b \<Longrightarrow> readable c b"
    "inode_lock pid i s = (if get16 ?d ?p = 0 then Inl (Panic ''no type in inode_lock'')
      else Inr (s\<lparr>inode_table := (inode_table s)[i := (get_dinode ?d ?p ip)\<lparr>i_lock := ?k, i_valid := 1\<rparr>], cache := c\<rparr>))"
    by (rule inode_lock_spec [OF _ _ ip(1,2) _ ip(4,5,6) refl refl refl]) (use sv ip(3) in auto)
  have "loaded pid im j ((get_dinode ?d ?p ip)\<lparr>i_lock := ?k, i_valid := 1\<rparr>)"
    using ip(3,6,7) unfolding d pl(2) by (simp add: loaded_def img_inode_def get_dinode_def get_addresses_def is_holding_sleeplock_def)
  moreover have "serves v (s\<lparr>inode_table := (inode_table s)[i := (get_dinode ?d ?p ip)\<lparr>i_lock := ?k, i_valid := 1\<rparr>], cache := c\<rparr>)"
    using sv c(1-3) by (simp add: serves_def)
  ultimately show thesis using that c(4) ty by simp
qed

section \<open>The root directory\<close>

lemma inode_get_first:
  assumes "i < NUMINODE" "i_refcount (inode_table s ! i) = 0" "\<forall>j<i. i_refcount (inode_table s ! j) \<noteq> 0"
    and "\<forall>j<NUMINODE. \<not> holds_id dev inum (inode_table s ! j)"
  shows "inode_get dev inum s = Inr (i, upd_inode i (\<lambda>ip. ip\<lparr>i_dev := dev, i_inode_num := inum, i_refcount := 1, i_valid := 0\<rparr>) s)"
proof -
  have "find (\<lambda>i. holds_id dev inum (inode_table s ! i)) [0..<NUMINODE] = None" using assms(4) by (auto simp: find_None_iff)
  moreover have "find (\<lambda>i. i_refcount (inode_table s ! i) = 0) [0..<NUMINODE] = Some i"
    using assms(1-3) by (auto simp: find_Some_iff intro!: exI [of _ i])
  ultimately show ?thesis by (simp add: inode_get_def iget_scan_spec)
qed

lemma length_direntry [simp]: "length (direntry n nm) = 16" by (simp add: direntry_def)

lemma direntry_inum: "get16 (direntry n nm) 0 = n"
proof -
  have "get16 (direntry n nm) 0 = get16 (put16 0 n [0, 0]) 0" by (rule get16_cong) (auto simp: direntry_def nth_append)
  then show ?thesis by (simp add: get16_put16_same)
qed

lemma direntry_matches: "entry_matches name (direntry n nm) \<longleftrightarrow> n \<noteq> 0 \<and> cname DIRSIZE name = cname DIRSIZE nm"
proof -
  have "drop 2 (direntry n nm) = take DIRSIZE (nm @ replicate DIRSIZE 0)" by (simp add: direntry_def)
  moreover have tw: "takeWhile (\<lambda>c. c \<noteq> 0) nm = nm" if "\<forall>c\<in>set nm. c \<noteq> 0" using that by (simp add: takeWhile_eq_all_conv)
  have "cname DIRSIZE (take DIRSIZE (nm @ replicate DIRSIZE 0)) = cname DIRSIZE nm"
    by (cases "DIRSIZE \<le> length nm") (auto simp: cname_def takeWhile_append tw)
  ultimately show ?thesis by (simp add: entry_matches_def direntry_inum)
qed

text \<open>The entries of the root directory, the first of which are for \<^verbatim>\<open>.\<close> and \<^verbatim>\<open>..\<close>.\<close>

definition root_entry :: "byte list list \<Rightarrow> nat \<Rightarrow> byte list" where
  "root_entry args k = (if k = 0 then direntry 1 [46] else if k = 1 then direntry 1 [46, 46] else direntry (of_nat k) (base_name (args ! (k - 2))))"

lemma root_dir_entries: "root_dir args = concat (map (root_entry args) [0..<length args + 2])"
proof -
  have u: "[0..<length args + 2] = 0 # 1 # map (\<lambda>i. i + 2) [0..<length args]"
    by (rule nth_equalityI) (auto simp: nth_Cons split: nat.splits simp del: upt_Suc)
  show ?thesis unfolding root_dir_def u by (simp add: root_entry_def comp_def)
qed

lemma nth_concat_same:
  assumes "\<And>x. x \<in> set xs \<Longrightarrow> length x = n" "k < length xs" "i < n"
  shows "concat xs ! (n * k + i) = xs ! k ! i"
  using assms
proof (induction xs arbitrary: k)
  case (Cons x xs)
  then show ?case by (cases k) (auto simp: nth_append algebra_simps)
qed simp

lemma root_dir_nth: "k < length args + 2 \<Longrightarrow> i < 16 \<Longrightarrow> root_dir args ! (16 * k + i) = root_entry args k ! i"
  and root_dir_length: "length (root_dir args) = 16 * (length args + 2)"
proof -
  have l: "length (root_entry args k) = 16" for k by (simp add: root_entry_def)
  show "k < length args + 2 \<Longrightarrow> i < 16 \<Longrightarrow> root_dir args ! (16 * k + i) = root_entry args k ! i"
    using nth_concat_same [of "map (root_entry args) [0..<length args + 2]" 16 k i] l by (auto simp: root_dir_entries simp del: upt_Suc)
  show "length (root_dir args) = 16 * (length args + 2)"
    by (simp add: root_dir_entries length_concat comp_def l sum_list_triv del: upt_Suc)
qed

lemma first_matchI:
  assumes "k < length es" "entry_matches name (es ! k)" "\<forall>j<k. \<not> entry_matches name (es ! j)"
  shows "first_match name es = Some k"
proof (cases "first_match name es")
  case None
  then show ?thesis using assms(1,2) by (auto simp: first_match_None)
next
  case (Some j)
  from first_match_Some [OF this] assms(2,3) have "j = k" by (meson linorder_neqE_nat)
  with Some show ?thesis by simp
qed

text \<open>The name of the \<open>i\<close>-th file, when no earlier entry has the same one, and no slash or NUL is in it.\<close>

definition names_file :: "byte list list \<Rightarrow> nat \<Rightarrow> byte list \<Rightarrow> bool" where
  "names_file args i name \<longleftrightarrow> i < length args \<and> name \<noteq> [] \<and> SLASH \<notin> set name \<and> 0 \<notin> set name \<and>
     cname DIRSIZE (base_name (args ! i)) = cname DIRSIZE name \<and> (\<forall>j<i. cname DIRSIZE (base_name (args ! j)) \<noteq> cname DIRSIZE name) \<and>
     cname DIRSIZE name \<noteq> [46] \<and> cname DIRSIZE name \<noteq> [46, 46]"

lemma root_match:
  assumes "names_file args i name" "length args \<le> 206" "cname DIRSIZE name' = cname DIRSIZE name"
    and "length args + 2 \<le> length es" "\<And>k. k < length args + 2 \<Longrightarrow> es ! k = root_entry args k"
  shows "first_match name' es = Some (i + 2)" "get16 (es ! (i + 2)) 0 = of_nat (i + 2)"
proof -
  note N = assms(1) [unfolded names_file_def]
  have dots: "cname DIRSIZE [46] = [46]" "cname DIRSIZE [46, 46] = [46, 46]" by (simp_all add: cname_def)
  have nz: "(of_nat k :: u16) \<noteq> 0" if "0 < k" "k \<le> 208" for k
    using that by (simp add: word_unat_eq_iff unat_of_nat)
  have "entry_matches name' (es ! k) \<longleftrightarrow> k = i + 2" if "k \<le> i + 2" for k
  proof -
    have k: "k < length args + 2" "k \<le> 208" using that N assms(2) by linarith+
    consider "k = 0" | "k = 1" | j where "k = j + 2" by (metis One_nat_def add_2_eq_Suc' less_2_cases not_less_eq_eq numeral_2_eq_2 old.nat.exhaust)
    then show ?thesis
    proof cases
      case 3
      have "cname DIRSIZE name = cname DIRSIZE (base_name (args ! j)) \<longleftrightarrow> j = i"
        using N that 3 by (metis add_le_cancel_right le_neq_implies_less)
      then show ?thesis using assms(5) [OF k(1)] nz [of k] k(2) 3 by (simp add: root_entry_def direntry_matches assms(3))
    qed (use N assms(3) assms(5) [OF k(1)] in \<open>auto simp: root_entry_def direntry_matches dots\<close>)
  qed
  then show "first_match name' es = Some (i + 2)" using N assms(4) by (intro first_matchI) auto
  show "get16 (es ! (i + 2)) 0 = of_nat (i + 2)"
    using assms(5) [of "i + 2"] N by (simp add: root_entry_def direntry_inum)
qed

lemma root_ready:
  assumes im: "image_ok im (image_files rd args)" "holds_image im v" and s: "serves v s" "loaded pid im 1 (inode_table s ! n)"
    and sz: "(length args + 2) mod 64 \<noteq> 0" "length args \<le> 206"
  shows "dir_ready n s" "i_type (inode_table s ! n) = DIR_TYPE" "length args + 2 \<le> unat (i_size (inode_table s ! n)) div 16"
    "\<And>k. k < length args + 2 \<Longrightarrow> entry_at s n k = root_entry args k"
proof -
  let ?c = "root_dir args" and ?L = "16 * (length args + 2)"
  have f0: "0 < length (image_files rd args)" "snd (image_files rd args ! 0) = ?c" "fst (image_files rd args ! 0) = T_DIR"
    by (simp_all add: image_files_def)
  note I = im(1) [unfolded image_ok_def Let_def, THEN conjunct2, THEN conjunct2, THEN conjunct2, rule_format, OF f0(1), unfolded f0(2,3)]
  note L = s(2) [unfolded loaded_def]
  have as: "i_addresses (inode_table s ! n) = i_addresses (img_inode im (0 + 1))" using L by simp
  have vw: "view (cache s) = v" using s(1) by (simp add: serves_def)
  note F = image_file [OF im vw f0(1) f0(2) [symmetric] as]
  show "i_type (inode_table s ! n) = DIR_TYPE" using I L by simp
  let ?S = "(?L div BUFFER_SIZE + 1) * BUFFER_SIZE"
  have small: "?L \<le> 3328" using sz(2) by simp
  have "i_size (inode_table s ! n) = of_nat ?S" using I L by (simp add: root_dir_length)
  moreover have "?S < 2 ^ 32" using small by simp
  ultimately have size: "unat (i_size (inode_table s ! n)) = ?S" using unat_of_nat_u32 [of ?S] by simp
  have nd: "?L mod BUFFER_SIZE \<noteq> 0" using sz(1) mult_mod_right [of 16 "length args + 2" 64] by simp
  have "mapped s n ?S"
    unfolding mapped_def
  proof (intro conjI allI impI)
    show "?S \<le> MAXFILE * BUFFER_SIZE" using small by simp
    fix k assume "k < ?S"
    then have q: "k div BUFFER_SIZE \<le> ?L div BUFFER_SIZE" by (metis Suc_eq_plus1 less_Suc_eq_le less_mult_imp_div_less)
    have "BUFFER_SIZE * (k div BUFFER_SIZE) \<le> BUFFER_SIZE * (?L div BUFFER_SIZE)" using q by (rule mult_le_mono2)
    also have "\<dots> < ?L" using nd mult_div_mod_eq [of BUFFER_SIZE ?L] by linarith
    finally have "BUFFER_SIZE * (k div BUFFER_SIZE) < length ?c" by (simp only: root_dir_length)
    from mapped_block [OF F(1) this] show "block_addr s n (k div BUFFER_SIZE) \<noteq> 0"
      "NDIRECT \<le> k div BUFFER_SIZE \<Longrightarrow> i_addresses (inode_table s ! n) ! NDIRECT \<noteq> 0" by simp_all
  qed
  moreover have "?S mod 16 = 0" using mod_mult_right_eq [of "?L div BUFFER_SIZE + 1" "16 * 64" 16] by (simp add: mod_mult_left_eq)
  ultimately show "dir_ready n s"
    using s(1) L im(2) unfolding dir_ready_def size serves_def holds_image_def by blast
  have "?L \<le> ?S" using dividend_less_div_times [of BUFFER_SIZE ?L] by simp
  then show "length args + 2 \<le> unat (i_size (inode_table s ! n)) div 16" unfolding size by (metis div_le_mono nonzero_mult_div_cancel_left zero_neq_numeral)
  fix k assume k: "k < length args + 2"
  show "entry_at s n k = root_entry args k"
  proof (rule nth_equalityI)
    show "length (entry_at s n k) = length (root_entry args k)" by (simp add: entry_at_def root_entry_def)
    fix i assume "i < length (entry_at s n k)"
    then have i: "i < 16" by (simp add: entry_at_def)
    then have "16 * k + i < length ?c" using k by (simp add: root_dir_length)
    from F(2) [OF this] show "entry_at s n k ! i = root_entry args k ! i" using root_dir_nth [OF k i] i by (simp add: entry_at_def)
  qed
qed

lemma root_lookup:
  assumes "image_ok im (image_files rd args)" "holds_image im v" "serves v s" "loaded pid im 1 (inode_table s ! n)"
    and "(length args + 2) mod 64 \<noteq> 0" "length args \<le> 206"
    and "names_file args i name" "cname DIRSIZE name' = cname DIRSIZE name" "length de = 16"
  obtains s' where "serves v s'" "inode_table s' = inode_table s"
    "dir_lookup de pid n name' s = rbind (inode_get ROOTDEV (of_nat (i + 2)) s') (\<lambda>(ip, s). Inr (Some (ip, of_nat (16 * (i + 2))), s))"
proof -
  note R = root_ready [OF assms(1-6)]
  define es where "es = map (entry_at s n) [0..<unat (i_size (inode_table s ! n)) div 16]"
  have es: "length args + 2 \<le> length es" "\<And>k. k < length args + 2 \<Longrightarrow> es ! k = root_entry args k"
    using R(3,4) by (simp_all add: es_def)
  note M = root_match [OF assms(7,6,8) es]
  obtain s' where s': "dir_ready n s'" "same_disk s s'" "dir_lookup de pid n name' s =
    (case first_match name' es of None \<Rightarrow> Inr (None, s')
     | Some k \<Rightarrow> rbind (inode_get ROOTDEV (ucast (get16 (es ! k) 0)) s') (\<lambda>(i, s). Inr (Some (i, of_nat (16 * k)), s)))"
    using dir_lookup_spec [OF R(1,2) assms(9) es_def, of pid name'] by blast
  have "i + 2 \<le> 208" using assms(6,7) by (simp add: names_file_def)
  then have "ucast (of_nat (i + 2) :: u16) = (of_nat (i + 2) :: u32)"
    by (simp only: unsigned_of_nat) (simp add: take_bit_nat_eq_self)
  then show thesis
    using s' M assms(3) by (intro that [of s']) (auto simp: same_disk_def dir_ready_def serves_def)
qed

section \<open>From a path to the bytes of a file\<close>

lemma skip_one_elem:
  assumes "names_file args i name"
  obtains name' where "skip_elem below (SLASH # name) nm = Some ([], name')" "cname DIRSIZE name' = cname DIRSIZE name"
proof -
  note N = assms [unfolded names_file_def]
  have dw: "dropWhile (\<lambda>c. c = SLASH) name = name" "dropWhile (\<lambda>c. c \<noteq> SLASH) name = []"
    using N by (cases name, auto simp: dropWhile_eq_Nil_conv)
  have sk: "skip_elem below (SLASH # name) nm = Some ([], if DIRSIZE \<le> length name
      then take DIRSIZE name @ (if below then [byte0 (drop DIRSIZE name)] else drop DIRSIZE nm) else name @ 0 # drop (Suc (length name)) nm)"
    using N by (simp add: skip_elem_def Let_def dw)
  show thesis
  proof (rule that [OF sk], cases "DIRSIZE \<le> length name")
    case True
    then show "cname DIRSIZE (if DIRSIZE \<le> length name
      then take DIRSIZE name @ (if below then [byte0 (drop DIRSIZE name)] else drop DIRSIZE nm) else name @ 0 # drop (Suc (length name)) nm) = cname DIRSIZE name"
      using cname_full [of name DIRSIZE] cname_full [of name DIRSIZE "drop DIRSIZE name"] N by (simp only: if_True append_take_drop_id simp_thms)
  next
    case False
    then have short: "cname DIRSIZE name = name" using N by (simp add: cname_def takeWhile_eq_all_conv) blast
    from False show "cname DIRSIZE (if DIRSIZE \<le> length name
      then take DIRSIZE name @ (if below then [byte0 (drop DIRSIZE name)] else drop DIRSIZE nm) else name @ 0 # drop (Suc (length name)) nm) = cname DIRSIZE name"
      using cname_short [of name DIRSIZE] short N by simp
  qed
qed

lemma serves_upd [simp]: "serves v (upd_inode i f s) \<longleftrightarrow> serves v s"
  by (simp add: serves_def upd_inode_def)

lemma boot_table: "length (inode_table (boot_fs d)) = NUMINODE"
  "j < NUMINODE \<Longrightarrow> i_refcount (inode_table (boot_fs d) ! j) = 0" "j < NUMINODE \<Longrightarrow> slocked (i_lock (inode_table (boot_fs d) ! j)) = 0"
  by (simp_all add: boot_fs_def inode_init_def inode0_def initsleeplock_def)

text \<open>The search for a file in the root directory ends in entry 1 of the inode table, which \<^verbatim>\<open>inode_get\<close> has just set up
  for it, and gives entry 0, the directory, back.\<close>

lemma name_inode_finds:
  assumes im: "image_ok im (image_files rd args)" "holds_image im v" and s: "serves v s" "inode_table s = inode_table (boot_fs d)"
    and sz: "(length args + 2) mod 64 \<noteq> 0" "length args \<le> 206" and nm: "names_file args i name" "length de = 16"
  obtains s' where "name_inode below past de nm pid cwd (SLASH # name) s = Inr (Some 1, s')" "serves v s'"
    "length (inode_table s') = NUMINODE" "i_refcount (inode_table s' ! 1) = 1" "slocked (i_lock (inode_table s' ! 1)) = 0"
    "i_valid (inode_table s' ! 1) = 0" "i_dev (inode_table s' ! 1) = ROOTDEV" "i_inode_num (inode_table s' ! 1) = of_nat (i + 2)"
proof -
  let ?g = "\<lambda>inum ip. ip\<lparr>i_dev := ROOTDEV, i_inode_num := inum, i_refcount := 1, i_valid := 0\<rparr>"
  note T = boot_table [where d = d, folded s(2)]
  have free: "\<not> holds_id dev inum (inode_table s ! j)" if "j < NUMINODE" for j dev inum using that T(2) by (simp add: holds_id_def)
  have g1: "inode_get ROOTDEV ROOTING s = Inr (0, upd_inode 0 (?g 1) s)" by (rule inode_get_first) (use free T(2) in auto)
  have ty: "i_type (img_inode im 1) = T_DIR" "i_num_link (img_inode im 1) = 1"
    using im(1) [unfolded image_ok_def Let_def, THEN conjunct2, THEN conjunct2, THEN conjunct2, rule_format, of 0] by (simp_all add: image_files_def)
  obtain s3 ip0 where s3: "inode_lock pid 0 (upd_inode 0 (?g 1) s) = Inr s3" "serves v s3"
    "inode_table s3 = (inode_table (upd_inode 0 (?g 1) s))[0 := ip0]" "loaded pid im 1 ip0"
    by (rule lock_image_inode [where s = "upd_inode 0 (?g 1) s" and i = 0 and j = 1 and pid = pid, OF _ im(2) _ _ refl])
      (use s(1) T ty in \<open>auto simp: upd_inode_def serves_def\<close>)
  have t3: "inode_table s3 = (inode_table s)[0 := ip0]" using s3(3) by (simp add: upd_inode_def)
  have ld: "loaded pid im 1 (inode_table s3 ! 0)" using s3(4) T(1) by (simp add: t3)
  obtain name' where nm': "skip_elem below (SLASH # name) nm = Some ([], name')" "cname DIRSIZE name' = cname DIRSIZE name"
    by (rule skip_one_elem [OF nm(1)])
  obtain s4 where s4: "serves v s4" "inode_table s4 = inode_table s3" "dir_lookup de pid 0 name' s3
      = rbind (inode_get ROOTDEV (of_nat (i + 2)) s4) (\<lambda>(ip, s). Inr (Some (ip, of_nat (16 * (i + 2))), s))"
    by (rule root_lookup [OF im s3(2) ld sz nm(1) nm'(2) nm(2)])
  have "i + 2 \<le> 208" using nm(1) sz(2) by (simp add: names_file_def)
  then have "unat (of_nat (i + 2) :: u32) \<noteq> unat (1 :: u32)" using unat_of_nat_u32 [of "i + 2"] by (simp del: of_nat_add)
  then have "(of_nat (i + 2) :: u32) \<noteq> 1" by metis
  then have g2: "inode_get ROOTDEV (of_nat (i + 2)) s4 = Inr (1, upd_inode 1 (?g (of_nat (i + 2))) s4)"
    using free T(1,2) s3(4) by (intro inode_get_first) (auto simp: s4(2) t3 nth_list_update holds_id_def loaded_def)
  define s5 where "s5 = upd_inode 1 (?g (of_nat (i + 2))) s4"
  have lk: "dir_lookup de pid 0 name' s3 = Inr (Some (1, of_nat (16 * (i + 2))), s5)" unfolding s4(3) g2 s5_def by simp
  define s6 where "s6 = upd_inode 0 (\<lambda>ip. ip\<lparr>i_lock := release_sleeplock (i_lock ip)\<rparr>) s5"
  define s7 where "s7 = upd_inode 0 (\<lambda>ip. ip\<lparr>i_refcount := i_refcount ip - 1\<rparr>) s6"
  have t5: "inode_table s5 ! 0 = ip0" using T(1) by (simp add: s5_def upd_inode_def s4(2) t3)
  have un: "inode_unlock pid 0 s5 = Inr s6" using s3(4) by (simp add: inode_unlock_def t5 loaded_def s6_def)
  have "i_num_link (inode_table s6 ! 0) \<noteq> 0"
    using s3(4) T(1) ty(2) by (simp add: s6_def s5_def upd_inode_def s4(2) t3 loaded_def)
  then have pt: "inode_put past pid 0 s6 = Inr s7" by (simp add: inode_put_def s7_def)
  have "name_inode below past de nm pid cwd (SLASH # name) s = Inr (Some 1, s7)"
    unfolding name_inode_def name_fetch_def name_fetch_loop.simps [of _ _ _ _ _ "SLASH # name"]
    using ld ty(1) by (simp add: byte0_def g1 nm'(1) s3(1) lk un pt loaded_def) (simp add: name_fetch_loop.simps skip_elem_def)
  moreover have "serves v s7" using s4(1) by (simp add: s7_def s6_def s5_def)
  moreover have "length (inode_table s7) = NUMINODE" "inode_table s7 ! 1 = ?g (of_nat (i + 2)) (inode_table s ! 1)"
    using T(1) by (simp_all add: s7_def s6_def s5_def upd_inode_def s4(2) t3)
  ultimately show thesis using that T(3) [of 1] by simp
qed

lemma image_read:
  assumes im: "image_ok im (image_files rd args)" and d: "\<forall>b. length (d b) = BUFFER_SIZE" "\<forall>b<FSSIZE. d (of_nat b) = im ! b"
    and sz: "(length args + 2) mod 64 \<noteq> 0" "length args \<le> 206" and nm: "names_file args i name" "length de = 16"
    and c: "c = file_data rd (args ! i)" "k = min (unat n) (length c)"
  obtains s1 s2 s3 s4 where "filesys_init pid ROOTDEV (boot_fs d) = Inr s1"
    "name_inode below past de nm pid cwd (SLASH # name) s1 = Inr (Some 1, s2)" "inode_lock pid 1 s2 = Inr s3"
    "read_inode (store_run poke) pid 1 dst 0 n (s3, u) = Inr (int k, s4, \<lambda>x. if unat (x - dst) < k then c ! unat (x - dst) else u x)"
proof -
  have i: "i < length args" using nm(1) by (simp add: names_file_def)
  let ?fs = "image_files rd args"
  have f: "i + 1 < length ?fs" "snd (?fs ! (i + 1)) = c" "fst (?fs ! (i + 1)) = T_FILE" using i c(1) by (simp_all add: image_files_def)
  note I = im [unfolded image_ok_def Let_def, THEN conjunct2, THEN conjunct2, THEN conjunct2, rule_format, OF f(1), unfolded f(2,3)]
  obtain s1 v where s1: "filesys_init pid ROOTDEV (boot_fs d) = Inr s1" "serves v s1" "holds_image im v" "inode_table s1 = inode_table (boot_fs d)"
    by (rule mount_serves [OF im d])
  obtain s2 where s2: "name_inode below past de nm pid cwd (SLASH # name) s1 = Inr (Some 1, s2)" "serves v s2"
    "length (inode_table s2) = NUMINODE" "i_refcount (inode_table s2 ! 1) = 1" "slocked (i_lock (inode_table s2 ! 1)) = 0"
    "i_valid (inode_table s2 ! 1) = 0" "i_dev (inode_table s2 ! 1) = ROOTDEV" "i_inode_num (inode_table s2 ! 1) = of_nat (i + 2)"
    by (rule name_inode_finds [OF im s1(3,2,4) sz nm])
  obtain s3 ip where s3: "inode_lock pid 1 s2 = Inr s3" "serves v s3" "inode_table s3 = (inode_table s2)[1 := ip]" "loaded pid im (i + 2) ip"
    by (rule lock_image_inode [OF s2(2) s1(3), where j = "i + 2" and i = 1 and pid = pid, OF _ _ refl])
      (use s2 i sz(2) I in \<open>auto simp: numeral_2_eq_2\<close>)
  have ip: "inode_table s3 ! 1 = ip" using s2(3) s3(3) by simp
  have L: "i_size ip = of_nat (length c)" "i_addresses ip = i_addresses (img_inode im (i + 1 + 1))" "i_dev ip = ROOTDEV"
    using s3(4) I by (simp_all add: loaded_def numeral_2_eq_2)
  have len: "length c \<le> 274432" using I by simp
  then have size: "unat (i_size ip) = length c" using unat_of_nat_u32 [of "length c"] by (simp add: L(1))
  have vw: "view (cache s3) = v" using s3(2) by (simp add: serves_def)
  note F = image_file [OF im s1(3) vw f(1) f(2) [symmetric], of 1, unfolded ip, OF L(2)]
  have km: "k = min (unat n) (unat (i_size (inode_table s3 ! 1)) - unat (0 :: u32))" unfolding ip size c(2) by simp
  have mp: "mapped s3 1 (unat (0 :: u32) + k)" using mapped_mono [OF F(1)] c(2) by simp
  obtain ch where "read_inode (store_run poke) pid 1 dst 0 n (s3, u) = Inr (int k, s3\<lparr>cache := ch\<rparr>,
      \<lambda>x. if unat (x - dst) < k then file_byte s3 1 (unat (0 :: u32) + unat (x - dst)) else u x)"
    using read_inode_spec [OF _ _ _ _ _ _ km mp, of pid dst u] s3(2) s1(3) L(3) ip unat_less_2_32 [of n]
    by (auto simp: serves_def holds_image_def)
  moreover have "(if unat (x - dst) < k then file_byte s3 1 (unat (0 :: u32) + unat (x - dst)) else u x)
      = (if unat (x - dst) < k then c ! unat (x - dst) else u x)" for x
    using F(2) [of "unat (x - dst)"] c(2) by simp
  ultimately show thesis using that s1(1) s2(1) s3(1) by simp
qed

text \<open>The disk with an image on it.\<close>

definition disk_of :: "byte list list \<Rightarrow> u32 \<Rightarrow> byte list" where
  "disk_of im b = (if unat b < length im then im ! unat b else zeroes)"

lemma disk_of_image:
  assumes "image_ok im fs"
  shows "\<forall>b. length (disk_of im b) = BUFFER_SIZE" "\<forall>b<FSSIZE. disk_of im (of_nat b) = im ! b"
  using assms by (auto simp: image_ok_def disk_of_def unat_of_nat_u32)

end
