(* ===== verification/Umalloc.thy ===== *)
theory Umalloc
  imports Machine_Mem
begin

text \<open>
  The allocator of the user programs, \<^verbatim>\<open>user/malloc.c\<close>: the circular list of free blocks of Kernighan and Ritchie. A header is
  eight bytes, a pointer and a size in units of eight bytes; the store of the headers is a pair of maps from the address
  of a header to its fields. \<^verbatim>\<open>sbrk\<close> is the system call as a process sees it: the break, and whether the kernel has the
  memory for the next calls. The scan for the place of a block and the search for one are \<^theory_text>\<open>partial_function (option)\<close>, since on
  a list that is no ring they need not end.
\<close>

section \<open>The program\<close>

record heap =
  hptr :: "u32 \<Rightarrow> u32"
  hsize :: "u32 \<Rightarrow> u32"
  freep :: u32

definition set_ptr :: "u32 \<Rightarrow> u32 \<Rightarrow> heap \<Rightarrow> heap" where
  "set_ptr a v h = h\<lparr>hptr := (hptr h)(a := v)\<rparr>"

definition set_size :: "u32 \<Rightarrow> u32 \<Rightarrow> heap \<Rightarrow> heap" where
  "set_size a v h = h\<lparr>hsize := (hsize h)(a := v)\<rparr>"

record brk_state =
  brk :: u32
  room :: "bool list"

definition sbrk :: "u32 \<Rightarrow> brk_state \<Rightarrow> u32 \<times> brk_state" where
  "sbrk n s =
     (case room s of
        True # r \<Rightarrow>
          if sint n < 0 \<or> unat (brk s) + unat n < 4294967296 then (brk s, s\<lparr>brk := brk s + n, room := r\<rparr>)
          else (- 1, s\<lparr>room := r\<rparr>)
      | _ \<Rightarrow> (- 1, s\<lparr>room := tl (room s)\<rparr>))"

text \<open>\<^verbatim>\<open>for (p = freep; !(bp > p && bp < p->s.ptr); p = p->s.ptr) if (p >= p->s.ptr && (bp > p || bp < p->s.ptr)) break;\<close>\<close>

partial_function (option) free_scan :: "heap \<Rightarrow> u32 \<Rightarrow> u32 \<Rightarrow> u32 option" where
  "free_scan h bp p =
     (if bp > p \<and> bp < hptr h p then Some p
      else if p \<ge> hptr h p \<and> (bp > p \<or> bp < hptr h p) then Some p
      else free_scan h bp (hptr h p))"

definition join_upper :: "u32 \<Rightarrow> u32 \<Rightarrow> heap \<Rightarrow> heap" where
  "join_upper bp p h =
     (if bp + 8 * hsize h bp = hptr h p then
        set_ptr bp (hptr h (hptr h p)) (set_size bp (hsize h bp + hsize h (hptr h p)) h)
      else set_ptr bp (hptr h p) h)"

definition join_lower :: "u32 \<Rightarrow> u32 \<Rightarrow> heap \<Rightarrow> heap" where
  "join_lower bp p h =
     (if p + 8 * hsize h p = bp then set_ptr p (hptr h bp) (set_size p (hsize h p + hsize h bp) h)
      else set_ptr p bp h)"

definition free :: "heap \<Rightarrow> u32 \<Rightarrow> heap option" where
  "free h ap =
     (let bp = ap - 8 in
      Option.bind (free_scan h bp (freep h)) (\<lambda>p. Some ((join_lower bp p (join_upper bp p h))\<lparr>freep := p\<rparr>)))"

definition morecore :: "u32 \<Rightarrow> heap \<Rightarrow> brk_state \<Rightarrow> (u32 \<times> heap \<times> brk_state) option" where
  "morecore nu h w =
     (let nu = (if nu < 4096 then 4096 else nu);
          (p, w) = sbrk (nu * 8) w
      in if p = - 1 then Some (0, h, w)
         else Option.bind (free (set_size p nu h) (p + 8)) (\<lambda>h. Some (freep h, h, w)))"

text \<open>A block that is large enough: all of it, or its upper end.\<close>

definition carve :: "u32 \<Rightarrow> u32 \<Rightarrow> u32 \<Rightarrow> heap \<Rightarrow> u32 \<times> heap" where
  "carve nunits prevp p h =
     (if hsize h p = nunits then (p + 8, (set_ptr prevp (hptr h p) h)\<lparr>freep := prevp\<rparr>)
      else
        (let h = set_size p (hsize h p - nunits) h;
             p = p + 8 * hsize h p;
             h = set_size p nunits h
         in (p + 8, h\<lparr>freep := prevp\<rparr>)))"

partial_function (option) malloc_loop :: "u32 \<Rightarrow> u32 \<Rightarrow> u32 \<Rightarrow> heap \<Rightarrow> brk_state \<Rightarrow> (u32 \<times> heap \<times> brk_state) option" where
  "malloc_loop nunits prevp p h w =
     (if hsize h p \<ge> nunits then (let (r, h) = carve nunits prevp p h in Some (r, h, w))
      else if p = freep h then
        Option.bind (morecore nunits h w) (\<lambda>(p, h, w).
          if p = 0 then Some (0, h, w) else malloc_loop nunits p (hptr h p) h w)
      else malloc_loop nunits p (hptr h p) h w)"

definition units :: "u32 \<Rightarrow> u32" where
  "units nbytes = (nbytes + 8 - 1) div 8 + 1"

text \<open>\<open>base\<close> is the address of the static header.\<close>

definition malloc :: "u32 \<Rightarrow> u32 \<Rightarrow> heap \<Rightarrow> brk_state \<Rightarrow> (u32 \<times> heap \<times> brk_state) option" where
  "malloc base nbytes h w =
     (let h = (if freep h = 0 then (set_size base 0 (set_ptr base base h))\<lparr>freep := base\<rparr> else h)
      in malloc_loop (units nbytes) (freep h) (hptr h (freep h)) h w)"

section \<open>The ring of free blocks\<close>

definition fin :: "heap \<Rightarrow> u32 \<Rightarrow> nat" where
  "fin h x = unat x + 8 * unat (hsize h x)"

fun links :: "(u32 \<Rightarrow> u32) \<Rightarrow> u32 list \<Rightarrow> u32 \<Rightarrow> bool" where
  "links f [] z = True"
| "links f (x # xs) z = (f x = hd (xs @ [z]) \<and> links f xs z)"

fun spaced :: "heap \<Rightarrow> u32 list \<Rightarrow> nat \<Rightarrow> bool" where
  "spaced h [] n = True"
| "spaced h (x # xs) n = (fin h x < hd (map unat xs @ [n]) \<and> spaced h xs n)"

text \<open>The free blocks in the order of their addresses: each points to the next and the last one to the first, the static header;
  between two blocks there is a gap; none reaches the end of memory. Only the static header is empty.\<close>

definition ring :: "u32 \<Rightarrow> heap \<Rightarrow> u32 list \<Rightarrow> bool" where
  "ring base h xs \<longleftrightarrow> xs \<noteq> [] \<and> hd xs = base \<and> base \<noteq> 0 \<and> links (hptr h) xs base \<and> spaced h xs 4294967296
     \<and> freep h \<in> set xs \<and> hsize h base = 0 \<and> (\<forall>x\<in>set xs. x \<noteq> base \<longrightarrow> hsize h x \<noteq> 0)"

definition area :: "heap \<Rightarrow> u32 list \<Rightarrow> nat set" where
  "area h xs = (\<Union>x\<in>set xs. {unat x..<fin h x})"

lemma links_append: "links f (xs @ ys) z \<longleftrightarrow> links f xs (hd (ys @ [z])) \<and> links f ys z"
  by (induction xs) (auto simp: hd_append)

lemma spaced_append: "spaced h (xs @ ys) n \<longleftrightarrow> spaced h xs (hd (map unat ys @ [n])) \<and> spaced h ys n"
  by (induction xs) (auto simp: hd_append)

lemma fin_ge: "unat x \<le> fin h x"
  by (simp add: fin_def)

lemma spaced_below: "spaced h xs n \<Longrightarrow> x \<in> set xs \<Longrightarrow> fin h x < n"
proof (induction xs arbitrary: x)
  case (Cons y ys)
  have "fin h y < n"
  proof (cases ys)
    case Nil
    then show ?thesis using Cons.prems by simp
  next
    case (Cons z zs)
    then show ?thesis using Cons.prems Cons.IH [of z] fin_ge [of z h] by simp
  qed
  then show ?case using Cons by auto
qed simp

lemma spaced_head: "spaced h (x # xs) n \<Longrightarrow> y \<in> set xs \<Longrightarrow> fin h x < unat y"
proof (induction xs arbitrary: x)
  case (Cons z zs)
  then have "fin h x < unat z" by simp
  moreover have "y \<noteq> z \<Longrightarrow> unat z < unat y" using Cons.IH [of z] Cons.prems fin_ge [of z h] by auto
  ultimately show ?case by (cases "y = z") auto
qed simp

lemma spaced_order: "spaced h (as @ x # bs) n \<Longrightarrow> y \<in> set as \<Longrightarrow> fin h y < unat x"
  unfolding spaced_append by (auto dest: spaced_below)

lemma spaced_distinct: "spaced h xs n \<Longrightarrow> distinct xs"
proof (induction xs)
  case (Cons x xs)
  then show ?case using spaced_head [of h x xs n x] fin_ge [of x h] by auto
qed simp

lemma links_cong: "(\<And>x. x \<in> set xs \<Longrightarrow> f x = g x) \<Longrightarrow> links f xs z = links g xs z"
  by (induction xs) auto

lemma links_upd [simp]: "q \<notin> set xs \<Longrightarrow> links (f(q := v)) xs z = links f xs z"
  by (rule links_cong) auto

lemma spaced_cong: "(\<And>x. x \<in> set xs \<Longrightarrow> hsize h x = hsize g x) \<Longrightarrow> spaced h xs n = spaced g xs n"
  by (induction xs) (auto simp: fin_def)

section \<open>Where a block goes\<close>

text \<open>The free block below an address and those above it.\<close>

lemma ring_split:
  assumes "ring base h xs" "unat base < unat bp" "bp \<notin> set xs"
  shows "\<exists>ls p rs. xs = ls @ p # rs \<and> unat p < unat bp \<and> (\<forall>x\<in>set ls. unat x < unat p) \<and> (\<forall>x\<in>set rs. unat bp < unat x)"
proof -
  have s: "spaced h xs 4294967296" "xs \<noteq> []" "hd xs = base" using assms(1) by (simp_all add: ring_def)
  have "\<exists>x\<in>set xs. unat x < unat bp" using s assms(2) hd_in_set by blast
  then obtain ls p rs where x: "xs = ls @ p # rs" "unat p < unat bp" "\<forall>x\<in>set rs. \<not> unat x < unat bp"
    by (rule split_list_last_propE)
  have "unat x < unat p" if "x \<in> set ls" for x using spaced_order [of h ls p rs] s(1) x(1) that fin_ge [of x h] by fastforce
  moreover have "unat bp < unat x" if "x \<in> set rs" for x
  proof -
    have "x \<noteq> bp" using that x(1) assms(3) by auto
    then show ?thesis using x(3) that by (auto simp: word_unat_eq_iff)
  qed
  ultimately show ?thesis using x(1,2) by blast
qed

lemma scan_below:
  assumes "links (hptr h) (ls @ p # rs) z" "\<forall>x\<in>set ls. unat x < unat p" "spaced h (ls @ [p]) n" "unat p < unat bp"
  shows "free_scan h bp (hd (ls @ [p])) = free_scan h bp p"
  using assms
proof (induction ls)
  case (Cons x ls)
  let ?y = "hd (ls @ [p])"
  have y: "hptr h x = ?y" using Cons.prems(1) by (cases ls) simp_all
  have "unat x < unat ?y" "unat ?y \<le> unat p"
    using Cons.prems(2,3) fin_ge [of x h] by (cases ls; fastforce)+
  then have "free_scan h bp x = free_scan h bp ?y"
    using y Cons.prems(4) by (subst free_scan.simps) (simp add: word_less_nat_alt word_le_nat_alt)
  moreover have "free_scan h bp ?y = free_scan h bp p" using Cons by simp
  ultimately show ?case by simp
qed simp

lemma scan_above:
  assumes "links (hptr h) rs z" "spaced h rs n" "\<forall>x\<in>set rs. unat bp < unat x" "unat z < unat bp" "x \<in> set rs"
  shows "free_scan h bp x = free_scan h bp z"
  using assms
proof (induction rs arbitrary: x)
  case (Cons y rs)
  have step: "free_scan h bp y = free_scan h bp z"
  proof (cases rs)
    case Nil
    then have "hptr h y = z" using Cons.prems(1) by simp
    then show ?thesis using Cons.prems(3,4) by (subst free_scan.simps) (simp add: word_less_nat_alt word_le_nat_alt)
  next
    case (Cons u us)
    then have u: "hptr h y = u" "unat y < unat u" using Cons.prems(1,2) fin_ge [of y h] by simp_all
    have "free_scan h bp y = free_scan h bp u"
      using u Cons.prems(3) by (subst free_scan.simps) (simp add: word_less_nat_alt word_le_nat_alt)
    then show ?thesis using Cons.IH [of u] Cons.prems Cons by simp
  qed
  then show ?case using Cons by auto
qed simp

lemma free_scan_ring:
  assumes "ring base h (ls @ p # rs)" "unat p < unat bp" "\<forall>x\<in>set ls. unat x < unat p" "\<forall>x\<in>set rs. unat bp < unat x"
  shows "free_scan h bp (freep h) = Some p"
proof -
  let ?xs = "ls @ p # rs"
  have r: "hd ?xs = base" "links (hptr h) ?xs base" "spaced h ?xs 4294967296" "freep h \<in> set ?xs" using assms(1) by (simp_all add: ring_def)
  have hd: "base = hd (ls @ [p])" using r(1) by (cases ls) simp_all
  have le: "unat base \<le> unat p" using hd assms(3) by (cases ls) auto
  have at: "free_scan h bp p = Some p"
  proof (cases rs)
    case Nil
    then have "hptr h p = base" using r(2) by (simp add: links_append)
    then show ?thesis using le assms(2) by (subst free_scan.simps) (auto simp: word_less_nat_alt word_le_nat_alt)
  next
    case (Cons y ys)
    then have "hptr h p = y" using r(2) by (simp add: links_append)
    then show ?thesis using Cons assms(2,4) by (subst free_scan.simps) (simp add: word_less_nat_alt)
  qed
  have below: "free_scan h bp (hd (as @ [p])) = Some p" if "ls = cs @ as" for as cs
  proof -
    have "links (hptr h) (as @ p # rs) base" "spaced h (as @ [p]) (hd (map unat rs @ [4294967296]))"
      using r(2,3) that by (simp_all add: links_append spaced_append)
    then show ?thesis using scan_below [of h as p rs base _ bp] assms(2,3) that at by simp
  qed
  consider "freep h \<in> set ls" | "freep h = p" | "freep h \<in> set rs" using r(4) by auto
  then show ?thesis
  proof cases
    case 1
    then obtain as bs where "ls = as @ freep h # bs" by (meson split_list)
    then show ?thesis using below [of as "freep h # bs"] by simp
  next
    case 2
    then show ?thesis using at by simp
  next
    case 3
    have "links (hptr h) rs base" "spaced h rs 4294967296" using r(2,3) by (simp_all add: links_append spaced_append)
    then have "free_scan h bp (freep h) = free_scan h bp base" using scan_above [OF _ _ assms(4) _ 3] le assms(2) by simp
    then show ?thesis using below [of "[]" ls] hd by simp
  qed
qed

section \<open>Freeing a block\<close>

lemma unat_end:
  assumes "unat x + 8 * unat n < 4294967296"
  shows "unat (x + 8 * n :: u32) = unat x + 8 * unat n"
proof -
  have "unat (8 * n :: u32) = 8 * unat n" using assms by (simp add: unat_word_ariths)
  then show ?thesis using assms by (intro trans [OF unat_plus_u32]) simp_all
qed

lemma end_eq: "fin h x < 4294967296 \<Longrightarrow> x + 8 * hsize h x = y \<longleftrightarrow> fin h x = unat y"
  by (simp add: word_unat_eq_iff unat_end fin_def)

lemma unat_size_sum:
  assumes "unat x + 8 * unat a + 8 * unat b < 4294967296"
  shows "unat (a + b :: u32) = unat a + unat b"
  using assms by (intro unat_plus_u32) simp

lemma heap_set_fields [simp]:
  "hptr (set_ptr a v h) = (hptr h)(a := v)" "hsize (set_ptr a v h) = hsize h" "freep (set_ptr a v h) = freep h"
  "hptr (set_size a v h) = hptr h" "hsize (set_size a v h) = (hsize h)(a := v)" "freep (set_size a v h) = freep h"
  by (simp_all add: set_ptr_def set_size_def)

lemma area_simps [simp]: "area h [] = {}" "area h (x # xs) = {unat x..<fin h x} \<union> area h xs" "area h (xs @ ys) = area h xs \<union> area h ys"
  by (auto simp: area_def)

lemma area_cong: "(\<And>x. x \<in> set xs \<Longrightarrow> hsize h x = hsize g x) \<Longrightarrow> area h xs = area g xs"
  by (auto simp: area_def fin_def)

definition rest_after :: "heap \<Rightarrow> u32 \<Rightarrow> u32 list \<Rightarrow> u32 list" where
  "rest_after h bp rs = (if rs \<noteq> [] \<and> fin h bp = unat (hd rs) then tl rs else rs)"

lemma join_upper_frame: "x \<noteq> bp \<Longrightarrow> hptr (join_upper bp p h) x = hptr h x \<and> hsize (join_upper bp p h) x = hsize h x"
  by (simp add: join_upper_def)

lemma join_upper_ring:
  assumes "links (hptr h) rs base" "spaced h rs 4294967296" "hptr h p = hd (rs @ [base])" "bp \<notin> set rs"
    and "fin h bp < 4294967296" "rs \<noteq> [] \<longrightarrow> fin h bp \<le> unat (hd rs)" "unat base < unat bp"
  defines "h1 \<equiv> join_upper bp p h"
  shows "links (hptr h1) (bp # rest_after h bp rs) base" "spaced h1 (bp # rest_after h bp rs) 4294967296"
    and "area h1 (bp # rest_after h bp rs) = area h (bp # rs)" "fin h bp \<le> fin h1 bp"
proof -
  have test: "bp + 8 * hsize h bp = hptr h p \<longleftrightarrow> rs \<noteq> [] \<and> fin h bp = unat (hd rs)"
    using assms(3,5,7) fin_ge [of bp h] by (cases rs) (simp_all add: end_eq)
  have keep: "hptr h1 x = hptr h x" "hsize h1 x = hsize h x" if "x \<in> set rs" for x
    using join_upper_frame [of x bp p h] assms(4) that unfolding h1_def by auto
  have "links (hptr h1) (bp # rest_after h bp rs) base \<and> spaced h1 (bp # rest_after h bp rs) 4294967296
    \<and> area h1 (bp # rest_after h bp rs) = area h (bp # rs) \<and> fin h bp \<le> fin h1 bp"
  proof (cases "rs \<noteq> [] \<and> fin h bp = unat (hd rs)")
    case False
    then have h1: "h1 = set_ptr bp (hptr h p) h" and ra: "rest_after h bp rs = rs"
      using test by (auto simp: h1_def join_upper_def rest_after_def)
    have "fin h1 bp = fin h bp" "hptr h1 bp = hd (rs @ [base])" using assms(3) by (simp_all add: h1 fin_def)
    moreover have "fin h bp < hd (map unat rs @ [4294967296])" using False assms(5,6) by (cases rs) auto
    moreover have "links (hptr h1) rs base = links (hptr h) rs base" "spaced h1 rs 4294967296 = spaced h rs 4294967296" "area h1 rs = area h rs"
      using keep by (intro links_cong spaced_cong area_cong; simp)+
    ultimately show ?thesis using ra assms(1,2) by simp
  next
    case True
    then obtain r rs' where rs: "rs = r # rs'" "fin h bp = unat r" by (cases rs) auto
    have h1: "h1 = set_ptr bp (hptr h r) (set_size bp (hsize h bp + hsize h r) h)" and ra: "rest_after h bp rs = rs'"
      using test True assms(3) rs by (auto simp: h1_def join_upper_def rest_after_def)
    have "fin h r < 4294967296" using assms(2) rs by (intro spaced_below [of h rs]) auto
    then have "fin h1 bp = fin h r" "hptr h1 bp = hptr h r"
      using rs(2) unat_size_sum [of bp "hsize h bp" "hsize h r"] by (simp_all add: h1 fin_def)
    moreover have "links (hptr h1) rs' base = links (hptr h) rs' base" "spaced h1 rs' 4294967296 = spaced h rs' 4294967296" "area h1 rs' = area h rs'"
      using keep rs(1) by (intro links_cong spaced_cong area_cong; simp)+
    moreover have "{unat bp..<fin h r} = {unat bp..<fin h bp} \<union> {unat r..<fin h r}"
      using rs(2) fin_ge [of bp h] fin_ge [of r h] by auto
    ultimately show ?thesis using ra assms(1,2) rs fin_ge [of r h] by auto
  qed
  then show "links (hptr h1) (bp # rest_after h bp rs) base" "spaced h1 (bp # rest_after h bp rs) 4294967296"
    "area h1 (bp # rest_after h bp rs) = area h (bp # rs)" "fin h bp \<le> fin h1 bp" by auto
qed

lemma join_lower_frame: "x \<noteq> p \<Longrightarrow> hptr (join_lower bp p h) x = hptr h x \<and> hsize (join_lower bp p h) x = hsize h x"
  by (simp add: join_lower_def)

lemma join_lower_ring:
  assumes "links (hptr h) ls p" "spaced h ls (unat p)" "links (hptr h) (bp # rs) base" "spaced h (bp # rs) 4294967296"
    and "p \<notin> set ls" "p \<notin> set rs" "p \<noteq> bp" "fin h p \<le> unat bp" "unat p < unat bp"
  defines "h2 \<equiv> join_lower bp p h" and "ys \<equiv> ls @ p # (if fin h p = unat bp then rs else bp # rs)"
  shows "links (hptr h2) ys base" "spaced h2 ys 4294967296" "area h2 ys = area h (ls @ p # bp # rs)" "fin h p \<le> fin h2 p"
proof -
  have bp: "fin h bp < 4294967296" using assms(4) by (rule spaced_below) simp
  then have fp: "fin h p < 4294967296" using assms(8) fin_ge [of bp h] by linarith
  have keep: "hptr h2 x = hptr h x" "hsize h2 x = hsize h x" if "x \<in> set ls \<union> set (bp # rs)" for x
    using join_lower_frame [of x p bp h] assms(5,6,7) that unfolding h2_def by auto
  have ls: "links (hptr h2) ls p" "spaced h2 ls (unat p)" "area h2 ls = area h ls"
    using assms(1,2) keep links_cong [of ls "hptr h2" "hptr h"] spaced_cong [of ls h2 h] area_cong [of ls h2 h] by simp_all
  have rs: "links (hptr h2) (bp # rs) base" "spaced h2 (bp # rs) 4294967296" "area h2 (bp # rs) = area h (bp # rs)"
    using assms(3,4) keep links_cong [of "bp # rs" "hptr h2" "hptr h"] spaced_cong [of "bp # rs" h2 h] area_cong [of "bp # rs" h2 h] by blast+
  have "links (hptr h2) ys base \<and> spaced h2 ys 4294967296 \<and> area h2 ys = area h (ls @ p # bp # rs) \<and> fin h p \<le> fin h2 p"
  proof (cases "fin h p = unat bp")
    case False
    then have h2: "h2 = set_ptr p bp h" and ys: "ys = ls @ p # bp # rs" using fp by (simp_all add: h2_def join_lower_def ys_def end_eq)
    have "hptr h2 p = bp" "fin h2 p = fin h p" by (simp_all add: h2 fin_def)
    then show ?thesis unfolding ys links_append spaced_append area_simps(3) using ls rs False assms(8) by simp
  next
    case True
    then have h2: "h2 = set_ptr p (hptr h bp) (set_size p (hsize h p + hsize h bp) h)" and ys: "ys = ls @ p # rs"
      using fp by (simp_all add: h2_def join_lower_def ys_def end_eq)
    have p: "hptr h2 p = hptr h bp" "fin h2 p = fin h bp"
      using True bp unat_size_sum [of p "hsize h p" "hsize h bp"] by (simp_all add: h2 fin_def)
    moreover have "{unat p..<fin h bp} = {unat p..<fin h p} \<union> {unat bp..<fin h bp}" using True fin_ge [of bp h] assms(9) by auto
    moreover have "area h2 rs = area h rs" using keep area_cong [of rs h2 h] by simp
    ultimately show ?thesis unfolding ys links_append spaced_append area_simps(3) using ls rs assms(3,4,8) fin_ge [of bp h] by auto
  qed
  then show "links (hptr h2) ys base" "spaced h2 ys 4294967296" "area h2 ys = area h (ls @ p # bp # rs)" "fin h p \<le> fin h2 p" by auto
qed

text \<open>The static header stays empty, and no other block becomes so.\<close>

lemma join_base:
  assumes "hsize h base = 0" "unat base < unat bp" "fin h bp < 4294967296" "fin h p \<le> unat bp"
  shows "hsize (join_lower bp p (join_upper bp p h)) base = 0"
proof -
  have h1: "hsize (join_upper bp p h) base = 0" using assms(1,2) join_upper_frame [of base bp p h] by auto
  show ?thesis
  proof (cases "p = base")
    case True
    then have "\<not> p + 8 * hsize (join_upper bp p h) p = bp" using h1 assms(2) by auto
    then show ?thesis using True h1 by (simp add: join_lower_def)
  next
    case False
    then show ?thesis using h1 join_lower_frame [of base p bp "join_upper bp p h"] by simp
  qed
qed

lemma join_solid:
  assumes "fin h bp \<le> fin (join_upper bp p h) bp" "fin (join_upper bp p h) p \<le> fin (join_lower bp p (join_upper bp p h)) p"
    and "unat bp < fin h bp" "\<forall>x\<in>S. x \<noteq> base \<longrightarrow> hsize h x \<noteq> 0" "p \<in> S" "p \<noteq> bp" "y \<in> insert bp S" "y \<noteq> base"
  shows "hsize (join_lower bp p (join_upper bp p h)) y \<noteq> 0"
proof -
  have pos: "unat x < fin g x \<longleftrightarrow> hsize g x \<noteq> 0" for g :: heap and x by (simp add: fin_def unat_gt_0)
  show ?thesis
  proof (cases "y = p")
    case True
    then have "unat p < fin (join_upper bp p h) p" unfolding pos using assms(4-6,8) join_upper_frame [of p bp p h] by auto
    then have "unat p < fin (join_lower bp p (join_upper bp p h)) p" using assms(2) by linarith
    then show ?thesis using True by (simp add: pos)
  next
    case False
    then have "hsize (join_lower bp p (join_upper bp p h)) y = hsize (join_upper bp p h) y" using join_lower_frame by simp
    moreover have "hsize (join_upper bp p h) y \<noteq> 0"
    proof (cases "y = bp")
      case True
      have "unat bp < fin (join_upper bp p h) bp" using assms(1,3) by linarith
      then show ?thesis using True by (simp add: pos)
    next
      case False
      then show ?thesis using assms(4,7,8) join_upper_frame [of y bp p h] by auto
    qed
    ultimately show ?thesis by simp
  qed
qed

lemma ring_freep: "ring base h xs \<Longrightarrow> p \<in> set xs \<Longrightarrow> ring base (h\<lparr>freep := p\<rparr>) xs"
  using spaced_cong [of xs "h\<lparr>freep := p\<rparr>" h] by (simp add: ring_def)

lemma area_freep [simp]: "area (h\<lparr>freep := p\<rparr>) xs = area h xs"
  by (simp add: area_def fin_def)

text \<open>A block outside the ring, with nothing of a free block in it.\<close>

definition loose :: "u32 \<Rightarrow> heap \<Rightarrow> u32 list \<Rightarrow> u32 \<Rightarrow> bool" where
  "loose base h xs bp \<longleftrightarrow> unat base < unat bp \<and> hsize h bp \<noteq> 0 \<and> fin h bp < 4294967296
     \<and> (\<forall>x\<in>set xs. fin h x \<le> unat bp \<or> fin h bp \<le> unat x)"

lemma free_ring:
  assumes R: "ring base h xs" and L: "loose base h xs bp"
  shows "\<exists>h' ys. free h (bp + 8) = Some h' \<and> ring base h' ys \<and> area h' ys = area h xs \<union> {unat bp..<fin h bp}
    \<and> set ys \<subseteq> insert bp (set xs) \<and> (\<forall>x. x \<notin> insert bp (set xs) \<longrightarrow> hsize h' x = hsize h x)"
proof -
  have l: "unat base < unat bp" "fin h bp < 4294967296" "unat bp < fin h bp" and d: "\<And>x. x \<in> set xs \<Longrightarrow> fin h x \<le> unat bp \<or> fin h bp \<le> unat x"
    using L by (auto simp: loose_def fin_def unat_gt_0)
  have notin: "bp \<notin> set xs" using d [of bp] l(3) fin_ge [of bp h] by auto
  obtain ls p rs where xs: "xs = ls @ p # rs" "unat p < unat bp" "\<forall>x\<in>set ls. unat x < unat p" "\<forall>x\<in>set rs. unat bp < unat x"
    using ring_split [OF R l(1) notin] by blast
  have r: "links (hptr h) ls p" "links (hptr h) rs base" "hptr h p = hd (rs @ [base])" "spaced h ls (unat p)" "spaced h rs 4294967296"
    "hd xs = base" "base \<noteq> 0" "hsize h base = 0" "\<forall>x\<in>set xs. x \<noteq> base \<longrightarrow> hsize h x \<noteq> 0"
    using R unfolding xs(1) ring_def links_append spaced_append by simp_all
  have dist: "p \<notin> set ls" "p \<notin> set rs" "p \<noteq> bp" "bp \<notin> set rs" "bp \<notin> set ls" "base \<noteq> bp"
    using spaced_distinct [of h xs] R xs(1,2) notin l(1) by (auto simp: ring_def)
  have up: "rs \<noteq> [] \<longrightarrow> fin h bp \<le> unat (hd rs)" using d [of "hd rs"] xs(1,4) fin_ge [of "hd rs" h] by (cases rs) auto
  have low: "fin h p \<le> unat bp" using d [of p] xs(1,2) l(3) by auto
  let ?h1 = "join_upper bp p h" and ?h2 = "join_lower bp p (join_upper bp p h)"
  let ?rs = "rest_after h bp rs"
  let ?ys = "ls @ p # (if fin h p = unat bp then ?rs else bp # ?rs)"
  note U = join_upper_ring [OF r(2,5,3) dist(4) l(2) up l(1)]
  have same: "hptr ?h1 x = hptr h x" "hsize ?h1 x = hsize h x" if "x \<noteq> bp" for x using join_upper_frame [OF that] by simp_all
  have ls1: "links (hptr ?h1) ls p" "spaced ?h1 ls (unat p)" "area ?h1 ls = area h ls"
    using r(1,4) dist(5) same by (metis links_cong, metis spaced_cong, metis area_cong)
  have p1: "fin ?h1 p = fin h p" using same [OF dist(3)] by (simp add: fin_def)
  have sub: "set ?rs \<subseteq> set rs" by (auto simp: rest_after_def intro: list.set_sel(2))
  then have "p \<notin> set ?rs" using dist(2) by auto
  note W = join_lower_ring [OF ls1(1,2) U(1,2) dist(1) this dist(3) low [folded p1] xs(2), unfolded p1]
  have "hsize ?h2 base = 0" using join_base [OF r(8) l(1) _ low] l(2,3) by simp
  moreover have "hd ?ys = base" using r(6) xs(1) by (cases ls) simp_all
  moreover have "hsize ?h2 y \<noteq> 0" if "y \<in> set ?ys" "y \<noteq> base" for y
  proof (rule join_solid [OF U(4) W(4) [folded p1] l(3) r(9) _ dist(3)])
    show "p \<in> set xs" "y \<in> insert bp (set xs)" "y \<noteq> base" using that sub xs(1) by (auto split: if_splits)
  qed
  ultimately have ring: "ring base (?h2\<lparr>freep := p\<rparr>) ?ys"
    using W(1,2) r(7) spaced_cong [of ?ys "?h2\<lparr>freep := p\<rparr>" ?h2] by (simp add: ring_def)
  have area: "area (?h2\<lparr>freep := p\<rparr>) ?ys = area h xs \<union> {unat bp..<fin h bp}"
  proof -
    have "area (?h2\<lparr>freep := p\<rparr>) ?ys = area ?h1 (ls @ p # bp # ?rs)" using W(3) by (simp only: area_freep)
    also have "\<dots> = area ?h1 ls \<union> ({unat p..<fin ?h1 p} \<union> area ?h1 (bp # ?rs))" by simp
    also have "\<dots> = area h ls \<union> ({unat p..<fin h p} \<union> area h (bp # rs))" by (simp only: ls1(3) p1 U(3))
    finally show ?thesis by (auto simp: xs(1))
  qed
  have ys: "set ?ys \<subseteq> insert bp (set xs)" using sub xs(1) by auto
  have frame: "\<forall>x. x \<notin> insert bp (set xs) \<longrightarrow> hsize (?h2\<lparr>freep := p\<rparr>) x = hsize h x"
    using same join_lower_frame [of _ p bp ?h1] xs(1) by auto
  have "free h (bp + 8) = Some (?h2\<lparr>freep := p\<rparr>)"
    using free_scan_ring [OF R [unfolded xs(1)] xs(2-4)] by (simp add: free_def)
  then show ?thesis using ring area ys frame by blast
qed

section \<open>Taking a block\<close>

lemma links_nth: "links f xs z \<Longrightarrow> i < length xs \<Longrightarrow> f (xs ! i) = (if Suc i < length xs then xs ! Suc i else z)"
proof (induction xs arbitrary: i)
  case (Cons x xs)
  then show ?case by (cases i; cases xs) auto
qed simp

text \<open>The block in front of one that is not the first.\<close>

lemma ring_predecessor:
  assumes "ring base h xs" "q \<in> set xs" "hptr h q = p" "p \<noteq> base"
  shows "\<exists>ls rs. xs = ls @ q # p # rs"
proof -
  have l: "links (hptr h) xs base" using assms(1) by (simp add: ring_def)
  obtain i where i: "i < length xs" "xs ! i = q" using assms(2) by (auto simp: in_set_conv_nth)
  then have "Suc i < length xs" "xs ! Suc i = p" using links_nth [OF l i(1)] assms(3,4) by (auto split: if_splits)
  then have "drop (Suc i) xs = p # drop (Suc (Suc i)) xs" using Cons_nth_drop_Suc [of "Suc i" xs] by simp
  then have "xs = take i xs @ q # p # drop (Suc (Suc i)) xs" using i id_take_nth_drop [of i xs] by simp
  then show ?thesis by blast
qed

lemma spaced_interval:
  assumes "spaced h xs n" "{a..<b} \<subseteq> area h xs" "a < b"
  shows "\<exists>x\<in>set xs. unat x \<le> a \<and> b \<le> fin h x"
proof -
  have "a \<in> area h xs" using assms(2,3) by auto
  then obtain x where x: "x \<in> set xs" "unat x \<le> a" "a < fin h x" by (auto simp: area_def)
  have "b \<le> fin h x"
  proof (rule ccontr)
    assume "\<not> b \<le> fin h x"
    then have "fin h x \<in> area h xs" using assms(2) x(3) by auto
    then obtain y where y: "y \<in> set xs" "unat y \<le> fin h x" "fin h x < fin h y" by (auto simp: area_def)
    obtain as bs where "xs = as @ x # bs" using split_list [OF x(1)] by blast
    then have "y \<in> set as \<or> y \<in> set bs" "spaced h (as @ x # bs) n" using y(1,3) assms(1) by auto
    then show False using spaced_order [of h as x bs n y] spaced_head [of h x bs n y] y(2,3) x(2,3) by (auto simp: spaced_append)
  qed
  then show ?thesis using x by blast
qed

text \<open>What a successful call gives: a ring and a block that were the ring before.\<close>

definition carved :: "u32 \<Rightarrow> heap \<Rightarrow> u32 list \<Rightarrow> u32 \<Rightarrow> u32 \<Rightarrow> heap \<Rightarrow> u32 list \<Rightarrow> bool" where
  "carved base h xs n b h' ys \<longleftrightarrow> ring base h' ys \<and> hsize h' b = n \<and> unat base < unat b
     \<and> area h' ys \<union> {unat b..<fin h' b} = area h xs \<and> area h' ys \<inter> {unat b..<fin h' b} = {}
     \<and> (\<forall>x. unat x \<notin> area h xs \<longrightarrow> hsize h' x = hsize h x)"

lemma area_apart:
  assumes "spaced h (ls @ p # rs) n"
  shows "area h ls \<inter> {unat p..<fin h p} = {}" "area h rs \<inter> {unat p..<fin h p} = {}"
proof -
  show "area h ls \<inter> {unat p..<fin h p} = {}" using spaced_order [OF assms] by (fastforce simp: area_def)
  have "spaced h (p # rs) n" using assms by (simp add: spaced_append)
  then show "area h rs \<inter> {unat p..<fin h p} = {}" using spaced_head by (fastforce simp: area_def)
qed

lemma carve_all:
  assumes R: "ring base h (ls @ q # p # rs)" and s: "hsize h p = n" "n \<noteq> 0" and h': "h' = (set_ptr q (hptr h p) h)\<lparr>freep := q\<rparr>"
  shows "carved base h (ls @ q # p # rs) n p h' (ls @ q # rs)"
proof -
  let ?xs = "ls @ q # p # rs"
  have r: "hd ?xs = base" "base \<noteq> 0" "hsize h base = 0" "links (hptr h) ls q" "hptr h p = hd (rs @ [base])" "links (hptr h) rs base"
    "spaced h ls (unat q)" "fin h q < unat p" "fin h p < hd (map unat rs @ [4294967296])" "spaced h rs 4294967296" "spaced h ?xs 4294967296"
    "\<forall>x\<in>set ?xs. x \<noteq> base \<longrightarrow> hsize h x \<noteq> 0"
    using R unfolding ring_def links_append spaced_append by simp_all
  have d: "distinct ?xs" using spaced_distinct [OF r(11)] .
  have size: "hsize h' = hsize h" "fin h' = fin h" "area h' = area h" by (simp_all add: h' fin_def area_def fun_eq_iff)
  have "links (hptr h') ls q" "links (hptr h') rs base"
    using r(4,6) d by (simp_all add: h')
  moreover have "spaced h' ls (unat q)" "spaced h' rs 4294967296" using r(7,10) spaced_cong [of _ h' h] size(1) by auto
  moreover have "hd (ls @ q # rs) = base" using r(1) by (cases ls) simp_all
  moreover have "fin h q < hd (map unat rs @ [4294967296])" using r(8,9) fin_ge [of p h] by linarith
  ultimately have "ring base h' (ls @ q # rs)"
    using r(2,3,5,12) size(1,2) unfolding ring_def links_append spaced_append by (simp add: h')
  moreover have "unat base < unat p"
  proof -
    have "base \<in> set (ls @ [q])" using r(1) by (cases ls) auto
    moreover have "spaced h ((ls @ [q]) @ p # rs) 4294967296" using r(11) by simp
    ultimately show ?thesis using spaced_order [of h "ls @ [q]" p rs _ base] fin_ge [of base h] by fastforce
  qed
  moreover have "area h (ls @ [q]) \<inter> {unat p..<fin h p} = {}" "area h rs \<inter> {unat p..<fin h p} = {}"
    using area_apart [of h "ls @ [q]" p rs] r(11) by simp_all
  ultimately show ?thesis unfolding carved_def size using s(1) by auto
qed

lemma carve_part:
  assumes R: "ring base h (ls @ p # rs)" and s: "n < hsize h p" "n \<noteq> 0" "q \<in> set (ls @ p # rs)"
  defines "b \<equiv> p + 8 * (hsize h p - n)"
    and "h' \<equiv> (set_size (p + 8 * (hsize h p - n)) n (set_size p (hsize h p - n) h))\<lparr>freep := q\<rparr>"
  shows "carved base h (ls @ p # rs) n b h' (ls @ p # rs)"
proof -
  let ?xs = "ls @ p # rs"
  have r: "hd ?xs = base" "base \<noteq> 0" "hsize h base = 0" "links (hptr h) ?xs base" "spaced h ls (unat p)"
    "fin h p < hd (map unat rs @ [4294967296])" "spaced h rs 4294967296" "spaced h ?xs 4294967296" "\<forall>x\<in>set ?xs. x \<noteq> base \<longrightarrow> hsize h x \<noteq> 0"
    using R unfolding ring_def spaced_append by simp_all
  have d: "distinct ?xs" using spaced_distinct [OF r(8)] .
  have top: "fin h p < 4294967296" using spaced_below [OF r(8), of p] by simp
  have u: "unat (hsize h p - n) = unat (hsize h p) - unat n" "unat n < unat (hsize h p)" "0 < unat n"
    using s(1,2) unat_sub_le [of n "hsize h p"] by (simp_all add: word_less_nat_alt word_le_nat_alt unat_gt_0)
  have b: "unat b + 8 * unat n = fin h p" "unat p < unat b"
    unfolding b_def using top u by (subst unat_end; simp add: fin_def)+
  have base: "p \<noteq> base" using s(1) r(3) by auto
  have other: "hsize h' x = hsize h x" "fin h' x = fin h x" if "x \<in> set ls \<union> set rs" for x
  proof -
    have "x \<noteq> p" using that d by auto
    moreover have "x \<noteq> b"
    proof
      assume "x = b"
      then show False using that b u(3) spaced_order [OF r(8), of x] fin_ge [of x h] spaced_head [of h p rs _ x] r(6,7) by fastforce
    qed
    ultimately show "hsize h' x = hsize h x" "fin h' x = fin h x" by (simp_all add: h'_def b_def fin_def)
  qed
  have neq: "p \<noteq> b" using b(2) by auto
  then have at: "hsize h' p = hsize h p - n" "hsize h' b = n" by (simp_all add: h'_def b_def)
  then have f: "fin h' p = unat b" "fin h' b = fin h p" using b u by (auto simp: fin_def)
  have seg: "spaced h' ls (unat p)" "spaced h' rs 4294967296" "area h' ls = area h ls" "area h' rs = area h rs"
    using r(5,7) other(1) spaced_cong [of ls h' h] spaced_cong [of rs h' h] area_cong [of ls h' h] area_cong [of rs h' h] by simp_all
  have lt: "unat b < fin h p" using b(1) u(3) by linarith
  then have "fin h' p < hd (map unat rs @ [4294967296])" using f(1) r(6) by linarith
  then have "spaced h' ?xs 4294967296" using seg(1,2) unfolding spaced_append by simp
  moreover have "links (hptr h') ?xs base" using r(4) by (simp add: h'_def)
  moreover have "base \<in> set ls" using r(1) base by (cases ls) auto
  then have "hsize h' base = 0" "unat base < unat b"
    using other(1) r(3) b(2) spaced_order [OF r(8)] fin_ge [of base h] by fastforce+
  moreover have "hsize h' x \<noteq> 0" if "x \<in> set ?xs" "x \<noteq> base" for x
    using that r(9) other(1) [of x] at(1) u(1,2) by (cases "x = p") (auto simp: unat_eq_zero [symmetric])
  ultimately have ring: "ring base h' ?xs" "unat base < unat b" using r(1,2) s(3) by (simp_all add: ring_def h'_def)
  have "{unat p..<fin h p} = {unat p..<unat b} \<union> {unat b..<fin h p}" using b(2) lt by auto
  then have area: "area h' ?xs \<union> {unat b..<fin h' b} = area h ?xs" using seg(3,4) f by auto
  have "area h' ?xs \<inter> {unat b..<fin h' b} = {}" using area_apart [OF r(8)] seg(3,4) f b(2) by auto
  moreover have "hsize h' x = hsize h x" if "unat x \<notin> area h ?xs" for x
  proof -
    have "unat p \<in> area h ?xs" "unat b \<in> area h ?xs" using b(2) lt by auto
    then have "x \<noteq> p" "x \<noteq> b" using that by auto
    then show ?thesis by (simp add: h'_def b_def)
  qed
  ultimately show ?thesis unfolding carved_def using ring area at(2) by blast
qed

lemma carve_ring:
  assumes R: "ring base h xs" and q: "q \<in> set xs" "hptr h q = p" "p \<in> set xs" and n: "n \<le> hsize h p" "n \<noteq> 0"
  shows "\<exists>b h' ys. carve n q p h = (b + 8, h') \<and> carved base h xs n b h' ys"
proof -
  have "p \<noteq> base" using R n by (auto simp: ring_def)
  then obtain ls rs where xs: "xs = ls @ q # p # rs" using ring_predecessor [OF R q(1,2)] by blast
  show ?thesis
  proof (cases "hsize h p = n")
    case True
    let ?h = "(set_ptr q (hptr h p) h)\<lparr>freep := q\<rparr>"
    have "carve n q p h = (p + 8, ?h)" using True by (simp add: carve_def)
    then show ?thesis using carve_all [OF R [unfolded xs] True n(2) refl] xs by blast
  next
    case False
    let ?b = "p + 8 * (hsize h p - n)"
    let ?h = "(set_size ?b n (set_size p (hsize h p - n) h))\<lparr>freep := q\<rparr>"
    have "carve n q p h = (?b + 8, ?h)" using False by (simp add: carve_def Let_def)
    moreover have "ring base h ((ls @ [q]) @ p # rs)" "q \<in> set ((ls @ [q]) @ p # rs)" using R xs by simp_all
    ultimately show ?thesis using carve_part [of base h "ls @ [q]" p rs n q] False n xs by fastforce
  qed
qed

section \<open>Searching the ring\<close>

text \<open>The ring from the block behind \<^verbatim>\<open>freep\<close> to \<^verbatim>\<open>freep\<close>, in the order of the search.\<close>

lemma ring_walk:
  assumes "ring base h xs"
  shows "\<exists>ys. set ys = set xs \<and> distinct ys \<and> ys \<noteq> [] \<and> last ys = freep h \<and> links (hptr h) (freep h # ys) (hd ys)"
proof -
  have r: "hd xs = base" "links (hptr h) xs base" "spaced h xs 4294967296" "freep h \<in> set xs" using assms by (simp_all add: ring_def)
  obtain as bs where xs: "xs = as @ freep h # bs" using split_list [OF r(4)] by blast
  let ?ys = "bs @ as @ [freep h]"
  have "base = hd (as @ [freep h])" using r(1) xs by (cases as) simp_all
  then have "links (hptr h) (freep h # ?ys) (hd ?ys)" using r(2) unfolding xs links_append by (cases bs; cases as) (simp_all add: links_append hd_append)
  moreover have "distinct ?ys" "set ?ys = set xs" using spaced_distinct [OF r(3)] xs by auto
  ultimately show ?thesis by (intro exI [of _ ?ys]) simp
qed

lemma search_found:
  assumes "links (hptr h) (q # ys) z" "distinct ys" "freep h = last ys" "x \<in> set ys" "n \<le> hsize h x"
  shows "\<exists>q' x. q' \<in> insert q (set ys) \<and> hptr h q' = x \<and> x \<in> set ys \<and> n \<le> hsize h x
    \<and> malloc_loop n q (hd ys) h w = (let (r, h') = carve n q' x h in Some (r, h', w))"
  using assms
proof (induction ys arbitrary: q)
  case (Cons y ys)
  show ?case
  proof (cases "n \<le> hsize h y")
    case True
    then have "malloc_loop n q y h w = (let (r, h') = carve n q y h in Some (r, h', w))" by (subst malloc_loop.simps) simp
    then show ?thesis using True Cons.prems(1) by auto
  next
    case False
    then have ys: "x \<in> set ys" "ys \<noteq> []" using Cons.prems(4,5) by auto
    then have "y \<noteq> freep h" using Cons.prems(2,3) by auto
    moreover have "hptr h y = hd ys" using Cons.prems(1) ys(2) by (cases ys) simp_all
    ultimately have "malloc_loop n q y h w = malloc_loop n y (hd ys) h w" using False by (subst malloc_loop.simps) simp
    moreover obtain q' x where "q' \<in> insert y (set ys)" "hptr h q' = x" "x \<in> set ys" "n \<le> hsize h x"
      "malloc_loop n y (hd ys) h w = (let (r, h') = carve n q' x h in Some (r, h', w))"
      using Cons.IH [of y] Cons.prems ys by auto
    ultimately show ?thesis by (intro exI [of _ q'] exI [of _ x]) simp
  qed
qed simp

lemma search_none:
  assumes "links (hptr h) (q # ys) z" "distinct ys" "freep h = last ys" "ys \<noteq> []" "\<forall>x\<in>set ys. \<not> n \<le> hsize h x"
  shows "malloc_loop n q (hd ys) h w =
    Option.bind (morecore n h w) (\<lambda>(p, h, w). if p = 0 then Some (0, h, w) else malloc_loop n p (hptr h p) h w)"
  using assms
proof (induction ys arbitrary: q)
  case (Cons y ys)
  show ?case
  proof (cases ys)
    case Nil
    then show ?thesis using Cons.prems by (subst malloc_loop.simps) simp
  next
    case (Cons u us)
    then have "y \<noteq> freep h" "hptr h y = hd ys" using Cons.prems(1-3) by auto
    then have "malloc_loop n q y h w = malloc_loop n y (hd ys) h w" using Cons.prems(5) by (subst malloc_loop.simps) simp
    then show ?thesis using Cons.IH [of y] Cons.prems Cons by simp
  qed
qed simp

lemma search_ring:
  assumes R: "ring base h xs" and x: "x \<in> set xs" "n \<le> hsize h x" and n: "n \<noteq> 0"
  shows "\<exists>b h' ys. malloc_loop n (freep h) (hptr h (freep h)) h w = Some (b + 8, h', w) \<and> carved base h xs n b h' ys"
proof -
  obtain ys where ys: "set ys = set xs" "distinct ys" "ys \<noteq> []" "last ys = freep h" "links (hptr h) (freep h # ys) (hd ys)"
    using ring_walk [OF R] by blast
  have hd: "hd ys = hptr h (freep h)" using ys(3,5) by (cases ys) simp_all
  obtain q y where q: "q \<in> insert (freep h) (set ys)" "hptr h q = y" "y \<in> set ys" "n \<le> hsize h y"
    "malloc_loop n (freep h) (hd ys) h w = (let (r, h') = carve n q y h in Some (r, h', w))"
    using search_found [OF ys(5,2) ys(4) [symmetric] _ x(2), of w] x(1) ys(1) by auto
  have "q \<in> set xs" "y \<in> set xs" using q(1,3) ys(1) R by (auto simp: ring_def)
  then obtain b h' zs where "carve n q y h = (b + 8, h')" "carved base h xs n b h' zs"
    using carve_ring [OF R _ q(2) _ q(4) n] by blast
  then show ?thesis using q(5) hd by auto
qed

section \<open>Growing the heap\<close>

text \<open>The heap lies below the break.\<close>

definition under :: "u32 \<Rightarrow> heap \<Rightarrow> u32 list \<Rightarrow> brk_state \<Rightarrow> bool" where
  "under base h xs w \<longleftrightarrow> unat base + 8 \<le> unat (brk w) \<and> (\<forall>x\<in>set xs. fin h x \<le> unat (brk w))"

definition grown :: "u32 \<Rightarrow> u32" where
  "grown n = (if n < 4096 then 4096 else n)"

lemma sbrk_cases:
  assumes "unat n < 2147483648"
  shows "(\<exists>w'. sbrk n w = (- 1, w') \<and> brk w' = brk w)
    \<or> (\<exists>w'. sbrk n w = (brk w, w') \<and> unat (brk w') = unat (brk w) + unat n \<and> unat (brk w) + unat n < 4294967296)"
proof -
  have "\<not> sint n < 0"
  proof -
    have "uint n = int (unat n)" by (rule uint_nat)
    then have "uint n < 2147483648" using assms by linarith
    then have "sint n = uint n" by (simp only: sint_u32 if_True)
    then show ?thesis by simp
  qed
  then show ?thesis by (auto simp: sbrk_def unat_plus_u32 split: list.split bool.split)
qed

lemma ring_set_size:
  assumes "ring base h xs" "p \<notin> set xs"
  shows "ring base (set_size p n h) xs" "area (set_size p n h) xs = area h xs"
proof -
  have s: "hsize (set_size p n h) x = hsize h x" if "x \<in> set xs" for x using assms(2) that by auto
  have "base \<in> set xs" using assms(1) by (auto simp: ring_def)
  then show "ring base (set_size p n h) xs" using assms(1) s spaced_cong [of xs "set_size p n h" h] by (simp add: ring_def del: heap_set_fields(5))
  show "area (set_size p n h) xs = area h xs" by (rule area_cong [OF s])
qed

lemma morecore_ring:
  assumes R: "ring base h xs" and B: "under base h xs w" and n: "unat n < 268435456" "n \<noteq> 0"
  shows "(\<exists>w'. morecore n h w = Some (0, h, w') \<and> brk w' = brk w)
    \<or> (\<exists>h' ys w'. morecore n h w = Some (freep h', h', w') \<and> ring base h' ys \<and> freep h' \<noteq> 0
        \<and> unat (brk w') = unat (brk w) + 8 * unat (grown n)
        \<and> area h' ys = area h xs \<union> {unat (brk w)..<unat (brk w')}
        \<and> (\<forall>x. x \<notin> insert (brk w) (set xs) \<longrightarrow> hsize h' x = hsize h x))"
proof -
  let ?n = "grown n"
  have g: "unat ?n < 268435456" "?n \<noteq> 0" "(if n < 4096 then 4096 else n) = ?n" using n by (auto simp: grown_def word_less_nat_alt)
  have u: "unat (?n * 8) = 8 * unat ?n" using g(1) by (simp add: unat_word_ariths)
  have "unat (?n * 8) < 2147483648" using u g(1) by linarith
  from sbrk_cases [OF this, of w] show ?thesis
  proof
    assume "\<exists>w'. sbrk (?n * 8) w = (- 1, w') \<and> brk w' = brk w"
    then show ?thesis using g(3) by (auto simp: morecore_def Let_def)
  next
    assume "\<exists>w'. sbrk (?n * 8) w = (brk w, w') \<and> unat (brk w') = unat (brk w) + unat (?n * 8) \<and> unat (brk w) + unat (?n * 8) < 4294967296"
    then obtain w' where w: "sbrk (?n * 8) w = (brk w, w')" "unat (brk w') = unat (brk w) + 8 * unat ?n" "unat (brk w') < 4294967296"
      using u by auto
    let ?p = "brk w" let ?h = "set_size ?p ?n h"
    have out: "?p \<notin> set xs"
    proof
      assume p: "?p \<in> set xs"
      have "?p \<noteq> base" using B by (auto simp: under_def)
      then have "hsize h ?p \<noteq> 0" using p R by (auto simp: ring_def)
      then have "0 < unat (hsize h ?p)" by (simp add: unat_gt_0)
      moreover have "fin h ?p \<le> unat ?p" using p B by (simp add: under_def)
      ultimately show False by (simp add: fin_def)
    qed
    note S = ring_set_size [OF R out, of ?n]
    have f: "fin ?h ?p = unat (brk w')" using w(2) by (simp add: fin_def)
    have "fin ?h x \<le> unat ?p" if "x \<in> set xs" for x
    proof -
      have "fin ?h x = fin h x" using out that by (auto simp: fin_def)
      then show ?thesis using B that by (simp add: under_def)
    qed
    then have "loose base ?h xs ?p" using B w(3) g(2) f by (auto simp: loose_def under_def)
    then obtain h' ys where h': "free ?h (?p + 8) = Some h'" "ring base h' ys" "area h' ys = area h xs \<union> {unat ?p..<unat (brk w')}"
      "\<forall>x. x \<notin> insert ?p (set xs) \<longrightarrow> hsize h' x = hsize ?h x"
      using free_ring [OF S(1)] S(2) f by metis
    have "?p \<noteq> - 1" using w(2,3) g(2) by (auto simp: unat_minus_one_u32 unat_gt_0 [symmetric])
    then have m: "morecore n h w = Some (freep h', h', w')" using w(1) g(3) h'(1) by (simp add: morecore_def Let_def)
    have "freep h' \<noteq> 0"
    proof -
      have f: "freep h' \<in> set ys" "base \<noteq> 0" "hd ys = base" "spaced h' ys 4294967296" "ys \<noteq> []" using h'(2) by (simp_all add: ring_def)
      then have "freep h' = base \<or> fin h' base < unat (freep h')" using spaced_head [of h' base "tl ys" _ "freep h'"] by (cases ys) auto
      then show ?thesis using f(2) by auto
    qed
    then show ?thesis using m h' w(2) by auto
  qed
qed

section \<open>malloc on a ring\<close>

abbreviation blk :: "heap \<Rightarrow> u32 \<Rightarrow> nat set" where
  "blk h a \<equiv> {unat a..<fin h a}"

definition obtained :: "u32 \<Rightarrow> heap \<Rightarrow> u32 list \<Rightarrow> brk_state \<Rightarrow> u32 \<Rightarrow> u32 \<Rightarrow> heap \<Rightarrow> u32 list \<Rightarrow> brk_state \<Rightarrow> bool" where
  "obtained base h xs w n b h' ys w' \<longleftrightarrow> ring base h' ys \<and> hsize h' b = n \<and> unat base < unat b \<and> unat (brk w) \<le> unat (brk w')
     \<and> area h' ys \<union> blk h' b = area h xs \<union> {unat (brk w)..<unat (brk w')} \<and> area h' ys \<inter> blk h' b = {}
     \<and> (\<forall>x. unat x \<notin> area h xs \<longrightarrow> x \<noteq> base \<longrightarrow> unat x < unat (brk w) \<longrightarrow> hsize h' x = hsize h x)"

lemma ring_in_area: "ring base h xs \<Longrightarrow> x \<in> set xs \<Longrightarrow> x \<noteq> base \<Longrightarrow> unat x \<in> area h xs"
proof -
  assume "ring base h xs" "x \<in> set xs" "x \<noteq> base"
  then have "hsize h x \<noteq> 0" by (simp add: ring_def)
  then have "unat x \<in> {unat x..<fin h x}" by (simp add: fin_def unat_gt_0)
  then show "unat x \<in> area h xs" using \<open>x \<in> set xs\<close> by (auto simp: area_def)
qed

lemma malloc_loop_ring:
  assumes R: "ring base h xs" and B: "under base h xs w" and n: "unat n < 268435456" "n \<noteq> 0"
  shows "(\<exists>w'. malloc_loop n (freep h) (hptr h (freep h)) h w = Some (0, h, w') \<and> brk w' = brk w)
    \<or> (\<exists>b h' ys w'. malloc_loop n (freep h) (hptr h (freep h)) h w = Some (b + 8, h', w') \<and> obtained base h xs w n b h' ys w')"
proof (cases "\<exists>x\<in>set xs. n \<le> hsize h x")
  case True
  then obtain b h' ys where "malloc_loop n (freep h) (hptr h (freep h)) h w = Some (b + 8, h', w)" "carved base h xs n b h' ys"
    using search_ring [OF R _ _ n(2), of _ w] by blast
  moreover from this(2) have "obtained base h xs w n b h' ys w" by (simp add: carved_def obtained_def)
  ultimately show ?thesis by blast
next
  case False
  obtain ys where ys: "set ys = set xs" "distinct ys" "ys \<noteq> []" "last ys = freep h" "links (hptr h) (freep h # ys) (hd ys)"
    using ring_walk [OF R] by blast
  have hd: "hd ys = hptr h (freep h)" using ys(3,5) by (cases ys) simp_all
  have loop: "malloc_loop n (freep h) (hptr h (freep h)) h w =
      Option.bind (morecore n h w) (\<lambda>(p, h, w). if p = 0 then Some (0, h, w) else malloc_loop n p (hptr h p) h w)"
    using search_none [OF ys(5,2) ys(4) [symmetric] ys(3), of n w] False ys(1) hd by simp
  from morecore_ring [OF R B n] show ?thesis
  proof
    assume "\<exists>w'. morecore n h w = Some (0, h, w') \<and> brk w' = brk w"
    then show ?thesis using loop by auto
  next
    assume "\<exists>h' ys w'. morecore n h w = Some (freep h', h', w') \<and> ring base h' ys \<and> freep h' \<noteq> 0
        \<and> unat (brk w') = unat (brk w) + 8 * unat (grown n)
        \<and> area h' ys = area h xs \<union> {unat (brk w)..<unat (brk w')}
        \<and> (\<forall>x. x \<notin> insert (brk w) (set xs) \<longrightarrow> hsize h' x = hsize h x)"
    then obtain h1 zs w1 where m: "morecore n h w = Some (freep h1, h1, w1)" "ring base h1 zs" "freep h1 \<noteq> 0"
      "unat (brk w1) = unat (brk w) + 8 * unat (grown n)" "area h1 zs = area h xs \<union> {unat (brk w)..<unat (brk w1)}"
      "\<forall>x. x \<notin> insert (brk w) (set xs) \<longrightarrow> hsize h1 x = hsize h x" by blast
    have g: "unat n \<le> unat (grown n)" "0 < unat (grown n)" using n(2) by (auto simp: grown_def word_less_nat_alt unat_gt_0)
    then obtain x where x: "x \<in> set zs" "unat x \<le> unat (brk w)" "unat (brk w1) \<le> fin h1 x"
      using spaced_interval [of h1 zs 4294967296 "unat (brk w)" "unat (brk w1)"] m(2,4,5) by (auto simp: ring_def)
    then have "n \<le> hsize h1 x" using m(4) g(1) by (simp add: fin_def word_le_nat_alt)
    then obtain b h' us where b: "malloc_loop n (freep h1) (hptr h1 (freep h1)) h1 w1 = Some (b + 8, h', w1)" "carved base h1 zs n b h' us"
      using search_ring [OF m(2) x(1) _ n(2), of w1] by blast
    have "hsize h' x = hsize h x" if "unat x \<notin> area h xs" "x \<noteq> base" "unat x < unat (brk w)" for x
    proof -
      have "x \<notin> insert (brk w) (set xs)" using that ring_in_area [OF R] by auto
      moreover have "unat x \<notin> area h1 zs" using that m(5) by auto
      ultimately show ?thesis using m(6) b(2) by (simp add: carved_def)
    qed
    then have "obtained base h xs w n b h' us w1" using b(2) m(4,5) by (simp add: carved_def obtained_def)
    then show ?thesis using loop m(1,3) b(1) by auto
  qed
qed

section \<open>The blocks that a program holds\<close>

text \<open>The state of the allocator with the headers of the blocks that the program has got and not given back.\<close>

type_synonym holding = "heap \<times> brk_state \<times> u32 set"

definition heap_held :: "u32 \<Rightarrow> heap \<Rightarrow> u32 list \<Rightarrow> brk_state \<Rightarrow> u32 set \<Rightarrow> bool" where
  "heap_held base h xs w L \<longleftrightarrow> ring base h xs \<and> under base h xs w
     \<and> (\<forall>a\<in>L. unat base < unat a \<and> hsize h a \<noteq> 0 \<and> fin h a \<le> unat (brk w) \<and> blk h a \<inter> area h xs = {})
     \<and> (\<forall>a\<in>L. \<forall>b\<in>L. a \<noteq> b \<longrightarrow> blk h a \<inter> blk h b = {})"

fun sound_heap :: "u32 \<Rightarrow> holding \<Rightarrow> bool" where
  "sound_heap base (h, w, L) \<longleftrightarrow>
     (freep h = 0 \<and> L = {} \<and> base \<noteq> 0 \<and> unat base + 8 \<le> unat (brk w)) \<or> (\<exists>xs. heap_held base h xs w L)"

inductive uses :: "u32 \<Rightarrow> holding \<Rightarrow> bool" for base where
  start: "freep h = 0 \<Longrightarrow> base \<noteq> 0 \<Longrightarrow> unat base + 8 \<le> unat (brk w) \<Longrightarrow> uses base (h, w, {})"
| got: "uses base (h, w, L) \<Longrightarrow> unat nbytes \<le> 2147483000 \<Longrightarrow> malloc base nbytes h w = Some (r, h', w') \<Longrightarrow> r \<noteq> 0 \<Longrightarrow> uses base (h', w', insert (r - 8) L)"
| refused: "uses base (h, w, L) \<Longrightarrow> unat nbytes \<le> 2147483000 \<Longrightarrow> malloc base nbytes h w = Some (0, h', w') \<Longrightarrow> uses base (h', w', L)"
| freed: "uses base (h, w, L) \<Longrightarrow> a \<in> L \<Longrightarrow> free h (a + 8) = Some h' \<Longrightarrow> uses base (h', w, L - {a})"

lemma below_brk: "ring base h xs \<Longrightarrow> area h xs \<subseteq> {..<unat (brk w)} \<Longrightarrow> unat base + 8 \<le> unat (brk w) \<Longrightarrow> under base h xs w"
  unfolding under_def
proof (intro conjI ballI)
  fix x assume *: "ring base h xs" "area h xs \<subseteq> {..<unat (brk w)}" "unat base + 8 \<le> unat (brk w)" "x \<in> set xs"
  show "fin h x \<le> unat (brk w)"
  proof (cases "x = base")
    case True
    then show ?thesis using *(1,3) by (simp add: ring_def fin_def)
  next
    case False
    then have "unat x < fin h x" using *(1,4) by (simp add: ring_def fin_def unat_gt_0)
    then have "fin h x - 1 \<in> area h xs" using *(4) unfolding area_def by (intro UN_I [of x]) auto
    then show ?thesis using *(2) by auto
  qed
qed

lemma under_area: "under base h xs w \<Longrightarrow> area h xs \<subseteq> {..<unat (brk w)}"
  by (fastforce simp: under_def area_def)

lemma heap_held_obtained:
  assumes H: "heap_held base h xs w L" and O: "obtained base h xs w n b h' ys w'" and n: "n \<noteq> 0"
  shows "heap_held base h' ys w' (insert b L)" "b \<notin> L" "\<And>a. a \<in> L \<Longrightarrow> hsize h' a = hsize h a"
proof -
  have o: "ring base h' ys" "hsize h' b = n" "unat base < unat b" "unat (brk w) \<le> unat (brk w')"
    "area h' ys \<union> blk h' b = area h xs \<union> {unat (brk w)..<unat (brk w')}" "area h' ys \<inter> blk h' b = {}"
    "\<And>x. unat x \<notin> area h xs \<Longrightarrow> x \<noteq> base \<Longrightarrow> unat x < unat (brk w) \<Longrightarrow> hsize h' x = hsize h x"
    using O by (simp_all add: obtained_def)
  have k: "ring base h xs" "under base h xs w" using H by (simp_all add: heap_held_def)
  have l: "unat base < unat a" "hsize h a \<noteq> 0" "fin h a \<le> unat (brk w)" "blk h a \<inter> area h xs = {}" "unat a < fin h a" if "a \<in> L" for a
    using H that by (auto simp: heap_held_def fin_def unat_gt_0)
  show same: "hsize h' a = hsize h a" if "a \<in> L" for a
  proof (rule o(7))
    show "unat a \<notin> area h xs" using l(4,5) [OF that] by fastforce
    show "a \<noteq> base" "unat a < unat (brk w)" using l(1,3,5) [OF that] by auto
  qed
  then have f: "fin h' a = fin h a" if "a \<in> L" for a using that by (simp add: fin_def)
  have bb: "unat b < fin h' b" using o(2) n by (simp add: fin_def unat_gt_0)
  have apart: "blk h' a \<inter> (area h' ys \<union> blk h' b) = {}" if "a \<in> L" for a
    unfolding o(5) f [OF that] using l(3,4) [OF that] by auto
  show "b \<notin> L" using apart bb by fastforce
  have "area h' ys \<union> blk h' b \<subseteq> {..<unat (brk w')}" unfolding o(5) using under_area [OF k(2)] o(4) by auto
  then have top: "area h' ys \<subseteq> {..<unat (brk w')}" "blk h' b \<subseteq> {..<unat (brk w')}" by simp_all
  have "fin h' b - 1 < unat (brk w')" using top(2) bb by (intro lessThan_iff [THEN iffD1] subsetD [OF top(2)]) auto
  then have tb: "fin h' b \<le> unat (brk w')" by linarith
  have "under base h' ys w'" using below_brk [OF o(1) top(1)] k(2) o(4) by (simp add: under_def)
  moreover have "unat base < unat a \<and> hsize h' a \<noteq> 0 \<and> fin h' a \<le> unat (brk w') \<and> blk h' a \<inter> area h' ys = {}" if "a \<in> insert b L" for a
  proof (cases "a = b")
    case True
    then show ?thesis using o(2,3,6) n tb by auto
  next
    case False
    then have "a \<in> L" using that by simp
    then show ?thesis using l(1-3) [of a] same [of a] f [of a] apart [of a] o(4) by auto
  qed
  moreover have "blk h' a \<inter> blk h' c = {}" if "a \<in> insert b L" "c \<in> insert b L" "a \<noteq> c" for a c
  proof (cases "a = b \<or> c = b")
    case True
    then show ?thesis using that apart [of a] apart [of c] by blast
  next
    case False
    then have "a \<in> L" "c \<in> L" using that by simp_all
    then show ?thesis using H that(3) f by (simp add: heap_held_def)
  qed
  ultimately show "heap_held base h' ys w' (insert b L)" using o(1) unfolding heap_held_def by simp
qed

lemma heap_held_loose: "heap_held base h xs w L \<Longrightarrow> a \<in> L \<Longrightarrow> loose base h xs a"
  unfolding loose_def
proof (intro conjI ballI)
  assume H: "heap_held base h xs w L" "a \<in> L"
  then show "unat base < unat a" "hsize h a \<noteq> 0" by (auto simp: heap_held_def)
  have "fin h a \<le> unat (brk w)" using H by (auto simp: heap_held_def)
  then show "fin h a < 4294967296" using unat_less_2_32 [of "brk w"] by linarith
  fix x assume x: "x \<in> set xs"
  have a: "unat a < fin h a" "unat base < unat a" "blk h a \<inter> area h xs = {}" using H by (auto simp: heap_held_def fin_def unat_gt_0)
  show "fin h x \<le> unat a \<or> fin h a \<le> unat x"
  proof (cases "x = base")
    case True
    then show ?thesis using H(1) a(2) by (simp add: heap_held_def ring_def fin_def)
  next
    case False
    then have "unat x < fin h x" using H(1) x by (auto simp: heap_held_def ring_def fin_def unat_gt_0)
    moreover have "blk h a \<inter> blk h x = {}" using a(3) x unfolding area_def by blast
    ultimately show ?thesis using a(1) by (auto simp: not_le)
  qed
qed

lemma heap_held_free:
  assumes H: "heap_held base h xs w L" and a: "a \<in> L"
  shows "\<exists>h' ys. free h (a + 8) = Some h' \<and> heap_held base h' ys w (L - {a}) \<and> (\<forall>c\<in>L - {a}. hsize h' c = hsize h c)"
proof -
  have k: "ring base h xs" "under base h xs w" using H by (simp_all add: heap_held_def)
  have l: "unat base < unat c" "hsize h c \<noteq> 0" "fin h c \<le> unat (brk w)" "blk h c \<inter> area h xs = {}" "unat c < fin h c" if "c \<in> L" for c
    using H that by (auto simp: heap_held_def fin_def unat_gt_0)
  obtain h' ys where f: "free h (a + 8) = Some h'" "ring base h' ys" "area h' ys = area h xs \<union> blk h a"
    "\<forall>x. x \<notin> insert a (set xs) \<longrightarrow> hsize h' x = hsize h x"
    using free_ring [OF k(1) heap_held_loose [OF H a]] by blast
  have same: "hsize h' c = hsize h c" "fin h' c = fin h c" if "c \<in> L - {a}" for c
  proof -
    have "c \<notin> set xs" using l(1,4,5) [of c] that ring_in_area [OF k(1), of c] by fastforce
    then show "hsize h' c = hsize h c" "fin h' c = fin h c" using f(4) that by (auto simp: fin_def)
  qed
  have "area h' ys \<subseteq> {..<unat (brk w)}" unfolding f(3) using under_area [OF k(2)] l(3) [OF a] by auto
  then have "under base h' ys w" using below_brk [OF f(2)] k(2) by (simp add: under_def)
  moreover have "blk h' c \<inter> area h' ys = {}" if "c \<in> L - {a}" for c
    using H a that l(4) [of c] unfolding f(3) same(2) [OF that] heap_held_def by blast
  ultimately have "heap_held base h' ys w (L - {a})" using f(2) l same H by (auto simp: heap_held_def)
  then show ?thesis using f(1) same(1) by blast
qed

section \<open>Properties\<close>

lemma units_bound:
  assumes "unat nbytes \<le> 2147483000"
  shows "unat (units nbytes) < 268435456" "units nbytes \<noteq> 0" "unat nbytes + 8 \<le> 8 * unat (units nbytes)"
proof -
  have "unat (nbytes + 8 - 1) = unat nbytes + 7"
  proof -
    have "nbytes + 8 - 1 = nbytes + 7" by simp
    moreover have "unat (nbytes + 7) = unat nbytes + 7" using assms unat_plus_u32 [of nbytes 7] by simp
    ultimately show ?thesis by (simp only:)
  qed
  then have d: "unat ((nbytes + 8 - 1) div 8) = (unat nbytes + 7) div 8" by (simp only: unat_div) simp
  moreover have "(unat nbytes + 7) div 8 < 268435455" using assms by (simp add: less_mult_imp_div_less)
  ultimately have u: "unat (units nbytes) = (unat nbytes + 7) div 8 + 1"
    unfolding units_def by (subst unat_plus_u32) simp_all
  then show "unat (units nbytes) < 268435456" using \<open>(unat nbytes + 7) div 8 < 268435455\<close> by linarith
  show "units nbytes \<noteq> 0" using u by auto
  show "unat nbytes + 8 \<le> 8 * unat (units nbytes)" using u by linarith
qed

lemma heap_held_start:
  assumes "freep h = 0" "base \<noteq> 0" "unat base + 8 \<le> unat (brk w)"
  shows "heap_held base ((set_size base 0 (set_ptr base base h))\<lparr>freep := base\<rparr>) [base] w {}"
  using assms unat_less_2_32 [of base] by (simp add: heap_held_def ring_def under_def fin_def)

lemma heap_held_freep: "heap_held base h xs w L \<Longrightarrow> freep h \<noteq> 0"
proof -
  assume "heap_held base h xs w L"
  then have f: "freep h \<in> set xs" "base \<noteq> 0" "hd xs = base" "spaced h xs 4294967296" "xs \<noteq> []" by (simp_all add: heap_held_def ring_def)
  then have "freep h = base \<or> fin h base < unat (freep h)" using spaced_head [of h base "tl xs" _ "freep h"] by (cases xs) auto
  then show ?thesis using f(2) by auto
qed

lemma malloc_held:
  assumes H: "heap_held base h xs w L" and n: "unat nbytes \<le> 2147483000" and h: "h0 = h \<or> (freep h0 = 0 \<and> L = {} \<and> h = (set_size base 0 (set_ptr base base h0))\<lparr>freep := base\<rparr>)"
  shows "(\<exists>w'. malloc base nbytes h0 w = Some (0, h, w') \<and> heap_held base h xs w' L)
    \<or> (\<exists>b h' ys w'. malloc base nbytes h0 w = Some (b + 8, h', w') \<and> b + 8 \<noteq> 0 \<and> b \<notin> L \<and> hsize h' b = units nbytes
        \<and> heap_held base h' ys w' (insert b L) \<and> (\<forall>a\<in>L. hsize h' a = hsize h a))"
proof -
  have m: "malloc base nbytes h0 w = malloc_loop (units nbytes) (freep h) (hptr h (freep h)) h w"
    using h heap_held_freep [OF H] by (auto simp: malloc_def Let_def)
  have k: "ring base h xs" "under base h xs w" using H by (simp_all add: heap_held_def)
  note u = units_bound [OF n]
  from malloc_loop_ring [OF k u(1,2)] show ?thesis
  proof
    assume "\<exists>w'. malloc_loop (units nbytes) (freep h) (hptr h (freep h)) h w = Some (0, h, w') \<and> brk w' = brk w"
    then show ?thesis using H unfolding m heap_held_def under_def by auto
  next
    assume "\<exists>b h' ys w'. malloc_loop (units nbytes) (freep h) (hptr h (freep h)) h w = Some (b + 8, h', w') \<and> obtained base h xs w (units nbytes) b h' ys w'"
    then obtain b h' ys w' where b: "malloc_loop (units nbytes) (freep h) (hptr h (freep h)) h w = Some (b + 8, h', w')"
      "obtained base h xs w (units nbytes) b h' ys w'" by blast
    note O = heap_held_obtained [OF H b(2) u(2)]
    have "fin h' b < 4294967296" using O(1) unat_less_2_32 [of "brk w'"] by (auto simp: heap_held_def)
    moreover have s: "hsize h' b = units nbytes" using b(2) by (simp add: obtained_def)
    ultimately have "unat b + 8 < 4294967296" using u(3) by (simp add: fin_def)
    then have "unat (b + 8) = unat b + 8" using unat_plus_u32 [of b 8] by simp
    then have "b + 8 \<noteq> 0" by (auto simp flip: unat_eq_zero)
    then show ?thesis using O b(1) s unfolding m by blast
  qed
qed

lemma malloc_sound:
  assumes S: "sound_heap base (h, w, L)" and n: "unat nbytes \<le> 2147483000"
  shows "(\<exists>h' w'. malloc base nbytes h w = Some (0, h', w') \<and> sound_heap base (h', w', L) \<and> (\<forall>a\<in>L. hsize h' a = hsize h a))
    \<or> (\<exists>b h' ys w'. malloc base nbytes h w = Some (b + 8, h', w') \<and> b + 8 \<noteq> 0 \<and> b \<notin> L \<and> hsize h' b = units nbytes
        \<and> heap_held base h' ys w' (insert b L) \<and> (\<forall>a\<in>L. hsize h' a = hsize h a))"
proof (cases "freep h = 0 \<and> L = {} \<and> base \<noteq> 0 \<and> unat base + 8 \<le> unat (brk w)")
  case True
  let ?h = "(set_size base 0 (set_ptr base base h))\<lparr>freep := base\<rparr>"
  have "heap_held base ?h [base] w L" using heap_held_start True by auto
  from malloc_held [OF this n, of h] show ?thesis using True by (auto simp: heap_held_def)
next
  case False
  then obtain xs where H: "heap_held base h xs w L" using S by auto
  from malloc_held [OF H n, of h] show ?thesis by (auto 4 3)
qed

lemma uses_sound: "uses base s \<Longrightarrow> sound_heap base s"
proof (induction rule: uses.induct)
  case (got h w L nbytes r h' w')
  from malloc_sound [OF got(5,2)] got(3,4) obtain b ys where "r = b + 8" "heap_held base h' ys w' (insert b L)" by auto
  then show ?case by auto
next
  case (refused h w L nbytes h' w')
  from malloc_sound [OF refused(4,2)] refused(3) show ?case by auto
next
  case (freed h w L a h')
  then obtain xs where "heap_held base h xs w L" by auto
  from heap_held_free [OF this freed(2)] freed(3) show ?case by auto
qed auto

text \<open>(C5) In every state that a program reaches by calls of \<^verbatim>\<open>malloc\<close> (for less than two gigabytes) and \<^verbatim>\<open>free\<close> (of what it holds),
  \<^verbatim>\<open>malloc\<close> returns: its search of the circular list ends, before or after it has asked the kernel for more memory. It
  returns 0, or the address of as many bytes as were asked for, below the break, none of them in a block that the
  program holds, header included; and it leaves the sizes of those blocks alone.\<close>

theorem malloc_gives_fresh_bytes:
  assumes "uses base (h, w, L)" "unat nbytes \<le> 2147483000"
  shows "\<exists>r h' w'. malloc base nbytes h w = Some (r, h', w') \<and> (\<forall>a\<in>L. fin h' a = fin h a) \<and>
    (r = 0 \<or> unat r + unat nbytes \<le> unat (brk w') \<and> (\<forall>a\<in>L. {unat r - 8..<unat r + unat nbytes} \<inter> blk h a = {}))"
proof -
  from malloc_sound [OF uses_sound [OF assms(1)] assms(2)] show ?thesis
  proof
    assume "\<exists>h' w'. malloc base nbytes h w = Some (0, h', w') \<and> sound_heap base (h', w', L) \<and> (\<forall>a\<in>L. hsize h' a = hsize h a)"
    then show ?thesis by (auto simp: fin_def)
  next
    assume "\<exists>b h' ys w'. malloc base nbytes h w = Some (b + 8, h', w') \<and> b + 8 \<noteq> 0 \<and> b \<notin> L \<and> hsize h' b = units nbytes
        \<and> heap_held base h' ys w' (insert b L) \<and> (\<forall>a\<in>L. hsize h' a = hsize h a)"
    then obtain b h' ys w' where b: "malloc base nbytes h w = Some (b + 8, h', w')" "b \<notin> L" "hsize h' b = units nbytes"
      "heap_held base h' ys w' (insert b L)" "\<And>a. a \<in> L \<Longrightarrow> fin h' a = fin h a" by (auto simp: fin_def)
    have f: "unat b + 8 + unat nbytes \<le> fin h' b" using units_bound(3) [OF assms(2)] b(3) by (simp add: fin_def)
    have t: "fin h' b \<le> unat (brk w')" using b(4) by (simp add: heap_held_def)
    have "unat b + 8 < 4294967296" using f t unat_less_2_32 [of "brk w'"] by linarith
    then have r: "unat (b + 8) = unat b + 8" using unat_plus_u32 [of b 8] by simp
    have "{unat (b + 8) - 8..<unat (b + 8) + unat nbytes} \<inter> blk h a = {}" if a: "a \<in> L" for a
    proof -
      have P: "\<forall>a\<in>insert b L. \<forall>c\<in>insert b L. a \<noteq> c \<longrightarrow> blk h' a \<inter> blk h' c = {}" using b(4) unfolding heap_held_def by (elim conjE)
      have "b \<noteq> a" using a b(2) by blast
      with P [THEN bspec, THEN bspec, OF insertI1 insertI2 [OF a]] have "blk h' b \<inter> blk h' a = {}" by (rule mp)
      moreover have "{unat (b + 8) - 8..<unat (b + 8) + unat nbytes} \<subseteq> blk h' b" using f r by auto
      ultimately show ?thesis unfolding b(5) [OF a] by blast
    qed
    moreover have "unat (b + 8) + unat nbytes \<le> unat (brk w')" using f t r by linarith
    ultimately show ?thesis using b(1,5) by blast
  qed
qed

text \<open>(C17) In every such state \<^verbatim>\<open>free\<close> of a block that the program holds returns: its scan finds the place in the list. The other
  blocks keep their sizes, and the state reached is one in which all of this holds again: the blocks held are apart from
  each other and from the free ones, which form an ordered ring without two neighbours that touch.\<close>

theorem free_takes_back:
  assumes "uses base (h, w, L)" "a \<in> L"
  shows "\<exists>h'. free h (a + 8) = Some h' \<and> uses base (h', w, L - {a}) \<and> (\<exists>ys. heap_held base h' ys w (L - {a})) \<and> (\<forall>c\<in>L - {a}. fin h' c = fin h c)"
proof -
  obtain xs where H: "heap_held base h xs w L" using uses_sound [OF assms(1)] assms(2) by auto
  from heap_held_free [OF this assms(2)] obtain h' ys where "free h (a + 8) = Some h'" "heap_held base h' ys w (L - {a})" "\<forall>c\<in>L - {a}. hsize h' c = hsize h c"
    by blast
  then show ?thesis using uses.freed [OF assms] by (auto simp: fin_def)
qed

text \<open>A program with its static header at 64 and the break at 128.\<close>

definition heap_w :: heap where
  "heap_w = \<lparr>hptr = (\<lambda>_. 0), hsize = (\<lambda>_. 0), freep = 0\<rparr>"

definition brk_w :: brk_state where
  "brk_w = \<lparr>brk = 128, room = [True]\<rparr>"

lemma uses_w: "uses 64 (heap_w, brk_w, {})"
  by (rule uses.start) (simp_all add: heap_w_def brk_w_def)

theorem malloc_gives_fresh_bytes_witness:
  "\<exists>r h' w'. malloc 64 100 heap_w brk_w = Some (r, h', w') \<and> (r = 0 \<or> unat r + 100 \<le> unat (brk w'))"
  using malloc_gives_fresh_bytes [OF uses_w, of 100] by simp

text \<open>The first call takes the upper end of the 4096 units that the kernel gives.\<close>

lemma malloc_w:
  "\<exists>h'. malloc 64 100 heap_w brk_w = Some (32792, h', \<lparr>brk = 32896, room = []\<rparr>)"
proof -
  let ?h = "(set_size 64 0 (set_ptr 64 64 heap_w))\<lparr>freep := 64\<rparr>"
  let ?g = "(set_ptr 64 128 (set_ptr 128 64 (set_size 128 4096 ?h)))\<lparr>freep := 64\<rparr>"
  have u: "units 100 = 14" by (simp add: units_def)
  have s: "sbrk 32768 brk_w = (128, \<lparr>brk = 32896, room = []\<rparr>)" by (simp add: sbrk_def brk_w_def)
  have f: "free (set_size 128 4096 ?h) 136 = Some ?g"
    by (simp add: free_def free_scan.simps [of _ 128 64] join_upper_def join_lower_def set_ptr_def set_size_def heap_w_def)
  have m: "morecore 14 ?h brk_w = Some (64, ?g, \<lparr>brk = 32896, room = []\<rparr>)" using s f by (simp add: morecore_def)
  have "malloc_loop 14 64 64 ?h brk_w = malloc_loop 14 64 128 ?g \<lparr>brk = 32896, room = []\<rparr>"
    using m by (subst malloc_loop.simps) (simp add: heap_w_def)
  also have "\<dots> = Some (32792, snd (carve 14 64 128 ?g), \<lparr>brk = 32896, room = []\<rparr>)"
    by (subst malloc_loop.simps) (simp add: carve_def Let_def)
  finally show ?thesis using u by (auto simp: malloc_def heap_w_def)
qed

theorem free_takes_back_witness:
  "\<exists>h' w'. malloc 64 100 heap_w brk_w = Some (32792, h', w') \<and> (\<exists>h''. free h' 32792 = Some h'')"
proof -
  obtain h' where m: "malloc 64 100 heap_w brk_w = Some (32792, h', \<lparr>brk = 32896, room = []\<rparr>)" using malloc_w by blast
  have "uses 64 (h', \<lparr>brk = 32896, room = []\<rparr>, insert (32792 - 8) {})" by (rule uses.got [OF uses_w _ m]) simp_all
  from free_takes_back [OF this, of 32784] m show ?thesis by auto
qed

text \<open>The computation of the number of units wraps: a call for the largest number of bytes gets a block with none.\<close>

lemma units_wrap: "units (- 1) = 1"
  by (simp add: units_def)

end
