(* ===== verification/Boot.thy ===== *)
theory Boot
  imports OS_Prelude
begin

text \<open>
  From reset to the scheduler: \<^verbatim>\<open>kernel/mstart.c\<close> with the accessors of \<^verbatim>\<open>kernel/regs.h\<close> that it uses, the timer's trap handler
  \<^verbatim>\<open>kernel/tvec.S\<close>, and \<^verbatim>\<open>enter\<close> of \<^verbatim>\<open>kernel/kernel.c\<close>. A hart is its control registers, the general registers that the
  handler uses, and the words of memory at their addresses (the timer's registers are in memory, too). \<^verbatim>\<open>sie\<close> is the part of
  \<^verbatim>\<open>mie\<close> that is delegated to the supervisor. The addresses of \<^verbatim>\<open>enter\<close>, \<^verbatim>\<open>tvec\<close> and \<^verbatim>\<open>scratch\<close> are given by the linker.
\<close>

unbundle bit_operations_syntax

section \<open>The registers\<close>

datatype priv = Machine | Supervisor | User

record hart_regs =
  mode :: priv
  pc :: u32
  mstatus :: u32
  mepc :: u32
  satp :: u32
  medeleg :: u32
  mideleg :: u32
  mie :: u32
  scause :: u32
  mscratch :: u32
  mtvec :: u32
  pmpaddr0 :: u32
  pmpcfg0 :: u32
  mhartid :: u32
  tp :: u32
  sip :: u32
  a0 :: u32
  a1 :: u32
  a2 :: u32
  a3 :: u32
  a4 :: u32
  word_at :: "u32 \<Rightarrow> u32"

definition get_mstatus :: "hart_regs \<Rightarrow> u32" where
  "get_mstatus c = mstatus c"

definition write_mstatus :: "u32 \<Rightarrow> hart_regs \<Rightarrow> hart_regs" where
  "write_mstatus x c = c\<lparr>mstatus := x\<rparr>"

definition write_mepc :: "u32 \<Rightarrow> hart_regs \<Rightarrow> hart_regs" where
  "write_mepc x c = c\<lparr>mepc := x\<rparr>"

definition write_satp :: "u32 \<Rightarrow> hart_regs \<Rightarrow> hart_regs" where
  "write_satp x c = c\<lparr>satp := x\<rparr>"

definition write_medeleg :: "u32 \<Rightarrow> hart_regs \<Rightarrow> hart_regs" where
  "write_medeleg x c = c\<lparr>medeleg := x\<rparr>"

definition write_mideleg :: "u32 \<Rightarrow> hart_regs \<Rightarrow> hart_regs" where
  "write_mideleg x c = c\<lparr>mideleg := x\<rparr>"

definition write_mie :: "u32 \<Rightarrow> hart_regs \<Rightarrow> hart_regs" where
  "write_mie x c = c\<lparr>mie := x\<rparr>"

text \<open>\<^verbatim>\<open>get_mie\<close> reads the register \<^verbatim>\<open>scause\<close>.\<close>

definition get_mie :: "hart_regs \<Rightarrow> u32" where
  "get_mie c = scause c"

text \<open>The supervisor's interrupts are those of the bits 1, 5 and 9.\<close>

definition sie_mask :: "hart_regs \<Rightarrow> u32" where
  "sie_mask c = mideleg c AND 0x222"

definition get_sie :: "hart_regs \<Rightarrow> u32" where
  "get_sie c = mie c AND sie_mask c"

definition write_sie :: "u32 \<Rightarrow> hart_regs \<Rightarrow> hart_regs" where
  "write_sie x c = c\<lparr>mie := (mie c AND NOT (sie_mask c)) OR (x AND sie_mask c)\<rparr>"

definition write_pmpaddr0 :: "u32 \<Rightarrow> hart_regs \<Rightarrow> hart_regs" where
  "write_pmpaddr0 x c = c\<lparr>pmpaddr0 := x\<rparr>"

definition write_pmpcfg0 :: "u32 \<Rightarrow> hart_regs \<Rightarrow> hart_regs" where
  "write_pmpcfg0 x c = c\<lparr>pmpcfg0 := x\<rparr>"

definition get_mhartid :: "hart_regs \<Rightarrow> u32" where
  "get_mhartid c = mhartid c"

definition write_mscratch :: "u32 \<Rightarrow> hart_regs \<Rightarrow> hart_regs" where
  "write_mscratch x c = c\<lparr>mscratch := x\<rparr>"

definition write_mtvec :: "u32 \<Rightarrow> hart_regs \<Rightarrow> hart_regs" where
  "write_mtvec x c = c\<lparr>mtvec := x\<rparr>"

definition write_tp :: "u32 \<Rightarrow> hart_regs \<Rightarrow> hart_regs" where
  "write_tp x c = c\<lparr>tp := x\<rparr>"

definition get_tp :: "hart_regs \<Rightarrow> u32" where
  "get_tp c = tp c"

definition which_cpu :: "hart_regs \<Rightarrow> u32" where
  "which_cpu c = get_tp c"

definition store :: "u32 \<Rightarrow> u32 \<Rightarrow> hart_regs \<Rightarrow> hart_regs" where
  "store a v c = c\<lparr>word_at := (word_at c)(a := v)\<rparr>"

lemmas csr_defs = get_mstatus_def write_mstatus_def write_mepc_def write_satp_def write_medeleg_def write_mideleg_def write_mie_def
  get_mie_def sie_mask_def get_sie_def write_sie_def write_pmpaddr0_def write_pmpcfg0_def get_mhartid_def write_mscratch_def
  write_mtvec_def write_tp_def get_tp_def which_cpu_def store_def

section \<open>mstart and timer_init\<close>

abbreviation "MSTATUS_MIE \<equiv> 8 :: u32"
abbreviation "MIE_MTIE \<equiv> 0x80 :: u32"
abbreviation "INTERVAL \<equiv> 1000000 :: u32"
abbreviation "CLINT \<equiv> 0x02000000 :: u32"

definition CLINT_MTIMECMP :: "u32 \<Rightarrow> u32" where
  "CLINT_MTIMECMP hartid = CLINT + 0x4000 + 8 * hartid"

definition CLINT_MTIME :: u32 where
  "CLINT_MTIME = CLINT + 0xBFF8"

text \<open>A number of 64 bits in two words, the lower one first.\<close>

definition dword :: "hart_regs \<Rightarrow> u32 \<Rightarrow> nat" where
  "dword c a = unat (word_at c a) + 4294967296 * unat (word_at c (a + 4))"

definition store_dword :: "u32 \<Rightarrow> nat \<Rightarrow> hart_regs \<Rightarrow> hart_regs" where
  "store_dword a v c = store (a + 4) (of_nat (v div 4294967296)) (store a (of_nat v) c)"

definition timer_init :: "u32 \<Rightarrow> u32 \<Rightarrow> hart_regs \<Rightarrow> hart_regs" where
  "timer_init tvec scratch c =
     (let hart_id = get_mhartid c;
          c = store_dword (CLINT_MTIMECMP hart_id) (dword c CLINT_MTIME + unat INTERVAL) c;
          scratch_ptr = scratch + 4 * (32 * hart_id);
          c = store (scratch_ptr + 16) (CLINT_MTIMECMP hart_id) c;
          c = store (scratch_ptr + 20) INTERVAL c;
          c = write_mscratch scratch_ptr c;
          c = write_mtvec tvec c;
          c = write_mstatus (get_mstatus c OR MSTATUS_MIE) c
      in write_mie (get_mie c OR MIE_MTIE) c)"

text \<open>\<^verbatim>\<open>mret\<close>: to the mode of the field MPP at the address in \<^verbatim>\<open>mepc\<close>; MIE becomes MPIE, MPIE 1 and MPP the user mode.\<close>

definition mpp :: "u32 \<Rightarrow> priv" where
  "mpp s = (if (s AND 0x1800) = 0x1800 then Machine else if (s AND 0x1800) = 0x0800 then Supervisor else User)"

definition mret :: "hart_regs \<Rightarrow> hart_regs" where
  "mret c =
     (let s = mstatus c in
      c\<lparr>mode := mpp s, pc := mepc c,
        mstatus := ((s AND NOT 0x1888) OR 0x80) OR (if (s AND 0x80) \<noteq> 0 then MSTATUS_MIE else 0)\<rparr>)"

definition mstart :: "u32 \<Rightarrow> u32 \<Rightarrow> u32 \<Rightarrow> hart_regs \<Rightarrow> hart_regs" where
  "mstart enter tvec scratch c =
     (let s = get_mstatus c;
          s = s AND NOT 0x1800;
          s = s OR 0x0800;
          c = write_mstatus s c;
          c = write_mepc enter c;
          c = write_satp 0 c;
          c = write_medeleg 0xffff c;
          c = write_mideleg 0xffff c;
          c = write_pmpaddr0 0xffffffff c;
          c = write_pmpcfg0 0xf c;
          c = write_sie (get_sie c OR 0x222) c;
          c = timer_init tvec scratch c;
          c = write_tp (get_mhartid c) c
      in mret c)"

section \<open>The timer's trap handler\<close>

text \<open>\<^verbatim>\<open>tvec\<close>: \<^verbatim>\<open>mscratch\<close> points to six words, four to save registers in, the address of the timer's compare register and the
  interval.\<close>

definition tvec_swap :: "hart_regs \<Rightarrow> hart_regs" where
  "tvec_swap c = c\<lparr>a0 := mscratch c, mscratch := a0 c\<rparr>"

definition tvec_save :: "hart_regs \<Rightarrow> hart_regs" where
  "tvec_save c = store (a0 c + 12) (a4 c) (store (a0 c + 8) (a3 c) (store (a0 c + 4) (a2 c) (store (a0 c) (a1 c) c)))"

definition tvec_add :: "hart_regs \<Rightarrow> hart_regs" where
  "tvec_add c =
     (let c = c\<lparr>a1 := word_at c (a0 c + 16), a2 := word_at c (a0 c + 20)\<rparr>;
          c = c\<lparr>a3 := word_at c (a1 c), a4 := word_at c (a1 c + 4)\<rparr>;
          c = c\<lparr>a3 := a3 c + a2 c\<rparr>;
          c = c\<lparr>a2 := (if a3 c < a2 c then 1 else 0)\<rparr>;
          c = c\<lparr>a4 := a4 c + a2 c\<rparr>;
          c = c\<lparr>a2 := - 1\<rparr>
      in store (a1 c) (a3 c) (store (a1 c + 4) (a4 c) (store (a1 c) (a2 c) c)))"

definition tvec_restore :: "hart_regs \<Rightarrow> hart_regs" where
  "tvec_restore c =
     (let c = c\<lparr>a1 := 2\<rparr>;
          c = c\<lparr>sip := a1 c\<rparr>;
          c = c\<lparr>a4 := word_at c (a0 c + 12)\<rparr>;
          c = c\<lparr>a3 := word_at c (a0 c + 8)\<rparr>;
          c = c\<lparr>a2 := word_at c (a0 c + 4)\<rparr>
      in c\<lparr>a1 := word_at c (a0 c)\<rparr>)"

definition tvec :: "hart_regs \<Rightarrow> hart_regs" where
  "tvec c = mret (tvec_swap (tvec_restore (tvec_add (tvec_save (tvec_swap c)))))"

section \<open>enter\<close>

text \<open>The calls that the first hart makes, in their order. Another hart waits in a loop while \<^verbatim>\<open>started\<close> reads as zero; the list holds
  what it reads.\<close>

datatype init_call =
    Console_init | Kprintf_init | Kprintf string | Pmm_init | Kpage_init | Init_paging | Process_init | Init_trapvec | Init_ktrapvec
  | Plic_init | Plic_init_hart | Buffer_init | Inode_init | File_init | Disk_init | Init_user | Fence | Cpu_scheduler

fun wait_started :: "int list \<Rightarrow> init_call list \<Rightarrow> init_call list" where
  "wait_started [] k = []"
| "wait_started (v # vs) k = (if v = 0 then wait_started vs k else k)"

definition enter :: "hart_regs \<Rightarrow> int list \<Rightarrow> init_call list" where
  "enter c reads =
     (if which_cpu c = 0 then
        [Console_init, Kprintf_init, Kprintf [CHR 0x0A], Kprintf (''%s'' @ [CHR 0x0A, CHR 0x0A]), Pmm_init, Kpage_init, Init_paging, Process_init, Init_trapvec, Init_ktrapvec,
         Plic_init, Plic_init_hart, Buffer_init, Inode_init, File_init, Disk_init, Init_user, Fence, Cpu_scheduler]
      else wait_started reads [Fence, Kprintf (''hart %d booting'' @ [CHR 0x0A]), Init_paging, Init_ktrapvec, Plic_init_hart, Cpu_scheduler])"

section \<open>The timer\<close>

lemma and_parts: "(x OR y) AND z = (x AND z) OR (y AND z)" for x y z :: u32
  by (rule bit.conj_disj_distrib2)

lemma mpp_supervisor: "(((s AND - 6145) OR 0x800) OR 8) AND 0x1800 = (0x800 :: u32)"
  by (simp add: and_parts and.assoc)

lemma hart_fields [simp]:
  "word_at (store a v c) = (word_at c)(a := v)" "mscratch (store a v c) = mscratch c" "a0 (store a v c) = a0 c" "a1 (store a v c) = a1 c"
  "a2 (store a v c) = a2 c" "a3 (store a v c) = a3 c" "a4 (store a v c) = a4 c" "mhartid (store a v c) = mhartid c"
  by (simp_all add: store_def)

text \<open>The addition of the interval in two words, the carry found by a comparison.\<close>

lemma add_with_carry:
  fixes lo hi n :: u32
  shows "(unat (lo + n) + 4294967296 * unat (hi + (if lo + n < n then 1 else 0))) mod 18446744073709551616 =
    (unat lo + 4294967296 * unat hi + unat n) mod 18446744073709551616"
proof -
  have b: "unat lo < 4294967296" "unat n < 4294967296" "unat hi < 4294967296" by (rule unat_less_2_32)+
  show ?thesis
  proof (cases "unat lo + unat n < 4294967296")
    case True
    then have "unat (lo + n) = unat lo + unat n" by (rule unat_plus_u32)
    moreover from this have "\<not> lo + n < n" by (simp add: word_less_nat_alt)
    moreover from calculation have "unat (lo + n) + 4294967296 * unat hi = unat lo + 4294967296 * unat hi + unat n" by linarith
    ultimately show ?thesis by (simp only: if_False add_0_right)
  next
    case False
    have "unat (lo + n) = (unat lo + unat n) mod 4294967296" by (simp add: unat_word_ariths)
    also have "\<dots> = (unat lo + unat n - 4294967296) mod 4294967296" using False by (intro le_mod_geq) simp
    also have "\<dots> = unat lo + unat n - 4294967296" using b by (intro mod_less) linarith
    finally have s: "unat (lo + n) = unat lo + unat n - 4294967296" .
    then have l: "lo + n < n" using False b unfolding word_less_nat_alt by linarith
    have h: "unat (hi + 1) = (unat hi + 1) mod 4294967296" by (simp add: unat_word_ariths)
    have sq: "(4294967296 :: nat) * 4294967296 = 18446744073709551616" by simp
    have "4294967296 * unat (hi + 1) = 4294967296 * (unat hi + 1) mod 18446744073709551616"
      unfolding h sq [symmetric] by (rule mult_mod_right)
    then have "(unat (lo + n) + 4294967296 * unat (hi + 1)) mod 18446744073709551616 = (unat (lo + n) + 4294967296 * (unat hi + 1)) mod 18446744073709551616"
      by (simp only: mod_add_right_eq)
    moreover have "unat (lo + n) + 4294967296 * (unat hi + 1) = unat lo + 4294967296 * unat hi + unat n"
      unfolding s distrib_left using False by simp
    ultimately show ?thesis using l by (simp only: if_True)
  qed
qed

text \<open>The words that \<^verbatim>\<open>tvec\<close> uses for itself are not those of the timer.\<close>

definition timer_ready :: "u32 \<Rightarrow> u32 \<Rightarrow> hart_regs \<Rightarrow> bool" where
  "timer_ready t n c \<longleftrightarrow> word_at c (mscratch c + 16) = t \<and> word_at c (mscratch c + 20) = n
     \<and> list_all (\<lambda>i. mscratch c + i \<noteq> t \<and> mscratch c + i \<noteq> t + 4) [0, 4, 8, 12, 16, 20]"

lemma mret_fields [simp]:
  "word_at (mret c) = word_at c" "mscratch (mret c) = mscratch c" "a0 (mret c) = a0 c" "a1 (mret c) = a1 c"
  "a2 (mret c) = a2 c" "a3 (mret c) = a3 c" "a4 (mret c) = a4 c" "sip (mret c) = sip c"
  by (simp_all add: mret_def Let_def)

lemma word_add_neq: "(x + numeral k :: u32) = x + numeral l \<longleftrightarrow> (numeral k :: u32) = numeral l" "(x :: u32) = x + y \<longleftrightarrow> y = 0" "(x :: u32) + y = x \<longleftrightarrow> y = 0"
  by auto

lemma tvec_step:
  assumes "timer_ready t n c"
  shows "timer_ready t n (tvec c)" "dword (tvec c) t mod 18446744073709551616 = (dword c t + unat n) mod 18446744073709551616"
    and "(a0 (tvec c), a1 (tvec c), a2 (tvec c), a3 (tvec c), a4 (tvec c)) = (a0 c, a1 c, a2 c, a3 c, a4 c)" "sip (tvec c) = 2"
    and "\<And>a. a \<notin> {t, t + 4} \<union> (\<lambda>i. mscratch c + i) ` {0, 4, 8, 12} \<Longrightarrow> word_at (tvec c) a = word_at c a"
proof -
  define p where "p = mscratch c"
  have r: "word_at c (p + 16) = t" "word_at c (p + 20) = n" "p \<noteq> t" "p \<noteq> t + 4" "p + 4 \<noteq> t" "p + 4 \<noteq> t + 4" "p + 8 \<noteq> t" "p + 8 \<noteq> t + 4"
    "p + 12 \<noteq> t" "p + 12 \<noteq> t + 4" "p + 16 \<noteq> t" "p + 16 \<noteq> t + 4" "p + 20 \<noteq> t" "p + 20 \<noteq> t + 4"
    using assms by (auto simp: timer_ready_def p_def [symmetric])
  define lo hi where "lo = word_at c t" and "hi = word_at c (t + 4)"
  define w where "w = (word_at c)(p := a1 c, p + 4 := a2 c, p + 8 := a3 c, p + 12 := a4 c, t := - 1, t + 4 := hi + (if lo + n < n then 1 else 0), t := lo + n)"
  have t: "tvec c = mret (c\<lparr>word_at := w, sip := 2, mscratch := p\<rparr>)"
    using r by (simp add: tvec_def tvec_swap_def tvec_save_def tvec_add_def tvec_restore_def Let_def store_def w_def lo_def hi_def p_def [symmetric] word_add_neq)
  have at: "w (p + 16) = t" "w (p + 20) = n" "w t = lo + n" "w (t + 4) = hi + (if lo + n < n then 1 else 0)"
    using r by (simp_all add: w_def word_add_neq)
  show "timer_ready t n (tvec c)" using assms at(1,2) by (simp add: t timer_ready_def p_def)
  show "dword (tvec c) t mod 18446744073709551616 = (dword c t + unat n) mod 18446744073709551616"
    using add_with_carry [of lo n hi] at(3,4) by (simp add: t dword_def lo_def [symmetric] hi_def [symmetric] del: fun_upd_apply)
  show "(a0 (tvec c), a1 (tvec c), a2 (tvec c), a3 (tvec c), a4 (tvec c)) = (a0 c, a1 c, a2 c, a3 c, a4 c)" "sip (tvec c) = 2"
    by (simp_all add: t)
  show "word_at (tvec c) a = word_at c a" if "a \<notin> {t, t + 4} \<union> (\<lambda>i. mscratch c + i) ` {0, 4, 8, 12}" for a
    using that by (simp add: t w_def p_def)
qed

lemma dword_less: "dword c a < 18446744073709551616"
  using unat_less_2_32 [of "word_at c a"] unat_less_2_32 [of "word_at c (a + 4)"] unfolding dword_def by linarith

lemma tvec_times:
  assumes "timer_ready t n c"
  shows "timer_ready t n ((tvec ^^ k) c) \<and> dword ((tvec ^^ k) c) t = (dword c t + k * unat n) mod 18446744073709551616"
proof (induction k)
  case 0
  then show ?case using assms dword_less [of c t] by simp
next
  case (Suc k)
  then have r: "timer_ready t n ((tvec ^^ k) c)" by simp
  have "dword ((tvec ^^ Suc k) c) t = (dword ((tvec ^^ k) c) t + unat n) mod 18446744073709551616"
    using tvec_step(2) [OF r] dword_less [of "tvec ((tvec ^^ k) c)" t] by simp
  also have "\<dots> = (dword c t + k * unat n + unat n) mod 18446744073709551616" using Suc by (simp add: mod_add_left_eq)
  also have "dword c t + k * unat n + unat n = dword c t + Suc k * unat n" by simp
  finally show ?case using tvec_step(1) [OF r] by simp
qed

section \<open>After mstart\<close>

definition timer_words :: "u32 \<Rightarrow> hart_regs \<Rightarrow> u32 \<Rightarrow> u32" where
  "timer_words scratch c = (word_at (store_dword (CLINT_MTIMECMP (mhartid c)) (dword c CLINT_MTIME + 1000000) c))
     (scratch + 4 * (32 * mhartid c) + 16 := CLINT_MTIMECMP (mhartid c), scratch + 4 * (32 * mhartid c) + 20 := INTERVAL)"

lemma timer_init_eq:
  "timer_init tv scratch c = c\<lparr>word_at := timer_words scratch c, mscratch := scratch + 4 * (32 * mhartid c), mtvec := tv,
     mstatus := mstatus c OR MSTATUS_MIE, mie := scause c OR MIE_MTIE\<rparr>"
  by (simp add: timer_init_def timer_words_def csr_defs store_dword_def Let_def)

lemma mstart_eq:
  "mstart en tv scratch c = mret (c\<lparr>mepc := en, satp := 0, medeleg := 0xffff, mideleg := 0xffff, pmpaddr0 := 0xffffffff, pmpcfg0 := 0xf,
     word_at := timer_words scratch c, mscratch := scratch + 4 * (32 * mhartid c), mtvec := tv,
     mstatus := ((mstatus c AND NOT 0x1800) OR 0x800) OR MSTATUS_MIE, mie := scause c OR MIE_MTIE, tp := mhartid c\<rparr>)"
proof -
  have w: "timer_words scratch (c\<lparr>mstatus := s, mepc := en, satp := 0, medeleg := 0xffff, mideleg := 0xffff, pmpaddr0 := 0xffffffff, pmpcfg0 := 0xf, mie := i\<rparr>) = timer_words scratch c" for s i
    by (simp add: timer_words_def store_dword_def dword_def)
  show ?thesis unfolding mstart_def Let_def timer_init_eq by (simp add: csr_defs w)
qed

lemma mstart_state:
  fixes en tv scratch :: u32 and c :: hart_regs
  defines "c' \<equiv> mstart en tv scratch c"
  shows "mode c' = Supervisor" "pc c' = en" "satp c' = 0" "medeleg c' = 0xffff" "mideleg c' = 0xffff"
    "pmpaddr0 c' = 0xffffffff" "pmpcfg0 c' = 0xf" "tp c' = mhartid c" "mtvec c' = tv" "mscratch c' = scratch + 4 * (32 * mhartid c)"
    "mie c' = scause c OR MIE_MTIE"
  unfolding c'_def mstart_eq by (simp_all add: mret_def Let_def mpp_def mpp_supervisor)

lemma dword_stored: "dword (store_dword a v c) a = v mod 18446744073709551616"
proof -
  have "v mod 18446744073709551616 = v mod 4294967296 + 4294967296 * (v div 4294967296 mod 4294967296)"
    using mod_mult2_eq [of v 4294967296 4294967296] by simp
  then show ?thesis by (simp add: dword_def store_dword_def word_add_neq unat_of_nat)
qed

text \<open>The memory of the kernel is far above the timer's registers.\<close>

lemma mstart_timer:
  assumes "unat (mhartid c) < 8" "0x80000000 \<le> scratch" "scratch < 0x90000000"
  defines "t \<equiv> CLINT_MTIMECMP (mhartid c)"
  shows "timer_ready t INTERVAL (mstart en tv scratch c)"
    and "dword (mstart en tv scratch c) t = (dword c CLINT_MTIME + 1000000) mod 18446744073709551616"
proof -
  let ?p = "scratch + 4 * (32 * mhartid c)"
  have s: "unat scratch \<ge> 2147483648" "unat scratch < 2415919104" using assms(2,3) by (simp_all add: word_le_nat_alt word_less_nat_alt)
  have h: "unat (4 * (32 * mhartid c)) = 128 * unat (mhartid c)" "unat (8 * mhartid c) = 8 * unat (mhartid c)"
    using assms(1) by (simp_all add: unat_word_ariths)
  have p: "unat (?p + i) = unat scratch + 128 * unat (mhartid c) + unat i" if "unat i \<le> 20" for i
    using s h(1) assms(1) that by (simp add: unat_plus_u32)
  have t: "unat t < 33800000" "unat (t + 4) < 33800000" using assms(1) h(2) by (simp_all add: t_def CLINT_MTIMECMP_def unat_plus_u32)
  have neq: "?p + i \<noteq> t \<and> ?p + i \<noteq> t + 4" if "unat i \<le> 20" for i
    using p [OF that] t s by auto
  have w: "word_at (mstart en tv scratch c) = timer_words scratch c" "mscratch (mstart en tv scratch c) = ?p"
    by (simp_all add: mstart_eq)
  have "timer_words scratch c (?p + 16) = t" "timer_words scratch c (?p + 20) = INTERVAL"
    by (simp_all add: timer_words_def t_def)
  moreover have "list_all (\<lambda>i. ?p + i \<noteq> t \<and> ?p + i \<noteq> t + 4) [0, 4, 8, 12, 16, 20]"
    using neq [of 0] neq [of 4] neq [of 8] neq [of 12] neq [of 16] neq [of 20] by simp
  ultimately show "timer_ready t INTERVAL (mstart en tv scratch c)" by (simp add: timer_ready_def w)
  have "timer_words scratch c t = word_at (store_dword t (dword c CLINT_MTIME + 1000000) c) t"
    "timer_words scratch c (t + 4) = word_at (store_dword t (dword c CLINT_MTIME + 1000000) c) (t + 4)"
    using neq [of 16] neq [of 20] by (auto simp: timer_words_def t_def)
  then have "dword (mstart en tv scratch c) t = dword (store_dword t (dword c CLINT_MTIME + 1000000) c) t" by (simp add: dword_def w)
  then show "dword (mstart en tv scratch c) t = (dword c CLINT_MTIME + 1000000) mod 18446744073709551616" by (simp add: dword_stored)
qed

section \<open>Properties\<close>

text \<open>\<^verbatim>\<open>mstart\<close> leaves the machine mode for \<^verbatim>\<open>enter\<close> in the supervisor mode, without translation of addresses, with access to all of
  memory, the traps delegated, the number of the hart in \<^verbatim>\<open>tp\<close> and the timer's interrupt enabled; but of the bits of
  \<^verbatim>\<open>sie\<close> that it has set, \<^verbatim>\<open>timer_init\<close> leaves those that are in \<^verbatim>\<open>scause\<close>: \<^verbatim>\<open>get_mie\<close> reads that register.\<close>

theorem mstart_enters_supervisor:
  "let c' = mstart en tv scratch c in
    mode c' = Supervisor \<and> pc c' = en \<and> satp c' = 0 \<and> medeleg c' = 0xffff \<and> mideleg c' = 0xffff \<and> pmpaddr0 c' = 0xffffffff
    \<and> pmpcfg0 c' = 0xf \<and> mtvec c' = tv \<and> which_cpu c' = mhartid c \<and> mie c' AND MIE_MTIE = MIE_MTIE \<and> get_sie c' = scause c AND 0x222"
proof -
  have "(scause c OR MIE_MTIE) AND MIE_MTIE = MIE_MTIE" by (rule bit_word_eqI) (auto simp: bit_and_iff bit_or_iff)
  then show ?thesis using mstart_state [of en tv scratch c]
    by (simp add: Let_def which_cpu_def get_tp_def get_sie_def sie_mask_def and_parts)
qed

text \<open>(C27) The timer keeps its period: after \<^verbatim>\<open>mstart\<close> and any number \<open>k\<close> of its interrupts, the compare register is the time of the
  start and \<open>k + 1\<close> intervals, with the carry between its two words and modulo its 64 bits, and the interrupted program has
  its registers back.\<close>

theorem timer_keeps_period:
  fixes en tv scratch :: u32
  assumes "unat (mhartid c) < 8" "0x80000000 \<le> scratch" "scratch < 0x90000000"
  defines "c' k \<equiv> (tvec ^^ k) (mstart en tv scratch c)"
  shows "dword (c' k) (CLINT_MTIMECMP (mhartid c)) = (dword c CLINT_MTIME + (k + 1) * 1000000) mod 18446744073709551616
    \<and> (a0 (c' (Suc k)), a1 (c' (Suc k)), a2 (c' (Suc k)), a3 (c' (Suc k)), a4 (c' (Suc k))) = (a0 (c' k), a1 (c' k), a2 (c' k), a3 (c' k), a4 (c' k))"
proof
  let ?t = "CLINT_MTIMECMP (mhartid c)"
  note M = mstart_timer [OF assms(1-3), of en tv]
  note T = tvec_times [OF M(1), of k]
  have "dword (c' k) ?t = ((dword c CLINT_MTIME + 1000000) mod 18446744073709551616 + k * 1000000) mod 18446744073709551616"
    using T M(2) by (simp add: c'_def)
  also have "\<dots> = (dword c CLINT_MTIME + 1000000 + k * 1000000) mod 18446744073709551616" by (rule mod_add_left_eq)
  also have "dword c CLINT_MTIME + 1000000 + k * 1000000 = dword c CLINT_MTIME + (k + 1) * 1000000" by simp
  finally show "dword (c' k) ?t = (dword c CLINT_MTIME + (k + 1) * 1000000) mod 18446744073709551616" .
  show "(a0 (c' (Suc k)), a1 (c' (Suc k)), a2 (c' (Suc k)), a3 (c' (Suc k)), a4 (c' (Suc k))) = (a0 (c' k), a1 (c' k), a2 (c' k), a3 (c' k), a4 (c' k))"
    using tvec_step(3) [OF conjunct1 [OF T]] by (simp add: c'_def)
qed

definition hart_w :: hart_regs where
  "hart_w = \<lparr>mode = Machine, pc = 0, mstatus = 0, mepc = 0, satp = 0, medeleg = 0, mideleg = 0, mie = 0, scause = 0, mscratch = 0, mtvec = 0,
     pmpaddr0 = 0, pmpcfg0 = 0, mhartid = 1, tp = 0, sip = 0, a0 = 0, a1 = 0, a2 = 0, a3 = 0, a4 = 0, word_at = (\<lambda>a. if a = CLINT_MTIME then 4294967295 else 0)\<rparr>"

theorem timer_keeps_period_witness:
  "dword ((tvec ^^ 2) (mstart 0x80000100 0x80000200 0x80001000 hart_w)) (CLINT_MTIMECMP 1) = 4294967295 + 3 * 1000000"
  using timer_keeps_period [of hart_w "0x80001000", where k = 2 and en = "0x80000100" and tv = "0x80000200"] by (simp add: hart_w_def dword_def CLINT_MTIME_def)

text \<open>No hart but the first leaves the loop: \<^verbatim>\<open>started\<close> is never set.\<close>

lemma other_harts_wait: "which_cpu c \<noteq> 0 \<Longrightarrow> \<forall>v\<in>set vs. v = 0 \<Longrightarrow> enter c vs = []"
proof -
  assume "which_cpu c \<noteq> 0" "\<forall>v\<in>set vs. v = 0"
  moreover have "\<forall>v\<in>set vs. v = 0 \<Longrightarrow> wait_started vs k = []" for k by (induction vs) simp_all
  ultimately show ?thesis by (simp add: enter_def)
qed

end
