(* ===== verification/Spec2Isabelle.thy ===== *)
theory Spec2Isabelle
  imports Trap Shell_Line Mount Umalloc Boot
begin

text \<open>
  A model of RISC-V-OS, a Unix-like system for 32-bit RISC-V written in C, and theorems about it. The C sources are under \<^verbatim>\<open>src/src\<close>: the kernel in \<^verbatim>\<open>kernel\<close>, the C library in
  \<^verbatim>\<open>libc\<close>, user programs in \<^verbatim>\<open>user\<close>, the tool that builds the disk image in \<^verbatim>\<open>makefs.c\<close>.

  \<^bold>\<open>How the parts fit together.\<close> The allocator of physical pages (\<^verbatim>\<open>pmm.c\<close>) feeds the page tables
  (\<^verbatim>\<open>paging.c\<close>), the pipes and the processes. Every shared structure is protected by a spin lock
  (\<^verbatim>\<open>locks.c\<close>); a spin lock is held with interrupts off on its hart. The scheduler (\<^verbatim>\<open>process.c\<close>)
  gives processes to harts; \<^verbatim>\<open>sleep\<close> and \<^verbatim>\<open>wakeup\<close> are the way processes wait, also for sleep locks.
  The file system (\<^verbatim>\<open>filesys.c\<close>) has the usual layers: a block cache (\<^verbatim>\<open>bufcache.c\<close>) over the disk,
  a write-ahead log over the cache, a block bitmap and disk inodes over the log, directories over
  inodes, path names over directories. Open files (\<^verbatim>\<open>file.c\<close>) are inodes, pipes (\<^verbatim>\<open>pipes.c\<close>) or
  the console (\<^verbatim>\<open>console.c\<close> over \<^verbatim>\<open>uart.c\<close>). A trap (\<^verbatim>\<open>trap.c\<close>) is an interrupt of a device, of the timer, or
  a system call (\<^verbatim>\<open>syscall.c\<close>, \<^verbatim>\<open>sysfile.c\<close>, \<^verbatim>\<open>sysproc.c\<close>); blocks reach the disk through the virtio driver (\<^verbatim>\<open>disk.c\<close>).
  The first program, \<^verbatim>\<open>init.c\<close>, starts the shell (\<^verbatim>\<open>sh.c\<close>), which parses lines and makes processes of them; the
  programs use \<^verbatim>\<open>ulibc.c\<close>, \<^verbatim>\<open>printf.c\<close> and \<^verbatim>\<open>malloc.c\<close>. The disk they live on is made by \<^verbatim>\<open>makefs.c\<close> on the host.

  \<^bold>\<open>The theories\<close>, each a group of definitions in the order of the C file and the lemmas about them:

  \<^item> \<open>OS_Prelude\<close>: machine types, the result type of kernel routines and its composition, lemmas on
    words and lists. \<open>Machine_Mem\<close>: a byte-addressed memory, its words, and the interface of a word
    memory as a locale.
  \<^item> \<open>Libc_String\<close> (\<^verbatim>\<open>libc/string\<close>): the routines of \<^verbatim>\<open>string.h\<close>; what each of them copies, compares or
    counts, including the additional byte that \<^verbatim>\<open>memcpy\<close> and \<^verbatim>\<open>memmove\<close> copy, which the models of their
    callers have too.
  \<^item> \<open>Pmm\<close> (\<^verbatim>\<open>pmm.c\<close>, \<^verbatim>\<open>kalloc.c\<close>): both page allocators, against the same interface of a page
    allocator (a locale, interpreted for each of them).
  \<^item> \<open>Paging\<close> (\<^verbatim>\<open>paging.c\<close>): page tables as words of memory, against the translation they define; mapping,
    unmapping, copying between address spaces.
  \<^item> \<open>Locks\<close> (\<^verbatim>\<open>locks.c\<close>): the routines on one hart, and a step relation in which any number of harts
    interleave at every access to a lock.
  \<^item> \<open>Ring\<close>, \<open>Pipes\<close> (\<^verbatim>\<open>pipes.c\<close>), \<open>Console_Uart\<close> (\<^verbatim>\<open>console.c\<close>, \<^verbatim>\<open>uart.c\<close>): ring buffers with
    wrapping 32-bit indices refine queues (a locale, interpreted for the pipe and for the transmit
    buffer of the UART); a pipe delivers a stream, the console a line discipline.
  \<^item> \<open>Bufcache\<close> (\<^verbatim>\<open>bufcache.c\<close>): the doubly linked recency list, and the cache as a view of the disk.
  \<^item> \<open>Fs_Log\<close>, \<open>Fs_Inode\<close>, \<open>Fs_Dir\<close> (\<^verbatim>\<open>filesys.c\<close>): log and block bitmap, inodes, directories and paths.
  \<^item> \<open>File\<close> (\<^verbatim>\<open>file.c\<close> and \<^verbatim>\<open>pipealloc\<close>): open files; reference counts are numbers of handles.
  \<^item> \<open>Process\<close>, \<open>Scheduling\<close> (\<^verbatim>\<open>process.c\<close>): the process table and its operations on the state of all
    the other components; harts and processes as a step relation.
  \<^item> \<open>Disk\<close> (\<^verbatim>\<open>disk.c\<close>): the rings of the virtio driver, with callers, interrupts and the device interleaved,
    against the atomic transfer of a block that \<open>Bufcache\<close> relies on.
  \<^item> \<open>Syscall_Args\<close> (\<^verbatim>\<open>syscall.c\<close>, first half), \<open>Sysfile\<close> (\<^verbatim>\<open>sysfile.c\<close>), \<open>Syscall\<close> (\<^verbatim>\<open>sysproc.c\<close> and the table of
    calls): every system call on the state of the whole kernel. The locale \<open>kernel_frame\<close> collects what an
    invariant needs to survive the parts of a call that change locks, memory and the file system.
    \<open>Descriptors\<close>: for every call, that reference counts of files stay the numbers of their descriptors.
  \<^item> \<open>Trap\<close> (\<^verbatim>\<open>trap.c\<close>, \<^verbatim>\<open>plic.c\<close>, the registers of \<^verbatim>\<open>regs.h\<close> they use): traps from user mode and from the kernel.
  \<^item> \<open>Boot\<close> (\<^verbatim>\<open>mstart.c\<close>, \<^verbatim>\<open>tvec.S\<close>, \<^verbatim>\<open>kernel.c\<close>, the machine mode registers of \<^verbatim>\<open>regs.h\<close>): the change to supervisor
    mode and the timer's handler on the registers of a hart, and the order in which the kernel is initialised.
  \<^item> \<open>Format\<close> (\<^verbatim>\<open>user/printf.c\<close>, \<^verbatim>\<open>kprintf.c\<close>): both formatted printers, against the pieces of a format.
  \<^item> \<open>Ulibc\<close> (\<^verbatim>\<open>ulibc.c\<close>): the user library. \<open>Umalloc\<close> (\<^verbatim>\<open>malloc.c\<close>): the ring of free blocks, against
    histories of calls and the blocks a program holds.
  \<^item> \<open>User_Prog\<close> (\<^verbatim>\<open>cat.c\<close>, \<^verbatim>\<open>wc.c\<close>, \<^verbatim>\<open>ls.c\<close>, \<^verbatim>\<open>echo.c\<close>, \<^verbatim>\<open>rm.c\<close>, \<^verbatim>\<open>mkdir.c\<close>, \<^verbatim>\<open>ln.c\<close>, \<^verbatim>\<open>kill.c\<close>, \<^verbatim>\<open>init.c\<close>, and \<^verbatim>\<open>gets\<close> and
    \<^verbatim>\<open>stat\<close> of \<^verbatim>\<open>ulibc.c\<close>): each program as the system calls it makes, given the answers to them.
  \<^item> \<open>Shell\<close> (\<^verbatim>\<open>sh.c\<close>, the parser), against a grammar of command lines and their spelling; \<open>Shell_Run\<close>
    (\<^verbatim>\<open>runcmd\<close>), against the stages of a command and their descriptors; \<open>Shell_Line\<close> (\<^verbatim>\<open>main\<close>, \<^verbatim>\<open>getcmd\<close>), which puts
    typing, parsing and running together.
  \<^item> \<open>Mkfs\<close> (\<^verbatim>\<open>makefs.c\<close>): the image builder on a disk of blocks, read back as the kernel reads it. \<open>Mount\<close>: the kernel's
    file system from \<^verbatim>\<open>filesys_init\<close> to \<^verbatim>\<open>read_inode\<close> on such an image; this theory has the theorem about both sides.

  \<^bold>\<open>State, errors, loops.\<close> A C structure is a record and a table of them a list; a pointer into a table
  is the index, a null pointer \<^term>\<open>None\<close> or 0. Integers keep their width where they can wrap. A routine takes
  the state and returns it in \<^typ>\<open>kerror + 'a\<close>: the left side is what does not return, a panic, a process
  that goes to sleep, an access outside an object, a loop without end. Code that is not C or not in the
  repository is an argument: the linker symbols, user memory as the kernel reaches it, the bytes a stack
  buffer happens to contain, the contents of the disk, what the host delivers for a file. A user program takes the
  list of answers the kernel gives to its calls, so that a theorem for all answers is one for all behaviours of the
  kernel; a program that waits for an answer that is not in the list is cut off there.
  A loop is a recursive function with a measure wherever one exists. Where the bound depends on the state,
  it counts rounds and ends in \<^term>\<open>Diverges\<close> when they are used up; the theorems about these loops say that
  they return. The rounds are: as many pages as lie between first and last page in \<^verbatim>\<open>map_pages\<close> and
  \<^verbatim>\<open>uvmunmap\<close>, the pages of the address space in \<^verbatim>\<open>uvmalloc\<close> and \<^verbatim>\<open>uvmcopy\<close>, one for each byte in the
  file loops, one for each pending character in the UART loops, one for each node in the list searches.

  \<^bold>\<open>What the theorems show.\<close> Safety of the concurrent part: one owner of a spin lock, interrupts off under a
  lock, no process on two harts, no lost wake-up. Memory: distinct pages from the allocators, the exact
  translation after \<^verbatim>\<open>map_pages\<close>, delivery of \<^verbatim>\<open>copyout\<close> across pages, the address space of a new process.
  Storage: coherence of the cache and its replacement order, room in the log under the admission test,
  round trips of the log header and the disk inode, unique inode table entries, delivery of
  \<^verbatim>\<open>read_inode\<close> and \<^verbatim>\<open>read_file\<close>, first match of \<^verbatim>\<open>dir_lookup\<close>, the elements of a path. Streams: pipes and the
  console refine a byte stream and a line editor. The shell's parser returns on every line, and reads back
  every line of its grammar; a typed line runs the programs of its stages with the descriptors it gives them.
  User side: \<^verbatim>\<open>malloc\<close> gives memory that nobody holds (for requests up to 2147483000 bytes, below which the argument of
  \<^verbatim>\<open>sbrk\<close> stays positive), \<^verbatim>\<open>free\<close> keeps the ring ordered and merged, \<^verbatim>\<open>printf\<close> prints the pieces of its format,
  \<^verbatim>\<open>atoi\<close> reads numbers back, \<^verbatim>\<open>cat\<close> and \<^verbatim>\<open>wc\<close> do not depend on how reads are cut, \<^verbatim>\<open>init\<close> restarts the shell for ever.
  The image of \<^verbatim>\<open>makefs\<close> reads back as the files it was given, and the kernel mounts it, finds each file by its path
  and reads its bytes. The timer keeps its period. System calls and traps: exact reference counts over every trap, \<^verbatim>\<open>exec\<close> commits or
  leaves the process alone, the state in which a process goes back to user mode, the end of a process that
  causes an exception, time of sleeping. The disk driver never gets stuck and serves each call once. Several theorems state exactly what the code does where that
  is not what it means to do; their text says so, and the list of findings names the lines.

  \<^bold>\<open>Not modelled\<close>: the assembly other than the timer's handler (\<^verbatim>\<open>boot.S\<close>, the trap vectors, the context switch,
  the stubs that \<^verbatim>\<open>usyscall.pl\<close> generates), whose effect on the registers is that of the C code before and after it;
  \<^verbatim>\<open>kmalloc.c\<close> and \<^verbatim>\<open>myuart.c\<close>, which are not built; in \<^verbatim>\<open>sh.c\<close> the failure of \<^verbatim>\<open>malloc\<close>, which the code does not
  test, and the branches of \<^verbatim>\<open>runcmd\<close> for a null pointer and for an unknown type, which the parser never makes.
\<close>

section \<open>From the image builder to the bytes of a file\<close>

text \<open>(C4) Built on the host, mounted by the kernel, found by its name, read byte for byte: when the files fit on the disk,
  \<^verbatim>\<open>makefs\<close> makes an image from which the kernel, after \<^verbatim>\<open>buffer_init\<close>, \<^verbatim>\<open>inode_init\<close> and \<^verbatim>\<open>filesys_init\<close>, resolves the
  path of each file to an inode and reads exactly its bytes, up to the length asked for or the end of the file, through
  direct and indirect blocks, without a change of other memory. The number of directory entries must not fill its
  last block: \<^verbatim>\<open>makefs\<close> then counts a block that it did not allocate.\<close>

theorem image_read_by_name:
  assumes "fits (image_files rd args)" "\<forall>a\<in>set args. proper rd a" "(length args + 2) mod 64 \<noteq> 0"
    and "names_file args i name" "length de = 16"
    and "c = file_data rd (args ! i)" "k = min (unat n) (length c)"
  shows "\<exists>m s1 s2 s3 s4. makefs rd args = Inr m \<and> filesys_init pid ROOTDEV (boot_fs (disk_of (img m))) = Inr s1 \<and>
    name_inode below past de nm pid cwd (SLASH # name) s1 = Inr (Some 1, s2) \<and> inode_lock pid 1 s2 = Inr s3 \<and>
    read_inode (store_run poke) pid 1 dst 0 n (s3, u) = Inr (int k, s4, \<lambda>x. if unat (x - dst) < k then c ! unat (x - dst) else u x)"
proof -
  obtain m where m: "makefs rd args = Inr m" "image_ok (img m) (image_files rd args)" by (rule makefs_image [OF assms(1,2)])
  have "length args \<le> 206" using assms(1) by (simp add: fits_def image_files_def)
  then obtain s1 s2 s3 s4 where "filesys_init pid ROOTDEV (boot_fs (disk_of (img m))) = Inr s1"
    "name_inode below past de nm pid cwd (SLASH # name) s1 = Inr (Some 1, s2)" "inode_lock pid 1 s2 = Inr s3"
    "read_inode (store_run poke) pid 1 dst 0 n (s3, u) = Inr (int k, s4, \<lambda>x. if unat (x - dst) < k then c ! unat (x - dst) else u x)"
    by (rule image_read [OF m(2) disk_of_image [OF m(2)] assms(3) _ assms(4-7)])
  then show ?thesis using m(1) by (intro exI conjI)
qed

theorem image_read_by_name_witness:
  "\<exists>m s1 s2 s3 s4 mem. makefs host_w [[95, 97]] = Inr m \<and> filesys_init 1 ROOTDEV (boot_fs (disk_of (img m))) = Inr s1 \<and>
    name_inode False 0 (replicate 16 0) (replicate 14 0) 1 0 [SLASH, 97] s1 = Inr (Some 1, s2) \<and> inode_lock 1 1 s2 = Inr s3 \<and>
    read_inode (store_run poke) 1 1 0x100 0 8 (s3, \<lambda>x. 0) = Inr (3, s4, mem) \<and> mem 0x102 = 33 \<and> mem 0x103 = 0"
proof -
  have nf: "names_file [[95, 97]] 0 [97]" by (simp add: names_file_def base_name_def shortname_def cname_def)
  have f: "(length [[95, 97 :: byte]] + 2) mod 64 \<noteq> 0" "length (replicate 16 (0 :: byte)) = 16" "[72, 105, 33] = file_data host_w ([[95, 97]] ! 0)"
    "3 = min (unat (8 :: u32)) (length [72, 105, 33 :: byte])" by (simp_all add: file_data_def host_w_def)
  obtain m s1 s2 s3 s4 where "makefs host_w [[95, 97]] = Inr m" "filesys_init 1 ROOTDEV (boot_fs (disk_of (img m))) = Inr s1"
    "name_inode False 0 (replicate 16 0) (replicate 14 0) 1 0 [SLASH, 97] s1 = Inr (Some 1, s2)" "inode_lock 1 1 s2 = Inr s3"
    "read_inode (store_run poke) 1 1 0x100 0 8 (s3, \<lambda>x. 0) = Inr (int 3, s4, \<lambda>x. if unat (x - 0x100) < 3 then [72, 105, 33] ! unat (x - 0x100) else 0)"
    using image_read_by_name [OF host_w_fits f(1) nf f(2-4), where pid = 1 and below = False and past = 0 and nm = "replicate 14 0"
        and cwd = 0 and dst = "0x100" and u = "\<lambda>x. 0"] by blast
  then show ?thesis by (intro exI conjI) (assumption | simp)+
qed

end
